(* ===== verification/Prelude.thy ===== *)
theory Prelude
  imports Main "HOL-Library.Word" "HOL-Library.Monad_Syntax"
begin

unbundle bit_operations_syntax

text \<open>
  Shared vocabulary of the development: the C integer types of the drivers, bounds-checked
  memory copies, the errno values the kernel code returns, and generic facts on lists and
  words that several components use.

  A C function that reads or writes memory returns an option: \<^const>\<open>None\<close> is an access
  outside the object, i.e. undefined behaviour of the C program, so a theorem that the
  result is \<^const>\<open>Some\<close> is a memory safety theorem.
\<close>

type_synonym byte = "8 word"
type_synonym u16 = "16 word"
type_synonym u32 = "32 word"
type_synonym u64 = "64 word"

named_theorems mem_simps \<open>facts on bounds-checked memory copies\<close>

subsection \<open>Error numbers\<close>

abbreviation (input) EINTR :: int where "EINTR \<equiv> 4"
abbreviation (input) EIO :: int where "EIO \<equiv> 5"
abbreviation (input) EAGAIN :: int where "EAGAIN \<equiv> 11"
abbreviation (input) ENOMEM :: int where "ENOMEM \<equiv> 12"
abbreviation (input) EFAULT :: int where "EFAULT \<equiv> 14"
abbreviation (input) EBUSY :: int where "EBUSY \<equiv> 16"
abbreviation (input) ENODEV :: int where "ENODEV \<equiv> 19"
abbreviation (input) EINVAL :: int where "EINVAL \<equiv> 22"
abbreviation (input) EUSERS :: int where "EUSERS \<equiv> 87"
abbreviation (input) ETIMEDOUT :: int where "ETIMEDOUT \<equiv> 110"
abbreviation (input) ERESTARTSYS :: int where "ERESTARTSYS \<equiv> 512"

subsection \<open>Memory copies\<close>

definition memcpy :: "'a list \<Rightarrow> nat \<Rightarrow> 'a list \<Rightarrow> 'a list option" where
  "memcpy d off s =
     (if off + length s \<le> length d then Some (take off d @ s @ drop (off + length s) d) else None)"

definition memread :: "'a list \<Rightarrow> nat \<Rightarrow> nat \<Rightarrow> 'a list option" where
  "memread d off n = (if off + n \<le> length d then Some (take n (drop off d)) else None)"

definition mem_at :: "'a list \<Rightarrow> nat \<Rightarrow> 'a option" where
  "mem_at d i = (if i < length d then Some (d ! i) else None)"

lemma memcpy_Some [mem_simps]:
  "off + length s \<le> length d \<Longrightarrow>
   memcpy d off s = Some (take off d @ s @ drop (off + length s) d)"
  by (simp add: memcpy_def)

lemma memcpy_length: "memcpy d off s = Some d' \<Longrightarrow> length d' = length d"
  by (auto simp: memcpy_def split: if_splits)

lemma memcpy_eq_Some_iff:
  "memcpy d off s = Some d' \<longleftrightarrow>
   off + length s \<le> length d \<and> d' = take off d @ s @ drop (off + length s) d"
  by (auto simp: memcpy_def)

lemma nth_splice:
  assumes "off + length s \<le> length d" "i < length d"
  shows "(take off d @ s @ drop (off + length s) d) ! i =
    (if off \<le> i \<and> i < off + length s then s ! (i - off) else d ! i)"
  using assms by (auto simp: nth_append)

lemma memread_Some [mem_simps]:
  "off + n \<le> length d \<Longrightarrow> memread d off n = Some (take n (drop off d))"
  by (simp add: memread_def)

lemma memread_length: "memread d off n = Some bs \<Longrightarrow> length bs = n"
  by (auto simp: memread_def split: if_splits)

lemma mem_at_Some [mem_simps]: "i < length d \<Longrightarrow> mem_at d i = Some (d ! i)"
  by (simp add: mem_at_def)

subsection \<open>Generic lemmas\<close>

lemma bind_eq_SomeE:
  assumes "Option.bind m f = Some y"
  obtains x where "m = Some x" "f x = Some y"
  using assms by (cases m) auto

lemma bind_Some_map: "Option.bind m (\<lambda>x. Some (f x)) = map_option f m"
  by (cases m) auto

lemma mod_add_less:
  fixes a b n :: nat
  assumes "a < n" "b < n"
  shows "(a + b) mod n = (if a + b < n then a + b else a + b - n)"
  using assms by (simp add: mod_if)

lemma mod_add_inj:
  fixes p i j n :: nat
  assumes "i < n" "j < n" "(p + i) mod n = (p + j) mod n"
  shows "i = j"
proof -
  have "i mod n = j mod n"
    using assms(3) by (simp add: nat_mod_eq_iff)
  then show ?thesis using assms(1,2) by simp
qed

lemma successively_nth:
  "successively P xs \<Longrightarrow> Suc i < length xs \<Longrightarrow> P (xs ! i) (xs ! Suc i)"
proof (induction P xs arbitrary: i rule: successively.induct)
  case (3 P x y xs)
  then show ?case by (cases i) auto
qed auto

lemma take_rotate_nth:
  "i < n \<Longrightarrow> n \<le> length d \<Longrightarrow> take n (rotate p d) ! i = d ! ((p + i) mod length d)"
  by (simp add: nth_rotate add.commute)

end
