(* ===== verification/RingBuffer.thy ===== *)
theory RingBuffer
  imports Prelude
begin

text \<open>
  The ring buffer of dvb-core (dvb_ringbuffer.c and dvb_ringbuffer.h): the byte FIFO between
  the demux (or the CAM link layer) and the readers, and the packet layer that CAM receive
  buffers put on top of it.

  Positions and sizes are the \<open>ssize_t\<close>/\<open>size_t\<close> values of the C code as naturals; they stay
  below the buffer size, so the additions of the code do not come near \<open>2 ^ 64\<close>.  Where the
  code computes a difference that may be negative (\<open>avail\<close>, \<open>free\<close>, \<open>consumed\<close>) the model
  computes with integers.  Every access to the data array is bounds checked:
  \<^const>\<open>None\<close> is an access outside the array.  The lock and the wait queue have no data.
\<close>

record ringbuf =
  rb_data :: "byte list"
  rb_size :: nat
  rb_pread :: nat
  rb_pwrite :: nat
  rb_error :: int

abbreviation (input) PKT_READY :: byte where "PKT_READY \<equiv> 0"
abbreviation (input) PKT_DISPOSED :: byte where "PKT_DISPOSED \<equiv> 1"
abbreviation (input) PKTHDRSIZE :: nat where "PKTHDRSIZE \<equiv> 3"

subsection \<open>Operations on the byte stream\<close>

definition dvb_ringbuffer_init :: "byte list \<Rightarrow> nat \<Rightarrow> ringbuf" where
  "dvb_ringbuffer_init d len =
     \<lparr>rb_data = d, rb_size = len, rb_pread = 0, rb_pwrite = 0, rb_error = 0\<rparr>"

definition dvb_ringbuffer_empty :: "ringbuf \<Rightarrow> bool" where
  "dvb_ringbuffer_empty r = (rb_pread r = rb_pwrite r)"

definition dvb_ringbuffer_free :: "ringbuf \<Rightarrow> int" where
  "dvb_ringbuffer_free r =
     (let free = int (rb_pread r) - int (rb_pwrite r);
          free = (if free \<le> 0 then free + int (rb_size r) else free)
      in free - 1)"

definition dvb_ringbuffer_avail :: "ringbuf \<Rightarrow> int" where
  "dvb_ringbuffer_avail r =
     (let avail = int (rb_pwrite r) - int (rb_pread r)
      in if avail < 0 then avail + int (rb_size r) else avail)"

definition dvb_ringbuffer_flush :: "ringbuf \<Rightarrow> ringbuf" where
  "dvb_ringbuffer_flush r = r\<lparr>rb_pread := rb_pwrite r, rb_error := 0\<rparr>"

definition dvb_ringbuffer_reset :: "ringbuf \<Rightarrow> ringbuf" where
  "dvb_ringbuffer_reset r = r\<lparr>rb_pread := 0, rb_pwrite := 0, rb_error := 0\<rparr>"

definition dvb_ringbuffer_flush_spinlock_wakeup :: "ringbuf \<Rightarrow> ringbuf" where
  "dvb_ringbuffer_flush_spinlock_wakeup r = dvb_ringbuffer_flush r"

text \<open>The number of bytes before the wrap, zero when the transfer does not wrap.\<close>

definition rb_split :: "nat \<Rightarrow> nat \<Rightarrow> nat \<Rightarrow> nat" where
  "rb_split sz pos len = (if pos + len > sz then sz - pos else 0)"

text \<open>
  One published chunk of a write: the copy into the array followed by the release store of
  the write pointer.  A write that wraps publishes two chunks, the first of which stores 0.
\<close>

definition rb_put_chunk :: "ringbuf \<Rightarrow> byte list \<Rightarrow> nat \<Rightarrow> ringbuf option" where
  "rb_put_chunk r bs newpos =
     do { d \<leftarrow> memcpy (rb_data r) (rb_pwrite r) bs;
          Some (r\<lparr>rb_data := d, rb_pwrite := newpos\<rparr>) }"

definition dvb_ringbuffer_write :: "ringbuf \<Rightarrow> byte list \<Rightarrow> (ringbuf \<times> int) option" where
  "dvb_ringbuffer_write r buf =
     (let len = length buf; split = rb_split (rb_size r) (rb_pwrite r) len
      in do {
        r1 \<leftarrow> (if split > 0 then rb_put_chunk r (take split buf) 0 else Some r);
        let buf1 = drop split buf;
        let todo = len - split;
        r2 \<leftarrow> rb_put_chunk r1 buf1 ((rb_pwrite r1 + todo) mod rb_size r);
        Some (r2, int len) })"

text \<open>
  A copy from user space gets the source bytes and yields the bytes that land in the kernel
  buffer together with the number of bytes that could not be copied.  The argument \<open>cfu\<close>
  stands for the two successive calls of \<open>copy_from_user\<close>.
\<close>

type_synonym user_copy = "nat \<Rightarrow> byte list \<Rightarrow> byte list \<times> nat"

definition rb_put_user_chunk ::
    "user_copy \<Rightarrow> nat \<Rightarrow> ringbuf \<Rightarrow> byte list \<Rightarrow> nat \<Rightarrow> (ringbuf \<times> bool) option" where
  "rb_put_user_chunk cfu i r bs newpos =
     (let (landed, status) = cfu i bs in do {
        d \<leftarrow> memcpy (rb_data r) (rb_pwrite r) landed;
        Some (if status \<noteq> 0 then (r\<lparr>rb_data := d\<rparr>, False)
              else (r\<lparr>rb_data := d, rb_pwrite := newpos\<rparr>, True)) })"

definition dvb_ringbuffer_write_user ::
    "user_copy \<Rightarrow> ringbuf \<Rightarrow> byte list \<Rightarrow> (ringbuf \<times> int) option" where
  "dvb_ringbuffer_write_user cfu r buf =
     (let len = length buf; split = rb_split (rb_size r) (rb_pwrite r) len
      in do {
        (r1, ok1) \<leftarrow> (if split > 0 then rb_put_user_chunk cfu 0 r (take split buf) 0
                      else Some (r, True));
        if \<not> ok1 then Some (r1, 0)
        else do {
          let todo = len - split;
          (r2, ok2) \<leftarrow> rb_put_user_chunk cfu 1 r1 (drop split buf)
                        ((rb_pwrite r1 + todo) mod rb_size r1);
          Some (r2, if ok2 then int len else int (len - todo)) } })"

text \<open>One published chunk of a read: the copy out of the array and the release store.\<close>

definition rb_get_chunk :: "ringbuf \<Rightarrow> nat \<Rightarrow> nat \<Rightarrow> (ringbuf \<times> byte list) option" where
  "rb_get_chunk r n newpos =
     do { bs \<leftarrow> memread (rb_data r) (rb_pread r) n;
          Some (r\<lparr>rb_pread := newpos\<rparr>, bs) }"

definition dvb_ringbuffer_read :: "ringbuf \<Rightarrow> nat \<Rightarrow> (ringbuf \<times> byte list) option" where
  "dvb_ringbuffer_read r len =
     (let split = rb_split (rb_size r) (rb_pread r) len
      in do {
        (r1, b1) \<leftarrow> (if split > 0 then rb_get_chunk r split 0 else Some (r, []));
        let todo = len - split;
        (r2, b2) \<leftarrow> rb_get_chunk r1 todo ((rb_pread r1 + todo) mod rb_size r);
        Some (r2, b1 @ b2) })"

text \<open>
  The user space variant: \<open>ok1\<close> and \<open>ok2\<close> say whether the two calls of \<open>copy_to_user\<close>
  succeed.  The result has the bytes that were delivered completely.
\<close>

definition dvb_ringbuffer_read_user ::
    "bool \<Rightarrow> bool \<Rightarrow> ringbuf \<Rightarrow> nat \<Rightarrow> (ringbuf \<times> int \<times> byte list) option" where
  "dvb_ringbuffer_read_user ok1 ok2 r len =
     (let split = rb_split (rb_size r) (rb_pread r) len
      in if split > 0 then do {
           (r1, b1) \<leftarrow> rb_get_chunk r split 0;
           if \<not> ok1 then Some (r, - EFAULT, [])
           else do {
             (r2, b2) \<leftarrow> rb_get_chunk r1 (len - split)
                          ((rb_pread r1 + (len - split)) mod rb_size r1);
             if \<not> ok2 then Some (r1, - EFAULT, b1) else Some (r2, int len, b1 @ b2) } }
         else do {
           (r2, b2) \<leftarrow> rb_get_chunk r len ((rb_pread r + len) mod rb_size r);
           if \<not> ok2 then Some (r, - EFAULT, []) else Some (r2, int len, b2) })"

subsection \<open>Operations on packets\<close>

definition DVB_RINGBUFFER_PEEK :: "ringbuf \<Rightarrow> nat \<Rightarrow> byte option" where
  "DVB_RINGBUFFER_PEEK r offs = mem_at (rb_data r) ((rb_pread r + offs) mod rb_size r)"

definition DVB_RINGBUFFER_SKIP :: "ringbuf \<Rightarrow> nat \<Rightarrow> ringbuf" where
  "DVB_RINGBUFFER_SKIP r num = r\<lparr>rb_pread := (rb_pread r + num) mod rb_size r\<rparr>"

definition DVB_RINGBUFFER_WRITE_BYTE :: "ringbuf \<Rightarrow> byte \<Rightarrow> ringbuf option" where
  "DVB_RINGBUFFER_WRITE_BYTE r b =
     do { d \<leftarrow> memcpy (rb_data r) (rb_pwrite r) [b];
          Some (r\<lparr>rb_data := d, rb_pwrite := (rb_pwrite r + 1) mod rb_size r\<rparr>) }"

definition dvb_ringbuffer_pkt_write :: "ringbuf \<Rightarrow> byte list \<Rightarrow> (ringbuf \<times> int) option" where
  "dvb_ringbuffer_pkt_write r buf =
     (let oldpwrite = rb_pwrite r; len = length buf in do {
        r1 \<leftarrow> DVB_RINGBUFFER_WRITE_BYTE r (of_nat (len div 256));
        r2 \<leftarrow> DVB_RINGBUFFER_WRITE_BYTE r1 (of_nat (len mod 256));
        r3 \<leftarrow> DVB_RINGBUFFER_WRITE_BYTE r2 PKT_READY;
        (r4, status) \<leftarrow> dvb_ringbuffer_write r3 buf;
        Some (if status < 0 then r4\<lparr>rb_pwrite := oldpwrite\<rparr> else r4, status) })"

definition rb_pktlen :: "ringbuf \<Rightarrow> nat \<Rightarrow> nat option" where
  "rb_pktlen r idx = do {
     hi \<leftarrow> mem_at (rb_data r) idx;
     lo \<leftarrow> mem_at (rb_data r) ((idx + 1) mod rb_size r);
     Some (unat hi * 256 + unat lo) }"

text \<open>
  The result of a packet read is the return code and the bytes; \<open>ok1\<close> and \<open>ok2\<close> are the
  outcomes of \<open>copy_to_user\<close> and both true in the kernel space variant.
\<close>

definition dvb_ringbuffer_pkt_read_user ::
    "bool \<Rightarrow> bool \<Rightarrow> ringbuf \<Rightarrow> nat \<Rightarrow> int \<Rightarrow> nat \<Rightarrow> (int \<times> byte list) option" where
  "dvb_ringbuffer_pkt_read_user ok1 ok2 r idx offset len = do {
     pktlen \<leftarrow> rb_pktlen r idx;
     if offset < 0 \<or> offset > int pktlen then Some (- EINVAL, [])
     else (let off = nat offset; len = (if off + len > pktlen then pktlen - off else len);
               idx = (idx + PKTHDRSIZE + off) mod rb_size r;
               split = rb_split (rb_size r) idx len
       in if split > 0 then do {
            b1 \<leftarrow> memread (rb_data r) idx split;
            if \<not> ok1 then Some (- EFAULT, [])
            else do {
              b2 \<leftarrow> memread (rb_data r) 0 (len - split);
              if \<not> ok2 then Some (- EFAULT, b1) else Some (int len, b1 @ b2) } }
          else do {
            b2 \<leftarrow> memread (rb_data r) idx len;
            if \<not> ok2 then Some (- EFAULT, []) else Some (int len, b2) }) }"

definition dvb_ringbuffer_pkt_read ::
    "ringbuf \<Rightarrow> nat \<Rightarrow> int \<Rightarrow> nat \<Rightarrow> (int \<times> byte list) option" where
  "dvb_ringbuffer_pkt_read r idx offset len = do {
     pktlen \<leftarrow> rb_pktlen r idx;
     if offset < 0 \<or> offset > int pktlen then Some (- EINVAL, [])
     else (let off = nat offset; len = (if off + len > pktlen then pktlen - off else len);
               idx = (idx + PKTHDRSIZE + off) mod rb_size r;
               split = rb_split (rb_size r) idx len
       in do {
         b1 \<leftarrow> (if split > 0 then memread (rb_data r) idx split else Some []);
         b2 \<leftarrow> memread (rb_data r) (if split > 0 then 0 else idx) (len - split);
         Some (int len, b1 @ b2) }) }"

text \<open>
  The clean-up loop may run forever on a corrupted buffer (a length that is a multiple of the
  buffer size), so it is a partial function: \<^const>\<open>None\<close> is a loop that does not end or an
  access outside the array.
\<close>

partial_function (option) rb_clean :: "ringbuf \<Rightarrow> ringbuf option" where
  "rb_clean r =
     (if dvb_ringbuffer_avail r > int PKTHDRSIZE
      then Option.bind (DVB_RINGBUFFER_PEEK r 2) (\<lambda>st.
           if st = PKT_DISPOSED
           then Option.bind (DVB_RINGBUFFER_PEEK r 0) (\<lambda>hi.
                Option.bind (DVB_RINGBUFFER_PEEK r 1) (\<lambda>lo.
                rb_clean (DVB_RINGBUFFER_SKIP r (unat hi * 256 + unat lo + PKTHDRSIZE))))
           else Some r)
      else Some r)"

definition dvb_ringbuffer_pkt_dispose :: "ringbuf \<Rightarrow> nat \<Rightarrow> ringbuf option" where
  "dvb_ringbuffer_pkt_dispose r idx = do {
     d \<leftarrow> memcpy (rb_data r) ((idx + 2) mod rb_size r) [PKT_DISPOSED];
     rb_clean (r\<lparr>rb_data := d\<rparr>) }"

text \<open>
  The search loop: \<open>avail - consumed\<close> shrinks by at least the header size in every turn.
  The result \<open>Some None\<close> is the return value -1.
\<close>

function rb_next_loop :: "ringbuf \<Rightarrow> int \<Rightarrow> nat \<Rightarrow> (nat \<times> nat) option option" where
  "rb_next_loop r consumed idx =
     (if dvb_ringbuffer_avail r - consumed > int PKTHDRSIZE
      then Option.bind (rb_pktlen r idx) (\<lambda>curpktlen.
           Option.bind (mem_at (rb_data r) ((idx + 2) mod rb_size r)) (\<lambda>curpktstatus.
           if curpktstatus = PKT_READY then Some (Some (idx, curpktlen))
           else rb_next_loop r (consumed + int (curpktlen + PKTHDRSIZE))
                  ((idx + curpktlen + PKTHDRSIZE) mod rb_size r)))
      else Some None)"
  by pat_completeness auto
termination
  by (relation "measure (\<lambda>(r, consumed, idx). nat (dvb_ringbuffer_avail r - consumed))") auto

declare rb_next_loop.simps [simp del]

definition dvb_ringbuffer_pkt_next ::
    "ringbuf \<Rightarrow> nat option \<Rightarrow> (nat \<times> nat) option option" where
  "dvb_ringbuffer_pkt_next r prev = do {
     idx \<leftarrow> (case prev of None \<Rightarrow> Some (rb_pread r)
              | Some i \<Rightarrow> do { curpktlen \<leftarrow> rb_pktlen r i;
                               Some ((i + curpktlen + PKTHDRSIZE) mod rb_size r) });
     let consumed = int idx - int (rb_pread r);
     let consumed = (if consumed < 0 then consumed + int (rb_size r) else consumed);
     rb_next_loop r consumed idx }"

subsection \<open>Invariant and abstraction\<close>

definition rb_wf :: "ringbuf \<Rightarrow> bool" where
  "rb_wf r \<longleftrightarrow> length (rb_data r) = rb_size r \<and> rb_pread r < rb_size r \<and> rb_pwrite r < rb_size r"

definition rb_used :: "ringbuf \<Rightarrow> nat" where
  "rb_used r = nat (dvb_ringbuffer_avail r)"

definition rb_contents :: "ringbuf \<Rightarrow> byte list" where
  "rb_contents r = take (rb_used r) (rotate (rb_pread r) (rb_data r))"

lemma avail_nonneg: "rb_wf r \<Longrightarrow> 0 \<le> dvb_ringbuffer_avail r"
  by (auto simp: rb_wf_def dvb_ringbuffer_avail_def Let_def)

lemma avail_eq_used: "rb_wf r \<Longrightarrow> dvb_ringbuffer_avail r = int (rb_used r)"
  by (simp add: rb_used_def avail_nonneg)

lemma used_less: "rb_wf r \<Longrightarrow> rb_used r < rb_size r"
  by (auto simp: rb_wf_def rb_used_def dvb_ringbuffer_avail_def Let_def)

lemma pwrite_used: "rb_wf r \<Longrightarrow> (rb_pread r + rb_used r) mod rb_size r = rb_pwrite r"
  by (cases "rb_pread r \<le> rb_pwrite r")
    (auto simp: rb_wf_def rb_used_def dvb_ringbuffer_avail_def Let_def nat_diff_distrib
      nat_add_distrib mod_add_less le_mod_geq)

lemma free_eq: "rb_wf r \<Longrightarrow> dvb_ringbuffer_free r = int (rb_size r) - 1 - int (rb_used r)"
  by (auto simp: rb_wf_def rb_used_def dvb_ringbuffer_avail_def dvb_ringbuffer_free_def Let_def)

lemma used_unique:
  assumes "rb_wf r" "n < rb_size r" "(rb_pread r + n) mod rb_size r = rb_pwrite r"
  shows "rb_used r = n"
  using mod_add_inj [of "rb_used r" "rb_size r" n "rb_pread r"]
    assms pwrite_used [OF assms(1)] used_less [OF assms(1)] by simp

lemma length_contents: "rb_wf r \<Longrightarrow> length (rb_contents r) = rb_used r"
  using used_less [of r] by (simp add: rb_contents_def rb_wf_def)

lemma contents_nth:
  "rb_wf r \<Longrightarrow> i < rb_used r \<Longrightarrow>
   rb_contents r ! i = rb_data r ! ((rb_pread r + i) mod rb_size r)"
  using used_less [of r] take_rotate_nth [of i "rb_used r" "rb_data r" "rb_pread r"]
  by (simp add: rb_contents_def rb_wf_def)

lemma empty_iff_contents: "rb_wf r \<Longrightarrow> dvb_ringbuffer_empty r \<longleftrightarrow> rb_contents r = []"
proof -
  assume wf: "rb_wf r"
  have "rb_used r = 0 \<longleftrightarrow> rb_pread r = rb_pwrite r"
    using wf by (auto simp: rb_wf_def rb_used_def dvb_ringbuffer_avail_def Let_def)
  then show ?thesis
    using wf length_contents [OF wf] by (auto simp: dvb_ringbuffer_empty_def)
qed

subsection \<open>One published chunk\<close>

lemma put_chunk:
  assumes wf: "rb_wf r" and fits: "rb_pwrite r + length bs \<le> rb_size r"
    and room: "rb_used r + length bs < rb_size r"
    and np: "np = (rb_pwrite r + length bs) mod rb_size r"
  shows "\<exists>r'. rb_put_chunk r bs np = Some r' \<and> rb_wf r' \<and> rb_size r' = rb_size r \<and>
      rb_pread r' = rb_pread r \<and> rb_pwrite r' = np \<and> rb_error r' = rb_error r \<and>
      rb_contents r' = rb_contents r @ bs"
proof -
  let ?n = "rb_size r" and ?p = "rb_pread r" and ?w = "rb_pwrite r" and ?u = "rb_used r"
  define d where "d = take ?w (rb_data r) @ bs @ drop (?w + length bs) (rb_data r)"
  define r' where "r' = r\<lparr>rb_data := d, rb_pwrite := np\<rparr>"
  have len: "length (rb_data r) = ?n" and n: "0 < ?n"
    using wf by (auto simp: rb_wf_def)
  have put: "rb_put_chunk r bs np = Some r'"
    using fits len by (simp add: rb_put_chunk_def mem_simps d_def r'_def)
  have wf': "rb_wf r'"
    using wf fits len n by (simp add: rb_wf_def r'_def d_def np)
  have "(?p + (?u + length bs)) mod ?n = np"
    unfolding np by (metis pwrite_used [OF wf] add.assoc mod_add_left_eq)
  then have used': "rb_used r' = ?u + length bs"
    using used_unique [OF wf', of "?u + length bs"] room by (simp add: r'_def)
  have nth': "rb_data r' ! i = (if ?w \<le> i \<and> i < ?w + length bs then bs ! (i - ?w) else rb_data r ! i)"
    if "i < ?n" for i
    using nth_splice [of ?w bs "rb_data r" i] fits len that by (simp add: r'_def d_def)
  have "rb_contents r' = rb_contents r @ bs"
  proof (rule nth_equalityI)
    show "length (rb_contents r') = length (rb_contents r @ bs)"
      by (simp add: length_contents wf wf' used')
  next
    fix i assume "i < length (rb_contents r')"
    then have i: "i < ?u + length bs" by (simp add: length_contents wf' used')
    have lhs: "rb_contents r' ! i = rb_data r' ! ((?p + i) mod ?n)"
      using contents_nth [OF wf'] i used' by (simp add: r'_def)
    show "rb_contents r' ! i = (rb_contents r @ bs) ! i"
    proof (cases "i < ?u")
      case True
      have "\<not> (?w \<le> (?p + i) mod ?n \<and> (?p + i) mod ?n < ?w + length bs)"
      proof
        assume a: "?w \<le> (?p + i) mod ?n \<and> (?p + i) mod ?n < ?w + length bs"
        define j where "j = (?p + i) mod ?n - ?w"
        have j: "(?p + i) mod ?n = ?w + j" "j < length bs" using a by (auto simp: j_def)
        have "(?p + (?u + j)) mod ?n = (?w + j) mod ?n"
          by (metis pwrite_used [OF wf] add.assoc mod_add_left_eq)
        also have "\<dots> = (?p + i) mod ?n" by (metis j(1) mod_mod_trivial)
        finally have "?u + j = i"
          by (rule mod_add_inj [rotated 2]) (use j room True used_less [OF wf] in auto)
        with True show False by simp
      qed
      then show ?thesis
        using True lhs nth' [of "(?p + i) mod ?n"] n
        by (simp only: nth_append length_contents [OF wf] contents_nth [OF wf True]) simp
    next
      case False
      define j where "j = i - ?u"
      have ij: "i = ?u + j" and j: "j < length bs" using False i by (auto simp: j_def)
      have "(?p + i) mod ?n = (?w + j) mod ?n"
        unfolding ij by (metis pwrite_used [OF wf] add.assoc mod_add_left_eq)
      then have "(?p + i) mod ?n = ?w + j" using fits j by simp
      then show ?thesis
        using lhs nth' [of "?w + j"] j fits ij
        by (simp add: nth_append length_contents wf)
    qed
  qed
  with put wf' show ?thesis by (intro exI [of _ r']) (simp add: r'_def)
qed

lemma get_chunk:
  assumes wf: "rb_wf r" and fits: "rb_pread r + k \<le> rb_size r" and avl: "k \<le> rb_used r"
    and np: "np = (rb_pread r + k) mod rb_size r"
  shows "\<exists>r'. rb_get_chunk r k np = Some (r', take k (rb_contents r)) \<and> rb_wf r' \<and>
      rb_size r' = rb_size r \<and> rb_pread r' = np \<and> rb_pwrite r' = rb_pwrite r \<and>
      rb_error r' = rb_error r \<and> rb_data r' = rb_data r \<and>
      rb_contents r' = drop k (rb_contents r)"
proof -
  let ?n = "rb_size r" and ?p = "rb_pread r" and ?u = "rb_used r"
  define r' where "r' = r\<lparr>rb_pread := np\<rparr>"
  have len: "length (rb_data r) = ?n" and n: "0 < ?n"
    using wf by (auto simp: rb_wf_def)
  have wf': "rb_wf r'" using wf n by (simp add: rb_wf_def r'_def np)
  have "(np + (?u - k)) mod ?n = (?p + ?u) mod ?n"
  proof -
    have "(np + (?u - k)) mod ?n = (?p + k + (?u - k)) mod ?n"
      unfolding np by (rule mod_add_left_eq)
    then show ?thesis using avl by simp
  qed
  then have used': "rb_used r' = ?u - k"
    using used_unique [OF wf', of "?u - k"] used_less [OF wf] pwrite_used [OF wf]
    by (simp add: r'_def)
  have "take k (drop ?p (rb_data r)) = take k (rb_contents r)"
    by (rule nth_equalityI)
      (use avl fits len used_less [OF wf] in
        \<open>auto simp: length_contents wf contents_nth\<close>)
  moreover have "rb_contents r' = drop k (rb_contents r)"
  proof (rule nth_equalityI)
    show "length (rb_contents r') = length (drop k (rb_contents r))"
      by (simp add: length_contents wf wf' used')
  next
    fix i assume "i < length (rb_contents r')"
    then have i: "i < ?u - k" by (simp add: length_contents wf' used')
    have "rb_contents r' ! i = rb_data r ! ((np + i) mod ?n)"
      using contents_nth [OF wf'] i used' by (simp add: r'_def)
    also have "(np + i) mod ?n = (?p + (k + i)) mod ?n"
      unfolding np by (simp add: mod_add_left_eq add.assoc)
    finally show "rb_contents r' ! i = drop k (rb_contents r) ! i"
      using i avl by (simp add: length_contents wf contents_nth)
  qed
  ultimately show ?thesis
    using wf' fits len by (intro exI [of _ r']) (simp add: r'_def rb_get_chunk_def mem_simps)
qed

subsection \<open>The FIFO contract\<close>

lemma ring_write:
  assumes wf: "rb_wf r" and room: "rb_used r + length buf < rb_size r"
  shows "\<exists>r'. dvb_ringbuffer_write r buf = Some (r', int (length buf)) \<and> rb_wf r' \<and>
      rb_size r' = rb_size r \<and> rb_pread r' = rb_pread r \<and> rb_error r' = rb_error r \<and>
      rb_pwrite r' = (rb_pwrite r + length buf) mod rb_size r \<and>
      rb_contents r' = rb_contents r @ buf"
proof (cases "rb_pwrite r + length buf > rb_size r")
  case False
  then show ?thesis
    using put_chunk [OF wf _ room refl]
    by (auto simp: dvb_ringbuffer_write_def rb_split_def)
next
  case True
  define s where "s = rb_size r - rb_pwrite r"
  have s: "0 < s" "s < length buf" "rb_pwrite r + s = rb_size r"
    using True wf by (auto simp: s_def rb_wf_def)
  obtain r1 where r1: "rb_put_chunk r (take s buf) 0 = Some r1" "rb_wf r1"
    "rb_size r1 = rb_size r" "rb_pread r1 = rb_pread r" "rb_pwrite r1 = 0"
    "rb_error r1 = rb_error r" "rb_contents r1 = rb_contents r @ take s buf"
    using put_chunk [OF wf, of "take s buf" 0] s room by auto
  have u1: "rb_used r1 = rb_used r + s"
    using length_contents [OF r1(2)] length_contents [OF wf] r1(7) s by simp
  obtain r2 where r2: "rb_put_chunk r1 (drop s buf) ((length buf - s) mod rb_size r) = Some r2"
    "rb_wf r2" "rb_size r2 = rb_size r1" "rb_pread r2 = rb_pread r1"
    "rb_pwrite r2 = (length buf - s) mod rb_size r"
    "rb_error r2 = rb_error r1" "rb_contents r2 = rb_contents r1 @ drop s buf"
  proof -
    have "rb_pwrite r1 + length (drop s buf) \<le> rb_size r1"
      "rb_used r1 + length (drop s buf) < rb_size r1"
      "(length buf - s) mod rb_size r = (rb_pwrite r1 + length (drop s buf)) mod rb_size r1"
      using r1 s room u1 by auto
    from put_chunk [OF r1(2) this] that show ?thesis by blast
  qed
  have "rb_pwrite r + length buf = rb_size r + (length buf - s)" using s by simp
  then have "(rb_pwrite r + length buf) mod rb_size r = (length buf - s) mod rb_size r"
    by simp
  with True s r1 r2 show ?thesis
    by (simp add: dvb_ringbuffer_write_def rb_split_def flip: s_def)
qed

lemma ring_read:
  assumes wf: "rb_wf r" and avl: "k \<le> rb_used r"
  shows "\<exists>r'. dvb_ringbuffer_read r k = Some (r', take k (rb_contents r)) \<and> rb_wf r' \<and>
      rb_size r' = rb_size r \<and> rb_pwrite r' = rb_pwrite r \<and> rb_error r' = rb_error r \<and>
      rb_pread r' = (rb_pread r + k) mod rb_size r \<and> rb_data r' = rb_data r \<and>
      rb_contents r' = drop k (rb_contents r)"
proof (cases "rb_pread r + k > rb_size r")
  case False
  then show ?thesis
    using get_chunk [OF wf _ avl refl]
    by (auto simp: dvb_ringbuffer_read_def rb_split_def)
next
  case True
  define s where "s = rb_size r - rb_pread r"
  have s: "0 < s" "s < k" "rb_pread r + s = rb_size r"
    using True wf by (auto simp: s_def rb_wf_def)
  obtain r1 where r1: "rb_get_chunk r s 0 = Some (r1, take s (rb_contents r))" "rb_wf r1"
    "rb_size r1 = rb_size r" "rb_pread r1 = 0" "rb_pwrite r1 = rb_pwrite r"
    "rb_error r1 = rb_error r" "rb_data r1 = rb_data r"
    "rb_contents r1 = drop s (rb_contents r)"
    using get_chunk [OF wf, of s 0] s avl by auto
  have u1: "rb_used r1 = rb_used r - s"
    using length_contents [OF r1(2)] length_contents [OF wf] r1(8) s by simp
  obtain r2 where r2: "rb_get_chunk r1 (k - s) ((k - s) mod rb_size r) =
      Some (r2, take (k - s) (rb_contents r1))"
    "rb_wf r2" "rb_size r2 = rb_size r1" "rb_pread r2 = (k - s) mod rb_size r"
    "rb_pwrite r2 = rb_pwrite r1" "rb_error r2 = rb_error r1" "rb_data r2 = rb_data r1"
    "rb_contents r2 = drop (k - s) (rb_contents r1)"
  proof -
    have "rb_pread r1 + (k - s) \<le> rb_size r1" "k - s \<le> rb_used r1"
      "(k - s) mod rb_size r = (rb_pread r1 + (k - s)) mod rb_size r1"
      using r1 s avl u1 used_less [OF wf] by auto
    from get_chunk [OF r1(2) this] that show ?thesis by blast
  qed
  have "rb_pread r + k = rb_size r + (k - s)" using s by simp
  then have "(rb_pread r + k) mod rb_size r = (k - s) mod rb_size r"
    by simp
  moreover have "take s (rb_contents r) @ take (k - s) (drop s (rb_contents r)) = take k (rb_contents r)"
    using s by (metis less_imp_le_nat le_add_diff_inverse take_add)
  ultimately show ?thesis
    using True s r1 r2 by (simp add: dvb_ringbuffer_read_def rb_split_def flip: s_def)
qed

lemma ring_flush: "rb_wf r \<Longrightarrow> rb_wf (dvb_ringbuffer_flush r) \<and> rb_contents (dvb_ringbuffer_flush r) = []"
  by (auto simp: rb_wf_def dvb_ringbuffer_flush_def rb_contents_def rb_used_def
      dvb_ringbuffer_avail_def)

lemma ring_reset: "rb_wf r \<Longrightarrow> rb_wf (dvb_ringbuffer_reset r) \<and> rb_contents (dvb_ringbuffer_reset r) = []"
  by (auto simp: rb_wf_def dvb_ringbuffer_reset_def rb_contents_def rb_used_def
      dvb_ringbuffer_avail_def)

lemma ring_init:
  "length d = len \<Longrightarrow> 0 < len \<Longrightarrow>
   rb_wf (dvb_ringbuffer_init d len) \<and> rb_contents (dvb_ringbuffer_init d len) = []"
  by (auto simp: rb_wf_def dvb_ringbuffer_init_def rb_contents_def rb_used_def
      dvb_ringbuffer_avail_def)

subsection \<open>The FIFO interface and its clients\<close>

text \<open>
  What the readers and writers of a ring buffer rely on: bytes that fit are appended, bytes
  that are there are taken from the front, and both keep the invariant.
\<close>

datatype fifo_op = Put "byte list" | Get nat

fun fifo_run ::
    "('q \<Rightarrow> byte list \<Rightarrow> 'q option) \<Rightarrow> ('q \<Rightarrow> nat \<Rightarrow> ('q \<times> byte list) option) \<Rightarrow>
     'q \<Rightarrow> fifo_op list \<Rightarrow> ('q \<times> byte list) option" where
  "fifo_run put get q [] = Some (q, [])"
| "fifo_run put get q (Put bs # ops) = do { q1 \<leftarrow> put q bs; fifo_run put get q1 ops }"
| "fifo_run put get q (Get k # ops) = do {
     (q1, out) \<leftarrow> get q k;
     (q2, rest) \<leftarrow> fifo_run put get q1 ops;
     Some (q2, out @ rest) }"

text \<open>A schedule is admissible when every write fits and every read is covered.\<close>

fun fifo_ok :: "nat \<Rightarrow> nat \<Rightarrow> fifo_op list \<Rightarrow> bool" where
  "fifo_ok cap n [] = True"
| "fifo_ok cap n (Put bs # ops) = (n + length bs < cap \<and> fifo_ok cap (n + length bs) ops)"
| "fifo_ok cap n (Get k # ops) = (k \<le> n \<and> fifo_ok cap (n - k) ops)"

fun fifo_input :: "fifo_op list \<Rightarrow> byte list" where
  "fifo_input [] = []"
| "fifo_input (Put bs # ops) = bs @ fifo_input ops"
| "fifo_input (Get k # ops) = fifo_input ops"

locale byte_fifo =
  fixes wf :: "'q \<Rightarrow> bool" and cap :: "'q \<Rightarrow> nat" and contents :: "'q \<Rightarrow> byte list"
    and put :: "'q \<Rightarrow> byte list \<Rightarrow> 'q option"
    and get :: "'q \<Rightarrow> nat \<Rightarrow> ('q \<times> byte list) option"
  assumes put_law: "wf q \<Longrightarrow> length (contents q) + length bs < cap q \<Longrightarrow>
      \<exists>q'. put q bs = Some q' \<and> wf q' \<and> cap q' = cap q \<and> contents q' = contents q @ bs"
    and get_law: "wf q \<Longrightarrow> k \<le> length (contents q) \<Longrightarrow>
      \<exists>q'. get q k = Some (q', take k (contents q)) \<and> wf q' \<and> cap q' = cap q \<and>
           contents q' = drop k (contents q)"
begin

lemma run_order:
  assumes "wf q" "fifo_ok (cap q) (length (contents q)) ops"
  shows "\<exists>q' out. fifo_run put get q ops = Some (q', out) \<and> wf q' \<and> cap q' = cap q \<and>
      contents q @ fifo_input ops = out @ contents q'"
  using assms
proof (induction ops arbitrary: q)
  case Nil
  then show ?case by simp
next
  case (Cons x ops)
  show ?case
  proof (cases x)
    case (Put bs)
    then obtain q1 where q1: "put q bs = Some q1" "wf q1" "cap q1 = cap q"
      "contents q1 = contents q @ bs"
      using put_law [of q bs] Cons.prems by auto
    then show ?thesis using Cons.IH [of q1] Cons.prems Put by auto
  next
    case (Get k)
    then obtain q1 where q1: "get q k = Some (q1, take k (contents q))" "wf q1" "cap q1 = cap q"
      "contents q1 = drop k (contents q)"
      using get_law [of q k] Cons.prems by auto
    then obtain q2 out where "fifo_run put get q1 ops = Some (q2, out)" "wf q2" "cap q2 = cap q"
      "drop k (contents q) @ fifo_input ops = out @ contents q2"
      using Cons.IH [of q1] Cons.prems Get by auto
    then show ?thesis
      using q1 Get by simp (metis append.assoc append_take_drop_id)
  qed
qed

end

definition rb_put :: "ringbuf \<Rightarrow> byte list \<Rightarrow> ringbuf option" where
  "rb_put r bs = map_option fst (dvb_ringbuffer_write r bs)"

interpretation rb: byte_fifo rb_wf rb_size rb_contents rb_put dvb_ringbuffer_read
proof
  show "\<exists>q'. rb_put q bs = Some q' \<and> rb_wf q' \<and> rb_size q' = rb_size q \<and>
      rb_contents q' = rb_contents q @ bs"
    if "rb_wf q" "length (rb_contents q) + length bs < rb_size q" for q bs
    using ring_write [of q bs] that by (auto simp: rb_put_def length_contents)
  show "\<exists>q'. dvb_ringbuffer_read q k = Some (q', take k (rb_contents q)) \<and> rb_wf q' \<and>
      rb_size q' = rb_size q \<and> rb_contents q' = drop k (rb_contents q)"
    if "rb_wf q" "k \<le> length (rb_contents q)" for q k
    using ring_read [of q k] that by (auto simp: length_contents)
qed

subsection \<open>One producer and one consumer\<close>

text \<open>
  The halves of a write and of a read as separate steps: the producer copies bytes to the
  free part of the array and then publishes them by storing the write pointer; the consumer
  copies bytes out and then gives the space back by storing the read pointer.  The sizes are
  those that the callers take from \<^const>\<open>dvb_ringbuffer_free\<close> and
  \<^const>\<open>dvb_ringbuffer_avail\<close>; a transfer that wraps is two such chunks.  The ghost fields
  \<open>sent\<close> and \<open>got\<close> record the bytes published and the bytes received.
\<close>

record spsc =
  ring :: ringbuf
  prod :: "byte list option"
  cons :: "byte list option"
  sent :: "byte list"
  got :: "byte list"

inductive spsc_step :: "spsc \<Rightarrow> spsc \<Rightarrow> bool" where
  producer_copy: "prod s = None \<Longrightarrow> rb_pwrite (ring s) + length bs \<le> rb_size (ring s) \<Longrightarrow>
    int (length bs) \<le> dvb_ringbuffer_free (ring s) \<Longrightarrow>
    memcpy (rb_data (ring s)) (rb_pwrite (ring s)) bs = Some d \<Longrightarrow>
    spsc_step s (s\<lparr>ring := (ring s)\<lparr>rb_data := d\<rparr>, prod := Some bs\<rparr>)"
| producer_publish: "prod s = Some bs \<Longrightarrow>
    spsc_step s (s\<lparr>ring := (ring s)\<lparr>rb_pwrite :=
        (rb_pwrite (ring s) + length bs) mod rb_size (ring s)\<rparr>,
      prod := None, sent := sent s @ bs\<rparr>)"
| consumer_copy: "cons s = None \<Longrightarrow> int k \<le> dvb_ringbuffer_avail (ring s) \<Longrightarrow>
    rb_pread (ring s) + k \<le> rb_size (ring s) \<Longrightarrow>
    memread (rb_data (ring s)) (rb_pread (ring s)) k = Some bs \<Longrightarrow>
    spsc_step s (s\<lparr>cons := Some bs\<rparr>)"
| consumer_publish: "cons s = Some bs \<Longrightarrow>
    spsc_step s (s\<lparr>ring := (ring s)\<lparr>rb_pread :=
        (rb_pread (ring s) + length bs) mod rb_size (ring s)\<rparr>,
      cons := None, got := got s @ bs\<rparr>)"

inductive_cases spsc_stepE: "spsc_step s t"

definition spsc_init :: "ringbuf \<Rightarrow> spsc" where
  "spsc_init r = \<lparr>ring = r, prod = None, cons = None, sent = [], got = []\<rparr>"

inductive spsc_reachable :: "ringbuf \<Rightarrow> spsc \<Rightarrow> bool" for r where
  init: "spsc_reachable r (spsc_init r)"
| step: "spsc_reachable r s \<Longrightarrow> spsc_step s t \<Longrightarrow> spsc_reachable r t"

definition pending_ok :: "ringbuf \<Rightarrow> byte list option \<Rightarrow> bool" where
  "pending_ok r p \<longleftrightarrow> (case p of None \<Rightarrow> True | Some bs \<Rightarrow>
     rb_pwrite r + length bs \<le> rb_size r \<and> rb_used r + length bs < rb_size r \<and>
     take (length bs) (drop (rb_pwrite r) (rb_data r)) = bs)"

definition taken_ok :: "ringbuf \<Rightarrow> byte list option \<Rightarrow> bool" where
  "taken_ok r c \<longleftrightarrow> (case c of None \<Rightarrow> True | Some bs \<Rightarrow>
     rb_pread r + length bs \<le> rb_size r \<and> length bs \<le> rb_used r \<and>
     take (length bs) (rb_contents r) = bs)"

definition spsc_inv :: "spsc \<Rightarrow> bool" where
  "spsc_inv s \<longleftrightarrow> rb_wf (ring s) \<and> sent s = got s @ rb_contents (ring s) \<and>
     pending_ok (ring s) (prod s) \<and> taken_ok (ring s) (cons s)"

lemma copy_contents:
  assumes wf: "rb_wf r" and cp: "memcpy (rb_data r) (rb_pwrite r) bs = Some d"
    and room: "rb_used r + length bs < rb_size r"
  shows "rb_wf (r\<lparr>rb_data := d\<rparr>)" "rb_used (r\<lparr>rb_data := d\<rparr>) = rb_used r"
    "rb_contents (r\<lparr>rb_data := d\<rparr>) = rb_contents r"
    "take (length bs) (drop (rb_pwrite r) d) = bs"
proof -
  show wf': "rb_wf (r\<lparr>rb_data := d\<rparr>)"
    using wf memcpy_length [OF cp] by (simp add: rb_wf_def)
  show used': "rb_used (r\<lparr>rb_data := d\<rparr>) = rb_used r"
    by (simp add: rb_used_def dvb_ringbuffer_avail_def Let_def)
  have fits: "rb_pwrite r + length bs \<le> rb_size r"
    and d: "d = take (rb_pwrite r) (rb_data r) @ bs @ drop (rb_pwrite r + length bs) (rb_data r)"
    using cp wf by (auto simp: memcpy_eq_Some_iff rb_wf_def)
  then show "take (length bs) (drop (rb_pwrite r) d) = bs"
    using wf by (simp add: rb_wf_def)
  define r' where "r' = r\<lparr>rb_data := d, rb_pwrite := (rb_pwrite r + length bs) mod rb_size r\<rparr>"
  have "rb_wf r'" and c: "rb_contents r' = rb_contents r @ bs"
    using put_chunk [OF wf fits room refl] cp by (auto simp: rb_put_chunk_def r'_def)
  then have "rb_used r' = rb_used r + length bs"
    using length_contents [of r'] length_contents [OF wf] by simp
  then have "take (rb_used r) (rb_contents r') = rb_contents (r\<lparr>rb_data := d\<rparr>)"
    by (simp add: rb_contents_def used' min_def) (simp add: r'_def)
  then show "rb_contents (r\<lparr>rb_data := d\<rparr>) = rb_contents r"
    by (simp add: c length_contents wf)
qed

lemma publish_contents:
  assumes wf: "rb_wf r" and p: "pending_ok r (Some bs)"
  shows "rb_wf (r\<lparr>rb_pwrite := (rb_pwrite r + length bs) mod rb_size r\<rparr>)"
    "rb_contents (r\<lparr>rb_pwrite := (rb_pwrite r + length bs) mod rb_size r\<rparr>) = rb_contents r @ bs"
proof -
  have "take (rb_pwrite r) (rb_data r) @ bs @ drop (rb_pwrite r + length bs) (rb_data r) = rb_data r"
    using p by (simp add: pending_ok_def) (metis append_take_drop_id drop_drop add.commute)
  then have "rb_put_chunk r bs np = Some (r\<lparr>rb_pwrite := np\<rparr>)" for np
    using p wf by (simp add: rb_put_chunk_def pending_ok_def rb_wf_def mem_simps)
  then show "rb_wf (r\<lparr>rb_pwrite := (rb_pwrite r + length bs) mod rb_size r\<rparr>)"
    "rb_contents (r\<lparr>rb_pwrite := (rb_pwrite r + length bs) mod rb_size r\<rparr>) = rb_contents r @ bs"
    using put_chunk [OF wf _ _ refl, of bs] p by (auto simp: pending_ok_def)
qed

lemma give_back_contents:
  assumes wf: "rb_wf r" and t: "taken_ok r (Some bs)"
  shows "rb_wf (r\<lparr>rb_pread := (rb_pread r + length bs) mod rb_size r\<rparr>)"
    "rb_contents r = bs @ rb_contents (r\<lparr>rb_pread := (rb_pread r + length bs) mod rb_size r\<rparr>)"
proof -
  have g: "rb_get_chunk r (length bs) np =
      Some (r\<lparr>rb_pread := np\<rparr>, take (length bs) (drop (rb_pread r) (rb_data r)))" for np
    using t wf by (simp add: rb_get_chunk_def taken_ok_def rb_wf_def mem_simps)
  then show "rb_wf (r\<lparr>rb_pread := (rb_pread r + length bs) mod rb_size r\<rparr>)"
    using get_chunk [OF wf _ _ refl, of "length bs"] t by (auto simp: taken_ok_def)
  have "rb_contents (r\<lparr>rb_pread := (rb_pread r + length bs) mod rb_size r\<rparr>) =
      drop (length bs) (rb_contents r)"
    using get_chunk [OF wf _ _ refl, of "length bs"] t g by (auto simp: taken_ok_def)
  then show "rb_contents r = bs @ rb_contents (r\<lparr>rb_pread := (rb_pread r + length bs) mod rb_size r\<rparr>)"
    using t by (simp add: taken_ok_def) (metis append_take_drop_id)
qed

lemma taken_contents:
  assumes "rb_wf r" "rb_pread r + k \<le> rb_size r" "k \<le> rb_used r"
    "memread (rb_data r) (rb_pread r) k = Some bs"
  shows "taken_ok r (Some bs)"
proof -
  have "take k (rb_contents r) = bs" "length bs = k"
    using get_chunk [OF assms(1-3) refl] assms(4) memread_length [OF assms(4)]
    by (auto simp: rb_get_chunk_def)
  then show ?thesis using assms by (simp add: taken_ok_def)
qed

lemma taken_ok_mono:
  assumes "rb_wf r" "rb_wf r'" "taken_ok r c" "rb_pread r' = rb_pread r"
    "rb_size r' = rb_size r" "rb_contents r' = rb_contents r @ bs"
  shows "taken_ok r' c"
proof -
  have "rb_used r' = rb_used r + length bs"
    using assms length_contents by (metis length_append)
  then show ?thesis
    using assms by (auto simp: taken_ok_def length_contents split: option.splits)
qed

lemma pending_ok_mono:
  assumes "rb_wf r" "rb_wf r'" "pending_ok r p" "rb_pwrite r' = rb_pwrite r"
    "rb_data r' = rb_data r" "rb_size r' = rb_size r" "rb_contents r = bs @ rb_contents r'"
  shows "pending_ok r' p"
proof -
  have "rb_used r = length bs + rb_used r'"
    using assms length_contents by (metis length_append)
  then show ?thesis using assms by (auto simp: pending_ok_def split: option.splits)
qed

lemma spsc_step_inv:
  assumes step: "spsc_step s t" and inv: "spsc_inv s"
  shows "spsc_inv t"
proof -
  let ?r = "ring s"
  have wf: "rb_wf ?r" and eq: "sent s = got s @ rb_contents ?r"
    and p: "pending_ok ?r (prod s)" and c: "taken_ok ?r (cons s)"
    using inv by (auto simp: spsc_inv_def)
  from step show ?thesis
  proof (cases rule: spsc_step.cases)
    case (producer_copy bs d)
    then have "rb_used ?r + length bs < rb_size ?r" using free_eq [OF wf] by simp
    note cc = copy_contents [OF wf producer_copy(5) this]
    then show ?thesis
      using producer_copy eq cc \<open>rb_used ?r + length bs < rb_size ?r\<close> c
      by (auto simp: spsc_inv_def pending_ok_def taken_ok_def split: option.splits)
  next
    case (producer_publish bs)
    then have "pending_ok ?r (Some bs)" using p by simp
    note pub = publish_contents [OF wf this]
    show ?thesis
      using producer_publish eq pub taken_ok_mono [OF wf pub(1) c _ _ pub(2)]
      by (simp add: spsc_inv_def pending_ok_def)
  next
    case (consumer_copy k bs)
    then have "k \<le> rb_used ?r" using avail_eq_used [OF wf] by simp
    then show ?thesis
      using consumer_copy taken_contents [OF wf consumer_copy(4) _ consumer_copy(5)] wf eq p
      by (simp add: spsc_inv_def)
  next
    case (consumer_publish bs)
    then have "taken_ok ?r (Some bs)" using c by simp
    note g = give_back_contents [OF wf this]
    show ?thesis
      using consumer_publish eq g pending_ok_mono [OF wf g(1) p _ _ _ g(2)]
      by (simp add: spsc_inv_def taken_ok_def)
  qed
qed

lemma spsc_reachable_inv:
  "spsc_reachable r s \<Longrightarrow> rb_wf r \<Longrightarrow> rb_contents r = [] \<Longrightarrow> spsc_inv s"
proof (induction rule: spsc_reachable.induct)
  case init
  then show ?case by (simp add: spsc_inv_def spsc_init_def pending_ok_def taken_ok_def)
next
  case (step s t)
  then show ?case by (blast intro: spsc_step_inv)
qed

subsection \<open>Transfers from and to user space\<close>

text \<open>
  Documented behaviour of \<open>copy_from_user\<close>: it fills the whole destination (with zeros where
  the source cannot be read), and returns 0 exactly when it copied everything.
\<close>

definition user_copy_ok :: "user_copy \<Rightarrow> bool" where
  "user_copy_ok cfu \<longleftrightarrow> (\<forall>i bs. length (fst (cfu i bs)) = length bs \<and>
      (snd (cfu i bs) = 0 \<longrightarrow> fst (cfu i bs) = bs))"

lemma put_user_chunk:
  assumes wf: "rb_wf r" and ok: "user_copy_ok cfu"
    and fits: "rb_pwrite r + length bs \<le> rb_size r"
    and room: "rb_used r + length bs < rb_size r"
    and np: "np = (rb_pwrite r + length bs) mod rb_size r"
  shows "\<exists>r' fin. rb_put_user_chunk cfu i r bs np = Some (r', fin) \<and> rb_wf r' \<and>
      rb_size r' = rb_size r \<and> (fin \<longrightarrow> rb_pwrite r' = np) \<and>
      rb_contents r' = rb_contents r @ (if fin then bs else [])"
proof -
  obtain landed st where cf: "cfu i bs = (landed, st)" by force
  then have len: "length landed = length bs" and full: "st = 0 \<Longrightarrow> landed = bs"
    using ok by (auto simp: user_copy_ok_def dest: spec [of _ i] dest!: spec [of _ bs])
  obtain d where d: "memcpy (rb_data r) (rb_pwrite r) landed = Some d"
    using fits wf len by (simp add: memcpy_def rb_wf_def)
  show ?thesis
  proof (cases "st = 0")
    case True
    then have "rb_put_user_chunk cfu i r bs np = map_option (\<lambda>r'. (r', True)) (rb_put_chunk r bs np)"
      using cf d full by (simp add: rb_put_user_chunk_def rb_put_chunk_def)
    then show ?thesis using put_chunk [OF wf fits room np] by auto
  next
    case False
    have "rb_used r + length landed < rb_size r" using room len by simp
    from False copy_contents [OF wf d this] cf d show ?thesis
      by (intro exI [of _ "r\<lparr>rb_data := d\<rparr>"] exI [of _ False])
        (simp add: rb_put_user_chunk_def)
  qed
qed

lemma write_user_cases:
  assumes wf: "rb_wf r" and room: "rb_used r + length buf < rb_size r" and ok: "user_copy_ok cfu"
  shows "\<exists>r' n. dvb_ringbuffer_write_user cfu r buf = Some (r', int n) \<and> rb_wf r' \<and>
      rb_size r' = rb_size r \<and> n \<le> length buf \<and> rb_contents r' = rb_contents r @ take n buf"
proof (cases "rb_pwrite r + length buf > rb_size r")
  case False
  then obtain r' fin where "rb_put_user_chunk cfu 1 r buf ((rb_pwrite r + length buf) mod rb_size r) =
      Some (r', fin)" "rb_wf r'" "rb_size r' = rb_size r"
      "rb_contents r' = rb_contents r @ (if fin then buf else [])"
    using put_user_chunk [OF wf ok _ room refl, of 1] by auto
  then show ?thesis using False
    by (intro exI [of _ r'] exI [of _ "if fin then length buf else 0"])
      (auto simp: dvb_ringbuffer_write_user_def rb_split_def)
next
  case True
  define s where "s = rb_size r - rb_pwrite r"
  have s: "0 < s" "s < length buf" "rb_pwrite r + s = rb_size r"
    using True wf by (auto simp: s_def rb_wf_def)
  obtain r1 fin where r1: "rb_put_user_chunk cfu 0 r (take s buf) 0 = Some (r1, fin)" "rb_wf r1"
    "rb_size r1 = rb_size r" "fin \<longrightarrow> rb_pwrite r1 = 0"
    "rb_contents r1 = rb_contents r @ (if fin then take s buf else [])"
    using put_user_chunk [OF wf ok, of "take s buf" 0 0] s room by auto
  show ?thesis
  proof (cases fin)
    case False
    then show ?thesis using r1 True s
      by (intro exI [of _ r1] exI [of _ 0])
        (simp add: dvb_ringbuffer_write_user_def rb_split_def flip: s_def)
  next
    case fin: True
    have u1: "rb_used r1 = rb_used r + s"
      using length_contents [OF r1(2)] length_contents [OF wf] r1(5) s fin by simp
    have "rb_pwrite r1 + length (drop s buf) \<le> rb_size r1"
      "rb_used r1 + length (drop s buf) < rb_size r1"
      using r1 s room u1 fin by auto
    from put_user_chunk [OF r1(2) ok this refl, of 1]
    obtain r2 fin2 where r2: "rb_put_user_chunk cfu 1 r1 (drop s buf)
        ((rb_pwrite r1 + length (drop s buf)) mod rb_size r1) = Some (r2, fin2)" "rb_wf r2"
      "rb_size r2 = rb_size r1" "rb_contents r2 = rb_contents r1 @ (if fin2 then drop s buf else [])"
      by auto
    then show ?thesis using True fin r1 s
      by (intro exI [of _ r2] exI [of _ "if fin2 then length buf else s"])
        (auto simp: dvb_ringbuffer_write_user_def rb_split_def simp flip: s_def)
  qed
qed

lemma read_user_ok:
  assumes "rb_wf r" "k \<le> rb_used r"
  shows "\<exists>r'. dvb_ringbuffer_read_user True True r k = Some (r', int k, take k (rb_contents r)) \<and>
      rb_wf r' \<and> rb_contents r' = drop k (rb_contents r)"
proof -
  have "dvb_ringbuffer_read_user True True r k =
      map_option (\<lambda>(r', bs). (r', int k, bs)) (dvb_ringbuffer_read r k)"
    by (auto simp: dvb_ringbuffer_read_user_def dvb_ringbuffer_read_def Let_def rb_get_chunk_def
        split: option.splits prod.splits bind_splits)
  then show ?thesis using ring_read [OF assms] by auto
qed

subsection \<open>Packets\<close>

text \<open>
  The abstract view of a buffer used in packet mode: a list of packets, each with its status
  byte and a payload, laid out as a header of three bytes followed by the payload.  Payloads
  are non-empty, as the loops of the code stop when no more than a header is left.
\<close>

type_synonym pkt = "byte \<times> byte list"

definition pkt_enc :: "pkt \<Rightarrow> byte list" where
  "pkt_enc p = [of_nat (length (snd p) div 256), of_nat (length (snd p) mod 256), fst p] @ snd p"

definition pkts_enc :: "pkt list \<Rightarrow> byte list" where
  "pkts_enc ps = concat (map pkt_enc ps)"

definition pkt_ok :: "pkt \<Rightarrow> bool" where
  "pkt_ok p \<longleftrightarrow> 0 < length (snd p) \<and> length (snd p) < 65536"

definition rb_pkts :: "ringbuf \<Rightarrow> pkt list \<Rightarrow> bool" where
  "rb_pkts r ps \<longleftrightarrow> rb_wf r \<and> rb_contents r = pkts_enc ps \<and> list_all pkt_ok ps"

definition pkt_off :: "pkt list \<Rightarrow> nat \<Rightarrow> nat" where
  "pkt_off ps k = length (pkts_enc (take k ps))"

definition pkt_pos :: "ringbuf \<Rightarrow> pkt list \<Rightarrow> nat \<Rightarrow> nat" where
  "pkt_pos r ps k = (rb_pread r + pkt_off ps k) mod rb_size r"

lemma length_pkt_enc [simp]: "length (pkt_enc p) = length (snd p) + 3"
  by (simp add: pkt_enc_def)

lemma pkts_enc_simps [simp]:
  "pkts_enc [] = []" "pkts_enc (p # ps) = pkt_enc p @ pkts_enc ps"
  "pkts_enc (ps @ qs) = pkts_enc ps @ pkts_enc qs"
  by (simp_all add: pkts_enc_def)

lemma pkts_enc_at:
  "k < length ps \<Longrightarrow> pkts_enc ps = pkts_enc (take k ps) @ pkt_enc (ps ! k) @ pkts_enc (drop (Suc k) ps)"
  by (metis id_take_nth_drop pkts_enc_simps(2,3))

lemma pkt_off_Suc: "k < length ps \<Longrightarrow> pkt_off ps (Suc k) = pkt_off ps k + length (snd (ps ! k)) + 3"
  by (simp add: pkt_off_def take_Suc_conv_app_nth)

lemma pkt_off_0 [simp]: "pkt_off ps 0 = 0"
  by (simp add: pkt_off_def)

lemma pkt_off_bound:
  assumes "rb_pkts r ps" "k < length ps"
  shows "pkt_off ps k + length (snd (ps ! k)) + 3 \<le> rb_used r"
proof -
  have "length (pkts_enc ps) = rb_used r"
    using assms(1) length_contents [of r] by (simp add: rb_pkts_def)
  moreover have "length (pkts_enc (take k ps)) + length (snd (ps ! k)) + 3 \<le> length (pkts_enc ps)"
    by (subst pkts_enc_at [OF assms(2)]) simp
  ultimately show ?thesis by (simp add: pkt_off_def)
qed

lemma pkt_off_all: "rb_pkts r ps \<Longrightarrow> pkt_off ps (length ps) = rb_used r"
  using length_contents [of r] by (simp add: rb_pkts_def pkt_off_def)

lemma pkt_byte:
  assumes "rb_pkts r ps" "k < length ps" "j < length (snd (ps ! k)) + 3"
  shows "mem_at (rb_data r) ((rb_pread r + (pkt_off ps k + j)) mod rb_size r) =
    Some (pkt_enc (ps ! k) ! j)"
proof -
  have wf: "rb_wf r" and n: "0 < rb_size r" using assms(1) by (auto simp: rb_pkts_def rb_wf_def)
  have i: "pkt_off ps k + j < rb_used r" using pkt_off_bound [OF assms(1,2)] assms(3) by simp
  have "rb_contents r ! (pkt_off ps k + j) = pkt_enc (ps ! k) ! j"
    using assms unfolding rb_pkts_def
    by (subst pkts_enc_at [OF assms(2)] | simp add: pkt_off_def nth_append)+
  then show ?thesis
    using contents_nth [OF wf i] wf n by (simp add: mem_at_def rb_wf_def)
qed

lemma byte_pair:
  "n < 65536 \<Longrightarrow> unat (of_nat (n div 256) :: byte) * 256 + unat (of_nat (n mod 256) :: byte) = n"
  by (simp add: unat_of_nat)

lemma pos_shift: "(pkt_pos r ps k + j) mod rb_size r = (rb_pread r + (pkt_off ps k + j)) mod rb_size r"
  by (simp add: pkt_pos_def mod_add_left_eq add.assoc)

lemma pkt_ok_pos: "pkt_ok p \<Longrightarrow> 1 \<le> length (snd p)"
  by (cases "snd p") (auto simp: pkt_ok_def)

lemma rb_pkts_ok: "rb_pkts r ps \<Longrightarrow> k < length ps \<Longrightarrow> pkt_ok (ps ! k)"
  by (simp add: rb_pkts_def list_all_length)

lemma pktlen_at:
  assumes "rb_pkts r ps" "k < length ps"
  shows "rb_pktlen r (pkt_pos r ps k) = Some (length (snd (ps ! k)))"
proof -
  have "mem_at (rb_data r) (pkt_pos r ps k) = Some (pkt_enc (ps ! k) ! 0)"
    using pkt_byte [OF assms, of 0] by (simp add: pkt_pos_def)
  moreover have "mem_at (rb_data r) ((pkt_pos r ps k + 1) mod rb_size r) = Some (pkt_enc (ps ! k) ! 1)"
    unfolding pos_shift by (rule pkt_byte [OF assms]) simp
  ultimately show ?thesis
    using byte_pair [of "length (snd (ps ! k))"] rb_pkts_ok [OF assms]
    by (simp add: rb_pktlen_def pkt_enc_def pkt_ok_def)
qed

lemma status_at:
  assumes "rb_pkts r ps" "k < length ps"
  shows "mem_at (rb_data r) ((pkt_pos r ps k + 2) mod rb_size r) = Some (fst (ps ! k))"
  unfolding pos_shift using pkt_byte [OF assms, of 2] by (simp add: pkt_enc_def)

lemma pos_Suc:
  "k < length ps \<Longrightarrow>
   (pkt_pos r ps k + length (snd (ps ! k)) + 3) mod rb_size r = pkt_pos r ps (Suc k)"
  using pos_shift [of r ps k "length (snd (ps ! k)) + 3"]
  by (simp add: pkt_off_Suc pkt_pos_def add.assoc)

lemma next_loop:
  assumes r: "rb_pkts r ps" and "k \<le> length ps"
  shows "rb_next_loop r (int (pkt_off ps k)) (pkt_pos r ps k) =
    Some (map_option (\<lambda>j. (pkt_pos r ps j, length (snd (ps ! j))))
      (find (\<lambda>j. fst (ps ! j) = PKT_READY) [k..<length ps]))"
  using assms(2)
proof (induction "length ps - k" arbitrary: k)
  case 0
  then have "k = length ps" by simp
  moreover have "dvb_ringbuffer_avail r = int (rb_used r)"
    using r avail_eq_used by (simp add: rb_pkts_def)
  ultimately show ?case
    using pkt_off_all [OF r] by (simp add: rb_next_loop.simps)
next
  case (Suc n)
  then have k: "k < length ps" by simp
  have avl: "dvb_ringbuffer_avail r = int (rb_used r)"
    using r avail_eq_used by (simp add: rb_pkts_def)
  have more: "dvb_ringbuffer_avail r - int (pkt_off ps k) > int PKTHDRSIZE"
    using pkt_off_bound [OF r k] pkt_ok_pos [OF rb_pkts_ok [OF r k]] unfolding avl by linarith
  have up: "[k..<length ps] = k # [Suc k..<length ps]" using k by (simp add: upt_conv_Cons)
  have "rb_next_loop r (int (pkt_off ps (Suc k))) (pkt_pos r ps (Suc k)) =
    Some (map_option (\<lambda>j. (pkt_pos r ps j, length (snd (ps ! j))))
      (find (\<lambda>j. fst (ps ! j) = PKT_READY) [Suc k..<length ps]))"
    by (rule Suc.hyps(1)) (use Suc k in auto)
  then show ?case
    using more pktlen_at [OF r k] status_at [OF r k] pos_Suc [OF k, of r] pkt_off_Suc [OF k]
    by (subst rb_next_loop.simps) (simp add: up add.assoc)
qed

lemma pkt_next_first:
  assumes "rb_pkts r ps"
  shows "dvb_ringbuffer_pkt_next r None =
    Some (map_option (\<lambda>j. (pkt_pos r ps j, length (snd (ps ! j))))
      (find (\<lambda>j. fst (ps ! j) = PKT_READY) [0..<length ps]))"
  using next_loop [OF assms, of 0] assms
  by (simp add: dvb_ringbuffer_pkt_next_def pkt_pos_def rb_pkts_def rb_wf_def)

lemma consumed_eq:
  assumes "rb_wf r" "off < rb_size r"
  defines "c \<equiv> int ((rb_pread r + off) mod rb_size r) - int (rb_pread r)"
  shows "(if c < 0 then c + int (rb_size r) else c) = int off"
  using assms mod_add_less [of "rb_pread r" "rb_size r" off] by (auto simp: rb_wf_def)

lemma pkt_next_after:
  assumes r: "rb_pkts r ps" and k: "k < length ps"
  shows "dvb_ringbuffer_pkt_next r (Some (pkt_pos r ps k)) =
    Some (map_option (\<lambda>j. (pkt_pos r ps j, length (snd (ps ! j))))
      (find (\<lambda>j. fst (ps ! j) = PKT_READY) [Suc k..<length ps]))"
proof -
  have wf: "rb_wf r" using r by (simp add: rb_pkts_def)
  have "pkt_off ps (Suc k) < rb_size r"
    using pkt_off_bound [OF r k] used_less [OF wf] by (simp add: pkt_off_Suc [OF k])
  note c = consumed_eq [OF wf this]
  show ?thesis
    using next_loop [OF r, of "Suc k"] k pktlen_at [OF r k] pos_Suc [OF k, of r] c
    by (simp add: dvb_ringbuffer_pkt_next_def pkt_pos_def Let_def)
qed

lemma put_byte:
  assumes "rb_wf r" "rb_used r + 1 < rb_size r"
  shows "\<exists>r'. DVB_RINGBUFFER_WRITE_BYTE r b = Some r' \<and> rb_wf r' \<and> rb_size r' = rb_size r \<and>
    rb_pread r' = rb_pread r \<and> rb_used r' = rb_used r + 1 \<and> rb_contents r' = rb_contents r @ [b]"
proof -
  have "DVB_RINGBUFFER_WRITE_BYTE r b = rb_put_chunk r [b] ((rb_pwrite r + 1) mod rb_size r)"
    by (simp add: DVB_RINGBUFFER_WRITE_BYTE_def rb_put_chunk_def)
  moreover have "\<exists>r'. rb_put_chunk r [b] ((rb_pwrite r + 1) mod rb_size r) = Some r' \<and>
    rb_wf r' \<and> rb_size r' = rb_size r \<and> rb_pread r' = rb_pread r \<and> rb_contents r' = rb_contents r @ [b]"
    using put_chunk [OF assms(1), of "[b]"] assms by (auto simp: rb_wf_def)
  ultimately show ?thesis
    using length_contents assms(1) by (metis length_append_singleton Suc_eq_plus1)
qed

lemma pkt_write:
  assumes r: "rb_pkts r ps" and buf: "pkt_ok (PKT_READY, buf)"
    and room: "rb_used r + length buf + 3 < rb_size r"
  shows "\<exists>r'. dvb_ringbuffer_pkt_write r buf = Some (r', int (length buf)) \<and>
    rb_pkts r' (ps @ [(PKT_READY, buf)]) \<and> rb_pread r' = rb_pread r \<and> rb_size r' = rb_size r"
proof -
  have wf: "rb_wf r" and c: "rb_contents r = pkts_enc ps" using r by (auto simp: rb_pkts_def)
  obtain r1 where r1: "DVB_RINGBUFFER_WRITE_BYTE r (of_nat (length buf div 256)) = Some r1"
    "rb_wf r1" "rb_size r1 = rb_size r" "rb_pread r1 = rb_pread r" "rb_used r1 = rb_used r + 1"
    "rb_contents r1 = rb_contents r @ [of_nat (length buf div 256)]"
    using put_byte [OF wf] room by auto
  obtain r2 where r2: "DVB_RINGBUFFER_WRITE_BYTE r1 (of_nat (length buf mod 256)) = Some r2"
    "rb_wf r2" "rb_size r2 = rb_size r" "rb_pread r2 = rb_pread r" "rb_used r2 = rb_used r + 2"
    "rb_contents r2 = rb_contents r1 @ [of_nat (length buf mod 256)]"
    using put_byte [OF r1(2)] room r1 by auto
  obtain r3 where r3: "DVB_RINGBUFFER_WRITE_BYTE r2 PKT_READY = Some r3"
    "rb_wf r3" "rb_size r3 = rb_size r" "rb_pread r3 = rb_pread r" "rb_used r3 = rb_used r + 3"
    "rb_contents r3 = rb_contents r2 @ [PKT_READY]"
  proof -
    have "rb_used r2 + 1 < rb_size r2" using room r2 by simp
    from put_byte [OF r2(2) this, of PKT_READY] that r2 show ?thesis by auto
  qed
  obtain r4 where "dvb_ringbuffer_write r3 buf = Some (r4, int (length buf))" "rb_wf r4"
    "rb_size r4 = rb_size r" "rb_pread r4 = rb_pread r" "rb_contents r4 = rb_contents r3 @ buf"
    using ring_write [OF r3(2), of buf] r3 room by auto
  with r1 r2 r3 c r buf show ?thesis
    by (simp add: dvb_ringbuffer_pkt_write_def rb_pkts_def pkt_enc_def)
qed

lemma skip_contents:
  assumes "rb_wf r" "n \<le> rb_used r"
  shows "rb_wf (DVB_RINGBUFFER_SKIP r n)" "rb_contents (DVB_RINGBUFFER_SKIP r n) = drop n (rb_contents r)"
    "rb_used (DVB_RINGBUFFER_SKIP r n) = rb_used r - n"
proof -
  obtain r' where r': "rb_wf r'" "rb_size r' = rb_size r" "rb_pwrite r' = rb_pwrite r"
    "rb_error r' = rb_error r" "rb_pread r' = (rb_pread r + n) mod rb_size r"
    "rb_data r' = rb_data r" "rb_contents r' = drop n (rb_contents r)"
    using ring_read [OF assms] by auto
  then have "r' = DVB_RINGBUFFER_SKIP r n" by (simp add: DVB_RINGBUFFER_SKIP_def)
  with r' show "rb_wf (DVB_RINGBUFFER_SKIP r n)"
    "rb_contents (DVB_RINGBUFFER_SKIP r n) = drop n (rb_contents r)" by auto
  then show "rb_used (DVB_RINGBUFFER_SKIP r n) = rb_used r - n"
    using length_contents assms(1) by (metis length_drop)
qed

lemma clean_pkts:
  assumes "rb_pkts r ps"
  shows "\<exists>r'. rb_clean r = Some r' \<and> rb_pkts r' (dropWhile (\<lambda>p. fst p = PKT_DISPOSED) ps) \<and>
    rb_size r' = rb_size r"
  using assms
proof (induction ps arbitrary: r)
  case Nil
  then have "dvb_ringbuffer_avail r = 0"
    using pkt_off_all [OF Nil] avail_eq_used by (simp add: rb_pkts_def)
  with Nil show ?case by (simp add: rb_clean.simps)
next
  case (Cons p ps)
  have wf: "rb_wf r" using Cons.prems by (simp add: rb_pkts_def)
  have b: "pkt_off (p # ps) 0 + length (snd p) + 3 \<le> rb_used r"
    using pkt_off_bound [OF Cons.prems, of 0] by simp
  have more: "dvb_ringbuffer_avail r > int PKTHDRSIZE"
    using b pkt_ok_pos [OF rb_pkts_ok [OF Cons.prems, of 0]] unfolding avail_eq_used [OF wf]
    by simp
  have peek: "DVB_RINGBUFFER_PEEK r j = Some (pkt_enc p ! j)" if "j < 3" for j
    using pkt_byte [OF Cons.prems, of 0 j] that by (simp add: DVB_RINGBUFFER_PEEK_def)
  have len: "unat (pkt_enc p ! 0) * 256 + unat (pkt_enc p ! 1) = length (snd p)"
    using byte_pair [of "length (snd p)"] rb_pkts_ok [OF Cons.prems, of 0]
    by (simp add: pkt_enc_def pkt_ok_def)
  let ?r = "DVB_RINGBUFFER_SKIP r (length (snd p) + 3)"
  have step: "rb_clean r = (if fst p = PKT_DISPOSED then rb_clean ?r else Some r)"
    using more peek len by (subst rb_clean.simps) (simp add: pkt_enc_def)
  show ?case
  proof (cases "fst p = PKT_DISPOSED")
    case True
    have "rb_pkts ?r ps"
      using skip_contents [OF wf, of "length (snd p) + 3"] b Cons.prems by (simp add: rb_pkts_def)
    from Cons.IH [OF this] True step show ?thesis by (simp add: DVB_RINGBUFFER_SKIP_def)
  next
    case False
    then show ?thesis using step Cons.prems by simp
  qed
qed

lemma memcpy_one: "j < length d \<Longrightarrow> memcpy d j [x] = Some (d[j := x])"
  by (simp add: memcpy_def upd_conv_take_nth_drop)

lemma set_byte_contents:
  fixes x :: byte
  assumes wf: "rb_wf r" and i: "i < rb_used r"
  defines "r' \<equiv> r\<lparr>rb_data := (rb_data r)[(rb_pread r + i) mod rb_size r := x]\<rparr>"
  shows "rb_wf r'" "rb_contents r' = (rb_contents r)[i := x]"
proof -
  have n: "0 < rb_size r" "length (rb_data r) = rb_size r" using wf by (auto simp: rb_wf_def)
  show wf': "rb_wf r'" using wf by (simp add: rb_wf_def r'_def)
  have u: "rb_used r' = rb_used r" by (simp add: r'_def rb_used_def dvb_ringbuffer_avail_def Let_def)
  show "rb_contents r' = (rb_contents r)[i := x]"
  proof (rule nth_equalityI)
    fix j assume "j < length (rb_contents r')"
    then have j: "j < rb_used r" by (simp add: length_contents wf' u)
    have "(rb_pread r + i) mod rb_size r = (rb_pread r + j) mod rb_size r \<longleftrightarrow> i = j"
      using mod_add_inj [of i "rb_size r" j] i j used_less [OF wf] by auto
    then show "rb_contents r' ! j = (rb_contents r)[i := x] ! j"
      using contents_nth [OF wf', of j] contents_nth [OF wf j] i j u n
      by (simp add: r'_def length_contents [OF wf] nth_list_update)
  qed (simp add: length_contents wf wf' u)
qed

lemma pkts_enc_mark:
  "k < length ps \<Longrightarrow> (pkts_enc ps)[pkt_off ps k + 2 := x] = pkts_enc (ps[k := (x, snd (ps ! k))])"
  unfolding pkt_off_def
  by (subst pkts_enc_at, assumption, subst upd_conv_take_nth_drop, assumption)
    (simp add: list_update_append pkt_enc_def numeral_2_eq_2)

lemma pkt_dispose:
  assumes r: "rb_pkts r ps" and k: "k < length ps"
  shows "\<exists>r'. dvb_ringbuffer_pkt_dispose r (pkt_pos r ps k) = Some r' \<and> rb_size r' = rb_size r \<and>
    rb_pkts r' (dropWhile (\<lambda>p. fst p = PKT_DISPOSED) (ps[k := (PKT_DISPOSED, snd (ps ! k))]))"
proof -
  have wf: "rb_wf r" and n: "0 < rb_size r" "length (rb_data r) = rb_size r"
    using r by (auto simp: rb_pkts_def rb_wf_def)
  have i: "pkt_off ps k + 2 < rb_used r" using pkt_off_bound [OF r k] by simp
  let ?j = "(rb_pread r + (pkt_off ps k + 2)) mod rb_size r"
  let ?r = "r\<lparr>rb_data := (rb_data r)[?j := PKT_DISPOSED]\<rparr>"
  have "pkt_ok (PKT_DISPOSED, snd (ps ! k))" using rb_pkts_ok [OF r k] by (simp add: pkt_ok_def)
  then have "list_all pkt_ok (ps[k := (PKT_DISPOSED, snd (ps ! k))])"
    using r by (auto simp: rb_pkts_def list_all_iff dest: set_update_subset_insert [THEN subsetD])
  then have "rb_pkts ?r (ps[k := (PKT_DISPOSED, snd (ps ! k))])"
    using set_byte_contents [OF wf i, of PKT_DISPOSED] r pkts_enc_mark [OF k, of PKT_DISPOSED]
    by (simp add: rb_pkts_def)
  from clean_pkts [OF this] show ?thesis
    using n unfolding dvb_ringbuffer_pkt_dispose_def pos_shift by (auto simp: memcpy_one)
qed

lemma read_bytes:
  "map_option snd (dvb_ringbuffer_read r n) =
   (let split = rb_split (rb_size r) (rb_pread r) n in
    do { b1 \<leftarrow> (if split > 0 then memread (rb_data r) (rb_pread r) split else Some []);
         b2 \<leftarrow> memread (rb_data r) (if split > 0 then 0 else rb_pread r) (n - split);
         Some (b1 @ b2) })"
  by (cases "rb_split (rb_size r) (rb_pread r) n > 0")
    (auto simp: dvb_ringbuffer_read_def Let_def rb_get_chunk_def split: Option.bind_splits)

lemma pkt_read:
  assumes r: "rb_pkts r ps" and k: "k < length ps" and off: "off \<le> length (snd (ps ! k))"
  shows "dvb_ringbuffer_pkt_read r (pkt_pos r ps k) (int off) len =
    Some (int (min len (length (snd (ps ! k)) - off)), take len (drop off (snd (ps ! k))))"
proof -
  let ?n = "min len (length (snd (ps ! k)) - off)" and ?o = "pkt_off ps k + (3 + off)"
  have wf: "rb_wf r" and c: "rb_contents r = pkts_enc ps" using r by (auto simp: rb_pkts_def)
  have b: "?o + ?n \<le> rb_used r" using pkt_off_bound [OF r k] off by simp
  have "drop ?o (rb_contents r) = drop off (snd (ps ! k)) @ pkts_enc (drop (Suc k) ps)"
    using off unfolding c
    by (subst pkts_enc_at [OF k]) (simp add: pkt_off_def pkt_enc_def numeral_3_eq_3)
  then have slice: "take ?n (drop ?o (rb_contents r)) = take len (drop off (snd (ps ! k)))"
    using off by (simp add: min_def)
  let ?s = "DVB_RINGBUFFER_SKIP r ?o"
  have "rb_wf ?s" "rb_contents ?s = drop ?o (rb_contents r)" "?n \<le> rb_used ?s"
    using skip_contents [OF wf, of ?o] b by auto
  then have "map_option snd (dvb_ringbuffer_read ?s ?n) = Some (take ?n (drop ?o (rb_contents r)))"
    using ring_read [of ?s ?n] by auto
  moreover have "rb_pread ?s = (pkt_pos r ps k + 3 + off) mod rb_size r"
    using pos_shift [of r ps k "3 + off"] by (simp add: DVB_RINGBUFFER_SKIP_def add.assoc)
  moreover have "dvb_ringbuffer_pkt_read r (pkt_pos r ps k) (int off) len =
    map_option (\<lambda>bs. (int ?n, bs)) (map_option snd (dvb_ringbuffer_read ?s ?n))"
    using pktlen_at [OF r k] off calculation(2) unfolding read_bytes
    by (auto simp: dvb_ringbuffer_pkt_read_def Let_def DVB_RINGBUFFER_SKIP_def min_def
        bind_map_option option.map_comp comp_def map_option_bind)
  ultimately show ?thesis
    using slice by simp
qed

subsection \<open>Properties\<close>

text \<open>A buffer of eight bytes whose pointers are about to wrap, for the witnesses.\<close>

abbreviation ring8 :: ringbuf where
  "ring8 \<equiv> \<lparr>rb_data = replicate 8 0, rb_size = 8, rb_pread = 6, rb_pwrite = 6, rb_error = 0\<rparr>"

text \<open>
  C21.  A ring buffer is a FIFO: whatever the order in which writes that fit and reads that are
  covered are made, none of them leaves the array, and the bytes read are the bytes written,
  in order and without loss, with the unread ones still in the buffer.
\<close>

theorem ringbuffer_fifo:
  assumes "rb_wf r" "fifo_ok (rb_size r) (length (rb_contents r)) ops"
  shows "\<exists>r' out. fifo_run rb_put dvb_ringbuffer_read r ops = Some (r', out) \<and> rb_wf r' \<and>
    rb_contents r @ fifo_input ops = out @ rb_contents r'"
  using rb.run_order [OF assms] by auto

theorem ringbuffer_fifo_witness:
  "\<exists>r' out. fifo_run rb_put dvb_ringbuffer_read ring8 [Put [1, 2, 3, 4, 5], Get 3, Put [6, 7, 8], Get 4] =
      Some (r', out) \<and> rb_wf r' \<and>
    rb_contents ring8 @ [1, 2, 3, 4, 5, 6, 7, 8] = out @ rb_contents r'"
  using ringbuffer_fifo [of ring8 "[Put [1, 2, 3, 4, 5], Get 3, Put [6, 7, 8], Get 4]"]
  by (simp add: rb_wf_def rb_contents_def rb_used_def dvb_ringbuffer_avail_def)

text \<open>
  C20.  One producer and one consumer need no lock: in every state that interleaved copies and
  pointer updates can reach, the bytes received followed by those in the buffer are exactly
  the bytes sent, the pointers are in range, and a chunk being copied out by the consumer is a
  prefix of the contents that the producer has not touched.
\<close>

theorem spsc_lossless:
  assumes "spsc_reachable r s" "rb_wf r" "rb_contents r = []"
  shows "sent s = got s @ rb_contents (ring s) \<and> rb_wf (ring s) \<and>
    (\<forall>bs. cons s = Some bs \<longrightarrow> take (length bs) (rb_contents (ring s)) = bs)"
  using spsc_reachable_inv [OF assms] by (auto simp: spsc_inv_def taken_ok_def)

definition spsc_demo :: spsc where
  "spsc_demo = \<lparr>ring = ring8\<lparr>rb_data := [0, 0, 0, 0, 0, 0, 1, 2], rb_pwrite := 0\<rparr>,
    prod = None, cons = Some [1], sent = [1, 2], got = []\<rparr>"

lemma spsc_demo_reachable: "spsc_reachable ring8 spsc_demo"
proof -
  let ?s0 = "spsc_init ring8"
  let ?s1 = "?s0\<lparr>ring := (ring ?s0)\<lparr>rb_data := [0, 0, 0, 0, 0, 0, 1, 2]\<rparr>, prod := Some [1, 2]\<rparr>"
  let ?s2 = "?s1\<lparr>ring := (ring ?s1)\<lparr>rb_pwrite := (rb_pwrite (ring ?s1) + length [1, 2 :: byte]) mod rb_size (ring ?s1)\<rparr>,
      prod := None, sent := sent ?s1 @ [1, 2]\<rparr>"
  have "spsc_step ?s0 ?s1"
    by (rule spsc_step.producer_copy)
      (simp_all add: spsc_init_def memcpy_def dvb_ringbuffer_free_def eval_nat_numeral)
  moreover have "spsc_step ?s1 ?s2" by (rule spsc_step.producer_publish) simp
  moreover have "spsc_step ?s2 (?s2\<lparr>cons := Some [1]\<rparr>)"
    by (rule spsc_step.consumer_copy [of _ 1])
      (simp_all add: spsc_init_def memread_def dvb_ringbuffer_avail_def eval_nat_numeral)
  ultimately have "spsc_reachable ring8 (?s2\<lparr>cons := Some [1]\<rparr>)"
    by (blast intro: spsc_reachable.intros)
  then show ?thesis by (simp add: spsc_init_def spsc_demo_def)
qed

theorem spsc_lossless_witness:
  "spsc_reachable ring8 spsc_demo \<and> cons spsc_demo = Some [1] \<and>
   sent spsc_demo = got spsc_demo @ rb_contents (ring spsc_demo) \<and> rb_wf (ring spsc_demo)"
  using spsc_lossless [OF spsc_demo_reachable] spsc_demo_reachable
  by (simp add: rb_wf_def rb_contents_def rb_used_def dvb_ringbuffer_avail_def spsc_demo_def)

text \<open>
  A write from user space that faults at any point publishes a prefix of the data: the
  returned count says how long it is, nothing but these bytes becomes visible to the reader,
  and the buffer stays well formed.
\<close>

theorem write_user_publishes_prefix:
  assumes "rb_wf r" "rb_used r + length buf < rb_size r" "user_copy_ok cfu"
  shows "\<exists>r' n. dvb_ringbuffer_write_user cfu r buf = Some (r', int n) \<and> rb_wf r' \<and>
      n \<le> length buf \<and> rb_contents r' = rb_contents r @ take n buf"
  using write_user_cases [OF assms] by blast

definition faulting_copy :: user_copy where
  "faulting_copy i bs = (if i = 0 \<or> bs = [] then (bs, 0) else (0 # tl bs, 1))"

lemma faulting_copy_ok: "user_copy_ok faulting_copy"
  by (simp add: user_copy_ok_def faulting_copy_def)

theorem write_user_publishes_prefix_witness:
  "\<exists>r' n. dvb_ringbuffer_write_user faulting_copy ring8 [1, 2, 3, 4] = Some (r', int n) \<and> rb_wf r' \<and>
      n \<le> length [1, 2, 3, 4 :: byte] \<and> rb_contents r' = rb_contents ring8 @ take n [1, 2, 3, 4]"
  by (rule write_user_publishes_prefix [OF _ _ faulting_copy_ok])
    (simp_all add: rb_wf_def rb_used_def dvb_ringbuffer_avail_def)

text \<open>
  A read to user space delivers the front of the buffer, and removes exactly the bytes
  delivered.  When the transfer wraps and the second copy faults, the call returns
  \<open>-EFAULT\<close>, yet the bytes before the wrap have left the buffer: they are lost for a caller
  that takes the error to mean that nothing was read.
\<close>

theorem read_user_consumes:
  assumes wf: "rb_wf r" and k: "k \<le> rb_used r"
  shows "(\<exists>r'. dvb_ringbuffer_read_user True True r k = Some (r', int k, take k (rb_contents r)) \<and>
      rb_contents r' = drop k (rb_contents r)) \<and>
    dvb_ringbuffer_read_user False ok2 r k =
      (if rb_pread r + k > rb_size r then Some (r, - EFAULT, [])
       else dvb_ringbuffer_read_user True ok2 r k) \<and>
    (\<exists>r' n. dvb_ringbuffer_read_user True False r k = Some (r', - EFAULT, take n (rb_contents r)) \<and>
      rb_contents r' = drop n (rb_contents r) \<and>
      n = (if rb_pread r + k > rb_size r then rb_size r - rb_pread r else 0))"
proof (intro conjI)
  show "\<exists>r'. dvb_ringbuffer_read_user True True r k = Some (r', int k, take k (rb_contents r)) \<and>
      rb_contents r' = drop k (rb_contents r)"
    using read_user_ok [OF wf k] by auto
  have n: "rb_size r = length (rb_data r)" "rb_pread r < rb_size r" and kk: "k < rb_size r"
    using wf k used_less [OF wf] by (auto simp: rb_wf_def)
  show "dvb_ringbuffer_read_user False ok2 r k =
      (if rb_pread r + k > rb_size r then Some (r, - EFAULT, [])
       else dvb_ringbuffer_read_user True ok2 r k)"
    using n by (simp add: dvb_ringbuffer_read_user_def rb_split_def rb_get_chunk_def memread_def)
  show "\<exists>r' n. dvb_ringbuffer_read_user True False r k = Some (r', - EFAULT, take n (rb_contents r)) \<and>
      rb_contents r' = drop n (rb_contents r) \<and>
      n = (if rb_pread r + k > rb_size r then rb_size r - rb_pread r else 0)"
  proof (cases "rb_pread r + k > rb_size r")
    case False
    then show ?thesis using n
      by (simp add: dvb_ringbuffer_read_user_def rb_split_def rb_get_chunk_def memread_def)
  next
    case True
    let ?s = "rb_size r - rb_pread r"
    have s: "rb_pread r + ?s = rb_size r" "?s \<le> rb_used r" "0 < ?s" using True n k by auto
    obtain r1 where r1: "rb_get_chunk r ?s 0 = Some (r1, take ?s (rb_contents r))" "rb_size r1 = rb_size r"
      "rb_contents r1 = drop ?s (rb_contents r)" "rb_data r1 = rb_data r" "rb_pread r1 = 0"
      using get_chunk [OF wf _ s(2), of 0] s(1) by auto
    obtain r2 b2 where "rb_get_chunk r1 (k - ?s) ((rb_pread r1 + (k - ?s)) mod rb_size r1) = Some (r2, b2)"
    proof -
      have "memread (rb_data r1) (rb_pread r1) (k - ?s) = Some (take (k - ?s) (drop 0 (rb_data r1)))"
        using r1(4,5) n kk by (simp add: memread_def)
      then show ?thesis using that by (simp add: rb_get_chunk_def)
    qed
    then have "dvb_ringbuffer_read_user True False r k = Some (r1, - EFAULT, take ?s (rb_contents r))"
      using True r1(1) s by (simp add: dvb_ringbuffer_read_user_def rb_split_def del: diff_diff_right)
    then show ?thesis using True r1(3) by auto
  qed
qed

theorem read_user_consumes_witness:
  "\<exists>r' n. dvb_ringbuffer_read_user True False (ring8\<lparr>rb_pwrite := 2\<rparr>) 3 =
      Some (r', - EFAULT, take n (rb_contents (ring8\<lparr>rb_pwrite := 2\<rparr>))) \<and> n = 2"
  using read_user_consumes [of "ring8\<lparr>rb_pwrite := 2\<rparr>" 3 True]
  by (auto simp: rb_wf_def rb_used_def dvb_ringbuffer_avail_def)

text \<open>
  In packet mode a packet that was written is read back unchanged, from any offset and in
  pieces of any length, at the index where it was stored, and the packets before it keep their
  places and contents.
\<close>

theorem pkt_write_read:
  assumes "rb_pkts r ps" "0 < length buf" "length buf < 65536" "rb_used r + length buf + 3 < rb_size r"
  shows "\<exists>r'. dvb_ringbuffer_pkt_write r buf = Some (r', int (length buf)) \<and>
    rb_pkts r' (ps @ [(PKT_READY, buf)]) \<and>
    (\<forall>off len. off \<le> length buf \<longrightarrow>
      dvb_ringbuffer_pkt_read r' (rb_pwrite r) (int off) len =
        Some (int (min len (length buf - off)), take len (drop off buf))) \<and>
    (\<forall>k < length ps. \<forall>off \<le> length (snd (ps ! k)). \<forall>len.
      dvb_ringbuffer_pkt_read r' (pkt_pos r ps k) (int off) len =
      dvb_ringbuffer_pkt_read r (pkt_pos r ps k) (int off) len)"
proof -
  obtain r' where r': "dvb_ringbuffer_pkt_write r buf = Some (r', int (length buf))"
    "rb_pkts r' (ps @ [(PKT_READY, buf)])" "rb_pread r' = rb_pread r" "rb_size r' = rb_size r"
    using pkt_write [OF assms(1) _ assms(4)] assms(2,3) by (auto simp: pkt_ok_def)
  have pos: "pkt_pos r' (ps @ [(PKT_READY, buf)]) k = pkt_pos r ps k" if "k \<le> length ps" for k
    using that r'(3,4) by (simp add: pkt_pos_def pkt_off_def)
  have end_pos: "pkt_pos r ps (length ps) = rb_pwrite r"
    using pkt_off_all [OF assms(1)] pwrite_used [of r] assms(1) by (simp add: pkt_pos_def rb_pkts_def)
  have new: "dvb_ringbuffer_pkt_read r' (rb_pwrite r) (int off) len =
      Some (int (min len (length buf - off)), take len (drop off buf))" if "off \<le> length buf" for off len
    using pkt_read [OF r'(2), of "length ps" off len] that pos [of "length ps"] end_pos by simp
  have old: "dvb_ringbuffer_pkt_read r' (pkt_pos r ps k) (int off) len =
      dvb_ringbuffer_pkt_read r (pkt_pos r ps k) (int off) len"
    if "k < length ps" "off \<le> length (snd (ps ! k))" for k off len
    using pkt_read [OF r'(2), of k off len] pkt_read [OF assms(1), of k off len] that pos [of k]
    by (simp add: nth_append)
  show ?thesis using r' new old by blast
qed

abbreviation ring16 :: ringbuf where
  "ring16 \<equiv> \<lparr>rb_data = replicate 16 0, rb_size = 16, rb_pread = 12, rb_pwrite = 12, rb_error = 0\<rparr>"

lemma ring16_pkts: "rb_pkts ring16 []"
  by (simp add: rb_pkts_def rb_wf_def rb_contents_def rb_used_def dvb_ringbuffer_avail_def)

theorem pkt_write_read_witness:
  "\<exists>r'. dvb_ringbuffer_pkt_write ring16 [7, 8, 9] = Some (r', 3) \<and> rb_pkts r' [(PKT_READY, [7, 8, 9])] \<and>
    dvb_ringbuffer_pkt_read r' 12 1 2 = Some (2, [8, 9])"
  using pkt_write_read [OF ring16_pkts, of "[7, 8, 9]"]
  by (force simp: rb_used_def dvb_ringbuffer_avail_def dest: spec [of _ 1])

text \<open>
  Disposing a packet removes exactly the disposed packets at the front of the buffer: the
  ones further back are only marked, and their space is reclaimed together with that of the
  packets before them, so the live packets keep their order and contents.
\<close>

theorem pkt_dispose_reclaims:
  assumes "rb_pkts r ps" "k < length ps"
  shows "\<exists>r'. dvb_ringbuffer_pkt_dispose r (pkt_pos r ps k) = Some r' \<and>
    rb_pkts r' (dropWhile (\<lambda>p. fst p = PKT_DISPOSED) (ps[k := (PKT_DISPOSED, snd (ps ! k))]))"
  using pkt_dispose [OF assms] by blast

text \<open>
  Iterating over the packets visits the ready ones in the order in which they were
  written: \<open>dvb_ringbuffer_pkt_next\<close> finds the first ready packet, or the next one after the
  given packet, with its length, and reports the end exactly when there is none.
\<close>

theorem pkt_next_ready:
  assumes "rb_pkts r ps" "k \<le> length ps"
  shows "dvb_ringbuffer_pkt_next r (if k = 0 then None else Some (pkt_pos r ps (k - 1))) =
    Some (map_option (\<lambda>j. (pkt_pos r ps j, length (snd (ps ! j))))
      (find (\<lambda>j. fst (ps ! j) = PKT_READY) [k..<length ps]))"
  using pkt_next_first [OF assms(1)] pkt_next_after [OF assms(1), of "k - 1"] assms(2)
  by (cases k) auto

text \<open>Three packets, of which the second is disposed.\<close>

definition ring16_full :: ringbuf where
  "ring16_full = \<lparr>rb_data = [1, 0, 6, 0, 1, 1, 7, 0, 1, 0, 8, 0, 0, 0, 0, 0], rb_size = 16,
    rb_pread = 15, rb_pwrite = 11, rb_error = 0\<rparr>"

lemma ring16_full_pkts: "rb_pkts ring16_full [(0, [6]), (1, [7]), (0, [8])]"
proof -
  have "rb_used ring16_full = 12" by (simp add: rb_used_def dvb_ringbuffer_avail_def ring16_full_def)
  then have "rb_contents ring16_full = [0, 1, 0, 6, 0, 1, 1, 7, 0, 1, 0, 8]"
    unfolding rb_contents_def by (simp add: ring16_full_def rotate_drop_take)
  then show ?thesis
    by (simp add: rb_pkts_def rb_wf_def ring16_full_def pkts_enc_def pkt_enc_def pkt_ok_def)
qed

theorem pkt_dispose_reclaims_witness:
  "\<exists>r'. dvb_ringbuffer_pkt_dispose ring16_full (pkt_pos ring16_full [(0, [6]), (1, [7]), (0, [8])] 0) = Some r' \<and>
    rb_pkts r' [(0, [8])]"
  using pkt_dispose_reclaims [OF ring16_full_pkts, of 0] by simp

theorem pkt_next_ready_witness:
  "dvb_ringbuffer_pkt_next ring16_full (Some (pkt_pos ring16_full [(0, [6]), (1, [7]), (0, [8])] 0)) =
    Some (Some (pkt_pos ring16_full [(0, [6]), (1, [7]), (0, [8])] 2, 1))"
  using pkt_next_ready [OF ring16_full_pkts, of 1] by (simp add: upt_rec numeral_2_eq_2)

end
