(* ===== verification/DvbMath.thy ===== *)
theory DvbMath
  imports Prelude
begin

text \<open>
  The fixed point logarithms of dvb-core (dvb_math.c): \<open>intlog2 v\<close> is \<open>log2 v * 2 ^ 24\<close> from a
  table of 256 entries and linear interpolation, \<open>intlog10\<close> scales it by \<open>log10 2\<close>.  All
  arithmetic is on \<open>unsigned int\<close> (32 bits) and \<open>u64\<close>, as in the code; \<open>fls\<close> is the kernel's
  position of the most significant set bit, counted from 1.
\<close>

fun fls_nat :: "nat \<Rightarrow> nat" where
  "fls_nat n = (if n = 0 then 0 else Suc (fls_nat (n div 2)))"

declare fls_nat.simps [simp del]

definition fls :: "u32 \<Rightarrow> nat" where
  "fls v = fls_nat (unat v)"

definition logtable :: "nat list" where
  "logtable =
    [0, 369, 736, 1102, 1466, 1829, 2190, 2551, 2909, 3267, 3623, 3978,
     4331, 4683, 5034, 5384, 5732, 6079, 6425, 6769, 7112, 7454, 7795, 8134,
     8473, 8810, 9146, 9480, 9814, 10146, 10477, 10807, 11136, 11464, 11791, 12116,
     12440, 12764, 13086, 13407, 13727, 14046, 14363, 14680, 14996, 15310, 15624, 15937,
     16248, 16559, 16868, 17177, 17484, 17791, 18096, 18401, 18704, 19007, 19308, 19609,
     19909, 20207, 20505, 20802, 21098, 21393, 21687, 21980, 22272, 22564, 22854, 23144,
     23433, 23720, 24007, 24293, 24579, 24863, 25146, 25429, 25711, 25992, 26272, 26551,
     26830, 27108, 27384, 27660, 27936, 28210, 28484, 28757, 29029, 29300, 29571, 29840,
     30109, 30378, 30645, 30912, 31178, 31443, 31707, 31971, 32234, 32496, 32758, 33019,
     33279, 33538, 33797, 34055, 34312, 34569, 34825, 35080, 35334, 35588, 35841, 36094,
     36346, 36597, 36847, 37097, 37346, 37595, 37842, 38090, 38336, 38582, 38827, 39072,
     39316, 39559, 39802, 40044, 40286, 40527, 40767, 41006, 41246, 41484, 41722, 41959,
     42196, 42432, 42667, 42902, 43137, 43370, 43603, 43836, 44068, 44300, 44530, 44761,
     44990, 45220, 45448, 45676, 45904, 46131, 46357, 46583, 46809, 47034, 47258, 47482,
     47705, 47928, 48150, 48372, 48593, 48813, 49034, 49253, 49472, 49691, 49909, 50127,
     50344, 50560, 50776, 50992, 51207, 51422, 51636, 51850, 52063, 52276, 52488, 52700,
     52911, 53122, 53332, 53542, 53751, 53960, 54169, 54377, 54584, 54791, 54998, 55204,
     55410, 55615, 55820, 56025, 56229, 56432, 56635, 56838, 57040, 57242, 57443, 57644,
     57845, 58045, 58245, 58444, 58643, 58841, 59039, 59237, 59434, 59631, 59827, 60023,
     60219, 60414, 60609, 60803, 60997, 61190, 61384, 61576, 61769, 61961, 62152, 62343,
     62534, 62725, 62915, 63104, 63294, 63483, 63671, 63859, 64047, 64234, 64421, 64608,
     64794, 64980, 65166, 65351]"

definition intlog2 :: "u32 \<Rightarrow> u32" where
  "intlog2 value =
     (if value = 0 then 0
      else let msb = fls value - 1;
               significand = push_bit (31 - msb) value;
               logentry = unat (drop_bit 23 significand AND 0xff);
               step = (int (logtable ! ((logentry + 1) mod 256)) - int (logtable ! logentry))
                        mod 65536;
               interpolation = drop_bit 15 ((significand AND 0x7fffff) * of_int step)
           in push_bit 24 (of_nat msb) + push_bit 8 (of_nat (logtable ! logentry)) + interpolation)"

definition intlog10 :: "u32 \<Rightarrow> u32" where
  "intlog10 value =
     (if value = 0 then 0
      else let log = ucast (intlog2 value) :: u64
           in ucast (drop_bit 31 (log * 646456993)))"

subsection \<open>The table\<close>

text \<open>The table as a function of the index, continued by \<open>2 ^ 16\<close> at 256.\<close>

definition logT :: "nat \<Rightarrow> nat" where
  "logT i = (logtable @ [65536]) ! i"

lemma logtable_length: "length logtable = 256"
  by (simp add: logtable_def)

lemma logT_sorted: "sorted_wrt (<) (logtable @ [65536])"
proof -
  have "successively (<) (logtable @ [65536])" by (simp add: logtable_def)
  then show ?thesis by (simp add: successively_conv_sorted_wrt)
qed

lemma logT_less: "i < j \<Longrightarrow> j \<le> 256 \<Longrightarrow> logT i < logT j"
  unfolding logT_def using logT_sorted
  by (rule sorted_wrt_nth_less) (simp_all add: logtable_length)

lemma logT_mono: "i \<le> j \<Longrightarrow> j \<le> 256 \<Longrightarrow> logT i \<le> logT j"
  using logT_less [of i j] by (cases "i = j") auto

lemma logT_0: "logT 0 = 0"
  by (simp add: logT_def logtable_def)

lemma logT_256: "logT 256 = 65536"
  by (simp add: logT_def nth_append logtable_length)

lemma logtable_nth: "i < 256 \<Longrightarrow> logtable ! i = logT i"
  by (simp add: logT_def nth_append logtable_length)

lemma logT_step:
  assumes "i < 256"
  shows "(int (logtable ! ((i + 1) mod 256)) - int (logtable ! i)) mod 65536 =
    int (logT (i + 1) - logT i)"
proof -
  have lt: "logT i < logT (i + 1)" "logT (i + 1) \<le> 65536"
    using logT_less [of i "i + 1"] logT_mono [of "i + 1" 256] assms by (auto simp: logT_256)
  show ?thesis
  proof (cases "i = 255")
    case True
    have "0 < logT 255" using logT_less [of 0 255] by simp
    then show ?thesis using True lt
      by (simp add: logtable_nth logT_0 logT_256 zmod_zminus1_eq_if of_nat_diff)
  next
    case False
    then have "i + 1 < 256" using assms by simp
    moreover have "logT (i + 1) < 65536"
      using logT_less [of "i + 1" 256] \<open>i + 1 < 256\<close> by (simp add: logT_256)
    ultimately show ?thesis using lt assms by (simp add: logtable_nth of_nat_diff)
  qed
qed

lemma logT_step_small:
  assumes "i < 256"
  shows "logT (i + 1) - logT i \<le> 369"
proof -
  have "successively (\<lambda>x y. y - x \<le> 369) (logtable @ [65536])" by (simp add: logtable_def)
  then show ?thesis
    using assms successively_nth [of _ "logtable @ [65536]" i]
    by (simp add: logT_def logtable_length)
qed

subsection \<open>The most significant bit\<close>

lemma fls_nat_bounds:
  "0 < n \<Longrightarrow> 0 < fls_nat n \<and> 2 ^ (fls_nat n - 1) \<le> n \<and> n < 2 ^ fls_nat n"
proof (induction n rule: fls_nat.induct)
  case (1 n)
  show ?case
  proof (cases "n div 2 = 0")
    case True
    then have "n = 1" using "1.prems" by simp
    then show ?thesis by (simp add: fls_nat.simps)
  next
    case False
    then have IH: "0 < fls_nat (n div 2)" "2 ^ (fls_nat (n div 2) - 1) \<le> n div 2"
      "n div 2 < 2 ^ fls_nat (n div 2)"
      using "1.IH" "1.prems" by auto
    obtain k where k: "fls_nat (n div 2) = Suc k" using IH(1) by (cases "fls_nat (n div 2)") auto
    then have "fls_nat n = Suc (Suc k)" using "1.prems" by (simp add: fls_nat.simps [of n])
    with IH k show ?thesis by auto
  qed
qed

text \<open>The exponent, mantissa index and mantissa rest of a value.\<close>

definition log_exp :: "nat \<Rightarrow> nat" where "log_exp v = fls_nat v - 1"
definition log_sig :: "nat \<Rightarrow> nat" where "log_sig v = v * 2 ^ (31 - log_exp v)"
definition log_idx :: "nat \<Rightarrow> nat" where "log_idx v = log_sig v div 2 ^ 23 - 256"
definition log_rest :: "nat \<Rightarrow> nat" where "log_rest v = log_sig v mod 2 ^ 23"

lemma log_exp_bounds: "0 < v \<Longrightarrow> 2 ^ log_exp v \<le> v \<and> v < 2 ^ Suc (log_exp v)"
  using fls_nat_bounds [of v] by (simp add: log_exp_def)

lemma log_exp_le: "0 < v \<Longrightarrow> v < 2 ^ 32 \<Longrightarrow> log_exp v \<le> 31"
proof -
  assume "0 < v" "v < 2 ^ 32"
  then have "(2::nat) ^ log_exp v < 2 ^ 32" using log_exp_bounds [of v] by linarith
  then show ?thesis by (simp only: power_strict_increasing_iff)
qed

lemma log_sig_bounds:
  assumes "0 < v" "v < 2 ^ 32"
  shows "2 ^ 31 \<le> log_sig v" "log_sig v < 2 ^ 32"
proof -
  have e: "log_exp v \<le> 31" using log_exp_le assms by simp
  have "2 ^ log_exp v * 2 ^ (31 - log_exp v) \<le> v * 2 ^ (31 - log_exp v)"
    using log_exp_bounds [OF assms(1)] by simp
  then show "2 ^ 31 \<le> log_sig v" using e by (simp add: log_sig_def flip: power_add)
  have "v * 2 ^ (31 - log_exp v) < 2 ^ Suc (log_exp v) * 2 ^ (31 - log_exp v)"
    using log_exp_bounds [OF assms(1)] by (simp del: power_Suc)
  then show "log_sig v < 2 ^ 32" using e by (simp add: log_sig_def flip: power_add power_Suc)
qed

lemma log_idx_less: "0 < v \<Longrightarrow> v < 2 ^ 32 \<Longrightarrow> log_idx v < 256"
  using log_sig_bounds [of v] by (simp add: log_idx_def)

lemma log_rest_less: "log_rest v < 2 ^ 23"
  by (simp add: log_rest_def)

lemma log_sig_decomp:
  assumes "0 < v" "v < 2 ^ 32"
  shows "log_sig v = (256 + log_idx v) * 2 ^ 23 + log_rest v"
proof -
  have "256 \<le> log_sig v div 2 ^ 23" using log_sig_bounds [OF assms] by simp
  then show ?thesis by (simp add: log_idx_def log_rest_def)
qed

subsection \<open>The value computed\<close>

text \<open>The result of the word computation as a natural number.\<close>

definition log2_nat :: "nat \<Rightarrow> nat" where
  "log2_nat v = log_exp v * 2 ^ 24 + logT (log_idx v) * 2 ^ 8 +
     log_rest v * (logT (log_idx v + 1) - logT (log_idx v)) div 2 ^ 15"

lemma interpolation_less:
  assumes "0 < v" "v < 2 ^ 32"
  shows "log_rest v * (logT (log_idx v + 1) - logT (log_idx v)) div 2 ^ 15 <
    (logT (log_idx v + 1) - logT (log_idx v)) * 2 ^ 8"
proof -
  let ?d = "logT (log_idx v + 1) - logT (log_idx v)"
  have "0 < ?d" using logT_less [of "log_idx v" "log_idx v + 1"] log_idx_less [OF assms] by simp
  then have "log_rest v * ?d < 2 ^ 23 * ?d" using log_rest_less [of v] by simp
  also have "2 ^ 23 * ?d = (?d * 2 ^ 8) * 2 ^ 15" by simp
  finally show ?thesis by (simp add: less_mult_imp_div_less)
qed

lemma log2_nat_bounds:
  assumes "0 < v" "v < 2 ^ 32"
  shows "log_exp v * 2 ^ 24 + logT (log_idx v) * 2 ^ 8 \<le> log2_nat v"
    "log2_nat v < log_exp v * 2 ^ 24 + logT (log_idx v + 1) * 2 ^ 8"
    "log2_nat v < Suc (log_exp v) * 2 ^ 24"
proof -
  show "log_exp v * 2 ^ 24 + logT (log_idx v) * 2 ^ 8 \<le> log2_nat v" by (simp add: log2_nat_def)
  have idx: "log_idx v < 256" by (rule log_idx_less [OF assms])
  then have "logT (log_idx v) < logT (log_idx v + 1)" "logT (log_idx v + 1) \<le> 65536"
    using logT_less [of "log_idx v" "log_idx v + 1"] logT_mono [of "log_idx v + 1" 256]
    by (auto simp: logT_256)
  then show "log2_nat v < log_exp v * 2 ^ 24 + logT (log_idx v + 1) * 2 ^ 8"
    "log2_nat v < Suc (log_exp v) * 2 ^ 24"
    using interpolation_less [OF assms] unfolding log2_nat_def by simp_all
qed

lemma take_bit_const: "(w :: u32) AND 0x7fffff = take_bit 23 w" "(w :: u32) AND 0xff = take_bit 8 w"
  by (simp_all add: take_bit_eq_mask mask_eq_exp_minus_1)

lemma unat_intlog2:
  assumes "x \<noteq> 0"
  shows "unat (intlog2 x) = log2_nat (unat x)"
proof -
  define v where "v = unat x"
  have v: "0 < v" "v < 2 ^ 32"
    using assms unsigned_less [of x, where ?'a = nat] by (auto simp: v_def unat_gt_0)
  note idx = log_idx_less [OF v] and rest = log_rest_less [of v] and sb = log_sig_bounds [OF v]
  define sig where "sig = push_bit (31 - log_exp v) x"
  have sig: "unat sig = log_sig v"
    unfolding sig_def unsigned_push_bit_eq v_def [symmetric]
    using sb by (simp add: log_sig_def push_bit_eq_mult take_bit_eq_mod)
  have entry: "unat (drop_bit 23 sig AND 0xff) = log_idx v"
  proof -
    have "unat (drop_bit 23 sig AND 0xff) = (log_sig v div 2 ^ 23) mod 256"
      by (simp only: take_bit_const unsigned_take_bit_eq unsigned_drop_bit_eq sig)
        (use sb in \<open>simp add: take_bit_eq_mod drop_bit_eq_div\<close>)
    also have "log_sig v div 2 ^ 23 = 256 + log_idx v" using sb by (simp add: log_idx_def)
    also have "(256 + log_idx v) mod 256 = log_idx v" using idx by simp
    finally show ?thesis .
  qed
  define d where "d = logT (log_idx v + 1) - logT (log_idx v)"
  have d: "d \<le> 369" using logT_step_small [OF idx] by (simp add: d_def)
  have prod: "log_rest v * d < 2 ^ 32"
  proof -
    have "log_rest v * d \<le> 2 ^ 23 * 369" using rest d by (intro mult_le_mono) auto
    then show ?thesis by simp
  qed
  have low: "unat (sig AND 0x7fffff) = log_rest v"
    unfolding take_bit_const unsigned_take_bit_eq sig by (simp add: take_bit_eq_mod log_rest_def)
  have inter: "unat (drop_bit 15 ((sig AND 0x7fffff) * of_int (int d))) = log_rest v * d div 2 ^ 15"
    unfolding unsigned_drop_bit_eq unat_word_ariths low using prod d
    by (simp add: take_bit_eq_mod drop_bit_eq_div unat_of_nat)
  have bound: "log2_nat v < 2 ^ 29"
  proof -
    have "log2_nat v < Suc (log_exp v) * 2 ^ 24" by (rule log2_nat_bounds(3) [OF v])
    also have "\<dots> \<le> 32 * 2 ^ 24" using log_exp_le [OF v] by simp
    finally show ?thesis by simp
  qed
  have "intlog2 x = push_bit 24 (of_nat (log_exp v)) + push_bit 8 (of_nat (logtable ! log_idx v)) +
      drop_bit 15 ((sig AND 0x7fffff) * of_int (int d))"
    using assms logT_step [OF idx] entry
    by (simp add: intlog2_def fls_def Let_def sig_def d_def v_def log_exp_def)
  also have "drop_bit 15 ((sig AND 0x7fffff) * of_int (int d)) = (of_nat (log_rest v * d div 2 ^ 15) :: u32)"
    unfolding inter [symmetric] by (simp add: of_nat_unat)
  finally have "intlog2 x = of_nat (log2_nat v)"
    using idx by (simp add: push_bit_eq_mult logtable_nth log2_nat_def d_def)
  then show ?thesis using bound unfolding v_def by (simp add: unat_of_nat)
qed

lemma unat_intlog10:
  assumes "x \<noteq> 0"
  shows "unat (intlog10 x) = unat (intlog2 x) * 646456993 div 2 ^ 31"
proof -
  have v: "0 < unat x" "unat x < 2 ^ 32"
    using assms unsigned_less [of x, where ?'a = nat] by (auto simp: unat_gt_0)
  have "log2_nat (unat x) < Suc (log_exp (unat x)) * 2 ^ 24" by (rule log2_nat_bounds(3) [OF v])
  also have "\<dots> \<le> 32 * 2 ^ 24" using log_exp_le [OF v] by simp
  finally have b: "unat (intlog2 x) < 2 ^ 29" using unat_intlog2 [OF assms] by simp
  then have "unat (intlog2 x) * 646456993 div 2 ^ 31 < 2 ^ 32" by simp
  then show ?thesis using assms b
    by (simp add: intlog10_def Let_def unsigned_ucast_eq unsigned_drop_bit_eq unat_word_ariths
        take_bit_eq_mod drop_bit_eq_div)
qed

lemma log2_nat_mono:
  assumes "0 < v" "v \<le> w" "w < 2 ^ 32"
  shows "log2_nat v \<le> log2_nat w"
proof -
  have v: "0 < v" "v < 2 ^ 32" and w: "0 < w" "w < 2 ^ 32" using assms by auto
  have "(2::nat) ^ log_exp v < 2 ^ Suc (log_exp w)"
    using log_exp_bounds [OF v(1)] log_exp_bounds [OF w(1)] assms(2) by linarith
  then have e: "log_exp v \<le> log_exp w" by (simp only: power_strict_increasing_iff less_Suc_eq_le)
  show ?thesis
  proof (cases "log_exp v = log_exp w")
    case False
    then have "Suc (log_exp v) * 2 ^ 24 \<le> log_exp w * 2 ^ 24" using e by simp
    then show ?thesis using log2_nat_bounds(3) [OF v] log2_nat_bounds(1) [OF w] by linarith
  next
    case True
    have s: "log_sig v \<le> log_sig w" using assms(2) by (simp add: log_sig_def True)
    then have i: "log_idx v \<le> log_idx w" by (simp add: log_idx_def div_le_mono diff_le_mono)
    show ?thesis
    proof (cases "log_idx v = log_idx w")
      case same: True
      have "log_rest v \<le> log_rest w"
        using s same log_sig_decomp [OF v] log_sig_decomp [OF w] by simp
      then show ?thesis by (simp add: log2_nat_def True same div_le_mono)
    next
      case False
      then have "logT (log_idx v + 1) \<le> logT (log_idx w)"
        using logT_mono [of "log_idx v + 1" "log_idx w"] i log_idx_less [OF w] by simp
      then show ?thesis using log2_nat_bounds(2) [OF v] log2_nat_bounds(1) [OF w] True by simp
    qed
  qed
qed

lemma log2_nat_exp:
  assumes "k < 32"
  shows "log_exp (2 ^ k) = k" "log2_nat (2 ^ k) = k * 2 ^ 24"
proof -
  have "(2::nat) ^ log_exp (2 ^ k) \<le> 2 ^ k" "(2::nat) ^ k < 2 ^ Suc (log_exp (2 ^ k))"
    using log_exp_bounds [of "2 ^ k"] by simp_all
  then show e: "log_exp (2 ^ k) = k"
    by (simp only: power_increasing_iff power_strict_increasing_iff)
  have "log_sig (2 ^ k) = 2 ^ 31" using assms by (simp add: log_sig_def e flip: power_add)
  then show "log2_nat (2 ^ k) = k * 2 ^ 24"
    by (simp add: log2_nat_def e log_idx_def log_rest_def logT_0)
qed

subsection \<open>Properties\<close>

text \<open>
  C30.  \<open>intlog2\<close> never overflows and brackets the binary logarithm: the integer part of the
  result is the position of the most significant bit, so the result lies in
  \<open>[msb * 2 ^ 24, (msb + 1) * 2 ^ 24)\<close>, where \<open>2 ^ msb \<le> v < 2 ^ (msb + 1)\<close>; and on powers of
  two the result is exact.
\<close>

theorem intlog2_brackets:
  assumes "x \<noteq> 0"
  shows "\<exists>msb. 2 ^ msb \<le> unat x \<and> unat x < 2 ^ Suc msb \<and>
      msb * 2 ^ 24 \<le> unat (intlog2 x) \<and> unat (intlog2 x) < Suc msb * 2 ^ 24 \<and>
      (unat x = 2 ^ msb \<longrightarrow> unat (intlog2 x) = msb * 2 ^ 24)"
proof -
  have v: "0 < unat x" "unat x < 2 ^ 32"
    using assms unsigned_less [of x, where ?'a = nat] by (auto simp: unat_gt_0)
  have "log2_nat (unat x) = log_exp (unat x) * 2 ^ 24" if "unat x = 2 ^ log_exp (unat x)"
    using log2_nat_exp(2) [of "log_exp (unat x)"] log_exp_le [OF v] that by simp
  then show ?thesis
    using log_exp_bounds [OF v(1)] log2_nat_bounds [OF v] unat_intlog2 [OF assms]
    by (intro exI [of _ "log_exp (unat x)"]) auto
qed

theorem intlog2_brackets_witness:
  "\<exists>msb. 2 ^ msb \<le> unat (1000 :: u32) \<and> unat (1000 :: u32) < 2 ^ Suc msb \<and>
      msb * 2 ^ 24 \<le> unat (intlog2 1000) \<and> unat (intlog2 1000) < Suc msb * 2 ^ 24 \<and>
      (unat (1000 :: u32) = 2 ^ msb \<longrightarrow> unat (intlog2 1000) = msb * 2 ^ 24)"
  by (rule intlog2_brackets) simp

text \<open>
  Both logarithms are monotone over all non-zero 32-bit values, in spite of the table,
  the interpolation and the truncations: a stronger signal never yields a smaller reading.
\<close>

theorem intlog_monotone:
  assumes "x \<noteq> 0" "x \<le> y"
  shows "intlog2 x \<le> intlog2 y \<and> intlog10 x \<le> intlog10 y"
proof -
  have y: "y \<noteq> 0" using assms by (metis word_coorder.extremum_uniqueI)
  have "log2_nat (unat x) \<le> log2_nat (unat y)"
    using assms unsigned_less [of y, where ?'a = nat]
    by (intro log2_nat_mono) (auto simp: unat_gt_0 word_le_nat_alt)
  then have "unat (intlog2 x) \<le> unat (intlog2 y)" using assms y by (simp add: unat_intlog2)
  moreover from this have "unat (intlog10 x) \<le> unat (intlog10 y)"
    using assms y by (simp add: unat_intlog10 div_le_mono)
  ultimately show ?thesis by (simp add: word_le_nat_alt)
qed

theorem intlog_monotone_witness: "intlog2 3 \<le> intlog2 1000000 \<and> intlog10 3 \<le> intlog10 1000000"
  by (rule intlog_monotone) simp_all

end
