(* ===== verification/DemuxFeed.thy ===== *)
theory DemuxFeed
  imports Prelude
begin

unbundle bit_operations_syntax

text \<open>
  One output feed of the software demux (neumo-dvb-demux.c): a TS feed that delivers packets
  or payloads, or a section feed that reassembles PSI sections from TS payloads and delivers
  those that match its filters.

  The feed record has the fields of \<open>struct neumo_dvb_demux_feed\<close>; the union of its two
  stream structures is flattened (both begin with \<open>is_filtering\<close>).  The pointer \<open>secbuf\<close> into
  \<open>secbuf_base\<close> is an offset.  The linked list of section filters is a list.  What the
  callbacks and the decoder receive is appended to \<open>f_out\<close>; \<open>env\<close> has the results of the
  callbacks, the driver's CRC check and whether the driver has a decoder.
\<close>

abbreviation (input) DMX_MAX_SECTION_SIZE :: nat where "DMX_MAX_SECTION_SIZE \<equiv> 4096"
abbreviation (input) DMX_MAX_SECFEED_SIZE :: nat where "DMX_MAX_SECFEED_SIZE \<equiv> 4284"
abbreviation (input) DVB_DEMUX_MASK_MAX :: nat where "DVB_DEMUX_MASK_MAX \<equiv> 18"

datatype dvb_dmx_filter_type = DMX_TYPE_TS | DMX_TYPE_SEC

datatype dvb_dmx_state = DMX_STATE_FREE | DMX_STATE_ALLOCATED | DMX_STATE_READY | DMX_STATE_GO

record secfilter =
  sfl_index :: nat
  filter_value :: "byte list"
  filter_mask :: "byte list"
  filter_mode :: "byte list"
  maskandmode :: "byte list"
  maskandnotmode :: "byte list"
  doneq :: bool

datatype delivery = TsOut "byte list" | SecOut nat "byte list" | DecoderOut "byte list"

text \<open>The bits of \<open>buffer_flags\<close>.\<close>

datatype buffer_flag = HAD_CRC32_DISCARD | TEI | PKT_COUNTER_MISMATCH
  | DISCONTINUITY_DETECTED | DISCONTINUITY_INDICATOR

record feed =
  f_type :: dvb_dmx_filter_type
  f_state :: dvb_dmx_state
  f_pid :: nat
  f_ts_type :: u32
  f_pes_type :: nat
  f_flags :: "buffer_flag list"
  f_cc :: int
  f_pusi_seen :: bool
  f_peslen :: u16
  f_is_filtering :: bool
  f_check_crc :: bool
  f_secbuf_base :: "byte list"
  f_secbuf :: nat
  f_secbufp :: nat
  f_seclen :: nat
  f_tsfeedp :: nat
  f_filters :: "secfilter list"
  f_parent :: nat
  f_out :: "delivery list"

record feed_env =
  cb_sec :: "nat \<Rightarrow> byte list \<Rightarrow> int"
  check_crc32 :: "byte list \<Rightarrow> bool"
  has_decoder :: bool

abbreviation (input) TS_PACKET :: u32 where "TS_PACKET \<equiv> 1"
abbreviation (input) TS_PAYLOAD_ONLY :: u32 where "TS_PAYLOAD_ONLY \<equiv> 2"
abbreviation (input) TS_DECODER :: u32 where "TS_DECODER \<equiv> 4"
abbreviation (input) TS_DEMUX :: u32 where "TS_DEMUX \<equiv> 8"

definition set_buf_flags :: "buffer_flag \<Rightarrow> feed \<Rightarrow> feed" where
  "set_buf_flags fl f = f\<lparr>f_flags := List.insert fl (f_flags f)\<rparr>"

definition deliver :: "delivery \<Rightarrow> feed \<Rightarrow> feed" where
  "deliver d f = f\<lparr>f_out := f_out f @ [d]\<rparr>"

subsection \<open>Fields of a transport packet and of a section\<close>

definition section_length :: "byte list \<Rightarrow> nat" where
  "section_length buf = 3 + unat (buf ! 1 AND 0x0f) * 256 + unat (buf ! 2)"

definition ts_pid :: "byte list \<Rightarrow> nat" where
  "ts_pid buf = unat (buf ! 1 AND 0x1f) * 256 + unat (buf ! 2)"

definition payload :: "byte list \<Rightarrow> nat" where
  "payload tsp =
     (if tsp ! 3 AND 0x10 = 0 then 0
      else if tsp ! 3 AND 0x20 \<noteq> 0
      then (if unat (tsp ! 4) > 183 then 0 else 184 - 1 - unat (tsp ! 4))
      else 184)"

definition cc_ok :: "feed \<Rightarrow> byte list \<Rightarrow> bool" where
  "cc_ok f buf = ((f_cc f + 1) mod 16 = uint (buf ! 3 AND 0x0f))"

subsection \<open>TS feeds\<close>

definition swfilter_payload :: "feed \<Rightarrow> byte list \<Rightarrow> feed \<times> int" where
  "swfilter_payload f buf =
     (let count = payload buf
      in if count = 0 then (f, - 1)
         else let p = 188 - count;
                  f1 = (if cc_ok f buf then f else set_buf_flags DISCONTINUITY_DETECTED f);
                  f2 = f1\<lparr>f_cc := uint (buf ! 3 AND 0x0f)\<rparr>;
                  f3 = (if buf ! 1 AND 0x40 \<noteq> 0 then f2\<lparr>f_peslen := 0xfffa\<rparr> else f2);
                  f4 = f3\<lparr>f_peslen := f_peslen f3 + of_nat count\<rparr>
              in (deliver (TsOut (take count (drop p buf))) f4, 0))"

subsection \<open>Section filters\<close>

definition sec_byte :: "feed \<Rightarrow> nat \<Rightarrow> byte option" where
  "sec_byte f i = mem_at (f_secbuf_base f) (f_secbuf f + i)"

text \<open>
  The comparison loop: \<open>Some None\<close> is the early return of a mismatch, otherwise the
  accumulated \<open>neq\<close>.
\<close>

fun sf_scan :: "feed \<Rightarrow> secfilter \<Rightarrow> nat list \<Rightarrow> byte \<Rightarrow> byte option option" where
  "sf_scan feed f [] neq = Some (Some neq)"
| "sf_scan feed f (i # is) neq =
     Option.bind (sec_byte feed i) (\<lambda>b.
       let x = filter_value f ! i XOR b
       in if maskandmode f ! i AND x \<noteq> 0 then Some None
          else sf_scan feed f is (neq OR (maskandnotmode f ! i AND x)))"

definition swfilter_sectionfilter :: "feed_env \<Rightarrow> feed \<Rightarrow> secfilter \<Rightarrow> (feed \<times> int) option" where
  "swfilter_sectionfilter env feed f = do {
     r \<leftarrow> sf_scan feed f [0..<DVB_DEMUX_MASK_MAX] 0;
     (case r of
        None \<Rightarrow> Some (feed, 0)
      | Some neq \<Rightarrow>
          if doneq f \<and> neq = 0 then Some (feed, 0)
          else do {
            bs \<leftarrow> memread (f_secbuf_base feed) (f_secbuf feed) (f_seclen feed);
            Some (deliver (SecOut (sfl_index f) bs) feed, cb_sec env (sfl_index f) bs) }) }"

fun section_feed_filters :: "feed_env \<Rightarrow> feed \<Rightarrow> secfilter list \<Rightarrow> (feed \<times> int) option" where
  "section_feed_filters env feed [] = Some (feed\<lparr>f_seclen := 0\<rparr>, 0)"
| "section_feed_filters env feed (f # fs) = do {
     (feed1, r) \<leftarrow> swfilter_sectionfilter env feed f;
     if r < 0 then Some (feed1, - 1)
     else if \<not> f_is_filtering feed1 then Some (feed1\<lparr>f_seclen := 0\<rparr>, 0)
     else section_feed_filters env feed1 fs }"

definition swfilter_section_feed :: "feed_env \<Rightarrow> feed \<Rightarrow> (feed \<times> int) option" where
  "swfilter_section_feed env feed =
     (if \<not> f_is_filtering feed then Some (feed, 0)
      else if f_filters feed = [] then Some (feed, 0)
      else do {
        bad \<leftarrow> (if f_check_crc feed
                 then do {
                   b1 \<leftarrow> sec_byte feed 1;
                   if b1 AND 0x80 \<noteq> 0
                   then map_option (check_crc32 env)
                     (memread (f_secbuf_base feed) (f_secbuf feed) (f_seclen feed))
                   else Some False }
                 else Some False);
        if bad then Some (set_buf_flags HAD_CRC32_DISCARD feed, - 1)
        else section_feed_filters env feed (f_filters feed) })"

subsection \<open>Reassembly of sections\<close>

definition swfilter_section_new :: "feed \<Rightarrow> feed option" where
  "swfilter_section_new feed = do {
     feed1 \<leftarrow>
       (if f_secbufp feed < f_tsfeedp feed
        then do {
          let n = f_tsfeedp feed - f_secbufp feed;
          b0 \<leftarrow> sec_byte feed 0;
          if b0 \<noteq> 0xff then Some (set_buf_flags DISCONTINUITY_DETECTED feed)
          else do {
            b1 \<leftarrow> sec_byte feed (n - 1);
            Some (if b1 \<noteq> 0xff then set_buf_flags DISCONTINUITY_DETECTED feed else feed) } }
        else Some feed);
     Some (feed1\<lparr>f_tsfeedp := 0, f_secbufp := 0, f_seclen := 0, f_secbuf := 0\<rparr>) }"

text \<open>The loop over the sections found so far; every section has at least three bytes.\<close>

function dump_sections :: "feed_env \<Rightarrow> feed \<Rightarrow> nat \<Rightarrow> feed option" where
  "dump_sections env feed limit =
     (if f_secbufp feed + 2 < limit
      then Option.bind (memread (f_secbuf_base feed) (f_secbuf feed) 3) (\<lambda>hdr.
        let seclen = section_length hdr
        in if seclen > DMX_MAX_SECTION_SIZE \<or> seclen + f_secbufp feed > limit then Some feed
           else Option.bind
             (if f_pusi_seen feed
              then map_option fst (swfilter_section_feed env (feed\<lparr>f_seclen := seclen\<rparr>))
              else Some (set_buf_flags DISCONTINUITY_DETECTED (feed\<lparr>f_seclen := seclen\<rparr>)))
             (\<lambda>feed2. dump_sections env
                (feed2\<lparr>f_secbufp := f_secbufp feed + seclen, f_secbuf := f_secbuf feed + seclen\<rparr>)
                limit))
      else Some feed)"
  by pat_completeness auto
termination
  by (relation "measure (\<lambda>(env, feed, limit). limit - f_secbufp feed)")
    (auto simp: section_length_def)

declare dump_sections.simps [simp del]

definition swfilter_section_copy_dump :: "feed_env \<Rightarrow> feed \<Rightarrow> byte list \<Rightarrow> (feed \<times> int) option" where
  "swfilter_section_copy_dump env feed buf =
     (let len = length buf
      in if f_tsfeedp feed \<ge> DMX_MAX_SECFEED_SIZE then Some (feed, 0)
         else let over = f_tsfeedp feed + len > DMX_MAX_SECFEED_SIZE;
                  feed1 = (if over then set_buf_flags DISCONTINUITY_DETECTED feed else feed);
                  len1 = (if over then DMX_MAX_SECFEED_SIZE - f_tsfeedp feed else len)
              in if len1 = 0 then Some (feed1, 0)
                 else do {
                   d \<leftarrow> memcpy (f_secbuf_base feed1) (f_tsfeedp feed1) (take len1 buf);
                   let feed2 = feed1\<lparr>f_secbuf_base := d, f_tsfeedp := f_tsfeedp feed1 + len1\<rparr>;
                   let limit = f_tsfeedp feed2;
                   if limit > DMX_MAX_SECFEED_SIZE then Some (feed2, - 1)
                   else do {
                     feed3 \<leftarrow> dump_sections env (feed2\<lparr>f_secbuf := f_secbufp feed2\<rparr>) limit;
                     Some (feed3, 0) } })"

definition swfilter_section_packet :: "feed_env \<Rightarrow> feed \<Rightarrow> byte list \<Rightarrow> (feed \<times> int) option" where
  "swfilter_section_packet env feed buf =
     (let count = payload buf
      in if count = 0 then Some (feed, - 1)
         else do {
           let p = 188 - count;
           let ccok = cc_ok feed buf;
           let dc_i = (buf ! 3 AND 0x20 \<noteq> 0 \<and> buf ! 4 > 0 \<and> buf ! 5 AND 0x80 \<noteq> 0);
           feed1 \<leftarrow>
             (if \<not> ccok \<or> dc_i
              then swfilter_section_new
                ((set_buf_flags (if dc_i then DISCONTINUITY_INDICATOR else DISCONTINUITY_DETECTED)
                   feed)\<lparr>f_pusi_seen := False\<rparr>)
              else Some feed);
           let feed2 = feed1\<lparr>f_cc := uint (buf ! 3 AND 0x0f)\<rparr>;
           if buf ! 1 AND 0x40 \<noteq> 0
           then (if count > 1 \<and> unat (buf ! p) < count
                 then do {
                   let before_len = unat (buf ! p);
                   let before = take before_len (drop (p + 1) buf);
                   let after = take (count - 1 - before_len) (drop (p + 1 + before_len) buf);
                   (feed3, _) \<leftarrow> swfilter_section_copy_dump env feed2 before;
                   feed4 \<leftarrow> swfilter_section_new (feed3\<lparr>f_pusi_seen := True\<rparr>);
                   (feed5, _) \<leftarrow> swfilter_section_copy_dump env feed4 after;
                   Some (feed5, 0) }
                 else Some (set_buf_flags DISCONTINUITY_DETECTED feed2, 0))
           else do {
             (feed3, _) \<leftarrow> swfilter_section_copy_dump env feed2 (drop p buf);
             Some (feed3, 0) } })"

subsection \<open>Delivery of one packet to a feed\<close>

definition swfilter_packet_type :: "feed_env \<Rightarrow> feed \<Rightarrow> byte list \<Rightarrow> feed option" where
  "swfilter_packet_type env feed buf =
     (case f_type feed of
        DMX_TYPE_TS \<Rightarrow>
          if \<not> f_is_filtering feed then Some feed
          else let feed1 =
                 (if f_ts_type feed AND TS_PACKET \<noteq> 0
                  then (if f_ts_type feed AND TS_PAYLOAD_ONLY \<noteq> 0
                        then fst (swfilter_payload feed buf)
                        else deliver (TsOut (take 188 buf)) feed)
                  else feed)
               in Some (if f_ts_type feed AND TS_DECODER \<noteq> 0 \<and> has_decoder env
                        then deliver (DecoderOut (take 188 buf)) feed1 else feed1)
      | DMX_TYPE_SEC \<Rightarrow>
          if \<not> f_is_filtering feed then Some feed
          else do {
            (feed1, r) \<leftarrow> swfilter_section_packet env feed buf;
            Some (if r < 0 then feed1\<lparr>f_seclen := 0, f_secbufp := 0\<rparr> else feed1) })"

definition DVR_FEED :: "feed \<Rightarrow> bool" where
  "DVR_FEED f \<longleftrightarrow> f_type f = DMX_TYPE_TS \<and> f_is_filtering f \<and>
     f_ts_type f AND (TS_PACKET OR TS_DEMUX) = TS_PACKET"

subsection \<open>Preparation of the filters\<close>

definition prepare_secfilter :: "secfilter \<Rightarrow> secfilter" where
  "prepare_secfilter f =
     (let mam = map2 (\<lambda>mask mode. mask AND mode) (filter_mask f) (filter_mode f);
          manm = map2 (\<lambda>mask mode. mask AND NOT mode) (filter_mask f) (filter_mode f)
      in f\<lparr>maskandmode := mam, maskandnotmode := manm, doneq := (\<exists>b \<in> set manm. b \<noteq> 0)\<rparr>)"

definition prepare_secfilters :: "feed \<Rightarrow> feed" where
  "prepare_secfilters f = f\<lparr>f_filters := map prepare_secfilter (f_filters f)\<rparr>"

subsection \<open>What a filter matches\<close>

text \<open>
  The meaning of a prepared filter on the first 18 bytes of a section: no positive bit may
  differ from the filter value, and if there are negative bits one of them must differ.
\<close>

definition filter_matches :: "secfilter \<Rightarrow> byte list \<Rightarrow> bool" where
  "filter_matches f s \<longleftrightarrow>
     (\<forall>i < DVB_DEMUX_MASK_MAX. maskandmode f ! i AND (filter_value f ! i XOR s ! i) = 0) \<and>
     (doneq f \<longrightarrow>
       (\<exists>i < DVB_DEMUX_MASK_MAX. maskandnotmode f ! i AND (filter_value f ! i XOR s ! i) \<noteq> 0))"

definition section_out :: "feed_env \<Rightarrow> feed \<Rightarrow> byte list \<Rightarrow> delivery list" where
  "section_out env feed s =
     (if f_check_crc feed \<and> s ! 1 AND 0x80 \<noteq> 0 \<and> check_crc32 env s then []
      else map (\<lambda>f. SecOut (sfl_index f) s) (filter (\<lambda>f. filter_matches f s) (f_filters feed)))"

lemma or_eq_0: "a OR b = 0 \<longleftrightarrow> a = 0 \<and> b = (0 :: 'a::len word)"
  by (auto simp: bit_eq_iff bit_simps)

lemma sf_scan_spec:
  "\<forall>i \<in> set is. sec_byte feed i = Some (s ! i) \<Longrightarrow>
   \<exists>neq'. sf_scan feed f is neq =
       Some (if \<forall>i \<in> set is. maskandmode f ! i AND (filter_value f ! i XOR s ! i) = 0
             then Some neq' else None) \<and>
     (neq' = 0 \<longleftrightarrow> neq = 0 \<and> (\<forall>i \<in> set is. maskandnotmode f ! i AND (filter_value f ! i XOR s ! i) = 0))"
proof (induction "is" arbitrary: neq)
  case Nil
  then show ?case by simp
next
  case (Cons i "is")
  show ?case
  proof (cases "maskandmode f ! i AND (filter_value f ! i XOR s ! i) = 0")
    case True
    from Cons.IH [of "neq OR (maskandnotmode f ! i AND (filter_value f ! i XOR s ! i))"] Cons.prems True
    show ?thesis by (auto simp: or_eq_0)
  next
    case False
    let ?b = "neq = 0 \<and> (\<forall>j \<in> set (i # is). maskandnotmode f ! j AND (filter_value f ! j XOR s ! j) = 0)"
    show ?thesis using Cons.prems False
      by (intro exI [of _ "if ?b then 0 else 1"]) auto
  qed
qed

text \<open>The bytes of the section being examined.\<close>

definition cur_section :: "feed \<Rightarrow> byte list" where
  "cur_section feed = take (f_seclen feed) (drop (f_secbuf feed) (f_secbuf_base feed))"

definition cur_ok :: "feed \<Rightarrow> bool" where
  "cur_ok feed \<longleftrightarrow> DVB_DEMUX_MASK_MAX \<le> f_seclen feed \<and>
     f_secbuf feed + f_seclen feed \<le> length (f_secbuf_base feed)"

lemma cur_byte: "cur_ok feed \<Longrightarrow> i < f_seclen feed \<Longrightarrow> sec_byte feed i = Some (cur_section feed ! i)"
  by (simp add: cur_ok_def cur_section_def sec_byte_def mem_at_def)

lemma cur_read: "cur_ok feed \<Longrightarrow>
  memread (f_secbuf_base feed) (f_secbuf feed) (f_seclen feed) = Some (cur_section feed)"
  by (simp add: cur_ok_def cur_section_def memread_def)

lemma sectionfilter_spec:
  assumes ok: "cur_ok feed" and cb: "\<And>i s. 0 \<le> cb_sec env i s"
  shows "\<exists>r \<ge> 0. swfilter_sectionfilter env feed f =
    Some (feed\<lparr>f_out := f_out feed @
      (if filter_matches f (cur_section feed) then [SecOut (sfl_index f) (cur_section feed)] else [])\<rparr>, r)"
proof -
  have "\<forall>i \<in> set [0..<DVB_DEMUX_MASK_MAX]. sec_byte feed i = Some (cur_section feed ! i)"
    using ok by (auto simp: cur_ok_def intro: cur_byte [OF ok])
  from sf_scan_spec [OF this, of f 0] obtain neq where
    neq: "sf_scan feed f [0..<DVB_DEMUX_MASK_MAX] 0 =
       Some (if \<forall>i < 18. maskandmode f ! i AND (filter_value f ! i XOR cur_section feed ! i) = 0
             then Some neq else None)"
     "neq = 0 \<longleftrightarrow> (\<forall>i < 18. maskandnotmode f ! i AND (filter_value f ! i XOR cur_section feed ! i) = 0)"
    by (auto simp: Ball_def)
  show ?thesis
    using cb cur_read [OF ok]
    by (auto simp: swfilter_sectionfilter_def filter_matches_def deliver_def neq simp del: upt_rec_numeral)
qed

lemma cur_out [simp]:
  "cur_section (feed\<lparr>f_out := x\<rparr>) = cur_section feed" "cur_ok (feed\<lparr>f_out := x\<rparr>) = cur_ok feed"
  by (simp_all add: cur_section_def cur_ok_def)

lemma feed_filters_spec:
  assumes "cur_ok feed" "f_is_filtering feed" "\<And>i s. 0 \<le> cb_sec env i s"
  shows "section_feed_filters env feed fs =
    Some (feed\<lparr>f_out := f_out feed @ map (\<lambda>f. SecOut (sfl_index f) (cur_section feed))
      (filter (\<lambda>f. filter_matches f (cur_section feed)) fs), f_seclen := 0\<rparr>, 0)"
  using assms(1,2)
proof (induction fs arbitrary: feed)
  case Nil
  then show ?case by simp
next
  case (Cons f fs)
  let ?o = "f_out feed @
    (if filter_matches f (cur_section feed) then [SecOut (sfl_index f) (cur_section feed)] else [])"
  obtain r where r: "0 \<le> r" "swfilter_sectionfilter env feed f = Some (feed\<lparr>f_out := ?o\<rparr>, r)"
    using sectionfilter_spec [OF Cons.prems(1) assms(3)] by metis
  show ?case using r Cons.prems Cons.IH [of "feed\<lparr>f_out := ?o\<rparr>"] by simp
qed

lemma section_feed_spec:
  assumes ok: "cur_ok feed" and fl: "f_is_filtering feed" and cb: "\<And>i s. 0 \<le> cb_sec env i s"
  shows "\<exists>sl flags r. swfilter_section_feed env feed =
    Some (feed\<lparr>f_out := f_out feed @ section_out env feed (cur_section feed),
      f_seclen := sl, f_flags := flags\<rparr>, r)"
proof (cases "f_filters feed = []")
  case True
  then show ?thesis using fl
    by (intro exI [of _ "f_seclen feed"] exI [of _ "f_flags feed"])
      (simp add: swfilter_section_feed_def section_out_def)
next
  case False
  have b1: "sec_byte feed 1 = Some (cur_section feed ! 1)"
    using ok by (intro cur_byte) (auto simp: cur_ok_def)
  let ?bad = "f_check_crc feed \<and> cur_section feed ! 1 AND 0x80 \<noteq> 0 \<and> check_crc32 env (cur_section feed)"
  have eq: "swfilter_section_feed env feed =
    (if ?bad then Some (set_buf_flags HAD_CRC32_DISCARD feed, - 1)
     else section_feed_filters env feed (f_filters feed))"
    using fl False b1 cur_read [OF ok] by (simp add: swfilter_section_feed_def)
  show ?thesis
  proof (cases ?bad)
    case True
    then have "section_out env feed (cur_section feed) = []" by (simp add: section_out_def)
    moreover have "swfilter_section_feed env feed = Some (set_buf_flags HAD_CRC32_DISCARD feed, - 1)"
      unfolding eq using True by (rule if_P)
    ultimately show ?thesis
      by - (rule exI [of _ "f_seclen feed"],
          rule exI [of _ "f_flags (set_buf_flags HAD_CRC32_DISCARD feed)"],
          rule exI [of _ "- 1 :: int"], simp add: set_buf_flags_def)
  next
    case False
    then have "swfilter_section_feed env feed = section_feed_filters env feed (f_filters feed)"
      unfolding eq by (rule if_not_P)
    also have "\<dots> = Some (feed\<lparr>f_out := f_out feed @ section_out env feed (cur_section feed),
        f_seclen := 0\<rparr>, 0)"
      using feed_filters_spec [OF ok fl cb] False by (auto simp: section_out_def)
    finally show ?thesis
      by - (rule exI [of _ "0 :: nat"], rule exI [of _ "f_flags feed"], rule exI [of _ "0 :: int"], simp)
  qed
qed

subsection \<open>The sections in a byte stream\<close>

function split_sections :: "byte list \<Rightarrow> byte list list" where
  "split_sections bs =
     (if 2 < length bs \<and> section_length bs \<le> DMX_MAX_SECTION_SIZE \<and> section_length bs \<le> length bs
      then take (section_length bs) bs # split_sections (drop (section_length bs) bs)
      else [])"
  by pat_completeness auto
termination
  by (relation "measure length") (auto simp: section_length_def)

declare split_sections.simps [simp del]

definition sections_rest :: "byte list \<Rightarrow> byte list" where
  "sections_rest bs = drop (length (concat (split_sections bs))) bs"

lemma section_length_pos: "3 \<le> section_length bs"
  by (simp add: section_length_def)

lemma section_length_append: "2 < length bs \<Longrightarrow> section_length (bs @ cs) = section_length bs"
  by (simp add: section_length_def nth_append)

lemma section_length_take3: "2 < length bs \<Longrightarrow> section_length (take 3 bs) = section_length bs"
  by (simp add: section_length_def)

lemma concat_split: "concat (split_sections bs) @ sections_rest bs = bs"
proof (induction bs rule: split_sections.induct)
  case (1 bs)
  show ?case
  proof (cases "2 < length bs \<and> section_length bs \<le> DMX_MAX_SECTION_SIZE \<and> section_length bs \<le> length bs")
    case True
    let ?n = "section_length bs"
    from 1 [OF True] have "concat (split_sections (drop ?n bs)) @ sections_rest (drop ?n bs) = drop ?n bs" .
    moreover have s: "split_sections bs = take ?n bs # split_sections (drop ?n bs)"
      using True by (subst split_sections.simps) simp
    moreover have "sections_rest bs = sections_rest (drop ?n bs)"
      using True by (simp add: sections_rest_def s add.commute)
    ultimately show ?thesis by simp
  next
    case False
    then have "split_sections bs = []" by (subst split_sections.simps) auto
    then show ?thesis by (simp add: sections_rest_def)
  qed
qed

lemma split_append: "split_sections (bs @ cs) = split_sections bs @ split_sections (sections_rest bs @ cs)"
proof (induction bs rule: split_sections.induct)
  case (1 bs)
  show ?case
  proof (cases "2 < length bs \<and> section_length bs \<le> DMX_MAX_SECTION_SIZE \<and> section_length bs \<le> length bs")
    case True
    let ?n = "section_length bs"
    have s: "split_sections bs = take ?n bs # split_sections (drop ?n bs)"
      using True by (subst split_sections.simps) simp
    have "split_sections (bs @ cs) = take ?n bs # split_sections (drop ?n bs @ cs)"
      using True by (subst split_sections.simps) (simp add: section_length_append)
    moreover have "sections_rest bs = sections_rest (drop ?n bs)"
      using True by (simp add: sections_rest_def s add.commute)
    ultimately show ?thesis using 1 [OF True] s by simp
  next
    case False
    then have "split_sections bs = []" by (subst split_sections.simps) auto
    then show ?thesis by (simp add: sections_rest_def)
  qed
qed

subsection \<open>The dump loop delivers the sections\<close>

lemma dump_spec:
  assumes "limit \<le> length (f_secbuf_base feed)" "f_secbuf feed = f_secbufp feed"
    "f_secbufp feed \<le> limit" "f_pusi_seen feed" "f_is_filtering feed" "\<And>i s. 0 \<le> cb_sec env i s"
    "\<forall>s \<in> set (split_sections (drop (f_secbufp feed) (take limit (f_secbuf_base feed)))).
       DVB_DEMUX_MASK_MAX \<le> length s"
  shows "\<exists>sl flags p. dump_sections env feed limit = Some (feed\<lparr>
      f_out := f_out feed @ concat (map (section_out env feed)
        (split_sections (drop (f_secbufp feed) (take limit (f_secbuf_base feed))))),
      f_secbufp := p, f_secbuf := p, f_seclen := sl, f_flags := flags\<rparr>) \<and>
    p = f_secbufp feed + length (concat (split_sections
          (drop (f_secbufp feed) (take limit (f_secbuf_base feed)))))"
  using assms(1-5,7)
proof (induction "limit - f_secbufp feed" arbitrary: feed rule: less_induct)
  case (less feed)
  let ?b = "f_secbuf_base feed" and ?p = "f_secbufp feed"
  let ?bs = "drop ?p (take limit ?b)"
  let ?n = "section_length ?bs"
  note prems = less.prems
  have len: "length ?bs = limit - ?p" using prems(1) by simp
  show ?case
  proof (cases "?p + 2 < limit \<and> ?n \<le> DMX_MAX_SECTION_SIZE \<and> ?n + ?p \<le> limit")
    case False
    then have "split_sections ?bs = []"
      using len by (subst split_sections.simps) auto
    moreover have "dump_sections env feed limit = Some feed"
    proof (cases "?p + 2 < limit")
      case True
      have "memread ?b ?p 3 = Some (take 3 ?bs)"
        using True prems(1) by (simp add: memread_def take_drop min_def)
      moreover have "section_length (take 3 ?bs) = ?n" using True len by (simp only: section_length_take3)
      ultimately show ?thesis using True False prems(2) by (subst dump_sections.simps) (auto simp: Let_def)
    qed (subst dump_sections.simps, simp)
    ultimately show ?thesis
      using prems(2)
      by - (rule exI [of _ "f_seclen feed"], rule exI [of _ "f_flags feed"],
          rule exI [of _ ?p], simp)
  next
    case True
    have rd: "memread ?b ?p 3 = Some (take 3 ?bs)"
      using True prems(1) by (simp add: memread_def take_drop min_def)
    have n3: "section_length (take 3 ?bs) = ?n"
      using True len by (intro section_length_take3) linarith
    have split: "split_sections ?bs = take ?n ?bs # split_sections (drop ?n ?bs)"
      using True prems(1) by (subst split_sections.simps) auto
    let ?f1 = "feed\<lparr>f_seclen := ?n\<rparr>"
    have "length (take ?n ?bs) = ?n" using True prems(1) by auto
    then have n18: "18 \<le> ?n" using prems(6) split by auto
    have cur: "cur_section ?f1 = take ?n ?bs"
      using True prems(1,2) by (simp add: cur_section_def take_drop min_def)
    have so1: "section_out env ?f1 = section_out env feed" by (intro ext) (simp add: section_out_def)
    have "cur_ok ?f1" using True prems(1,2) n18 by (simp add: cur_ok_def)
    then obtain sl flags r where sf: "swfilter_section_feed env ?f1 =
        Some (?f1\<lparr>f_out := f_out feed @ section_out env feed (take ?n ?bs),
          f_seclen := sl, f_flags := flags\<rparr>, r)"
    proof -
      have "f_is_filtering ?f1" using prems(5) by simp
      from section_feed_spec [OF \<open>cur_ok ?f1\<close> this assms(6), unfolded cur so1] that
      show ?thesis by auto
    qed
    let ?f2 = "feed\<lparr>f_out := f_out feed @ section_out env feed (take ?n ?bs),
      f_seclen := sl, f_flags := flags, f_secbufp := ?p + ?n, f_secbuf := ?p + ?n\<rparr>"
    have step: "dump_sections env feed limit = dump_sections env ?f2 limit"
      using True rd n3 sf prems(2,4) by (subst dump_sections.simps) (simp add: Let_def)
    have d: "drop (f_secbufp ?f2) (take limit (f_secbuf_base ?f2)) = drop ?n ?bs"
      by (simp add: add.commute)
    have so2: "section_out env ?f2 = section_out env feed"
      by (intro ext) (simp add: section_out_def)
    have "limit - f_secbufp ?f2 < limit - ?p" "f_secbufp ?f2 \<le> limit"
      using True section_length_pos [of ?bs] by auto
    note IH = less.hyps [of ?f2, unfolded d so2, OF this(1) _ _ this(2)]
    have "\<forall>s \<in> set (split_sections (drop ?n ?bs)). DVB_DEMUX_MASK_MAX \<le> length s"
      using prems(6) by (simp only: split) simp
    then obtain sl' flags' p where r: "dump_sections env ?f2 limit = Some (?f2\<lparr>
        f_out := f_out ?f2 @ concat (map (section_out env feed) (split_sections (drop ?n ?bs))),
        f_secbufp := p, f_secbuf := p, f_seclen := sl', f_flags := flags'\<rparr>)"
      "p = f_secbufp ?f2 + length (concat (split_sections (drop ?n ?bs)))"
    proof -
      assume all: "\<forall>s \<in> set (split_sections (drop ?n ?bs)). DVB_DEMUX_MASK_MAX \<le> length s"
      have "limit \<le> length (f_secbuf_base ?f2)" "f_secbuf ?f2 = f_secbufp ?f2" "f_pusi_seen ?f2"
        "f_is_filtering ?f2"
        using prems(1,4,5) by simp_all
      from IH [OF this all] that show thesis by blast
    qed
    show ?thesis
      unfolding step split r(1)
      by (rule exI [of _ sl'], rule exI [of _ flags'], rule exI [of _ p])
        (simp add: r(2) \<open>length (take ?n ?bs) = ?n\<close> del: length_take)
  qed
qed

subsection \<open>Segmentation does not matter\<close>

text \<open>Payload chunks fed one after the other.\<close>

fun copy_dump_all :: "feed_env \<Rightarrow> feed \<Rightarrow> byte list list \<Rightarrow> feed option" where
  "copy_dump_all env feed [] = Some feed"
| "copy_dump_all env feed (c # cs) =
     Option.bind (swfilter_section_copy_dump env feed c) (\<lambda>(feed1, _). copy_dump_all env feed1 cs)"

text \<open>
  The state between two chunks: the buffer holds the bytes \<open>bs\<close> received since the last
  section start, and everything complete in them was delivered after \<open>out0\<close>.
\<close>

definition reassembling :: "feed_env \<Rightarrow> delivery list \<Rightarrow> byte list \<Rightarrow> feed \<Rightarrow> bool" where
  "reassembling env out0 bs feed \<longleftrightarrow>
     length (f_secbuf_base feed) = DMX_MAX_SECFEED_SIZE \<and> f_pusi_seen feed \<and> f_is_filtering feed \<and>
     f_tsfeedp feed = length bs \<and> length bs \<le> DMX_MAX_SECFEED_SIZE \<and>
     take (length bs) (f_secbuf_base feed) = bs \<and>
     f_secbufp feed = length (concat (split_sections bs)) \<and>
     f_out feed = out0 @ concat (map (section_out env feed) (split_sections bs))"

definition same_filters :: "feed \<Rightarrow> feed \<Rightarrow> bool" where
  "same_filters f g \<longleftrightarrow> f_check_crc f = f_check_crc g \<and> f_filters f = f_filters g"

lemma same_filters_out: "same_filters f g \<Longrightarrow> section_out env f = section_out env g"
  by (intro ext) (simp add: section_out_def same_filters_def)

lemma concat_split_le: "length (concat (split_sections bs)) \<le> length bs"
  using arg_cong [OF concat_split [of bs], of length] by simp

lemma drop_concat_split: "drop (length (concat (split_sections bs))) bs = sections_rest bs"
  by (simp add: sections_rest_def)

lemma copy_dump_step:
  assumes r: "reassembling env out0 bs feed" and cb: "\<And>i s. 0 \<le> cb_sec env i s"
    and room: "length (bs @ c) \<le> DMX_MAX_SECFEED_SIZE"
    and big: "\<forall>s \<in> set (split_sections (bs @ c)). DVB_DEMUX_MASK_MAX \<le> length s"
  shows "\<exists>feed' r. swfilter_section_copy_dump env feed c = Some (feed', r) \<and>
    reassembling env out0 (bs @ c) feed' \<and> same_filters feed feed'"
proof (cases "c = []")
  case True
  then show ?thesis using r
    by (auto simp: swfilter_section_copy_dump_def Let_def reassembling_def same_filters_def
        set_buf_flags_def section_out_def)
next
  case False
  let ?b = "bs @ c @ drop (length (bs @ c)) (f_secbuf_base feed)"
  have c: "c \<noteq> []" "length bs < DMX_MAX_SECFEED_SIZE" using False room by (cases c; simp)+
  have base: "length (f_secbuf_base feed) = DMX_MAX_SECFEED_SIZE" "f_tsfeedp feed = length bs"
    "take (length bs) (f_secbuf_base feed) = bs" "f_secbufp feed = length (concat (split_sections bs))"
    using r by (auto simp: reassembling_def)
  let ?f = "feed\<lparr>f_secbuf_base := ?b, f_tsfeedp := length (bs @ c), f_secbuf := f_secbufp feed\<rparr>"
  have run: "swfilter_section_copy_dump env feed c =
    map_option (\<lambda>f. (f, 0)) (dump_sections env ?f (length (bs @ c)))"
    using c room base
    by (simp add: swfilter_section_copy_dump_def Let_def memcpy_def bind_Some_map)
  have lim: "take (length (bs @ c)) ?b = bs @ c" by simp
  have rest: "drop (f_secbufp feed) (bs @ c) = sections_rest bs @ c"
    using concat_split_le [of bs] by (simp add: base(4) drop_concat_split)
  have le: "length (concat (split_sections bs)) \<le> length bs" by (rule concat_split_le)
  have so: "section_out env ?f = section_out env feed" by (intro ext) (simp add: section_out_def)
  obtain sl flags p where d: "dump_sections env ?f (length (bs @ c)) = Some (?f\<lparr>
      f_out := f_out feed @ concat (map (section_out env feed) (split_sections (sections_rest bs @ c))),
      f_secbufp := p, f_secbuf := p, f_seclen := sl, f_flags := flags\<rparr>)"
    "p = f_secbufp feed + length (concat (split_sections (sections_rest bs @ c)))"
    using dump_spec [of "length (bs @ c)" ?f env] r cb room big le lim rest so
    by (auto simp: reassembling_def split_append [of bs c])
  let ?g = "?f\<lparr>f_out := f_out feed @ concat (map (section_out env feed) (split_sections (sections_rest bs @ c))),
      f_secbufp := p, f_secbuf := p, f_seclen := sl, f_flags := flags\<rparr>"
  have "section_out env ?g = section_out env feed" by (intro ext) (simp add: section_out_def)
  then have "reassembling env out0 (bs @ c) ?g"
    using r room base d(2) by (simp add: reassembling_def split_append [of bs c])
  then show ?thesis using d(1) by (simp add: run same_filters_def)
qed

lemma split_prefix_big:
  "\<forall>s \<in> set (split_sections (bs @ c)). P s \<Longrightarrow> \<forall>s \<in> set (split_sections bs). P s"
  by (simp add: split_append [of bs c])

lemma copy_dump_all_spec:
  assumes "reassembling env out0 bs feed" "\<And>i s. 0 \<le> cb_sec env i s"
    "length (bs @ concat cs) \<le> DMX_MAX_SECFEED_SIZE"
    "\<forall>s \<in> set (split_sections (bs @ concat cs)). DVB_DEMUX_MASK_MAX \<le> length s"
  shows "\<exists>feed'. copy_dump_all env feed cs = Some feed' \<and>
    reassembling env out0 (bs @ concat cs) feed' \<and> same_filters feed feed'"
  using assms(1,3,4)
proof (induction cs arbitrary: bs feed)
  case Nil
  then show ?case by (simp add: same_filters_def)
next
  case (Cons c cs)
  have "\<forall>s \<in> set (split_sections (bs @ c)). DVB_DEMUX_MASK_MAX \<le> length s"
    using Cons.prems(3) split_prefix_big [of "bs @ c" "concat cs"] by simp
  moreover have "length (bs @ c) \<le> DMX_MAX_SECFEED_SIZE" using Cons.prems(2) by simp
  ultimately obtain f1 r where f1: "swfilter_section_copy_dump env feed c = Some (f1, r)"
    "reassembling env out0 (bs @ c) f1" "same_filters feed f1"
    using copy_dump_step [OF Cons.prems(1) assms(2)] by blast
  then obtain f2 where "copy_dump_all env f1 cs = Some f2"
    "reassembling env out0 (bs @ c @ concat cs) f2" "same_filters f1 f2"
    using Cons.IH [of "bs @ c" f1] Cons.prems by auto
  then show ?case using f1 by (auto simp: same_filters_def)
qed

lemma section_new_reassembling:
  assumes "length (f_secbuf_base feed) = DMX_MAX_SECFEED_SIZE" "f_pusi_seen feed" "f_is_filtering feed"
    "swfilter_section_new feed = Some feed'"
  shows "reassembling env (f_out feed') [] feed' \<and> same_filters feed feed' \<and> f_out feed' = f_out feed"
proof -
  have eq: "feed' = feed\<lparr>f_flags := f_flags feed', f_tsfeedp := 0, f_secbufp := 0, f_seclen := 0,
    f_secbuf := 0\<rparr>"
    using assms(4)
    by (auto simp: swfilter_section_new_def set_buf_flags_def split: if_splits Option.bind_splits)
  obtain flags where feed': "feed' = feed\<lparr>f_flags := flags, f_tsfeedp := 0, f_secbufp := 0,
      f_seclen := 0, f_secbuf := 0\<rparr>"
    using eq by blast
  have "split_sections [] = []" by (subst split_sections.simps) simp
  then show ?thesis using assms unfolding feed' by (simp add: reassembling_def same_filters_def)
qed

subsection \<open>The invariant of a section feed\<close>

definition secfeed_ok :: "feed \<Rightarrow> bool" where
  "secfeed_ok f \<longleftrightarrow> length (f_secbuf_base f) = DMX_MAX_SECFEED_SIZE \<and>
     f_tsfeedp f \<le> DMX_MAX_SECFEED_SIZE \<and> f_secbufp f \<le> f_tsfeedp f \<and> f_secbuf f = f_secbufp f"

lemma reassembling_ok: "reassembling env out0 bs f \<Longrightarrow> f_secbuf f = f_secbufp f \<Longrightarrow> secfeed_ok f"
  using concat_split_le [of bs] by (auto simp: reassembling_def secfeed_ok_def)

text \<open>The part of a feed that delivering a section leaves alone.\<close>

definition same_buffer :: "feed \<Rightarrow> feed \<Rightarrow> bool" where
  "same_buffer f g \<longleftrightarrow> f_secbuf_base g = f_secbuf_base f \<and> f_tsfeedp g = f_tsfeedp f \<and>
     f_secbufp g = f_secbufp f \<and> f_secbuf g = f_secbuf f \<and> f_type g = f_type f \<and>
     f_is_filtering g = f_is_filtering f \<and> f_filters g = f_filters f \<and> f_check_crc g = f_check_crc f \<and>
     f_pusi_seen g = f_pusi_seen f \<and> f_cc g = f_cc f"

lemma same_buffer_refl [simp]: "same_buffer f f"
  by (simp add: same_buffer_def)

lemma same_buffer_trans: "same_buffer f g \<Longrightarrow> same_buffer g h \<Longrightarrow> same_buffer f h"
  by (simp add: same_buffer_def)

lemma same_buffer_update [simp]:
  "same_buffer f (set_buf_flags fl f)" "same_buffer f (deliver d f)" "same_buffer f (f\<lparr>f_seclen := n\<rparr>)"
  by (simp_all add: same_buffer_def set_buf_flags_def deliver_def)

lemma sectionfilter_same:
  "swfilter_sectionfilter env f fl = Some (g, r) \<Longrightarrow> same_buffer f g"
  by (auto simp: swfilter_sectionfilter_def split: option.splits if_splits Option.bind_splits)

lemma feed_filters_same:
  "section_feed_filters env f fs = Some (g, r) \<Longrightarrow> same_buffer f g"
proof (induction fs arbitrary: f)
  case (Cons fl fs)
  then obtain h q where h: "swfilter_sectionfilter env f fl = Some (h, q)"
    by (auto split: Option.bind_splits)
  note fh = sectionfilter_same [OF h]
  have "g = h \<or> g = h\<lparr>f_seclen := 0\<rparr> \<or> same_buffer h g"
    using Cons h by (auto split: if_splits)
  then show ?case using fh by (auto intro: same_buffer_trans)
qed auto

lemma section_feed_same:
  "swfilter_section_feed env f = Some (g, r) \<Longrightarrow> same_buffer f g"
  by (auto simp: swfilter_section_feed_def split: if_splits Option.bind_splits dest: feed_filters_same)

text \<open>A filter is only compared with bytes inside the buffer if 18 bytes are left.\<close>

lemma sf_scan_safe:
  "\<forall>i \<in> set is. f_secbuf f + i < length (f_secbuf_base f) \<Longrightarrow> sf_scan f fl is neq \<noteq> None"
  by (induction "is" arbitrary: neq) (auto simp: sec_byte_def mem_at_def Let_def)

lemma sectionfilter_safe:
  assumes "f_secbuf f + DVB_DEMUX_MASK_MAX \<le> length (f_secbuf_base f)"
    "f_secbuf f + f_seclen f \<le> length (f_secbuf_base f)"
  shows "swfilter_sectionfilter env f fl \<noteq> None"
  using assms sf_scan_safe [of "[0..<DVB_DEMUX_MASK_MAX]" f fl 0]
  by (auto simp: swfilter_sectionfilter_def mem_simps split: option.splits simp del: upt_rec_numeral)

lemma sectionfilter_seclen:
  "swfilter_sectionfilter env f fl = Some (g, r) \<Longrightarrow> f_seclen g = f_seclen f"
  by (auto simp: swfilter_sectionfilter_def deliver_def split: option.splits if_splits Option.bind_splits)

lemma feed_filters_safe:
  "f_secbuf f + DVB_DEMUX_MASK_MAX \<le> length (f_secbuf_base f) \<Longrightarrow>
   f_secbuf f + f_seclen f \<le> length (f_secbuf_base f) \<Longrightarrow> section_feed_filters env f fs \<noteq> None"
proof (induction fs arbitrary: f)
  case (Cons fl fs)
  obtain g r where g: "swfilter_sectionfilter env f fl = Some (g, r)"
    using sectionfilter_safe [OF Cons.prems, of env fl] by auto
  then show ?case
    using Cons.prems Cons.IH [of g] sectionfilter_same [OF g] sectionfilter_seclen [OF g]
    by (simp add: same_buffer_def)
qed simp

lemma section_feed_safe:
  assumes "f_secbuf f + DVB_DEMUX_MASK_MAX \<le> length (f_secbuf_base f)"
    "f_secbuf f + f_seclen f \<le> length (f_secbuf_base f)"
  shows "swfilter_section_feed env f \<noteq> None"
proof -
  from assms have "sec_byte f 1 = Some (f_secbuf_base f ! (f_secbuf f + 1))"
    by (simp add: sec_byte_def mem_at_def)
  then show ?thesis
    using feed_filters_safe [OF assms] assms by (simp add: swfilter_section_feed_def mem_simps)
qed

text \<open>One turn of the loop over the sections.\<close>

lemma dump_step:
  assumes "f_secbuf f = f_secbufp f"
  obtains (stop) "dump_sections env f limit = Some f"
  | (fault) "dump_sections env f limit = None" "length (f_secbuf_base f) < limit + 15"
  | (dumped) h n where "3 \<le> n" "f_secbufp f + n \<le> limit" "same_buffer f h"
      "dump_sections env f limit =
       dump_sections env (h\<lparr>f_secbufp := f_secbufp f + n, f_secbuf := f_secbufp f + n\<rparr>) limit"
proof (cases "f_secbufp f + 2 < limit")
  case False
  then have "dump_sections env f limit = Some f" by (subst dump_sections.simps) simp
  then show ?thesis by (rule stop)
next
  case more: True
  show ?thesis
  proof (cases "memread (f_secbuf_base f) (f_secbuf f) 3")
    case None
    then have "dump_sections env f limit = None" using more by (subst dump_sections.simps) simp
    moreover have "length (f_secbuf_base f) < limit + 15"
      using None more assms by (auto simp: memread_def split: if_splits)
    ultimately show ?thesis by (rule fault)
  next
    case (Some hdr)
    let ?n = "section_length hdr"
    let ?step = "if f_pusi_seen f then map_option fst (swfilter_section_feed env (f\<lparr>f_seclen := ?n\<rparr>))
      else Some (set_buf_flags DISCONTINUITY_DETECTED (f\<lparr>f_seclen := ?n\<rparr>))"
    let ?next = "\<lambda>h. dump_sections env (h\<lparr>f_secbufp := f_secbufp f + ?n, f_secbuf := f_secbufp f + ?n\<rparr>) limit"
    have eq: "dump_sections env f limit = (if ?n > DMX_MAX_SECTION_SIZE \<or> ?n + f_secbufp f > limit
        then Some f else Option.bind ?step ?next)"
      using more Some assms by (subst dump_sections.simps) (simp add: Let_def)
    show ?thesis
    proof (cases "?n > DMX_MAX_SECTION_SIZE \<or> ?n + f_secbufp f > limit")
      case True
      then have "dump_sections env f limit = Some f" unfolding eq by (rule if_P)
      then show ?thesis by (rule stop)
    next
      case False
      then have d: "dump_sections env f limit = Option.bind ?step ?next" unfolding eq by (rule if_not_P)
      show ?thesis
      proof (cases ?step)
        case None
        then have "swfilter_section_feed env (f\<lparr>f_seclen := ?n\<rparr>) = None" by (auto split: if_splits)
        then have "length (f_secbuf_base f) < limit + 15"
          using section_feed_safe [of "f\<lparr>f_seclen := ?n\<rparr>" env] False more assms by force
        moreover have "dump_sections env f limit = None" unfolding d None by simp
        ultimately show ?thesis using fault by blast
      next
        case (Some h)
        then have "same_buffer (f\<lparr>f_seclen := ?n\<rparr>) h"
          by (auto dest: section_feed_same split: if_splits)
        then have "same_buffer f h" by (rule same_buffer_trans [OF same_buffer_update(3)])
        moreover have "dump_sections env f limit = ?next h" unfolding d Some by simp
        ultimately show ?thesis using dumped [of ?n h] section_length_pos [of hdr] False by simp
      qed
    qed
  qed
qed

lemma dump_same:
  "dump_sections env f limit = Some g \<Longrightarrow> f_secbuf f = f_secbufp f \<Longrightarrow> f_secbufp f \<le> limit \<Longrightarrow>
   f_secbuf_base g = f_secbuf_base f \<and> f_tsfeedp g = f_tsfeedp f \<and> f_secbuf g = f_secbufp g \<and>
   f_secbufp g \<le> limit \<and> f_type g = f_type f \<and> f_is_filtering g = f_is_filtering f \<and>
   f_filters g = f_filters f \<and> f_check_crc g = f_check_crc f"
proof (induction "limit - f_secbufp f" arbitrary: f rule: less_induct)
  case (less f)
  from less.prems(2) show ?case
  proof (cases rule: dump_step [of f env limit])
    case (dumped h n)
    let ?h = "h\<lparr>f_secbufp := f_secbufp f + n, f_secbuf := f_secbufp f + n\<rparr>"
    have "limit - f_secbufp ?h < limit - f_secbufp f" using dumped(1,2) by simp
    from less.hyps [OF this] dumped less.prems show ?thesis by (simp add: same_buffer_def)
  qed (use less.prems in auto)
qed

lemma dump_safe:
  "f_secbuf f = f_secbufp f \<Longrightarrow> limit + 15 \<le> length (f_secbuf_base f) \<Longrightarrow>
   dump_sections env f limit \<noteq> None"
proof (induction "limit - f_secbufp f" arbitrary: f rule: less_induct)
  case (less f)
  from less.prems(1) show ?case
  proof (cases rule: dump_step [of f env limit])
    case (dumped h n)
    let ?h = "h\<lparr>f_secbufp := f_secbufp f + n, f_secbuf := f_secbufp f + n\<rparr>"
    have "limit - f_secbufp ?h < limit - f_secbufp f" using dumped(1,2) by simp
    from less.hyps [OF this] dumped less.prems show ?thesis by (simp add: same_buffer_def)
  qed (use less.prems in auto)
qed

lemma secfeed_ok_same: "same_buffer f g \<Longrightarrow> secfeed_ok f \<Longrightarrow> secfeed_ok g"
  by (simp add: same_buffer_def secfeed_ok_def)

lemma section_new_ok:
  assumes "secfeed_ok f" "swfilter_section_new f = Some g"
  shows "secfeed_ok g \<and> f_tsfeedp g = 0"
  using assms
  by (auto simp: swfilter_section_new_def secfeed_ok_def set_buf_flags_def split: if_splits Option.bind_splits)

lemma section_new_safe: "secfeed_ok f \<Longrightarrow> swfilter_section_new f \<noteq> None"
  by (auto simp: swfilter_section_new_def secfeed_ok_def sec_byte_def mem_at_def)

text \<open>The effect of copying a chunk up to the loop over the sections.\<close>

definition same_control :: "feed \<Rightarrow> feed \<Rightarrow> bool" where
  "same_control f g \<longleftrightarrow> f_type g = f_type f \<and> f_is_filtering g = f_is_filtering f \<and>
     f_filters g = f_filters f \<and> f_check_crc g = f_check_crc f \<and> f_pusi_seen g = f_pusi_seen f \<and>
     f_cc g = f_cc f"

lemma same_buffer_control: "same_buffer f g \<Longrightarrow> same_control f g"
  by (simp add: same_buffer_def same_control_def)

lemma copy_dump_cases:
  assumes ok: "secfeed_ok f"
  obtains (skip) g where "swfilter_section_copy_dump env f buf = Some (g, 0)" "same_buffer f g"
      "f_out g = f_out f"
  | (copy) g where "secfeed_ok g" "same_control f g" "f_out g = f_out f" "f_tsfeedp g = min DMX_MAX_SECFEED_SIZE (f_tsfeedp f + length buf)"
      "swfilter_section_copy_dump env f buf = map_option (\<lambda>h. (h, 0)) (dump_sections env g (f_tsfeedp g))"
proof -
  let ?over = "f_tsfeedp f + length buf > DMX_MAX_SECFEED_SIZE"
  let ?f1 = "if ?over then set_buf_flags DISCONTINUITY_DETECTED f else f"
  let ?n = "if ?over then DMX_MAX_SECFEED_SIZE - f_tsfeedp f else length buf"
  have f1: "same_buffer f ?f1" by simp
  show ?thesis
  proof (cases "f_tsfeedp f \<ge> DMX_MAX_SECFEED_SIZE \<or> ?n = 0")
    case True
    then have "\<exists>g. swfilter_section_copy_dump env f buf = Some (g, 0) \<and> same_buffer f g \<and>
        f_out g = f_out f"
      by (auto simp: swfilter_section_copy_dump_def Let_def set_buf_flags_def same_buffer_def)
    then show ?thesis using skip by blast
  next
    case False
    let ?d = "take (f_tsfeedp f) (f_secbuf_base f) @ take ?n buf @ drop (f_tsfeedp f + ?n) (f_secbuf_base f)"
    let ?g = "?f1\<lparr>f_secbuf_base := ?d, f_tsfeedp := f_tsfeedp f + ?n, f_secbuf := f_secbufp f\<rparr>"
    have len: "length (take ?n buf) = ?n" by auto
    have b: "f_secbuf_base ?f1 = f_secbuf_base f" "f_tsfeedp ?f1 = f_tsfeedp f" "f_secbufp ?f1 = f_secbufp f"
      using f1 by (simp_all add: same_buffer_def)
    have "memcpy (f_secbuf_base ?f1) (f_tsfeedp ?f1) (take ?n buf) = Some ?d"
      using ok len unfolding b by (auto simp: memcpy_eq_Some_iff secfeed_ok_def)
    moreover have le: "f_tsfeedp f + ?n \<le> DMX_MAX_SECFEED_SIZE" using ok by (simp add: secfeed_ok_def)
    ultimately have "swfilter_section_copy_dump env f buf =
        map_option (\<lambda>h. (h, 0)) (dump_sections env ?g (f_tsfeedp ?g))"
      using False b by (simp add: swfilter_section_copy_dump_def Let_def bind_Some_map split del: if_split)
    moreover have "secfeed_ok ?g"
      using ok le len b by (simp add: secfeed_ok_def split del: if_split)
    moreover have "same_control f ?g" "f_out ?g = f_out f"
      by (simp_all add: same_control_def set_buf_flags_def)
    moreover have "f_tsfeedp ?g = min DMX_MAX_SECFEED_SIZE (f_tsfeedp f + length buf)"
      using ok by (auto simp: secfeed_ok_def)
    ultimately show ?thesis by (intro copy [of ?g])
  qed
qed

lemma copy_dump_ok:
  assumes ok: "secfeed_ok f" and run: "swfilter_section_copy_dump env f buf = Some (g, r)"
  shows "secfeed_ok g" "f_tsfeedp g \<le> f_tsfeedp f + length buf"
proof -
  from ok have "secfeed_ok g \<and> f_tsfeedp g \<le> f_tsfeedp f + length buf"
  proof (cases rule: copy_dump_cases [of f env buf])
    case (skip h)
    then show ?thesis using run ok secfeed_ok_same by (auto simp: same_buffer_def)
  next
    case (copy h)
    then have "dump_sections env h (f_tsfeedp h) = Some g" using run by (auto simp: map_option_case split: option.splits)
    then show ?thesis using dump_same [of env h "f_tsfeedp h" g] copy by (auto simp: secfeed_ok_def)
  qed
  then show "secfeed_ok g" "f_tsfeedp g \<le> f_tsfeedp f + length buf" by auto
qed

lemma copy_dump_safe:
  assumes ok: "secfeed_ok f" and room: "f_tsfeedp f + length buf + 15 \<le> DMX_MAX_SECFEED_SIZE"
  shows "swfilter_section_copy_dump env f buf \<noteq> None"
  using ok
proof (cases rule: copy_dump_cases [of f env buf])
  case (copy h)
  then have "dump_sections env h (f_tsfeedp h) \<noteq> None"
    using room by (intro dump_safe) (auto simp: secfeed_ok_def)
  then show ?thesis using copy by auto
qed simp

text \<open>The start of \<open>swfilter_section_packet\<close>: the handling of a discontinuity.\<close>

definition discontinuity :: "feed \<Rightarrow> byte list \<Rightarrow> bool" where
  "discontinuity f buf \<longleftrightarrow>
     \<not> cc_ok f buf \<or> (buf ! 3 AND 0x20 \<noteq> 0 \<and> buf ! 4 > 0 \<and> buf ! 5 AND 0x80 \<noteq> 0)"

definition section_resync :: "feed \<Rightarrow> byte list \<Rightarrow> feed option" where
  "section_resync f buf =
     (if discontinuity f buf
      then swfilter_section_new
        ((set_buf_flags (if buf ! 3 AND 0x20 \<noteq> 0 \<and> buf ! 4 > 0 \<and> buf ! 5 AND 0x80 \<noteq> 0
            then DISCONTINUITY_INDICATOR else DISCONTINUITY_DETECTED) f)\<lparr>f_pusi_seen := False\<rparr>)
      else Some f)"

text \<open>The rest of it, with the three parts of the payload of a packet that starts a section.\<close>

definition ptr_field :: "byte list \<Rightarrow> nat" where "ptr_field buf = unat (buf ! (188 - payload buf))"

definition before_ptr :: "byte list \<Rightarrow> byte list" where
  "before_ptr buf = take (ptr_field buf) (drop (188 - payload buf + 1) buf)"

definition after_ptr :: "byte list \<Rightarrow> byte list" where
  "after_ptr buf = take (payload buf - 1 - ptr_field buf) (drop (188 - payload buf + 1 + ptr_field buf) buf)"

definition section_copy :: "feed_env \<Rightarrow> feed \<Rightarrow> byte list \<Rightarrow> (feed \<times> int) option" where
  "section_copy env f buf =
     (if buf ! 1 AND 0x40 \<noteq> 0
      then if payload buf > 1 \<and> ptr_field buf < payload buf
           then Option.bind (swfilter_section_copy_dump env f (before_ptr buf)) (\<lambda>(f3, _).
             Option.bind (swfilter_section_new (f3\<lparr>f_pusi_seen := True\<rparr>)) (\<lambda>f4.
               map_option (\<lambda>(g, _). (g, 0)) (swfilter_section_copy_dump env f4 (after_ptr buf))))
           else Some (set_buf_flags DISCONTINUITY_DETECTED f, 0)
      else map_option (\<lambda>(g, _). (g, 0)) (swfilter_section_copy_dump env f (drop (188 - payload buf) buf)))"

lemma bind_Some_fst: "Option.bind m (\<lambda>(g, _). Some (g, 0 :: int)) = map_option (\<lambda>(g, _). (g, 0)) m"
  by (cases m) auto

lemma section_packet_split:
  assumes "payload buf \<noteq> 0"
  shows "swfilter_section_packet env f buf =
    Option.bind (section_resync f buf) (\<lambda>f1. section_copy env (f1\<lparr>f_cc := uint (buf ! 3 AND 0x0f)\<rparr>) buf)"
  unfolding swfilter_section_packet_def section_resync_def section_copy_def discontinuity_def Let_def
    before_ptr_def after_ptr_def ptr_field_def bind_Some_fst
  using assms by simp

lemma section_new_total:
  assumes "secfeed_ok f"
  obtains g where "swfilter_section_new f = Some g" "secfeed_ok g" "f_tsfeedp g = 0"
  using section_new_safe [OF assms] section_new_ok [OF assms] by blast

lemma section_resync_ok:
  assumes "secfeed_ok f"
  obtains f1 where "section_resync f buf = Some f1" "secfeed_ok f1" "f_tsfeedp f1 \<le> f_tsfeedp f"
proof (cases "discontinuity f buf")
  case True
  let ?f0 = "(set_buf_flags (if buf ! 3 AND 0x20 \<noteq> 0 \<and> buf ! 4 > 0 \<and> buf ! 5 AND 0x80 \<noteq> 0
    then DISCONTINUITY_INDICATOR else DISCONTINUITY_DETECTED) f)\<lparr>f_pusi_seen := False\<rparr>"
  have "secfeed_ok ?f0" using assms by (simp add: secfeed_ok_def set_buf_flags_def)
  then obtain f1 where f1: "swfilter_section_new ?f0 = Some f1" "secfeed_ok f1" "f_tsfeedp f1 = 0"
    by (rule section_new_total)
  from True have "section_resync f buf = Some f1"
    unfolding section_resync_def f1(1) by (rule if_P)
  then show ?thesis using that [of f1] f1 by simp
qed (use assms that [of f] in \<open>simp add: section_resync_def\<close>)

lemma payload_le: "payload buf \<le> 184"
  unfolding payload_def by auto

lemma pointer_parts:
  assumes "length buf = 188" "ptr_field buf < payload buf"
  shows "length (before_ptr buf) + length (after_ptr buf) < payload buf"
  using assms by (auto simp: before_ptr_def after_ptr_def)

lemma secfeed_ok_update [simp]:
  "secfeed_ok (f\<lparr>f_pusi_seen := b\<rparr>) = secfeed_ok f" "secfeed_ok (f\<lparr>f_cc := i\<rparr>) = secfeed_ok f"
  "secfeed_ok (set_buf_flags fl f) = secfeed_ok f"
  by (simp_all add: secfeed_ok_def set_buf_flags_def)

lemma section_copy_ok:
  assumes ok: "secfeed_ok f" and run: "section_copy env f buf = Some (g, r)"
  shows "secfeed_ok g"
proof -
  consider g' r' where "swfilter_section_copy_dump env f (drop (188 - payload buf) buf) = Some (g', r')" "g = g'"
    | f3 r3 f4 r4 where "swfilter_section_copy_dump env f (before_ptr buf) = Some (f3, r3)"
        "swfilter_section_new (f3\<lparr>f_pusi_seen := True\<rparr>) = Some f4"
        "swfilter_section_copy_dump env f4 (after_ptr buf) = Some (g, r4)"
    | "g = set_buf_flags DISCONTINUITY_DETECTED f"
    using run that unfolding section_copy_def
    by (cases "buf ! 1 AND 0x40 = 0"; cases "payload buf > 1 \<and> ptr_field buf < payload buf")
      (auto simp: map_option_case split: option.splits Option.bind_splits)
  then show ?thesis
  proof cases
    case 1
    then show ?thesis using copy_dump_ok(1) [OF ok] by auto
  next
    case 2
    have "secfeed_ok (f3\<lparr>f_pusi_seen := True\<rparr>)" using copy_dump_ok(1) [OF ok 2(1)] by simp
    then show ?thesis using 2 by (metis copy_dump_ok(1) section_new_ok)
  next
    case 3
    then show ?thesis using ok by simp
  qed
qed

lemma section_copy_safe:
  assumes ok: "secfeed_ok f" and len: "length buf = 188"
    and room: "f_tsfeedp f + payload buf + 15 \<le> DMX_MAX_SECFEED_SIZE"
  shows "section_copy env f buf \<noteq> None"
proof -
  consider "buf ! 1 AND 0x40 = 0" | "buf ! 1 AND 0x40 \<noteq> 0" "payload buf > 1 \<and> ptr_field buf < payload buf"
    | "buf ! 1 AND 0x40 \<noteq> 0" "\<not> (payload buf > 1 \<and> ptr_field buf < payload buf)" by blast
  then show ?thesis
  proof cases
    case 1
    have "length (drop (188 - payload buf) buf) = payload buf" using len payload_le [of buf] by simp
    then show ?thesis
      using 1 copy_dump_safe [OF ok, of "drop (188 - payload buf) buf" env] room
      by (auto simp: section_copy_def)
  next
    case 2
    note parts = pointer_parts [OF len conjunct2 [OF 2(2)]]
    obtain f3 r3 where f3: "swfilter_section_copy_dump env f (before_ptr buf) = Some (f3, r3)"
      using copy_dump_safe [OF ok, of "before_ptr buf" env] parts room by auto
    then have "secfeed_ok (f3\<lparr>f_pusi_seen := True\<rparr>)" using copy_dump_ok(1) [OF ok] by simp
    then obtain f4 where f4: "swfilter_section_new (f3\<lparr>f_pusi_seen := True\<rparr>) = Some f4"
      "secfeed_ok f4" "f_tsfeedp f4 = 0"
      by (rule section_new_total)
    obtain f5 r5 where "swfilter_section_copy_dump env f4 (after_ptr buf) = Some (f5, r5)"
      using copy_dump_safe [OF f4(2), of "after_ptr buf" env] parts payload_le [of buf] f4(3) by auto
    then show ?thesis using 2 f3 f4 by (simp add: section_copy_def)
  next
    case 3
    then have "section_copy env f buf = Some (set_buf_flags DISCONTINUITY_DETECTED f, 0)"
      unfolding section_copy_def by (simp only: if_P if_not_P not_not simp_thms)
    then show ?thesis by simp
  qed
qed

lemma section_packet_ok:
  assumes "secfeed_ok f" "payload buf \<noteq> 0" "swfilter_section_packet env f buf = Some (g, r)"
  shows "secfeed_ok g"
proof -
  obtain f1 where f1: "section_resync f buf = Some f1" "secfeed_ok f1"
    using section_resync_ok [OF assms(1)] by blast
  then show ?thesis
    using assms(3) section_copy_ok [of "f1\<lparr>f_cc := uint (buf ! 3 AND 0x0f)\<rparr>"]
    by (simp add: section_packet_split [OF assms(2)])
qed

lemma section_packet_safe:
  assumes "secfeed_ok f" "payload buf \<noteq> 0" "length buf = 188"
    "f_tsfeedp f + payload buf + 15 \<le> DMX_MAX_SECFEED_SIZE"
  shows "swfilter_section_packet env f buf \<noteq> None"
proof -
  obtain f1 where f1: "section_resync f buf = Some f1" "secfeed_ok f1" "f_tsfeedp f1 \<le> f_tsfeedp f"
    using section_resync_ok [OF assms(1)] by blast
  then show ?thesis
    using assms(4) section_copy_safe [OF _ assms(3), of "f1\<lparr>f_cc := uint (buf ! 3 AND 0x0f)\<rparr>" env]
    by (simp add: section_packet_split [OF assms(2)])
qed

subsection \<open>Streams of packets\<close>

definition payload_of :: "byte list \<Rightarrow> byte list" where
  "payload_of buf = drop (188 - payload buf) buf"

definition disc_indicator :: "byte list \<Rightarrow> bool" where
  "disc_indicator buf \<longleftrightarrow> buf ! 3 AND 0x20 \<noteq> 0 \<and> buf ! 4 > 0 \<and> buf ! 5 AND 0x80 \<noteq> 0"

text \<open>Packets that continue a section, with consecutive continuity counters.\<close>

fun cont_packets :: "int \<Rightarrow> byte list list \<Rightarrow> bool" where
  "cont_packets cc [] = True"
| "cont_packets cc (b # bs) =
     (length b = 188 \<and> payload b \<noteq> 0 \<and> b ! 1 AND 0x40 = 0 \<and> \<not> disc_indicator b \<and>
      (cc + 1) mod 16 = uint (b ! 3 AND 0x0f) \<and> cont_packets (uint (b ! 3 AND 0x0f)) bs)"

text \<open>A packet that starts with a section: the pointer field is zero.\<close>

definition start_packet :: "int \<Rightarrow> byte list \<Rightarrow> bool" where
  "start_packet cc b \<longleftrightarrow> length b = 188 \<and> 1 < payload b \<and> b ! 1 AND 0x40 \<noteq> 0 \<and> ptr_field b = 0 \<and>
     \<not> disc_indicator b \<and> (cc + 1) mod 16 = uint (b ! 3 AND 0x0f)"

fun feed_run :: "feed_env \<Rightarrow> feed \<Rightarrow> byte list list \<Rightarrow> feed option" where
  "feed_run env f [] = Some f"
| "feed_run env f (b # bs) = Option.bind (swfilter_packet_type env f b) (\<lambda>g. feed_run env g bs)"

lemma length_payload_of: "length b = 188 \<Longrightarrow> length (payload_of b) = payload b"
  using payload_le [of b] by (simp add: payload_of_def)

text \<open>The delivery of sections does not touch the continuity counter or the feed's type.\<close>

lemma same_control_trans: "same_control f g \<Longrightarrow> same_control g h \<Longrightarrow> same_control f h"
  by (simp add: same_control_def)

lemma dump_control:
  "dump_sections env f limit = Some g \<Longrightarrow> f_secbuf f = f_secbufp f \<Longrightarrow> same_control f g"
proof (induction "limit - f_secbufp f" arbitrary: f rule: less_induct)
  case (less f)
  from less.prems(2) show ?case
  proof (cases rule: dump_step [of f env limit])
    case (dumped h n)
    let ?h = "h\<lparr>f_secbufp := f_secbufp f + n, f_secbuf := f_secbufp f + n\<rparr>"
    have "limit - f_secbufp ?h < limit - f_secbufp f" using dumped(1,2) by simp
    from less.hyps [OF this] dumped less.prems show ?thesis by (simp add: same_buffer_def same_control_def)
  qed (use less.prems in \<open>auto simp: same_control_def\<close>)
qed

lemma copy_dump_control:
  assumes ok: "secfeed_ok f" and run: "swfilter_section_copy_dump env f buf = Some (g, r)"
  shows "same_control f g"
  using ok
proof (cases rule: copy_dump_cases [of f env buf])
  case (skip h)
  then show ?thesis using run same_buffer_control by auto
next
  case (copy h)
  then have "dump_sections env h (f_tsfeedp h) = Some g"
    using run by (auto simp: map_option_case split: option.splits)
  from dump_control [OF this] copy show ?thesis
    by (auto simp: secfeed_ok_def intro: same_control_trans)
qed

lemma cont_step:
  assumes r: "reassembling env out0 bs f" and cb: "\<And>i s. 0 \<le> cb_sec env i s"
    and ty: "f_type f = DMX_TYPE_SEC" and b: "cont_packets (f_cc f) [b]"
    and room: "length (bs @ payload_of b) \<le> DMX_MAX_SECFEED_SIZE"
    and big: "\<forall>s \<in> set (split_sections (bs @ payload_of b)). DVB_DEMUX_MASK_MAX \<le> length s"
    and ok: "secfeed_ok f"
  shows "\<exists>g. swfilter_packet_type env f b = Some g \<and> reassembling env out0 (bs @ payload_of b) g \<and>
    same_filters f g \<and> f_type g = DMX_TYPE_SEC \<and> f_cc g = uint (b ! 3 AND 0x0f) \<and> secfeed_ok g"
proof -
  let ?f = "f\<lparr>f_cc := uint (b ! 3 AND 0x0f)\<rparr>"
  have so: "section_out env ?f = section_out env f" by (intro ext) (simp add: section_out_def)
  have r': "reassembling env out0 bs ?f" using r by (simp add: reassembling_def so)
  obtain g q where g: "swfilter_section_copy_dump env ?f (payload_of b) = Some (g, q)"
    "reassembling env out0 (bs @ payload_of b) g" "same_filters ?f g"
    using copy_dump_step [OF r' cb room big] by blast
  have "\<not> discontinuity f b" using b by (simp add: discontinuity_def cc_ok_def disc_indicator_def)
  then have "swfilter_section_packet env f b = Some (g, 0)"
    using b g(1) by (simp add: section_packet_split section_resync_def section_copy_def payload_of_def)
  then have "swfilter_packet_type env f b = Some g"
    using ty r by (simp add: swfilter_packet_type_def reassembling_def)
  moreover have "secfeed_ok ?f" using ok by simp
  ultimately show ?thesis using g copy_dump_control [OF _ g(1)] copy_dump_ok [OF _ g(1)] ty
    by (simp add: same_filters_def same_control_def)
qed

lemma copy_dump_empty:
  assumes "secfeed_ok f"
  shows "swfilter_section_copy_dump env f [] = Some (f, 0)"
  using assms by (simp add: swfilter_section_copy_dump_def secfeed_ok_def)

subsection \<open>Nothing is delivered while the feed is out of step\<close>

lemma dump_no_output:
  "dump_sections env f limit = Some g \<Longrightarrow> f_secbuf f = f_secbufp f \<Longrightarrow> \<not> f_pusi_seen f \<Longrightarrow>
   f_out g = f_out f"
proof (induction "limit - f_secbufp f" arbitrary: f rule: less_induct)
  case (less f)
  show ?case
  proof (cases "dump_sections env f limit = Some f")
    case True
    then show ?thesis using less.prems(1) by simp
  next
    case False
    then have more: "f_secbufp f + 2 < limit" by (subst (asm) dump_sections.simps) (simp split: if_splits)
    then obtain hdr where hdr: "memread (f_secbuf_base f) (f_secbuf f) 3 = Some hdr"
      using less.prems(1) by (subst (asm) dump_sections.simps) (auto split: Option.bind_splits)
    let ?n = "section_length hdr"
    let ?h = "(set_buf_flags DISCONTINUITY_DETECTED (f\<lparr>f_seclen := ?n\<rparr>))
      \<lparr>f_secbufp := f_secbufp f + ?n, f_secbuf := f_secbuf f + ?n\<rparr>"
    have "dump_sections env f limit =
        (if ?n > DMX_MAX_SECTION_SIZE \<or> ?n + f_secbufp f > limit then Some f
         else dump_sections env ?h limit)"
      using more hdr less.prems(3) by (subst dump_sections.simps) (simp add: Let_def)
    then have "dump_sections env ?h limit = Some g" using False less.prems(1) by (auto split: if_splits)
    moreover have "limit - f_secbufp ?h < limit - f_secbufp f"
      using more section_length_pos [of hdr] by (simp add: set_buf_flags_def)
    ultimately show ?thesis using less.hyps [of ?h] less.prems(2,3)
      by (simp add: set_buf_flags_def)
  qed
qed

lemma copy_dump_no_output:
  assumes ok: "secfeed_ok f" and run: "swfilter_section_copy_dump env f buf = Some (g, r)"
    and p: "\<not> f_pusi_seen f"
  shows "f_out g = f_out f \<and> \<not> f_pusi_seen g"
proof -
  have "f_out g = f_out f"
    using ok
  proof (cases rule: copy_dump_cases [of f env buf])
    case (copy h)
    then have "dump_sections env h (f_tsfeedp h) = Some g"
      using run by (auto simp: map_option_case split: option.splits)
    from dump_no_output [OF this] copy p show ?thesis
      by (simp add: secfeed_ok_def same_control_def)
  qed (use run in auto)
  then show ?thesis using copy_dump_control [OF ok run] p by (simp add: same_control_def)
qed

lemma section_new_out: "swfilter_section_new f = Some g \<Longrightarrow> f_out g = f_out f \<and> f_pusi_seen g = f_pusi_seen f"
  by (auto simp: swfilter_section_new_def set_buf_flags_def split: if_splits Option.bind_splits)

lemma no_output_before_start:
  assumes ok: "secfeed_ok f" and pl: "payload buf \<noteq> 0" and nostart: "buf ! 1 AND 0x40 = 0"
    and lost: "discontinuity f buf \<or> \<not> f_pusi_seen f"
    and run: "swfilter_section_packet env f buf = Some (g, r)"
  shows "f_out g = f_out f \<and> \<not> f_pusi_seen g"
proof -
  obtain f1 where f1: "section_resync f buf = Some f1" "secfeed_ok f1"
    using section_resync_ok [OF ok] by blast
  have "f_out f1 = f_out f \<and> \<not> f_pusi_seen f1"
  proof (cases "discontinuity f buf")
    case True
    from f1(1) [unfolded section_resync_def if_P [OF True]] show ?thesis
      by (auto dest: section_new_out simp: set_buf_flags_def)
  qed (use f1 lost in \<open>auto simp: section_resync_def\<close>)
  moreover obtain q where "swfilter_section_copy_dump env (f1\<lparr>f_cc := uint (buf ! 3 AND 0x0f)\<rparr>)
      (drop (188 - payload buf) buf) = Some (g, q)"
    using run f1(1) nostart
    by (auto simp: section_packet_split [OF pl] section_copy_def map_option_case split: option.splits)
  ultimately show ?thesis
    using copy_dump_no_output [of "f1\<lparr>f_cc := uint (buf ! 3 AND 0x0f)\<rparr>" env _ g q] f1(2) by simp
qed

subsection \<open>The meaning of a prepared filter\<close>

definition filter_wf :: "secfilter \<Rightarrow> bool" where
  "filter_wf f \<longleftrightarrow> length (filter_value f) = DVB_DEMUX_MASK_MAX \<and>
     length (filter_mask f) = DVB_DEMUX_MASK_MAX \<and> length (filter_mode f) = DVB_DEMUX_MASK_MAX"

lemma and_not_bits: "a AND (b XOR c) \<noteq> (0 :: byte) \<longleftrightarrow> (\<exists>j < 8. bit a j \<and> bit b j \<noteq> bit c j)"
  by (auto simp: bit_eq_iff bit_simps dest: bit_imp_le_length)

lemma prepared_nth:
  assumes "filter_wf f" "i < DVB_DEMUX_MASK_MAX"
  shows "maskandmode (prepare_secfilter f) ! i = filter_mask f ! i AND filter_mode f ! i"
    "maskandnotmode (prepare_secfilter f) ! i = filter_mask f ! i AND NOT (filter_mode f ! i)"
    "filter_value (prepare_secfilter f) = filter_value f"
  using assms by (simp_all add: prepare_secfilter_def Let_def filter_wf_def)

lemma prepared_doneq:
  assumes "filter_wf f"
  shows "doneq (prepare_secfilter f) \<longleftrightarrow>
    (\<exists>i < DVB_DEMUX_MASK_MAX. \<exists>j < 8. bit (filter_mask f ! i) j \<and> \<not> bit (filter_mode f ! i) j)"
proof -
  have nz: "a AND NOT b \<noteq> (0 :: byte) \<longleftrightarrow> (\<exists>j < 8. bit a j \<and> \<not> bit b j)" for a b
    by (auto simp: bit_eq_iff bit_simps dest: bit_imp_le_length)
  have "doneq (prepare_secfilter f) \<longleftrightarrow>
      (\<exists>i < DVB_DEMUX_MASK_MAX. filter_mask f ! i AND NOT (filter_mode f ! i) \<noteq> 0)"
    using assms
    by (auto simp: prepare_secfilter_def Let_def filter_wf_def in_set_conv_nth set_zip)
  then show ?thesis unfolding nz .
qed

text \<open>
  The filter as the user specifies it: value, mask and mode, bit by bit over the 18 bytes.
\<close>

definition filter_spec :: "secfilter \<Rightarrow> byte list \<Rightarrow> bool" where
  "filter_spec f s \<longleftrightarrow>
     (let sel = (\<lambda>i j. bit (filter_mask f ! i) j); pos = (\<lambda>i j. bit (filter_mode f ! i) j);
          same = (\<lambda>i j. bit (filter_value f ! i) j = bit (s ! i) j)
      in (\<forall>i < DVB_DEMUX_MASK_MAX. \<forall>j < 8. sel i j \<and> pos i j \<longrightarrow> same i j) \<and>
         ((\<exists>i < DVB_DEMUX_MASK_MAX. \<exists>j < 8. sel i j \<and> \<not> pos i j) \<longrightarrow>
          (\<exists>i < DVB_DEMUX_MASK_MAX. \<exists>j < 8. sel i j \<and> \<not> pos i j \<and> \<not> same i j)))"

lemma filter_matches_spec:
  assumes "filter_wf f"
  shows "filter_matches (prepare_secfilter f) s = filter_spec f s"
proof -
  have pos: "(maskandmode (prepare_secfilter f) ! i AND (filter_value (prepare_secfilter f) ! i XOR s ! i) = 0) =
      (\<forall>j < 8. bit (filter_mask f ! i) j \<and> bit (filter_mode f ! i) j \<longrightarrow>
         bit (filter_value f ! i) j = bit (s ! i) j)" if "i < DVB_DEMUX_MASK_MAX" for i
    using and_not_bits [of "maskandmode (prepare_secfilter f) ! i" "filter_value f ! i" "s ! i"]
      prepared_nth [OF assms that] by (auto simp: bit_simps)
  have neg: "(maskandnotmode (prepare_secfilter f) ! i AND (filter_value (prepare_secfilter f) ! i XOR s ! i) \<noteq> 0) =
      (\<exists>j < 8. bit (filter_mask f ! i) j \<and> \<not> bit (filter_mode f ! i) j \<and>
         bit (filter_value f ! i) j \<noteq> bit (s ! i) j)" if "i < DVB_DEMUX_MASK_MAX" for i
    using and_not_bits [of "maskandnotmode (prepare_secfilter f) ! i" "filter_value f ! i" "s ! i"]
      prepared_nth [OF assms that] by (auto simp: bit_simps)
  show ?thesis
    unfolding filter_matches_def filter_spec_def Let_def prepared_doneq [OF assms]
    using pos neg by blast
qed


subsection \<open>Properties\<close>

definition demo_env :: feed_env where
  "demo_env = \<lparr>cb_sec = \<lambda>_ _. 0, check_crc32 = \<lambda>_. False, has_decoder = False\<rparr>"

text \<open>A filter for sections of table 0x42, and a section feed as it is after the start.\<close>

definition demo_filter :: secfilter where
  "demo_filter = \<lparr>sfl_index = 3, filter_value = 0x42 # replicate 17 0, filter_mask = 0xff # replicate 17 0,
    filter_mode = replicate 18 0xff, maskandmode = [], maskandnotmode = [], doneq = False\<rparr>"

definition demo_feed :: feed where
  "demo_feed = \<lparr>f_type = DMX_TYPE_SEC, f_state = DMX_STATE_GO, f_pid = 16, f_ts_type = 0, f_pes_type = 0,
    f_flags = [], f_cc = 15, f_pusi_seen = False, f_peslen = 0, f_is_filtering = True, f_check_crc = False,
    f_secbuf_base = replicate 4284 0, f_secbuf = 0, f_secbufp = 0, f_seclen = 0, f_tsfeedp = 0,
    f_filters = [prepare_secfilter demo_filter], f_parent = 0, f_out = []\<rparr>"

text \<open>A section of 200 bytes in two packets, with stuffing after it.\<close>

definition demo_section :: "byte list" where
  "demo_section = [0x42, 0, 197] @ replicate 197 7"

definition demo_start :: "byte list" where
  "demo_start = [0x47, 0x40, 0x10, 0x10, 0] @ take 183 demo_section"

definition demo_cont :: "byte list" where
  "demo_cont = [0x47, 0, 0x10, 0x11] @ drop 183 demo_section @ replicate 167 0xff"

lemma demo_payloads:
  "payload_of demo_start = 0 # take 183 demo_section"
  "payload_of demo_cont = drop 183 demo_section @ replicate 167 0xff"
  by (simp_all add: payload_of_def payload_def demo_start_def demo_cont_def)

lemma split_stuffing:
  "2 < n \<Longrightarrow> split_sections (replicate n 0xff) = []"
  by (subst split_sections.simps) (simp add: section_length_def nth_Cons')

lemma demo_feed_ok: "secfeed_ok demo_feed" "f_is_filtering demo_feed" "f_type demo_feed = DMX_TYPE_SEC"
  by (simp_all add: secfeed_ok_def demo_feed_def)

lemma demo_packets: "start_packet (f_cc demo_feed) demo_start" "cont_packets (uint (demo_start ! 3 AND 0x0f)) [demo_cont]"
  "length demo_start = 188" "length demo_cont = 188"
  by (simp_all add: start_packet_def demo_feed_def demo_start_def demo_cont_def demo_section_def payload_def
      ptr_field_def disc_indicator_def)

lemma demo_cb: "0 \<le> cb_sec demo_env i s"
  by (simp add: demo_env_def)

subsection \<open>Streams of sections\<close>

text \<open>
  Packets of a stream of sections: each has a payload and the next counter; one that says that a
  section starts has a pointer to it inside its payload.
\<close>

definition starts_section :: "byte list \<Rightarrow> bool" where
  "starts_section b \<longleftrightarrow> b ! 1 AND 0x40 \<noteq> 0"

definition pointer_ok :: "byte list \<Rightarrow> bool" where
  "pointer_ok b \<longleftrightarrow> 1 < payload b \<and> ptr_field b < payload b"

fun stream_packets :: "int \<Rightarrow> byte list list \<Rightarrow> bool" where
  "stream_packets cc [] = True"
| "stream_packets cc (b # bs) =
     (length b = 188 \<and> payload b \<noteq> 0 \<and> (starts_section b \<longrightarrow> pointer_ok b) \<and> \<not> disc_indicator b \<and>
      (cc + 1) mod 16 = uint (b ! 3 AND 0x0f) \<and> stream_packets (uint (b ! 3 AND 0x0f)) bs)"

text \<open>
  The first packet: it has a pointer to a section; the bytes before the section do not belong to a
  section of the feed.
\<close>

definition first_packet :: "feed \<Rightarrow> byte list \<Rightarrow> bool" where
  "first_packet f b \<longleftrightarrow> length b = 188 \<and> starts_section b \<and> pointer_ok b \<and>
     (discontinuity f b \<or> ptr_field b = 0 \<or> \<not> f_pusi_seen f \<and> f_tsfeedp f + 199 \<le> DMX_MAX_SECFEED_SIZE)"

text \<open>
  The bytes from each pointer up to the next: the part of a payload before a pointer ends what
  came before, the part behind it starts anew.
\<close>

fun section_runs :: "byte list \<Rightarrow> byte list list \<Rightarrow> byte list list" where
  "section_runs bs [] = [bs]"
| "section_runs bs (b # ps) =
     (if starts_section b then (bs @ before_ptr b) # section_runs (after_ptr b) ps
      else section_runs (bs @ payload_of b) ps)"

lemma section_runs_prefix: "\<exists>c rs. section_runs bs ps = (bs @ c) # rs"
proof (induction ps arbitrary: bs)
  case (Cons b ps)
  show ?case
  proof (cases "starts_section b")
    case False
    then show ?thesis using Cons.IH [of "bs @ payload_of b"] by auto
  qed auto
qed auto

definition run_fits :: "byte list \<Rightarrow> bool" where
  "run_fits r \<longleftrightarrow> length r \<le> DMX_MAX_SECFEED_SIZE \<and> (\<forall>s \<in> set (split_sections r). DVB_DEMUX_MASK_MAX \<le> length s)"

lemma run_fits_prefix: "run_fits (bs @ c) \<Longrightarrow> run_fits bs"
  using split_prefix_big [of bs c "\<lambda>s. DVB_DEMUX_MASK_MAX \<le> length s"] by (auto simp: run_fits_def)

lemma run_fitsD: "run_fits r \<Longrightarrow> length r \<le> DMX_MAX_SECFEED_SIZE" "run_fits r \<Longrightarrow> \<forall>s \<in> set (split_sections r). DVB_DEMUX_MASK_MAX \<le> length s"
  by (simp_all add: run_fits_def)

lemma section_new_control:
  "swfilter_section_new f = Some g \<Longrightarrow> f_type g = f_type f \<and> f_cc g = f_cc f \<and> f_is_filtering g = f_is_filtering f"
  by (auto simp: swfilter_section_new_def set_buf_flags_def split: if_splits Option.bind_splits)

text \<open>The part behind the pointer, once the part before it was copied.\<close>

lemma after_step:
  assumes ok: "secfeed_ok f3" "f_is_filtering f3" and cb: "\<And>i s. 0 \<le> cb_sec env i s"
    and big: "run_fits (after_ptr b)"
  shows "\<exists>f4 g r. swfilter_section_new (f3\<lparr>f_pusi_seen := True\<rparr>) = Some f4 \<and>
    swfilter_section_copy_dump env f4 (after_ptr b) = Some (g, r) \<and>
    reassembling env (f_out f3) (after_ptr b) g \<and> same_filters f3 g \<and> f_type g = f_type f3 \<and> f_cc g = f_cc f3 \<and> secfeed_ok g"
proof -
  let ?f = "f3\<lparr>f_pusi_seen := True\<rparr>"
  have "secfeed_ok ?f" using ok(1) by simp
  then obtain f4 where f4: "swfilter_section_new ?f = Some f4" "secfeed_ok f4" by (rule section_new_total)
  have r: "reassembling env (f_out f4) [] f4 \<and> same_filters ?f f4 \<and> f_out f4 = f_out ?f"
    using ok by (intro section_new_reassembling [OF _ _ _ f4(1)]) (auto simp: secfeed_ok_def)
  have r0: "reassembling env (f_out f3) [] f4" using r by auto
  have fit: "run_fits ([] @ after_ptr b)" using big by simp
  obtain g q where g: "swfilter_section_copy_dump env f4 (after_ptr b) = Some (g, q)" "reassembling env (f_out f3) ([] @ after_ptr b) g"
    "same_filters f4 g" using copy_dump_step [OF r0 cb run_fitsD(1) [OF fit] run_fitsD(2) [OF fit]] by blast
  show ?thesis using f4 g r section_new_control [OF f4(1)] copy_dump_control [OF f4(2) g(1)] copy_dump_ok [OF f4(2) g(1)]
    by (auto simp: same_filters_def same_control_def)
qed

lemma pointer_step:
  assumes r: "reassembling env out0 bs f" and cb: "\<And>i s. 0 \<le> cb_sec env i s"
    and ty: "f_type f = DMX_TYPE_SEC" and b: "stream_packets (f_cc f) [b]" "starts_section b"
    and fit: "run_fits (bs @ before_ptr b)" "run_fits (after_ptr b)" and ok: "secfeed_ok f"
  shows "\<exists>g. swfilter_packet_type env f b = Some g \<and>
    reassembling env (out0 @ concat (map (section_out env f) (split_sections (bs @ before_ptr b)))) (after_ptr b) g \<and>
    same_filters f g \<and> f_type g = DMX_TYPE_SEC \<and> f_cc g = uint (b ! 3 AND 0x0f) \<and> secfeed_ok g"
proof -
  let ?f = "f\<lparr>f_cc := uint (b ! 3 AND 0x0f)\<rparr>"
  have so: "section_out env ?f = section_out env f" by (intro ext) (simp add: section_out_def)
  have okf: "secfeed_ok ?f" using ok by simp
  have r': "reassembling env out0 bs ?f" using r by (simp add: reassembling_def so)
  obtain f3 q where f3: "swfilter_section_copy_dump env ?f (before_ptr b) = Some (f3, q)"
    "reassembling env out0 (bs @ before_ptr b) f3" "same_filters ?f f3"
    using copy_dump_step [OF r' cb run_fitsD(1) [OF fit(1)] run_fitsD(2) [OF fit(1)]] by blast
  note c3 = copy_dump_control [OF okf f3(1)] copy_dump_ok [OF okf f3(1)]
  have fl: "f_is_filtering f3" using f3(2) by (simp add: reassembling_def)
  obtain f4 g r4 where g: "swfilter_section_new (f3\<lparr>f_pusi_seen := True\<rparr>) = Some f4"
    "swfilter_section_copy_dump env f4 (after_ptr b) = Some (g, r4)" "reassembling env (f_out f3) (after_ptr b) g" "same_filters f3 g"
    "f_type g = f_type f3" "f_cc g = f_cc f3" "secfeed_ok g"
    using after_step [OF c3(2) fl cb fit(2)] by blast
  have "\<not> discontinuity f b" using b by (simp add: discontinuity_def cc_ok_def disc_indicator_def)
  then have "swfilter_section_packet env f b = Some (g, 0)"
    using b g(1,2) f3(1) by (simp add: section_packet_split section_resync_def section_copy_def starts_section_def pointer_ok_def)
  then have "swfilter_packet_type env f b = Some g"
    using ty r by (simp add: swfilter_packet_type_def reassembling_def)
  moreover have "f_out f3 = out0 @ concat (map (section_out env f) (split_sections (bs @ before_ptr b)))"
    using f3(2) same_filters_out [OF f3(3), of env] so by (simp add: reassembling_def)
  ultimately show ?thesis using g(3-7) c3(1) f3(3) ty by (simp add: same_filters_def same_control_def)
qed

lemma stream_run:
  assumes "reassembling env out0 bs f" "\<And>i s. 0 \<le> cb_sec env i s" "f_type f = DMX_TYPE_SEC" "stream_packets (f_cc f) ps"
    "\<forall>r \<in> set (section_runs bs ps). run_fits r" "secfeed_ok f"
  shows "\<exists>g. feed_run env f ps = Some g \<and> same_filters f g \<and>
    f_out g = out0 @ concat (map (section_out env f) (concat (map split_sections (section_runs bs ps))))"
  using assms(1,3-)
proof (induction ps arbitrary: out0 bs f)
  case Nil
  then show ?case by (simp add: same_filters_def reassembling_def)
next
  case (Cons b ps)
  have b: "stream_packets (f_cc f) [b]" using Cons.prems(3) by simp
  show ?case
  proof (cases "starts_section b")
    case True
    have fit: "run_fits (bs @ before_ptr b)" "run_fits (after_ptr b)" "\<forall>r \<in> set (section_runs (after_ptr b) ps). run_fits r"
      using Cons.prems(4) True section_runs_prefix [of "after_ptr b" ps] run_fits_prefix by auto
    obtain g where g: "swfilter_packet_type env f b = Some g"
      "reassembling env (out0 @ concat (map (section_out env f) (split_sections (bs @ before_ptr b)))) (after_ptr b) g"
      "same_filters f g" "f_type g = DMX_TYPE_SEC" "f_cc g = uint (b ! 3 AND 0x0f)" "secfeed_ok g"
      using pointer_step [OF Cons.prems(1) assms(2) Cons.prems(2) b True fit(1,2) Cons.prems(5)] by blast
    have "stream_packets (f_cc g) ps" using Cons.prems(3) g(5) by simp
    then obtain h where h: "feed_run env g ps = Some h" "same_filters g h"
      "f_out h = (out0 @ concat (map (section_out env f) (split_sections (bs @ before_ptr b)))) @
        concat (map (section_out env g) (concat (map split_sections (section_runs (after_ptr b) ps))))"
      using Cons.IH [OF g(2,4) _ fit(3) g(6)] by blast
    then show ?thesis using g(1,3) True same_filters_out [OF g(3), of env] by (auto simp: same_filters_def)
  next
    case False
    have fit: "run_fits (bs @ payload_of b)" "\<forall>r \<in> set (section_runs (bs @ payload_of b) ps). run_fits r"
      using Cons.prems(4) False section_runs_prefix [of "bs @ payload_of b" ps] run_fits_prefix [of "bs @ payload_of b"] by auto
    have c: "cont_packets (f_cc f) [b]" using b False by (simp add: starts_section_def)
    obtain g where g: "swfilter_packet_type env f b = Some g" "reassembling env out0 (bs @ payload_of b) g"
      "same_filters f g" "f_type g = DMX_TYPE_SEC" "f_cc g = uint (b ! 3 AND 0x0f)" "secfeed_ok g"
      using cont_step [OF Cons.prems(1) assms(2) Cons.prems(2) c _ _ Cons.prems(5)] fit(1) by (auto simp: run_fits_def)
    have "stream_packets (f_cc g) ps" using Cons.prems(3) g(5) by simp
    then obtain h where h: "feed_run env g ps = Some h" "same_filters g h"
      "f_out h = out0 @ concat (map (section_out env g) (concat (map split_sections (section_runs (bs @ payload_of b) ps))))"
      using Cons.IH [OF g(2,4) _ fit(2) g(6)] by blast
    then show ?thesis using g(1,3) False same_filters_out [OF g(3), of env] by (auto simp: same_filters_def)
  qed
qed

lemma resync_frame:
  assumes "secfeed_ok f" "section_resync f b = Some g"
  shows "f_type g = f_type f" "f_filters g = f_filters f" "f_check_crc g = f_check_crc f" "f_is_filtering g = f_is_filtering f"
    "f_out g = f_out f" "secfeed_ok g" "discontinuity f b \<Longrightarrow> \<not> f_pusi_seen g \<and> f_tsfeedp g = 0" "\<not> discontinuity f b \<Longrightarrow> g = f"
proof -
  have "f_type g = f_type f \<and> f_filters g = f_filters f \<and> f_check_crc g = f_check_crc f \<and> f_is_filtering g = f_is_filtering f \<and>
    f_out g = f_out f \<and> (discontinuity f b \<longrightarrow> \<not> f_pusi_seen g \<and> f_tsfeedp g = 0) \<and> (\<not> discontinuity f b \<longrightarrow> g = f)"
    using assms(2) unfolding section_resync_def swfilter_section_new_def
    by (auto simp: set_buf_flags_def split: if_splits Option.bind_splits)
  then show "f_type g = f_type f" "f_filters g = f_filters f" "f_check_crc g = f_check_crc f" "f_is_filtering g = f_is_filtering f"
    "f_out g = f_out f" "discontinuity f b \<Longrightarrow> \<not> f_pusi_seen g \<and> f_tsfeedp g = 0" "\<not> discontinuity f b \<Longrightarrow> g = f" by auto
  show "secfeed_ok g" using section_resync_ok [OF assms(1), of b] assms(2) by auto
qed

lemma first_step:
  assumes ok: "secfeed_ok f" "f_is_filtering f" "f_type f = DMX_TYPE_SEC" and cb: "\<And>i s. 0 \<le> cb_sec env i s"
    and b: "first_packet f b" and fit: "run_fits (after_ptr b)"
  shows "\<exists>g. swfilter_packet_type env f b = Some g \<and> reassembling env (f_out f) (after_ptr b) g \<and>
    same_filters f g \<and> f_type g = DMX_TYPE_SEC \<and> f_cc g = uint (b ! 3 AND 0x0f) \<and> secfeed_ok g"
proof -
  have b': "length b = 188" "1 < payload b" "b ! 1 AND 0x40 \<noteq> 0" "ptr_field b < payload b"
    using b by (auto simp: first_packet_def starts_section_def pointer_ok_def)
  obtain f1 where f1: "section_resync f b = Some f1" using section_resync_ok [OF ok(1)] by blast
  note fr = resync_frame [OF ok(1) f1]
  let ?f = "f1\<lparr>f_cc := uint (b ! 3 AND 0x0f)\<rparr>"
  have okf: "secfeed_ok ?f" using fr(6) by simp
  have "\<exists>f3 r. swfilter_section_copy_dump env ?f (before_ptr b) = Some (f3, r) \<and> f_out f3 = f_out f"
  proof (cases "ptr_field b = 0")
    case True
    then have "before_ptr b = []" by (simp add: before_ptr_def)
    then show ?thesis using copy_dump_empty [OF okf] fr(5) by simp
  next
    case False
    then have p: "\<not> f_pusi_seen ?f" "f_tsfeedp ?f + 199 \<le> DMX_MAX_SECFEED_SIZE"
      using b fr(7,8) by (cases "discontinuity f b"; auto simp: first_packet_def)+
    have "length (before_ptr b) < payload b" using pointer_parts [OF b'(1,4)] by simp
    then have "f_tsfeedp ?f + length (before_ptr b) + 15 \<le> DMX_MAX_SECFEED_SIZE" using p(2) payload_le [of b] by simp
    then obtain f3 r where f3: "swfilter_section_copy_dump env ?f (before_ptr b) = Some (f3, r)"
      using copy_dump_safe [OF okf, of "before_ptr b" env] by auto
    then show ?thesis using copy_dump_no_output [OF okf f3 p(1)] fr(5) by auto
  qed
  then obtain f3 r where f3: "swfilter_section_copy_dump env ?f (before_ptr b) = Some (f3, r)" "f_out f3 = f_out f" by blast
  note c3 = copy_dump_control [OF okf f3(1)] copy_dump_ok [OF okf f3(1)]
  have fl: "f_is_filtering f3" using c3(1) fr(4) ok(2) by (simp add: same_control_def)
  obtain f4 g r4 where g: "swfilter_section_new (f3\<lparr>f_pusi_seen := True\<rparr>) = Some f4"
    "swfilter_section_copy_dump env f4 (after_ptr b) = Some (g, r4)" "reassembling env (f_out f3) (after_ptr b) g" "same_filters f3 g"
    "f_type g = f_type f3" "f_cc g = f_cc f3" "secfeed_ok g"
    using after_step [OF c3(2) fl cb fit] by blast
  have "swfilter_section_packet env f b = Some (g, 0)"
    using b' g(1,2) f3(1) f1 by (simp add: section_packet_split section_copy_def)
  then have "swfilter_packet_type env f b = Some g"
    using ok(2,3) by (simp add: swfilter_packet_type_def)
  then show ?thesis using g(3-7) c3(1) f3(2) fr ok by (simp add: same_filters_def same_control_def)
qed

text \<open>
  C1.  Sections are reassembled from whatever packets they are cut into.  Let a section feed that
  filters get a packet with a pointer to the start of a section (the bytes before it belong to no
  section of the feed: the counter jumps, or the pointer is zero, or the feed has seen no start),
  and then any packets with payload and consecutive counters, with or without pointers.  The
  bytes from each pointer to the next one, a run, are then cut into sections one after the other,
  and every complete section of a run is delivered exactly once, in order, to exactly those
  filters that match it, unless the checksum is looked at and wrong; nothing else is delivered,
  and what a run leaves incomplete is dropped.  Assumed are runs of at most 4284 bytes, which is
  the size of the buffer (sections end within 4096 bytes, and a packet in which one starts has a
  pointer), sections of at least the 18 bytes that filters look at, and callbacks that accept
  what they get.
\<close>

theorem sections_reassembled:
  assumes "secfeed_ok f" "f_is_filtering f" "f_type f = DMX_TYPE_SEC"
    and cb: "\<And>i s. 0 \<le> cb_sec env i s"
    and p: "first_packet f p" "stream_packets (uint (p ! 3 AND 0x0f)) ps"
    and runs: "\<forall>r \<in> set (section_runs (after_ptr p) ps). run_fits r"
  shows "\<exists>g. feed_run env f (p # ps) = Some g \<and>
    f_out g = f_out f @ concat (map (section_out env f) (concat (map split_sections (section_runs (after_ptr p) ps))))"
proof -
  have fit: "run_fits (after_ptr p)" using section_runs_prefix [of "after_ptr p" ps] run_fits_prefix [of "after_ptr p"] runs by auto
  obtain g where g: "swfilter_packet_type env f p = Some g" "reassembling env (f_out f) (after_ptr p) g"
    "same_filters f g" "f_type g = DMX_TYPE_SEC" "f_cc g = uint (p ! 3 AND 0x0f)" "secfeed_ok g"
    using first_step [OF assms(1-3) cb p(1) fit] by blast
  obtain h where "feed_run env g ps = Some h"
    "f_out h = f_out f @ concat (map (section_out env g) (concat (map split_sections (section_runs (after_ptr p) ps))))"
    using stream_run [OF g(2) cb g(4) _ runs g(6)] p(2) g(5) by auto
  then show ?thesis using g(1) same_filters_out [OF g(3), of env] by simp
qed

text \<open>Two of these sections in three packets, the second with a pointer into its payload.\<close>

definition demo_middle :: "byte list" where
  "demo_middle = [0x47, 0x40, 0x10, 0x11, 17] @ drop 183 demo_section @ take 166 demo_section"

definition demo_end :: "byte list" where
  "demo_end = [0x47, 0, 0x10, 0x12] @ drop 166 demo_section @ replicate 150 0xff"

lemma split_demo_stuffed: "n = 0 \<or> 2 < n \<Longrightarrow> split_sections (demo_section @ replicate n 0xff) = [demo_section]"
proof -
  assume n: "n = 0 \<or> 2 < n"
  have sl: "section_length (demo_section @ replicate n 0xff) = 200"
    by (simp add: section_length_def demo_section_def)
  have l: "length demo_section = 200" by (simp add: demo_section_def)
  have "split_sections (replicate n 0xff) = []"
    using n split_stuffing [of n] by (auto simp: split_sections.simps [of "[]"])
  then show ?thesis using sl l by (subst split_sections.simps) simp
qed

lemma demo_runs: "section_runs (after_ptr demo_start) [demo_middle, demo_end] = [demo_section, demo_section @ replicate 150 0xff]"
proof -
  have l: "length demo_section = 200" by (simp add: demo_section_def)
  have "after_ptr demo_start = take 183 demo_section" "before_ptr demo_middle = drop 183 demo_section" "starts_section demo_middle"
    "after_ptr demo_middle = take 166 demo_section" "payload_of demo_end = drop 166 demo_section @ replicate 150 0xff"
    "\<not> starts_section demo_end"
    using l by (simp_all add: after_ptr_def before_ptr_def ptr_field_def payload_def payload_of_def starts_section_def demo_start_def
      demo_middle_def demo_end_def)
  then show ?thesis by simp
qed

lemma demo_run_fits: "run_fits demo_section" "run_fits (demo_section @ replicate 150 0xff)"
  using split_demo_stuffed [of 0] split_demo_stuffed [of 150] by (simp_all add: run_fits_def) (simp_all add: demo_section_def)

lemma demo_run_packets: "first_packet demo_feed demo_start" "stream_packets (uint (demo_start ! 3 AND 0x0f)) [demo_middle, demo_end]"
  by (simp_all add: first_packet_def pointer_ok_def starts_section_def demo_feed_def demo_start_def demo_middle_def demo_end_def
      demo_section_def payload_def ptr_field_def disc_indicator_def)

theorem sections_reassembled_witness:
  "\<exists>g. feed_run demo_env demo_feed [demo_start, demo_middle, demo_end] = Some g \<and>
    f_out g = section_out demo_env demo_feed demo_section @ section_out demo_env demo_feed demo_section"
  using sections_reassembled [OF demo_feed_ok demo_cb demo_run_packets] demo_run_fits split_demo_stuffed [of 0] split_demo_stuffed [of 150]
  unfolding demo_runs by (simp add: demo_feed_def)

text \<open>
  C23.  A section filter delivers a section exactly when the specification of the user's mask,
  mode and value says so: all selected bits with positive mode agree with the value, and if
  any bit is selected with negative mode then at least one of those differs.
\<close>

theorem section_filter_correct:
  assumes "filter_wf f" "cur_ok feed" "\<And>i s. 0 \<le> cb_sec env i s"
  shows "\<exists>r. swfilter_sectionfilter env feed (prepare_secfilter f) =
    Some (feed\<lparr>f_out := f_out feed @
      (if filter_spec f (cur_section feed) then [SecOut (sfl_index f) (cur_section feed)] else [])\<rparr>, r)"
  using sectionfilter_spec [OF assms(2,3), of "prepare_secfilter f"]
  unfolding filter_matches_spec [OF assms(1)] by (auto simp: prepare_secfilter_def Let_def)

theorem section_filter_correct_witness:
  "\<exists>r. swfilter_sectionfilter demo_env (demo_feed\<lparr>f_seclen := 20\<rparr>) (prepare_secfilter demo_filter) =
    Some (demo_feed\<lparr>f_seclen := 20, f_out := f_out (demo_feed\<lparr>f_seclen := 20\<rparr>) @
      (if filter_spec demo_filter (cur_section (demo_feed\<lparr>f_seclen := 20\<rparr>))
       then [SecOut (sfl_index demo_filter) (cur_section (demo_feed\<lparr>f_seclen := 20\<rparr>))] else [])\<rparr>, r)"
  by (rule section_filter_correct [of demo_filter "demo_feed\<lparr>f_seclen := 20\<rparr>" demo_env])
    (simp_all add: filter_wf_def demo_filter_def cur_ok_def demo_feed_def demo_env_def)

text \<open>
  C22.  A packet with a payload never drives a section feed out of its buffer: the positions
  stay consistent with the 4284 bytes whatever the packet contains, and no access leaves
  the buffer as long as the payload ends 15 bytes before its end (a filter always reads 18
  bytes, and the shortest section has three).
\<close>

theorem section_feed_memory_safe:
  assumes "secfeed_ok f" "payload buf \<noteq> 0" "length buf = 188"
  shows "(\<forall>g r. swfilter_section_packet env f buf = Some (g, r) \<longrightarrow> secfeed_ok g) \<and>
    (f_tsfeedp f + payload buf + 15 \<le> DMX_MAX_SECFEED_SIZE \<longrightarrow>
      (\<exists>g r. swfilter_section_packet env f buf = Some (g, r)))"
  using section_packet_ok [OF assms(1,2)] section_packet_safe [OF assms] by (metis option.exhaust prod.exhaust)

theorem section_feed_memory_safe_witness:
  "\<exists>g r. swfilter_section_packet demo_env demo_feed demo_start = Some (g, r) \<and> secfeed_ok g"
proof -
  have p: "payload demo_start = 184" by (simp add: payload_def demo_start_def)
  then have "payload demo_start \<noteq> 0" "f_tsfeedp demo_feed + payload demo_start + 15 \<le> DMX_MAX_SECFEED_SIZE"
    by (simp_all add: demo_feed_def)
  with section_feed_memory_safe [OF demo_feed_ok(1) _ demo_packets(3), of demo_env] show ?thesis by blast
qed

text \<open>
  C24.  After a lost packet, or a discontinuity the stream announces, a section feed delivers
  nothing until a packet with the payload unit start flag: the tail of an interrupted section
  is never taken for a section.
\<close>

theorem no_sections_out_of_step:
  assumes "secfeed_ok f" "payload buf \<noteq> 0" "buf ! 1 AND 0x40 = 0"
    "discontinuity f buf \<or> \<not> f_pusi_seen f" "swfilter_section_packet env f buf = Some (g, r)"
  shows "f_out g = f_out f \<and> \<not> f_pusi_seen g"
  by (rule no_output_before_start [OF assms])

theorem no_sections_out_of_step_witness:
  "\<exists>g r. swfilter_section_packet demo_env (demo_feed\<lparr>f_pusi_seen := True\<rparr>) demo_cont = Some (g, r) \<and>
    f_out g = [] \<and> \<not> f_pusi_seen g"
proof -
  let ?f = "demo_feed\<lparr>f_pusi_seen := True\<rparr>"
  have ok: "secfeed_ok ?f" using demo_feed_ok by simp
  have p: "payload demo_cont = 184" by (simp add: payload_def demo_cont_def)
  then have "payload demo_cont \<noteq> 0" "f_tsfeedp ?f + payload demo_cont + 15 \<le> DMX_MAX_SECFEED_SIZE"
    by (simp_all add: demo_feed_def)
  then obtain g r where g: "swfilter_section_packet demo_env ?f demo_cont = Some (g, r)"
    using section_packet_safe [OF ok _ demo_packets(4), of demo_env] by auto
  have "discontinuity ?f demo_cont" by (simp add: discontinuity_def cc_ok_def demo_feed_def demo_cont_def)
  with no_sections_out_of_step [OF ok _ _ _ g] p have "f_out g = f_out ?f \<and> \<not> f_pusi_seen g"
    by (simp add: demo_cont_def)
  then show ?thesis using g by (auto simp: demo_feed_def)
qed

text \<open>
  A packet without payload (an adaptation field only) makes \<open>swfilter_section_packet\<close> fail,
  and \<open>swfilter_packet_type\<close> then resets two of the four positions.
\<close>

lemma payloadless_packet:
  assumes "f_type f = DMX_TYPE_SEC" "f_is_filtering f" "payload b = 0"
  shows "swfilter_packet_type env f b = Some (f\<lparr>f_seclen := 0, f_secbufp := 0\<rparr>)"
  using assms by (simp add: swfilter_packet_type_def swfilter_section_packet_def)

text \<open>
  A packet without payload between two packets of a section makes the feed deliver
  again every section it has delivered since the last section start: only \<open>secbufp\<close> goes
  back to the start of the buffer, while the bytes up to \<open>tsfeedp\<close> stay.
\<close>

theorem payloadless_packet_redelivers:
  assumes r: "reassembling env out0 bs f" and cb: "\<And>i s. 0 \<le> cb_sec env i s"
    and ty: "f_type f = DMX_TYPE_SEC" and p: "payload b = 0" and c: "cont_packets (f_cc f) [c]"
    and room: "length (bs @ payload_of c) \<le> DMX_MAX_SECFEED_SIZE"
    and big: "\<forall>s \<in> set (split_sections (bs @ payload_of c)). DVB_DEMUX_MASK_MAX \<le> length s"
  shows "\<exists>g. feed_run env f [b, c] = Some g \<and>
    f_out g = out0 @ concat (map (section_out env f) (split_sections bs @ split_sections (bs @ payload_of c)))"
proof -
  let ?c = "payload_of c" and ?l = "length (bs @ payload_of c)"
  have base: "length (f_secbuf_base f) = DMX_MAX_SECFEED_SIZE" "f_tsfeedp f = length bs"
    "take (length bs) (f_secbuf_base f) = bs" "f_pusi_seen f" "f_is_filtering f"
    "f_out f = out0 @ concat (map (section_out env f) (split_sections bs))"
    using r by (auto simp: reassembling_def)
  have len: "length c = 188" "?c \<noteq> []" using c length_payload_of [of c] by auto
  let ?f = "f\<lparr>f_seclen := 0, f_secbufp := 0, f_cc := uint (c ! 3 AND 0x0f)\<rparr>"
  let ?d = "bs @ ?c @ drop ?l (f_secbuf_base f)"
  let ?h = "?f\<lparr>f_secbuf_base := ?d, f_tsfeedp := ?l, f_secbuf := 0\<rparr>"
  have "memcpy (f_secbuf_base ?f) (f_tsfeedp ?f) ?c = Some ?d"
    using base room by (simp add: memcpy_def)
  moreover have run: "swfilter_section_copy_dump env ?f ?c = map_option (\<lambda>g. (g, 0)) (dump_sections env ?h ?l)"
  proof -
    have "length ?c \<noteq> 0" using len(2) by (metis length_0_conv)
    then have "length bs < DMX_MAX_SECFEED_SIZE" using room unfolding length_append by linarith
    with calculation room base len(2) show ?thesis
      by (simp add: swfilter_section_copy_dump_def Let_def bind_Some_map)
  qed
  have so: "section_out env ?h = section_out env f" by (intro ext) (simp add: section_out_def)
  have "take ?l (f_secbuf_base ?h) = bs @ ?c" by simp
  then obtain g where "dump_sections env ?h ?l = Some g"
    "f_out g = f_out f @ concat (map (section_out env f) (split_sections (bs @ ?c)))"
    using dump_spec [of ?l ?h env] base room cb big so by auto
  then have g: "swfilter_section_copy_dump env ?f ?c = Some (g, 0)"
    "f_out g = out0 @ concat (map (section_out env f) (split_sections bs @ split_sections (bs @ payload_of c)))"
    using run base(6) by auto
  let ?f1 = "f\<lparr>f_seclen := 0, f_secbufp := 0\<rparr>"
  have "\<not> discontinuity ?f1 c" using c by (simp add: discontinuity_def cc_ok_def disc_indicator_def)
  then have "swfilter_section_packet env ?f1 c = Some (g, 0)"
    using c g(1) by (simp add: section_packet_split section_resync_def section_copy_def payload_of_def)
  then have "swfilter_packet_type env ?f1 c = Some g"
    using ty base(5) by (simp add: swfilter_packet_type_def)
  then show ?thesis using payloadless_packet [OF ty base(5) p] g(2) by simp
qed

text \<open>A feed in the middle of a stream, with stuffing or the start of a section at the end.\<close>

definition demo_mid :: "byte list \<Rightarrow> nat \<Rightarrow> feed" where
  "demo_mid s n = demo_feed\<lparr>f_pusi_seen := True,
     f_secbuf_base := s @ replicate n 0xff @ replicate (4284 - length s - n) 0,
     f_secbuf := length s, f_secbufp := length s, f_tsfeedp := length s + n,
     f_out := section_out demo_env demo_feed s\<rparr>"

lemma demo_mid_reassembling:
  assumes "split_sections (s @ replicate n 0xff) = [s]" "length s + n \<le> 4284"
  shows "reassembling demo_env [] (s @ replicate n 0xff) (demo_mid s n)"
proof -
  have "section_out demo_env (demo_mid s n) = section_out demo_env demo_feed"
    by (intro ext) (simp add: section_out_def demo_mid_def demo_feed_def)
  then show ?thesis using assms
    by (simp add: reassembling_def demo_mid_def) (simp add: demo_feed_def)
qed

definition null_packet :: "byte list" where
  "null_packet = [0x47, 0, 0x10, 0x20, 183] @ replicate 183 0xff"

definition stuffing_packet :: "byte list" where
  "stuffing_packet = [0x47, 0, 0x10, 0x10] @ replicate 184 0xff"

theorem payloadless_packet_redelivers_witness:
  "\<exists>g. feed_run demo_env (demo_mid demo_section 167) [null_packet, stuffing_packet] = Some g \<and>
    f_out g = section_out demo_env demo_feed demo_section @ section_out demo_env demo_feed demo_section"
proof -
  have len: "length demo_section = 200" by (simp add: demo_section_def)
  have sl: "section_length (demo_section @ replicate n 0xff) = 200" for n
    by (simp add: section_length_def demo_section_def)
  have split: "split_sections (demo_section @ replicate n 0xff) = [demo_section]" if "2 < n" for n
    using sl [of n] len that by (subst split_sections.simps) (simp add: split_stuffing)
  have pl: "payload_of stuffing_packet = replicate 184 0xff"
    by (simp add: payload_of_def payload_def stuffing_packet_def)
  have app: "(demo_section @ replicate 167 0xff) @ payload_of stuffing_packet = demo_section @ replicate 351 0xff"
    unfolding pl append_assoc replicate_add [symmetric] by simp
  have so: "section_out demo_env (demo_mid s n) = section_out demo_env demo_feed" for s n
    by (intro ext) (simp add: section_out_def demo_mid_def demo_feed_def)
  have "cont_packets (f_cc (demo_mid demo_section 167)) [stuffing_packet]"
    by (simp add: stuffing_packet_def demo_mid_def demo_feed_def payload_def disc_indicator_def)
  moreover have "payload null_packet = 0" by (simp add: payload_def null_packet_def)
  moreover have "f_type (demo_mid demo_section 167) = DMX_TYPE_SEC" by (simp add: demo_mid_def demo_feed_def)
  ultimately show ?thesis
    using payloadless_packet_redelivers [OF demo_mid_reassembling [of demo_section 167] demo_cb, of null_packet stuffing_packet]
    unfolding app so by (simp add: split len)
qed

text \<open>
  The same reset leaves \<open>secbuf\<close> behind \<open>secbufp\<close>.  When more than half of the buffer is
  used and stuffing follows the delivered sections, the next packet that starts a section, or
  that comes after a lost packet, makes \<open>swfilter_section_new\<close> read beyond the end of the
  buffer: the length it computes from \<open>secbufp\<close> is applied to the old \<open>secbuf\<close>.
\<close>

theorem payloadless_packet_overread:
  assumes ok: "secfeed_ok f" and ty: "f_type f = DMX_TYPE_SEC" "f_is_filtering f"
    and p: "payload b = 0" and stuffing: "f_secbufp f < f_tsfeedp f" "f_secbuf_base f ! f_secbufp f = 0xff"
    and half: "f_secbufp f + f_tsfeedp f > DMX_MAX_SECFEED_SIZE"
    and follows: "start_packet (f_cc f) c \<or> payload c \<noteq> 0 \<and> discontinuity f c"
  shows "feed_run env f [b, c] = None"
proof -
  let ?f = "f\<lparr>f_seclen := 0, f_secbufp := 0\<rparr>"
  have new: "swfilter_section_new g = None"
    if "f_secbuf_base g = f_secbuf_base f" "f_secbuf g = f_secbuf f" "f_secbufp g = 0" "f_tsfeedp g = f_tsfeedp f" for g
    using that ok stuffing half
    by (simp add: swfilter_section_new_def secfeed_ok_def sec_byte_def mem_at_def Let_def)
  have d: "discontinuity ?f c = discontinuity f c" by (simp add: discontinuity_def cc_ok_def)
  have "swfilter_section_packet env ?f c = None"
  proof (cases "discontinuity f c")
    case True
    then have "payload c \<noteq> 0" using follows by (auto simp: start_packet_def)
    moreover have "section_resync ?f c = None"
      unfolding section_resync_def d if_P [OF True] by (rule new) (simp_all add: set_buf_flags_def)
    ultimately show ?thesis by (simp add: section_packet_split)
  next
    case False
    then have c: "start_packet (f_cc f) c" using follows by simp
    let ?g = "?f\<lparr>f_cc := uint (c ! 3 AND 0x0f)\<rparr>"
    have "swfilter_section_copy_dump env ?g [] = Some (?g, 0)"
      using ok by (simp add: swfilter_section_copy_dump_def secfeed_ok_def)
    moreover have "before_ptr c = []" using c by (simp add: before_ptr_def start_packet_def)
    moreover have "swfilter_section_new (?g\<lparr>f_pusi_seen := True\<rparr>) = None" by (rule new) simp_all
    ultimately show ?thesis
      using c False d by (simp add: section_packet_split section_resync_def section_copy_def start_packet_def)
  qed
  then show ?thesis using payloadless_packet [OF ty p] ty by (simp add: swfilter_packet_type_def)
qed

definition long_section :: "byte list" where
  "long_section = [0x42, 0x0f, 0xa0] @ replicate 4000 7"

theorem payloadless_packet_overread_witness:
  "feed_run demo_env (demo_mid long_section 281) [null_packet, demo_start] = None"
proof (rule payloadless_packet_overread)
  have len: "length long_section = 4003" by (simp add: long_section_def)
  show "secfeed_ok (demo_mid long_section 281)" "f_type (demo_mid long_section 281) = DMX_TYPE_SEC"
    "f_is_filtering (demo_mid long_section 281)" "f_secbufp (demo_mid long_section 281) < f_tsfeedp (demo_mid long_section 281)"
    "f_secbufp (demo_mid long_section 281) + f_tsfeedp (demo_mid long_section 281) > DMX_MAX_SECFEED_SIZE"
    "f_secbuf_base (demo_mid long_section 281) ! f_secbufp (demo_mid long_section 281) = 0xff"
    using len by (simp_all add: demo_mid_def demo_feed_def secfeed_ok_def nth_append)
  show "payload null_packet = 0" by (simp add: payload_def null_packet_def)
  show "start_packet (f_cc (demo_mid long_section 281)) demo_start \<or> payload demo_start \<noteq> 0 \<and>
      discontinuity (demo_mid long_section 281) demo_start"
    using demo_packets(1) by (simp add: demo_mid_def)
qed

end
