(* ===== verification/Crc.thy ===== *)
theory Crc
  imports Prelude
begin

text \<open>
  The checksums of the software demux (neumo-dvb-demux.c): the CRC-8 of baseband frame
  headers and user packets (polynomial 0xD5), and the CRC-32 of T2-MI packets (polynomial
  0x04c11db7), both driven by the tables of the code.  The tables are shown to be those of
  bitwise polynomial division, and the interface \<open>crc_register\<close> derives from linearity what
  the receivers rely on.
\<close>

definition crc32_table :: "u32 list" where
  "crc32_table =
    [0x00000000, 0x04c11db7, 0x09823b6e, 0x0d4326d9, 0x130476dc, 0x17c56b6b,
     0x1a864db2, 0x1e475005, 0x2608edb8, 0x22c9f00f, 0x2f8ad6d6, 0x2b4bcb61,
     0x350c9b64, 0x31cd86d3, 0x3c8ea00a, 0x384fbdbd, 0x4c11db70, 0x48d0c6c7,
     0x4593e01e, 0x4152fda9, 0x5f15adac, 0x5bd4b01b, 0x569796c2, 0x52568b75,
     0x6a1936c8, 0x6ed82b7f, 0x639b0da6, 0x675a1011, 0x791d4014, 0x7ddc5da3,
     0x709f7b7a, 0x745e66cd, 0x9823b6e0, 0x9ce2ab57, 0x91a18d8e, 0x95609039,
     0x8b27c03c, 0x8fe6dd8b, 0x82a5fb52, 0x8664e6e5, 0xbe2b5b58, 0xbaea46ef,
     0xb7a96036, 0xb3687d81, 0xad2f2d84, 0xa9ee3033, 0xa4ad16ea, 0xa06c0b5d,
     0xd4326d90, 0xd0f37027, 0xddb056fe, 0xd9714b49, 0xc7361b4c, 0xc3f706fb,
     0xceb42022, 0xca753d95, 0xf23a8028, 0xf6fb9d9f, 0xfbb8bb46, 0xff79a6f1,
     0xe13ef6f4, 0xe5ffeb43, 0xe8bccd9a, 0xec7dd02d, 0x34867077, 0x30476dc0,
     0x3d044b19, 0x39c556ae, 0x278206ab, 0x23431b1c, 0x2e003dc5, 0x2ac12072,
     0x128e9dcf, 0x164f8078, 0x1b0ca6a1, 0x1fcdbb16, 0x018aeb13, 0x054bf6a4,
     0x0808d07d, 0x0cc9cdca, 0x7897ab07, 0x7c56b6b0, 0x71159069, 0x75d48dde,
     0x6b93dddb, 0x6f52c06c, 0x6211e6b5, 0x66d0fb02, 0x5e9f46bf, 0x5a5e5b08,
     0x571d7dd1, 0x53dc6066, 0x4d9b3063, 0x495a2dd4, 0x44190b0d, 0x40d816ba,
     0xaca5c697, 0xa864db20, 0xa527fdf9, 0xa1e6e04e, 0xbfa1b04b, 0xbb60adfc,
     0xb6238b25, 0xb2e29692, 0x8aad2b2f, 0x8e6c3698, 0x832f1041, 0x87ee0df6,
     0x99a95df3, 0x9d684044, 0x902b669d, 0x94ea7b2a, 0xe0b41de7, 0xe4750050,
     0xe9362689, 0xedf73b3e, 0xf3b06b3b, 0xf771768c, 0xfa325055, 0xfef34de2,
     0xc6bcf05f, 0xc27dede8, 0xcf3ecb31, 0xcbffd686, 0xd5b88683, 0xd1799b34,
     0xdc3abded, 0xd8fba05a, 0x690ce0ee, 0x6dcdfd59, 0x608edb80, 0x644fc637,
     0x7a089632, 0x7ec98b85, 0x738aad5c, 0x774bb0eb, 0x4f040d56, 0x4bc510e1,
     0x46863638, 0x42472b8f, 0x5c007b8a, 0x58c1663d, 0x558240e4, 0x51435d53,
     0x251d3b9e, 0x21dc2629, 0x2c9f00f0, 0x285e1d47, 0x36194d42, 0x32d850f5,
     0x3f9b762c, 0x3b5a6b9b, 0x0315d626, 0x07d4cb91, 0x0a97ed48, 0x0e56f0ff,
     0x1011a0fa, 0x14d0bd4d, 0x19939b94, 0x1d528623, 0xf12f560e, 0xf5ee4bb9,
     0xf8ad6d60, 0xfc6c70d7, 0xe22b20d2, 0xe6ea3d65, 0xeba91bbc, 0xef68060b,
     0xd727bbb6, 0xd3e6a601, 0xdea580d8, 0xda649d6f, 0xc423cd6a, 0xc0e2d0dd,
     0xcda1f604, 0xc960ebb3, 0xbd3e8d7e, 0xb9ff90c9, 0xb4bcb610, 0xb07daba7,
     0xae3afba2, 0xaafbe615, 0xa7b8c0cc, 0xa379dd7b, 0x9b3660c6, 0x9ff77d71,
     0x92b45ba8, 0x9675461f, 0x8832161a, 0x8cf30bad, 0x81b02d74, 0x857130c3,
     0x5d8a9099, 0x594b8d2e, 0x5408abf7, 0x50c9b640, 0x4e8ee645, 0x4a4ffbf2,
     0x470cdd2b, 0x43cdc09c, 0x7b827d21, 0x7f436096, 0x7200464f, 0x76c15bf8,
     0x68860bfd, 0x6c47164a, 0x61043093, 0x65c52d24, 0x119b4be9, 0x155a565e,
     0x18197087, 0x1cd86d30, 0x029f3d35, 0x065e2082, 0x0b1d065b, 0x0fdc1bec,
     0x3793a651, 0x3352bbe6, 0x3e119d3f, 0x3ad08088, 0x2497d08d, 0x2056cd3a,
     0x2d15ebe3, 0x29d4f654, 0xc5a92679, 0xc1683bce, 0xcc2b1d17, 0xc8ea00a0,
     0xd6ad50a5, 0xd26c4d12, 0xdf2f6bcb, 0xdbee767c, 0xe3a1cbc1, 0xe760d676,
     0xea23f0af, 0xeee2ed18, 0xf0a5bd1d, 0xf464a0aa, 0xf9278673, 0xfde69bc4,
     0x89b8fd09, 0x8d79e0be, 0x803ac667, 0x84fbdbd0, 0x9abc8bd5, 0x9e7d9662,
     0x933eb0bb, 0x97ffad0c, 0xafb010b1, 0xab710d06, 0xa6322bdf, 0xa2f33668,
     0xbcb4666d, 0xb8757bda, 0xb5365d03, 0xb1f740b4]"

definition crc8_table :: "byte list" where
  "crc8_table =
    [0x00, 0xD5, 0x7F, 0xAA, 0xFE, 0x2B, 0x81, 0x54, 0x29, 0xFC, 0x56, 0x83,
     0xD7, 0x02, 0xA8, 0x7D, 0x52, 0x87, 0x2D, 0xF8, 0xAC, 0x79, 0xD3, 0x06,
     0x7B, 0xAE, 0x04, 0xD1, 0x85, 0x50, 0xFA, 0x2F, 0xA4, 0x71, 0xDB, 0x0E,
     0x5A, 0x8F, 0x25, 0xF0, 0x8D, 0x58, 0xF2, 0x27, 0x73, 0xA6, 0x0C, 0xD9,
     0xF6, 0x23, 0x89, 0x5C, 0x08, 0xDD, 0x77, 0xA2, 0xDF, 0x0A, 0xA0, 0x75,
     0x21, 0xF4, 0x5E, 0x8B, 0x9D, 0x48, 0xE2, 0x37, 0x63, 0xB6, 0x1C, 0xC9,
     0xB4, 0x61, 0xCB, 0x1E, 0x4A, 0x9F, 0x35, 0xE0, 0xCF, 0x1A, 0xB0, 0x65,
     0x31, 0xE4, 0x4E, 0x9B, 0xE6, 0x33, 0x99, 0x4C, 0x18, 0xCD, 0x67, 0xB2,
     0x39, 0xEC, 0x46, 0x93, 0xC7, 0x12, 0xB8, 0x6D, 0x10, 0xC5, 0x6F, 0xBA,
     0xEE, 0x3B, 0x91, 0x44, 0x6B, 0xBE, 0x14, 0xC1, 0x95, 0x40, 0xEA, 0x3F,
     0x42, 0x97, 0x3D, 0xE8, 0xBC, 0x69, 0xC3, 0x16, 0xEF, 0x3A, 0x90, 0x45,
     0x11, 0xC4, 0x6E, 0xBB, 0xC6, 0x13, 0xB9, 0x6C, 0x38, 0xED, 0x47, 0x92,
     0xBD, 0x68, 0xC2, 0x17, 0x43, 0x96, 0x3C, 0xE9, 0x94, 0x41, 0xEB, 0x3E,
     0x6A, 0xBF, 0x15, 0xC0, 0x4B, 0x9E, 0x34, 0xE1, 0xB5, 0x60, 0xCA, 0x1F,
     0x62, 0xB7, 0x1D, 0xC8, 0x9C, 0x49, 0xE3, 0x36, 0x19, 0xCC, 0x66, 0xB3,
     0xE7, 0x32, 0x98, 0x4D, 0x30, 0xE5, 0x4F, 0x9A, 0xCE, 0x1B, 0xB1, 0x64,
     0x72, 0xA7, 0x0D, 0xD8, 0x8C, 0x59, 0xF3, 0x26, 0x5B, 0x8E, 0x24, 0xF1,
     0xA5, 0x70, 0xDA, 0x0F, 0x20, 0xF5, 0x5F, 0x8A, 0xDE, 0x0B, 0xA1, 0x74,
     0x09, 0xDC, 0x76, 0xA3, 0xF7, 0x22, 0x88, 0x5D, 0xD6, 0x03, 0xA9, 0x7C,
     0x28, 0xFD, 0x57, 0x82, 0xFF, 0x2A, 0x80, 0x55, 0x01, 0xD4, 0x7E, 0xAB,
     0x84, 0x51, 0xFB, 0x2E, 0x7A, 0xAF, 0x05, 0xD0, 0xAD, 0x78, 0xD2, 0x07,
     0x53, 0x86, 0x2C, 0xF9]"

definition crc8_step :: "byte \<Rightarrow> byte \<Rightarrow> byte" where
  "crc8_step crc tmp = crc8_table ! unat (crc XOR tmp)"

definition compute_crc8 :: "byte list \<Rightarrow> byte" where
  "compute_crc8 p = foldl crc8_step 0 p"

text \<open>\<open>bbf_crc8\<close> is an \<open>int\<close> that is truncated to a byte when the computation starts.\<close>

definition extend_crc8 :: "int \<Rightarrow> byte list \<Rightarrow> int" where
  "extend_crc8 bbf_crc8 p = uint (foldl crc8_step (word_of_int bbf_crc8) p)"

definition crc32_step :: "u32 \<Rightarrow> byte \<Rightarrow> u32" where
  "crc32_step crc b = push_bit 8 crc XOR crc32_table ! unat (drop_bit 24 crc XOR ucast b)"

definition extend_crc32 :: "u32 \<Rightarrow> byte list \<Rightarrow> u32" where
  "extend_crc32 crc dat = foldl crc32_step crc dat"

lemma xor_eq_0: "a XOR b = 0 \<longleftrightarrow> a = (b :: 'a::len word)"
  by (auto simp: bit_eq_iff bit_simps)

subsection \<open>Checksums as a linear register\<close>

text \<open>
  The interface of the receivers to a checksum: a register advanced by bytes, linear over
  exclusive or, in which a non-zero state or a non-zero byte never disappears.
\<close>

locale crc_register =
  fixes stp :: "'a::len word \<Rightarrow> byte \<Rightarrow> 'a word"
  assumes stp_lin: "stp (c XOR d) (x XOR y) = stp c x XOR stp d y"
    and stp_state: "stp c 0 = 0 \<Longrightarrow> c = 0"
    and stp_byte: "stp 0 b = 0 \<Longrightarrow> b = 0"
begin

lemma stp_zero: "stp 0 0 = 0"
  using stp_lin [of 0 0 0 0] by simp

lemma fold_lin:
  "length xs = length ys \<Longrightarrow>
   foldl stp (c XOR d) (map2 (XOR) xs ys) = foldl stp c xs XOR foldl stp d ys"
  by (induction xs ys arbitrary: c d rule: list_induct2) (simp_all add: stp_lin)

lemma fold_zeros: "foldl stp 0 (replicate n 0) = 0"
  by (induction n) (simp_all add: stp_zero)

lemma fold_zeros_state: "foldl stp d (replicate n 0) = 0 \<Longrightarrow> d = 0"
  by (induction n arbitrary: d) (auto dest: stp_state)

lemma map2_xor_self: "map2 (XOR) xs xs = replicate (length xs) (0 :: byte)"
  by (induction xs) auto

lemma fold_diff:
  "length xs = length ys \<Longrightarrow>
   foldl stp c xs = foldl stp c ys \<longleftrightarrow> foldl stp 0 (map2 (XOR) xs ys) = 0"
  using fold_lin [of xs ys c c] by (simp add: xor_eq_0)

text \<open>An error pattern between a common prefix and a common suffix survives to the end.\<close>

lemma fold_window:
  assumes "length xs = length ys" "foldl stp 0 (map2 (XOR) xs ys) \<noteq> 0"
  shows "foldl stp c (pre @ xs @ post) \<noteq> foldl stp c (pre @ ys @ post)"
proof -
  let ?e = "map2 (XOR) xs ys"
  have "map2 (XOR) (pre @ xs @ post) (pre @ ys @ post) =
    replicate (length pre) 0 @ ?e @ replicate (length post) 0"
    using assms(1) by (simp add: map2_xor_self)
  then have "foldl stp 0 (map2 (XOR) (pre @ xs @ post) (pre @ ys @ post)) =
    foldl stp (foldl stp 0 ?e) (replicate (length post) 0)"
    by (simp add: fold_zeros)
  then show ?thesis
    using fold_diff [of "pre @ xs @ post" "pre @ ys @ post" c] assms fold_zeros_state
    by (metis length_append)
qed

end

subsection \<open>Bitwise polynomial division\<close>

definition poly_shift :: "'a::len word \<Rightarrow> 'a word \<Rightarrow> 'a word" where
  "poly_shift poly c =
     (if bit c (LENGTH('a) - 1) then push_bit 1 c XOR poly else push_bit 1 c)"

definition poly_byte :: "'a::len word \<Rightarrow> nat \<Rightarrow> 'a word" where
  "poly_byte poly i = (poly_shift poly ^^ 8) (push_bit (LENGTH('a) - 8) (of_nat i))"

lemma poly_shift_xor: "poly_shift poly (x XOR y) = poly_shift poly x XOR poly_shift poly y"
  by (rule bit_eqI) (auto simp: poly_shift_def bit_simps simp del: push_bit_of_1)

lemma poly_shift_pow_xor:
  "(poly_shift poly ^^ n) (x XOR y) = (poly_shift poly ^^ n) x XOR (poly_shift poly ^^ n) y"
  by (induction n arbitrary: x y) (simp_all add: poly_shift_xor)

lemma poly_byte_xor: "poly_byte poly (i XOR j) = poly_byte poly i XOR poly_byte poly j"
  by (simp add: poly_byte_def of_nat_xor_eq push_bit_xor poly_shift_pow_xor)

lemma poly_byte_0: "poly_byte poly 0 = 0"
  using poly_byte_xor [of poly 0 0] by simp

lemma poly_byte_double:
  fixes poly :: "'a::len word"
  assumes "8 \<le> LENGTH('a)" "i < 128"
  shows "poly_byte poly (2 * i) = poly_shift poly (poly_byte poly i)"
proof -
  let ?x = "push_bit (LENGTH('a) - 8) (of_nat i) :: 'a word"
  have "\<not> bit i 7" using assms(2) by (simp add: bit_iff_odd)
  then have "\<not> bit ?x (LENGTH('a) - 1)"
    using assms(1) by (simp add: bit_simps)
  then have "poly_shift poly ?x = push_bit (LENGTH('a) - 8) (of_nat (2 * i))"
    by (simp add: poly_shift_def push_bit_eq_mult ac_simps)
  then have "poly_byte poly (2 * i) = (poly_shift poly ^^ 8) (poly_shift poly ?x)"
    by (simp add: poly_byte_def)
  then show ?thesis by (simp add: poly_byte_def funpow_swap1)
qed

lemma poly_shift_single: "Suc n < LENGTH('a) \<Longrightarrow>
  poly_shift poly (2 ^ n) = (2 ^ Suc n :: 'a::len word)"
  by (auto simp: poly_shift_def bit_simps ac_simps)

lemma poly_shift_pow_single: "n + k < LENGTH('a) \<Longrightarrow>
  (poly_shift poly ^^ k) (2 ^ n) = (2 ^ (n + k) :: 'a::len word)"
  by (induction k) (simp_all add: poly_shift_single)

lemma poly_byte_1:
  fixes poly :: "'a::len word"
  assumes "8 \<le> LENGTH('a)"
  shows "poly_byte poly 1 = poly"
proof -
  have "(poly_shift poly ^^ 7) (2 ^ (LENGTH('a) - 8)) = (2 ^ (LENGTH('a) - 1) :: 'a word)"
    using poly_shift_pow_single [of "LENGTH('a) - 8" 7 poly] assms by simp
  then have "poly_byte poly 1 = poly_shift poly (2 ^ (LENGTH('a) - 1))"
    by (simp add: poly_byte_def numeral_eq_Suc)
  also have "2 ^ (LENGTH('a) - 1) * 2 = (2 ^ LENGTH('a) :: 'a word)"
    using assms by (simp flip: power_Suc2)
  then have "poly_shift poly (2 ^ (LENGTH('a) - 1)) = poly"
    using assms by (simp add: poly_shift_def bit_simps)
  finally show ?thesis .
qed

lemma nat_odd_xor: "2 * i + 1 = (2 * i) XOR (1::nat)"
  by (simp add: xor_Suc_0_eq)

subsection \<open>Table driven checksums\<close>

definition table_step :: "'a::len word list \<Rightarrow> 'a word \<Rightarrow> byte \<Rightarrow> 'a word" where
  "table_step tbl c b =
     push_bit 8 c XOR tbl ! unat (drop_bit (LENGTH('a) - 8) c XOR ucast b)"

lemma concat_pairs_nth:
  "i < length xs \<Longrightarrow> concat (map (\<lambda>t. [f t, g t]) xs) ! (2 * i) = f (xs ! i)"
  "i < length xs \<Longrightarrow> concat (map (\<lambda>t. [f t, g t]) xs) ! (2 * i + 1) = g (xs ! i)"
proof (induction xs arbitrary: i)
  case (Cons x xs)
  { case 1 then show ?case using Cons.IH(1) by (cases i) auto }
  { case 2 then show ?case using Cons.IH(2) by (cases i) auto }
qed auto

locale crc_table =
  fixes poly :: "'a::len word" and tbl :: "'a word list"
  assumes wide: "8 \<le> LENGTH('a)"
    and tbl_len: "length tbl = 256"
    and tbl_0: "tbl ! 0 = 0"
    and tbl_double: "tbl = concat (map (\<lambda>t. [poly_shift poly t, poly_shift poly t XOR poly])
      (take 128 tbl))"
    and tbl_low: "k < 256 \<Longrightarrow> take_bit 8 (tbl ! k) = 0 \<Longrightarrow> k = 0"
begin

lemma tbl_bitwise: "i < 256 \<Longrightarrow> tbl ! i = poly_byte poly i"
proof (induction i rule: less_induct)
  case (less i)
  show ?case
  proof (cases "i = 0")
    case True
    then show ?thesis by (simp add: tbl_0 poly_byte_0)
  next
    case False
    define h where "h = i div 2"
    have h: "h < i" "h < 128" "h < 256" using False less.prems by (auto simp: h_def)
    note IH = less.IH [OF h(1,3)]
    have th: "take 128 tbl ! h = tbl ! h" "h < length (take 128 tbl)"
      using h by (simp_all add: tbl_len)
    show ?thesis
    proof (cases "even i")
      case True
      then have "i = 2 * h" by (simp add: h_def)
      then have "tbl ! i = poly_shift poly (tbl ! h)"
        using th by (subst tbl_double) (simp add: concat_pairs_nth(1))
      then show ?thesis using IH \<open>i = 2 * h\<close> poly_byte_double [OF wide h(2)] by metis
    next
      case odd: False
      then have i: "i = 2 * h + 1" by (simp add: h_def)
      then have "tbl ! i = poly_shift poly (tbl ! h) XOR poly"
        using th by (subst tbl_double) (simp only: concat_pairs_nth(2))
      also have "\<dots> = poly_byte poly (2 * h) XOR poly_byte poly 1"
        using IH poly_byte_double [OF wide h(2)] poly_byte_1 [OF wide] by metis
      also have "\<dots> = poly_byte poly i" unfolding i nat_odd_xor by (rule poly_byte_xor [symmetric])
      finally show ?thesis .
    qed
  qed
qed

lemma index_less: "unat (drop_bit (LENGTH('a) - 8) c XOR ucast (b :: byte) :: 'a word) < 256"
proof -
  let ?k = "drop_bit (LENGTH('a) - 8) c XOR ucast b :: 'a word"
  have "\<not> bit ?k n" if "8 \<le> n" for n
    using bit_imp_le_length [of c "LENGTH('a) - 8 + n"] bit_imp_le_length [of b n] wide that
    by (auto simp: bit_simps)
  then have "?k = take_bit 8 ?k"
    by (intro bit_eqI) (metis bit_take_bit_iff not_le)
  then have "unat ?k = take_bit 8 (unat ?k)" by (metis unsigned_take_bit_eq)
  then show ?thesis using take_bit_nat_less_exp [of 8 "unat ?k"] by simp
qed

lemma tbl_xor:
  "i < 256 \<Longrightarrow> j < 256 \<Longrightarrow> i XOR j < 256 \<Longrightarrow> tbl ! (i XOR j) = tbl ! i XOR tbl ! j"
  by (simp add: tbl_bitwise poly_byte_xor)

lemma step_lin: "table_step tbl (c XOR d) (x XOR y) = table_step tbl c x XOR table_step tbl d y"
proof -
  let ?i = "\<lambda>c b. unat (drop_bit (LENGTH('a) - 8) c XOR ucast (b :: byte) :: 'a word)"
  have "drop_bit (LENGTH('a) - 8) (c XOR d) XOR ucast (x XOR y) =
      (drop_bit (LENGTH('a) - 8) c XOR ucast x) XOR (drop_bit (LENGTH('a) - 8) d XOR ucast y :: 'a word)"
    by (rule bit_eqI) (auto simp: bit_simps)
  then have eq: "?i (c XOR d) (x XOR y) = ?i c x XOR ?i d y"
    by (simp add: unsigned_xor_eq)
  have "tbl ! ?i (c XOR d) (x XOR y) = tbl ! ?i c x XOR tbl ! ?i d y"
    unfolding eq using index_less [of "c XOR d" "x XOR y"]
    by (intro tbl_xor index_less) (simp only: eq)
  then show ?thesis
    unfolding table_step_def by (intro bit_eqI) (auto simp: bit_simps)
qed

lemma step_low_zero:
  assumes z: "take_bit (8 * Suc n) (table_step tbl c b) = 0" and n: "8 * Suc n \<le> LENGTH('a)"
  shows "drop_bit (LENGTH('a) - 8) c = ucast b" "take_bit (8 * n) c = 0"
proof -
  let ?k = "drop_bit (LENGTH('a) - 8) c XOR ucast b :: 'a word"
  have bits: "\<not> bit (table_step tbl c b) m" if "m < 8 * Suc n" for m
    using z that by (metis bit_take_bit_iff bit_0_eq bot_apply bot_bool_def)
  have "take_bit 8 (tbl ! unat ?k) = 0"
  proof (rule bit_eqI)
    fix m
    show "bit (take_bit 8 (tbl ! unat ?k)) m = bit (0 :: 'a word) m"
      using bits [of m] by (auto simp: table_step_def bit_simps)
  qed
  then have k: "unat ?k = 0" using tbl_low index_less by blast
  then have "?k = 0" by (metis unsigned_0 word_unat_eq_iff)
  then show "drop_bit (LENGTH('a) - 8) c = ucast b" by (simp add: xor_eq_0)
  have st: "table_step tbl c b = push_bit 8 c" using k by (simp add: table_step_def tbl_0)
  show "take_bit (8 * n) c = 0"
  proof (rule bit_eqI)
    fix m
    show "bit (take_bit (8 * n) c) m = bit (0 :: 'a word) m"
      using bits [of "m + 8"] n unfolding st by (auto simp: bit_simps)
  qed
qed

lemma step_state: "table_step tbl c 0 = 0 \<Longrightarrow> c = 0"
proof -
  assume z: "table_step tbl c 0 = 0"
  have d: "drop_bit (LENGTH('a) - 8) c = 0"
    using step_low_zero(1) [of 0 c 0] z wide by simp
  then have p: "push_bit 8 c = 0" using z by (simp add: table_step_def tbl_0)
  show "c = 0"
  proof (rule bit_eqI)
    fix m assume "possible_bit TYPE('a word) m"
    then have m: "m < LENGTH('a)" by simp
    show "bit c m = bit 0 m"
    proof (cases "m < LENGTH('a) - 8")
      case True
      have "\<not> bit (push_bit 8 c) (m + 8)" using p by simp
      then show ?thesis using True by (simp add: bit_simps)
    next
      case False
      have "\<not> bit (drop_bit (LENGTH('a) - 8) c) (m - (LENGTH('a) - 8))" using d by simp
      then show ?thesis using False by (simp add: bit_simps)
    qed
  qed
qed

lemma ucast_byte_0: "(ucast (b :: byte) :: 'a word) = 0 \<Longrightarrow> b = 0"
proof -
  assume "(ucast b :: 'a word) = 0"
  then have "\<not> bit (ucast b :: 'a word) m" for m by simp
  then show "b = 0" using wide by (intro bit_eqI) (auto simp: bit_simps)
qed

sublocale crc_register "table_step tbl"
proof
  show "table_step tbl (c XOR d) (x XOR y) = table_step tbl c x XOR table_step tbl d y" for c d x y
    by (rule step_lin)
  show "table_step tbl c 0 = 0 \<Longrightarrow> c = 0" for c by (rule step_state)
  show "table_step tbl 0 b = 0 \<Longrightarrow> b = 0" for b
    using step_low_zero(1) [of 0 0 b] wide ucast_byte_0 [of b] by simp
qed

lemma short_burst:
  assumes "8 * length es \<le> LENGTH('a)" "take_bit (8 * length es) (foldl (table_step tbl) 0 es) = 0"
  shows "es = replicate (length es) 0"
  using assms
proof (induction es rule: rev_induct)
  case (snoc b es)
  let ?c = "foldl (table_step tbl) 0 es"
  have "take_bit (8 * Suc (length es)) (table_step tbl ?c b) = 0" "8 * Suc (length es) \<le> LENGTH('a)"
    using snoc.prems by simp_all
  note low = step_low_zero [OF this]
  then have es: "es = replicate (length es) 0" using snoc by simp
  then have "?c = 0" by (metis fold_zeros)
  then have "b = 0" using low(1) ucast_byte_0 [of b] by simp
  then show ?case using es by (metis length_append_singleton replicate_Suc replicate_append_same)
qed simp

lemma burst_detected:
  assumes "length xs = length ys" "8 * length xs \<le> LENGTH('a)" "xs \<noteq> ys"
  shows "foldl (table_step tbl) c (pre @ xs @ post) \<noteq> foldl (table_step tbl) c (pre @ ys @ post)"
proof (rule fold_window [OF assms(1)])
  have "xs = ys" if "map2 (XOR) xs ys = replicate (length xs) 0"
    using assms(1) that by (induction xs ys rule: list_induct2) (auto simp: xor_eq_0)
  then show "foldl (table_step tbl) 0 (map2 (XOR) xs ys) \<noteq> 0"
    using short_burst [of "map2 (XOR) xs ys"] assms by auto
qed

end

lemma crc8_table_length: "length crc8_table = 256"
  by (simp add: crc8_table_def)

lemma crc32_table_length: "length crc32_table = 256"
  by (simp add: crc32_table_def)

interpretation crc8: crc_table "0xD5 :: byte" crc8_table
proof
  show "crc8_table = concat (map (\<lambda>t. [poly_shift 0xD5 t, poly_shift 0xD5 t XOR 0xD5])
      (take 128 crc8_table))"
    by (simp add: crc8_table_def poly_shift_def)
  have "list_all (\<lambda>t. take_bit 8 t \<noteq> 0) (tl crc8_table)" by (simp add: crc8_table_def)
  then show "take_bit 8 (crc8_table ! k) = 0 \<Longrightarrow> k = 0" if "k < 256" for k
    using that by (cases k) (auto simp: list_all_length nth_tl crc8_table_length)
qed (simp_all add: crc8_table_length, simp add: crc8_table_def)

interpretation crc32: crc_table "0x04c11db7 :: u32" crc32_table
proof
  show "crc32_table = concat (map (\<lambda>t. [poly_shift 0x04c11db7 t, poly_shift 0x04c11db7 t XOR 0x04c11db7])
      (take 128 crc32_table))"
    by (simp add: crc32_table_def poly_shift_def)
  have "list_all (\<lambda>t. take_bit 8 t \<noteq> 0) (tl crc32_table)" by (simp add: crc32_table_def)
  then show "take_bit 8 (crc32_table ! k) = 0 \<Longrightarrow> k = 0" if "k < 256" for k
    using that by (cases k) (auto simp: list_all_length nth_tl crc32_table_length)
qed (simp_all add: crc32_table_length, simp add: crc32_table_def)

lemma crc8_step_table: "crc8_step = table_step crc8_table"
  by (intro ext) (simp add: crc8_step_def table_step_def)

lemma crc32_step_table: "crc32_step = table_step crc32_table"
  by (intro ext) (simp add: crc32_step_def table_step_def)

subsection \<open>The trailer check of a T2-MI packet\<close>

definition crc32_trailer :: "u32 \<Rightarrow> byte list" where
  "crc32_trailer c = [ucast (drop_bit 24 c), ucast (drop_bit 16 c), ucast (drop_bit 8 c), ucast c]"

lemma crc32_step_top: "crc32_step c (ucast (drop_bit 24 c)) = push_bit 8 c"
proof -
  have "ucast (ucast (drop_bit 24 c) :: byte) = drop_bit 24 c"
    by (rule bit_eqI) (auto simp: bit_simps dest: bit_imp_le_length)
  then show ?thesis by (simp add: crc32_step_def crc32.tbl_0)
qed

lemma crc32_top_shift:
  "(ucast (drop_bit 24 (push_bit 8 c :: u32)) :: byte) = ucast (drop_bit 16 c)"
  "(ucast (drop_bit 16 (push_bit 8 c :: u32)) :: byte) = ucast (drop_bit 8 c)"
  "(ucast (drop_bit 8 (push_bit 8 c :: u32)) :: byte) = ucast c"
  by (rule bit_eqI, auto simp: bit_simps)+

lemma crc32_residue: "extend_crc32 c (crc32_trailer c) = 0"
proof -
  let ?s = "\<lambda>c. push_bit 8 (c :: u32)"
  have "crc32_step (?s c) (ucast (drop_bit 16 c)) = ?s (?s c)"
    using crc32_step_top [of "?s c"] by (simp only: crc32_top_shift)
  moreover have "crc32_step (?s (?s c)) (ucast (drop_bit 8 c)) = ?s (?s (?s c))"
    using crc32_step_top [of "?s (?s c)"] by (simp only: crc32_top_shift)
  moreover have "crc32_step (?s (?s (?s c))) (ucast c) = ?s (?s (?s (?s c)))"
    using crc32_step_top [of "?s (?s (?s c))"] by (simp only: crc32_top_shift)
  ultimately show ?thesis
    by (simp add: extend_crc32_def crc32_trailer_def crc32_step_top)
qed

lemma crc32_trailer_unique:
  assumes "length t = 4"
  shows "extend_crc32 c t = 0 \<longleftrightarrow> t = crc32_trailer c"
proof
  assume z: "extend_crc32 c t = 0"
  show "t = crc32_trailer c"
  proof (rule ccontr)
    assume "t \<noteq> crc32_trailer c"
    then have "foldl (table_step crc32_table) c ([] @ t @ []) \<noteq>
        foldl (table_step crc32_table) c ([] @ crc32_trailer c @ [])"
      by (intro crc32.burst_detected) (simp_all add: assms crc32_trailer_def)
    then show False
      using z crc32_residue [of c] by (simp add: extend_crc32_def crc32_step_table)
  qed
qed (simp add: crc32_residue)

subsection \<open>Properties\<close>

text \<open>
  C28.  The two tables of the code are those of bitwise division by the polynomials 0xD5 and
  0x04c11db7: entry \<open>i\<close> is the byte \<open>i\<close>, aligned to the top of the register, shifted eight
  times with feedback of the polynomial.
\<close>

theorem crc_tables_bitwise:
  "(\<forall>i \<in> {..<256}. crc8_table ! i = (poly_shift 0xD5 ^^ 8) (of_nat i)) \<and>
   (\<forall>i \<in> {..<256}. crc32_table ! i = (poly_shift 0x04c11db7 ^^ 8) (push_bit 24 (of_nat i)))"
  using crc8.tbl_bitwise crc32.tbl_bitwise by (simp add: poly_byte_def)

theorem crc_tables_bitwise_witness: "crc32_table ! 3 = (poly_shift 0x04c11db7 ^^ 8) (push_bit 24 (of_nat 3))"
  using crc_tables_bitwise by simp

text \<open>
  C29.  Any error burst inside four consecutive bytes changes the CRC-32 of a T2-MI packet,
  and any damaged byte changes the CRC-8 of a baseband header or user packet, whatever
  surrounds it and whatever the initial register is.
\<close>

theorem crc_detects_bursts:
  assumes "length xs = length ys" "xs \<noteq> ys" "length xs \<le> 4"
  shows "extend_crc32 c (pre @ xs @ post) \<noteq> extend_crc32 c (pre @ ys @ post) \<and>
    (length xs = 1 \<longrightarrow> compute_crc8 (pre @ xs @ post) \<noteq> compute_crc8 (pre @ ys @ post) \<and>
       extend_crc8 n (pre @ xs @ post) \<noteq> extend_crc8 n (pre @ ys @ post))"
  using crc32.burst_detected [of xs ys c pre post] crc8.burst_detected [of xs ys _ pre post] assms
  by (simp add: extend_crc32_def compute_crc8_def extend_crc8_def crc8_step_table crc32_step_table
    flip: word_uint_eq_iff)

theorem crc_detects_bursts_witness:
  "extend_crc32 0 ([] @ [1] @ []) \<noteq> extend_crc32 0 ([] @ [2] @ []) \<and>
   compute_crc8 ([] @ [1] @ []) \<noteq> compute_crc8 ([] @ [2] @ []) \<and>
   extend_crc8 0 ([] @ [1] @ []) \<noteq> extend_crc8 0 ([] @ [2] @ [])"
  using crc_detects_bursts [of "[1]" "[2]" 0 "[]" "[]" 0] by simp

text \<open>
  The receiver's test of a T2-MI packet, that the CRC-32 run over the data and the four
  trailer bytes is zero, accepts exactly one trailer: the big-endian CRC-32 of the data.
\<close>

theorem crc32_accepts_iff_trailer:
  assumes "length t = 4"
  shows "extend_crc32 c (dat @ t) = 0 \<longleftrightarrow> t = crc32_trailer (extend_crc32 c dat)"
  using crc32_trailer_unique [OF assms, of "extend_crc32 c dat"] by (simp add: extend_crc32_def)

theorem crc32_accepts_iff_trailer_witness:
  "extend_crc32 0xFFFFFFFF ([0x47] @ [1, 2, 3, 4]) = 0 \<longleftrightarrow>
   [1, 2, 3, 4] = crc32_trailer (extend_crc32 0xFFFFFFFF [0x47])"
  by (rule crc32_accepts_iff_trailer) simp

end
