(* ===== verification/BBFrames.thy ===== *)
theory BBFrames
  imports Crc
begin

unbundle bit_operations_syntax

text \<open>
  The extraction of transport packets from DVB-S2 baseband frames (neumo-dvb-demux.c:
  \<open>parse_bbheader\<close>, \<open>bbf_output_ts_bytes\<close>, \<open>bbframes_stream_reset\<close>).

  A stream record has the fields of \<open>struct bbframes_stream\<close>; references to the parent embedded
  stream and to the feeds are object numbers.  All C \<open>int\<close> fields are \<open>int\<close>: every value is
  bounded by the 16-bit header fields and by packet sizes, far from overflow.  The pointer \<open>p\<close>
  into the input packet is an offset; reads and writes outside an object give \<^const>\<open>None\<close>.  The
  function returns, besides the new pointer, the transport packets it has completed; the
  dispatcher (theory Demux) delivers them to the feeds of the stream.
\<close>

record ts_stream =
  ts_buff_idx :: int
  ts_synced :: bool
  ts_buff :: "byte list"

record bbframes_stream =
  bbf_isi :: int
  bbf_refcount :: nat
  parent_embedded_stream :: nat
  bbf_ts :: ts_stream
  bbf_feeds :: nat
  bbf_matype :: int
  bbf_upl :: int
  bbf_dfl :: int
  bbf_syncd :: int
  bbf_issy :: int
  bbf_crc8 :: int
  bbf_left :: int
  bbf_syncbyte :: byte
  bbf_synced :: bool
  bbf_hem_mode :: bool
  bbf_num_crc_errors :: int

abbreviation (input) TS_BUFF_SIZE :: int where "TS_BUFF_SIZE \<equiv> 200"

definition ts_stream_reset :: "ts_stream \<Rightarrow> ts_stream" where
  "ts_stream_reset ts = ts\<lparr>ts_buff_idx := 0, ts_synced := False\<rparr>"

definition bbframes_stream_reset :: "bbframes_stream \<Rightarrow> bbframes_stream" where
  "bbframes_stream_reset bbf = bbf\<lparr>bbf_ts := ts_stream_reset (bbf_ts bbf), bbf_matype := - 1,
     bbf_upl := - 1, bbf_dfl := - 1, bbf_syncd := - 1, bbf_issy := 0, bbf_crc8 := - 1, bbf_left := 0,
     bbf_syncbyte := 0x47, bbf_synced := False, bbf_hem_mode := False\<rparr>"

text \<open>A big-endian 16-bit field of a header.\<close>

definition be16 :: "byte list \<Rightarrow> nat \<Rightarrow> int" where
  "be16 buff i = uint (buff ! i) * 256 + uint (buff ! Suc i)"

definition parse_bbheader :: "bbframes_stream \<Rightarrow> bool \<Rightarrow> int \<Rightarrow> byte list \<Rightarrow> bbframes_stream" where
  "parse_bbheader bbf hem_mode isi buff =
     (let dfl = be16 buff 4 div 8;
          bbf1 = bbf\<lparr>bbf_hem_mode := hem_mode, bbf_matype := uint (buff ! 0), bbf_isi := isi, bbf_dfl := dfl\<rparr>;
          bbf2 =
            (if hem_mode
             then bbf1\<lparr>bbf_issy := be16 buff 2 * 256 + uint (buff ! 6), bbf_upl := 188,
               bbf_left := dfl, bbf_syncbyte := 0x47\<rparr>
             else bbf1\<lparr>bbf_upl := be16 buff 2 div 8, bbf_issy := 0, bbf_syncbyte := buff ! 3,
               bbf_left := dfl\<rparr>)
      in bbf2\<lparr>bbf_syncd := be16 buff 7 div 8\<rparr>)"

subsection \<open>Memory accesses at computed offsets\<close>

definition byte_at :: "'a list \<Rightarrow> int \<Rightarrow> 'a option" where
  "byte_at d i = (if i < 0 then None else mem_at d (nat i))"

definition bytes_at :: "'a list \<Rightarrow> int \<Rightarrow> int \<Rightarrow> 'a list option" where
  "bytes_at d i n = (if i < 0 \<or> n < 0 then None else memread d (nat i) (nat n))"

definition put_bytes :: "'a list \<Rightarrow> int \<Rightarrow> 'a list \<Rightarrow> 'a list option" where
  "put_bytes d i s = (if i < 0 then None else memcpy d (nat i) s)"

text \<open>The comparison of an \<open>int\<close> with a \<open>sizeof\<close>, which converts it to an unsigned type.\<close>

definition ge_sizeof :: "int \<Rightarrow> int \<Rightarrow> bool" where
  "ge_sizeof i sz \<longleftrightarrow> i < 0 \<or> sz \<le> i"

subsection \<open>The bytes before the first packet\<close>

text \<open>
  \<open>Inl\<close> is a return of the function with the given pointer (\<open>None\<close> for NULL), \<open>Inr\<close> the
  pointer and the number of bytes with which the loop starts.
\<close>

definition bbf_skip :: "bbframes_stream \<Rightarrow> int \<Rightarrow> int \<Rightarrow> bbframes_stream \<times> (int option + int \<times> int)" where
  "bbf_skip bbf p num =
     (let ts = bbf_ts bbf
      in if ts_synced ts then (bbf, Inr (p, num))
         else let n = min (bbf_syncd bbf - ts_buff_idx ts) num
              in if n < 0 then (bbf, Inl (Some (p + num)))
                 else let idx = ts_buff_idx ts + n;
                          ts1 = (if idx = bbf_syncd bbf
                                 then ts\<lparr>ts_buff_idx := 0, ts_synced := True\<rparr>
                                 else ts\<lparr>ts_buff_idx := idx\<rparr>);
                          bbf1 = bbf\<lparr>bbf_ts := ts1, bbf_left := bbf_left bbf - n\<rparr>
                      in if bbf_left bbf1 < 0 then (bbf1\<lparr>bbf_left := 0\<rparr>, Inl None)
                         else (bbf1, Inr (p + n, num - n)))"

subsection \<open>The loop over the user packets\<close>

text \<open>The state of the loop: the stream, the pointer, the bytes left, the packets completed.\<close>

type_synonym bbf_run = "bbframes_stream \<times> int \<times> int \<times> byte list list"

text \<open>What the function returns: the stream, the pointer or NULL, the packets.\<close>

type_synonym bbf_result = "bbframes_stream \<times> int option \<times> byte list list"

text \<open>
  The start of a user packet: in high efficiency mode there is no sync byte in the input; in
  normal mode the byte in its place is the checksum of the previous user packet.
\<close>

definition bbf_packet_start :: "byte list \<Rightarrow> bbf_run \<Rightarrow> (bbf_result + bbf_run) option" where
  "bbf_packet_start pkt run =
     (case run of (bbf, p, num, out) \<Rightarrow>
        let ts = bbf_ts bbf
        in if ts_buff_idx ts \<noteq> 0 then Some (Inr run)
           else if bbf_hem_mode bbf
           then Some (Inr (bbf\<lparr>bbf_ts := ts\<lparr>ts_buff := (ts_buff ts)[0 := 0x47], ts_buff_idx := 1\<rparr>\<rparr>, p, num, out))
           else Option.bind (byte_at pkt p) (\<lambda>b.
             if bbf_crc8 bbf \<noteq> uint b \<and> bbf_crc8 bbf \<ge> 0
             then Some (Inl (bbf\<lparr>bbf_num_crc_errors := bbf_num_crc_errors bbf + 1\<rparr>, None, out))
             else Some (Inr (bbf\<lparr>bbf_ts := ts\<lparr>ts_buff := (ts_buff ts)[0 := 0x47], ts_buff_idx := 1\<rparr>,
                 bbf_crc8 := 0, bbf_left := bbf_left bbf - 1\<rparr>, p + 1, num - 1, out))))"

text \<open>
  Copying the input to the packet buffer; \<open>Inl\<close> is a return with the given pointer.
\<close>

definition bbf_copy :: "byte list \<Rightarrow> bbframes_stream \<Rightarrow> int \<Rightarrow> int \<Rightarrow> (int option + bbframes_stream) option" where
  "bbf_copy pkt bbf p n_out =
     (let ts = bbf_ts bbf; idx = ts_buff_idx ts
      in if n_out \<le> 0 then Some (Inr bbf)
         else if idx \<ge> TS_BUFF_SIZE then Some (Inl None)
         else if ge_sizeof (idx + n_out) TS_BUFF_SIZE then Some (Inl (Some p))
         else do {
           bs \<leftarrow> bytes_at pkt p (min n_out (TS_BUFF_SIZE - idx));
           buff \<leftarrow> put_bytes (ts_buff ts) idx bs;
           crc \<leftarrow> (if bbf_hem_mode bbf then Some (bbf_crc8 bbf)
                   else map_option (extend_crc8 (bbf_crc8 bbf)) (bytes_at pkt p (n_out mod 256)));
           Some (Inr (bbf\<lparr>bbf_ts := ts\<lparr>ts_buff := buff\<rparr>, bbf_crc8 := crc, bbf_left := bbf_left bbf - n_out\<rparr>)) })"

text \<open>The end of a turn: the position in the packet, and the packet if it is complete.\<close>

definition bbf_advance :: "bbframes_stream \<Rightarrow> int \<Rightarrow> int \<Rightarrow> int \<Rightarrow> int \<Rightarrow> byte list list \<Rightarrow> bbf_result + bbf_run" where
  "bbf_advance bbf p num n n_out out =
     (let ts = bbf_ts bbf; idx = ts_buff_idx ts + n_out; p1 = p + n; num1 = num - n;
          clipped = idx > bbf_upl bbf;
          idx1 = (if clipped then bbf_upl bbf else idx);
          bbf1 = bbf\<lparr>bbf_ts := ts\<lparr>ts_buff_idx := idx1\<rparr>\<rparr>
      in if clipped \<and> ge_sizeof idx1 TS_BUFF_SIZE then Inl (bbf1, Some p1, out)
         else let complete = (idx1 = bbf_upl bbf);
                  bbf2 = (if complete then bbf1\<lparr>bbf_ts := ts\<lparr>ts_buff_idx := 0\<rparr>\<rparr> else bbf1);
                  out2 = (if complete then out @ [take 188 (ts_buff ts)] else out)
              in if bbf_left bbf2 = 0 then Inl (bbf2, Some (p1 + num1), out2)
                 else Inr (bbf2, p1, num1, out2))"

text \<open>The part of a turn after the start of the packet.\<close>

definition bbf_take :: "byte list \<Rightarrow> bbf_run \<Rightarrow> (bbf_result + bbf_run) option" where
  "bbf_take pkt run =
     (case run of (bbf, p, num, out) \<Rightarrow>
        let n = min (bbf_upl bbf - ts_buff_idx (bbf_ts bbf)) num
        in if n = 0 then Some (Inl (bbf, Some p, out))
           else let n_out = min (bbf_left bbf) n
                in map_option (\<lambda>c. case c of
                       Inl q \<Rightarrow> Inl (bbf, q, out)
                     | Inr bbf1 \<Rightarrow> bbf_advance bbf1 p num n n_out out) (bbf_copy pkt bbf p n_out))"

text \<open>One turn of the loop: \<open>Inl\<close> leaves the function, \<open>Inr\<close> goes on.\<close>

definition bbf_turn :: "byte list \<Rightarrow> bbf_run \<Rightarrow> (bbf_result + bbf_run) option" where
  "bbf_turn pkt run =
     (case run of (bbf, p, num, out) \<Rightarrow>
        if \<not> (num > 0 \<and> ts_buff_idx (bbf_ts bbf) \<le> bbf_upl bbf) then Some (Inl (bbf, Some p, out))
        else Option.bind (bbf_packet_start pkt run) (\<lambda>r. case r of
            Inl res \<Rightarrow> Some (Inl res)
          | Inr run1 \<Rightarrow> bbf_take pkt run1))"

partial_function (option) bbf_loop :: "byte list \<Rightarrow> bbf_run \<Rightarrow> bbf_result option" where
  "bbf_loop pkt run =
     Option.bind (bbf_turn pkt run) (\<lambda>r. case r of Inl res \<Rightarrow> Some res | Inr run' \<Rightarrow> bbf_loop pkt run')"

declare bbf_loop.simps [code]

definition bbf_output_ts_bytes :: "bbframes_stream \<Rightarrow> byte list \<Rightarrow> int \<Rightarrow> int \<Rightarrow> bbf_result option" where
  "bbf_output_ts_bytes bbf pkt p num_ts_bytes =
     (case bbf_skip bbf p num_ts_bytes of
        (bbf1, Inl q) \<Rightarrow> Some (bbf1, q, [])
      | (bbf1, Inr (p1, num)) \<Rightarrow> bbf_loop pkt (bbf1, p1, num, []))"

subsection \<open>A byte-wise reference\<close>

text \<open>
  The extraction of user packets one byte at a time: \<open>None\<close> is the position before a packet,
  \<open>Some a\<close> the bytes collected after the sync byte; the second component is the running
  checksum, negative when nothing is known of the packet before.  A step fails when the byte
  in the place of the sync byte is not the checksum of the previous packet.
\<close>

type_synonym up = "byte list option \<times> int"

definition up_push :: "byte list \<Rightarrow> int \<Rightarrow> up \<times> byte list list" where
  "up_push a crc = (if length a = 187 then ((None, crc), [0x47 # a]) else ((Some a, crc), []))"

fun up_step :: "bool \<Rightarrow> up \<Rightarrow> byte \<Rightarrow> (up \<times> byte list list) option" where
  "up_step True (a, crc) b = Some (up_push ((case a of None \<Rightarrow> [] | Some a' \<Rightarrow> a') @ [b]) crc)"
| "up_step False (None, crc) b = (if crc \<noteq> uint b \<and> crc \<ge> 0 then None else Some ((Some [], 0), []))"
| "up_step False (Some a, crc) b = Some (up_push (a @ [b]) (extend_crc8 crc [b]))"

text \<open>The state at the end, the packets completed, and whether all checksums were right.\<close>

fun up_run :: "bool \<Rightarrow> up \<Rightarrow> byte list \<Rightarrow> up \<times> byte list list \<times> bool" where
  "up_run hem st [] = (st, [], True)"
| "up_run hem st (b # bs) =
     (case up_step hem st b of
        None \<Rightarrow> (st, [], False)
      | Some (st1, out) \<Rightarrow> (case up_run hem st1 bs of (st2, out2, ok) \<Rightarrow> (st2, out @ out2, ok)))"

lemma up_run_append:
  "up_run hem st (bs @ cs) =
     (case up_run hem st bs of (st1, out, ok) \<Rightarrow>
        if ok then (case up_run hem st1 cs of (st2, out2, ok2) \<Rightarrow> (st2, out @ out2, ok2))
        else (st1, out, False))"
  by (induction bs arbitrary: st) (auto split: option.splits prod.splits)

lemma extend_crc8_append: "extend_crc8 (extend_crc8 c xs) ys = extend_crc8 c (xs @ ys)"
  by (simp add: extend_crc8_def)

text \<open>A run inside one packet.\<close>

lemma up_run_chunk:
  "length a + length c \<le> 187 \<Longrightarrow> c \<noteq> [] \<Longrightarrow>
   up_run hem (Some a, crc) c =
     (let crc' = (if hem then crc else extend_crc8 crc c)
      in if length a + length c = 187 then ((None, crc'), [0x47 # a @ c], True)
         else ((Some (a @ c), crc'), [], True))"
proof (induction c arbitrary: a crc)
  case (Cons b c)
  have step: "up_step hem (Some a, crc) b = Some (up_push (a @ [b]) (if hem then crc else extend_crc8 crc [b]))"
    by (cases hem) auto
  show ?case
  proof (cases "c = []")
    case True
    then show ?thesis using Cons.prems step by (simp add: up_push_def)
  next
    case False
    then have "length a + 1 < 187" using Cons.prems by (cases c) auto
    then show ?thesis using Cons.prems step False Cons.IH [of "a @ [b]"]
      by (simp add: up_push_def Let_def extend_crc8_append)
  qed
qed simp

lemma up_run_hem_start: "bs \<noteq> [] \<Longrightarrow> up_run True (None, crc) bs = up_run True (Some [], crc) bs"
  by (cases bs) auto

subsection \<open>The block-wise routine implements the reference\<close>

definition bbf_ok :: "bbframes_stream \<Rightarrow> bool" where
  "bbf_ok bbf \<longleftrightarrow> bbf_upl bbf = 188 \<and> length (ts_buff (bbf_ts bbf)) = 200 \<and>
     0 \<le> ts_buff_idx (bbf_ts bbf) \<and> ts_buff_idx (bbf_ts bbf) < 188 \<and>
     (ts_buff_idx (bbf_ts bbf) > 0 \<longrightarrow> ts_buff (bbf_ts bbf) ! 0 = 0x47)"

definition up_of :: "bbframes_stream \<Rightarrow> up" where
  "up_of bbf = (let ts = bbf_ts bbf
     in (if ts_buff_idx ts = 0 then None
         else Some (take (nat (ts_buff_idx ts) - 1) (drop 1 (ts_buff ts))), bbf_crc8 bbf))"

text \<open>What the extraction leaves alone.\<close>

definition same_stream :: "bbframes_stream \<Rightarrow> bbframes_stream \<Rightarrow> bool" where
  "same_stream f g \<longleftrightarrow> g\<lparr>bbf_ts := bbf_ts f, bbf_crc8 := bbf_crc8 f, bbf_left := bbf_left f,
       bbf_num_crc_errors := bbf_num_crc_errors f\<rparr> = f \<and>
     (ts_synced (bbf_ts f) \<longrightarrow> ts_synced (bbf_ts g))"

lemma same_stream_refl [simp]: "same_stream f f"
  by (simp add: same_stream_def)

lemma same_stream_fields:
  assumes "same_stream f g"
  shows "bbf_upl g = bbf_upl f" "bbf_hem_mode g = bbf_hem_mode f" "bbf_feeds g = bbf_feeds f"
    "bbf_isi g = bbf_isi f" "bbf_syncd g = bbf_syncd f" "bbf_synced g = bbf_synced f"
    "ts_synced (bbf_ts f) \<Longrightarrow> ts_synced (bbf_ts g)"
proof -
  have eq: "g\<lparr>bbf_ts := bbf_ts f, bbf_crc8 := bbf_crc8 f, bbf_left := bbf_left f,
      bbf_num_crc_errors := bbf_num_crc_errors f\<rparr> = f"
    using assms by (simp add: same_stream_def)
  show "bbf_upl g = bbf_upl f" "bbf_hem_mode g = bbf_hem_mode f" "bbf_feeds g = bbf_feeds f"
    "bbf_isi g = bbf_isi f" "bbf_syncd g = bbf_syncd f" "bbf_synced g = bbf_synced f"
    using arg_cong [OF eq, of bbf_upl] arg_cong [OF eq, of bbf_hem_mode] arg_cong [OF eq, of bbf_feeds]
      arg_cong [OF eq, of bbf_isi] arg_cong [OF eq, of bbf_syncd] arg_cong [OF eq, of bbf_synced]
    by simp_all
  show "ts_synced (bbf_ts f) \<Longrightarrow> ts_synced (bbf_ts g)" using assms by (simp add: same_stream_def)
qed

lemma same_stream_trans: "same_stream f g \<Longrightarrow> same_stream g h \<Longrightarrow> same_stream f h"
  unfolding same_stream_def by (cases f; cases g; cases h) simp

lemma same_stream_update [simp]:
  "same_stream f (f\<lparr>bbf_ts := t\<rparr>) \<longleftrightarrow> (ts_synced (bbf_ts f) \<longrightarrow> ts_synced t)"
  "same_stream f (f\<lparr>bbf_left := l\<rparr>)" "same_stream f (f\<lparr>bbf_crc8 := c\<rparr>)"
  "same_stream f (f\<lparr>bbf_num_crc_errors := c\<rparr>)"
  "same_stream f (f\<lparr>bbf_ts := t, bbf_left := l\<rparr>) \<longleftrightarrow> (ts_synced (bbf_ts f) \<longrightarrow> ts_synced t)"
  "same_stream f (f\<lparr>bbf_ts := t, bbf_crc8 := c, bbf_left := l\<rparr>) \<longleftrightarrow> (ts_synced (bbf_ts f) \<longrightarrow> ts_synced t)"
  by (simp_all add: same_stream_def)

text \<open>The bytes the pointer and the count designate.\<close>

definition input :: "byte list \<Rightarrow> int \<Rightarrow> int \<Rightarrow> byte list \<Rightarrow> bool" where
  "input pkt p num bs \<longleftrightarrow>
     (\<exists>pre post. pkt = pre @ bs @ post \<and> p = int (length pre) \<and> num = int (length bs))"

lemma input_take:
  assumes "input pkt p num bs" "0 \<le> n" "n \<le> num"
  shows "bytes_at pkt p n = Some (take (nat n) bs)"
  using assms by (auto simp: input_def bytes_at_def memread_def)

lemma input_drop:
  assumes "input pkt p num bs" "0 \<le> n" "n \<le> num"
  shows "input pkt (p + n) (num - n) (drop (nat n) bs)"
proof -
  obtain pre post where i: "pkt = pre @ bs @ post" "p = int (length pre)" "num = int (length bs)"
    using assms(1) by (auto simp: input_def)
  have "pkt = (pre @ take (nat n) bs) @ drop (nat n) bs @ post" using i by simp
  moreover have "p + n = int (length (pre @ take (nat n) bs))" "num - n = int (length (drop (nat n) bs))"
    using i assms(2,3) by auto
  ultimately show ?thesis unfolding input_def by blast
qed

lemma input_byte:
  assumes "input pkt p num bs" "0 < num"
  shows "byte_at pkt p = Some (hd bs)" "bs = hd bs # tl bs"
  using assms by (cases bs; auto simp: input_def byte_at_def mem_at_def nth_append)+

lemma input_next: "input pkt p num bs \<Longrightarrow> 0 < num \<Longrightarrow> input pkt (p + 1) (num - 1) (tl bs)"
  using input_drop [of pkt p num bs 1] by (simp add: drop_Suc)

lemma input_num: "input pkt p num bs \<Longrightarrow> num = int (length bs)"
  by (auto simp: input_def)

text \<open>The state in the middle of a packet.\<close>

definition in_packet :: "bbframes_stream \<Rightarrow> byte list \<Rightarrow> bool" where
  "in_packet bbf a \<longleftrightarrow> bbf_upl bbf = 188 \<and> length a < 187 \<and>
     ts_buff_idx (bbf_ts bbf) = int (length a) + 1 \<and> length (ts_buff (bbf_ts bbf)) = 200 \<and>
     take (Suc (length a)) (ts_buff (bbf_ts bbf)) = 0x47 # a"

lemma in_packet_ok:
  assumes "in_packet bbf a"
  shows "bbf_ok bbf" "up_of bbf = (Some a, bbf_crc8 bbf)"
proof -
  have t: "take (Suc (length a)) (ts_buff (bbf_ts bbf)) = 0x47 # a"
    and i: "ts_buff_idx (bbf_ts bbf) = int (length a) + 1"
    using assms by (auto simp: in_packet_def)
  have "ts_buff (bbf_ts bbf) ! 0 = 0x47" using arg_cong [OF t, of "\<lambda>l. l ! 0"] by simp
  then show "bbf_ok bbf" using assms by (simp add: bbf_ok_def in_packet_def)
  have "take (length a) (drop 1 (ts_buff (bbf_ts bbf))) = a"
    using arg_cong [OF t, of "drop 1"] by (simp add: take_drop)
  then show "up_of bbf = (Some a, bbf_crc8 bbf)" by (simp add: up_of_def i nat_add_distrib)
qed

lemma ok_in_packet:
  assumes "bbf_ok bbf" "ts_buff_idx (bbf_ts bbf) \<noteq> 0"
  obtains a where "in_packet bbf a"
proof -
  let ?b = "ts_buff (bbf_ts bbf)" and ?i = "ts_buff_idx (bbf_ts bbf)"
  let ?a = "take (nat ?i - 1) (drop 1 ?b)"
  have b: "0 < ?i" "?i < 188" "length ?b = 200" "?b ! 0 = 0x47" using assms by (auto simp: bbf_ok_def)
  then obtain b' where b': "?b = 0x47 # b'" by (cases ?b) auto
  have "take (Suc (length ?a)) ?b = 0x47 # ?a" unfolding b' by (simp add: min_def)
  then have "in_packet bbf ?a" using assms(1) b by (auto simp: in_packet_def bbf_ok_def)
  then show ?thesis by (rule that)
qed

text \<open>One copy of at least one byte, inside the packet.\<close>

lemma copy_spec:
  assumes inp: "in_packet bbf a" and rd: "bytes_at pkt p k = Some c" "k = int (length c)"
    and c: "c \<noteq> []" "length a + length c \<le> 187"
  shows "\<exists>bbf1. bbf_copy pkt bbf p k = Some (Inr bbf1) \<and> same_stream bbf bbf1 \<and>
    ts_buff_idx (bbf_ts bbf1) = ts_buff_idx (bbf_ts bbf) \<and> length (ts_buff (bbf_ts bbf1)) = 200 \<and>
    take (Suc (length a + length c)) (ts_buff (bbf_ts bbf1)) = 0x47 # a @ c \<and>
    bbf_left bbf1 = bbf_left bbf - k \<and>
    bbf_crc8 bbf1 = (if bbf_hem_mode bbf then bbf_crc8 bbf else extend_crc8 (bbf_crc8 bbf) c)"
proof -
  let ?b = "ts_buff (bbf_ts bbf)" and ?i = "Suc (length a)"
  have i: "ts_buff_idx (bbf_ts bbf) = int ?i" and b: "length ?b = 200" "take ?i ?b = 0x47 # a"
    using inp by (auto simp: in_packet_def)
  let ?d = "take ?i ?b @ c @ drop (?i + length c) ?b"
  have k: "0 < k" "min k (TS_BUFF_SIZE - int ?i) = k" "k mod 256 = k" "int ?i + k < TS_BUFF_SIZE"
    using c rd(2) by auto
  have put: "put_bytes ?b (int ?i) c = Some ?d"
    using c b by (simp add: put_bytes_def memcpy_def del: of_nat_Suc)
  have eq: "bbf_copy pkt bbf p k = Some (Inr (bbf\<lparr>bbf_ts := (bbf_ts bbf)\<lparr>ts_buff := ?d\<rparr>,
      bbf_crc8 := (if bbf_hem_mode bbf then bbf_crc8 bbf else extend_crc8 (bbf_crc8 bbf) c),
      bbf_left := bbf_left bbf - k\<rparr>))"
    unfolding bbf_copy_def Let_def i k(2,3) rd(1) using k put
    by (simp add: ge_sizeof_def)
  have "take (Suc (length a + length c)) ?d = 0x47 # a @ c"
    using b c by simp
  then show ?thesis using eq b c by (simp add: min_def)
qed

text \<open>What the run of the reference says about the result of the routine.\<close>

definition finishes ::
    "byte list \<Rightarrow> bbframes_stream \<Rightarrow> int \<Rightarrow> int \<Rightarrow> byte list list \<Rightarrow> up \<Rightarrow> byte list list \<Rightarrow> bool \<Rightarrow> int \<Rightarrow>
     bbf_result option \<Rightarrow> bool" where
  "finishes pkt bbf p num out st outs ok left res \<longleftrightarrow>
     (\<exists>bbf'. res = Some (bbf', if ok then Some (p + num) else None, out @ outs) \<and> same_stream bbf bbf' \<and>
        (ok \<longrightarrow> bbf_ok bbf' \<and> up_of bbf' = st \<and> bbf_left bbf' = left \<and>
           bbf_num_crc_errors bbf' = bbf_num_crc_errors bbf) \<and>
        (\<not> ok \<longrightarrow> bbf_num_crc_errors bbf' = bbf_num_crc_errors bbf + 1))"

lemma finishes_trans:
  assumes "same_stream f g" "bbf_num_crc_errors g = bbf_num_crc_errors f" "q + num1 = p + num"
    "finishes pkt g q num1 (out @ outs1) st outs2 ok left res"
  shows "finishes pkt f p num out st (outs1 @ outs2) ok left res"
proof -
  obtain h where "res = Some (h, if ok then Some (q + num1) else None, (out @ outs1) @ outs2)"
    "same_stream g h"
    "ok \<longrightarrow> bbf_ok h \<and> up_of h = st \<and> bbf_left h = left \<and> bbf_num_crc_errors h = bbf_num_crc_errors g"
    "\<not> ok \<longrightarrow> bbf_num_crc_errors h = bbf_num_crc_errors g + 1"
    using assms(4) unfolding finishes_def by blast
  then show ?thesis
    using assms(2,3) same_stream_trans [OF assms(1)] unfolding finishes_def
    by (intro exI [of _ h]) simp
qed

lemma loop_unfold:
  assumes "0 < num" "ts_buff_idx (bbf_ts bbf) \<le> bbf_upl bbf"
  shows "bbf_loop pkt (bbf, p, num, out) =
    Option.bind (bbf_packet_start pkt (bbf, p, num, out)) (\<lambda>r. case r of
        Inl res \<Rightarrow> Some res
      | Inr run1 \<Rightarrow> Option.bind (bbf_take pkt run1) (\<lambda>r. case r of
            Inl res \<Rightarrow> Some res | Inr run2 \<Rightarrow> bbf_loop pkt run2))"
  using assms by (subst bbf_loop.simps)
    (auto simp: bbf_turn_def split: Option.bind_split sum.splits)

lemma loop_stop: "\<not> 0 < num \<Longrightarrow> bbf_loop pkt (bbf, p, num, out) = Some (bbf, Some p, out)"
  by (subst bbf_loop.simps) (simp add: bbf_turn_def)

text \<open>A turn from inside a packet.\<close>

lemma take_spec:
  assumes inp: "in_packet bbf a" and i: "input pkt p num bs" and num: "0 < num" and left: "0 < bbf_left bbf"
  defines "k \<equiv> min (bbf_left bbf) (min (187 - int (length a)) num)"
  defines "c \<equiv> take (nat k) bs"
  shows "\<exists>bbf'. same_stream bbf bbf' \<and> bbf_ok bbf' \<and> bbf_left bbf' = bbf_left bbf - k \<and>
    bbf_num_crc_errors bbf' = bbf_num_crc_errors bbf \<and>
    up_run (bbf_hem_mode bbf) (Some a, bbf_crc8 bbf) c =
      (up_of bbf', if length a + length c = 187 then [0x47 # a @ c] else [], True) \<and>
    bbf_take pkt (bbf, p, num, out) =
      Some (if bbf_left bbf' = 0 then Inl (bbf', Some (p + num), out @ (if length a + length c = 187 then [0x47 # a @ c] else []))
        else Inr (bbf', p + k, num - k, out @ (if length a + length c = 187 then [0x47 # a @ c] else [])))"
proof -
  have upl: "bbf_upl bbf = 188" and la: "length a < 187" and idx: "ts_buff_idx (bbf_ts bbf) = int (length a) + 1"
    using inp by (auto simp: in_packet_def)
  have k: "0 < k" "k \<le> num" "k \<le> bbf_left bbf" "k \<le> 187 - int (length a)"
    using la num left by (auto simp: k_def)
  have lc: "int (length c) = k" using k input_num [OF i] by (simp add: c_def)
  have c: "c \<noteq> []" "length a + length c \<le> 187" using k lc by (auto simp flip: length_greater_0_conv)
  have rd: "bytes_at pkt p k = Some c" unfolding c_def using k by (intro input_take [OF i]) auto
  obtain bbf1 where b1: "bbf_copy pkt bbf p k = Some (Inr bbf1)" "same_stream bbf bbf1"
    "ts_buff_idx (bbf_ts bbf1) = int (length a) + 1" "length (ts_buff (bbf_ts bbf1)) = 200"
    "take (Suc (length a + length c)) (ts_buff (bbf_ts bbf1)) = 0x47 # a @ c"
    "bbf_left bbf1 = bbf_left bbf - k"
    "bbf_crc8 bbf1 = (if bbf_hem_mode bbf then bbf_crc8 bbf else extend_crc8 (bbf_crc8 bbf) c)"
    using copy_spec [OF inp rd lc [symmetric] c] idx by auto
  have upl1: "bbf_upl bbf1 = 188" using same_stream_fields [OF b1(2)] upl by simp
  let ?n = "min (187 - int (length a)) num"
  have n: "?n \<noteq> 0" "k = min (bbf_left bbf) ?n" using la num by (auto simp: k_def)
  have take_eq: "bbf_take pkt (bbf, p, num, out) = Some (bbf_advance bbf1 p num ?n k out)"
    unfolding bbf_take_def using n b1(1) by (simp add: upl idx Let_def)
  let ?o = "if length a + length c = 187 then [0x47 # a @ c] else []"
  have err: "bbf_num_crc_errors bbf1 = bbf_num_crc_errors bbf"
    using b1(1) la unfolding bbf_copy_def by (auto simp: Let_def split: if_splits Option.bind_splits)
  show ?thesis
  proof (cases "length a + length c = 187")
    case True
    let ?f = "bbf1\<lparr>bbf_ts := (bbf_ts bbf1)\<lparr>ts_buff_idx := 0\<rparr>\<rparr>"
    have "bbf_advance bbf1 p num ?n k out =
        (if bbf_left bbf1 = 0 then Inl (?f, Some (p + num), out @ [take 188 (ts_buff (bbf_ts bbf1))])
         else Inr (?f, p + ?n, num - ?n, out @ [take 188 (ts_buff (bbf_ts bbf1))]))"
      using True lc by (simp add: bbf_advance_def Let_def b1(3) upl1)
    moreover have "take 188 (ts_buff (bbf_ts bbf1)) = 0x47 # a @ c" using b1(5) True by simp
    moreover have "k = ?n" using True lc k by linarith
    moreover have "bbf_ok ?f" using b1(4) upl1 by (simp add: bbf_ok_def)
    moreover have "up_run (bbf_hem_mode bbf) (Some a, bbf_crc8 bbf) c = (up_of ?f, ?o, True)"
      using up_run_chunk [OF c(2,1)] True b1(7) by (simp add: up_of_def Let_def)
    moreover have "same_stream bbf ?f" by (rule same_stream_trans [OF b1(2)]) simp
    ultimately show ?thesis using take_eq b1(6) True err by (intro exI [of _ ?f]) simp
  next
    case False
    let ?f = "bbf1\<lparr>bbf_ts := (bbf_ts bbf1)\<lparr>ts_buff_idx := int (length a) + 1 + k\<rparr>\<rparr>"
    have "in_packet ?f (a @ c)"
      using False c lc b1(4,5) upl1 by (simp add: in_packet_def)
    note ok = in_packet_ok [OF this]
    have "bbf_advance bbf1 p num ?n k out =
        (if bbf_left bbf1 = 0 then Inl (?f, Some (p + num), out) else Inr (?f, p + ?n, num - ?n, out))"
      using False lc c by (simp add: bbf_advance_def Let_def b1(3) upl1)
    moreover have "k = ?n \<or> bbf_left bbf1 = 0" using b1(6) n(2) by linarith
    moreover have "up_run (bbf_hem_mode bbf) (Some a, bbf_crc8 bbf) c = (up_of ?f, ?o, True)"
      using up_run_chunk [OF c(2,1)] False b1(7) ok(2) by (simp add: Let_def)
    moreover have "same_stream bbf ?f" by (rule same_stream_trans [OF b1(2)]) simp
    ultimately show ?thesis using take_eq b1(6) False ok(1) err by (intro exI [of _ ?f]) auto
  qed
qed

text \<open>The start of a packet.\<close>

lemma start_spec:
  assumes ok: "bbf_ok bbf" and i: "input pkt p num bs" and num: "0 < num" and left: "0 < bbf_left bbf"
  obtains (bad) bbf' where "bbf_packet_start pkt (bbf, p, num, out) = Some (Inl (bbf', None, out))"
      "up_step (bbf_hem_mode bbf) (up_of bbf) (hd bs) = None" "same_stream bbf bbf'"
      "bbf_num_crc_errors bbf' = bbf_num_crc_errors bbf + 1"
  | (inside) bbf' a where "bbf_packet_start pkt (bbf, p, num, out) = Some (Inr (bbf', p, num, out))"
      "in_packet bbf' a" "same_stream bbf bbf'" "bbf_left bbf' = bbf_left bbf"
      "bbf_num_crc_errors bbf' = bbf_num_crc_errors bbf"
      "\<And>cs. cs \<noteq> [] \<Longrightarrow> up_run (bbf_hem_mode bbf) (up_of bbf) cs = up_run (bbf_hem_mode bbf) (Some a, bbf_crc8 bbf') cs"
  | (sync) bbf' where "bbf_packet_start pkt (bbf, p, num, out) = Some (Inr (bbf', p + 1, num - 1, out))"
      "in_packet bbf' []" "same_stream bbf bbf'" "bbf_left bbf' = bbf_left bbf - 1"
      "bbf_num_crc_errors bbf' = bbf_num_crc_errors bbf"
      "up_step (bbf_hem_mode bbf) (up_of bbf) (hd bs) = Some (up_of bbf', [])"
proof (cases "ts_buff_idx (bbf_ts bbf) = 0")
  case False
  then obtain a where "in_packet bbf a" by (rule ok_in_packet [OF ok])
  then show ?thesis using False in_packet_ok(2) by (intro inside [of bbf a]) (auto simp: bbf_packet_start_def Let_def)
next
  case start: True
  let ?ts = "(bbf_ts bbf)\<lparr>ts_buff := (ts_buff (bbf_ts bbf))[0 := 0x47], ts_buff_idx := 1\<rparr>"
  have b: "length (ts_buff (bbf_ts bbf)) = 200" "bbf_upl bbf = 188" using ok by (auto simp: bbf_ok_def)
  then have tk: "take (Suc 0) ((ts_buff (bbf_ts bbf))[0 := 0x47]) = [0x47]"
    by (cases "ts_buff (bbf_ts bbf)") auto
  have up: "up_of bbf = (None, bbf_crc8 bbf)" using start by (simp add: up_of_def)
  show ?thesis
  proof (cases "bbf_hem_mode bbf")
    case True
    let ?f = "bbf\<lparr>bbf_ts := ?ts\<rparr>"
    have "in_packet ?f []" using b tk by (simp add: in_packet_def)
    then show ?thesis using True start up up_run_hem_start
      by (intro inside [of ?f "[]"]) (auto simp: bbf_packet_start_def Let_def)
  next
    case False
    have rd: "byte_at pkt p = Some (hd bs)" by (rule input_byte [OF i num])
    show ?thesis
    proof (cases "bbf_crc8 bbf \<noteq> uint (hd bs) \<and> bbf_crc8 bbf \<ge> 0")
      case True
      then show ?thesis using False start up rd
        by (intro bad [of "bbf\<lparr>bbf_num_crc_errors := bbf_num_crc_errors bbf + 1\<rparr>"])
          (auto simp: bbf_packet_start_def Let_def)
    next
      case good: False
      let ?f = "bbf\<lparr>bbf_ts := ?ts, bbf_crc8 := 0, bbf_left := bbf_left bbf - 1\<rparr>"
      have "in_packet ?f []" using b tk by (simp add: in_packet_def)
      moreover have "bbf_packet_start pkt (bbf, p, num, out) = Some (Inr (?f, p + 1, num - 1, out))"
        using False start rd good by (simp add: bbf_packet_start_def Let_def)
      ultimately show ?thesis using False up good in_packet_ok(2) [of ?f "[]"]
        by (intro sync [of ?f]) auto
    qed
  qed
qed


text \<open>The whole loop, as long as the frame has data left.\<close>

lemma loop_spec:
  assumes "bbf_ok bbf" "input pkt p num bs" "0 < bbf_left bbf"
    "up_run (bbf_hem_mode bbf) (up_of bbf) (take (nat (bbf_left bbf)) bs) = (st, outs, ok)"
  shows "finishes pkt bbf p num out st outs ok (bbf_left bbf - min (bbf_left bbf) num)
    (bbf_loop pkt (bbf, p, num, out))"
  using assms
proof (induction "length bs" arbitrary: bbf p num bs out st outs ok rule: less_induct)
  case less
  note okb = less.prems(1) and i = less.prems(2) and left = less.prems(3) and run = less.prems(4)
  let ?hem = "bbf_hem_mode bbf"
  show ?case
  proof (cases "0 < num")
    case False
    then have "bs = []" "num = 0" using input_num [OF i] by auto
    then show ?thesis using run okb left by (auto simp: finishes_def loop_stop)
  next
    case num: True
    have idx: "ts_buff_idx (bbf_ts bbf) \<le> bbf_upl bbf" using okb by (simp add: bbf_ok_def)
    note unfold = loop_unfold [OF num idx]
    have lbs: "num = int (length bs)" by (rule input_num [OF i])
    have bs: "bs = hd bs # tl bs" by (rule input_byte [OF i num])
    have tk: "take (nat (bbf_left bbf)) bs = hd bs # take (nat (bbf_left bbf) - 1) (tl bs)"
      using left bs by (metis Suc_diff_1 take_Suc_Cons zero_less_nat_eq)
    show ?thesis
    proof (cases rule: start_spec [OF okb i num left, of out, case_names bad inside sync])
      case (bad bbf')
      have "outs = []" "\<not> ok" using run bad(2) unfolding tk by auto
      then show ?thesis using bad by (simp add: finishes_def unfold)
    next
      case (inside bbf1 a)
      text \<open>The turn consumes \<open>k\<close> bytes.\<close>
      let ?k = "min (bbf_left bbf) (min (187 - int (length a)) num)"
      let ?c = "take (nat ?k) bs"
      have la: "length a < 187" using inside(2) by (simp add: in_packet_def)
      have k: "0 < ?k" "?k \<le> num" using la num left by auto
      have hem1: "bbf_hem_mode bbf1 = ?hem" using same_stream_fields [OF inside(3)] by simp
      have l1: "0 < bbf_left bbf1" using inside(4) left by simp
      obtain bbf2 where b2: "same_stream bbf1 bbf2" "bbf_ok bbf2" "bbf_left bbf2 = bbf_left bbf - ?k"
        "bbf_num_crc_errors bbf2 = bbf_num_crc_errors bbf1"
        "up_run ?hem (Some a, bbf_crc8 bbf1) ?c = (up_of bbf2, if length a + length ?c = 187 then [0x47 # a @ ?c] else [], True)"
        "bbf_take pkt (bbf1, p, num, out) =
          Some (if bbf_left bbf2 = 0 then Inl (bbf2, Some (p + num), out @ (if length a + length ?c = 187 then [0x47 # a @ ?c] else []))
            else Inr (bbf2, p + ?k, num - ?k, out @ (if length a + length ?c = 187 then [0x47 # a @ ?c] else [])))"
        using take_spec [OF inside(2) i num l1, of out] unfolding inside(4) hem1 by blast
      let ?o = "if length a + length ?c = 187 then [0x47 # a @ ?c] else []"
      have same: "same_stream bbf bbf2" by (rule same_stream_trans [OF inside(3) b2(1)])
      have cne: "?c \<noteq> []" using k lbs by (auto simp flip: length_greater_0_conv)
      have first: "up_run ?hem (up_of bbf) ?c = (up_of bbf2, ?o, True)"
        using inside(6) [OF cne] b2(5) by simp
      have split: "take (nat (bbf_left bbf)) bs = ?c @ take (nat (bbf_left bbf2)) (drop (nat ?k) bs)"
      proof -
        have n: "nat (bbf_left bbf) = nat ?k + nat (bbf_left bbf2)" using b2(3) k by linarith
        show ?thesis unfolding n by (rule take_add)
      qed
      obtain st2 outs2 ok2 where rest: "up_run ?hem (up_of bbf2) (take (nat (bbf_left bbf2)) (drop (nat ?k) bs)) =
        (st2, outs2, ok2)" by (cases "up_run ?hem (up_of bbf2) (take (nat (bbf_left bbf2)) (drop (nat ?k) bs))")
      have res: "st = st2" "outs = ?o @ outs2" "ok = ok2"
        using run unfolding split up_run_append first by (simp_all add: rest)
      have loop: "bbf_loop pkt (bbf, p, num, out) =
          (if bbf_left bbf2 = 0 then Some (bbf2, Some (p + num), out @ ?o)
           else bbf_loop pkt (bbf2, p + ?k, num - ?k, out @ ?o))"
        unfolding unfold inside(1) by (simp add: b2(6) del: take_append)
      have hem2: "bbf_hem_mode bbf2 = ?hem" using same_stream_fields [OF same] by simp
      have err: "bbf_num_crc_errors bbf2 = bbf_num_crc_errors bbf" using b2(4) inside(5) by simp
      show ?thesis
      proof (cases "bbf_left bbf2 = 0")
        case True
        then have "st2 = up_of bbf2" "outs2 = []" "ok2" using rest by auto
        moreover have "bbf_left bbf2 = bbf_left bbf - min (bbf_left bbf) num" using True b2(3) k by linarith
        ultimately show ?thesis using loop True res same b2(2) err by (simp add: finishes_def)
      next
        case False
        have "length (drop (nat ?k) bs) < length bs" using k lbs by simp
        moreover have "input pkt (p + ?k) (num - ?k) (drop (nat ?k) bs)"
          using k by (intro input_drop [OF i]) auto
        moreover have "0 < bbf_left bbf2" using False b2(3) k by linarith
        ultimately have "finishes pkt bbf2 (p + ?k) (num - ?k) (out @ ?o) st2 outs2 ok2
            (bbf_left bbf2 - min (bbf_left bbf2) (num - ?k)) (bbf_loop pkt (bbf2, p + ?k, num - ?k, out @ ?o))"
          by (rule less.hyps [OF _ b2(2)]) (simp only: hem2 rest)
        moreover have "bbf_left bbf2 - min (bbf_left bbf2) (num - ?k) = bbf_left bbf - min (bbf_left bbf) num"
          using b2(3) k by linarith
        ultimately show ?thesis unfolding loop res if_not_P [OF False]
          by (intro finishes_trans [OF same err]) simp_all
      qed
    next
      case (sync bbf1)
      have hem1: "bbf_hem_mode bbf1 = ?hem" using same_stream_fields [OF sync(3)] by simp
      obtain st2 outs2 ok2 where rest: "up_run ?hem (up_of bbf1) (take (nat (bbf_left bbf) - 1) (tl bs)) =
        (st2, outs2, ok2)" by (cases "up_run ?hem (up_of bbf1) (take (nat (bbf_left bbf) - 1) (tl bs))")
      have res: "st = st2" "outs = outs2" "ok = ok2"
        using run rest unfolding tk by (simp_all add: sync(6))
      have okb1: "bbf_ok bbf1" by (rule in_packet_ok(1) [OF sync(2)])
      have i1: "input pkt (p + 1) (num - 1) (tl bs)" by (rule input_next [OF i num])
      have take_loop: "Option.bind (bbf_take pkt (bbf1, p + 1, num - 1, out)) (\<lambda>r. case r of
            Inl res \<Rightarrow> Some res | Inr run2 \<Rightarrow> bbf_loop pkt run2) =
          bbf_loop pkt (bbf1, p + 1, num - 1, out)" if "0 < num - 1"
      proof -
        have "bbf_packet_start pkt (bbf1, p + 1, num - 1, out) = Some (Inr (bbf1, p + 1, num - 1, out))"
          using sync(2) by (simp add: bbf_packet_start_def in_packet_def Let_def)
        moreover have "ts_buff_idx (bbf_ts bbf1) \<le> bbf_upl bbf1" using okb1 by (simp add: bbf_ok_def)
        ultimately show ?thesis using loop_unfold [OF that, of bbf1 pkt "p + 1" out] by simp
      qed
      have loop: "bbf_loop pkt (bbf, p, num, out) = Option.bind (bbf_take pkt (bbf1, p + 1, num - 1, out)) (\<lambda>r. case r of
            Inl res \<Rightarrow> Some res | Inr run2 \<Rightarrow> bbf_loop pkt run2)"
        unfolding unfold sync(1) by simp
      show ?thesis
      proof (cases "num = 1")
        case True
        then have "tl bs = []" using lbs by (cases bs) auto
        moreover have "bbf_take pkt (bbf1, p + 1, num - 1, out) = Some (Inl (bbf1, Some (p + 1), out))"
          using sync(2) True by (simp add: bbf_take_def in_packet_def Let_def)
        ultimately show ?thesis using loop rest res okb1 sync(3,4,5) True left
          by (auto simp: finishes_def)
      next
        case False
        then have more: "0 < num - 1" using num by simp
        show ?thesis
        proof (cases "bbf_left bbf1 = 0")
          case True
          have upl: "bbf_upl bbf1 = 188" "ts_buff_idx (bbf_ts bbf1) = 1" using sync(2) by (auto simp: in_packet_def)
          let ?n = "min 187 (num - 1)"
          have n: "0 < ?n" "min 0 ?n = 0" using more by auto
          have "bbf_take pkt (bbf1, p + 1, num - 1, out) =
              Some (bbf_advance bbf1 (p + 1) (num - 1) ?n 0 out)"
            using n more by (auto simp: bbf_take_def bbf_copy_def upl True Let_def)
          moreover have "bbf_advance bbf1 (p + 1) (num - 1) ?n 0 out = Inl (bbf1, Some (p + num), out)"
            using upl True by (simp add: bbf_advance_def Let_def)
          moreover have "outs2 = [] \<and> st2 = up_of bbf1 \<and> ok2" using rest True sync(4) left by simp
          ultimately show ?thesis using loop res okb1 sync(3,4,5) True num
            by (simp add: finishes_def)
        next
          case left1: False
          then have l1: "0 < bbf_left bbf1" using sync(4) left by simp
          have nl: "nat (bbf_left bbf) - 1 = nat (bbf_left bbf1)" using sync(4) by simp
          have "length (tl bs) < length bs" using bs by (metis length_Cons lessI)
          from less.hyps [OF this okb1 i1 l1, of st2 outs2 ok2 out] rest hem1 nl
          have "finishes pkt bbf1 (p + 1) (num - 1) out st2 outs2 ok2
              (bbf_left bbf1 - min (bbf_left bbf1) (num - 1)) (bbf_loop pkt (bbf1, p + 1, num - 1, out))"
            by simp
          moreover have "bbf_left bbf1 - min (bbf_left bbf1) (num - 1) = bbf_left bbf - min (bbf_left bbf) num"
            using sync(4) by linarith
          ultimately show ?thesis unfolding loop take_loop [OF more] res
            using finishes_trans [OF sync(3,5), of "p + 1" "num - 1" p num pkt out "[]"] by simp
        qed
      qed
    qed
  qed
qed

subsection \<open>The whole function\<close>

text \<open>The bytes that are skipped before the first packet of a stream.\<close>

definition bbf_to_skip :: "bbframes_stream \<Rightarrow> int" where
  "bbf_to_skip bbf = (if ts_synced (bbf_ts bbf) then 0 else bbf_syncd bbf - ts_buff_idx (bbf_ts bbf))"

definition bbf_sync :: "bbframes_stream \<Rightarrow> bbframes_stream" where
  "bbf_sync bbf = (if ts_synced (bbf_ts bbf) then bbf
     else bbf\<lparr>bbf_ts := (bbf_ts bbf)\<lparr>ts_buff_idx := 0, ts_synced := True\<rparr>,
              bbf_left := bbf_left bbf - bbf_to_skip bbf\<rparr>)"

lemma sync_same: "same_stream bbf (bbf_sync bbf)"
  by (simp add: bbf_sync_def)

lemma skip_spec:
  assumes "0 \<le> bbf_to_skip bbf" "bbf_to_skip bbf \<le> num" "bbf_to_skip bbf \<le> bbf_left bbf"
  shows "bbf_skip bbf p num = (bbf_sync bbf, Inr (p + bbf_to_skip bbf, num - bbf_to_skip bbf))"
proof (cases "ts_synced (bbf_ts bbf)")
  case False
  let ?n = "bbf_syncd bbf - ts_buff_idx (bbf_ts bbf)"
  have "min ?n num = ?n" "0 \<le> ?n" "?n \<le> bbf_left bbf" "ts_buff_idx (bbf_ts bbf) + ?n = bbf_syncd bbf"
    using assms False by (auto simp: bbf_to_skip_def)
  then show ?thesis using False
    by (simp add: bbf_skip_def bbf_sync_def bbf_to_skip_def Let_def)
qed (simp add: bbf_skip_def bbf_sync_def bbf_to_skip_def Let_def)

lemma output_spec:
  assumes ok: "bbf_ok (bbf_sync bbf)" and i: "input pkt p num bs"
    and sk: "0 \<le> bbf_to_skip bbf" "bbf_to_skip bbf \<le> num" "bbf_to_skip bbf < bbf_left bbf"
    and run: "up_run (bbf_hem_mode bbf) (up_of (bbf_sync bbf))
        (take (nat (bbf_left bbf - bbf_to_skip bbf)) (drop (nat (bbf_to_skip bbf)) bs)) = (st, outs, ok')"
  shows "finishes pkt bbf p num [] st outs ok' (bbf_left bbf - min (bbf_left bbf) num)
    (bbf_output_ts_bytes bbf pkt p num)"
proof -
  let ?k = "bbf_to_skip bbf" and ?b = "bbf_sync bbf"
  have left: "bbf_left ?b = bbf_left bbf - ?k" by (simp add: bbf_sync_def bbf_to_skip_def)
  have i2: "input pkt (p + ?k) (num - ?k) (drop (nat ?k) bs)" by (rule input_drop [OF i sk(1,2)])
  have hem: "bbf_hem_mode ?b = bbf_hem_mode bbf" using same_stream_fields [OF sync_same] by simp
  have "finishes pkt ?b (p + ?k) (num - ?k) [] st outs ok' (bbf_left ?b - min (bbf_left ?b) (num - ?k))
      (bbf_loop pkt (?b, p + ?k, num - ?k, []))"
    using loop_spec [OF ok i2, of st outs ok' "[]"] sk(3) run by (simp add: left hem)
  moreover have "bbf_left ?b - min (bbf_left ?b) (num - ?k) = bbf_left bbf - min (bbf_left bbf) num"
    unfolding left by linarith
  moreover have "bbf_output_ts_bytes bbf pkt p num = bbf_loop pkt (?b, p + ?k, num - ?k, [])"
    using skip_spec [of bbf num p] sk by (simp add: bbf_output_ts_bytes_def)
  moreover have "bbf_num_crc_errors ?b = bbf_num_crc_errors bbf" by (simp add: bbf_sync_def)
  ultimately show ?thesis
    using finishes_trans [OF sync_same, of bbf "p + ?k" "num - ?k" p num pkt "[]" "[]"] by simp
qed

lemma sync_synced: "ts_synced (bbf_ts bbf) \<Longrightarrow> bbf_sync bbf = bbf \<and> bbf_to_skip bbf = 0"
  by (simp add: bbf_sync_def bbf_to_skip_def)

subsection \<open>The data field of a frame\<close>

text \<open>
  How a modulator puts transport packets into a data field: without the sync byte in high
  efficiency mode, with the checksum of the previous packet in its place in normal mode.
\<close>

fun ups_enc :: "bool \<Rightarrow> byte \<Rightarrow> byte list list \<Rightarrow> byte list" where
  "ups_enc hem c [] = []"
| "ups_enc hem c (u # us) = (if hem then tl u else c # tl u) @ ups_enc hem (compute_crc8 (tl u)) us"

definition ts_packet :: "byte list \<Rightarrow> bool" where
  "ts_packet u \<longleftrightarrow> length u = 188 \<and> hd u = 0x47"

lemma compute_as_extend: "extend_crc8 0 p = uint (compute_crc8 p)"
  by (simp add: extend_crc8_def compute_crc8_def)

lemma up_run_one:
  assumes "ts_packet u"
  shows "up_run True (None, crc) (tl u) = ((None, crc), [u], True)"
    "crc = uint c \<or> crc < 0 \<Longrightarrow>
     up_run False (None, crc) (c # tl u) = ((None, uint (compute_crc8 (tl u))), [u], True)"
proof -
  have u: "tl u \<noteq> []" "length (tl u) = 187" "0x47 # tl u = u"
    using assms by (cases u; auto simp: ts_packet_def simp flip: length_greater_0_conv)+
  show "up_run True (None, crc) (tl u) = ((None, crc), [u], True)"
    using up_run_chunk [of "[]" "tl u" True crc] u by (simp add: up_run_hem_start)
  show "up_run False (None, crc) (c # tl u) = ((None, uint (compute_crc8 (tl u))), [u], True)"
    if "crc = uint c \<or> crc < 0"
    using that up_run_chunk [of "[]" "tl u" False 0] u by (auto simp: compute_as_extend)
qed

lemma up_run_encoded:
  "list_all ts_packet us \<Longrightarrow> hem \<or> crc = uint c \<or> crc < 0 \<Longrightarrow>
   \<exists>crc'. up_run hem (None, crc) (ups_enc hem c us) = ((None, crc'), us, True)"
proof (induction us arbitrary: crc c)
  case (Cons u us)
  let ?c = "compute_crc8 (tl u)"
  let ?crc = "if hem then crc else uint ?c"
  have u: "ts_packet u" using Cons.prems by auto
  have one: "up_run hem (None, crc) (if hem then tl u else c # tl u) = ((None, ?crc), [u], True)"
    using up_run_one(1) [OF u, of crc] up_run_one(2) [OF u, of crc c] Cons.prems(2)
    by (cases hem) (simp_all del: up_run.simps)
  have "hem \<or> ?crc = uint ?c \<or> ?crc < 0" by simp
  then obtain crc' where "up_run hem (None, ?crc) (ups_enc hem ?c us) = ((None, crc'), us, True)"
    using Cons.IH [of ?crc ?c] Cons.prems(1) by auto
  then have "up_run hem (None, crc) (ups_enc hem c (u # us)) = ((None, crc'), u # us, True)"
    by (simp only: ups_enc.simps up_run_append one) simp
  then show ?case by blast
qed simp

text \<open>
  A stream of frames: each has a header, which \<open>parse_bbheader\<close> reads, and a data field that
  arrives in pieces.
\<close>

type_synonym bbframe = "byte list \<times> byte list list"

fun bbf_chunks :: "bbframes_stream \<Rightarrow> byte list list \<Rightarrow> (bbframes_stream \<times> byte list list) option" where
  "bbf_chunks bbf [] = Some (bbf, [])"
| "bbf_chunks bbf (c # cs) =
     Option.bind (bbf_output_ts_bytes bbf c 0 (int (length c))) (\<lambda>(bbf1, p, out).
       if p = None then None
       else map_option (\<lambda>(bbf2, out2). (bbf2, out @ out2)) (bbf_chunks bbf1 cs))"

fun bbf_frames :: "bool \<Rightarrow> int \<Rightarrow> bbframes_stream \<Rightarrow> bbframe list \<Rightarrow> (bbframes_stream \<times> byte list list) option" where
  "bbf_frames hem isi bbf [] = Some (bbf, [])"
| "bbf_frames hem isi bbf ((hdr, cs) # fs) =
     Option.bind (bbf_chunks (parse_bbheader bbf hem isi hdr) cs) (\<lambda>(bbf1, out).
       map_option (\<lambda>(bbf2, out2). (bbf2, out @ out2)) (bbf_frames hem isi bbf1 fs))"

definition bbframe_ok :: "bool \<Rightarrow> bbframe \<Rightarrow> bool" where
  "bbframe_ok hem f \<longleftrightarrow> (case f of (hdr, cs) \<Rightarrow>
     be16 hdr 4 div 8 = int (length (concat cs)) \<and> [] \<notin> set cs \<and> (hem \<or> be16 hdr 2 div 8 = 188))"

lemma header_ok:
  assumes "bbf_ok bbf" "hem \<or> be16 hdr 2 div 8 = 188"
  shows "bbf_ok (parse_bbheader bbf hem isi hdr)" "up_of (parse_bbheader bbf hem isi hdr) = up_of bbf"
    "bbf_left (parse_bbheader bbf hem isi hdr) = be16 hdr 4 div 8"
    "bbf_hem_mode (parse_bbheader bbf hem isi hdr) = hem"
    "bbf_ts (parse_bbheader bbf hem isi hdr) = bbf_ts bbf"
  using assms by (auto simp: parse_bbheader_def bbf_ok_def up_of_def Let_def)

text \<open>The stream is in step with the packets, as it stays after the first \<open>syncd\<close> bytes.\<close>

definition in_step :: "bbframes_stream \<Rightarrow> bool" where
  "in_step bbf \<longleftrightarrow> bbf_ok bbf \<and> ts_synced (bbf_ts bbf)"

lemma up_run_prefix_ok:
  assumes "up_run hem st (bs @ cs) = (st2, outs, True)"
  obtains st1 o1 o2 where "up_run hem st bs = (st1, o1, True)" "up_run hem st1 cs = (st2, o2, True)"
    "outs = o1 @ o2"
  using assms by (auto simp: up_run_append split: prod.splits if_splits)

lemma input_all: "input c 0 (int (length c)) c"
  unfolding input_def by (intro exI [of _ "[]"]) simp

lemma chunks_spec:
  assumes "in_step bbf" "bbf_left bbf = int (length (concat cs))" "[] \<notin> set cs"
    "up_run (bbf_hem_mode bbf) (up_of bbf) (concat cs) = (st, outs, True)"
  shows "\<exists>bbf'. bbf_chunks bbf cs = Some (bbf', outs) \<and> in_step bbf' \<and> same_stream bbf bbf' \<and>
    up_of bbf' = st \<and> bbf_left bbf' = 0"
  using assms
proof (induction cs arbitrary: bbf outs)
  case Nil
  then show ?case by auto
next
  case (Cons c cs)
  obtain st1 o1 o2 where r: "up_run (bbf_hem_mode bbf) (up_of bbf) c = (st1, o1, True)"
    "up_run (bbf_hem_mode bbf) st1 (concat cs) = (st, o2, True)" "outs = o1 @ o2"
    using Cons.prems(4) by (auto elim: up_run_prefix_ok)
  have c: "0 < length c" using Cons.prems(3) by auto
  have s: "bbf_sync bbf = bbf" "bbf_to_skip bbf = 0"
    using Cons.prems(1) sync_synced by (auto simp: in_step_def)
  have left: "0 < bbf_left bbf" "take (nat (bbf_left bbf)) c = c"
    "bbf_left bbf - min (bbf_left bbf) (int (length c)) = int (length (concat cs))"
    using Cons.prems(2) c by (simp_all del: length_greater_0_conv add: add_pos_nonneg)
  have "finishes c bbf 0 (int (length c)) [] st1 o1 True (int (length (concat cs)))
      (bbf_output_ts_bytes bbf c 0 (int (length c)))"
    using output_spec [of bbf c 0 "int (length c)" c st1 o1 True] input_all [of c] Cons.prems(1) s left r(1)
    by (simp add: in_step_def)
  then obtain b1 where b1: "bbf_output_ts_bytes bbf c 0 (int (length c)) = Some (b1, Some (int (length c)), o1)"
    "same_stream bbf b1" "bbf_ok b1" "up_of b1 = st1" "bbf_left b1 = int (length (concat cs))"
    by (auto simp: finishes_def)
  have step: "in_step b1" using Cons.prems(1) b1(3) same_stream_fields(7) [OF b1(2)] by (simp add: in_step_def)
  have "up_run (bbf_hem_mode b1) (up_of b1) (concat cs) = (st, o2, True)"
    using r(2) b1(4) same_stream_fields(2) [OF b1(2)] by simp
  then obtain b2 where "bbf_chunks b1 cs = Some (b2, o2)" "in_step b2" "same_stream b1 b2" "up_of b2 = st" "bbf_left b2 = 0"
    using Cons.IH [OF step b1(5)] Cons.prems(3) by auto
  then show ?case using b1(1) r(3) same_stream_trans [OF b1(2)] by auto
qed

lemma frames_spec:
  assumes "in_step bbf" "list_all (bbframe_ok hem) fs"
    "up_run hem (up_of bbf) (concat (map (\<lambda>f. concat (snd f)) fs)) = (st, outs, True)"
  shows "\<exists>bbf'. bbf_frames hem isi bbf fs = Some (bbf', outs) \<and> in_step bbf' \<and> up_of bbf' = st"
  using assms
proof (induction fs arbitrary: bbf outs)
  case Nil
  then show ?case by auto
next
  case (Cons f fs)
  obtain hdr cs where f: "f = (hdr, cs)" by (cases f)
  let ?b = "parse_bbheader bbf hem isi hdr"
  have fok: "be16 hdr 4 div 8 = int (length (concat cs))" "[] \<notin> set cs" "hem \<or> be16 hdr 2 div 8 = 188"
    using Cons.prems(2) by (auto simp: f bbframe_ok_def)
  have ok: "bbf_ok bbf" "ts_synced (bbf_ts bbf)" using Cons.prems(1) by (auto simp: in_step_def)
  note h = header_ok [OF ok(1) fok(3), of isi]
  obtain st1 o1 o2 where r: "up_run hem (up_of bbf) (concat cs) = (st1, o1, True)"
    "up_run hem st1 (concat (map (\<lambda>f. concat (snd f)) fs)) = (st, o2, True)" "outs = o1 @ o2"
    using Cons.prems(3) by (auto simp: f elim: up_run_prefix_ok)
  have "in_step ?b" using h ok by (simp add: in_step_def)
  then obtain b1 where b1: "bbf_chunks ?b cs = Some (b1, o1)" "in_step b1" "up_of b1 = st1"
    using chunks_spec [of ?b cs st1 o1] h fok r(1) by auto
  obtain b2 where "bbf_frames hem isi b1 fs = Some (b2, o2)" "in_step b2" "up_of b2 = st"
    using Cons.IH [OF b1(2)] Cons.prems(2) r(2) b1(3) by auto
  then show ?case using b1(1) r(3) by (auto simp: f)
qed

subsection \<open>Properties\<close>

definition demo_ts :: ts_stream where
  "demo_ts = \<lparr>ts_buff_idx = 0, ts_synced = False, ts_buff = replicate 200 0\<rparr>"

text \<open>A stream as \<open>bbframes_stream_init\<close> leaves it.\<close>

definition demo_bbf :: bbframes_stream where
  "demo_bbf = bbframes_stream_reset \<lparr>bbf_isi = 0, bbf_refcount = 1, parent_embedded_stream = 0,
     bbf_ts = demo_ts, bbf_feeds = 0, bbf_matype = 0, bbf_upl = 0, bbf_dfl = 0, bbf_syncd = 0,
     bbf_issy = 0, bbf_crc8 = 0, bbf_left = 0, bbf_syncbyte = 0, bbf_synced = False,
     bbf_hem_mode = False, bbf_num_crc_errors = 0\<rparr>"

text \<open>A stream in step, between two packets of 188 bytes.\<close>

definition demo_running :: bbframes_stream where
  "demo_running = (parse_bbheader demo_bbf True 0 (replicate 10 0))\<lparr>bbf_ts := demo_ts\<lparr>ts_synced := True\<rparr>,
     bbf_left := 300\<rparr>"

lemma demo_in_step: "in_step demo_running" "up_of demo_running = (None, - 1)"
  by (simp_all add: in_step_def bbf_ok_def demo_running_def parse_bbheader_def Let_def demo_ts_def up_of_def
      demo_bbf_def bbframes_stream_reset_def)

text \<open>
  C19.  The block-wise extraction of transport packets from a baseband frame does what a
  byte-wise reading of the standard says.  The header must announce packets of 188 bytes, the
  packet buffer must be in order when the call starts (as it is after the reset and after every
  call), and of the bytes to skip before the first packet there must be no more than the call
  gets and fewer than the data field still has.  Then, from any position in a packet and for any
  number of bytes, the call skips those bytes, hands out the packets completed by the rest of the
  data field, ignores the padding after the data field, consumes all its input, keeps what is
  needed to go on with the next piece, stays within its buffers and ends; and it fails, after the
  packets before, exactly when a sync byte is not the checksum of the packet that precedes it.
\<close>

theorem bbf_output_correct:
  assumes "bbf_ok (bbf_sync bbf)" "input pkt p num bs"
    "0 \<le> bbf_to_skip bbf" "bbf_to_skip bbf \<le> num" "bbf_to_skip bbf < bbf_left bbf"
    "up_run (bbf_hem_mode bbf) (up_of (bbf_sync bbf))
        (take (nat (bbf_left bbf - bbf_to_skip bbf)) (drop (nat (bbf_to_skip bbf)) bs)) = (st, outs, ok)"
  shows "\<exists>bbf'. bbf_output_ts_bytes bbf pkt p num = Some (bbf', if ok then Some (p + num) else None, outs) \<and>
    (ok \<longrightarrow> bbf_ok bbf' \<and> up_of bbf' = st \<and> bbf_left bbf' = bbf_left bbf - min (bbf_left bbf) num) \<and>
    bbf_num_crc_errors bbf' = bbf_num_crc_errors bbf + (if ok then 0 else 1)"
  using output_spec [OF assms] by (auto simp: finishes_def)

theorem bbf_output_correct_witness:
  "\<exists>bbf'. bbf_output_ts_bytes demo_running (replicate 184 9) 4 180 = Some (bbf', Some (4 + 180), []) \<and>
    up_of bbf' = (Some (replicate 180 9), - 1)"
proof -
  have len: "length ([] :: byte list) + length (replicate 180 (9 :: byte)) \<le> 187" by simp
  have run: "up_run True (None, - 1) (replicate 180 9) = ((Some (replicate 180 9), - 1), [], True)"
    using up_run_chunk [OF len, of True "- 1"] up_run_hem_start [of "replicate 180 9" "- 1"] by simp
  have i: "input (replicate 184 9) 4 180 (replicate 180 9)"
    unfolding input_def
    by (intro exI [of _ "replicate 4 9"] exI [of _ "[]"]) (simp flip: replicate_add)
  have s: "bbf_sync demo_running = demo_running" "bbf_to_skip demo_running = 0"
    using sync_synced demo_in_step(1) by (auto simp: in_step_def)
  have f: "bbf_hem_mode demo_running" "bbf_left demo_running = 300"
    by (simp_all add: demo_running_def parse_bbheader_def Let_def)
  show ?thesis
    using bbf_output_correct [of demo_running, OF _ i, of "(Some (replicate 180 9), - 1)" "[]" True]
      demo_in_step s f run by (auto simp: in_step_def)
qed

text \<open>
  C25.  What a modulator encodes is what the receiver delivers: transport packets laid out
  over any number of frames with headers, in high efficiency or in normal mode with
  checksums, cut at arbitrary places between frames and between the calls inside a frame,
  come out unchanged, all of them, in order, with no other packet.
\<close>

theorem bbframes_roundtrip:
  assumes "in_step bbf" "up_of bbf = (None, crc)" "hem \<or> crc = uint c \<or> crc < 0"
    "list_all ts_packet us" "list_all (bbframe_ok hem) fs"
    "concat (map (\<lambda>f. concat (snd f)) fs) = ups_enc hem c us"
  shows "\<exists>bbf'. bbf_frames hem isi bbf fs = Some (bbf', us) \<and> in_step bbf'"
proof -
  obtain crc' where "up_run hem (up_of bbf) (concat (map (\<lambda>f. concat (snd f)) fs)) = ((None, crc'), us, True)"
    using up_run_encoded [OF assms(4,3)] assms(2,6) by auto
  from frames_spec [OF assms(1,5) this] show ?thesis by blast
qed

text \<open>Two frames in normal mode whose boundary is inside the first of two packets.\<close>

definition demo_packet :: "byte \<Rightarrow> byte list" where
  "demo_packet b = 0x47 # replicate 187 b"

theorem bbframes_roundtrip_witness:
  "\<exists>bbf'. bbf_frames False 0 demo_running
      [([0, 0, 0x05, 0xe0, 0x03, 0x20, 0x47, 0, 0, 0], [take 100 (ups_enc False 0 [demo_packet 1, demo_packet 2])]),
       ([0, 0, 0x05, 0xe0, 0x08, 0xa0, 0x47, 0, 0, 0],
        [take 50 (drop 100 (ups_enc False 0 [demo_packet 1, demo_packet 2])),
         drop 150 (ups_enc False 0 [demo_packet 1, demo_packet 2])])] =
    Some (bbf', [demo_packet 1, demo_packet 2]) \<and> in_step bbf'"
proof (rule bbframes_roundtrip)
  let ?d = "ups_enc False 0 [demo_packet 1, demo_packet 2]"
  have len: "length ?d = 376" by (simp add: demo_packet_def)
  show "in_step demo_running" "up_of demo_running = (None, - 1)" by (rule demo_in_step)+
  show "list_all ts_packet [demo_packet 1, demo_packet 2]" by (simp add: ts_packet_def demo_packet_def)
  have "take 100 ?d \<noteq> []" "take 50 (drop 100 ?d) \<noteq> []" "drop 150 ?d \<noteq> []"
    using len by (auto simp flip: length_greater_0_conv simp del: ups_enc.simps)
  then show "list_all (bbframe_ok False)
      [([0, 0, 0x05, 0xe0, 0x03, 0x20, 0x47, 0, 0, 0], [take 100 ?d]),
       ([0, 0, 0x05, 0xe0, 0x08, 0xa0, 0x47, 0, 0, 0], [take 50 (drop 100 ?d), drop 150 ?d])]"
    using len by (simp add: bbframe_ok_def be16_def nth_Cons' del: ups_enc.simps)
  have "take 50 (drop 100 ?d) @ drop 150 ?d = drop 100 ?d"
    using append_take_drop_id [of 50 "drop 100 ?d"] by (simp del: append_take_drop_id ups_enc.simps)
  then show "concat (map (\<lambda>f. concat (snd f))
      [([0, 0, 0x05, 0xe0, 0x03, 0x20, 0x47, 0, 0, 0], [take 100 ?d]),
       ([0, 0, 0x05, 0xe0, 0x08, 0xa0, 0x47, 0, 0, 0], [take 50 (drop 100 ?d), drop 150 ?d])]) = ?d"
    by (simp del: ups_enc.simps)
qed simp

text \<open>
  In normal mode a damaged packet is noticed at the next one: if any single byte of a
  packet was changed on the way, the extraction fails at the checksum that follows, with
  no packet after the damaged one.
\<close>

theorem damaged_packet_noticed:
  assumes "length (pre @ [x] @ post) = 187" "x \<noteq> y"
    and good: "bbf_ok bbf" "up_of bbf = (None, crc)" "crc < 0 \<or> crc = uint c"
    and mode: "\<not> bbf_hem_mode bbf" "ts_synced (bbf_ts bbf)" "188 < bbf_left bbf"
    and i: "input pkt p num ((c # pre @ [y] @ post) @ compute_crc8 (pre @ [x] @ post) # rest)"
  shows "\<exists>bbf'. bbf_output_ts_bytes bbf pkt p num = Some (bbf', None, [0x47 # pre @ [y] @ post]) \<and>
    bbf_num_crc_errors bbf' = bbf_num_crc_errors bbf + 1"
proof -
  let ?u = "0x47 # pre @ [y] @ post" and ?bad = "compute_crc8 (pre @ [y] @ post)"
  let ?bs = "(c # pre @ [y] @ post) @ compute_crc8 (pre @ [x] @ post) # rest"
  have "ts_packet ?u" using assms(1) by (simp add: ts_packet_def)
  from up_run_one(2) [OF this, of crc c] good(3)
  have one: "up_run False (None, crc) (c # pre @ [y] @ post) = ((None, uint ?bad), [?u], True)" by auto
  have "compute_crc8 (pre @ [x] @ post) \<noteq> ?bad"
    using crc8.burst_detected [of "[x]" "[y]" 0 pre post] assms(2) by (simp add: compute_crc8_def crc8_step_table)
  then have two: "up_run False (None, uint ?bad) (compute_crc8 (pre @ [x] @ post) # cs) = ((None, uint ?bad), [], False)" for cs
    by (auto simp: word_uint_eq_iff)
  have s: "bbf_sync bbf = bbf" "bbf_to_skip bbf = 0" using sync_synced mode(2) by auto
  obtain l where l: "nat (bbf_left bbf) = length (c # pre @ [y] @ post) + Suc l"
  proof -
    have "188 < nat (bbf_left bbf)" using mode(3) by simp
    then have "\<exists>l. nat (bbf_left bbf) = 188 + Suc l"
      by (intro exI [of _ "nat (bbf_left bbf) - 189"]) simp
    then show ?thesis using that assms(1) by auto
  qed
  then have "take (nat (bbf_left bbf)) ?bs = (c # pre @ [y] @ post) @ compute_crc8 (pre @ [x] @ post) # take l rest"
    by simp
  then have "up_run False (None, crc) (take (nat (bbf_left bbf)) ?bs) = ((None, uint ?bad), [?u], False)"
    using one two by (simp only: up_run_append) simp
  moreover have "0 \<le> num" using input_num [OF i] by simp
  ultimately show ?thesis
    using output_spec [of bbf pkt p num ?bs "(None, uint ?bad)" "[?u]" False] i good mode s
    by (auto simp: finishes_def)
qed


theorem damaged_packet_noticed_witness:
  "\<exists>bbf'. bbf_output_ts_bytes (demo_running\<lparr>bbf_hem_mode := False\<rparr>)
      ((0 # [] @ [6] @ replicate 186 0) @ compute_crc8 ([] @ [5] @ replicate 186 0) # []) 0 189 =
    Some (bbf', None, [0x47 # [] @ [6] @ replicate 186 0]) \<and>
    bbf_num_crc_errors bbf' = bbf_num_crc_errors (demo_running\<lparr>bbf_hem_mode := False\<rparr>) + 1"
proof (rule damaged_packet_noticed)
  show "input ((0 # [] @ [6] @ replicate 186 0) @ compute_crc8 ([] @ [5] @ replicate 186 0) # []) 0 189
      ((0 # [] @ [6] @ replicate 186 0) @ compute_crc8 ([] @ [5] @ replicate 186 0) # [])"
    unfolding input_def by (intro exI [of _ "[]"]) simp
  show "bbf_ok (demo_running\<lparr>bbf_hem_mode := False\<rparr>)" "up_of (demo_running\<lparr>bbf_hem_mode := False\<rparr>) = (None, - 1)"
    "\<not> bbf_hem_mode (demo_running\<lparr>bbf_hem_mode := False\<rparr>)"
    "ts_synced (bbf_ts (demo_running\<lparr>bbf_hem_mode := False\<rparr>))"
    "188 < bbf_left (demo_running\<lparr>bbf_hem_mode := False\<rparr>)"
    using demo_in_step by (simp_all add: in_step_def bbf_ok_def up_of_def demo_running_def demo_ts_def)
qed simp_all

text \<open>
  A position in the packet buffer from which no byte can be taken: the packet is complete
  without having been handed out, or it does not fit the buffer.
\<close>

definition stuck_at :: "bbframes_stream \<Rightarrow> int \<Rightarrow> bool" where
  "stuck_at bbf num \<longleftrightarrow> ts_synced (bbf_ts bbf) \<and> 0 < num \<and> 0 < ts_buff_idx (bbf_ts bbf) \<and>
     ts_buff_idx (bbf_ts bbf) < 200 \<and>
     (ts_buff_idx (bbf_ts bbf) = bbf_upl bbf \<or>
      (ts_buff_idx (bbf_ts bbf) < bbf_upl bbf \<and> 0 < bbf_left bbf \<and>
       200 \<le> ts_buff_idx (bbf_ts bbf) + min (bbf_left bbf) (min (bbf_upl bbf - ts_buff_idx (bbf_ts bbf)) num)))"

lemma stuck_output:
  assumes "stuck_at bbf num"
  shows "bbf_output_ts_bytes bbf pkt p num = Some (bbf, Some p, [])"
proof -
  note a = assms [unfolded stuck_at_def]
  have start: "bbf_packet_start pkt (bbf, p, num, []) = Some (Inr (bbf, p, num, []))"
    using a by (simp add: bbf_packet_start_def Let_def)
  have "bbf_take pkt (bbf, p, num, []) = Some (Inl (bbf, Some p, []))"
  proof (cases "ts_buff_idx (bbf_ts bbf) = bbf_upl bbf")
    case True
    then show ?thesis using a by (simp add: bbf_take_def Let_def)
  next
    case False
    let ?n = "min (bbf_upl bbf - ts_buff_idx (bbf_ts bbf)) num"
    have n: "?n \<noteq> 0" "0 < min (bbf_left bbf) ?n" "200 \<le> ts_buff_idx (bbf_ts bbf) + min (bbf_left bbf) ?n"
      using False a by auto
    then have "bbf_copy pkt bbf p (min (bbf_left bbf) ?n) = Some (Inl (Some p))"
      using a by (simp add: bbf_copy_def ge_sizeof_def Let_def)
    then show ?thesis using n(1) by (simp add: bbf_take_def Let_def)
  qed
  moreover have "bbf_skip bbf p num = (bbf, Inr (p, num))" using a by (simp add: bbf_skip_def)
  moreover have "ts_buff_idx (bbf_ts bbf) \<le> bbf_upl bbf" using a by auto
  ultimately show ?thesis
    using loop_unfold [of num bbf pkt p "[]"] a start by (simp add: bbf_output_ts_bytes_def)
qed

text \<open>
  The user packet length in the header is not checked.  A header that announces packets
  longer than the buffer, or of a single byte, brings the function into a state where
  it returns without consuming any input or changing any state, however often it is called.
\<close>

theorem bad_packet_length_stuck:
  assumes "stuck_at bbf num"
  shows "bbf_output_ts_bytes bbf pkt p num = Some (bbf, Some p, [])"
  by (rule stuck_output [OF assms])

theorem bad_packet_length_stuck_witness:
  "bbf_output_ts_bytes ((parse_bbheader demo_running False 0 [0, 0, 0x20, 0, 0x20, 0, 0x47, 0, 0, 0])
      \<lparr>bbf_ts := demo_ts\<lparr>ts_synced := True, ts_buff_idx := 50\<rparr>\<rparr>) (replicate 188 0) 4 184 =
    Some ((parse_bbheader demo_running False 0 [0, 0, 0x20, 0, 0x20, 0, 0x47, 0, 0, 0])
      \<lparr>bbf_ts := demo_ts\<lparr>ts_synced := True, ts_buff_idx := 50\<rparr>\<rparr>, Some 4, [])"
  by (rule bad_packet_length_stuck) (simp add: stuck_at_def parse_bbheader_def Let_def be16_def demo_ts_def nth_Cons')

text \<open>
  An example: a header that announces user packets of length zero corrupts memory.  After one such
  frame, with an empty data field and a payload of zero bytes, the position in the packet buffer
  is negative; the data of the next, quite ordinary frame is then written before the buffer.
\<close>

theorem zero_packet_length_corrupts:
  "\<exists>bbf out. bbf_output_ts_bytes (parse_bbheader demo_bbf False 0 (replicate 10 0)) (replicate 174 0) 0 174 =
      Some (bbf, Some 174, out) \<and> ts_buff_idx (bbf_ts bbf) = - 29 \<and>
    bbf_output_ts_bytes (parse_bbheader bbf True 0 [0, 0, 0, 0, 0x1e, 0xf8, 0x47, 0, 0, 0])
      (replicate 174 0) 0 174 = None"
proof -
  define r where "r = bbf_output_ts_bytes (parse_bbheader demo_bbf False 0 (replicate 10 0)) (replicate 174 0) 0 174"
  have "(case r of None \<Rightarrow> False | Some (bbf, p, out) \<Rightarrow> p = Some 174 \<and> ts_buff_idx (bbf_ts bbf) = - 29 \<and>
      (bbf_output_ts_bytes (parse_bbheader bbf True 0 [0, 0, 0, 0, 0x1e, 0xf8, 0x47, 0, 0, 0])
      (replicate 174 0) 0 174) = None)"
    unfolding r_def by code_simp
  then show ?thesis unfolding r_def by (auto split: option.splits)
qed

end
