(* ===== verification/EmbeddedStreams.thy ===== *)
theory EmbeddedStreams
  imports BBFrames
begin

unbundle bit_operations_syntax

text \<open>
  Baseband frames embedded in a transport stream (neumo-dvb-demux.c): the format of the stid135
  chip (\<open>stid_stream_add_packet\<close>, \<open>get_stid_header\<close>) and T2-MI (\<open>t2mi_stream_add_packet\<close>,
  \<open>get_t2mi_packet_header\<close>, \<open>get_t2mi_bbheader\<close>), with the common part \<open>struct embedded_stream\<close>.

  The streams of one embedding are objects of a heap; the xarray \<open>bbf_streams\<close> is an association
  list from stream numbers to object numbers, and \<open>current_bbf\<close> an object number, so that a
  pointer to an object that is gone gives \<^const>\<open>None\<close>, as an access outside a packet does.  The
  functions return the transport packets they hand out, each with the feeds it goes to.
\<close>

type_synonym bbf_heap = "nat \<Rightarrow> bbframes_stream option"

type_synonym handed_out = "(nat \<times> byte list) list"

datatype neumo_embedded_stream_type =
  EMBEDDED_STREAM_TYPE_UNKNOWN | EMBEDDED_STREAM_TYPE_STID | EMBEDDED_STREAM_TYPE_T2MI

record embedded_stream =
  embedded_stream_type :: neumo_embedded_stream_type
  embedding_pid :: int
  bbf_streams :: "(int \<times> nat) list"
  emb_refcount :: nat
  emb_parent_feeds :: nat
  payload_len :: int
  packet_count :: int
  bbf_header_crc8 :: int
  current_isi :: int
  current_bbf :: "nat option"
  cc_counter :: int
  isi_plp_bitset :: "u32 list"
  high_rolloff_mode :: "u32 list"
  num_streams :: int
  matypes :: "byte list"

record stid_stream =
  stid_emb :: embedded_stream
  stid_section_length :: int

record t2mi_stream =
  t2mi_emb :: embedded_stream
  default_isi :: int
  packet_type :: int
  superframe_idx :: int
  crc_idx :: int
  t2mi_synced :: bool
  frame_idx :: int
  plp_id :: int
  packet_header_isi :: int
  intl_frame_start :: byte
  t2mi_crc32 :: u32
  t2mi_payload_bytes_left :: int
  bbheader_bytes_left :: int
  header_idx :: int
  bbheader_idx :: int
  t2mi_buff :: "byte list"
  num_cc_errors :: int
  num_crc8_errors :: int
  num_crc32_errors :: int

subsection \<open>The common part\<close>

fun reset_bbfs :: "bbf_heap \<Rightarrow> (int \<times> nat) list \<Rightarrow> bbf_heap option" where
  "reset_bbfs h [] = Some h"
| "reset_bbfs h ((i, b) # bs) =
     Option.bind (h b) (\<lambda>bbf. reset_bbfs (h(b \<mapsto> bbframes_stream_reset bbf)) bs)"

definition embedded_stream_reset ::
    "bool \<Rightarrow> bbf_heap \<Rightarrow> embedded_stream \<Rightarrow> (bbf_heap \<times> embedded_stream) option" where
  "embedded_stream_reset full_reset h emb =
     (let emb1 = emb\<lparr>payload_len := 0, packet_count := - 1, bbf_header_crc8 := - 1, current_isi := - 1,
            cc_counter := - 1, current_bbf := None\<rparr>;
          emb2 = (if full_reset
            then emb1\<lparr>isi_plp_bitset := replicate 8 0, high_rolloff_mode := replicate 8 0,
                   num_streams := 0, matypes := replicate 256 0\<rparr>
            else emb1)
      in map_option (\<lambda>h'. (h', emb2)) (reset_bbfs h (bbf_streams emb)))"

text \<open>A set bit of one of the 256-bit sets.\<close>

definition in_bitset :: "u32 list \<Rightarrow> nat \<Rightarrow> bool" where
  "in_bitset bs i \<longleftrightarrow> bit (bs ! (i div 32)) (i mod 32)"

definition add_bitset :: "u32 list \<Rightarrow> nat \<Rightarrow> u32 list" where
  "add_bitset bs i = bs[i div 32 := bs ! (i div 32) OR push_bit (i mod 32) 1]"

definition embedded_stream_set_matype :: "embedded_stream \<Rightarrow> byte \<Rightarrow> byte \<Rightarrow> embedded_stream" where
  "embedded_stream_set_matype emb stream_id matype =
     (let i = unat stream_id
      in if in_bitset (isi_plp_bitset emb) i
         then let ro = matype AND 3; old_ro = matypes emb ! i AND 3
              in if ro = 3
                 then (if old_ro \<noteq> 3
                       then emb\<lparr>high_rolloff_mode := add_bitset (high_rolloff_mode emb) i\<rparr> else emb)
                 else (if old_ro = 3
                       then emb\<lparr>high_rolloff_mode := add_bitset (high_rolloff_mode emb) i,
                         matypes := (matypes emb)[i := matype]\<rparr> else emb)
         else emb\<lparr>num_streams := num_streams emb + 1, matypes := (matypes emb)[i := matype],
                isi_plp_bitset := add_bitset (isi_plp_bitset emb) i\<rparr>)"

definition ts_packet_pid :: "byte list \<Rightarrow> int" where
  "ts_packet_pid packet = uint (packet ! 1 AND 0x1f) * 256 + uint (packet ! 2)"

text \<open>
  The ten bytes of a baseband header, and its checksum test: the difference to the checksum is
  the mode, unless it is neither 0 nor 1.
\<close>

definition bbheader_mode :: "byte list \<Rightarrow> byte" where
  "bbheader_mode buff = compute_crc8 (take 9 buff) XOR buff ! 9"

subsection \<open>The format of the stid135\<close>

definition stid_stream_reset :: "bbf_heap \<Rightarrow> stid_stream \<Rightarrow> (bbf_heap \<times> stid_stream) option" where
  "stid_stream_reset h stid = map_option (\<lambda>(h', emb). (h', stid\<lparr>stid_emb := emb, stid_section_length := 0\<rparr>))
     (embedded_stream_reset False h (stid_emb stid))"

text \<open>The heap, the stream, the new pointer, and whether a frame starts.\<close>

definition get_stid_header ::
    "bbf_heap \<Rightarrow> stid_stream \<Rightarrow> byte list \<Rightarrow> int \<Rightarrow> (bbf_heap \<times> stid_stream \<times> int \<times> bool) option" where
  "get_stid_header h stid packet p = do {
     hdr \<leftarrow> bytes_at packet p 4;
     let is_start = (hdr ! 3 = 0xB8);
     let stid1 = stid\<lparr>stid_emb := (stid_emb stid)\<lparr>packet_count := (if is_start then 0 else uint (hdr ! 3))\<rparr>,
                   stid_section_length := uint (hdr ! 2)\<rparr>;
     if \<not> is_start then Some (h, stid1, p + 4, False)
     else do {
       buff \<leftarrow> bytes_at packet (p + 4) 10;
       let hem_mode = bbheader_mode buff;
       if hem_mode AND NOT 1 \<noteq> 0 then Some (h, stid1, p + 4, False)
       else do {
         let matype = buff ! 0;
         let emb = embedded_stream_set_matype (stid_emb stid1) (buff ! 1) matype;
         let isi = (if bit matype 5 then 256 else uint (buff ! 1));
         let emb1 = (if isi \<noteq> current_isi emb
                     then emb\<lparr>current_bbf := map_of (bbf_streams emb) isi, current_isi := isi\<rparr> else emb);
         let stid2 = stid1\<lparr>stid_emb := emb1\<rparr>;
         (case current_bbf emb1 of
            None \<Rightarrow> Some (h, stid2, p + 4, False)
          | Some b \<Rightarrow> do {
              bbf \<leftarrow> h b;
              Some (h(b \<mapsto> parse_bbheader bbf (hem_mode \<noteq> 0) isi buff), stid2, p + 14, True) }) } } }"

text \<open>The payload of a packet, once the headers are read.\<close>

definition stid_payload ::
    "bbf_heap \<Rightarrow> stid_stream \<Rightarrow> byte list \<Rightarrow> int \<Rightarrow> bool \<Rightarrow> (bbf_heap \<times> stid_stream \<times> handed_out) option" where
  "stid_payload h stid packet p bbframe_starts =
     (case current_bbf (stid_emb stid) of
        None \<Rightarrow> Some (h, stid, [])
      | Some b \<Rightarrow> do {
          bbf \<leftarrow> h b;
          if \<not> bbf_synced bbf \<and> \<not> bbframe_starts then Some (h, stid, [])
          else do {
            let bbf1 = bbf\<lparr>bbf_synced := True\<rparr>;
            let n = 188 - p;
            if n \<le> 0 then Some (h(b \<mapsto> bbf1), stid, [])
            else do {
              (bbf2, q, out) \<leftarrow> bbf_output_ts_bytes bbf1 packet p n;
              let h2 = h(b \<mapsto> bbf2);
              let handed = map (\<lambda>u. (bbf_feeds bbf2, u)) out;
              (case q of
                 None \<Rightarrow> map_option (\<lambda>(h3, stid3). (h3, stid3, handed)) (stid_stream_reset h2 stid)
               | Some _ \<Rightarrow> Some (h2, stid, handed)) } } })"

definition stid_stream_add_packet ::
    "bbf_heap \<Rightarrow> stid_stream \<Rightarrow> byte list \<Rightarrow> (bbf_heap \<times> stid_stream \<times> handed_out) option" where
  "stid_stream_add_packet h stid packet =
     (if ts_packet_pid packet \<noteq> embedding_pid (stid_emb stid) then Some (h, stid, [])
      else do {
        let p = (if bit (packet ! 3) 5 then 4 + 1 + uint (packet ! 4) else 4);
        (h1, stid1, p1, bbframe_starts) \<leftarrow> get_stid_header h stid packet (p + 1);
        stid_payload h1 stid1 packet p1 bbframe_starts })"

subsection \<open>T2-MI\<close>

definition t2mi_stream_reset :: "bool \<Rightarrow> bbf_heap \<Rightarrow> t2mi_stream \<Rightarrow> (bbf_heap \<times> t2mi_stream) option" where
  "t2mi_stream_reset full_reset h t2mi = map_option (\<lambda>(h', emb). (h', t2mi\<lparr>t2mi_emb := emb,
       packet_type := - 1, superframe_idx := 0, crc_idx := 0, t2mi_synced := False, frame_idx := - 1,
       plp_id := - 1, packet_header_isi := - 1, intl_frame_start := 0, t2mi_crc32 := 0,
       t2mi_payload_bytes_left := 0, bbheader_bytes_left := 0, header_idx := 0, bbheader_idx := 0\<rparr>))
     (embedded_stream_reset full_reset h (t2mi_emb t2mi))"

text \<open>The fields of a complete packet header; the flag is the value returned.\<close>

definition t2mi_parse_header :: "t2mi_stream \<Rightarrow> t2mi_stream" where
  "t2mi_parse_header t2mi =
     (let buff = t2mi_buff t2mi; emb = t2mi_emb t2mi; pc = uint (buff ! 1);
          t1 = t2mi\<lparr>header_idx := 0, packet_type := uint (buff ! 0)\<rparr>
      in if packet_count emb \<ge> 0 \<and> (packet_count emb + 1) mod 256 \<noteq> pc
         then t1\<lparr>t2mi_synced := False\<rparr>
         else let len = (be16 buff 4 + 7) div 8
              in t1\<lparr>t2mi_emb := emb\<lparr>packet_count := pc, payload_len := len\<rparr>,
                   superframe_idx := uint (buff ! 2) div 16, packet_header_isi := uint (buff ! 3 AND 7),
                   t2mi_payload_bytes_left := len,
                   bbheader_bytes_left := (if buff ! 0 = 0 then 13 else 0), bbheader_idx := 0,
                   t2mi_crc32 := extend_crc32 (t2mi_crc32 t1) (take 6 buff)\<rparr>)"

definition get_t2mi_packet_header ::
    "t2mi_stream \<Rightarrow> byte list \<Rightarrow> int \<Rightarrow> int \<Rightarrow> (t2mi_stream \<times> int \<times> bool) option" where
  "get_t2mi_packet_header t2mi packet p num_bytes_available =
     (if num_bytes_available < 0 then Some (t2mi, p, False)
      else let num = min num_bytes_available (6 - header_idx t2mi)
           in if ge_sizeof (header_idx t2mi + num) 189 then Some (t2mi, p, True)
              else do {
                bs \<leftarrow> bytes_at packet p num;
                buff \<leftarrow> put_bytes (t2mi_buff t2mi) (header_idx t2mi) bs;
                let t1 = t2mi\<lparr>t2mi_buff := buff\<rparr>;
                let t2 = (if header_idx t1 = 0
                          then t1\<lparr>crc_idx := 0, t2mi_emb := (t2mi_emb t1)\<lparr>payload_len := 0\<rparr>,
                                 t2mi_crc32 := 0xFFFFFFFF\<rparr>
                          else t1);
                if p + num > 188 then Some (t2, p + num, True)
                else let t3 = t2\<lparr>header_idx := header_idx t2 + num\<rparr>
                     in if header_idx t3 \<noteq> 6 then Some (t3, p + num, False)
                        else Some (t2mi_parse_header t3, p + num, True) })"

text \<open>
  The choice of the stream for a baseband frame; the PLP found first is the one that a user gets
  who did not ask for one.
\<close>

definition t2mi_select_bbf :: "t2mi_stream \<Rightarrow> byte \<Rightarrow> t2mi_stream" where
  "t2mi_select_bbf t2mi matype =
     (let emb = embedded_stream_set_matype (t2mi_emb t2mi) (word_of_int (plp_id t2mi)) matype;
          t1 = t2mi\<lparr>t2mi_emb := emb, default_isi := (if default_isi t2mi < 0 then plp_id t2mi else default_isi t2mi)\<rparr>;
          bbf = (case map_of (bbf_streams emb) (plp_id t1) of
                   Some b \<Rightarrow> Some b
                 | None \<Rightarrow> if plp_id t1 = default_isi t1 then map_of (bbf_streams emb) 256 else None)
      in t1\<lparr>t2mi_emb := emb\<lparr>current_bbf := bbf\<rparr>\<rparr>)"

text \<open>A complete baseband header: the heap, the stream, and whether the pointer is kept.\<close>

definition t2mi_parse_bbheader :: "bbf_heap \<Rightarrow> t2mi_stream \<Rightarrow> (bbf_heap \<times> t2mi_stream \<times> bool) option" where
  "t2mi_parse_bbheader h t2mi =
     (let buff = t2mi_buff t2mi; bbh = drop 3 buff;
          t1 = t2mi\<lparr>t2mi_crc32 := extend_crc32 (t2mi_crc32 t2mi) (take 13 buff), frame_idx := uint (buff ! 0),
                 plp_id := uint (buff ! 1), intl_frame_start := 0, bbheader_idx := 0\<rparr>
      in if bbheader_bytes_left t1 \<noteq> 0 then Some (h, t1, True)
         else let hem_mode = bbheader_mode bbh
              in if hem_mode AND NOT 1 \<noteq> 0
                 then map_option (\<lambda>(h', t'). (h', t'\<lparr>num_crc8_errors := num_crc8_errors t' + 1\<rparr>, False))
                        (t2mi_stream_reset False h t1)
                 else let t2 = t2mi_select_bbf t1 (bbh ! 0)
                      in (case current_bbf (t2mi_emb t2) of
                            None \<Rightarrow> Some (h, t2, True)
                          | Some b \<Rightarrow> do {
                              bbf \<leftarrow> h b;
                              let bbf1 = parse_bbheader bbf (hem_mode \<noteq> 0) (uint (bbh ! 1)) bbh;
                              let h1 = h(b \<mapsto> bbf1);
                              if bbf_left bbf1 > t2mi_payload_bytes_left t2
                              then map_option (\<lambda>(h', t'). (h', t', False)) (t2mi_stream_reset False h1 t2)
                              else Some (h1, t2, True) }))"

text \<open>The pointer is \<open>None\<close> for NULL; the flag says whether the header is complete.\<close>

definition get_t2mi_bbheader ::
    "bbf_heap \<Rightarrow> t2mi_stream \<Rightarrow> byte list \<Rightarrow> int \<Rightarrow> int \<Rightarrow> (bbf_heap \<times> t2mi_stream \<times> int option \<times> bool) option" where
  "get_t2mi_bbheader h t2mi packet p num_bytes_available =
     (let num = min num_bytes_available (13 - bbheader_idx t2mi)
      in if ge_sizeof (bbheader_idx t2mi + num) 189
         then map_option (\<lambda>(h', t'). (h', t', None, True)) (t2mi_stream_reset False h t2mi)
         else do {
           bs \<leftarrow> bytes_at packet p num;
           buff \<leftarrow> put_bytes (t2mi_buff t2mi) (bbheader_idx t2mi) bs;
           let t1 = t2mi\<lparr>t2mi_buff := buff\<rparr>;
           let t2 = (if bbheader_idx t1 = 0
                     then t1\<lparr>t2mi_emb := (t2mi_emb t1)\<lparr>bbf_header_crc8 := - 1\<rparr>\<rparr> else t1);
           if p + num > 188
           then map_option (\<lambda>(h', t'). (h', t', None, True)) (t2mi_stream_reset False h t2)
           else do {
             let t3 = t2\<lparr>bbheader_bytes_left := bbheader_bytes_left t2 - num,
                    t2mi_payload_bytes_left := t2mi_payload_bytes_left t2 - num,
                    bbheader_idx := bbheader_idx t2 + num\<rparr>;
             if bbheader_idx t3 \<noteq> 13 then Some (h, t3, Some (p + num), False)
             else map_option (\<lambda>(h', t', keep). (h', t', if keep then Some (p + num) else None, True))
                    (t2mi_parse_bbheader h t3) } })"

definition t2mi_frame_is_complete :: "t2mi_stream \<Rightarrow> bool" where
  "t2mi_frame_is_complete t2mi \<longleftrightarrow>
     (t2mi_payload_bytes_left t2mi = 0 \<and> crc_idx t2mi = 4) \<or> \<not> t2mi_synced t2mi"


text \<open>
  The loop of \<open>t2mi_stream_add_packet\<close> over one transport packet.  Its state is the heap, the
  stream, the pointer and the packets handed out; the counter \<open>num_bytes\<close> is always
  \<open>188 - (p - packet)\<close>, as the code itself checks after every change of the two.  \<open>Inl\<close> leaves
  the function, \<open>Inr\<close> goes on.
\<close>

type_synonym t2mi_result = "bbf_heap \<times> t2mi_stream \<times> handed_out"

type_synonym t2mi_run = "bbf_heap \<times> t2mi_stream \<times> int \<times> handed_out"

definition t2mi_read_header :: "byte list \<Rightarrow> t2mi_run \<Rightarrow> (t2mi_result + t2mi_run) option" where
  "t2mi_read_header packet run =
     (case run of (h, t, p, out) \<Rightarrow>
        if \<not> (t2mi_frame_is_complete t \<or> header_idx t > 0) then Some (Inr run)
        else do {
          (t1, p1, complete) \<leftarrow> get_t2mi_packet_header t packet p (188 - p);
          if p1 > 188 \<or> (\<not> complete \<and> p1 \<noteq> 188) then Some (Inl (h, t1, out))
          else let t2 = t1\<lparr>t2mi_synced := True\<rparr>
               in Some (if complete then Inr (h, t2, p1, out) else Inl (h, t2, out)) })"

definition t2mi_read_bbheader :: "byte list \<Rightarrow> t2mi_run \<Rightarrow> (t2mi_result + t2mi_run) option" where
  "t2mi_read_bbheader packet run =
     (case run of (h, t, p, out) \<Rightarrow>
        if \<not> bbheader_bytes_left t > 0 then Some (Inr run)
        else map_option (\<lambda>(h1, t1, q, complete). case q of
               None \<Rightarrow> Inl (h1, t1, out)
             | Some p1 \<Rightarrow>
                 if p1 > 188 then Inl (h1, t1\<lparr>t2mi_synced := False, header_idx := 0\<rparr>, out)
                 else if complete then Inr (h1, t1, p1, out) else Inl (h1, t1, out))
               (get_t2mi_bbheader h t packet p (188 - p)))"

text \<open>The data field, or the payload of another type of packet; \<open>b\<close> is the current stream.\<close>

definition t2mi_read_payload :: "byte list \<Rightarrow> nat \<Rightarrow> t2mi_run \<Rightarrow> (t2mi_result + t2mi_run) option" where
  "t2mi_read_payload packet b run =
     (case run of (h, t, p, out) \<Rightarrow>
        let n = min (t2mi_payload_bytes_left t) (188 - p)
        in if n \<le> 0 then Some (Inr run)
           else do {
             bs \<leftarrow> bytes_at packet p n;
             let t1 = t\<lparr>t2mi_crc32 := extend_crc32 (t2mi_crc32 t) bs\<rparr>;
             if packet_type t1 = 0
             then do {
               bbf \<leftarrow> h b;
               (bbf1, q, us) \<leftarrow> bbf_output_ts_bytes bbf packet p n;
               let h1 = h(b \<mapsto> bbf1);
               let out1 = out @ map (\<lambda>u. (bbf_feeds bbf1, u)) us;
               Some (case q of
                   None \<Rightarrow> Inl (h1, t1, out1)
                 | Some p1 \<Rightarrow>
                     if p1 > 188 then Inl (h1, t1, out1)
                     else let t2 = t1\<lparr>t2mi_payload_bytes_left := t2mi_payload_bytes_left t1 - (p1 - p)\<rparr>
                          in if t2mi_payload_bytes_left t2 < 0 then Inl (h1, t2, out1)
                             else Inr (h1, t2, p1, out1)) }
             else let t2 = t1\<lparr>t2mi_payload_bytes_left := t2mi_payload_bytes_left t1 - n\<rparr>
                  in Some (Inr (h, t2, p + n, out)) })"

text \<open>The checksum after the payload.\<close>

definition t2mi_read_crc :: "byte list \<Rightarrow> t2mi_run \<Rightarrow> (t2mi_result + t2mi_run) option" where
  "t2mi_read_crc packet run =
     (case run of (h, t, p, out) \<Rightarrow>
        if \<not> (t2mi_payload_bytes_left t = 0 \<and> 188 - p > 0) then Some (Inr run)
        else if crc_idx t \<ge> 4 then Some (Inl (h, t, out))
        else do {
          let n = min (4 - crc_idx t) (188 - p);
          bs \<leftarrow> bytes_at packet p n;
          let t1 = t\<lparr>t2mi_crc32 := extend_crc32 (t2mi_crc32 t) bs, crc_idx := crc_idx t + n\<rparr>;
          let t2 = (if crc_idx t1 = 4 \<and> t2mi_crc32 t1 \<noteq> 0
                    then t1\<lparr>num_crc32_errors := num_crc32_errors t1 + 1\<rparr> else t1);
          if p + n > 188 then Some (Inl (h, t1, out)) else Some (Inr (h, t2, p + n, out)) })"

text \<open>Composition of two parts of a turn.\<close>

definition then_part ::
    "('r + 's) option \<Rightarrow> ('s \<Rightarrow> ('r + 's) option) \<Rightarrow> ('r + 's) option" where
  "then_part m f = Option.bind m (\<lambda>r. case r of Inl x \<Rightarrow> Some (Inl x) | Inr s \<Rightarrow> f s)"

definition t2mi_turn :: "byte list \<Rightarrow> t2mi_run \<Rightarrow> (t2mi_result + t2mi_run) option" where
  "t2mi_turn packet run =
     then_part (t2mi_read_header packet run) (\<lambda>run1.
     then_part (t2mi_read_bbheader packet run1) (\<lambda>run2. case run2 of (h, t, p, out) \<Rightarrow>
       (case current_bbf (t2mi_emb t) of
          None \<Rightarrow> Some (Inl (h, t, out))
        | Some b \<Rightarrow> then_part (t2mi_read_payload packet b run2) (t2mi_read_crc packet))))"

partial_function (option) t2mi_loop :: "byte list \<Rightarrow> t2mi_run \<Rightarrow> t2mi_result option" where
  "t2mi_loop packet run =
     (case run of (h, t, p, out) \<Rightarrow>
        if p < 188
        then Option.bind (t2mi_turn packet run)
          (\<lambda>r. case r of Inl res \<Rightarrow> Some res | Inr run' \<Rightarrow> t2mi_loop packet run')
        else Some (h, t, out))"

declare t2mi_loop.simps [code]

text \<open>The unit start flag: the pointer field, and its use to find the first packet header.\<close>

definition t2mi_unit_start :: "t2mi_stream \<Rightarrow> byte list \<Rightarrow> int \<Rightarrow> (t2mi_stream + int) option" where
  "t2mi_unit_start t packet p = do {
     b \<leftarrow> byte_at packet p;
     let uimsbf = uint b;
     if p + 1 + uimsbf \<ge> 188 then Some (Inl t)
     else if t2mi_synced t then Some (Inr (p + 1))
     else if header_idx t > 0 then Some (Inl (t\<lparr>t2mi_synced := False, header_idx := 0\<rparr>))
     else Some (Inr (p + 1 + uimsbf)) }"

definition t2mi_stream_add_packet ::
    "bbf_heap \<Rightarrow> t2mi_stream \<Rightarrow> byte list \<Rightarrow> t2mi_result option" where
  "t2mi_stream_add_packet h t2mi packet =
     (if ts_packet_pid packet \<noteq> embedding_pid (t2mi_emb t2mi) then Some (h, t2mi, [])
      else if \<not> bit (packet ! 3) 4 then Some (h, t2mi, [])
      else if packet ! 3 AND 0xC0 \<noteq> 0 then Some (h, t2mi, [])
      else let new_cc = uint (packet ! 3 AND 0x0f);
               has_adaptation = bit (packet ! 3) 5;
               discontinuity = (has_adaptation \<and> packet ! 4 > 0 \<and> bit (packet ! 5) 3);
               p = (if has_adaptation then 4 + 1 + uint (packet ! 4) else 4);
               pusi = bit (packet ! 1) 6;
               emb = t2mi_emb t2mi
           in if \<not> t2mi_synced t2mi \<and> \<not> pusi then Some (h, t2mi, [])
              else if \<not> discontinuity \<and> new_cc \<noteq> (cc_counter emb + 1) mod 16 \<and> cc_counter emb \<ge> 0
              then map_option (\<lambda>(h', t'). (h', t', []))
                     (t2mi_stream_reset False h (t2mi\<lparr>num_cc_errors := num_cc_errors t2mi + 1\<rparr>))
              else let t1 = t2mi\<lparr>t2mi_emb := emb\<lparr>cc_counter := new_cc\<rparr>\<rparr>
                   in if pusi
                      then Option.bind (t2mi_unit_start t1 packet p) (\<lambda>r. case r of
                             Inl t2 \<Rightarrow> Some (h, t2, [])
                           | Inr p1 \<Rightarrow> t2mi_loop packet (h, t1, p1, []))
                      else t2mi_loop packet (h, t1, p, []))"

subsection \<open>The table of streams seen\<close>

lemma add_bitset_iff:
  assumes "length bs = 8" "i < 256" "j < 256"
  shows "in_bitset (add_bitset bs i) j \<longleftrightarrow> in_bitset bs j \<or> i = j"
proof (cases "j div 32 = i div 32")
  case True
  then have "j mod 32 = i mod 32 \<longleftrightarrow> i = j" by (metis mod_mult_div_eq)
  moreover have "i div 32 < 8" "j mod 32 < 32" using assms(2) by auto
  ultimately show ?thesis using assms(1) True
    by (auto simp: in_bitset_def add_bitset_def bit_simps)
next
  case False
  then show ?thesis by (auto simp: in_bitset_def add_bitset_def)
qed

lemma add_bitset_length [simp]: "length (add_bitset bs i) = length bs"
  by (simp add: add_bitset_def)

lemma replicate_bitset [simp]: "i < 256 \<Longrightarrow> \<not> in_bitset (replicate 8 0) i"
  by (simp add: in_bitset_def)

text \<open>
  The observations of one stream, in order, and what the table holds of them: the first matype,
  or the first one with an ordinary roll-off if there is one; and whether ordinary and low
  roll-off alternate.
\<close>

definition low_rolloff :: "byte \<Rightarrow> bool" where "low_rolloff m \<longleftrightarrow> m AND 3 = 3"

definition stored_matype :: "byte list \<Rightarrow> byte" where
  "stored_matype ms = (case filter (\<lambda>m. \<not> low_rolloff m) ms of m # _ \<Rightarrow> m | [] \<Rightarrow> hd ms)"

definition mixed_rolloff :: "byte list \<Rightarrow> bool" where
  "mixed_rolloff ms \<longleftrightarrow> (\<exists>m \<in> set ms. low_rolloff m) \<and> (\<exists>m \<in> set ms. \<not> low_rolloff m)"

definition seen :: "(byte \<times> byte) list \<Rightarrow> nat \<Rightarrow> byte list" where
  "seen obs i = map snd (filter (\<lambda>o1. unat (fst o1) = i) obs)"

definition matype_table :: "embedded_stream \<Rightarrow> (byte \<times> byte) list \<Rightarrow> bool" where
  "matype_table emb obs \<longleftrightarrow> length (isi_plp_bitset emb) = 8 \<and> length (high_rolloff_mode emb) = 8 \<and>
     length (matypes emb) = 256 \<and> num_streams emb = int (card (fst ` set obs)) \<and>
     (\<forall>i < 256. in_bitset (isi_plp_bitset emb) i = (seen obs i \<noteq> []) \<and>
        (seen obs i \<noteq> [] \<longrightarrow> matypes emb ! i = stored_matype (seen obs i)) \<and>
        in_bitset (high_rolloff_mode emb) i = mixed_rolloff (seen obs i))"

lemma seen_snoc: "seen (obs @ [(s, m)]) i = (if unat s = i then seen obs i @ [m] else seen obs i)"
  by (simp add: seen_def)

lemma seen_empty_iff: "seen obs (unat s) = [] \<longleftrightarrow> s \<notin> fst ` set obs"
  by (auto simp: seen_def filter_empty_conv word_unat_eq_iff image_iff)

lemma stored_low: "ms \<noteq> [] \<Longrightarrow> low_rolloff (stored_matype ms) \<longleftrightarrow> (\<forall>m \<in> set ms. low_rolloff m)"
  by (auto simp: stored_matype_def filter_empty_conv filter_eq_Cons_iff split: list.splits)

lemma stored_snoc:
  assumes "ms \<noteq> []"
  shows "stored_matype (ms @ [m]) =
     (if low_rolloff (stored_matype ms) \<and> \<not> low_rolloff m then m else stored_matype ms)"
proof (cases "filter (\<lambda>m. \<not> low_rolloff m) ms")
  case Nil
  then have "low_rolloff (stored_matype ms)" using stored_low [OF assms] by (auto simp: filter_empty_conv)
  then show ?thesis using Nil assms by (simp add: stored_matype_def)
next
  case (Cons x xs)
  then have "\<not> low_rolloff x" by (auto simp: filter_eq_Cons_iff)
  then show ?thesis using Cons by (simp add: stored_matype_def)
qed

lemma mixed_snoc:
  "ms \<noteq> [] \<Longrightarrow> mixed_rolloff (ms @ [m]) \<longleftrightarrow>
     mixed_rolloff ms \<or> low_rolloff m \<noteq> low_rolloff (stored_matype ms)"
  unfolding stored_low
  by (cases ms) (auto simp: mixed_rolloff_def stored_low)

lemma unat_byte_less [simp]: "unat (s :: byte) < 256"
  using unsigned_less [of s] by simp

lemma set_matype_step:
  assumes t: "matype_table emb obs"
  shows "matype_table (embedded_stream_set_matype emb s m) (obs @ [(s, m)])"
proof -
  let ?i = "unat s" and ?e = "embedded_stream_set_matype emb s m"
  have len: "length (isi_plp_bitset emb) = 8" "length (high_rolloff_mode emb) = 8" "length (matypes emb) = 256"
    using t by (auto simp: matype_table_def)
  have tab: "in_bitset (isi_plp_bitset emb) i = (seen obs i \<noteq> [])"
    "seen obs i \<noteq> [] \<longrightarrow> matypes emb ! i = stored_matype (seen obs i)"
    "in_bitset (high_rolloff_mode emb) i = mixed_rolloff (seen obs i)" if "i < 256" for i
    using t that by (auto simp: matype_table_def)
  show ?thesis
  proof (cases "seen obs ?i = []")
    case True
    then have e: "?e = emb\<lparr>num_streams := num_streams emb + 1, matypes := (matypes emb)[?i := m],
        isi_plp_bitset := add_bitset (isi_plp_bitset emb) ?i\<rparr>"
      using tab(1) [of ?i] by (simp add: embedded_stream_set_matype_def Let_def)
    have "s \<notin> fst ` set obs" using True by (simp add: seen_empty_iff)
    then have "int (card (fst ` set (obs @ [(s, m)]))) = num_streams emb + 1"
      using t by (simp add: matype_table_def)
    moreover have "stored_matype [m] = m" "\<not> mixed_rolloff [m]" "\<not> mixed_rolloff []"
      by (auto simp: stored_matype_def mixed_rolloff_def)
    ultimately show ?thesis
      using True len tab unfolding e
      by (auto simp: matype_table_def seen_snoc add_bitset_iff nth_list_update)
  next
    case False
    let ?old = "stored_matype (seen obs ?i)"
    have old: "matypes emb ! ?i = ?old" using tab(2) [of ?i] False by simp
    have e: "?e = (if low_rolloff m
        then (if \<not> low_rolloff ?old then emb\<lparr>high_rolloff_mode := add_bitset (high_rolloff_mode emb) ?i\<rparr> else emb)
        else (if low_rolloff ?old then emb\<lparr>high_rolloff_mode := add_bitset (high_rolloff_mode emb) ?i,
            matypes := (matypes emb)[?i := m]\<rparr> else emb))"
      using tab(1) [of ?i] False old by (simp add: embedded_stream_set_matype_def low_rolloff_def Let_def)
    have "s \<in> fst ` set obs" using False seen_empty_iff by blast
    then have n: "int (card (fst ` set (obs @ [(s, m)]))) = num_streams emb"
      using t by (simp add: matype_table_def insert_absorb)
    note rules = stored_snoc [OF False, of m] mixed_snoc [OF False, of m]
    show ?thesis
      unfolding e matype_table_def
      using n False len tab rules old
      by (auto simp: seen_snoc add_bitset_iff nth_list_update)
  qed
qed

lemma set_matype_table:
  "matype_table emb obs0 \<Longrightarrow>
   matype_table (fold (\<lambda>(s, m) e. embedded_stream_set_matype e s m) obs emb) (obs0 @ obs)"
proof (induction obs arbitrary: emb obs0)
  case (Cons x obs)
  then show ?case using set_matype_step [of emb obs0] Cons.IH [of _ "obs0 @ [x]"] by (cases x) simp
qed simp

subsection \<open>Frames in packets of the stid135\<close>

definition stid_packet :: "int \<Rightarrow> byte list \<Rightarrow> bool" where
  "stid_packet pid packet \<longleftrightarrow> length packet = 188 \<and> ts_packet_pid packet = pid \<and> \<not> bit (packet ! 3) 5"

definition stid_starts :: "byte list \<Rightarrow> bool" where "stid_starts packet \<longleftrightarrow> packet ! 8 = 0xB8"

definition stid_bbheader :: "byte list \<Rightarrow> byte list" where "stid_bbheader packet = take 10 (drop 9 packet)"

definition stid_data :: "byte list \<Rightarrow> byte list" where
  "stid_data packet = drop (if stid_starts packet then 19 else 9) packet"

text \<open>The number under which the stream of a header is registered.\<close>

definition header_isi :: "byte list \<Rightarrow> int" where
  "header_isi buff = (if bit (buff ! 0) 5 then 256 else uint (buff ! 1))"

text \<open>
  The registered streams are there and in step, and \<open>current_bbf\<close> is the stream registered for
  \<open>current_isi\<close>.
\<close>

definition stid_ok :: "bbf_heap \<Rightarrow> stid_stream \<Rightarrow> bool" where
  "stid_ok h stid \<longleftrightarrow> (let emb = stid_emb stid in
     (\<forall>b \<in> snd ` set (bbf_streams emb). \<exists>bbf. h b = Some bbf \<and> in_step bbf) \<and>
     (current_bbf emb = None \<or> current_bbf emb = map_of (bbf_streams emb) (current_isi emb)) \<and>
     (current_isi emb \<noteq> - 1 \<longrightarrow> current_bbf emb = map_of (bbf_streams emb) (current_isi emb)))"

lemma stid_ok_stream:
  "stid_ok h stid \<Longrightarrow> map_of (bbf_streams (stid_emb stid)) i = Some b \<Longrightarrow> \<exists>bbf. h b = Some bbf \<and> in_step bbf"
  by (force simp: stid_ok_def Let_def dest: map_of_SomeD)

lemma set_matype_keeps [simp]:
  "bbf_streams (embedded_stream_set_matype emb s m) = bbf_streams emb"
  "current_bbf (embedded_stream_set_matype emb s m) = current_bbf emb"
  "current_isi (embedded_stream_set_matype emb s m) = current_isi emb"
  "embedding_pid (embedded_stream_set_matype emb s m) = embedding_pid emb"
  by (simp_all add: embedded_stream_set_matype_def Let_def)

lemma bytes_at_take: "int (length packet) \<ge> p + n \<Longrightarrow> 0 \<le> p \<Longrightarrow> 0 \<le> n \<Longrightarrow>
   bytes_at packet p n = Some (take (nat n) (drop (nat p) packet))"
  by (simp add: bytes_at_def memread_def)

lemma input_suffix: "n \<le> length packet \<Longrightarrow> input packet (int n) (int (length packet) - int n) (drop n packet)"
  unfolding input_def by (intro exI [of _ "take n packet"] exI [of _ "[]"]) simp

text \<open>The output of a payload, in terms of the byte-wise reference.\<close>

lemma payload_spec:
  assumes cur: "current_bbf (stid_emb stid) = Some b" and h: "h b = Some bbf" and step: "in_step bbf"
    and sy: "bbf_synced bbf \<or> starts" and left: "0 < bbf_left bbf" and n: "n < length packet" "length packet = 188"
    and run: "up_run (bbf_hem_mode bbf) (up_of bbf) (take (nat (bbf_left bbf)) (drop n packet)) = (st, outs, True)"
  shows "\<exists>bbf'. stid_payload h stid packet (int n) starts =
      Some (h(b \<mapsto> bbf'), stid, map (Pair (bbf_feeds bbf)) outs) \<and>
    in_step bbf' \<and> up_of bbf' = st \<and> bbf_hem_mode bbf' = bbf_hem_mode bbf \<and> bbf_feeds bbf' = bbf_feeds bbf \<and>
    bbf_left bbf' = bbf_left bbf - min (bbf_left bbf) (188 - int n) \<and> bbf_synced bbf'"
proof -
  let ?b1 = "bbf\<lparr>bbf_synced := True\<rparr>"
  have step1: "in_step ?b1" using step by (simp add: in_step_def bbf_ok_def)
  have s: "bbf_sync ?b1 = ?b1" "bbf_to_skip ?b1 = 0"
    using sync_synced [of ?b1] step1 by (auto simp: in_step_def)
  have i: "input packet (int n) (188 - int n) (drop n packet)" using input_suffix [of n packet] n by simp
  have up1: "up_of ?b1 = up_of bbf" by (simp add: up_of_def)
  have "finishes packet ?b1 (int n) (188 - int n) [] st outs True
      (bbf_left ?b1 - min (bbf_left ?b1) (188 - int n)) (bbf_output_ts_bytes ?b1 packet (int n) (188 - int n))"
    using output_spec [OF _ i, of ?b1 st outs True] step1 s left run up1 n
    by (simp add: in_step_def)
  then obtain bbf' where b': "bbf_output_ts_bytes ?b1 packet (int n) (188 - int n) = Some (bbf', Some 188, outs)"
    "same_stream ?b1 bbf'" "bbf_ok bbf'" "up_of bbf' = st"
    "bbf_left bbf' = bbf_left bbf - min (bbf_left bbf) (188 - int n)"
    by (auto simp: finishes_def)
  note f = same_stream_fields [OF b'(2)]
  have "in_step bbf'" using b'(3) f(7) step1 by (simp add: in_step_def)
  moreover have "stid_payload h stid packet (int n) starts = Some (h(b \<mapsto> bbf'), stid, map (Pair (bbf_feeds bbf)) outs)"
    using cur h sy n b'(1) f(3) by (auto simp: stid_payload_def Let_def)
  ultimately show ?thesis using b'(4,5) f by (intro exI [of _ bbf']) simp
qed

text \<open>A packet that goes on with a frame.\<close>

lemma stid_cont:
  assumes pk: "stid_packet (embedding_pid (stid_emb stid)) packet" "\<not> stid_starts packet"
    and cur: "current_bbf (stid_emb stid) = Some b" and h: "h b = Some bbf" and step: "in_step bbf"
    and sy: "bbf_synced bbf" and left: "0 < bbf_left bbf"
    and run: "up_run (bbf_hem_mode bbf) (up_of bbf) (take (nat (bbf_left bbf)) (stid_data packet)) = (st, outs, True)"
  shows "\<exists>bbf' stid'. stid_stream_add_packet h stid packet =
      Some (h(b \<mapsto> bbf'), stid', map (Pair (bbf_feeds bbf)) outs) \<and>
    in_step bbf' \<and> up_of bbf' = st \<and> bbf_hem_mode bbf' = bbf_hem_mode bbf \<and> bbf_feeds bbf' = bbf_feeds bbf \<and>
    bbf_left bbf' = bbf_left bbf - min (bbf_left bbf) 179 \<and> bbf_synced bbf' \<and>
    current_bbf (stid_emb stid') = Some b \<and> current_isi (stid_emb stid') = current_isi (stid_emb stid) \<and>
    bbf_streams (stid_emb stid') = bbf_streams (stid_emb stid) \<and>
    embedding_pid (stid_emb stid') = embedding_pid (stid_emb stid)"
proof -
  let ?stid = "stid\<lparr>stid_emb := (stid_emb stid)\<lparr>packet_count := uint (packet ! 8)\<rparr>, stid_section_length := uint (packet ! 7)\<rparr>"
  have len: "length packet = 188" using pk by (simp add: stid_packet_def)
  have hdr: "get_stid_header h stid packet 5 = Some (h, ?stid, 9, False)"
    using pk(2) len bytes_at_take [of 5 4 packet]
    by (simp add: get_stid_header_def stid_starts_def Let_def)
  obtain bbf' where "stid_payload h ?stid packet (int 9) False = Some (h(b \<mapsto> bbf'), ?stid, map (Pair (bbf_feeds bbf)) outs)"
    "in_step bbf'" "up_of bbf' = st" "bbf_hem_mode bbf' = bbf_hem_mode bbf" "bbf_feeds bbf' = bbf_feeds bbf"
    "bbf_left bbf' = bbf_left bbf - min (bbf_left bbf) (188 - int 9)" "bbf_synced bbf'"
    using payload_spec [of ?stid b h bbf False 9 packet st outs] assms len by (auto simp: stid_data_def)
  then show ?thesis using pk hdr cur
    by (intro exI [of _ bbf'] exI [of _ ?stid]) (simp add: stid_stream_add_packet_def stid_packet_def)
qed

text \<open>A packet that starts a frame.\<close>

lemma stid_start:
  assumes ok: "stid_ok h stid" and pk: "stid_packet (embedding_pid (stid_emb stid)) packet" "stid_starts packet"
    and isi: "map_of (bbf_streams (stid_emb stid)) (header_isi (stid_bbheader packet)) = Some b"
    and h: "h b = Some bbf" and mode: "bbheader_mode (stid_bbheader packet) = (if hem then 1 else 0)"
    and upl: "hem \<or> be16 (stid_bbheader packet) 2 div 8 = 188" and dfl: "dfl = be16 (stid_bbheader packet) 4 div 8" "0 < dfl"
    and run: "up_run hem (up_of bbf) (take (nat dfl) (stid_data packet)) = (st, outs, True)"
  shows "\<exists>bbf' stid'. stid_stream_add_packet h stid packet =
      Some (h(b \<mapsto> bbf'), stid', map (Pair (bbf_feeds bbf)) outs) \<and>
    in_step bbf' \<and> up_of bbf' = st \<and> bbf_hem_mode bbf' = hem \<and> bbf_feeds bbf' = bbf_feeds bbf \<and>
    bbf_left bbf' = dfl - min dfl 169 \<and> bbf_synced bbf' \<and>
    current_bbf (stid_emb stid') = Some b \<and> current_isi (stid_emb stid') = header_isi (stid_bbheader packet) \<and>
    bbf_streams (stid_emb stid') = bbf_streams (stid_emb stid) \<and>
    embedding_pid (stid_emb stid') = embedding_pid (stid_emb stid)"
proof -
  let ?hdr = "stid_bbheader packet"
  let ?isi = "header_isi ?hdr"
  have len: "length packet = 188" using pk by (simp add: stid_packet_def)
  define stid1 where "stid1 = stid\<lparr>stid_emb := (stid_emb stid)\<lparr>packet_count := 0\<rparr>, stid_section_length := uint (packet ! 7)\<rparr>"
  define emb where "emb = embedded_stream_set_matype (stid_emb stid1) (?hdr ! 1) (?hdr ! 0)"
  define emb1 where "emb1 = (if ?isi \<noteq> current_isi emb
    then emb\<lparr>current_bbf := map_of (bbf_streams emb) ?isi, current_isi := ?isi\<rparr> else emb)"
  let ?stid2 = "stid1\<lparr>stid_emb := emb1\<rparr>"
  let ?bbf = "parse_bbheader bbf hem ?isi ?hdr"
  have step: "in_step bbf" using stid_ok_stream [OF ok isi] h by auto
  then have okb: "bbf_ok bbf" by (simp add: in_step_def)
  note hd = header_ok [OF okb upl, of ?isi]
  have "0 \<le> ?isi" by (simp add: header_isi_def)
  then have isi0: "?isi \<noteq> - 1" by linarith
  have cur: "current_bbf emb1 = Some b" "current_isi emb1 = ?isi" "bbf_streams emb1 = bbf_streams (stid_emb stid)"
    "embedding_pid emb1 = embedding_pid (stid_emb stid)"
    using ok isi isi0 by (auto simp: stid_ok_def Let_def emb1_def emb_def stid1_def)
  obtain b4 where b4: "bytes_at packet 5 4 = Some b4" "b4 ! 3 = 0xB8" "b4 ! 2 = packet ! 7"
    using pk(2) len bytes_at_take [of 5 4 packet] by (simp add: stid_starts_def)
  have b10: "bytes_at packet (5 + 4) 10 = Some ?hdr"
    using len bytes_at_take [of 9 10 packet] by (simp add: stid_bbheader_def)
  have hdr: "get_stid_header h stid packet 5 = Some (h(b \<mapsto> ?bbf), ?stid2, 19, True)"
  proof -
    have m: "bbheader_mode ?hdr AND NOT 1 = 0" "(bbheader_mode ?hdr \<noteq> 0) = hem" using mode by auto
    show ?thesis
      unfolding get_stid_header_def b4(1) Option.bind.bind_lunit Let_def b4(2,3) if_True if_P [OF refl] not_True_eq_False if_False
        b10 m(1) m(2) header_isi_def [symmetric] stid1_def [symmetric] emb_def [symmetric] emb1_def [symmetric]
        cur(1) option.case h
      by simp
  qed
  have "up_run (bbf_hem_mode ?bbf) (up_of ?bbf) (take (nat (bbf_left ?bbf)) (drop 19 packet)) = (st, outs, True)"
    using run hd pk(2) dfl(1) by (simp add: stid_data_def)
  moreover have "in_step ?bbf" using hd step by (simp add: in_step_def)
  moreover have "0 < bbf_left ?bbf" "bbf_left ?bbf = dfl" "bbf_feeds ?bbf = bbf_feeds bbf"
    using hd(3) dfl by (simp_all add: parse_bbheader_def Let_def)
  ultimately obtain bbf' where p: "stid_payload (h(b \<mapsto> ?bbf)) ?stid2 packet (int 19) True =
      Some (h(b \<mapsto> ?bbf, b \<mapsto> bbf'), ?stid2, map (Pair (bbf_feeds bbf)) outs)"
    "in_step bbf'" "up_of bbf' = st" "bbf_hem_mode bbf' = hem" "bbf_feeds bbf' = bbf_feeds bbf"
    "bbf_left bbf' = dfl - min dfl (188 - int 19)" "bbf_synced bbf'"
    using payload_spec [of ?stid2 b "h(b \<mapsto> ?bbf)" ?bbf True 19 packet st outs] cur(1) len hd(4) by auto
  then show ?thesis using pk hdr cur
    by (intro exI [of _ bbf'] exI [of _ ?stid2]) (simp add: stid_stream_add_packet_def stid_packet_def)
qed

text \<open>A whole frame: one packet that starts it, and as many as its data field needs.\<close>

fun stid_run :: "bbf_heap \<Rightarrow> stid_stream \<Rightarrow> byte list list \<Rightarrow> (bbf_heap \<times> stid_stream \<times> handed_out) option" where
  "stid_run h stid [] = Some (h, stid, [])"
| "stid_run h stid (p # ps) =
     Option.bind (stid_stream_add_packet h stid p) (\<lambda>(h1, stid1, o1).
       map_option (\<lambda>(h2, stid2, o2). (h2, stid2, o1 @ o2)) (stid_run h1 stid1 ps))"

lemma stid_run_append:
  "stid_run h stid (ps @ qs) =
     Option.bind (stid_run h stid ps) (\<lambda>(h1, stid1, o1).
       map_option (\<lambda>(h2, stid2, o2). (h2, stid2, o1 @ o2)) (stid_run h1 stid1 qs))"
proof (induction ps arbitrary: h stid)
  case Nil
  then show ?case by (cases "stid_run h stid qs") auto
next
  case (Cons p ps)
  then show ?case
    by (cases "stid_stream_add_packet h stid p")
      (auto simp: map_option_case split: option.splits prod.splits Option.bind_splits)
qed

text \<open>The data of the packets, without the padding after the data field.\<close>

fun conts_ok :: "int \<Rightarrow> int \<Rightarrow> byte list list \<Rightarrow> bool" where
  "conts_ok pid left [] = (left = 0)"
| "conts_ok pid left (p # ps) =
     (0 < left \<and> stid_packet pid p \<and> \<not> stid_starts p \<and> conts_ok pid (left - min left 179) ps)"

lemma conts_spec:
  assumes "current_bbf (stid_emb stid) = Some b" "h b = Some bbf" "in_step bbf" "bbf_synced bbf"
    "conts_ok (embedding_pid (stid_emb stid)) (bbf_left bbf) ps"
    "up_run (bbf_hem_mode bbf) (up_of bbf) (take (nat (bbf_left bbf)) (concat (map stid_data ps))) = (st, outs, True)"
  shows "\<exists>bbf' stid'. stid_run h stid ps = Some (h(b \<mapsto> bbf'), stid', map (Pair (bbf_feeds bbf)) outs) \<and>
    in_step bbf' \<and> up_of bbf' = st \<and> bbf_feeds bbf' = bbf_feeds bbf \<and>
    current_bbf (stid_emb stid') = Some b \<and> current_isi (stid_emb stid') = current_isi (stid_emb stid) \<and>
    bbf_streams (stid_emb stid') = bbf_streams (stid_emb stid) \<and>
    embedding_pid (stid_emb stid') = embedding_pid (stid_emb stid)"
  using assms
proof (induction ps arbitrary: h stid bbf outs)
  case Nil
  then have "h(b \<mapsto> bbf) = h" by (simp add: fun_upd_idem)
  then show ?case using Nil by (intro exI [of _ bbf] exI [of _ stid]) simp
next
  case (Cons p ps)
  let ?k = "min (bbf_left bbf) 179"
  have c: "0 < bbf_left bbf" "stid_packet (embedding_pid (stid_emb stid)) p" "\<not> stid_starts p"
    "conts_ok (embedding_pid (stid_emb stid)) (bbf_left bbf - ?k) ps"
    using Cons.prems(5) by auto
  have lp: "length (stid_data p) = 179" using c by (simp add: stid_data_def stid_packet_def)
  have "take (nat (bbf_left bbf)) (concat (map stid_data (p # ps))) =
      take (nat (bbf_left bbf)) (stid_data p) @ take (nat (bbf_left bbf - ?k)) (concat (map stid_data ps))"
    using c(1) lp by (auto simp: min_def nat_diff_distrib)
  then obtain st1 o1 o2 where r: "up_run (bbf_hem_mode bbf) (up_of bbf) (take (nat (bbf_left bbf)) (stid_data p)) = (st1, o1, True)"
    "up_run (bbf_hem_mode bbf) st1 (take (nat (bbf_left bbf - ?k)) (concat (map stid_data ps))) = (st, o2, True)"
    "outs = o1 @ o2"
    using Cons.prems(6) by (auto elim: up_run_prefix_ok)
  obtain bbf1 stid1 where s: "stid_stream_add_packet h stid p = Some (h(b \<mapsto> bbf1), stid1, map (Pair (bbf_feeds bbf)) o1)"
    "in_step bbf1" "up_of bbf1 = st1" "bbf_hem_mode bbf1 = bbf_hem_mode bbf" "bbf_feeds bbf1 = bbf_feeds bbf"
    "bbf_left bbf1 = bbf_left bbf - ?k" "bbf_synced bbf1" "current_bbf (stid_emb stid1) = Some b"
    "current_isi (stid_emb stid1) = current_isi (stid_emb stid)"
    "bbf_streams (stid_emb stid1) = bbf_streams (stid_emb stid)"
    "embedding_pid (stid_emb stid1) = embedding_pid (stid_emb stid)"
    using stid_cont [where h = h, OF c(2,3) Cons.prems(1-4) c(1) r(1)] by blast
  obtain bbf2 stid2 where t: "stid_run (h(b \<mapsto> bbf1)) stid1 ps = Some (h(b \<mapsto> bbf1, b \<mapsto> bbf2), stid2, map (Pair (bbf_feeds bbf1)) o2)"
    "in_step bbf2" "up_of bbf2 = st" "bbf_feeds bbf2 = bbf_feeds bbf1"
    "current_bbf (stid_emb stid2) = Some b" "current_isi (stid_emb stid2) = current_isi (stid_emb stid1)"
    "bbf_streams (stid_emb stid2) = bbf_streams (stid_emb stid1)"
    "embedding_pid (stid_emb stid2) = embedding_pid (stid_emb stid1)"
  proof -
    have prems: "(h(b \<mapsto> bbf1)) b = Some bbf1" "conts_ok (embedding_pid (stid_emb stid1)) (bbf_left bbf1) ps"
      "up_run (bbf_hem_mode bbf1) (up_of bbf1) (take (nat (bbf_left bbf1)) (concat (map stid_data ps))) = (st, o2, True)"
      using s c(4) r(2) by simp_all
    from Cons.IH [where h = "h(b \<mapsto> bbf1)", OF s(8) prems(1) s(2) s(7) prems(2,3)] that show ?thesis by blast
  qed
  have "stid_run h stid (p # ps) = Some (h(b \<mapsto> bbf2), stid2, map (Pair (bbf_feeds bbf)) outs)"
    using s(1,5) t(1) r(3) by simp
  then show ?case using s t by (intro exI [of _ bbf2] exI [of _ stid2]) (simp add: fun_upd_def del: stid_run.simps)
qed

definition stid_frame :: "int \<Rightarrow> bool \<Rightarrow> int \<Rightarrow> byte list list \<Rightarrow> bool" where
  "stid_frame pid hem isi pkts \<longleftrightarrow> pkts \<noteq> [] \<and> stid_packet pid (hd pkts) \<and> stid_starts (hd pkts) \<and>
     (let hdr = stid_bbheader (hd pkts); dfl = be16 hdr 4 div 8
      in bbheader_mode hdr = (if hem then 1 else 0) \<and> header_isi hdr = isi \<and>
         (hem \<or> be16 hdr 2 div 8 = 188) \<and> 0 < dfl \<and> conts_ok pid (dfl - min dfl 169) (tl pkts))"

definition frame_data :: "byte list list \<Rightarrow> byte list" where
  "frame_data pkts = take (nat (be16 (stid_bbheader (hd pkts)) 4 div 8)) (concat (map stid_data pkts))"

lemma stid_frame_spec:
  assumes ok: "stid_ok h stid" and fr: "stid_frame (embedding_pid (stid_emb stid)) hem isi pkts"
    and reg: "map_of (bbf_streams (stid_emb stid)) isi = Some b" and h: "h b = Some bbf"
    and run: "up_run hem (up_of bbf) (frame_data pkts) = (st, outs, True)"
  shows "\<exists>bbf' stid'. stid_run h stid pkts = Some (h(b \<mapsto> bbf'), stid', map (Pair (bbf_feeds bbf)) outs) \<and>
    stid_ok (h(b \<mapsto> bbf')) stid' \<and> up_of bbf' = st \<and> bbf_feeds bbf' = bbf_feeds bbf \<and>
    bbf_streams (stid_emb stid') = bbf_streams (stid_emb stid) \<and>
    embedding_pid (stid_emb stid') = embedding_pid (stid_emb stid)"
proof -
  obtain p ps where pkts: "pkts = p # ps" using fr by (cases pkts) (auto simp: stid_frame_def)
  let ?hdr = "stid_bbheader p" let ?dfl = "be16 ?hdr 4 div 8"
  have f: "stid_packet (embedding_pid (stid_emb stid)) p" "stid_starts p"
    "bbheader_mode ?hdr = (if hem then 1 else 0)" "header_isi ?hdr = isi" "hem \<or> be16 ?hdr 2 div 8 = 188"
    "0 < ?dfl" "conts_ok (embedding_pid (stid_emb stid)) (?dfl - min ?dfl 169) ps"
    using fr by (auto simp: stid_frame_def pkts Let_def)
  have lp: "length (stid_data p) = 169" using f by (simp add: stid_data_def stid_packet_def)
  have "frame_data pkts = take (nat ?dfl) (stid_data p) @ take (nat (?dfl - min ?dfl 169)) (concat (map stid_data ps))"
    using f(6) lp by (auto simp: frame_data_def pkts min_def nat_diff_distrib)
  then obtain st1 o1 o2 where r: "up_run hem (up_of bbf) (take (nat ?dfl) (stid_data p)) = (st1, o1, True)"
    "up_run hem st1 (take (nat (?dfl - min ?dfl 169)) (concat (map stid_data ps))) = (st, o2, True)"
    "outs = o1 @ o2"
    using run by (auto elim: up_run_prefix_ok)
  obtain bbf1 stid1 where s: "stid_stream_add_packet h stid p = Some (h(b \<mapsto> bbf1), stid1, map (Pair (bbf_feeds bbf)) o1)"
    "in_step bbf1" "up_of bbf1 = st1" "bbf_hem_mode bbf1 = hem" "bbf_feeds bbf1 = bbf_feeds bbf"
    "bbf_left bbf1 = ?dfl - min ?dfl 169" "bbf_synced bbf1" "current_bbf (stid_emb stid1) = Some b"
    "current_isi (stid_emb stid1) = isi"
    "bbf_streams (stid_emb stid1) = bbf_streams (stid_emb stid)"
    "embedding_pid (stid_emb stid1) = embedding_pid (stid_emb stid)"
    using stid_start [where h = h, OF ok f(1,2) _ h f(3,5) refl f(6) r(1)] reg f(4) by auto
  obtain bbf2 stid2 where t: "stid_run (h(b \<mapsto> bbf1)) stid1 ps = Some (h(b \<mapsto> bbf1, b \<mapsto> bbf2), stid2, map (Pair (bbf_feeds bbf1)) o2)"
    "in_step bbf2" "up_of bbf2 = st" "bbf_feeds bbf2 = bbf_feeds bbf1"
    "current_bbf (stid_emb stid2) = Some b" "current_isi (stid_emb stid2) = current_isi (stid_emb stid1)"
    "bbf_streams (stid_emb stid2) = bbf_streams (stid_emb stid1)"
    "embedding_pid (stid_emb stid2) = embedding_pid (stid_emb stid1)"
  proof -
    have "(h(b \<mapsto> bbf1)) b = Some bbf1" by simp
    from conts_spec [where h = "h(b \<mapsto> bbf1)" and ps = ps and st = st and outs = o2, OF s(8) this s(2,7)] that s r(2) f(7) show ?thesis by auto
  qed
  have "stid_run h stid pkts = Some (h(b \<mapsto> bbf2), stid2, map (Pair (bbf_feeds bbf)) outs)"
    using s(1,5) t(1) r(3) by (simp add: pkts)
  moreover have "stid_ok (h(b \<mapsto> bbf2)) stid2"
    using ok reg t(2,5-7) s(9,10) by (auto simp: stid_ok_def Let_def)
  ultimately show ?thesis using t s(5,10,11) by (intro exI [of _ bbf2] exI [of _ stid2]) simp
qed

text \<open>A frame of a stream that nobody has asked for: its headers are read and its data is dropped.\<close>

definition other_frame :: "int \<Rightarrow> int \<Rightarrow> byte list list \<Rightarrow> bool" where
  "other_frame pid isi pkts \<longleftrightarrow> pkts \<noteq> [] \<and> stid_packet pid (hd pkts) \<and> stid_starts (hd pkts) \<and>
     bbheader_mode (stid_bbheader (hd pkts)) AND NOT 1 = 0 \<and> header_isi (stid_bbheader (hd pkts)) = isi \<and>
     (\<forall>p \<in> set (tl pkts). stid_packet pid p \<and> \<not> stid_starts p)"

definition same_table :: "stid_stream \<Rightarrow> stid_stream \<Rightarrow> bool" where
  "same_table stid stid' \<longleftrightarrow> bbf_streams (stid_emb stid') = bbf_streams (stid_emb stid) \<and>
     embedding_pid (stid_emb stid') = embedding_pid (stid_emb stid)"

lemma other_start:
  assumes ok: "stid_ok h stid" and pk: "stid_packet (embedding_pid (stid_emb stid)) packet" "stid_starts packet"
    and isi: "map_of (bbf_streams (stid_emb stid)) (header_isi (stid_bbheader packet)) = None"
    and mode: "bbheader_mode (stid_bbheader packet) AND NOT 1 = 0"
  shows "\<exists>stid'. stid_stream_add_packet h stid packet = Some (h, stid', []) \<and> stid_ok h stid' \<and>
    current_bbf (stid_emb stid') = None \<and> same_table stid stid'"
proof -
  let ?hdr = "stid_bbheader packet"
  let ?isi = "header_isi ?hdr"
  have len: "length packet = 188" using pk by (simp add: stid_packet_def)
  define stid1 where "stid1 = stid\<lparr>stid_emb := (stid_emb stid)\<lparr>packet_count := 0\<rparr>, stid_section_length := uint (packet ! 7)\<rparr>"
  define emb where "emb = embedded_stream_set_matype (stid_emb stid1) (?hdr ! 1) (?hdr ! 0)"
  define emb1 where "emb1 = (if ?isi \<noteq> current_isi emb
    then emb\<lparr>current_bbf := map_of (bbf_streams emb) ?isi, current_isi := ?isi\<rparr> else emb)"
  let ?stid2 = "stid1\<lparr>stid_emb := emb1\<rparr>"
  have "0 \<le> ?isi" by (simp add: header_isi_def)
  then have isi0: "?isi \<noteq> - 1" by linarith
  have cur: "current_bbf emb1 = None" "current_isi emb1 = ?isi" "bbf_streams emb1 = bbf_streams (stid_emb stid)"
    "embedding_pid emb1 = embedding_pid (stid_emb stid)"
    using ok isi isi0 by (auto simp: stid_ok_def Let_def emb1_def emb_def stid1_def)
  obtain b4 where b4: "bytes_at packet 5 4 = Some b4" "b4 ! 3 = 0xB8" "b4 ! 2 = packet ! 7"
    using pk(2) len bytes_at_take [of 5 4 packet] by (simp add: stid_starts_def)
  have b10: "bytes_at packet (5 + 4) 10 = Some ?hdr"
    using len bytes_at_take [of 9 10 packet] by (simp add: stid_bbheader_def)
  have "get_stid_header h stid packet 5 = Some (h, ?stid2, 9, False)"
    unfolding get_stid_header_def b4(1) Option.bind.bind_lunit Let_def b4(2,3) if_True if_P [OF refl] not_True_eq_False if_False
      b10 mode header_isi_def [symmetric] stid1_def [symmetric] emb_def [symmetric] emb1_def [symmetric] cur(1) option.case
    by simp
  then have "stid_stream_add_packet h stid packet = Some (h, ?stid2, [])"
    using pk cur(1) by (simp add: stid_stream_add_packet_def stid_packet_def stid_payload_def)
  moreover have "stid_ok h ?stid2" using ok isi cur by (auto simp: stid_ok_def Let_def)
  ultimately show ?thesis using cur by (intro exI [of _ ?stid2]) (simp add: same_table_def)
qed

lemma other_conts:
  assumes "stid_ok h stid" "current_bbf (stid_emb stid) = None"
    "\<forall>p \<in> set ps. stid_packet (embedding_pid (stid_emb stid)) p \<and> \<not> stid_starts p"
  shows "\<exists>stid'. stid_run h stid ps = Some (h, stid', []) \<and> stid_ok h stid' \<and> same_table stid stid'"
  using assms
proof (induction ps arbitrary: stid)
  case Nil
  then show ?case by (auto simp: same_table_def)
next
  case (Cons p ps)
  let ?stid = "stid\<lparr>stid_emb := (stid_emb stid)\<lparr>packet_count := uint (p ! 8)\<rparr>, stid_section_length := uint (p ! 7)\<rparr>"
  have pk: "stid_packet (embedding_pid (stid_emb stid)) p" "\<not> stid_starts p" "length p = 188"
    using Cons.prems(3) by (auto simp: stid_packet_def)
  have "get_stid_header h stid p 5 = Some (h, ?stid, 9, False)"
    using pk(2,3) bytes_at_take [of 5 4 p] by (simp add: get_stid_header_def stid_starts_def Let_def)
  then have one: "stid_stream_add_packet h stid p = Some (h, ?stid, [])"
    using pk(1) Cons.prems(2) by (simp add: stid_stream_add_packet_def stid_packet_def stid_payload_def)
  have "stid_ok h ?stid" using Cons.prems(1) by (simp add: stid_ok_def Let_def)
  then obtain stid' where "stid_run h ?stid ps = Some (h, stid', [])" "stid_ok h stid'" "same_table ?stid stid'"
    using Cons.IH [of ?stid] Cons.prems(2,3) by auto
  then show ?case using one by (auto simp: same_table_def)
qed

lemma other_frame_spec:
  assumes ok: "stid_ok h stid" and fr: "other_frame (embedding_pid (stid_emb stid)) isi pkts"
    and reg: "map_of (bbf_streams (stid_emb stid)) isi = None"
  shows "\<exists>stid'. stid_run h stid pkts = Some (h, stid', []) \<and> stid_ok h stid' \<and> same_table stid stid'"
proof -
  obtain p ps where pkts: "pkts = p # ps" using fr by (cases pkts) (auto simp: other_frame_def)
  obtain stid1 where s: "stid_stream_add_packet h stid p = Some (h, stid1, [])" "stid_ok h stid1"
    "current_bbf (stid_emb stid1) = None" "same_table stid stid1"
    using other_start [OF ok, of p] fr reg by (auto simp: other_frame_def pkts)
  obtain stid2 where "stid_run h stid1 ps = Some (h, stid2, [])" "stid_ok h stid2" "same_table stid1 stid2"
    using other_conts [OF s(2,3), of ps] fr s(4) by (auto simp: other_frame_def pkts same_table_def)
  then show ?thesis using s(1,4) by (auto simp: pkts same_table_def)
qed

subsection \<open>Frames of several streams\<close>

type_synonym stid_frames = "(int \<times> byte list list) list"

definition stream_data :: "stid_frames \<Rightarrow> int \<Rightarrow> byte list" where
  "stream_data fs isi = concat (map (\<lambda>f. frame_data (snd f)) (filter (\<lambda>f. fst f = isi) fs))"

definition handed_to :: "nat \<Rightarrow> handed_out \<Rightarrow> byte list list" where
  "handed_to fd out = map snd (filter (\<lambda>x. fst x = fd) out)"

text \<open>Registered streams have objects of their own and feeds of their own.\<close>

definition own_feeds :: "bbf_heap \<Rightarrow> (int \<times> nat) list \<Rightarrow> bool" where
  "own_feeds h reg \<longleftrightarrow> (\<forall>i j b c x y. map_of reg i = Some b \<and> map_of reg j = Some c \<and> h b = Some x \<and> h c = Some y \<and>
     (b = c \<or> bbf_feeds x = bbf_feeds y) \<longrightarrow> i = j)"

lemma handed_to_same [simp]: "handed_to fd (map (Pair fd) outs) = outs"
  by (induction outs) (auto simp: handed_to_def)

lemma handed_to_other [simp]: "fd \<noteq> fe \<Longrightarrow> handed_to fd (map (Pair fe) outs) = []"
  by (induction outs) (auto simp: handed_to_def)

lemma handed_to_append [simp]: "handed_to fd (xs @ ys) = handed_to fd xs @ handed_to fd ys"
  by (simp add: handed_to_def)

lemma stream_data_Cons:
  "stream_data ((j, pkts) # fs) i = (if i = j then frame_data pkts @ stream_data fs i else stream_data fs i)"
  by (simp add: stream_data_def)

lemma own_feeds_update:
  assumes "own_feeds h reg" "h b = Some x" "bbf_feeds x' = bbf_feeds x"
  shows "own_feeds (h(b \<mapsto> x')) reg"
  unfolding own_feeds_def
proof (intro allI impI)
  fix i j c d y z
  assume a: "map_of reg i = Some c \<and> map_of reg j = Some d \<and> (h(b \<mapsto> x')) c = Some y \<and> (h(b \<mapsto> x')) d = Some z \<and>
     (c = d \<or> bbf_feeds y = bbf_feeds z)"
  define y0 z0 where "y0 = (if c = b then x else y)" and "z0 = (if d = b then x else z)"
  have "h c = Some y0" "h d = Some z0" "bbf_feeds y0 = bbf_feeds y" "bbf_feeds z0 = bbf_feeds z"
    using a assms(2,3) by (auto simp: y0_def z0_def split: if_splits)
  then show "i = j" using assms(1) a unfolding own_feeds_def by metis
qed

text \<open>The frames of a carrier, those of registered streams in the format of their mode.\<close>

definition carrier_frames :: "stid_stream \<Rightarrow> (int \<Rightarrow> bool) \<Rightarrow> stid_frames \<Rightarrow> bool" where
  "carrier_frames stid hem fs \<longleftrightarrow> (\<forall>(isi, pkts) \<in> set fs.
     if isi \<in> fst ` set (bbf_streams (stid_emb stid)) then stid_frame (embedding_pid (stid_emb stid)) (hem isi) isi pkts
     else other_frame (embedding_pid (stid_emb stid)) isi pkts)"

definition stream_feeds :: "bbf_heap \<Rightarrow> stid_stream \<Rightarrow> nat set" where
  "stream_feeds h stid = {bbf_feeds bbf | isi b bbf. map_of (bbf_streams (stid_emb stid)) isi = Some b \<and> h b = Some bbf}"

lemma carrier_frames_tl: "carrier_frames stid hem (f # fs) \<Longrightarrow> carrier_frames stid hem fs"
  by (simp add: carrier_frames_def)

lemma carrier_frames_same: "same_table stid stid' \<Longrightarrow> carrier_frames stid' hem fs = carrier_frames stid hem fs"
  by (simp add: carrier_frames_def same_table_def)

lemma stid_frames_spec:
  assumes "stid_ok h stid" "own_feeds h (bbf_streams (stid_emb stid))" "carrier_frames stid hem fs"
    "\<forall>isi b bbf. map_of (bbf_streams (stid_emb stid)) isi = Some b \<and> h b = Some bbf \<longrightarrow>
       (\<exists>st. up_run (hem isi) (up_of bbf) (stream_data fs isi) = (st, outs isi, True))"
  shows "\<exists>h' stid' handed. stid_run h stid (concat (map snd fs)) = Some (h', stid', handed) \<and>
    (\<forall>isi b bbf. map_of (bbf_streams (stid_emb stid)) isi = Some b \<and> h b = Some bbf \<longrightarrow>
       handed_to (bbf_feeds bbf) handed = outs isi) \<and> fst ` set handed \<subseteq> stream_feeds h stid"
  using assms
proof (induction fs arbitrary: h stid outs)
  case Nil
  then show ?case by (auto simp: stream_data_def handed_to_def)
next
  case (Cons f fs)
  obtain i pkts where f: "f = (i, pkts)" by (cases f)
  let ?reg = "bbf_streams (stid_emb stid)"
  show ?case
  proof (cases "i \<in> fst ` set ?reg")
    case unknown: False
    then have none: "map_of ?reg i = None" by (simp add: map_of_eq_None_iff)
    have "other_frame (embedding_pid (stid_emb stid)) i pkts" using Cons.prems(3) unknown by (simp add: carrier_frames_def f)
    then obtain stid1 where s: "stid_run h stid pkts = Some (h, stid1, [])" "stid_ok h stid1" "same_table stid stid1"
      using other_frame_spec [OF Cons.prems(1) _ none] by blast
    have tab: "bbf_streams (stid_emb stid1) = ?reg" "embedding_pid (stid_emb stid1) = embedding_pid (stid_emb stid)"
      using s(3) by (simp_all add: same_table_def)
    have "carrier_frames stid1 hem fs" using carrier_frames_tl [OF Cons.prems(3)] carrier_frames_same [OF s(3)] by simp
    moreover have "\<forall>isi b bbf. map_of (bbf_streams (stid_emb stid1)) isi = Some b \<and> h b = Some bbf \<longrightarrow>
       (\<exists>st. up_run (hem isi) (up_of bbf) (stream_data fs isi) = (st, outs isi, True))"
    proof (intro allI impI)
      fix isi b bbf assume a: "map_of (bbf_streams (stid_emb stid1)) isi = Some b \<and> h b = Some bbf"
      then have "isi \<noteq> i" using none by (auto simp: tab)
      then show "\<exists>st. up_run (hem isi) (up_of bbf) (stream_data fs isi) = (st, outs isi, True)"
        using Cons.prems(4) [rule_format, of isi b bbf] a by (simp add: tab f stream_data_Cons)
    qed
    ultimately obtain h' stid' handed where t: "stid_run h stid1 (concat (map snd fs)) = Some (h', stid', handed)"
      "\<forall>isi b bbf. map_of ?reg isi = Some b \<and> h b = Some bbf \<longrightarrow> handed_to (bbf_feeds bbf) handed = outs isi"
      "fst ` set handed \<subseteq> stream_feeds h stid1"
      using Cons.IH [OF s(2)] Cons.prems(2) unfolding tab by blast
    then have "stid_run h stid (concat (map snd (f # fs))) = Some (h', stid', handed)"
      using s(1) by (simp add: f stid_run_append)
    then show ?thesis using t(2,3) by (auto simp: stream_feeds_def tab)
  next
    case known: True
  obtain b where b: "map_of ?reg i = Some b"
    using known by (metis map_of_eq_None_iff not_None_eq)
  obtain bbf where bbf: "h b = Some bbf" using stid_ok_stream [OF Cons.prems(1) b] by auto
  have fr: "stid_frame (embedding_pid (stid_emb stid)) (hem i) i pkts" using Cons.prems(3) known by (simp add: carrier_frames_def f)
  obtain st where "up_run (hem i) (up_of bbf) (frame_data pkts @ stream_data fs i) = (st, outs i, True)"
    using Cons.prems(4) [rule_format, of i b bbf] b bbf by (auto simp: f stream_data_Cons)
  then obtain st1 o1 o2 where r: "up_run (hem i) (up_of bbf) (frame_data pkts) = (st1, o1, True)"
    "up_run (hem i) st1 (stream_data fs i) = (st, o2, True)" "outs i = o1 @ o2"
    by (rule up_run_prefix_ok)
  obtain bbf1 stid1 where s: "stid_run h stid pkts = Some (h(b \<mapsto> bbf1), stid1, map (Pair (bbf_feeds bbf)) o1)"
    "stid_ok (h(b \<mapsto> bbf1)) stid1" "up_of bbf1 = st1" "bbf_feeds bbf1 = bbf_feeds bbf"
    "bbf_streams (stid_emb stid1) = ?reg" "embedding_pid (stid_emb stid1) = embedding_pid (stid_emb stid)"
    using stid_frame_spec [where h = h, OF Cons.prems(1) fr b bbf r(1)] by blast
  have own1: "own_feeds (h(b \<mapsto> bbf1)) (bbf_streams (stid_emb stid1))"
    unfolding s(5) by (rule own_feeds_update [OF Cons.prems(2) bbf s(4)])
  let ?outs = "outs(i := o2)"
  have same: "j = i" if "map_of ?reg j = Some c" "h c = Some x" "c = b \<or> bbf_feeds x = bbf_feeds bbf" for j c x
    using Cons.prems(2) b bbf that unfolding own_feeds_def by metis
  have run1: "\<exists>st. up_run (hem j) (up_of x) (stream_data fs j) = (st, ?outs j, True)"
    if j: "map_of (bbf_streams (stid_emb stid1)) j = Some c" "(h(b \<mapsto> bbf1)) c = Some x" for j c x
  proof (cases "c = b")
    case True
    then have "x = bbf1" "j = i" using j same [of j b bbf] bbf by (auto simp: s(5))
    then show ?thesis using r(2) s(3) by auto
  next
    case False
    then have h: "h c = Some x" using j by simp
    then have "j \<noteq> i" using j b False by (auto simp: s(5))
    then show ?thesis using Cons.prems(4) [rule_format, of j c x] j h by (auto simp: f stream_data_Cons s(5))
  qed
  obtain h2 stid2 handed where t: "stid_run (h(b \<mapsto> bbf1)) stid1 (concat (map snd fs)) = Some (h2, stid2, handed)"
    "\<forall>j c x. map_of (bbf_streams (stid_emb stid1)) j = Some c \<and> (h(b \<mapsto> bbf1)) c = Some x \<longrightarrow>
       handed_to (bbf_feeds x) handed = ?outs j" "fst ` set handed \<subseteq> stream_feeds (h(b \<mapsto> bbf1)) stid1"
  proof -
    have cf: "carrier_frames stid1 hem fs"
      using carrier_frames_tl [OF Cons.prems(3)] carrier_frames_same [of stid stid1 hem fs] s(5,6)
      by (simp add: same_table_def)
    have runs: "\<forall>j c x. map_of (bbf_streams (stid_emb stid1)) j = Some c \<and> (h(b \<mapsto> bbf1)) c = Some x \<longrightarrow>
       (\<exists>st. up_run (hem j) (up_of x) (stream_data fs j) = (st, ?outs j, True))"
      by (intro allI impI, elim conjE, rule run1)
    show ?thesis using Cons.IH [OF s(2) own1 cf runs] by (elim exE conjE) (rule that)
  qed
  have run_all: "stid_run h stid (concat (map snd (f # fs))) = Some (h2, stid2, map (Pair (bbf_feeds bbf)) o1 @ handed)"
    using s(1) t(1) by (simp add: f stid_run_append)
  have each_own: "handed_to (bbf_feeds x) (map (Pair (bbf_feeds bbf)) o1 @ handed) = outs j"
    if j: "map_of ?reg j = Some c" "h c = Some x" for j c x
  proof (cases "j = i")
    case True
    then have "c = b" "x = bbf" using j b bbf by auto
    moreover have "handed_to (bbf_feeds bbf1) handed = ?outs i"
      using t(2) b by (metis fun_upd_same s(5))
    ultimately show ?thesis using r(3) s(4) True by simp
  next
    case False
    then have ne: "c \<noteq> b" "bbf_feeds x \<noteq> bbf_feeds bbf" using same j by auto
    then have "handed_to (bbf_feeds x) handed = ?outs j"
      using t(2) j by (metis fun_upd_other s(5))
    then show ?thesis using ne False by simp
  qed
  moreover have "stream_feeds (h(b \<mapsto> bbf1)) stid1 = stream_feeds h stid"
  proof -
    have "\<exists>y. h c = Some y \<and> bbf_feeds y = bbf_feeds x" if "(h(b \<mapsto> bbf1)) c = Some x" for c x
      using that bbf s(4) by (auto split: if_splits)
    moreover have "\<exists>y. (h(b \<mapsto> bbf1)) c = Some y \<and> bbf_feeds y = bbf_feeds x" if "h c = Some x" for c x
      using that bbf s(4) by (cases "c = b") auto
    ultimately show ?thesis unfolding stream_feeds_def s(5) by (metis (no_types, lifting))
  qed
  moreover have "bbf_feeds bbf \<in> stream_feeds h stid" using b bbf by (auto simp: stream_feeds_def)
  ultimately have "fst ` set (map (Pair (bbf_feeds bbf)) o1 @ handed) \<subseteq> stream_feeds h stid" using t(3) by auto
  then show ?thesis using run_all each_own by blast
  qed
qed

subsection \<open>T2-MI: lost streams and endless loops\<close>

text \<open>The position at which neither a header nor a checksum is expected.\<close>

definition in_payload :: "t2mi_stream \<Rightarrow> bool" where
  "in_payload t \<longleftrightarrow> t2mi_synced t \<and> t2mi_payload_bytes_left t \<noteq> 0 \<and> header_idx t = 0 \<and> bbheader_bytes_left t \<le> 0"

lemma payload_turn:
  assumes "in_payload t"
  shows "t2mi_turn packet (h, t, p, out) =
    (case current_bbf (t2mi_emb t) of
       None \<Rightarrow> Some (Inl (h, t, out))
     | Some b \<Rightarrow> then_part (t2mi_read_payload packet b (h, t, p, out)) (t2mi_read_crc packet))"
  using assms
  by (simp add: t2mi_turn_def t2mi_read_header_def t2mi_read_bbheader_def then_part_def in_payload_def
      t2mi_frame_is_complete_def)

text \<open>A stream whose current PLP nobody has asked for.\<close>

definition lost :: "t2mi_stream \<Rightarrow> bool" where
  "lost t \<longleftrightarrow> in_payload t \<and> current_bbf (t2mi_emb t) = None"

definition t2mi_new_cc :: "byte list \<Rightarrow> int" where
  "t2mi_new_cc packet = uint (packet ! 3 AND 0x0f)"

fun t2mi_run_packets :: "bbf_heap \<Rightarrow> t2mi_stream \<Rightarrow> byte list list \<Rightarrow> t2mi_result option" where
  "t2mi_run_packets h t [] = Some (h, t, [])"
| "t2mi_run_packets h t (p # ps) =
     Option.bind (t2mi_stream_add_packet h t p) (\<lambda>(h1, t1, o1).
       map_option (\<lambda>(h2, t2, o2). (h2, t2, o1 @ o2)) (t2mi_run_packets h1 t1 ps))"

text \<open>Packets of the embedding PID with a payload and consecutive counters.\<close>

fun t2mi_packets :: "int \<Rightarrow> int \<Rightarrow> byte list list \<Rightarrow> bool" where
  "t2mi_packets pid cc [] = True"
| "t2mi_packets pid cc (p # ps) =
     (length p = 188 \<and> ts_packet_pid p = pid \<and> bit (p ! 3) 4 \<and> \<not> bit (p ! 3) 5 \<and> p ! 3 AND 0xC0 = 0 \<and>
      t2mi_new_cc p = (cc + 1) mod 16 \<and> t2mi_packets pid (t2mi_new_cc p) ps)"

lemma lost_takes_cc:
  assumes l: "lost t" and p: "t2mi_packets (embedding_pid (t2mi_emb t)) (cc_counter (t2mi_emb t)) [p]"
  shows "\<exists>t'. t2mi_stream_add_packet h t p = Some (h, t', []) \<and> lost t' \<and>
    cc_counter (t2mi_emb t') = t2mi_new_cc p \<and> embedding_pid (t2mi_emb t') = embedding_pid (t2mi_emb t)"
proof -
  let ?t1 = "t\<lparr>t2mi_emb := (t2mi_emb t)\<lparr>cc_counter := t2mi_new_cc p\<rparr>\<rparr>"
  have l1: "lost ?t1" using l by (simp add: lost_def in_payload_def)
  have loop: "t2mi_loop p (h, ?t1, k, []) = Some (h, ?t1, [])" for k
    using payload_turn [of ?t1 p h k "[]"] l1 by (subst t2mi_loop.simps) (simp add: lost_def)
  have sy: "t2mi_synced t" using l by (simp add: lost_def in_payload_def)
  have start: "t2mi_unit_start ?t1 p 4 = Some (Inl ?t1) \<or> t2mi_unit_start ?t1 p 4 = Some (Inr 5)"
    using sy p by (simp add: t2mi_unit_start_def byte_at_def mem_at_def Let_def)
  have "t2mi_stream_add_packet h t p = Some (h, ?t1, [])"
    using p sy start loop unfolding t2mi_stream_add_packet_def Let_def t2mi_new_cc_def [symmetric]
    by auto
  then show ?thesis using l1 by auto
qed

lemma lost_forever:
  "lost t \<Longrightarrow> t2mi_packets (embedding_pid (t2mi_emb t)) (cc_counter (t2mi_emb t)) ps \<Longrightarrow>
   \<exists>t'. t2mi_run_packets h t ps = Some (h, t', []) \<and> lost t'"
proof (induction ps arbitrary: t)
  case (Cons p ps)
  obtain t1 where t1: "t2mi_stream_add_packet h t p = Some (h, t1, [])" "lost t1"
    "cc_counter (t2mi_emb t1) = t2mi_new_cc p" "embedding_pid (t2mi_emb t1) = embedding_pid (t2mi_emb t)"
    using lost_takes_cc [OF Cons.prems(1), of p h] Cons.prems(2) by auto
  obtain t2 where "t2mi_run_packets h t1 ps = Some (h, t2, [])" "lost t2"
    using Cons.IH [OF t1(2)] t1(3,4) Cons.prems(2) by auto
  then show ?case using t1(1) by simp
qed simp

text \<open>
  A loop whose turns go round a set of states never returns: its value is \<^const>\<open>None\<close> although
  no turn fails.
\<close>

lemma t2mi_loop_diverges:
  assumes inv: "\<And>s. s \<in> S \<Longrightarrow> \<exists>s' \<in> S. t2mi_turn packet s = Some (Inr s')"
    and pos: "\<And>h t p out. (h, t, p, out) \<in> S \<Longrightarrow> p < 188" and s: "run \<in> S"
  shows "t2mi_loop packet run = None"
proof -
  have "pkt = packet \<longrightarrow> r \<notin> S" if "t2mi_loop pkt r = Some res" for pkt r res
  proof (rule t2mi_loop.raw_induct [where P = "\<lambda>pkt r res. pkt = packet \<longrightarrow> r \<notin> S", OF _ that])
    fix loop :: "byte list \<Rightarrow> t2mi_run \<Rightarrow> t2mi_result option" and pkt r res
    assume IH: "\<And>pkt r res. loop pkt r = Some res \<Longrightarrow> pkt = packet \<longrightarrow> r \<notin> S"
      and step: "(case r of (h, t, p, out) \<Rightarrow>
        if p < 188
        then Option.bind (t2mi_turn pkt r) (\<lambda>r. case r of Inl res \<Rightarrow> Some res | Inr run' \<Rightarrow> loop pkt run')
        else Some (h, t, out)) = Some res"
    show "pkt = packet \<longrightarrow> r \<notin> S"
    proof (intro impI notI)
      assume pkt: "pkt = packet" and r: "r \<in> S"
      obtain h t p out where run: "r = (h, t, p, out)" by (cases r)
      then have "p < 188" using pos r by blast
      moreover obtain r' where r': "r' \<in> S" "t2mi_turn packet r = Some (Inr r')" using inv [OF r] by blast
      ultimately have "loop pkt r' = Some res" using step by (simp add: run pkt)
      then show False using IH pkt r'(1) by blast
    qed
  qed
  then show ?thesis using s by (cases "t2mi_loop packet run") auto
qed

lemma t2mi_stuck_turn:
  assumes t: "in_payload t" "packet_type t = 0" "0 < t2mi_payload_bytes_left t" "current_bbf (t2mi_emb t) = Some b"
    and bbf: "h b = Some bbf" "stuck_at bbf (min (t2mi_payload_bytes_left t) (188 - p))"
    and p: "0 \<le> p" "p < 188" "length packet = 188"
  shows "\<exists>c. t2mi_turn packet (h, t, p, out) = Some (Inr (h, t\<lparr>t2mi_crc32 := c\<rparr>, p, out))"
proof -
  let ?n = "min (t2mi_payload_bytes_left t) (188 - p)"
  have n: "0 < ?n" using t(3) p by simp
  obtain bs where bs: "bytes_at packet p ?n = Some bs"
    using bytes_at_take [of p ?n packet] p n by force
  have "bbf_output_ts_bytes bbf packet p ?n = Some (bbf, Some p, [])" by (rule stuck_output [OF bbf(2)])
  moreover have "h(b \<mapsto> bbf) = h" using bbf(1) by (simp add: fun_upd_idem)
  ultimately have "t2mi_read_payload packet b (h, t, p, out) =
      Some (Inr (h, t\<lparr>t2mi_crc32 := extend_crc32 (t2mi_crc32 t) bs\<rparr>, p, out))"
    using n bs bbf(1) t(2,3) p by (simp add: t2mi_read_payload_def Let_def not_le [symmetric])
  then show ?thesis
    using payload_turn [OF t(1), of packet h p out] t(1,4)
    by (auto simp: then_part_def t2mi_read_crc_def in_payload_def)
qed

lemma t2mi_stuck_loop:
  assumes t: "in_payload t" "packet_type t = 0" "0 < t2mi_payload_bytes_left t" "current_bbf (t2mi_emb t) = Some b"
    and bbf: "h b = Some bbf" "stuck_at bbf (min (t2mi_payload_bytes_left t) (188 - p))"
    and p: "0 \<le> p" "p < 188" "length packet = 188"
  shows "t2mi_loop packet (h, t, p, out) = None"
proof (rule t2mi_loop_diverges [where S = "range (\<lambda>c. (h, t\<lparr>t2mi_crc32 := c\<rparr>, p, out))"])
  fix s assume "s \<in> range (\<lambda>c. (h, t\<lparr>t2mi_crc32 := c\<rparr>, p, out))"
  then obtain c where s: "s = (h, t\<lparr>t2mi_crc32 := c\<rparr>, p, out)" by blast
  have "in_payload (t\<lparr>t2mi_crc32 := c\<rparr>)" using t(1) by (simp add: in_payload_def)
  from t2mi_stuck_turn [where h = h and b = b and bbf = bbf and p = p and packet = packet and out = out, OF this] t bbf p
  obtain d where "t2mi_turn packet s = Some (Inr (h, t\<lparr>t2mi_crc32 := d\<rparr>, p, out))" by (auto simp: s)
  then show "\<exists>s' \<in> range (\<lambda>c. (h, t\<lparr>t2mi_crc32 := c\<rparr>, p, out)). t2mi_turn packet s = Some (Inr s')" by blast
next
  show "(h, t, p, out) \<in> range (\<lambda>c. (h, t\<lparr>t2mi_crc32 := c\<rparr>, p, out))"
    by (rule range_eqI [of _ _ "t2mi_crc32 t"]) simp
qed (use p(2) in auto)

subsection \<open>Properties\<close>

definition demo_emb :: embedded_stream where
  "demo_emb = \<lparr>embedded_stream_type = EMBEDDED_STREAM_TYPE_STID, embedding_pid = 270, bbf_streams = [(7, 0)],
     emb_refcount = 1, emb_parent_feeds = 0, payload_len = 0, packet_count = - 1, bbf_header_crc8 = - 1,
     current_isi = - 1, current_bbf = None, cc_counter = - 1, isi_plp_bitset = replicate 8 0,
     high_rolloff_mode = replicate 8 0, num_streams = 0, matypes = replicate 256 0\<rparr>"

text \<open>
  C26.  The table of streams of a multistream carrier is right after any sequence of headers:
  the bit set has exactly the streams seen, \<open>num_streams\<close> is their number, the matype kept of
  a stream is the first one with an ordinary roll-off (the first one if all signal a low
  roll-off), and the roll-off flag is set exactly for the streams that signalled both.
\<close>

theorem matypes_recorded:
  assumes "embedded_stream_reset True h emb = Some (h', emb')"
  shows "matype_table (fold (\<lambda>(isi, matype) e. embedded_stream_set_matype e isi matype) obs emb') obs"
proof -
  have "matype_table emb' []"
    using assms by (auto simp: embedded_stream_reset_def matype_table_def seen_def mixed_rolloff_def Let_def)
  from set_matype_table [OF this, of obs] show ?thesis by simp
qed

theorem matypes_recorded_witness:
  "matype_table (fold (\<lambda>(isi, matype) e. embedded_stream_set_matype e isi matype)
     [(5, 0x63), (9, 0x60), (5, 0x62)]
     (demo_emb\<lparr>bbf_streams := [], current_isi := - 1\<rparr>)) [(5, 0x63), (9, 0x60), (5, 0x62)]"
  by (rule matypes_recorded [of "\<lambda>_. None" "demo_emb\<lparr>bbf_streams := []\<rparr>" "\<lambda>_. None"])
    (simp add: embedded_stream_reset_def demo_emb_def)

text \<open>
  C2.  Demultiplexing a multistream carrier: frames of any number of streams follow each other in
  any order, each spread over packets of the stid135 format (without adaptation fields, with
  headers whose checksum is right), some of them of streams that are registered and some of
  streams that nobody has asked for.  Every transport packet that a registered stream encodes (of
  188 bytes, from its first frame on) comes out at the feeds of that stream, once, in order,
  unchanged; nothing of another stream is mixed in, whether that is registered or not; and
  nothing is handed to any other feeds.  Registered streams are taken to be at the start of a
  packet when the first frame comes, and to have feeds of their own.
\<close>

theorem stid_demultiplexes:
  assumes ok: "stid_ok h stid" and own: "own_feeds h (bbf_streams (stid_emb stid))"
    and frames: "carrier_frames stid hem fs"
    and enc: "\<forall>isi \<in> fst ` set (bbf_streams (stid_emb stid)).
       stream_data fs isi = ups_enc (hem isi) (c isi) (us isi) \<and> list_all ts_packet (us isi)"
    and start: "\<forall>isi b bbf. map_of (bbf_streams (stid_emb stid)) isi = Some b \<and> h b = Some bbf \<longrightarrow>
       (\<exists>crc. up_of bbf = (None, crc) \<and> (hem isi \<or> crc = uint (c isi) \<or> crc < 0))"
  shows "\<exists>h' stid' handed. stid_run h stid (concat (map snd fs)) = Some (h', stid', handed) \<and>
    (\<forall>isi b bbf. map_of (bbf_streams (stid_emb stid)) isi = Some b \<and> h b = Some bbf \<longrightarrow>
       handed_to (bbf_feeds bbf) handed = us isi) \<and> fst ` set handed \<subseteq> stream_feeds h stid"
proof (rule stid_frames_spec [where hem = hem, OF ok own frames], intro allI impI)
  fix isi b bbf assume a: "map_of (bbf_streams (stid_emb stid)) isi = Some b \<and> h b = Some bbf"
  then obtain crc where "up_of bbf = (None, crc)" "hem isi \<or> crc = uint (c isi) \<or> crc < 0"
    using start by blast
  moreover have "isi \<in> fst ` set (bbf_streams (stid_emb stid))" using a by (force dest: map_of_SomeD)
  ultimately show "\<exists>st. up_run (hem isi) (up_of bbf) (stream_data fs isi) = (st, us isi, True)"
    using up_run_encoded [of "us isi" "hem isi" crc "c isi"] enc by metis
qed

text \<open>One packet in high efficiency mode, in a frame of two packets of the carrier.\<close>

definition demo_hdr :: "byte list" where
  "demo_hdr = (let h = [0x40, 7, 0, 0, 0x05, 0xd8, 0x47, 0, 0] in h @ [compute_crc8 h XOR 1])"

definition demo_stid_pkts :: "byte list list" where
  "demo_stid_pkts =
     [[0x47, 0x41, 0x0e, 0x10, 0, 0x80, 0, 0xb4, 0xb8] @ demo_hdr @ replicate 169 3,
      [0x47, 0x41, 0x0e, 0x11, 0, 0x80, 0, 0xb4, 1] @ replicate 18 3 @ replicate 161 0]"

definition demo_other_hdr :: "byte list" where
  "demo_other_hdr = (let h = [0x40, 8, 0, 0, 0x05, 0xd8, 0x47, 0, 0] in h @ [compute_crc8 h XOR 1])"

text \<open>The same in a stream that is not registered, in front of it.\<close>

definition demo_other_pkts :: "byte list list" where
  "demo_other_pkts =
     [[0x47, 0x41, 0x0e, 0x1e, 0, 0x80, 0, 0xb4, 0xb8] @ demo_other_hdr @ replicate 169 9,
      [0x47, 0x41, 0x0e, 0x1f, 0, 0x80, 0, 0xb4, 1] @ replicate 18 9 @ replicate 161 0]"

theorem stid_demultiplexes_witness:
  "\<exists>h' stid' handed. stid_run [0 \<mapsto> demo_running] \<lparr>stid_emb = demo_emb, stid_section_length = 0\<rparr>
      (concat (map snd [(8 :: int, demo_other_pkts), (7, demo_stid_pkts)])) = Some (h', stid', handed) \<and>
    handed_to 0 handed = [0x47 # replicate 187 3]"
proof -
  let ?stid = "\<lparr>stid_emb = demo_emb, stid_section_length = 0\<rparr>" and ?h = "[0 \<mapsto> demo_running]"
  let ?us = "\<lambda>isi :: int. if isi = 7 then [0x47 # replicate 187 (3 :: byte)] else []"
  let ?fs = "[(8 :: int, demo_other_pkts), (7, demo_stid_pkts)]"
  have hdr: "length demo_hdr = 10" "take 9 demo_hdr = [0x40, 7, 0, 0, 0x05, 0xd8, 0x47, 0, 0]"
    by (simp_all add: demo_hdr_def)
  have bb: "stid_bbheader (hd demo_stid_pkts) = demo_hdr" "stid_starts (hd demo_stid_pkts)"
    using hdr(1) by (simp_all add: stid_bbheader_def demo_stid_pkts_def stid_starts_def)
  have f: "be16 demo_hdr 4 div 8 = 187" "header_isi demo_hdr = 7"
    by (simp_all add: be16_def demo_hdr_def header_isi_def nth_Cons' Let_def bit_numeral_rec)
  have mode: "bbheader_mode demo_hdr = 1"
    unfolding bbheader_mode_def by (simp add: demo_hdr_def Let_def flip: xor.assoc)
  have frame: "stid_frame 270 True 7 demo_stid_pkts"
    unfolding stid_frame_def bb(1) Let_def f mode
    using bb(2) hdr(1)
    by (simp add: demo_stid_pkts_def stid_packet_def stid_starts_def ts_packet_pid_def bit_numeral_rec)
  have data: "frame_data demo_stid_pkts = replicate 187 3"
    unfolding frame_data_def bb(1) f using hdr(1)
    by (simp add: demo_stid_pkts_def stid_data_def stid_starts_def flip: replicate_add)
  have ohdr: "length demo_other_hdr = 10" by (simp add: demo_other_hdr_def)
  have obb: "stid_bbheader (hd demo_other_pkts) = demo_other_hdr" "stid_starts (hd demo_other_pkts)"
    using ohdr by (simp_all add: stid_bbheader_def demo_other_pkts_def stid_starts_def)
  have of8: "header_isi demo_other_hdr = 8"
    by (simp add: demo_other_hdr_def header_isi_def nth_Cons' Let_def bit_numeral_rec)
  have omode: "bbheader_mode demo_other_hdr = 1"
    unfolding bbheader_mode_def by (simp add: demo_other_hdr_def Let_def flip: xor.assoc)
  have other: "other_frame 270 8 demo_other_pkts"
    unfolding other_frame_def obb(1) of8 omode
    using obb(2) ohdr
    by (simp add: demo_other_pkts_def stid_packet_def stid_starts_def ts_packet_pid_def bit_numeral_rec)
  have e: "embedding_pid demo_emb = 270" "bbf_streams demo_emb = [(7, 0)]" "current_bbf demo_emb = None"
    "current_isi demo_emb = - 1" by (simp_all add: demo_emb_def)
  have "\<exists>h' stid' handed. stid_run ?h ?stid (concat (map snd ?fs)) = Some (h', stid', handed) \<and>
    (\<forall>isi b bbf. map_of (bbf_streams (stid_emb ?stid)) isi = Some b \<and> ?h b = Some bbf \<longrightarrow>
       handed_to (bbf_feeds bbf) handed = ?us isi) \<and> fst ` set handed \<subseteq> stream_feeds ?h ?stid"
  proof (rule stid_demultiplexes [where hem = "\<lambda>_. True" and c = "\<lambda>_. 0"])
    show "stid_ok ?h ?stid" using demo_in_step by (auto simp: stid_ok_def e)
    show "own_feeds ?h (bbf_streams (stid_emb ?stid))" by (auto simp: own_feeds_def e split: if_splits)
    show "carrier_frames ?stid (\<lambda>_. True) ?fs" using frame other by (simp add: carrier_frames_def e)
    show "\<forall>isi \<in> fst ` set (bbf_streams (stid_emb ?stid)).
        stream_data ?fs isi = ups_enc True 0 (?us isi) \<and> list_all ts_packet (?us isi)"
      by (simp add: stream_data_def data ts_packet_def e)
    show "\<forall>isi b bbf. map_of (bbf_streams (stid_emb ?stid)) isi = Some b \<and> ?h b = Some bbf \<longrightarrow>
       (\<exists>crc. up_of bbf = (None, crc) \<and> (True \<or> crc = uint (0 :: byte) \<or> crc < 0))"
      using demo_in_step(2) by (auto simp: e split: if_splits)
  qed
  moreover have "bbf_feeds demo_running = 0"
    by (simp add: demo_running_def parse_bbheader_def Let_def demo_bbf_def bbframes_stream_reset_def)
  ultimately show ?thesis by (force simp: e)
qed

text \<open>
  A packet of the carrier whose adaptation field leaves no room for the header makes the
  receiver read beyond the packet: the length of the adaptation field is not checked.
\<close>

theorem stid_adaptation_overread:
  assumes "length packet = 188" "ts_packet_pid packet = embedding_pid (stid_emb stid)" "bit (packet ! 3) 5"
    "179 \<le> unat (packet ! 4)"
  shows "stid_stream_add_packet h stid packet = None"
proof -
  obtain n where n: "uint (packet ! 4) = int n" "179 \<le> n" using assms(4) by (metis of_nat_unat)
  then have "bytes_at packet (4 + 1 + uint (packet ! 4) + 1) 4 = None"
    using assms(1) by (simp add: bytes_at_def memread_def nat_plus_as_int)
  then show ?thesis using assms(2,3) by (simp add: stid_stream_add_packet_def get_stid_header_def)
qed

theorem stid_adaptation_overread_witness:
  "stid_stream_add_packet Map.empty \<lparr>stid_emb = demo_emb, stid_section_length = 0\<rparr>
    ([0x47, 0x41, 0x0e, 0x30, 183] @ replicate 183 0) = None"
  by (rule stid_adaptation_overread) (simp_all add: ts_packet_pid_def demo_emb_def bit_numeral_rec)

definition demo_t2mi :: t2mi_stream where
  "demo_t2mi = \<lparr>t2mi_emb = demo_emb\<lparr>embedded_stream_type := EMBEDDED_STREAM_TYPE_T2MI, cc_counter := 4\<rparr>,
     default_isi = - 1, packet_type = 0, superframe_idx = 0, crc_idx = 0, t2mi_synced = True, frame_idx = 0,
     plp_id = 1, packet_header_isi = 0, intl_frame_start = 0, t2mi_crc32 = 0, t2mi_payload_bytes_left = 500,
     bbheader_bytes_left = 0, header_idx = 0, bbheader_idx = 0, t2mi_buff = replicate 188 0,
     num_cc_errors = 0, num_crc8_errors = 0, num_crc32_errors = 0\<rparr>"

definition demo_t2mi_pkt :: "byte list" where
  "demo_t2mi_pkt = [0x47, 0x01, 0x0e, 0x15] @ replicate 184 0"

text \<open>
  A frame of a physical layer pipe that nobody has asked for stops a T2-MI receiver for
  good: the payload of the frame is not skipped, so that the receiver stays in the middle of
  it; from then on every packet of an undisturbed stream is ignored.
\<close>

theorem t2mi_lost_forever:
  assumes "in_payload t" "current_bbf (t2mi_emb t) = None"
    "t2mi_packets (embedding_pid (t2mi_emb t)) (cc_counter (t2mi_emb t)) ps"
  shows "\<exists>t'. t2mi_run_packets h t ps = Some (h, t', []) \<and> in_payload t'"
  using lost_forever [of t ps h] assms by (auto simp: lost_def)

theorem t2mi_lost_forever_witness:
  "\<exists>t'. t2mi_run_packets Map.empty demo_t2mi [demo_t2mi_pkt] = Some (Map.empty, t', []) \<and> in_payload t'"
  by (rule t2mi_lost_forever)
    (simp_all add: in_payload_def demo_t2mi_def demo_emb_def demo_t2mi_pkt_def ts_packet_pid_def t2mi_new_cc_def
      bit_numeral_rec)

text \<open>
  C27.  A user packet length in a baseband header that does not fit the packet buffer makes the
  T2-MI receiver loop forever in the middle of the next packet: every turn of its loop only
  changes the checksum register, and no turn ends the loop.
\<close>

theorem t2mi_endless_loop:
  assumes "in_payload t" "packet_type t = 0" "0 < t2mi_payload_bytes_left t"
    "current_bbf (t2mi_emb t) = Some b" "h b = Some bbf" "stuck_at bbf (min (t2mi_payload_bytes_left t) 184)"
    "t2mi_packets (embedding_pid (t2mi_emb t)) (cc_counter (t2mi_emb t)) [packet]" "\<not> bit (packet ! 1) 6"
  shows "(\<forall>c out. \<exists>d. t2mi_turn packet (h, t\<lparr>t2mi_crc32 := c\<rparr>, 4, out) =
      Some (Inr (h, t\<lparr>t2mi_crc32 := d\<rparr>, 4, out))) \<and>
    t2mi_stream_add_packet h t packet = None"
proof
  let ?t = "t\<lparr>t2mi_emb := (t2mi_emb t)\<lparr>cc_counter := t2mi_new_cc packet\<rparr>\<rparr>"
  have len: "length packet = 188" using assms(7) by simp
  show "\<forall>c out. \<exists>d. t2mi_turn packet (h, t\<lparr>t2mi_crc32 := c\<rparr>, 4, out) = Some (Inr (h, t\<lparr>t2mi_crc32 := d\<rparr>, 4, out))"
  proof (intro allI)
    fix c out
    have "in_payload (t\<lparr>t2mi_crc32 := c\<rparr>)" using assms(1) by (simp add: in_payload_def)
    from t2mi_stuck_turn [where h = h and b = b and bbf = bbf and p = 4 and packet = packet and out = out, OF this]
    show "\<exists>d. t2mi_turn packet (h, t\<lparr>t2mi_crc32 := c\<rparr>, 4, out) = Some (Inr (h, t\<lparr>t2mi_crc32 := d\<rparr>, 4, out))"
      using assms len by simp
  qed
  have "in_payload ?t" using assms(1) by (simp add: in_payload_def)
  then have "t2mi_loop packet (h, ?t, 4, []) = None"
    by (rule t2mi_stuck_loop [where b = b and bbf = bbf]) (use assms len in simp_all)
  moreover have "t2mi_synced t" using assms(1) by (simp add: in_payload_def)
  ultimately show "t2mi_stream_add_packet h t packet = None"
    using assms(7,8) by (simp add: t2mi_stream_add_packet_def Let_def t2mi_new_cc_def [symmetric])
qed

text \<open>User packets of 1024 bytes, 50 bytes into the first one.\<close>

definition demo_stuck :: bbframes_stream where
  "demo_stuck = (parse_bbheader demo_running False 7 [0, 7, 0x20, 0, 0x20, 0, 0x47, 0, 0, 0])
     \<lparr>bbf_ts := demo_ts\<lparr>ts_synced := True, ts_buff_idx := 50\<rparr>\<rparr>"

theorem t2mi_endless_loop_witness:
  "t2mi_stream_add_packet [0 \<mapsto> demo_stuck] (demo_t2mi\<lparr>t2mi_emb := demo_emb\<lparr>current_bbf := Some 0, cc_counter := 4\<rparr>\<rparr>)
     demo_t2mi_pkt = None"
  by (rule t2mi_endless_loop [where b = 0 and bbf = demo_stuck, THEN conjunct2])
    (simp_all add: in_payload_def demo_t2mi_def demo_emb_def demo_t2mi_pkt_def ts_packet_pid_def t2mi_new_cc_def
      bit_numeral_rec stuck_at_def demo_stuck_def demo_ts_def parse_bbheader_def be16_def nth_Cons' Let_def)

end
