(* ===== verification/Demux.thy ===== *)
theory Demux
  imports DemuxFeed EmbeddedStreams
begin

text \<open>
  The packet path of the demux (neumo-dvb-demux.c): the distribution of a transport packet to
  the output feeds and embedded streams of a \<open>struct neumo_dvb_demux_feeds\<close>
  (\<open>neumo_dvb_dmx_swfilter_packet\<close>), and the entry points that cut the driver's buffers into
  packets (\<open>neumo_dvb_dmx_swfilter_packets\<close>, \<open>neumo_dvb_dmx_swfilter\<close>, \<open>_204\<close>, \<open>_raw\<close>).

  One record holds the state of the demux, the heaps of the objects that the code allocates for
  it included.  Output feeds are positions in the feed array; a list of them is a list of
  positions.  An object that is gone, or an access outside an array, gives \<^const>\<open>None\<close>.

  A stream that de-embeds packets calls the distribution for each of them while it still
  processes the carrier packet.  The model of the streams returns the packets instead, and the
  distribution passes them on when the carrier packet is done: the two agree because the feeds
  of an embedded stream are not those that hold the stream.  The first argument \<open>n\<close> of the
  distribution bounds the nesting of embedded streams.
\<close>

subsection \<open>State\<close>

record feeds =
  fs_embedding_pid :: int
  fs_isi :: int
  include_default_feeds :: bool
  fs_refcount :: nat
  output_feed_list :: "nat list"
  embedded_streams :: "(int \<times> nat) list"
  cnt_storage :: "byte list option"

text \<open>An embedded stream as \<open>embedded_stream_get_super_class\<close> tells them apart.\<close>

datatype embedded = Stid stid_stream | T2mi t2mi_stream

record filter_slot =
  sl_state :: dvb_dmx_state
  sl_feed :: "nat option"
  sl_filter :: secfilter

text \<open>
  The contents of a section filter are with the feed (\<open>f_filters\<close>) while the filter is
  allocated, and in its slot otherwise.  \<open>mutex\<close> says whether the mutex of the demux is held.
\<close>

record dvb_demux =
  mutex :: bool
  users :: nat
  filter_slots :: "filter_slot list"
  feedarray :: "feed list"
  frontend_list :: "nat list"
  pesfilter :: "nat option list"
  pids :: "nat list"
  tsbuf :: "byte list"
  tsbufp :: nat
  default_stream_id :: int
  fe_bbframes_stream :: "nat option"
  fe_feeds :: nat
  default_feeds :: nat
  frontend :: "nat option"
  heap_feeds :: "nat \<Rightarrow> feeds option"
  heap_emb :: "nat \<Rightarrow> embedded option"
  heap_bbf :: bbf_heap
  next_addr :: nat

text \<open>The module parameters, and the environment of each feed.\<close>

record dmx_env =
  tscheck :: bool
  feed_err_pkts :: bool
  feed_envs :: "nat \<Rightarrow> feed_env"

abbreviation (input) MAX_PID :: nat where "MAX_PID \<equiv> 0x1fff"

subsection \<open>Continuity check\<close>

text \<open>
  The transport error indicator, or a continuity counter that is not the expected one; the
  counter of a PID is 0xff before its first packet.
\<close>

definition cc_check :: "dmx_env \<Rightarrow> feeds \<Rightarrow> byte list \<Rightarrow> feeds \<times> bool" where
  "cc_check env fs buf =
     (if bit (buf ! 1) 7 then (fs, True)
      else case cnt_storage fs of
          None \<Rightarrow> (fs, False)
        | Some cnt \<Rightarrow>
            if tscheck env \<and> ts_pid buf < MAX_PID
            then let pid = ts_pid buf; cc = buf ! 3 AND 0xf;
                     cnt1 = (if bit (buf ! 3) 4
                             then (if cnt ! pid = 0xff then cnt[pid := cc]
                                   else cnt[pid := (cnt ! pid + 1) AND 0xf])
                             else (if cnt ! pid = 0xff then cnt[pid := cc] else cnt));
                     flag_error = (cc \<noteq> cnt1 ! pid);
                     cnt2 = (if flag_error then cnt1[pid := cc] else cnt1)
                 in (fs\<lparr>cnt_storage := Some cnt2\<rparr>, flag_error)
            else (fs, False))"

subsection \<open>Output feeds\<close>

text \<open>One output feed; the flag is \<open>dvr_done\<close>.\<close>

definition output_to_feed ::
    "dmx_env \<Rightarrow> feed_env \<Rightarrow> byte list \<Rightarrow> bool \<Rightarrow> feed \<Rightarrow> bool \<Rightarrow> (feed \<times> bool) option" where
  "output_to_feed env fenv buf flag_error f dvr_done =
     (if f_pid f \<noteq> ts_pid buf \<and> f_pid f \<noteq> 0x2000 then Some (f, dvr_done)
      else let f1 = (if flag_error then set_buf_flags PKT_COUNTER_MISMATCH f else f)
           in if flag_error \<and> \<not> feed_err_pkts env then Some (f1, dvr_done)
              else if DVR_FEED f1 \<and> dvr_done then Some (f1, dvr_done)
              else let dvr = (dvr_done \<or> DVR_FEED f1)
                   in if f_pid f1 = ts_pid buf
                      then map_option (\<lambda>f2. (f2, dvr)) (swfilter_packet_type fenv f1 buf)
                      else Some (deliver (TsOut (take 188 buf)) f1, dvr))"

fun output_feeds ::
    "dmx_env \<Rightarrow> byte list \<Rightarrow> bool \<Rightarrow> nat list \<Rightarrow> feed list \<times> bool \<Rightarrow> (feed list \<times> bool) option" where
  "output_feeds env buf flag_error [] s = Some s"
| "output_feeds env buf flag_error (i # is) (fa, dvr) = do {
     f \<leftarrow> mem_at fa i;
     (f1, dvr1) \<leftarrow> output_to_feed env (feed_envs env i) buf flag_error f dvr;
     output_feeds env buf flag_error is (fa[i := f1], dvr1) }"

subsection \<open>Embedded streams\<close>

text \<open>What an embedded stream hands out, passed on by \<open>put\<close>.\<close>

fun pass_on ::
    "(dvb_demux \<Rightarrow> nat \<Rightarrow> byte list \<Rightarrow> dvb_demux option) \<Rightarrow> dvb_demux \<Rightarrow> handed_out \<Rightarrow> dvb_demux option" where
  "pass_on put d [] = Some d"
| "pass_on put d ((fid, u) # us) = Option.bind (put d fid u) (\<lambda>d1. pass_on put d1 us)"

text \<open>The first pass, over the streams of a stid135, and the T2-MI streams.\<close>

definition stid_pass ::
    "(dvb_demux \<Rightarrow> nat \<Rightarrow> byte list \<Rightarrow> dvb_demux option) \<Rightarrow> dvb_demux \<Rightarrow> nat \<Rightarrow> byte list \<Rightarrow> dvb_demux option" where
  "stid_pass put d fid buf = do {
     fs \<leftarrow> heap_feeds d fid;
     (case map_of (embedded_streams fs) (int (ts_pid buf)) of
        None \<Rightarrow> Some d
      | Some e \<Rightarrow> do {
          emb \<leftarrow> heap_emb d e;
          (case emb of
             T2mi t2mi \<Rightarrow> Some d
           | Stid stid \<Rightarrow> do {
               (h, stid1, handed) \<leftarrow> stid_stream_add_packet (heap_bbf d) stid buf;
               pass_on put (d\<lparr>heap_emb := (heap_emb d)(e \<mapsto> Stid stid1), heap_bbf := h\<rparr>) handed }) }) }"

definition t2mi_pass ::
    "(dvb_demux \<Rightarrow> nat \<Rightarrow> byte list \<Rightarrow> dvb_demux option) \<Rightarrow> dvb_demux \<Rightarrow> nat \<Rightarrow> byte list \<Rightarrow> dvb_demux option" where
  "t2mi_pass put d fid buf = do {
     fs \<leftarrow> heap_feeds d fid;
     (case map_of (embedded_streams fs) (int (ts_pid buf)) of
        None \<Rightarrow> Some d
      | Some e \<Rightarrow> do {
          emb \<leftarrow> heap_emb d e;
          (case emb of
             Stid stid \<Rightarrow> Some d
           | T2mi t2mi \<Rightarrow> do {
               (h, t2mi1, handed) \<leftarrow> t2mi_stream_add_packet (heap_bbf d) t2mi buf;
               pass_on put (d\<lparr>heap_emb := (heap_emb d)(e \<mapsto> T2mi t2mi1), heap_bbf := h\<rparr>) handed }) }) }"

text \<open>The body of the loop over the feeds and the default feeds.\<close>

definition feeds_pass ::
    "(dvb_demux \<Rightarrow> nat \<Rightarrow> byte list \<Rightarrow> dvb_demux option) \<Rightarrow> dmx_env \<Rightarrow> dvb_demux \<Rightarrow> nat \<Rightarrow> byte list \<Rightarrow> bool \<Rightarrow> bool \<Rightarrow>
     (dvb_demux \<times> bool) option" where
  "feeds_pass put env d fid buf flag_error dvr_done = do {
     d1 \<leftarrow> (if flag_error then Some d else t2mi_pass put d fid buf);
     fs \<leftarrow> heap_feeds d1 fid;
     (fa, dvr) \<leftarrow> output_feeds env buf flag_error (output_feed_list fs) (feedarray d1, dvr_done);
     Some (d1\<lparr>feedarray := fa\<rparr>, dvr) }"

primrec swfilter_packet ::
    "nat \<Rightarrow> dmx_env \<Rightarrow> dvb_demux \<Rightarrow> nat \<Rightarrow> byte list \<Rightarrow> dvb_demux option" where
  "swfilter_packet 0 env d fid buf = None"
| "swfilter_packet (Suc n) env d fid buf = do {
     fs \<leftarrow> heap_feeds d fid;
     let (fs1, flag_error) = cc_check env fs buf;
     let d1 = d\<lparr>heap_feeds := (heap_feeds d)(fid \<mapsto> fs1)\<rparr>;
     d2 \<leftarrow> (if flag_error then Some d1 else stid_pass (swfilter_packet n env) d1 fid buf);
     let try_default_feeds = (include_default_feeds fs1 \<and> fid \<noteq> default_feeds d2);
     (d3, dvr) \<leftarrow> feeds_pass (swfilter_packet n env) env d2 fid buf flag_error False;
     (if try_default_feeds
      then map_option fst (feeds_pass (swfilter_packet n env) env d3 (default_feeds d3) buf flag_error dvr)
      else Some d3) }"

subsection \<open>Buffers of packets\<close>

fun swfilter_packets :: "nat \<Rightarrow> dmx_env \<Rightarrow> dvb_demux \<Rightarrow> byte list \<Rightarrow> nat \<Rightarrow> dvb_demux option" where
  "swfilter_packets n env d buf 0 = Some d"
| "swfilter_packets n env d buf (Suc count) = do {
     pkt \<leftarrow> memread buf 0 188;
     d1 \<leftarrow> (if pkt ! 0 = 0x47 then swfilter_packet n env d (fe_feeds d) pkt else Some d);
     swfilter_packets n env d1 (drop 188 buf) count }"

text \<open>Packets of 188 bytes, or of 204 bytes with a checksum that is not looked at.\<close>

definition pktsize :: "bool \<Rightarrow> nat" where
  "pktsize wide = (if wide then 204 else 188)"

definition is_sync :: "bool \<Rightarrow> byte \<Rightarrow> bool" where
  "is_sync wide b \<longleftrightarrow> b = 0x47 \<or> (wide \<and> b = 0xB8)"

function scan_sync :: "bool \<Rightarrow> byte list \<Rightarrow> nat \<Rightarrow> nat" where
  "scan_sync wide buf pos =
     (if pos < length buf \<and> \<not> is_sync wide (buf ! pos) then scan_sync wide buf (pos + 1) else pos)"
  by pat_completeness auto
termination by (relation "measure (\<lambda>(wide, buf, pos). length buf - pos)") auto

definition find_next_packet :: "bool \<Rightarrow> byte list \<Rightarrow> nat \<Rightarrow> nat" where
  "find_next_packet wide buf start =
     (let pos = scan_sync wide buf start
      in if pos \<noteq> start \<and> pktsize wide \<le> pos \<and> is_sync wide (buf ! (pos - pktsize wide))
         then pos - pktsize wide else pos)"

declare scan_sync.simps [simp del]

lemma scan_sync_ge: "pos \<le> scan_sync wide buf pos"
proof (induction wide buf pos rule: scan_sync.induct)
  case (1 wide buf pos)
  then show ?case by (subst scan_sync.simps) (auto dest: Suc_leD)
qed

lemma find_next_progress: "p < find_next_packet wide buf p + pktsize wide"
  using scan_sync_ge [of p wide buf] by (auto simp: find_next_packet_def Let_def pktsize_def)

text \<open>One packet found at \<open>q\<close>; an inverted sync byte is put right in a copy.\<close>

definition swfilter_at :: "nat \<Rightarrow> dmx_env \<Rightarrow> bool \<Rightarrow> dvb_demux \<Rightarrow> byte list \<Rightarrow> nat \<Rightarrow> dvb_demux option" where
  "swfilter_at n env wide d buf q = do {
     pkt \<leftarrow> memread buf q 188;
     (if wide \<and> pkt ! 0 = 0xB8
      then do {
        tb \<leftarrow> memcpy (tsbuf d) 0 pkt;
        let tb1 = tb[0 := 0x47];
        swfilter_packet n env (d\<lparr>tsbuf := tb1\<rparr>) (fe_feeds d) (take 188 tb1) }
      else swfilter_packet n env d (fe_feeds d) pkt) }"

function swfilter_loop :: "nat \<Rightarrow> dmx_env \<Rightarrow> bool \<Rightarrow> dvb_demux \<Rightarrow> byte list \<Rightarrow> nat \<Rightarrow> (dvb_demux \<times> nat) option" where
  "swfilter_loop n env wide d buf p =
     (let q = find_next_packet wide buf p
      in if length buf \<le> q \<or> length buf - q < pktsize wide then Some (d, q)
         else do {
           d1 \<leftarrow> swfilter_at n env wide d buf q;
           swfilter_loop n env wide d1 buf (q + pktsize wide) })"
  by pat_completeness auto
termination
proof (relation "measure (\<lambda>(n, env, wide, d, buf, p). length buf - p)", goal_cases)
  case (2 n env wide d buf p q d1)
  then show ?case using find_next_progress [of p wide buf] by simp linarith
qed simp

declare swfilter_loop.simps [simp del]

text \<open>The remainder of a buffer, kept for the next call.\<close>

definition swfilter_keep :: "bool \<Rightarrow> dvb_demux \<Rightarrow> byte list \<Rightarrow> dvb_demux option" where
  "swfilter_keep wide d rest =
     (if rest = [] then Some d
      else do {
        tb \<leftarrow> memcpy (tsbuf d) 0 rest;
        Some (d\<lparr>tsbuf := (if wide \<and> tb ! 0 = 0xB8 then tb[0 := 0x47] else tb), tsbufp := length rest\<rparr>) })"

definition swfilter_from :: "nat \<Rightarrow> dmx_env \<Rightarrow> bool \<Rightarrow> dvb_demux \<Rightarrow> byte list \<Rightarrow> nat \<Rightarrow> dvb_demux option" where
  "swfilter_from n env wide d buf p = do {
     (d1, q) \<leftarrow> swfilter_loop n env wide d buf p;
     swfilter_keep wide d1 (drop q buf) }"

definition swfilter :: "nat \<Rightarrow> dmx_env \<Rightarrow> bool \<Rightarrow> dvb_demux \<Rightarrow> byte list \<Rightarrow> dvb_demux option" where
  "swfilter n env wide d buf =
     (if tsbufp d \<noteq> 0
      then let i = tsbufp d; j = pktsize wide - i
           in if length buf < j \<or> pktsize wide < i
              then do {
                tb \<leftarrow> memcpy (tsbuf d) i buf;
                Some (d\<lparr>tsbuf := tb, tsbufp := i + length buf\<rparr>) }
              else do {
                tb \<leftarrow> memcpy (tsbuf d) i (take j buf);
                let d1 = d\<lparr>tsbuf := tb\<rparr>;
                d2 \<leftarrow> (if tb ! 0 = 0x47 then swfilter_packet n env d1 (fe_feeds d1) (take 188 tb) else Some d1);
                swfilter_from n env wide (d2\<lparr>tsbufp := 0\<rparr>) buf j }
      else swfilter_from n env wide d buf 0)"

text \<open>The raw entry: the first feed gets the whole buffer.\<close>

definition swfilter_raw :: "dvb_demux \<Rightarrow> byte list \<Rightarrow> dvb_demux option" where
  "swfilter_raw d buf = map_option (\<lambda>f. d\<lparr>feedarray := (feedarray d)[0 := deliver (TsOut buf) f]\<rparr>)
     (mem_at (feedarray d) 0)"

subsection \<open>The input buffer is not touched by the distribution\<close>

definition set_ts :: "byte list \<Rightarrow> nat \<Rightarrow> dvb_demux \<Rightarrow> dvb_demux" where
  "set_ts b p d = d\<lparr>tsbuf := b, tsbufp := p\<rparr>"

lemma set_ts_simps [simp]:
  "heap_feeds (set_ts b p d) = heap_feeds d" "heap_emb (set_ts b p d) = heap_emb d"
  "heap_bbf (set_ts b p d) = heap_bbf d" "feedarray (set_ts b p d) = feedarray d"
  "fe_feeds (set_ts b p d) = fe_feeds d" "default_feeds (set_ts b p d) = default_feeds d"
  "tsbuf (set_ts b p d) = b" "tsbufp (set_ts b p d) = p"
  "(set_ts b p d)\<lparr>heap_feeds := h\<rparr> = set_ts b p (d\<lparr>heap_feeds := h\<rparr>)"
  "(set_ts b p d)\<lparr>heap_emb := e\<rparr> = set_ts b p (d\<lparr>heap_emb := e\<rparr>)"
  "(set_ts b p d)\<lparr>heap_bbf := f\<rparr> = set_ts b p (d\<lparr>heap_bbf := f\<rparr>)"
  "(set_ts b p d)\<lparr>feedarray := fa\<rparr> = set_ts b p (d\<lparr>feedarray := fa\<rparr>)"
  "(set_ts b p d)\<lparr>tsbuf := c\<rparr> = set_ts c p d" "(set_ts b p d)\<lparr>tsbufp := q\<rparr> = set_ts b q d"
  "set_ts c q (set_ts b p d) = set_ts c q d" "set_ts (tsbuf d) (tsbufp d) d = d"
  by (simp_all add: set_ts_def)

lemma pass_on_set_ts:
  assumes "\<And>d fid u. put (set_ts b p d) fid u = map_option (set_ts b p) (put d fid u)"
  shows "pass_on put (set_ts b p d) us = map_option (set_ts b p) (pass_on put d us)"
proof (induction us arbitrary: d)
  case (Cons x us)
  then show ?case by (cases x; cases "put d (fst x) (snd x)") (simp_all add: assms)
qed simp

lemma stid_pass_set_ts:
  assumes "\<And>d fid u. put (set_ts b p d) fid u = map_option (set_ts b p) (put d fid u)"
  shows "stid_pass put (set_ts b p d) fid buf = map_option (set_ts b p) (stid_pass put d fid buf)"
  using pass_on_set_ts [where put = put, OF assms]
  by (auto simp: stid_pass_def split: option.split embedded.split bind_split)

lemma t2mi_pass_set_ts:
  assumes "\<And>d fid u. put (set_ts b p d) fid u = map_option (set_ts b p) (put d fid u)"
  shows "t2mi_pass put (set_ts b p d) fid buf = map_option (set_ts b p) (t2mi_pass put d fid buf)"
  using pass_on_set_ts [where put = put, OF assms]
  by (auto simp: t2mi_pass_def split: option.split embedded.split bind_split)

lemma feeds_pass_set_ts:
  assumes "\<And>d fid u. put (set_ts b p d) fid u = map_option (set_ts b p) (put d fid u)"
  shows "feeds_pass put env (set_ts b p d) fid buf fl dvr =
    map_option (\<lambda>(d, x). (set_ts b p d, x)) (feeds_pass put env d fid buf fl dvr)"
  using t2mi_pass_set_ts [where put = put, OF assms]
  by (auto simp: feeds_pass_def split: option.split bind_split)

lemma swfilter_packet_set_ts:
  "swfilter_packet n env (set_ts b p d) fid buf = map_option (set_ts b p) (swfilter_packet n env d fid buf)"
proof (induction n arbitrary: d fid buf)
  case (Suc n)
  note IH = stid_pass_set_ts [where put = "swfilter_packet n env", OF Suc.IH]
    feeds_pass_set_ts [where put = "swfilter_packet n env", OF Suc.IH]
  show ?case
    by (auto simp: IH split_def Let_def option.map_comp comp_def split: bind_split)
qed simp

subsection \<open>Cutting a byte stream into packets\<close>

function packets_of :: "bool \<Rightarrow> byte list \<Rightarrow> byte list list" where
  "packets_of wide s = (if length s < pktsize wide then []
     else take (pktsize wide) s # packets_of wide (drop (pktsize wide) s))"
  by pat_completeness auto
termination by (relation "measure (\<lambda>(wide, s). length s)") (auto simp: pktsize_def split: if_splits)

function rest_of :: "bool \<Rightarrow> byte list \<Rightarrow> byte list" where
  "rest_of wide s = (if length s < pktsize wide then s else rest_of wide (drop (pktsize wide) s))"
  by pat_completeness auto
termination by (relation "measure (\<lambda>(wide, s). length s)") (auto simp: pktsize_def split: if_splits)

text \<open>A sync byte at the start of every packet.\<close>

function aligned :: "bool \<Rightarrow> byte list \<Rightarrow> bool" where
  "aligned wide s =
     (if s = [] then True else is_sync wide (hd s) \<and> aligned wide (drop (pktsize wide) s))"
  by pat_completeness auto
termination by (relation "measure (\<lambda>(wide, s). length s)") (auto simp: pktsize_def split: if_splits)

declare packets_of.simps [simp del] rest_of.simps [simp del] aligned.simps [simp del]

text \<open>The packet that the distribution sees.\<close>

definition norm_packet :: "byte list \<Rightarrow> byte list" where
  "norm_packet pkt = (take 188 pkt)[0 := 0x47]"

fun feed_packets :: "nat \<Rightarrow> dmx_env \<Rightarrow> dvb_demux \<Rightarrow> byte list list \<Rightarrow> dvb_demux option" where
  "feed_packets n env d [] = Some d"
| "feed_packets n env d (p # ps) =
     Option.bind (swfilter_packet n env d (fe_feeds d) p) (\<lambda>d1. feed_packets n env d1 ps)"

fun swfilter_run :: "nat \<Rightarrow> dmx_env \<Rightarrow> bool \<Rightarrow> dvb_demux \<Rightarrow> byte list list \<Rightarrow> dvb_demux option" where
  "swfilter_run n env wide d [] = Some d"
| "swfilter_run n env wide d (c # cs) =
     Option.bind (swfilter n env wide d c) (\<lambda>d1. swfilter_run n env wide d1 cs)"

lemma pktsize_bounds: "188 \<le> pktsize wide" "pktsize wide \<le> 204" "0 < pktsize wide"
  by (simp_all add: pktsize_def)

lemma aligned_prefix: "aligned wide (s @ t) \<Longrightarrow> aligned wide s"
proof (induction wide s rule: aligned.induct)
  case (1 wide s)
  show ?case
  proof (cases "s = []")
    case False
    have "aligned wide (s @ t)" by (rule "1.prems")
    with False have a: "is_sync wide (hd s)" "aligned wide (drop (pktsize wide) (s @ t))"
      by (subst (asm) aligned.simps, simp)+
    have "aligned wide (drop (pktsize wide) s)"
      using "1.IH" [OF False] a(2)
      by (cases "length s \<le> pktsize wide") (simp_all add: aligned.simps [of wide "[]"])
    then show ?thesis using a by (subst aligned.simps) simp
  qed (simp add: aligned.simps)
qed

lemma aligned_drop: "aligned wide s \<Longrightarrow> aligned wide (drop (pktsize wide) s)"
  by (cases "s = []") (simp_all add: aligned.simps [of wide s])

lemma aligned_rest: "aligned wide (s @ t) \<Longrightarrow> aligned wide (rest_of wide s @ t)"
proof (induction wide s rule: rest_of.induct)
  case (1 wide s)
  show ?case
  proof (cases "length s < pktsize wide")
    case False
    then have "aligned wide (drop (pktsize wide) s @ t)" using aligned_drop [OF "1.prems"] by simp
    with "1.IH" False show ?thesis by (subst rest_of.simps) simp
  qed (use "1.prems" in \<open>simp add: rest_of.simps\<close>)
qed

lemma packets_append:
  "packets_of wide (s @ t) = packets_of wide s @ packets_of wide (rest_of wide s @ t)"
proof (induction wide s rule: packets_of.induct)
  case (1 wide s)
  show ?case
  proof (cases "length s < pktsize wide")
    case False
    then have "packets_of wide (s @ t) = take (pktsize wide) s # packets_of wide (drop (pktsize wide) s @ t)"
      by (subst packets_of.simps) simp
    also have "\<dots> = packets_of wide s @ packets_of wide (rest_of wide s @ t)"
      using "1.IH" False packets_of.simps [of wide s] rest_of.simps [of wide s] by simp
    finally show ?thesis .
  qed (simp add: packets_of.simps [of wide s] rest_of.simps)
qed

lemma rest_append: "rest_of wide (s @ t) = rest_of wide (rest_of wide s @ t)"
proof (induction wide s rule: rest_of.induct)
  case (1 wide s)
  show ?case
  proof (cases "length s < pktsize wide")
    case False
    then have "rest_of wide (s @ t) = rest_of wide (drop (pktsize wide) s @ t)"
      by (subst rest_of.simps) simp
    then show ?thesis using "1.IH" False rest_of.simps [of wide s] by simp
  qed (simp add: rest_of.simps [of wide s])
qed

lemma feed_packets_append:
  "feed_packets n env d (ps @ qs) = Option.bind (feed_packets n env d ps) (\<lambda>e. feed_packets n env e qs)"
  by (induction ps arbitrary: d) (simp_all split: bind_split)

lemma rest_length: "length (rest_of wide s) < pktsize wide"
proof (induction wide s rule: rest_of.induct)
  case (1 wide s)
  then show ?case by (cases "length s < pktsize wide") (simp_all add: rest_of.simps [of wide s])
qed

lemma rest_short: "length s < pktsize wide \<Longrightarrow> rest_of wide s = s \<and> packets_of wide s = []"
  by (simp add: rest_of.simps packets_of.simps)

lemma aligned_hd: "aligned wide s \<Longrightarrow> s \<noteq> [] \<Longrightarrow> is_sync wide (hd s)"
  by (simp add: aligned.simps [of wide s])

lemma feed_packets_set_ts:
  "feed_packets n env (set_ts b p d) ps = map_option (set_ts b p) (feed_packets n env d ps)"
proof (induction ps arbitrary: d)
  case (Cons q ps)
  then show ?case by (cases "swfilter_packet n env d (fe_feeds d) q") (simp_all add: swfilter_packet_set_ts)
qed simp

subsection \<open>An aligned stream\<close>

lemma find_next_aligned:
  "p \<le> length buf \<Longrightarrow> drop p buf = [] \<or> is_sync wide (hd (drop p buf)) \<Longrightarrow> find_next_packet wide buf p = p"
proof -
  assume "p \<le> length buf" "drop p buf = [] \<or> is_sync wide (hd (drop p buf))"
  then have "scan_sync wide buf p = p"
    using scan_sync.simps [of wide buf p] by (auto simp: hd_drop_conv_nth)
  then show ?thesis by (simp add: find_next_packet_def)
qed

lemma scan_garbage:
  "\<forall>b \<in> set g. \<not> is_sync wide b \<Longrightarrow> s = [] \<or> is_sync wide (hd s) \<Longrightarrow> scan_sync wide (pre @ g @ s) (length pre) = length pre + length g"
proof (induction g arbitrary: pre)
  case Nil
  then show ?case by (subst scan_sync.simps) (auto simp: nth_append hd_conv_nth)
next
  case (Cons x g)
  have "scan_sync wide (pre @ (x # g) @ s) (length pre) = scan_sync wide ((pre @ [x]) @ g @ s) (length (pre @ [x]))"
    using Cons.prems(1) by (subst scan_sync.simps) (simp add: nth_append)
  then show ?case using Cons.IH [of "pre @ [x]"] Cons.prems by simp
qed

lemma find_next_garbage:
  assumes "\<forall>b \<in> set g. \<not> is_sync wide b" "s = [] \<or> is_sync wide (hd s)"
  shows "find_next_packet wide (g @ s) 0 = length g"
proof -
  have "scan_sync wide (g @ s) 0 = length g"
    using scan_garbage [OF assms, of "[]"] by simp
  moreover have "\<not> is_sync wide ((g @ s) ! (length g - pktsize wide))" if "g \<noteq> []"
    using that assms(1) pktsize_bounds [of wide] by (auto simp: nth_append)
  ultimately show ?thesis by (cases "g = []") (simp_all add: find_next_packet_def Let_def)
qed

text \<open>What \<open>tsbuf\<close> keeps of a packet that has not been received completely.\<close>

definition kept :: "bool \<Rightarrow> byte list \<Rightarrow> byte list \<Rightarrow> bool" where
  "kept wide tb r \<longleftrightarrow> length tb = 204 \<and> length r < pktsize wide \<and> take (length r) tb = r[0 := 0x47]"

lemma norm_fix: "\<not> wide \<or> s ! 0 \<noteq> 0xB8 \<Longrightarrow> is_sync wide (s ! 0) \<Longrightarrow> s[0 := 0x47] = s"
  by (auto simp: is_sync_def list_update_same_conv)
    (metis list_update_id list_update_beyond not_le_imp_less)+

text \<open>The outcome of a run of the distribution, with the input buffer of the demux.\<close>

definition outcome :: "bool \<Rightarrow> byte list \<Rightarrow> dvb_demux option \<Rightarrow> dvb_demux option \<Rightarrow> bool" where
  "outcome wide r res ref =
     (case ref of None \<Rightarrow> res = None
      | Some e \<Rightarrow> \<exists>tb. res = Some (set_ts tb (length r) e) \<and> kept wide tb r)"

lemma at_spec:
  assumes "length tb = 204" "q + pktsize wide \<le> length buf" "is_sync wide (buf ! q)"
  shows "\<exists>tb'. length tb' = 204 \<and> swfilter_at n env wide (set_ts tb 0 e) buf q =
    map_option (set_ts tb' 0) (swfilter_packet n env e (fe_feeds e) (norm_packet (take (pktsize wide) (drop q buf))))"
proof -
  let ?pkt = "take 188 (drop q buf)"
  have n: "norm_packet (take (pktsize wide) (drop q buf)) = ?pkt[0 := 0x47]"
    using pktsize_bounds [of wide] by (simp add: norm_packet_def min_def)
  have len: "length ?pkt = 188" "?pkt ! 0 = buf ! q" "q + 188 \<le> length buf"
    using assms(2) pktsize_bounds [of wide] by (simp_all)
  show ?thesis
  proof (cases "wide \<and> ?pkt ! 0 = 0xB8")
    case True
    let ?tb = "(?pkt @ drop 188 tb)[0 := 0x47]"
    have "take 188 ?tb = ?pkt[0 := 0x47]" using len(1) by (simp add: take_update_swap)
    then have "swfilter_at n env wide (set_ts tb 0 e) buf q =
      map_option (set_ts ?tb 0) (swfilter_packet n env e (fe_feeds e) (norm_packet (take (pktsize wide) (drop q buf))))"
      unfolding n using True len assms(1)
      by (simp add: swfilter_at_def memread_Some memcpy_Some swfilter_packet_set_ts)
    then show ?thesis using len(1) assms(1) by (intro exI [of _ ?tb]) simp
  next
    case False
    then have "?pkt[0 := 0x47] = ?pkt" using assms(3) len(2) by (intro norm_fix [of wide]) auto
    then have "swfilter_at n env wide (set_ts tb 0 e) buf q =
      map_option (set_ts tb 0) (swfilter_packet n env e (fe_feeds e) (norm_packet (take (pktsize wide) (drop q buf))))"
      unfolding n using False len
      by (auto simp: swfilter_at_def memread_Some swfilter_packet_set_ts)
    then show ?thesis using assms(1) by blast
  qed
qed

lemma keep_spec:
  assumes "length tb = 204" "length r < pktsize wide" "r = [] \<or> is_sync wide (hd r)"
  shows "\<exists>tb'. swfilter_keep wide (set_ts tb 0 e) r = Some (set_ts tb' (length r) e) \<and> kept wide tb' r"
proof (cases "r = []")
  case True
  then show ?thesis using assms(1) pktsize_bounds [of wide]
    by (intro exI [of _ tb]) (simp add: swfilter_keep_def kept_def)
next
  case False
  have le: "length r \<le> 204" using assms(2) pktsize_bounds [of wide] by simp
  let ?tb = "r @ drop (length r) tb"
  have hd: "?tb ! 0 = r ! 0" "is_sync wide (r ! 0)"
    using False assms(3) by (simp_all add: nth_append hd_conv_nth)
  have eq: "r[0 := 0x47] = r" if "\<not> (wide \<and> r ! 0 = 0xB8)"
    using that hd(2) by (intro norm_fix [of wide]) auto
  let ?tb' = "if wide \<and> ?tb ! 0 = 0xB8 then ?tb[0 := 0x47] else ?tb"
  have "take (length r) ?tb' = r[0 := 0x47]"
    using False eq hd(1) by (auto simp: take_update_swap)
  then have "kept wide ?tb' r" using assms(1,2) le by (simp add: kept_def)
  moreover have "swfilter_keep wide (set_ts tb 0 e) r = Some (set_ts ?tb' (length r) e)"
    using False assms(1) le by (simp add: swfilter_keep_def memcpy_Some)
  ultimately show ?thesis by blast
qed

lemma outcome_bind:
  "outcome wide r (f e1) (ref e1) \<Longrightarrow> m = Some e1 \<Longrightarrow> outcome wide r (Option.bind m f) (Option.bind m ref)"
  by simp

lemma from_aligned:
  assumes "aligned wide (drop p buf)" "p \<le> length buf" "length tb = 204"
  shows "outcome wide (rest_of wide (drop p buf)) (swfilter_from n env wide (set_ts tb 0 e) buf p)
    (feed_packets n env e (map norm_packet (packets_of wide (drop p buf))))"
  using assms
proof (induction "length buf - p" arbitrary: p tb e rule: less_induct)
  case less
  let ?s = "drop p buf"
  have sync: "?s = [] \<or> is_sync wide (hd ?s)" using aligned_hd less.prems(1) by blast
  have q: "find_next_packet wide buf p = p" using less.prems(2) sync by (rule find_next_aligned)
  show ?case
  proof (cases "length ?s < pktsize wide")
    case True
    then have "swfilter_loop n env wide (set_ts tb 0 e) buf p = Some (set_ts tb 0 e, p)"
      using q by (simp add: swfilter_loop.simps)
    then show ?thesis using keep_spec [OF less.prems(3) True sync, of e] rest_short [OF True]
      by (auto simp: swfilter_from_def outcome_def)
  next
    case False
    let ?p = "p + pktsize wide" and ?pkt = "take (pktsize wide) ?s"
    have ne: "?s \<noteq> []" using False pktsize_bounds [of wide] by auto
    have at: "p + pktsize wide \<le> length buf" "is_sync wide (buf ! p)"
      using False sync ne less.prems(2) by (auto simp: hd_drop_conv_nth)
    obtain tb' where tb': "length tb' = 204" "swfilter_at n env wide (set_ts tb 0 e) buf p =
        map_option (set_ts tb' 0) (swfilter_packet n env e (fe_feeds e) (norm_packet ?pkt))"
      using at_spec [OF less.prems(3) at] by blast
    have step: "swfilter_from n env wide (set_ts tb 0 e) buf p =
        Option.bind (swfilter_at n env wide (set_ts tb 0 e) buf p) (\<lambda>d1. swfilter_from n env wide d1 buf ?p)"
      using False q ne by (subst swfilter_from_def) (simp add: swfilter_loop.simps [of _ _ _ _ _ p] swfilter_from_def Let_def)
    have cut: "packets_of wide ?s = ?pkt # packets_of wide (drop ?p buf)" "rest_of wide ?s = rest_of wide (drop ?p buf)"
      using False by (simp_all add: packets_of.simps [of wide ?s] rest_of.simps [of wide ?s] add.commute)
    have al: "aligned wide (drop ?p buf)"
      using aligned_drop [OF less.prems(1)] by (simp add: add.commute)
    show ?thesis
    proof (cases "swfilter_packet n env e (fe_feeds e) (norm_packet ?pkt)")
      case None
      then show ?thesis by (simp add: step tb'(2) cut(1) outcome_def)
    next
      case (Some e1)
      have "outcome wide (rest_of wide (drop ?p buf)) (swfilter_from n env wide (set_ts tb' 0 e1) buf ?p)
          (feed_packets n env e1 (map norm_packet (packets_of wide (drop ?p buf))))"
        using less.hyps [OF _ al at(1) tb'(1)] at(1) pktsize_bounds [of wide] by simp
      then show ?thesis by (simp add: step tb'(2) cut Some)
    qed
  qed
qed

lemma chunk_aligned:
  assumes tb: "kept wide tb r" and al: "aligned wide (r @ c)"
  shows "outcome wide (rest_of wide (r @ c)) (swfilter n env wide (set_ts tb (length r) e) c)
    (feed_packets n env e (map norm_packet (packets_of wide (r @ c))))"
proof (cases "r = []")
  case True
  then show ?thesis using from_aligned [of wide 0 c tb n env e] tb al
    by (simp add: swfilter_def kept_def)
next
  case False
  have tb': "length tb = 204" "length r < pktsize wide" "take (length r) tb = r[0 := 0x47]"
    using tb by (simp_all add: kept_def)
  let ?j = "pktsize wide - length r"
  show ?thesis
  proof (cases "length c < ?j")
    case True
    let ?tb = "take (length r) tb @ c @ drop (length r + length c) tb"
    have le: "length r + length c \<le> 204" using True pktsize_bounds [of wide] by simp
    have "kept wide ?tb (r @ c)"
      using True tb' False le by (simp add: kept_def list_update_append)
    moreover have "swfilter n env wide (set_ts tb (length r) e) c = Some (set_ts ?tb (length (r @ c)) e)"
      using True False tb' le by (simp add: swfilter_def Let_def memcpy_Some)
    moreover have "length (r @ c) < pktsize wide" using True tb'(2) by simp
    note rest_short [OF this]
    ultimately show ?thesis by (auto simp: outcome_def)
  next
    case False' : False
    let ?tb = "take (length r) tb @ take ?j c @ drop (pktsize wide) tb"
    have le: "length r + ?j = pktsize wide" "length r + ?j \<le> 204" "?j \<le> length c"
      using False' tb'(2) pktsize_bounds [of wide] by simp_all
    let ?pkt = "take (pktsize wide) (r @ c)"
    have pkt: "?pkt = r @ take ?j c" using tb'(2) by simp
    have tb0: "?tb ! 0 = 0x47" "take 188 ?tb = norm_packet ?pkt"
    proof -
      have "take 188 ?tb = take 188 (r[0 := 0x47] @ take ?j c)"
        using tb' le pktsize_bounds [of wide] by (simp add: min_def)
      then show "take 188 ?tb = norm_packet ?pkt"
        using False unfolding norm_packet_def pkt by (simp add: take_update_swap list_update_append)
      show "?tb ! 0 = 0x47" using False tb'(1,3) le by (simp add: nth_append)
    qed
    have cut: "packets_of wide (r @ c) = ?pkt # packets_of wide (drop ?j c)" "rest_of wide (r @ c) = rest_of wide (drop ?j c)"
      using le(1,3) tb'(2) packets_of.simps [of wide "r @ c"] rest_of.simps [of wide "r @ c"] by auto
    have al': "aligned wide (drop ?j c)"
      using aligned_drop [OF al] tb'(2) by simp
    have step: "swfilter n env wide (set_ts tb (length r) e) c =
        Option.bind (swfilter_packet n env (set_ts ?tb (length r) e) (fe_feeds e) (norm_packet ?pkt))
          (\<lambda>d2. swfilter_from n env wide (d2\<lparr>tsbufp := 0\<rparr>) c ?j)"
      using False False' tb' le tb0 by (simp add: swfilter_def Let_def memcpy_Some)
    have "length ?tb = 204" using tb' le by simp
    from from_aligned [OF al' le(3) this]
    show ?thesis
      by (cases "swfilter_packet n env e (fe_feeds e) (norm_packet ?pkt)")
        (simp_all add: step cut swfilter_packet_set_ts outcome_def)
  qed
qed

text \<open>The whole run: garbage without a sync byte, then an aligned stream, in any chunks.\<close>

lemma run_aligned:
  assumes "kept wide tb r" "aligned wide (r @ concat cs)"
  shows "outcome wide (rest_of wide (r @ concat cs)) (swfilter_run n env wide (set_ts tb (length r) e) cs)
    (feed_packets n env e (map norm_packet (packets_of wide (r @ concat cs))))"
  using assms
proof (induction cs arbitrary: tb r e)
  case Nil
  then have "length r < pktsize wide" by (simp add: kept_def)
  from rest_short [OF this] show ?case using Nil by (auto simp: outcome_def)
next
  case (Cons c cs)
  let ?s = "r @ c" and ?t = "concat cs"
  have al: "aligned wide (?s @ ?t)" using Cons.prems(2) by simp
  let ?ps = "map norm_packet (packets_of wide ?s)"
  have first: "outcome wide (rest_of wide ?s) (swfilter n env wide (set_ts tb (length r) e) c) (feed_packets n env e ?ps)"
    using chunk_aligned [OF Cons.prems(1) aligned_prefix [OF al]] .
  have cut: "packets_of wide (r @ concat (c # cs)) = packets_of wide ?s @ packets_of wide (rest_of wide ?s @ ?t)"
    "rest_of wide (r @ concat (c # cs)) = rest_of wide (rest_of wide ?s @ ?t)"
    using packets_append [of wide ?s ?t] rest_append [of wide ?s ?t] by simp_all
  have split: "feed_packets n env e (map norm_packet (packets_of wide (r @ concat (c # cs)))) =
      Option.bind (feed_packets n env e ?ps)
        (\<lambda>e1. feed_packets n env e1 (map norm_packet (packets_of wide (rest_of wide ?s @ ?t))))"
    by (simp only: cut map_append feed_packets_append)
  show ?case
  proof (cases "feed_packets n env e ?ps")
    case None
    then show ?thesis using first unfolding split by (simp add: outcome_def)
  next
    case (Some e1)
    then obtain tb1 where tb1: "swfilter n env wide (set_ts tb (length r) e) c = Some (set_ts tb1 (length (rest_of wide ?s)) e1)"
        "kept wide tb1 (rest_of wide ?s)"
      using first by (auto simp: outcome_def)
    show ?thesis unfolding split cut(2)
      using Cons.IH [OF tb1(2) aligned_rest [OF al], of e1] by (simp add: Some tb1(1))
  qed
qed

lemma chunk_garbage:
  assumes "\<forall>b \<in> set g. \<not> is_sync wide b" "aligned wide s" "length tb = 204"
  shows "swfilter n env wide (set_ts tb 0 e) (g @ s) = swfilter_from n env wide (set_ts tb 0 e) (g @ s) (length g)"
proof -
  have sync: "s = [] \<or> is_sync wide (hd s)" using aligned_hd assms(2) by blast
  have "find_next_packet wide (g @ s) 0 = length g" using assms(1) sync by (rule find_next_garbage)
  moreover have "find_next_packet wide (g @ s) (length g) = length g" using sync by (simp add: find_next_aligned)
  ultimately have "swfilter_loop n env wide (set_ts tb 0 e) (g @ s) 0 = swfilter_loop n env wide (set_ts tb 0 e) (g @ s) (length g)"
    by (simp add: swfilter_loop.simps)
  then show ?thesis by (simp add: swfilter_def swfilter_from_def)
qed

lemma run_garbage:
  assumes "\<forall>b \<in> set g. \<not> is_sync wide b" "aligned wide s" "concat cs = g @ s" "length tb = 204"
  shows "outcome wide (rest_of wide s) (swfilter_run n env wide (set_ts tb 0 e) cs)
    (feed_packets n env e (map norm_packet (packets_of wide s)))"
  using assms
proof (induction cs arbitrary: tb g)
  case Nil
  then have "s = []" "length s < pktsize wide" using pktsize_bounds [of wide] by simp_all
  with rest_short [OF this(2)] show ?case using Nil.prems(4) pktsize_bounds [of wide]
    by (auto simp: outcome_def kept_def)
next
  case (Cons c cs)
  show ?case
  proof (cases "length c \<le> length g")
    case True
    then obtain g2 where g: "g = c @ g2" "concat cs = g2 @ s"
      using Cons.prems(3) by (auto simp: append_eq_append_conv2)
    have "swfilter n env wide (set_ts tb 0 e) c = swfilter_from n env wide (set_ts tb 0 e) c (length c)"
      using chunk_garbage [of c wide "[]" tb n env e] Cons.prems(1,4) g(1) by (simp add: aligned.simps)
    also have "\<dots> = Some (set_ts tb 0 e)"
      by (simp add: swfilter_from_def swfilter_loop.simps [of _ _ _ _ c] find_next_aligned swfilter_keep_def)
    finally show ?thesis using Cons.IH [of g2 tb] g Cons.prems by simp
  next
    case False
    then obtain c1 where c: "c = g @ c1" "s = c1 @ concat cs"
      using Cons.prems(3) by (auto simp: append_eq_append_conv2)
    have al: "aligned wide c1" using aligned_prefix Cons.prems(2) unfolding c(2) by blast
    have eq: "swfilter n env wide (set_ts tb 0 e) c = swfilter_from n env wide (set_ts tb 0 e) c (length g)"
      unfolding c(1) using chunk_garbage Cons.prems(1,4) al by blast
    have first: "outcome wide (rest_of wide c1) (swfilter n env wide (set_ts tb 0 e) c)
        (feed_packets n env e (map norm_packet (packets_of wide c1)))"
      unfolding eq using from_aligned [of wide "length g" c tb n env e] al Cons.prems(4) c(1) by simp
    have split: "feed_packets n env e (map norm_packet (packets_of wide s)) =
        Option.bind (feed_packets n env e (map norm_packet (packets_of wide c1)))
          (\<lambda>e1. feed_packets n env e1 (map norm_packet (packets_of wide (rest_of wide c1 @ concat cs))))"
      unfolding c(2) packets_append [of wide c1 "concat cs"] by (simp only: map_append feed_packets_append)
    show ?thesis
    proof (cases "feed_packets n env e (map norm_packet (packets_of wide c1))")
      case None
      then show ?thesis using first unfolding split by (simp add: outcome_def)
    next
      case (Some e1)
      then obtain tb1 where tb1: "swfilter n env wide (set_ts tb 0 e) c = Some (set_ts tb1 (length (rest_of wide c1)) e1)"
          "kept wide tb1 (rest_of wide c1)"
        using first by (auto simp: outcome_def)
      have "aligned wide (rest_of wide c1 @ concat cs)"
        using aligned_rest Cons.prems(2) unfolding c(2) by blast
      note run = run_aligned [OF tb1(2) this, of n env e1]
      have "rest_of wide s = rest_of wide (rest_of wide c1 @ concat cs)"
        unfolding c(2) by (rule rest_append)
      then show ?thesis using run unfolding split by (simp add: Some tb1(1))
    qed
  qed
qed

subsection \<open>What the output feeds receive\<close>

text \<open>A feed that a packet is for, and whether it takes the packet of the dvr device.\<close>

definition wants :: "dmx_env \<Rightarrow> byte list \<Rightarrow> bool \<Rightarrow> feed \<Rightarrow> bool" where
  "wants env buf flag_error f \<longleftrightarrow> (f_pid f = ts_pid buf \<or> f_pid f = 0x2000) \<and> (flag_error \<longrightarrow> feed_err_pkts env)"

definition flagged :: "byte list \<Rightarrow> bool \<Rightarrow> feed \<Rightarrow> feed" where
  "flagged buf flag_error f =
     (if (f_pid f = ts_pid buf \<or> f_pid f = 0x2000) \<and> flag_error then set_buf_flags PKT_COUNTER_MISMATCH f else f)"

definition served :: "feed_env \<Rightarrow> byte list \<Rightarrow> feed \<Rightarrow> feed option" where
  "served fenv buf f = (if f_pid f = ts_pid buf then swfilter_packet_type fenv f buf
     else Some (deliver (TsOut (take 188 buf)) f))"

lemma flagged_simps [simp]:
  "f_pid (flagged buf fl f) = f_pid f" "DVR_FEED (flagged buf fl f) = DVR_FEED f"
  "f_out (flagged buf fl f) = f_out f"
  by (simp_all add: flagged_def set_buf_flags_def DVR_FEED_def)

lemma output_to_feed_eq:
  "output_to_feed env fenv buf fl f dvr =
     (if \<not> wants env buf fl f \<or> (DVR_FEED f \<and> dvr) then Some (flagged buf fl f, dvr)
      else map_option (\<lambda>f2. (f2, dvr \<or> DVR_FEED f)) (served fenv buf (flagged buf fl f)))"
  by (auto simp: output_to_feed_def wants_def served_def flagged_def Let_def set_buf_flags_def DVR_FEED_def
    option.map_comp comp_def)

text \<open>
  The state of the feed at position \<open>k\<close> of a list of output feeds after a packet: the packet
  goes to it if it wants it, unless it is a feed of the dvr device and another one before it
  has taken the packet already.
\<close>

definition feed_after :: "dmx_env \<Rightarrow> byte list \<Rightarrow> bool \<Rightarrow> nat list \<Rightarrow> feed list \<Rightarrow> nat \<Rightarrow> feed option" where
  "feed_after env buf fl is fa k =
     (let f = fa ! (is ! k)
      in if wants env buf fl f \<and> \<not> (DVR_FEED f \<and> (\<exists>j < k. DVR_FEED (fa ! (is ! j)) \<and> wants env buf fl (fa ! (is ! j))))
         then served (feed_envs env (is ! k)) buf (flagged buf fl f)
         else Some (flagged buf fl f))"

lemma output_feeds_append:
  "output_feeds env buf fl (xs @ ys) s = Option.bind (output_feeds env buf fl xs s) (output_feeds env buf fl ys)"
  by (induction env buf fl xs s rule: output_feeds.induct) (auto split: bind_split)

lemma output_feeds_snoc:
  "output_feeds env buf fl (xs @ [i]) s = Option.bind (output_feeds env buf fl xs s) (\<lambda>(fa, dvr).
     Option.bind (mem_at fa i) (\<lambda>f.
     map_option (\<lambda>(f1, dvr1). (fa[i := f1], dvr1)) (output_to_feed env (feed_envs env i) buf fl f dvr)))"
  by (auto simp: output_feeds_append split: bind_split)

lemma output_feeds_spec:
  assumes "distinct is" "output_feeds env buf fl is (fa, False) = Some (fa', dvr)"
  shows "length fa' = length fa \<and> (\<forall>i. i \<notin> set is \<longrightarrow> fa' ! i = fa ! i) \<and>
    (\<forall>k < length is. is ! k < length fa \<and> feed_after env buf fl is fa k = Some (fa' ! (is ! k))) \<and>
    (dvr \<longleftrightarrow> (\<exists>i \<in> set is. DVR_FEED (fa ! i) \<and> wants env buf fl (fa ! i)))"
  using assms
proof (induction "is" arbitrary: fa' dvr rule: rev_induct)
  case (snoc i xs)
  obtain fa1 dvr1 f1 where run: "output_feeds env buf fl xs (fa, False) = Some (fa1, dvr1)" "i < length fa1"
      "output_to_feed env (feed_envs env i) buf fl (fa1 ! i) dvr1 = Some (f1, dvr)" "fa' = fa1[i := f1]"
    using snoc.prems(2) by (auto simp: output_feeds_snoc mem_at_def split: bind_splits if_splits)
  have IH: "length fa1 = length fa" "\<And>j. j \<notin> set xs \<Longrightarrow> fa1 ! j = fa ! j"
    "\<And>k. k < length xs \<Longrightarrow> xs ! k < length fa \<and> feed_after env buf fl xs fa k = Some (fa1 ! (xs ! k))"
    "dvr1 \<longleftrightarrow> (\<exists>i \<in> set xs. DVR_FEED (fa ! i) \<and> wants env buf fl (fa ! i))"
    using snoc.IH [OF _ run(1)] snoc.prems(1) by auto
  have new: "i \<notin> set xs" "fa1 ! i = fa ! i" using snoc.prems(1) IH(2) by auto
  have dvr1: "dvr1 \<longleftrightarrow> (\<exists>j < length xs. DVR_FEED (fa ! (xs ! j)) \<and> wants env buf fl (fa ! (xs ! j)))"
    unfolding IH(4) by (metis in_set_conv_nth)
  have old: "feed_after env buf fl (xs @ [i]) fa k = feed_after env buf fl xs fa k" if "k < length xs" for k
    using that by (auto simp: feed_after_def nth_append Let_def)
  have last: "feed_after env buf fl (xs @ [i]) fa (length xs) = Some f1"
    using run(3) dvr1 unfolding new(2) output_to_feed_eq
    by (auto simp: feed_after_def Let_def nth_append split: if_splits)
  have "dvr \<longleftrightarrow> dvr1 \<or> (DVR_FEED (fa ! i) \<and> wants env buf fl (fa ! i))"
    using run(3) unfolding new(2) output_to_feed_eq by (auto split: if_splits)
  moreover have "(xs @ [i]) ! k < length fa \<and> feed_after env buf fl (xs @ [i]) fa k = Some (fa' ! ((xs @ [i]) ! k))"
    if "k < length (xs @ [i])" for k
  proof (cases "k = length xs")
    case True
    then show ?thesis using last run(2,4) IH(1) by simp
  next
    case False
    then have "k < length xs" using that by simp
    then have "xs ! k \<noteq> i" using new(1) nth_mem by blast
    then show ?thesis using IH(3) [of k] old \<open>k < length xs\<close> run(4) by (simp add: nth_append)
  qed
  ultimately show ?case using IH run(4) by auto
qed simp

text \<open>
  Feeds that a packet of 188 bytes cannot drive out of their buffer: transport feeds, and section
  feeds whose buffer has room for the payload and for the bytes that the filters always read.
\<close>

definition has_room :: "byte list \<Rightarrow> feed \<Rightarrow> bool" where
  "has_room buf f \<longleftrightarrow> f_type f = DMX_TYPE_TS \<or>
     (secfeed_ok f \<and> f_tsfeedp f + payload buf + 15 \<le> DMX_MAX_SECFEED_SIZE)"

lemma has_room_flagged [simp]: "has_room buf (flagged b fl f) = has_room buf f"
  by (simp add: has_room_def flagged_def set_buf_flags_def secfeed_ok_def)

lemma output_to_feed_total:
  assumes "has_room buf f" "length buf = 188"
  shows "\<exists>f' dvr'. output_to_feed env fenv buf fl f dvr = Some (f', dvr')"
proof -
  have "swfilter_packet_type fenv g buf \<noteq> None" if "has_room buf g" for g
  proof (cases "f_type g")
    case DMX_TYPE_TS
    then show ?thesis by (simp add: swfilter_packet_type_def Let_def)
  next
    case DMX_TYPE_SEC
    have "swfilter_section_packet fenv g buf \<noteq> None"
    proof (cases "payload buf = 0")
      case False
      then show ?thesis using that DMX_TYPE_SEC section_packet_safe assms(2) by (simp add: has_room_def)
    qed (simp add: swfilter_section_packet_def)
    then show ?thesis using DMX_TYPE_SEC by (auto simp: swfilter_packet_type_def split: bind_split)
  qed
  from this [of "flagged buf fl f"] show ?thesis using assms(1) by (auto simp: output_to_feed_eq served_def)
qed

lemma output_feeds_total:
  assumes "distinct is" "\<forall>i \<in> set is. i < length fa \<and> has_room buf (fa ! i)" "length buf = 188"
  shows "\<exists>fa' dvr. output_feeds env buf fl is (fa, False) = Some (fa', dvr)"
  using assms(1,2)
proof (induction "is" rule: rev_induct)
  case Nil
  show ?case by (intro exI [of _ fa] exI [of _ False]) simp
next
  case (snoc i xs)
  then obtain fa1 dvr1 where r: "output_feeds env buf fl xs (fa, False) = Some (fa1, dvr1)" by auto
  have "fa1 ! i = fa ! i" "length fa1 = length fa" using output_feeds_spec [OF _ r] snoc.prems(1) by auto
  moreover obtain f' dvr' where "output_to_feed env (feed_envs env i) buf fl (fa ! i) dvr1 = Some (f', dvr')"
    using output_to_feed_total assms(3) snoc.prems(2) by (metis in_set_conv_decomp)
  ultimately show ?case using snoc.prems(2) r by (simp add: output_feeds_snoc mem_at_Some)
qed

text \<open>A packet whose PID carries no embedded stream.\<close>

definition plain_pid :: "dvb_demux \<Rightarrow> nat \<Rightarrow> byte list \<Rightarrow> bool" where
  "plain_pid d fid buf \<longleftrightarrow> (\<exists>fs. heap_feeds d fid = Some fs \<and> map_of (embedded_streams fs) (int (ts_pid buf)) = None)"

text \<open>The lists of output feeds that a packet goes through.\<close>

definition all_outputs :: "dvb_demux \<Rightarrow> nat \<Rightarrow> nat list" where
  "all_outputs d fid =
     (case heap_feeds d fid of None \<Rightarrow> []
      | Some fs \<Rightarrow> output_feed_list fs @
          (if include_default_feeds fs \<and> fid \<noteq> default_feeds d
           then (case heap_feeds d (default_feeds d) of None \<Rightarrow> [] | Some fs2 \<Rightarrow> output_feed_list fs2) else []))"

lemma passes_plain:
  assumes "heap_feeds d fid = Some fs" "map_of (embedded_streams fs) (int (ts_pid buf)) = None"
  shows "stid_pass put d fid buf = Some d"
    "feeds_pass put env d fid buf fl dvr =
       map_option (\<lambda>(fa, dvr'). (d\<lparr>feedarray := fa\<rparr>, dvr')) (output_feeds env buf fl (output_feed_list fs) (feedarray d, dvr))"
  using assms by (auto simp: stid_pass_def t2mi_pass_def feeds_pass_def split: option.split bind_split)

lemma cc_check_fields:
  assumes "cc_check env fs buf = (fs1, fl)"
  shows "embedded_streams fs1 = embedded_streams fs" "output_feed_list fs1 = output_feed_list fs"
    "include_default_feeds fs1 = include_default_feeds fs"
  using assms by (auto simp: cc_check_def Let_def split: if_splits option.splits)

lemma swfilter_packet_plain:
  assumes fs: "heap_feeds d fid = Some fs" and plain: "plain_pid d fid buf"
    and def: "include_default_feeds fs \<longrightarrow> plain_pid d (default_feeds d) buf"
    and cc: "cc_check env fs buf = (fs1, fl)"
  shows "swfilter_packet (Suc n) env d fid buf =
    map_option (\<lambda>(fa, _). d\<lparr>heap_feeds := (heap_feeds d)(fid \<mapsto> fs1), feedarray := fa\<rparr>)
      (output_feeds env buf fl (all_outputs d fid) (feedarray d, False))"
proof -
  let ?d = "d\<lparr>heap_feeds := (heap_feeds d)(fid \<mapsto> fs1)\<rparr>" and ?put = "swfilter_packet n env"
  note fields = cc_check_fields [OF cc]
  have none: "map_of (embedded_streams fs1) (int (ts_pid buf)) = None"
    using plain fs fields(1) by (simp add: plain_pid_def)
  have p: "stid_pass ?put ?d fid buf = Some ?d"
    "\<And>dvr. feeds_pass ?put env ?d fid buf fl dvr = map_option (\<lambda>(fa, dvr'). (?d\<lparr>feedarray := fa\<rparr>, dvr'))
       (output_feeds env buf fl (output_feed_list fs1) (feedarray ?d, dvr))"
    using passes_plain [where d = ?d and fid = fid and fs = fs1, OF _ none] by simp_all
  show ?thesis
  proof (cases "include_default_feeds fs \<and> fid \<noteq> default_feeds d")
    case False
    then show ?thesis using p fs cc fields
      by (auto simp: all_outputs_def option.map_comp comp_def split_def Let_def split: bind_split)
  next
    case True
    then obtain fs2 where fs2: "heap_feeds d (default_feeds d) = Some fs2" "map_of (embedded_streams fs2) (int (ts_pid buf)) = None"
      using def by (auto simp: plain_pid_def)
    have q: "feeds_pass ?put env (?d\<lparr>feedarray := fa\<rparr>) (default_feeds d) buf fl dvr =
        map_option (\<lambda>(fa', dvr'). (?d\<lparr>feedarray := fa'\<rparr>, dvr'))
          (output_feeds env buf fl (output_feed_list fs2) (fa, dvr))" for fa dvr
      using passes_plain(2) [where d = "?d\<lparr>feedarray := fa\<rparr>" and fid = "default_feeds d" and fs = fs2, OF _ fs2(2)]
        fs2(1) True by simp
    show ?thesis using True p q fs fs2(1) cc fields
      by (auto simp: all_outputs_def output_feeds_append option.map_comp comp_def split_def Let_def split: bind_split)
  qed
qed

subsection \<open>A demux with transport feeds only\<close>

definition ts_feeds :: "dvb_demux \<Rightarrow> nat \<Rightarrow> bool" where
  "ts_feeds d fid \<longleftrightarrow> (\<exists>fs. heap_feeds d fid = Some fs \<and> embedded_streams fs = [] \<and>
     (\<forall>i \<in> set (output_feed_list fs). i < length (feedarray d) \<and> f_type (feedarray d ! i) = DMX_TYPE_TS))"

definition ts_only :: "dvb_demux \<Rightarrow> bool" where
  "ts_only d \<longleftrightarrow> ts_feeds d (fe_feeds d) \<and> ts_feeds d (default_feeds d) \<and> length (tsbuf d) = 204"

lemma ts_packet_type:
  "f_type f = DMX_TYPE_TS \<Longrightarrow> \<exists>f'. swfilter_packet_type fenv f buf = Some f' \<and> f_type f' = DMX_TYPE_TS"
  by (simp add: swfilter_packet_type_def swfilter_payload_def deliver_def set_buf_flags_def Let_def)

lemma ts_output_to_feed:
  "f_type f = DMX_TYPE_TS \<Longrightarrow>
   \<exists>f' dvr'. output_to_feed env fenv buf fl f dvr = Some (f', dvr') \<and> f_type f' = DMX_TYPE_TS"
  using ts_packet_type [of "flagged buf fl f" fenv buf]
  by (auto simp: output_to_feed_eq served_def flagged_def set_buf_flags_def deliver_def)

lemma ts_output_feeds:
  assumes "\<forall>i \<in> set is. i < length fa \<and> f_type (fa ! i) = DMX_TYPE_TS"
  shows "\<exists>fa' dvr'. output_feeds env buf fl is (fa, dvr) = Some (fa', dvr') \<and> length fa' = length fa \<and>
    (\<forall>i. f_type (fa ! i) = DMX_TYPE_TS \<longrightarrow> f_type (fa' ! i) = DMX_TYPE_TS)"
  using assms
proof (induction "is" arbitrary: fa dvr)
  case (Cons i xs)
  obtain f' dvr' where f': "output_to_feed env (feed_envs env i) buf fl (fa ! i) dvr = Some (f', dvr')" "f_type f' = DMX_TYPE_TS"
    using ts_output_to_feed Cons.prems by (metis list.set_intros(1))
  have ty: "f_type (fa[i := f'] ! j) = DMX_TYPE_TS" if "f_type (fa ! j) = DMX_TYPE_TS" for j
    using that f'(2) by (cases "j = i"; cases "i < length fa") (simp_all add: list_update_beyond)
  have "\<forall>j \<in> set xs. j < length (fa[i := f']) \<and> f_type (fa[i := f'] ! j) = DMX_TYPE_TS"
    using Cons.prems ty by auto
  from Cons.IH [OF this, of dvr'] obtain fa' d2 where
    "output_feeds env buf fl xs (fa[i := f'], dvr') = Some (fa', d2)" "length fa' = length fa"
    "\<forall>j. f_type (fa[i := f'] ! j) = DMX_TYPE_TS \<longrightarrow> f_type (fa' ! j) = DMX_TYPE_TS" by auto
  then show ?case using f'(1) Cons.prems ty by (auto simp: mem_at_Some)
qed simp

lemma all_outputs_subset:
  assumes "heap_feeds d fid = Some fs" "heap_feeds d (default_feeds d) = Some fs2"
  shows "set (all_outputs d fid) \<subseteq> set (output_feed_list fs) \<union> set (output_feed_list fs2)"
  unfolding all_outputs_def assms option.case
  by (cases "include_default_feeds fs \<and> fid \<noteq> default_feeds d") auto

lemma ts_only_packet:
  assumes "ts_only d"
  shows "\<exists>d'. swfilter_packet (Suc n) env d (fe_feeds d) buf = Some d' \<and> ts_only d' \<and> tsbufp d' = tsbufp d"
proof -
  obtain fs fs2 where fs: "heap_feeds d (fe_feeds d) = Some fs" "embedded_streams fs = []"
      "\<forall>i \<in> set (output_feed_list fs). i < length (feedarray d) \<and> f_type (feedarray d ! i) = DMX_TYPE_TS"
    and fs2: "heap_feeds d (default_feeds d) = Some fs2" "embedded_streams fs2 = []"
      "\<forall>i \<in> set (output_feed_list fs2). i < length (feedarray d) \<and> f_type (feedarray d ! i) = DMX_TYPE_TS"
    using assms by (auto simp: ts_only_def ts_feeds_def)
  obtain fs1 fl where cc: "cc_check env fs buf = (fs1, fl)" by fastforce
  note fields = cc_check_fields [OF cc]
  have "\<forall>i \<in> set (all_outputs d (fe_feeds d)). i < length (feedarray d) \<and> f_type (feedarray d ! i) = DMX_TYPE_TS"
    using all_outputs_subset [OF fs(1) fs2(1)] fs(3) fs2(3) by blast
  from ts_output_feeds [OF this, of env buf fl False]
  obtain fa' dvr' where fa': "output_feeds env buf fl (all_outputs d (fe_feeds d)) (feedarray d, False) = Some (fa', dvr')"
    "length fa' = length (feedarray d)" "\<forall>i. f_type (feedarray d ! i) = DMX_TYPE_TS \<longrightarrow> f_type (fa' ! i) = DMX_TYPE_TS"
    by blast
  let ?d = "d\<lparr>heap_feeds := (heap_feeds d)(fe_feeds d \<mapsto> fs1), feedarray := fa'\<rparr>"
  have "swfilter_packet (Suc n) env d (fe_feeds d) buf = Some ?d"
    using swfilter_packet_plain [OF fs(1) _ _ cc, of n] fs fs2 fa'(1) by (simp add: plain_pid_def)
  moreover have "ts_only ?d" using fs fs2 fa' fields assms by (auto simp: ts_only_def ts_feeds_def)
  ultimately show ?thesis by simp
qed

lemma memcpy_total: "off + length s \<le> length d \<Longrightarrow> \<exists>d'. memcpy d off s = Some d' \<and> length d' = length d"
  by (simp add: memcpy_def)

lemma ts_only_tsbuf: "ts_only (d\<lparr>tsbuf := tb\<rparr>) \<longleftrightarrow> ts_feeds d (fe_feeds d) \<and> ts_feeds d (default_feeds d) \<and> length tb = 204"
  "ts_only (d\<lparr>tsbufp := p\<rparr>) \<longleftrightarrow> ts_only d"
  by (simp_all add: ts_only_def ts_feeds_def)

lemma at_total:
  assumes "ts_only d" "q + pktsize wide \<le> length buf"
  shows "\<exists>d'. swfilter_at (Suc n) env wide d buf q = Some d' \<and> ts_only d' \<and> tsbufp d' = tsbufp d"
proof -
  have len: "q + 188 \<le> length buf" "188 \<le> length (tsbuf d)"
    using assms pktsize_bounds [of wide] by (auto simp: ts_only_def)
  have *: "ts_only (d\<lparr>tsbuf := tb\<rparr>)" if "length tb = 204" for tb
    using that assms(1) by (simp add: ts_only_def ts_feeds_def)
  let ?pkt = "take 188 (drop q buf)" and ?tb = "(take 188 (drop q buf) @ drop 188 (tsbuf d))[0 := 0x47]"
  have tb: "length ?tb = 204" using len assms(1) by (simp add: ts_only_def)
  obtain d1 where "swfilter_packet (Suc n) env d (fe_feeds d) ?pkt = Some d1" "ts_only d1" "tsbufp d1 = tsbufp d"
    using ts_only_packet [OF assms(1)] by blast
  moreover obtain d2 where "swfilter_packet (Suc n) env (d\<lparr>tsbuf := ?tb\<rparr>) (fe_feeds (d\<lparr>tsbuf := ?tb\<rparr>)) (take 188 ?tb) = Some d2"
      "ts_only d2" "tsbufp d2 = tsbufp (d\<lparr>tsbuf := ?tb\<rparr>)"
    using ts_only_packet [OF * [OF tb]] by blast
  ultimately show ?thesis using len
    by (cases "wide \<and> ?pkt ! 0 = 0xB8") (auto simp: swfilter_at_def memread_Some memcpy_Some Let_def simp del: swfilter_packet.simps)
qed

lemma loop_total:
  assumes "ts_only d" "p \<le> length buf"
  shows "\<exists>d' q. swfilter_loop (Suc n) env wide d buf p = Some (d', q) \<and> ts_only d' \<and> tsbufp d' = tsbufp d \<and>
    length buf < q + pktsize wide"
  using assms
proof (induction "length buf - p" arbitrary: p d rule: less_induct)
  case less
  let ?q = "find_next_packet wide buf p"
  show ?case
  proof (cases "length buf \<le> ?q \<or> length buf - ?q < pktsize wide")
    case True
    then have "length buf < ?q + pktsize wide" using pktsize_bounds [of wide] by linarith
    then show ?thesis using True less.prems(1) by (simp add: swfilter_loop.simps)
  next
    case False
    then have q: "?q + pktsize wide \<le> length buf" by linarith
    obtain d1 where d1: "swfilter_at (Suc n) env wide d buf ?q = Some d1" "ts_only d1" "tsbufp d1 = tsbufp d"
      using at_total [OF less.prems(1) q] by blast
    have "length buf - (?q + pktsize wide) < length buf - p"
      using q find_next_progress [of p wide buf] by linarith
    from less.hyps [OF this d1(2) q] show ?thesis
      using False d1(1,3) by (simp add: swfilter_loop.simps [of _ _ _ _ _ p] Let_def)
  qed
qed

lemma keep_total:
  assumes "ts_only d" "length r < pktsize wide"
  shows "\<exists>d'. swfilter_keep wide d r = Some d' \<and> ts_only d' \<and> tsbufp d' = (if r = [] then tsbufp d else length r)"
  using assms pktsize_bounds [of wide]
  by (auto simp: swfilter_keep_def memcpy_Some ts_only_def ts_feeds_def)

lemma from_total:
  assumes "ts_only d" "p \<le> length buf" "tsbufp d = 0"
  shows "\<exists>d'. swfilter_from (Suc n) env wide d buf p = Some d' \<and> ts_only d' \<and> tsbufp d' < pktsize wide"
proof -
  obtain d1 q where d1: "swfilter_loop (Suc n) env wide d buf p = Some (d1, q)" "ts_only d1" "tsbufp d1 = 0"
      "length buf < q + pktsize wide"
    using loop_total [OF assms(1,2)] assms(3) by metis
  then have "length (drop q buf) < pktsize wide" using pktsize_bounds [of wide] by simp
  from keep_total [OF d1(2) this] show ?thesis using d1 pktsize_bounds [of wide]
    by (auto simp: swfilter_from_def)
qed

lemma swfilter_total_step:
  assumes "ts_only d" "tsbufp d < pktsize wide"
  shows "\<exists>d'. swfilter (Suc n) env wide d buf = Some d' \<and> ts_only d' \<and> tsbufp d' < pktsize wide"
proof (cases "tsbufp d = 0")
  case True
  then show ?thesis using from_total [OF assms(1)] by (simp add: swfilter_def)
next
  case False
  let ?i = "tsbufp d" and ?j = "pktsize wide - tsbufp d"
  have tb: "length (tsbuf d) = 204" using assms(1) by (simp add: ts_only_def)
  show ?thesis
  proof (cases "length buf < ?j")
    case True
    then have "?i + length buf \<le> 204" "?i + length buf < pktsize wide" using pktsize_bounds [of wide] by linarith+
    then show ?thesis using False True tb assms(1)
      by (simp add: swfilter_def Let_def memcpy_Some ts_only_def ts_feeds_def)
  next
    case no: False
    then have le: "?i + ?j \<le> 204" "?j \<le> length buf" "?i + ?j = pktsize wide"
      using assms(2) pktsize_bounds [of wide] by linarith+
    obtain tb' where tb': "memcpy (tsbuf d) ?i (take ?j buf) = Some tb'" "length tb' = 204"
      using memcpy_total [of ?i "take ?j buf" "tsbuf d"] le tb by auto
    let ?d1 = "d\<lparr>tsbuf := tb'\<rparr>"
    have "ts_only ?d1" using assms(1) tb'(2) by (simp add: ts_only_def ts_feeds_def)
    then obtain d2 where d2: "(if tb' ! 0 = 0x47 then swfilter_packet (Suc n) env ?d1 (fe_feeds ?d1) (take 188 tb') else Some ?d1) = Some d2"
        "ts_only d2"
      using ts_only_packet by (metis (full_types))
    then have "ts_only (d2\<lparr>tsbufp := 0\<rparr>)" by (simp add: ts_only_def ts_feeds_def)
    from from_total [OF this le(2), of n env wide] obtain d' where
      "swfilter_from (Suc n) env wide (d2\<lparr>tsbufp := 0\<rparr>) buf ?j = Some d'" "ts_only d'" "tsbufp d' < pktsize wide"
      by auto
    then show ?thesis using False no tb'(1) d2(1)
      using assms(2) by (simp add: swfilter_def Let_def del: swfilter_packet.simps)
  qed
qed

subsection \<open>Continuity errors\<close>

fun cc_run :: "dmx_env \<Rightarrow> feeds \<Rightarrow> byte list list \<Rightarrow> feeds" where
  "cc_run env fs [] = fs"
| "cc_run env fs (p # ps) = cc_run env (fst (cc_check env fs p)) ps"

text \<open>The counter of the last packet of a PID that counts.\<close>

fun last_cc :: "byte list list \<Rightarrow> nat \<Rightarrow> byte option \<Rightarrow> byte option" where
  "last_cc [] pid c = c"
| "last_cc (p # ps) pid c = last_cc ps pid (if ts_pid p = pid \<and> \<not> bit (p ! 1) 7 then Some (p ! 3 AND 0xf) else c)"

definition cnt_of :: "byte option \<Rightarrow> byte" where
  "cnt_of c = (case c of None \<Rightarrow> 0xff | Some b \<Rightarrow> b)"

lemma cc_check_cnt:
  assumes "tscheck env" "cnt_storage fs = Some cnt" "length cnt = 0x2000"
  shows "cnt_storage (fst (cc_check env fs p)) =
    Some (if \<not> bit (p ! 1) 7 \<and> ts_pid p < MAX_PID then cnt[ts_pid p := p ! 3 AND 0xf] else cnt)"
  using assms by (auto simp: cc_check_def Let_def)

lemma cc_run_cnt:
  assumes "tscheck env" "cnt_storage fs = Some cnt" "length cnt = 0x2000"
    "\<forall>pid < MAX_PID. cnt ! pid = cnt_of (c pid)"
  shows "\<exists>cnt'. cnt_storage (cc_run env fs ps) = Some cnt' \<and> length cnt' = 0x2000 \<and>
    (\<forall>pid < MAX_PID. cnt' ! pid = cnt_of (last_cc ps pid (c pid)))"
  using assms(2-)
proof (induction ps arbitrary: fs cnt c)
  case (Cons p ps)
  let ?cnt = "if \<not> bit (p ! 1) 7 \<and> ts_pid p < MAX_PID then cnt[ts_pid p := p ! 3 AND 0xf] else cnt"
  let ?c = "\<lambda>pid. if ts_pid p = pid \<and> \<not> bit (p ! 1) 7 then Some (p ! 3 AND 0xf) else c pid"
  have "\<forall>pid < MAX_PID. ?cnt ! pid = cnt_of (?c pid)"
    using Cons.prems(2,3) by (auto simp: nth_list_update cnt_of_def)
  from Cons.IH [OF cc_check_cnt [OF assms(1) Cons.prems(1,2), of p] _ this]
  show ?case using Cons.prems(2) by simp
qed simp

lemma low_nibble_not_ff: "(b :: byte) AND 0xf \<noteq> 0xff"
proof
  assume "b AND 0xf = 0xff"
  then have "unat (b AND 0xf) = 255" by simp
  moreover have "unat (b AND 0xf) \<le> 15"
    using word_and_le1 [of b "0xf"] by (simp add: word_le_nat_alt)
  ultimately show False by simp
qed

lemma last_cc_nibble: "(\<forall>b. c = Some b \<longrightarrow> b \<noteq> 0xff) \<Longrightarrow> last_cc ps pid c = Some b \<Longrightarrow> b \<noteq> 0xff"
proof (induction ps arbitrary: c)
  case (Cons p ps)
  have "\<forall>b. (if ts_pid p = pid \<and> \<not> bit (p ! 1) 7 then Some (p ! 3 AND 0xf) else c) = Some b \<longrightarrow> b \<noteq> 0xff"
    using Cons.prems(1) low_nibble_not_ff by auto
  from Cons.IH [OF this] show ?case using Cons.prems(2) by simp
qed simp

subsection \<open>Properties\<close>

definition demo_dmx_env :: dmx_env where
  "demo_dmx_env = \<lparr>tscheck = True, feed_err_pkts = True, feed_envs = \<lambda>_. demo_env\<rparr>"

definition demo_feeds :: feeds where
  "demo_feeds = \<lparr>fs_embedding_pid = - 1, fs_isi = - 1, include_default_feeds = True, fs_refcount = 1,
     output_feed_list = [0, 1, 2], embedded_streams = [], cnt_storage = Some (replicate 0x2000 0xff)\<rparr>"

text \<open>Two feeds of the dvr device for the same PID, and one for the whole stream.\<close>

definition demo_dmx :: dvb_demux where
  "demo_dmx =
     (let ts = demo_feed\<lparr>f_type := DMX_TYPE_TS, f_ts_type := TS_PACKET, f_pid := 0x100, f_is_filtering := True, f_out := []\<rparr>
      in \<lparr>mutex = False, users = 1, filter_slots = [], feedarray = [ts, ts, ts\<lparr>f_pid := 0x2000, f_ts_type := TS_PACKET OR TS_DEMUX\<rparr>],
        frontend_list = [], pesfilter = replicate 5 None, pids = replicate 5 0xffff, tsbuf = replicate 204 0,
        tsbufp = 0, default_stream_id = - 1, fe_bbframes_stream = None, fe_feeds = 0, default_feeds = 1,
        frontend = None,
        heap_feeds = [0 \<mapsto> demo_feeds, 1 \<mapsto> demo_feeds\<lparr>output_feed_list := [], include_default_feeds := False\<rparr>],
        heap_emb = (\<lambda>_. None), heap_bbf = (\<lambda>_. None), next_addr = 2\<rparr>)"

lemma demo_dmx_ts: "ts_only demo_dmx"
  by (auto simp: ts_only_def ts_feeds_def demo_dmx_def demo_feeds_def Let_def)

definition demo_pkt :: "byte \<Rightarrow> byte list" where
  "demo_pkt b = [0x47, 0x01, 0x00, 0x10] @ replicate 184 b"

text \<open>
  C6.  The cutting of the driver's buffers does not matter.  Whatever the sizes of the buffers
  in which a byte stream arrives, with garbage that contains no sync byte in front of it, the
  demux processes exactly the packets of the stream, in order: those of 188 bytes, and the first
  188 bytes of those of 204, with an inverted sync byte put right.
\<close>

theorem chunking_irrelevant:
  assumes "tsbufp d = 0" "length (tsbuf d) = 204" "concat cs = g @ s" "\<forall>b \<in> set g. \<not> is_sync wide b"
    "aligned wide s"
  shows "map_option (set_ts [] 0) (swfilter_run n env wide d cs) =
    map_option (set_ts [] 0) (feed_packets n env d (map norm_packet (packets_of wide s)))"
proof -
  have "set_ts (tsbuf d) 0 d = d" using assms(1) set_ts_simps(16) [of d] by simp
  with run_garbage [OF assms(4,5,3,2), of n env d] show ?thesis
    by (auto simp: outcome_def split: option.splits)
qed

theorem chunking_irrelevant_witness:
  "map_option (set_ts [] 0) (swfilter_run 1 demo_dmx_env False demo_dmx
      [[1, 2] @ take 100 (demo_pkt 7), drop 100 (demo_pkt 7) @ demo_pkt 8]) =
    map_option (set_ts [] 0) (feed_packets 1 demo_dmx_env demo_dmx (map norm_packet (packets_of False (demo_pkt 7 @ demo_pkt 8))))"
proof (rule chunking_irrelevant)
  show "aligned False (demo_pkt 7 @ demo_pkt 8)"
    by (simp add: aligned.simps demo_pkt_def is_sync_def pktsize_def)
  show "concat [[1, 2] @ take 100 (demo_pkt 7), drop 100 (demo_pkt 7) @ demo_pkt 8] = [1, 2] @ demo_pkt 7 @ demo_pkt 8"
    by simp
qed (simp_all add: demo_dmx_def is_sync_def Let_def)

text \<open>
  C31.  The entry points never leave the input buffer of the demux and always return, for any
  bytes, in packets of either size and for any division into buffers: with transport feeds only,
  every call returns with less than a packet kept.
\<close>

theorem input_buffer_bounded:
  assumes "ts_only d" "tsbufp d < pktsize wide"
  shows "\<exists>d'. swfilter_run (Suc n) env wide d cs = Some d' \<and> ts_only d' \<and> tsbufp d' < pktsize wide"
  using assms
proof (induction cs arbitrary: d)
  case (Cons c cs)
  from swfilter_total_step [OF Cons.prems] obtain d1 where
    "swfilter (Suc n) env wide d c = Some d1" "ts_only d1" "tsbufp d1 < pktsize wide" by blast
  with Cons.IH [of d1] show ?case by simp
qed simp

theorem input_buffer_bounded_witness:
  "\<exists>d'. swfilter_run (Suc 0) demo_dmx_env True demo_dmx [[0xB8, 1, 0x47], replicate 300 0x47] = Some d' \<and>
    ts_only d' \<and> tsbufp d' < pktsize True"
  by (rule input_buffer_bounded [OF demo_dmx_ts]) (simp add: demo_dmx_def Let_def pktsize_def)

text \<open>
  C3.  A packet of a PID that carries no embedded stream (neither in the tables of the demux nor,
  where they are included, in those of the default applications), with every feed at most once in
  the lists of output feeds that it goes through.  It goes to exactly the feeds it is for: a feed
  on none of the lists is untouched; a feed on the lists gets it if it asks for its PID or for
  the whole stream, with a continuity or transport error noted, or not at all if erroneous
  packets are to be dropped; and of the feeds of the dvr device only the first one gets it.
  That holds whenever the call returns without a fault, and it does for a packet of 188 bytes
  when every feed on the lists is a transport feed or a section feed whose buffer has room for
  the payload and 15 bytes more.
\<close>

theorem packet_distributed:
  assumes "heap_feeds d fid = Some fs" "plain_pid d fid buf"
    "include_default_feeds fs \<longrightarrow> plain_pid d (default_feeds d) buf"
    "cc_check env fs buf = (fs1, fl)" "distinct (all_outputs d fid)"
  shows "(\<forall>d'. swfilter_packet (Suc n) env d fid buf = Some d' \<longrightarrow>
      length (feedarray d') = length (feedarray d) \<and>
      (\<forall>i. i \<notin> set (all_outputs d fid) \<longrightarrow> feedarray d' ! i = feedarray d ! i) \<and>
      (\<forall>k < length (all_outputs d fid).
         feed_after env buf fl (all_outputs d fid) (feedarray d) k = Some (feedarray d' ! (all_outputs d fid ! k)))) \<and>
    (length buf = 188 \<and> (\<forall>i \<in> set (all_outputs d fid). i < length (feedarray d) \<and> has_room buf (feedarray d ! i)) \<longrightarrow>
      (\<exists>d'. swfilter_packet (Suc n) env d fid buf = Some d'))"
proof (intro conjI allI impI)
  note plain = swfilter_packet_plain [OF assms(1-4), of n]
  fix d' assume "swfilter_packet (Suc n) env d fid buf = Some d'"
  then obtain dvr where o: "output_feeds env buf fl (all_outputs d fid) (feedarray d, False) = Some (feedarray d', dvr)"
    using plain
    by (cases "output_feeds env buf fl (all_outputs d fid) (feedarray d, False)") (auto simp del: swfilter_packet.simps)
  note spec = output_feeds_spec [OF assms(5) o]
  show "length (feedarray d') = length (feedarray d)" using spec by blast
  show "feedarray d' ! i = feedarray d ! i" if "i \<notin> set (all_outputs d fid)" for i using spec that by blast
  show "feed_after env buf fl (all_outputs d fid) (feedarray d) k = Some (feedarray d' ! (all_outputs d fid ! k))"
    if "k < length (all_outputs d fid)" for k using spec that by blast
next
  assume "length buf = 188 \<and> (\<forall>i \<in> set (all_outputs d fid). i < length (feedarray d) \<and> has_room buf (feedarray d ! i))"
  then obtain fa dvr where "output_feeds env buf fl (all_outputs d fid) (feedarray d, False) = Some (fa, dvr)"
    using output_feeds_total [OF assms(5)] by blast
  then show "\<exists>d'. swfilter_packet (Suc n) env d fid buf = Some d'"
    using swfilter_packet_plain [OF assms(1-4), of n] by (simp del: swfilter_packet.simps)
qed

theorem packet_distributed_witness:
  "\<exists>d'. swfilter_packet (Suc 0) demo_dmx_env demo_dmx 0 (demo_pkt 7) = Some d' \<and>
    map f_out (take 3 (feedarray d')) = [[TsOut (demo_pkt 7)], [], [TsOut (demo_pkt 7)]]"
proof -
  have fe: "fe_feeds demo_dmx = 0" "heap_feeds demo_dmx 0 = Some demo_feeds" "default_feeds demo_dmx = 1"
    by (simp_all add: demo_dmx_def Let_def)
  obtain d' where d': "swfilter_packet (Suc 0) demo_dmx_env demo_dmx 0 (demo_pkt 7) = Some d'"
    using ts_only_packet [OF demo_dmx_ts] fe by metis
  obtain fs1 fl where cc: "cc_check demo_dmx_env demo_feeds (demo_pkt 7) = (fs1, fl)" by fastforce
  have fl: "\<not> fl" using cc
    by (auto simp: cc_check_def demo_pkt_def demo_feeds_def demo_dmx_env_def ts_pid_def bit_numeral_rec Let_def)
  have outs: "all_outputs demo_dmx 0 = [0, 1, 2]"
    by (simp add: all_outputs_def demo_dmx_def demo_feeds_def Let_def)
  have spec: "length (feedarray d') = length (feedarray demo_dmx)"
    "\<And>k. k < 3 \<Longrightarrow> feed_after demo_dmx_env (demo_pkt 7) fl [0, 1, 2] (feedarray demo_dmx) k =
      Some (feedarray d' ! ([0, 1, 2] ! k))"
    using packet_distributed [OF fe(2) _ _ cc, of 0] d' unfolding outs
    by (simp_all add: plain_pid_def demo_dmx_def demo_feeds_def Let_def del: swfilter_packet.simps)
  have "take 3 (feedarray d') = [feedarray d' ! 0, feedarray d' ! 1, feedarray d' ! 2]"
    using spec(1) by (auto simp: demo_dmx_def Let_def list_eq_iff_nth_eq less_Suc_eq numeral_3_eq_3 numeral_2_eq_2)
  moreover have "feedarray d' ! ([0, 1, 2] ! k) =
      the (feed_after demo_dmx_env (demo_pkt 7) fl [0, 1, 2] (feedarray demo_dmx) k)" if "k < 3" for k
    using spec(2) [OF that] by simp
  from this [of 0] this [of 1] this [of 2]
  have "f_out (feedarray d' ! 0) = [TsOut (demo_pkt 7)]" "f_out (feedarray d' ! 1) = []"
    "f_out (feedarray d' ! 2) = [TsOut (demo_pkt 7)]"
    using fl
    by (auto simp: feed_after_def wants_def Let_def ts_pid_def demo_pkt_def bit_numeral_rec demo_dmx_def
      DVR_FEED_def flagged_def served_def swfilter_packet_type_def deliver_def demo_dmx_env_def)
  ultimately show ?thesis using d' by (intro exI [of _ d']) (simp del: swfilter_packet.simps)
qed

text \<open>
  C7.  With the check enabled, an error is flagged for exactly the packets that carry the
  transport error indicator or whose continuity counter is not the next one of their PID (the
  same one if they have no payload), among any packets of other PIDs; the counters start anew
  after each error.
\<close>

theorem continuity_errors_flagged:
  assumes "tscheck env" "cnt_storage fs = Some (replicate 0x2000 0xff)" "ts_pid p < MAX_PID"
  shows "snd (cc_check env (cc_run env fs ps) p) \<longleftrightarrow>
    bit (p ! 1) 7 \<or> (\<exists>c. last_cc ps (ts_pid p) None = Some c \<and>
      p ! 3 AND 0xf \<noteq> (if bit (p ! 3) 4 then (c + 1) AND 0xf else c))"
proof -
  have "\<forall>pid < MAX_PID. replicate 0x2000 0xff ! pid = cnt_of None" by (simp add: cnt_of_def)
  from cc_run_cnt [OF assms(1,2) _ this, of ps] obtain cnt where
    cnt: "cnt_storage (cc_run env fs ps) = Some cnt" "length cnt = 0x2000"
      "cnt ! ts_pid p = cnt_of (last_cc ps (ts_pid p) None)"
    using assms(3) by auto
  show ?thesis
  proof (cases "last_cc ps (ts_pid p) None")
    case None
    then show ?thesis using assms(1,3) cnt by (auto simp: cc_check_def Let_def cnt_of_def)
  next
    case (Some c)
    then have "c \<noteq> 0xff" using last_cc_nibble [of None ps "ts_pid p" c] by simp
    then show ?thesis using Some assms(1,3) cnt by (auto simp: cc_check_def Let_def cnt_of_def)
  qed
qed

theorem continuity_errors_flagged_witness:
  "snd (cc_check demo_dmx_env (cc_run demo_dmx_env demo_feeds [demo_pkt 7, demo_pkt 8]) (demo_pkt 9))"
  using continuity_errors_flagged [of demo_dmx_env demo_feeds "demo_pkt 9" "[demo_pkt 7, demo_pkt 8]"]
  by (simp add: demo_dmx_env_def demo_feeds_def demo_pkt_def ts_pid_def bit_numeral_rec)

end
