(* ===== verification/DemuxControl.thy ===== *)
theory DemuxControl imports Demux begin

text \<open>
  The control part of the demux (neumo-dvb-demux.c): the pools of feeds and section filters,
  reference counts of feeds, embedded streams and streams, the calls that allocate, start, stop
  and release feeds, and the interface that \<open>neumo_dvb_dmx_init\<close> installs.

  A call returns the state and its result, an error number being negative; a call that also
  hands out an object returns \<open>Inl\<close> of the error or \<open>Inr\<close> of the object.  \<^const>\<open>None\<close> is an
  access to an object that is gone, a null pointer, or a mutex taken twice.  The argument
  \<open>intr\<close> says that a signal interrupts the wait for the mutex.  Objects are allocated at
  \<open>next_addr\<close>.
\<close>

subsection \<open>Locking\<close>

definition mutex_lock :: "dvb_demux \<Rightarrow> dvb_demux option" where
  "mutex_lock d = (if mutex d then None else Some (d\<lparr>mutex := True\<rparr>))"

definition mutex_unlock :: "dvb_demux \<Rightarrow> dvb_demux" where
  "mutex_unlock d = d\<lparr>mutex := False\<rparr>"

definition locked :: "dvb_demux \<Rightarrow> (dvb_demux \<Rightarrow> (dvb_demux \<times> 'r) option) \<Rightarrow> (dvb_demux \<times> 'r) option" where
  "locked d body = map_option (\<lambda>(d1, r). (mutex_unlock d1, r)) (Option.bind (mutex_lock d) body)"

definition interruptible ::
    "bool \<Rightarrow> 'r \<Rightarrow> dvb_demux \<Rightarrow> (dvb_demux \<Rightarrow> (dvb_demux \<times> 'r) option) \<Rightarrow> (dvb_demux \<times> 'r) option" where
  "interruptible intr err d body = (if intr then Some (d, err) else locked d body)"

text \<open>The callbacks of the driver, which may be missing.\<close>

record dmx_driver =
  start_feed :: "(feed \<Rightarrow> int) option"
  stop_feed :: "(feed \<Rightarrow> int) option"

subsection \<open>Pools\<close>

fun first_free :: "dvb_dmx_state list \<Rightarrow> nat option" where
  "first_free [] = None"
| "first_free (s # ss) = (if s = DMX_STATE_FREE then Some 0 else map_option Suc (first_free ss))"

definition dvb_dmx_section_filter_alloc :: "dvb_demux \<Rightarrow> (dvb_demux \<times> nat) option" where
  "dvb_dmx_section_filter_alloc d =
     map_option (\<lambda>i. (d\<lparr>filter_slots := (filter_slots d)[i := (filter_slots d ! i)\<lparr>sl_state := DMX_STATE_ALLOCATED\<rparr>]\<rparr>, i))
       (first_free (map sl_state (filter_slots d)))"

definition dvb_dmx_feed_alloc :: "dvb_demux \<Rightarrow> (dvb_demux \<times> nat) option" where
  "dvb_dmx_feed_alloc d =
     map_option (\<lambda>i. (d\<lparr>feedarray := (feedarray d)[i := (feedarray d ! i)\<lparr>f_state := DMX_STATE_ALLOCATED\<rparr>]\<rparr>, i))
       (first_free (map f_state (feedarray d)))"

text \<open>Access to a feed of the array.\<close>

definition upd_feed :: "nat \<Rightarrow> (feed \<Rightarrow> feed) \<Rightarrow> dvb_demux \<Rightarrow> dvb_demux" where
  "upd_feed i g d = d\<lparr>feedarray := (feedarray d)[i := g (feedarray d ! i)]\<rparr>"

definition upd_slot :: "nat \<Rightarrow> (filter_slot \<Rightarrow> filter_slot) \<Rightarrow> dvb_demux \<Rightarrow> dvb_demux" where
  "upd_slot i g d = d\<lparr>filter_slots := (filter_slots d)[i := g (filter_slots d ! i)]\<rparr>"

subsection \<open>Reference counts of feeds\<close>

definition upd_feeds :: "nat \<Rightarrow> (feeds \<Rightarrow> feeds) \<Rightarrow> dvb_demux \<Rightarrow> dvb_demux option" where
  "upd_feeds fid g d = map_option (\<lambda>fs. d\<lparr>heap_feeds := (heap_feeds d)(fid \<mapsto> g fs)\<rparr>) (heap_feeds d fid)"

text \<open>
  The initialisation of feeds when \<open>vmalloc\<close> has memory for the table of counters (without it the
  code warns and goes on without the table).
\<close>

definition dvb_demux_feeds_init :: "int \<Rightarrow> int \<Rightarrow> feeds" where
  "dvb_demux_feeds_init pid isi = \<lparr>fs_embedding_pid = pid, fs_isi = isi, include_default_feeds = False,
     fs_refcount = 1, output_feed_list = [], embedded_streams = [],
     cnt_storage = Some (replicate MAX_PID 0xff @ [0])\<rparr>"

definition dvb_demux_feeds_release_cb :: "dvb_demux \<Rightarrow> nat \<Rightarrow> dvb_demux" where
  "dvb_demux_feeds_release_cb d fid = d\<lparr>heap_feeds := (heap_feeds d)(fid := None)\<rparr>"

definition feeds_get :: "dvb_demux \<Rightarrow> nat \<Rightarrow> dvb_demux option" where
  "feeds_get d fid = upd_feeds fid (\<lambda>fs. fs\<lparr>fs_refcount := fs_refcount fs + 1\<rparr>) d"

definition feeds_put :: "dvb_demux \<Rightarrow> nat \<Rightarrow> dvb_demux option" where
  "feeds_put d fid = do {
     fs \<leftarrow> heap_feeds d fid;
     (if fs_refcount fs = 0 then None
      else if fs_refcount fs = 1 then Some (dvb_demux_feeds_release_cb d fid)
      else upd_feeds fid (\<lambda>fs. fs\<lparr>fs_refcount := fs_refcount fs - 1\<rparr>) d) }"

subsection \<open>Lists of output feeds\<close>

definition dvb_demux_output_feed_find :: "dvb_demux \<Rightarrow> nat \<Rightarrow> bool option" where
  "dvb_demux_output_feed_find d i = do {
     f \<leftarrow> mem_at (feedarray d) i;
     fs \<leftarrow> heap_feeds d (f_parent f);
     Some (i \<in> set (output_feed_list fs)) }"

definition dvb_demux_output_feed_add :: "dvb_demux \<Rightarrow> nat \<Rightarrow> dvb_demux option" where
  "dvb_demux_output_feed_add d i = do {
     found \<leftarrow> dvb_demux_output_feed_find d i;
     (if found then Some d
      else let fid = f_parent (feedarray d ! i)
           in Option.bind (upd_feeds fid (\<lambda>fs. fs\<lparr>output_feed_list := i # output_feed_list fs\<rparr>) d)
                (\<lambda>d1. feeds_get d1 fid)) }"

definition dvb_demux_output_feed_del :: "dvb_demux \<Rightarrow> nat \<Rightarrow> dvb_demux option" where
  "dvb_demux_output_feed_del d i = do {
     found \<leftarrow> dvb_demux_output_feed_find d i;
     (if \<not> found then Some d
      else let fid = f_parent (feedarray d ! i)
           in Option.bind (upd_feeds fid (\<lambda>fs. fs\<lparr>output_feed_list := remove1 i (output_feed_list fs)\<rparr>) d)
                (\<lambda>d1. feeds_put d1 fid)) }"

subsection \<open>Start and stop of transport feeds\<close>

definition demux_ts_feed_start_filtering :: "dmx_driver \<Rightarrow> bool \<Rightarrow> dvb_demux \<Rightarrow> nat \<Rightarrow> (dvb_demux \<times> int) option" where
  "demux_ts_feed_start_filtering drv intr d i =
     interruptible intr (- ERESTARTSYS) d (\<lambda>d. do {
       f \<leftarrow> mem_at (feedarray d) i;
       (if f_state f \<noteq> DMX_STATE_READY \<or> f_type f \<noteq> DMX_TYPE_TS then Some (d, - EINVAL)
        else case start_feed drv of
            None \<Rightarrow> Some (d, - ENODEV)
          | Some start \<Rightarrow> do {
              fs \<leftarrow> heap_feeds d (f_parent f);
              cnt \<leftarrow> cnt_storage fs;
              d1 \<leftarrow> upd_feeds (f_parent f)
                (\<lambda>fs. fs\<lparr>cnt_storage := Some (replicate MAX_PID 0xff @ drop MAX_PID cnt)\<rparr>) d;
              (if start f < 0 then Some (d1, start f)
               else Some (upd_feed i (\<lambda>f. f\<lparr>f_is_filtering := True, f_state := DMX_STATE_GO\<rparr>) d1, 0)) }) })"

definition demux_ts_feed_stop_filtering :: "dmx_driver \<Rightarrow> dvb_demux \<Rightarrow> nat \<Rightarrow> (dvb_demux \<times> int) option" where
  "demux_ts_feed_stop_filtering drv d i =
     locked d (\<lambda>d. do {
       f \<leftarrow> mem_at (feedarray d) i;
       (if f_state f \<noteq> DMX_STATE_GO then Some (d, - EINVAL)
        else case stop_feed drv of
            None \<Rightarrow> Some (d, - ENODEV)
          | Some stop \<Rightarrow>
              Some (upd_feed i (\<lambda>f. f\<lparr>f_is_filtering := False, f_state := DMX_STATE_ALLOCATED\<rparr>) d, stop f)) })"

subsection \<open>Streams of an embedding\<close>

definition emb_of :: "embedded \<Rightarrow> embedded_stream" where
  "emb_of e = (case e of Stid s \<Rightarrow> stid_emb s | T2mi t \<Rightarrow> t2mi_emb t)"

definition map_emb :: "(embedded_stream \<Rightarrow> embedded_stream) \<Rightarrow> embedded \<Rightarrow> embedded" where
  "map_emb g e = (case e of Stid s \<Rightarrow> Stid (s\<lparr>stid_emb := g (stid_emb s)\<rparr>) | T2mi t \<Rightarrow> T2mi (t\<lparr>t2mi_emb := g (t2mi_emb t)\<rparr>))"

definition upd_emb :: "nat \<Rightarrow> (embedded_stream \<Rightarrow> embedded_stream) \<Rightarrow> dvb_demux \<Rightarrow> dvb_demux option" where
  "upd_emb e g d = map_option (\<lambda>em. d\<lparr>heap_emb := (heap_emb d)(e \<mapsto> map_emb g em)\<rparr>) (heap_emb d e)"

definition zero_emb :: embedded_stream where
  "zero_emb = \<lparr>embedded_stream_type = EMBEDDED_STREAM_TYPE_UNKNOWN, embedding_pid = 0, bbf_streams = [],
     emb_refcount = 0, emb_parent_feeds = 0, payload_len = 0, packet_count = 0, bbf_header_crc8 = 0,
     current_isi = 0, current_bbf = None, cc_counter = 0, isi_plp_bitset = replicate 8 0,
     high_rolloff_mode = replicate 8 0, num_streams = 0, matypes = replicate 256 0\<rparr>"

definition embedded_stream_init ::
    "dvb_demux \<Rightarrow> embedded_stream \<Rightarrow> nat \<Rightarrow> neumo_embedded_stream_type \<Rightarrow> int \<Rightarrow> (dvb_demux \<times> embedded_stream) option" where
  "embedded_stream_init d emb parent_feeds typ pid = do {
     let emb1 = emb\<lparr>embedded_stream_type := typ, embedding_pid := pid, bbf_streams := [], emb_refcount := 1,
           emb_parent_feeds := parent_feeds\<rparr>;
     d1 \<leftarrow> feeds_get d parent_feeds;
     (h, emb2) \<leftarrow> embedded_stream_reset True (heap_bbf d1) emb1;
     Some (d1\<lparr>heap_bbf := h\<rparr>, emb2) }"

definition stid_stream_init :: "dvb_demux \<Rightarrow> nat \<Rightarrow> int \<Rightarrow> (dvb_demux \<times> stid_stream) option" where
  "stid_stream_init d parent_feeds pid = do {
     (d1, emb) \<leftarrow> embedded_stream_init d zero_emb parent_feeds EMBEDDED_STREAM_TYPE_STID pid;
     Some (d1, \<lparr>stid_emb = emb, stid_section_length = 0\<rparr>) }"

definition zero_t2mi :: t2mi_stream where
  "zero_t2mi = \<lparr>t2mi_emb = zero_emb, default_isi = 0, packet_type = 0, superframe_idx = 0, crc_idx = 0,
     t2mi_synced = False, frame_idx = 0, plp_id = 0, packet_header_isi = 0, intl_frame_start = 0,
     t2mi_crc32 = 0, t2mi_payload_bytes_left = 0, bbheader_bytes_left = 0, header_idx = 0,
     bbheader_idx = 0, t2mi_buff = replicate 188 0, num_cc_errors = 0, num_crc8_errors = 0,
     num_crc32_errors = 0\<rparr>"

definition t2mi_stream_init :: "dvb_demux \<Rightarrow> nat \<Rightarrow> int \<Rightarrow> (dvb_demux \<times> t2mi_stream) option" where
  "t2mi_stream_init d parent_feeds pid = do {
     (d1, emb) \<leftarrow> embedded_stream_init d zero_emb parent_feeds EMBEDDED_STREAM_TYPE_T2MI pid;
     (h, t) \<leftarrow> t2mi_stream_reset True (heap_bbf d1) (zero_t2mi\<lparr>t2mi_emb := emb, default_isi := - 1\<rparr>);
     Some (d1\<lparr>heap_bbf := h\<rparr>, t\<lparr>num_cc_errors := 0, num_crc8_errors := 0, num_crc32_errors := 0\<rparr>) }"

definition zero_bbf :: bbframes_stream where
  "zero_bbf = \<lparr>bbf_isi = 0, bbf_refcount = 0, parent_embedded_stream = 0,
     bbf_ts = \<lparr>ts_buff_idx = 0, ts_synced = False, ts_buff = replicate 200 0\<rparr>, bbf_feeds = 0, bbf_matype = 0,
     bbf_upl = 0, bbf_dfl = 0, bbf_syncd = 0, bbf_issy = 0, bbf_crc8 = 0, bbf_left = 0, bbf_syncbyte = 0,
     bbf_synced = False, bbf_hem_mode = False, bbf_num_crc_errors = 0\<rparr>"

text \<open>The new stream; its feeds are allocated with it.\<close>

definition bbframes_stream_init :: "dvb_demux \<Rightarrow> bbframes_stream \<Rightarrow> nat \<Rightarrow> int \<Rightarrow> int \<Rightarrow> dvb_demux \<times> bbframes_stream" where
  "bbframes_stream_init d bbf e pid isi =
     (let fid = next_addr d;
          d1 = d\<lparr>heap_feeds := (heap_feeds d)(fid \<mapsto> dvb_demux_feeds_init pid isi), next_addr := fid + 1\<rparr>
      in (d1, bbframes_stream_reset (bbf\<lparr>bbf_isi := isi, bbf_refcount := 1, parent_embedded_stream := e, bbf_feeds := fid\<rparr>)))"

text \<open>The index of a stream in the table of its embedding.\<close>

definition isi_key :: "int \<Rightarrow> int" where
  "isi_key isi = (if isi < 0 then 256 else isi)"

definition xa_erase :: "int \<Rightarrow> (int \<times> nat) list \<Rightarrow> (int \<times> nat) list" where
  "xa_erase k xs = filter (\<lambda>(k', _). k' \<noteq> k) xs"

text \<open>
  A stream of the table, or a new one.  The memory of a new stream and of its feeds is taken to
  be there: the code does not look at what \<open>kzalloc\<close> returns.
\<close>

definition dvb_dmx_find_or_alloc_bbf_stream :: "dvb_demux \<Rightarrow> nat \<Rightarrow> int \<Rightarrow> int \<Rightarrow> (dvb_demux \<times> nat) option" where
  "dvb_dmx_find_or_alloc_bbf_stream d e pid isi0 = do {
     let isi = isi_key isi0;
     em \<leftarrow> heap_emb d e;
     (case map_of (bbf_streams (emb_of em)) isi of
        Some b \<Rightarrow> map_option (\<lambda>bbf. (d\<lparr>heap_bbf := (heap_bbf d)(b \<mapsto> bbf\<lparr>bbf_refcount := bbf_refcount bbf + 1\<rparr>)\<rparr>, b))
                    (heap_bbf d b)
      | None \<Rightarrow>
          let b = next_addr d;
              (d1, bbf) = bbframes_stream_init (d\<lparr>next_addr := b + 1\<rparr>) zero_bbf e pid isi;
              d2 = d1\<lparr>heap_bbf := (heap_bbf d1)(b \<mapsto> bbf\<lparr>bbf_isi := isi, bbf_crc8 := - 1\<rparr>)\<rparr>
          in map_option (\<lambda>d3. (d3, b)) (upd_emb e (\<lambda>emb. emb\<lparr>bbf_streams := (isi, b) # bbf_streams emb\<rparr>) d2)) }"

subsection \<open>Release of embedded streams\<close>

text \<open>
  The last reference to an embedding: the reference to the feeds that hold it is dropped first,
  then it is removed from their table.  The object itself is not freed.
\<close>

definition embedded_stream_release_cb :: "dvb_demux \<Rightarrow> nat \<Rightarrow> dvb_demux option" where
  "embedded_stream_release_cb d e = do {
     em \<leftarrow> heap_emb d e;
     let emb = emb_of em;
     d1 \<leftarrow> feeds_put d (emb_parent_feeds emb);
     upd_feeds (emb_parent_feeds emb) (\<lambda>fs. fs\<lparr>embedded_streams := xa_erase (embedding_pid emb) (embedded_streams fs)\<rparr>) d1 }"

definition embedded_stream_release :: "dvb_demux \<Rightarrow> nat \<Rightarrow> dvb_demux option" where
  "embedded_stream_release d e = do {
     em \<leftarrow> heap_emb d e;
     (if emb_refcount (emb_of em) = 0 then None
      else do {
        d1 \<leftarrow> upd_emb e (\<lambda>emb. emb\<lparr>emb_refcount := emb_refcount emb - 1\<rparr>) d;
        (if emb_refcount (emb_of em) = 1 then embedded_stream_release_cb d1 e else Some d1) }) }"

definition bbframes_stream_release_cb :: "dvb_demux \<Rightarrow> nat \<Rightarrow> dvb_demux option" where
  "bbframes_stream_release_cb d b = do {
     bbf \<leftarrow> heap_bbf d b;
     d1 \<leftarrow> feeds_put d (bbf_feeds bbf);
     d2 \<leftarrow> upd_emb (parent_embedded_stream bbf)
       (\<lambda>emb. emb\<lparr>bbf_streams := xa_erase (isi_key (bbf_isi bbf)) (bbf_streams emb)\<rparr>) d1;
     Some (d2\<lparr>heap_bbf := (heap_bbf d2)(b := None)\<rparr>) }"

definition bbf_put :: "dvb_demux \<Rightarrow> nat \<Rightarrow> dvb_demux option" where
  "bbf_put d b = do {
     bbf \<leftarrow> heap_bbf d b;
     (if bbf_refcount bbf = 0 then None
      else if bbf_refcount bbf = 1 then bbframes_stream_release_cb d b
      else Some (d\<lparr>heap_bbf := (heap_bbf d)(b \<mapsto> bbf\<lparr>bbf_refcount := bbf_refcount bbf - 1\<rparr>)\<rparr>)) }"

definition bbframes_stream_release :: "dvb_demux \<Rightarrow> nat \<Rightarrow> dvb_demux option" where
  "bbframes_stream_release d b = do {
     bbf \<leftarrow> heap_bbf d b;
     d1 \<leftarrow> bbf_put d b;
     embedded_stream_release d1 (parent_embedded_stream bbf) }"

definition dvbdmx_release_bbframes_stream_unlocked :: "dvb_demux \<Rightarrow> nat \<Rightarrow> (dvb_demux \<times> int) option" where
  "dvbdmx_release_bbframes_stream_unlocked d b = map_option (\<lambda>d1. (d1, 0)) (bbframes_stream_release d b)"

definition dvbdmx_release_bbframes_stream :: "dvb_demux \<Rightarrow> nat \<Rightarrow> (dvb_demux \<times> int) option" where
  "dvbdmx_release_bbframes_stream d b = locked d (\<lambda>d. dvbdmx_release_bbframes_stream_unlocked d b)"

subsection \<open>Allocation of embedded streams\<close>

text \<open>
  A stream in the feeds \<open>parent\<close>: the embedding on its PID is created, or shared.  \<open>oom\<close> says
  that the allocation of a new embedding fails.
\<close>

definition allocate_embedded ::
    "(dvb_demux \<Rightarrow> nat \<Rightarrow> int \<Rightarrow> (dvb_demux \<times> embedded) option) \<Rightarrow> bool \<Rightarrow> dvb_demux \<Rightarrow> int \<Rightarrow> int \<Rightarrow> nat \<Rightarrow>
     (dvb_demux \<times> (int + nat)) option" where
  "allocate_embedded init oom d pid isi parent = do {
     fs \<leftarrow> heap_feeds d parent;
     (case map_of (embedded_streams fs) pid of
        None \<Rightarrow>
          if oom then Some (d, Inl (- EBUSY))
          else do {
            let e = next_addr d;
            (d1, em) \<leftarrow> init (d\<lparr>next_addr := e + 1\<rparr>) parent pid;
            d2 \<leftarrow> upd_feeds parent (\<lambda>fs. fs\<lparr>embedded_streams := (pid, e) # embedded_streams fs\<rparr>)
              (d1\<lparr>heap_emb := (heap_emb d1)(e \<mapsto> em)\<rparr>);
            (d3, b) \<leftarrow> dvb_dmx_find_or_alloc_bbf_stream d2 e pid isi;
            Some (d3, Inr b) }
      | Some e \<Rightarrow> do {
          d1 \<leftarrow> upd_emb e (\<lambda>emb. emb\<lparr>emb_refcount := emb_refcount emb + 1\<rparr>) d;
          (d2, b) \<leftarrow> dvb_dmx_find_or_alloc_bbf_stream d1 e pid isi;
          Some (d2, Inr b) }) }"

definition dvbdmx_allocate_stid_stream_unlocked ::
    "bool \<Rightarrow> dvb_demux \<Rightarrow> int \<Rightarrow> int \<Rightarrow> nat option \<Rightarrow> (dvb_demux \<times> (int + nat)) option" where
  "dvbdmx_allocate_stid_stream_unlocked oom d pid isi parent_feeds =
     allocate_embedded (\<lambda>d p pid. map_option (\<lambda>(d1, s). (d1, Stid s)) (stid_stream_init d p pid)) oom d pid isi
       (case parent_feeds of None \<Rightarrow> fe_feeds d | Some p \<Rightarrow> p)"

definition dvbdmx_allocate_t2mi_stream_unlocked ::
    "bool \<Rightarrow> dvb_demux \<Rightarrow> int \<Rightarrow> int \<Rightarrow> nat option \<Rightarrow> (dvb_demux \<times> (int + nat)) option" where
  "dvbdmx_allocate_t2mi_stream_unlocked oom d pid isi parent_feeds =
     allocate_embedded (\<lambda>d p pid. map_option (\<lambda>(d1, t). (d1, T2mi t)) (t2mi_stream_init d p pid)) oom d pid isi
       (case parent_feeds of None \<Rightarrow> default_feeds d | Some p \<Rightarrow> p)"

definition dvbdmx_allocate_stid_stream ::
    "bool \<Rightarrow> bool \<Rightarrow> dvb_demux \<Rightarrow> int \<Rightarrow> int \<Rightarrow> nat option \<Rightarrow> (dvb_demux \<times> (int + nat)) option" where
  "dvbdmx_allocate_stid_stream intr oom d pid isi parent_feeds =
     interruptible intr (Inl (- ERESTARTSYS)) d (\<lambda>d. dvbdmx_allocate_stid_stream_unlocked oom d pid isi parent_feeds)"

definition dvbdmx_allocate_t2mi_stream ::
    "bool \<Rightarrow> bool \<Rightarrow> dvb_demux \<Rightarrow> int \<Rightarrow> int \<Rightarrow> nat option \<Rightarrow> (dvb_demux \<times> (int + nat)) option" where
  "dvbdmx_allocate_t2mi_stream intr oom d pid isi parent_feeds =
     interruptible intr (Inl (- ERESTARTSYS)) d (\<lambda>d. dvbdmx_allocate_t2mi_stream_unlocked oom d pid isi parent_feeds)"

definition dvbdmx_get_fe_feeds :: "dvb_demux \<Rightarrow> nat" where
  "dvbdmx_get_fe_feeds d = fe_feeds d"

subsection \<open>Transport feeds\<close>

text \<open>
  The entries of \<open>pesfilter\<close> and \<open>pids\<close> are indexed by the type of elementary stream; their
  number is \<open>DMX_PES_OTHER\<close>.  The section filters of a slot are left as they are.
\<close>

definition claim_pes :: "nat \<Rightarrow> u32 \<Rightarrow> nat \<Rightarrow> nat \<Rightarrow> dvb_demux \<Rightarrow> dvb_demux option" where
  "claim_pes i ts_type pes_type pid d =
     (if ts_type AND TS_DECODER = 0 then Some d
      else if length (pesfilter d) \<le> pes_type then None
      else if pesfilter d ! pes_type \<notin> {None, Some i} then None
      else Some (d\<lparr>pesfilter := (pesfilter d)[pes_type := Some i], pids := (pids d)[pes_type := pid]\<rparr>))"

definition dvbdmx_allocate_neumo_pid_stream ::
    "bool \<Rightarrow> dvb_demux \<Rightarrow> nat \<Rightarrow> u32 \<Rightarrow> nat \<Rightarrow> nat option \<Rightarrow> (dvb_demux \<times> (int + nat)) option" where
  "dvbdmx_allocate_neumo_pid_stream intr d pid ts_type pes_type parent_feeds =
     (if pid > 0x2000 then Some (d, Inl (- EINVAL))
      else interruptible intr (Inl (- ERESTARTSYS)) d (\<lambda>d.
        (case dvb_dmx_feed_alloc d of
           None \<Rightarrow> Some (d, Inl (- EBUSY))
         | Some (d1, i) \<Rightarrow>
             let parent = (case parent_feeds of None \<Rightarrow> default_feeds d1 | Some p \<Rightarrow> p);
                 d2 = upd_feed i (\<lambda>f. f\<lparr>f_type := DMX_TYPE_TS, f_pid := 0xffff, f_peslen := 0xfffa, f_flags := [],
                        f_parent := parent, f_is_filtering := False\<rparr>) d1
             in (case claim_pes i ts_type pes_type pid d2 of
                   None \<Rightarrow> Some (d2, Inl (- EINVAL))
                 | Some d3 \<Rightarrow> map_option (\<lambda>d4.
                     (upd_feed i (\<lambda>f. f\<lparr>f_pid := pid, f_ts_type := ts_type, f_pes_type := pes_type,
                        f_state := DMX_STATE_READY\<rparr>) d4, Inr i)) (dvb_demux_output_feed_add d3 i)))))"

text \<open>
  Release; the first section filter found in the slot is released with it, wherever the pointer
  leads.
\<close>

definition dvbdmx_release_neumo_pid_stream :: "dvb_demux \<Rightarrow> nat \<Rightarrow> (dvb_demux \<times> int) option" where
  "dvbdmx_release_neumo_pid_stream d i =
     locked d (\<lambda>d. do {
       f \<leftarrow> mem_at (feedarray d) i;
       (if f_state f = DMX_STATE_FREE then Some (d, - EINVAL)
        else do {
          let d1 = upd_feed i (\<lambda>f. f\<lparr>f_state := DMX_STATE_FREE\<rparr>) d;
          d2 \<leftarrow> (case f_filters f of [] \<Rightarrow> Some d1
                 | sf # _ \<Rightarrow> if sfl_index sf < length (filter_slots d1)
                     then Some (upd_slot (sfl_index sf) (\<lambda>s. s\<lparr>sl_state := DMX_STATE_FREE\<rparr>) d1) else None);
          d3 \<leftarrow> dvb_demux_output_feed_del d2 i;
          let d4 = upd_feed i (\<lambda>f. f\<lparr>f_pid := 0xffff\<rparr>) d3;
          Some (if f_ts_type f AND TS_DECODER \<noteq> 0 \<and> f_pes_type f < length (pesfilter d4)
                then d4\<lparr>pesfilter := (pesfilter d4)[f_pes_type f := None]\<rparr> else d4, 0) }) })"

subsection \<open>Section feeds and their filters\<close>

definition dmx_section_feed_allocate_filter :: "bool \<Rightarrow> dvb_demux \<Rightarrow> nat \<Rightarrow> (dvb_demux \<times> (int + nat)) option" where
  "dmx_section_feed_allocate_filter intr d i =
     interruptible intr (Inl (- ERESTARTSYS)) d (\<lambda>d.
       (case dvb_dmx_section_filter_alloc d of
          None \<Rightarrow> Some (d, Inl (- EBUSY))
        | Some (d1, j) \<Rightarrow>
            let d2 = upd_slot j (\<lambda>s. s\<lparr>sl_feed := Some i, sl_state := DMX_STATE_READY\<rparr>) d1;
                sf = (sl_filter (filter_slots d2 ! j))\<lparr>sfl_index := j\<rparr>
            in Some (upd_feed i (\<lambda>f. f\<lparr>f_filters := sf # f_filters f\<rparr>) d2, Inr j)))"

definition dmx_section_feed_start_filtering :: "dmx_driver \<Rightarrow> bool \<Rightarrow> dvb_demux \<Rightarrow> nat \<Rightarrow> (dvb_demux \<times> int) option" where
  "dmx_section_feed_start_filtering drv intr d i =
     interruptible intr (- ERESTARTSYS) d (\<lambda>d. do {
       f \<leftarrow> mem_at (feedarray d) i;
       (if f_is_filtering f then Some (d, - EBUSY)
        else if f_filters f = [] then Some (d, - EINVAL)
        else let d1 = upd_feed i (\<lambda>f. f\<lparr>f_tsfeedp := 0, f_secbuf := 0, f_secbufp := 0, f_seclen := 0,
                   f_pusi_seen := False\<rparr>) d
             in (case start_feed drv of
                   None \<Rightarrow> Some (d1, - ENODEV)
                 | Some start \<Rightarrow>
                     let d2 = upd_feed i prepare_secfilters d1; r = start (feedarray d2 ! i)
                     in Some (if r < 0 then (d2, r)
                       else (upd_feed i (\<lambda>f. f\<lparr>f_is_filtering := True, f_state := DMX_STATE_GO\<rparr>) d2, 0)))) })"

definition dmx_section_feed_stop_filtering :: "dmx_driver \<Rightarrow> dvb_demux \<Rightarrow> nat \<Rightarrow> (dvb_demux \<times> int) option" where
  "dmx_section_feed_stop_filtering drv d i =
     locked d (\<lambda>d. do {
       f \<leftarrow> mem_at (feedarray d) i;
       (case stop_feed drv of
          None \<Rightarrow> Some (d, - ENODEV)
        | Some stop \<Rightarrow>
            Some (upd_feed i (\<lambda>f. f\<lparr>f_state := DMX_STATE_READY, f_is_filtering := False\<rparr>) d, stop f)) })"

text \<open>
  Taking a filter out of the list of its feed; the loop of the code runs into a null pointer if
  the filter is not in the list.
\<close>

fun unlink_filter :: "nat \<Rightarrow> secfilter list \<Rightarrow> (secfilter \<times> secfilter list) option" where
  "unlink_filter j [] = None"
| "unlink_filter j (sf # sfs) = (if sfl_index sf = j then Some (sf, sfs)
     else map_option (\<lambda>(x, r). (x, sf # r)) (unlink_filter j sfs))"

definition dmx_section_feed_release_filter :: "dmx_driver \<Rightarrow> dvb_demux \<Rightarrow> nat \<Rightarrow> nat \<Rightarrow> (dvb_demux \<times> int) option" where
  "dmx_section_feed_release_filter drv d i j = do {
     d1 \<leftarrow> mutex_lock d;
     sl \<leftarrow> mem_at (filter_slots d1) j;
     f \<leftarrow> mem_at (feedarray d1) i;
     (if sl_feed sl \<noteq> Some i then Some (mutex_unlock d1, - EINVAL)
      else do {
        d2 \<leftarrow> (if f_is_filtering f
                then do {
                  (d2, _) \<leftarrow> dmx_section_feed_stop_filtering drv (mutex_unlock d1) i;
                  mutex_lock d2 }
                else Some d1);
        (sf, rest) \<leftarrow> unlink_filter j (f_filters (feedarray d2 ! i));
        let d3 = upd_feed i (\<lambda>f. f\<lparr>f_filters := rest\<rparr>) d2;
        Some (mutex_unlock (upd_slot j (\<lambda>s. s\<lparr>sl_state := DMX_STATE_FREE, sl_filter := sf\<rparr>) d3), 0) }) }"

definition dvbdmx_allocate_section_feed ::
    "bool \<Rightarrow> dvb_demux \<Rightarrow> nat \<Rightarrow> bool \<Rightarrow> nat option \<Rightarrow> (dvb_demux \<times> (int + nat)) option" where
  "dvbdmx_allocate_section_feed intr d pid check_crc parent_feeds =
     (if pid > 0x1fff then Some (d, Inl (- EINVAL))
      else interruptible intr (Inl (- ERESTARTSYS)) d (\<lambda>d.
        (case dvb_dmx_feed_alloc d of
           None \<Rightarrow> Some (d, Inl (- EBUSY))
         | Some (d1, i) \<Rightarrow>
             let parent = (case parent_feeds of None \<Rightarrow> default_feeds d1 | Some p \<Rightarrow> p);
                 d2 = upd_feed i (\<lambda>f. f\<lparr>f_type := DMX_TYPE_SEC, f_pid := 0xffff, f_flags := [], f_secbuf := 0,
                        f_secbufp := 0, f_seclen := 0, f_tsfeedp := 0, f_filters := [], f_parent := parent,
                        f_is_filtering := False\<rparr>) d1
             in map_option (\<lambda>d3. (upd_feed i (\<lambda>f. f\<lparr>f_pid := pid, f_check_crc := check_crc,
                    f_state := DMX_STATE_READY\<rparr>) d3, Inr i)) (dvb_demux_output_feed_add d2 i))))"

definition dvbdmx_release_section_feed :: "dvb_demux \<Rightarrow> nat \<Rightarrow> (dvb_demux \<times> int) option" where
  "dvbdmx_release_section_feed d i =
     locked d (\<lambda>d. do {
       f \<leftarrow> mem_at (feedarray d) i;
       (if f_state f = DMX_STATE_FREE then Some (d, - EINVAL)
        else do {
          d1 \<leftarrow> dvb_demux_output_feed_del (upd_feed i (\<lambda>f. f\<lparr>f_state := DMX_STATE_FREE\<rparr>) d) i;
          Some (upd_feed i (\<lambda>f. f\<lparr>f_pid := 0xffff\<rparr>) d1, 0) }) })"

subsection \<open>Users, frontends, data from user space\<close>

abbreviation (input) MAX_DVB_DEMUX_USERS :: nat where "MAX_DVB_DEMUX_USERS \<equiv> 10"

definition dvbdmx_open :: "dvb_demux \<Rightarrow> dvb_demux \<times> int" where
  "dvbdmx_open d = (if users d \<ge> MAX_DVB_DEMUX_USERS then (d, - EUSERS) else (d\<lparr>users := users d + 1\<rparr>, 0))"

definition dvbdmx_close :: "dvb_demux \<Rightarrow> dvb_demux \<times> int" where
  "dvbdmx_close d = (if users d = 0 then (d, - ENODEV) else (d\<lparr>users := users d - 1\<rparr>, 0))"

text \<open>
  \<open>from_memory\<close> says which frontends are the memory; \<open>data\<close> is what the copy from user space
  gives, or its error.
\<close>

definition dvbdmx_write ::
    "nat \<Rightarrow> dmx_env \<Rightarrow> (nat \<Rightarrow> bool) \<Rightarrow> bool \<Rightarrow> bool \<Rightarrow> dvb_demux \<Rightarrow> int + byte list \<Rightarrow> (dvb_demux \<times> int) option" where
  "dvbdmx_write n env from_memory intr pending d data =
     (case frontend d of
        None \<Rightarrow> Some (d, - EINVAL)
      | Some fe \<Rightarrow>
          if \<not> from_memory fe then Some (d, - EINVAL)
          else (case data of
              Inl err \<Rightarrow> Some (d, err)
            | Inr p \<Rightarrow> interruptible intr (- ERESTARTSYS) d (\<lambda>d.
                map_option (\<lambda>d1. (d1, if pending then - EINTR else int (length p))) (swfilter n env False d p))))"

definition dvbdmx_add_frontend :: "dvb_demux \<Rightarrow> nat \<Rightarrow> dvb_demux \<times> int" where
  "dvbdmx_add_frontend d fe = (d\<lparr>frontend_list := fe # frontend_list d\<rparr>, 0)"

definition dvbdmx_remove_frontend :: "dvb_demux \<Rightarrow> nat \<Rightarrow> dvb_demux \<times> int" where
  "dvbdmx_remove_frontend d fe =
     (if fe \<in> set (frontend_list d) then (d\<lparr>frontend_list := remove1 fe (frontend_list d)\<rparr>, 0) else (d, - ENODEV))"

definition dvbdmx_get_frontends :: "dvb_demux \<Rightarrow> nat list option" where
  "dvbdmx_get_frontends d = (if frontend_list d = [] then None else Some (frontend_list d))"

definition dvbdmx_connect_frontend :: "dvb_demux \<Rightarrow> nat \<Rightarrow> (dvb_demux \<times> int) option" where
  "dvbdmx_connect_frontend d fe =
     (if frontend d \<noteq> None then Some (d, - EINVAL) else locked d (\<lambda>d. Some (d\<lparr>frontend := Some fe\<rparr>, 0)))"

definition dvbdmx_disconnect_frontend :: "dvb_demux \<Rightarrow> (dvb_demux \<times> int) option" where
  "dvbdmx_disconnect_frontend d = locked d (\<lambda>d. Some (d\<lparr>frontend := None\<rparr>, 0))"

definition dvbdmx_get_pes_pids :: "dvb_demux \<Rightarrow> nat list option" where
  "dvbdmx_get_pes_pids d = memread (pids d) 0 5"

subsection \<open>Initialisation\<close>

text \<open>
  \<open>filters\<close> and \<open>feeds\<close> are the memory of the two pools as \<open>vmalloc\<close> returns it, or None;
  \<open>pes_other\<close> is \<open>DMX_PES_OTHER\<close>.  The memory of the two sets of feeds is taken to be there: what
  \<open>kzalloc\<close> returns for them is not looked at.
\<close>

definition neumo_dvb_dmx_init ::
    "nat \<Rightarrow> filter_slot list option \<Rightarrow> feed list option \<Rightarrow> dvb_demux \<Rightarrow> dvb_demux \<times> int" where
  "neumo_dvb_dmx_init pes_other filters fds d =
     (case (filters, fds) of
        (Some fl, Some fa) \<Rightarrow>
          let fe = next_addr d; df = next_addr d + 1
          in (d\<lparr>mutex := False, users := 0,
               filter_slots := map (\<lambda>s. s\<lparr>sl_state := DMX_STATE_FREE\<rparr>) fl,
               feedarray := map (\<lambda>f. f\<lparr>f_state := DMX_STATE_FREE\<rparr>) fa,
               frontend_list := [], pesfilter := replicate pes_other None, pids := replicate pes_other 0xffff,
               tsbufp := 0, default_stream_id := - 1, fe_bbframes_stream := None,
               fe_feeds := fe, default_feeds := df, frontend := None,
               heap_feeds := (heap_feeds d)(fe \<mapsto> (dvb_demux_feeds_init (- 1) (- 1))\<lparr>include_default_feeds := True\<rparr>,
                 df \<mapsto> dvb_demux_feeds_init (- 1) (- 1)),
               next_addr := df + 1\<rparr>, 0)
      | (None, _) \<Rightarrow> (d\<lparr>users := 0, filter_slots := []\<rparr>, - ENOMEM)
      | (Some _, None) \<Rightarrow> (d\<lparr>users := 0, filter_slots := [], feedarray := []\<rparr>, - ENOMEM))"

definition neumo_dvb_dmx_release :: "dvb_demux \<Rightarrow> dvb_demux option" where
  "neumo_dvb_dmx_release d = map_option (\<lambda>d1. d1\<lparr>filter_slots := [], feedarray := []\<rparr>) (feeds_put d (fe_feeds d))"

subsection \<open>The stream of the frontend\<close>

text \<open>Setting one flag of some feeds.\<close>

definition set_include :: "bool \<Rightarrow> nat \<Rightarrow> dvb_demux \<Rightarrow> dvb_demux option" where
  "set_include b fid d = upd_feeds fid (\<lambda>fs. fs\<lparr>include_default_feeds := b\<rparr>) d"

text \<open>The mutex is not given back when the allocation fails.\<close>

definition dvb_demux_set_bbframes_state :: "bool \<Rightarrow> bool \<Rightarrow> dvb_demux \<Rightarrow> bool \<Rightarrow> int \<Rightarrow> int \<Rightarrow> (dvb_demux \<times> int) option" where
  "dvb_demux_set_bbframes_state intr oom d embedding_is_on emb_pid default_stream =
     (if intr then Some (d, - ERESTARTSYS)
      else do {
        d0 \<leftarrow> mutex_lock d;
        let d1 = d0\<lparr>default_stream_id := default_stream\<rparr>;
        (d2, ret) \<leftarrow> (case fe_bbframes_stream d1 of
            None \<Rightarrow> Some (d1, 0)
          | Some b \<Rightarrow> do {
              (d2, ret) \<leftarrow> dvbdmx_release_bbframes_stream_unlocked d1 b;
              d3 \<leftarrow> set_include True (fe_feeds d2) (d2\<lparr>fe_bbframes_stream := None\<rparr>);
              Some (d3, ret) });
        (if embedding_is_on
         then do {
           (d3, r) \<leftarrow> dvbdmx_allocate_stid_stream_unlocked oom d2 emb_pid default_stream (Some (fe_feeds d2));
           (case r of
              Inl err \<Rightarrow> Some (d3, err)
            | Inr b \<Rightarrow> do {
                bbf \<leftarrow> heap_bbf d3 b;
                d4 \<leftarrow> set_include True (bbf_feeds bbf) (d3\<lparr>fe_bbframes_stream := Some b\<rparr>);
                d5 \<leftarrow> set_include False (fe_feeds d4) d4;
                Some (mutex_unlock d5, 0) }) }
         else map_option (\<lambda>d3. (mutex_unlock d3, ret)) (set_include True (fe_feeds d2) d2)) })"

text \<open>
  The tables that \<open>dvb_demux_get_matypes\<close> copies out; the output arrays keep \<open>old\<close> without a
  stream.  The buffer that may be missing only serves debug output.
\<close>

definition dvb_demux_get_matypes ::
    "bool \<Rightarrow> bool \<Rightarrow> dvb_demux \<Rightarrow> u32 list \<times> u32 list \<times> byte list \<Rightarrow>
     (dvb_demux \<times> int \<times> (u32 list \<times> u32 list \<times> byte list)) option" where
  "dvb_demux_get_matypes intr oom d old =
     interruptible intr (- ERESTARTSYS, old) d (\<lambda>d.
       (case fe_bbframes_stream d of
          None \<Rightarrow> Some (d, 0, old)
        | Some b \<Rightarrow> do {
            bbf \<leftarrow> heap_bbf d b;
            em \<leftarrow> heap_emb d (parent_embedded_stream bbf);
            let emb = emb_of em;
            Some (d, if num_streams emb > 0 \<and> oom then - ENOMEM else 0,
              (isi_plp_bitset emb, high_rolloff_mode emb, matypes emb)) }))"

subsection \<open>The pools as an interface\<close>

text \<open>
  What the clients of a pool rely on: the states of its slots, and an allocation that takes a
  free slot and touches no other.
\<close>

locale slot_pool =
  fixes states :: "'d \<Rightarrow> dvb_dmx_state list" and alloc :: "'d \<Rightarrow> ('d \<times> nat) option"
  assumes alloc_None: "alloc d = None \<longleftrightarrow> DMX_STATE_FREE \<notin> set (states d)"
    and alloc_Some: "alloc d = Some (d', i) \<Longrightarrow>
      i < length (states d) \<and> states d ! i = DMX_STATE_FREE \<and> states d' = (states d)[i := DMX_STATE_ALLOCATED]"
begin

text \<open>Allocations in a row.\<close>

primrec allocs :: "nat \<Rightarrow> 'd \<Rightarrow> ('d \<times> nat list) option" where
  "allocs 0 d = Some (d, [])"
| "allocs (Suc k) d = Option.bind (alloc d) (\<lambda>(d1, i). map_option (\<lambda>(d2, is). (d2, i # is)) (allocs k d1))"

lemma count_free:
  assumes "alloc d = Some (d', i)"
  shows "count_list (states d) DMX_STATE_FREE = Suc (count_list (states d') DMX_STATE_FREE)"
proof -
  note s = alloc_Some [OF assms]
  obtain t u where "states d = t @ DMX_STATE_FREE # u" "states d' = t @ DMX_STATE_ALLOCATED # u"
    using s id_take_nth_drop [of i "states d"] upd_conv_take_nth_drop [of i "states d"] by metis
  then show ?thesis by simp
qed

lemma allocs_iff: "allocs k d \<noteq> None \<longleftrightarrow> k \<le> count_list (states d) DMX_STATE_FREE"
proof (induction k arbitrary: d)
  case (Suc k)
  show ?case
  proof (cases "alloc d")
    case None
    then show ?thesis using alloc_None [of d] by (simp add: count_list_0_iff)
  next
    case (Some x)
    then obtain d1 i where x: "alloc d = Some (d1, i)" by (cases x) auto
    then show ?thesis using Suc.IH [of d1] count_free [OF x] by (auto simp: split_def)
  qed
qed simp

lemma allocs_exclusive:
  assumes "allocs k d = Some (d', is)"
  shows "length is = k \<and> distinct is \<and> (\<forall>i \<in> set is. i < length (states d) \<and> states d ! i = DMX_STATE_FREE \<and> states d' ! i \<noteq> DMX_STATE_FREE) \<and>
    (\<forall>j. j \<notin> set is \<longrightarrow> states d' ! j = states d ! j) \<and> length (states d') = length (states d)"
  using assms
proof (induction k arbitrary: d "is")
  case (Suc k)
  then obtain d1 i xs where x: "alloc d = Some (d1, i)" "allocs k d1 = Some (d', xs)" "is = i # xs"
    by (auto split: bind_splits)
  note s = alloc_Some [OF x(1)] and IH = Suc.IH [OF x(2)]
  have "i \<notin> set xs" using IH s by (metis dvb_dmx_state.distinct(1) nth_list_update_eq)
  then show ?case using IH s x(3) by (auto simp: nth_list_update split: if_splits)
qed simp

end

lemma first_free_None: "first_free ss = None \<longleftrightarrow> DMX_STATE_FREE \<notin> set ss"
  by (induction ss) auto

lemma first_free_Some: "first_free ss = Some i \<Longrightarrow> i < length ss \<and> ss ! i = DMX_STATE_FREE"
  by (induction ss arbitrary: i) (auto split: if_splits)

interpretation filters: slot_pool "\<lambda>d. map sl_state (filter_slots d)" dvb_dmx_section_filter_alloc
  by unfold_locales
    (auto simp: dvb_dmx_section_filter_alloc_def first_free_None map_update dest!: first_free_Some)

interpretation feed_slots: slot_pool "\<lambda>d. map f_state (feedarray d)" dvb_dmx_feed_alloc
  by unfold_locales
    (auto simp: dvb_dmx_feed_alloc_def first_free_None map_update dest!: first_free_Some)

subsection \<open>Reference counts of embedded streams\<close>

text \<open>
  The specification: \<open>K pid\<close> users of the embedding on a PID and \<open>H (pid, isi)\<close> users of a
  stream of it, all below the feeds \<open>p\<close>, which have \<open>r0\<close> references of their own.
\<close>

definition bbf_refs :: "dvb_demux \<Rightarrow> nat \<Rightarrow> (int \<times> int \<Rightarrow> nat) \<Rightarrow> int \<Rightarrow> nat \<Rightarrow> int \<Rightarrow> nat \<Rightarrow> bool" where
  "bbf_refs d p H pid e isi b \<longleftrightarrow> b < next_addr d \<and>
     (\<exists>bbf fs. heap_bbf d b = Some bbf \<and> parent_embedded_stream bbf = e \<and> isi_key (bbf_isi bbf) = isi \<and>
       bbf_refcount bbf = H (pid, isi) \<and> bbf_feeds bbf < next_addr d \<and> bbf_feeds bbf \<noteq> p \<and>
       heap_feeds d (bbf_feeds bbf) = Some fs \<and> fs_refcount fs = 1 \<and> fs_embedding_pid fs = pid \<and> fs_isi fs = isi)"

definition emb_refs :: "dvb_demux \<Rightarrow> nat \<Rightarrow> (int \<Rightarrow> nat) \<Rightarrow> (int \<times> int \<Rightarrow> nat) \<Rightarrow> int \<Rightarrow> nat \<Rightarrow> bool" where
  "emb_refs d p K H pid e \<longleftrightarrow> e < next_addr d \<and>
     (\<exists>em. heap_emb d e = Some em \<and> embedding_pid (emb_of em) = pid \<and> emb_parent_feeds (emb_of em) = p \<and>
       emb_refcount (emb_of em) = K pid \<and>
       (\<forall>isi. map_of (bbf_streams (emb_of em)) isi = None \<longleftrightarrow> H (pid, isi) = 0) \<and>
       (\<forall>isi b. map_of (bbf_streams (emb_of em)) isi = Some b \<longrightarrow> bbf_refs d p H pid e isi b))"

definition stream_refs :: "dvb_demux \<Rightarrow> nat \<Rightarrow> nat \<Rightarrow> (int \<Rightarrow> nat) \<Rightarrow> (int \<times> int \<Rightarrow> nat) \<Rightarrow> bool" where
  "stream_refs d p r0 K H \<longleftrightarrow> p < next_addr d \<and> 0 < r0 \<and> (\<forall>pid isi. K pid = 0 \<longrightarrow> H (pid, isi) = 0) \<and>
     (\<exists>fs. heap_feeds d p = Some fs \<and> fs_refcount fs = r0 + length (embedded_streams fs) \<and>
       distinct (map fst (embedded_streams fs)) \<and>
       (\<forall>pid. map_of (embedded_streams fs) pid = None \<longleftrightarrow> K pid = 0) \<and>
       (\<forall>pid e. map_of (embedded_streams fs) pid = Some e \<longrightarrow> emb_refs d p K H pid e))"

lemma stream_refsI:
  assumes "p < next_addr d" "0 < r0" "\<And>pid isi. K pid = 0 \<Longrightarrow> H (pid, isi) = 0" "heap_feeds d p = Some fs"
    "fs_refcount fs = r0 + length (embedded_streams fs)" "distinct (map fst (embedded_streams fs))"
    "\<And>pid. map_of (embedded_streams fs) pid = None \<longleftrightarrow> K pid = 0"
    "\<And>pid e. map_of (embedded_streams fs) pid = Some e \<Longrightarrow> emb_refs d p K H pid e"
  shows "stream_refs d p r0 K H"
  using assms unfolding stream_refs_def by blast

lemma stream_refsD:
  assumes "stream_refs d p r0 K H" "heap_feeds d p = Some fs"
  shows "p < next_addr d" "0 < r0" "\<And>pid isi. K pid = 0 \<Longrightarrow> H (pid, isi) = 0"
    "fs_refcount fs = r0 + length (embedded_streams fs)" "distinct (map fst (embedded_streams fs))"
    "\<And>pid. map_of (embedded_streams fs) pid = None \<longleftrightarrow> K pid = 0"
    "\<And>pid e. map_of (embedded_streams fs) pid = Some e \<Longrightarrow> emb_refs d p K H pid e"
  using assms unfolding stream_refs_def by auto

lemma emb_of_map [simp]: "emb_of (map_emb g e) = g (emb_of e)"
  by (cases e) (simp_all add: emb_of_def map_emb_def)

lemma emb_of_simps [simp]: "emb_of (Stid s) = stid_emb s" "emb_of (T2mi t) = t2mi_emb t"
  by (simp_all add: emb_of_def)

text \<open>What a stream depends on.\<close>

lemma bbf_refs_frame:
  assumes "bbf_refs d p H pid e isi b" "heap_bbf d' b = heap_bbf d b"
    "\<And>fid fs. heap_feeds d fid = Some fs \<Longrightarrow> fid \<noteq> p \<Longrightarrow> fs_embedding_pid fs = pid \<Longrightarrow> fs_isi fs = isi \<Longrightarrow> heap_feeds d' fid = Some fs"
    "H' (pid, isi) = H (pid, isi)" "next_addr d \<le> next_addr d'"
  shows "bbf_refs d' p H' pid e isi b"
  using assms unfolding bbf_refs_def by fastforce

lemma emb_refs_frame:
  assumes "emb_refs d p K H pid e" "heap_emb d' e = heap_emb d e" "K' pid = K pid"
    "\<And>isi. H' (pid, isi) = H (pid, isi)" "next_addr d \<le> next_addr d'"
    "\<And>b bbf. heap_bbf d b = Some bbf \<Longrightarrow> parent_embedded_stream bbf = e \<Longrightarrow> heap_bbf d' b = heap_bbf d b"
    "\<And>fid fs. heap_feeds d fid = Some fs \<Longrightarrow> fid \<noteq> p \<Longrightarrow> fs_embedding_pid fs = pid \<Longrightarrow> heap_feeds d' fid = Some fs"
  shows "emb_refs d' p K' H' pid e"
proof -
  obtain em where em: "heap_emb d e = Some em" "embedding_pid (emb_of em) = pid" "emb_parent_feeds (emb_of em) = p"
      "emb_refcount (emb_of em) = K pid" "\<And>isi. map_of (bbf_streams (emb_of em)) isi = None \<longleftrightarrow> H (pid, isi) = 0"
      "\<And>isi b. map_of (bbf_streams (emb_of em)) isi = Some b \<Longrightarrow> bbf_refs d p H pid e isi b" "e < next_addr d"
    using assms(1) unfolding emb_refs_def by blast
  have "bbf_refs d' p H' pid e isi b" if "map_of (bbf_streams (emb_of em)) isi = Some b" for isi b
  proof (rule bbf_refs_frame [OF em(6) [OF that]])
    show "heap_bbf d' b = heap_bbf d b" using em(6) [OF that] assms(6) unfolding bbf_refs_def by blast
  qed (use assms(4,5,7) in auto)
  then show ?thesis unfolding emb_refs_def using em assms(2,3,4,5) by auto
qed

text \<open>One more user of an embedding that exists.\<close>

lemma emb_get_refs:
  assumes "stream_refs d p r0 K H" "heap_feeds d p = Some fs" "map_of (embedded_streams fs) pid = Some e"
  shows "\<exists>d'. upd_emb e (\<lambda>emb. emb\<lparr>emb_refcount := emb_refcount emb + 1\<rparr>) d = Some d' \<and>
    stream_refs d' p r0 (K(pid := K pid + 1)) H \<and> heap_feeds d' = heap_feeds d"
proof -
  note sr = stream_refsD [OF assms(1,2)]
  obtain em where em: "heap_emb d e = Some em" "embedding_pid (emb_of em) = pid"
    using sr(7) [OF assms(3)] unfolding emb_refs_def by blast
  let ?g = "\<lambda>emb. emb\<lparr>emb_refcount := emb_refcount emb + 1\<rparr>"
  let ?d = "d\<lparr>heap_emb := (heap_emb d)(e \<mapsto> map_emb ?g em)\<rparr>" and ?K = "K(pid := K pid + 1)"
  have "emb_refs ?d p ?K H q x" if "map_of (embedded_streams fs) q = Some x" for q x
  proof (cases "q = pid")
    case True
    then have "x = e" using that assms(3) by simp
    with True sr(7) [OF that] em show ?thesis by (auto simp: emb_refs_def bbf_refs_def)
  next
    case False
    then have "x \<noteq> e" using sr(7) [OF that] em by (auto simp: emb_refs_def)
    then show ?thesis using emb_refs_frame [OF sr(7) [OF that], of ?d ?K H] False by simp
  qed
  note embs = this
  have "stream_refs ?d p r0 ?K H"
  proof (rule stream_refsI [where fs = fs])
    show "map_of (embedded_streams fs) q = None \<longleftrightarrow> ?K q = 0" for q
      using sr(6) [of q] assms(3) by auto
    show "H (q, isi) = 0" if "?K q = 0" for q isi
      using that sr(3) by (simp split: if_splits)
  qed (use sr(1,2,4,5) embs assms(2) in simp_all)
  then show ?thesis using em by (simp add: upd_emb_def)
qed

text \<open>A new embedding.\<close>

definition init_ok :: "(dvb_demux \<Rightarrow> nat \<Rightarrow> int \<Rightarrow> (dvb_demux \<times> embedded) option) \<Rightarrow> bool" where
  "init_ok init \<longleftrightarrow> (\<forall>d p pid fs. heap_feeds d p = Some fs \<longrightarrow>
     (\<exists>em. init d p pid = Some (d\<lparr>heap_feeds := (heap_feeds d)(p \<mapsto> fs\<lparr>fs_refcount := fs_refcount fs + 1\<rparr>)\<rparr>, em) \<and>
        embedding_pid (emb_of em) = pid \<and> emb_parent_feeds (emb_of em) = p \<and> emb_refcount (emb_of em) = 1 \<and>
        bbf_streams (emb_of em) = []))"

lemma stid_init_ok: "init_ok (\<lambda>d p pid. map_option (\<lambda>(d1, s). (d1, Stid s)) (stid_stream_init d p pid))"
  by (simp add: init_ok_def stid_stream_init_def embedded_stream_init_def feeds_get_def upd_feeds_def
    embedded_stream_reset_def zero_emb_def Let_def)

lemma t2mi_init_ok: "init_ok (\<lambda>d p pid. map_option (\<lambda>(d1, t). (d1, T2mi t)) (t2mi_stream_init d p pid))"
  by (simp add: init_ok_def t2mi_stream_init_def embedded_stream_init_def feeds_get_def upd_feeds_def
    embedded_stream_reset_def zero_emb_def zero_t2mi_def t2mi_stream_reset_def Let_def)

lemma emb_new_refs:
  assumes "stream_refs d p r0 K H" "heap_feeds d p = Some fs" "map_of (embedded_streams fs) pid = None"
    "embedding_pid (emb_of em) = pid" "emb_parent_feeds (emb_of em) = p" "emb_refcount (emb_of em) = 1"
    "bbf_streams (emb_of em) = []"
  defines "d' \<equiv> d\<lparr>next_addr := next_addr d + 1, heap_emb := (heap_emb d)(next_addr d \<mapsto> em),
      heap_feeds := (heap_feeds d)(p \<mapsto> fs\<lparr>fs_refcount := fs_refcount fs + 1, embedded_streams := (pid, next_addr d) # embedded_streams fs\<rparr>)\<rparr>"
  shows "stream_refs d' p r0 (K(pid := K pid + 1)) H"
proof -
  note sr = stream_refsD [OF assms(1,2)]
  let ?fs = "fs\<lparr>fs_refcount := fs_refcount fs + 1, embedded_streams := (pid, next_addr d) # embedded_streams fs\<rparr>"
  let ?K = "K(pid := K pid + 1)"
  have K: "K pid = 0" using sr(6) assms(3) by blast
  have new: "emb_refs d' p ?K H pid (next_addr d)"
    using assms(4-7) sr(3) [OF K] K by (simp add: emb_refs_def d'_def)
  have old: "emb_refs d' p ?K H q x" if "map_of (embedded_streams fs) q = Some x" "q \<noteq> pid" for q x
  proof -
    have "x \<noteq> next_addr d" using sr(7) [OF that(1)] by (auto simp: emb_refs_def)
    then show ?thesis using emb_refs_frame [OF sr(7) [OF that(1)], of d' ?K H] that(2) by (simp add: d'_def)
  qed
  show ?thesis
  proof (rule stream_refsI [where fs = ?fs])
    show "distinct (map fst (embedded_streams ?fs))"
      using sr(5) assms(3) by (simp add: map_of_eq_None_iff)
    show "map_of (embedded_streams ?fs) q = None \<longleftrightarrow> ?K q = 0" for q
      using sr(6) by simp
    show "emb_refs d' p ?K H q e" if "map_of (embedded_streams ?fs) q = Some e" for q e
      using that new old by (auto split: if_splits)
    show "H (q, isi) = 0" if "?K q = 0" for q isi
      using that sr(3) by (simp split: if_splits)
  qed (use sr(1,2,4) in \<open>simp_all add: d'_def\<close>)
qed

text \<open>One more user of a stream.\<close>

lemma bbf_get_refs:
  assumes "stream_refs d p r0 K H" "heap_feeds d p = Some fs" "map_of (embedded_streams fs) pid = Some e"
    "heap_emb d e = Some em" "map_of (bbf_streams (emb_of em)) isi = Some b" "heap_bbf d b = Some bbf"
  shows "stream_refs (d\<lparr>heap_bbf := (heap_bbf d)(b \<mapsto> bbf\<lparr>bbf_refcount := bbf_refcount bbf + 1\<rparr>)\<rparr>) p r0 K
    (H((pid, isi) := H (pid, isi) + 1))"
    (is "stream_refs ?d p r0 K ?H")
proof -
  note sr = stream_refsD [OF assms(1,2)]
  have emb: "emb_refs d p K H pid e" using sr(7) assms(3) by blast
  then have bbfs: "bbf_refs d p H pid e i x" if "map_of (bbf_streams (emb_of em)) i = Some x" for i x
    using that assms(4) unfolding emb_refs_def by auto
  have b: "parent_embedded_stream bbf = e" "isi_key (bbf_isi bbf) = isi" "bbf_refcount bbf = H (pid, isi)"
    using bbfs [OF assms(5)] assms(6) unfolding bbf_refs_def by auto
  have others: "bbf_refs ?d p ?H pid e i x" if "map_of (bbf_streams (emb_of em)) i = Some x" for i x
  proof (cases "i = isi")
    case True
    then show ?thesis using that assms(5,6) bbfs [OF that] by (auto simp: bbf_refs_def)
  next
    case False
    then have "x \<noteq> b" using bbfs [OF that] assms(6) b(2) by (auto simp: bbf_refs_def)
    then show ?thesis using False by (intro bbf_refs_frame [OF bbfs [OF that]]) auto
  qed
  have "map_of (bbf_streams (emb_of em)) i = None \<longleftrightarrow> ?H (pid, i) = 0" for i
  proof -
    have iff: "\<And>i. map_of (bbf_streams (emb_of em)) i = None \<longleftrightarrow> H (pid, i) = 0"
      using emb assms(4) unfolding emb_refs_def by auto
    show ?thesis using iff [of i] assms(5) by auto
  qed
  with others emb assms(4) have this_emb: "emb_refs ?d p K ?H pid e" by (auto simp: emb_refs_def)
  have "emb_refs ?d p K ?H q x" if "map_of (embedded_streams fs) q = Some x" for q x
  proof (cases "q = pid")
    case True
    then show ?thesis using this_emb that assms(3) by simp
  next
    case False
    then have "x \<noteq> e" using sr(7) [OF that] emb by (auto simp: emb_refs_def)
    then show ?thesis using False b(1) assms(6) by (intro emb_refs_frame [OF sr(7) [OF that]]) auto
  qed
  moreover have "?H (q, i) = 0" if "K q = 0" for q i
    using that sr(3) sr(6) [of pid] assms(3) by auto
  ultimately show ?thesis
    using sr assms(2) by (intro stream_refsI [where fs = fs]) simp_all
qed

text \<open>A new stream of an embedding.\<close>

lemma bbf_new_refs:
  assumes "stream_refs d p r0 K H" "heap_feeds d p = Some fs" "map_of (embedded_streams fs) pid = Some e"
    "heap_emb d e = Some em" "map_of (bbf_streams (emb_of em)) isi = None"
    "parent_embedded_stream bbf = e" "isi_key (bbf_isi bbf) = isi" "bbf_refcount bbf = 1" "bbf_feeds bbf = next_addr d + 1"
  defines "d' \<equiv> d\<lparr>heap_feeds := (heap_feeds d)(next_addr d + 1 \<mapsto> dvb_demux_feeds_init pid isi),
      next_addr := next_addr d + 2,
      heap_bbf := (heap_bbf d)(next_addr d \<mapsto> bbf),
      heap_emb := (heap_emb d)(e \<mapsto> map_emb (\<lambda>emb. emb\<lparr>bbf_streams := (isi, next_addr d) # bbf_streams emb\<rparr>) em)\<rparr>"
  shows "stream_refs d' p r0 K (H((pid, isi) := H (pid, isi) + 1))"
proof -
  note sr = stream_refsD [OF assms(1,2)]
  let ?H = "H((pid, isi) := H (pid, isi) + 1)"
  have emb: "emb_refs d p K H pid e" using sr(7) assms(3) by blast
  have H0: "H (pid, isi) = 0" using emb assms(4,5) unfolding emb_refs_def by auto
  have bbfs: "bbf_refs d p H pid e i x" if "map_of (bbf_streams (emb_of em)) i = Some x" for i x
    using that assms(4) emb unfolding emb_refs_def by auto
  have new: "bbf_refs d' p ?H pid e isi (next_addr d)"
    using assms(6-9) H0 sr(1) by (simp add: bbf_refs_def d'_def dvb_demux_feeds_init_def)
  have old: "bbf_refs d' p ?H pid e i x" if "map_of (bbf_streams (emb_of em)) i = Some x" for i x
  proof -
    from bbfs [OF that] obtain y where y: "x < next_addr d" "heap_bbf d x = Some y" "bbf_feeds y < next_addr d"
      unfolding bbf_refs_def by blast
    have "i \<noteq> isi" using that assms(5) by auto
    then show ?thesis using bbfs [OF that] y unfolding bbf_refs_def by (auto simp: d'_def)
  qed
  have others: "bbf_refs d' p ?H q x' i x" if "bbf_refs d p H q x' i x" "q \<noteq> pid" for q x' i x
    using that unfolding bbf_refs_def by (auto simp: d'_def)
  have this_emb: "emb_refs d' p K ?H pid e"
    using emb assms(4,5) new old by (auto simp: emb_refs_def d'_def H0)
  have "emb_refs d' p K ?H q x" if "map_of (embedded_streams fs) q = Some x" for q x
  proof (cases "q = pid")
    case True
    then show ?thesis using this_emb that assms(3) by simp
  next
    case False
    then have "x \<noteq> e" using sr(7) [OF that] emb by (auto simp: emb_refs_def)
    then show ?thesis using sr(7) [OF that] False others unfolding emb_refs_def by (auto simp: d'_def)
  qed
  moreover have "?H (q, i) = 0" if "K q = 0" for q i
    using that sr(3) sr(6) [of pid] assms(3) by auto
  ultimately show ?thesis
    using sr assms(2) by (intro stream_refsI [where fs = fs]) (simp_all add: d'_def)
qed

lemma find_or_alloc_refs:
  assumes "stream_refs d p r0 K H" "heap_feeds d p = Some fs" "map_of (embedded_streams fs) pid = Some e"
  shows "\<exists>d' b. dvb_dmx_find_or_alloc_bbf_stream d e pid isi = Some (d', b) \<and>
    stream_refs d' p r0 K (H((pid, isi_key isi) := H (pid, isi_key isi) + 1))"
proof -
  note sr = stream_refsD [OF assms(1,2)]
  obtain em where em: "heap_emb d e = Some em"
    using sr(7) [OF assms(3)] unfolding emb_refs_def by blast
  have key: "isi_key (isi_key isi) = isi_key isi" by (simp add: isi_key_def)
  show ?thesis
  proof (cases "map_of (bbf_streams (emb_of em)) (isi_key isi)")
    case None
    let ?bbf = "(bbframes_stream_reset (zero_bbf\<lparr>bbf_isi := isi_key isi, bbf_refcount := 1, parent_embedded_stream := e,
      bbf_feeds := next_addr d + 1\<rparr>))\<lparr>bbf_isi := isi_key isi, bbf_crc8 := - 1\<rparr>"
    have "parent_embedded_stream ?bbf = e" "isi_key (bbf_isi ?bbf) = isi_key isi" "bbf_refcount ?bbf = 1"
      "bbf_feeds ?bbf = next_addr d + 1"
      by (simp_all add: key bbframes_stream_reset_def)
    from bbf_new_refs [OF assms em None this] show ?thesis
      using em None
      by (simp add: dvb_dmx_find_or_alloc_bbf_stream_def bbframes_stream_init_def upd_emb_def Let_def
        bbframes_stream_reset_def)
  next
    case (Some b)
    moreover have "\<exists>bbf. heap_bbf d b = Some bbf"
      using sr(7) [OF assms(3)] em Some unfolding emb_refs_def bbf_refs_def by fastforce
    ultimately show ?thesis
      using bbf_get_refs [OF assms em] em
      by (auto simp: dvb_dmx_find_or_alloc_bbf_stream_def Let_def)
  qed
qed

text \<open>One more user of a stream and of its embedding.\<close>

lemma allocate_refs:
  assumes "init_ok init" "stream_refs d p r0 K H"
  shows "\<exists>d' b. allocate_embedded init False d pid isi p = Some (d', Inr b) \<and>
    stream_refs d' p r0 (K(pid := K pid + 1)) (H((pid, isi_key isi) := H (pid, isi_key isi) + 1))"
proof -
  obtain fs where fs: "heap_feeds d p = Some fs" using assms(2) unfolding stream_refs_def by blast
  show ?thesis
  proof (cases "map_of (embedded_streams fs) pid")
    case None
    let ?d = "d\<lparr>next_addr := next_addr d + 1\<rparr>"
    have "heap_feeds ?d p = Some fs" using fs by simp
    with assms(1) obtain em where em: "init ?d p pid = Some (?d\<lparr>heap_feeds := (heap_feeds ?d)(p \<mapsto> fs\<lparr>fs_refcount := fs_refcount fs + 1\<rparr>)\<rparr>, em)"
      "embedding_pid (emb_of em) = pid" "emb_parent_feeds (emb_of em) = p" "emb_refcount (emb_of em) = 1"
      "bbf_streams (emb_of em) = []"
      unfolding init_ok_def by blast
    note r = emb_new_refs [OF assms(2) fs None em(2-5)]
    from find_or_alloc_refs [OF r, of "fs\<lparr>fs_refcount := fs_refcount fs + 1, embedded_streams := (pid, next_addr d) # embedded_streams fs\<rparr>"
        pid "next_addr d" isi]
    show ?thesis using fs None em(1) by (auto simp: allocate_embedded_def Let_def upd_feeds_def)
  next
    case (Some e)
    obtain d1 where d1: "upd_emb e (\<lambda>emb. emb\<lparr>emb_refcount := emb_refcount emb + 1\<rparr>) d = Some d1"
        "stream_refs d1 p r0 (K(pid := K pid + 1)) H" "heap_feeds d1 = heap_feeds d"
      using emb_get_refs [OF assms(2) fs Some] by blast
    have "heap_feeds d1 p = Some fs" using fs d1(3) by simp
    from find_or_alloc_refs [OF d1(2) this Some, of isi] show ?thesis
      using fs Some d1(1) by (auto simp: allocate_embedded_def)
  qed
qed

subsection \<open>Releasing\<close>

text \<open>The stream a user holds.\<close>

definition stream_of :: "dvb_demux \<Rightarrow> nat \<Rightarrow> int \<Rightarrow> int \<Rightarrow> nat option" where
  "stream_of d p pid isi = do {
     fs \<leftarrow> heap_feeds d p;
     e \<leftarrow> map_of (embedded_streams fs) pid;
     em \<leftarrow> heap_emb d e;
     map_of (bbf_streams (emb_of em)) isi }"

lemma map_of_erase: "map_of (xa_erase k xs) k' = (if k' = k then None else map_of xs k')"
  by (induction xs) (auto simp: xa_erase_def)

lemma erase_other: "map_of xs k = None \<Longrightarrow> xa_erase k xs = xs"
  by (induction xs) (auto simp: xa_erase_def split: if_splits)

lemma length_erase:
  "distinct (map fst xs) \<Longrightarrow> map_of xs k = Some v \<Longrightarrow> length xs = Suc (length (xa_erase k xs))"
proof (induction xs)
  case (Cons x xs)
  show ?case
  proof (cases "fst x = k")
    case True
    then have "map_of xs k = None" using Cons.prems(1) by (auto simp: map_of_eq_None_iff)
    with erase_other [OF this] True show ?thesis by (simp add: xa_erase_def split_def)
  next
    case False
    then show ?thesis using Cons by (simp add: xa_erase_def split_def)
  qed
qed simp

lemma distinct_erase: "distinct (map fst xs) \<Longrightarrow> distinct (map fst (xa_erase k xs))"
  by (simp add: xa_erase_def distinct_map_filter)

lemma stream_of_refs:
  assumes "stream_refs d p r0 K H" "0 < H (pid, isi)"
  obtains fs e em b bbf where "heap_feeds d p = Some fs" "map_of (embedded_streams fs) pid = Some e"
    "heap_emb d e = Some em" "map_of (bbf_streams (emb_of em)) isi = Some b" "heap_bbf d b = Some bbf"
    "stream_of d p pid isi = Some b" "parent_embedded_stream bbf = e" "bbf_refcount bbf = H (pid, isi)"
    "isi_key (bbf_isi bbf) = isi"
proof -
  obtain fs where fs: "heap_feeds d p = Some fs" using assms(1) unfolding stream_refs_def by blast
  note sr = stream_refsD [OF assms(1) fs]
  have "K pid \<noteq> 0" using sr(3) [of pid isi] assms(2) by auto
  then obtain e where e: "map_of (embedded_streams fs) pid = Some e" using sr(6) [of pid] by auto
  then obtain em where em: "heap_emb d e = Some em" "map_of (bbf_streams (emb_of em)) isi \<noteq> None"
      "\<And>i b. map_of (bbf_streams (emb_of em)) i = Some b \<Longrightarrow> bbf_refs d p H pid e i b"
    using sr(7) [OF e] assms(2) unfolding emb_refs_def by fastforce
  then obtain b where b: "map_of (bbf_streams (emb_of em)) isi = Some b" by blast
  show thesis using that fs e em(1) b em(3) [OF b] unfolding bbf_refs_def stream_of_def by fastforce
qed

lemma bbf_put_refs:
  assumes "stream_refs d p r0 K H" "0 < H (pid, isi)" "stream_of d p pid isi = Some b"
  shows "\<exists>d'. bbf_put d b = Some d' \<and> stream_refs d' p r0 K (H((pid, isi) := H (pid, isi) - 1)) \<and>
    heap_feeds d' p = heap_feeds d p"
proof -
  obtain fs e em bbf where s: "heap_feeds d p = Some fs" "map_of (embedded_streams fs) pid = Some e"
    "heap_emb d e = Some em" "map_of (bbf_streams (emb_of em)) isi = Some b" "heap_bbf d b = Some bbf"
    "parent_embedded_stream bbf = e" "bbf_refcount bbf = H (pid, isi)" "isi_key (bbf_isi bbf) = isi"
    using stream_of_refs [OF assms(1,2)] assms(3) by (metis option.inject)
  note sr = stream_refsD [OF assms(1) s(1)]
  let ?H = "H((pid, isi) := H (pid, isi) - 1)"
  have emb: "emb_refs d p K H pid e" using sr(7) s(2) by blast
  then have bbfs: "bbf_refs d p H pid e i x" if "map_of (bbf_streams (emb_of em)) i = Some x" for i x
    using that s(3) unfolding emb_refs_def by auto
  have K0: "?H (q, i) = 0" if "K q = 0" for q i
    using sr(3) [OF that, of i] by auto
  have none: "map_of (bbf_streams (emb_of em)) i = None \<longleftrightarrow> H (pid, i) = 0" for i
    using emb s(3) unfolding emb_refs_def by auto
  show ?thesis
  proof (cases "H (pid, isi) = 1")
    case False
    then have gt: "H (pid, isi) > 1" using assms(2) by linarith
    let ?d = "d\<lparr>heap_bbf := (heap_bbf d)(b \<mapsto> bbf\<lparr>bbf_refcount := bbf_refcount bbf - 1\<rparr>)\<rparr>"
    have others: "bbf_refs ?d p ?H pid e i x" if "map_of (bbf_streams (emb_of em)) i = Some x" for i x
    proof (cases "i = isi")
      case True
      then show ?thesis using that s(4,5) bbfs [OF that] by (auto simp: bbf_refs_def)
    next
      case False
      then have "x \<noteq> b" using bbfs [OF that] s(5,8) by (auto simp: bbf_refs_def)
      then show ?thesis using False by (intro bbf_refs_frame [OF bbfs [OF that]]) auto
    qed
    have "map_of (bbf_streams (emb_of em)) i = None \<longleftrightarrow> ?H (pid, i) = 0" for i
      using none [of i] gt s(4) by auto
    with others emb s(3) have this_emb: "emb_refs ?d p K ?H pid e" by (auto simp: emb_refs_def)
    have "emb_refs ?d p K ?H q x" if "map_of (embedded_streams fs) q = Some x" for q x
    proof (cases "q = pid")
      case True
      then show ?thesis using this_emb that s(2) by simp
    next
      case False
      then have "x \<noteq> e" using sr(7) [OF that] emb by (auto simp: emb_refs_def)
      then show ?thesis using False s(5,6) by (intro emb_refs_frame [OF sr(7) [OF that]]) auto
    qed
    then have "stream_refs ?d p r0 K ?H"
      using sr s(1) K0 by (intro stream_refsI [where fs = fs]) simp_all
    then show ?thesis using s(5,7) gt by (simp add: bbf_put_def)
  next
    case True
    obtain fs' where fs': "heap_feeds d (bbf_feeds bbf) = Some fs'" "fs_refcount fs' = 1" "bbf_feeds bbf \<noteq> p"
        "fs_embedding_pid fs' = pid" "fs_isi fs' = isi"
      using bbfs [OF s(4)] s(5) unfolding bbf_refs_def by auto
    let ?g = "\<lambda>emb. emb\<lparr>bbf_streams := xa_erase isi (bbf_streams emb)\<rparr>"
    let ?d = "d\<lparr>heap_feeds := (heap_feeds d)(bbf_feeds bbf := None), heap_emb := (heap_emb d)(e \<mapsto> map_emb ?g em),
      heap_bbf := (heap_bbf d)(b := None)\<rparr>"
    have "bbf_put d b = Some ?d"
      using s(3,5,6,7,8) True fs'(1,2)
      by (simp add: bbf_put_def bbframes_stream_release_cb_def feeds_put_def dvb_demux_feeds_release_cb_def upd_emb_def)
    moreover have others: "bbf_refs ?d p ?H pid e i x" if "map_of (bbf_streams (emb_of em)) i = Some x" "i \<noteq> isi" for i x
    proof -
      have "x \<noteq> b" using bbfs [OF that(1)] s(5,8) that(2) by (auto simp: bbf_refs_def)
      then show ?thesis using that(2) fs' by (intro bbf_refs_frame [OF bbfs [OF that(1)]]) auto
    qed
    have this_emb: "emb_refs ?d p K ?H pid e"
      using emb s(3) others none True unfolding emb_refs_def by (auto simp: map_of_erase split: if_splits)
    have embs: "emb_refs ?d p K ?H q x" if "map_of (embedded_streams fs) q = Some x" for q x
    proof (cases "q = pid")
      case True
      then show ?thesis using this_emb that s(2) by simp
    next
      case False
      then have "x \<noteq> e" using sr(7) [OF that] emb by (auto simp: emb_refs_def)
      then show ?thesis using False s(5,6) fs' by (intro emb_refs_frame [OF sr(7) [OF that]]) auto
    qed
    have "stream_refs ?d p r0 K ?H"
      using sr s(1) K0 embs fs'(3) by (intro stream_refsI [where fs = fs]) simp_all
    ultimately show ?thesis using fs'(3) by auto
  qed
qed

lemma emb_put_refs:
  assumes "stream_refs d p r0 K H" "heap_feeds d p = Some fs" "map_of (embedded_streams fs) pid = Some e"
    "K pid = 1 \<longrightarrow> (\<forall>isi. H (pid, isi) = 0)"
  shows "\<exists>d'. embedded_stream_release d e = Some d' \<and> stream_refs d' p r0 (K(pid := K pid - 1)) H"
proof -
  note sr = stream_refsD [OF assms(1,2)]
  let ?K = "K(pid := K pid - 1)"
  obtain em where em: "heap_emb d e = Some em" "embedding_pid (emb_of em) = pid" "emb_parent_feeds (emb_of em) = p"
      "emb_refcount (emb_of em) = K pid"
    using sr(7) [OF assms(3)] unfolding emb_refs_def by blast
  have pos: "0 < K pid" using sr(6) [of pid] assms(3) by auto
  let ?g = "\<lambda>emb. emb\<lparr>emb_refcount := emb_refcount emb - 1\<rparr>"
  let ?d = "d\<lparr>heap_emb := (heap_emb d)(e \<mapsto> map_emb ?g em)\<rparr>"
  have upd: "upd_emb e ?g d = Some ?d" using em by (simp add: upd_emb_def)
  have other: "emb_refs d' p ?K H q x" if "map_of (embedded_streams fs) q = Some x" "q \<noteq> pid"
      "heap_emb d' = heap_emb ?d" "heap_bbf d' = heap_bbf d" "next_addr d' = next_addr d"
      "\<And>fid. fid \<noteq> p \<Longrightarrow> heap_feeds d' fid = heap_feeds d fid" for q x d'
  proof -
    have "x \<noteq> e" using sr(7) [OF that(1)] em that(2) by (auto simp: emb_refs_def)
    then show ?thesis using that by (intro emb_refs_frame [OF sr(7) [OF that(1)]]) auto
  qed
  show ?thesis
  proof (cases "K pid = 1")
    case False
    then have gt: "1 < K pid" using pos by linarith
    have "emb_refs ?d p ?K H pid e" using sr(7) [OF assms(3)] em by (auto simp: emb_refs_def bbf_refs_def)
    then have embs: "emb_refs ?d p ?K H q x" if "map_of (embedded_streams fs) q = Some x" for q x
      using that assms(3) other [OF that, of ?d] by (cases "q = pid") auto
    have "stream_refs ?d p r0 ?K H"
    proof (rule stream_refsI [where fs = fs])
      show "map_of (embedded_streams fs) q = None \<longleftrightarrow> ?K q = 0" for q using sr(6) [of q] assms(3) gt by auto
      show "H (q, isi) = 0" if "?K q = 0" for q isi using that sr(3) gt by (simp split: if_splits)
    qed (use sr(1,2,4,5) embs assms(2) in simp_all)
    then show ?thesis using upd em gt by (simp add: embedded_stream_release_def)
  next
    case True
    let ?fs = "fs\<lparr>fs_refcount := fs_refcount fs - 1, embedded_streams := xa_erase pid (embedded_streams fs)\<rparr>"
    let ?d' = "?d\<lparr>heap_feeds := (heap_feeds d)(p \<mapsto> ?fs)\<rparr>"
    have len: "length (embedded_streams fs) = Suc (length (xa_erase pid (embedded_streams fs)))"
      using length_erase [OF sr(5) assms(3)] .
    have "fs_refcount fs \<noteq> 0" "fs_refcount fs \<noteq> 1" using sr(2,4) len by auto
    then have rel: "embedded_stream_release d e = Some ?d'"
      using upd em True assms(2)
      by (simp add: embedded_stream_release_def embedded_stream_release_cb_def feeds_put_def upd_feeds_def Let_def)
    have "stream_refs ?d' p r0 ?K H"
    proof (rule stream_refsI [where fs = ?fs])
      show "map_of (embedded_streams ?fs) q = None \<longleftrightarrow> ?K q = 0" for q using sr(6) [of q] True by (simp add: map_of_erase)
      show "H (q, isi) = 0" if "?K q = 0" for q isi using that sr(3) assms(4) True by (auto split: if_splits)
      show "emb_refs ?d' p ?K H q x" if "map_of (embedded_streams ?fs) q = Some x" for q x
        using that other [of q x ?d'] by (auto simp: map_of_erase split: if_splits)
    qed (use sr(1,2,4,5) len in \<open>simp_all add: distinct_erase\<close>)
    then show ?thesis using rel by blast
  qed
qed

subsection \<open>Users of embedded streams\<close>

text \<open>
  The calls of the users.  An allocation may find a signal or no memory for a new embedding;
  \<open>run_call\<close> is \<^const>\<open>None\<close> if a call runs into a fault, or if an allocation fails without
  either.  The streams that the users hold are kept beside the demux; a user only releases what
  it holds.
\<close>

datatype user_call = Alloc_stid bool bool int int | Alloc_t2mi bool bool int int | Release int int

type_synonym users_state = "dvb_demux \<times> (int \<times> int) list"

definition note_alloc :: "bool \<Rightarrow> (int \<times> int) \<Rightarrow> (int \<times> int) list \<Rightarrow> dvb_demux \<times> (int + nat) \<Rightarrow> users_state option" where
  "note_alloc may_fail k H res = (case res of (d1, Inr _) \<Rightarrow> Some (d1, k # H)
     | (d1, Inl _) \<Rightarrow> if may_fail then Some (d1, H) else None)"

fun run_call :: "nat \<Rightarrow> users_state \<Rightarrow> user_call \<Rightarrow> users_state option" where
  "run_call p (d, H) (Alloc_stid intr oom pid isi) =
     Option.bind (dvbdmx_allocate_stid_stream intr oom d pid isi (Some p)) (note_alloc (intr \<or> oom) (pid, isi_key isi) H)"
| "run_call p (d, H) (Alloc_t2mi intr oom pid isi) =
     Option.bind (dvbdmx_allocate_t2mi_stream intr oom d pid isi (Some p)) (note_alloc (intr \<or> oom) (pid, isi_key isi) H)"
| "run_call p (d, H) (Release pid isi) =
     (if (pid, isi_key isi) \<in> set H
      then Option.bind (stream_of d p pid (isi_key isi)) (\<lambda>b.
        map_option (\<lambda>(d1, _). (d1, remove1 (pid, isi_key isi) H)) (dvbdmx_release_bbframes_stream d b))
      else Some (d, H))"

fun run_calls :: "nat \<Rightarrow> users_state \<Rightarrow> user_call list \<Rightarrow> users_state option" where
  "run_calls p s [] = Some s"
| "run_calls p s (x # xs) = Option.bind (run_call p s x) (\<lambda>s1. run_calls p s1 xs)"

definition pid_users :: "(int \<times> int) list \<Rightarrow> int \<Rightarrow> nat" where
  "pid_users H pid = count_list (map fst H) pid"

definition users_refs :: "dvb_demux \<Rightarrow> nat \<Rightarrow> nat \<Rightarrow> (int \<times> int) list \<Rightarrow> bool" where
  "users_refs d p r0 H \<longleftrightarrow> \<not> mutex d \<and> stream_refs d p r0 (pid_users H) (count_list H)"

lemma stream_refs_mutex [simp]: "stream_refs (d\<lparr>mutex := m\<rparr>) p r0 K H = stream_refs d p r0 K H"
  by (simp add: stream_refs_def emb_refs_def bbf_refs_def)

lemma stream_of_mutex [simp]: "stream_of (d\<lparr>mutex := m\<rparr>) p pid isi = stream_of d p pid isi"
  by (simp add: stream_of_def)

lemma users_add:
  "pid_users ((pid, isi) # H) = (pid_users H)(pid := pid_users H pid + 1)"
  "count_list ((pid, isi) # H) = (count_list H)((pid, isi) := count_list H (pid, isi) + 1)"
  by (auto simp: pid_users_def fun_eq_iff)

lemma count_list_remove1: "count_list (remove1 x xs) y = (if x = y then count_list xs y - 1 else count_list xs y)"
  by (induction xs) (auto simp: count_list_0_iff)

lemma map_remove1_count:
  "x \<in> set xs \<Longrightarrow> count_list (map f (remove1 x xs)) y = (if f x = y then count_list (map f xs) y - 1 else count_list (map f xs) y)"
proof (induction xs)
  case (Cons z xs)
  have "0 < count_list (map f xs) (f x)" if "x \<in> set xs"
    using that count_list_0_iff [of "map f xs" "f x"] by (metis gr0I image_eqI set_map)
  then show ?case using Cons by auto
qed simp

lemma users_remove:
  assumes "(pid, isi) \<in> set H"
  shows "pid_users (remove1 (pid, isi) H) = (pid_users H)(pid := pid_users H pid - 1)"
    "count_list (remove1 (pid, isi) H) = (count_list H)((pid, isi) := count_list H (pid, isi) - 1)"
  using map_remove1_count [OF assms, of fst] by (auto simp: pid_users_def fun_eq_iff count_list_remove1)

lemma allocate_embedded_oom:
  assumes "heap_feeds d p = Some fs"
  shows "oom \<and> allocate_embedded init oom d pid isi p = Some (d, Inl (- EBUSY)) \<or>
    allocate_embedded init oom d pid isi p = allocate_embedded init False d pid isi p"
  using assms by (auto simp: allocate_embedded_def split: option.split)

lemma alloc_users:
  assumes "users_refs d p r0 H" "init_ok init"
    and alloc: "alloc = interruptible intr (Inl (- ERESTARTSYS)) d (\<lambda>d. allocate_embedded init oom d pid isi p)"
  shows "\<exists>d' H'. Option.bind alloc (note_alloc (intr \<or> oom) (pid, isi_key isi) H) = Some (d', H') \<and> users_refs d' p r0 H'"
proof (cases intr)
  case True
  then show ?thesis using assms(1) alloc by (simp add: interruptible_def note_alloc_def)
next
  case False
  let ?d = "d\<lparr>mutex := True\<rparr>"
  have refs: "stream_refs ?d p r0 (pid_users H) (count_list H)" "\<not> mutex d" using assms(1) by (simp_all add: users_refs_def)
  obtain fs where fs: "heap_feeds ?d p = Some fs" using refs(1) unfolding stream_refs_def by blast
  obtain d1 b where ok: "allocate_embedded init False ?d pid isi p = Some (d1, Inr b)"
    "users_refs (d1\<lparr>mutex := False\<rparr>) p r0 ((pid, isi_key isi) # H)"
    using allocate_refs [OF assms(2) refs(1), of pid isi] by (auto simp: users_refs_def users_add)
  have same: "users_refs (d\<lparr>mutex := False\<rparr>) p r0 H" using assms(1) by (simp add: users_refs_def)
  show ?thesis using same allocate_embedded_oom [OF fs, of oom init pid isi] ok assms(1) refs(2) False alloc
    by (auto simp: interruptible_def locked_def mutex_lock_def mutex_unlock_def note_alloc_def)
qed

lemma allocs_users:
  assumes "users_refs d p r0 H"
  shows "\<exists>d' H'. run_call p (d, H) (Alloc_stid intr oom pid isi) = Some (d', H') \<and> users_refs d' p r0 H'"
    "\<exists>d' H'. run_call p (d, H) (Alloc_t2mi intr oom pid isi) = Some (d', H') \<and> users_refs d' p r0 H'"
  using alloc_users [OF assms stid_init_ok refl, of intr oom pid isi] alloc_users [OF assms t2mi_init_ok refl, of intr oom pid isi]
  by (simp_all add: dvbdmx_allocate_stid_stream_def dvbdmx_allocate_stid_stream_unlocked_def
    dvbdmx_allocate_t2mi_stream_def dvbdmx_allocate_t2mi_stream_unlocked_def)

lemma release_users:
  assumes "users_refs d p r0 H" "(pid, isi_key isi) \<in> set H"
  shows "\<exists>d'. run_call p (d, H) (Release pid isi) = Some (d', remove1 (pid, isi_key isi) H) \<and>
    users_refs d' p r0 (remove1 (pid, isi_key isi) H)"
proof -
  let ?k = "(pid, isi_key isi)" and ?d = "d\<lparr>mutex := True\<rparr>"
  have refs: "stream_refs ?d p r0 (pid_users H) (count_list H)" "\<not> mutex d" using assms(1) by (simp_all add: users_refs_def)
  have pos: "0 < count_list H ?k" using assms(2) count_list_0_iff [of H ?k] by auto
  from stream_of_refs [OF refs(1) pos] obtain fs e em b bbf where s:
    "heap_feeds ?d p = Some fs" "map_of (embedded_streams fs) pid = Some e" "heap_bbf ?d b = Some bbf"
    "stream_of ?d p pid (isi_key isi) = Some b" "parent_embedded_stream bbf = e" by metis
  obtain d1 where d1: "bbf_put ?d b = Some d1" "heap_feeds d1 p = heap_feeds ?d p"
      "stream_refs d1 p r0 (pid_users H) (count_list (remove1 ?k H))"
    using bbf_put_refs [OF refs(1) pos s(4)] users_remove(2) [OF assms(2)] by auto
  have "count_list (remove1 ?k H) (pid, i) = 0" if "pid_users H pid = 1" for i
  proof -
    have "pid_users (remove1 ?k H) pid = 0" using that users_remove(1) [OF assms(2)] by simp
    then have "pid \<notin> fst ` set (remove1 ?k H)" by (auto simp: pid_users_def count_list_0_iff)
    then have "(pid, i) \<notin> set (remove1 ?k H)" by force
    then show ?thesis by (simp only: count_list_0_iff not_False_eq_True)
  qed
  then obtain d2 where d2: "embedded_stream_release d1 e = Some d2"
      "stream_refs d2 p r0 (pid_users (remove1 ?k H)) (count_list (remove1 ?k H))"
    using emb_put_refs [OF d1(3) _ s(2)] d1(2) s(1) users_remove(1) [OF assms(2)] by auto
  have "dvbdmx_release_bbframes_stream d b = Some (d2\<lparr>mutex := False\<rparr>, 0)"
    using refs(2) s(3,5) d1(1) d2(1)
    by (simp add: dvbdmx_release_bbframes_stream_def dvbdmx_release_bbframes_stream_unlocked_def
      bbframes_stream_release_def locked_def mutex_lock_def mutex_unlock_def)
  then show ?thesis using s(4) d2(2) assms(2) by (simp add: users_refs_def)
qed

lemma calls_users:
  assumes "users_refs d p r0 H"
  shows "\<exists>d' H'. run_calls p (d, H) xs = Some (d', H') \<and> users_refs d' p r0 H'"
  using assms
proof (induction xs arbitrary: d H)
  case (Cons x xs)
  have "\<exists>d1 H1. run_call p (d, H) x = Some (d1, H1) \<and> users_refs d1 p r0 H1"
  proof (cases x)
    case (Release pid isi)
    then show ?thesis
      using release_users [OF Cons.prems, of pid isi] Cons.prems by (cases "(pid, isi_key isi) \<in> set H") auto
  qed (use allocs_users [OF Cons.prems] in \<open>simp_all del: run_call.simps\<close>)
  then show ?case using Cons.IH by force
qed simp

lemma users_refs_none:
  assumes "users_refs d p r0 []"
  shows "\<exists>fs. heap_feeds d p = Some fs \<and> embedded_streams fs = [] \<and> fs_refcount fs = r0"
proof -
  obtain fs where fs: "heap_feeds d p = Some fs" "fs_refcount fs = r0 + length (embedded_streams fs)"
      "\<And>pid. map_of (embedded_streams fs) pid = None"
    using assms by (auto simp: users_refs_def stream_refs_def pid_users_def)
  then have "embedded_streams fs = []" by (cases "embedded_streams fs") (auto, metis option.distinct(1))
  then show ?thesis using fs by simp
qed

lemma users_refs_start:
  assumes "\<not> mutex d" "heap_feeds d p = Some fs" "embedded_streams fs = []" "p < next_addr d" "0 < fs_refcount fs"
  shows "users_refs d p (fs_refcount fs) []"
  using assms by (auto simp: users_refs_def pid_users_def intro!: stream_refsI [where fs = fs])

subsection \<open>Calls on feeds\<close>

text \<open>
  The calls that the users of feeds make, as data: the parent of a new feed, the feed and the
  filter the call is on.
\<close>

datatype feed_call =
    Alloc_pid bool nat u32 nat nat
  | Alloc_section bool nat bool nat
  | Alloc_filter bool nat
  | Start_pid bool nat
  | Stop_pid nat
  | Start_section bool nat
  | Stop_section nat
  | Release_filter nat nat
  | Release_pid nat
  | Release_section nat

fun do_call :: "dmx_driver \<Rightarrow> dvb_demux \<Rightarrow> feed_call \<Rightarrow> dvb_demux option" where
  "do_call drv d (Alloc_pid intr pid ts_type pes_type p) =
     map_option fst (dvbdmx_allocate_neumo_pid_stream intr d pid ts_type pes_type (Some p))"
| "do_call drv d (Alloc_section intr pid crc p) = map_option fst (dvbdmx_allocate_section_feed intr d pid crc (Some p))"
| "do_call drv d (Alloc_filter intr i) = map_option fst (dmx_section_feed_allocate_filter intr d i)"
| "do_call drv d (Start_pid intr i) = map_option fst (demux_ts_feed_start_filtering drv intr d i)"
| "do_call drv d (Stop_pid i) = map_option fst (demux_ts_feed_stop_filtering drv d i)"
| "do_call drv d (Start_section intr i) = map_option fst (dmx_section_feed_start_filtering drv intr d i)"
| "do_call drv d (Stop_section i) = map_option fst (dmx_section_feed_stop_filtering drv d i)"
| "do_call drv d (Release_filter i j) = map_option fst (dmx_section_feed_release_filter drv d i j)"
| "do_call drv d (Release_pid i) = map_option fst (dvbdmx_release_neumo_pid_stream d i)"
| "do_call drv d (Release_section i) = map_option fst (dvbdmx_release_section_feed d i)"

text \<open>A feed that was handed out is in the list of its feeds.\<close>

definition listed :: "dvb_demux \<Rightarrow> nat \<Rightarrow> bool" where
  "listed d i \<longleftrightarrow> i < length (feedarray d) \<and>
     (case heap_feeds d (f_parent (feedarray d ! i)) of None \<Rightarrow> False | Some fs \<Rightarrow> i \<in> set (output_feed_list fs))"

text \<open>
  Calls a user may make: new feeds below feeds that someone holds (\<open>base\<close> counts the holders),
  and calls on feeds and filters that were handed out and not yet released.
\<close>

fun legal :: "(nat \<Rightarrow> nat) \<Rightarrow> dvb_demux \<Rightarrow> feed_call \<Rightarrow> bool" where
  "legal base d (Alloc_pid _ _ _ _ p) \<longleftrightarrow> 0 < base p"
| "legal base d (Alloc_section _ _ _ p) \<longleftrightarrow> 0 < base p"
| "legal base d (Alloc_filter _ i) \<longleftrightarrow> listed d i"
| "legal base d (Start_pid _ i) \<longleftrightarrow> listed d i"
| "legal base d (Stop_pid i) \<longleftrightarrow> listed d i"
| "legal base d (Start_section _ i) \<longleftrightarrow> listed d i"
| "legal base d (Stop_section i) \<longleftrightarrow> listed d i"
| "legal base d (Release_filter i j) \<longleftrightarrow> listed d i \<and> j \<in> sfl_index ` set (f_filters (feedarray d ! i))"
| "legal base d (Release_pid i) \<longleftrightarrow> listed d i"
| "legal base d (Release_section i) \<longleftrightarrow> listed d i"

text \<open>
  The invariant: the mutex is free; feeds are counted by their holders and the entries of their
  list; a list has only feeds of its own that are in use, each once; and filters have slots.
\<close>

definition feeds_ok :: "(nat \<Rightarrow> nat) \<Rightarrow> dvb_demux \<Rightarrow> nat \<Rightarrow> feeds \<Rightarrow> bool" where
  "feeds_ok base d fid fs \<longleftrightarrow> fs_refcount fs = base fid + length (output_feed_list fs) \<and>
     (0 < base fid \<or> output_feed_list fs \<noteq> []) \<and>
     distinct (output_feed_list fs) \<and> cnt_storage fs \<noteq> None \<and>
     (\<forall>i \<in> set (output_feed_list fs). i < length (feedarray d) \<and> f_parent (feedarray d ! i) = fid \<and>
        f_state (feedarray d ! i) \<noteq> DMX_STATE_FREE)"

definition feeds_inv :: "(nat \<Rightarrow> nat) \<Rightarrow> dvb_demux \<Rightarrow> bool" where
  "feeds_inv base d \<longleftrightarrow>
     (\<forall>fid fs. heap_feeds d fid = Some fs \<longrightarrow> feeds_ok base d fid fs) \<and>
     (\<forall>fid. 0 < base fid \<longrightarrow> heap_feeds d fid \<noteq> None) \<and>
     (\<forall>f \<in> set (feedarray d). \<forall>sf \<in> set (f_filters f). sfl_index sf < length (filter_slots d))"

definition feeds_consistent :: "(nat \<Rightarrow> nat) \<Rightarrow> dvb_demux \<Rightarrow> bool" where
  "feeds_consistent base d \<longleftrightarrow> \<not> mutex d \<and> feeds_inv base d"

lemma feeds_okI:
  assumes "fs_refcount fs = base fid + length (output_feed_list fs)" "0 < base fid \<or> output_feed_list fs \<noteq> []"
    "distinct (output_feed_list fs)" "cnt_storage fs \<noteq> None"
    "\<And>i. i \<in> set (output_feed_list fs) \<Longrightarrow> i < length (feedarray d) \<and> f_parent (feedarray d ! i) = fid \<and>
        f_state (feedarray d ! i) \<noteq> DMX_STATE_FREE"
  shows "feeds_ok base d fid fs"
  using assms unfolding feeds_ok_def by blast

lemma feeds_okD:
  assumes "feeds_ok base d fid fs"
  shows "fs_refcount fs = base fid + length (output_feed_list fs)" "0 < base fid \<or> output_feed_list fs \<noteq> []"
    "distinct (output_feed_list fs)" "cnt_storage fs \<noteq> None"
    "\<And>i. i \<in> set (output_feed_list fs) \<Longrightarrow> i < length (feedarray d) \<and> f_parent (feedarray d ! i) = fid \<and>
        f_state (feedarray d ! i) \<noteq> DMX_STATE_FREE"
  using assms unfolding feeds_ok_def by blast+

lemma feeds_invI:
  assumes "\<And>fid fs. heap_feeds d fid = Some fs \<Longrightarrow> feeds_ok base d fid fs"
    "\<And>fid. 0 < base fid \<Longrightarrow> heap_feeds d fid \<noteq> None"
    "\<And>f sf. f \<in> set (feedarray d) \<Longrightarrow> sf \<in> set (f_filters f) \<Longrightarrow> sfl_index sf < length (filter_slots d)"
  shows "feeds_inv base d"
  using assms unfolding feeds_inv_def by blast

lemma feeds_invD:
  assumes "feeds_inv base d"
  shows "\<And>fid fs. heap_feeds d fid = Some fs \<Longrightarrow> feeds_ok base d fid fs"
    "\<And>fid. 0 < base fid \<Longrightarrow> heap_feeds d fid \<noteq> None"
    "\<And>f sf. f \<in> set (feedarray d) \<Longrightarrow> sf \<in> set (f_filters f) \<Longrightarrow> sfl_index sf < length (filter_slots d)"
  using assms unfolding feeds_inv_def by blast+

lemma feeds_inv_mutex [simp]: "feeds_inv base (d\<lparr>mutex := m\<rparr>) = feeds_inv base d"
  by (simp add: feeds_inv_def feeds_ok_def)

lemma feeds_inv_slot [simp]: "feeds_inv base (upd_slot j g d) = feeds_inv base d"
  by (simp add: feeds_inv_def feeds_ok_def upd_slot_def)

text \<open>A change of one feed.\<close>

lemma feeds_inv_upd_feed:
  assumes "feeds_inv base d"
    "\<And>fid fs. heap_feeds d fid = Some fs \<Longrightarrow> i \<in> set (output_feed_list fs) \<Longrightarrow>
       f_parent (g (feedarray d ! i)) = f_parent (feedarray d ! i) \<and> f_state (g (feedarray d ! i)) \<noteq> DMX_STATE_FREE"
    "i < length (feedarray d) \<Longrightarrow> \<forall>sf \<in> set (f_filters (g (feedarray d ! i))). sfl_index sf < length (filter_slots d)"
  shows "feeds_inv base (upd_feed i g d)"
proof (rule feeds_invI)
  note inv = feeds_invD [OF assms(1)]
  show "feeds_ok base (upd_feed i g d) fid fs" if "heap_feeds (upd_feed i g d) fid = Some fs" for fid fs
  proof -
    have fs: "heap_feeds d fid = Some fs" using that by (simp add: upd_feed_def)
    have "f_parent (feedarray (upd_feed i g d) ! j) = fid \<and> f_state (feedarray (upd_feed i g d) ! j) \<noteq> DMX_STATE_FREE"
      if "j \<in> set (output_feed_list fs)" for j
      using that inv(1) [OF fs] assms(2) [OF fs] by (cases "j = i") (auto simp: feeds_ok_def upd_feed_def)
    then show ?thesis using inv(1) [OF fs] by (simp add: feeds_ok_def upd_feed_def)
  qed
  show "heap_feeds (upd_feed i g d) fid \<noteq> None" if "0 < base fid" for fid
    using inv(2) [OF that] by (simp add: upd_feed_def)
  show "sfl_index sf < length (filter_slots (upd_feed i g d))"
    if "f \<in> set (feedarray (upd_feed i g d))" "sf \<in> set (f_filters f)" for f sf
  proof (cases "i < length (feedarray d)")
    case True
    then have "f = g (feedarray d ! i) \<or> f \<in> set (feedarray d)"
      using that(1) set_update_subset_insert [of "feedarray d" i] by (auto simp: upd_feed_def)
    then show ?thesis using inv(3) assms(3) [OF True] that(2) by (auto simp: upd_feed_def)
  next
    case False
    then have "f \<in> set (feedarray d)" using that(1) by (simp add: upd_feed_def list_update_beyond)
    then show ?thesis using that(2) inv(3) by (simp add: upd_feed_def)
  qed
qed

lemma feeds_inv_nth:
  assumes "feeds_inv base d" "i < length (feedarray d)" "sf \<in> set (f_filters (feedarray d ! i))"
  shows "sfl_index sf < length (filter_slots d)"
  using feeds_invD(3) [OF assms(1) nth_mem [OF assms(2)] assms(3)] .

text \<open>A feed in a list is in the list of its parent only.\<close>

lemma listed_iff:
  assumes "feeds_inv base d" "heap_feeds d fid = Some fs" "i \<in> set (output_feed_list fs)"
  shows "i < length (feedarray d)" "f_parent (feedarray d ! i) = fid" "f_state (feedarray d ! i) \<noteq> DMX_STATE_FREE"
    "listed d i"
  using feeds_invD(1) [OF assms(1,2)] assms(2,3) by (auto simp: feeds_ok_def listed_def)

lemma listedE:
  assumes "listed d i"
  obtains fs where "i < length (feedarray d)" "heap_feeds d (f_parent (feedarray d ! i)) = Some fs" "i \<in> set (output_feed_list fs)"
  using assms by (auto simp: listed_def split: option.splits)

text \<open>Adding a feed to its list.\<close>

lemma output_feed_add_inv:
  assumes "feeds_inv base d" "i < length (feedarray d)" "0 < base (f_parent (feedarray d ! i))"
    "f_state (feedarray d ! i) \<noteq> DMX_STATE_FREE"
  shows "\<exists>d'. dvb_demux_output_feed_add d i = Some d' \<and> feeds_inv base d' \<and> feedarray d' = feedarray d \<and>
    filter_slots d' = filter_slots d \<and> listed d' i"
proof -
  let ?fid = "f_parent (feedarray d ! i)"
  note inv = feeds_invD [OF assms(1)]
  obtain fs where fs: "heap_feeds d ?fid = Some fs" using inv(2) [OF assms(3)] by auto
  show ?thesis
  proof (cases "i \<in> set (output_feed_list fs)")
    case True
    then show ?thesis using assms(1,2) fs
      by (auto simp: dvb_demux_output_feed_add_def dvb_demux_output_feed_find_def mem_at_def listed_def)
  next
    case False
    let ?fs = "fs\<lparr>output_feed_list := i # output_feed_list fs\<rparr>"
    let ?d = "d\<lparr>heap_feeds := (heap_feeds d)(?fid \<mapsto> ?fs\<lparr>fs_refcount := fs_refcount fs + 1\<rparr>)\<rparr>"
    have "feeds_inv base ?d"
    proof (rule feeds_invI)
      show "feeds_ok base ?d fid gs" if "heap_feeds ?d fid = Some gs" for fid gs
      proof (cases "fid = ?fid")
        case True
        then have gs: "gs = ?fs\<lparr>fs_refcount := fs_refcount fs + 1\<rparr>" using that by simp
        note ok = feeds_okD [OF inv(1) [OF fs]]
        show ?thesis unfolding gs True
          by (rule feeds_okI) (use ok \<open>i \<notin> set (output_feed_list fs)\<close> assms(2,4) in auto)
      next
        case False
        then have "heap_feeds d fid = Some gs" using that by simp
        from inv(1) [OF this] show ?thesis by (simp add: feeds_ok_def)
      qed
    qed (use inv(2,3) in auto)
    then show ?thesis using assms(2) fs False
      by (auto simp: dvb_demux_output_feed_add_def dvb_demux_output_feed_find_def mem_at_def listed_def
        upd_feeds_def feeds_get_def Let_def)
  qed
qed

text \<open>Taking a feed out of its list, when its state has been changed.\<close>

text \<open>What remains of the feeds that a feed is taken from.\<close>

definition without_feed :: "nat \<Rightarrow> feeds \<Rightarrow> feeds option" where
  "without_feed i fs = (if fs_refcount fs = 1 then None
     else Some (fs\<lparr>output_feed_list := remove1 i (output_feed_list fs), fs_refcount := fs_refcount fs - 1\<rparr>))"

lemma output_feed_del_eq:
  assumes "feeds_inv base d" "listed d i" "heap_feeds d1 = heap_feeds d" "feedarray d1 = (feedarray d)[i := f]"
    "f_parent f = f_parent (feedarray d ! i)"
  shows "dvb_demux_output_feed_del d1 i = Some (d1\<lparr>heap_feeds := (heap_feeds d)(f_parent (feedarray d ! i) :=
    Option.bind (heap_feeds d (f_parent (feedarray d ! i))) (without_feed i))\<rparr>)"
proof -
  obtain fs where fs: "i < length (feedarray d)" "heap_feeds d (f_parent (feedarray d ! i)) = Some fs" "i \<in> set (output_feed_list fs)"
    using assms(2) by (rule listedE)
  have "dvb_demux_output_feed_find d1 i = Some True"
    using fs assms(3,4,5) by (simp add: dvb_demux_output_feed_find_def mem_at_def)
  moreover have "fs_refcount fs \<noteq> 0"
    using feeds_okD(1,2) [OF feeds_invD(1) [OF assms(1) fs(2)]] by auto
  ultimately show ?thesis using fs(1,2) assms(3,4,5)
    by (simp add: dvb_demux_output_feed_del_def upd_feeds_def feeds_put_def dvb_demux_feeds_release_cb_def Let_def
      without_feed_def)
qed

lemma output_feed_del_inv:
  assumes "feeds_inv base d" "listed d i" "heap_feeds d1 = heap_feeds d" "feedarray d1 = (feedarray d)[i := f]"
    "f_parent f = f_parent (feedarray d ! i)" "f_filters f = f_filters (feedarray d ! i)"
    "length (filter_slots d1) = length (filter_slots d)"
  shows "\<exists>d'. dvb_demux_output_feed_del d1 i = Some d' \<and> feeds_inv base d' \<and> feedarray d' = feedarray d1 \<and>
    filter_slots d' = filter_slots d1 \<and> pesfilter d' = pesfilter d1 \<and> \<not> listed d' i"
proof -
  let ?fid = "f_parent (feedarray d ! i)"
  note inv = feeds_invD [OF assms(1)]
  obtain fs where fs: "i < length (feedarray d)" "heap_feeds d ?fid = Some fs" "i \<in> set (output_feed_list fs)"
    using assms(2) by (rule listedE)
  note ok = inv(1) [OF fs(2)]
  note fd = feeds_okD [OF ok]
  have len: "length (output_feed_list fs) = Suc (length (remove1 i (output_feed_list fs)))"
    using fs(3) length_pos_if_in_set [OF fs(3)] by (simp add: length_remove1)
  have find: "dvb_demux_output_feed_find d1 i = Some True"
    using fs assms(3,4,5) by (simp add: dvb_demux_output_feed_find_def mem_at_def)
  have pos: "fs_refcount fs \<noteq> 0" using fd(1,2) by auto
  let ?fs = "fs\<lparr>output_feed_list := remove1 i (output_feed_list fs)\<rparr>"
  let ?v = "if fs_refcount fs = 1 then None else Some (?fs\<lparr>fs_refcount := fs_refcount fs - 1\<rparr>)"
  let ?d = "d1\<lparr>heap_feeds := (heap_feeds d1)(?fid := ?v)\<rparr>"
  have del: "dvb_demux_output_feed_del d1 i = Some ?d"
    using find fs(1,2) assms(3,4,5) pos
    by (simp add: dvb_demux_output_feed_del_def upd_feeds_def feeds_put_def dvb_demux_feeds_release_cb_def Let_def)
  have "feeds_inv base ?d"
  proof (rule feeds_invI)
    show "feeds_ok base ?d fid gs" if "heap_feeds ?d fid = Some gs" for fid gs
    proof (cases "fid = ?fid")
      case True
      then have gs: "gs = ?fs\<lparr>fs_refcount := fs_refcount fs - 1\<rparr>" "fs_refcount fs \<noteq> 1" using that by (auto split: if_splits)
      have others: "set (remove1 i (output_feed_list fs)) = set (output_feed_list fs) - {i}"
        using ok by (simp add: feeds_ok_def set_remove1_eq)
      have "0 < base ?fid \<or> remove1 i (output_feed_list fs) \<noteq> []"
        using gs(2) fd(1,2) fs(3) len by fastforce
      then show ?thesis unfolding True gs(1)
        by (intro feeds_okI) (use fd len assms(4) in \<open>simp_all add: others del: length_remove1\<close>)
    next
      case False
      then have gs: "heap_feeds d fid = Some gs" using that assms(3) by simp
      then have "i \<notin> set (output_feed_list gs)" using False inv(1) [OF gs] by (auto simp: feeds_ok_def)
      then have "feedarray ?d ! j = feedarray d ! j" if "j \<in> set (output_feed_list gs)" for j
        using that assms(4) by (cases "j = i") auto
      then show ?thesis using inv(1) [OF gs] assms(4) by (simp add: feeds_ok_def)
    qed
    show "heap_feeds ?d fid \<noteq> None" if "0 < base fid" for fid
    proof (cases "fid = ?fid")
      case True
      have "0 < length (output_feed_list fs)" using fs(3) by (rule length_pos_if_in_set)
      then have "fs_refcount fs \<noteq> 1" using fd(1) that unfolding True by linarith
      then show ?thesis using True by simp
    next
      case False
      then show ?thesis using inv(2) [OF that] assms(3) by simp
    qed
    show "sfl_index sf < length (filter_slots ?d)" if "g \<in> set (feedarray ?d)" "sf \<in> set (f_filters g)" for g sf
    proof -
      have "g = f \<or> g \<in> set (feedarray d)"
        using that(1) set_update_subset_insert [of "feedarray d" i] assms(4) by auto
      then show ?thesis using inv(3) [of g sf] feeds_inv_nth [OF assms(1) fs(1), of sf] that(2) assms(6,7) by auto
    qed
  qed
  moreover have "\<not> listed ?d i" using ok fs(1) assms(4,5) by (auto simp: listed_def feeds_ok_def)
  ultimately show ?thesis using del by simp
qed

text \<open>States that a sequence of legal calls leads to.\<close>

inductive reachable :: "(nat \<Rightarrow> nat) \<Rightarrow> dmx_driver \<Rightarrow> dvb_demux \<Rightarrow> dvb_demux \<Rightarrow> bool" for base drv d0 where
  reachable_start: "reachable base drv d0 d0"
| reachable_call: "reachable base drv d0 d \<Longrightarrow> legal base d c \<Longrightarrow> do_call drv d c = Some d' \<Longrightarrow> reachable base drv d0 d'"

text \<open>What a call keeps: it returns, and the state it returns is consistent again.\<close>

definition keeps :: "(nat \<Rightarrow> nat) \<Rightarrow> (dvb_demux \<times> 'r) option \<Rightarrow> bool" where
  "keeps base x \<longleftrightarrow> (case x of None \<Rightarrow> False | Some (d', _) \<Rightarrow> feeds_consistent base d')"

lemma keeps_Some [simp]: "keeps base (Some (d, r)) = feeds_consistent base d"
  by (simp add: keeps_def)

lemma keeps_locked:
  assumes "feeds_consistent base d"
    "\<And>d1. feeds_inv base d1 \<Longrightarrow> d1 = d\<lparr>mutex := True\<rparr> \<Longrightarrow> \<exists>d2 r. body d1 = Some (d2, r) \<and> feeds_inv base d2"
  shows "keeps base (locked d body)"
proof -
  have "feeds_inv base (d\<lparr>mutex := True\<rparr>)" "\<not> mutex d" using assms(1) by (simp_all add: feeds_consistent_def)
  with assms(2) show ?thesis
    by (auto simp: locked_def mutex_lock_def keeps_def mutex_unlock_def feeds_consistent_def)
qed

lemma keeps_interruptible:
  assumes "feeds_consistent base d"
    "\<And>d1. feeds_inv base d1 \<Longrightarrow> d1 = d\<lparr>mutex := True\<rparr> \<Longrightarrow> \<exists>d2 r. body d1 = Some (d2, r) \<and> feeds_inv base d2"
  shows "keeps base (interruptible intr err d body)"
  using keeps_locked [OF assms] assms(1) by (simp add: interruptible_def)

lemma listed_mutex [simp]: "listed (d\<lparr>mutex := m\<rparr>) i = listed d i"
  by (simp add: listed_def)

lemma listed_mem: "listed d i \<Longrightarrow> mem_at (feedarray d) i = Some (feedarray d ! i)"
  by (auto simp: listed_def mem_at_def)

lemma upd_feed_nth: "i < length (feedarray d) \<Longrightarrow> feedarray (upd_feed i g d) ! i = g (feedarray d ! i)"
  by (simp add: upd_feed_def)

lemma upd_feed_fields [simp]:
  "heap_feeds (upd_feed i g d) = heap_feeds d" "filter_slots (upd_feed i g d) = filter_slots d"
  "length (feedarray (upd_feed i g d)) = length (feedarray d)" "mutex (upd_feed i g d) = mutex d"
  by (simp_all add: upd_feed_def)

text \<open>Changes that a call on a feed makes.\<close>

lemma upd_feed_keeps:
  assumes "feeds_inv base d" "\<And>f. f_parent (g f) = f_parent f \<and> map sfl_index (f_filters (g f)) = map sfl_index (f_filters f)"
    "\<And>f. f_state f \<noteq> DMX_STATE_FREE \<Longrightarrow> f_state (g f) \<noteq> DMX_STATE_FREE"
  shows "feeds_inv base (upd_feed i g d)"
proof (rule feeds_inv_upd_feed [OF assms(1)])
  show "f_parent (g (feedarray d ! i)) = f_parent (feedarray d ! i) \<and> f_state (g (feedarray d ! i)) \<noteq> DMX_STATE_FREE"
    if "heap_feeds d fid = Some fs" "i \<in> set (output_feed_list fs)" for fid fs
    using listed_iff [OF assms(1) that] assms(2,3) by blast
  show "\<forall>sf \<in> set (f_filters (g (feedarray d ! i))). sfl_index sf < length (filter_slots d)" if "i < length (feedarray d)"
  proof
    fix sf assume "sf \<in> set (f_filters (g (feedarray d ! i)))"
    moreover have "sfl_index ` set (f_filters (g (feedarray d ! i))) = sfl_index ` set (f_filters (feedarray d ! i))"
      using assms(2) [of "feedarray d ! i"] by (metis set_map)
    ultimately obtain sf' where "sf' \<in> set (f_filters (feedarray d ! i))" "sfl_index sf = sfl_index sf'"
      by blast
    then show "sfl_index sf < length (filter_slots d)" using feeds_inv_nth [OF assms(1) that] by simp
  qed
qed

lemma feeds_inv_cnt:
  assumes "feeds_inv base d" "heap_feeds d fid = Some fs" "cnt_storage fs' \<noteq> None" "fs' = fs\<lparr>cnt_storage := cnt_storage fs'\<rparr>"
  shows "feeds_inv base (d\<lparr>heap_feeds := (heap_feeds d)(fid \<mapsto> fs')\<rparr>)"
proof (rule feeds_invI)
  note inv = feeds_invD [OF assms(1)]
  show "feeds_ok base (d\<lparr>heap_feeds := (heap_feeds d)(fid \<mapsto> fs')\<rparr>) x gs"
    if "heap_feeds (d\<lparr>heap_feeds := (heap_feeds d)(fid \<mapsto> fs')\<rparr>) x = Some gs" for x gs
  proof (cases "x = fid")
    case True
    then have "gs = fs'" using that by simp
    moreover have "output_feed_list fs' = output_feed_list fs" "fs_refcount fs' = fs_refcount fs"
      by (subst assms(4); simp)+
    ultimately show ?thesis using inv(1) [OF assms(2)] assms(3) True by (simp add: feeds_ok_def)
  next
    case False
    then have "heap_feeds d x = Some gs" using that by simp
    from inv(1) [OF this] show ?thesis by (simp add: feeds_ok_def)
  qed
  show "heap_feeds (d\<lparr>heap_feeds := (heap_feeds d)(fid \<mapsto> fs')\<rparr>) x \<noteq> None" if "0 < base x" for x
    using inv(2) [OF that] by simp
qed (use feeds_invD(3) [OF assms(1)] in simp)

lemma prepare_index [simp]: "map sfl_index (f_filters (prepare_secfilters f)) = map sfl_index (f_filters f)"
  "f_parent (prepare_secfilters f) = f_parent f" "f_state (prepare_secfilters f) = f_state f"
  by (simp_all add: prepare_secfilters_def prepare_secfilter_def Let_def split_def)

text \<open>The calls one by one.\<close>

lemma start_pid_keeps:
  assumes "feeds_consistent base d" "listed d i"
  shows "keeps base (demux_ts_feed_start_filtering drv intr d i)"
  unfolding demux_ts_feed_start_filtering_def
proof (rule keeps_interruptible [OF assms(1)], goal_cases)
  case d1: (1 d1)
  have l: "listed d1 i" using assms(2) d1(2) by simp
  then obtain fs where fs: "i < length (feedarray d1)" "heap_feeds d1 (f_parent (feedarray d1 ! i)) = Some fs"
    by (rule listedE)
  obtain cnt where cnt: "cnt_storage fs = Some cnt" using feeds_okD(4) [OF feeds_invD(1) [OF d1(1) fs(2)]] by auto
  let ?fs = "fs\<lparr>cnt_storage := Some (replicate MAX_PID 0xff @ drop MAX_PID cnt)\<rparr>"
  have inv: "feeds_inv base (d1\<lparr>heap_feeds := (heap_feeds d1)(f_parent (feedarray d1 ! i) \<mapsto> ?fs)\<rparr>)"
    by (rule feeds_inv_cnt [OF d1(1) fs(2)]) simp_all
  have go: "feeds_inv base (upd_feed i (\<lambda>f. f\<lparr>f_is_filtering := True, f_state := DMX_STATE_GO\<rparr>)
      (d1\<lparr>heap_feeds := (heap_feeds d1)(f_parent (feedarray d1 ! i) \<mapsto> ?fs)\<rparr>))"
    by (rule upd_feed_keeps [OF inv]) simp_all
  show ?case
    using listed_mem [OF l] fs(2) cnt inv go d1(1)
    by (cases "start_feed drv") (simp_all add: upd_feeds_def)
qed

lemma stop_pid_keeps:
  assumes "feeds_consistent base d" "listed d i"
  shows "keeps base (demux_ts_feed_stop_filtering drv d i)"
  unfolding demux_ts_feed_stop_filtering_def
proof (rule keeps_locked [OF assms(1)], goal_cases)
  case (1 d1)
  then show ?case using listed_mem [of d1 i] assms(2)
    by (cases "stop_feed drv") (auto intro!: upd_feed_keeps)
qed

lemma start_section_keeps:
  assumes "feeds_consistent base d" "listed d i"
  shows "keeps base (dmx_section_feed_start_filtering drv intr d i)"
  unfolding dmx_section_feed_start_filtering_def
proof (rule keeps_interruptible [OF assms(1)], goal_cases)
  case (1 d1)
  then show ?case using listed_mem [of d1 i] assms(2)
    by (cases "start_feed drv") (auto simp: Let_def intro!: upd_feed_keeps)
qed

lemma stop_section_keeps:
  assumes "feeds_consistent base d" "listed d i"
  shows "keeps base (dmx_section_feed_stop_filtering drv d i)"
  unfolding dmx_section_feed_stop_filtering_def
proof (rule keeps_locked [OF assms(1)], goal_cases)
  case (1 d1)
  then show ?case using listed_mem [of d1 i] assms(2)
    by (cases "stop_feed drv") (auto intro!: upd_feed_keeps)
qed

lemma feeds_inv_pes [simp]: "feeds_inv base (d\<lparr>pesfilter := a, pids := b\<rparr>) = feeds_inv base d"
  "feeds_inv base (d\<lparr>pesfilter := a\<rparr>) = feeds_inv base d"
  by (simp_all add: feeds_inv_def feeds_ok_def)

text \<open>A slot just taken from the pool is in no list.\<close>

lemma feed_alloc_inv:
  assumes "feeds_inv base d" "dvb_dmx_feed_alloc d = Some (d1, i)"
    "\<And>f. f_filters (g f) = f_filters f \<or> f_filters (g f) = []"
  shows "feeds_inv base (upd_feed i g d1)" "i < length (feedarray d1)"
    "heap_feeds d1 = heap_feeds d" "f_state (feedarray d1 ! i) = DMX_STATE_ALLOCATED"
proof -
  have i: "i < length (feedarray d)" "f_state (feedarray d ! i) = DMX_STATE_FREE"
      "d1 = upd_feed i (\<lambda>f. f\<lparr>f_state := DMX_STATE_ALLOCATED\<rparr>) d"
    using assms(2) by (auto simp: dvb_dmx_feed_alloc_def upd_feed_def dest!: first_free_Some)
  then show "i < length (feedarray d1)" "heap_feeds d1 = heap_feeds d" "f_state (feedarray d1 ! i) = DMX_STATE_ALLOCATED"
    by (simp_all add: upd_feed_nth)
  have free: "i \<notin> set (output_feed_list fs)" if "heap_feeds d fid = Some fs" for fid fs
    using listed_iff(3) [OF assms(1) that] i(2) by blast
  have flt: "\<forall>sf \<in> set (f_filters (feedarray d ! i)). sfl_index sf < length (filter_slots d)"
    using feeds_inv_nth [OF assms(1) i(1)] by blast
  have one: "feeds_inv base d1" unfolding i(3)
    by (rule feeds_inv_upd_feed [OF assms(1)]) (use free flt in simp_all)
  show "feeds_inv base (upd_feed i g d1)"
  proof (rule feeds_inv_upd_feed [OF one])
    show "\<forall>sf \<in> set (f_filters (g (feedarray d1 ! i))). sfl_index sf < length (filter_slots d1)"
      using assms(3) [of "feedarray d1 ! i"] flt i(1,3) by (auto simp: upd_feed_nth)
  qed (use free i(3) in simp_all)
qed

lemma alloc_section_keeps:
  assumes "feeds_consistent base d" "0 < base p"
  shows "keeps base (dvbdmx_allocate_section_feed intr d pid crc (Some p))"
proof -
  have "keeps base (interruptible intr (Inl (- ERESTARTSYS)) d (\<lambda>d.
        (case dvb_dmx_feed_alloc d of
           None \<Rightarrow> Some (d, Inl (- EBUSY))
         | Some (d1, i) \<Rightarrow>
             let parent = (case Some p of None \<Rightarrow> default_feeds d1 | Some p \<Rightarrow> p);
                 d2 = upd_feed i (\<lambda>f. f\<lparr>f_type := DMX_TYPE_SEC, f_pid := 0xffff, f_flags := [], f_secbuf := 0,
                        f_secbufp := 0, f_seclen := 0, f_tsfeedp := 0, f_filters := [], f_parent := parent,
                        f_is_filtering := False\<rparr>) d1
             in map_option (\<lambda>d3. (upd_feed i (\<lambda>f. f\<lparr>f_pid := pid, f_check_crc := crc,
                    f_state := DMX_STATE_READY\<rparr>) d3, Inr i)) (dvb_demux_output_feed_add d2 i))))"
  proof (rule keeps_interruptible [OF assms(1)], goal_cases)
    case (1 d0)
    show ?case
    proof (cases "dvb_dmx_feed_alloc d0")
      case None
      then show ?thesis using 1 by simp
    next
      case (Some x)
      then obtain d1 i where a: "dvb_dmx_feed_alloc d0 = Some (d1, i)" by (cases x) auto
      let ?g = "\<lambda>f. f\<lparr>f_type := DMX_TYPE_SEC, f_pid := 0xffff, f_flags := [], f_secbuf := 0,
                        f_secbufp := 0, f_seclen := 0, f_tsfeedp := 0, f_filters := [], f_parent := p,
                        f_is_filtering := False\<rparr>"
      note new = feed_alloc_inv [OF 1(1) a, of ?g]
      from output_feed_add_inv [OF new(1), of i] obtain d3 where
        "dvb_demux_output_feed_add (upd_feed i ?g d1) i = Some d3" "feeds_inv base d3"
        using new(2,4) assms(2) by (auto simp: upd_feed_nth)
      then show ?thesis using a by (auto intro!: upd_feed_keeps)
    qed
  qed
  then show ?thesis using assms(1) by (simp add: dvbdmx_allocate_section_feed_def)
qed

lemma alloc_pid_keeps:
  assumes "feeds_consistent base d" "0 < base p"
  shows "keeps base (dvbdmx_allocate_neumo_pid_stream intr d pid ts_type pes_type (Some p))"
proof (cases "pid > 0x2000")
  case True
  then show ?thesis using assms(1) by (simp add: dvbdmx_allocate_neumo_pid_stream_def)
next
  case False
  show ?thesis unfolding dvbdmx_allocate_neumo_pid_stream_def if_not_P [OF False]
  proof (intro keeps_interruptible [OF assms(1)], goal_cases)
    case (1 d0)
    show ?case
    proof (cases "dvb_dmx_feed_alloc d0")
      case None
      then show ?thesis using 1 by simp
    next
      case (Some x)
      then obtain d1 i where a: "dvb_dmx_feed_alloc d0 = Some (d1, i)" by (cases x) auto
      let ?g = "\<lambda>f. f\<lparr>f_type := DMX_TYPE_TS, f_pid := 0xffff, f_peslen := 0xfffa, f_flags := [],
                        f_parent := p, f_is_filtering := False\<rparr>"
      let ?d2 = "upd_feed i ?g d1"
      note new = feed_alloc_inv [OF 1(1) a, of ?g]
      show ?thesis
      proof (cases "claim_pes i ts_type pes_type pid ?d2")
        case None
        then show ?thesis using a new(1) by simp
      next
        case (Some d3)
        then have d3: "feeds_inv base d3" "feedarray d3 = feedarray ?d2"
          using new(1) by (auto simp: claim_pes_def split: if_splits)
        from output_feed_add_inv [OF d3(1), of i] obtain d4 where
          "dvb_demux_output_feed_add d3 i = Some d4" "feeds_inv base d4"
          using new(2,4) assms(2) d3(2) by (auto simp: upd_feed_nth)
        then show ?thesis using a Some by (auto intro!: upd_feed_keeps)
      qed
    qed
  qed
qed

lemma alloc_filter_keeps:
  assumes "feeds_consistent base d" "listed d i"
  shows "keeps base (dmx_section_feed_allocate_filter intr d i)"
  unfolding dmx_section_feed_allocate_filter_def
proof (rule keeps_interruptible [OF assms(1)], goal_cases)
  case (1 d0)
  show ?case
  proof (cases "dvb_dmx_section_filter_alloc d0")
    case None
    then show ?thesis using 1 by simp
  next
    case (Some x)
    then obtain d1 j where a: "dvb_dmx_section_filter_alloc d0 = Some (d1, j)" by (cases x) auto
    then have j: "j < length (filter_slots d0)" "d1 = upd_slot j (\<lambda>s. s\<lparr>sl_state := DMX_STATE_ALLOCATED\<rparr>) d0"
      by (auto simp: dvb_dmx_section_filter_alloc_def upd_slot_def dest!: first_free_Some)
    let ?d2 = "upd_slot j (\<lambda>s. s\<lparr>sl_feed := Some i, sl_state := DMX_STATE_READY\<rparr>) d1"
    let ?sf = "(sl_filter (filter_slots ?d2 ! j))\<lparr>sfl_index := j\<rparr>"
    have d2: "feeds_inv base ?d2" using 1(1) j(2) by simp
    have "feeds_inv base (upd_feed i (\<lambda>f. f\<lparr>f_filters := ?sf # f_filters f\<rparr>) ?d2)"
    proof (rule feeds_inv_upd_feed [OF d2])
      show "f_parent ((feedarray ?d2 ! i)\<lparr>f_filters := ?sf # f_filters (feedarray ?d2 ! i)\<rparr>) = f_parent (feedarray ?d2 ! i) \<and>
          f_state ((feedarray ?d2 ! i)\<lparr>f_filters := ?sf # f_filters (feedarray ?d2 ! i)\<rparr>) \<noteq> DMX_STATE_FREE"
        if "heap_feeds ?d2 fid = Some fs" "i \<in> set (output_feed_list fs)" for fid fs
        using listed_iff(3) [OF d2 that] by simp
      show "\<forall>sf \<in> set (f_filters ((feedarray ?d2 ! i)\<lparr>f_filters := ?sf # f_filters (feedarray ?d2 ! i)\<rparr>)).
          sfl_index sf < length (filter_slots ?d2)" if "i < length (feedarray ?d2)"
        using feeds_inv_nth [OF d2 that] j by (auto simp: upd_slot_def)
    qed
    then show ?thesis using a by (simp add: Let_def)
  qed
qed

lemma listed_state: "feeds_inv base d \<Longrightarrow> listed d i \<Longrightarrow> f_state (feedarray d ! i) \<noteq> DMX_STATE_FREE"
  using listed_iff(3) by (auto elim!: listedE)

lemma ex_keeps: "\<exists>d'. x = Some (d', r) \<and> feeds_consistent base d' \<and> Q d' \<Longrightarrow> keeps base x"
  by auto

text \<open>Releases: the feed is in no list any more.\<close>

lemma listed_pid [simp]:
  "i < length (feedarray d) \<Longrightarrow> \<not> listed d i \<Longrightarrow> \<not> listed (upd_feed i (\<lambda>f. f\<lparr>f_pid := p\<rparr>) d) i"
  by (auto simp: listed_def upd_feed_nth split: option.splits)

lemma listed_pes [simp]: "listed (d\<lparr>pesfilter := a\<rparr>) i = listed d i"
  by (simp add: listed_def)

lemma release_pid_spec:
  assumes "feeds_consistent base d" "listed d i"
  shows "\<exists>d'. dvbdmx_release_neumo_pid_stream d i = Some (d', 0) \<and> feeds_consistent base d' \<and> \<not> listed d' i \<and>
    f_state (feedarray d' ! i) = DMX_STATE_FREE"
proof -
  let ?d0 = "d\<lparr>mutex := True\<rparr>"
  let ?d1 = "upd_feed i (\<lambda>f. f\<lparr>f_state := DMX_STATE_FREE\<rparr>) ?d0"
  have inv: "feeds_inv base ?d0" "\<not> mutex d" and l: "listed ?d0 i"
    using assms by (simp_all add: feeds_consistent_def)
  then have i: "i < length (feedarray ?d0)" by (simp add: listed_def)
  let ?flt = "case f_filters (feedarray ?d0 ! i) of [] \<Rightarrow> Some ?d1
      | sf # _ \<Rightarrow> if sfl_index sf < length (filter_slots ?d1)
          then Some (upd_slot (sfl_index sf) (\<lambda>s. s\<lparr>sl_state := DMX_STATE_FREE\<rparr>) ?d1) else None"
  obtain d2 where d2: "?flt = Some d2" "heap_feeds d2 = heap_feeds ?d0"
      "feedarray d2 = (feedarray ?d0)[i := (feedarray ?d0 ! i)\<lparr>f_state := DMX_STATE_FREE\<rparr>]"
      "length (filter_slots d2) = length (filter_slots ?d0)"
    using feeds_inv_nth [OF inv(1) i]
    by (cases "f_filters (feedarray ?d0 ! i)") (auto simp: upd_feed_def upd_slot_def)
  obtain d3 where d3: "dvb_demux_output_feed_del d2 i = Some d3" "feeds_inv base d3" "feedarray d3 = feedarray d2"
      "\<not> listed d3 i"
    using output_feed_del_inv [OF inv(1) l d2(2,3) _ _ d2(4)] by auto
  have "feeds_inv base (upd_feed i (\<lambda>f. f\<lparr>f_pid := 0xffff\<rparr>) d3)"
    using d3(2) by (rule upd_feed_keeps) simp_all
  then show ?thesis using listed_mem [OF l] d2(1,3) d3 inv i listed_state [OF inv(1) l]
    by (simp add: dvbdmx_release_neumo_pid_stream_def locked_def mutex_lock_def mutex_unlock_def Let_def
      feeds_consistent_def upd_feed_nth)
qed

lemma release_section_spec:
  assumes "feeds_consistent base d" "listed d i"
  shows "\<exists>d'. dvbdmx_release_section_feed d i = Some (d', 0) \<and> feeds_consistent base d' \<and> \<not> listed d' i \<and>
    f_state (feedarray d' ! i) = DMX_STATE_FREE"
proof -
  let ?d0 = "d\<lparr>mutex := True\<rparr>"
  let ?d1 = "upd_feed i (\<lambda>f. f\<lparr>f_state := DMX_STATE_FREE\<rparr>) ?d0"
  have inv: "feeds_inv base ?d0" "\<not> mutex d" and l: "listed ?d0 i"
    using assms by (simp_all add: feeds_consistent_def)
  then have i: "i < length (feedarray ?d0)" by (simp add: listed_def)
  have fa: "feedarray ?d1 = (feedarray ?d0)[i := (feedarray ?d0 ! i)\<lparr>f_state := DMX_STATE_FREE\<rparr>]"
    by (simp add: upd_feed_def)
  from output_feed_del_inv [OF inv(1) l _ this] obtain d3 where
    d3: "dvb_demux_output_feed_del ?d1 i = Some d3" "feeds_inv base d3" "feedarray d3 = feedarray ?d1" "\<not> listed d3 i" by auto
  have "feeds_inv base (upd_feed i (\<lambda>f. f\<lparr>f_pid := 0xffff\<rparr>) d3)"
    using d3(2) by (rule upd_feed_keeps) simp_all
  then show ?thesis using listed_mem [OF l] fa d3 inv i listed_state [OF inv(1) l]
    by (simp add: dvbdmx_release_section_feed_def locked_def mutex_lock_def mutex_unlock_def
      feeds_consistent_def upd_feed_nth)
qed

text \<open>What a release leaves alone.\<close>

lemma release_section_frame:
  assumes "feeds_consistent base d" "listed d i" "dvbdmx_release_section_feed d i = Some (d', r)"
  shows "feedarray d' = (feedarray d)[i := (feedarray d ! i)\<lparr>f_state := DMX_STATE_FREE, f_pid := 0xffff\<rparr>] \<and>
    heap_feeds d' = (heap_feeds d)(f_parent (feedarray d ! i) :=
      Option.bind (heap_feeds d (f_parent (feedarray d ! i))) (without_feed i)) \<and>
    heap_emb d' = heap_emb d \<and> heap_bbf d' = heap_bbf d"
proof -
  let ?d0 = "d\<lparr>mutex := True\<rparr>"
  let ?d1 = "upd_feed i (\<lambda>f. f\<lparr>f_state := DMX_STATE_FREE\<rparr>) ?d0"
  have inv: "feeds_inv base ?d0" "\<not> mutex d" and l: "listed ?d0 i"
    using assms(1,2) by (simp_all add: feeds_consistent_def)
  have i: "i < length (feedarray d)" using assms(2) by (simp add: listed_def)
  have "dvb_demux_output_feed_del ?d1 i = Some (?d1\<lparr>heap_feeds := (heap_feeds ?d0)(f_parent (feedarray ?d0 ! i) :=
      Option.bind (heap_feeds ?d0 (f_parent (feedarray ?d0 ! i))) (without_feed i))\<rparr>)"
    by (rule output_feed_del_eq [OF inv(1) l, where f = "(feedarray d ! i)\<lparr>f_state := DMX_STATE_FREE\<rparr>"])
      (simp_all add: upd_feed_def)
  then show ?thesis using assms(3) listed_mem [OF assms(2)] inv(2) i listed_state [OF inv(1) l]
    by (auto simp: dvbdmx_release_section_feed_def locked_def mutex_lock_def mutex_unlock_def upd_feed_def
      split: if_splits)
qed

lemma release_pid_frame:
  assumes "feeds_consistent base d" "listed d i" "dvbdmx_release_neumo_pid_stream d i = Some (d', r)"
  shows "feedarray d' = (feedarray d)[i := (feedarray d ! i)\<lparr>f_state := DMX_STATE_FREE, f_pid := 0xffff\<rparr>] \<and>
    heap_feeds d' = (heap_feeds d)(f_parent (feedarray d ! i) :=
      Option.bind (heap_feeds d (f_parent (feedarray d ! i))) (without_feed i)) \<and>
    heap_emb d' = heap_emb d \<and> heap_bbf d' = heap_bbf d"
proof -
  let ?d0 = "d\<lparr>mutex := True\<rparr>"
  have inv: "feeds_inv base ?d0" "\<not> mutex d" and l: "listed ?d0 i"
    using assms(1,2) by (simp_all add: feeds_consistent_def)
  have i: "i < length (feedarray d)" using assms(2) by (simp add: listed_def)
  have del: "dvb_demux_output_feed_del d2 i = Some (d2\<lparr>heap_feeds := (heap_feeds d)(f_parent (feedarray d ! i) :=
      Option.bind (heap_feeds d (f_parent (feedarray d ! i))) (without_feed i))\<rparr>)"
    if "heap_feeds d2 = heap_feeds d" "feedarray d2 = (feedarray d)[i := (feedarray d ! i)\<lparr>f_state := DMX_STATE_FREE\<rparr>]" for d2
    using output_feed_del_eq [OF inv(1) l, of d2] that by simp
  show ?thesis using assms(3) listed_mem [OF assms(2)] inv(2) i listed_state [OF inv(1) l]
    by (auto simp: dvbdmx_release_neumo_pid_stream_def locked_def mutex_lock_def mutex_unlock_def upd_feed_def
      upd_slot_def Let_def del split: if_splits list.splits)
qed

lemmas release_pid_keeps = release_pid_spec [THEN ex_keeps] 
lemmas release_section_keeps = release_section_spec [THEN ex_keeps]

lemma unlink_filter_found:
  "j \<in> sfl_index ` set sfs \<Longrightarrow> \<exists>sf rest. unlink_filter j sfs = Some (sf, rest) \<and> set rest \<subseteq> set sfs"
  by (induction sfs) (auto, blast)

lemma stop_section_filters:
  assumes "dmx_section_feed_stop_filtering drv d i = Some (d', r)"
  shows "f_filters (feedarray d' ! i) = f_filters (feedarray d ! i)" "filter_slots d' = filter_slots d"
  using assms unfolding dmx_section_feed_stop_filtering_def locked_def mutex_lock_def mutex_unlock_def upd_feed_def
  by (auto split: if_splits option.splits bind_splits simp: mem_at_def)

lemma release_filter_keeps:
  assumes "feeds_consistent base d" "listed d i" "j \<in> sfl_index ` set (f_filters (feedarray d ! i))"
  shows "keeps base (dmx_section_feed_release_filter drv d i j)"
proof -
  let ?d1 = "d\<lparr>mutex := True\<rparr>"
  have inv: "feeds_inv base d" "\<not> mutex d" using assms(1) by (simp_all add: feeds_consistent_def)
  then have inv1: "feeds_inv base ?d1" by simp
  have i: "i < length (feedarray d)" using assms(2) by (simp add: listed_def)
  have j: "j < length (filter_slots d)" using assms(3) feeds_inv_nth [OF inv(1) i] by auto
  have fin: "\<exists>d' r. Option.bind (unlink_filter j (f_filters (feedarray d2 ! i))) (\<lambda>(sf, rest).
        let d3 = upd_feed i (\<lambda>f. f\<lparr>f_filters := rest\<rparr>) d2
        in Some (mutex_unlock (upd_slot j (\<lambda>s. s\<lparr>sl_state := DMX_STATE_FREE, sl_filter := sf\<rparr>) d3), 0 :: int)) = Some (d', r) \<and>
        feeds_consistent base d'"
    if d2: "feeds_inv base d2" "f_filters (feedarray d2 ! i) = f_filters (feedarray d ! i)" for d2
  proof -
    obtain sf rest where u: "unlink_filter j (f_filters (feedarray d2 ! i)) = Some (sf, rest)"
        "set rest \<subseteq> set (f_filters (feedarray d2 ! i))"
      using unlink_filter_found assms(3) d2(2) by metis
    have "feeds_inv base (upd_feed i (\<lambda>f. f\<lparr>f_filters := rest\<rparr>) d2)"
    proof (rule feeds_inv_upd_feed [OF d2(1)])
      show "\<forall>sf \<in> set (f_filters ((feedarray d2 ! i)\<lparr>f_filters := rest\<rparr>)). sfl_index sf < length (filter_slots d2)"
        if "i < length (feedarray d2)"
        using feeds_inv_nth [OF d2(1) that] u(2) by auto
    qed (use listed_iff [OF d2(1)] in simp)
    then show ?thesis using u(1) by (simp add: mutex_unlock_def feeds_consistent_def)
  qed
  show ?thesis
  proof (cases "sl_feed (filter_slots d ! j) = Some i \<and> f_is_filtering (feedarray d ! i)")
    case False
    then show ?thesis
      using inv i j fin [OF inv1] assms(1)
      by (auto simp: dmx_section_feed_release_filter_def mutex_lock_def mem_at_def keeps_def mutex_unlock_def feeds_consistent_def
        split: option.splits)
  next
    case True
    have un: "mutex_unlock ?d1 = d" using inv(2) by (simp add: mutex_unlock_def)
    obtain d2 r where d2: "dmx_section_feed_stop_filtering drv d i = Some (d2, r)" "feeds_consistent base d2"
      using stop_section_keeps [OF assms(1,2), of drv] by (auto simp: keeps_def split: option.splits)
    have "feeds_inv base (d2\<lparr>mutex := True\<rparr>)" "\<not> mutex d2" using d2(2) by (simp_all add: feeds_consistent_def)
    with fin [OF this(1)] show ?thesis
      using True inv i j d2 stop_section_filters [OF d2(1)]
      by (auto simp: dmx_section_feed_release_filter_def mutex_lock_def mem_at_def keeps_def un split: option.splits)
  qed
qed

lemmas calls_keep = alloc_pid_keeps alloc_section_keeps alloc_filter_keeps start_pid_keeps stop_pid_keeps
  start_section_keeps stop_section_keeps release_filter_keeps release_pid_keeps release_section_keeps

lemma keepsE: "keeps base x \<Longrightarrow> \<exists>d'. (\<exists>r. x = Some (d', r)) \<and> feeds_consistent base d'"
  by (auto simp: keeps_def split: option.splits)

lemma do_call_keeps:
  assumes "feeds_consistent base d" "legal base d c"
  shows "\<exists>d'. do_call drv d c = Some d' \<and> feeds_consistent base d'"
  using assms(2) by (cases c) (simp_all add: calls_keep [OF assms(1), THEN keepsE])

lemma reachable_keeps:
  assumes "feeds_consistent base d0" "reachable base drv d0 d"
  shows "feeds_consistent base d"
  using assms(2,1)
proof (induction rule: reachable.induct)
  case (reachable_call d c d')
  then show ?case using do_call_keeps [of base d c drv] by auto
qed

text \<open>What a release does when it is not the last one of the embedding.\<close>

lemma release_shared:
  assumes "\<not> mutex d" "heap_bbf d b = Some bbf" "bbf_refcount bbf = 1" "parent_embedded_stream bbf = e"
    "heap_emb d e = Some em" "1 < emb_refcount (emb_of em)" "heap_feeds d (bbf_feeds bbf) = Some fs" "fs_refcount fs \<noteq> 0"
  shows "\<exists>d'. dvbdmx_release_bbframes_stream d b = Some (d', 0) \<and> heap_bbf d' b = None \<and>
    heap_emb d' e = Some (map_emb (\<lambda>emb. emb\<lparr>bbf_streams := xa_erase (isi_key (bbf_isi bbf)) (bbf_streams emb),
      emb_refcount := emb_refcount emb - 1\<rparr>) em)"
proof -
  obtain d1 where d1: "feeds_put (d\<lparr>mutex := True\<rparr>) (bbf_feeds bbf) = Some d1" "heap_emb d1 = heap_emb d" "heap_bbf d1 = heap_bbf d"
    using assms(7,8)
    by (cases "fs_refcount fs = 1") (auto simp: feeds_put_def upd_feeds_def dvb_demux_feeds_release_cb_def)
  show ?thesis
    using assms(1-6) d1
    by (cases em) (simp_all add: dvbdmx_release_bbframes_stream_def dvbdmx_release_bbframes_stream_unlocked_def locked_def
      mutex_lock_def mutex_unlock_def bbframes_stream_release_def bbf_put_def bbframes_stream_release_cb_def upd_emb_def
      embedded_stream_release_def map_emb_def)
qed

text \<open>A packet that continues a baseband frame of a stream that is gone.\<close>

lemma stid_dangling:
  assumes "current_bbf (stid_emb s) = Some b" "h b = None" "length pkt = 188"
    "ts_packet_pid pkt = embedding_pid (stid_emb s)" "\<not> bit (pkt ! 3) 5" "pkt ! 8 \<noteq> 0xB8"
  shows "stid_stream_add_packet h s pkt = None"
  using assms
  by (simp add: stid_stream_add_packet_def get_stid_header_def bytes_at_def memread_def stid_payload_def nth_append)

text \<open>When an allocation of the frontend's stream fails.\<close>

lemma set_bbframes_oom:
  assumes "\<not> mutex d" "fe_bbframes_stream d = None" "heap_feeds d (fe_feeds d) = Some fs"
    "map_of (embedded_streams fs) emb_pid = None"
  shows "dvb_demux_set_bbframes_state False True d True emb_pid isi = Some (d\<lparr>mutex := True, default_stream_id := isi\<rparr>, - EBUSY)"
  using assms by (simp add: dvb_demux_set_bbframes_state_def mutex_lock_def dvbdmx_allocate_stid_stream_unlocked_def
    allocate_embedded_def Let_def)

lemma locked_blocks: "mutex d \<Longrightarrow> locked d body = None" "mutex d \<Longrightarrow> interruptible False err d body = None"
  by (simp_all add: locked_def mutex_lock_def interruptible_def)

text \<open>Restarting a transport feed.\<close>

lemma stop_pid_state:
  assumes "demux_ts_feed_stop_filtering drv d i = Some (d', 0)" "i < length (feedarray d)"
  shows "f_state (feedarray d' ! i) = DMX_STATE_ALLOCATED \<and> length (feedarray d') = length (feedarray d) \<and> \<not> mutex d'"
  using assms unfolding demux_ts_feed_stop_filtering_def locked_def mutex_lock_def mutex_unlock_def
  by (auto split: if_splits option.splits bind_splits simp: mem_at_def upd_feed_nth)

lemma start_pid_refused:
  assumes "\<not> mutex d" "i < length (feedarray d)" "f_state (feedarray d ! i) = DMX_STATE_ALLOCATED"
  shows "demux_ts_feed_start_filtering drv False d i = Some (d, - EINVAL)"
  using assms by (simp add: demux_ts_feed_start_filtering_def interruptible_def locked_def mutex_lock_def mem_at_def mutex_unlock_def)

text \<open>Allocations that fail but keep the slot.\<close>

fun failed_allocs :: "nat \<Rightarrow> dvb_demux \<Rightarrow> nat \<Rightarrow> u32 \<Rightarrow> nat \<Rightarrow> dvb_demux option" where
  "failed_allocs 0 d pid ts_type pes_type = Some d"
| "failed_allocs (Suc k) d pid ts_type pes_type =
     (case dvbdmx_allocate_neumo_pid_stream False d pid ts_type pes_type None of
        Some (d1, Inl _) \<Rightarrow> failed_allocs k d1 pid ts_type pes_type
      | _ \<Rightarrow> None)"

abbreviation free_feeds :: "dvb_demux \<Rightarrow> nat" where
  "free_feeds d \<equiv> count_list (map f_state (feedarray d)) DMX_STATE_FREE"

lemma failed_alloc:
  assumes "\<not> mutex d" "0 < free_feeds d" "pid \<le> 0x2000" "ts_type AND TS_DECODER \<noteq> 0" "length (pesfilter d) \<le> pes_type"
  shows "\<exists>d'. dvbdmx_allocate_neumo_pid_stream False d pid ts_type pes_type None = Some (d', Inl (- EINVAL)) \<and> \<not> mutex d' \<and>
    free_feeds d = Suc (free_feeds d') \<and> pesfilter d' = pesfilter d"
proof -
  have "dvb_dmx_feed_alloc (d\<lparr>mutex := True\<rparr>) \<noteq> None"
    using assms(2) feed_slots.alloc_None [of "d\<lparr>mutex := True\<rparr>"] count_list_0_iff [of "map f_state (feedarray d)"] by fastforce
  then obtain d1 i where a: "dvb_dmx_feed_alloc (d\<lparr>mutex := True\<rparr>) = Some (d1, i)" by auto
  have d1: "d1 = upd_feed i (\<lambda>f. f\<lparr>f_state := DMX_STATE_ALLOCATED\<rparr>) (d\<lparr>mutex := True\<rparr>)" "i < length (feedarray d)"
    using a by (auto simp: dvb_dmx_feed_alloc_def upd_feed_def dest!: first_free_Some)
  have "free_feeds d = Suc (free_feeds d1)" using feed_slots.count_free [OF a] by simp
  then show ?thesis
    using assms a d1
    by (simp add: map_update dvbdmx_allocate_neumo_pid_stream_def interruptible_def locked_def mutex_lock_def mutex_unlock_def
      claim_pes_def Let_def upd_feed_def)
qed

lemma failed_allocs_spec:
  assumes "\<not> mutex d" "k \<le> free_feeds d" "pid \<le> 0x2000" "ts_type AND TS_DECODER \<noteq> 0" "length (pesfilter d) \<le> pes_type"
  shows "\<exists>d'. failed_allocs k d pid ts_type pes_type = Some d' \<and> \<not> mutex d' \<and> free_feeds d = k + free_feeds d' "
  using assms
proof (induction k arbitrary: d)
  case (Suc k)
  then have "0 < free_feeds d" by linarith
  from failed_alloc [OF Suc.prems(1) this Suc.prems(3-5)] obtain d1 where
    d1: "dvbdmx_allocate_neumo_pid_stream False d pid ts_type pes_type None = Some (d1, Inl (- EINVAL))" "\<not> mutex d1"
    "free_feeds d = Suc (free_feeds d1)" "pesfilter d1 = pesfilter d" by blast
  then show ?case using Suc.IH [of d1] Suc.prems by auto
qed simp

lemma no_free_busy:
  assumes "\<not> mutex d" "free_feeds d = 0" "pid \<le> 0x1fff"
  shows "dvbdmx_allocate_section_feed False d pid crc p = Some (d, Inl (- EBUSY))"
proof -
  have "dvb_dmx_feed_alloc (d\<lparr>mutex := True\<rparr>) = None"
    using feed_slots.alloc_None [of "d\<lparr>mutex := True\<rparr>"] assms(2) by (simp add: count_list_0_iff)
  then show ?thesis using assms by (simp add: dvbdmx_allocate_section_feed_def interruptible_def locked_def mutex_lock_def mutex_unlock_def)
qed

subsection \<open>Properties\<close>

text \<open>The references that the demux itself holds.\<close>

definition owned :: "dvb_demux \<Rightarrow> nat \<Rightarrow> nat" where
  "owned d fid = (if fid = fe_feeds d \<or> fid = default_feeds d then 1 else 0)"

lemma init_consistent:
  assumes "neumo_dvb_dmx_init n (Some fl) (Some fa) d = (d0, 0)" "heap_feeds d = Map.empty"
    "\<forall>f \<in> set fa. f_filters f = []"
  shows "feeds_consistent (owned d0) d0"
proof -
  have d0: "mutex d0 = False" "fe_feeds d0 = next_addr d" "default_feeds d0 = next_addr d + 1"
    "heap_feeds d0 = [next_addr d \<mapsto> (dvb_demux_feeds_init (- 1) (- 1))\<lparr>include_default_feeds := True\<rparr>,
       next_addr d + 1 \<mapsto> dvb_demux_feeds_init (- 1) (- 1)]"
    "feedarray d0 = map (\<lambda>f. f\<lparr>f_state := DMX_STATE_FREE\<rparr>) fa"
    using assms(1,2) by (auto simp: neumo_dvb_dmx_init_def Let_def)
  have "feeds_inv (owned d0) d0"
    by (rule feeds_invI) (use assms(3) d0 in \<open>auto simp: feeds_ok_def dvb_demux_feeds_init_def owned_def split: if_splits\<close>)
  then show ?thesis using d0(1) by (simp add: feeds_consistent_def)
qed

text \<open>A demux of two feeds and two section filters, right after it was initialised.\<close>

definition demo_drv :: dmx_driver where
  "demo_drv = \<lparr>start_feed = Some (\<lambda>_. 0), stop_feed = Some (\<lambda>_. 0)\<rparr>"

definition demo_fd :: feed where
  "demo_fd = demo_feed\<lparr>f_filters := []\<rparr>"

definition demo_slot :: filter_slot where
  "demo_slot = \<lparr>sl_state = DMX_STATE_FREE, sl_feed = None, sl_filter = demo_filter\<rparr>"

definition demo_raw :: dvb_demux where
  "demo_raw = demo_dmx\<lparr>heap_feeds := Map.empty\<rparr>"

definition demo_ctl :: dvb_demux where
  "demo_ctl = fst (neumo_dvb_dmx_init 20 (Some [demo_slot, demo_slot]) (Some [demo_fd, demo_fd]) demo_raw)"

lemma demo_ctl_init: "neumo_dvb_dmx_init 20 (Some [demo_slot, demo_slot]) (Some [demo_fd, demo_fd]) demo_raw = (demo_ctl, 0)"
  by (simp add: demo_ctl_def neumo_dvb_dmx_init_def Let_def)

lemma demo_ctl_simps:
  "\<not> mutex demo_ctl" "fe_feeds demo_ctl = 2" "default_feeds demo_ctl = 3" "fe_bbframes_stream demo_ctl = None"
  "heap_feeds demo_ctl 2 = Some ((dvb_demux_feeds_init (- 1) (- 1))\<lparr>include_default_feeds := True\<rparr>)"
  "feedarray demo_ctl = [demo_fd\<lparr>f_state := DMX_STATE_FREE\<rparr>, demo_fd\<lparr>f_state := DMX_STATE_FREE\<rparr>]"
  "next_addr demo_ctl = 4" "length (pesfilter demo_ctl) = 20"
  by (simp_all add: demo_ctl_def neumo_dvb_dmx_init_def demo_raw_def demo_dmx_def Let_def)

text \<open>
  C8.  The calls on feeds never go wrong.  After the initialisation, on memory in which no feed
  has a section filter yet, whatever allocations of feeds and filters, starts, stops and
  releases the users make, in any order, with signals and drivers that fail: each call returns,
  the mutex is free again, every set of feeds is counted by its holders and the feeds in its
  list, and a list has only feeds of its own that are in use, each of them once.
\<close>

theorem feed_calls_consistent:
  assumes "neumo_dvb_dmx_init n (Some fl) (Some fa) d = (d0, 0)" "heap_feeds d = Map.empty"
    "\<forall>f \<in> set fa. f_filters f = []" "reachable (owned d0) drv d0 d'"
  shows "feeds_consistent (owned d0) d' \<and> (\<forall>c. legal (owned d0) d' c \<longrightarrow> do_call drv d' c \<noteq> None)"
proof
  show "feeds_consistent (owned d0) d'" by (rule reachable_keeps [OF init_consistent [OF assms(1-3)] assms(4)])
  then show "\<forall>c. legal (owned d0) d' c \<longrightarrow> do_call drv d' c \<noteq> None" using do_call_keeps by blast
qed

theorem feed_calls_consistent_witness:
  "feeds_consistent (owned demo_ctl) demo_ctl \<and> do_call demo_drv demo_ctl (Alloc_section False 16 True 2) \<noteq> None"
proof -
  have "legal (owned demo_ctl) demo_ctl (Alloc_section False 16 True 2)" by (simp add: owned_def demo_ctl_simps)
  moreover have "\<forall>f \<in> set [demo_fd, demo_fd]. f_filters f = []" "heap_feeds demo_raw = Map.empty"
    by (simp_all add: demo_fd_def demo_raw_def)
  ultimately show ?thesis using feed_calls_consistent [OF demo_ctl_init _ _ reachable_start, of demo_drv] by blast
qed

text \<open>
  C32.  A feed that is released gets no more packets and nothing else is disturbed: the call
  succeeds, the slot of the feed is free, and the feed is in no list of feeds any more; the feeds
  it was in lose just this entry and one reference (and are freed with the last one); all other
  feeds, their lists, the embedded streams and the other slots of feeds are as they were.
\<close>

theorem released_feed_unlisted:
  assumes "feeds_consistent base d" "listed d i"
    "dvbdmx_release_section_feed d i = Some (d', r) \<or> dvbdmx_release_neumo_pid_stream d i = Some (d', r)"
  shows "r = 0 \<and> feeds_consistent base d' \<and> (\<forall>fid fs. heap_feeds d' fid = Some fs \<longrightarrow> i \<notin> set (output_feed_list fs)) \<and>
    feedarray d' = (feedarray d)[i := (feedarray d ! i)\<lparr>f_state := DMX_STATE_FREE, f_pid := 0xffff\<rparr>] \<and>
    heap_feeds d' = (heap_feeds d)(f_parent (feedarray d ! i) :=
      Option.bind (heap_feeds d (f_parent (feedarray d ! i))) (without_feed i)) \<and>
    heap_emb d' = heap_emb d \<and> heap_bbf d' = heap_bbf d"
proof -
  have a: "r = 0 \<and> feeds_consistent base d' \<and> \<not> listed d' i"
    using assms(3) release_section_spec [OF assms(1,2)] release_pid_spec [OF assms(1,2)] by auto
  then have "\<forall>fid fs. heap_feeds d' fid = Some fs \<longrightarrow> i \<notin> set (output_feed_list fs)"
    using listed_iff(4) [of base d'] by (auto simp: feeds_consistent_def)
  moreover have "feedarray d' = (feedarray d)[i := (feedarray d ! i)\<lparr>f_state := DMX_STATE_FREE, f_pid := 0xffff\<rparr>] \<and>
    heap_feeds d' = (heap_feeds d)(f_parent (feedarray d ! i) :=
      Option.bind (heap_feeds d (f_parent (feedarray d ! i))) (without_feed i)) \<and>
    heap_emb d' = heap_emb d \<and> heap_bbf d' = heap_bbf d"
    using assms(3) release_section_frame [OF assms(1,2)] release_pid_frame [OF assms(1,2)] by blast
  ultimately show ?thesis using a by blast
qed

definition demo_open :: dvb_demux where
  "demo_open = the (do_call demo_drv demo_ctl (Alloc_section False 16 True 2))"

lemma demo_open_listed: "feeds_consistent (owned demo_ctl) demo_open" "listed demo_open 0"
proof -
  have c: "feeds_consistent (owned demo_ctl) demo_ctl"
    by (rule init_consistent [OF demo_ctl_init]) (simp_all add: demo_fd_def demo_raw_def)
  have "legal (owned demo_ctl) demo_ctl (Alloc_section False 16 True 2)" by (simp add: owned_def demo_ctl_simps)
  from do_call_keeps [OF c this, of demo_drv] show "feeds_consistent (owned demo_ctl) demo_open"
    by (auto simp: demo_open_def)
  show "listed demo_open 0"
    using demo_ctl_simps
    by (simp add: demo_open_def dvbdmx_allocate_section_feed_def interruptible_def locked_def mutex_lock_def mutex_unlock_def
      dvb_dmx_feed_alloc_def upd_feed_def dvb_demux_output_feed_add_def dvb_demux_output_feed_find_def mem_at_def
      upd_feeds_def feeds_get_def dvb_demux_feeds_init_def listed_def Let_def)
qed

theorem released_feed_unlisted_witness:
  "\<exists>d'. dvbdmx_release_section_feed demo_open 0 = Some (d', 0) \<and> heap_emb d' = heap_emb demo_open \<and>
    (\<forall>fid fs. heap_feeds d' fid = Some fs \<longrightarrow> 0 \<notin> set (output_feed_list fs))"
proof -
  obtain d' r where "dvbdmx_release_section_feed demo_open 0 = Some (d', r)"
    using release_section_spec [OF demo_open_listed] by blast
  then show ?thesis using released_feed_unlisted [OF demo_open_listed, of d' r] by blast
qed



text \<open>Allocations of feeds, one after the other.\<close>

primrec alloc_feeds :: "nat \<Rightarrow> dvb_demux \<Rightarrow> (dvb_demux \<times> nat list) option" where
  "alloc_feeds 0 d = Some (d, [])"
| "alloc_feeds (Suc k) d = Option.bind (dvb_dmx_feed_alloc d) (\<lambda>(d1, i). map_option (\<lambda>(d2, is). (d2, i # is)) (alloc_feeds k d1))"

lemma alloc_feeds_pool: "alloc_feeds k d = feed_slots.allocs k d"
  by (induction k arbitrary: d) simp_all

text \<open>
  The pool hands out each slot once: a number of allocations in a row succeeds exactly if
  there are as many free slots; the slots handed out are all different, were free, and are in
  use afterwards, and no other slot changes its state.
\<close>

theorem feed_pool_exclusive:
  "(alloc_feeds k d \<noteq> None \<longleftrightarrow> k \<le> free_feeds d) \<and>
   (case alloc_feeds k d of None \<Rightarrow> True
    | Some (d', is) \<Rightarrow> length is = k \<and> distinct is \<and>
        set is = {i. i < length (feedarray d) \<and> f_state (feedarray d ! i) \<noteq> f_state (feedarray d' ! i)} \<and>
        set (map (\<lambda>i. f_state (feedarray d ! i)) is) \<subseteq> {DMX_STATE_FREE} \<and> length (feedarray d') = length (feedarray d))"
proof -
  have "length is = k \<and> distinct is \<and>
      set is = {i. i < length (feedarray d) \<and> f_state (feedarray d ! i) \<noteq> f_state (feedarray d' ! i)} \<and>
      set (map (\<lambda>i. f_state (feedarray d ! i)) is) \<subseteq> {DMX_STATE_FREE} \<and> length (feedarray d') = length (feedarray d)"
    if "feed_slots.allocs k d = Some (d', is)" for d' "is"
  proof -
    note e = feed_slots.allocs_exclusive [OF that]
    have l: "length (feedarray d') = length (feedarray d)" using e by (metis length_map)
    have other: "f_state (feedarray d' ! j) = f_state (feedarray d ! j)" if "j \<notin> set is" "j < length (feedarray d)" for j
      using e that l by (metis nth_map)
    show ?thesis using e l other by auto
  qed
  then have "case alloc_feeds k d of None \<Rightarrow> True
    | Some (d', is) \<Rightarrow> length is = k \<and> distinct is \<and>
        set is = {i. i < length (feedarray d) \<and> f_state (feedarray d ! i) \<noteq> f_state (feedarray d' ! i)} \<and>
        set (map (\<lambda>i. f_state (feedarray d ! i)) is) \<subseteq> {DMX_STATE_FREE} \<and> length (feedarray d') = length (feedarray d)"
    by (simp only: alloc_feeds_pool split: option.split prod.split) blast
  then show ?thesis using feed_slots.allocs_iff [of k d] unfolding alloc_feeds_pool by blast
qed

text \<open>
  A stream that is released while it is the current one of its embedding, and while the
  embedding has other users, leaves a dangling pointer: \<open>current_bbf\<close> still names the stream
  that was freed, and the next packet of the carrier that does not start a baseband frame
  makes the receiver use it.
\<close>

theorem release_leaves_dangling_stream:
  assumes "\<not> mutex d" "heap_bbf d b = Some bbf" "bbf_refcount bbf = 1" "parent_embedded_stream bbf = e"
    "heap_emb d e = Some (Stid s)" "1 < emb_refcount (stid_emb s)" "current_bbf (stid_emb s) = Some b"
    "heap_feeds d (bbf_feeds bbf) = Some fs" "fs_refcount fs \<noteq> 0"
    "length pkt = 188" "ts_packet_pid pkt = embedding_pid (stid_emb s)" "\<not> bit (pkt ! 3) 5" "pkt ! 8 \<noteq> 0xB8"
  shows "\<exists>d' s'. dvbdmx_release_bbframes_stream d b = Some (d', 0) \<and> heap_bbf d' b = None \<and>
    heap_emb d' e = Some (Stid s') \<and> current_bbf (stid_emb s') = Some b \<and>
    stid_stream_add_packet (heap_bbf d') s' pkt = None"
proof -
  have "1 < emb_refcount (emb_of (Stid s))" using assms(6) by simp
  from release_shared [OF assms(1-5) this assms(8,9)] obtain d' where d': "dvbdmx_release_bbframes_stream d b = Some (d', 0)"
    "heap_bbf d' b = None"
    "heap_emb d' e = Some (map_emb (\<lambda>emb. emb\<lparr>bbf_streams := xa_erase (isi_key (bbf_isi bbf)) (bbf_streams emb),
      emb_refcount := emb_refcount emb - 1\<rparr>) (Stid s))" by blast
  let ?s = "s\<lparr>stid_emb := (stid_emb s)\<lparr>bbf_streams := xa_erase (isi_key (bbf_isi bbf)) (bbf_streams (stid_emb s)),
      emb_refcount := emb_refcount (stid_emb s) - 1\<rparr>\<rparr>"
  have "heap_emb d' e = Some (Stid ?s)" using d'(3) by (simp add: map_emb_def)
  moreover have "stid_stream_add_packet (heap_bbf d') ?s pkt = None"
    by (rule stid_dangling [of _ b]) (use d'(2) assms(7,10-) in simp_all)
  ultimately show ?thesis using d'(1,2) assms(7) by (intro exI [of _ d'] exI [of _ ?s]) simp
qed

definition demo_shared :: "nat \<Rightarrow> int \<Rightarrow> dvb_demux" where
  "demo_shared k isi = demo_ctl\<lparr>heap_emb := [5 \<mapsto> Stid \<lparr>stid_emb = demo_emb\<lparr>bbf_streams := [(isi, 6), (9, 8)], emb_refcount := 2,
       current_bbf := Some 6, current_isi := isi\<rparr>, stid_section_length = 0\<rparr>],
     heap_bbf := [6 \<mapsto> demo_running\<lparr>bbf_isi := 7, bbf_refcount := 1, parent_embedded_stream := 5, bbf_feeds := k\<rparr>]\<rparr>"

lemma demo_shared_simps: "\<not> mutex (demo_shared k isi)"
  "heap_bbf (demo_shared k isi) 6 = Some (demo_running\<lparr>bbf_isi := 7, bbf_refcount := 1, parent_embedded_stream := 5, bbf_feeds := k\<rparr>)"
  "heap_emb (demo_shared k isi) 5 = Some (Stid \<lparr>stid_emb = demo_emb\<lparr>bbf_streams := [(isi, 6), (9, 8)], emb_refcount := 2,
       current_bbf := Some 6, current_isi := isi\<rparr>, stid_section_length = 0\<rparr>)"
  "heap_feeds (demo_shared 2 isi) 2 = Some ((dvb_demux_feeds_init (- 1) (- 1))\<lparr>include_default_feeds := True\<rparr>)"
  by (simp_all add: demo_shared_def demo_ctl_simps)

theorem release_leaves_dangling_stream_witness:
  "\<exists>d' s'. dvbdmx_release_bbframes_stream (demo_shared 2 7) 6 = Some (d', 0) \<and> heap_emb d' 5 = Some (Stid s') \<and>
    stid_stream_add_packet (heap_bbf d') s' ([0x47, 0x01, 0x0e, 0x11, 0, 0x80, 0, 0xb4, 1] @ replicate 179 0) = None"
proof -
  have "\<exists>d' s'. dvbdmx_release_bbframes_stream (demo_shared 2 7) 6 = Some (d', 0) \<and> heap_bbf d' 6 = None \<and>
    heap_emb d' 5 = Some (Stid s') \<and> current_bbf (stid_emb s') = Some 6 \<and>
    stid_stream_add_packet (heap_bbf d') s' ([0x47, 0x01, 0x0e, 0x11, 0, 0x80, 0, 0xb4, 1] @ replicate 179 0) = None"
    by (rule release_leaves_dangling_stream [OF demo_shared_simps(1,2) _ _ demo_shared_simps(3) _ _ _, where
        fs = "(dvb_demux_feeds_init (- 1) (- 1))\<lparr>include_default_feeds := True\<rparr>"])
      (simp_all add: demo_shared_simps dvb_demux_feeds_init_def ts_packet_pid_def demo_emb_def bit_numeral_rec)
  then show ?thesis by blast
qed

text \<open>
  A T2-MI stream registered for the default pipe is never taken out of the table.  The
  release removes the entry of the stream number, but that number is overwritten by each
  baseband header with the one in the header; if the two differ, and the embedding has other
  users, the table keeps a pointer to the freed stream, and the next request for the same
  stream uses it.
\<close>

theorem release_keeps_stale_entry:
  assumes "\<not> mutex d" "heap_bbf d b = Some bbf" "bbf_refcount bbf = 1" "parent_embedded_stream bbf = e"
    "heap_emb d e = Some em" "1 < emb_refcount (emb_of em)" "map_of (bbf_streams (emb_of em)) (isi_key isi) = Some b"
    "isi_key (bbf_isi bbf) \<noteq> isi_key isi" "heap_feeds d (bbf_feeds bbf) = Some fs" "fs_refcount fs \<noteq> 0"
  shows "\<exists>d' em'. dvbdmx_release_bbframes_stream d b = Some (d', 0) \<and> heap_bbf d' b = None \<and>
    heap_emb d' e = Some em' \<and> map_of (bbf_streams (emb_of em')) (isi_key isi) = Some b \<and>
    dvb_dmx_find_or_alloc_bbf_stream d' e pid isi = None"
proof -
  from release_shared [OF assms(1-6,9,10)] obtain d' where d': "dvbdmx_release_bbframes_stream d b = Some (d', 0)"
    "heap_bbf d' b = None"
    "heap_emb d' e = Some (map_emb (\<lambda>emb. emb\<lparr>bbf_streams := xa_erase (isi_key (bbf_isi bbf)) (bbf_streams emb),
      emb_refcount := emb_refcount emb - 1\<rparr>) em)" by blast
  then show ?thesis using assms(7,8)
    by (intro exI [of _ d'] exI [of _ "map_emb (\<lambda>emb. emb\<lparr>bbf_streams := xa_erase (isi_key (bbf_isi bbf)) (bbf_streams emb),
      emb_refcount := emb_refcount emb - 1\<rparr>) em"]) (simp add: map_of_erase dvb_dmx_find_or_alloc_bbf_stream_def Let_def)
qed

theorem release_keeps_stale_entry_witness:
  "\<exists>d'. dvbdmx_release_bbframes_stream (demo_shared 2 256) 6 = Some (d', 0) \<and>
    dvb_dmx_find_or_alloc_bbf_stream d' 5 270 (- 1) = None"
proof -
  have "\<exists>d' em'. dvbdmx_release_bbframes_stream (demo_shared 2 256) 6 = Some (d', 0) \<and> heap_bbf d' 6 = None \<and>
    heap_emb d' 5 = Some em' \<and> map_of (bbf_streams (emb_of em')) (isi_key (- 1)) = Some 6 \<and>
    dvb_dmx_find_or_alloc_bbf_stream d' 5 270 (- 1) = None"
    by (rule release_keeps_stale_entry [OF demo_shared_simps(1,2) _ _ demo_shared_simps(3), where
        fs = "(dvb_demux_feeds_init (- 1) (- 1))\<lparr>include_default_feeds := True\<rparr>"])
      (simp_all add: demo_shared_simps dvb_demux_feeds_init_def isi_key_def)
  then show ?thesis by blast
qed

text \<open>
  When the stream of a stid135 frontend cannot be allocated, the request fails with the
  mutex held: from then on every call that waits for it, an allocation, a start, a stop, a
  release or a write of packets, waits for ever.
\<close>

theorem set_bbframes_deadlock:
  assumes "\<not> mutex d" "fe_bbframes_stream d = None" "heap_feeds d (fe_feeds d) = Some fs"
    "map_of (embedded_streams fs) emb_pid = None"
  shows "\<exists>d'. dvb_demux_set_bbframes_state False True d True emb_pid isi = Some (d', - EBUSY) \<and> mutex d' \<and>
    dvbdmx_release_section_feed d' i = None \<and> dvbdmx_release_neumo_pid_stream d' i = None \<and>
    demux_ts_feed_start_filtering drv False d' i = None \<and> demux_ts_feed_stop_filtering drv d' i = None \<and>
    dmx_section_feed_start_filtering drv False d' i = None \<and> dmx_section_feed_stop_filtering drv d' i = None \<and>
    dvbdmx_release_bbframes_stream d' b = None \<and> dvb_demux_set_bbframes_state False oom d' on emb_pid isi = None"
  using set_bbframes_oom [OF assms, of isi]
  by (simp add: locked_blocks demux_ts_feed_start_filtering_def demux_ts_feed_stop_filtering_def
    dmx_section_feed_start_filtering_def dmx_section_feed_stop_filtering_def dvbdmx_release_section_feed_def
    dvbdmx_release_neumo_pid_stream_def dvbdmx_release_bbframes_stream_def dvb_demux_set_bbframes_state_def mutex_lock_def)

theorem set_bbframes_deadlock_witness:
  "\<exists>d'. dvb_demux_set_bbframes_state False True demo_ctl True 270 7 = Some (d', - EBUSY) \<and> mutex d' \<and>
    dvbdmx_release_section_feed d' 0 = None"
proof -
  note deadlock = set_bbframes_deadlock [OF demo_ctl_simps(1,4), of "(dvb_demux_feeds_init (- 1) (- 1))\<lparr>include_default_feeds := True\<rparr>"
    270 7 0 demo_drv 0 False True]
  have "map_of (embedded_streams ((dvb_demux_feeds_init (- 1) (- 1))\<lparr>include_default_feeds := True\<rparr>)) 270 = None"
    by (simp add: dvb_demux_feeds_init_def)
  with deadlock demo_ctl_simps(2,5) show ?thesis by fastforce
qed

text \<open>
  A request for a decoder feed with a stream type out of range fails, but keeps the slot:
  after as many such requests as there are free slots, every allocation is refused as busy.
\<close>

theorem failed_requests_exhaust_pool:
  assumes "\<not> mutex d" "pid \<le> 0x2000" "ts_type AND TS_DECODER \<noteq> 0" "length (pesfilter d) \<le> pes_type" "pid2 \<le> 0x1fff"
  shows "\<exists>d'. failed_allocs (free_feeds d) d pid ts_type pes_type = Some d' \<and>
    dvbdmx_allocate_section_feed False d' pid2 crc p = Some (d', Inl (- EBUSY))"
proof -
  obtain d' where "failed_allocs (free_feeds d) d pid ts_type pes_type = Some d'" "\<not> mutex d'" "free_feeds d = free_feeds d + free_feeds d'"
    using failed_allocs_spec [OF assms(1) order.refl assms(2-4)] by auto
  then show ?thesis using no_free_busy [OF _ _ assms(5)] by auto
qed

theorem failed_requests_exhaust_pool_witness:
  "\<exists>d'. failed_allocs 2 demo_ctl 256 TS_DECODER 20 = Some d' \<and>
    dvbdmx_allocate_section_feed False d' 16 True None = Some (d', Inl (- EBUSY))"
proof -
  have "free_feeds demo_ctl = 2" by (simp add: demo_ctl_simps(6))
  then show ?thesis
    using failed_requests_exhaust_pool [OF demo_ctl_simps(1), of 256 TS_DECODER 20 16 True None] demo_ctl_simps(8)
    by (simp del: failed_allocs.simps)
qed

text \<open>
  A transport feed that was stopped cannot be started again: the stop leaves it allocated,
  while the start wants it ready.
\<close>

theorem stopped_feed_refused:
  assumes "demux_ts_feed_stop_filtering drv d i = Some (d', 0)" "i < length (feedarray d)"
  shows "demux_ts_feed_start_filtering drv' False d' i = Some (d', - EINVAL)"
  using stop_pid_state [OF assms] assms(2) start_pid_refused [of d' i drv'] by simp

theorem stopped_feed_refused_witness:
  "\<exists>d'. demux_ts_feed_stop_filtering demo_drv (demo_ctl\<lparr>feedarray := [demo_fd]\<rparr>) 0 = Some (d', 0) \<and>
    demux_ts_feed_start_filtering demo_drv False d' 0 = Some (d', - EINVAL)"
proof -
  obtain d' where "demux_ts_feed_stop_filtering demo_drv (demo_ctl\<lparr>feedarray := [demo_fd]\<rparr>) 0 = Some (d', 0)"
    using demo_ctl_simps(1)
    by (simp add: demux_ts_feed_stop_filtering_def locked_def mutex_lock_def mem_at_def demo_fd_def demo_feed_def demo_drv_def)
  then show ?thesis using stopped_feed_refused [of demo_drv _ 0 d' demo_drv] by simp
qed

end
