(* ===== verification/PacketQueue.thy ===== *)
theory PacketQueue
  imports RingBuffer
begin

text \<open>
  The packet layer of the ring buffer as an interface: a queue of packets at positions, of
  which any can be read, and removed without moving the others.  The CAM interface reads its
  messages through it.
\<close>

subsection \<open>The interface\<close>

type_synonym queued = "nat \<times> byte list"

definition queue_head :: "queued list \<Rightarrow> (nat \<times> nat) option" where
  "queue_head Q = (case Q of [] \<Rightarrow> None | (p, b) # _ \<Rightarrow> Some (p, length b))"

lemma queue_head_simps [simp]:
  "queue_head [] = None" "queue_head ((p, b) # Q) = Some (p, length b)"
  by (simp_all add: queue_head_def)

text \<open>
  \<open>queue r Q\<close>: the packets of \<open>r\<close> that can be read, in order, with their positions.
\<close>

locale packet_queue =
  fixes queue :: "'r \<Rightarrow> queued list \<Rightarrow> bool"
    and next_pkt :: "'r \<Rightarrow> nat option \<Rightarrow> (nat \<times> nat) option option"
    and read_pkt :: "'r \<Rightarrow> nat \<Rightarrow> int \<Rightarrow> nat \<Rightarrow> (int \<times> byte list) option"
    and dispose :: "'r \<Rightarrow> nat \<Rightarrow> 'r option"
  assumes next_first: "queue r Q \<Longrightarrow> next_pkt r None = Some (queue_head Q)"
    and next_after: "queue r (A @ (p, b) # B) \<Longrightarrow> next_pkt r (Some p) = Some (queue_head B)"
    and read_at: "queue r (A @ (p, b) # B) \<Longrightarrow> off \<le> length b \<Longrightarrow>
      read_pkt r p (int off) len = Some (int (min len (length b - off)), take len (drop off b))"
    and dispose_at: "queue r (A @ (p, b) # B) \<Longrightarrow> \<exists>r'. dispose r p = Some r' \<and> queue r' (A @ B)"
begin

text \<open>Taking the packets at some positions out, one after the other.\<close>

primrec dispose_all :: "'r \<Rightarrow> nat list \<Rightarrow> 'r option" where
  "dispose_all r [] = Some r"
| "dispose_all r (p # ps) = Option.bind (dispose r p) (\<lambda>r1. dispose_all r1 ps)"

lemma dispose_prefix:
  "queue r (A @ map f xs @ B) \<Longrightarrow> \<exists>r'. dispose_all r (map (fst \<circ> f) xs) = Some r' \<and> queue r' (A @ B)"
proof (induction xs arbitrary: r)
  case (Cons x xs)
  obtain p b where x: "f x = (p, b)" by fastforce
  then have "queue r (A @ (p, b) # map f xs @ B)" using Cons.prems by simp
  from dispose_at [OF this] obtain r1 where r1: "dispose r p = Some r1" "queue r1 (A @ map f xs @ B)" by blast
  from Cons.IH [OF r1(2)] show ?case using r1(1) x by auto
qed simp

text \<open>A packet can be taken out without disturbing the way through the others.\<close>

lemma dispose_keeps_next:
  assumes "queue r (A @ (p, b) # B @ (q, c) # C)"
  shows "\<exists>r'. dispose r p = Some r' \<and> next_pkt r' (Some q) = next_pkt r (Some q)"
proof -
  obtain r' where r': "dispose r p = Some r'" "queue r' (A @ B @ (q, c) # C)"
    using dispose_at [of r A p b "B @ (q, c) # C"] assms by auto
  have "next_pkt r (Some q) = Some (queue_head C)" using next_after [of r "A @ (p, b) # B" q c C] assms by simp
  moreover have "next_pkt r' (Some q) = Some (queue_head C)" using next_after [of r' "A @ B" q c C] r'(2) by simp
  ultimately show ?thesis using r'(1) by simp
qed

text \<open>The first bytes of a packet.\<close>

lemma read_start:
  assumes "queue r (A @ (p, b) # B)" "n \<le> length b"
  shows "read_pkt r p 0 n = Some (int n, take n b)"
  using read_at [OF assms(1), of 0 n] assms(2) by simp

end

subsection \<open>The ring buffer as a queue\<close>

definition ready_at :: "pkt list \<Rightarrow> nat list" where
  "ready_at ps = filter (\<lambda>j. fst (ps ! j) = PKT_READY) [0..<length ps]"

definition rb_queue :: "ringbuf \<Rightarrow> queued list \<Rightarrow> bool" where
  "rb_queue r Q \<longleftrightarrow> (\<exists>ps. rb_pkts r ps \<and> Q = map (\<lambda>j. (pkt_pos r ps j, snd (ps ! j))) (ready_at ps))"

lemma find_filter: "find P xs = (case filter P xs of [] \<Rightarrow> None | x # _ \<Rightarrow> Some x)"
  by (induction xs) auto

lemma queue_head_ready:
  "map_option (\<lambda>j. (pkt_pos r ps j, length (snd (ps ! j)))) (case js of [] \<Rightarrow> None | j # _ \<Rightarrow> Some j) =
    queue_head (map (\<lambda>j. (pkt_pos r ps j, snd (ps ! j))) js)"
  by (cases js) simp_all

text \<open>The packets around one that can be read.\<close>

definition ready_around :: "pkt list \<Rightarrow> nat list \<Rightarrow> nat \<Rightarrow> nat list \<Rightarrow> bool" where
  "ready_around ps js k ks \<longleftrightarrow> k < length ps \<and> filter (\<lambda>j. fst (ps ! j) = PKT_READY) [0..<k] = js \<and>
     filter (\<lambda>j. fst (ps ! j) = PKT_READY) [Suc k..<length ps] = ks"

lemma upt_around: "k < n \<Longrightarrow> [0..<n] = [0..<k] @ k # [Suc k..<n]"
  by (metis less_imp_add_positive upt_add_eq_append upt_conv_Cons zero_le)

lemma distinct_around:
  assumes "distinct (as @ x # bs)" "as @ x # bs = cs @ x # ds"
  shows "cs = as \<and> ds = bs"
proof -
  have "x \<notin> set as" "x \<notin> set bs" using assms(1) by auto
  from append_Cons_eq_iff [OF this, of cs ds] assms(2) show ?thesis by simp
qed

lemma ready_split:
  assumes "map f (ready_at ps) = A @ x # B"
  shows "\<exists>js k ks. ready_around ps js k ks \<and> map f js = A \<and> f k = x \<and> map f ks = B"
proof -
  obtain js k ks where s: "ready_at ps = js @ k # ks" "map f js = A" "f k = x" "map f ks = B"
    using assms by (auto simp: map_eq_append_conv map_eq_Cons_conv)
  have "k \<in> set (ready_at ps)" using s(1) by simp
  then have k: "k < length ps" "fst (ps ! k) = PKT_READY" by (auto simp: ready_at_def)
  let ?P = "\<lambda>j. fst (ps ! j) = PKT_READY"
  have "ready_at ps = filter ?P [0..<k] @ k # filter ?P [Suc k..<length ps]"
    unfolding ready_at_def upt_around [OF k(1)] using k(2) by simp
  moreover have "distinct (ready_at ps)" by (simp add: ready_at_def)
  ultimately have "filter ?P [0..<k] = js \<and> filter ?P [Suc k..<length ps] = ks"
    using distinct_around [of js k ks] s(1) by simp
  with s k show ?thesis unfolding ready_around_def by blast
qed

lemma rb_queueI:
  "rb_pkts r ps \<Longrightarrow> map (\<lambda>j. (pkt_pos r ps j, snd (ps ! j))) (ready_at ps) = Q \<Longrightarrow> rb_queue r Q"
  unfolding rb_queue_def by blast

lemma rb_queueE:
  assumes "rb_queue r (A @ (p, b) # B)"
  obtains ps js k ks where "rb_pkts r ps" "k < length ps" "pkt_pos r ps k = p" "snd (ps ! k) = b"
    "map (\<lambda>j. (pkt_pos r ps j, snd (ps ! j))) js = A" "map (\<lambda>j. (pkt_pos r ps j, snd (ps ! j))) ks = B"
    "filter (\<lambda>j. fst (ps ! j) = PKT_READY) [0..<k] = js"
    "filter (\<lambda>j. fst (ps ! j) = PKT_READY) [Suc k..<length ps] = ks"
proof -
  obtain ps where ps: "rb_pkts r ps" "A @ (p, b) # B = map (\<lambda>j. (pkt_pos r ps j, snd (ps ! j))) (ready_at ps)"
    using assms unfolding rb_queue_def by blast
  from ready_split [OF ps(2) [symmetric]] show thesis using that [OF ps(1)] unfolding ready_around_def by blast
qed

lemma rb_next_first: "rb_queue r Q \<Longrightarrow> dvb_ringbuffer_pkt_next r None = Some (queue_head Q)"
  by (auto simp: rb_queue_def pkt_next_first find_filter queue_head_ready ready_at_def)

lemma rb_next_after:
  assumes "rb_queue r (A @ (p, b) # B)"
  shows "dvb_ringbuffer_pkt_next r (Some p) = Some (queue_head B)"
  using assms
proof (rule rb_queueE)
  fix ps js k ks
  assume k: "rb_pkts r ps" "k < length ps" "pkt_pos r ps k = p" "map (\<lambda>j. (pkt_pos r ps j, snd (ps ! j))) ks = B"
    "filter (\<lambda>j. fst (ps ! j) = PKT_READY) [Suc k..<length ps] = ks"
  show ?thesis using pkt_next_after [OF k(1,2)] unfolding k(3) find_filter k(5) queue_head_ready k(4) .
qed

lemma rb_read_at:
  assumes "rb_queue r (A @ (p, b) # B)" "off \<le> length b"
  shows "dvb_ringbuffer_pkt_read r p (int off) len = Some (int (min len (length b - off)), take len (drop off b))"
  using assms(1)
proof (rule rb_queueE)
  fix ps k
  assume k: "rb_pkts r ps" "k < length ps" "pkt_pos r ps k = p" "snd (ps ! k) = b"
  show ?thesis using pkt_read [OF k(1,2), of off len] assms(2) unfolding k(3,4) by simp
qed

text \<open>Removing: the packets that stay keep their positions.\<close>

lemma rb_clean_unfold:
  assumes "rb_pkts r ps"
  shows "\<exists>r' m. rb_clean r = Some r' \<and> rb_pkts r' (drop m ps) \<and> m \<le> length ps \<and> rb_size r' = rb_size r \<and>
    rb_pread r' = (rb_pread r + pkt_off ps m) mod rb_size r \<and> (\<forall>p \<in> set (take m ps). fst p = PKT_DISPOSED)"
  using assms
proof (induction ps arbitrary: r)
  case Nil
  then have "dvb_ringbuffer_avail r = 0" "rb_pread r < rb_size r"
    using pkt_off_all [OF Nil] avail_eq_used by (simp_all add: rb_pkts_def rb_wf_def)
  with Nil show ?case by (intro exI [of _ r] exI [of _ 0]) (simp add: rb_clean.simps)
next
  case (Cons p ps)
  have wf: "rb_wf r" using Cons.prems by (simp add: rb_pkts_def)
  then have pread: "rb_pread r < rb_size r" by (simp add: rb_wf_def)
  have b: "pkt_off (p # ps) 0 + length (snd p) + 3 \<le> rb_used r"
    using pkt_off_bound [OF Cons.prems, of 0] by simp
  have more: "dvb_ringbuffer_avail r > int PKTHDRSIZE"
    using b pkt_ok_pos [OF rb_pkts_ok [OF Cons.prems, of 0]] unfolding avail_eq_used [OF wf]
    by simp
  have peek: "DVB_RINGBUFFER_PEEK r j = Some (pkt_enc p ! j)" if "j < 3" for j
    using pkt_byte [OF Cons.prems, of 0 j] that by (simp add: DVB_RINGBUFFER_PEEK_def)
  have len: "unat (pkt_enc p ! 0) * 256 + unat (pkt_enc p ! 1) = length (snd p)"
    using byte_pair [of "length (snd p)"] rb_pkts_ok [OF Cons.prems, of 0]
    by (simp add: pkt_enc_def pkt_ok_def)
  let ?r = "DVB_RINGBUFFER_SKIP r (length (snd p) + 3)"
  have step: "rb_clean r = (if fst p = PKT_DISPOSED then rb_clean ?r else Some r)"
    using more peek len by (subst rb_clean.simps) (simp add: pkt_enc_def)
  show ?case
  proof (cases "fst p = PKT_DISPOSED")
    case True
    have "rb_pkts ?r ps"
      using skip_contents [OF wf, of "length (snd p) + 3"] b Cons.prems by (simp add: rb_pkts_def)
    from Cons.IH [OF this] obtain r' m where r': "rb_clean ?r = Some r'" "rb_pkts r' (drop m ps)" "m \<le> length ps"
      "rb_size r' = rb_size r" "rb_pread r' = (rb_pread ?r + pkt_off ps m) mod rb_size r"
      "\<forall>p \<in> set (take m ps). fst p = PKT_DISPOSED"
      by (auto simp: DVB_RINGBUFFER_SKIP_def)
    have "pkt_off (p # ps) (Suc m) = length (snd p) + 3 + pkt_off ps m" by (simp add: pkt_off_def)
    then have "rb_pread r' = (rb_pread r + pkt_off (p # ps) (Suc m)) mod rb_size r"
      using r'(5) by (simp add: DVB_RINGBUFFER_SKIP_def mod_add_left_eq add.assoc)
    then show ?thesis using r' True step by (intro exI [of _ r'] exI [of _ "Suc m"]) simp
  next
    case False
    then show ?thesis using step Cons.prems pread by (intro exI [of _ r] exI [of _ 0]) simp
  qed
qed

lemma ready_drop:
  assumes "\<forall>p \<in> set (take m ps). fst p = PKT_DISPOSED" "m \<le> length ps"
  shows "ready_at ps = map (\<lambda>j. j + m) (ready_at (drop m ps))"
proof -
  let ?P = "\<lambda>j. fst (ps ! j) = PKT_READY"
  have "filter ?P [0..<m] = []"
  proof -
    have "fst (ps ! j) = PKT_DISPOSED" if "j < m" for j
    proof -
      have "take m ps ! j \<in> set (take m ps)" by (rule nth_mem) (use that assms(2) in simp)
      then show ?thesis using assms(1) that by simp
    qed
    then show ?thesis by (simp add: filter_empty_conv)
  qed
  moreover have "[0..<length ps] = [0..<m] @ map (\<lambda>j. j + m) [0..<length (drop m ps)]"
    using assms(2) upt_add_eq_append [of 0 m "length ps - m"] by (simp add: map_add_upt)
  ultimately show ?thesis using assms(2) by (simp add: ready_at_def filter_map comp_def add.commute)
qed

lemma rb_dispose_at:
  assumes "rb_queue r (A @ (p, b) # B)"
  shows "\<exists>r'. dvb_ringbuffer_pkt_dispose r p = Some r' \<and> rb_queue r' (A @ B) \<and> rb_size r' = rb_size r"
proof -
  obtain ps js k ks where ps: "rb_pkts r ps" and k:
    "k < length ps" "pkt_pos r ps k = p" "snd (ps ! k) = b"
    "map (\<lambda>j. (pkt_pos r ps j, snd (ps ! j))) js = A" "map (\<lambda>j. (pkt_pos r ps j, snd (ps ! j))) ks = B"
    "filter (\<lambda>j. fst (ps ! j) = PKT_READY) [0..<k] = js"
    "filter (\<lambda>j. fst (ps ! j) = PKT_READY) [Suc k..<length ps] = ks"
    by (rule rb_queueE [OF assms]) blast
  have wf: "rb_wf r" and n: "0 < rb_size r" "length (rb_data r) = rb_size r"
    using ps by (auto simp: rb_pkts_def rb_wf_def)
  have i: "pkt_off ps k + 2 < rb_used r" using pkt_off_bound [OF ps k(1)] by simp
  let ?j = "(rb_pread r + (pkt_off ps k + 2)) mod rb_size r"
  let ?r = "r\<lparr>rb_data := (rb_data r)[?j := PKT_DISPOSED]\<rparr>" and ?ps = "ps[k := (PKT_DISPOSED, snd (ps ! k))]"
  have "pkt_ok (PKT_DISPOSED, snd (ps ! k))" using rb_pkts_ok [OF ps k(1)] by (simp add: pkt_ok_def)
  then have "list_all pkt_ok ?ps"
    using ps by (auto simp: rb_pkts_def list_all_iff dest: set_update_subset_insert [THEN subsetD])
  then have r1: "rb_pkts ?r ?ps"
    using set_byte_contents [OF wf i, of PKT_DISPOSED] ps pkts_enc_mark [OF k(1), of PKT_DISPOSED]
    by (simp add: rb_pkts_def)
  obtain r' m where r': "rb_clean ?r = Some r'" "rb_pkts r' (drop m ?ps)" "m \<le> length ?ps" "rb_size r' = rb_size r"
    "rb_pread r' = (rb_pread r + pkt_off ?ps m) mod rb_size r" "\<forall>p \<in> set (take m ?ps). fst p = PKT_DISPOSED"
    using rb_clean_unfold [OF r1] by auto
  have "dvb_ringbuffer_pkt_dispose r p = Some r'"
    using r'(1) k(2) n pos_shift [of r ps k 2] by (auto simp: dvb_ringbuffer_pkt_dispose_def memcpy_one)
  moreover have ready: "ready_at ?ps = js @ ks"
  proof -
    have "filter (\<lambda>j. fst (?ps ! j) = PKT_READY) [0..<k] = js"
      by (subst k(6) [symmetric]) (rule filter_cong, simp_all)
    moreover have "filter (\<lambda>j. fst (?ps ! j) = PKT_READY) [Suc k..<length ps] = ks"
      by (subst k(7) [symmetric]) (rule filter_cong, simp_all)
    ultimately show ?thesis using k(1) by (simp add: ready_at_def upt_around)
  qed
  have same: "snd (?ps ! j) = snd (ps ! j)" for j using k(1) by (cases "j = k") simp_all
  have offs: "pkt_off ?ps j = pkt_off ps j" for j
  proof -
    have "map (length \<circ> pkt_enc) (take j ?ps) = map (length \<circ> pkt_enc) (take j ps)"
      by (rule nth_equalityI) (simp_all add: same)
    then show ?thesis by (simp add: pkt_off_def pkts_enc_def length_concat flip: map_map)
  qed
  have pos: "pkt_pos r' (drop m ?ps) j = pkt_pos r ps (j + m)" for j
  proof -
    have "pkt_off ?ps (m + j) = pkt_off ?ps m + pkt_off (drop m ?ps) j"
      by (simp add: pkt_off_def take_add)
    then show ?thesis using r'(4,5) offs [of "m + j"]
      by (simp add: pkt_pos_def mod_add_left_eq add.assoc add.commute [of j])
  qed
  have "map (\<lambda>j. (pkt_pos r' (drop m ?ps) j, snd (drop m ?ps ! j))) (ready_at (drop m ?ps)) = A @ B"
  proof -
    have "A @ B = map (\<lambda>j. (pkt_pos r ps j, snd (?ps ! j))) (ready_at ?ps)"
      using k(4,5) by (simp add: ready same)
    also have "\<dots> = map (\<lambda>j. (pkt_pos r ps (j + m), snd (?ps ! (j + m)))) (ready_at (drop m ?ps))"
      unfolding ready_drop [OF r'(6,3)] by simp
    also have "\<dots> = map (\<lambda>j. (pkt_pos r' (drop m ?ps) j, snd (drop m ?ps ! j))) (ready_at (drop m ?ps))"
      using r'(3) by (simp add: pos add.commute)
    finally show ?thesis by simp
  qed
  then have "rb_queue r' (A @ B)" by (rule rb_queueI [OF r'(2)])
  ultimately show ?thesis using r'(4) by blast
qed

lemma rb_dispose_queue:
  "rb_queue r (A @ (p, b) # B) \<Longrightarrow> \<exists>r'. dvb_ringbuffer_pkt_dispose r p = Some r' \<and> rb_queue r' (A @ B)"
  using rb_dispose_at by blast

interpretation rxq: packet_queue rb_queue dvb_ringbuffer_pkt_next dvb_ringbuffer_pkt_read dvb_ringbuffer_pkt_dispose
  by unfold_locales (fact rb_next_first rb_next_after rb_read_at rb_dispose_queue)+

text \<open>A packet that arrives comes last.\<close>

lemma rb_put_queue:
  assumes "rb_queue r Q" "0 < length bs" "length bs < 65536" "rb_used r + length bs + 3 < rb_size r"
  shows "\<exists>r' p. dvb_ringbuffer_pkt_write r bs = Some (r', int (length bs)) \<and> rb_queue r' (Q @ [(p, bs)]) \<and>
    rb_size r' = rb_size r"
proof -
  obtain ps where ps: "rb_pkts r ps" "Q = map (\<lambda>j. (pkt_pos r ps j, snd (ps ! j))) (ready_at ps)"
    using assms(1) unfolding rb_queue_def by blast
  obtain r' where r': "dvb_ringbuffer_pkt_write r bs = Some (r', int (length bs))"
    "rb_pkts r' (ps @ [(PKT_READY, bs)])" "rb_pread r' = rb_pread r" "rb_size r' = rb_size r"
    using pkt_write [OF ps(1) _ assms(4)] assms(2,3) by (auto simp: pkt_ok_def)
  have "ready_at (ps @ [(PKT_READY, bs)]) = ready_at ps @ [length ps]"
    by (simp add: ready_at_def) (rule filter_cong, simp_all add: nth_append)
  moreover have "(pkt_pos r' (ps @ [(PKT_READY, bs)]) j, snd ((ps @ [(PKT_READY, bs)]) ! j)) = (pkt_pos r ps j, snd (ps ! j))"
    if "j \<in> set (ready_at ps)" for j
    using that r'(3,4) by (simp add: ready_at_def pkt_pos_def pkt_off_def nth_append)
  ultimately have "map (\<lambda>j. (pkt_pos r' (ps @ [(PKT_READY, bs)]) j, snd ((ps @ [(PKT_READY, bs)]) ! j)))
      (ready_at (ps @ [(PKT_READY, bs)])) = Q @ [(pkt_pos r' (ps @ [(PKT_READY, bs)]) (length ps), bs)]"
    using ps(2) by (simp cong: map_cong)
  then have "rb_queue r' (Q @ [(pkt_pos r' (ps @ [(PKT_READY, bs)]) (length ps), bs)])"
    by (rule rb_queueI [OF r'(2)])
  then show ?thesis using r'(1,4) by blast
qed

end
