(* ===== verification/CamSlot.thy ===== *)
theory CamSlot
  imports PacketQueue
begin

text \<open>
  The slots of an EN50221 CAM interface (neumo-dvb-ca-en50221.c, up to the interrupt
  handlers): the register interface of a slot, the link layer, and the tuples in the attribute
  memory of a module.

  The driver of the interface (\<open>struct dvb_ca_en50221\<close>) is a record of functions on the state
  \<open>'w\<close> of the hardware; the clock is part of that state.  Each function of the code is a
  function on the whole state, which has the slots and the hardware; \<^const>\<open>None\<close> is an access
  outside an array or a missing callback.  A slot is worked on under its lock, so that a call
  is one step.  \<open>jiffies\<close> does not wrap.
\<close>

subsection \<open>State\<close>

abbreviation (input) CTRLIF_DATA :: nat where "CTRLIF_DATA \<equiv> 0"
abbreviation (input) CTRLIF_COMMAND :: nat where "CTRLIF_COMMAND \<equiv> 1"
abbreviation (input) CTRLIF_STATUS :: nat where "CTRLIF_STATUS \<equiv> 1"
abbreviation (input) CTRLIF_SIZE_LOW :: nat where "CTRLIF_SIZE_LOW \<equiv> 2"
abbreviation (input) CTRLIF_SIZE_HIGH :: nat where "CTRLIF_SIZE_HIGH \<equiv> 3"

abbreviation (input) CMDREG_HC :: byte where "CMDREG_HC \<equiv> 1"
abbreviation (input) CMDREG_SW :: byte where "CMDREG_SW \<equiv> 2"
abbreviation (input) CMDREG_SR :: byte where "CMDREG_SR \<equiv> 4"
abbreviation (input) CMDREG_RS :: byte where "CMDREG_RS \<equiv> 8"
abbreviation (input) IRQEN :: byte where "IRQEN \<equiv> 0x80"

abbreviation (input) STATUSREG_RE :: int where "STATUSREG_RE \<equiv> 1"
abbreviation (input) STATUSREG_WE :: int where "STATUSREG_WE \<equiv> 2"
abbreviation (input) STATUSREG_FR :: int where "STATUSREG_FR \<equiv> 0x40"
abbreviation (input) STATUSREG_DA :: int where "STATUSREG_DA \<equiv> 0x80"

abbreviation (input) HOST_LINK_BUF_SIZE :: nat where "HOST_LINK_BUF_SIZE \<equiv> 0x200"
abbreviation (input) RX_BUFFER_SIZE :: nat where "RX_BUFFER_SIZE \<equiv> 65535"

datatype slot_state = SLOT_NONE | SLOT_UNINITIALISED | SLOT_RUNNING | SLOT_INVALID | SLOT_WAITREADY
  | SLOT_VALIDATE | SLOT_WAITFR | SLOT_LINKINIT

datatype camchange = CAMCHANGE_REMOVED | CAMCHANGE_INSERTED

text \<open>The receive buffer of a slot is \<^const>\<open>None\<close> until it is allocated.\<close>

record ca_slot =
  slot_state :: slot_state
  camchange_count :: int
  camchange_type :: camchange
  config_base :: u32
  config_option :: byte
  da_irq_supported :: bool
  link_buf_size :: int
  rx_buffer :: "ringbuf option"
  sl_timeout :: int

abbreviation (input) FLAG_IRQ_CAMCHANGE :: u32 where "FLAG_IRQ_CAMCHANGE \<equiv> 1"
abbreviation (input) FLAG_IRQ_DA :: u32 where "FLAG_IRQ_DA \<equiv> 4"

record 'w ca =
  ca_refcount :: nat
  ca_flags :: u32
  slot_info :: "ca_slot list"
  ca_open :: bool
  ca_wakeup :: bool
  ca_delay :: int
  next_read_slot :: nat
  ca_exit :: bool
  hw :: 'w

text \<open>The callbacks; those that may be missing are optional.\<close>

record 'w ca_driver =
  read_attribute_mem :: "nat \<Rightarrow> int \<Rightarrow> 'w \<Rightarrow> int \<times> 'w"
  write_attribute_mem :: "nat \<Rightarrow> int \<Rightarrow> byte \<Rightarrow> 'w \<Rightarrow> int \<times> 'w"
  read_cam_control :: "nat \<Rightarrow> nat \<Rightarrow> 'w \<Rightarrow> int \<times> 'w"
  write_cam_control :: "nat \<Rightarrow> nat \<Rightarrow> byte \<Rightarrow> 'w \<Rightarrow> int \<times> 'w"
  drv_read_data :: "(nat \<Rightarrow> nat \<Rightarrow> 'w \<Rightarrow> (int \<times> byte list) \<times> 'w) option"
  drv_write_data :: "(nat \<Rightarrow> byte list \<Rightarrow> 'w \<Rightarrow> int \<times> 'w) option"
  slot_reset :: "nat \<Rightarrow> 'w \<Rightarrow> 'w"
  slot_shutdown :: "nat \<Rightarrow> 'w \<Rightarrow> 'w"
  slot_ts_enable :: "nat \<Rightarrow> 'w \<Rightarrow> 'w"
  poll_slot_status :: "(nat \<Rightarrow> bool \<Rightarrow> 'w \<Rightarrow> int \<times> 'w) option"
  usleep :: "'w \<Rightarrow> 'w"
  jiffies :: "'w \<Rightarrow> int"
  HZ :: int

definition upd_sl :: "nat \<Rightarrow> (ca_slot \<Rightarrow> ca_slot) \<Rightarrow> 'w ca \<Rightarrow> 'w ca" where
  "upd_sl slot f ca = ca\<lparr>slot_info := (slot_info ca)[slot := f (slot_info ca ! slot)]\<rparr>"

definition set_state :: "nat \<Rightarrow> slot_state \<Rightarrow> 'w ca \<Rightarrow> 'w ca" where
  "set_state slot s = upd_sl slot (\<lambda>sl. sl\<lparr>slot_state := s\<rparr>)"

text \<open>An access to the hardware.\<close>

definition on_hw :: "('w \<Rightarrow> 'r \<times> 'w) \<Rightarrow> 'w ca \<Rightarrow> 'r \<times> 'w ca" where
  "on_hw f ca = (let (r, w) = f (hw ca) in (r, ca\<lparr>hw := w\<rparr>))"

definition hw_do :: "('w \<Rightarrow> 'w) \<Rightarrow> 'w ca \<Rightarrow> 'w ca" where
  "hw_do f ca = ca\<lparr>hw := f (hw ca)\<rparr>"

definition now :: "'w ca_driver \<Rightarrow> 'w ca \<Rightarrow> int" where
  "now drv ca = jiffies drv (hw ca)"

definition thread_wakeup :: "'w ca \<Rightarrow> 'w ca" where
  "thread_wakeup ca = ca\<lparr>ca_wakeup := True\<rparr>"

subsection \<open>Strings\<close>

text \<open>The offset at which \<open>needle\<close> is found; the strings searched for contain no zero.\<close>

definition findstr :: "byte list \<Rightarrow> byte list \<Rightarrow> nat option" where
  "findstr haystack needle =
     (if length haystack < length needle then None
      else find (\<lambda>i. take (length needle) (drop i haystack) = needle) [0..<length haystack - length needle + 1])"

subsection \<open>Status of the slot\<close>

text \<open>Whether the CAM has changed.\<close>

definition check_camstatus :: "'w ca_driver \<Rightarrow> 'w ca \<Rightarrow> nat \<Rightarrow> ('w ca \<times> bool) option" where
  "check_camstatus drv ca slot =
     (let sl = slot_info ca ! slot
      in if ca_flags ca AND FLAG_IRQ_CAMCHANGE \<noteq> 0 then Some (ca, camchange_count sl \<noteq> 0)
         else case poll_slot_status drv of
             None \<Rightarrow> None
           | Some poll \<Rightarrow>
               let (st, ca1) = on_hw (poll slot (ca_open ca)) ca;
                   present = bit st 0;
                   changed = (bit st 1 \<or> present \<noteq> (slot_state sl \<noteq> SLOT_NONE))
               in Some (if changed
                 then (upd_sl slot (\<lambda>sl. sl\<lparr>camchange_type := (if present then CAMCHANGE_INSERTED else CAMCHANGE_REMOVED),
                         camchange_count := 1\<rparr>) ca1, True)
                 else if slot_state sl = SLOT_WAITREADY \<and> bit st 2 then (set_state slot SLOT_VALIDATE ca1, False)
                 else (ca1, False)))"

text \<open>
  Waiting for a flag of the status register.  A turn of the loop is a unit of \<open>fuel\<close>; without
  fuel the loop is still running.
\<close>

fun wait_if_status_loop ::
    "nat \<Rightarrow> 'w ca_driver \<Rightarrow> 'w ca \<Rightarrow> nat \<Rightarrow> int \<Rightarrow> int \<Rightarrow> ('w ca \<times> int) option" where
  "wait_if_status_loop 0 drv ca slot waitfor timeout = None"
| "wait_if_status_loop (Suc n) drv ca slot waitfor timeout =
     (let (res, ca1) = on_hw (read_cam_control drv slot CTRLIF_STATUS) ca
      in if res < 0 then Some (ca1, - EIO)
         else if res AND waitfor \<noteq> 0 then Some (ca1, 0)
         else if now drv ca1 > timeout then Some (ca1, - ETIMEDOUT)
         else wait_if_status_loop n drv (hw_do (usleep drv) ca1) slot waitfor timeout)"

definition wait_if_status :: "nat \<Rightarrow> 'w ca_driver \<Rightarrow> 'w ca \<Rightarrow> nat \<Rightarrow> int \<Rightarrow> int \<Rightarrow> ('w ca \<times> int) option" where
  "wait_if_status n drv ca slot waitfor timeout_hz = wait_if_status_loop n drv ca slot waitfor (now drv ca + timeout_hz)"

subsection \<open>Reading from a CAM\<close>

text \<open>The bytes of a packet from the data register, or the error.\<close>

fun read_bytes :: "'w ca_driver \<Rightarrow> nat \<Rightarrow> nat \<Rightarrow> 'w ca \<Rightarrow> (int + byte list) \<times> 'w ca" where
  "read_bytes drv slot 0 ca = (Inr [], ca)"
| "read_bytes drv slot (Suc n) ca =
     (let (st, ca1) = on_hw (read_cam_control drv slot CTRLIF_DATA) ca
      in if st < 0 then (Inl st, ca1)
         else let (r, ca2) = read_bytes drv slot n ca1
              in (map_sum id (\<lambda>bs. word_of_int st # bs) r, ca2))"

text \<open>The room for a packet in the receive buffer, or in the buffer of the caller.\<close>

definition read_space :: "ca_slot \<Rightarrow> nat option \<Rightarrow> int option" where
  "read_space sl ebuf =
     (case ebuf of
        Some _ \<Rightarrow> None
      | None \<Rightarrow> (case rx_buffer sl of
          None \<Rightarrow> Some (- EIO)
        | Some rb \<Rightarrow> if dvb_ringbuffer_free rb < link_buf_size sl + int PKTHDRSIZE then Some (- EAGAIN) else None))"

text \<open>The bytes and the check afterwards; the buffer has 512 bytes.\<close>

definition read_fill :: "'w ca_driver \<Rightarrow> 'w ca \<Rightarrow> nat \<Rightarrow> nat \<Rightarrow> ('w ca \<times> (int + byte list)) option" where
  "read_fill drv ca slot n =
     (if n > HOST_LINK_BUF_SIZE then None
      else let (r, ca1) = read_bytes drv slot n ca
           in case r of
                Inl st \<Rightarrow> Some (ca1, Inl st)
              | Inr bs \<Rightarrow>
                  let (st, ca2) = on_hw (read_cam_control drv slot CTRLIF_STATUS) ca1
                  in Some (if st < 0 then (ca2, Inl st)
                       else if st AND STATUSREG_RE \<noteq> 0 then (set_state slot SLOT_LINKINIT ca2, Inl (- EIO))
                       else (ca2, Inr bs)))"

text \<open>Reading the bytes through the registers; \<open>Inl\<close> is the status with which the read ends.\<close>

definition read_regs :: "'w ca_driver \<Rightarrow> 'w ca \<Rightarrow> nat \<Rightarrow> nat option \<Rightarrow> ('w ca \<times> (int + byte list)) option" where
  "read_regs drv ca slot ebuf =
     (let sl = slot_info ca ! slot;
          (st, ca1) = on_hw (read_cam_control drv slot CTRLIF_STATUS) ca
      in if st < 0 then Some (ca1, Inl st)
         else if st AND STATUSREG_DA = 0 then Some (ca1, Inl 0)
         else let (hi, ca2) = on_hw (read_cam_control drv slot CTRLIF_SIZE_HIGH) ca1
              in if hi < 0 then Some (ca2, Inl hi)
                 else let (lo, ca3) = on_hw (read_cam_control drv slot CTRLIF_SIZE_LOW) ca2
                      in if lo < 0 then Some (ca3, Inl lo)
                         else let n = (hi * 256) OR lo
                              in (case ebuf of
                                    None \<Rightarrow> if n > link_buf_size sl \<or> n < 2
                                      then Some (set_state slot SLOT_LINKINIT ca3, Inl (- EIO)) else read_fill drv ca3 slot (nat n)
                                  | Some ecount \<Rightarrow> if n > int ecount then Some (ca3, Inl (- EIO)) else read_fill drv ca3 slot (nat n)))"

text \<open>
  Reading through the callback of the driver, if it has one.  It fills the buffer and says how
  many bytes of it count.
\<close>

definition read_packet :: "'w ca_driver \<Rightarrow> 'w ca \<Rightarrow> nat \<Rightarrow> nat option \<Rightarrow> ('w ca \<times> (int + byte list)) option" where
  "read_packet drv ca slot ebuf =
     (case drv_read_data drv of
        Some rd \<Rightarrow>
          if slot_state (slot_info ca ! slot) = SLOT_LINKINIT then read_regs drv ca slot ebuf
          else let ((st, bs), ca1) = on_hw (rd slot (case ebuf of None \<Rightarrow> HOST_LINK_BUF_SIZE | Some n \<Rightarrow> n)) ca
               in if st \<le> 0 then Some (ca1, Inl st)
                  else if st > int (length bs) then None
                  else Some (ca1, Inr (take (nat st) bs))
      | None \<Rightarrow> read_regs drv ca slot ebuf)"

text \<open>\<open>ebuf\<close> is the size of the buffer of the caller, if there is one; the bytes for it are returned.\<close>

definition ca_read_data :: "'w ca_driver \<Rightarrow> 'w ca \<Rightarrow> nat \<Rightarrow> nat option \<Rightarrow> ('w ca \<times> int \<times> byte list) option" where
  "ca_read_data drv ca slot ebuf =
     (case read_space (slot_info ca ! slot) ebuf of
        Some err \<Rightarrow> Some (ca, err, [])
      | None \<Rightarrow> do {
          (ca1, r) \<leftarrow> read_packet drv ca slot ebuf;
          (case r of
             Inl st \<Rightarrow> Some (ca1, st, [])
           | Inr bs \<Rightarrow>
               (case ebuf of
                  Some _ \<Rightarrow> Some (ca1, int (length bs), bs)
                | None \<Rightarrow> (case rx_buffer (slot_info ca1 ! slot) of
                    None \<Rightarrow> Some (ca1, - EIO, [])
                  | Some rb \<Rightarrow> do {
                      (rb1, _) \<leftarrow> dvb_ringbuffer_pkt_write rb bs;
                      Some (upd_sl slot (\<lambda>sl. sl\<lparr>rx_buffer := Some rb1\<rparr>) ca1, int (length bs), []) }))) })"

subsection \<open>Writing to a CAM\<close>

fun write_bytes :: "'w ca_driver \<Rightarrow> nat \<Rightarrow> byte list \<Rightarrow> 'w ca \<Rightarrow> int \<times> 'w ca" where
  "write_bytes drv slot [] ca = (0, ca)"
| "write_bytes drv slot (b # bs) ca =
     (let (st, ca1) = on_hw (write_cam_control drv slot CTRLIF_DATA b) ca
      in if st \<noteq> 0 then (st, ca1) else write_bytes drv slot bs ca1)"

text \<open>What is done between setting and clearing the HC bit.\<close>

definition write_regs :: "'w ca_driver \<Rightarrow> 'w ca \<Rightarrow> nat \<Rightarrow> byte list \<Rightarrow> byte \<Rightarrow> 'w ca \<times> int" where
  "write_regs drv ca slot buf size_write_flag =
     (let (st, ca1) = on_hw (write_cam_control drv slot CTRLIF_COMMAND (IRQEN OR CMDREG_HC OR size_write_flag)) ca
      in if st \<noteq> 0 then (ca1, st)
         else let (st, ca2) = on_hw (read_cam_control drv slot CTRLIF_STATUS) ca1
              in if st < 0 then (ca2, st)
                 else if st AND STATUSREG_FR = 0 then (ca2, - EAGAIN)
                 else let (st, ca3) = on_hw (read_cam_control drv slot CTRLIF_STATUS) ca2
                      in if st < 0 then (ca3, st)
                         else if st AND (STATUSREG_DA OR STATUSREG_RE) \<noteq> 0
                         then (if st AND STATUSREG_DA \<noteq> 0 then thread_wakeup ca3 else ca3, - EAGAIN)
                         else let (st, ca4) = on_hw (write_cam_control drv slot CTRLIF_SIZE_HIGH (of_nat (length buf div 256))) ca3
                              in if st \<noteq> 0 then (ca4, st)
                                 else let (st, ca5) = on_hw (write_cam_control drv slot CTRLIF_SIZE_LOW (of_nat (length buf mod 256))) ca4
                                      in if st \<noteq> 0 then (ca5, st)
                                         else let (st, ca6) = write_bytes drv slot buf ca5
                                              in if st \<noteq> 0 then (ca6, st)
                                                 else let (st, ca7) = on_hw (read_cam_control drv slot CTRLIF_STATUS) ca6
                                                      in if st < 0 then (ca7, st)
                                                         else if st AND STATUSREG_WE \<noteq> 0
                                                         then (set_state slot SLOT_LINKINIT ca7, - EIO)
                                                         else (ca7, int (length buf)))"

definition ca_write_data :: "'w ca_driver \<Rightarrow> 'w ca \<Rightarrow> nat \<Rightarrow> byte list \<Rightarrow> byte \<Rightarrow> 'w ca \<times> int" where
  "ca_write_data drv ca slot buf size_write_flag =
     (let sl = slot_info ca ! slot
      in if int (length buf) > link_buf_size sl then (ca, - EINVAL)
         else if drv_write_data drv \<noteq> None \<and> slot_state sl \<noteq> SLOT_LINKINIT
         then prod.swap (on_hw (the (drv_write_data drv) slot buf) ca)
         else let (st, ca1) = on_hw (read_cam_control drv slot CTRLIF_STATUS) ca
              in if st < 0 then (ca1, st)
                 else if st AND (STATUSREG_DA OR STATUSREG_RE) \<noteq> 0
                 then (if st AND STATUSREG_DA \<noteq> 0 then thread_wakeup ca1 else ca1, - EAGAIN)
                 else let (ca2, r) = write_regs drv ca1 slot buf size_write_flag
                      in (snd (on_hw (write_cam_control drv slot CTRLIF_COMMAND IRQEN) ca2), r))"

subsection \<open>Negotiation of the link buffer\<close>

text \<open>A call whose result ends the function if it is not zero.\<close>

definition or_fail ::
    "('w ca \<times> int) option \<Rightarrow> ('w ca \<Rightarrow> ('w ca \<times> int) option) \<Rightarrow> ('w ca \<times> int) option" where
  "or_fail x f = Option.bind x (\<lambda>(ca, ret). if ret \<noteq> 0 then Some (ca, ret) else f ca)"

definition command :: "'w ca_driver \<Rightarrow> nat \<Rightarrow> byte \<Rightarrow> 'w ca \<Rightarrow> ('w ca \<times> int) option" where
  "command drv slot c ca = Some (prod.swap (on_hw (write_cam_control drv slot CTRLIF_COMMAND c) ca))"

definition ca_link_init :: "nat \<Rightarrow> 'w ca_driver \<Rightarrow> 'w ca \<Rightarrow> nat \<Rightarrow> ('w ca \<times> int) option" where
  "ca_link_init n drv ca slot =
     or_fail (command drv slot (IRQEN OR CMDREG_SR)
         (upd_sl slot (\<lambda>sl. sl\<lparr>da_irq_supported := False, link_buf_size := 2\<rparr>) ca)) (\<lambda>ca1.
     or_fail (wait_if_status n drv ca1 slot STATUSREG_DA (HZ drv)) (\<lambda>ca2. do {
       (ca3, ret, buf) \<leftarrow> ca_read_data drv ca2 slot (Some 2);
       if ret \<noteq> 2 then Some (ca3, - EIO)
       else or_fail (command drv slot IRQEN ca3) (\<lambda>ca4.
         let cam = unat (buf ! 0) * 256 + unat (buf ! 1);
             buf_size = (if cam > HOST_LINK_BUF_SIZE then HOST_LINK_BUF_SIZE else cam);
             ca5 = upd_sl slot (\<lambda>sl. sl\<lparr>link_buf_size := int buf_size\<rparr>) ca4
         in or_fail (command drv slot (IRQEN OR CMDREG_SW) ca5) (\<lambda>ca6.
            or_fail (wait_if_status n drv ca6 slot STATUSREG_FR (HZ drv div 10)) (\<lambda>ca7.
              let (ca8, ret) = ca_write_data drv ca7 slot [of_nat (buf_size div 256), of_nat (buf_size mod 256)] CMDREG_SW
              in if ret \<noteq> 2 then Some (ca8, - EIO)
                 else or_fail (command drv slot IRQEN ca8) (\<lambda>ca9. Some (ca9, 0))))) }))"

subsection \<open>Tuples in the attribute memory\<close>

text \<open>The bytes of a tuple, whatever reading them returns.\<close>

fun tuple_bytes :: "'w ca_driver \<Rightarrow> nat \<Rightarrow> int \<Rightarrow> nat \<Rightarrow> 'w ca \<Rightarrow> byte list \<times> 'w ca" where
  "tuple_bytes drv slot addr 0 ca = ([], ca)"
| "tuple_bytes drv slot addr (Suc n) ca =
     (let (b, ca1) = on_hw (read_attribute_mem drv slot addr) ca;
          (bs, ca2) = tuple_bytes drv slot (addr + 2) n ca1
      in (word_of_int b # bs, ca2))"

text \<open>
  The status, or the address after the tuple, its type and its bytes.  The buffer of the
  caller has 257 bytes.
\<close>

definition read_tuple ::
    "'w ca_driver \<Rightarrow> 'w ca \<Rightarrow> nat \<Rightarrow> int \<Rightarrow> ('w ca \<times> (int + int \<times> int \<times> byte list)) option" where
  "read_tuple drv ca slot address =
     (let (typ, ca1) = on_hw (read_attribute_mem drv slot address) ca
      in if typ < 0 then Some (ca1, Inl typ)
         else if typ = 0xff then Some (ca1, Inr (address + 2, typ, []))
         else let (len, ca2) = on_hw (read_attribute_mem drv slot (address + 2)) ca1
              in if len < 0 then Some (ca2, Inl len)
                 else if len > 257 then None
                 else let (bs, ca3) = tuple_bytes drv slot (address + 4) (nat len) ca2
                      in Some (ca3, Inr (address + 4 + 2 * len, typ, bs)))"

text \<open>A tuple that must have a certain type.\<close>

definition expect_tuple ::
    "'w ca_driver \<Rightarrow> nat \<Rightarrow> int \<Rightarrow> 'w ca \<Rightarrow> int \<Rightarrow> ('w ca \<Rightarrow> int \<Rightarrow> byte list \<Rightarrow> ('w ca \<times> int) option) \<Rightarrow> ('w ca \<times> int) option" where
  "expect_tuple drv slot typ ca address f =
     Option.bind (read_tuple drv ca slot address) (\<lambda>(ca1, r). case r of
         Inl st \<Rightarrow> Some (ca1, st)
       | Inr (address1, t, bs) \<Rightarrow> if t \<noteq> typ then Some (ca1, - EINVAL) else f ca1 address1 bs)"

text \<open>The strings that are looked for.\<close>

definition DVB_CI_V :: "byte list" where "DVB_CI_V = [0x44, 0x56, 0x42, 0x5f, 0x43, 0x49, 0x5f, 0x56]"
definition VERSION_1_00 :: "byte list" where "VERSION_1_00 = [0x31, 0x2e, 0x30, 0x30]"
definition DVB_HOST :: "byte list" where "DVB_HOST = [0x44, 0x56, 0x42, 0x5f, 0x48, 0x4f, 0x53, 0x54]"
definition DVB_CI_MODULE :: "byte list" where
  "DVB_CI_MODULE = [0x44, 0x56, 0x42, 0x5f, 0x43, 0x49, 0x5f, 0x4d, 0x4f, 0x44, 0x55, 0x4c, 0x45]"

text \<open>A table entry; the flag is \<open>got_cftableentry\<close>.\<close>

definition cftable_entry :: "nat \<Rightarrow> byte list \<Rightarrow> bool \<Rightarrow> 'w ca \<Rightarrow> 'w ca \<times> bool" where
  "cftable_entry slot bs got_entry ca =
     (if length bs < 2 + 11 + 17 \<or> got_entry then (ca, got_entry)
      else (upd_sl slot (\<lambda>sl. sl\<lparr>config_option := bs ! 0 AND 0x3f\<rparr>) ca,
            findstr bs DVB_HOST \<noteq> None \<and> findstr bs DVB_CI_MODULE \<noteq> None))"

lemma read_tuple_address:
  assumes "read_tuple drv ca slot address = Some (ca1, Inr (a, t, bs))"
  shows "address < a"
  using assms by (auto simp: read_tuple_def Let_def split: prod.splits if_splits)

text \<open>The entries up to the end of the chain or of the memory.\<close>

function cis_loop :: "'w ca_driver \<Rightarrow> nat \<Rightarrow> bool \<Rightarrow> bool \<Rightarrow> int \<Rightarrow> 'w ca \<Rightarrow> ('w ca \<times> (int + int \<times> bool)) option" where
  "cis_loop drv slot got_entry end_chain address ca =
     (if end_chain \<or> address \<ge> 0x1000 then Some (ca, Inr (address, got_entry))
      else case read_tuple drv ca slot address of
          None \<Rightarrow> None
        | Some (ca1, Inl st) \<Rightarrow> Some (ca1, Inl st)
        | Some (ca1, Inr (address1, t, bs)) \<Rightarrow>
            let (ca2, got_entry1) = (if t = 0x1B then cftable_entry slot bs got_entry ca1 else (ca1, got_entry))
            in cis_loop drv slot got_entry1 (t = 0xff) address1 ca2)"
  by pat_completeness auto
termination
  by (relation "measure (\<lambda>(drv, slot, got_entry, end_chain, address, ca). nat (0x1000 - address))")
    (auto dest: read_tuple_address)

declare cis_loop.simps [simp del]

definition config_base_of :: "byte list \<Rightarrow> u32" where
  "config_base_of bs = foldr (OR) (map (\<lambda>i. push_bit (8 * i) (ucast (bs ! (2 + i)))) [0..<unat (bs ! 0 AND 3) + 1]) 0"

definition parse_attributes :: "'w ca_driver \<Rightarrow> 'w ca \<Rightarrow> nat \<Rightarrow> ('w ca \<times> int) option" where
  "parse_attributes drv ca slot =
     expect_tuple drv slot 0x1D ca 0 (\<lambda>ca a _.
     expect_tuple drv slot 0x1C ca a (\<lambda>ca a _.
     expect_tuple drv slot 0x15 ca a (\<lambda>ca a _.
     expect_tuple drv slot 0x20 ca a (\<lambda>ca a manfid.
       if length manfid \<noteq> 4 then Some (ca, - EINVAL)
       else expect_tuple drv slot 0x1A ca a (\<lambda>ca a bs.
         if length bs < 3 then Some (ca, - EINVAL)
         else if length bs < 3 + unat (bs ! 0 AND 3) + 14 then Some (ca, - EINVAL)
         else let ca1 = upd_sl slot (\<lambda>sl. sl\<lparr>config_base := config_base_of bs\<rparr>) ca
              in case findstr bs DVB_CI_V of
                   None \<Rightarrow> Some (ca1, - EINVAL)
                 | Some i \<Rightarrow>
                     if length bs < i + 12 then Some (ca1, - EINVAL)
                     else if take 4 (drop (i + 8) bs) \<noteq> VERSION_1_00 then Some (ca1, - EINVAL)
                     else do {
                       (ca2, r) \<leftarrow> cis_loop drv slot False False a ca1;
                       Some (ca2, case r of Inl st \<Rightarrow> st
                         | Inr (address, got_entry) \<Rightarrow> if address > 0x1000 \<or> \<not> got_entry then - EINVAL else 0) })))))"

definition set_configoption :: "'w ca_driver \<Rightarrow> 'w ca \<Rightarrow> nat \<Rightarrow> 'w ca \<times> int" where
  "set_configoption drv ca slot =
     (let sl = slot_info ca ! slot; addr = uint (config_base sl);
          (_, ca1) = on_hw (write_attribute_mem drv slot addr (config_option sl)) ca;
          (_, ca2) = on_hw (read_attribute_mem drv slot addr) ca1
      in (ca2, 0))"

subsection \<open>Interrupts\<close>

definition ca_slot_shutdown :: "'w ca_driver \<Rightarrow> 'w ca \<Rightarrow> nat \<Rightarrow> 'w ca" where
  "ca_slot_shutdown drv ca slot = set_state slot SLOT_NONE (hw_do (slot_shutdown drv slot) ca)"

definition neumo_dvb_ca_en50221_camchange_irq :: "'w ca \<Rightarrow> nat \<Rightarrow> camchange \<Rightarrow> 'w ca" where
  "neumo_dvb_ca_en50221_camchange_irq ca slot change_type =
     thread_wakeup (upd_sl slot (\<lambda>sl. sl\<lparr>camchange_type := change_type, camchange_count := camchange_count sl + 1\<rparr>) ca)"

definition neumo_dvb_ca_en50221_camready_irq :: "'w ca \<Rightarrow> nat \<Rightarrow> 'w ca" where
  "neumo_dvb_ca_en50221_camready_irq ca slot =
     (if slot_state (slot_info ca ! slot) = SLOT_WAITREADY
      then thread_wakeup (set_state slot SLOT_VALIDATE ca) else ca)"

definition neumo_dvb_ca_en50221_frda_irq :: "'w ca_driver \<Rightarrow> 'w ca \<Rightarrow> nat \<Rightarrow> 'w ca" where
  "neumo_dvb_ca_en50221_frda_irq drv ca slot =
     (case slot_state (slot_info ca ! slot) of
        SLOT_LINKINIT \<Rightarrow>
          let (st, ca1) = on_hw (read_cam_control drv slot CTRLIF_STATUS) ca
          in if st AND STATUSREG_DA \<noteq> 0 then upd_sl slot (\<lambda>sl. sl\<lparr>da_irq_supported := True\<rparr>) ca1 else ca1
      | SLOT_RUNNING \<Rightarrow> if ca_open ca then thread_wakeup ca else ca
      | _ \<Rightarrow> ca)"

end
