(* ===== verification/CamIo.thy ===== *)
theory CamIo
  imports CamSlot
begin

text \<open>
  The thread and the device node of an EN50221 CAM interface (neumo-dvb-ca-en50221.c, from the
  thread on): the state machine of a slot, the ioctls, and the reads and writes that split
  messages into packets of the link layer and put them together again.
\<close>

subsection \<open>Delays\<close>

definition slot_delay :: "'w ca_driver \<Rightarrow> 'w ca \<Rightarrow> ca_slot \<Rightarrow> int" where
  "slot_delay drv ca sl =
     (let polled = (ca_flags ca AND FLAG_IRQ_CAMCHANGE = 0)
      in case slot_state sl of
           SLOT_NONE \<Rightarrow> if polled then HZ drv * 5 else HZ drv * 60
         | SLOT_INVALID \<Rightarrow> if polled then HZ drv div 10 else HZ drv * 60
         | SLOT_RUNNING \<Rightarrow>
             if ca_open ca \<and> (\<not> da_irq_supported sl \<or> ca_flags ca AND FLAG_IRQ_DA = 0) then HZ drv div 10
             else if polled then HZ drv div 10 else HZ drv * 60
         | _ \<Rightarrow> HZ drv div 10)"

definition thread_update_delay :: "'w ca_driver \<Rightarrow> 'w ca \<Rightarrow> 'w ca" where
  "thread_update_delay drv ca =
     ca\<lparr>ca_delay := foldl (\<lambda>cur sl. min cur (slot_delay drv ca sl)) 100000000 (slot_info ca)\<rparr>"

subsection \<open>The state machine of a slot\<close>

definition poll_cam_gone :: "'w ca_driver \<Rightarrow> 'w ca \<Rightarrow> nat \<Rightarrow> 'w ca \<times> bool" where
  "poll_cam_gone drv ca slot =
     (case poll_slot_status drv of
        Some poll \<Rightarrow>
          if ca_flags ca AND FLAG_IRQ_CAMCHANGE \<noteq> 0 then (ca, False)
          else let (st, ca1) = on_hw (poll slot False) ca
               in if bit st 0 then (ca1, False)
                  else (thread_update_delay drv (set_state slot SLOT_NONE ca1), True)
      | None \<Rightarrow> (ca, False))"

text \<open>The changes of the CAM; a turn of the loop is a unit of fuel.\<close>

fun camchange_loop :: "nat \<Rightarrow> 'w ca_driver \<Rightarrow> 'w ca \<Rightarrow> nat \<Rightarrow> 'w ca option" where
  "camchange_loop 0 drv ca slot = None"
| "camchange_loop (Suc n) drv ca slot = do {
     (ca1, changed) \<leftarrow> check_camstatus drv ca slot;
     (if \<not> changed then Some ca1
      else let ca2 = (if slot_state (slot_info ca1 ! slot) \<noteq> SLOT_NONE then ca_slot_shutdown drv ca1 slot else ca1);
               ca3 = (if camchange_type (slot_info ca2 ! slot) = CAMCHANGE_INSERTED
                      then set_state slot SLOT_UNINITIALISED ca2 else ca2);
               ca4 = upd_sl slot (\<lambda>sl. sl\<lparr>camchange_count := camchange_count sl - 1\<rparr>) (thread_update_delay drv ca3)
           in camchange_loop n drv ca4 slot) }"

text \<open>A slot that cannot be used.\<close>

definition give_up :: "'w ca_driver \<Rightarrow> nat \<Rightarrow> slot_state \<Rightarrow> 'w ca \<Rightarrow> 'w ca" where
  "give_up drv slot s ca = thread_update_delay drv (set_state slot s ca)"

abbreviation (input) INIT_TIMEOUT_SECS :: int where "INIT_TIMEOUT_SECS \<equiv> 10"
abbreviation (input) MAX_RX_PACKETS_PER_ITERATION :: nat where "MAX_RX_PACKETS_PER_ITERATION \<equiv> 10"

definition set_timeout :: "'w ca_driver \<Rightarrow> nat \<Rightarrow> 'w ca \<Rightarrow> 'w ca" where
  "set_timeout drv slot ca = upd_sl slot (\<lambda>sl. sl\<lparr>sl_timeout := now drv ca + INIT_TIMEOUT_SECS * HZ drv\<rparr>) ca"

text \<open>Packets, as many as the first argument says at most.\<close>

fun rx_loop :: "nat \<Rightarrow> 'w ca_driver \<Rightarrow> 'w ca \<Rightarrow> nat \<Rightarrow> 'w ca option" where
  "rx_loop 0 drv ca slot = Some ca"
| "rx_loop (Suc k) drv ca slot = do {
     (ca1, st, _) \<leftarrow> ca_read_data drv ca slot None;
     (if st \<le> 0 \<or> \<not> ca_open ca1 then Some ca1
      else do {
        (ca2, changed) \<leftarrow> check_camstatus drv ca1 slot;
        (if changed \<or> k = 0 then Some (ca2\<lparr>ca_wakeup := True\<rparr>) else rx_loop k drv ca2 slot) }) }"

text \<open>\<open>rxbuf\<close> is what \<open>vmalloc\<close> returns for the receive buffer, \<^const>\<open>None\<close> if it fails.\<close>

definition slot_step :: "nat \<Rightarrow> byte list option \<Rightarrow> 'w ca_driver \<Rightarrow> 'w ca \<Rightarrow> nat \<Rightarrow> 'w ca option" where
  "slot_step n rxbuf drv ca slot =
     (case slot_state (slot_info ca ! slot) of
        SLOT_NONE \<Rightarrow> Some ca
      | SLOT_INVALID \<Rightarrow> Some ca
      | SLOT_UNINITIALISED \<Rightarrow>
          Some (set_timeout drv slot (hw_do (slot_reset drv slot) (set_state slot SLOT_WAITREADY ca)))
      | SLOT_WAITREADY \<Rightarrow>
          Some (if now drv ca > sl_timeout (slot_info ca ! slot) then give_up drv slot SLOT_INVALID ca else ca)
      | SLOT_VALIDATE \<Rightarrow> do {
          (ca1, r) \<leftarrow> parse_attributes drv ca slot;
          Some (if r \<noteq> 0
            then let (ca2, gone) = poll_cam_gone drv ca1 slot in if gone then ca2 else give_up drv slot SLOT_INVALID ca2
            else let (ca2, r) = set_configoption drv ca1 slot
                 in if r \<noteq> 0 then give_up drv slot SLOT_INVALID ca2
                    else let (r, ca3) = on_hw (write_cam_control drv slot CTRLIF_COMMAND CMDREG_RS) ca2
                         in if r \<noteq> 0 then give_up drv slot SLOT_INVALID ca3
                            else (set_state slot SLOT_WAITFR (set_timeout drv slot ca3))\<lparr>ca_wakeup := True\<rparr>) }
      | SLOT_WAITFR \<Rightarrow>
          Some (if now drv ca > sl_timeout (slot_info ca ! slot) then give_up drv slot SLOT_INVALID ca
            else let (flags, ca1) = on_hw (read_cam_control drv slot CTRLIF_STATUS) ca
                 in if flags AND STATUSREG_FR \<noteq> 0 then (set_state slot SLOT_LINKINIT ca1)\<lparr>ca_wakeup := True\<rparr> else ca1)
      | SLOT_LINKINIT \<Rightarrow> do {
          (ca1, r) \<leftarrow> ca_link_init n drv ca slot;
          Some (if r \<noteq> 0
            then let (ca2, gone) = poll_cam_gone drv ca1 slot in if gone then ca2 else give_up drv slot SLOT_UNINITIALISED ca2
            else case (rx_buffer (slot_info ca1 ! slot), rxbuf) of
                (None, None) \<Rightarrow> give_up drv slot SLOT_INVALID ca1
              | (None, Some d) \<Rightarrow>
                  give_up drv slot SLOT_RUNNING (hw_do (slot_ts_enable drv slot)
                    (upd_sl slot (\<lambda>sl. sl\<lparr>rx_buffer := Some (dvb_ringbuffer_init d RX_BUFFER_SIZE)\<rparr>) ca1))
              | (Some _, _) \<Rightarrow> give_up drv slot SLOT_RUNNING (hw_do (slot_ts_enable drv slot) ca1)) }
      | SLOT_RUNNING \<Rightarrow> if ca_open ca then rx_loop MAX_RX_PACKETS_PER_ITERATION drv ca slot else Some ca)"

definition thread_state_machine :: "nat \<Rightarrow> byte list option \<Rightarrow> 'w ca_driver \<Rightarrow> 'w ca \<Rightarrow> nat \<Rightarrow> 'w ca option" where
  "thread_state_machine n rxbuf drv ca slot = Option.bind (camchange_loop n drv ca slot) (\<lambda>ca1. slot_step n rxbuf drv ca1 slot)"

text \<open>One turn of the thread: all slots, in order.\<close>

fun thread_slots :: "nat \<Rightarrow> byte list option \<Rightarrow> 'w ca_driver \<Rightarrow> 'w ca \<Rightarrow> nat list \<Rightarrow> 'w ca option" where
  "thread_slots n rxbuf drv ca [] = Some ca"
| "thread_slots n rxbuf drv ca (slot # slots) =
     Option.bind (thread_state_machine n rxbuf drv ca slot) (\<lambda>ca1. thread_slots n rxbuf drv ca1 slots)"

definition ca_thread_turn :: "nat \<Rightarrow> byte list option \<Rightarrow> 'w ca_driver \<Rightarrow> 'w ca \<Rightarrow> 'w ca option" where
  "ca_thread_turn n rxbuf drv ca = thread_slots n rxbuf drv (ca\<lparr>ca_wakeup := False\<rparr>) [0..<length (slot_info ca)]"

subsection \<open>Ioctls\<close>

datatype ca_ioctl = CA_RESET | CA_GET_CAP | CA_GET_SLOT_INFO int | CA_OTHER

text \<open>The answers: the number of slots, or whether a module is present and ready.\<close>

datatype ca_answer = Ca_none | Ca_caps nat | Ca_slot_info bool bool

fun reset_slots :: "'w ca_driver \<Rightarrow> 'w ca \<Rightarrow> nat list \<Rightarrow> 'w ca" where
  "reset_slots drv ca [] = ca"
| "reset_slots drv ca (slot # slots) =
     (let ca1 = (if slot_state (slot_info ca ! slot) = SLOT_NONE then ca
        else let ca1 = ca_slot_shutdown drv ca slot
             in if ca_flags ca1 AND FLAG_IRQ_CAMCHANGE \<noteq> 0
                then neumo_dvb_ca_en50221_camchange_irq ca1 slot CAMCHANGE_INSERTED else ca1)
      in reset_slots drv ca1 slots)"

definition io_do_ioctl :: "bool \<Rightarrow> 'w ca_driver \<Rightarrow> 'w ca \<Rightarrow> ca_ioctl \<Rightarrow> 'w ca \<times> int \<times> ca_answer" where
  "io_do_ioctl intr drv ca cmd =
     (if intr then (ca, - ERESTARTSYS, Ca_none)
      else case cmd of
          CA_RESET \<Rightarrow>
            (thread_wakeup ((reset_slots drv ca [0..<length (slot_info ca)])\<lparr>next_read_slot := 0\<rparr>), 0, Ca_none)
        | CA_GET_CAP \<Rightarrow> (ca, 0, Ca_caps (length (slot_info ca)))
        | CA_GET_SLOT_INFO num \<Rightarrow>
            if num \<ge> int (length (slot_info ca)) \<or> num < 0 then (ca, - EINVAL, Ca_none)
            else let s = slot_state (slot_info ca ! nat num)
                 in (ca, 0, Ca_slot_info (s \<noteq> SLOT_NONE \<and> s \<noteq> SLOT_INVALID) (s = SLOT_RUNNING))
        | CA_OTHER \<Rightarrow> (ca, - EINVAL, Ca_none))"

subsection \<open>Writing\<close>

text \<open>
  A fragment, tried again until the CAM takes it or half a second is over.  The result is \<open>Inl\<close>
  of the status with which the call ends.
\<close>

fun write_retry :: "nat \<Rightarrow> 'w ca_driver \<Rightarrow> 'w ca \<Rightarrow> nat \<Rightarrow> byte list \<Rightarrow> int \<Rightarrow> ('w ca \<times> (int + unit)) option" where
  "write_retry 0 drv ca slot frag timeout = None"
| "write_retry (Suc n) drv ca slot frag timeout =
     (if now drv ca > timeout then Some (ca, Inl (- EIO))
      else if slot_state (slot_info ca ! slot) \<noteq> SLOT_RUNNING then Some (ca, Inl (- EIO))
      else let (ca1, st) = ca_write_data drv ca slot frag 0
           in if st = int (length frag) then Some (ca1, Inr ())
              else if st \<noteq> - EAGAIN then Some (ca1, Inl st)
              else write_retry n drv (hw_do (usleep drv) ca1) slot frag timeout)"

text \<open>The length of the next fragment, and the fragment.\<close>

definition frag_len :: "ca_slot \<Rightarrow> nat \<Rightarrow> int" where
  "frag_len sl remaining = (let l = link_buf_size sl - 2; l = (if l > 510 then 510 else l)
     in if int remaining < l then int remaining else l)"

definition fragment :: "byte \<Rightarrow> byte list \<Rightarrow> nat \<Rightarrow> nat \<Rightarrow> byte list" where
  "fragment cid data pos len = [cid, if pos + len < length data then 0x80 else 0] @ take len (drop pos data)"

text \<open>
  The loop over the fragments, of \<open>data\<close> without its header; \<open>fault\<close> says at which positions
  the copy from user space fails.
\<close>

fun write_loop ::
    "nat \<Rightarrow> 'w ca_driver \<Rightarrow> (nat \<Rightarrow> bool) \<Rightarrow> 'w ca \<Rightarrow> nat \<Rightarrow> byte \<Rightarrow> byte list \<Rightarrow> nat \<Rightarrow> ('w ca \<times> int) option" where
  "write_loop 0 drv fault ca slot cid data pos = None"
| "write_loop (Suc n) drv fault ca slot cid data pos =
     (let sl = slot_info ca ! slot
      in if pos \<ge> length data \<or> link_buf_size sl - 2 < 0 then Some (ca, int (length data) + 2)
         else let len = nat (frag_len sl (length data - pos))
              in if fault (pos + 2) then Some (ca, - EFAULT)
                 else do {
                   (ca1, r) \<leftarrow> write_retry n drv ca slot (fragment cid data pos len) (now drv ca + HZ drv div 2);
                   (case r of
                      Inl st \<Rightarrow> Some (ca1, st)
                    | Inr _ \<Rightarrow> write_loop n drv fault ca1 slot cid data (pos + len)) })"

definition io_write :: "nat \<Rightarrow> 'w ca_driver \<Rightarrow> (nat \<Rightarrow> bool) \<Rightarrow> 'w ca \<Rightarrow> byte list \<Rightarrow> ('w ca \<times> int) option" where
  "io_write n drv fault ca buf =
     (if length buf < 2 then Some (ca, - EINVAL)
      else if fault 0 \<or> fault 1 then Some (ca, - EFAULT)
      else let slot = unat (buf ! 0)
           in if slot \<ge> length (slot_info ca) then Some (ca, - EINVAL)
              else if slot_state (slot_info ca ! slot) \<noteq> SLOT_RUNNING then Some (ca, - EINVAL)
              else write_loop n drv fault ca slot (buf ! 1) (drop 2 buf) 0)"

subsection \<open>Reading\<close>

text \<open>
  The header of a packet in the receive buffer: connection, and whether it is the last fragment
  of a message.
\<close>

definition frag_header :: "ringbuf \<Rightarrow> nat \<Rightarrow> (byte \<times> bool) option" where
  "frag_header r idx = do {
     (_, hdr) \<leftarrow> dvb_ringbuffer_pkt_read r idx 0 2;
     cid \<leftarrow> mem_at hdr 0;
     fl \<leftarrow> mem_at hdr 1;
     Some (cid, \<not> bit fl 7) }"

text \<open>
  The search for a complete message in a receive buffer, from a packet on; \<open>cid\<close> is the
  connection looked for, once it is known.  A loop that does not end is \<^const>\<open>None\<close>.
\<close>

partial_function (option) scan_message :: "ringbuf \<Rightarrow> (nat \<times> nat) option \<Rightarrow> byte option \<Rightarrow> (byte option \<times> bool) option" where
  "scan_message r pos cid =
     (case pos of
        None \<Rightarrow> Some (cid, False)
      | Some (idx, _) \<Rightarrow>
          Option.bind (frag_header r idx) (\<lambda>(c, last).
            let cid1 = (case cid of None \<Rightarrow> c | Some x \<Rightarrow> x)
            in if c = cid1 \<and> last then Some (Some cid1, True)
               else Option.bind (dvb_ringbuffer_pkt_next r (Some idx)) (\<lambda>next. scan_message r next (Some cid1))))"

text \<open>
  The loop over the slots, from \<open>slot\<close> on.  The result: \<open>Inl ()\<close> for a running slot without
  buffer, or the slot to start with the next time and the slot found.
\<close>

fun scan_slots :: "nat \<Rightarrow> 'w ca \<Rightarrow> nat \<Rightarrow> byte option \<Rightarrow> (unit + nat \<times> nat option) option" where
  "scan_slots 0 ca slot cid = Some (Inr (slot, None))"
| "scan_slots (Suc k) ca slot cid =
     (let sl = slot_info ca ! slot; slot1 = (slot + 1) mod length (slot_info ca)
      in if slot_state sl \<noteq> SLOT_RUNNING then scan_slots k ca slot1 cid
         else case rx_buffer sl of
             None \<Rightarrow> Some (Inl ())
           | Some r \<Rightarrow> do {
               first \<leftarrow> dvb_ringbuffer_pkt_next r None;
               (cid1, found) \<leftarrow> scan_message r first cid;
               (if found then Some (Inr (slot1, Some slot)) else scan_slots k ca slot1 cid1) })"

definition io_read_condition :: "'w ca \<Rightarrow> ('w ca \<times> nat option) option" where
  "io_read_condition ca =
     map_option (\<lambda>r. case r of Inl _ \<Rightarrow> (ca, None) | Inr (slot, found) \<Rightarrow> (ca\<lparr>next_read_slot := slot\<rparr>, found))
       (scan_slots (length (slot_info ca)) ca (next_read_slot ca) None)"

text \<open>
  Taking a message out of the receive buffer.  \<open>ok\<close> says, for each position in the buffer of
  the user, whether the two copies to it succeed.  The result is the buffer, the status (0 when
  the last fragment was read) with the connection, and the bytes handed over.
\<close>

partial_function (option) read_message ::
    "(nat \<Rightarrow> bool \<times> bool) \<Rightarrow> nat \<Rightarrow> ringbuf \<Rightarrow> (nat \<times> nat) option \<Rightarrow> byte option \<Rightarrow> nat \<Rightarrow> byte list \<Rightarrow>
     (ringbuf \<times> int \<times> byte option \<times> nat \<times> byte list) option" where
  "read_message ok count r pos cid pktlen out =
     (case pos of
        None \<Rightarrow> Some (r, - EIO, cid, pktlen, out)
      | Some (idx, fraglen) \<Rightarrow>
          Option.bind (frag_header r idx) (\<lambda>(c, last).
            let cid1 = (case cid of None \<Rightarrow> c | Some x \<Rightarrow> x)
            in if c = cid1
               then let n = (if pktlen + fraglen - 2 > count then count - pktlen else fraglen - 2);
                        copied = (if pktlen < count
                          then dvb_ringbuffer_pkt_read_user (fst (ok pktlen)) (snd (ok pktlen)) r idx 2 n else Some (0, []))
                    in Option.bind copied (\<lambda>(st, bs).
                         if st < 0 then Some (r, st, Some cid1, pktlen, out @ bs)
                         else let pktlen1 = (if pktlen < count then pktlen + n else pktlen)
                              in Option.bind (dvb_ringbuffer_pkt_next r (Some idx)) (\<lambda>next.
                                 Option.bind (dvb_ringbuffer_pkt_dispose r idx) (\<lambda>r1.
                                   if last then Some (r1, 0, Some cid1, pktlen1, out @ bs)
                                   else read_message ok count r1 next (Some cid1) pktlen1 (out @ bs))))
               else Option.bind (dvb_ringbuffer_pkt_next r (Some idx)) (\<lambda>next.
                      read_message ok count r next (Some cid1) pktlen out)))"

text \<open>
  The call with a buffer of \<open>count\<close> bytes; the result is the status and what is in the buffer
  of the user, or \<^const>\<open>None\<close> if the caller sleeps.
\<close>

definition io_read ::
    "bool \<Rightarrow> (nat \<Rightarrow> bool \<times> bool) \<Rightarrow> 'w ca \<Rightarrow> nat \<Rightarrow> ('w ca \<times> (int \<times> byte list) option) option" where
  "io_read nonblock ok ca count =
     (if count < 2 then Some (ca, Some (- EINVAL, []))
      else do {
        (ca1, found) \<leftarrow> io_read_condition ca;
        (case found of
           None \<Rightarrow> Some (ca1, if nonblock then Some (- EAGAIN, []) else None)
         | Some slot \<Rightarrow> do {
             r \<leftarrow> rx_buffer (slot_info ca1 ! slot);
             first \<leftarrow> dvb_ringbuffer_pkt_next r None;
             (r1, st, cid, pktlen, out) \<leftarrow> read_message ok count r first None 2 [];
             let ca2 = upd_sl slot (\<lambda>sl. sl\<lparr>rx_buffer := Some r1\<rparr>) ca1;
             Some (ca2, Some (if st < 0 then (st, out)
               else if \<not> fst (ok 0) then (- EFAULT, out)
               else (int pktlen, [of_nat slot, the cid] @ out))) }) })"

definition io_poll :: "'w ca \<Rightarrow> ('w ca \<times> bool) option" where
  "io_poll ca = do {
     (ca1, found) \<leftarrow> io_read_condition ca;
     (if found \<noteq> None then Some (ca1, True)
      else map_option (\<lambda>(ca2, found). (ca2, found \<noteq> None)) (io_read_condition ca1)) }"

subsection \<open>Open, close, initialisation\<close>

text \<open>
  References: the object is freed (\<^const>\<open>None\<close>) with the last one.
\<close>

definition dvb_ca_private_get :: "'w ca \<Rightarrow> 'w ca" where
  "dvb_ca_private_get ca = ca\<lparr>ca_refcount := ca_refcount ca + 1\<rparr>"

definition dvb_ca_private_put :: "'w ca \<Rightarrow> 'w ca option" where
  "dvb_ca_private_put ca = (if ca_refcount ca \<le> 1 then None else Some (ca\<lparr>ca_refcount := ca_refcount ca - 1\<rparr>))"

text \<open>\<open>module_ok\<close> and \<open>generic\<close> are the results of \<open>try_module_get\<close> and \<open>dvb_generic_open\<close>.\<close>

definition open_slot :: "ca_slot \<Rightarrow> ca_slot" where
  "open_slot sl =
     (case rx_buffer sl of
        Some _ \<Rightarrow> sl
      | None \<Rightarrow> if slot_state sl = SLOT_RUNNING
          then sl\<lparr>rx_buffer := map_option dvb_ringbuffer_flush (rx_buffer sl)\<rparr> else sl)"

definition io_open :: "bool \<Rightarrow> int \<Rightarrow> 'w ca_driver \<Rightarrow> 'w ca \<Rightarrow> 'w ca \<times> int" where
  "io_open module_ok generic drv ca =
     (if ca_exit ca then (ca, - ENODEV)
      else if \<not> module_ok then (ca, - EIO)
      else if generic < 0 then (ca, generic)
      else let ca1 = ca\<lparr>slot_info := map open_slot (slot_info ca), ca_open := True\<rparr>
           in (dvb_ca_private_get (thread_wakeup (thread_update_delay drv ca1)), 0))"

definition io_release :: "int \<Rightarrow> 'w ca_driver \<Rightarrow> 'w ca \<Rightarrow> 'w ca option \<times> int" where
  "io_release generic drv ca = (dvb_ca_private_put (thread_update_delay drv (ca\<lparr>ca_open := False\<rparr>)), generic)"

text \<open>
  \<open>outcome\<close> is the result of the steps that may fail: the allocations, the registration of the
  device, a pending signal, the creation of the thread.
\<close>

definition new_slot :: ca_slot where
  "new_slot = \<lparr>slot_state = SLOT_NONE, camchange_count = 0, camchange_type = CAMCHANGE_REMOVED, config_base = 0,
     config_option = 0, da_irq_supported = False, link_buf_size = 0, rx_buffer = None, sl_timeout = 0\<rparr>"

definition neumo_dvb_ca_en50221_init :: "'w \<Rightarrow> u32 \<Rightarrow> int \<Rightarrow> int \<Rightarrow> int + 'w ca" where
  "neumo_dvb_ca_en50221_init w flags slot_count outcome =
     (if slot_count < 1 then Inl (- EINVAL)
      else if outcome \<noteq> 0 then Inl outcome
      else Inr \<lparr>ca_refcount = 1, ca_flags = flags, slot_info = replicate (nat slot_count) new_slot, ca_open = False,
        ca_wakeup = False, ca_delay = 0, next_read_slot = 0, ca_exit = False, hw = w\<rparr>)"

text \<open>The thread has been stopped; the last reference may stay with an open file.\<close>

definition neumo_dvb_ca_en50221_release :: "'w ca_driver \<Rightarrow> 'w ca \<Rightarrow> 'w ca option" where
  "neumo_dvb_ca_en50221_release drv ca =
     dvb_ca_private_put (foldl (ca_slot_shutdown drv) (ca\<lparr>ca_exit := True\<rparr>) [0..<length (slot_info ca)])"

end
