(* ===== verification/CamMessages.thy ===== *)
theory CamMessages
  imports CamIo
begin

text \<open>
  Messages and their fragments: what a receive buffer holds, what a read returns, and what a
  write sends.
\<close>

subsection \<open>Messages in the receive buffer\<close>

definition frag_conn :: "byte list \<Rightarrow> byte" where
  "frag_conn b = b ! 0"

definition frag_last :: "byte list \<Rightarrow> bool" where
  "frag_last b = (\<not> bit (b ! 1) 7)"

definition frags_ok :: "queued list \<Rightarrow> bool" where
  "frags_ok Q \<longleftrightarrow> (\<forall>(p, b) \<in> set Q. 2 \<le> length b)"

lemma frags_ok_simps [simp]:
  "frags_ok []" "frags_ok ((p, b) # Q) \<longleftrightarrow> 2 \<le> length b \<and> frags_ok Q" "frags_ok (A @ B) \<longleftrightarrow> frags_ok A \<and> frags_ok B"
  by (auto simp: frags_ok_def)

text \<open>The first message of a connection: its pieces, and what is left of the queue.\<close>

fun take_message :: "byte \<Rightarrow> queued list \<Rightarrow> (byte list list \<times> queued list) option" where
  "take_message c [] = None"
| "take_message c ((p, b) # Q) =
     (if frag_conn b = c
      then if frag_last b then Some ([drop 2 b], Q)
           else map_option (\<lambda>(fs, R). (drop 2 b # fs, R)) (take_message c Q)
      else map_option (\<lambda>(fs, R). (fs, (p, b) # R)) (take_message c Q))"

lemma frag_header_at:
  assumes "rb_queue r (A @ (p, b) # B)" "2 \<le> length b"
  shows "frag_header r p = Some (frag_conn b, frag_last b)"
proof -
  obtain b0 b1 bs where "b = b0 # b1 # bs"
    using assms(2) by (cases b; cases "tl b") auto
  then show ?thesis using rxq.read_start [OF assms]
    by (simp add: frag_header_def frag_conn_def frag_last_def mem_at_def)
qed

lemma scan_message_known:
  "rb_queue r (A @ B) \<Longrightarrow> frags_ok B \<Longrightarrow>
   scan_message r (queue_head B) (Some c) = Some (Some c, take_message c B \<noteq> None)"
proof (induction B arbitrary: A)
  case Nil
  then show ?case by (simp add: scan_message.simps)
next
  case (Cons x B)
  obtain p b where x: "x = (p, b)" by fastforce
  then have q: "rb_queue r (A @ (p, b) # B)" "2 \<le> length b" using Cons.prems by simp_all
  have "scan_message r (queue_head B) (Some c) = Some (Some c, take_message c B \<noteq> None)"
    using Cons.IH [of "A @ [(p, b)]"] q(1) Cons.prems x by simp
  then show ?case using frag_header_at [OF q] rxq.next_after [OF q(1)] x
    by (subst scan_message.simps) auto
qed

text \<open>The connection is that of the first packet, unless it is given.\<close>

definition scan_conn :: "byte option \<Rightarrow> queued list \<Rightarrow> byte option" where
  "scan_conn cid Q = (case cid of Some c \<Rightarrow> Some c | None \<Rightarrow> (case Q of [] \<Rightarrow> None | (p, b) # _ \<Rightarrow> Some (frag_conn b)))"

lemma scan_message_queue:
  assumes "rb_queue r Q" "frags_ok Q"
  shows "scan_message r (queue_head Q) cid =
    Some (scan_conn cid Q, (case scan_conn cid Q of None \<Rightarrow> False | Some c \<Rightarrow> take_message c Q \<noteq> None))"
proof (cases cid)
  case (Some c)
  then show ?thesis using scan_message_known [of r "[]" Q c] assms by (simp add: scan_conn_def)
next
  case None
  show ?thesis
  proof (cases Q)
    case Nil
    then show ?thesis using None by (simp add: scan_conn_def scan_message.simps)
  next
    case (Cons x Q')
    obtain p b where x: "x = (p, b)" by fastforce
    then have "frag_header r p = Some (frag_conn b, frag_last b)"
      using frag_header_at [of r "[]" p b Q'] assms Cons by simp
    then have "scan_message r (queue_head Q) None = scan_message r (queue_head Q) (Some (frag_conn b))"
      using Cons x by (simp add: scan_message.simps [of r "Some (p, length b)" None]
        scan_message.simps [of r "Some (p, length b)" "Some (frag_conn b)"])
    then show ?thesis using scan_message_known [of r "[]" Q "frag_conn b"] assms None Cons x by (simp add: scan_conn_def)
  qed
qed

lemma pkt_read_user_ok: "dvb_ringbuffer_pkt_read_user True True r idx off len = dvb_ringbuffer_pkt_read r idx off len"
  unfolding dvb_ringbuffer_pkt_read_user_def dvb_ringbuffer_pkt_read_def
  by (rule Option.bind_cong [OF refl]) (auto simp: Let_def)

lemma read_message_known:
  "rb_queue r (A @ B) \<Longrightarrow> frags_ok B \<Longrightarrow> take_message c B = Some (fs, R) \<Longrightarrow> 2 \<le> pktlen \<Longrightarrow>
   pktlen + length (concat fs) \<le> count \<Longrightarrow>
   \<exists>r'. read_message (\<lambda>_. (True, True)) count r (queue_head B) (Some c) pktlen out =
     Some (r', 0, Some c, pktlen + length (concat fs), out @ concat fs) \<and> rb_queue r' (A @ R) \<and> rb_size r' = rb_size r"
proof (induction B arbitrary: A r fs R pktlen out)
  case (Cons x B)
  obtain p b where x: "x = (p, b)" by fastforce
  then have q: "rb_queue r (A @ (p, b) # B)" "2 \<le> length b" using Cons.prems by simp_all
  note hd = frag_header_at [OF q] and nx = rxq.next_after [OF q(1)]
  show ?case
  proof (cases "frag_conn b = c")
    case False
    then obtain R' where R': "take_message c B = Some (fs, R')" "R = (p, b) # R'"
      using Cons.prems(3) x by auto
    obtain r' where "read_message (\<lambda>_. (True, True)) count r (queue_head B) (Some c) pktlen out =
        Some (r', 0, Some c, pktlen + length (concat fs), out @ concat fs)"
        "rb_queue r' ((A @ [(p, b)]) @ R')" "rb_size r' = rb_size r"
      using Cons.IH [of r "A @ [(p, b)]", OF _ _ R'(1) Cons.prems(4,5)] q(1) Cons.prems(2) x by auto
    then show ?thesis using hd nx False R' x by (subst read_message.simps) simp
  next
    case True
    obtain r1 where r1: "dvb_ringbuffer_pkt_dispose r p = Some r1" "rb_queue r1 (A @ B)" "rb_size r1 = rb_size r"
      using rb_dispose_at [OF q(1)] by blast
    have len: "pktlen + length (drop 2 b) \<le> count" using Cons.prems(3,5) True x by (auto split: if_splits)
    have rd: "dvb_ringbuffer_pkt_read r p 2 (length b - 2) = Some (int (length b - 2), drop 2 b)"
      using rxq.read_at [OF q(1), of 2 "length b - 2"] q(2) by simp
    have nn: "(if count < pktlen + length b - 2 then count - pktlen else length b - 2) = length b - 2"
      using len q(2) by simp
    have empty: "length b - 2 = 0" "drop 2 b = []" if "\<not> pktlen < count"
      using len that by simp_all
    show ?thesis
    proof (cases "frag_last b")
      case last: True
      then have fs: "fs = [drop 2 b]" "R = B" using Cons.prems(3) True x by simp_all
      show ?thesis
      proof (cases "pktlen < count")
        case lt: True
        show ?thesis
          using hd nx True last r1 rd nn fs x lt by (subst read_message.simps) (simp add: pkt_read_user_ok)
      next
        case False
        show ?thesis
          using hd nx True last r1 fs x False empty [OF False] by (subst read_message.simps) simp
      qed
    next
      case more: False
      then obtain fs' where fs: "take_message c B = Some (fs', R)" "fs = drop 2 b # fs'"
        using Cons.prems(3) True x by auto
      have "pktlen + length (drop 2 b) + length (concat fs') \<le> count" "2 \<le> pktlen + length (drop 2 b)"
        using Cons.prems(4,5) fs(2) by simp_all
      from Cons.IH [OF r1(2) _ fs(1) this(2,1), of "out @ drop 2 b"] obtain r' where r':
        "read_message (\<lambda>_. (True, True)) count r1 (queue_head B) (Some c) (pktlen + length (drop 2 b)) (out @ drop 2 b) =
          Some (r', 0, Some c, pktlen + length (drop 2 b) + length (concat fs'), (out @ drop 2 b) @ concat fs')"
        "rb_queue r' (A @ R)" "rb_size r' = rb_size r1"
        using Cons.prems(2) x by auto
      show ?thesis
      proof (cases "pktlen < count")
        case lt: True
        show ?thesis
          using hd nx True more r1 rd nn fs x lt r' by (subst read_message.simps) (simp add: pkt_read_user_ok)
      next
        case False
        show ?thesis
          using hd nx True more r1 fs x False empty [OF False] r' by (subst read_message.simps) simp
      qed
    qed
  qed
qed simp

lemma pkt_read_user_total:
  assumes "dvb_ringbuffer_pkt_read r idx off len = Some x"
  shows "\<exists>y. dvb_ringbuffer_pkt_read_user ok1 ok2 r idx off len = Some y"
proof -
  obtain l where l: "rb_pktlen r idx = Some l"
    using assms by (cases "rb_pktlen r idx") (simp_all add: dvb_ringbuffer_pkt_read_def)
  show ?thesis
  proof (cases "off < 0 \<or> int l < off")
    case True
    then show ?thesis using l by (simp add: dvb_ringbuffer_pkt_read_user_def)
  next
    case False
    let ?n = "if nat off + len > l then l - nat off else len"
    let ?i = "(idx + PKTHDRSIZE + nat off) mod rb_size r"
    let ?s = "rb_split (rb_size r) ?i ?n"
    obtain b1 b2 where b: "(if ?s > 0 then memread (rb_data r) ?i ?s else Some []) = Some b1"
        "memread (rb_data r) (if ?s > 0 then 0 else ?i) (?n - ?s) = Some b2"
      using assms l False unfolding dvb_ringbuffer_pkt_read_def Let_def
      by (auto elim!: bind_eq_SomeE simp del: of_nat_less_iff)
    show ?thesis
    proof (cases "?s > 0")
      case True
      then show ?thesis using l False b unfolding dvb_ringbuffer_pkt_read_user_def Let_def by simp
    next
      case no: False
      then show ?thesis using l False b unfolding dvb_ringbuffer_pkt_read_user_def Let_def by simp
    qed
  qed
qed

text \<open>The receive buffer of a slot in order, whatever packets it has.\<close>

definition rx_ok :: "ringbuf \<Rightarrow> bool" where
  "rx_ok r \<longleftrightarrow> rb_size r = RX_BUFFER_SIZE \<and> (\<exists>Q. rb_queue r Q \<and> frags_ok Q)"

lemma rx_okI: "rb_queue r Q \<Longrightarrow> frags_ok Q \<Longrightarrow> rb_size r = RX_BUFFER_SIZE \<Longrightarrow> rx_ok r"
  unfolding rx_ok_def by blast

lemma read_message_total:
  "rb_queue r (A @ B) \<Longrightarrow> frags_ok (A @ B) \<Longrightarrow> rb_size r = RX_BUFFER_SIZE \<Longrightarrow>
   \<exists>r' st c n out'. read_message ok count r (queue_head B) cid pktlen out = Some (r', st, c, n, out') \<and> rx_ok r'"
proof (induction B arbitrary: A r cid pktlen out)
  case Nil
  then have "rx_ok r" by (intro rx_okI [of r A]) simp_all
  then show ?case by (subst read_message.simps) simp
next
  case (Cons x B)
  obtain p b where x: "x = (p, b)" by fastforce
  then have q: "rb_queue r (A @ (p, b) # B)" "2 \<le> length b" "frags_ok A" "frags_ok B" using Cons.prems by simp_all
  have r: "rx_ok r" using Cons.prems by (intro rx_okI [of r "A @ x # B"]) simp_all
  note hd = frag_header_at [OF q(1,2)] and nx = rxq.next_after [OF q(1)]
  obtain r1 where r1: "dvb_ringbuffer_pkt_dispose r p = Some r1" "rb_queue r1 (A @ B)" "rb_size r1 = rb_size r"
    using rb_dispose_at [OF q(1)] by blast
  have r1_ok: "rx_ok r1" using r1 q Cons.prems(3) by (intro rx_okI [of r1 "A @ B"]) simp_all
  have skip: "\<exists>r' st c n out'. read_message ok count r (queue_head B) cid1 pktlen1 out1 = Some (r', st, c, n, out') \<and> rx_ok r'"
    for cid1 pktlen1 out1
    using Cons.IH [of r "A @ [(p, b)]" cid1 pktlen1 out1] q Cons.prems(3) x by auto
  have go: "\<exists>r' st c n out'. read_message ok count r1 (queue_head B) cid1 pktlen1 out1 = Some (r', st, c, n, out') \<and> rx_ok r'"
    for cid1 pktlen1 out1
    using Cons.IH [of r1 A cid1 pktlen1 out1] q r1 Cons.prems(3) by auto
  have copied: "\<exists>st bs. (if pktlen < count then dvb_ringbuffer_pkt_read_user a b' r p 2 n else Some (0, [])) = Some (st, bs)"
    for a b' n
    using pkt_read_user_total [of r p 2 n] rxq.read_at [OF q(1), of 2 n] q(2) by auto
  let ?n = "if pktlen + length b - 2 > count then count - pktlen else length b - 2"
  obtain st bs where st: "(if pktlen < count then dvb_ringbuffer_pkt_read_user (fst (ok pktlen)) (snd (ok pktlen)) r p 2 ?n
      else Some (0, [])) = Some (st, bs)"
    using copied by blast
  show ?case
  proof (cases "frag_conn b = (case cid of None \<Rightarrow> frag_conn b | Some x \<Rightarrow> x)")
    case False
    then show ?thesis using hd nx x skip by (subst read_message.simps) (simp add: Let_def)
  next
    case True
    then show ?thesis using hd nx x r r1 r1_ok go st
      by (subst read_message.simps) (simp only: queue_head_simps option.case prod.case Option.bind.bind_lunit Let_def if_True, simp)
  qed
qed

text \<open>What the search over the slots finds, when one slot is all there is.\<close>

lemma io_read_condition_one:
  assumes "slot_info ca = [sl]" "slot_state sl = SLOT_RUNNING" "rx_buffer sl = Some r" "rb_queue r Q" "frags_ok Q"
    "next_read_slot ca = 0"
  shows "io_read_condition ca = Some (ca, if Q \<noteq> [] \<and> take_message (frag_conn (snd (hd Q))) Q \<noteq> None then Some 0 else None)"
proof -
  have "ca\<lparr>next_read_slot := 0\<rparr> = ca" using assms(6) by simp
  then show ?thesis
    using assms scan_message_queue [OF assms(4,5), of None] rxq.next_first [OF assms(4)]
    by (cases Q) (auto simp: io_read_condition_def scan_conn_def split_def)
qed

lemma read_message_start:
  assumes "rb_queue r ((p, b) # Q)" "2 \<le> length b"
  shows "read_message ok count r (Some (p, l)) None pktlen out = read_message ok count r (Some (p, l)) (Some (frag_conn b)) pktlen out"
  using frag_header_at [of r "[]" p b Q] assms
  by (simp add: Let_def read_message.simps [of ok count r "Some (p, l)" None] read_message.simps [of ok count r "Some (p, l)" "Some (frag_conn b)"])

lemma io_read_one:
  assumes "slot_info ca = [sl]" "slot_state sl = SLOT_RUNNING" "rx_buffer sl = Some r" "rb_queue r Q" "frags_ok Q"
    "next_read_slot ca = 0" "Q \<noteq> []" "take_message (frag_conn (snd (hd Q))) Q = Some (fs, R)"
    "2 + length (concat fs) \<le> count"
  shows "\<exists>r'. io_read nonblock (\<lambda>_. (True, True)) ca count =
      Some (upd_sl 0 (\<lambda>sl. sl\<lparr>rx_buffer := Some r'\<rparr>) ca,
        Some (int (2 + length (concat fs)), [0, frag_conn (snd (hd Q))] @ concat fs)) \<and>
    rb_queue r' R \<and> rb_size r' = rb_size r"
proof -
  obtain p b Q' where Q: "Q = (p, b) # Q'" using assms(7) by (cases Q) auto
  note cond = io_read_condition_one [OF assms(1-6)]
  obtain r' where r': "read_message (\<lambda>_. (True, True)) count r (queue_head Q) (Some (frag_conn b)) 2 [] =
      Some (r', 0, Some (frag_conn b), 2 + length (concat fs), concat fs)" "rb_queue r' R" "rb_size r' = rb_size r"
    using read_message_known [of r "[]" Q "frag_conn b" fs R 2 count "[]"] assms(4,5,8,9) Q by auto
  have start: "read_message (\<lambda>_. (True, True)) count r (queue_head Q) None 2 [] =
      read_message (\<lambda>_. (True, True)) count r (queue_head Q) (Some (frag_conn b)) 2 []"
    using read_message_start [of r p b Q'] assms(4,5) Q by simp
  have c: "io_read_condition ca = Some (ca, Some 0)" using cond assms(7,8) by simp
  show ?thesis using assms(1,3,9) c r' start rxq.next_first [OF assms(4)]
    by (intro exI [of _ r']) (simp add: io_read_def Q del: take_message.simps)
qed

text \<open>
  With several slots: the search starts at \<open>next_read_slot\<close> and passes over the slots that do not
  run or have an empty receive buffer.
\<close>

definition quiet_slot :: "ca_slot \<Rightarrow> bool" where
  "quiet_slot sl \<longleftrightarrow> slot_state sl \<noteq> SLOT_RUNNING \<or> (\<exists>r. rx_buffer sl = Some r \<and> rb_queue r [])"

lemma scan_slots_reach:
  assumes "slot_state (slot_info ca ! slot) = SLOT_RUNNING" "rx_buffer (slot_info ca ! slot) = Some r"
    "rb_queue r Q" "frags_ok Q" "Q \<noteq> []" "take_message (frag_conn (snd (hd Q))) Q \<noteq> None"
  shows "s < length (slot_info ca) \<Longrightarrow> k < n \<Longrightarrow> slot = (s + k) mod length (slot_info ca) \<Longrightarrow>
    \<forall>j < k. quiet_slot (slot_info ca ! ((s + j) mod length (slot_info ca))) \<Longrightarrow>
    scan_slots n ca s None = Some (Inr ((slot + 1) mod length (slot_info ca), Some slot))"
proof (induction k arbitrary: n s)
  case 0
  obtain n' where n: "n = Suc n'" using "0.prems"(2) by (cases n) auto
  obtain p b Q' where Q: "Q = (p, b) # Q'" using assms(5) by (cases Q) auto
  have "slot = s" using "0.prems" by simp
  then show ?case using assms scan_message_queue [OF assms(3,4), of None] rxq.next_first [OF assms(3)]
    by (simp add: n Q scan_conn_def Let_def)
next
  case (Suc k)
  let ?L = "length (slot_info ca)"
  let ?s = "(s + 1) mod ?L"
  obtain n' where n: "n = Suc n'" "k < n'" using Suc.prems(2) by (cases n) auto
  have shift: "(?s + j) mod ?L = (s + Suc j) mod ?L" for j by (simp add: mod_simps)
  have q: "quiet_slot (slot_info ca ! s)" using Suc.prems(4) [rule_format, of 0] Suc.prems(1) by simp
  have "?s < ?L" using Suc.prems(1) by (intro mod_less_divisor) linarith
  moreover have "quiet_slot (slot_info ca ! ((?s + j) mod ?L))" if "j < k" for j
    unfolding shift using Suc.prems(4) [rule_format, of "Suc j"] that by simp
  ultimately have IH: "scan_slots n' ca ?s None = Some (Inr ((slot + 1) mod ?L, Some slot))"
    using Suc.IH [of ?s n'] n(2) Suc.prems(3) shift [of k] by metis
  show ?case
  proof (cases "slot_state (slot_info ca ! s) = SLOT_RUNNING")
    case False
    then show ?thesis using IH by (simp add: n Let_def)
  next
    case True
    then obtain r0 where r0: "rx_buffer (slot_info ca ! s) = Some r0" "rb_queue r0 []" using q by (auto simp: quiet_slot_def)
    then show ?thesis using True IH scan_message_queue [OF r0(2), of None] rxq.next_first [OF r0(2)]
      by (simp add: n Let_def scan_conn_def)
  qed
qed

lemma io_read_at:
  assumes sl: "slot_info ca ! slot = sl" "slot_state sl = SLOT_RUNNING" "rx_buffer sl = Some r" and q: "rb_queue r Q" "frags_ok Q"
    and s: "next_read_slot ca < length (slot_info ca)" "k < length (slot_info ca)"
      "slot = (next_read_slot ca + k) mod length (slot_info ca)"
      "\<forall>j < k. quiet_slot (slot_info ca ! ((next_read_slot ca + j) mod length (slot_info ca)))"
    and m: "Q \<noteq> []" "take_message (frag_conn (snd (hd Q))) Q = Some (fs, R)" "2 + length (concat fs) \<le> count"
  shows "\<exists>r'. io_read nonblock (\<lambda>_. (True, True)) ca count =
      Some (upd_sl slot (\<lambda>sl. sl\<lparr>rx_buffer := Some r'\<rparr>) (ca\<lparr>next_read_slot := (slot + 1) mod length (slot_info ca)\<rparr>),
        Some (int (2 + length (concat fs)), [of_nat slot, frag_conn (snd (hd Q))] @ concat fs)) \<and>
    rb_queue r' R \<and> rb_size r' = rb_size r"
proof -
  obtain p b Q' where Q: "Q = (p, b) # Q'" using m(1) by (cases Q) auto
  have "scan_slots (length (slot_info ca)) ca (next_read_slot ca) None =
      Some (Inr ((slot + 1) mod length (slot_info ca), Some slot))"
    using scan_slots_reach [of ca slot r Q "next_read_slot ca" k "length (slot_info ca)"] sl q s m(1,2) by simp
  then have c: "io_read_condition ca = Some (ca\<lparr>next_read_slot := (slot + 1) mod length (slot_info ca)\<rparr>, Some slot)"
    by (simp add: io_read_condition_def)
  obtain r' where r': "read_message (\<lambda>_. (True, True)) count r (queue_head Q) (Some (frag_conn b)) 2 [] =
      Some (r', 0, Some (frag_conn b), 2 + length (concat fs), concat fs)" "rb_queue r' R" "rb_size r' = rb_size r"
    using read_message_known [of r "[]" Q "frag_conn b" fs R 2 count "[]"] q m(2,3) Q by auto
  have start: "read_message (\<lambda>_. (True, True)) count r (queue_head Q) None 2 [] =
      read_message (\<lambda>_. (True, True)) count r (queue_head Q) (Some (frag_conn b)) 2 []"
    using read_message_start [of r p b Q'] q Q by simp
  show ?thesis using sl m(3) c r' start rxq.next_first [OF q(1)]
    by (intro exI [of _ r']) (simp add: io_read_def Q del: take_message.simps)
qed

subsection \<open>Fragments\<close>

text \<open>The fragments of a message with at most \<open>m\<close> bytes of data each.\<close>

function link_frags :: "nat \<Rightarrow> byte \<Rightarrow> byte list \<Rightarrow> byte list list" where
  "link_frags m cid d =
     (if d = [] \<or> m = 0 then []
      else ([cid, if m < length d then 0x80 else 0] @ take m d) # link_frags m cid (drop m d))"
  by pat_completeness auto
termination by (relation "measure (\<lambda>(m, cid, d). length d)") auto

declare link_frags.simps [simp del]

lemma link_frags_Nil [simp]: "link_frags m cid [] = []"
  by (simp add: link_frags.simps)

lemma link_frags_step:
  "d \<noteq> [] \<Longrightarrow> 0 < m \<Longrightarrow>
   link_frags m cid d = ([cid, if m < length d then 0x80 else 0] @ take m d) # link_frags m cid (drop m d)"
  by (subst link_frags.simps) simp

lemma link_frags_data: "0 < m \<Longrightarrow> concat (map (drop 2) (link_frags m cid d)) = d"
proof (induction m cid d rule: link_frags.induct)
  case (1 m cid d)
  then show ?case by (cases "d = []") (simp_all add: link_frags_step)
qed

lemma link_frags_shape:
  "f \<in> set (link_frags m cid d) \<Longrightarrow> 2 < length f \<and> length f \<le> m + 2 \<and> frag_conn f = cid"
proof (induction m cid d rule: link_frags.induct)
  case (1 m cid d)
  show ?case
  proof (cases "d = [] \<or> m = 0")
    case True
    then show ?thesis using "1.prems" by (simp add: link_frags.simps)
  next
    case False
    then have "f = [cid, if m < length d then 0x80 else 0] @ take m d \<or> f \<in> set (link_frags m cid (drop m d))"
      using "1.prems" link_frags_step [of d m cid] by auto
    then show ?thesis
    proof
      assume "f = [cid, if m < length d then 0x80 else 0] @ take m d"
      then show ?thesis using False by (auto simp: frag_conn_def min_def)
    next
      assume "f \<in> set (link_frags m cid (drop m d))"
      with "1.IH" False show ?thesis by blast
    qed
  qed
qed

lemma link_frags_last:
  "0 < m \<Longrightarrow> map frag_last (link_frags m cid d) = (if d = [] then [] else replicate (length (link_frags m cid d) - 1) False @ [True])"
proof (induction m cid d rule: link_frags.induct)
  case (1 m cid d)
  show ?case
  proof (cases "d = []")
    case False
    note step = link_frags_step [OF False "1.prems", of cid]
    show ?thesis
    proof (cases "m < length d")
      case True
      then obtain f fs where ne: "link_frags m cid (drop m d) = f # fs"
        using link_frags_step [of "drop m d" m cid] "1.prems" by auto
      then show ?thesis using "1.IH" "1.prems" False True step by (auto simp: frag_last_def bit_numeral_rec)
    next
      case nm: False
      then show ?thesis using step False by (simp add: frag_last_def)
    qed
  qed simp
qed

text \<open>Fragments in a queue are the message again.\<close>

lemma take_message_skip: "\<forall>q \<in> set Q. frag_conn (snd q) \<noteq> c \<Longrightarrow> filter (\<lambda>q. frag_conn (snd q) \<noteq> c) Q = Q"
  by (induction Q) auto

lemma take_message_frags:
  assumes "0 < m" "d \<noteq> []" "filter (\<lambda>b. frag_conn b = cid) (map snd A) = link_frags m cid d"
  shows "take_message cid (A @ B) =
    Some (map (drop 2) (link_frags m cid d), filter (\<lambda>q. frag_conn (snd q) \<noteq> cid) A @ B)"
  using assms(2,3)
proof (induction A arbitrary: d)
  case Nil
  then show ?case using link_frags_step [OF Nil.prems(1) assms(1)] by simp
next
  case (Cons x A)
  obtain p b where x: "x = (p, b)" by fastforce
  note step = link_frags_step [OF Cons.prems(1) assms(1), of cid]
  show ?case
  proof (cases "frag_conn b = cid")
    case other: False
    then show ?thesis using Cons.IH [OF Cons.prems(1)] Cons.prems(2) x by simp
  next
    case mine: True
    have b: "b = [cid, if m < length d then 0x80 else 0] @ take m d"
        "filter (\<lambda>b. frag_conn b = cid) (map snd A) = link_frags m cid (drop m d)"
      using Cons.prems(2) x step mine by simp_all
    show ?thesis
    proof (cases "m < length d")
      case True
      then have "take_message cid (A @ B) =
          Some (map (drop 2) (link_frags m cid (drop m d)), filter (\<lambda>q. frag_conn (snd q) \<noteq> cid) A @ B)"
        using Cons.IH [of "drop m d"] b(2) by simp
      then show ?thesis using x b True step by (simp add: frag_conn_def frag_last_def bit_numeral_rec)
    next
      case False
      then have "\<forall>q \<in> set A. frag_conn (snd q) \<noteq> cid" using b(2) by (auto simp: filter_empty_conv)
      then have "filter (\<lambda>q. frag_conn (snd q) \<noteq> cid) A = A" by (rule take_message_skip)
      then show ?thesis using x b(1) False step by (simp add: frag_conn_def frag_last_def)
    qed
  qed
qed

subsection \<open>Writing a message\<close>

text \<open>
  The CAM takes a packet after it was busy \<open>k\<close> times, none of them later than \<open>timeout\<close>; the
  state afterwards.
\<close>

fun takes_after :: "nat \<Rightarrow> int \<Rightarrow> 'w ca_driver \<Rightarrow> nat \<Rightarrow> 'w ca \<Rightarrow> byte list \<Rightarrow> 'w ca option" where
  "takes_after 0 timeout drv slot ca f =
     (let (ca1, st) = ca_write_data drv ca slot f 0
      in if st = int (length f) \<and> slot_info ca1 ! slot = slot_info ca ! slot then Some ca1 else None)"
| "takes_after (Suc k) timeout drv slot ca f =
     (let (ca1, st) = ca_write_data drv ca slot f 0; ca2 = hw_do (usleep drv) ca1
      in if st = - EAGAIN \<and> slot_info ca2 ! slot = slot_info ca ! slot \<and> now drv ca2 \<le> timeout
         then takes_after k timeout drv slot ca2 f else None)"

text \<open>The packets one after the other, each within half a second.\<close>

fun accepts :: "'w ca_driver \<Rightarrow> nat \<Rightarrow> 'w ca \<Rightarrow> nat list \<Rightarrow> byte list list \<Rightarrow> 'w ca option" where
  "accepts drv slot ca (k # ks) (f # fs) =
     Option.bind (takes_after k (now drv ca + HZ drv div 2) drv slot ca f) (\<lambda>ca1. accepts drv slot ca1 ks fs)"
| "accepts drv slot ca ks fs = (if fs = [] then Some ca else None)"

lemma takes_after_retry:
  assumes "takes_after k timeout drv slot ca f = Some ca'" "slot_state (slot_info ca ! slot) = SLOT_RUNNING"
    "now drv ca \<le> timeout" "k < n"
  shows "write_retry n drv ca slot f timeout = Some (ca', Inr ()) \<and> slot_info ca' ! slot = slot_info ca ! slot"
  using assms
proof (induction k arbitrary: ca n)
  case 0
  then obtain n' where "n = Suc n'" by (cases n) auto
  then show ?case using "0.prems" by (auto simp: Let_def split: prod.splits if_splits)
next
  case (Suc k)
  obtain n' where n: "n = Suc n'" "k < n'" using Suc.prems(4) by (cases n) auto
  obtain ca1 where w: "ca_write_data drv ca slot f 0 = (ca1, - EAGAIN)"
      "slot_info (hw_do (usleep drv) ca1) ! slot = slot_info ca ! slot" "now drv (hw_do (usleep drv) ca1) \<le> timeout"
      "takes_after k timeout drv slot (hw_do (usleep drv) ca1) f = Some ca'"
    using Suc.prems(1) by (auto simp: Let_def split: prod.splits if_splits)
  have "write_retry n' drv (hw_do (usleep drv) ca1) slot f timeout = Some (ca', Inr ()) \<and>
      slot_info ca' ! slot = slot_info (hw_do (usleep drv) ca1) ! slot"
    using Suc.IH [OF w(4) _ w(3) n(2)] Suc.prems(2) w(2) by simp
  moreover have "- EAGAIN \<noteq> int (length f)" by linarith
  ultimately show ?case using w(1,2) Suc.prems(2,3) by (simp add: n(1))
qed

lemma frag_len_eq:
  assumes "2 < link_buf_size sl" "0 < k"
  shows "nat (frag_len sl k) = min k (nat (min (link_buf_size sl - 2) 510))"
  using assms by (auto simp: frag_len_def Let_def min_def)

lemma write_loop_frags:
  assumes "0 < m" "m = nat (min (link_buf_size sl - 2) 510)" "2 < link_buf_size sl" "slot_state sl = SLOT_RUNNING" "0 \<le> HZ drv"
  shows "slot_info ca ! slot = sl \<Longrightarrow> accepts drv slot ca ks (link_frags m cid (drop pos data)) = Some ca' \<Longrightarrow> pos \<le> length data \<Longrightarrow>
    length (link_frags m cid (drop pos data)) + 1 < n \<Longrightarrow>
    \<forall>k \<in> set ks. length (link_frags m cid (drop pos data)) + k < n \<Longrightarrow>
    write_loop n drv (\<lambda>_. False) ca slot cid data pos = Some (ca', int (length data) + 2)"
proof (induction n arbitrary: ca pos ks)
  case (Suc n)
  show ?case
  proof (cases "pos = length data")
    case True
    then show ?thesis using Suc.prems by (cases ks) simp_all
  next
    case False
    then have d: "drop pos data \<noteq> []" "0 < length data - pos" using Suc.prems(3) by simp_all
    note step = link_frags_step [OF d(1) assms(1), of cid]
    let ?f = "[cid, if m < length (drop pos data) then 0x80 else 0] @ take m (drop pos data)"
    let ?len = "min (length data - pos) m"
    have f: "fragment cid data pos ?len = ?f"
      using d by (auto simp: fragment_def min_def)
    obtain k ks' ca1 where w: "ks = k # ks'" "takes_after k (now drv ca + HZ drv div 2) drv slot ca ?f = Some ca1"
        "accepts drv slot ca1 ks' (link_frags m cid (drop m (drop pos data))) = Some ca'"
      using Suc.prems(2) unfolding step by (cases ks) (auto split: Option.bind_splits)
    have "k < n" using Suc.prems(5) unfolding step w(1) by simp
    then have retry: "write_retry n drv ca slot ?f (now drv ca + HZ drv div 2) = Some (ca1, Inr ())"
      and same: "slot_info ca1 ! slot = slot_info ca ! slot"
      using takes_after_retry [OF w(2)] assms(4,5) Suc.prems(1) by simp_all
    have len: "nat (frag_len sl (length data - pos)) = ?len"
      using frag_len_eq [OF assms(3) d(2)] assms(2) by simp
    have "link_frags m cid (drop (pos + ?len) data) = link_frags m cid (drop m (drop pos data))"
      using Suc.prems(3) by (auto simp: min_def add.commute)
    then have loop: "write_loop n drv (\<lambda>_. False) ca1 slot cid data (pos + ?len) = Some (ca', int (length data) + 2)"
      using Suc.IH [of ca1 ks' "pos + ?len"] same w(1,3) Suc.prems(1,3-5) unfolding step by simp
    have go: "\<not> (length data \<le> pos \<or> link_buf_size sl - 2 < 0)" using d(2) assms(3) by simp
    show ?thesis
      unfolding write_loop.simps Let_def Suc.prems(1) len f retry if_not_P [OF go] using loop by simp
  qed
qed simp

lemma io_write_frags:
  assumes "slot < length (slot_info ca)" "slot < 256" "sl = slot_info ca ! slot" "slot_state sl = SLOT_RUNNING"
    "2 < link_buf_size sl" "m = nat (min (link_buf_size sl - 2) 510)" "0 \<le> HZ drv"
    "accepts drv slot ca ks (link_frags m cid data) = Some ca'" "length data + 1 < n" "\<forall>k \<in> set ks. length data + k < n"
  shows "io_write n drv (\<lambda>_. False) ca ([of_nat slot, cid] @ data) = Some (ca', int (length data) + 2)"
proof -
  have m: "0 < m" using assms(5,6) by simp
  have le: "length (link_frags m cid d) \<le> length d" for d
  proof (induction m cid d rule: link_frags.induct)
    case (1 m cid d)
    show ?case
    proof (cases "d = [] \<or> m = 0")
      case True
      then show ?thesis by (auto simp: link_frags.simps)
    next
      case False
      then have "length (link_frags m cid (drop m d)) \<le> length (drop m d)" using "1.IH" by blast
      then show ?thesis using False link_frags_step [of d m cid] by (cases d) auto
    qed
  qed
  have fuel: "length (link_frags m cid (drop 0 data)) + 1 < n" using le [of data] assms(9) by simp
  have tries: "\<forall>k \<in> set ks. length (link_frags m cid (drop 0 data)) + k < n" using le [of data] assms(10) by fastforce
  have "unat (of_nat slot :: byte) = slot" using assms(2) by (simp add: unat_of_nat)
  then show ?thesis
    using write_loop_frags [OF m assms(6,5,4,7), of ca slot ks cid 0 data ca' n] assms(1,3,4,8) fuel tries
    by (simp add: io_write_def)
qed

text \<open>A link buffer of two bytes leaves no room for data.\<close>

lemma write_loop_stuck:
  assumes "0 \<le> HZ drv" "link_buf_size sl = 2" "slot_state sl = SLOT_RUNNING" "data \<noteq> []"
    "\<And>ca. slot_info ca ! slot = sl \<Longrightarrow> \<exists>ca1. ca_write_data drv ca slot [cid, 0x80] 0 = (ca1, 2) \<and> slot_info ca1 ! slot = sl"
  shows "slot_info ca ! slot = sl \<Longrightarrow> write_loop n drv (\<lambda>_. False) ca slot cid data 0 = None"
proof (induction n arbitrary: ca)
  case (Suc n)
  from assms(5) [OF Suc.prems] obtain ca1 where w: "ca_write_data drv ca slot [cid, 0x80] 0 = (ca1, 2)" "slot_info ca1 ! slot = sl"
    by blast
  have len: "frag_len sl (length data) = 0" using assms(2,4) by (simp add: frag_len_def Let_def)
  have "write_retry n drv ca slot [cid, 0x80] (now drv ca + HZ drv div 2) \<in> {None, Some (ca1, Inr ())}"
    using w assms(1,3) Suc.prems by (cases n) simp_all
  then show ?case using Suc.IH [OF w(2)] Suc.prems assms(2,4) len by (auto simp: fragment_def Let_def)
qed simp

end
