(* ===== verification/CamInv.thy ===== *)
theory CamInv
  imports CamMessages
begin

subsection \<open>The invariant of the slots\<close>

text \<open>
  A slot that runs has a link buffer between 2 and 512 bytes and a receive buffer; a receive
  buffer is in order.
\<close>

definition slot_ok :: "ca_slot \<Rightarrow> bool" where
  "slot_ok sl \<longleftrightarrow> (slot_state sl = SLOT_RUNNING \<longrightarrow> 2 \<le> link_buf_size sl \<and> link_buf_size sl \<le> 512 \<and> rx_buffer sl \<noteq> None) \<and>
     (\<forall>r. rx_buffer sl = Some r \<longrightarrow> rx_ok r)"

definition ca_ok :: "'w ca \<Rightarrow> bool" where
  "ca_ok ca \<longleftrightarrow> (\<forall>sl \<in> set (slot_info ca). slot_ok sl) \<and> next_read_slot ca < length (slot_info ca)"

text \<open>
  Most of the code changes at most the state of a slot to one that does not run, and leaves the
  receive buffers alone.
\<close>

definition calm_slot :: "ca_slot \<Rightarrow> ca_slot \<Rightarrow> bool" where
  "calm_slot sl sl' \<longleftrightarrow> rx_buffer sl' = rx_buffer sl \<and>
     (slot_state sl' = SLOT_RUNNING \<longrightarrow> slot_state sl = SLOT_RUNNING \<and> link_buf_size sl' = link_buf_size sl)"

definition calm :: "'w ca \<Rightarrow> 'w ca \<Rightarrow> bool" where
  "calm ca ca' \<longleftrightarrow> next_read_slot ca' = next_read_slot ca \<and>
     list_all2 calm_slot (slot_info ca) (slot_info ca')"

lemma calm_slot_refl [simp]: "calm_slot sl sl"
  by (simp add: calm_slot_def)

lemma calm_refl [simp]: "calm ca ca"
  by (simp add: calm_def list_all2_refl)

lemma calm_trans: "calm a b \<Longrightarrow> calm b c \<Longrightarrow> calm a c"
  unfolding calm_def using list_all2_trans [of calm_slot calm_slot calm_slot "slot_info a" "slot_info b" "slot_info c"]
  by (simp add: calm_slot_def)

lemma calm_fields [simp]:
  "calm a (ca\<lparr>hw := w\<rparr>) = calm a ca" "calm a (ca\<lparr>ca_wakeup := x\<rparr>) = calm a ca" "calm a (ca\<lparr>ca_delay := y\<rparr>) = calm a ca"
  by (simp_all add: calm_def)

lemma calm_wakeup [simp]: "calm a (thread_wakeup ca) = calm a ca" "calm a (thread_update_delay drv ca) = calm a ca"
  "calm a (hw_do f ca) = calm a ca"
  by (simp_all add: thread_wakeup_def thread_update_delay_def hw_do_def)

lemma calm_upd_sl:
  assumes "calm a ca" "rx_buffer (f (slot_info ca ! slot)) = rx_buffer (slot_info ca ! slot)"
    "slot_state (f (slot_info ca ! slot)) = SLOT_RUNNING \<Longrightarrow>
      slot_state (slot_info ca ! slot) = SLOT_RUNNING \<and> link_buf_size (f (slot_info ca ! slot)) = link_buf_size (slot_info ca ! slot)"
  shows "calm a (upd_sl slot f ca)"
proof -
  have "calm_slot (slot_info ca ! i) (slot_info (upd_sl slot f ca) ! i)" if "i < length (slot_info ca)" for i
    using assms(2,3) that by (cases "i = slot") (auto simp: calm_slot_def upd_sl_def)
  then have "calm ca (upd_sl slot f ca)" by (simp add: calm_def list_all2_conv_all_nth upd_sl_def)
  with assms(1) show ?thesis by (rule calm_trans)
qed

lemma calm_set_state: "calm a ca \<Longrightarrow> s \<noteq> SLOT_RUNNING \<Longrightarrow> calm a (set_state slot s ca)"
  unfolding set_state_def by (rule calm_upd_sl) simp_all

lemma calm_on_hw: "on_hw f ca = (r, ca') \<Longrightarrow> calm a ca \<Longrightarrow> calm a ca'"
  by (auto simp: on_hw_def split: prod.splits)

lemma on_hwD: "on_hw f ca = (r, ca') \<Longrightarrow> \<exists>w. ca' = ca\<lparr>hw := w\<rparr>"
  by (auto simp: on_hw_def split: prod.splits)

lemma slot_ok_calm:
  assumes "slot_ok sl" "calm_slot sl sl'"
  shows "slot_ok sl'"
  using assms by (auto simp: slot_ok_def calm_slot_def)

lemma ca_ok_calm:
  assumes "ca_ok ca" "calm ca ca'"
  shows "ca_ok ca'"
proof -
  have len: "length (slot_info ca') = length (slot_info ca)" using assms(2) by (auto simp: calm_def list_all2_lengthD)
  have "slot_ok (slot_info ca' ! i)" if "i < length (slot_info ca')" for i
    using assms that len slot_ok_calm [of "slot_info ca ! i" "slot_info ca' ! i"]
    by (auto simp: calm_def ca_ok_def list_all2_conv_all_nth)
  then show ?thesis using assms len by (auto simp: ca_ok_def calm_def in_set_conv_nth)
qed

text \<open>The registers.\<close>

lemma calm_check_camstatus:
  "check_camstatus drv ca slot = Some (ca', ch) \<Longrightarrow> calm ca ca'"
  by (auto simp: check_camstatus_def Let_def split: if_splits option.splits prod.splits dest!: on_hwD
    intro!: calm_upd_sl calm_set_state)

lemma calm_wait_loop: "wait_if_status_loop n drv ca slot w t = Some (ca', r) \<Longrightarrow> calm a ca \<Longrightarrow> calm a ca'"
  by (induction n drv ca slot w t rule: wait_if_status_loop.induct)
    (auto simp: Let_def split: if_splits prod.splits dest!: on_hwD)

lemma calm_wait: "wait_if_status n drv ca slot w t = Some (ca', r) \<Longrightarrow> calm a ca \<Longrightarrow> calm a ca'"
  by (auto simp: wait_if_status_def intro: calm_wait_loop)

lemma calm_read_bytes: "read_bytes drv slot n ca = (r, ca') \<Longrightarrow> calm a ca \<Longrightarrow> calm a ca'"
  by (induction n arbitrary: ca r) (auto simp: Let_def split: if_splits prod.splits dest!: on_hwD)

lemma calm_read_fill: "read_fill drv ca slot n = Some (ca', r) \<Longrightarrow> calm a ca \<Longrightarrow> calm a ca'"
  by (auto simp: read_fill_def Let_def split: if_splits prod.splits sum.splits dest!: on_hwD calm_read_bytes [where a = a]
    intro!: calm_set_state)

lemma calm_read_regs: "read_regs drv ca slot e = Some (ca', r) \<Longrightarrow> calm a ca \<Longrightarrow> calm a ca'"
  by (auto simp: read_regs_def Let_def split: if_splits prod.splits option.splits dest!: on_hwD
    intro!: calm_set_state elim!: calm_read_fill)

lemma calm_read_packet: "read_packet drv ca slot e = Some (ca', r) \<Longrightarrow> calm a ca \<Longrightarrow> calm a ca'"
  by (auto simp: read_packet_def Let_def split: if_splits prod.splits option.splits dest!: on_hwD elim!: calm_read_regs)

lemma calm_write_bytes: "write_bytes drv slot bs ca = (r, ca') \<Longrightarrow> calm a ca \<Longrightarrow> calm a ca'"
  by (induction bs arbitrary: ca) (auto simp: Let_def split: if_splits prod.splits dest!: on_hwD)

lemma calm_write_regs: "write_regs drv ca slot b f = (ca', r) \<Longrightarrow> calm a ca \<Longrightarrow> calm a ca'"
  by (auto simp: write_regs_def Let_def split: if_splits prod.splits dest!: on_hwD calm_write_bytes [where a = a]
    intro!: calm_set_state)

lemma calm_write_data: "ca_write_data drv ca slot b f = (ca', r) \<Longrightarrow> calm a ca \<Longrightarrow> calm a ca'"
  by (auto simp: ca_write_data_def Let_def on_hw_def split: if_splits prod.splits dest!: calm_write_regs [where a = a])

lemma calm_read_some: "ca_read_data drv ca slot (Some n) = Some (ca', st, bs) \<Longrightarrow> calm a ca \<Longrightarrow> calm a ca'"
  by (auto simp: ca_read_data_def read_space_def split: sum.splits Option.bind_splits elim!: calm_read_packet)

text \<open>The tuples.\<close>

lemma calm_tuple_bytes: "tuple_bytes drv slot x n ca = (bs, ca') \<Longrightarrow> calm a ca \<Longrightarrow> calm a ca'"
  by (induction n arbitrary: x ca bs) (auto simp: Let_def split: prod.splits dest!: on_hwD)

lemma calm_read_tuple: "read_tuple drv ca slot x = Some (ca', r) \<Longrightarrow> calm a ca \<Longrightarrow> calm a ca'"
  by (auto simp: read_tuple_def Let_def split: if_splits prod.splits dest!: on_hwD calm_tuple_bytes [where a = a])

lemma calm_expect:
  assumes "expect_tuple drv slot typ ca x f = Some (ca', r)" "calm a ca"
    "\<And>ca1 y bs ca2 r. f ca1 y bs = Some (ca2, r) \<Longrightarrow> calm a ca1 \<Longrightarrow> calm a ca2"
  shows "calm a ca'"
  using assms by (auto simp: expect_tuple_def split: Option.bind_splits sum.splits if_splits prod.splits dest!: calm_read_tuple [where a = a])

lemma calm_cis_loop: "cis_loop drv slot g e x ca = Some (ca', r) \<Longrightarrow> calm a ca \<Longrightarrow> calm a ca'"
proof (induction drv slot g e x ca rule: cis_loop.induct)
  case (1 drv slot g e x ca)
  show ?case
  proof (cases "e \<or> x \<ge> 0x1000")
    case True
    then show ?thesis using "1.prems" by (simp add: cis_loop.simps)
  next
    case False
    show ?thesis
    proof (cases "read_tuple drv ca slot x")
      case None
      then show ?thesis using "1.prems" False by (simp add: cis_loop.simps)
    next
      case (Some y)
      then obtain ca1 z where y: "read_tuple drv ca slot x = Some (ca1, z)" by (cases y) auto
      have c1: "calm a ca1" using calm_read_tuple [OF y "1.prems"(2)] .
      show ?thesis
      proof (cases z)
        case (Inl st)
        then show ?thesis using "1.prems" False y c1 by (simp add: cis_loop.simps)
      next
        case (Inr v)
        then obtain x1 t bs where v: "z = Inr (x1, t, bs)" by (cases v) auto
        let ?q = "if t = 0x1B then cftable_entry slot bs g ca1 else (ca1, g)"
        have q: "calm a (fst ?q)"
          using c1 by (auto simp: cftable_entry_def intro!: calm_upd_sl)
        have "cis_loop drv slot (snd ?q) (t = 0xff) x1 (fst ?q) = Some (ca', r)"
          using "1.prems"(1) False y v by (simp add: cis_loop.simps [of drv slot g e x ca] split_def Let_def split: if_splits)
        then show ?thesis
          using "1.IH" [OF False y refl v refl refl, of ?q "fst ?q" "snd ?q"] q by simp
      qed
    qed
  qed
qed

lemma calm_parse:
  assumes "parse_attributes drv ca slot = Some (ca', r)" "calm a ca"
  shows "calm a ca'"
proof -
  have last: "calm a ca2"
    if "(if length bs < 3 then Some (ca1, - EINVAL)
         else if length bs < 3 + unat (bs ! 0 AND 3) + 14 then Some (ca1, - EINVAL)
         else let ca1 = upd_sl slot (\<lambda>sl. sl\<lparr>config_base := config_base_of bs\<rparr>) ca1
              in case findstr bs DVB_CI_V of
                   None \<Rightarrow> Some (ca1, - EINVAL)
                 | Some i \<Rightarrow>
                     if length bs < i + 12 then Some (ca1, - EINVAL)
                     else if take 4 (drop (i + 8) bs) \<noteq> VERSION_1_00 then Some (ca1, - EINVAL)
                     else do {
                       (ca2, r) \<leftarrow> cis_loop drv slot False False x ca1;
                       Some (ca2, case r of Inl st \<Rightarrow> st
                         | Inr (address, g) \<Rightarrow> if address > 0x1000 \<or> \<not> g then - EINVAL else 0) }) = Some (ca2, r)"
      "calm a ca1" for ca1 ca2 x bs r
  proof -
    have "calm a (upd_sl slot (\<lambda>sl. sl\<lparr>config_base := config_base_of bs\<rparr>) ca1)" using that(2) by (rule calm_upd_sl) simp_all
    then show ?thesis using that
      by (auto simp: Let_def split: if_splits option.splits Option.bind_splits elim!: calm_cis_loop)
  qed
  show ?thesis
    using assms unfolding parse_attributes_def
    by (elim calm_expect) (auto split: if_splits elim!: calm_expect last)
qed

lemma calm_configoption: "set_configoption drv ca slot = (ca', r) \<Longrightarrow> calm a ca \<Longrightarrow> calm a ca'"
  by (auto simp: set_configoption_def Let_def split: prod.splits dest!: on_hwD)

lemma calm_give_up: "calm a ca \<Longrightarrow> s \<noteq> SLOT_RUNNING \<Longrightarrow> calm a (give_up drv slot s ca)"
  by (simp add: give_up_def calm_set_state)

lemma calm_poll_gone: "poll_cam_gone drv ca slot = (ca', g) \<Longrightarrow> calm a ca \<Longrightarrow> calm a ca'"
  by (auto simp: poll_cam_gone_def Let_def split: option.splits if_splits prod.splits dest!: on_hwD intro!: calm_set_state)

lemma calm_shutdown: "calm a ca \<Longrightarrow> calm a (ca_slot_shutdown drv ca slot)"
  by (simp add: ca_slot_shutdown_def calm_set_state)

lemma calm_camchange_irq: "calm a ca \<Longrightarrow> calm a (neumo_dvb_ca_en50221_camchange_irq ca slot t)"
  by (auto simp: neumo_dvb_ca_en50221_camchange_irq_def intro!: calm_upd_sl)

lemma calm_camchange_loop: "camchange_loop n drv ca slot = Some ca' \<Longrightarrow> calm a ca \<Longrightarrow> calm a ca'"
proof (induction n arbitrary: ca)
  case (Suc n)
  from Suc.prems obtain ca1 ch where ch: "check_camstatus drv ca slot = Some (ca1, ch)"
    by (auto split: Option.bind_splits)
  have c1: "calm a ca1" using calm_trans [OF Suc.prems(2) calm_check_camstatus [OF ch]] .
  show ?case
  proof (cases ch)
    case False
    then show ?thesis using Suc.prems ch c1 by simp
  next
    case True
    let ?ca2 = "if slot_state (slot_info ca1 ! slot) \<noteq> SLOT_NONE then ca_slot_shutdown drv ca1 slot else ca1"
    let ?ca3 = "if camchange_type (slot_info ?ca2 ! slot) = CAMCHANGE_INSERTED then set_state slot SLOT_UNINITIALISED ?ca2 else ?ca2"
    let ?ca4 = "upd_sl slot (\<lambda>sl. sl\<lparr>camchange_count := camchange_count sl - 1\<rparr>) (thread_update_delay drv ?ca3)"
    have "calm a ?ca2" using c1 by (simp add: calm_shutdown)
    then have "calm a ?ca3" by (simp add: calm_set_state)
    then have "calm a ?ca4" by (intro calm_upd_sl) simp_all
    moreover have "camchange_loop n drv ?ca4 slot = Some ca'" using Suc.prems(1) ch True by (simp add: Let_def)
    ultimately show ?thesis using Suc.IH by blast
  qed
qed simp

text \<open>The negotiation: while it runs the slot does not, and after it the size is within bounds.\<close>

lemma or_failE:
  assumes "or_fail x f = Some (ca', r)"
  obtains (fails) "x = Some (ca', r)" "r \<noteq> 0" | (works) ca1 where "x = Some (ca1, 0)" "f ca1 = Some (ca', r)"
  using assms by (auto simp: or_fail_def split: Option.bind_splits if_splits)

lemma calm_or_fail:
  assumes "or_fail x f = Some (ca', r)" "\<And>ca1 r1. x = Some (ca1, r1) \<Longrightarrow> calm a ca1"
    "\<And>ca1 ca2 r2. calm a ca1 \<Longrightarrow> f ca1 = Some (ca2, r2) \<Longrightarrow> calm a ca2"
  shows "calm a ca'"
  using assms(1) by (rule or_failE) (use assms(2,3) in blast)+

lemma calm_command: "command drv slot c ca = Some (ca', r) \<Longrightarrow> calm a ca \<Longrightarrow> calm a ca'"
  by (auto simp: command_def on_hw_def split: prod.splits)



lemma calm_idle:
  assumes "calm a b" "slot < length (slot_info a)" "slot_state (slot_info a ! slot) \<noteq> SLOT_RUNNING"
  shows "slot_state (slot_info b ! slot) \<noteq> SLOT_RUNNING"
  using assms by (auto simp: calm_def calm_slot_def list_all2_conv_all_nth)

lemma calm_length: "calm a b \<Longrightarrow> length (slot_info b) = length (slot_info a)"
  by (auto simp: calm_def list_all2_lengthD)

text \<open>Steps that leave the size of the link buffer alone.\<close>

definition link_size :: "nat \<Rightarrow> 'w ca \<Rightarrow> int" where
  "link_size slot ca = link_buf_size (slot_info ca ! slot)"

lemma link_size_upd [simp]: "slot < length (slot_info ca) \<Longrightarrow> link_size slot (upd_sl slot f ca) = link_buf_size (f (slot_info ca ! slot))"
  by (simp add: link_size_def upd_sl_def)

lemma link_size_fields [simp]:
  "link_size slot (ca\<lparr>hw := w\<rparr>) = link_size slot ca" "link_size slot (ca\<lparr>ca_wakeup := x\<rparr>) = link_size slot ca"
  "link_size slot (thread_wakeup ca) = link_size slot ca" "link_size slot (hw_do g ca) = link_size slot ca"
  "link_size slot (thread_update_delay drv ca) = link_size slot ca"
  by (simp_all add: link_size_def thread_wakeup_def hw_do_def thread_update_delay_def)

lemma link_size_state [simp]: "link_size slot (set_state i s ca) = link_size slot ca"
  by (cases "i < length (slot_info ca)"; cases "i = slot") (simp_all add: link_size_def upd_sl_def set_state_def list_update_beyond)

lemma link_size_wait_loop: "wait_if_status_loop n drv ca slot w t = Some (ca', r) \<Longrightarrow> link_size i ca' = link_size i ca"
  by (induction n drv ca slot w t rule: wait_if_status_loop.induct)
    (auto simp: Let_def split: if_splits prod.splits dest!: on_hwD)

lemma link_size_write_bytes: "write_bytes drv slot bs ca = (r, ca') \<Longrightarrow> link_size i ca' = link_size i ca"
  by (induction bs arbitrary: ca) (auto simp: Let_def split: if_splits prod.splits dest!: on_hwD)

lemma link_size_write_regs: "write_regs drv ca slot b f = (ca', r) \<Longrightarrow> link_size i ca' = link_size i ca"
  by (auto simp: write_regs_def Let_def split: if_splits prod.splits dest!: on_hwD link_size_write_bytes [where i = i])

lemma link_size_write: "ca_write_data drv ca slot b f = (ca', r) \<Longrightarrow> link_size i ca' = link_size i ca"
  by (auto simp: ca_write_data_def Let_def on_hw_def split: if_splits prod.splits dest!: link_size_write_regs [where i = i])

lemma link_size_command: "command drv slot c ca = Some (ca', r) \<Longrightarrow> link_size i ca' = link_size i ca"
  by (auto simp: command_def on_hw_def split: prod.splits)

lemma ca_write_fits: "ca_write_data drv ca slot b f = (ca', r) \<Longrightarrow> 0 \<le> r \<Longrightarrow> int (length b) \<le> link_size slot ca"
  by (auto simp: ca_write_data_def link_size_def Let_def split: if_splits)

lemma ca_write_size:
  "ca_write_data drv ca slot b f = (ca', 2) \<Longrightarrow> int (length b) \<le> link_size slot ca \<and> link_size slot ca' = link_size slot ca"
  using ca_write_fits link_size_write by fastforce

text \<open>The second half of the negotiation, once the CAM has announced \<open>m\<close> bytes.\<close>

definition link_second :: "nat \<Rightarrow> 'w ca_driver \<Rightarrow> nat \<Rightarrow> nat \<Rightarrow> 'w ca \<Rightarrow> ('w ca \<times> int) option" where
  "link_second n drv slot m ca =
     or_fail (command drv slot (IRQEN OR CMDREG_SW) (upd_sl slot (\<lambda>sl. sl\<lparr>link_buf_size := int m\<rparr>) ca)) (\<lambda>ca6.
     or_fail (wait_if_status n drv ca6 slot STATUSREG_FR (HZ drv div 10)) (\<lambda>ca7.
       let (ca8, ret) = ca_write_data drv ca7 slot [of_nat (m div 256), of_nat (m mod 256)] CMDREG_SW
       in if ret \<noteq> 2 then Some (ca8, - EIO) else or_fail (command drv slot IRQEN ca8) (\<lambda>ca9. Some (ca9, 0))))"

lemma link_init_split:
  "ca_link_init n drv ca slot =
     or_fail (command drv slot (IRQEN OR CMDREG_SR)
         (upd_sl slot (\<lambda>sl. sl\<lparr>da_irq_supported := False, link_buf_size := 2\<rparr>) ca)) (\<lambda>ca1.
     or_fail (wait_if_status n drv ca1 slot STATUSREG_DA (HZ drv)) (\<lambda>ca2. do {
       (ca3, ret, buf) \<leftarrow> ca_read_data drv ca2 slot (Some 2);
       if ret \<noteq> 2 then Some (ca3, - EIO)
       else or_fail (command drv slot IRQEN ca3)
         (link_second n drv slot (min (unat (buf ! 0) * 256 + unat (buf ! 1)) 512)) }))"
proof -
  have m: "(if c > 512 then 512 else c) = min c 512" for c :: nat by simp
  show ?thesis unfolding ca_link_init_def link_second_def Let_def m ..
qed

lemma link_second_fits:
  assumes "link_second n drv slot m ca = Some (ca', 0)" "slot < length (slot_info ca)"
  shows "link_size slot ca' = int m \<and> 2 \<le> m"
  using assms unfolding link_second_def wait_if_status_def
  by (auto elim!: or_failE simp: Let_def dest!: link_size_command [where i = slot] link_size_wait_loop [where i = slot]
     dest!: ca_write_size split: prod.splits if_splits)

lemma calm_second:
  assumes "link_second n drv slot m ca = Some (ca', r)" "slot < length (slot_info ca)" "slot_state (slot_info ca ! slot) \<noteq> SLOT_RUNNING"
  shows "calm ca ca'"
proof -
  have "calm ca (upd_sl slot (\<lambda>sl. sl\<lparr>link_buf_size := int m\<rparr>) ca)"
    by (rule calm_upd_sl) (use assms(3) in simp_all)
  then show ?thesis using assms(1) unfolding link_second_def
    by (elim calm_or_fail) (auto elim: calm_command calm_wait calm_or_fail dest!: calm_write_data [where a = ca] split: prod.splits if_splits)
qed

lemma link_init_state:
  assumes "ca_link_init n drv ca slot = Some (ca', r)" "slot < length (slot_info ca)" "slot_state (slot_info ca ! slot) \<noteq> SLOT_RUNNING"
  shows "calm ca ca' \<and> (r = 0 \<longrightarrow> 2 \<le> link_size slot ca' \<and> link_size slot ca' \<le> 512)"
proof -
  let ?ca0 = "upd_sl slot (\<lambda>sl. sl\<lparr>da_irq_supported := False, link_buf_size := 2\<rparr>) ca"
  have c0: "calm ca ?ca0" by (rule calm_upd_sl) (use assms(3) in simp_all)
  from assms(1)[unfolded link_init_split] show ?thesis
  proof (cases rule: or_failE)
    case fails
    then show ?thesis using calm_command [OF fails(1) c0] by simp
  next
    case (works ca1)
    note c1 = calm_command [OF works(1) c0]
    from works(2) show ?thesis
    proof (cases rule: or_failE)
      case fails
      then show ?thesis using calm_wait [OF fails(1) c1] by simp
    next
      case (works ca2)
      note c2 = calm_wait [OF works(1) c1]
      from works(2) obtain ca3 ret buf where rd: "ca_read_data drv ca2 slot (Some 2) = Some (ca3, ret, buf)"
        by (auto split: Option.bind_splits)
      note c3 = calm_read_some [OF rd c2]
      show ?thesis
      proof (cases "ret = 2")
        case False
        then show ?thesis using works(2) rd c3 by auto
      next
        case True
        let ?m = "min (unat (buf ! 0) * 256 + unat (buf ! 1)) 512"
        from works(2) rd True have "or_fail (command drv slot IRQEN ca3) (link_second n drv slot ?m) = Some (ca', r)" by simp
        then show ?thesis
        proof (cases rule: or_failE)
          case fails
          then show ?thesis using calm_command [OF fails(1) c3] by simp
        next
          case (works ca4)
          note c4 = calm_command [OF works(1) c3]
          note i4 = calm_idle [OF c4 assms(2,3)]
          have s4: "slot < length (slot_info ca4)" using assms(2) calm_length [OF c4] by simp
          show ?thesis using calm_trans [OF c4 calm_second [OF works(2) s4 i4]] link_second_fits [of n drv slot ?m ca4 ca'] works(2) s4
            by auto
        qed
      qed
    qed
  qed
qed

text \<open>A packet that is read has between two bytes and the size of the link buffer.\<close>

lemma length_read_bytes: "read_bytes drv slot n ca = (Inr bs, ca') \<Longrightarrow> length bs = n"
  by (induction n arbitrary: ca bs ca') (auto simp: Let_def map_sum_def split: if_splits prod.splits sum.splits)

lemma read_fill_length: "read_fill drv ca slot n = Some (ca', Inr bs) \<Longrightarrow> length bs = n"
  by (auto simp: read_fill_def Let_def split: if_splits prod.splits sum.splits dest!: length_read_bytes)

lemma read_regs_length:
  "read_regs drv ca slot None = Some (ca', Inr bs) \<Longrightarrow> 2 \<le> length bs \<and> int (length bs) \<le> link_size slot ca"
  by (auto simp: read_regs_def link_size_def Let_def split: if_splits prod.splits dest!: read_fill_length)

lemma rx_ok_queue:
  assumes "rx_ok r"
  obtains Q where "rb_queue r Q" "frags_ok Q" "rb_size r = 65535"
  using assms by (auto simp: rx_ok_def)

lemma rx_ok_wf: "rx_ok r \<Longrightarrow> rb_wf r"
  by (auto simp: rx_ok_def rb_queue_def rb_pkts_def)

lemma rx_ok_put:
  assumes "rx_ok r" "2 \<le> length bs" "int (length bs) + 3 \<le> dvb_ringbuffer_free r"
  shows "\<exists>r' n. dvb_ringbuffer_pkt_write r bs = Some (r', n) \<and> rx_ok r'"
proof -
  obtain Q where Q: "rb_queue r Q" "frags_ok Q" "rb_size r = 65535" by (rule rx_ok_queue [OF assms(1)])
  have "rb_used r + length bs + 3 < rb_size r" 
    using assms(3) free_eq [OF rx_ok_wf [OF assms(1)]] by simp
  moreover have "length bs < 65536" using calculation Q(3) by simp
  ultimately obtain r' p where r': "dvb_ringbuffer_pkt_write r bs = Some (r', int (length bs))"
      "rb_queue r' (Q @ [(p, bs)])" "rb_size r' = rb_size r"
    using rb_put_queue [OF Q(1), of bs] assms(2) by fastforce
  then have "rx_ok r'" using Q assms(2) by (intro rx_okI [OF r'(2)]) simp_all
  with r'(1) show ?thesis by blast
qed

text \<open>Reading keeps the slots in order, and a read through the registers returns.\<close>

lemma ca_ok_slot: "ca_ok ca \<Longrightarrow> slot < length (slot_info ca) \<Longrightarrow> slot_ok (slot_info ca ! slot)"
  by (simp add: ca_ok_def)

lemma ca_ok_upd:
  assumes "ca_ok ca" "slot < length (slot_info ca) \<Longrightarrow> slot_ok (f (slot_info ca ! slot))"
  shows "ca_ok (upd_sl slot f ca)"
proof (cases "slot < length (slot_info ca)")
  case True
  then show ?thesis using assms set_update_subset_insert [of "slot_info ca" slot "f (slot_info ca ! slot)"]
    by (auto simp: ca_ok_def upd_sl_def)
next
  case False
  then show ?thesis using assms(1) by (simp add: ca_ok_def upd_sl_def list_update_beyond)
qed

lemma read_packet_length:
  assumes "read_packet drv ca slot None = Some (ca', Inr bs)" "drv_read_data drv = None"
  shows "2 \<le> length bs \<and> int (length bs) \<le> link_size slot ca"
  using assms read_regs_length by (simp add: read_packet_def)

lemma calm_rx:
  "calm a b \<Longrightarrow> slot < length (slot_info a) \<Longrightarrow> rx_buffer (slot_info b ! slot) = rx_buffer (slot_info a ! slot)"
  by (simp add: calm_def calm_slot_def list_all2_conv_all_nth)

lemma ca_read_rx:
  assumes "ca_ok ca" "slot < length (slot_info ca)" "drv_read_data drv = None"
    "ca_read_data drv ca slot None = Some (ca', st, bs)"
  shows "ca_ok ca' \<and> length (slot_info ca') = length (slot_info ca)"
proof (cases "read_space (slot_info ca ! slot) None")
  case (Some e)
  then show ?thesis using assms by (simp add: ca_read_data_def)
next
  case None
  then obtain r where r: "rx_buffer (slot_info ca ! slot) = Some r" "dvb_ringbuffer_free r \<ge> link_size slot ca + 3"
    by (auto simp: read_space_def link_size_def split: option.splits if_splits)
  have r_ok: "rx_ok r" using ca_ok_slot [OF assms(1,2)] r(1) by (simp add: slot_ok_def)
  obtain ca1 res where rd: "read_packet drv ca slot None = Some (ca1, res)"
    using assms(4) None by (auto simp: ca_read_data_def split: Option.bind_splits)
  have c1: "calm ca ca1" by (rule calm_read_packet [OF rd calm_refl])
  note ok1 = ca_ok_calm [OF assms(1) c1] and len1 = calm_length [OF c1]
  show ?thesis
  proof (cases res)
    case (Inl e)
    then show ?thesis using assms(4) None rd ok1 len1 by (simp add: ca_read_data_def)
  next
    case (Inr p)
    note len = read_packet_length [OF rd [unfolded Inr] assms(3)]
    then obtain r' n where r': "dvb_ringbuffer_pkt_write r p = Some (r', n)" "rx_ok r'"
      using rx_ok_put [OF r_ok, of p] r(2) by auto
    have rx1: "rx_buffer (slot_info ca1 ! slot) = Some r" using calm_rx [OF c1 assms(2)] r(1) by simp
    have ok': "slot_ok ((slot_info ca1 ! slot)\<lparr>rx_buffer := Some r'\<rparr>)"
      using ca_ok_slot [OF ok1] assms(2) len1 r'(2) rx1 by (auto simp: slot_ok_def)
    then have "ca_ok (upd_sl slot (\<lambda>sl. sl\<lparr>rx_buffer := Some r'\<rparr>) ca1)"
      by (intro ca_ok_upd [OF ok1]) simp
    then show ?thesis using assms(4) None rd Inr rx1 r'(1) len1 by (auto simp: ca_read_data_def upd_sl_def)
  qed
qed

lemma rx_loop_ok:
  assumes "drv_read_data drv = None"
  shows "rx_loop k drv ca slot = Some ca' \<Longrightarrow> ca_ok ca \<Longrightarrow> slot < length (slot_info ca) \<Longrightarrow>
    ca_ok ca' \<and> length (slot_info ca') = length (slot_info ca)"
proof (induction k arbitrary: ca)
  case (Suc k)
  from Suc.prems(1) obtain ca1 st bs where rd: "ca_read_data drv ca slot None = Some (ca1, st, bs)"
    by (auto split: Option.bind_splits)
  note ok1 = ca_read_rx [OF Suc.prems(2,3) assms rd]
  show ?case
  proof (cases "st \<le> 0 \<or> \<not> ca_open ca1")
    case True
    then show ?thesis using Suc.prems(1) rd ok1 by simp
  next
    case False
    then obtain ca2 ch where ch: "check_camstatus drv ca1 slot = Some (ca2, ch)"
      using Suc.prems(1) rd by (auto split: Option.bind_splits)
    note c2 = calm_check_camstatus [OF ch]
    note ok2 = ca_ok_calm [OF conjunct1 [OF ok1] c2] and len2 = calm_length [OF c2]
    show ?thesis
    proof (cases "ch \<or> k = 0")
      case True
      then have "ca' = ca2\<lparr>ca_wakeup := True\<rparr>" using Suc.prems(1) rd False ch by simp
      then show ?thesis using ok1 ok2 len2 by (simp add: ca_ok_def)
    next
      case nz: False
      then have "rx_loop k drv ca2 slot = Some ca'" using Suc.prems(1) rd False ch by simp
      then show ?thesis using Suc.IH [of ca2] ok1 ok2 len2 Suc.prems(3) by simp
    qed
  qed
qed simp

text \<open>The steps of the thread.\<close>

lemma set_running_ok:
  assumes "ca_ok ca" "slot < length (slot_info ca) \<Longrightarrow> 2 \<le> link_size slot ca \<and> link_size slot ca \<le> 512 \<and> rx_buffer (slot_info ca ! slot) \<noteq> None"
  shows "ca_ok (set_state slot SLOT_RUNNING ca)"
  unfolding set_state_def using assms ca_ok_slot [OF assms(1)]
  by (intro ca_ok_upd [OF assms(1)]) (auto simp: slot_ok_def link_size_def)

lemma init_rx_ok:
  assumes "length d = 65535"
  shows "rx_ok (dvb_ringbuffer_init d 65535)"
proof -
  have "rb_pkts (dvb_ringbuffer_init d 65535) []" using ring_init [of d 65535] assms
    by (simp add: rb_pkts_def pkts_enc_def)
  then have "rb_queue (dvb_ringbuffer_init d 65535) []" by (rule rb_queueI) (simp add: ready_at_def)
  then show ?thesis by (rule rx_okI) (simp_all add: dvb_ringbuffer_init_def)
qed

lemma ca_ok_fields [simp]:
  "ca_ok (ca\<lparr>hw := w\<rparr>) = ca_ok ca" "ca_ok (ca\<lparr>ca_wakeup := x\<rparr>) = ca_ok ca" "ca_ok (ca\<lparr>ca_delay := y\<rparr>) = ca_ok ca"
  "ca_ok (thread_wakeup ca) = ca_ok ca" "ca_ok (thread_update_delay drv ca) = ca_ok ca" "ca_ok (hw_do f ca) = ca_ok ca"
  by (simp_all add: ca_ok_def thread_wakeup_def thread_update_delay_def hw_do_def)

lemma calm_timeout: "calm a ca \<Longrightarrow> calm a (set_timeout drv slot ca)"
  by (auto simp: set_timeout_def intro!: calm_upd_sl)

lemma run_slot_ok:
  assumes "ca_ok ca" "slot < length (slot_info ca)" "2 \<le> link_size slot ca" "link_size slot ca \<le> 512"
    "rx_buffer (slot_info ca ! slot) \<noteq> None"
  shows "ca_ok (give_up drv slot SLOT_RUNNING (hw_do f ca)) \<and>
    length (slot_info (give_up drv slot SLOT_RUNNING (hw_do f ca))) = length (slot_info ca)"
proof -
  have "ca_ok (set_state slot SLOT_RUNNING (hw_do f ca))"
    using set_running_ok [of "hw_do f ca" slot] assms by simp (simp add: hw_do_def)
  then show ?thesis by (simp add: give_up_def set_state_def upd_sl_def hw_do_def thread_update_delay_def)
qed

lemma slot_validate_calm:
  assumes "slot_state (slot_info ca ! slot) = SLOT_VALIDATE" "slot_step n rxbuf drv ca slot = Some ca'"
  shows "calm ca ca'"
proof -
  obtain ca1 r where p: "parse_attributes drv ca slot = Some (ca1, r)"
    using assms by (auto simp: slot_step_def split: Option.bind_splits)
  note c1 = calm_parse [OF p calm_refl]
  obtain ca2 g where g: "poll_cam_gone drv ca1 slot = (ca2, g)" by fastforce
  obtain ca3 r3 where r3: "set_configoption drv ca1 slot = (ca3, r3)" by fastforce
  obtain ca4 r4 where r4: "on_hw (write_cam_control drv slot CTRLIF_COMMAND CMDREG_RS) ca3 = (r4, ca4)" by fastforce
  note c2 = calm_poll_gone [OF g c1] and c3 = calm_configoption [OF r3 c1]
  note c4 = calm_on_hw [OF r4 c3]
  show ?thesis
    using assms p g r3 r4 c2 c3 c4
    by (auto simp: slot_step_def Let_def intro!: calm_give_up calm_set_state calm_timeout split: if_splits)
qed

lemma slot_linkinit_ok:
  assumes "slot_state (slot_info ca ! slot) = SLOT_LINKINIT" "slot_step n rxbuf drv ca slot = Some ca'"
    "ca_ok ca" "slot < length (slot_info ca)" "\<And>d. rxbuf = Some d \<Longrightarrow> length d = 65535"
  shows "ca_ok ca' \<and> length (slot_info ca') = length (slot_info ca)"
proof -
  obtain ca1 r where l: "ca_link_init n drv ca slot = Some (ca1, r)"
    using assms by (auto simp: slot_step_def split: Option.bind_splits)
  from link_init_state [OF l assms(4)] assms(1) have c1: "calm ca ca1" and
    sz: "r = 0 \<Longrightarrow> 2 \<le> link_size slot ca1 \<and> link_size slot ca1 \<le> 512" by simp_all
  note ok1 = ca_ok_calm [OF assms(3) c1] and len1 = calm_length [OF c1]
  obtain ca2 g where g: "poll_cam_gone drv ca1 slot = (ca2, g)" by fastforce
  note c2 = calm_poll_gone [OF g c1]
  consider (failed) "r \<noteq> 0" | (no_mem) "r = 0" "rx_buffer (slot_info ca1 ! slot) = None" "rxbuf = None"
    | (alloc) d where "r = 0" "rx_buffer (slot_info ca1 ! slot) = None" "rxbuf = Some d"
    | (there) b where "r = 0" "rx_buffer (slot_info ca1 ! slot) = Some b"
    by (cases "rx_buffer (slot_info ca1 ! slot)"; cases rxbuf) auto
  then show ?thesis
  proof cases
    case failed
    then have "calm ca ca'" using assms(1,2) l g c2
      by (auto simp: slot_step_def Let_def intro!: calm_give_up split: if_splits)
    then show ?thesis using ca_ok_calm assms(3) calm_length by blast
  next
    case no_mem
    then have "calm ca ca'" using assms(1,2) l c1 by (auto simp: slot_step_def intro!: calm_give_up)
    then show ?thesis using ca_ok_calm assms(3) calm_length by blast
  next
    case alloc
    let ?ca = "upd_sl slot (\<lambda>sl. sl\<lparr>rx_buffer := Some (dvb_ringbuffer_init d 65535)\<rparr>) ca1"
    have "slot_ok ((slot_info ca1 ! slot)\<lparr>rx_buffer := Some (dvb_ringbuffer_init d 65535)\<rparr>)"
      using ca_ok_slot [OF ok1] assms(4) len1 init_rx_ok [OF assms(5) [OF alloc(3)]] by (auto simp: slot_ok_def)
    then have "ca_ok ?ca" by (intro ca_ok_upd [OF ok1]) simp
    moreover have "rx_buffer (slot_info ?ca ! slot) \<noteq> None" "slot < length (slot_info ?ca)" "length (slot_info ?ca) = length (slot_info ca)"
      using assms(4) len1 by (simp_all add: upd_sl_def)
    moreover have "2 \<le> link_size slot ?ca" "link_size slot ?ca \<le> 512" using sz [OF alloc(1)] assms(4) len1
      by (simp_all add: link_size_def [of slot ca1])
    moreover have "ca' = give_up drv slot SLOT_RUNNING (hw_do (slot_ts_enable drv slot) ?ca)"
      using assms(1,2) l alloc by (simp add: slot_step_def)
    ultimately show ?thesis using run_slot_ok [of ?ca slot drv "slot_ts_enable drv slot"] by (simp only:) simp
  next
    case there
    moreover have "ca' = give_up drv slot SLOT_RUNNING (hw_do (slot_ts_enable drv slot) ca1)"
      using assms(1,2) l there by (simp add: slot_step_def)
    ultimately show ?thesis using run_slot_ok [OF ok1, of slot drv "slot_ts_enable drv slot"] sz len1 assms(4) by simp
  qed
qed

lemma slot_step_ok:
  assumes "slot_step n rxbuf drv ca slot = Some ca'" "ca_ok ca" "slot < length (slot_info ca)"
    "\<And>d. rxbuf = Some d \<Longrightarrow> length d = 65535" "drv_read_data drv = None"
  shows "ca_ok ca' \<and> length (slot_info ca') = length (slot_info ca)"
proof -
  have calm: ?thesis if "calm ca ca'" using ca_ok_calm [OF assms(2) that] calm_length [OF that] by simp
  show ?thesis
  proof (cases "slot_state (slot_info ca ! slot)")
    case SLOT_LINKINIT
    then show ?thesis using slot_linkinit_ok assms by blast
  next
    case SLOT_VALIDATE
    then show ?thesis using slot_validate_calm assms(1) calm by blast
  next
    case SLOT_RUNNING
    then show ?thesis using assms rx_loop_ok [OF assms(5)] by (auto simp: slot_step_def split: if_splits)
  next
    case SLOT_UNINITIALISED
    then show ?thesis using assms(1) by (intro calm) (auto simp: slot_step_def intro!: calm_timeout calm_set_state)
  next
    case SLOT_WAITREADY
    then show ?thesis using assms(1) by (intro calm) (auto simp: slot_step_def intro!: calm_give_up split: if_splits)
  next
    case SLOT_WAITFR
    then show ?thesis using assms(1)
      by (intro calm) (auto simp: slot_step_def Let_def intro!: calm_give_up calm_set_state split: if_splits prod.splits dest!: on_hwD)
  qed (use assms(1) calm in \<open>simp_all add: slot_step_def\<close>)
qed

lemma thread_turn_ok:
  assumes "ca_thread_turn n rxbuf drv ca = Some ca'" "ca_ok ca"
    "\<And>d. rxbuf = Some d \<Longrightarrow> length d = 65535" "drv_read_data drv = None"
  shows "ca_ok ca'"
proof -
  have slots: "thread_slots n rxbuf drv c ss = Some c' \<Longrightarrow> ca_ok c \<Longrightarrow> \<forall>s \<in> set ss. s < length (slot_info c) \<Longrightarrow> ca_ok c'" for ss c c'
  proof (induction ss arbitrary: c)
    case (Cons s ss)
    obtain c1 c2 where c1: "camchange_loop n drv c s = Some c1" and c2: "slot_step n rxbuf drv c1 s = Some c2"
      and go: "thread_slots n rxbuf drv c2 ss = Some c'"
      using Cons.prems(1) by (auto simp: thread_state_machine_def split: Option.bind_splits)
    note k1 = calm_camchange_loop [OF c1 calm_refl]
    have "ca_ok c2 \<and> length (slot_info c2) = length (slot_info c)"
      using slot_step_ok [OF c2 ca_ok_calm [OF Cons.prems(2) k1] _ assms(3,4)] calm_length [OF k1] Cons.prems(3) by simp
    then show ?case using Cons.IH [OF go] Cons.prems(3) by simp
  qed simp
  have "ca_ok (ca\<lparr>ca_wakeup := False\<rparr>)" using assms(2) by simp
  with slots [OF assms(1) [unfolded ca_thread_turn_def]] show ?thesis by simp
qed

lemma ca_ok_cong: "slot_info ca' = slot_info ca \<Longrightarrow> next_read_slot ca' = next_read_slot ca \<Longrightarrow> ca_ok ca' = ca_ok ca"
  by (simp add: ca_ok_def)

lemma write_retry_calm: "write_retry n drv ca slot f t = Some (ca', r) \<Longrightarrow> calm a ca \<Longrightarrow> calm a ca'"
proof (induction n arbitrary: ca)
  case (Suc n)
  obtain ca1 st where w: "ca_write_data drv ca slot f 0 = (ca1, st)" by fastforce
  show ?case using Suc.prems Suc.IH [of "hw_do (usleep drv) ca1"] w calm_write_data [OF w Suc.prems(2)]
    by (auto split: if_splits)
qed simp

lemma write_loop_calm: "write_loop n drv ft ca slot cid data pos = Some (ca', r) \<Longrightarrow> calm a ca \<Longrightarrow> calm a ca'"
proof (induction n arbitrary: ca pos)
  case (Suc n)
  show ?case
  proof (cases "pos \<ge> length data \<or> link_buf_size (slot_info ca ! slot) - 2 < 0 \<or> ft (pos + 2)")
    case True
    then show ?thesis using Suc.prems by (auto simp: Let_def split: if_splits)
  next
    case False
    let ?len = "nat (frag_len (slot_info ca ! slot) (length data - pos))"
    obtain ca1 q where w: "write_retry n drv ca slot (fragment cid data pos ?len) (now drv ca + HZ drv div 2) = Some (ca1, q)"
      using Suc.prems(1) False by (auto simp: Let_def split: if_splits Option.bind_splits)
    show ?thesis using Suc.prems Suc.IH [of ca1 "pos + ?len"] w write_retry_calm [OF w Suc.prems(2)] False
      by (auto simp: Let_def split: sum.splits)
  qed
qed simp

lemma io_write_calm: "io_write n drv ft ca buf = Some (ca', r) \<Longrightarrow> calm ca ca'"
  by (auto simp: io_write_def Let_def split: if_splits dest!: write_loop_calm [where a = ca])

text \<open>Reading: the search always ends, and finds a slot that has a receive buffer.\<close>

lemma scan_slots_total:
  assumes "ca_ok ca"
  shows "slot < length (slot_info ca) \<Longrightarrow> \<exists>res. scan_slots k ca slot cid = Some res \<and>
    (\<forall>s f. res = Inr (s, f) \<longrightarrow> s < length (slot_info ca) \<and>
      (\<forall>i. f = Some i \<longrightarrow> i < length (slot_info ca) \<and> rx_buffer (slot_info ca ! i) \<noteq> None))"
proof (induction k arbitrary: slot cid)
  case (Suc k)
  have n: "(slot + 1) mod length (slot_info ca) < length (slot_info ca)" by (rule mod_less_divisor) (use Suc.prems in linarith)
  note ih = Suc.IH [OF n]
  show ?case
  proof (cases "slot_state (slot_info ca ! slot) = SLOT_RUNNING")
    case False
    then show ?thesis using ih by (simp add: Let_def)
  next
    case True
    then obtain r where r: "rx_buffer (slot_info ca ! slot) = Some r" "rx_ok r"
      using ca_ok_slot [OF assms Suc.prems] by (auto simp: slot_ok_def)
    obtain Q where Q: "rb_queue r Q" "frags_ok Q" "rb_size r = 65535" by (rule rx_ok_queue [OF r(2)])
    obtain c1 f where "scan_message r (queue_head Q) cid = Some (c1, f)"
      using scan_message_queue [OF Q(1,2), of cid] by blast
    then show ?thesis using ih [of c1] n True r Suc.prems rxq.next_first [OF Q(1)]
      by (cases f) (auto simp: Let_def)
  qed
qed simp

lemma io_read_condition_ok:
  assumes "ca_ok ca"
  shows "\<exists>s f. io_read_condition ca = Some (ca\<lparr>next_read_slot := s\<rparr>, f) \<and> s < length (slot_info ca) \<and>
    (\<forall>i. f = Some i \<longrightarrow> i < length (slot_info ca) \<and> rx_buffer (slot_info ca ! i) \<noteq> None)"
proof -
  have nx: "next_read_slot ca < length (slot_info ca)" using assms by (simp add: ca_ok_def)
  obtain res where res: "scan_slots (length (slot_info ca)) ca (next_read_slot ca) None = Some res"
    "\<forall>s f. res = Inr (s, f) \<longrightarrow> s < length (slot_info ca) \<and>
      (\<forall>i. f = Some i \<longrightarrow> i < length (slot_info ca) \<and> rx_buffer (slot_info ca ! i) \<noteq> None)"
    using scan_slots_total [OF assms nx] by blast
  show ?thesis
  proof (cases res)
    case (Inl u)
    then show ?thesis using res nx
      by (intro exI [of _ "next_read_slot ca"] exI [of _ None]) (simp add: io_read_condition_def)
  next
    case (Inr q)
    obtain s f where "q = (s, f)" by fastforce
    then show ?thesis using res Inr by (intro exI [of _ s] exI [of _ f]) (simp add: io_read_condition_def)
  qed
qed

lemma ca_ok_next: "ca_ok ca \<Longrightarrow> s < length (slot_info ca) \<Longrightarrow> ca_ok (ca\<lparr>next_read_slot := s\<rparr>)"
  by (simp add: ca_ok_def)

lemma io_read_ok:
  assumes "ca_ok ca"
  shows "\<exists>ca' ans. io_read nonblock ok ca count = Some (ca', ans) \<and> ca_ok ca'"
proof (cases "count < 2")
  case True
  then show ?thesis using assms by (simp add: io_read_def)
next
  case False
  obtain s f where c: "io_read_condition ca = Some (ca\<lparr>next_read_slot := s\<rparr>, f)" "s < length (slot_info ca)"
    "\<forall>i. f = Some i \<longrightarrow> i < length (slot_info ca) \<and> rx_buffer (slot_info ca ! i) \<noteq> None"
    using io_read_condition_ok [OF assms] by blast
  note ok1 = ca_ok_next [OF assms c(2)]
  show ?thesis
  proof (cases f)
    case None
    then show ?thesis using False c(1) ok1 by (simp add: io_read_def)
  next
    case (Some i)
    then obtain r where r: "rx_buffer (slot_info ca ! i) = Some r" "i < length (slot_info ca)" using c(3) by auto
    have so: "slot_ok (slot_info ca ! i)" using ca_ok_slot [OF assms r(2)] .
    then obtain Q where Q: "rb_queue r Q" "frags_ok Q" "rb_size r = 65535" using r(1) rx_ok_queue [of r] by (auto simp: slot_ok_def)
    obtain r' st cc k out where m: "read_message ok count r (queue_head Q) None 2 [] = Some (r', st, cc, k, out)" "rx_ok r'"
      using read_message_total [of r "[]" Q ok count None 2 "[]"] Q by auto
    have "slot_ok ((slot_info ca ! i)\<lparr>rx_buffer := Some r'\<rparr>)" using so m(2) r(1) by (auto simp: slot_ok_def)
    then have "ca_ok (upd_sl i (\<lambda>sl. sl\<lparr>rx_buffer := Some r'\<rparr>) (ca\<lparr>next_read_slot := s\<rparr>))"
      by (intro ca_ok_upd [OF ok1]) simp
    then show ?thesis using False c(1) Some r m(1) rxq.next_first [OF Q(1)] by (simp add: io_read_def Let_def)
  qed
qed

lemma io_poll_ok:
  assumes "ca_ok ca"
  shows "\<exists>ca' ready. io_poll ca = Some (ca', ready) \<and> ca_ok ca'"
proof -
  obtain s f where c: "io_read_condition ca = Some (ca\<lparr>next_read_slot := s\<rparr>, f)" "s < length (slot_info ca)"
    using io_read_condition_ok [OF assms] by blast
  note ok1 = ca_ok_next [OF assms c(2)]
  obtain s' f' where c': "io_read_condition (ca\<lparr>next_read_slot := s\<rparr>) = Some (ca\<lparr>next_read_slot := s, next_read_slot := s'\<rparr>, f')"
      "s' < length (slot_info ca)"
    using io_read_condition_ok [OF ok1] by auto
  have "ca_ok (ca\<lparr>next_read_slot := s, next_read_slot := s'\<rparr>)" using ca_ok_next [OF ok1, of s'] c'(2) by simp
  then show ?thesis using c c' ok1 by (cases f) (auto simp: io_poll_def)
qed

lemma reset_slots_calm: "calm a ca \<Longrightarrow> calm a (reset_slots drv ca slots)"
proof (induction slots arbitrary: ca)
  case (Cons s slots)
  have "calm a (neumo_dvb_ca_en50221_camchange_irq (ca_slot_shutdown drv ca s) s CAMCHANGE_INSERTED)"
    by (intro calm_camchange_irq calm_shutdown Cons.prems)
  then show ?case using Cons calm_shutdown [OF Cons.prems] by (simp add: Let_def)
qed simp

lemma calm_camready: "calm ca (neumo_dvb_ca_en50221_camready_irq ca slot)"
  by (simp add: neumo_dvb_ca_en50221_camready_irq_def calm_set_state)

lemma calm_frda: "calm ca (neumo_dvb_ca_en50221_frda_irq drv ca slot)"
  by (auto simp: neumo_dvb_ca_en50221_frda_irq_def Let_def intro!: calm_upd_sl split: slot_state.splits prod.splits dest!: on_hwD)

lemma ioctl_ok:
  assumes "ca_ok ca" "io_do_ioctl intr drv ca cmd = (ca', r)"
  shows "ca_ok ca'"
proof -
  let ?ca = "reset_slots drv ca [0..<length (slot_info ca)]"
  have c: "calm ca ?ca" by (rule reset_slots_calm) simp
  have n: "0 < length (slot_info ?ca)" using assms(1) calm_length [OF c] by (auto simp: ca_ok_def)
  have "ca_ok (thread_wakeup (?ca\<lparr>next_read_slot := 0\<rparr>))" using ca_ok_next [OF ca_ok_calm [OF assms(1) c] n] by simp
  then show ?thesis using assms
    by (auto simp: io_do_ioctl_def Let_def split: if_splits ca_ioctl.splits)
qed

lemma open_slot_ok: "slot_ok sl \<Longrightarrow> open_slot sl = sl"
  by (auto simp: slot_ok_def open_slot_def split: option.splits)

lemma open_slots:
  assumes "ca_ok ca"
  shows "map open_slot (slot_info ca) = slot_info ca"
proof -
  have "map open_slot (slot_info ca) = map id (slot_info ca)"
    by (rule map_cong [OF refl]) (use assms in \<open>simp add: ca_ok_def open_slot_ok\<close>)
  then show ?thesis by simp
qed

lemma io_open_ok: "ca_ok ca \<Longrightarrow> io_open m g drv ca = (ca', r) \<Longrightarrow> ca_ok ca'"
  by (auto simp: io_open_def Let_def open_slots dvb_ca_private_get_def ca_ok_def thread_wakeup_def thread_update_delay_def split: if_splits)

lemma io_release_ok: "ca_ok ca \<Longrightarrow> io_release g drv ca = (Some ca', r) \<Longrightarrow> ca_ok ca'"
  by (auto simp: io_release_def dvb_ca_private_put_def ca_ok_def thread_update_delay_def split: if_splits)

text \<open>
  The states of an interface: the thread, slot by slot, the interrupts, the calls on the device
  node, and packets of a write that are in between steps of the others; the hardware changes as
  it likes.
\<close>

inductive ca_reachable :: "'w ca_driver \<Rightarrow> 'w ca \<Rightarrow> bool" for drv where
  init: "neumo_dvb_ca_en50221_init w flags slots 0 = Inr ca \<Longrightarrow> ca_reachable drv ca"
| hardware: "ca_reachable drv ca \<Longrightarrow> ca_reachable drv (ca\<lparr>hw := w\<rparr>)"
| slot_thread: "ca_reachable drv ca \<Longrightarrow> slot < length (slot_info ca) \<Longrightarrow> (\<And>d. rxbuf = Some d \<Longrightarrow> length d = RX_BUFFER_SIZE) \<Longrightarrow>
    thread_state_machine n rxbuf drv ca slot = Some ca' \<Longrightarrow> ca_reachable drv ca'"
| turn: "ca_reachable drv ca \<Longrightarrow> (\<And>d. rxbuf = Some d \<Longrightarrow> length d = RX_BUFFER_SIZE) \<Longrightarrow>
    ca_thread_turn n rxbuf drv ca = Some ca' \<Longrightarrow> ca_reachable drv ca'"
| camchange: "ca_reachable drv ca \<Longrightarrow> ca_reachable drv (neumo_dvb_ca_en50221_camchange_irq ca slot change)"
| camready: "ca_reachable drv ca \<Longrightarrow> ca_reachable drv (neumo_dvb_ca_en50221_camready_irq ca slot)"
| frda: "ca_reachable drv ca \<Longrightarrow> ca_reachable drv (neumo_dvb_ca_en50221_frda_irq drv ca slot)"
| do_ioctl: "ca_reachable drv ca \<Longrightarrow> io_do_ioctl intr drv ca cmd = (ca', r, a) \<Longrightarrow> ca_reachable drv ca'"
| opened: "ca_reachable drv ca \<Longrightarrow> io_open m g drv ca = (ca', r) \<Longrightarrow> ca_reachable drv ca'"
| closed: "ca_reachable drv ca \<Longrightarrow> io_release g drv ca = (Some ca', r) \<Longrightarrow> ca_reachable drv ca'"
| reading: "ca_reachable drv ca \<Longrightarrow> io_read nonblock ok ca count = Some (ca', ans) \<Longrightarrow> ca_reachable drv ca'"
| polling: "ca_reachable drv ca \<Longrightarrow> io_poll ca = Some (ca', ready) \<Longrightarrow> ca_reachable drv ca'"
| packet: "ca_reachable drv ca \<Longrightarrow> ca_write_data drv ca slot frag 0 = (ca', r) \<Longrightarrow> ca_reachable drv ca'"
| writing: "ca_reachable drv ca \<Longrightarrow> io_write n drv fault ca buf = Some (ca', r) \<Longrightarrow> ca_reachable drv ca'"

lemma init_ok: "neumo_dvb_ca_en50221_init w flags slots x = Inr ca \<Longrightarrow> ca_ok ca"
  by (auto simp: neumo_dvb_ca_en50221_init_def ca_ok_def new_slot_def slot_ok_def split: if_splits)

lemma state_machine_ok:
  assumes "thread_state_machine n rxbuf drv ca slot = Some ca'" "ca_ok ca" "slot < length (slot_info ca)"
    "\<And>d. rxbuf = Some d \<Longrightarrow> length d = RX_BUFFER_SIZE" "drv_read_data drv = None"
  shows "ca_ok ca'"
proof -
  obtain c1 where c1: "camchange_loop n drv ca slot = Some c1" and c2: "slot_step n rxbuf drv c1 slot = Some ca'"
    using assms(1) by (auto simp: thread_state_machine_def split: Option.bind_splits)
  note k1 = calm_camchange_loop [OF c1 calm_refl]
  show ?thesis using slot_step_ok [OF c2 ca_ok_calm [OF assms(2) k1] _ assms(4,5)] assms(3) calm_length [OF k1] by simp
qed

lemma ca_reachable_ok:
  assumes "ca_reachable drv ca" "drv_read_data drv = None"
  shows "ca_ok ca"
  using assms(1)
proof induction
  case (init w flags slots ca)
  then show ?case by (rule init_ok)
next
  case (slot_thread ca slot rxbuf n ca')
  then show ?case using state_machine_ok assms(2) by blast
next
  case (turn ca rxbuf n ca')
  then show ?case using thread_turn_ok assms(2) by blast
next
  case (camchange ca slot change)
  then show ?case using ca_ok_calm calm_camchange_irq calm_refl by blast
next
  case (camready ca slot)
  then show ?case using ca_ok_calm calm_camready by blast
next
  case (frda ca slot)
  then show ?case using ca_ok_calm calm_frda by blast
next
  case (do_ioctl ca intr cmd ca' r a)
  then show ?case using ioctl_ok by blast
next
  case (opened ca m g ca' r)
  then show ?case using io_open_ok by blast
next
  case (closed ca g ca' r)
  then show ?case using io_release_ok by blast
next
  case (reading ca nonblock ok count ca' ans)
  then show ?case using io_read_ok [of ca nonblock ok count] by auto
next
  case (polling ca ca' ready)
  then show ?case using io_poll_ok [of ca] by auto
next
  case (packet ca slot frag ca' r)
  then show ?case using ca_ok_calm calm_write_data calm_refl by blast
next
  case (writing n fault ca buf ca' r)
  then show ?case using ca_ok_calm io_write_calm by blast
qed simp

end
