(* ===== verification/CamStates.thy ===== *)
theory CamStates
  imports CamInv
begin

text \<open>The states a slot of a CAM interface goes through.\<close>

subsection \<open>The states of a slot\<close>

definition sst :: "nat \<Rightarrow> 'w ca \<Rightarrow> slot_state" where
  "sst slot ca = slot_state (slot_info ca ! slot)"

text \<open>
  \<open>mild slot a b\<close>: from \<open>a\<close> to \<open>b\<close> the state of the slot is kept, or the link has to be
  negotiated again.
\<close>

definition mild :: "nat \<Rightarrow> 'w ca \<Rightarrow> 'w ca \<Rightarrow> bool" where
  "mild slot a b \<longleftrightarrow> length (slot_info b) = length (slot_info a) \<and> (sst slot b = sst slot a \<or> sst slot b = SLOT_LINKINIT)"

definition same_state :: "nat \<Rightarrow> 'w ca \<Rightarrow> 'w ca \<Rightarrow> bool" where
  "same_state slot a b \<longleftrightarrow> length (slot_info b) = length (slot_info a) \<and> sst slot b = sst slot a"

lemma mild_refl [simp]: "mild slot a a" "same_state slot a a"
  by (simp_all add: mild_def same_state_def)

lemma mild_trans: "mild slot a b \<Longrightarrow> mild slot b c \<Longrightarrow> mild slot a c"
  by (auto simp: mild_def)

lemma same_mild: "same_state slot a b \<Longrightarrow> mild slot a b"
  by (simp add: mild_def same_state_def)

lemma state_fields [simp]:
  "mild slot a (b\<lparr>hw := w\<rparr>) = mild slot a b" "mild slot a (thread_wakeup b) = mild slot a b"
  "mild slot a (hw_do f b) = mild slot a b" "same_state slot a (b\<lparr>hw := w\<rparr>) = same_state slot a b"
  "same_state slot a (thread_wakeup b) = same_state slot a b" "same_state slot a (hw_do f b) = same_state slot a b"
  "mild slot a (b\<lparr>ca_wakeup := x\<rparr>) = mild slot a b"
  "sst slot (thread_update_delay drv b) = sst slot b" "sst slot (b\<lparr>ca_wakeup := x\<rparr>) = sst slot b"
  "sst slot (b\<lparr>hw := w\<rparr>) = sst slot b" "sst slot (hw_do f b) = sst slot b"
  by (simp_all add: mild_def same_state_def sst_def thread_wakeup_def hw_do_def thread_update_delay_def)

lemma sst_set [simp]: "slot < length (slot_info ca) \<Longrightarrow> sst slot (set_state slot s ca) = s"
  by (simp add: sst_def set_state_def upd_sl_def)

lemma mild_linkinit: "mild slot a ca \<Longrightarrow> slot < length (slot_info a) \<Longrightarrow> mild slot a (set_state slot SLOT_LINKINIT ca)"
  by (simp add: mild_def) (simp add: set_state_def upd_sl_def)

lemma same_upd: "same_state slot a ca \<Longrightarrow> slot_state (f (slot_info ca ! slot)) = sst slot ca \<Longrightarrow> same_state slot a (upd_sl slot f ca)"
  by (cases "slot < length (slot_info ca)") (simp_all add: same_state_def sst_def upd_sl_def list_update_beyond)

lemma mild_upd: "mild slot a ca \<Longrightarrow> slot_state (f (slot_info ca ! slot)) = sst slot ca \<Longrightarrow> mild slot a (upd_sl slot f ca)"
  by (cases "slot < length (slot_info ca)") (simp_all add: mild_def sst_def upd_sl_def list_update_beyond)

lemma mild_read_bytes: "read_bytes drv slot n ca = (r, ca') \<Longrightarrow> mild slot a ca \<Longrightarrow> mild slot a ca'"
  by (induction n arbitrary: ca r) (auto simp: Let_def split: if_splits prod.splits dest!: on_hwD)

lemma mild_write_bytes: "write_bytes drv slot bs ca = (r, ca') \<Longrightarrow> mild slot a ca \<Longrightarrow> mild slot a ca'"
  by (induction bs arbitrary: ca) (auto simp: Let_def split: if_splits prod.splits dest!: on_hwD)

lemma mild_read_regs:
  assumes "read_regs drv ca slot e = Some (ca', r)" "mild slot a ca" "slot < length (slot_info a)"
  shows "mild slot a ca'"
proof -
  have fill: "read_fill drv c slot n = Some (c', r) \<Longrightarrow> mild slot a c \<Longrightarrow> mild slot a c'" for c n c' r
    using assms(3) by (auto simp: read_fill_def Let_def split: if_splits prod.splits sum.splits
      dest!: on_hwD mild_read_bytes [where a = a] intro!: mild_linkinit)
  show ?thesis using assms
    by (auto simp: read_regs_def Let_def split: if_splits prod.splits option.splits dest!: on_hwD
      intro!: mild_linkinit elim!: fill)
qed

lemma mild_read_data:
  assumes "ca_read_data drv ca slot e = Some (ca', st, bs)" "mild slot a ca" "slot < length (slot_info a)"
  shows "mild slot a ca'"
proof -
  have pkt: "read_packet drv ca slot e = Some (c', r) \<Longrightarrow> mild slot a c'" for c' r
    using assms(2,3) by (auto simp: read_packet_def Let_def split: if_splits prod.splits option.splits dest!: on_hwD elim!: mild_read_regs)
  show ?thesis using assms(1,2)
    by (auto simp: ca_read_data_def sst_def split: option.splits sum.splits Option.bind_splits dest!: pkt intro!: mild_upd)
qed

lemma mild_write_data:
  assumes "ca_write_data drv ca slot b f = (ca', r)" "mild slot a ca" "slot < length (slot_info a)"
  shows "mild slot a ca'"
proof -
  have regs: "write_regs drv c slot b f = (c', r) \<Longrightarrow> mild slot a c \<Longrightarrow> mild slot a c'" for c c' r
    using assms(3) by (auto simp: write_regs_def Let_def split: if_splits prod.splits dest!: on_hwD mild_write_bytes [where a = a]
      intro!: mild_linkinit)
  show ?thesis using assms(1,2)
    by (auto simp: ca_write_data_def Let_def on_hw_def split: if_splits prod.splits dest!: regs)
qed

lemma mild_wait_loop: "wait_if_status_loop n drv ca slot w t = Some (ca', r) \<Longrightarrow> mild i a ca \<Longrightarrow> mild i a ca'"
  by (induction n drv ca slot w t rule: wait_if_status_loop.induct)
    (auto simp: Let_def split: if_splits prod.splits dest!: on_hwD)

lemma mild_command: "command drv slot c ca = Some (ca', r) \<Longrightarrow> mild i a ca \<Longrightarrow> mild i a ca'"
  by (auto simp: command_def on_hw_def split: prod.splits)

lemma mild_or_fail:
  assumes "or_fail x f = Some (ca', r)" "\<And>ca1 r1. x = Some (ca1, r1) \<Longrightarrow> mild slot a ca1"
    "\<And>ca1 ca2 r2. mild slot a ca1 \<Longrightarrow> f ca1 = Some (ca2, r2) \<Longrightarrow> mild slot a ca2"
  shows "mild slot a ca'"
  using assms(1) by (rule or_failE) (use assms(2,3) in blast)+

lemma mild_second:
  assumes "link_second n drv slot m ca = Some (ca', r)" "mild slot a ca" "slot < length (slot_info a)"
  shows "mild slot a ca'"
proof -
  have "mild slot a (upd_sl slot (\<lambda>sl. sl\<lparr>link_buf_size := int m\<rparr>) ca)"
    by (rule mild_upd) (use assms(2) in \<open>simp_all add: sst_def\<close>)
  then show ?thesis using assms(1,3) unfolding link_second_def wait_if_status_def
    by (elim mild_or_fail) (auto elim: mild_command mild_wait_loop mild_or_fail dest!: mild_write_data [where a = a] split: prod.splits if_splits)
qed

lemma mild_link_init:
  assumes "ca_link_init n drv ca slot = Some (ca', r)" "mild slot a ca" "slot < length (slot_info a)"
  shows "mild slot a ca'"
proof -
  have "mild slot a (upd_sl slot (\<lambda>sl. sl\<lparr>da_irq_supported := False, link_buf_size := 2\<rparr>) ca)"
    by (rule mild_upd) (use assms(2) in \<open>simp_all add: sst_def\<close>)
  then show ?thesis using assms(1,3) unfolding link_init_split wait_if_status_def
    by (elim mild_or_fail)
      (auto elim: mild_command mild_wait_loop mild_second elim!: mild_or_fail [where slot = slot] dest!: mild_read_data [where a = a] split: Option.bind_splits if_splits)
qed

lemma same_tuple_bytes: "tuple_bytes drv slot x n ca = (bs, ca') \<Longrightarrow> same_state i a ca \<Longrightarrow> same_state i a ca'"
  by (induction n arbitrary: x ca bs) (auto simp: Let_def split: prod.splits dest!: on_hwD)

lemma same_read_tuple: "read_tuple drv ca slot x = Some (ca', r) \<Longrightarrow> same_state i a ca \<Longrightarrow> same_state i a ca'"
  by (auto simp: read_tuple_def Let_def split: if_splits prod.splits dest!: on_hwD same_tuple_bytes [where a = a and i = i])

lemma same_expect:
  assumes "expect_tuple drv slot typ ca x f = Some (ca', r)" "same_state i a ca"
    "\<And>ca1 y bs ca2 r. f ca1 y bs = Some (ca2, r) \<Longrightarrow> same_state i a ca1 \<Longrightarrow> same_state i a ca2"
  shows "same_state i a ca'"
  using assms by (auto simp: expect_tuple_def split: Option.bind_splits sum.splits if_splits prod.splits
    dest!: same_read_tuple [where a = a and i = i])

lemma same_cis_loop: "cis_loop drv slot g e x ca = Some (ca', r) \<Longrightarrow> same_state slot a ca \<Longrightarrow> same_state slot a ca'"
proof (induction drv slot g e x ca rule: cis_loop.induct)
  case (1 drv slot g e x ca)
  show ?case
  proof (cases "e \<or> x \<ge> 0x1000 \<or> read_tuple drv ca slot x = None")
    case True
    then show ?thesis using "1.prems" by (auto simp: cis_loop.simps split: if_splits)
  next
    case False
    then obtain ca1 z where y: "read_tuple drv ca slot x = Some (ca1, z)" by auto
    have c1: "same_state slot a ca1" using same_read_tuple [OF y "1.prems"(2)] .
    show ?thesis
    proof (cases z)
      case (Inl st)
      then show ?thesis using "1.prems" False y c1 by (simp add: cis_loop.simps)
    next
      case (Inr v)
      then obtain x1 t bs where v: "z = Inr (x1, t, bs)" by (cases v) auto
      let ?q = "if t = 0x1B then cftable_entry slot bs g ca1 else (ca1, g)"
      have q: "same_state slot a (fst ?q)"
        using c1 by (auto simp: cftable_entry_def sst_def intro!: same_upd)
      have ne: "\<not> (e \<or> x \<ge> 0x1000)" using False by blast
      have "cis_loop drv slot (snd ?q) (t = 0xff) x1 (fst ?q) = Some (ca', r)"
        using "1.prems"(1) ne y v by (simp add: cis_loop.simps [of drv slot g e x ca] split_def Let_def split: if_splits)
      then show ?thesis
        using "1.IH" [OF ne y refl v refl refl, of ?q "fst ?q" "snd ?q"] q by simp
    qed
  qed
qed

lemma same_parse:
  assumes "parse_attributes drv ca slot = Some (ca', r)" "same_state slot a ca"
  shows "same_state slot a ca'"
proof -
  have base: "same_state slot a (upd_sl slot (\<lambda>sl. sl\<lparr>config_base := config_base_of bs\<rparr>) c)"
    if "same_state slot a c" for bs c using that by (intro same_upd) (simp_all add: sst_def)
  show ?thesis using assms unfolding parse_attributes_def
    by (elim same_expect)
      (auto simp: Let_def split: if_splits option.splits Option.bind_splits elim!: same_expect
        dest!: same_cis_loop [where a = a] intro: base)
qed

text \<open>What may follow a state of a slot, one step of the state machine later.\<close>

fun slot_successors :: "slot_state \<Rightarrow> slot_state set" where
  "slot_successors SLOT_NONE = {SLOT_NONE}"
| "slot_successors SLOT_INVALID = {SLOT_INVALID}"
| "slot_successors SLOT_UNINITIALISED = {SLOT_WAITREADY}"
| "slot_successors SLOT_WAITREADY = {SLOT_WAITREADY, SLOT_INVALID}"
| "slot_successors SLOT_VALIDATE = {SLOT_WAITFR, SLOT_INVALID, SLOT_NONE}"
| "slot_successors SLOT_WAITFR = {SLOT_WAITFR, SLOT_LINKINIT, SLOT_INVALID}"
| "slot_successors SLOT_LINKINIT = {SLOT_RUNNING, SLOT_UNINITIALISED, SLOT_INVALID, SLOT_NONE}"
| "slot_successors SLOT_RUNNING = {SLOT_RUNNING, SLOT_LINKINIT}"

lemma sst_give_up: "slot < length (slot_info ca) \<Longrightarrow> sst slot (give_up drv slot s ca) = s"
  by (simp add: give_up_def)

lemma sst_poll_gone:
  assumes "poll_cam_gone drv ca slot = (ca', g)" "slot < length (slot_info ca)"
  shows "(if g then sst slot ca' = SLOT_NONE else sst slot ca' = sst slot ca) \<and> length (slot_info ca') = length (slot_info ca)"
proof -
  have len: "length (slot_info (thread_update_delay drv (set_state slot SLOT_NONE c))) = length (slot_info c)" for c
    by (simp add: thread_update_delay_def set_state_def upd_sl_def)
  show ?thesis using assms by (auto simp: poll_cam_gone_def Let_def len split: option.splits if_splits prod.splits dest!: on_hwD)
qed

lemma sst_check: 
  assumes "check_camstatus drv ca slot = Some (ca', ch)" "sst slot ca \<noteq> SLOT_WAITREADY"
  shows "same_state slot ca ca'"
  using assms by (auto simp: check_camstatus_def Let_def sst_def split: if_splits option.splits prod.splits dest!: on_hwD
    intro!: same_upd)

lemma sst_rx_loop:
  "rx_loop k drv ca slot = Some ca' \<Longrightarrow> slot < length (slot_info ca) \<Longrightarrow> sst slot ca \<in> {SLOT_RUNNING, SLOT_LINKINIT} \<Longrightarrow>
   sst slot ca' \<in> {SLOT_RUNNING, SLOT_LINKINIT}"
proof (induction k arbitrary: ca)
  case (Suc k)
  from Suc.prems(1) obtain ca1 st bs where rd: "ca_read_data drv ca slot None = Some (ca1, st, bs)"
    by (auto split: Option.bind_splits)
  have m1: "mild slot ca ca1" by (rule mild_read_data [OF rd mild_refl(1) Suc.prems(2)])
  then have s1: "sst slot ca1 \<in> {SLOT_RUNNING, SLOT_LINKINIT}" "slot < length (slot_info ca1)"
    using Suc.prems(2,3) by (auto simp: mild_def)
  show ?case
  proof (cases "st \<le> 0 \<or> \<not> ca_open ca1")
    case True
    then show ?thesis using Suc.prems(1) rd s1 by auto
  next
    case False
    then obtain ca2 ch where ch: "check_camstatus drv ca1 slot = Some (ca2, ch)"
      using Suc.prems(1) rd by (auto split: Option.bind_splits)
    have "same_state slot ca1 ca2" using sst_check [OF ch] s1(1) by auto
    then have s2: "sst slot ca2 \<in> {SLOT_RUNNING, SLOT_LINKINIT}" "slot < length (slot_info ca2)"
      using s1 by (auto simp: same_state_def)
    then show ?thesis using Suc.prems(1) rd False ch Suc.IH [of ca2] by (auto split: if_splits)
  qed
qed simp

lemma slot_step_successors:
  assumes "slot_step n rxbuf drv ca slot = Some ca'" "slot < length (slot_info ca)"
  shows "sst slot ca' \<in> slot_successors (sst slot ca)"
proof (cases "sst slot ca")
  case SLOT_RUNNING
  then show ?thesis using assms sst_rx_loop [of _ drv ca slot ca'] by (auto simp: slot_step_def sst_def split: if_splits)
next
  case SLOT_LINKINIT
  then obtain ca1 r where l: "ca_link_init n drv ca slot = Some (ca1, r)"
    using assms by (auto simp: slot_step_def sst_def split: Option.bind_splits)
  have m: "mild slot ca ca1" by (rule mild_link_init [OF l mild_refl(1) assms(2)])
  then have n1: "slot < length (slot_info ca1)" using assms(2) by (simp add: mild_def)
  obtain ca2 g where g: "poll_cam_gone drv ca1 slot = (ca2, g)" by fastforce
  note p = sst_poll_gone [OF g n1]
  have len: "length (slot_info (upd_sl slot f c)) = length (slot_info c)" "length (slot_info (hw_do h c)) = length (slot_info c)"
    for f h and c :: "'a ca" by (simp_all add: upd_sl_def hw_do_def)
  show ?thesis using assms(1) SLOT_LINKINIT l g p n1
    by (auto simp: slot_step_def sst_def [of slot ca] sst_give_up len split: if_splits option.splits)
next
  case SLOT_VALIDATE
  then obtain ca1 r where l: "parse_attributes drv ca slot = Some (ca1, r)"
    using assms by (auto simp: slot_step_def sst_def split: Option.bind_splits)
  have m: "same_state slot ca ca1" by (rule same_parse [OF l mild_refl(2)])
  then have n1: "slot < length (slot_info ca1)" using assms(2) by (simp add: same_state_def)
  obtain ca2 g where g: "poll_cam_gone drv ca1 slot = (ca2, g)" by fastforce
  obtain ca3 r3 where c: "set_configoption drv ca1 slot = (ca3, r3)" by fastforce
  obtain ca4 r4 where w: "on_hw (write_cam_control drv slot CTRLIF_COMMAND CMDREG_RS) ca3 = (r4, ca4)" by fastforce
  have n3: "slot < length (slot_info ca3)" using calm_length [OF calm_configoption [OF c calm_refl]] n1 by simp
  have n4: "slot < length (slot_info ca4)" using n3 w by (auto dest!: on_hwD)
  have n5: "slot < length (slot_info (set_timeout drv slot ca4))" using n4 by (simp add: set_timeout_def upd_sl_def)
  show ?thesis using assms(1) SLOT_VALIDATE l g sst_poll_gone [OF g n1] n1 c w n3 n4 n5
    by (auto simp: slot_step_def sst_def [of slot ca] sst_give_up split: if_splits)
next
  case SLOT_WAITFR
  then show ?thesis using assms
    by (auto simp: slot_step_def sst_def [of slot ca] sst_give_up Let_def split: if_splits prod.splits dest!: on_hwD)
next
  case SLOT_WAITREADY
  then show ?thesis using assms by (auto simp: slot_step_def sst_def [of slot ca] sst_give_up split: if_splits) (simp add: sst_def)
next
  case SLOT_UNINITIALISED
  have len: "slot < length (slot_info (hw_do h (set_state slot s ca)))" for h s using assms(2) by (simp add: set_state_def upd_sl_def hw_do_def)
  have "sst slot (set_timeout drv slot c) = sst slot c" if "slot < length (slot_info c)" for c
    using that by (simp add: set_timeout_def sst_def upd_sl_def)
  then show ?thesis using assms SLOT_UNINITIALISED len by (auto simp: slot_step_def sst_def [of slot ca])
qed (use assms in \<open>auto simp: slot_step_def sst_def\<close>)

text \<open>
  The changes of the CAM that come first in a turn.  After a change the slot is empty or starts
  anew; without one its state is kept, or the CAM that was waited for is ready.
\<close>

lemma sst_check_unchanged:
  assumes "check_camstatus drv ca slot = Some (ca', False)" "slot < length (slot_info ca)"
  shows "length (slot_info ca') = length (slot_info ca) \<and>
    (sst slot ca' = sst slot ca \<or> sst slot ca = SLOT_WAITREADY \<and> sst slot ca' = SLOT_VALIDATE)"
proof -
  have len: "length (slot_info (set_state slot s c)) = length (slot_info c)" for s and c :: "'a ca"
    by (simp add: set_state_def upd_sl_def)
  have "sst slot (set_state slot s c) = s" if "slot < length (slot_info c)" for s and c :: "'a ca"
    using that by (simp add: sst_def set_state_def upd_sl_def)
  then show ?thesis using assms len unfolding check_camstatus_def
    by (auto simp: Let_def sst_def split: if_splits option.splits prod.splits dest!: on_hwD)
qed

definition camchange_turn :: "'w ca_driver \<Rightarrow> 'w ca \<Rightarrow> nat \<Rightarrow> 'w ca" where
  "camchange_turn drv ca1 slot =
     (let ca2 = (if slot_state (slot_info ca1 ! slot) \<noteq> SLOT_NONE then ca_slot_shutdown drv ca1 slot else ca1);
          ca3 = (if camchange_type (slot_info ca2 ! slot) = CAMCHANGE_INSERTED
                 then set_state slot SLOT_UNINITIALISED ca2 else ca2)
      in upd_sl slot (\<lambda>sl. sl\<lparr>camchange_count := camchange_count sl - 1\<rparr>) (thread_update_delay drv ca3))"

lemma sst_camchange_turn:
  assumes "slot < length (slot_info ca)"
  shows "sst slot (camchange_turn drv ca slot) \<in> {SLOT_NONE, SLOT_UNINITIALISED} \<and>
    length (slot_info (camchange_turn drv ca slot)) = length (slot_info ca)"
  using assms
  by (auto simp: camchange_turn_def Let_def sst_def ca_slot_shutdown_def thread_update_delay_def set_state_def upd_sl_def hw_do_def)

lemma sst_camchange:
  "camchange_loop n drv ca slot = Some ca' \<Longrightarrow> slot < length (slot_info ca) \<Longrightarrow> sst slot ca \<in> {SLOT_NONE, SLOT_UNINITIALISED} \<Longrightarrow>
   sst slot ca' \<in> {SLOT_NONE, SLOT_UNINITIALISED} \<and> length (slot_info ca') = length (slot_info ca)"
proof (induction n arbitrary: ca)
  case (Suc n)
  obtain ca1 ch where ch: "check_camstatus drv ca slot = Some (ca1, ch)" using Suc.prems(1) by (auto split: Option.bind_splits)
  show ?case
  proof (cases ch)
    case False
    then show ?thesis using sst_check_unchanged [of drv ca slot ca1] ch Suc.prems by auto
  next
    case True
    define ca4 where "ca4 = camchange_turn drv ca1 slot"
    have "camchange_loop n drv ca4 slot = Some ca'"
      using Suc.prems(1) ch True by (simp add: ca4_def camchange_turn_def Let_def)
    moreover have "same_state slot ca ca1" by (rule sst_check [OF ch]) (use Suc.prems(3) in auto)
    then have "slot < length (slot_info ca1)" "length (slot_info ca1) = length (slot_info ca)"
      using Suc.prems(2) by (simp_all add: same_state_def)
    ultimately show ?thesis using Suc.IH [of ca4] sst_camchange_turn [of slot ca1 drv] by (simp add: ca4_def)
  qed
qed simp

text \<open>What a turn of the thread may do to a slot, with and without a change of the CAM.\<close>

definition turn_successors :: "bool \<Rightarrow> slot_state \<Rightarrow> slot_state set" where
  "turn_successors changed s = (if changed then {SLOT_NONE, SLOT_WAITREADY}
     else slot_successors s \<union> (if s = SLOT_WAITREADY then slot_successors SLOT_VALIDATE else {}))"

lemma thread_turn_successors:
  assumes "thread_state_machine n rxbuf drv ca slot = Some ca'" "slot < length (slot_info ca)"
  shows "\<exists>ca1 changed. check_camstatus drv ca slot = Some (ca1, changed) \<and> sst slot ca' \<in> turn_successors changed (sst slot ca)"
proof -
  obtain c where c: "camchange_loop n drv ca slot = Some c" "slot_step n rxbuf drv c slot = Some ca'"
    using assms(1) by (auto simp: thread_state_machine_def split: Option.bind_splits)
  obtain n' where n: "n = Suc n'" using c(1) by (cases n) auto
  obtain ca1 changed where ch: "check_camstatus drv ca slot = Some (ca1, changed)"
    using c(1) by (auto simp: n split: Option.bind_splits)
  show ?thesis
  proof (cases changed)
    case False
    then have "c = ca1" using c(1) ch by (simp add: n)
    moreover have u: "length (slot_info ca1) = length (slot_info ca)"
      "sst slot ca1 = sst slot ca \<or> sst slot ca = SLOT_WAITREADY \<and> sst slot ca1 = SLOT_VALIDATE"
      using sst_check_unchanged [of drv ca slot ca1] ch False assms(2) by simp_all
    ultimately have s: "sst slot ca' \<in> slot_successors (sst slot ca1)" using slot_step_successors [OF c(2)] assms(2) by simp
    have "sst slot ca' \<in> turn_successors False (sst slot ca)"
      using u(2)
    proof (elim disjE conjE)
      assume "sst slot ca1 = sst slot ca"
      then show ?thesis using s by (simp add: turn_successors_def)
    next
      assume "sst slot ca = SLOT_WAITREADY" "sst slot ca1 = SLOT_VALIDATE"
      then show ?thesis using s unfolding turn_successors_def by auto
    qed
    then show ?thesis using ch False by (intro exI [of _ ca1] exI [of _ changed]) simp
  next
    case True
    have len: "length (slot_info ca1) = length (slot_info ca)"
      using calm_length [OF calm_check_camstatus [OF ch]] by simp
    then have "camchange_loop n' drv (camchange_turn drv ca1 slot) slot = Some c"
      using c(1) ch True by (simp add: n camchange_turn_def Let_def)
    then have "sst slot c \<in> {SLOT_NONE, SLOT_UNINITIALISED}" "slot < length (slot_info c)"
      using sst_camchange [of n' drv "camchange_turn drv ca1 slot" slot c] sst_camchange_turn [of slot ca1 drv] len assms(2) by auto
    then have "sst slot ca' \<in> turn_successors True (sst slot ca)"
      using slot_step_successors [OF c(2)] by (auto simp: turn_successors_def)
    then show ?thesis using ch True by (intro exI [of _ ca1] exI [of _ changed]) simp
  qed
qed

end
