(* ===== verification/CamProtocol.thy ===== *)
theory CamProtocol
  imports CamInv "HOL-Library.Sublist"
begin

text \<open>
  What the hardware of a CAM interface sees: the accesses to the registers, the waits, and the
  tuples of a module.
\<close>

subsection \<open>What the registers see\<close>

text \<open>A driver that keeps, beside the hardware, the list of the writes to the registers.\<close>

type_synonym 'w logged = "'w \<times> (nat \<times> byte) list"

definition logging :: "'w ca_driver \<Rightarrow> 'w logged ca_driver" where
  "logging drv = \<lparr>
     read_attribute_mem = \<lambda>s a (w, l). (\<lambda>(r, w'). (r, (w', l))) (read_attribute_mem drv s a w),
     write_attribute_mem = \<lambda>s a v (w, l). (\<lambda>(r, w'). (r, (w', l))) (write_attribute_mem drv s a v w),
     read_cam_control = \<lambda>s a (w, l). (\<lambda>(r, w'). (r, (w', l))) (read_cam_control drv s a w),
     write_cam_control = \<lambda>s a v (w, l). (\<lambda>(r, w'). (r, (w', l @ [(a, v)]))) (write_cam_control drv s a v w),
     drv_read_data = map_option (\<lambda>f s n (w, l). (\<lambda>(r, w'). (r, (w', l))) (f s n w)) (drv_read_data drv),
     drv_write_data = map_option (\<lambda>f s bs (w, l). (\<lambda>(r, w'). (r, (w', l))) (f s bs w)) (drv_write_data drv),
     slot_reset = \<lambda>s (w, l). (slot_reset drv s w, l),
     slot_shutdown = \<lambda>s (w, l). (slot_shutdown drv s w, l),
     slot_ts_enable = \<lambda>s (w, l). (slot_ts_enable drv s w, l),
     poll_slot_status = map_option (\<lambda>f s b (w, l). (\<lambda>(r, w'). (r, (w', l))) (f s b w)) (poll_slot_status drv),
     usleep = \<lambda>(w, l). (usleep drv w, l),
     jiffies = \<lambda>(w, l). jiffies drv w,
     HZ = HZ drv \<rparr>"

definition writes :: "'w logged ca \<Rightarrow> (nat \<times> byte) list" where
  "writes ca = snd (hw ca)"

lemma logged_read:
  "on_hw (read_cam_control (logging drv) slot a) ca = (r, ca') \<Longrightarrow> writes ca' = writes ca"
  by (auto simp: logging_def on_hw_def writes_def split: prod.splits)

lemma logged_write:
  "on_hw (write_cam_control (logging drv) slot a v) ca = (r, ca') \<Longrightarrow> writes ca' = writes ca @ [(a, v)]"
  by (auto simp: logging_def on_hw_def writes_def split: prod.splits)

lemma writes_fields [simp]: "writes (thread_wakeup ca) = writes ca" "writes (set_state i s ca) = writes ca"
  by (simp_all add: writes_def thread_wakeup_def set_state_def upd_sl_def)

lemma logged_bytes:
  "write_bytes (logging drv) slot bs ca = (st, ca') \<Longrightarrow>
   \<exists>k. writes ca' = writes ca @ map (Pair CTRLIF_DATA) (take k bs) \<and> (st = 0 \<longrightarrow> k = length bs)"
proof (induction bs arbitrary: ca)
  case (Cons b bs)
  obtain st1 ca1 where w: "on_hw (write_cam_control (logging drv) slot CTRLIF_DATA b) ca = (st1, ca1)" by fastforce
  note w1 = logged_write [OF w]
  show ?case
  proof (cases "st1 = 0")
    case False
    then show ?thesis using Cons.prems w w1 by (intro exI [of _ 1]) auto
  next
    case True
    then have "write_bytes (logging drv) slot bs ca1 = (st, ca')" using Cons.prems w by simp
    from Cons.IH [OF this] obtain k where "writes ca' = writes ca1 @ map (Pair CTRLIF_DATA) (take k bs)" "st = 0 \<longrightarrow> k = length bs"
      by blast
    then show ?thesis using w1 by (intro exI [of _ "Suc k"]) simp
  qed
qed simp

text \<open>The writes of a packet: the command, the length, the bytes.\<close>

definition packet_writes :: "byte list \<Rightarrow> byte \<Rightarrow> (nat \<times> byte) list" where
  "packet_writes buf f = [(CTRLIF_COMMAND, IRQEN OR CMDREG_HC OR f), (CTRLIF_SIZE_HIGH, of_nat (length buf div 256)),
     (CTRLIF_SIZE_LOW, of_nat (length buf mod 256))] @ map (Pair CTRLIF_DATA) buf"

lemma logged_regs:
  assumes "write_regs (logging drv) ca slot buf f = (ca', r)" "\<And>s a v w. fst (write_cam_control drv s a v w) \<le> 0"
  shows "\<exists>ws. writes ca' = writes ca @ ws \<and> prefix ws (packet_writes buf f) \<and>
    (buf \<noteq> [] \<and> r = int (length buf) \<longrightarrow> ws = packet_writes buf f)"
proof -
  have w: "writes c' = writes c @ [(a, v)] \<and> st \<le> 0" if "on_hw (write_cam_control (logging drv) slot a v) c = (st, c')" for a v c c' st
    using that assms(2) [of slot a v "fst (hw c)"] logged_write [OF that] by (auto simp: on_hw_def logging_def split: prod.splits)
  have neg: "st \<le> 0" if "write_bytes (logging drv) slot bs c = (st, c')" for bs c c' st
    using that by (induction bs arbitrary: c) (auto simp: Let_def split: if_splits prod.splits dest: w)
  have bs: "\<exists>k. writes c' = writes c @ map (Pair CTRLIF_DATA) (take k bs) \<and> (st = 0 \<longrightarrow> k = length bs) \<and> st \<le> 0"
    if "write_bytes (logging drv) slot bs c = (st, c')" for bs c c' st
    using logged_bytes [OF that] neg [OF that] by blast
  show ?thesis using assms(1)
    by (auto simp: write_regs_def Let_def packet_writes_def take_is_prefix map_mono_prefix split: if_splits prod.splits
      dest!: logged_read w bs)
qed

lemma logged_packet:
  assumes "ca_write_data (logging drv) ca slot buf f = (ca', r)" "drv_write_data drv = None"
    "\<And>s a v w. fst (write_cam_control drv s a v w) \<le> 0" "buf \<noteq> []"
  shows "\<exists>ws. writes ca' = writes ca @ ws \<and>
    (ws = [] \<or> (\<exists>p. prefix p (packet_writes buf f) \<and> ws = p @ [(CTRLIF_COMMAND, IRQEN)])) \<and>
    (r = int (length buf) \<longrightarrow> ws = packet_writes buf f @ [(CTRLIF_COMMAND, IRQEN)])"
proof -
  have no_cb: "drv_write_data (logging drv) = None" using assms(2) by (simp add: logging_def)
  have early: ?thesis if "writes ca' = writes ca" "r \<noteq> int (length buf)" using that by auto
  obtain st ca1 where s: "on_hw (read_cam_control (logging drv) slot CTRLIF_STATUS) ca = (st, ca1)" by fastforce
  note w1 = logged_read [OF s]
  have pos: "0 < int (length buf)" using assms(4) by simp
  consider "int (length buf) > link_buf_size (slot_info ca ! slot)" | "int (length buf) \<le> link_buf_size (slot_info ca ! slot)" "st < 0 \<or> st AND (STATUSREG_DA OR STATUSREG_RE) \<noteq> 0"
    | "int (length buf) \<le> link_buf_size (slot_info ca ! slot)" "\<not> st < 0" "st AND (STATUSREG_DA OR STATUSREG_RE) = 0" by linarith
  then show ?thesis
  proof cases
    case 1
    then show ?thesis using assms(1) pos by (intro early) (auto simp: ca_write_data_def)
  next
    case 2
    then show ?thesis using assms(1) pos s w1 no_cb by (intro early) (auto simp: ca_write_data_def split: if_splits)
  next
    case 3
    obtain ca2 q where g: "write_regs (logging drv) ca1 slot buf f = (ca2, q)" by fastforce
    obtain st3 ca3 where e: "on_hw (write_cam_control (logging drv) slot CTRLIF_COMMAND IRQEN) ca2 = (st3, ca3)" by fastforce
    have "ca' = ca3 \<and> r = q" using assms(1) 3 s g e no_cb by (simp add: ca_write_data_def)
    with logged_write [OF e] logged_regs [OF g assms(3)] w1 assms(4) show ?thesis by auto
  qed
qed

subsection \<open>Waiting for a flag ends\<close>

lemma wait_loop_ends:
  assumes "\<And>w. jiffies drv w + 1 \<le> jiffies drv (usleep drv w)"
    "\<And>s a w. jiffies drv w \<le> jiffies drv (snd (read_cam_control drv s a w))"
  shows "timeout < now drv ca + int n \<Longrightarrow>
    \<exists>ca' r. wait_if_status_loop (Suc n) drv ca slot flag timeout = Some (ca', r) \<and> r \<in> {0, - EIO, - ETIMEDOUT}"
proof (induction n arbitrary: ca)
  case 0
  obtain st ca1 where s: "on_hw (read_cam_control drv slot CTRLIF_STATUS) ca = (st, ca1)" by fastforce
  have "now drv ca \<le> now drv ca1" using assms(2) [of "hw ca" slot CTRLIF_STATUS] s by (auto simp: on_hw_def now_def split: prod.splits)
  then show ?case using 0 s by (simp add: Let_def)
next
  case (Suc n)
  obtain st ca1 where s: "on_hw (read_cam_control drv slot CTRLIF_STATUS) ca = (st, ca1)" by fastforce
  have "now drv ca \<le> now drv ca1" using assms(2) [of "hw ca" slot CTRLIF_STATUS] s by (auto simp: on_hw_def now_def split: prod.splits)
  moreover have "now drv ca1 + 1 \<le> now drv (hw_do (usleep drv) ca1)" using assms(1) by (simp add: now_def hw_do_def)
  ultimately have "timeout < now drv (hw_do (usleep drv) ca1) + int n" using Suc.prems by simp
  from Suc.IH [OF this] s show ?case
    by (subst wait_if_status_loop.simps(2)) (simp add: Let_def)
qed

text \<open>A status that says the flag is set was read.\<close>

lemma wait_loop_flag:
  "wait_if_status_loop n drv ca slot flag timeout = Some (ca', 0) \<Longrightarrow>
   \<exists>w st. read_cam_control drv slot CTRLIF_STATUS w = (st, hw ca') \<and> 0 \<le> st \<and> st AND flag \<noteq> 0"
proof (induction n drv ca slot flag timeout rule: wait_if_status_loop.induct)
  case (2 n drv ca slot flag timeout)
  obtain st ca1 where s: "on_hw (read_cam_control drv slot CTRLIF_STATUS) ca = (st, ca1)" by fastforce
  show ?case
  proof (cases "\<not> st < 0 \<and> st AND flag = 0 \<and> \<not> now drv ca1 > timeout")
    case True
    then show ?thesis using "2.IH" [OF s [symmetric] refl] "2.prems" s by (simp add: Let_def)
  next
    case False
    have "0 \<le> st \<and> st AND flag \<noteq> 0 \<and> ca' = ca1" using "2.prems" False s
      by (auto simp: Let_def split: if_splits)
    then show ?thesis using s
      by (intro exI [of _ "hw ca"] exI [of _ st]) (auto simp: on_hw_def split: prod.splits)
  qed
qed simp

subsection \<open>The tuples of a module\<close>

text \<open>
  A chain of tuples in the attribute memory: type, length, and the bytes, at even addresses; the
  end marker has no length.
\<close>

type_synonym cis_tuple = "byte \<times> byte list"

fun cis_at :: "(int \<Rightarrow> int) \<Rightarrow> int \<Rightarrow> cis_tuple list \<Rightarrow> bool" where
  "cis_at m a [] \<longleftrightarrow> m a = 0xff"
| "cis_at m a ((t, bs) # ts) \<longleftrightarrow> t \<noteq> 0xff \<and> m a = uint t \<and> m (a + 2) = int (length bs) \<and> length bs < 256 \<and>
     (\<forall>i < length bs. m (a + 4 + 2 * int i) = uint (bs ! i)) \<and> cis_at m (a + 4 + 2 * int (length bs)) ts"

fun cis_end :: "int \<Rightarrow> cis_tuple list \<Rightarrow> int" where
  "cis_end a [] = a + 2"
| "cis_end a ((t, bs) # ts) = cis_end (a + 4 + 2 * int (length bs)) ts"

lemma cis_end_after: "a + 2 \<le> cis_end a ts"
  by (induction a ts rule: cis_end.induct) simp_all

text \<open>An entry of a CI module, and the option it asks for.\<close>

definition ci_entry :: "cis_tuple \<Rightarrow> bool" where
  "ci_entry = (\<lambda>(t, bs). t = 0x1B \<and> 30 \<le> length bs \<and> findstr bs DVB_HOST \<noteq> None \<and> findstr bs DVB_CI_MODULE \<noteq> None)"

definition ci_option :: "cis_tuple list \<Rightarrow> byte option" where
  "ci_option ts = map_option (\<lambda>(t, bs). bs ! 0 AND 0x3f) (find ci_entry ts)"

definition ci_config :: "byte list \<Rightarrow> bool" where
  "ci_config bs \<longleftrightarrow> 3 \<le> length bs \<and> 3 + unat (bs ! 0 AND 3) + 14 \<le> length bs \<and>
     (case findstr bs DVB_CI_V of None \<Rightarrow> False | Some i \<Rightarrow> i + 12 \<le> length bs \<and> take 4 (drop (i + 8) bs) = VERSION_1_00)"

definition plain_memory :: "'w ca_driver \<Rightarrow> nat \<Rightarrow> (int \<Rightarrow> int) \<Rightarrow> bool" where
  "plain_memory drv slot m \<longleftrightarrow> read_attribute_mem drv slot = (\<lambda>a w. (m a, w))"

lemma plain_read: "plain_memory drv slot m \<Longrightarrow> on_hw (read_attribute_mem drv slot a) ca = (m a, ca)"
  by (simp add: plain_memory_def on_hw_def)

lemma plain_bytes:
  "plain_memory drv slot m \<Longrightarrow> \<forall>i < length bs. m (a + 2 * int i) = uint (bs ! i) \<Longrightarrow>
   tuple_bytes drv slot a (length bs) ca = (bs, ca)"
proof (induction bs arbitrary: a)
  case (Cons b bs)
  have "\<forall>i < length bs. m ((a + 2) + 2 * int i) = uint (bs ! i)"
  proof (intro allI impI)
    fix i assume "i < length bs"
    then show "m ((a + 2) + 2 * int i) = uint (bs ! i)"
      using Cons.prems(2) [rule_format, of "Suc i"] by (simp add: algebra_simps)
  qed
  moreover have "m a = uint b" using Cons.prems(2) [rule_format, of 0] by simp
  ultimately show ?case using Cons.IH [of "a + 2"] plain_read [OF Cons.prems(1)] Cons.prems(1) by simp
qed simp

lemma plain_tuple:
  assumes "plain_memory drv slot m" "cis_at m a ((t, bs) # ts)"
  shows "read_tuple drv ca slot a = Some (ca, Inr (a + 4 + 2 * int (length bs), uint t, bs))"
proof -
  have t: "uint t \<noteq> 0xff" using assms(2) by (simp add: word_uint_eq_iff)
  have "tuple_bytes drv slot (a + 4) (nat (int (length bs))) ca = (bs, ca)"
    using plain_bytes [OF assms(1), of bs "a + 4" ca] assms(2) by simp
  then show ?thesis using assms plain_read [OF assms(1)] t by (simp add: read_tuple_def)
qed

lemma plain_expect:
  assumes "plain_memory drv slot m" "cis_at m a ((t, bs) # ts)" "uint t = typ"
  shows "expect_tuple drv slot typ ca a f = f ca (a + 4 + 2 * int (length bs)) bs"
  unfolding expect_tuple_def plain_tuple [OF assms(1,2)] using assms(3) by simp

lemma upd_sl_twice: "upd_sl slot f (upd_sl slot g ca) = upd_sl slot (f \<circ> g) ca"
  by (cases "slot < length (slot_info ca)") (simp_all add: upd_sl_def list_update_beyond)

lemma upd_sl_same: "upd_sl slot (\<lambda>sl. sl) ca = ca"
  by (simp add: upd_sl_def)

lemma uint_type: "uint (t :: byte) = 0x1B \<longleftrightarrow> t = 0x1B"
  by (simp add: word_uint_eq_iff)

lemma cis_loop_chain:
  assumes "plain_memory drv slot m" "slot < length (slot_info ca)"
  shows "cis_at m a ts \<Longrightarrow> cis_end a ts \<le> 0x1000 \<Longrightarrow>
    \<exists>f. cis_loop drv slot g False a (upd_sl slot h ca) = Some (upd_sl slot (f \<circ> h) ca, Inr (cis_end a ts, g \<or> ci_option ts \<noteq> None)) \<and>
      (\<forall>sl. \<exists>c. f sl = sl\<lparr>config_option := c\<rparr> \<and> (\<forall>x. \<not> g \<and> ci_option ts = Some x \<longrightarrow> c = x) \<and> (g \<longrightarrow> c = config_option sl))"
proof (induction a ts arbitrary: g h rule: cis_end.induct)
  case (1 a)
  have "read_tuple drv ca' slot a = Some (ca', Inr (a + 2, 0xff, []))" for ca'
    using 1 plain_read [OF assms(1)] by (simp add: read_tuple_def)
  then show ?case using 1
    by (intro exI [of _ id]) (auto simp: cis_loop.simps ci_option_def intro!: exI [of _ "config_option _"])
next
  case (2 a t bs ts)
  note rd = plain_tuple [OF assms(1) "2.prems"(1)]
  have a: "a < 0x1000" using cis_end_after [of "a + 4 + 2 * int (length bs)" ts] "2.prems"(2) by simp
  have next_ok: "cis_at m (a + 4 + 2 * int (length bs)) ts" "cis_end (a + 4 + 2 * int (length bs)) ts \<le> 0x1000"
    using "2.prems" by simp_all
  have t: "uint t \<noteq> 0xff" using "2.prems"(1) by (simp add: word_uint_eq_iff)
  show ?case
  proof (cases "t = 0x1B \<and> 30 \<le> length bs \<and> \<not> g")
    case False
    then have q: "(if uint t = 0x1B then cftable_entry slot bs g c else (c, g)) = (c, g)" for c :: "'a ca"
      by (auto simp: cftable_entry_def uint_type)
    have step: "cis_loop drv slot g False a (upd_sl slot h ca) =
        cis_loop drv slot g False (a + 4 + 2 * int (length bs)) (upd_sl slot h ca)"
      by (subst cis_loop.simps) (use a t in \<open>simp add: rd q\<close>)
    have opt: "g \<or> ci_option ((t, bs) # ts) = ci_option ts" using False by (auto simp: ci_option_def ci_entry_def)
    show ?thesis using opt "2.IH" [OF next_ok, of g h] unfolding step cis_end.simps by (cases g) simp_all
  next
    case True
    let ?g = "findstr bs DVB_HOST \<noteq> None \<and> findstr bs DVB_CI_MODULE \<noteq> None"
    let ?h = "\<lambda>sl. (h sl)\<lparr>config_option := bs ! 0 AND 0x3f\<rparr>"
    have step: "cis_loop drv slot g False a (upd_sl slot h ca) =
        cis_loop drv slot ?g False (a + 4 + 2 * int (length bs)) (upd_sl slot ?h ca)"
      by (subst cis_loop.simps) (use rd [of "upd_sl slot h ca"] a t True in \<open>simp add: cftable_entry_def uint_type upd_sl_twice comp_def\<close>)
    obtain f where f: "cis_loop drv slot ?g False (a + 4 + 2 * int (length bs)) (upd_sl slot ?h ca) =
        Some (upd_sl slot (f \<circ> ?h) ca, Inr (cis_end (a + 4 + 2 * int (length bs)) ts, ?g \<or> ci_option ts \<noteq> None))"
      "\<forall>sl. \<exists>c. f sl = sl\<lparr>config_option := c\<rparr> \<and> (\<forall>x. \<not> ?g \<and> ci_option ts = Some x \<longrightarrow> c = x) \<and> (?g \<longrightarrow> c = config_option sl)"
      using "2.IH" [OF next_ok, of ?g ?h] by blast
    let ?f = "\<lambda>sl. f (sl\<lparr>config_option := bs ! 0 AND 0x3f\<rparr>)"
    have opt: "ci_option ((t, bs) # ts) = (if ?g then Some (bs ! 0 AND 0x3f) else ci_option ts)"
      using True by (auto simp: ci_option_def ci_entry_def)
    have "\<exists>c. ?f sl = sl\<lparr>config_option := c\<rparr> \<and> (\<forall>x. \<not> g \<and> ci_option ((t, bs) # ts) = Some x \<longrightarrow> c = x) \<and> (g \<longrightarrow> c = config_option sl)" for sl
    proof -
      obtain c where "?f sl = sl\<lparr>config_option := bs ! 0 AND 0x3f, config_option := c\<rparr>"
        "\<forall>x. \<not> ?g \<and> ci_option ts = Some x \<longrightarrow> c = x" "?g \<longrightarrow> c = bs ! 0 AND 0x3f"
        using f(2) [rule_format, of "sl\<lparr>config_option := bs ! 0 AND 0x3f\<rparr>"] by (auto)
      then show ?thesis using True opt by (intro exI [of _ c]) (auto)
    qed
    moreover have "?g \<or> ci_option ts \<noteq> None \<longleftrightarrow> g \<or> ci_option ((t, bs) # ts) \<noteq> None" using True opt by (auto)
    ultimately show ?thesis using f(1) unfolding step by (intro exI [of _ ?f]) (simp add: comp_def)
  qed
qed

text \<open>
  Reading the tuples of a module: the four first tuples, the configuration, the others.
\<close>

lemma parse_chain:
  assumes "plain_memory drv slot m" "slot < length (slot_info ca)"
    "cis_at m 0 ((0x1D, b1) # (0x1C, b2) # (0x15, b3) # (0x20, b4) # (0x1A, b5) # ts)"
    "cis_end 0 ((0x1D, b1) # (0x1C, b2) # (0x15, b3) # (0x20, b4) # (0x1A, b5) # ts) \<le> 0x1000"
    "length b4 = 4" "ci_config b5"
  shows "\<exists>ca' r c. parse_attributes drv ca slot = Some (ca', r) \<and>
    ca' = upd_sl slot (\<lambda>sl. sl\<lparr>config_base := config_base_of b5, config_option := c\<rparr>) ca \<and>
    (case ci_option ts of Some x \<Rightarrow> r = 0 \<and> c = x | None \<Rightarrow> r = - EINVAL)"
proof -
  let ?a = "\<lambda>x y :: byte list. x + 4 + 2 * int (length y)"
  let ?a1 = "?a 0 b1" and ?a2 = "?a (?a 0 b1) b2" and ?a3 = "?a (?a (?a 0 b1) b2) b3"
  let ?a4 = "?a (?a (?a (?a 0 b1) b2) b3) b4" and ?a5 = "?a (?a (?a (?a (?a 0 b1) b2) b3) b4) b5"
  from assms(3) have c: "cis_at m 0 ((0x1D, b1) # (0x1C, b2) # (0x15, b3) # (0x20, b4) # (0x1A, b5) # ts)"
    "cis_at m ?a1 ((0x1C, b2) # (0x15, b3) # (0x20, b4) # (0x1A, b5) # ts)"
    "cis_at m ?a2 ((0x15, b3) # (0x20, b4) # (0x1A, b5) # ts)" "cis_at m ?a3 ((0x20, b4) # (0x1A, b5) # ts)"
    "cis_at m ?a4 ((0x1A, b5) # ts)" "cis_at m ?a5 ts" by simp_all
  have e: "cis_end ?a5 ts \<le> 0x1000" using assms(4) by simp
  let ?h = "\<lambda>sl. sl\<lparr>config_base := config_base_of b5\<rparr>"
  from cis_loop_chain [OF assms(1,2) c(6) e, of False ?h] obtain f where
    f: "cis_loop drv slot False False ?a5 (upd_sl slot ?h ca) =
          Some (upd_sl slot (f \<circ> ?h) ca, Inr (cis_end ?a5 ts, ci_option ts \<noteq> None))"
    "\<forall>sl. \<exists>c. f sl = sl\<lparr>config_option := c\<rparr> \<and> (\<forall>x. ci_option ts = Some x \<longrightarrow> c = x)" by auto
  have types: "uint (0x1D :: byte) = 0x1D" "uint (0x1C :: byte) = 0x1C" "uint (0x15 :: byte) = 0x15"
    "uint (0x20 :: byte) = 0x20" "uint (0x1A :: byte) = 0x1A" by simp_all
  have step: "parse_attributes drv ca slot = Some (upd_sl slot (f \<circ> ?h) ca, if ci_option ts = None then - EINVAL else 0)"
    unfolding parse_attributes_def plain_expect [OF assms(1) c(1) types(1)] plain_expect [OF assms(1) c(2) types(2)]
      plain_expect [OF assms(1) c(3) types(3)] plain_expect [OF assms(1) c(4) types(4)] plain_expect [OF assms(1) c(5) types(5)]
    using assms(5,6) f(1) e by (auto simp: ci_config_def Let_def split: option.splits)
  obtain c where "f (?h (slot_info ca ! slot)) = (?h (slot_info ca ! slot))\<lparr>config_option := c\<rparr>" "\<forall>x. ci_option ts = Some x \<longrightarrow> c = x"
    using f(2) by blast
  then have "upd_sl slot (f \<circ> ?h) ca = upd_sl slot (\<lambda>sl. sl\<lparr>config_base := config_base_of b5, config_option := c\<rparr>) ca"
    by (simp add: upd_sl_def)
  with step \<open>\<forall>x. ci_option ts = Some x \<longrightarrow> c = x\<close> show ?thesis
    by (intro exI [of _ "upd_sl slot (f \<circ> ?h) ca"] exI [of _ "if ci_option ts = None then - EINVAL else 0"] exI [of _ c])
      (auto split: option.splits)
qed

text \<open>Whatever the memory holds, as long as it holds bytes, the tuples are read to the end.\<close>

definition byte_memory :: "'w ca_driver \<Rightarrow> bool" where
  "byte_memory drv \<longleftrightarrow> (\<forall>slot a w. fst (read_attribute_mem drv slot a w) \<le> 255)"

lemma read_tuple_returns: "byte_memory drv \<Longrightarrow> \<exists>x. read_tuple drv ca slot a = Some x"
proof -
  assume b: "byte_memory drv"
  have "r \<le> 255" if "on_hw (read_attribute_mem drv slot x) c = (r, c')" for x c r c'
    using that b [unfolded byte_memory_def, rule_format, of slot x "hw c"] by (auto simp: on_hw_def split: prod.splits)
  then have "r \<le> 257" if "on_hw (read_attribute_mem drv slot x) c = (r, c')" for x c r c' using that by fastforce
  then show ?thesis by (force simp: read_tuple_def Let_def split: prod.splits)
qed

lemma expect_returns:
  "byte_memory drv \<Longrightarrow> (\<And>c x bs. f c x bs \<noteq> None) \<Longrightarrow> expect_tuple drv slot typ ca a f \<noteq> None"
  using read_tuple_returns [of drv ca slot a] by (auto simp: expect_tuple_def split: sum.splits)

lemma cis_loop_returns: "byte_memory drv \<Longrightarrow> cis_loop drv slot g e a ca \<noteq> None"
proof (induction drv slot g e a ca rule: cis_loop.induct)
  case (1 drv slot g e a ca)
  obtain ca1 z where y: "read_tuple drv ca slot a = Some (ca1, z)"
    using read_tuple_returns [OF "1.prems", of ca slot a] by auto
  show ?case
  proof (cases "e \<or> a \<ge> 0x1000")
    case True
    then show ?thesis by (auto simp: cis_loop.simps)
  next
    case False
    show ?thesis
    proof (cases z)
      case (Inl st)
      then show ?thesis using False y by (simp add: cis_loop.simps)
    next
      case (Inr v)
      then obtain x1 t bs where v: "z = Inr (x1, t, bs)" by (cases v) auto
      let ?q = "if t = 0x1B then cftable_entry slot bs g ca1 else (ca1, g)"
      have "cis_loop drv slot g e a ca = cis_loop drv slot (snd ?q) (t = 0xff) x1 (fst ?q)"
        by (subst cis_loop.simps) (use False y v in \<open>simp add: split_def Let_def\<close>)
      moreover have "cis_loop drv slot (snd ?q) (t = 0xff) x1 (fst ?q) \<noteq> None"
        by (rule "1.IH" [OF False y refl v refl refl, of ?q "fst ?q" "snd ?q"]) (use "1.prems" in simp_all)
      ultimately show ?thesis by simp
    qed
  qed
qed

lemma if_returns: "(c \<Longrightarrow> x \<noteq> None) \<Longrightarrow> (\<not> c \<Longrightarrow> y \<noteq> None) \<Longrightarrow> (if c then x else y) \<noteq> None"
  by simp

lemma parse_returns: "byte_memory drv \<Longrightarrow> parse_attributes drv ca slot \<noteq> None"
  unfolding parse_attributes_def
  by (intro expect_returns if_returns) (auto simp: Let_def cis_loop_returns Option.bind_eq_None_conv split_def simp del: not_None_eq split: option.splits)

text \<open>A chain of tuples as it lies in the memory.\<close>

fun cis_bytes :: "cis_tuple list \<Rightarrow> int list" where
  "cis_bytes [] = [0xff]"
| "cis_bytes ((t, bs) # ts) = uint t # int (length bs) # map uint bs @ cis_bytes ts"

definition cis_memory :: "cis_tuple list \<Rightarrow> int \<Rightarrow> int" where
  "cis_memory ts a = cis_bytes ts ! nat (a div 2)"

lemma cis_memory_at:
  "\<forall>(t, bs) \<in> set ts. t \<noteq> 0xff \<and> length bs < 256 \<Longrightarrow>
   cis_at (\<lambda>a. (pre @ cis_bytes ts) ! nat (a div 2)) (2 * int (length pre)) ts"
proof (induction ts arbitrary: pre)
  case Nil
  then show ?case by (simp add: nth_append)
next
  case (Cons x ts)
  obtain t bs where x: "x = (t, bs)" by fastforce
  let ?pre = "pre @ uint t # int (length bs) # map uint bs"
  have more: "cis_at (\<lambda>a. (?pre @ cis_bytes ts) ! nat (a div 2)) (2 * int (length ?pre)) ts"
    by (rule Cons.IH) (use Cons.prems in auto)
  have a: "2 * int (length ?pre) = 2 * int (length pre) + 4 + 2 * int (length bs)" by simp
  have "nat ((2 * int (length pre) + 2) div 2) = length pre + 1" "nat (2 * int (length pre) div 2) = length pre"
    "nat ((2 * int (length pre) + 4 + 2 * int i) div 2) = length pre + 2 + i" for i by simp_all
  note n = this
  show ?case using Cons.prems more unfolding x cis_at.simps a n by (simp add: n nth_append)
qed

lemma cis_memory_ok: "\<forall>(t, bs) \<in> set ts. t \<noteq> 0xff \<and> length bs < 256 \<Longrightarrow> cis_at (cis_memory ts) 0 ts"
  using cis_memory_at [of ts "[]"] by (simp add: cis_memory_def [abs_def])

end
