(* ===== verification/CamProps.thy ===== *)
theory CamProps
  imports CamStates CamProtocol
begin

text \<open>The properties of the CAM interface, each with an input at which it applies.\<close>

subsection \<open>A module to try the properties on\<close>

text \<open>A CAM whose status says that it is free, and whose clock runs while it is waited for.\<close>

definition free_cam :: "int ca_driver" where
  "free_cam = \<lparr>read_attribute_mem = \<lambda>s a w. (0xff, w), write_attribute_mem = \<lambda>s a v w. (0, w),
     read_cam_control = \<lambda>s a w. (if a = CTRLIF_STATUS then STATUSREG_FR else 0, w),
     write_cam_control = \<lambda>s a v w. (0, w), drv_read_data = None, drv_write_data = None,
     slot_reset = \<lambda>s w. w, slot_shutdown = \<lambda>s w. w, slot_ts_enable = \<lambda>s w. w,
     poll_slot_status = Some (\<lambda>s b w. (1, w)), usleep = \<lambda>w. w + 1, jiffies = \<lambda>w. w, HZ = 100\<rparr>"

lemma free_cam_hw [simp]:
  "on_hw (read_cam_control free_cam s a) ca = (if a = CTRLIF_STATUS then STATUSREG_FR else 0, ca)"
  "on_hw (write_cam_control free_cam s a v) ca = (0, ca)"
  by (simp_all add: free_cam_def on_hw_def)

lemma free_cam_takes:
  "int (length f) \<le> link_buf_size (slot_info ca ! s) \<Longrightarrow> ca_write_data free_cam ca s f 0 = (ca, int (length f))"
proof -
  have "write_bytes free_cam s bs c = (0, c)" for bs and c :: "int ca"
    by (induction bs) simp_all
  moreover have "drv_write_data free_cam = None" by (simp add: free_cam_def)
  moreover assume "int (length f) \<le> link_buf_size (slot_info ca ! s)"
  ultimately show ?thesis by (simp add: ca_write_data_def write_regs_def)
qed

definition run_slot :: "int \<Rightarrow> ringbuf \<Rightarrow> ca_slot" where
  "run_slot n r = new_slot\<lparr>slot_state := SLOT_RUNNING, link_buf_size := n, rx_buffer := Some r\<rparr>"

definition cam_on :: "'w \<Rightarrow> ca_slot list \<Rightarrow> 'w ca" where
  "cam_on w sls = \<lparr>ca_refcount = 1, ca_flags = 0, slot_info = sls, ca_open = True, ca_wakeup = False, ca_delay = 0,
     next_read_slot = 0, ca_exit = False, hw = w\<rparr>"

definition cam_with :: "ca_slot list \<Rightarrow> int ca" where
  [simp]: "cam_with = cam_on 0"

definition empty_rx :: ringbuf where
  "empty_rx = dvb_ringbuffer_init (replicate 65535 0) 65535"

lemma empty_rx_queue: "rb_pkts empty_rx []" "rb_queue empty_rx []" "rb_size empty_rx = 65535" "rb_used empty_rx = 0"
proof -
  have "rb_wf empty_rx \<and> rb_contents empty_rx = []"
    unfolding empty_rx_def by (rule ring_init) simp_all
  then show p: "rb_pkts empty_rx []" by (simp add: rb_pkts_def pkts_enc_def)
  show "rb_queue empty_rx []" using p by (rule rb_queueI) (simp add: ready_at_def)
  show "rb_size empty_rx = 65535" "rb_used empty_rx = 0"
    by (simp_all add: empty_rx_def dvb_ringbuffer_init_def rb_used_def dvb_ringbuffer_avail_def)
qed

lemma rx_with:
  assumes "0 < length b" "length b < 1000"
  shows "\<exists>r p. rb_queue r [(p, b)] \<and> rb_size r = 65535"
  using rb_put_queue [OF empty_rx_queue(2), of b] empty_rx_queue assms by auto

subsection \<open>The slots\<close>

text \<open>
  C15.  A CAM interface whose driver leaves the reading of packets to this code (that has no
  \<open>read_data\<close> of its own) keeps its slots in order in every state that the thread, the interrupts
  and the calls on the device node can bring about, whatever the hardware answers: a running
  slot has a receive buffer with whole packets in it and a link buffer of 2 to 512 bytes, and
  the slot to read next exists.  Reads and polls then never touch memory outside the receive
  buffer and always return.
\<close>

theorem cam_slots_in_order:
  assumes "ca_reachable drv ca" "drv_read_data drv = None"
  shows "ca_ok ca \<and> io_read nonblock ok ca count \<noteq> None \<and> io_poll ca \<noteq> None"
  using ca_reachable_ok [OF assms] io_read_ok [of ca nonblock ok count] io_poll_ok [of ca] by auto

theorem cam_slots_in_order_witness:
  "io_read True (\<lambda>_. (True, True)) (fst (io_open True 0 free_cam (cam_with [new_slot, new_slot]))) 100 \<noteq> None"
proof -
  have "neumo_dvb_ca_en50221_init 0 0 2 0 = Inr ((cam_with [new_slot, new_slot])\<lparr>ca_open := False\<rparr>)"
    by (simp add: neumo_dvb_ca_en50221_init_def cam_on_def numeral_2_eq_2)
  from ca_reachable.init [OF this, of free_cam]
  have "ca_reachable free_cam (fst (io_open True 0 free_cam ((cam_with [new_slot, new_slot])\<lparr>ca_open := False\<rparr>)))"
    by (rule ca_reachable.opened) (rule surjective_pairing)
  moreover have "io_open True 0 free_cam ((cam_with [new_slot, new_slot])\<lparr>ca_open := False\<rparr>) = io_open True 0 free_cam (cam_with [new_slot, new_slot])"
    by (simp add: io_open_def cam_on_def)
  ultimately show ?thesis using cam_slots_in_order [of free_cam _ True "\<lambda>_. (True, True)" 100] by (simp add: free_cam_def)
qed

text \<open>
  C18.  A turn of the thread takes a slot only along the transitions of the life of a CAM.  If the
  first look at the CAM shows a change (a CAM was inserted or taken out), the slot is shut down
  and is empty, or waits for the new CAM, when the turn is over; otherwise it goes along reset,
  ready, validated, free, link negotiated, running: it runs only after its link was negotiated,
  an invalid slot stays invalid, and a running slot leaves that state only to negotiate the link
  again.  That is said of a turn that ends: each wait for the hardware, and the handling of
  changes that follow each other without end, goes on as long as the hardware makes it.
\<close>

theorem slot_follows_life:
  assumes "thread_state_machine n rxbuf drv ca slot = Some ca'" "slot < length (slot_info ca)"
  shows "\<exists>ca1 changed. check_camstatus drv ca slot = Some (ca1, changed) \<and>
    slot_state (slot_info ca' ! slot) \<in> turn_successors changed (slot_state (slot_info ca ! slot))"
  using thread_turn_successors [OF assms] by (simp add: sst_def)

theorem slot_follows_life_witness:
  "slot_state (slot_info (the (thread_state_machine 1 None free_cam ((cam_with [new_slot\<lparr>slot_state := SLOT_WAITFR, sl_timeout := 5\<rparr>])
      \<lparr>ca_flags := FLAG_IRQ_CAMCHANGE\<rparr>) 0)) ! 0) \<in> {SLOT_WAITFR, SLOT_LINKINIT, SLOT_INVALID}"
proof -
  let ?ca = "(cam_with [new_slot\<lparr>slot_state := SLOT_WAITFR, sl_timeout := 5\<rparr>])\<lparr>ca_flags := FLAG_IRQ_CAMCHANGE\<rparr>"
  have c: "check_camstatus free_cam ?ca 0 = Some (?ca, False)"
    by (simp add: check_camstatus_def cam_on_def new_slot_def)
  have "thread_state_machine 1 None free_cam ?ca 0 = Some (the (thread_state_machine 1 None free_cam ?ca 0))"
    using c by (simp add: thread_state_machine_def slot_step_def cam_on_def)
  from slot_follows_life [OF this] show ?thesis using c by (auto simp: cam_on_def turn_successors_def)
qed

subsection \<open>Messages\<close>

text \<open>
  C16.  Writing a message to a running slot whose link buffer has room for data, when the copies
  from user space succeed and the CAM takes each fragment within half a second, having been busy
  any number of times before, sends the bytes of the message in order, in fragments that fit the
  link buffer, each with the connection in front, and all but the last marked as to be continued;
  the call returns the length of what it was given, and its loops end.
\<close>

theorem io_write_sends_fragments:
  assumes "slot < length (slot_info ca)" "slot < 256" "slot_info ca ! slot = sl" "slot_state sl = SLOT_RUNNING"
    "2 < link_buf_size sl" "m = nat (min (link_buf_size sl - 2) 510)" "0 \<le> HZ drv"
    "accepts drv slot ca ks (link_frags m cid data) = Some ca'" "length data + 1 < n" "\<forall>k \<in> set ks. length data + k < n"
  shows "io_write n drv (\<lambda>_. False) ca ([of_nat slot, cid] @ data) = Some (ca', int (length data) + 2) \<and>
    concat (map (drop 2) (link_frags m cid data)) = data \<and>
    (\<forall>f \<in> set (link_frags m cid data). 2 < length f \<and> int (length f) \<le> link_buf_size sl \<and> frag_conn f = cid) \<and>
    map frag_last (link_frags m cid data) =
      (if data = [] then [] else replicate (length (link_frags m cid data) - 1) False @ [True])"
proof -
  have m: "0 < m" "int m + 2 \<le> link_buf_size sl" using assms(5,6) by simp_all
  have "\<forall>f \<in> set (link_frags m cid data). 2 < length f \<and> int (length f) \<le> link_buf_size sl \<and> frag_conn f = cid"
    using link_frags_shape [of _ m cid data] m(2) by fastforce
  then show ?thesis
    using io_write_frags [OF assms(1,2) assms(3) [symmetric] assms(4-10)] link_frags_data [OF m(1)] link_frags_last [OF m(1)] by simp
qed

theorem io_write_sends_fragments_witness:
  "\<exists>ca'. io_write 9 free_cam (\<lambda>_. False) (cam_with [run_slot 5 empty_rx]) [0, 7, 1, 2, 3, 4, 5] = Some (ca', 7)"
proof -
  let ?ca = "cam_with [run_slot 5 empty_rx]"
  have f: "link_frags 3 7 [1, 2, 3, 4, 5] = [[7, 0x80, 1, 2, 3], [7, 0, 4, 5]]"
    by (simp add: link_frags.simps)
  have "accepts free_cam 0 ?ca [0, 0] (link_frags 3 7 [1, 2, 3, 4, 5]) = Some ?ca"
    by (simp add: f free_cam_takes) (simp add: cam_on_def run_slot_def free_cam_takes)
  from io_write_sends_fragments [OF _ _ _ _ _ _ _ this, of "run_slot 5 empty_rx" 9]
  show ?thesis by (auto simp: cam_on_def run_slot_def free_cam_def)
qed

text \<open>
  C17.  What one side writes the other side reads.  Of the slots, looked at in turn from the one to
  read next on, let the first that runs and has anything in its receive buffer have a packet of
  some connection in front, and all fragments of a message on that connection among the packets
  of the buffer, mixed with packets of other connections.  A read with a large enough buffer,
  whose copies succeed, returns the slot, the connection and the bytes of the message as they were
  written; exactly those fragments leave the receive buffer, and the next read starts at the
  following slot.
\<close>

theorem written_message_is_read:
  assumes "slot_info ca ! slot = sl" "slot_state sl = SLOT_RUNNING" "rx_buffer sl = Some r"
    and "next_read_slot ca < length (slot_info ca)" "k < length (slot_info ca)"
      "slot = (next_read_slot ca + k) mod length (slot_info ca)"
      "\<forall>j < k. quiet_slot (slot_info ca ! ((next_read_slot ca + j) mod length (slot_info ca)))"
    and "rb_queue r (A @ B)" "frags_ok (A @ B)" "frag_conn (snd (hd A)) = cid"
      "0 < m" "data \<noteq> []" "filter (\<lambda>b. frag_conn b = cid) (map snd A) = link_frags m cid data" "2 + length data \<le> count"
  shows "\<exists>r'. io_read nonblock (\<lambda>_. (True, True)) ca count =
      Some (upd_sl slot (\<lambda>sl. sl\<lparr>rx_buffer := Some r'\<rparr>) (ca\<lparr>next_read_slot := (slot + 1) mod length (slot_info ca)\<rparr>),
        Some (int (length data) + 2, [of_nat slot, cid] @ data)) \<and>
    rb_queue r' (filter (\<lambda>q. frag_conn (snd q) \<noteq> cid) A @ B)"
proof -
  have A: "A \<noteq> []" using assms(13) link_frags_step [OF assms(12,11), of cid] by auto
  then have hd: "frag_conn (snd (hd (A @ B))) = cid" using assms(10) by simp
  have "take_message (frag_conn (snd (hd (A @ B)))) (A @ B) =
      Some (map (drop 2) (link_frags m cid data), filter (\<lambda>q. frag_conn (snd q) \<noteq> cid) A @ B)"
    unfolding hd by (rule take_message_frags [OF assms(11-13)])
  from io_read_at [OF assms(1-3,8,9,4-7) _ this, of count nonblock] show ?thesis
    using link_frags_data [OF assms(11), of cid data] assms(14) hd A by (auto simp: add.commute)
qed

theorem written_message_is_read_witness:
  "\<exists>r r' ca'. io_read True (\<lambda>_. (True, True)) (cam_with [new_slot, run_slot 5 r]) 100 = Some (ca', Some (4, [1, 7, 1, 2])) \<and>
    rx_buffer (slot_info ca' ! 1) = Some r' \<and> rb_queue r' []"
proof -
  obtain r p where r: "rb_queue r [(p, [7, 0, 1, 2])]" "rb_size r = 65535" using rx_with [of "[7, 0, 1, 2]"] by auto
  let ?ca = "cam_with [new_slot, run_slot 5 r]"
  have "\<exists>r'. io_read True (\<lambda>_. (True, True)) ?ca 100 =
      Some (upd_sl 1 (\<lambda>sl. sl\<lparr>rx_buffer := Some r'\<rparr>) (?ca\<lparr>next_read_slot := (1 + 1) mod length (slot_info ?ca)\<rparr>),
        Some (int (length [1, 2 :: byte]) + 2, [of_nat 1, 7] @ [1, 2])) \<and>
    rb_queue r' (filter (\<lambda>q. frag_conn (snd q) \<noteq> 7) [(p, [7, 0, 1, 2])] @ [])"
    by (rule written_message_is_read [where k = 1 and m = 3 and r = r and sl = "run_slot 5 r"])
      (use r(1) in \<open>simp_all add: cam_on_def run_slot_def new_slot_def quiet_slot_def frag_conn_def frags_ok_def link_frags.simps\<close>)
  then obtain r' where "io_read True (\<lambda>_. (True, True)) ?ca 100 =
      Some (upd_sl 1 (\<lambda>sl. sl\<lparr>rx_buffer := Some r'\<rparr>) (?ca\<lparr>next_read_slot := 0\<rparr>), Some (4, [1, 7, 1, 2]))" "rb_queue r' []"
    by (auto simp: cam_on_def frag_conn_def)
  then show ?thesis by (intro exI conjI) (assumption, simp_all add: upd_sl_def cam_on_def)
qed

text \<open>
  A read returns the first complete message of the connection that the first packet in the
  receive buffer belongs to, wherever its fragments are: the fragments are put together in their
  order and taken out, and the packets of other connections stay as they were.
\<close>

theorem io_read_first_message:
  assumes "slot_info ca = [sl]" "slot_state sl = SLOT_RUNNING" "rx_buffer sl = Some r" "rb_queue r Q" "frags_ok Q"
    "next_read_slot ca = 0" "Q \<noteq> []" "take_message (frag_conn (snd (hd Q))) Q = Some (fs, R)"
    "2 + length (concat fs) \<le> count"
  shows "\<exists>r'. io_read nonblock (\<lambda>_. (True, True)) ca count =
      Some (upd_sl 0 (\<lambda>sl. sl\<lparr>rx_buffer := Some r'\<rparr>) ca,
        Some (int (2 + length (concat fs)), [0, frag_conn (snd (hd Q))] @ concat fs)) \<and>
    rb_queue r' R"
  using io_read_one [OF assms] by blast

lemma rx_with_two:
  assumes "0 < length a" "length a < 1000" "0 < length b" "length b < 1000"
  shows "\<exists>r p q. rb_queue r [(p, a), (q, b)] \<and> rb_size r = 65535"
proof -
  obtain ra pa where a: "dvb_ringbuffer_pkt_write empty_rx a = Some (ra, int (length a))" "rb_pkts ra [(PKT_READY, a)]" "rb_size ra = 65535"
    using pkt_write [OF empty_rx_queue(1), of a] empty_rx_queue assms by (auto simp: pkt_ok_def)
  then have "rb_queue ra [(pkt_pos ra [(PKT_READY, a)] 0, a)]" by (intro rb_queueI [OF a(2)]) (simp add: ready_at_def)
  moreover have "rb_used ra = length a + 3" using pkt_off_all [OF a(2)] by (simp add: pkt_off_def)
  ultimately show ?thesis using rb_put_queue [of ra "[(pkt_pos ra [(PKT_READY, a)] 0, a)]" b] assms a(3) by auto
qed

theorem io_read_first_message_witness:
  "\<exists>r r' q. rb_queue r' [(q, [8, 0, 3])] \<and>
    io_read True (\<lambda>_. (True, True)) (cam_with [run_slot 5 r]) 100 =
      Some (upd_sl 0 (\<lambda>sl. sl\<lparr>rx_buffer := Some r'\<rparr>) (cam_with [run_slot 5 r]), Some (4, [0, 7, 1, 2]))"
proof -
  obtain r p q where r: "rb_queue r [(p, [7, 0, 1, 2]), (q, [8, 0, 3])]" "rb_size r = 65535"
    using rx_with_two [of "[7, 0, 1, 2]" "[8, 0, 3]"] by auto
  have "take_message 7 [(p, [7, 0, 1, 2]), (q, [8, 0, 3])] = Some ([[1, 2]], [(q, [8, 0, 3])])"
    by (simp add: frag_conn_def frag_last_def)
  then show ?thesis
    using io_read_first_message [OF _ _ _ r(1), of "cam_with [run_slot 5 r]" "run_slot 5 r" "[[1, 2]]" "[(q, [8, 0, 3])]" 100 True]
    by (force simp: cam_on_def run_slot_def frag_conn_def simp del: take_message.simps)
qed

subsection \<open>Ways to lose a message\<close>

text \<open>
  A message that is not complete in one slot hides the complete messages of the other: the
  connection that is looked for is taken from the first slot and kept for the second.  The
  device is not readable, a read finds nothing, and nothing changes for the next attempt, while
  the search would find the message if it began with the other slot.
\<close>

theorem incomplete_message_hides_other_slot:
  assumes "slot_info ca = [sl0, sl1]" "slot_state sl0 = SLOT_RUNNING" "slot_state sl1 = SLOT_RUNNING"
    "rx_buffer sl0 = Some r0" "rx_buffer sl1 = Some r1" "rb_queue r0 ((p, b) # Q0)" "rb_queue r1 Q1"
    "frags_ok ((p, b) # Q0)" "frags_ok Q1" "next_read_slot ca = 0" "2 \<le> count"
    "take_message (frag_conn b) ((p, b) # Q0) = None" "take_message (frag_conn b) Q1 = None"
    "Q1 \<noteq> []" "take_message (frag_conn (snd (hd Q1))) Q1 \<noteq> None"
  shows "io_poll ca = Some (ca, False) \<and> io_read True ok ca count = Some (ca, Some (- EAGAIN, [])) \<and>
    io_read_condition (ca\<lparr>next_read_slot := 1\<rparr>) = Some (ca, Some 1)"
proof -
  have ca: "ca\<lparr>next_read_slot := 0\<rparr> = ca" using assms(10) by simp
  note s0 = scan_message_queue [OF assms(6,8)] and s1 = scan_message_queue [OF assms(7,9)]
  have "io_read_condition ca = Some (ca, None)"
    using assms ca s0 [of None] s1 [of "Some (frag_conn b)"] rxq.next_first [OF assms(6)] rxq.next_first [OF assms(7)]
    by (simp add: io_read_condition_def numeral_2_eq_2 scan_conn_def del: take_message.simps)
  moreover have "io_read_condition (ca\<lparr>next_read_slot := 1\<rparr>) = Some (ca, Some 1)"
    using assms ca s1 [of None] rxq.next_first [OF assms(7)]
    by (cases Q1) (auto simp: io_read_condition_def numeral_2_eq_2 scan_conn_def simp del: take_message.simps)
  ultimately show ?thesis using assms(11) by (simp add: io_poll_def io_read_def)
qed

theorem incomplete_message_hides_other_slot_witness:
  "\<exists>r0 r1. io_poll (cam_with [run_slot 5 r0, run_slot 5 r1]) = Some (cam_with [run_slot 5 r0, run_slot 5 r1], False)"
proof -
  obtain r0 p0 where r0: "rb_queue r0 [(p0, [7, 0x80, 1])]" "rb_size r0 = 65535" using rx_with [of "[7, 0x80, 1]"] by auto
  obtain r1 p1 where r1: "rb_queue r1 [(p1, [8, 0, 2])]" "rb_size r1 = 65535" using rx_with [of "[8, 0, 2]"] by auto
  have "frag_conn [7, 0x80, 1] = 7" "frag_conn [8, 0, 2] = 8" "\<not> frag_last [7, 0x80, 1]" "frag_last [8, 0, 2]"
    by (simp_all add: frag_conn_def frag_last_def bit_numeral_rec)
  then show ?thesis
    using incomplete_message_hides_other_slot [OF _ _ _ _ _ r0(1) r1(1),
      of "cam_with [run_slot 5 r0, run_slot 5 r1]" "run_slot 5 r0" "run_slot 5 r1" 2 "\<lambda>_. (True, True)"]
    by (intro exI [of _ r0] exI [of _ r1]) (simp add: cam_on_def run_slot_def)
qed

text \<open>
  Opening the device does not empty the receive buffers: what a former user of the device
  left there is the first thing that a new one reads.
\<close>

theorem stale_message_after_open:
  assumes "io_open module_ok generic drv ca = (ca', 0)" "slot_info ca = [sl]" "slot_state sl = SLOT_RUNNING"
    "rx_buffer sl = Some r" "rb_queue r Q" "frags_ok Q" "next_read_slot ca = 0" "Q \<noteq> []"
    "take_message (frag_conn (snd (hd Q))) Q = Some (fs, R)" "2 + length (concat fs) \<le> count"
  shows "slot_info ca' = slot_info ca \<and>
    map_option snd (io_read nonblock (\<lambda>_. (True, True)) ca' count) =
      Some (Some (int (2 + length (concat fs)), [0, frag_conn (snd (hd Q))] @ concat fs))"
proof -
  have keep: "map open_slot sls = sls" for sls by (rule map_idI) (auto simp: open_slot_def split: option.splits)
  have "slot_info ca' = slot_info ca" "next_read_slot ca' = next_read_slot ca"
    using assms(1) by (auto simp: io_open_def Let_def keep dvb_ca_private_get_def thread_wakeup_def thread_update_delay_def split: if_splits)
  with io_read_one [of ca' sl r Q fs R count nonblock] assms(2-) show ?thesis by auto
qed

theorem stale_message_after_open_witness:
  "\<exists>r. map_option snd (io_read True (\<lambda>_. (True, True)) (fst (io_open True 0 free_cam ((cam_with [run_slot 5 r])\<lparr>ca_open := False\<rparr>))) 100) =
     Some (Some (4, [0, 7, 1, 2]))"
proof -
  obtain r p where r: "rb_queue r [(p, [7, 0, 1, 2])]" "rb_size r = 65535" using rx_with [of "[7, 0, 1, 2]"] by auto
  let ?ca = "(cam_with [run_slot 5 r])\<lparr>ca_open := False\<rparr>"
  have "io_open True 0 free_cam ?ca = (fst (io_open True 0 free_cam ?ca), 0)"
    by (simp add: io_open_def cam_on_def)
  moreover have "frag_conn [7, 0, 1, 2] = 7" "frag_last [7, 0, 1, 2]" by (simp_all add: frag_conn_def frag_last_def)
  ultimately show ?thesis
    using stale_message_after_open [OF _ _ _ _ r(1), of True 0 free_cam ?ca _ "run_slot 5 r" "[[1, 2]]" "[]" 100 True]
    by (intro exI [of _ r]) (auto simp: cam_on_def run_slot_def)
qed

text \<open>
  A slot whose CAM negotiates a link buffer of two bytes, header and no data, makes a
  write of any data endless: as long as the CAM takes the packets, the same empty fragment is
  sent again and again.
\<close>

theorem io_write_endless:
  assumes "slot < length (slot_info ca)" "slot < 256" "slot_info ca ! slot = sl" "slot_state sl = SLOT_RUNNING"
    "link_buf_size sl = 2" "data \<noteq> []" "0 \<le> HZ drv"
    "\<And>ca. slot_info ca ! slot = sl \<Longrightarrow> \<exists>ca1. ca_write_data drv ca slot [cid, 0x80] 0 = (ca1, 2) \<and> slot_info ca1 ! slot = sl"
  shows "io_write n drv (\<lambda>_. False) ca ([of_nat slot, cid] @ data) = None"
proof -
  have "unat (of_nat slot :: byte) = slot" using assms(2) by (simp add: unat_of_nat)
  then show ?thesis using assms write_loop_stuck [OF assms(7,5,4,6,8), of ca n] by (simp add: io_write_def)
qed

theorem io_write_endless_witness:
  "io_write 1000 free_cam (\<lambda>_. False) (cam_with [run_slot 2 empty_rx]) [0, 7, 1] = None"
proof -
  have takes: "\<exists>ca1. ca_write_data free_cam ca 0 [7, 0x80] 0 = (ca1, 2) \<and> slot_info ca1 ! 0 = run_slot 2 empty_rx"
    if "slot_info ca ! 0 = run_slot 2 empty_rx" for ca
    using free_cam_takes [of "[7, 0x80]" ca 0] that by (simp add: run_slot_def)
  show ?thesis using io_write_endless [of 0 "cam_with [run_slot 2 empty_rx]" "run_slot 2 empty_rx" "[1]" free_cam 7 1000] takes
    by (simp add: cam_on_def run_slot_def free_cam_def)
qed

text \<open>
  A slot that waits for its CAM to become free takes an error of the bus for the answer: a
  negative result with the right bit set, such as an input/output error, starts the link
  negotiation, while the same result ends a wait for the same flag with an error.
\<close>

theorem bus_error_taken_for_ready:
  assumes "slot_state (slot_info ca ! slot) = SLOT_WAITFR" "slot < length (slot_info ca)"
    "now drv ca \<le> sl_timeout (slot_info ca ! slot)"
    "read_cam_control drv slot CTRLIF_STATUS (hw ca) = (st, w)" "st < 0" "st AND STATUSREG_FR \<noteq> 0"
  shows "(\<exists>ca'. slot_step n rxbuf drv ca slot = Some ca' \<and> slot_state (slot_info ca' ! slot) = SLOT_LINKINIT) \<and>
    wait_if_status (Suc k) drv ca slot STATUSREG_FR t = Some (ca\<lparr>hw := w\<rparr>, - EIO)"
  using assms by (simp add: slot_step_def wait_if_status_def on_hw_def set_state_def upd_sl_def)

theorem bus_error_taken_for_ready_witness:
  "wait_if_status 1 (free_cam\<lparr>read_cam_control := \<lambda>s a w. (- EIO, w)\<rparr>)
     (cam_with [new_slot\<lparr>slot_state := SLOT_WAITFR, sl_timeout := 5\<rparr>]) 0 STATUSREG_FR 100 =
   Some (cam_with [new_slot\<lparr>slot_state := SLOT_WAITFR, sl_timeout := 5\<rparr>], - EIO)"
proof -
  let ?ca = "cam_with [new_slot\<lparr>slot_state := SLOT_WAITFR, sl_timeout := 5\<rparr>]"
  have "(- EIO) AND STATUSREG_FR \<noteq> 0" by simp
  from bus_error_taken_for_ready [OF _ _ _ _ _ this, of ?ca 0 "free_cam\<lparr>read_cam_control := \<lambda>s a w. (- EIO, w)\<rparr>" 0 0 None 0 100]
  show ?thesis by (simp add: cam_on_def now_def free_cam_def)
qed

subsection \<open>The hardware\<close>

text \<open>
  What a packet does to the registers of a module, for a driver without a callback for
  whole packets: nothing, or the command that asks for the interface, the length and the bytes
  as far as the module lets it, and then always the command that gives the interface back.  If
  the call says that the packet was sent, the module has got its length and all its bytes.
\<close>

theorem packet_handshake:
  assumes "ca_write_data (logging drv) ca slot buf f = (ca', r)" "drv_write_data drv = None"
    "\<And>s a v w. fst (write_cam_control drv s a v w) \<le> 0" "buf \<noteq> []"
  shows "\<exists>ws. writes ca' = writes ca @ ws \<and>
    (ws = [] \<or> (\<exists>p. prefix p (packet_writes buf f) \<and> ws = p @ [(CTRLIF_COMMAND, IRQEN)])) \<and>
    (r = int (length buf) \<longrightarrow> ws = packet_writes buf f @ [(CTRLIF_COMMAND, IRQEN)])"
  by (rule logged_packet [OF assms])

theorem packet_handshake_witness:
  "writes (fst (ca_write_data (logging free_cam) (cam_on (0, []) [run_slot 5 empty_rx]) 0 [7, 0, 9] 0)) =
    [(1, 0x81), (3, 0), (2, 3), (0, 7), (0, 0), (0, 9), (1, 0x80)]"
proof -
  let ?ca = "cam_on (0, []) [run_slot 5 empty_rx]"
  have "ca_write_data (logging free_cam) ?ca 0 [7, 0, 9] 0 = (fst (ca_write_data (logging free_cam) ?ca 0 [7, 0, 9] 0), 3)"
    by (simp add: ca_write_data_def write_regs_def logging_def free_cam_def on_hw_def cam_on_def run_slot_def)
  from packet_handshake [OF this] show ?thesis
    by (auto simp: free_cam_def writes_def cam_on_def packet_writes_def)
qed

text \<open>
  Waiting for a flag of a module ends, whatever the module answers, if the clock goes on
  while the thread sleeps: after at most one turn for each tick of the time allowed, with
  success, an error of the bus or a time-out, and with success only if the flag was read set.
\<close>

theorem wait_for_flag_ends:
  assumes "\<And>w. jiffies drv w + 1 \<le> jiffies drv (usleep drv w)"
    "\<And>s a w. jiffies drv w \<le> jiffies drv (snd (read_cam_control drv s a w))" "nat t + 1 < n"
  shows "\<exists>ca' r. wait_if_status n drv ca slot flag t = Some (ca', r) \<and> r \<in> {0, - EIO, - ETIMEDOUT} \<and>
    (r = 0 \<longrightarrow> (\<exists>w st. read_cam_control drv slot CTRLIF_STATUS w = (st, hw ca') \<and> 0 \<le> st \<and> st AND flag \<noteq> 0))"
proof -
  obtain k where k: "n = Suc k" "nat t < k" using assms(3) by (cases n) auto
  then have "now drv ca + t < now drv ca + int k" by linarith
  from wait_loop_ends [OF assms(1,2) this, where slot = slot and flag = flag] obtain ca' r where
    "wait_if_status_loop (Suc k) drv ca slot flag (now drv ca + t) = Some (ca', r)" "r \<in> {0, - EIO, - ETIMEDOUT}" by blast
  then show ?thesis using wait_loop_flag [of "Suc k" drv ca slot flag] unfolding wait_if_status_def k(1) by fastforce
qed

theorem wait_for_flag_ends_witness:
  "\<exists>ca' r. wait_if_status 102 free_cam (cam_with [new_slot]) 0 STATUSREG_DA 100 = Some (ca', r) \<and> r \<in> {0, - EIO, - ETIMEDOUT}"
proof -
  have "jiffies free_cam w + 1 \<le> jiffies free_cam (usleep free_cam w)"
    "jiffies free_cam w \<le> jiffies free_cam (snd (read_cam_control free_cam s a w))" for w s a
    by (simp_all add: free_cam_def)
  from wait_for_flag_ends [OF this, of 100 102 "cam_with [new_slot]" 0 STATUSREG_DA] show ?thesis by auto
qed

text \<open>
  The tuples of a module are understood as the standard lays them out: with the five
  leading tuples in order, a configuration tuple for version 1.00 of the interface, and a chain
  that ends within the memory, the module is accepted exactly if one of the entries that follow
  is an entry of a CI module; the option of the first such entry and the base address in the
  configuration tuple are taken, and nothing else of the interface changes.
\<close>

theorem module_tuples_understood:
  assumes "plain_memory drv slot m" "slot < length (slot_info ca)"
    "cis_at m 0 ((0x1D, b1) # (0x1C, b2) # (0x15, b3) # (0x20, b4) # (0x1A, b5) # ts)"
    "cis_end 0 ((0x1D, b1) # (0x1C, b2) # (0x15, b3) # (0x20, b4) # (0x1A, b5) # ts) \<le> 0x1000"
    "length b4 = 4" "ci_config b5"
  shows "\<exists>ca' r c. parse_attributes drv ca slot = Some (ca', r) \<and>
    ca' = upd_sl slot (\<lambda>sl. sl\<lparr>config_base := config_base_of b5, config_option := c\<rparr>) ca \<and>
    (case ci_option ts of Some x \<Rightarrow> r = 0 \<and> c = x | None \<Rightarrow> r = - EINVAL)"
  by (rule parse_chain [OF assms])

definition example_cis :: "cis_tuple list" where
  "example_cis = [(0x1D, []), (0x1C, []), (0x15, []), (0x20, [0, 0, 0, 0]),
     (0x1A, [1, 0, 0, 2] @ DVB_CI_V @ VERSION_1_00 @ [0, 0]), (0x1B, [0x4F] @ DVB_HOST @ DVB_CI_MODULE @ replicate 8 0)]"

lemma example_ci:
  "ci_config ([1, 0, 0, 2] @ DVB_CI_V @ VERSION_1_00 @ [0, 0])"
  "ci_option [(0x1B, [0x4F] @ DVB_HOST @ DVB_CI_MODULE @ replicate 8 0)] = Some 0x0F"
  by (simp_all add: ci_config_def ci_option_def ci_entry_def findstr_def DVB_CI_V_def VERSION_1_00_def DVB_HOST_def
    DVB_CI_MODULE_def upt_rec)

theorem module_tuples_understood_witness:
  "\<exists>ca'. parse_attributes (free_cam\<lparr>read_attribute_mem := \<lambda>s a w. (cis_memory example_cis a, w)\<rparr>) (cam_with [new_slot]) 0 =
     Some (ca', 0) \<and> config_option (slot_info ca' ! 0) = 0x0F"
proof -
  let ?drv = "free_cam\<lparr>read_attribute_mem := \<lambda>s a w. (cis_memory example_cis a, w)\<rparr>"
  have m: "plain_memory ?drv 0 (cis_memory example_cis)" by (simp add: plain_memory_def)
  have at: "cis_at (cis_memory example_cis) 0 example_cis"
    by (rule cis_memory_ok) (simp add: example_cis_def DVB_CI_V_def VERSION_1_00_def DVB_HOST_def DVB_CI_MODULE_def)
  have e: "cis_end 0 example_cis \<le> 0x1000"
    by (simp add: example_cis_def DVB_CI_V_def VERSION_1_00_def DVB_HOST_def DVB_CI_MODULE_def)
  from module_tuples_understood [OF m [unfolded example_cis_def] _ at [unfolded example_cis_def] e [unfolded example_cis_def] _ example_ci(1), of "cam_with [new_slot]",
      unfolded example_ci(2)]
  show ?thesis unfolding example_cis_def by (auto simp: cam_on_def upd_sl_def)
qed

text \<open>
  Reading the tuples of a module returns, whatever bytes the module has in its memory, and
  never writes outside the buffer for a tuple.
\<close>

theorem module_tuples_read:
  assumes "byte_memory drv"
  shows "parse_attributes drv ca slot \<noteq> None"
  by (rule parse_returns [OF assms])

theorem module_tuples_read_witness:
  "parse_attributes (free_cam\<lparr>read_attribute_mem := \<lambda>s a w. (a mod 256, w)\<rparr>) (cam_with [new_slot]) 0 \<noteq> None"
  by (rule module_tuples_read) (simp add: byte_memory_def, presburger)

end
