(* ===== verification/NetUle.thy ===== *)
theory NetUle imports Prelude begin

text \<open>
  The decapsulation of network packets (neumo-dvb-net.c): ULE (RFC 4326), which cuts packets
  into the payload of transport packets, here called cells.

  Socket buffers belong to the kernel: a \<open>struct sk_buff\<close> is the bytes that were written into it
  and how many of them count, and a packet that is handed to the kernel is recorded with its
  type, protocol, header and data.  \<^const>\<open>None\<close> is an access outside the cells or outside
  the bytes written to a socket buffer, or a loop that is still running without fuel.

  \<open>crc32_be\<close> of the kernel is a parameter.
\<close>

subsection \<open>Socket buffers\<close>

record sk_buff =
  skb_mem :: "byte list"
  skb_len :: nat
  skb_room :: nat

definition dev_alloc_skb :: "nat \<Rightarrow> sk_buff" where
  "dev_alloc_skb n = \<lparr>skb_mem = [], skb_len = 0, skb_room = n\<rparr>"

definition skb_reserve :: "sk_buff \<Rightarrow> nat \<Rightarrow> sk_buff" where
  "skb_reserve skb n = skb\<lparr>skb_room := skb_room skb - n\<rparr>"

text \<open>More bytes than there is room for stop the kernel.\<close>

definition skb_put_data :: "sk_buff \<Rightarrow> byte list \<Rightarrow> sk_buff option" where
  "skb_put_data skb bs =
     (if length bs > skb_room skb then None
      else Some (skb\<lparr>skb_mem := take (skb_len skb) (skb_mem skb) @ bs, skb_len := skb_len skb + length bs,
        skb_room := skb_room skb - length bs\<rparr>))"

definition skb_trim_tail :: "sk_buff \<Rightarrow> nat \<Rightarrow> sk_buff" where
  "skb_trim_tail skb n = skb\<lparr>skb_len := skb_len skb - n\<rparr>"

definition skb_pull :: "sk_buff \<Rightarrow> nat \<Rightarrow> sk_buff" where
  "skb_pull skb n =
     (if n > skb_len skb then skb else skb\<lparr>skb_mem := drop n (skb_mem skb), skb_len := skb_len skb - n\<rparr>)"

definition skb_push :: "sk_buff \<Rightarrow> byte list \<Rightarrow> sk_buff" where
  "skb_push skb hdr = skb\<lparr>skb_mem := hdr @ skb_mem skb, skb_len := skb_len skb + length hdr\<rparr>"

text \<open>A field of two bytes.\<close>

definition be16 :: "byte list \<Rightarrow> nat \<Rightarrow> u16 option" where
  "be16 mem i = do { a \<leftarrow> mem_at mem i; b \<leftarrow> mem_at mem (i + 1); Some (push_bit 8 (ucast a) OR ucast b) }"

definition be16_bytes :: "u16 \<Rightarrow> byte list" where
  "be16_bytes x = [ucast (drop_bit 8 x), ucast x]"

subsection \<open>The device\<close>

abbreviation (input) ETH_ALEN :: nat where "ETH_ALEN \<equiv> 6"
abbreviation (input) ETH_HLEN :: nat where "ETH_HLEN \<equiv> 14"
abbreviation (input) ETH_P_802_3_MIN :: u16 where "ETH_P_802_3_MIN \<equiv> 0x0600"
abbreviation (input) ETH_P_802_3 :: u16 where "ETH_P_802_3 \<equiv> 1"
abbreviation (input) ETH_P_802_2 :: u16 where "ETH_P_802_2 \<equiv> 4"

datatype pkt_type = PACKET_HOST | PACKET_BROADCAST | PACKET_MULTICAST

record frame =
  fr_type :: pkt_type
  fr_protocol :: u16
  fr_header :: "byte list"
  fr_data :: "byte list"

record net_device =
  dev_addr :: "byte list"
  rx_packets :: nat
  rx_bytes :: nat
  rx_errors :: nat
  rx_dropped :: nat
  rx_length_errors :: nat
  rx_crc_errors :: nat
  rx_frame_errors :: nat
  received :: "frame list"

datatype rx_mode = RX_MODE_UNI | RX_MODE_MULTI | RX_MODE_ALL_MULTI | RX_MODE_PROMISC

record dvb_net_priv =
  multi_num :: nat
  multi_macs :: "byte list list"
  rx_mode :: rx_mode
  need_pusi :: bool
  tscc :: byte
  ule_skb :: "sk_buff option"
  ule_next_hdr :: nat
  ule_sndu_len :: nat
  ule_sndu_type :: u16
  ule_sndu_type_1 :: bool
  ule_dbit :: byte
  ule_bridged :: bool
  ule_sndu_remain :: int
  ts_count :: nat

text \<open>The state of a call: the positions in the cells, the device and its private state.\<close>

record ule_handle =
  h_dev :: net_device
  h_priv :: dvb_net_priv
  h_skipped :: nat
  h_ts :: nat
  h_from :: nat
  ts_remain :: nat
  new_ts :: bool

definition upd_priv :: "(dvb_net_priv \<Rightarrow> dvb_net_priv) \<Rightarrow> ule_handle \<Rightarrow> ule_handle" where
  "upd_priv f h = h\<lparr>h_priv := f (h_priv h)\<rparr>"

definition upd_dev :: "(net_device \<Rightarrow> net_device) \<Rightarrow> ule_handle \<Rightarrow> ule_handle" where
  "upd_dev f h = h\<lparr>h_dev := f (h_dev h)\<rparr>"

subsection \<open>Handing a packet to the kernel\<close>

text \<open>The first two bytes of the data after a header that has a length instead of a type.\<close>

definition dvb_net_eth_type_trans :: "sk_buff \<Rightarrow> (sk_buff \<times> pkt_type \<times> u16) option" where
  "dvb_net_eth_type_trans skb =
     (let skb1 = skb_pull skb ETH_HLEN
      in do {
        hdr \<leftarrow> memread (skb_mem skb) 0 ETH_HLEN;
        proto \<leftarrow> be16 hdr 12;
        let typ = (if bit (hdr ! 0) 0
          then if take 6 hdr = replicate 6 0xff then PACKET_BROADCAST else PACKET_MULTICAST else PACKET_HOST);
        (if proto \<ge> ETH_P_802_3_MIN then Some (skb1, typ, proto)
         else do {
           raw \<leftarrow> memread (skb_mem skb1) 0 2;
           Some (skb1, typ, if raw = [0xff, 0xff] then ETH_P_802_3 else ETH_P_802_2) }) })"

definition netif_rx :: "sk_buff \<Rightarrow> net_device \<Rightarrow> net_device option" where
  "netif_rx skb dev = do {
     (skb1, typ, proto) \<leftarrow> dvb_net_eth_type_trans skb;
     Some (dev\<lparr>rx_packets := rx_packets dev + 1, rx_bytes := rx_bytes dev + skb_len skb1,
       received := received dev @ [\<lparr>fr_type = typ, fr_protocol = proto, fr_header = take ETH_HLEN (skb_mem skb),
         fr_data = take (skb_len skb1) (skb_mem skb1)\<rparr>]\<rparr>) }"

subsection \<open>Extension headers\<close>

text \<open>
  \<open>ule_next_hdr\<close> is an offset from the start of the data.  The handler of bridged packets; the
  one of test packets returns -1, the one of padding does nothing.  The tables of handlers have
  255 entries: a header of type 255 is looked for behind their end.
\<close>

definition ule_bridged_sndu :: "dvb_net_priv \<Rightarrow> byte list \<Rightarrow> (dvb_net_priv \<times> int) option" where
  "ule_bridged_sndu p mem = do {
     proto \<leftarrow> be16 mem (ule_next_hdr p + 12);
     (if proto < ETH_P_802_3_MIN \<and> int (ule_sndu_len p) - int (ule_next_hdr p + ETH_HLEN) \<noteq> uint proto
      then Some (p, - 1) else Some (p\<lparr>ule_bridged := True\<rparr>, 0)) }"

definition handle_one_ule_extension :: "dvb_net_priv \<Rightarrow> byte list \<Rightarrow> (dvb_net_priv \<times> int) option" where
  "handle_one_ule_extension p mem =
     (let hlen = unat (drop_bit 8 (ule_sndu_type p AND 0x0700)); htype = ule_sndu_type p AND 0xff
      in if htype = 0xff then None
         else if hlen = 0
         then if htype = 0 then Some (p, - 1)
              else if htype = 1 then do {
                (p1, ext_len) \<leftarrow> ule_bridged_sndu p mem;
                (if ext_len < 0 then Some (p1, ext_len)
                 else do {
                   typ \<leftarrow> be16 mem (ule_next_hdr p1 + (if ule_dbit p1 \<noteq> 0 then 2 else 3) * ETH_ALEN);
                   Some (p1\<lparr>ule_sndu_type := typ\<rparr>, ext_len) }) }
              else Some (p, - 1)
         else do {
           typ \<leftarrow> be16 mem (ule_next_hdr p + hlen * 2 - 2);
           Some (p\<lparr>ule_next_hdr := ule_next_hdr p + hlen * 2, ule_sndu_type := typ\<rparr>, int (hlen * 2)) })"

text \<open>The chain of headers; a turn of the loop is a unit of fuel.\<close>

fun ule_extension_loop :: "nat \<Rightarrow> dvb_net_priv \<Rightarrow> byte list \<Rightarrow> int \<Rightarrow> (dvb_net_priv \<times> int) option" where
  "ule_extension_loop 0 p mem acc = None"
| "ule_extension_loop (Suc n) p mem acc = do {
     (p1, l) \<leftarrow> handle_one_ule_extension p mem;
     (if l < 0 then Some (p1, l)
      else if ule_sndu_type p1 < ETH_P_802_3_MIN then ule_extension_loop n p1 mem (acc + l)
      else Some (p1, acc + l)) }"

definition handle_ule_extensions :: "nat \<Rightarrow> dvb_net_priv \<Rightarrow> byte list \<Rightarrow> (dvb_net_priv \<times> int) option" where
  "handle_ule_extensions n p mem = ule_extension_loop n (p\<lparr>ule_next_hdr := 0\<rparr>) mem 0"

definition reset_ule :: "dvb_net_priv \<Rightarrow> dvb_net_priv" where
  "reset_ule p = p\<lparr>ule_skb := None, ule_next_hdr := 0, ule_sndu_len := 0, ule_sndu_type := 0, ule_sndu_type_1 := False,
     ule_sndu_remain := 0, ule_dbit := 0xff, ule_bridged := False\<rparr>"

subsection \<open>Cells\<close>

abbreviation (input) TS_SZ :: nat where "TS_SZ \<equiv> 188"
abbreviation (input) TS_SYNC :: byte where "TS_SYNC \<equiv> 0x47"
abbreviation (input) TS_TEI :: byte where "TS_TEI \<equiv> 0x80"
abbreviation (input) TS_SC :: byte where "TS_SC \<equiv> 0xc0"
abbreviation (input) TS_PUSI :: byte where "TS_PUSI \<equiv> 0x40"

definition next_cell :: "ule_handle \<Rightarrow> ule_handle" where
  "next_cell h = upd_priv (\<lambda>p. p\<lparr>ts_count := ts_count p + 1\<rparr>) (h\<lparr>h_ts := h_ts h + TS_SZ\<rparr>)"

text \<open>Dropping what there is of a packet.\<close>

definition drop_partial :: "ule_handle \<Rightarrow> ule_handle" where
  "drop_partial h =
     (let h1 = (if ule_skb (h_priv h) \<noteq> None
        then upd_dev (\<lambda>d. d\<lparr>rx_errors := rx_errors d + 1, rx_frame_errors := rx_frame_errors d + 1\<rparr>) h else h)
      in upd_priv (\<lambda>p. (reset_ule p)\<lparr>need_pusi := True\<rparr>) h1)"

text \<open>The flag says that the loop goes on with its next turn.\<close>

definition dvb_net_ule_new_ts_cell :: "byte list \<Rightarrow> ule_handle \<Rightarrow> (ule_handle \<times> bool) option" where
  "dvb_net_ule_new_ts_cell buf h = do {
     b0 \<leftarrow> mem_at buf (h_ts h);
     b1 \<leftarrow> mem_at buf (h_ts h + 1);
     b3 \<leftarrow> mem_at buf (h_ts h + 3);
     Some (if b0 \<noteq> TS_SYNC \<or> b1 AND TS_TEI \<noteq> 0 \<or> b3 AND TS_SC \<noteq> 0
       then (next_cell (drop_partial h), True)
       else (h\<lparr>ts_remain := 184, h_from := h_ts h + 4\<rparr>, False)) }"

text \<open>\<open>ts_remain\<close> is a byte.\<close>

definition dvb_net_ule_ts_pusi :: "byte list \<Rightarrow> ule_handle \<Rightarrow> (ule_handle \<times> bool) option" where
  "dvb_net_ule_ts_pusi buf h = do {
     b1 \<leftarrow> mem_at buf (h_ts h + 1);
     (if b1 AND TS_PUSI \<noteq> 0 then do {
        b3 \<leftarrow> mem_at buf (h_ts h + 3);
        ptr \<leftarrow> mem_at buf (h_ts h + 4);
        let h1 = upd_priv (\<lambda>p. p\<lparr>tscc := b3 AND 0x0f\<rparr>) h;
        Some (if uint ptr > int (ts_remain h) then (next_cell h1, True)
          else (h1\<lparr>h_from := h_ts h + 5 + unat ptr, ts_remain := nat ((int (ts_remain h) - 1 - uint ptr) mod 256),
                  h_skipped := 0\<rparr>, False)) }
      else Some (next_cell (h\<lparr>h_skipped := h_skipped h + 1\<rparr>), True)) }"

definition dvb_net_ule_new_ts :: "byte list \<Rightarrow> ule_handle \<Rightarrow> (ule_handle \<times> bool) option" where
  "dvb_net_ule_new_ts buf h = do {
     b1 \<leftarrow> mem_at buf (h_ts h + 1);
     b3 \<leftarrow> mem_at buf (h_ts h + 3);
     (if b3 AND 0x0f \<noteq> tscc (h_priv h) then Some (drop_partial h, True)
      else let h1 = upd_priv (\<lambda>p. p\<lparr>tscc := (tscc p + 1) AND 0x0f\<rparr>) h
           in if b1 AND TS_PUSI = 0 then Some (h1, False)
              else do {
                (h2, bad) \<leftarrow> (if need_pusi (h_priv h1) then Some (upd_priv (\<lambda>p. p\<lparr>need_pusi := False\<rparr>) h1, False)
                  else do {
                    ptr \<leftarrow> mem_at buf (h_from h1);
                    (if \<not> (uint ptr < int (ts_remain h1) - 1) \<or> uint ptr \<noteq> ule_sndu_remain (h_priv h1)
                     then Some (upd_priv (\<lambda>p. (reset_ule p)\<lparr>need_pusi := True\<rparr>)
                       (if ule_skb (h_priv h1) \<noteq> None \<or> ule_sndu_remain (h_priv h1) \<noteq> 0
                        then upd_dev (\<lambda>d. d\<lparr>rx_errors := rx_errors d + 1, rx_frame_errors := rx_frame_errors d + 1\<rparr>) h1
                        else h1), True)
                     else Some (h1\<lparr>h_from := h_from h1 + 1, ts_remain := nat ((int (ts_remain h1) - 1) mod 256)\<rparr>, False)) });
                (if bad then Some (h2, True)
                 else if ule_sndu_remain (h_priv h2) > 183 then do {
                   ptr \<leftarrow> mem_at buf (h_ts h2 + 4);
                   let h3 = upd_priv reset_ule (upd_dev (\<lambda>d. d\<lparr>rx_errors := rx_errors d + 1, rx_length_errors := rx_length_errors d + 1\<rparr>) h2);
                   Some (h3\<lparr>h_from := h_from h3 + unat ptr, ts_remain := nat ((int (ts_remain h3) - uint ptr) mod 256)\<rparr>, False) }
                 else Some (h2, False)) }) }"

subsection \<open>Packets\<close>

text \<open>
  The start of a packet: its length and type, as far as they are in this cell.  \<open>oom\<close> says at
  which positions there is no memory.  The result: to go on with the next turn, to return, or
  to go on with the data.
\<close>

datatype ule_next = Next_turn | Return | Go_on

definition ule_length :: "byte list \<Rightarrow> ule_handle \<Rightarrow> (ule_handle \<times> bool) option" where
  "ule_length buf h = do {
     b0 \<leftarrow> mem_at buf (h_from h);
     b1 \<leftarrow> mem_at buf (h_from h + 1);
     let len = unat b0 * 256 + unat b1;
     let h1 = upd_priv (\<lambda>p. if len \<ge> 0x8000 then p\<lparr>ule_sndu_len := len - 0x8000, ule_dbit := 1\<rparr>
           else p\<lparr>ule_sndu_len := len, ule_dbit := 0\<rparr>) h;
     Some (if ule_sndu_len (h_priv h1) < 5
       then (next_cell (upd_priv (\<lambda>p. p\<lparr>ule_sndu_len := 0, need_pusi := True\<rparr>)
         (upd_dev (\<lambda>d. d\<lparr>rx_errors := rx_errors d + 1, rx_length_errors := rx_length_errors d + 1\<rparr>)
           (h1\<lparr>new_ts := True\<rparr>))), False)
       else (h1\<lparr>ts_remain := ts_remain h1 - 2, h_from := h_from h1 + 2\<rparr>, True)) }"

definition ule_type :: "byte list \<Rightarrow> ule_handle \<Rightarrow> ule_handle option" where
  "ule_type buf h =
     (if ule_sndu_type_1 (h_priv h) then do {
        b0 \<leftarrow> mem_at buf (h_from h);
        Some (upd_priv (\<lambda>p. p\<lparr>ule_sndu_type_1 := False, ule_sndu_type := ule_sndu_type p OR ucast b0\<rparr>)
          (h\<lparr>h_from := h_from h + 1, ts_remain := ts_remain h - 1\<rparr>)) }
      else do {
        typ \<leftarrow> be16 buf (h_from h);
        Some (upd_priv (\<lambda>p. p\<lparr>ule_sndu_type := typ\<rparr>) (h\<lparr>h_from := h_from h + 2, ts_remain := ts_remain h - 2\<rparr>)) })"

definition ule_alloc :: "(nat \<Rightarrow> bool) \<Rightarrow> ule_handle \<Rightarrow> ule_handle \<times> ule_next" where
  "ule_alloc oom h =
     (if oom (h_from h) then (upd_dev (\<lambda>d. d\<lparr>rx_dropped := rx_dropped d + 1\<rparr>) h, Return)
      else (upd_priv (\<lambda>p. p\<lparr>ule_sndu_remain := int (ule_sndu_len p),
          ule_skb := Some (skb_reserve (dev_alloc_skb (ule_sndu_len p + ETH_HLEN + ETH_ALEN)) (ETH_HLEN + ETH_ALEN))\<rparr>) h,
        Go_on))"

text \<open>The type may be in the next cell, or be cut in two.\<close>

definition ule_header :: "byte list \<Rightarrow> (nat \<Rightarrow> bool) \<Rightarrow> ule_handle \<Rightarrow> (ule_handle \<times> ule_next) option" where
  "ule_header buf oom h =
     (if ts_remain h = 1 then do {
        b0 \<leftarrow> mem_at buf (h_from h);
        Some (next_cell (upd_priv (\<lambda>p. p\<lparr>ule_sndu_remain := ule_sndu_remain p - 1,
            ule_sndu_type := push_bit 8 (ucast b0), ule_sndu_type_1 := True\<rparr>)
          (h\<lparr>ts_remain := 0, h_from := h_from h + 1, new_ts := True\<rparr>)), Next_turn) }
      else if ts_remain h = 0 then Some (next_cell (h\<lparr>new_ts := True\<rparr>), Next_turn)
      else map_option (ule_alloc oom) (ule_type buf h))"

definition dvb_net_ule_new_payload :: "byte list \<Rightarrow> (nat \<Rightarrow> bool) \<Rightarrow> ule_handle \<Rightarrow> (ule_handle \<times> ule_next) option" where
  "dvb_net_ule_new_payload buf oom h =
     (if ts_remain h < 2
      then Some (upd_priv (\<lambda>p. p\<lparr>ule_sndu_len := 0, need_pusi := True\<rparr>) (h\<lparr>h_ts := h_ts h + TS_SZ\<rparr>), Next_turn)
      else do {
        (h1, valid) \<leftarrow> (if ule_sndu_len (h_priv h) \<noteq> 0 then Some (h, True) else ule_length buf h);
        (if \<not> valid then Some (h1, Next_turn)
         else ule_header buf oom (upd_priv (\<lambda>p. p\<lparr>ule_sndu_remain := int (ule_sndu_len p) + 2\<rparr>) h1)) })"

text \<open>Whether a packet with the destination at the start of its data is for somebody else.\<close>

definition dvb_net_ule_should_drop :: "dvb_net_priv \<Rightarrow> net_device \<Rightarrow> byte list \<Rightarrow> bool option" where
  "dvb_net_ule_should_drop p dev mem =
     (if rx_mode p = RX_MODE_PROMISC then Some False
      else do {
        dest \<leftarrow> memread mem 0 ETH_ALEN;
        Some (if bit (dest ! 0) 0
          then dest \<noteq> replicate 6 0xff \<and>
            (if rx_mode p = RX_MODE_MULTI then dest \<notin> set (take (multi_num p) (multi_macs p)) else rx_mode p \<noteq> RX_MODE_ALL_MULTI)
          else dest \<noteq> dev_addr dev) })"

text \<open>The end of a packet: the checksum, the destination, the headers.\<close>

definition dvb_net_ule_deliver :: "nat \<Rightarrow> ule_handle \<Rightarrow> sk_buff \<Rightarrow> ule_handle option" where
  "dvb_net_ule_deliver n h skb0 =
     (let skb1 = skb_trim_tail skb0 4; p = h_priv h
      in do {
        (skb2, dest, bad) \<leftarrow> (if ule_dbit p = 0 then do {
            bad \<leftarrow> dvb_net_ule_should_drop p (h_dev h) (skb_mem skb1);
            (if bad then Some (skb1, [], True)
             else do {
               dest \<leftarrow> memread (skb_mem skb1) 0 ETH_ALEN;
               Some (skb_pull skb1 ETH_ALEN, dest, False) }) }
          else Some (skb1, replicate ETH_ALEN 0, False));
        (if bad then Some h
         else do {
           (p1, l) \<leftarrow> (if ule_sndu_type p < ETH_P_802_3_MIN then handle_ule_extensions n p (skb_mem skb2) else Some (p, 0));
           (let h1 = upd_priv (\<lambda>_. p1) h
            in if l < 0 then Some h1
               else let skb3 = skb_pull skb2 (nat l);
                        skb4 = (if ule_bridged p1 then skb3
                          else skb_push skb3 (dest @ replicate ETH_ALEN 0 @ be16_bytes (ule_sndu_type p1)))
                    in do {
                      dev \<leftarrow> netif_rx skb4 (h_dev h1);
                      Some (upd_dev (\<lambda>_. dev) (upd_priv (\<lambda>p. p\<lparr>ule_bridged := False\<rparr>) h1)) }) }) })"

text \<open>The checksum runs over length, type and data; \<open>crc\<close> is \<open>crc32_be\<close>.\<close>

definition iov_crc32 :: "(u32 \<Rightarrow> byte list \<Rightarrow> u32) \<Rightarrow> u32 \<Rightarrow> byte list list \<Rightarrow> u32" where
  "iov_crc32 crc c iov = foldl crc c iov"

definition ule_crc :: "(u32 \<Rightarrow> byte list \<Rightarrow> u32) \<Rightarrow> bool \<Rightarrow> nat \<Rightarrow> u16 \<Rightarrow> byte list \<Rightarrow> u32" where
  "ule_crc crc dbit len typ d =
     iov_crc32 crc (- 1) [be16_bytes (of_nat len OR (if dbit then 0x8000 else 0)), be16_bytes typ, d]"

definition crc_bytes :: "byte list \<Rightarrow> u32" where
  "crc_bytes t = push_bit 24 (ucast (t ! 0)) OR push_bit 16 (ucast (t ! 1)) OR push_bit 8 (ucast (t ! 2)) OR ucast (t ! 3)"

definition dvb_net_ule_check_crc :: "nat \<Rightarrow> ule_handle \<Rightarrow> sk_buff \<Rightarrow> u32 \<Rightarrow> u32 \<Rightarrow> ule_handle option" where
  "dvb_net_ule_check_crc n h skb c expected =
     (if c \<noteq> expected
      then Some (upd_dev (\<lambda>d. d\<lparr>rx_errors := rx_errors d + 1, rx_crc_errors := rx_crc_errors d + 1\<rparr>) h)
      else dvb_net_ule_deliver n h skb)"

definition ule_complete :: "nat \<Rightarrow> (u32 \<Rightarrow> byte list \<Rightarrow> u32) \<Rightarrow> ule_handle \<Rightarrow> sk_buff \<Rightarrow> ule_handle option" where
  "ule_complete n crc h skb =
     (if skb_len skb < 4 then None
      else let p = h_priv h; d = take (skb_len skb - 4) (skb_mem skb)
           in Option.bind (dvb_net_ule_check_crc n h skb (ule_crc crc (ule_dbit p \<noteq> 0) (ule_sndu_len p) (ule_sndu_type p) d)
                (crc_bytes (drop (skb_len skb - 4) (skb_mem skb))))
              (\<lambda>h1. Some (upd_priv reset_ule h1)))"

text \<open>Whether another packet starts in this cell.\<close>

definition ule_more :: "byte list \<Rightarrow> ule_handle \<Rightarrow> ule_handle option" where
  "ule_more buf h = do {
     more \<leftarrow> (if ts_remain h \<ge> 2 then map_option (\<lambda>b. b \<noteq> [0xff, 0xff]) (memread buf (h_from h) 2) else Some False);
     Some (if more
       then upd_priv (\<lambda>p. p\<lparr>ule_skb := None, ule_sndu_type_1 := False, ule_sndu_len := 0\<rparr>) (h\<lparr>new_ts := False\<rparr>)
       else let h1 = next_cell (h\<lparr>new_ts := True\<rparr>)
            in if ule_skb (h_priv h1) = None
               then upd_priv (\<lambda>p. p\<lparr>need_pusi := True, ule_sndu_type_1 := False, ule_sndu_len := 0\<rparr>) h1 else h1) }"

text \<open>
  The data of a packet in this cell.  The inner option is \<^const>\<open>None\<close> if the delivery of a
  packet that is complete goes wrong.
\<close>

definition ule_data :: "nat \<Rightarrow> (u32 \<Rightarrow> byte list \<Rightarrow> u32) \<Rightarrow> byte list \<Rightarrow> ule_handle \<Rightarrow> ule_handle option option" where
  "ule_data n crc buf h =
     (case ule_skb (h_priv h) of
        None \<Rightarrow> None
      | Some skb \<Rightarrow>
          let how_much = nat (min (ule_sndu_remain (h_priv h)) (int (ts_remain h)))
          in do {
            bs \<leftarrow> memread buf (h_from h) how_much;
            skb1 \<leftarrow> skb_put_data skb bs;
            let h1 = upd_priv (\<lambda>p. p\<lparr>ule_skb := Some skb1, ule_sndu_remain := ule_sndu_remain p - int how_much\<rparr>)
                  (h\<lparr>ts_remain := ts_remain h - how_much, h_from := h_from h + how_much\<rparr>);
            (case (if ule_sndu_remain (h_priv h1) \<le> 0 then ule_complete n crc h1 skb1 else Some h1) of
               None \<Rightarrow> Some None
             | Some h2 \<Rightarrow> map_option Some (ule_more buf h2)) })"

text \<open>
  A turn of the loop over the cells: its start, which finds the payload of the cell, and the
  rest.  The result is \<open>Inl\<close> if the call ends.
\<close>

definition ule_sync ::
    "byte list \<Rightarrow> ule_handle \<Rightarrow> (ule_handle \<times> bool) option" where
  "ule_sync buf h = do {
     (h1, c1) \<leftarrow> (if new_ts h then dvb_net_ule_new_ts_cell buf h else Some (h, False));
     (if c1 then Some (h1, True)
      else do {
        (h2, c2) \<leftarrow> (if need_pusi (h_priv h1) then dvb_net_ule_ts_pusi buf h1 else Some (h1, False));
        (if c2 then Some (h2, True)
         else if new_ts h2 then dvb_net_ule_new_ts buf h2 else Some (h2, False)) }) }"

definition ule_body ::
    "nat \<Rightarrow> (u32 \<Rightarrow> byte list \<Rightarrow> u32) \<Rightarrow> (nat \<Rightarrow> bool) \<Rightarrow> byte list \<Rightarrow> ule_handle \<Rightarrow> (ule_handle option + ule_handle) option" where
  "ule_body n crc oom buf h = do {
     (h1, nx) \<leftarrow> (if ule_skb (h_priv h) = None then dvb_net_ule_new_payload buf oom h else Some (h, Go_on));
     (case nx of
        Return \<Rightarrow> Some (Inl (Some h1))
      | Next_turn \<Rightarrow> Some (Inr h1)
      | Go_on \<Rightarrow> map_option (\<lambda>r. case r of None \<Rightarrow> Inl None | Some h2 \<Rightarrow> Inr h2) (ule_data n crc buf h1)) }"

definition ule_turn ::
    "nat \<Rightarrow> (u32 \<Rightarrow> byte list \<Rightarrow> u32) \<Rightarrow> (nat \<Rightarrow> bool) \<Rightarrow> byte list \<Rightarrow> ule_handle \<Rightarrow> (ule_handle option + ule_handle) option" where
  "ule_turn n crc oom buf h = do {
     (h1, again) \<leftarrow> ule_sync buf h;
     (if again then Some (Inr h1) else ule_body n crc oom buf h1) }"

fun ule_loop ::
    "nat \<Rightarrow> nat \<Rightarrow> (u32 \<Rightarrow> byte list \<Rightarrow> u32) \<Rightarrow> (nat \<Rightarrow> bool) \<Rightarrow> byte list \<Rightarrow> ule_handle \<Rightarrow> ule_handle option option" where
  "ule_loop 0 n crc oom buf h = None"
| "ule_loop (Suc k) n crc oom buf h =
     (if h_ts h \<ge> length buf then Some (Some h)
      else Option.bind (ule_turn n crc oom buf h) (\<lambda>r. case r of Inl h1 \<Rightarrow> Some h1 | Inr h1 \<Rightarrow> ule_loop k n crc oom buf h1))"

definition ule_start :: "net_device \<Rightarrow> dvb_net_priv \<Rightarrow> ule_handle" where
  "ule_start dev p = \<lparr>h_dev = dev, h_priv = p, h_skipped = 0, h_ts = 0, h_from = 0, ts_remain = 0, new_ts = True\<rparr>"

text \<open>The device and its state after the call.\<close>

definition dvb_net_ule ::
    "nat \<Rightarrow> nat \<Rightarrow> (u32 \<Rightarrow> byte list \<Rightarrow> u32) \<Rightarrow> (nat \<Rightarrow> bool) \<Rightarrow> byte list \<Rightarrow> net_device \<Rightarrow> dvb_net_priv \<Rightarrow>
     (net_device \<times> dvb_net_priv) option option" where
  "dvb_net_ule k n crc oom buf dev p =
     map_option (map_option (\<lambda>h. (h_dev h, h_priv h))) (ule_loop k n crc oom buf (ule_start dev p))"

text \<open>The callback of the feed of an interface; the demux gives it one cell, in one piece.\<close>

definition dvb_net_pid_callback ::
    "nat \<Rightarrow> nat \<Rightarrow> (u32 \<Rightarrow> byte list \<Rightarrow> u32) \<Rightarrow> (nat \<Rightarrow> bool) \<Rightarrow> byte list \<Rightarrow> net_device \<Rightarrow> dvb_net_priv \<Rightarrow>
     ((net_device \<times> dvb_net_priv) \<times> int) option option" where
  "dvb_net_pid_callback k n crc oom buffer1 dev p = map_option (map_option (\<lambda>s. (s, 0))) (dvb_net_ule k n crc oom buffer1 dev p)"

end
