(* ===== verification/NetCells.thy ===== *)
theory NetCells imports NetUle begin

text \<open>
  What the decoder of ULE keeps of its state from cell to cell, and that it stays in the cell and
  its buffers and ends: the state is idle, in a header or in the data of a packet (\<open>ule_ok\<close>), and
  every turn of the loop over a cell takes it from one such state to another, with less left to
  do (\<open>turns_left\<close>).
\<close>

subsection \<open>The state between cells\<close>

definition ule_idle :: "dvb_net_priv \<Rightarrow> bool" where
  "ule_idle p \<longleftrightarrow> ule_skb p = None \<and> ule_sndu_len p = 0 \<and> ule_sndu_remain p = 0 \<and> \<not> ule_sndu_type_1 p"

definition ule_in_header :: "dvb_net_priv \<Rightarrow> bool" where
  "ule_in_header p \<longleftrightarrow> ule_skb p = None \<and> 5 \<le> ule_sndu_len p \<and> ule_sndu_len p < 0x8000 \<and>
     ule_sndu_remain p = int (ule_sndu_len p) + (if ule_sndu_type_1 p then 1 else 2)"

definition ule_in_data :: "dvb_net_priv \<Rightarrow> sk_buff \<Rightarrow> bool" where
  "ule_in_data p skb \<longleftrightarrow> ule_skb p = Some skb \<and> 5 \<le> ule_sndu_len p \<and> ule_sndu_len p < 0x8000 \<and> \<not> ule_sndu_type_1 p \<and>
     length (skb_mem skb) = skb_len skb \<and> skb_room skb = nat (ule_sndu_remain p) \<and>
     int (skb_len skb) + ule_sndu_remain p = int (ule_sndu_len p)"

text \<open>Without memory for a packet, its header stays behind.\<close>

definition ule_ok :: "dvb_net_priv \<Rightarrow> bool" where
  "ule_ok p \<longleftrightarrow> (if need_pusi p then ule_idle p else ule_in_header p \<or> (\<exists>skb. ule_in_data p skb \<and> 0 < ule_sndu_remain p))"

text \<open>Between the packets of a cell.\<close>

definition at_packet :: "byte list \<Rightarrow> ule_handle \<Rightarrow> bool" where
  "at_packet buf h \<longleftrightarrow> h_from h + ts_remain h = length buf \<and> \<not> need_pusi (h_priv h) \<and>
     (ule_idle (h_priv h) \<or> ule_in_header (h_priv h) \<or> (\<exists>skb. ule_in_data (h_priv h) skb \<and> 0 < ule_sndu_remain (h_priv h)))"

lemma upd_simps [simp]:
  "h_priv (upd_priv f h) = f (h_priv h)" "h_dev (upd_priv f h) = h_dev h" "h_ts (upd_priv f h) = h_ts h"
  "h_from (upd_priv f h) = h_from h" "ts_remain (upd_priv f h) = ts_remain h" "new_ts (upd_priv f h) = new_ts h"
  "h_priv (upd_dev g h) = h_priv h" "h_dev (upd_dev g h) = g (h_dev h)" "h_ts (upd_dev g h) = h_ts h"
  "h_from (upd_dev g h) = h_from h" "ts_remain (upd_dev g h) = ts_remain h" "new_ts (upd_dev g h) = new_ts h"
  by (simp_all add: upd_priv_def upd_dev_def)

lemma next_cell_simps [simp]:
  "h_priv (next_cell h) = (h_priv h)\<lparr>ts_count := ts_count (h_priv h) + 1\<rparr>" "h_dev (next_cell h) = h_dev h"
  "h_ts (next_cell h) = h_ts h + 188" "new_ts (next_cell h) = new_ts h" "h_from (next_cell h) = h_from h"
  "ts_remain (next_cell h) = ts_remain h"
  by (simp_all add: next_cell_def)

lemma ule_ok_count [simp]: "ule_ok (p\<lparr>ts_count := c\<rparr>) = ule_ok p" "ule_ok (p\<lparr>tscc := t\<rparr>) = ule_ok p"
  by (simp_all add: ule_ok_def ule_idle_def ule_in_header_def ule_in_data_def)

lemma idle_reset [simp]: "ule_idle (reset_ule p)" "need_pusi (reset_ule p) = need_pusi p" "ule_skb (reset_ule p) = None"
  "ule_sndu_remain (reset_ule p) = 0"
  by (simp_all add: ule_idle_def reset_ule_def)

lemma ok_reset [simp]: "ule_ok ((reset_ule p)\<lparr>need_pusi := True\<rparr>)"
  by (simp add: ule_ok_def ule_idle_def reset_ule_def)

lemma drop_partial_simps [simp]:
  "h_priv (drop_partial h) = (reset_ule (h_priv h))\<lparr>need_pusi := True\<rparr>" "h_ts (drop_partial h) = h_ts h"
  "new_ts (drop_partial h) = new_ts h"
  by (simp_all add: drop_partial_def Let_def)

text \<open>The data part.\<close>

lemma ext_loop_pusi: "ule_extension_loop n p mem acc = Some (p', l) \<Longrightarrow> need_pusi p' = need_pusi p"
proof (induction n arbitrary: p acc)
  case (Suc n)
  obtain p1 l1 where one: "handle_one_ule_extension p mem = Some (p1, l1)" using Suc.prems by (auto split: Option.bind_splits)
  have "need_pusi p1 = need_pusi p"
    using one by (auto simp: handle_one_ule_extension_def ule_bridged_sndu_def Let_def split: if_splits Option.bind_splits)
  then show ?case using Suc.prems Suc.IH [of p1] one by (auto split: if_splits)
qed simp

lemma deliver_shape:
  assumes "dvb_net_ule_deliver n h skb = Some h'"
  shows "h_ts h' = h_ts h \<and> h_from h' = h_from h \<and> ts_remain h' = ts_remain h \<and> new_ts h' = new_ts h \<and>
    need_pusi (h_priv h') = need_pusi (h_priv h)"
proof -
  have "handle_ule_extensions n p mem = Some (p', l) \<Longrightarrow> need_pusi p' = need_pusi p" for p mem p' l
    by (auto simp: handle_ule_extensions_def dest!: ext_loop_pusi)
  then show ?thesis using assms unfolding dvb_net_ule_deliver_def Let_def
    by (auto split: if_splits Option.bind_splits prod.splits)
qed

lemma complete_shape:
  assumes "ule_complete n crc h skb = Some h'"
  shows "h_ts h' = h_ts h \<and> h_from h' = h_from h \<and> ts_remain h' = ts_remain h \<and> new_ts h' = new_ts h \<and>
    ule_idle (h_priv h') \<and> need_pusi (h_priv h') = need_pusi (h_priv h)"
  using assms
  by (auto simp: ule_complete_def Let_def dvb_net_ule_check_crc_def split: if_splits Option.bind_splits
    dest!: deliver_shape)

lemma ule_more_ok:
  assumes "h_from h + ts_remain h = length buf" "length buf = 188" "h_ts h = 0" "\<not> need_pusi (h_priv h)"
    "ule_idle (h_priv h) \<or> ts_remain h = 0 \<and> (\<exists>skb. ule_in_data (h_priv h) skb \<and> 0 < ule_sndu_remain (h_priv h))"
  shows "\<exists>h'. ule_more buf h = Some h' \<and>
    (h_ts h' = 188 \<and> ule_ok (h_priv h') \<or> h_ts h' = 0 \<and> \<not> new_ts h' \<and> at_packet buf h' \<and> ule_idle (h_priv h') \<and> ts_remain h' = ts_remain h \<and> 2 \<le> ts_remain h)"
proof (cases "ts_remain h \<ge> 2")
  case True
  then have "h_from h + 2 \<le> length buf" "ule_idle (h_priv h)" using assms by auto
  then show ?thesis using True assms
    by (auto simp: ule_more_def memread_def Let_def ule_ok_def at_packet_def ule_idle_def)
next
  case False
  then show ?thesis using assms by (auto simp: ule_more_def Let_def ule_ok_def ule_idle_def ule_in_data_def)
qed

lemma ule_data_ok:
  assumes "h_from h + ts_remain h = length buf" "length buf = 188" "h_ts h = 0" "\<not> need_pusi (h_priv h)"
    "ule_in_data (h_priv h) skb" "0 < ule_sndu_remain (h_priv h)"
  shows "\<exists>r. ule_data n crc buf h = Some r \<and> (\<forall>h'. r = Some h' \<longrightarrow>
    (h_ts h' = 188 \<and> ule_ok (h_priv h') \<or>
     h_ts h' = 0 \<and> \<not> new_ts h' \<and> at_packet buf h' \<and> ule_idle (h_priv h') \<and> ts_remain h' < ts_remain h \<and> 2 \<le> ts_remain h'))"
proof -
  define k where "k = nat (min (ule_sndu_remain (h_priv h)) (int (ts_remain h)))"
  define bs where "bs = take k (drop (h_from h) buf)"
  have k: "k \<le> ts_remain h" "int k \<le> ule_sndu_remain (h_priv h)" "int k = ule_sndu_remain (h_priv h) \<or> k = ts_remain h"
    using assms(6) by (auto simp: k_def)
  have bs: "memread buf (h_from h) k = Some bs" "length bs = k" using assms(1) k by (simp_all add: memread_def bs_def)
  have skb: "ule_skb (h_priv h) = Some skb" "skb_room skb = nat (ule_sndu_remain (h_priv h))" "length (skb_mem skb) = skb_len skb"
    using assms(5) by (simp_all add: ule_in_data_def)
  have "\<not> nat (ule_sndu_remain (h_priv h)) < k" using k(2) by linarith
  moreover define skb1 where "skb1 = skb\<lparr>skb_mem := take (skb_len skb) (skb_mem skb) @ bs, skb_len := skb_len skb + length bs,
    skb_room := skb_room skb - length bs\<rparr>"
  ultimately have put: "skb_put_data skb bs = Some skb1" using bs(2) skb(2) by (simp add: skb_put_data_def)
  define h1 where "h1 = upd_priv (\<lambda>p. p\<lparr>ule_skb := Some skb1, ule_sndu_remain := ule_sndu_remain p - int k\<rparr>)
    (h\<lparr>ts_remain := ts_remain h - k, h_from := h_from h + k\<rparr>)"
  have h1: "h_from h1 + ts_remain h1 = length buf" "h_ts h1 = 0" "\<not> need_pusi (h_priv h1)" "ts_remain h1 = ts_remain h - k"
    "ule_sndu_remain (h_priv h1) = ule_sndu_remain (h_priv h) - int k"
    using assms(1,3,4) k by (simp_all add: h1_def)
  have in1: "ule_in_data (h_priv h1) skb1"
    using assms(5) k bs(2) by (simp add: ule_in_data_def h1_def skb1_def nat_diff_distrib)
  have step: "ule_data n crc buf h = (case (if ule_sndu_remain (h_priv h1) \<le> 0 then ule_complete n crc h1 skb1 else Some h1) of
      None \<Rightarrow> Some None | Some h2 \<Rightarrow> map_option Some (ule_more buf h2))"
    using skb(1) bs(1) put unfolding ule_data_def Let_def h1_def k_def by simp
  show ?thesis
  proof (cases "ule_sndu_remain (h_priv h1) \<le> 0")
    case False
    then have z: "ts_remain h1 = 0" using h1(4,5) k by auto
    from ule_more_ok [OF h1(1) assms(2) h1(2,3)] z in1 False obtain h' where
      "ule_more buf h1 = Some h'" "h_ts h' = 188 \<and> ule_ok (h_priv h')" by fastforce
    then show ?thesis using step False by simp
  next
    case True
    show ?thesis
    proof (cases "ule_complete n crc h1 skb1")
      case None
      then show ?thesis using step True by simp
    next
      case (Some h2)
      note c = complete_shape [OF Some]
      have "0 < k" using True h1(5) assms(6) by linarith
      then have dec: "ts_remain h1 < ts_remain h" using h1(4) k by linarith
      from ule_more_ok [of h2 buf] c h1 assms(2) obtain h' where m: "ule_more buf h2 = Some h'"
        "h_ts h' = 188 \<and> ule_ok (h_priv h') \<or> h_ts h' = 0 \<and> \<not> new_ts h' \<and> at_packet buf h' \<and> ule_idle (h_priv h') \<and>
          ts_remain h' = ts_remain h2 \<and> 2 \<le> ts_remain h2" by auto
      then show ?thesis using step True Some c dec by auto
    qed
  qed
qed

text \<open>The start of a packet.\<close>

lemma be16_len: "unat (b0 :: byte) * 256 + unat (b1 :: byte) < 65536"
proof -
  have "unat b < 256" for b :: byte using unsigned_less [of b] by simp
  from this [of b0] this [of b1] show ?thesis by linarith
qed

lemma ule_length_ok:
  assumes "h_from h + ts_remain h = length buf" "length buf = 188" "h_ts h = 0" "\<not> need_pusi (h_priv h)"
    "ule_idle (h_priv h)" "2 \<le> ts_remain h"
  shows "case ule_length buf h of None \<Rightarrow> False | Some (h', v) \<Rightarrow>
    (if v then h_ts h' = 0 \<and> h_from h' + ts_remain h' = length buf \<and> \<not> need_pusi (h_priv h') \<and> ts_remain h' + 2 = ts_remain h \<and>
         ule_skb (h_priv h') = None \<and> 5 \<le> ule_sndu_len (h_priv h') \<and> ule_sndu_len (h_priv h') < 0x8000 \<and> \<not> ule_sndu_type_1 (h_priv h')
     else h_ts h' = 188 \<and> ule_ok (h_priv h'))"
proof -
  have m: "mem_at buf (h_from h) = Some (buf ! h_from h)" "mem_at buf (h_from h + 1) = Some (buf ! (h_from h + 1))"
    using assms(1,6) by (simp_all add: mem_at_def)
  define len where "len = unat (buf ! h_from h) * 256 + unat (buf ! (h_from h + 1))"
  have len: "len < 65536" unfolding len_def by (rule be16_len)
  have step: "ule_length buf h = (let h1 = upd_priv (\<lambda>p. if len \<ge> 0x8000 then p\<lparr>ule_sndu_len := len - 0x8000, ule_dbit := 1\<rparr>
           else p\<lparr>ule_sndu_len := len, ule_dbit := 0\<rparr>) h in
     Some (if ule_sndu_len (h_priv h1) < 5
       then (next_cell (upd_priv (\<lambda>p. p\<lparr>ule_sndu_len := 0, need_pusi := True\<rparr>)
         (upd_dev (\<lambda>d. d\<lparr>rx_errors := rx_errors d + 1, rx_length_errors := rx_length_errors d + 1\<rparr>)
           (h1\<lparr>new_ts := True\<rparr>))), False)
       else (h1\<lparr>ts_remain := ts_remain h1 - 2, h_from := h_from h1 + 2\<rparr>, True)))"
    unfolding ule_length_def m len_def by (simp add: Let_def)
  define l where "l = (if len \<ge> 0x8000 then len - 0x8000 else len)"
  define d :: byte where "d = (if len \<ge> 0x8000 then 1 else 0)"
  have l: "l < 0x8000" using len by (auto simp: l_def)
  have upd: "upd_priv (\<lambda>p. if len \<ge> 0x8000 then p\<lparr>ule_sndu_len := len - 0x8000, ule_dbit := 1\<rparr>
      else p\<lparr>ule_sndu_len := len, ule_dbit := 0\<rparr>) h = upd_priv (\<lambda>p. p\<lparr>ule_sndu_len := l, ule_dbit := d\<rparr>) h"
    by (simp add: l_def d_def)
  show ?thesis using assms l unfolding step upd Let_def by (cases "l < 5") (simp_all add: ule_ok_def ule_idle_def)
qed

lemma ule_header_ok:
  assumes "h_from h + ts_remain h = length buf" "length buf = 188" "h_ts h = 0" "\<not> need_pusi (h_priv h)"
    "ule_skb (h_priv h) = None" "5 \<le> ule_sndu_len (h_priv h)" "ule_sndu_len (h_priv h) < 0x8000"
    "ule_sndu_type_1 (h_priv h) \<longrightarrow> 2 \<le> ts_remain h" "ule_sndu_remain (h_priv h) = int (ule_sndu_len (h_priv h)) + 2"
  shows "case ule_header buf oom h of None \<Rightarrow> False | Some (h', nx) \<Rightarrow> ts_remain h' \<le> ts_remain h \<and> (case nx of
      Next_turn \<Rightarrow> h_ts h' = 188 \<and> ule_ok (h_priv h')
    | Return \<Rightarrow> h_ts h' = 0 \<and> \<not> need_pusi (h_priv h') \<and> ule_skb (h_priv h') = None \<and> 5 \<le> ule_sndu_len (h_priv h') \<and>
        ule_sndu_len (h_priv h') < 0x8000 \<and> \<not> ule_sndu_type_1 (h_priv h') \<and> ule_sndu_remain (h_priv h') = int (ule_sndu_len (h_priv h')) + 2
    | Go_on \<Rightarrow> h_ts h' = 0 \<and> h_from h' + ts_remain h' = length buf \<and> \<not> need_pusi (h_priv h') \<and>
        ule_in_data (h_priv h') (the (ule_skb (h_priv h'))) \<and> 0 < ule_sndu_remain (h_priv h'))"
proof -
  consider "ts_remain h = 0" | "ts_remain h = 1" | "2 \<le> ts_remain h" by linarith
  then show ?thesis
  proof cases
    case 1
    then show ?thesis using assms by (auto simp: ule_header_def ule_ok_def ule_in_header_def)
  next
    case 2
    then have "mem_at buf (h_from h) = Some (buf ! h_from h)" using assms(1) by (simp add: mem_at_def)
    then show ?thesis using 2 assms by (auto simp: ule_header_def ule_ok_def ule_in_header_def)
  next
    case 3
    then have m: "mem_at buf (h_from h) = Some (buf ! h_from h)" "mem_at buf (h_from h + 1) = Some (buf ! (h_from h + 1))"
      using assms(1) by (simp_all add: mem_at_def)
    show ?thesis using 3 assms m
      by (cases "ule_sndu_type_1 (h_priv h)")
        (auto simp: ule_header_def ule_type_def be16_def ule_alloc_def ule_in_data_def dev_alloc_skb_def skb_reserve_def)
  qed
qed

text \<open>Finding the payload of a cell.  A pointer of 184 would lead beyond the cell.\<close>

definition pointer_ok :: "byte list \<Rightarrow> bool" where
  "pointer_ok buf \<longleftrightarrow> (buf ! 1 AND TS_PUSI \<noteq> 0 \<longrightarrow> buf ! 4 \<noteq> 184)"

lemma states_tscc [simp]:
  "ule_idle (p\<lparr>tscc := t\<rparr>) = ule_idle p" "ule_in_header (p\<lparr>tscc := t\<rparr>) = ule_in_header p"
  "ule_in_data (p\<lparr>tscc := t\<rparr>) skb = ule_in_data p skb" "ule_idle (p\<lparr>need_pusi := b\<rparr>) = ule_idle p"
  "ule_in_header (p\<lparr>need_pusi := b\<rparr>) = ule_in_header p" "ule_in_data (p\<lparr>need_pusi := b\<rparr>) skb = ule_in_data p skb"
  by (simp_all add: ule_idle_def ule_in_header_def ule_in_data_def)

lemma at_packetI:
  assumes "h_from h' + ts_remain h' = length buf" "\<not> need_pusi (h_priv h')"
    "h_priv h' = p\<lparr>tscc := t\<rparr> \<or> h_priv h' = p\<lparr>tscc := t, need_pusi := False\<rparr>" "ule_ok p"
  shows "at_packet buf h'"
proof -
  have "ule_idle p \<or> ule_in_header p \<or> (\<exists>skb. ule_in_data p skb \<and> 0 < ule_sndu_remain p)"
    using assms(4) by (auto simp: ule_ok_def split: if_splits)
  moreover have "ule_sndu_remain (h_priv h') = ule_sndu_remain p" using assms(3) by auto
  moreover have "ule_idle (h_priv h') = ule_idle p" "ule_in_header (h_priv h') = ule_in_header p"
    "ule_in_data (h_priv h') skb = ule_in_data p skb" for skb using assms(3) by auto
  ultimately show ?thesis using assms(1,2) by (simp add: at_packet_def)
qed

lemma new_ts_cell_ok:
  assumes "length buf = 188" "h_ts h = 0" "ule_ok (h_priv h)"
  shows "case dvb_net_ule_new_ts_cell buf h of None \<Rightarrow> False | Some (h', c) \<Rightarrow> ule_ok (h_priv h') \<and> new_ts h' = new_ts h \<and>
    (if c then h_ts h' = 188 else h_ts h' = 0 \<and> h_priv h' = h_priv h \<and> h_from h' = 4 \<and> ts_remain h' = 184)"
  using assms by (auto simp: dvb_net_ule_new_ts_cell_def mem_at_def)

lemma ts_pusi_ok:
  assumes "length buf = 188" "h_ts h = 0" "ule_ok (h_priv h)" "need_pusi (h_priv h)" "pointer_ok buf" "ts_remain h = 184"
  shows "case dvb_net_ule_ts_pusi buf h of None \<Rightarrow> False | Some (h', c) \<Rightarrow> ule_ok (h_priv h') \<and> new_ts h' = new_ts h \<and>
    (if c then h_ts h' = 188 else h_ts h' = 0 \<and> need_pusi (h_priv h') \<and> h_from h' + ts_remain h' = 188 \<and>
       buf ! 1 AND TS_PUSI \<noteq> 0 \<and> tscc (h_priv h') = buf ! 3 AND 0x0f)"
proof -
  have m: "mem_at buf (h_ts h + 1) = Some (buf ! 1)" "mem_at buf (h_ts h + 3) = Some (buf ! 3)" "mem_at buf (h_ts h + 4) = Some (buf ! 4)"
    using assms(1,2) by (simp_all add: mem_at_def)
  show ?thesis
  proof (cases "buf ! 1 AND TS_PUSI \<noteq> 0")
    case False
    then show ?thesis using assms unfolding dvb_net_ule_ts_pusi_def m by auto
  next
    case True
    define q where "q = unat (buf ! 4)"
    have q: "uint (buf ! 4) = int q" by (simp add: q_def)
    show ?thesis
    proof (cases "q > 184")
      case big: True
      then show ?thesis using assms True unfolding dvb_net_ule_ts_pusi_def m by (simp add: Let_def q)
    next
      case False
      moreover have "q \<noteq> 184" using assms(5) True by (auto simp: pointer_ok_def q_def word_unat_eq_iff)
      ultimately have p: "q \<le> 183" by linarith
      then have "(184 - 1 - int q) mod 256 = 183 - int q" by simp
      then have r: "nat ((int 184 - 1 - int q) mod 256) = 183 - q" by simp
      have "dvb_net_ule_ts_pusi buf h = Some ((upd_priv (\<lambda>p. p\<lparr>tscc := buf ! 3 AND 0x0f\<rparr>) h)\<lparr>h_from := 5 + q, ts_remain := 183 - q, h_skipped := 0\<rparr>, False)"
        using True p assms(2,6) r unfolding dvb_net_ule_ts_pusi_def m by (simp add: Let_def q flip: q_def)
      then show ?thesis using assms(2,3,4) True p by simp
    qed
  qed
qed

text \<open>The branch for a packet that needs more than a cell can hold is never taken.\<close>

lemma new_ts_ok:
  assumes "length buf = 188" "h_ts h = 0" "ule_ok (h_priv h)" "h_from h + ts_remain h = 188" "new_ts h"
    "\<not> need_pusi (h_priv h) \<Longrightarrow> ts_remain h = 184"
    "need_pusi (h_priv h) \<Longrightarrow> buf ! 1 AND TS_PUSI \<noteq> 0 \<and> tscc (h_priv h) = buf ! 3 AND 0x0f"
  shows "case dvb_net_ule_new_ts buf h of None \<Rightarrow> False | Some (h', c) \<Rightarrow> h_ts h' = 0 \<and>
    (if c then new_ts h' \<and> ule_ok (h_priv h') \<and> need_pusi (h_priv h') \<and> \<not> need_pusi (h_priv h)
     else at_packet buf h' \<and> (ule_sndu_len (h_priv h') \<noteq> 0 \<longrightarrow> 183 \<le> ts_remain h'))"
proof -
  have m: "mem_at buf (h_ts h + 1) = Some (buf ! 1)" "mem_at buf (h_ts h + 3) = Some (buf ! 3)"
    using assms(1,2) by (simp_all add: mem_at_def)
  define p where "p = h_priv h"
  have at: "at_packet buf h'" if "\<not> need_pusi (h_priv h')" "h_priv h' = p\<lparr>tscc := tscc (h_priv h')\<rparr> \<or> h_priv h' = p\<lparr>tscc := tscc (h_priv h'), need_pusi := False\<rparr>"
    "h_from h' + ts_remain h' = 188" for h'
    by (rule at_packetI [OF _ that(1,2)]) (use that(3) assms(1,3) in \<open>simp_all add: p_def\<close>)
  show ?thesis
  proof (cases "buf ! 3 AND 0x0f = tscc (h_priv h)")
    case False
    then show ?thesis using assms unfolding dvb_net_ule_new_ts_def m by auto
  next
    case cc: True
    show ?thesis
    proof (cases "buf ! 1 AND TS_PUSI = 0")
      case True
      then have np: "\<not> need_pusi (h_priv h)" using assms(7) by blast
      have "dvb_net_ule_new_ts buf h = Some (upd_priv (\<lambda>p. p\<lparr>tscc := (tscc p + 1) AND 0x0f\<rparr>) h, False)"
        using cc True unfolding dvb_net_ule_new_ts_def m by simp
      moreover have "at_packet buf (upd_priv (\<lambda>p. p\<lparr>tscc := (tscc p + 1) AND 0x0f\<rparr>) h)"
        by (rule at) (use np assms(4) in \<open>simp_all add: p_def\<close>)
      ultimately show ?thesis using np assms(2,6) by simp
    next
      case pusi: False
      show ?thesis
      proof (cases "need_pusi (h_priv h)")
        case True
        then have "ule_idle (h_priv h)" using assms(3) by (simp add: ule_ok_def)
        then have "dvb_net_ule_new_ts buf h = Some (upd_priv (\<lambda>p. p\<lparr>need_pusi := False\<rparr>) (upd_priv (\<lambda>p. p\<lparr>tscc := (tscc p + 1) AND 0x0f\<rparr>) h), False)"
          using cc pusi True unfolding dvb_net_ule_new_ts_def m by (simp add: ule_idle_def)
        moreover have "at_packet buf (upd_priv (\<lambda>p. p\<lparr>need_pusi := False\<rparr>) (upd_priv (\<lambda>p. p\<lparr>tscc := (tscc p + 1) AND 0x0f\<rparr>) h))"
          by (rule at) (use assms(4) in \<open>simp_all add: p_def\<close>)
        ultimately show ?thesis using assms(2) \<open>ule_idle (h_priv h)\<close> by (simp add: ule_idle_def)
      next
        case np: False
        have fr: "h_from h = 4" "ts_remain h = 184" using assms(4,6) np by simp_all
        then have mp: "mem_at buf (h_from h) = Some (buf ! 4)" using assms(1) by (simp add: mem_at_def)
        show ?thesis
        proof (cases "uint (buf ! 4) < 183 \<and> uint (buf ! 4) = ule_sndu_remain (h_priv h)")
          case False
          then show ?thesis using cc pusi np mp fr assms(2,5) unfolding dvb_net_ule_new_ts_def m by (auto simp: Let_def)
        next
          case True
          then have "dvb_net_ule_new_ts buf h = Some ((upd_priv (\<lambda>p. p\<lparr>tscc := (tscc p + 1) AND 0x0f\<rparr>) h)\<lparr>h_from := 5, ts_remain := 183\<rparr>, False)"
            using cc pusi np mp fr unfolding dvb_net_ule_new_ts_def m by (auto simp: Let_def)
          moreover have "at_packet buf ((upd_priv (\<lambda>p. p\<lparr>tscc := (tscc p + 1) AND 0x0f\<rparr>) h)\<lparr>h_from := 5, ts_remain := 183\<rparr>)"
            by (rule at) (use np in \<open>simp_all add: p_def\<close>)
          ultimately show ?thesis using np assms(2) by simp
        qed
      qed
    qed
  qed
qed

lemma idle_cases: "at_packet buf h \<Longrightarrow> ule_skb (h_priv h) = None \<Longrightarrow> ule_idle (h_priv h) \<or> ule_in_header (h_priv h)"
  by (auto simp: at_packet_def ule_in_data_def)

lemma new_payload_ok:
  assumes "length buf = 188" "h_ts h = 0" "at_packet buf h" "ule_skb (h_priv h) = None"
    "ule_sndu_len (h_priv h) \<noteq> 0 \<longrightarrow> 2 \<le> ts_remain h"
  shows "case dvb_net_ule_new_payload buf oom h of None \<Rightarrow> False | Some (h', nx) \<Rightarrow> ts_remain h' \<le> ts_remain h \<and> (case nx of
      Next_turn \<Rightarrow> h_ts h' = 188 \<and> ule_ok (h_priv h')
    | Return \<Rightarrow> ule_ok (h_priv h')
    | Go_on \<Rightarrow> h_ts h' = 0 \<and> h_from h' + ts_remain h' = length buf \<and> \<not> need_pusi (h_priv h') \<and>
        ule_in_data (h_priv h') (the (ule_skb (h_priv h'))) \<and> 0 < ule_sndu_remain (h_priv h'))"
proof (cases "ts_remain h < 2")
  case True
  then have "ule_idle (h_priv h)" using idle_cases [OF assms(3,4)] assms(5) by (auto simp: ule_in_header_def)
  then show ?thesis using True assms(2) by (simp add: dvb_net_ule_new_payload_def ule_ok_def ule_idle_def)
next
  case False
  have at: "h_from h + ts_remain h = length buf" "\<not> need_pusi (h_priv h)" using assms(3) by (simp_all add: at_packet_def)
  let ?upd = "upd_priv (\<lambda>p. p\<lparr>ule_sndu_remain := int (ule_sndu_len p) + 2\<rparr>)"
  have go: ?thesis if "dvb_net_ule_new_payload buf oom h = ule_header buf oom (?upd h1)" "ts_remain h1 \<le> ts_remain h"
    "h_from h1 + ts_remain h1 = length buf" "h_ts h1 = 0" "\<not> need_pusi (h_priv h1)" "ule_skb (h_priv h1) = None"
    "5 \<le> ule_sndu_len (h_priv h1)" "ule_sndu_len (h_priv h1) < 0x8000" "ule_sndu_type_1 (h_priv h1) \<longrightarrow> 2 \<le> ts_remain h1" for h1
    using ule_header_ok [of "?upd h1" buf oom] that assms(1)
    by (auto split: option.splits prod.splits ule_next.splits simp: ule_ok_def ule_in_header_def)
  show ?thesis
  proof (cases "ule_sndu_len (h_priv h) = 0")
    case False
    then have "ule_in_header (h_priv h)" using idle_cases [OF assms(3,4)] by (auto simp: ule_idle_def)
    moreover have "dvb_net_ule_new_payload buf oom h = ule_header buf oom (?upd h)"
      using \<open>\<not> ts_remain h < 2\<close> False by (simp add: dvb_net_ule_new_payload_def)
    ultimately show ?thesis using go [of h] at assms(2) \<open>\<not> ts_remain h < 2\<close> by (simp add: ule_in_header_def)
  next
    case True
    then have idle: "ule_idle (h_priv h)" using idle_cases [OF assms(3,4)] by (auto simp: ule_in_header_def)
    from ule_length_ok [OF at(1) assms(1,2) at(2) idle] False obtain h1 v where l: "ule_length buf h = Some (h1, v)" and
      v: "if v then h_ts h1 = 0 \<and> h_from h1 + ts_remain h1 = length buf \<and> \<not> need_pusi (h_priv h1) \<and> ts_remain h1 + 2 = ts_remain h \<and>
         ule_skb (h_priv h1) = None \<and> 5 \<le> ule_sndu_len (h_priv h1) \<and> ule_sndu_len (h_priv h1) < 0x8000 \<and> \<not> ule_sndu_type_1 (h_priv h1)
       else h_ts h1 = 188 \<and> ule_ok (h_priv h1)" by (auto split: option.splits)
    show ?thesis
    proof (cases v)
      case True
      then have "dvb_net_ule_new_payload buf oom h = ule_header buf oom (?upd h1)"
        using \<open>\<not> ts_remain h < 2\<close> \<open>ule_sndu_len (h_priv h) = 0\<close> l by (simp add: dvb_net_ule_new_payload_def)
      then show ?thesis using go [of h1] v True by simp
    next
      case vf: False
      have "ts_remain h1 = ts_remain h" using l vf by (auto simp: ule_length_def Let_def split: Option.bind_splits if_splits)
      then show ?thesis using vf False \<open>ule_sndu_len (h_priv h) = 0\<close> l v by (simp add: dvb_net_ule_new_payload_def)
    qed
  qed
qed

definition mid_cell :: "byte list \<Rightarrow> ule_handle \<Rightarrow> bool" where
  "mid_cell buf h \<longleftrightarrow> h_ts h = 0 \<and> (if new_ts h then ule_ok (h_priv h)
     else at_packet buf h \<and> ule_idle (h_priv h) \<and> 2 \<le> ts_remain h)"

lemma ule_body_ok:
  assumes "length buf = 188" "h_ts h = 0" "at_packet buf h" "ule_sndu_len (h_priv h) \<noteq> 0 \<longrightarrow> 2 \<le> ts_remain h"
  shows "case ule_body n crc oom buf h of None \<Rightarrow> False | Some (Inl None) \<Rightarrow> True | Some (Inl (Some h')) \<Rightarrow> ule_ok (h_priv h')
    | Some (Inr h') \<Rightarrow> h_ts h' = 188 \<and> ule_ok (h_priv h') \<or> \<not> new_ts h' \<and> mid_cell buf h' \<and> ts_remain h' < ts_remain h"
proof -
  have data: "\<exists>r. ule_data n crc buf h1 = Some r \<and> (case r of None \<Rightarrow> True | Some h' \<Rightarrow>
      h_ts h' = 188 \<and> ule_ok (h_priv h') \<or> \<not> new_ts h' \<and> mid_cell buf h' \<and> ts_remain h' < ts_remain h)"
    if "h_from h1 + ts_remain h1 = length buf" "h_ts h1 = 0" "\<not> need_pusi (h_priv h1)" "ule_in_data (h_priv h1) skb"
      "0 < ule_sndu_remain (h_priv h1)" "ts_remain h1 \<le> ts_remain h" for h1 skb
  proof -
    from ule_data_ok [OF that(1) assms(1) that(2-5), of n crc] obtain r where r: "ule_data n crc buf h1 = Some r"
      "\<forall>h'. r = Some h' \<longrightarrow> (h_ts h' = 188 \<and> ule_ok (h_priv h') \<or>
        h_ts h' = 0 \<and> \<not> new_ts h' \<and> at_packet buf h' \<and> ule_idle (h_priv h') \<and> ts_remain h' < ts_remain h1 \<and> 2 \<le> ts_remain h')" by blast
    then show ?thesis using that(6) by (cases r) (auto simp: mid_cell_def)
  qed
  show ?thesis
  proof (cases "ule_skb (h_priv h)")
    case None
    from new_payload_ok [OF assms(1-3) None assms(4), of oom] obtain h1 nx where
      p: "dvb_net_ule_new_payload buf oom h = Some (h1, nx)" and q: "ts_remain h1 \<le> ts_remain h" "case nx of
      Next_turn \<Rightarrow> h_ts h1 = 188 \<and> ule_ok (h_priv h1) | Return \<Rightarrow> ule_ok (h_priv h1)
    | Go_on \<Rightarrow> h_ts h1 = 0 \<and> h_from h1 + ts_remain h1 = length buf \<and> \<not> need_pusi (h_priv h1) \<and>
        ule_in_data (h_priv h1) (the (ule_skb (h_priv h1))) \<and> 0 < ule_sndu_remain (h_priv h1)"
      by (auto split: option.splits)
    show ?thesis
    proof (cases nx)
      case Go_on
      from data [of h1 "the (ule_skb (h_priv h1))"] q Go_on obtain r where "ule_data n crc buf h1 = Some r"
        "case r of None \<Rightarrow> True | Some h' \<Rightarrow> h_ts h' = 188 \<and> ule_ok (h_priv h') \<or> \<not> new_ts h' \<and> mid_cell buf h' \<and> ts_remain h' < ts_remain h"
        by auto
      then show ?thesis using None p Go_on by (cases r) (simp_all add: ule_body_def)
    qed (use None p q in \<open>simp_all add: ule_body_def\<close>)
  next
    case (Some skb)
    then have "ule_in_data (h_priv h) skb \<and> 0 < ule_sndu_remain (h_priv h)"
      using assms(3) by (auto simp: at_packet_def ule_idle_def ule_in_header_def ule_in_data_def)
    then obtain r where "ule_data n crc buf h = Some r"
        "case r of None \<Rightarrow> True | Some h' \<Rightarrow> h_ts h' = 188 \<and> ule_ok (h_priv h') \<or> \<not> new_ts h' \<and> mid_cell buf h' \<and> ts_remain h' < ts_remain h"
      using data [of h skb] assms(2,3) by (auto simp: at_packet_def)
    then show ?thesis using Some by (cases r) (simp_all add: ule_body_def)
  qed
qed

lemma ule_sync_ok:
  assumes "length buf = 188" "pointer_ok buf" "mid_cell buf h"
  shows "case ule_sync buf h of None \<Rightarrow> False | Some (h', again) \<Rightarrow>
    (if again then h_ts h' = 188 \<and> ule_ok (h_priv h') \<or>
        mid_cell buf h' \<and> new_ts h \<and> \<not> need_pusi (h_priv h) \<and> new_ts h' \<and> need_pusi (h_priv h')
     else h_ts h' = 0 \<and> at_packet buf h' \<and> (ule_sndu_len (h_priv h') \<noteq> 0 \<longrightarrow> 2 \<le> ts_remain h') \<and>
        (\<not> new_ts h \<longrightarrow> ts_remain h' = ts_remain h) \<and> ts_remain h' \<le> 188)"
proof (cases "new_ts h")
  case False
  then have "\<not> need_pusi (h_priv h)" using assms(3) by (simp add: mid_cell_def at_packet_def)
  then have "ule_sync buf h = Some (h, False)" using False by (simp add: ule_sync_def)
  then show ?thesis using assms(1,3) False by (auto simp: mid_cell_def at_packet_def)
next
  case True
  then have ok: "ule_ok (h_priv h)" "h_ts h = 0" using assms(3) by (simp_all add: mid_cell_def)
  from new_ts_cell_ok [OF assms(1) ok(2,1)] obtain h1 c1 where h1: "dvb_net_ule_new_ts_cell buf h = Some (h1, c1)"
    "ule_ok (h_priv h1)" "new_ts h1" "if c1 then h_ts h1 = 188 else h_ts h1 = 0 \<and> h_priv h1 = h_priv h \<and> h_from h1 = 4 \<and> ts_remain h1 = 184"
    using True by (auto split: option.splits)
  show ?thesis
  proof (cases c1)
    case c: True
    then show ?thesis using h1 True by (simp add: ule_sync_def)
  next
    case c: False
    then have f1: "h_ts h1 = 0" "h_priv h1 = h_priv h" "h_from h1 = 4" "ts_remain h1 = 184" using h1(4) by simp_all
    have final: ?thesis if s: "ule_sync buf h = dvb_net_ule_new_ts buf h2" and h2: "h_ts h2 = 0" "ule_ok (h_priv h2)"
      "h_from h2 + ts_remain h2 = 188" "new_ts h2" "need_pusi (h_priv h2) = need_pusi (h_priv h)"
      "\<not> need_pusi (h_priv h2) \<Longrightarrow> ts_remain h2 = 184"
      "need_pusi (h_priv h2) \<Longrightarrow> buf ! 1 AND TS_PUSI \<noteq> 0 \<and> tscc (h_priv h2) = buf ! 3 AND 0x0f" for h2
    proof -
      from new_ts_ok [OF assms(1) h2(1-4,6,7)] obtain h' c2 where r: "dvb_net_ule_new_ts buf h2 = Some (h', c2)" "h_ts h' = 0"
        "if c2 then new_ts h' \<and> ule_ok (h_priv h') \<and> need_pusi (h_priv h') \<and> \<not> need_pusi (h_priv h2)
         else at_packet buf h' \<and> (ule_sndu_len (h_priv h') \<noteq> 0 \<longrightarrow> 183 \<le> ts_remain h')"
        by (auto split: option.splits)
      have "ts_remain h' \<le> 188" if "at_packet buf h'" using that assms(1) by (simp add: at_packet_def)
      then show ?thesis using s r True h2(5) by (auto simp: mid_cell_def split: if_splits)
    qed
    show ?thesis
    proof (cases "need_pusi (h_priv h)")
      case np: False
      have "ule_sync buf h = dvb_net_ule_new_ts buf h1" using True h1(1,3) c np f1(2) by (simp add: ule_sync_def)
      from final [OF this f1(1) h1(2) _ h1(3)] show ?thesis using f1 np by simp
    next
      case np: True
      from ts_pusi_ok [OF assms(1) f1(1) h1(2) _ assms(2) f1(4)] np f1(2) obtain h2 c2 where
        h2: "dvb_net_ule_ts_pusi buf h1 = Some (h2, c2)" "ule_ok (h_priv h2)" "new_ts h2 = new_ts h1"
          "if c2 then h_ts h2 = 188 else h_ts h2 = 0 \<and> need_pusi (h_priv h2) \<and> h_from h2 + ts_remain h2 = 188 \<and>
            buf ! 1 AND TS_PUSI \<noteq> 0 \<and> tscc (h_priv h2) = buf ! 3 AND 0x0f"
        by (auto split: option.splits)
      show ?thesis
      proof (cases c2)
        case c2: True
        then show ?thesis using True h1(1) c np f1(2) h2 by (simp add: ule_sync_def)
      next
        case c2: False
        have "ule_sync buf h = dvb_net_ule_new_ts buf h2" using True h1(1,3) c np f1(2) h2 c2 by (simp add: ule_sync_def)
        from final [OF this] show ?thesis using h2 c2 np h1(3) by simp
      qed
    qed
  qed
qed

definition turns_left :: "ule_handle \<Rightarrow> nat" where
  "turns_left h = (if h_ts h \<noteq> 0 then 0 else if new_ts h then if need_pusi (h_priv h) then 190 else 191 else ts_remain h)"

lemma ule_turn_ok:
  assumes "length buf = 188" "pointer_ok buf" "mid_cell buf h"
  shows "case ule_turn n crc oom buf h of None \<Rightarrow> False | Some (Inl None) \<Rightarrow> True | Some (Inl (Some h')) \<Rightarrow> ule_ok (h_priv h')
    | Some (Inr h') \<Rightarrow> (h_ts h' = 188 \<and> ule_ok (h_priv h') \<or> mid_cell buf h') \<and> turns_left h' < turns_left h"
proof -
  from ule_sync_ok [OF assms] obtain h1 again where s: "ule_sync buf h = Some (h1, again)" and
    h1: "if again then h_ts h1 = 188 \<and> ule_ok (h_priv h1) \<or>
        mid_cell buf h1 \<and> new_ts h \<and> \<not> need_pusi (h_priv h) \<and> new_ts h1 \<and> need_pusi (h_priv h1)
     else h_ts h1 = 0 \<and> at_packet buf h1 \<and> (ule_sndu_len (h_priv h1) \<noteq> 0 \<longrightarrow> 2 \<le> ts_remain h1) \<and>
        (\<not> new_ts h \<longrightarrow> ts_remain h1 = ts_remain h) \<and> ts_remain h1 \<le> 188"
    by (auto split: option.splits)
  have pos: "0 < turns_left h" "h_ts h = 0" "new_ts h \<Longrightarrow> 190 \<le> turns_left h" "\<not> new_ts h \<Longrightarrow> turns_left h = ts_remain h"
    using assms(3) by (auto simp: turns_left_def mid_cell_def)
  show ?thesis
  proof (cases again)
    case True
    then show ?thesis using s h1 pos by (auto simp: ule_turn_def turns_left_def mid_cell_def)
  next
    case False
    note b = ule_body_ok [OF assms(1), of h1 n crc oom]
    have le: "ts_remain h1 \<le> turns_left h" using h1 False pos(3,4) by (cases "new_ts h") auto
    have dec: "turns_left h' < turns_left h"
      if "h_ts h' = 188 \<and> ule_ok (h_priv h') \<or> \<not> new_ts h' \<and> mid_cell buf h' \<and> ts_remain h' < ts_remain h1" for h'
    proof -
      have "turns_left h' = 0 \<or> turns_left h' = ts_remain h' \<and> ts_remain h' < ts_remain h1"
        using that by (auto simp: turns_left_def [of h'] mid_cell_def)
      then show ?thesis using le pos(1) by linarith
    qed
    show ?thesis using b s False h1 dec
      by (auto simp: ule_turn_def split: option.splits sum.splits)
  qed
qed

lemma ule_loop_ok:
  assumes "length buf = 188" "pointer_ok buf"
  shows "h_ts h = 188 \<and> ule_ok (h_priv h) \<or> mid_cell buf h \<Longrightarrow> turns_left h < k \<Longrightarrow>
    case ule_loop k n crc oom buf h of None \<Rightarrow> False | Some None \<Rightarrow> True | Some (Some h') \<Rightarrow> ule_ok (h_priv h')"
proof (induction k arbitrary: h)
  case (Suc k)
  show ?case
  proof (cases "h_ts h = 188")
    case True
    then show ?thesis using Suc.prems(1) assms(1) by (auto simp: mid_cell_def)
  next
    case False
    then have mid: "mid_cell buf h" "h_ts h = 0" using Suc.prems(1) by (auto simp: mid_cell_def)
    from ule_turn_ok [OF assms mid(1), of n crc oom] obtain r where r: "ule_turn n crc oom buf h = Some r"
      "case r of Inl None \<Rightarrow> True | Inl (Some h') \<Rightarrow> ule_ok (h_priv h')
       | Inr h' \<Rightarrow> (h_ts h' = 188 \<and> ule_ok (h_priv h') \<or> mid_cell buf h') \<and> turns_left h' < turns_left h"
      by (auto split: option.splits)
    show ?thesis
    proof (cases r)
      case (Inl q)
      then show ?thesis using r mid(2) assms(1) by (cases q) simp_all
    next
      case (Inr h1)
      then have "case ule_loop k n crc oom buf h1 of None \<Rightarrow> False | Some None \<Rightarrow> True | Some (Some h') \<Rightarrow> ule_ok (h_priv h')"
        using Suc.IH [of h1] r(2) Suc.prems(2) by auto
      then show ?thesis using r(1) Inr mid(2) assms(1) by simp
    qed
  qed
qed simp

lemma dvb_net_ule_ok:
  assumes "length buf = 188" "pointer_ok buf" "ule_ok p" "191 < k"
  shows "case dvb_net_ule k n crc oom buf dev p of None \<Rightarrow> False | Some None \<Rightarrow> True | Some (Some (dev', p')) \<Rightarrow> ule_ok p'"
proof -
  have "mid_cell buf (ule_start dev p)" using assms(3) by (simp add: mid_cell_def ule_start_def)
  moreover have "turns_left (ule_start dev p) < k" using assms(4) by (simp add: turns_left_def ule_start_def)
  ultimately have "case ule_loop k n crc oom buf (ule_start dev p) of None \<Rightarrow> False | Some None \<Rightarrow> True | Some (Some h') \<Rightarrow> ule_ok (h_priv h')"
    using ule_loop_ok [OF assms(1,2)] by blast
  then show ?thesis by (auto simp: dvb_net_ule_def split: option.splits)
qed

subsection \<open>Properties\<close>

text \<open>A receiver after \<open>dvb_net_add_if\<close>, and its device.\<close>

definition demo_net :: net_device where
  "demo_net = \<lparr>dev_addr = [2, 0, 0, 0, 0, 1], rx_packets = 0, rx_bytes = 0, rx_errors = 0, rx_dropped = 0,
     rx_length_errors = 0, rx_crc_errors = 0, rx_frame_errors = 0, received = []\<rparr>"

definition demo_priv :: dvb_net_priv where
  "demo_priv = \<lparr>multi_num = 0, multi_macs = [], rx_mode = RX_MODE_UNI, need_pusi = True, tscc = 0, ule_skb = None,
     ule_next_hdr = 0, ule_sndu_len = 0, ule_sndu_type = 0, ule_sndu_type_1 = False, ule_dbit = 0xff, ule_bridged = False,
     ule_sndu_remain = 0, ts_count = 0\<rparr>"

lemma demo_priv_ok: "ule_ok demo_priv" "ule_idle demo_priv" "need_pusi demo_priv" "\<not> ule_bridged demo_priv"
  by (simp_all add: demo_priv_def ule_ok_def ule_idle_def)

definition demo_cell :: "byte \<Rightarrow> byte list" where
  "demo_cell ptr = [0x47, 0x41, 0, 0x10, ptr] @ replicate 183 0xff"

lemma demo_cell_bytes:
  "length (demo_cell ptr) = 188" "demo_cell ptr ! 0 = 0x47" "demo_cell ptr ! 1 = 0x41" "demo_cell ptr ! Suc 0 = 0x41" "demo_cell ptr ! 3 = 0x10"
  "demo_cell ptr ! 4 = ptr"
  by (simp_all add: demo_cell_def)

text \<open>
  C33. Whatever a cell of 188 bytes has, if it is not the start of a packet with the pointer 184:
  the decoder reads nothing outside the cell, writes no more into a socket buffer than there is
  room for, finds at the end of a packet the checksum of four bytes and ends its loop within 192
  turns, and the state for the next cell is consistent (the buffer has the bytes that were
  received, the room is what is missing); only the delivery of a packet can go wrong.
\<close>

lemma cell_decoder_safe:
  assumes "length buf = 188" "pointer_ok buf" "ule_ok p" "191 < k"
  shows "case dvb_net_ule k n crc oom buf dev p of None \<Rightarrow> False | Some None \<Rightarrow> True | Some (Some (dev', p')) \<Rightarrow> ule_ok p'"
  by (rule dvb_net_ule_ok [OF assms])

lemma cell_decoder_safe_witness:
  "case dvb_net_ule 192 0 (\<lambda>c bs. c) (\<lambda>_. False) (demo_cell 7) demo_net demo_priv of
     None \<Rightarrow> False | Some None \<Rightarrow> True | Some (Some (dev', p')) \<Rightarrow> ule_ok p'"
  by (rule cell_decoder_safe) (simp_all add: demo_cell_bytes pointer_ok_def demo_priv_ok)

text \<open>
  The pointer 184 passes the check of a receiver that waits for the start of a packet, though
  it leads behind the cell: the number of bytes that are left, a byte, becomes 255, and the length
  of a packet is read behind the cell.
\<close>

lemma pointer_behind_cell:
  assumes "length buf = 188" "buf ! 0 = 0x47" "buf ! 1 AND 0x80 = 0" "buf ! 1 AND 0x40 \<noteq> 0" "buf ! 3 AND 0xc0 = 0" "buf ! 4 = 184"
    and "ule_idle p" "need_pusi p"
  shows "ule_turn n crc oom buf (ule_start dev p) = None"
proof -
  have m: "mem_at buf 0 = Some (buf ! 0)" "mem_at buf (Suc 0) = Some (buf ! 1)" "mem_at buf 3 = Some (buf ! 3)"
    "mem_at buf 4 = Some (buf ! 4)"
    using assms(1) by (simp_all add: mem_at_def)
  define h1 where "h1 = (ule_start dev p)\<lparr>ts_remain := 184, h_from := 4\<rparr>"
  have c: "dvb_net_ule_new_ts_cell buf (ule_start dev p) = Some (h1, False)"
    using assms(2,3,5) by (simp add: dvb_net_ule_new_ts_cell_def ule_start_def h1_def m)
  define h2 where "h2 = (upd_priv (\<lambda>p. p\<lparr>tscc := buf ! 3 AND 0x0f\<rparr>) h1)\<lparr>h_from := 189, ts_remain := 255, h_skipped := 0\<rparr>"
  have s: "dvb_net_ule_ts_pusi buf h1 = Some (h2, False)"
    using assms(4,6) by (simp add: dvb_net_ule_ts_pusi_def h1_def h2_def ule_start_def m)
  have rem: "ule_sndu_remain p = 0" "ule_skb p = None" "ule_sndu_len p = 0" using assms(7) by (simp_all add: ule_idle_def)
  define h3 where "h3 = upd_priv (\<lambda>p. p\<lparr>tscc := ((buf ! 3 AND 0x0f) + 1) AND 0x0f, need_pusi := False\<rparr>) h2"
  have n: "dvb_net_ule_new_ts buf h2 = Some (h3, False)"
    using assms(4,8) by (simp add: dvb_net_ule_new_ts_def h3_def h2_def h1_def ule_start_def m Let_def upd_priv_def rem)
  have "ule_sync buf (ule_start dev p) = Some (h3, False)"
    using c s n assms(8) by (simp add: ule_sync_def) (simp add: h1_def h2_def ule_start_def)
  moreover have "mem_at buf 189 = None" using assms(1) by (simp add: mem_at_def)
  ultimately show ?thesis
    by (simp add: ule_turn_def ule_body_def h3_def h2_def h1_def ule_start_def rem dvb_net_ule_new_payload_def ule_length_def)
qed

lemma pointer_behind_cell_witness:
  "ule_turn 0 (\<lambda>c bs. c) (\<lambda>_. False) (demo_cell 184) (ule_start demo_net demo_priv) = None"
  by (rule pointer_behind_cell) (simp_all add: demo_cell_bytes demo_priv_ok)

end
