(* ===== verification/NetPackets.thy ===== *)
theory NetPackets imports NetCells begin

text \<open>
  ULE as a service: packets (\<open>ule_sndu\<close>), a sender that packs them into cells (\<open>ule_pack\<close>), and that
  the receiver gets them back.  \<open>partway\<close> is the state of a receiver that has the first bytes of a
  packet, \<open>give\<close> what a packet does to the device; then the extension headers.
\<close>

subsection \<open>Packets as they are sent\<close>

record ule_sndu =
  sn_mac :: "byte list option"
  sn_type :: u16
  sn_payload :: "byte list"

definition sndu_data :: "ule_sndu \<Rightarrow> byte list" where
  "sndu_data s = (case sn_mac s of None \<Rightarrow> [] | Some m \<Rightarrow> m) @ sn_payload s"

definition sndu_len :: "ule_sndu \<Rightarrow> nat" where
  "sndu_len s = length (sndu_data s) + 4"

definition u32_bytes :: "u32 \<Rightarrow> byte list" where
  "u32_bytes c = [ucast (drop_bit 24 c), ucast (drop_bit 16 c), ucast (drop_bit 8 c), ucast c]"

definition sndu_body :: "(u32 \<Rightarrow> byte list \<Rightarrow> u32) \<Rightarrow> ule_sndu \<Rightarrow> byte list" where
  "sndu_body crc s = sndu_data s @ u32_bytes (ule_crc crc (sn_mac s = None) (sndu_len s) (sn_type s) (sndu_data s))"

definition sndu_header :: "ule_sndu \<Rightarrow> byte list" where
  "sndu_header s = be16_bytes (of_nat (sndu_len s) OR (if sn_mac s = None then 0x8000 else 0)) @ be16_bytes (sn_type s)"

definition sndu_bytes :: "(u32 \<Rightarrow> byte list \<Rightarrow> u32) \<Rightarrow> ule_sndu \<Rightarrow> byte list" where
  "sndu_bytes crc s = sndu_header s @ sndu_body crc s"

text \<open>A packet without extension headers; a length of 0x7fff would look like padding.\<close>

definition sndu_valid :: "ule_sndu \<Rightarrow> bool" where
  "sndu_valid s \<longleftrightarrow> 5 \<le> sndu_len s \<and> sndu_len s < 0x7fff \<and> 0x0600 \<le> sn_type s \<and>
     (case sn_mac s of None \<Rightarrow> True | Some m \<Rightarrow> length m = ETH_ALEN)"

lemma body_length [simp]: "length (sndu_body crc s) = sndu_len s"
  by (simp add: sndu_body_def sndu_len_def u32_bytes_def)

lemma header_length [simp]: "length (sndu_header s) = 4"
  by (simp add: sndu_header_def be16_bytes_def)

lemma sndu_length [simp]: "length (sndu_bytes crc s) = sndu_len s + 4"
  by (simp add: sndu_bytes_def)

lemma word8_split: "push_bit 8 (ucast (ucast (drop_bit 8 x) :: byte)) OR ucast (ucast x :: byte) = (x :: u16)"
  by (rule bit_word_eqI) (auto simp: bit_simps)

lemma be16_bytes_back: "x = [a, b] \<Longrightarrow> be16_bytes w = x \<Longrightarrow> push_bit 8 (ucast a) OR ucast b = w"
  by (auto simp: be16_bytes_def word8_split)

lemma bit_out: "bit (x :: 'a::len word) n \<Longrightarrow> n < LENGTH('a)"
  by (rule bit_imp_le_length)

lemma u32_bytes_back [simp]: "crc_bytes (u32_bytes c) = c"
proof (rule bit_word_eqI)
  fix n assume "n < LENGTH(32)"
  then consider "n < 8" | "8 \<le> n" "n < 16" | "16 \<le> n" "n < 24" | "24 \<le> n" "n < 32" by fastforce
  then show "bit (crc_bytes (u32_bytes c)) n = bit c n"
    by cases (auto simp: crc_bytes_def u32_bytes_def bit_simps)
qed

text \<open>The length field.\<close>

lemma be16_bytes_nat:
  assumes "n < 65536"
  shows "be16_bytes (of_nat n) = [of_nat (n div 256), of_nat (n mod 256)]"
proof -
  have "ucast (drop_bit 8 (of_nat n :: u16)) = (of_nat (n div 256) :: byte)"
    using assms by (simp add: word_unat_eq_iff unat_drop_bit_eq drop_bit_eq_div [where 'a = nat] unat_of_nat unsigned_ucast_eq take_bit_eq_mod)
  moreover have "ucast (of_nat n :: u16) = (of_nat (n mod 256) :: byte)"
    using assms by (simp add: word_unat_eq_iff unat_of_nat unsigned_ucast_eq take_bit_eq_mod)
  ultimately show ?thesis by (simp add: be16_bytes_def)
qed

lemma or_dbit: "n < 0x8000 \<Longrightarrow> (of_nat n :: u16) OR 0x8000 = of_nat (n + 0x8000)"
proof -
  assume n: "n < 0x8000"
  have "(of_nat n :: u16) AND 0x8000 = 0"
  proof (rule bit_word_eqI)
    fix i assume i: "i < LENGTH(16)"
    have "bit (0x8000 :: u16) i \<longleftrightarrow> i = 15"
      using i bit_push_bit_iff [of 15 "1 :: u16" i] by (auto simp: bit_simps)
    moreover have "\<not> bit (of_nat n :: u16) 15"
    proof -
      have "unat (of_nat n :: u16) = n" using n by (simp add: unat_of_nat)
      then have "\<not> bit (unat (of_nat n :: u16)) 15" using n by (simp add: bit_iff_odd)
      then show ?thesis by (simp add: bit_unsigned_iff)
    qed
    ultimately show "bit ((of_nat n :: u16) AND 0x8000) i = bit (0 :: u16) i" by (auto simp: bit_simps)
  qed
  then have "(of_nat n :: u16) OR 0x8000 = of_nat n + 0x8000" using disjunctive_add_eq_or [of "of_nat n :: u16" "0x8000"] by simp
  then show ?thesis by simp
qed

subsection \<open>What is to be received\<close>

definition sndu_dest :: "ule_sndu \<Rightarrow> byte list" where
  "sndu_dest s = (case sn_mac s of None \<Rightarrow> replicate 6 0 | Some m \<Rightarrow> m)"

text \<open>The destinations that are accepted.\<close>

definition dest_accepted :: "dvb_net_priv \<Rightarrow> byte list \<Rightarrow> byte list \<Rightarrow> bool" where
  "dest_accepted p own m \<longleftrightarrow> rx_mode p = RX_MODE_PROMISC \<or> m = replicate 6 0xff \<or>
     (if bit (m ! 0) 0
      then rx_mode p = RX_MODE_ALL_MULTI \<or> rx_mode p = RX_MODE_MULTI \<and> m \<in> set (take (multi_num p) (multi_macs p))
      else m = own)"

definition sndu_frame :: "ule_sndu \<Rightarrow> frame" where
  "sndu_frame s = \<lparr>
     fr_type = (if bit (sndu_dest s ! 0) 0
       then if sndu_dest s = replicate 6 0xff then PACKET_BROADCAST else PACKET_MULTICAST else PACKET_HOST),
     fr_protocol = sn_type s, fr_header = sndu_dest s @ replicate 6 0 @ be16_bytes (sn_type s), fr_data = sn_payload s\<rparr>"

definition give :: "dvb_net_priv \<Rightarrow> ule_sndu \<Rightarrow> net_device \<Rightarrow> net_device" where
  "give p s dev =
     (if sn_mac s = None \<or> dest_accepted p (dev_addr dev) (sndu_dest s)
      then dev\<lparr>rx_packets := rx_packets dev + 1, rx_bytes := rx_bytes dev + length (sn_payload s),
        received := received dev @ [sndu_frame s]\<rparr>
      else dev)"

lemma should_drop_iff:
  "length m = 6 \<Longrightarrow> dvb_net_ule_should_drop p dev (m @ r) = Some (\<not> dest_accepted p (dev_addr dev) m)"
  by (auto simp: dvb_net_ule_should_drop_def dest_accepted_def memread_def numeral_eq_Suc)

lemma be16_at: "drop i mem = be16_bytes w @ r \<Longrightarrow> be16 mem i = Some w"
proof -
  assume a: "drop i mem = be16_bytes w @ r"
  then have "i + 1 < length mem" using length_drop [of i mem] by (simp add: be16_bytes_def)
  moreover have "mem ! i = drop i mem ! 0" "mem ! Suc i = drop i mem ! 1" using calculation by simp_all
  ultimately show ?thesis using a by (simp add: be16_def mem_simps be16_bytes_def word8_split)
qed

lemma netif_rx_frame:
  assumes "length d = 6" "0x0600 \<le> t" "skb_mem skb = d @ replicate 6 0 @ be16_bytes t @ pay @ crc"
    "skb_len skb = 14 + length pay"
  shows "netif_rx skb dev = Some (dev\<lparr>rx_packets := rx_packets dev + 1, rx_bytes := rx_bytes dev + length pay,
     received := received dev @ [\<lparr>fr_type = (if bit (d ! 0) 0
       then if d = replicate 6 0xff then PACKET_BROADCAST else PACKET_MULTICAST else PACKET_HOST),
       fr_protocol = t, fr_header = d @ replicate 6 0 @ be16_bytes t, fr_data = pay\<rparr>]\<rparr>)"
proof -
  have hdr: "memread (skb_mem skb) 0 14 = Some (d @ replicate 6 0 @ be16_bytes t)"
    "take 14 (skb_mem skb) = d @ replicate 6 0 @ be16_bytes t"
    using assms(1,3) by (simp_all add: memread_def be16_bytes_def)
  have pr: "be16 (d @ replicate 6 0 @ be16_bytes t) 12 = Some t" by (rule be16_at) (use assms(1) in simp)
  have pull: "skb_pull skb 14 = skb\<lparr>skb_mem := pay @ crc, skb_len := length pay\<rparr>"
    using assms(1,3,4) by (simp add: skb_pull_def be16_bytes_def)
  have "dvb_net_eth_type_trans skb = Some (skb\<lparr>skb_mem := pay @ crc, skb_len := length pay\<rparr>,
      if bit (d ! 0) 0 then if d = replicate 6 0xff then PACKET_BROADCAST else PACKET_MULTICAST else PACKET_HOST, t)"
    using assms(1,2) hdr(1) pr by (simp add: dvb_net_eth_type_trans_def pull Let_def nth_append)
  then show ?thesis by (simp add: netif_rx_def hdr)
qed

text \<open>A packet that is complete.\<close>

definition sndu_state :: "ule_sndu \<Rightarrow> dvb_net_priv \<Rightarrow> bool" where
  "sndu_state s p \<longleftrightarrow> \<not> ule_bridged p \<and> ule_sndu_len p = sndu_len s \<and> ule_dbit p = (if sn_mac s = None then 1 else 0)"

lemma dest_length: "sndu_valid s \<Longrightarrow> length (sndu_dest s) = 6"
  by (auto simp: sndu_valid_def sndu_dest_def split: option.splits)

lemma deliver_sndu:
  assumes v: "sndu_valid s" and st: "sndu_state s (h_priv h)" "ule_sndu_type (h_priv h) = sn_type s"
    and skb: "skb_mem skb = sndu_body crc s" "skb_len skb = sndu_len s"
  shows "case dvb_net_ule_deliver n h skb of None \<Rightarrow> False
    | Some h' \<Rightarrow> upd_priv reset_ule h' = upd_priv reset_ule (upd_dev (give (h_priv h) s) h)"
proof -
  define t where "t = u32_bytes (ule_crc crc (sn_mac s = None) (sndu_len s) (sn_type s) (sndu_data s))"
  have mem: "skb_mem (skb_trim_tail skb 4) = sndu_data s @ t" "skb_len (skb_trim_tail skb 4) = length (sndu_data s)"
    using skb by (simp_all add: skb_trim_tail_def sndu_body_def t_def sndu_len_def)
  have ty: "0x0600 \<le> sn_type s" "\<not> sn_type s < 0x0600" using v by (auto simp: sndu_valid_def not_less)
  have br: "\<not> ule_bridged (h_priv h)" and db: "ule_dbit (h_priv h) = (if sn_mac s = None then 1 else 0)"
    using st(1) by (simp_all add: sndu_state_def)
  have net: "netif_rx (skb_push skb3 (sndu_dest s @ replicate 6 0 @ be16_bytes (sn_type s))) (h_dev h) =
      Some (give (h_priv h) s (h_dev h))"
    if "skb_mem skb3 = sn_payload s @ t" "skb_len skb3 = length (sn_payload s)"
      "sn_mac s = None \<or> dest_accepted (h_priv h) (dev_addr (h_dev h)) (sndu_dest s)" for skb3
    using netif_rx_frame [OF dest_length [OF v] ty(1), of "skb_push skb3 (sndu_dest s @ replicate 6 0 @ be16_bytes (sn_type s))"
      "sn_payload s" t "h_dev h"] that dest_length [OF v]
    by (simp add: skb_push_def give_def sndu_frame_def be16_bytes_def)
  have fin: "upd_priv reset_ule (upd_dev (\<lambda>_. give (h_priv h) s (h_dev h)) (upd_priv (\<lambda>p. p\<lparr>ule_bridged := False\<rparr>) (upd_priv (\<lambda>_. h_priv h) h)))
      = upd_priv reset_ule (upd_dev (give (h_priv h) s) h)"
    by (simp add: upd_priv_def upd_dev_def reset_ule_def)
  have nt: "skb_pull skb1 0 = skb1" for skb1 by (cases skb1) (simp add: skb_pull_def)
  show ?thesis
  proof (cases "sn_mac s")
    case None
    then have dd: "sndu_data s = sn_payload s" "sndu_dest s = replicate 6 0" by (simp_all add: sndu_data_def sndu_dest_def)
    show ?thesis
      using net [of "skb_trim_tail skb 4"] mem None dd db br ty fin st(2)
      by (simp add: dvb_net_ule_deliver_def Let_def nt)
  next
    case (Some m)
    then have m: "length m = 6" "sndu_data s = m @ sn_payload s" "sndu_dest s = m"
      using v by (auto simp: sndu_valid_def sndu_data_def sndu_dest_def)
    have sd: "dvb_net_ule_should_drop (h_priv h) (h_dev h) (skb_mem (skb_trim_tail skb 4)) =
        Some (\<not> dest_accepted (h_priv h) (dev_addr (h_dev h)) m)"
      using should_drop_iff [OF m(1)] by (simp add: mem m(2))
    have rd: "memread (skb_mem (skb_trim_tail skb 4)) 0 6 = Some m" using m by (simp add: mem memread_def)
    show ?thesis
    proof (cases "dest_accepted (h_priv h) (dev_addr (h_dev h)) m")
      case False
      have "give (h_priv h) s (h_dev h) = h_dev h" using Some m(3) False by (simp add: give_def)
      then have "upd_dev (give (h_priv h) s) h = h" by (cases h) (simp add: upd_dev_def)
      then show ?thesis using sd False db Some by (simp add: dvb_net_ule_deliver_def Let_def)
    next
      case True
      define skb3 where "skb3 = skb_pull (skb_trim_tail skb 4) 6"
      have "skb_mem skb3 = sn_payload s @ t" "skb_len skb3 = length (sn_payload s)"
        using m mem by (simp_all add: skb3_def skb_pull_def)
      from net [OF this] True m(3) have nn: "netif_rx (skb_push skb3 (m @ replicate 6 0 @ be16_bytes (sn_type s))) (h_dev h) =
        Some (give (h_priv h) s (h_dev h))" by simp
      show ?thesis
        using nn sd True db Some rd br ty fin st(2)
        by (simp add: dvb_net_ule_deliver_def Let_def nt flip: skb3_def)
    qed
  qed
qed

lemma complete_sndu:
  assumes v: "sndu_valid s" and st: "sndu_state s (h_priv h)" "ule_sndu_type (h_priv h) = sn_type s"
    and skb: "skb_mem skb = sndu_body crc s" "skb_len skb = sndu_len s"
  shows "ule_complete n crc h skb = Some (upd_priv reset_ule (upd_dev (give (h_priv h) s) h))"
proof -
  from deliver_sndu [OF assms, of n] obtain h' where d: "dvb_net_ule_deliver n h skb = Some h'"
    "upd_priv reset_ule h' = upd_priv reset_ule (upd_dev (give (h_priv h) s) h)" by (auto split: option.splits)
  have len: "\<not> sndu_len s < 4" "sndu_len s - 4 = length (sndu_data s)" by (simp_all add: sndu_len_def)
  have parts: "take (sndu_len s - 4) (sndu_body crc s) = sndu_data s"
    "crc_bytes (drop (sndu_len s - 4) (sndu_body crc s)) = ule_crc crc (sn_mac s = None) (sndu_len s) (sn_type s) (sndu_data s)"
    by (simp_all add: len(2) sndu_body_def)
  have "(ule_dbit (h_priv h) \<noteq> 0) = (sn_mac s = None)" "ule_sndu_len (h_priv h) = sndu_len s"
    using st(1) by (simp_all add: sndu_state_def)
  then show ?thesis using skb st(2) d len(1) by (simp add: ule_complete_def Let_def parts dvb_net_ule_check_crc_def)
qed

subsection \<open>A packet that is partly received\<close>

definition fresh :: "dvb_net_priv \<Rightarrow> bool" where
  "fresh p \<longleftrightarrow> ule_idle p \<and> \<not> ule_bridged p"

text \<open>A sender cuts a packet after its length, in its type or later.\<close>

definition partway :: "(u32 \<Rightarrow> byte list \<Rightarrow> u32) \<Rightarrow> ule_sndu \<Rightarrow> nat \<Rightarrow> dvb_net_priv \<Rightarrow> bool" where
  "partway crc s j p \<longleftrightarrow>
     (if j = 0 then fresh p
      else sndu_state s p \<and>
       (if j = 2 then ule_skb p = None \<and> \<not> ule_sndu_type_1 p \<and> ule_sndu_remain p = int (sndu_len s) + 2
        else if j = 3 then ule_skb p = None \<and> ule_sndu_type_1 p \<and> ule_sndu_remain p = int (sndu_len s) + 1 \<and>
          ule_sndu_type p = push_bit 8 (ucast (ucast (drop_bit 8 (sn_type s)) :: byte))
        else 4 \<le> j \<and> j < sndu_len s + 4 \<and> \<not> ule_sndu_type_1 p \<and> ule_sndu_type p = sn_type s \<and>
          ule_sndu_remain p = int (sndu_len s + 4 - j) \<and>
          ule_skb p = Some \<lparr>skb_mem = take (j - 4) (sndu_body crc s), skb_len = j - 4, skb_room = sndu_len s + 4 - j\<rparr>))"

text \<open>What a cell does not change.\<close>

definition same_cfg :: "dvb_net_priv \<Rightarrow> dvb_net_priv \<Rightarrow> bool" where
  "same_cfg p q \<longleftrightarrow> rx_mode q = rx_mode p \<and> multi_num q = multi_num p \<and> multi_macs q = multi_macs p \<and> tscc q = tscc p"

lemma same_cfg_refl [simp]: "same_cfg p p" by (simp add: same_cfg_def)
lemma same_cfg_trans: "same_cfg p q \<Longrightarrow> same_cfg q r \<Longrightarrow> same_cfg p r" by (simp add: same_cfg_def)

lemma give_cfg: "same_cfg p q \<Longrightarrow> give q = give p"
proof (intro ext)
  fix s dev assume "same_cfg p q"
  then have "dest_accepted q = dest_accepted p" by (intro ext) (simp only: dest_accepted_def same_cfg_def)
  then show "give q s dev = give p s dev" by (simp only: give_def)
qed

text \<open>The handle stands at the bytes \<open>r\<close>, the rest of the cell.\<close>

definition at_rest :: "byte list \<Rightarrow> ule_handle \<Rightarrow> byte list \<Rightarrow> bool" where
  "at_rest buf h r \<longleftrightarrow> h_ts h = 0 \<and> \<not> need_pusi (h_priv h) \<and> drop (h_from h) buf = r \<and> ts_remain h = length r \<and>
     h_from h + length r = length buf"

lemma at_rest_mem: "at_rest buf h r \<Longrightarrow> i < length r \<Longrightarrow> mem_at buf (h_from h + i) = Some (r ! i)"
  by (auto simp: at_rest_def mem_at_def)

lemma at_rest_mem0: "at_rest buf h r \<Longrightarrow> r \<noteq> [] \<Longrightarrow> mem_at buf (h_from h) = Some (r ! 0)"
  using at_rest_mem [of buf h r 0] by simp

lemma at_rest_read: "at_rest buf h r \<Longrightarrow> m \<le> length r \<Longrightarrow> memread buf (h_from h) m = Some (take m r)"
  by (auto simp: at_rest_def memread_def)

lemma at_rest_be16: "at_rest buf h r \<Longrightarrow> r = be16_bytes w @ r' \<Longrightarrow> be16 buf (h_from h) = Some w"
  by (rule be16_at) (simp add: at_rest_def)

lemma at_rest_move:
  "at_rest buf h r \<Longrightarrow> m \<le> length r \<Longrightarrow> at_rest buf (upd_priv f (h\<lparr>ts_remain := ts_remain h - m, h_from := h_from h + m\<rparr>)) (drop m r)
    = (\<not> need_pusi (f (h_priv h)))"
  by (auto simp: at_rest_def upd_priv_def add.commute)

lemma at_rest_skip:
  "at_rest buf h (b @ r) \<Longrightarrow> length b = m \<Longrightarrow> \<not> need_pusi (f (h_priv h)) \<Longrightarrow>
    at_rest buf (upd_priv f (h\<lparr>ts_remain := length r, h_from := h_from h + m\<rparr>)) r"
proof -
  assume a: "at_rest buf h (b @ r)" "length b = m" "\<not> need_pusi (f (h_priv h))"
  have "drop (h_from h + m) buf = drop m (drop (h_from h) buf)" by (simp only: drop_drop add.commute)
  also have "\<dots> = r" using a by (simp add: at_rest_def)
  finally show ?thesis using a by (simp add: at_rest_def)
qed

text \<open>The data of a packet that goes on in the next cell.\<close>

lemma data_part:
  assumes r: "at_rest buf h r" and p: "partway crc s j (h_priv h)" "4 \<le> j"
    and m: "length r < sndu_len s + 4 - j" "r = take (length r) (drop (j - 4) (sndu_body crc s))"
  shows "case ule_data n crc buf h of Some (Some h') \<Rightarrow> h_ts h' = 188 \<and> partway crc s (j + length r) (h_priv h') \<and>
      \<not> need_pusi (h_priv h') \<and> same_cfg (h_priv h) (h_priv h') \<and> h_dev h' = h_dev h | _ \<Rightarrow> False"
proof -
  define l where "l = length r"
  have h: "ts_remain h = l" "h_ts h = 0" "\<not> need_pusi (h_priv h)" using r by (simp_all add: at_rest_def l_def)
  have l: "l < sndu_len s + 4 - j" "r = take l (drop (j - 4) (sndu_body crc s))" using m by (simp_all add: l_def)
  have j: "j \<noteq> 0" "j \<noteq> 2" "j \<noteq> 3" "j < sndu_len s + 4" using p l(1) by auto
  note st = p(1) [unfolded partway_def, simplified j if_False]
  have rem: "ule_sndu_remain (h_priv h) = int (sndu_len s + 4 - j)" "nat (min (int (sndu_len s + 4 - j)) (int l)) = l"
    using st l(1) by auto
  have rd: "memread buf (h_from h) l = Some r" using at_rest_read [OF r, of l] by (simp add: l_def)
  have lr: "length r = l" by (simp add: l_def)
  have jl: "j + l \<noteq> 2" "j + l \<noteq> 3" "j + l - 4 = j - 4 + l" using p(2) by auto
  have mem: "take (j - 4) (sndu_body crc s) @ r = take (j - 4 + l) (sndu_body crc s)"
    using l(2) by (simp add: take_add)
  show ?thesis
  proof -
    obtain skb where skb: "ule_skb (h_priv h) = Some skb"
      "skb = \<lparr>skb_mem = take (j - 4) (sndu_body crc s), skb_len = j - 4, skb_room = sndu_len s + 4 - j\<rparr>" using st by simp
    define skb1 where "skb1 = \<lparr>skb_mem = take (j + l - 4) (sndu_body crc s), skb_len = j + l - 4, skb_room = sndu_len s + 4 - (j + l)\<rparr>"
    have put: "skb_put_data skb r = Some skb1"
      using l(1) j(4) by (simp add: skb_put_data_def skb(2) skb1_def lr jl(3) mem)
    define h1 where "h1 = upd_priv (\<lambda>p. p\<lparr>ule_skb := Some skb1, ule_sndu_remain := ule_sndu_remain p - int l\<rparr>)
      (h\<lparr>ts_remain := 0, h_from := h_from h + l\<rparr>)"
    have h1: "h_ts h1 = 0" "ts_remain h1 = 0" "ule_skb (h_priv h1) = Some skb1" "\<not> ule_sndu_remain (h_priv h1) \<le> 0"
      "ule_sndu_remain (h_priv h1) = int (sndu_len s + 4 - (j + l))"
      using h rem l(1) by (simp_all add: h1_def)
    have rec: "h_priv h1 = (h_priv h)\<lparr>ule_skb := Some skb1, ule_sndu_remain := ule_sndu_remain (h_priv h) - int l\<rparr>"
      by (simp add: h1_def)
    have d: "ule_data n crc buf h = Some (Some (next_cell (h1\<lparr>new_ts := True\<rparr>)))"
      using skb(1) rem rd put h1
      by (simp add: ule_data_def h(1) Let_def h1_def [symmetric] ule_more_def)
    have "partway crc s (j + l) ((h_priv h1)\<lparr>ts_count := c\<rparr>)" for c
      using st h1(5) j(1) l(1) p(2)
      by (simp add: partway_def jl(1,2) rec skb1_def sndu_state_def)
    moreover have "\<not> need_pusi (h_priv h1)" "same_cfg (h_priv h) ((h_priv h1)\<lparr>ts_count := c\<rparr>)" "h_dev h1 = h_dev h" for c
      using h(3) by (simp_all add: rec same_cfg_def) (simp add: h1_def)
    ultimately show ?thesis using h1(1) by (simp add: d lr)
  qed
qed

lemma data_done:
  assumes v: "sndu_valid s" and r: "at_rest buf h (bs @ r)" and p: "partway crc s j (h_priv h)" "4 \<le> j"
    and bs: "bs = drop (j - 4) (sndu_body crc s)"
  shows "\<exists>h2. ule_data n crc buf h = map_option Some (ule_more buf h2) \<and> at_rest buf h2 r \<and> fresh (h_priv h2) \<and>
    same_cfg (h_priv h) (h_priv h2) \<and> h_dev h2 = give (h_priv h) s (h_dev h)"
proof -
  define l where "l = length bs"
  have j: "j \<noteq> 0" "j \<noteq> 2" "j \<noteq> 3" using p by auto
  note st = p(1) [unfolded partway_def, simplified j if_False]
  have jl: "j < sndu_len s + 4" "l = sndu_len s + 4 - j" using st p(2) by (auto simp: l_def bs)
  have h: "ts_remain h = l + length r" "h_ts h = 0" "\<not> need_pusi (h_priv h)" using r by (simp_all add: at_rest_def l_def)
  have rem: "ule_sndu_remain (h_priv h) = int l" "nat (min (int l) (int (l + length r))) = l"
    using st jl by auto
  have rd: "memread buf (h_from h) l = Some bs" using at_rest_read [OF r, of l] by (simp add: l_def)
  obtain skb where skb: "ule_skb (h_priv h) = Some skb"
    "skb = \<lparr>skb_mem = take (j - 4) (sndu_body crc s), skb_len = j - 4, skb_room = sndu_len s + 4 - j\<rparr>" using st by simp
  define skb1 where "skb1 = \<lparr>skb_mem = sndu_body crc s, skb_len = sndu_len s, skb_room = 0\<rparr>"
  have lb: "length bs = l" by (simp add: l_def)
  have put: "skb_put_data skb bs = Some skb1"
    unfolding skb_put_data_def using jl p(2) by (simp add: lb skb(2) skb1_def) (simp add: bs)
  define h1 where "h1 = upd_priv (\<lambda>p. p\<lparr>ule_skb := Some skb1, ule_sndu_remain := ule_sndu_remain p - int l\<rparr>)
    (h\<lparr>ts_remain := length r, h_from := h_from h + l\<rparr>)"
  have rec: "h_priv h1 = (h_priv h)\<lparr>ule_skb := Some skb1, ule_sndu_remain := ule_sndu_remain (h_priv h) - int l\<rparr>"
    "h_dev h1 = h_dev h"
    by (simp_all add: h1_def)
  have ar: "at_rest buf h1 r" using at_rest_move [OF r, of l] h by (simp add: h1_def l_def)
  have c: "ule_complete n crc h1 skb1 = Some (upd_priv reset_ule (upd_dev (give (h_priv h1) s) h1))"
    using complete_sndu [OF v] st by (simp add: rec skb1_def sndu_state_def)
  have g: "give (h_priv h1) = give (h_priv h)" by (rule give_cfg) (simp add: rec same_cfg_def)
  define h2 where "h2 = upd_priv reset_ule (upd_dev (give (h_priv h1) s) h1)"
  have "ule_sndu_remain (h_priv h1) \<le> 0" using rem by (simp add: rec)
  then have "ule_data n crc buf h = map_option Some (ule_more buf h2)"
    using skb(1) rem rd put c by (simp add: ule_data_def h(1) Let_def flip: h1_def h2_def)
  moreover have "at_rest buf h2 r" using ar by (simp add: h2_def at_rest_def)
  moreover have "h_dev h2 = give (h_priv h) s (h_dev h)" by (simp only: h2_def g upd_simps) (simp only: rec)
  moreover have "fresh (h_priv h2)" "same_cfg (h_priv h) (h_priv h2)"
    by (simp_all add: h2_def fresh_def same_cfg_def rec) (simp_all add: reset_ule_def)
  ultimately show ?thesis by blast
qed

lemma more_stop:
  assumes "at_rest buf h r" "fresh (h_priv h)" "length r < 2 \<or> take 2 r = [0xff, 0xff]"
  shows "case ule_more buf h of None \<Rightarrow> False | Some h' \<Rightarrow> h_ts h' = 188 \<and> need_pusi (h_priv h') \<and> fresh (h_priv h') \<and>
    same_cfg (h_priv h) (h_priv h') \<and> h_dev h' = h_dev h"
proof -
  have len: "ts_remain h = length r" "h_ts h = 0" using assms(1) by (simp_all add: at_rest_def)
  have "(if 2 \<le> length r then map_option (\<lambda>b. b \<noteq> [0xff, 0xff]) (memread buf (h_from h) 2) else Some False) = Some False"
    using assms(3) at_rest_read [OF assms(1), of 2] by auto
  then show ?thesis
    using assms(2) len by (simp add: ule_more_def Let_def fresh_def ule_idle_def same_cfg_def)
qed

lemma more_go:
  assumes "at_rest buf h r" "fresh (h_priv h)" "2 \<le> length r" "take 2 r \<noteq> [0xff, 0xff]"
  shows "case ule_more buf h of None \<Rightarrow> False | Some h' \<Rightarrow> at_rest buf h' r \<and> \<not> new_ts h' \<and> fresh (h_priv h') \<and>
    same_cfg (h_priv h) (h_priv h') \<and> h_dev h' = h_dev h"
proof -
  have len: "ts_remain h = length r" using assms(1) by (simp add: at_rest_def)
  show ?thesis using assms at_rest_read [OF assms(1), of 2]
    by (simp add: ule_more_def len fresh_def ule_idle_def same_cfg_def) (simp add: at_rest_def)
qed

lemma new_payload_rest:
  assumes "2 \<le> ts_remain h" "ule_sndu_len (h_priv h) \<noteq> 0"
  shows "dvb_net_ule_new_payload buf oom h = ule_header buf oom (upd_priv (\<lambda>p. p\<lparr>ule_sndu_remain := int (ule_sndu_len p) + 2\<rparr>) h)"
  using assms by (simp add: dvb_net_ule_new_payload_def)

lemma length_field:
  assumes v: "sndu_valid s" and r: "at_rest buf h (take 2 (sndu_header s) @ r)"
    and f: "fresh (h_priv h)"
  shows "ule_length buf h = Some (upd_priv (\<lambda>p. p\<lparr>ule_sndu_len := sndu_len s, ule_dbit := (if sn_mac s = None then 1 else 0)\<rparr>)
     (h\<lparr>ts_remain := length r, h_from := h_from h + 2\<rparr>), True)"
proof -
  define n where "n = sndu_len s + (if sn_mac s = None then 0x8000 else 0)"
  have len: "5 \<le> sndu_len s" "sndu_len s < 0x7fff" using v by (simp_all add: sndu_valid_def)
  have "be16_bytes (of_nat (sndu_len s) OR (if sn_mac s = None then 0x8000 else 0)) = be16_bytes (of_nat n)"
    using len or_dbit [of "sndu_len s"] by (simp add: n_def)
  also have "\<dots> = [of_nat (n div 256), of_nat (n mod 256)]" by (rule be16_bytes_nat) (use len in \<open>simp add: n_def\<close>)
  finally have hd: "take 2 (sndu_header s) = [of_nat (n div 256), of_nat (n mod 256)]" by (simp add: sndu_header_def)
  have b: "mem_at buf (h_from h) = Some (of_nat (n div 256))" "mem_at buf (Suc (h_from h)) = Some (of_nat (n mod 256))"
    using at_rest_mem [OF r, of 0] at_rest_mem [OF r, of 1] by (simp_all add: hd)
  have "n div 256 < 256" using len by (simp add: n_def) linarith
  then have un: "unat (of_nat (n div 256) :: byte) * 256 + unat (of_nat (n mod 256) :: byte) = n"
    by (simp add: unat_of_nat)
  have ts: "ts_remain h = 2 + length r" using r by (simp add: at_rest_def)
  show ?thesis
    using len by (cases "sn_mac s") (simp_all add: ule_length_def b un Let_def ts, simp_all add: n_def upd_priv_def)
qed

text \<open>The rest of the header in a cell that has it.\<close>

definition type_left :: "ule_sndu \<Rightarrow> nat \<Rightarrow> dvb_net_priv \<Rightarrow> bool" where
  "type_left s j p \<longleftrightarrow> sndu_state s p \<and> (j = 2 \<and> \<not> ule_sndu_type_1 p \<or>
     j = 3 \<and> ule_sndu_type_1 p \<and> ule_sndu_type p = push_bit 8 (ucast (ucast (drop_bit 8 (sn_type s)) :: byte)))"

lemma type_field:
  assumes v: "sndu_valid s" and r: "at_rest buf h (drop j (sndu_header s) @ r)" and p: "type_left s j (h_priv h)" and oom: "\<not> oom (h_from h + (4 - j))"
    and len: "2 \<le> 4 - j + length r"
  shows "case ule_header buf oom h of Some (h', Go_on) \<Rightarrow> at_rest buf h' r \<and> partway crc s 4 (h_priv h') \<and>
    same_cfg (h_priv h) (h_priv h') \<and> h_dev h' = h_dev h \<and> ule_skb (h_priv h') \<noteq> None | _ \<Rightarrow> False"
proof -
  have j: "j = 2 \<or> j = 3" using p by (auto simp: type_left_def)
  have ts: "ts_remain h = 4 - j + length r" using r by (simp add: at_rest_def)
  have hdr: "drop 2 (sndu_header s) = be16_bytes (sn_type s)" by (simp add: sndu_header_def be16_bytes_def)
  have ne: "ts_remain h \<noteq> 1" "ts_remain h \<noteq> 0" using ts j len by auto
  have sl: "5 \<le> sndu_len s" using v by (simp add: sndu_valid_def)
  define h1 where "h1 = upd_priv (\<lambda>p. p\<lparr>ule_sndu_type_1 := False, ule_sndu_type := sn_type s\<rparr>)
    (h\<lparr>ts_remain := length r, h_from := h_from h + (4 - j)\<rparr>)"
  have ty: "ule_type buf h = Some h1"
  proof (cases "j = 2")
    case True
    then have t1: "\<not> ule_sndu_type_1 (h_priv h)" using p by (simp add: type_left_def)
    then have rec: "(h_priv h)\<lparr>ule_sndu_type_1 := False, ule_sndu_type := t\<rparr> = (h_priv h)\<lparr>ule_sndu_type := t\<rparr>" for t
      by (cases "h_priv h") simp
    have "be16 buf (h_from h) = Some (sn_type s)" by (rule at_rest_be16 [OF r]) (simp add: True hdr)
    then show ?thesis using t1 True ts by (simp add: ule_type_def h1_def upd_priv_def rec)
  next
    case False
    then have j3: "j = 3" using j by simp
    then have p3: "ule_sndu_type_1 (h_priv h)" "ule_sndu_type (h_priv h) = push_bit 8 (ucast (ucast (drop_bit 8 (sn_type s)) :: byte))"
      using p by (simp_all add: type_left_def)
    have d3: "drop 3 (sndu_header s) = [ucast (sn_type s)]" by (simp add: sndu_header_def be16_bytes_def)
    have "mem_at buf (h_from h) = Some (ucast (sn_type s))" using at_rest_mem0 [OF r] by (simp add: j3 d3)
    then show ?thesis using p3 ts by (simp add: ule_type_def h1_def upd_priv_def j3 word8_split)
  qed
  have ss: "sndu_state s (h_priv h)" using p by (simp add: type_left_def)
  have ar: "at_rest buf h1 r" unfolding h1_def by (rule at_rest_skip [OF r]) (use j r in \<open>auto simp: at_rest_def\<close>)
  have head: "ule_header buf oom h = Some (ule_alloc oom h1)" using ne ty by (simp add: ule_header_def)
  have nom: "\<not> oom (h_from h1)" using oom by (simp add: h1_def)
  have rec: "h_priv h1 = (h_priv h)\<lparr>ule_sndu_type_1 := False, ule_sndu_type := sn_type s\<rparr>" "h_dev h1 = h_dev h"
    by (simp_all add: h1_def)
  have "ule_sndu_len (h_priv h1) = sndu_len s" using ss by (simp add: rec sndu_state_def)
  then show ?thesis using ar ss sl
    by (simp add: head ule_alloc_def nom partway_def dev_alloc_skb_def skb_reserve_def same_cfg_def)
      (simp add: at_rest_def rec sndu_state_def)
qed

abbreviation (input) "data_turn n crc buf h \<equiv> map_option (\<lambda>r. case r of None \<Rightarrow> Inl None | Some h2 \<Rightarrow> Inr h2) (ule_data n crc buf h)"

lemma after_length:
  assumes v: "sndu_valid s" and r: "at_rest buf h (take 2 (sndu_header s) @ r)" and f: "fresh (h_priv h)"
  shows "\<exists>h1. dvb_net_ule_new_payload buf oom h = ule_header buf oom h1 \<and> at_rest buf h1 r \<and> type_left s 2 (h_priv h1) \<and>
    partway crc s 2 (h_priv h1) \<and> same_cfg (h_priv h) (h_priv h1) \<and> h_dev h1 = h_dev h \<and> h_from h1 = h_from h + 2"
proof -
  have ts: "2 \<le> ts_remain h" "ule_sndu_len (h_priv h) = 0" using r f by (simp_all add: at_rest_def fresh_def ule_idle_def)
  define h0 where "h0 = upd_priv (\<lambda>p. p\<lparr>ule_sndu_len := sndu_len s, ule_dbit := (if sn_mac s = None then 1 else 0)\<rparr>)
    (h\<lparr>ts_remain := length r, h_from := h_from h + 2\<rparr>)"
  define h1 where "h1 = upd_priv (\<lambda>p. p\<lparr>ule_sndu_remain := int (ule_sndu_len p) + 2\<rparr>) h0"
  have np: "\<not> need_pusi (h_priv h)" using r by (simp add: at_rest_def)
  have "at_rest buf h0 r" unfolding h0_def by (rule at_rest_skip [OF r]) (use np in simp_all)
  then have "at_rest buf h1 r" by (simp add: h1_def at_rest_def)
  moreover have "dvb_net_ule_new_payload buf oom h = ule_header buf oom h1"
    using ts length_field [OF v r f] by (simp add: dvb_net_ule_new_payload_def h0_def h1_def)
  moreover have "type_left s 2 (h_priv h1)" "partway crc s 2 (h_priv h1)" "same_cfg (h_priv h) (h_priv h1)" "h_dev h1 = h_dev h" "h_from h1 = h_from h + 2"
    using f by (simp_all add: type_left_def partway_def h1_def h0_def same_cfg_def sndu_state_def fresh_def ule_idle_def)
  ultimately show ?thesis by blast
qed

lemma body_head:
  assumes v: "sndu_valid s" and r: "at_rest buf h (drop j (sndu_header s) @ r)" and j: "j = 0 \<or> j = 2 \<or> j = 3"
    and p: "partway crc s j (h_priv h)" and oom: "\<And>i. \<not> oom i" and len: "2 \<le> 4 - j + length r"
  shows "\<exists>h1. ule_body n crc oom buf h = data_turn n crc buf h1 \<and> at_rest buf h1 r \<and> partway crc s 4 (h_priv h1) \<and>
    same_cfg (h_priv h) (h_priv h1) \<and> h_dev h1 = h_dev h"
proof -
  have skb: "ule_skb (h_priv h) = None" using p j by (auto simp: partway_def fresh_def ule_idle_def)
  have go: ?thesis if np: "dvb_net_ule_new_payload buf oom h = ule_header buf oom h1" and
    h1: "at_rest buf h1 (drop i (sndu_header s) @ r)" "type_left s i (h_priv h1)" "2 \<le> 4 - i + length r"
      "same_cfg (h_priv h) (h_priv h1)" "h_dev h1 = h_dev h" for h1 i
  proof -
    from type_field [where oom = oom and crc = crc, OF v h1(1,2) oom h1(3)] obtain h2 where h2: "ule_header buf oom h1 = Some (h2, Go_on)"
      "at_rest buf h2 r \<and> partway crc s 4 (h_priv h2) \<and> same_cfg (h_priv h1) (h_priv h2) \<and> h_dev h2 = h_dev h1"
      by (auto split: option.split_asm prod.split_asm ule_next.split_asm)
    then show ?thesis using np h1(4,5) skb same_cfg_trans [OF h1(4)] by (auto simp: ule_body_def)
  qed
  show ?thesis
  proof (cases "j = 0")
    case True
    have "sndu_header s = take 2 (sndu_header s) @ drop 2 (sndu_header s)" by simp
    with True r have "at_rest buf h (take 2 (sndu_header s) @ drop 2 (sndu_header s) @ r)" by (metis append.assoc drop0)
    from after_length [OF v this, of oom] True p obtain h1 where
      "dvb_net_ule_new_payload buf oom h = ule_header buf oom h1" "at_rest buf h1 (drop 2 (sndu_header s) @ r)"
      "type_left s 2 (h_priv h1)" "same_cfg (h_priv h) (h_priv h1)" "h_dev h1 = h_dev h" by (auto simp: partway_def)
    then show ?thesis using go [of h1 2] by simp
  next
    case False
    then have j2: "j = 2 \<or> j = 3" using j by simp
    have st: "sndu_state s (h_priv h)" using p j2 by (auto simp: partway_def)
    have sl: "5 \<le> sndu_len s" using v by (simp add: sndu_valid_def)
    have lh: "length (drop j (sndu_header s)) = 4 - j" by simp
    have ts: "2 \<le> ts_remain h" "ule_sndu_len (h_priv h) \<noteq> 0" "ule_sndu_len (h_priv h) = sndu_len s"
      using r len st sl by (simp_all add: at_rest_def sndu_state_def)
    define h1 where "h1 = upd_priv (\<lambda>p. p\<lparr>ule_sndu_remain := int (ule_sndu_len p) + 2\<rparr>) h"
    have np: "dvb_net_ule_new_payload buf oom h = ule_header buf oom h1"
      using new_payload_rest [OF ts(1,2)] by (simp add: h1_def)
    have ar: "at_rest buf h1 (drop j (sndu_header s) @ r)" using r by (simp add: h1_def at_rest_def)
    have "type_left s j (h_priv h1)" using p j2 by (auto simp: type_left_def h1_def partway_def sndu_state_def)
    then show ?thesis by (rule go [OF np ar]) (use len in \<open>simp_all add: h1_def same_cfg_def\<close>)
  qed
qed

text \<open>A cell that ends in the header.\<close>

lemma body_cut:
  assumes v: "sndu_valid s" and r: "at_rest buf h (take j (sndu_header s))" and j: "j = 2 \<or> j = 3" and p: "fresh (h_priv h)"
  shows "\<exists>h1. ule_body n crc oom buf h = Some (Inr h1) \<and> h_ts h1 = 188 \<and> partway crc s j (h_priv h1) \<and>
    \<not> need_pusi (h_priv h1) \<and> same_cfg (h_priv h) (h_priv h1) \<and> h_dev h1 = h_dev h"
proof -
  define r' where "r' = (if j = 2 then [] else [ucast (drop_bit 8 (sn_type s))] :: byte list)"
  have tk: "take j (sndu_header s) = take 2 (sndu_header s) @ r'" using j by (auto simp: sndu_header_def be16_bytes_def r'_def)
  from after_length [OF v r [unfolded tk] p, of oom] obtain h1 where h1:
    "dvb_net_ule_new_payload buf oom h = ule_header buf oom h1" "at_rest buf h1 r'" "type_left s 2 (h_priv h1)"
    "same_cfg (h_priv h) (h_priv h1)" "h_dev h1 = h_dev h" "partway crc s 2 (h_priv h1)" by blast
  have skb: "ule_skb (h_priv h) = None" using p by (simp add: fresh_def ule_idle_def)
  have ts: "ts_remain h1 = length r'" "h_ts h1 = 0" "\<not> need_pusi (h_priv h1)" using h1(2) by (simp_all add: at_rest_def)
  show ?thesis
  proof (cases "j = 2")
    case True
    then have "ule_header buf oom h1 = Some (next_cell (h1\<lparr>new_ts := True\<rparr>), Next_turn)" using ts by (simp add: ule_header_def r'_def)
    moreover have "partway crc s 2 ((h_priv h1)\<lparr>ts_count := c\<rparr>)" for c using h1(6) by (simp add: partway_def sndu_state_def)
    ultimately show ?thesis using h1 skb ts True by (simp add: ule_body_def same_cfg_def)
  next
    case False
    then have j3: "j = 3" using j by simp
    then have b: "mem_at buf (h_from h1) = Some (ucast (drop_bit 8 (sn_type s)))" using at_rest_mem0 [OF h1(2)] by (simp add: r'_def)
    show ?thesis
      using h1 skb ts j3 b
      by (simp add: ule_body_def same_cfg_def ule_header_def r'_def partway_def sndu_state_def)
  qed
qed

subsection \<open>A sender\<close>

text \<open>
  The payload of a cell with \<open>k\<close> bytes (RFC 4326): the packet \<open>s\<close> from its byte \<open>j\<close> on, then the next
  ones; a packet starts if there is room for its length; padding.  The result also has the
  packet that is to be continued and those not yet started.
\<close>

fun fill :: "(u32 \<Rightarrow> byte list \<Rightarrow> u32) \<Rightarrow> nat \<Rightarrow> ule_sndu \<Rightarrow> nat \<Rightarrow> ule_sndu list \<Rightarrow>
    byte list \<times> (ule_sndu \<times> nat) option \<times> ule_sndu list" where
  "fill crc k s j q =
     (let bs = drop j (sndu_bytes crc s); k' = k - length bs
      in if k < length bs then (take k bs, Some (s, j + k), q)
         else case q of
             [] \<Rightarrow> (bs @ replicate k' 0xff, None, [])
           | s' # q' \<Rightarrow>
               if k' < 2 then (bs @ replicate k' 0xff, None, q)
               else let (out, cur, r) = fill crc k' s' 0 q' in (bs @ out, cur, r))"

declare fill.simps [simp del]

lemma fill_length: "fill crc k s j q = (out, cur, r) \<Longrightarrow> length out = k"
proof (induction q arbitrary: k s j out)
  case Nil
  then show ?case by (subst (asm) fill.simps) (auto simp: Let_def split: if_splits)
next
  case (Cons t q)
  show ?case using Cons.prems
    by (subst (asm) fill.simps) (auto simp: Let_def split: if_splits prod.splits dest!: Cons.IH)
qed

text \<open>The state of the receiver between cells.\<close>

definition recv_state :: "(u32 \<Rightarrow> byte list \<Rightarrow> u32) \<Rightarrow> (ule_sndu \<times> nat) option \<Rightarrow> dvb_net_priv \<Rightarrow> bool" where
  "recv_state crc cur p \<longleftrightarrow>
     (case cur of None \<Rightarrow> fresh p \<and> need_pusi p | Some (s, j) \<Rightarrow> j \<noteq> 0 \<and> partway crc s j p \<and> \<not> need_pusi p)"

definition todo :: "(ule_sndu \<times> nat) option \<Rightarrow> ule_sndu list \<Rightarrow> ule_sndu list" where
  "todo cur q = (case cur of None \<Rightarrow> [] | Some (s, j) \<Rightarrow> [s]) @ q"

lemma reach_data:
  assumes v: "sndu_valid s" and r: "at_rest buf h (drop j (sndu_header s) @ r)" and p: "partway crc s j (h_priv h)"
    and oom: "\<And>i. \<not> oom i" and len: "j < 4 \<longrightarrow> 2 \<le> 4 - j + length r"
  shows "\<exists>h1. ule_body n crc oom buf h = data_turn n crc buf h1 \<and> at_rest buf h1 r \<and> partway crc s (max j 4) (h_priv h1) \<and>
    same_cfg (h_priv h) (h_priv h1) \<and> h_dev h1 = h_dev h"
proof (cases "j < 4")
  case True
  then have "j = 0 \<or> j = 2 \<or> j = 3" using p by (auto simp: partway_def split: if_splits)
  from body_head [where oom = oom and crc = crc and n = n, OF v r this p oom] len True show ?thesis by (simp add: max_def)
next
  case False
  then have "ule_skb (h_priv h) \<noteq> None" "drop j (sndu_header s) = []" using p by (auto simp: partway_def split: if_splits)
  then show ?thesis using r p False by (auto simp: ule_body_def max_def)
qed

abbreviation (input) "rest_of_cell k n crc oom buf h \<equiv>
  Option.bind (ule_body n crc oom buf h) (\<lambda>r. case r of Inl h1 \<Rightarrow> Some h1 | Inr h1 \<Rightarrow> ule_loop k n crc oom buf h1)"

lemma loop_end: "length buf = 188 \<Longrightarrow> h_ts h = 188 \<Longrightarrow> 0 < f \<Longrightarrow> ule_loop f n crc oom buf h = Some (Some h)"
  by (cases f) simp_all

lemma loop_turn:
  "length buf = 188 \<Longrightarrow> at_rest buf h r \<Longrightarrow> \<not> new_ts h \<Longrightarrow> 
    ule_loop (Suc f) n crc oom buf h = rest_of_cell f n crc oom buf h"
  by (simp add: ule_turn_def ule_sync_def at_rest_def)

text \<open>The part of a cell that a packet goes beyond.\<close>

lemma cell_cut:
  assumes v: "sndu_valid s" and buf: "length buf = 188" and oom: "\<And>i. \<not> oom i" and f: "0 < f"
    and r: "at_rest buf h (take k (drop j (sndu_bytes crc s)))" and k: "k < sndu_len s + 4 - j" and j: "j < 4 \<longrightarrow> 2 \<le> k"
    and p: "partway crc s j (h_priv h)"
  shows "\<exists>h'. rest_of_cell f n crc oom buf h = Some (Some h') \<and> h_ts h' = 188 \<and> recv_state crc (Some (s, j + k)) (h_priv h') \<and>
    same_cfg (h_priv h) (h_priv h') \<and> h_dev h' = h_dev h"
proof (cases "k < 4 - j")
  case True
  then have j0: "j = 0" "k = 2 \<or> k = 3" using p j by (auto simp: partway_def split: if_splits)
  have "take k (drop j (sndu_bytes crc s)) = take k (sndu_header s)" using True j0(1) by (simp add: sndu_bytes_def)
  with r have ar: "at_rest buf h (take k (sndu_header s))" by simp
  have fr: "fresh (h_priv h)" using p j0(1) by (simp add: partway_def)
  from body_cut [OF v ar j0(2) fr, of n crc oom] show ?thesis
    using loop_end [OF buf _ f] j0 by (auto simp: recv_state_def)
next
  case False
  define b where "b = take (k - (4 - j)) (drop (j - 4) (sndu_body crc s))"
  have lb: "length b = k - (4 - j)" "length (drop j (sndu_bytes crc s)) = sndu_len s + 4 - j" using k False by (auto simp: b_def)
  have "take k (drop j (sndu_bytes crc s)) = drop j (sndu_header s) @ b" using False by (simp add: sndu_bytes_def b_def)
  with r have ar: "at_rest buf h (drop j (sndu_header s) @ b)" by simp
  have "j < 4 \<longrightarrow> 2 \<le> 4 - j + length b" using lb False j by auto
  from reach_data [where oom = oom and n = n, OF v ar p oom this] obtain h1 where
    h1: "ule_body n crc oom buf h = data_turn n crc buf h1" "at_rest buf h1 b" "partway crc s (max j 4) (h_priv h1)"
    "same_cfg (h_priv h) (h_priv h1)" "h_dev h1 = h_dev h" by blast
  have mj: "max j 4 - 4 = j - 4" "max j 4 + length b = j + k" "4 \<le> max j 4" using lb False by auto
  have "length b < sndu_len s + 4 - max j 4" using lb(1) k False by (auto simp: max_def)
  moreover have "b = take (length b) (drop (max j 4 - 4) (sndu_body crc s))" unfolding mj lb(1) by (simp add: b_def)
  ultimately have "case ule_data n crc buf h1 of Some (Some h') \<Rightarrow> h_ts h' = 188 \<and> partway crc s (j + k) (h_priv h') \<and>
      \<not> need_pusi (h_priv h') \<and> same_cfg (h_priv h1) (h_priv h') \<and> h_dev h' = h_dev h1 | _ \<Rightarrow> False"
    using data_part [OF h1(2,3) mj(3)] unfolding mj(2) by blast
  then obtain h' where h': "ule_data n crc buf h1 = Some (Some h')" "h_ts h' = 188" "partway crc s (j + k) (h_priv h')"
      "\<not> need_pusi (h_priv h')" "same_cfg (h_priv h1) (h_priv h')" "h_dev h' = h_dev h1"
    by (auto split: option.split_asm)
  then show ?thesis using h1(1,5) loop_end [OF buf h'(2) f] same_cfg_trans [OF h1(4) h'(5)] j False
    by (auto simp: recv_state_def)
qed

text \<open>A packet that ends in the cell, and what follows.\<close>

lemma packet_done:
  assumes v: "sndu_valid s" and oom: "\<And>i. \<not> oom i"
    and r: "at_rest buf h (drop j (sndu_bytes crc s) @ r)" and p: "partway crc s j (h_priv h)"
  shows "\<exists>h2. ule_body n crc oom buf h = map_option Inr (ule_more buf h2) \<and> at_rest buf h2 r \<and> fresh (h_priv h2) \<and>
    same_cfg (h_priv h) (h_priv h2) \<and> h_dev h2 = give (h_priv h) s (h_dev h)"
proof -
  define b where "b = drop (max j 4 - 4) (sndu_body crc s)"
  have sl: "5 \<le> sndu_len s" using v by (simp add: sndu_valid_def)
  have "drop j (sndu_bytes crc s) = drop j (sndu_header s) @ b" by (simp add: sndu_bytes_def b_def max_def)
  then have ar: "at_rest buf h (drop j (sndu_header s) @ b @ r)" using r by simp
  have "length b = sndu_len s - (max j 4 - 4)" by (simp add: b_def)
  then have "j < 4 \<longrightarrow> 2 \<le> 4 - j + length (b @ r)" using sl by (auto simp: max_def)
  from reach_data [where oom = oom and n = n, OF v ar p oom this] obtain h1 where
    h1: "ule_body n crc oom buf h = data_turn n crc buf h1" "at_rest buf h1 (b @ r)" "partway crc s (max j 4) (h_priv h1)"
    "same_cfg (h_priv h) (h_priv h1)" "h_dev h1 = h_dev h" by blast
  from data_done [where n = n, OF v h1(2,3) _ b_def] obtain h2 where h2:
    "ule_data n crc buf h1 = map_option Some (ule_more buf h2)" "at_rest buf h2 r" "fresh (h_priv h2)"
    "same_cfg (h_priv h1) (h_priv h2)" "h_dev h2 = give (h_priv h1) s (h_dev h1)" by auto
  have "ule_body n crc oom buf h = map_option Inr (ule_more buf h2)"
    unfolding h1(1) h2(1) by (cases "ule_more buf h2") simp_all
  then show ?thesis using h2 h1(5) same_cfg_trans [OF h1(4) h2(4)] give_cfg [OF h1(4)] by auto
qed

lemma fill_start: "2 \<le> k \<Longrightarrow> sndu_valid s \<Longrightarrow> fill crc k s 0 q = (out, cur, r) \<Longrightarrow> take 2 out = take 2 (sndu_header s)"
  by (subst (asm) fill.simps) (auto simp: Let_def sndu_bytes_def min_def split: if_splits list.splits prod.splits)

lemma length_not_padding: "sndu_valid s \<Longrightarrow> take 2 (sndu_header s) \<noteq> [0xff, 0xff]"
proof
  assume v: "sndu_valid s" and e: "take 2 (sndu_header s) = [0xff, 0xff]"
  define n where "n = sndu_len s + (if sn_mac s = None then 0x8000 else 0)"
  have len: "5 \<le> sndu_len s" "sndu_len s < 0x7fff" using v by (simp_all add: sndu_valid_def)
  have "be16_bytes (of_nat (sndu_len s) OR (if sn_mac s = None then 0x8000 else 0)) = be16_bytes (of_nat n)"
    using len or_dbit [of "sndu_len s"] by (simp add: n_def)
  also have "\<dots> = [of_nat (n div 256), of_nat (n mod 256)]" by (rule be16_bytes_nat) (use len in \<open>simp add: n_def\<close>)
  finally have "(of_nat (n div 256) :: byte) = 0xff" "(of_nat (n mod 256) :: byte) = 0xff" using e by (simp_all add: sndu_header_def)
  then have "unat (of_nat (n div 256) :: byte) = 255" "unat (of_nat (n mod 256) :: byte) = 255" by simp_all
  moreover have "n div 256 < 256" using len by (simp add: n_def) linarith
  ultimately have "n div 256 = 255" "n mod 256 = 255" by (simp_all add: unat_of_nat)
  then have "n = 65535" using div_mult_mod_eq [of n 256] by simp
  then show False using len by (simp add: n_def split: if_splits)
qed

lemma cell_received:
  assumes buf: "length buf = 188" and oom: "\<And>i. \<not> oom i"
  shows "sndu_valid s \<Longrightarrow> \<forall>t\<in>set q. sndu_valid t \<Longrightarrow> fill crc k s j q = (out, cur, q') \<Longrightarrow> at_rest buf h out \<Longrightarrow>
    partway crc s j (h_priv h) \<Longrightarrow> j < 4 \<longrightarrow> 2 \<le> k \<Longrightarrow> k < f \<Longrightarrow>
    \<exists>h'. rest_of_cell f n crc oom buf h = Some (Some h') \<and> h_ts h' = 188 \<and> recv_state crc cur (h_priv h') \<and>
      same_cfg (h_priv h) (h_priv h') \<and>
      fold (give (h_priv h)) (todo cur q') (h_dev h') = fold (give (h_priv h)) (s # q) (h_dev h)"
proof (induction q arbitrary: s j k h f out)
  case Nil
  define m where "m = sndu_len s + 4 - j"
  have m: "length (drop j (sndu_bytes crc s)) = m" by (simp add: m_def)
  show ?case
  proof (cases "k < m")
    case True
    then have fl: "out = take k (drop j (sndu_bytes crc s))" "cur = Some (s, j + k)" "q' = []"
      using Nil.prems(3) by (subst (asm) fill.simps, simp add: m_def)+
    from cell_cut [where n = n, OF Nil.prems(1) buf oom _ Nil.prems(4)[unfolded fl(1)] True[unfolded m_def] Nil.prems(6,5)] Nil.prems(7)
    obtain h' where "rest_of_cell f n crc oom buf h = Some (Some h') \<and> h_ts h' = 188 \<and> recv_state crc cur (h_priv h') \<and>
      same_cfg (h_priv h) (h_priv h') \<and> h_dev h' = h_dev h" unfolding fl(2) by force
    then show ?thesis by (auto simp: fl todo_def)
  next
    case False
    define pad :: "byte list" where "pad = replicate (k - m) 0xff"
    have fl: "out = drop j (sndu_bytes crc s) @ pad" "cur = None" "q' = []"
      using Nil.prems(3) False by (subst (asm) fill.simps, simp add: m_def pad_def)+
    from packet_done [where oom = oom and n = n, OF Nil.prems(1) oom Nil.prems(4)[unfolded fl(1)] Nil.prems(5)] obtain h2 where h2:
      "ule_body n crc oom buf h = map_option Inr (ule_more buf h2)" "at_rest buf h2 pad" "fresh (h_priv h2)"
      "same_cfg (h_priv h) (h_priv h2)" "h_dev h2 = give (h_priv h) s (h_dev h)" by blast
    have "length pad < 2 \<or> take 2 pad = [0xff, 0xff]"
      by (auto simp: pad_def min_def numeral_eq_Suc)
    from more_stop [OF h2(2,3) this] obtain h' where h': "ule_more buf h2 = Some h'" "h_ts h' = 188" "need_pusi (h_priv h')"
      "fresh (h_priv h')" "same_cfg (h_priv h2) (h_priv h')" "h_dev h' = h_dev h2" by (auto split: option.split_asm)
    show ?thesis using h2(1,5) h' same_cfg_trans [OF h2(4) h'(5)] loop_end [OF buf h'(2)] Nil.prems(7)
      by (simp add: fl todo_def recv_state_def)
  qed
next
  case (Cons t q)
  define m where "m = sndu_len s + 4 - j"
  have m: "length (drop j (sndu_bytes crc s)) = m" by (simp add: m_def)
  have vt: "sndu_valid t" "\<forall>t\<in>set q. sndu_valid t" using Cons.prems(2) by simp_all
  show ?case
  proof (cases "k < m")
    case True
    then have fl: "out = take k (drop j (sndu_bytes crc s))" "cur = Some (s, j + k)" "q' = t # q"
      using Cons.prems(3) by (subst (asm) fill.simps, simp add: m_def)+
    from cell_cut [where n = n, OF Cons.prems(1) buf oom _ Cons.prems(4)[unfolded fl(1)] True[unfolded m_def] Cons.prems(6,5)] Cons.prems(7)
    obtain h' where "rest_of_cell f n crc oom buf h = Some (Some h') \<and> h_ts h' = 188 \<and> recv_state crc cur (h_priv h') \<and>
      same_cfg (h_priv h) (h_priv h') \<and> h_dev h' = h_dev h" unfolding fl(2) by force
    then show ?thesis by (auto simp: fl todo_def)
  next
    case False
    have "\<exists>pad. out = drop j (sndu_bytes crc s) @ pad \<and> length pad = k - m \<and>
      (if k - m < 2 then cur = None \<and> q' = t # q else fill crc (k - m) t 0 q = (pad, cur, q'))"
      using Cons.prems(3) False
      by (subst (asm) fill.simps) (auto simp: Let_def m_def split: if_splits prod.split_asm dest: fill_length)
    then obtain pad where fl: "out = drop j (sndu_bytes crc s) @ pad" "length pad = k - m"
      "if k - m < 2 then cur = None \<and> q' = t # q else fill crc (k - m) t 0 q = (pad, cur, q')" by blast
    from packet_done [where oom = oom and n = n, OF Cons.prems(1) oom Cons.prems(4)[unfolded fl(1)] Cons.prems(5)] obtain h2 where h2:
      "ule_body n crc oom buf h = map_option Inr (ule_more buf h2)" "at_rest buf h2 pad" "fresh (h_priv h2)"
      "same_cfg (h_priv h) (h_priv h2)" "h_dev h2 = give (h_priv h) s (h_dev h)" by blast
    show ?thesis
    proof (cases "k - m < 2")
      case True
      with fl have "length pad < 2 \<or> take 2 pad = [0xff, 0xff]" by simp
      from more_stop [OF h2(2,3) this] obtain h' where h': "ule_more buf h2 = Some h'" "h_ts h' = 188" "need_pusi (h_priv h')"
        "fresh (h_priv h')" "same_cfg (h_priv h2) (h_priv h')" "h_dev h' = h_dev h2" by (auto split: option.split_asm)
      show ?thesis using h2(1,5) h' same_cfg_trans [OF h2(4) h'(5)] loop_end [OF buf h'(2)] Cons.prems(7) fl(3) True
        by (simp add: todo_def recv_state_def)
    next
      case big: False
      have ft: "fill crc (k - m) t 0 q = (pad, cur, q')" using fl(3) big by simp
      have "take 2 pad \<noteq> [0xff, 0xff]" using fill_start [OF _ vt(1) ft] big length_not_padding [OF vt(1)] by simp
      from more_go [OF h2(2,3) _ this] big fl(2) obtain h3 where h3: "ule_more buf h2 = Some h3" "at_rest buf h3 pad" "\<not> new_ts h3"
        "fresh (h_priv h3)" "same_cfg (h_priv h2) (h_priv h3)" "h_dev h3 = h_dev h2" by (auto split: option.split_asm)
      have cfg: "same_cfg (h_priv h) (h_priv h3)" by (rule same_cfg_trans [OF h2(4) h3(5)])
      have "0 < m" using Cons.prems(5) by (auto simp: m_def partway_def split: if_splits)
      then have "k - m < f - 1" using Cons.prems(7) False by linarith
      moreover have p3: "partway crc t 0 (h_priv h3)" "0 < (4::nat) \<longrightarrow> 2 \<le> k - m" using h3(4) big by (simp_all add: partway_def)
      note ih = Cons.IH [OF vt ft h3(2) p3]
      ultimately obtain h' where
        h': "rest_of_cell (f - 1) n crc oom buf h3 = Some (Some h')" "h_ts h' = 188" "recv_state crc cur (h_priv h')"
        "same_cfg (h_priv h3) (h_priv h')"
        "fold (give (h_priv h3)) (todo cur q') (h_dev h') = fold (give (h_priv h3)) (t # q) (h_dev h3)"
        by (elim ih [THEN exE] conjE) (rule that)
      have "rest_of_cell f n crc oom buf h = ule_loop f n crc oom buf h3" using h2(1) h3(1) by simp
      also have "\<dots> = rest_of_cell (f - 1) n crc oom buf h3"
        using loop_turn [OF buf h3(2,3), of "f - 1"] Cons.prems(7) by simp
      finally show ?thesis using h' same_cfg_trans [OF cfg h'(4)] give_cfg [OF cfg] h2(5) h3(6) by simp
    qed
  qed
qed

definition cell_header :: "u16 \<Rightarrow> byte \<Rightarrow> bool \<Rightarrow> byte list" where
  "cell_header pid cc pusi =
     [0x47, (if pusi then 0x40 else 0) OR (ucast (drop_bit 8 pid) AND 0x1f), ucast pid, 0x10 OR cc]"

definition next_cc :: "byte \<Rightarrow> byte" where
  "next_cc cc = (cc + 1) AND 0x0f"

text \<open>The next cell: it points to the first packet that starts in it.\<close>

definition ule_cell :: "(u32 \<Rightarrow> byte list \<Rightarrow> u32) \<Rightarrow> u16 \<Rightarrow> byte \<Rightarrow> ule_sndu \<Rightarrow> nat \<Rightarrow> ule_sndu list \<Rightarrow>
    byte list \<times> (ule_sndu \<times> nat) option \<times> ule_sndu list" where
  "ule_cell crc pid cc s j q =
     (let left = (if j = 0 then 0 else sndu_len s + 4 - j)
      in if j = 0 \<or> left + 2 \<le> 183 \<and> q \<noteq> []
         then let (out, cur, r) = fill crc 183 s j q in (cell_header pid cc True @ of_nat left # out, cur, r)
         else let (out, cur, r) = fill crc 184 s j [] in (cell_header pid cc False @ out, cur, q))"

definition weight :: "(ule_sndu \<times> nat) option \<Rightarrow> ule_sndu list \<Rightarrow> nat" where
  "weight cur q = (case cur of None \<Rightarrow> 0 | Some (s, j) \<Rightarrow> 1 + (sndu_len s + 4 - j)) + (\<Sum>s\<leftarrow>q. sndu_len s + 6)"

lemma fill_weight: "fill crc k s j q = (out, cur, r) \<Longrightarrow> 0 < k \<Longrightarrow> weight cur r < weight (Some (s, j)) q"
proof (induction q arbitrary: k s j out)
  case Nil
  then show ?case by (subst (asm) fill.simps) (auto simp: Let_def weight_def split: if_splits)
next
  case (Cons t q)
  have "weight cur r < weight (Some (t, 0)) q" if "fill crc k' t 0 q = (out', cur, r)" "2 \<le> k'" for k' out'
    using Cons.IH [OF that(1)] that(2) by simp
  then show ?case using Cons.prems
    by (subst (asm) fill.simps) (fastforce simp: Let_def weight_def split: if_splits prod.split_asm)
qed

lemma fill_nil: "fill crc k s j [] = (out, cur, r) \<Longrightarrow> r = []"
  by (subst (asm) fill.simps) (auto simp: Let_def split: if_splits)

lemma cell_weight: "ule_cell crc pid cc s j q = (c, cur, r) \<Longrightarrow> weight cur r < weight (Some (s, j)) q"
proof -
  assume a: "ule_cell crc pid cc s j q = (c, cur, r)"
  have "weight cur q < weight (Some (s, j)) q" if "fill crc 184 s j [] = (out, cur, r')" for out r'
    using fill_weight [OF that] fill_nil [OF that] by (simp add: weight_def)
  then show ?thesis using a by (auto simp: ule_cell_def Let_def split: if_splits prod.split_asm dest: fill_weight)
qed

lemma start_weight: "weight (Some (s, 0)) q < weight None (s # q)"
  by (simp add: weight_def)

text \<open>All cells.\<close>

function ule_pack :: "(u32 \<Rightarrow> byte list \<Rightarrow> u32) \<Rightarrow> u16 \<Rightarrow> byte \<Rightarrow> (ule_sndu \<times> nat) option \<Rightarrow> ule_sndu list \<Rightarrow> byte list list" where
  "ule_pack crc pid cc None [] = []"
| "ule_pack crc pid cc None (s # q) =
     (let (c, cur, r) = ule_cell crc pid cc s 0 q in c # ule_pack crc pid (next_cc cc) cur r)"
| "ule_pack crc pid cc (Some (s, j)) q =
     (let (c, cur, r) = ule_cell crc pid cc s j q in c # ule_pack crc pid (next_cc cc) cur r)"
  by pat_completeness auto

termination
  by (relation "measure (\<lambda>(crc, pid, cc, cur, q). weight cur q)")
    (auto dest!: cell_weight [OF sym] intro: less_trans [OF _ start_weight])

text \<open>The receiver of a list of cells.\<close>

fun receive_cells ::
    "nat \<Rightarrow> nat \<Rightarrow> (u32 \<Rightarrow> byte list \<Rightarrow> u32) \<Rightarrow> byte list list \<Rightarrow> net_device \<Rightarrow> dvb_net_priv \<Rightarrow>
     (net_device \<times> dvb_net_priv) option option" where
  "receive_cells k n crc [] dev p = Some (Some (dev, p))"
| "receive_cells k n crc (c # cs) dev p =
     (case dvb_net_ule k n crc (\<lambda>_. False) c dev p of
        Some (Some (dev', p')) \<Rightarrow> receive_cells k n crc cs dev' p' | r \<Rightarrow> r)"

subsection \<open>The start of a cell\<close>

lemma header_bits:
  assumes "cc AND 0x0f = cc"
  shows "length (cell_header pid cc pusi) = 4" "cell_header pid cc pusi ! 0 = 0x47"
    "cell_header pid cc pusi ! 1 AND 0x80 = 0" "(cell_header pid cc pusi ! 1 AND 0x40 \<noteq> 0) = pusi"
    "cell_header pid cc pusi ! 3 AND 0xc0 = 0" "cell_header pid cc pusi ! 3 AND 0x0f = cc"
proof -
  have m: "(x AND 0x1f) AND (0x80 :: byte) = 0" "(x AND 0x1f) AND (0x40 :: byte) = 0" for x by (simp_all add: and.assoc)
  have c: "cc AND 0xc0 = 0" by (subst assms [symmetric]) (simp add: and.assoc)
  show "length (cell_header pid cc pusi) = 4" "cell_header pid cc pusi ! 0 = 0x47" by (simp_all add: cell_header_def)
  show "cell_header pid cc pusi ! 1 AND 0x80 = 0" "(cell_header pid cc pusi ! 1 AND 0x40 \<noteq> 0) = pusi"
    by (simp_all add: cell_header_def bit.conj_disj_distrib2 m)
  show "cell_header pid cc pusi ! 3 AND 0xc0 = 0" "cell_header pid cc pusi ! 3 AND 0x0f = cc"
    using c assms by (simp_all add: cell_header_def bit.conj_disj_distrib2)
qed

lemma sync_start:
  assumes "length buf = 188" "buf = cell_header pid cc pusi @ pay" "cc AND 0x0f = cc"
  shows "dvb_net_ule_new_ts_cell buf (ule_start dev p) = Some ((ule_start dev p)\<lparr>ts_remain := 184, h_from := 4\<rparr>, False)"
    "mem_at buf 1 = Some (cell_header pid cc pusi ! 1)" "mem_at buf 3 = Some (cell_header pid cc pusi ! 3)"
    "mem_at buf 4 = Some (pay ! 0)"
proof -
  note hb = header_bits [OF assms(3), of pid pusi]
  have "buf ! 0 = cell_header pid cc pusi ! 0" "buf ! 1 = cell_header pid cc pusi ! 1" "buf ! 3 = cell_header pid cc pusi ! 3"
    "buf ! 4 = pay ! 0"
    using hb(1) by (simp_all add: assms(2) nth_append)
  then have m: "mem_at buf 0 = Some (cell_header pid cc pusi ! 0)" "mem_at buf 1 = Some (cell_header pid cc pusi ! 1)"
    "mem_at buf 3 = Some (cell_header pid cc pusi ! 3)" "mem_at buf 4 = Some (pay ! 0)"
    using assms(1) by (simp_all add: mem_at_def)
  show "mem_at buf 1 = Some (cell_header pid cc pusi ! 1)" "mem_at buf 3 = Some (cell_header pid cc pusi ! 3)"
    "mem_at buf 4 = Some (pay ! 0)" by (rule m)+
  show "dvb_net_ule_new_ts_cell buf (ule_start dev p) = Some ((ule_start dev p)\<lparr>ts_remain := 184, h_from := 4\<rparr>, False)"
    using m(2,3) hb by (simp add: dvb_net_ule_new_ts_cell_def ule_start_def m(1) [simplified])
qed

lemma sync_fresh:
  assumes buf: "length buf = 188" "buf = cell_header pid cc True @ 0 # out" "cc AND 0x0f = cc" and p: "fresh p" "need_pusi p"
  shows "case ule_sync buf (ule_start dev p) of Some (h, False) \<Rightarrow> at_rest buf h out \<and> h_dev h = dev \<and>
    h_priv h = p\<lparr>tscc := next_cc cc, need_pusi := False\<rparr> | _ \<Rightarrow> False"
proof -
  note hb = header_bits [OF buf(3), of pid True]
  note s = sync_start(1) [OF buf, of dev p] sync_start(2-4) [OF buf] hb(4-6)
  have len: "length out = 183" "drop 5 buf = out" using buf(1) hb(1) by (simp_all add: buf(2))
  have rem: "\<not> 183 < ule_sndu_remain p" using p(1) by (simp add: fresh_def ule_idle_def)
  define h1 where "h1 = (ule_start dev p)\<lparr>ts_remain := 184, h_from := 4\<rparr>"
  define h2 where "h2 = (upd_priv (\<lambda>p. p\<lparr>tscc := cc\<rparr>) h1)\<lparr>h_from := 5, ts_remain := 183, h_skipped := 0\<rparr>"
  have pu: "dvb_net_ule_ts_pusi buf h1 = Some (h2, False)"
    using s by (simp add: dvb_net_ule_ts_pusi_def h1_def h2_def ule_start_def)
  have "dvb_net_ule_new_ts buf h2 = Some (upd_priv (\<lambda>p. p\<lparr>tscc := next_cc cc, need_pusi := False\<rparr>) h2, False)"
    using s p(2) rem by (simp add: dvb_net_ule_new_ts_def h2_def h1_def ule_start_def Let_def next_cc_def upd_priv_def)
  moreover have "new_ts h1" "new_ts h2" "new_ts (ule_start dev p)" "need_pusi (h_priv h1)"
    using p(2) by (simp_all add: h1_def h2_def ule_start_def)
  ultimately have "ule_sync buf (ule_start dev p) = Some (upd_priv (\<lambda>p. p\<lparr>tscc := next_cc cc, need_pusi := False\<rparr>) h2, False)"
    using s(1) pu by (simp add: ule_sync_def flip: h1_def)
  then show ?thesis using len buf(1) by (simp add: at_rest_def h2_def h1_def ule_start_def)
qed

lemma sync_next:
  assumes buf: "length buf = 188" "buf = cell_header pid cc pusi @ (if pusi then [of_nat m] else []) @ out" "cc AND 0x0f = cc"
    and p: "\<not> need_pusi p" "tscc p = cc" and m: "pusi \<Longrightarrow> m < 183 \<and> ule_sndu_remain p = int m"
  shows "case ule_sync buf (ule_start dev p) of Some (h, False) \<Rightarrow> at_rest buf h out \<and> h_dev h = dev \<and>
    h_priv h = p\<lparr>tscc := next_cc cc\<rparr> | _ \<Rightarrow> False"
proof -
  note hb = header_bits [OF buf(3), of pid pusi]
  note s = sync_start(1) [OF buf, of dev p] sync_start(2-4) [OF buf] hb(4-6)
  define h1 where "h1 = (ule_start dev p)\<lparr>ts_remain := 184, h_from := 4\<rparr>"
  have "ule_sync buf (ule_start dev p) = dvb_net_ule_new_ts buf h1"
    using s(1) p(1) by (simp add: ule_sync_def flip: h1_def) (simp add: h1_def ule_start_def)
  also have "\<dots> = Some (upd_priv (\<lambda>p. p\<lparr>tscc := next_cc cc\<rparr>)
      (h1\<lparr>h_from := (if pusi then 5 else 4), ts_remain := (if pusi then 183 else 184)\<rparr>), False)"
  proof (cases pusi)
    case True
    have "uint (of_nat m :: byte) = int m" using m [OF True] by (simp add: unsigned_of_nat take_bit_eq_mod)
    then show ?thesis using s p True m [OF True] buf
      by (simp add: dvb_net_ule_new_ts_def h1_def ule_start_def Let_def next_cc_def upd_priv_def)
  next
    case False
    then show ?thesis using s p
      by (simp add: dvb_net_ule_new_ts_def h1_def ule_start_def Let_def next_cc_def upd_priv_def)
  qed
  finally have e: "ule_sync buf (ule_start dev p) = Some (upd_priv (\<lambda>p. p\<lparr>tscc := next_cc cc\<rparr>)
      (h1\<lparr>h_from := (if pusi then 5 else 4), ts_remain := (if pusi then 183 else 184)\<rparr>), False)" .
  have "drop (if pusi then 5 else 4) buf = out" "length out = (if pusi then 183 else 184)"
    using hb(1) buf(1) by (auto simp: buf(2) split: if_splits)
  then show ?thesis unfolding e using buf(1) p(1) by (simp add: at_rest_def h1_def ule_start_def)
qed

subsection \<open>All cells\<close>

lemma partway_cfg [simp]: "partway crc s j (p\<lparr>tscc := c\<rparr>) = partway crc s j p"
  "fresh (p\<lparr>tscc := c\<rparr>) = fresh p" "fresh (p\<lparr>need_pusi := b\<rparr>) = fresh p"
  "give (p\<lparr>tscc := c\<rparr>) = give p" "give (p\<lparr>need_pusi := b\<rparr>) = give p"
  by (auto simp: partway_def sndu_state_def fresh_def ule_idle_def give_def dest_accepted_def fun_eq_iff)

lemma partway_left: "partway crc s j p \<Longrightarrow> j \<noteq> 0 \<Longrightarrow> ule_sndu_remain p = int (sndu_len s + 4 - j)"
  by (auto simp: partway_def split: if_splits)

definition cell_done where
  "cell_done crc p cc cur q ss dev r \<longleftrightarrow> (case r of Some (Some (dev', p')) \<Rightarrow>
     recv_state crc cur p' \<and> tscc p' = next_cc cc \<and> give p' = give p \<and>
     fold (give p) (todo cur q) dev' = fold (give p) ss dev | _ \<Rightarrow> False)"

lemma after_sync:
  assumes s: "ule_sync buf (ule_start dev p) = Some (h, False)" and buf: "length buf = 188"
    and v: "sndu_valid s" "\<forall>t\<in>set q. sndu_valid t" and fl: "fill crc m s j q = (out, cur, q')" "2 \<le> m"
    and h: "at_rest buf h out" "partway crc s j (h_priv h)" "h_dev h = dev" "give (h_priv h) = give p" "tscc (h_priv h) = next_cc cc"
    and k: "m < k"
  shows "cell_done crc p cc cur q' (s # q) dev (dvb_net_ule (Suc k) n crc (\<lambda>_. False) buf dev p)"
proof -
  from cell_received [of buf "\<lambda>_. False", OF buf _ v fl(1) h(1,2) _ k, of n] fl(2) obtain h' where
    h': "rest_of_cell k n crc (\<lambda>_. False) buf h = Some (Some h')" "recv_state crc cur (h_priv h')"
    "same_cfg (h_priv h) (h_priv h')"
    "fold (give (h_priv h)) (todo cur q') (h_dev h') = fold (give (h_priv h)) (s # q) (h_dev h)" by auto
  have "ule_loop (Suc k) n crc (\<lambda>_. False) buf (ule_start dev p) = rest_of_cell k n crc (\<lambda>_. False) buf h"
    using s buf by (simp add: ule_turn_def ule_start_def)
  then show ?thesis using h' h(3-5) give_cfg [OF h'(3)]
    by (simp add: dvb_net_ule_def cell_done_def same_cfg_def)
qed

lemma cell_ok:
  assumes v: "sndu_valid s" "\<forall>t\<in>set q. sndu_valid t" and cc: "cc AND 0x0f = cc" and k: "185 < k"
    and p: "j = 0 \<and> fresh p \<and> need_pusi p \<or> recv_state crc (Some (s, j)) p \<and> tscc p = cc"
    and c: "ule_cell crc pid cc s j q = (cell, cur, q')"
  shows "cell_done crc p cc cur q' (s # q) dev (dvb_net_ule k n crc (\<lambda>_. False) cell dev p)"
proof -
  obtain k' where k': "k = Suc k'" "184 < k'" using k by (cases k) auto
  consider "j = 0" "fresh p" "need_pusi p" | "j \<noteq> 0" "partway crc s j p" "\<not> need_pusi p" "tscc p = cc"
    using p by (auto simp: recv_state_def)
  then show ?thesis
  proof cases
    case 1
    then obtain out where fl: "fill crc 183 s 0 q = (out, cur, q')" "cell = cell_header pid cc True @ 0 # out"
      using c by (auto simp: ule_cell_def split: prod.split_asm)
    have len: "length cell = 188" using fill_length [OF fl(1)] by (simp add: fl(2) cell_header_def)
    from sync_fresh [OF len fl(2) cc 1(2,3), of dev] obtain h where
      h: "ule_sync cell (ule_start dev p) = Some (h, False)" "at_rest cell h out" "h_dev h = dev"
        "h_priv h = p\<lparr>tscc := next_cc cc, need_pusi := False\<rparr>" by (auto split: option.split_asm prod.split_asm bool.split_asm)
    show ?thesis unfolding k'(1)
      by (rule after_sync [OF h(1) len v fl(1) _ h(2) _ h(3)]) (use 1 h(4) k'(2) in \<open>simp_all add: partway_def\<close>)
  next
    case 2
    define m where "m = sndu_len s + 4 - j"
    have rem: "ule_sndu_remain p = int m" using partway_left [OF 2(2,1)] by (simp add: m_def)
    define pusi where "pusi = (m + 2 \<le> 183 \<and> q \<noteq> [])"
    have ex: "\<exists>out ql. cell = cell_header pid cc pusi @ (if pusi then [of_nat m] else []) @ out \<and>
      (if pusi then fill crc 183 s j q = (out, cur, q') else fill crc 184 s j [] = (out, cur, ql) \<and> q' = q)"
      using c 2(1) by (auto simp: ule_cell_def Let_def pusi_def m_def [symmetric] split: prod.split_asm if_splits)
    then obtain out ql where cell: "cell = cell_header pid cc pusi @ (if pusi then [of_nat m] else []) @ out" and
      fl: "if pusi then fill crc 183 s j q = (out, cur, q') else fill crc 184 s j [] = (out, cur, ql) \<and> q' = q" by blast
    have len: "length cell = 188" using fl by (auto simp: cell cell_header_def split: if_splits dest!: fill_length)
    have "pusi \<Longrightarrow> m < 183 \<and> ule_sndu_remain p = int m" using rem by (simp add: pusi_def)
    from sync_next [OF len cell cc 2(3,4) this, of dev] obtain h where
      h: "ule_sync cell (ule_start dev p) = Some (h, False)" "at_rest cell h out" "h_dev h = dev"
        "h_priv h = p\<lparr>tscc := next_cc cc\<rparr>" by (auto split: option.split_asm prod.split_asm bool.split_asm)
    show ?thesis
    proof (cases pusi)
      case True
      then have f: "fill crc 183 s j q = (out, cur, q')" using fl by simp
      show ?thesis unfolding k'(1)
        by (rule after_sync [OF h(1) len v f _ h(2) _ h(3)]) (use 2 h(4) k'(2) in simp_all)
    next
      case False
      then have f: "fill crc 184 s j [] = (out, cur, ql)" "q' = q" using fl by simp_all
      have "cell_done crc p cc cur ql (s # []) dev (dvb_net_ule (Suc k') n crc (\<lambda>_. False) cell dev p)"
        by (rule after_sync [OF h(1) len v(1) _ f(1) _ h(2) _ h(3)]) (use 2 h(4) k'(2) in simp_all)
      moreover have "ql = []" by (rule fill_nil [OF f(1)])
      moreover have td: "fold g (todo cur q) d = fold g q (fold g (todo cur []) d)" for g d by (simp add: todo_def)
      ultimately show ?thesis by (auto simp: k'(1) cell_done_def f(2) td split: option.splits)
    qed
  qed
qed

lemma weight_nat_induct [case_names less]:
  "(\<And>cur q. (\<And>cur' q'. weight cur' q' < weight cur q \<Longrightarrow> P cur' q') \<Longrightarrow> P cur q) \<Longrightarrow> P cur q"
proof -
  assume a: "\<And>cur q. (\<And>cur' q'. weight cur' q' < weight cur q \<Longrightarrow> P cur' q') \<Longrightarrow> P cur q"
  have "\<forall>cur q. weight cur q = n \<longrightarrow> P cur q" for n
    by (induction n rule: less_induct) (use a in blast)
  then show "P cur q" by blast
qed

lemma fill_todo: "fill crc k s j q = (out, cur, r) \<Longrightarrow> set (todo cur r) \<subseteq> insert s (set q)"
proof (induction q arbitrary: k s j out)
  case Nil
  then show ?case by (subst (asm) fill.simps) (auto simp: Let_def todo_def split: if_splits)
next
  case (Cons t q)
  show ?case
  proof (cases "k < sndu_len s + 4 - j \<or> k - (sndu_len s + 4 - j) < 2")
    case True
    then show ?thesis using Cons.prems by (subst (asm) fill.simps) (auto simp: Let_def todo_def split: if_splits)
  next
    case False
    then obtain out' where "fill crc (k - (sndu_len s + 4 - j)) t 0 q = (out', cur, r)"
      using Cons.prems by (subst (asm) fill.simps) (auto simp: Let_def split: if_splits prod.split_asm)
    from Cons.IH [OF this] show ?thesis by auto
  qed
qed

lemma cell_valid: "ule_cell crc pid cc s j q = (c, cur, r) \<Longrightarrow> sndu_valid s \<Longrightarrow> \<forall>t\<in>set q. sndu_valid t \<Longrightarrow>
   \<forall>t\<in>set (todo cur r). sndu_valid t"
proof -
  assume a: "ule_cell crc pid cc s j q = (c, cur, r)" "sndu_valid s" "\<forall>t\<in>set q. sndu_valid t"
  have "set (todo cur q) \<subseteq> insert s (set q)" if "fill crc 184 s j [] = (out, cur, r')" for out r'
    using fill_todo [OF that] by (auto simp: todo_def)
  then have "set (todo cur r) \<subseteq> insert s (set q)" using a(1)
    by (auto simp: ule_cell_def Let_def split: if_splits prod.split_asm dest!: fill_todo)
  then show ?thesis using a(2,3) by auto
qed

lemma next_cc_low: "next_cc cc AND 0x0f = next_cc cc"
  by (simp add: next_cc_def and.assoc)

lemma cells_received:
  assumes k: "185 < k"
  shows "\<forall>t\<in>set (todo cur q). sndu_valid t \<Longrightarrow> cc AND 0x0f = cc \<Longrightarrow> recv_state crc cur p \<Longrightarrow> (cur \<noteq> None \<longrightarrow> tscc p = cc) \<Longrightarrow>
    case receive_cells k n crc (ule_pack crc pid cc cur q) dev p of
      Some (Some (dev', p')) \<Rightarrow> recv_state crc None p' \<and> dev' = fold (give p) (todo cur q) dev | _ \<Rightarrow> False"
proof (induction cur q arbitrary: cc p dev rule: weight_nat_induct)
  case (less cur q)
  have step: ?case if c: "ule_cell crc pid cc s j q1 = (c, cur1, q2)" and
    pk: "ule_pack crc pid cc cur q = c # ule_pack crc pid (next_cc cc) cur1 q2" and
    v: "sndu_valid s" "\<forall>t\<in>set q1. sndu_valid t" and td: "todo cur q = s # q1" and
    w: "weight cur1 q2 < weight cur q" and
    st: "j = 0 \<and> fresh p \<and> need_pusi p \<or> recv_state crc (Some (s, j)) p \<and> tscc p = cc" for s j q1 c cur1 q2
  proof -
    from cell_ok [where n = n and dev = dev, OF v less.prems(2) k st c] obtain dev1 p1 where
      one: "dvb_net_ule k n crc (\<lambda>_. False) c dev p = Some (Some (dev1, p1))" "recv_state crc cur1 p1"
        "tscc p1 = next_cc cc" "give p1 = give p" "fold (give p) (todo cur1 q2) dev1 = fold (give p) (s # q1) dev"
      by (auto simp: cell_done_def split: option.split_asm)
    from less.IH [OF w cell_valid [OF c v] next_cc_low one(2), where dev = dev1] one(3)
    have "case receive_cells k n crc (ule_pack crc pid (next_cc cc) cur1 q2) dev1 p1 of
      Some (Some (dev', p')) \<Rightarrow> recv_state crc None p' \<and> dev' = fold (give p) (s # q1) dev | _ \<Rightarrow> False"
      unfolding one(4,5) by blast
    then show ?thesis unfolding pk td by (simp add: one(1))
  qed
  show ?case
  proof (cases cur)
    case None
    show ?thesis
    proof (cases q)
      case Nil
      then show ?thesis using None less.prems(3) by (simp add: todo_def)
    next
      case (Cons s q1)
      obtain c cur1 q2 where c: "ule_cell crc pid cc s 0 q1 = (c, cur1, q2)" by (cases "ule_cell crc pid cc s 0 q1")
      show ?thesis
        by (rule step [OF c]) (use None Cons c less.prems less_trans [OF cell_weight [OF c] start_weight]
          in \<open>auto simp: todo_def recv_state_def\<close>)
    qed
  next
    case (Some a)
    obtain s j where a: "a = (s, j)" by (cases a)
    obtain c cur1 q2 where c: "ule_cell crc pid cc s j q = (c, cur1, q2)" by (cases "ule_cell crc pid cc s j q")
    show ?thesis
      by (rule step [OF c]) (use Some a c less.prems cell_weight [OF c] in \<open>auto simp: todo_def recv_state_def\<close>)
  qed
qed

text \<open>
  C4. Packets are received as they are sent: packets without extension headers that are cut into
  cells as RFC 4326 says (padding, packed packets, cuts in the header, a pointer to the first
  packet that starts in a cell), sent to a receiver that waits for the start of a packet, reach
  the network in their order, each exactly once and unchanged, if their destination is accepted,
  and the receiver waits again.
\<close>

lemma packets_roundtrip:
  assumes "\<forall>s\<in>set ss. sndu_valid s" "cc AND 0x0f = cc" "recv_state crc None p" "185 < k"
  shows "case receive_cells k n crc (ule_pack crc pid cc None ss) dev p of
    Some (Some (dev', p')) \<Rightarrow> recv_state crc None p' \<and> dev' = fold (give p) ss dev | _ \<Rightarrow> False"
proof -
  have "todo None ss = ss" by (simp add: todo_def)
  from cells_received [OF assms(4), where cur = None and q = ss, unfolded this, OF assms(1-3)] show ?thesis by simp
qed

text \<open>Two packets, the first of them for the device.\<close>

definition demo_sndus :: "ule_sndu list" where
  "demo_sndus = [\<lparr>sn_mac = Some [2, 0, 0, 0, 0, 1], sn_type = 0x0800, sn_payload = replicate 200 0x45\<rparr>,
     \<lparr>sn_mac = None, sn_type = 0x86dd, sn_payload = replicate 40 0x60\<rparr>]"

lemma packets_roundtrip_witness:
  "case receive_cells 192 0 (\<lambda>c bs. c) (ule_pack (\<lambda>c bs. c) 0x100 0 None demo_sndus) demo_net demo_priv of
     Some (Some (dev', p')) \<Rightarrow> recv_state (\<lambda>c bs. c) None p' \<and> dev' = fold (give demo_priv) demo_sndus demo_net | _ \<Rightarrow> False"
  by (rule packets_roundtrip)
    (simp_all add: demo_sndus_def sndu_valid_def sndu_len_def sndu_data_def recv_state_def fresh_def demo_priv_ok)

subsection \<open>Extension headers\<close>

text \<open>
  An optional extension header: its type, which has its length in units of two bytes, and its data;
  not of type 255, which the tables of handlers do not have.
\<close>

definition opt_header :: "u16 \<times> byte list \<Rightarrow> bool" where
  "opt_header e \<longleftrightarrow> fst e < 0x0600 \<and> fst e AND 0xff \<noteq> 0xff \<and> length (snd e) + 2 = 2 * unat (drop_bit 8 (fst e AND 0x0700))"

fun opt_chain :: "(u16 \<times> byte list) list \<Rightarrow> u16 \<Rightarrow> byte list" where
  "opt_chain [] t = []"
| "opt_chain [e] t = snd e @ be16_bytes t"
| "opt_chain (e # f # es) t = snd e @ be16_bytes (fst f) @ opt_chain (f # es) t"

definition chain_type :: "(u16 \<times> byte list) list \<Rightarrow> u16 \<Rightarrow> u16" where
  "chain_type es t = (case es of [] \<Rightarrow> t | e # _ \<Rightarrow> fst e)"

lemma opt_chain_Cons: "opt_chain (e # es) t = snd e @ be16_bytes (chain_type es t) @ opt_chain es t"
  by (cases es) (simp_all add: chain_type_def)

lemma chain_loop:
  assumes "0x0600 \<le> t"
  shows "\<forall>e\<in>set es. opt_header e \<Longrightarrow> es \<noteq> [] \<Longrightarrow> ule_sndu_type p = chain_type es t \<Longrightarrow>
    drop (ule_next_hdr p) mem = opt_chain es t @ pay \<Longrightarrow> length es \<le> n \<Longrightarrow>
    ule_extension_loop n p mem acc =
      Some (p\<lparr>ule_next_hdr := ule_next_hdr p + length (opt_chain es t), ule_sndu_type := t\<rparr>, acc + int (length (opt_chain es t)))"
proof (induction es arbitrary: p acc n)
  case (Cons e es)
  obtain n' where n: "n = Suc n'" "length es \<le> n'" using Cons.prems(5) by (cases n) auto
  define hl where "hl = unat (drop_bit 8 (fst e AND 0x0700))"
  have hl: "length (snd e) + 2 = 2 * hl" "fst e < 0x0600" "fst e AND 0xff \<noteq> 0xff"
    using Cons.prems(1) by (simp_all add: opt_header_def hl_def)
  have ty: "ule_sndu_type p = fst e" using Cons.prems(3) by (simp add: chain_type_def)
  have idx: "ule_next_hdr p + hl * 2 - 2 = ule_next_hdr p + length (snd e)" using hl(1) by simp
  have "drop (ule_next_hdr p + length (snd e)) mem = drop (length (snd e)) (drop (ule_next_hdr p) mem)"
    by (simp only: drop_drop add.commute)
  also have "\<dots> = be16_bytes (chain_type es t) @ opt_chain es t @ pay"
    using Cons.prems(4) by (simp add: opt_chain_Cons)
  finally have dr: "drop (ule_next_hdr p + length (snd e)) mem = be16_bytes (chain_type es t) @ opt_chain es t @ pay" .
  define p1 where "p1 = p\<lparr>ule_next_hdr := ule_next_hdr p + hl * 2, ule_sndu_type := chain_type es t\<rparr>"
  have one: "handle_one_ule_extension p mem = Some (p1, int (hl * 2))"
    unfolding handle_one_ule_extension_def Let_def ty hl_def [symmetric] idx
    using hl(1,3) be16_at [OF dr] by (simp add: p1_def)
  have nx: "ule_next_hdr p + hl * 2 = ule_next_hdr p + length (snd e) + 2" using hl(1) by simp
  have "ule_next_hdr p1 = 2 + (ule_next_hdr p + length (snd e))" using nx by (simp add: p1_def)
  then have "drop (ule_next_hdr p1) mem = drop 2 (drop (ule_next_hdr p + length (snd e)) mem)" by simp
  then have dr1: "drop (ule_next_hdr p1) mem = opt_chain es t @ pay" by (simp add: dr be16_bytes_def)
  have len: "length (opt_chain (e # es) t) = hl * 2 + length (opt_chain es t)"
    using hl(1) by (simp add: opt_chain_Cons be16_bytes_def)
  have nt: "\<not> t < 0x0600" using assms by (simp add: not_less)
  show ?case
  proof (cases es)
    case Nil
    then show ?thesis using one nt len by (simp add: n(1) p1_def chain_type_def)
  next
    case (Cons f fs)
    have lt: "ule_sndu_type p1 < 0x0600" using Cons.prems(1) Cons by (simp add: p1_def chain_type_def opt_header_def)
    show ?thesis
      using Cons.IH [of p1 n' "acc + int (hl * 2)"] Cons.prems(1) Cons dr1 n(2) one lt len
      by (simp add: n(1)) (simp add: p1_def)
  qed
qed simp

text \<open>
  Optional extension headers are passed over: a packet without a destination whose type is
  that of a chain of such headers is delivered with the type at the end of the chain and the data
  behind it.
\<close>

lemma optional_headers_skipped:
  assumes "\<forall>e\<in>set es. opt_header e" "es \<noteq> []" "0x0600 \<le> t" "length es \<le> n"
    and "ule_sndu_type (h_priv h) = chain_type es t" "ule_dbit (h_priv h) \<noteq> 0" "\<not> ule_bridged (h_priv h)"
    and "skb_mem skb = opt_chain es t @ pay @ tail" "length tail = 4" "skb_len skb = length (skb_mem skb)"
  shows "case dvb_net_ule_deliver n h skb of None \<Rightarrow> False | Some h' \<Rightarrow>
    received (h_dev h') = received (h_dev h) @ [\<lparr>fr_type = PACKET_HOST, fr_protocol = t,
      fr_header = replicate 12 0 @ be16_bytes t, fr_data = pay\<rparr>] \<and> rx_packets (h_dev h') = rx_packets (h_dev h) + 1"
proof -
  define l where "l = length (opt_chain es t)"
  have ext: "handle_ule_extensions n (h_priv h) (skb_mem skb) =
      Some ((h_priv h)\<lparr>ule_next_hdr := l, ule_sndu_type := t\<rparr>, int l)"
    using chain_loop [OF assms(3,1,2), of "(h_priv h)\<lparr>ule_next_hdr := 0\<rparr>" "skb_mem skb" "pay @ tail" n 0] assms(4,5,8)
    by (simp add: handle_ule_extensions_def l_def)
  have lt: "chain_type es t < 0x0600" using assms(1,2) by (cases es) (simp_all add: chain_type_def opt_header_def)
  have r12: "replicate 12 (0 :: byte) = replicate 6 0 @ replicate 6 0" by (simp add: numeral_eq_Suc)
  define skb3 where "skb3 = skb_push (skb_pull (skb_trim_tail skb 4) l) (replicate 12 0 @ be16_bytes t)"
  have "skb_mem skb3 = replicate 6 0 @ replicate 6 0 @ be16_bytes t @ pay @ tail" "skb_len skb3 = 14 + length pay"
    using assms(8-10) by (simp_all add: skb3_def skb_push_def skb_pull_def skb_trim_tail_def l_def be16_bytes_def r12)
  from netif_rx_frame [OF _ assms(3) this, of "h_dev h"]
  have "netif_rx skb3 (h_dev h) = Some ((h_dev h)\<lparr>rx_packets := rx_packets (h_dev h) + 1,
      rx_bytes := rx_bytes (h_dev h) + length pay, received := received (h_dev h) @ [\<lparr>fr_type = PACKET_HOST, fr_protocol = t,
      fr_header = replicate 12 0 @ be16_bytes t, fr_data = pay\<rparr>]\<rparr>)" by (simp add: r12)
  moreover have "skb_mem (skb_trim_tail skb 4) = skb_mem skb" by (simp add: skb_trim_tail_def)
  moreover have "skb_push (skb_pull (skb_trim_tail skb 4) l) (replicate 6 0 @ replicate 6 0 @ be16_bytes t) = skb3"
    by (simp add: skb3_def r12)
  ultimately show ?thesis using ext lt assms(5-7)
    by (simp add: dvb_net_ule_deliver_def Let_def)
qed

lemma optional_headers_skipped_witness:
  "case dvb_net_ule_deliver 2 ((ule_start demo_net (demo_priv\<lparr>ule_sndu_type := 0x0105, ule_dbit := 1\<rparr>)))
      \<lparr>skb_mem = opt_chain [(0x0105, []), (0x0207, [9, 9])] 0x0800 @ [0x45, 0] @ replicate 4 0, skb_len = 12, skb_room = 0\<rparr> of
     None \<Rightarrow> False | Some h' \<Rightarrow> received (h_dev h') = received (h_dev (ule_start demo_net (demo_priv\<lparr>ule_sndu_type := 0x0105, ule_dbit := 1\<rparr>))) @
       [\<lparr>fr_type = PACKET_HOST, fr_protocol = 0x0800, fr_header = replicate 12 0 @ be16_bytes 0x0800, fr_data = [0x45, 0]\<rparr>] \<and>
       rx_packets (h_dev h') = rx_packets (h_dev (ule_start demo_net (demo_priv\<lparr>ule_sndu_type := 0x0105, ule_dbit := 1\<rparr>))) + 1"
  by (rule optional_headers_skipped [where tail = "replicate 4 0" and es = "[(0x0105, []), (0x0207, [9, 9])]"])
    (simp_all add: opt_header_def chain_type_def ule_start_def demo_priv_ok be16_bytes_def del: replicate_Suc)

lemma bridged_turn:
  assumes "ule_sndu_type p = 1" "be16 mem (ule_next_hdr p + 12) = Some proto" "0x0600 \<le> proto"
    "be16 mem (ule_next_hdr p + (if ule_dbit p \<noteq> 0 then 12 else 18)) = Some typ"
  shows "handle_one_ule_extension p mem = Some (p\<lparr>ule_bridged := True, ule_sndu_type := typ\<rparr>, 0)"
  using assms by (simp add: handle_one_ule_extension_def ule_bridged_sndu_def Let_def not_less split: if_splits)

text \<open>
  C36. A bridged packet with a destination can stop the kernel: the type behind the inner Ethernet
  header is looked for as if the destination had not been removed, in the data of the frame (the
  identification of an IPv4 packet).  If the two bytes there are 1, the header is that of a
  bridged packet again and again: the loop over the headers does not end.
\<close>

lemma bridged_packet_hangs:
  assumes "ule_sndu_type p = 1" "ule_dbit p = 0" "be16 mem 12 = Some proto" "0x0600 \<le> proto" "be16 mem 18 = Some 1"
  shows "\<forall>n. handle_ule_extensions n p mem = None"
proof -
  have "ule_extension_loop n q mem acc = None" if "ule_sndu_type q = 1" "ule_next_hdr q = 0" "ule_dbit q = 0" for n q acc
    using that
  proof (induction n arbitrary: q acc)
    case (Suc n)
    have "handle_one_ule_extension q mem = Some (q\<lparr>ule_bridged := True, ule_sndu_type := 1\<rparr>, 0)"
      by (rule bridged_turn) (use Suc.prems assms in simp_all)
    then show ?case using Suc.IH [of "q\<lparr>ule_bridged := True, ule_sndu_type := 1\<rparr>"] Suc.prems by simp
  qed simp
  then show ?thesis using assms(1,2) by (simp add: handle_ule_extensions_def)
qed

lemma bridged_packet_hangs_witness:
  "\<forall>n. handle_ule_extensions n (demo_priv\<lparr>ule_sndu_type := 1, ule_dbit := 0\<rparr>)
     (replicate 12 0 @ [0x08, 0, 0x45, 0, 0, 20, 0, 1] @ replicate 16 0) = None"
  by (rule bridged_packet_hangs [where proto = "0x0800"]) (simp_all add: be16_def mem_at_def nth_append)

text \<open>
  Bridged frames with a length (802.3) are thrown away if their length is right: the length
  that is expected counts the checksum of the packet and the destination that was removed.
\<close>

lemma bridged_length_refused:
  assumes "ule_sndu_type p = 1" "be16 mem 12 = Some len" "len < 0x0600" "0 < n"
    and "ule_sndu_len p = (if ule_dbit p = 0 then 6 else 0) + 14 + unat len + 4"
  shows "handle_ule_extensions n p mem = Some (p\<lparr>ule_next_hdr := 0\<rparr>, - 1)"
proof -
  have "int (ule_sndu_len p) - int (0 + 14) \<noteq> uint len" using assms(5) by simp
  then have "handle_one_ule_extension (p\<lparr>ule_next_hdr := 0\<rparr>) mem = Some (p\<lparr>ule_next_hdr := 0\<rparr>, - 1)"
    using assms(1-3) by (simp add: handle_one_ule_extension_def ule_bridged_sndu_def Let_def)
  then show ?thesis using assms(4) by (cases n) (simp_all add: handle_ule_extensions_def)
qed


lemma bridged_length_refused_witness:
  "handle_ule_extensions 1 (demo_priv\<lparr>ule_sndu_type := 1, ule_dbit := 1, ule_sndu_len := 21\<rparr>)
     (replicate 12 0 @ [0, 3, 0xaa, 0xaa, 3] @ replicate 4 0)
   = Some (demo_priv\<lparr>ule_sndu_type := 1, ule_dbit := 1, ule_sndu_len := 21, ule_next_hdr := 0\<rparr>, - 1)"
  using bridged_length_refused [of "demo_priv\<lparr>ule_sndu_type := 1, ule_dbit := 1, ule_sndu_len := 21\<rparr>"
      "replicate 12 0 @ [0, 3, 0xaa, 0xaa, 3] @ replicate 4 0" 3 1]
  by (simp add: be16_def mem_at_def nth_append demo_priv_def)

end
