(* ===== verification/NetSections.thy ===== *)
theory NetSections imports NetPackets begin

text \<open>
  Network packets in sections (MPE, neumo-dvb-net.c): one section has one packet, behind a header
  with the destination and perhaps an LLC/SNAP header.
\<close>

subsection \<open>The section\<close>

definition llc_snap :: "byte list" where
  "llc_snap = [0xaa, 0xaa, 0x03, 0, 0, 0]"

definition count_error :: "(net_device \<Rightarrow> net_device) \<Rightarrow> net_device \<Rightarrow> net_device" where
  "count_error f dev = f (dev\<lparr>rx_errors := rx_errors dev + 1\<rparr>)"

text \<open>The type: of the SNAP header, or by the version of the IP header.\<close>

definition mpe_type :: "nat \<Rightarrow> byte list \<Rightarrow> byte list option" where
  "mpe_type snap pkt =
     (if snap \<noteq> 0 then memread pkt 18 2
      else map_option (\<lambda>v. if drop_bit 4 v = 6 then [0x86, 0xdd] else [0x08, 0x00]) (mem_at pkt 12))"

definition mpe_skb :: "nat \<Rightarrow> byte list \<Rightarrow> sk_buff option" where
  "mpe_skb snap pkt = do {
     pay \<leftarrow> memread pkt (12 + snap) (length pkt - 12 - 4 - snap);
     hi \<leftarrow> memread pkt 8 4;
     lo \<leftarrow> memread pkt 3 2;
     typ \<leftarrow> mpe_type snap pkt;
     skb_put_data (skb_reserve (dev_alloc_skb (length pkt - 4 - 12 + 14 + 2 - snap)) 2)
       (rev hi @ rev lo @ replicate 6 0 @ typ @ pay) }"

text \<open>\<open>oom\<close>: there is no memory for the packet.\<close>

definition dvb_net_sec :: "bool \<Rightarrow> net_device \<Rightarrow> byte list \<Rightarrow> net_device option" where
  "dvb_net_sec oom dev pkt =
     (if length pkt < 16 then Some (count_error (\<lambda>d. d\<lparr>rx_length_errors := rx_length_errors d + 1\<rparr>) dev)
      else do {
        b5 \<leftarrow> mem_at pkt 5;
        b7 \<leftarrow> mem_at pkt 7;
        (if b5 AND 0x3c \<noteq> 0 then Some (count_error (\<lambda>d. d\<lparr>rx_crc_errors := rx_crc_errors d + 1\<rparr>) dev)
         else if b5 AND 0x02 \<noteq> 0 \<and> (length pkt < 24 \<or> memread pkt 12 6 \<noteq> Some llc_snap)
           then Some (dev\<lparr>rx_dropped := rx_dropped dev + 1\<rparr>)
         else if b7 \<noteq> 0 then Some (count_error (\<lambda>d. d\<lparr>rx_frame_errors := rx_frame_errors d + 1\<rparr>) dev)
         else if oom then Some (dev\<lparr>rx_dropped := rx_dropped dev + 1\<rparr>)
         else do {
           skb \<leftarrow> mpe_skb (if b5 AND 0x02 \<noteq> 0 then 8 else 0) pkt;
           netif_rx skb dev }) })"

text \<open>The callback of the section filters.\<close>

definition dvb_net_sec_callback :: "bool \<Rightarrow> net_device \<Rightarrow> byte list \<Rightarrow> (net_device \<times> int) option" where
  "dvb_net_sec_callback oom dev buffer1 = map_option (\<lambda>d. (d, 0)) (dvb_net_sec oom dev buffer1)"

subsection \<open>Sections as they are sent\<close>

record mpe_packet =
  mp_dest :: "byte list"
  mp_snap :: "u16 option"
  mp_payload :: "byte list"

text \<open>EN 301 192: the destination is cut in two and stored in reverse.\<close>

definition mpe_section :: "byte list \<Rightarrow> mpe_packet \<Rightarrow> byte list \<Rightarrow> byte list" where
  "mpe_section len m crc =
     [0x3e] @ len @ [mp_dest m ! 5, mp_dest m ! 4, if mp_snap m = None then 0xc1 else 0xc3, 0, 0,
        mp_dest m ! 3, mp_dest m ! 2, mp_dest m ! 1, mp_dest m ! 0] @
     (case mp_snap m of None \<Rightarrow> [] | Some t \<Rightarrow> llc_snap @ be16_bytes t) @ mp_payload m @ crc"

definition mpe_valid :: "mpe_packet \<Rightarrow> bool" where
  "mpe_valid m \<longleftrightarrow> length (mp_dest m) = 6 \<and>
     (case mp_snap m of None \<Rightarrow> mp_payload m \<noteq> [] | Some t \<Rightarrow> 0x0600 \<le> t)"

definition mpe_proto :: "mpe_packet \<Rightarrow> u16" where
  "mpe_proto m = (case mp_snap m of Some t \<Rightarrow> t
     | None \<Rightarrow> if drop_bit 4 (hd (mp_payload m)) = 6 then 0x86dd else 0x0800)"

lemma six: "length d = 6 \<Longrightarrow> [d ! 0, d ! 1, d ! 2, d ! 3, d ! 4, d ! 5] = d"
  by (rule nth_equalityI) (auto simp: less_Suc_eq numeral_eq_Suc)

lemma mpe_skb_section:
  assumes "mpe_valid m" "length len = 2" "length crc = 4"
  shows "\<exists>skb. mpe_skb (if mp_snap m = None then 0 else 8) (mpe_section len m crc) = Some skb \<and>
    skb_mem skb = mp_dest m @ replicate 6 0 @ be16_bytes (mpe_proto m) @ mp_payload m @ [] \<and>
    skb_len skb = 14 + length (mp_payload m)"
proof -
  obtain l0 l1 where l: "len = [l0, l1]" using assms(2) by (auto simp: length_Suc_conv numeral_eq_Suc)
  note d = six [of "mp_dest m"]
  show ?thesis
  proof (cases "mp_snap m")
    case None
    then obtain v r where p: "mp_payload m = v # r" "length (mp_dest m) = 6"
      using assms(1) by (cases "mp_payload m") (auto simp: mpe_valid_def)
    have "mpe_type 0 (mpe_section len m crc) = Some (be16_bytes (mpe_proto m))"
      by (simp add: mpe_type_def mpe_section_def None l p mem_at_def mpe_proto_def be16_bytes_def)
    then show ?thesis using None l p assms(3) d
      by (simp add: mpe_skb_def mpe_section_def memread_def skb_put_data_def skb_reserve_def dev_alloc_skb_def be16_bytes_def)
  next
    case (Some t)
    then have p: "length (mp_dest m) = 6" using assms(1) by (simp add: mpe_valid_def)
    have "mpe_type 8 (mpe_section len m crc) = Some (be16_bytes (mpe_proto m))"
      by (simp add: mpe_type_def mpe_section_def Some l memread_def mpe_proto_def be16_bytes_def llc_snap_def)
    then show ?thesis using Some l p assms(3) d
      by (simp add: mpe_skb_def mpe_section_def memread_def skb_put_data_def skb_reserve_def dev_alloc_skb_def be16_bytes_def llc_snap_def)
  qed
qed

text \<open>
  C34. A packet that is sent in a section reaches the network unchanged, with its destination put
  together again and its type: that of its SNAP header, or IPv6 or IPv4 by its first bits.
\<close>

lemma mpe_roundtrip:
  assumes "mpe_valid m" "length len = 2" "length crc = 4"
  shows "dvb_net_sec False dev (mpe_section len m crc) =
    Some (dev\<lparr>rx_packets := rx_packets dev + 1, rx_bytes := rx_bytes dev + length (mp_payload m),
      received := received dev @ [\<lparr>
        fr_type = (if bit (mp_dest m ! 0) 0
          then if mp_dest m = replicate 6 0xff then PACKET_BROADCAST else PACKET_MULTICAST else PACKET_HOST),
        fr_protocol = mpe_proto m, fr_header = mp_dest m @ replicate 6 0 @ be16_bytes (mpe_proto m),
        fr_data = mp_payload m\<rparr>]\<rparr>)"
proof -
  obtain l0 l1 where l: "len = [l0, l1]" using assms(2) by (auto simp: length_Suc_conv numeral_eq_Suc)
  from mpe_skb_section [OF assms] obtain skb where
    skb: "mpe_skb (if mp_snap m = None then 0 else 8) (mpe_section len m crc) = Some skb"
      "skb_mem skb = mp_dest m @ replicate 6 0 @ be16_bytes (mpe_proto m) @ mp_payload m @ []"
      "skb_len skb = 14 + length (mp_payload m)" by blast
  have d: "length (mp_dest m) = 6" "0x0600 \<le> mpe_proto m"
    using assms(1) by (auto simp: mpe_valid_def mpe_proto_def split: option.splits)
  have b: "mem_at (mpe_section len m crc) 5 = Some (if mp_snap m = None then 0xc1 else 0xc3)"
    "mem_at (mpe_section len m crc) 7 = Some 0"
    by (simp_all add: mpe_section_def l mem_at_def)
  have n: "length (mpe_section len m crc) = 16 + (if mp_snap m = None then 0 else 8) + length (mp_payload m)"
    by (simp add: mpe_section_def l assms(3) llc_snap_def be16_bytes_def split: option.splits)
  have "mp_snap m \<noteq> None \<Longrightarrow> memread (mpe_section len m crc) 12 6 = Some llc_snap"
    by (auto simp: mpe_section_def l memread_def llc_snap_def)
  then have "dvb_net_sec False dev (mpe_section len m crc) = Option.bind
      (mpe_skb (if mp_snap m = None then 0 else 8) (mpe_section len m crc)) (\<lambda>skb. netif_rx skb dev)"
    using n by (cases "mp_snap m") (simp_all add: dvb_net_sec_def b)
  then show ?thesis using netif_rx_frame [OF d skb(2,3)] by (simp add: skb(1))
qed


lemma mpe_roundtrip_witness:
  "\<exists>dev'. dvb_net_sec False demo_net (mpe_section [0xb0, 30] \<lparr>mp_dest = [2, 0, 0, 0, 0, 1], mp_snap = None, mp_payload = [0x60, 1]\<rparr>
      [0, 0, 0, 0]) = Some dev' \<and> map fr_protocol (received dev') = [0x86dd] \<and> map fr_data (received dev') = [[0x60, 1]]"
  using mpe_roundtrip [of "\<lparr>mp_dest = [2, 0, 0, 0, 0, 1], mp_snap = None, mp_payload = [0x60, 1]\<rparr>" "[0xb0, 30]" "[0, 0, 0, 0]" demo_net]
  by (simp add: mpe_valid_def mpe_proto_def demo_net_def)

end
