(* ===== verification/NetControl.thy ===== *)
theory NetControl imports DemuxControl NetSections "HOL-Library.Multiset" begin

text \<open>
  The control of the network interfaces (neumo-dvb-net.c): the section filters and feeds of an
  interface, the modes of reception, the table of interfaces and its ioctls.

  The interface calls the demux as it is modelled in \<open>DemuxControl\<close>; the state of both goes through
  every call, and \<^const>\<open>None\<close> is an access to something that is not there.  The flags of the network
  device, its list of multicast addresses and the queued work belong to the kernel and are with
  the interface.  \<open>priv->mutex\<close> makes start and stop of the feed atomic and is left out.
\<close>

abbreviation (input) DVB_NET_MULTICAST_MAX :: nat where "DVB_NET_MULTICAST_MAX \<equiv> 10"
abbreviation (input) DVB_NET_DEVICES_MAX :: nat where "DVB_NET_DEVICES_MAX \<equiv> 10"
abbreviation (input) DMX_PES_OTHER :: nat where "DMX_PES_OTHER \<equiv> 20"

datatype dvb_net_feedtype = FEEDTYPE_MPE | FEEDTYPE_ULE

record dvb_net_if =
  in_use :: int
  if_pid :: nat
  feedtype :: dvb_net_feedtype
  secfeed :: "nat option"
  if_secfilter :: "nat option"
  pid_stream :: "nat option"
  multi_secfilter :: "nat option list"
  if_priv :: dvb_net_priv
  if_net :: net_device
  running :: bool
  iff_promisc :: bool
  iff_allmulti :: bool
  mc_list :: "byte list list"
  multicast_work :: bool
  restart_work :: bool

subsection \<open>Section filters\<close>

definition mask_normal :: "byte list" where "mask_normal = replicate 6 0xff"
definition mask_allmulti :: "byte list" where "mask_allmulti = [0xff, 0xff, 0xff, 0, 0, 0]"
definition mac_allmulti :: "byte list" where "mac_allmulti = [0x01, 0x00, 0x5e, 0, 0, 0]"
definition mask_promisc :: "byte list" where "mask_promisc = replicate 6 0"

text \<open>The place of the destination in a section.\<close>

definition mac_bytes :: "byte \<Rightarrow> byte list \<Rightarrow> byte list" where
  "mac_bytes b mac = [b, 0, 0, mac ! 5, mac ! 4, 0, 0, 0, mac ! 3, mac ! 2, mac ! 1, mac ! 0] @ replicate 6 0"

definition net_filter :: "byte list \<Rightarrow> byte list \<Rightarrow> secfilter \<Rightarrow> secfilter" where
  "net_filter mac msk sf = sf\<lparr>filter_value := mac_bytes 0x3e mac, filter_mask := mac_bytes 0xff msk,
     filter_mode := replicate DVB_DEMUX_MASK_MAX 0xff\<rparr>"

definition set_filter :: "nat \<Rightarrow> nat \<Rightarrow> (secfilter \<Rightarrow> secfilter) \<Rightarrow> dvb_demux \<Rightarrow> dvb_demux" where
  "set_filter i j g = upd_feed i (\<lambda>f. f\<lparr>f_filters := map (\<lambda>sf. if sfl_index sf = j then g sf else sf) (f_filters f)\<rparr>)"

text \<open>The filter, if there was one.\<close>

definition dvb_net_filter_sec_set ::
    "bool \<Rightarrow> dvb_demux \<Rightarrow> nat option \<Rightarrow> byte list \<Rightarrow> byte list \<Rightarrow> (dvb_demux \<times> nat option) option" where
  "dvb_net_filter_sec_set intr d feed mac msk = do {
     i \<leftarrow> feed;
     (d1, r) \<leftarrow> dmx_section_feed_allocate_filter intr d i;
     Some (case r of Inl _ \<Rightarrow> (d1, None) | Inr j \<Rightarrow> (set_filter i j (net_filter mac msk) d1, Some j)) }"

subsection \<open>Start and stop of the feed\<close>

text \<open>\<open>intr\<close> says which waits for the mutex of the demux are interrupted.\<close>

fun set_multi_filters ::
    "(nat \<Rightarrow> bool) \<Rightarrow> nat \<Rightarrow> byte list list \<Rightarrow> dvb_demux \<times> dvb_net_if \<Rightarrow> (dvb_demux \<times> dvb_net_if) option" where
  "set_multi_filters intr k [] (d, n) = Some (d, n)"
| "set_multi_filters intr k (mac # macs) (d, n) =
     (if length (multi_secfilter n) \<le> k then None
      else do {
        (d1, j) \<leftarrow> dvb_net_filter_sec_set (intr (2 + k)) d (secfeed n) mac mask_normal;
        set_multi_filters intr (k + 1) macs (d1, n\<lparr>multi_secfilter := (multi_secfilter n)[k := j]\<rparr>) })"

definition upd_multi_num :: "nat \<Rightarrow> dvb_net_if \<Rightarrow> dvb_net_if" where
  "upd_multi_num k n = n\<lparr>if_priv := (if_priv n)\<lparr>multi_num := k\<rparr>\<rparr>"

definition set_mode_filters :: "(nat \<Rightarrow> bool) \<Rightarrow> dvb_demux \<times> dvb_net_if \<Rightarrow> (dvb_demux \<times> dvb_net_if) option" where
  "set_mode_filters intr = (\<lambda>(d, n).
     (case rx_mode (if_priv n) of
        RX_MODE_UNI \<Rightarrow> Some (d, n)
      | RX_MODE_MULTI \<Rightarrow> set_multi_filters intr 0 (take (multi_num (if_priv n)) (multi_macs (if_priv n))) (d, n)
      | RX_MODE_ALL_MULTI \<Rightarrow> do {
          (d1, j) \<leftarrow> dvb_net_filter_sec_set (intr 2) d (secfeed n) mac_allmulti mask_allmulti;
          Some (d1, (upd_multi_num 1 n)\<lparr>multi_secfilter := (multi_secfilter n)[0 := j]\<rparr>) }
      | RX_MODE_PROMISC \<Rightarrow> do {
          (d1, j) \<leftarrow> dvb_net_filter_sec_set (intr 2) d (secfeed n) (dev_addr (if_net n)) mask_promisc;
          Some (d1, (upd_multi_num 0 n)\<lparr>if_secfilter := j\<rparr>) }))"

definition set_own_filter :: "(nat \<Rightarrow> bool) \<Rightarrow> dvb_demux \<times> dvb_net_if \<Rightarrow> (dvb_demux \<times> dvb_net_if) option" where
  "set_own_filter intr = (\<lambda>(d, n).
     if rx_mode (if_priv n) = RX_MODE_PROMISC then Some (d, n)
     else do {
       (d1, j) \<leftarrow> dvb_net_filter_sec_set (intr 1) d (secfeed n) (dev_addr (if_net n)) mask_normal;
       Some (d1, n\<lparr>if_secfilter := j\<rparr>) })"

text \<open>What was there is overwritten.  The result of the start of the filtering is not looked at.\<close>

definition dvb_net_feed_start ::
    "dmx_driver \<Rightarrow> (nat \<Rightarrow> bool) \<Rightarrow> dvb_demux \<times> dvb_net_if \<Rightarrow> (dvb_demux \<times> dvb_net_if \<times> int) option" where
  "dvb_net_feed_start drv intr = (\<lambda>(d, n0).
     let n = n0\<lparr>secfeed := None, if_secfilter := None, pid_stream := None\<rparr>
     in (case feedtype n of
        FEEDTYPE_MPE \<Rightarrow> do {
          (d1, r) \<leftarrow> dvbdmx_allocate_section_feed (intr 0) d (if_pid n) True (Some (default_feeds d));
          (case r of
             Inl e \<Rightarrow> Some (d1, n, e)
           | Inr i \<Rightarrow> do {
               s2 \<leftarrow> set_own_filter intr (d1, n\<lparr>secfeed := Some i\<rparr>);
               (d3, n3) \<leftarrow> set_mode_filters intr s2;
               (d4, _) \<leftarrow> dmx_section_feed_start_filtering drv (intr 12) d3 i;
               Some (d4, n3, 0) }) }
      | FEEDTYPE_ULE \<Rightarrow> do {
          (d1, r) \<leftarrow> dvbdmx_allocate_neumo_pid_stream (intr 0) d (if_pid n) TS_PACKET DMX_PES_OTHER (Some (default_feeds d));
          (case r of
             Inl e \<Rightarrow> Some (d1, n, e)
           | Inr i \<Rightarrow> do {
               (d2, _) \<leftarrow> demux_ts_feed_start_filtering drv (intr 12) d1 i;
               Some (d2, n\<lparr>pid_stream := Some i\<rparr>, 0) }) }))"

fun release_multi_filters ::
    "dmx_driver \<Rightarrow> nat \<Rightarrow> nat \<Rightarrow> nat \<Rightarrow> dvb_demux \<times> dvb_net_if \<Rightarrow> (dvb_demux \<times> dvb_net_if) option" where
  "release_multi_filters drv i k 0 (d, n) = Some (d, n)"
| "release_multi_filters drv i k (Suc m) (d, n) = do {
     e \<leftarrow> mem_at (multi_secfilter n) k;
     (case e of
        None \<Rightarrow> release_multi_filters drv i (k + 1) m (d, n)
      | Some j \<Rightarrow> do {
          (d1, _) \<leftarrow> dmx_section_feed_release_filter drv d i j;
          release_multi_filters drv i (k + 1) m (d1, n\<lparr>multi_secfilter := (multi_secfilter n)[k := None]\<rparr>) }) }"

definition dvb_net_feed_stop ::
    "dmx_driver \<Rightarrow> dvb_demux \<times> dvb_net_if \<Rightarrow> (dvb_demux \<times> dvb_net_if \<times> int) option" where
  "dvb_net_feed_stop drv = (\<lambda>(d, n).
     (case feedtype n of
        FEEDTYPE_MPE \<Rightarrow>
          (case secfeed n of
             None \<Rightarrow> Some (d, n, 0)
           | Some i \<Rightarrow> do {
               f \<leftarrow> mem_at (feedarray d) i;
               d1 \<leftarrow> (if f_is_filtering f then map_option fst (dmx_section_feed_stop_filtering drv d i) else Some d);
               d2 \<leftarrow> (case if_secfilter n of None \<Rightarrow> Some d1
                        | Some j \<Rightarrow> map_option fst (dmx_section_feed_release_filter drv d1 i j));
               (d3, n3) \<leftarrow> release_multi_filters drv i 0 (multi_num (if_priv n)) (d2, n\<lparr>if_secfilter := None\<rparr>);
               (d4, _) \<leftarrow> dvbdmx_release_section_feed d3 i;
               Some (d4, n3\<lparr>secfeed := None\<rparr>, 0) })
      | FEEDTYPE_ULE \<Rightarrow>
          (case pid_stream n of
             None \<Rightarrow> Some (d, n, 0)
           | Some i \<Rightarrow> do {
               f \<leftarrow> mem_at (feedarray d) i;
               d1 \<leftarrow> (if f_is_filtering f then map_option fst (demux_ts_feed_stop_filtering drv d i) else Some d);
               (d2, _) \<leftarrow> dvbdmx_release_neumo_pid_stream d1 i;
               Some (d2, n\<lparr>pid_stream := None\<rparr>, 0) })))"

subsection \<open>The operations of the interface\<close>

text \<open>An address beyond the last place is not taken.\<close>

definition dvb_set_mc_filter :: "byte list \<Rightarrow> dvb_net_priv \<Rightarrow> dvb_net_priv" where
  "dvb_set_mc_filter addr p =
     (if multi_num p = DVB_NET_MULTICAST_MAX then p
      else p\<lparr>multi_macs := (multi_macs p)[multi_num p := addr], multi_num := multi_num p + 1\<rparr>)"

definition choose_mode :: "dvb_net_if \<Rightarrow> dvb_net_if" where
  "choose_mode n = n\<lparr>if_priv :=
     (if iff_promisc n then (if_priv n)\<lparr>rx_mode := RX_MODE_PROMISC\<rparr>
      else if iff_allmulti n then (if_priv n)\<lparr>rx_mode := RX_MODE_ALL_MULTI\<rparr>
      else if mc_list n \<noteq> [] then fold dvb_set_mc_filter (mc_list n) ((if_priv n)\<lparr>rx_mode := RX_MODE_MULTI, multi_num := 0\<rparr>)
      else (if_priv n)\<lparr>rx_mode := RX_MODE_UNI\<rparr>)\<rparr>"

type_synonym net_state = "dvb_demux \<times> dvb_net_if"

definition stop_then :: "dmx_driver \<Rightarrow> (dvb_net_if \<Rightarrow> dvb_net_if) \<Rightarrow> (nat \<Rightarrow> bool) \<Rightarrow> net_state \<Rightarrow> net_state option" where
  "stop_then drv g intr s = do {
     (d1, n1, _) \<leftarrow> dvb_net_feed_stop drv s;
     (d2, n2, _) \<leftarrow> dvb_net_feed_start drv intr (d1, g n1);
     Some (d2, n2) }"

definition wq_set_multicast_list :: "dmx_driver \<Rightarrow> (nat \<Rightarrow> bool) \<Rightarrow> net_state \<Rightarrow> net_state option" where
  "wq_set_multicast_list drv intr = (\<lambda>(d, n). stop_then drv choose_mode intr (d, n\<lparr>multicast_work := False\<rparr>))"

definition wq_restart_net_feed :: "dmx_driver \<Rightarrow> (nat \<Rightarrow> bool) \<Rightarrow> net_state \<Rightarrow> net_state option" where
  "wq_restart_net_feed drv intr = (\<lambda>(d, n). let n1 = n\<lparr>restart_work := False\<rparr>
     in if running n then stop_then drv (\<lambda>n. n) intr (d, n1) else Some (d, n1))"

definition dvb_net_set_multicast_list :: "net_state \<Rightarrow> net_state" where
  "dvb_net_set_multicast_list = (\<lambda>(d, n). (d, n\<lparr>multicast_work := True\<rparr>))"

definition dvb_net_set_mac :: "byte list \<Rightarrow> net_state \<Rightarrow> net_state" where
  "dvb_net_set_mac addr = (\<lambda>(d, n). (d, n\<lparr>if_net := (if_net n)\<lparr>dev_addr := addr\<rparr>,
     restart_work := running n \<or> restart_work n\<rparr>))"

definition dvb_net_open :: "dmx_driver \<Rightarrow> (nat \<Rightarrow> bool) \<Rightarrow> net_state \<Rightarrow> net_state option" where
  "dvb_net_open drv intr = (\<lambda>(d, n).
     map_option (\<lambda>(d1, n1, _). (d1, n1)) (dvb_net_feed_start drv intr (d, n\<lparr>in_use := in_use n + 1\<rparr>)))"

definition dvb_net_stop :: "dmx_driver \<Rightarrow> net_state \<Rightarrow> net_state option" where
  "dvb_net_stop drv = (\<lambda>(d, n).
     map_option (\<lambda>(d1, n1, _). (d1, n1)) (dvb_net_feed_stop drv (d, n\<lparr>in_use := in_use n - 1\<rparr>)))"

subsection \<open>The table of interfaces\<close>

record dvb_net =
  net_demux :: dvb_demux
  net_devs :: "dvb_net_if option list"
  slot_used :: "bool list"

definition get_if :: "dvb_net \<Rightarrow> (dvb_net \<times> nat) option" where
  "get_if t = map_option (\<lambda>i. (t\<lparr>slot_used := (slot_used t)[i := True]\<rparr>, i))
     (List.find (\<lambda>i. \<not> slot_used t ! i) [0..<DVB_NET_DEVICES_MAX])"

abbreviation (input) ENOMEM :: int where "ENOMEM \<equiv> 12"

definition new_interface :: "byte list \<Rightarrow> nat \<Rightarrow> dvb_net_feedtype \<Rightarrow> dvb_net_if" where
  "new_interface mac pid ft = \<lparr>in_use = 0, if_pid = pid, feedtype = ft, secfeed = None, if_secfilter = None, pid_stream = None,
     multi_secfilter = replicate DVB_NET_MULTICAST_MAX None,
     if_priv = reset_ule \<lparr>multi_num = 0, multi_macs = replicate DVB_NET_MULTICAST_MAX (replicate 6 0), rx_mode = RX_MODE_UNI,
       need_pusi = True, tscc = 0, ule_skb = None, ule_next_hdr = 0, ule_sndu_len = 0, ule_sndu_type = 0,
       ule_sndu_type_1 = False, ule_dbit = 0, ule_bridged = False, ule_sndu_remain = 0, ts_count = 0\<rparr>,
     if_net = \<lparr>dev_addr = mac, rx_packets = 0, rx_bytes = 0, rx_errors = 0, rx_dropped = 0,
       rx_length_errors = 0, rx_crc_errors = 0, rx_frame_errors = 0, received = []\<rparr>,
     running = False, iff_promisc = False, iff_allmulti = False, mc_list = [], multicast_work = False, restart_work = False\<rparr>"

text \<open>\<open>oom\<close>: there is no memory for the device; \<open>reg\<close>: the result of its registration.\<close>

definition dvb_net_add_if :: "bool \<Rightarrow> int \<Rightarrow> byte list \<Rightarrow> nat \<Rightarrow> dvb_net_feedtype option \<Rightarrow> dvb_net \<Rightarrow> dvb_net \<times> int" where
  "dvb_net_add_if oom reg mac pid ft t =
     (case ft of None \<Rightarrow> (t, - EINVAL)
      | Some ft \<Rightarrow>
          (case get_if t of
             None \<Rightarrow> (t, - EINVAL)
           | Some (t1, i) \<Rightarrow>
               if oom then (t1, - ENOMEM)
               else if reg < 0 then (t1\<lparr>net_devs := (net_devs t1)[i := None]\<rparr>, reg)
               else (t1\<lparr>net_devs := (net_devs t1)[i := Some (new_interface mac pid ft)]\<rparr>, int i)))"

text \<open>The work that is still queued is done before the device goes.\<close>

definition flush_works :: "dmx_driver \<Rightarrow> (nat \<Rightarrow> bool) \<Rightarrow> net_state \<Rightarrow> net_state option" where
  "flush_works drv intr s = do {
     s1 \<leftarrow> (if multicast_work (snd s) then wq_set_multicast_list drv intr s else Some s);
     (if restart_work (snd s1) then wq_restart_net_feed drv intr s1 else Some s1) }"

definition dvb_net_remove_if :: "dmx_driver \<Rightarrow> (nat \<Rightarrow> bool) \<Rightarrow> nat \<Rightarrow> dvb_net \<Rightarrow> (dvb_net \<times> int) option" where
  "dvb_net_remove_if drv intr i t = do {
     used \<leftarrow> mem_at (slot_used t) i;
     e \<leftarrow> mem_at (net_devs t) i;
     (if \<not> used then Some (t, - EINVAL)
      else do {
        n \<leftarrow> e;
        (if in_use n \<noteq> 0 then Some (t, - EBUSY)
         else do {
           s1 \<leftarrow> dvb_net_stop drv (net_demux t, n);
           (d2, _) \<leftarrow> flush_works drv intr s1;
           Some (t\<lparr>net_demux := d2, slot_used := (slot_used t)[i := False], net_devs := (net_devs t)[i := None]\<rparr>, 0) }) }) }"

subsection \<open>The ioctls\<close>

abbreviation (input) EPERM :: int where "EPERM \<equiv> 1"
abbreviation (input) ENOTTY :: int where "ENOTTY \<equiv> 25"

datatype net_cmd =
    NET_ADD_IF nat "dvb_net_feedtype option"
  | NET_GET_IF nat
  | NET_REMOVE_IF nat
  | NET_ADD_IF_OLD nat
  | NET_GET_IF_OLD nat
  | NET_OTHER

text \<open>What the kernel says of the caller: read only, without rights, no reference to the module.\<close>

record net_caller =
  read_only :: bool
  admin :: bool
  module_ok :: bool
  interrupted :: bool
  no_memory :: bool
  registered :: int
  adapter_mac :: "byte list"

datatype net_reply = Err int | Added nat | Is_if nat "dvb_net_feedtype option" | Removed

definition ioctl_add :: "net_caller \<Rightarrow> nat \<Rightarrow> dvb_net_feedtype option \<Rightarrow> dvb_net \<Rightarrow> dvb_net \<times> net_reply" where
  "ioctl_add c pid ft t =
     (if \<not> admin c \<or> \<not> module_ok c then (t, Err (- EPERM))
      else (case dvb_net_add_if (no_memory c) (registered c) (adapter_mac c) pid ft t of
          (t1, r) \<Rightarrow> (t1, if r < 0 then Err r else Added (nat r))))"

definition ioctl_get :: "nat \<Rightarrow> dvb_net \<Rightarrow> (dvb_net_if + int) option" where
  "ioctl_get i t =
     (if i \<ge> DVB_NET_DEVICES_MAX then Some (Inr (- EINVAL))
      else do {
        used \<leftarrow> mem_at (slot_used t) i;
        (if \<not> used then Some (Inr (- EINVAL))
         else do { e \<leftarrow> mem_at (net_devs t) i; map_option Inl e }) })"

definition dvb_net_do_ioctl :: "dmx_driver \<Rightarrow> (nat \<Rightarrow> bool) \<Rightarrow> net_caller \<Rightarrow> net_cmd \<Rightarrow> dvb_net \<Rightarrow> (dvb_net \<times> net_reply) option" where
  "dvb_net_do_ioctl drv intr c cmd t =
     (if read_only c then Some (t, Err (- EPERM))
      else if interrupted c then Some (t, Err (- ERESTARTSYS))
      else (case cmd of
          NET_ADD_IF pid ft \<Rightarrow> Some (ioctl_add c pid ft t)
        | NET_ADD_IF_OLD pid \<Rightarrow> Some (ioctl_add c pid (Some FEEDTYPE_MPE) t)
        | NET_GET_IF i \<Rightarrow> map_option (\<lambda>r. (t, case r of Inl n \<Rightarrow> Is_if (if_pid n) (Some (feedtype n)) | Inr e \<Rightarrow> Err e)) (ioctl_get i t)
        | NET_GET_IF_OLD i \<Rightarrow> map_option (\<lambda>r. (t, case r of Inl n \<Rightarrow> Is_if (if_pid n) None | Inr e \<Rightarrow> Err e)) (ioctl_get i t)
        | NET_REMOVE_IF i \<Rightarrow>
            if \<not> admin c then Some (t, Err (- EPERM))
            else if i \<ge> DVB_NET_DEVICES_MAX then Some (t, Err (- EINVAL))
            else map_option (\<lambda>(t1, r). (t1, if r = 0 then Removed else Err r)) (dvb_net_remove_if drv intr i t)
        | NET_OTHER \<Rightarrow> Some (t, Err (- ENOTTY))))"

definition dvb_net_init :: "dvb_demux \<Rightarrow> dvb_net" where
  "dvb_net_init d = \<lparr>net_demux = d, net_devs = replicate DVB_NET_DEVICES_MAX None, slot_used = replicate DVB_NET_DEVICES_MAX False\<rparr>"

text \<open>Release, when nobody uses the device any more.\<close>

fun remove_all :: "dmx_driver \<Rightarrow> (nat \<Rightarrow> bool) \<Rightarrow> nat list \<Rightarrow> dvb_net \<Rightarrow> dvb_net option" where
  "remove_all drv intr [] t = Some t"
| "remove_all drv intr (i # is) t = do {
     used \<leftarrow> mem_at (slot_used t) i;
     t1 \<leftarrow> (if used then map_option fst (dvb_net_remove_if drv intr i t) else Some t);
     remove_all drv intr is t1 }"

definition dvb_net_release :: "dmx_driver \<Rightarrow> (nat \<Rightarrow> bool) \<Rightarrow> dvb_net \<Rightarrow> dvb_net option" where
  "dvb_net_release drv intr t = remove_all drv intr [0..<DVB_NET_DEVICES_MAX] t"

end
