(* ===== verification/NetFeeds.thy ===== *)
theory NetFeeds imports NetControl begin

text \<open>
  What the calls of the network interface do to the demux: \<open>owns\<close> says which section filters a feed
  has, \<open>net_ok\<close> ties the interface to its feed, and start and stop of the feed keep it.
\<close>


subsection \<open>A feed and its filters\<close>

definition filter_ids :: "dvb_demux \<Rightarrow> nat \<Rightarrow> nat list" where
  "filter_ids d i = map sfl_index (f_filters (feedarray d ! i))"

text \<open>The feed \<open>i\<close> was handed out and has exactly the filters \<open>js\<close>, whose slots are its own.\<close>

definition owns :: "dvb_demux \<Rightarrow> nat \<Rightarrow> nat list \<Rightarrow> bool" where
  "owns d i js \<longleftrightarrow> listed d i \<and> mset (filter_ids d i) = mset js \<and> distinct js \<and>
     (\<forall>j \<in> set js. j < length (filter_slots d) \<and> sl_state (filter_slots d ! j) \<noteq> DMX_STATE_FREE \<and>
        sl_feed (filter_slots d ! j) = Some i)"

lemma owns_listed: "owns d i js \<Longrightarrow> listed d i"
  by (simp add: owns_def)

lemma owns_set: "owns d i js \<Longrightarrow> sfl_index ` set (f_filters (feedarray d ! i)) = set js"
proof -
  assume "owns d i js"
  then have "set (filter_ids d i) = set js" by (auto simp: owns_def dest: mset_eq_setD)
  then show ?thesis by (simp add: filter_ids_def)
qed

lemma owns_cong:
  assumes "owns d i js" "listed d' i" "filter_ids d' i = filter_ids d i" "filter_slots d' = filter_slots d"
  shows "owns d' i js"
  using assms by (simp add: owns_def)

lemma owns_mutex [simp]: "owns (d\<lparr>mutex := m\<rparr>) i js = owns d i js"
  by (simp add: owns_def filter_ids_def)

lemma listed_upd_feed:
  "f_parent (g (feedarray d ! i)) = f_parent (feedarray d ! i) \<Longrightarrow> listed d i \<Longrightarrow> listed (upd_feed i g d) i"
  by (auto simp: listed_def upd_feed_nth split: option.splits)

lemma owns_upd_feed:
  assumes "owns d i js" "f_parent (g (feedarray d ! i)) = f_parent (feedarray d ! i)"
    "map sfl_index (f_filters (g (feedarray d ! i))) = map sfl_index (f_filters (feedarray d ! i))"
  shows "owns (upd_feed i g d) i js"
proof (rule owns_cong [OF assms(1)])
  have "i < length (feedarray d)" using owns_listed [OF assms(1)] by (simp add: listed_def)
  then show "filter_ids (upd_feed i g d) i = filter_ids d i" using assms(3) by (simp add: filter_ids_def upd_feed_nth)
qed (use listed_upd_feed assms(2) owns_listed [OF assms(1)] in auto)

lemma default_upd_feed [simp]: "default_feeds (upd_feed i g d) = default_feeds d" "default_feeds (upd_slot j h d) = default_feeds d"
  by (simp_all add: upd_feed_def upd_slot_def)

subsection \<open>The calls of the interface\<close>

text \<open>What a call gives: a consistent demux of which the feed has these filters.\<close>

definition gives :: "(nat \<Rightarrow> nat) \<Rightarrow> dvb_demux \<Rightarrow> nat \<Rightarrow> nat list \<Rightarrow> dvb_demux \<Rightarrow> bool" where
  "gives base d i js d' \<longleftrightarrow> feeds_consistent base d' \<and> owns d' i js \<and> default_feeds d' = default_feeds d"

lemma set_filter_gives:
  assumes "feeds_consistent base d" "owns d i js" "\<And>sf. sfl_index (g sf) = sfl_index sf"
  shows "gives base d i js (set_filter i j g d)"
proof -
  let ?g = "\<lambda>f. f\<lparr>f_filters := map (\<lambda>sf. if sfl_index sf = j then g sf else sf) (f_filters f)\<rparr>"
  have ids: "map sfl_index (f_filters (?g f)) = map sfl_index (f_filters f)" for f using assms(3) by (simp add: comp_def)
  have "feeds_inv base (upd_feed i ?g d)" by (rule upd_feed_keeps) (use assms(1,3) in \<open>simp_all add: feeds_consistent_def\<close>)
  moreover have "owns (upd_feed i ?g d) i js" by (rule owns_upd_feed [OF assms(2)]) (use assms(3) in simp_all)
  ultimately show ?thesis using assms(1) by (simp add: gives_def set_filter_def feeds_consistent_def)
qed

lemma start_section_gives:
  assumes "feeds_consistent base d" "owns d i js"
  shows "case dmx_section_feed_start_filtering drv intr d i of None \<Rightarrow> False | Some (d', _) \<Rightarrow> gives base d i js d'"
proof -
  have k: "keeps base (dmx_section_feed_start_filtering drv intr d i)"
    by (rule start_section_keeps [OF assms(1) owns_listed [OF assms(2)]])
  have nm: "\<not> mutex d" using assms(1) by (simp add: feeds_consistent_def)
  have g: "owns (upd_feed i g d1) i js" if "owns d1 i js" "\<And>f. f_parent (g f) = f_parent f"
    "\<And>f. map sfl_index (f_filters (g f)) = map sfl_index (f_filters f)" for g d1
    using owns_upd_feed [OF that(1), of g] that(2,3) by simp
  have o: "owns (d\<lparr>mutex := True\<rparr>) i js" using assms(2) by simp
  have "case dmx_section_feed_start_filtering drv intr d i of None \<Rightarrow> True | Some (d', _) \<Rightarrow>
      owns d' i js \<and> default_feeds d' = default_feeds d"
    using nm listed_mem [of d i] owns_listed [OF assms(2)] assms(2)
    by (auto simp: dmx_section_feed_start_filtering_def interruptible_def locked_def mutex_lock_def mutex_unlock_def Let_def
      intro!: g split: option.splits)
  then show ?thesis using k by (auto simp: keeps_def gives_def split: option.splits)
qed

lemma stop_section_gives:
  assumes "feeds_consistent base d" "owns d i js"
  shows "case dmx_section_feed_stop_filtering drv d i of None \<Rightarrow> False | Some (d', _) \<Rightarrow> gives base d i js d'"
proof -
  have k: "keeps base (dmx_section_feed_stop_filtering drv d i)"
    by (rule stop_section_keeps [OF assms(1) owns_listed [OF assms(2)]])
  have nm: "\<not> mutex d" using assms(1) by (simp add: feeds_consistent_def)
  have "owns (upd_feed i (\<lambda>f. f\<lparr>f_state := DMX_STATE_READY, f_is_filtering := False\<rparr>) (d\<lparr>mutex := True\<rparr>)) i js"
    by (rule owns_upd_feed) (use assms(2) in simp_all)
  then have "case dmx_section_feed_stop_filtering drv d i of None \<Rightarrow> True | Some (d', _) \<Rightarrow>
      owns d' i js \<and> default_feeds d' = default_feeds d"
    using nm listed_mem [of d i] owns_listed [OF assms(2)] assms(2)
    by (auto simp: dmx_section_feed_stop_filtering_def locked_def mutex_lock_def mutex_unlock_def split: option.splits)
  then show ?thesis using k by (auto simp: keeps_def gives_def split: option.splits)
qed

lemma alloc_filter_gives:
  assumes "feeds_consistent base d" "owns d i js"
  shows "case dmx_section_feed_allocate_filter intr d i of None \<Rightarrow> False
    | Some (d', Inl e) \<Rightarrow> gives base d i js d' | Some (d', Inr j) \<Rightarrow> gives base d i (j # js) d'"
proof -
  have k: "keeps base (dmx_section_feed_allocate_filter intr d i)"
    by (rule alloc_filter_keeps [OF assms(1) owns_listed [OF assms(2)]])
  have nm: "\<not> mutex d" using assms(1) by (simp add: feeds_consistent_def)
  have i: "i < length (feedarray d)" using owns_listed [OF assms(2)] by (simp add: listed_def)
  show ?thesis
  proof (cases "intr \<or> dvb_dmx_section_filter_alloc (d\<lparr>mutex := True\<rparr>) = None")
    case True
    then show ?thesis using k nm assms(2)
      by (auto simp: dmx_section_feed_allocate_filter_def interruptible_def locked_def mutex_lock_def mutex_unlock_def gives_def)
  next
    case False
    then obtain d1 j where a: "\<not> intr" "dvb_dmx_section_filter_alloc (d\<lparr>mutex := True\<rparr>) = Some (d1, j)" by auto
    then have j: "j < length (filter_slots d)" "sl_state (filter_slots d ! j) = DMX_STATE_FREE"
      "d1 = upd_slot j (\<lambda>s. s\<lparr>sl_state := DMX_STATE_ALLOCATED\<rparr>) (d\<lparr>mutex := True\<rparr>)"
      by (auto simp: dvb_dmx_section_filter_alloc_def upd_slot_def dest!: first_free_Some)
    have nj: "j \<notin> set js" using assms(2) j(2) by (auto simp: owns_def)
    define d2 where "d2 = upd_slot j (\<lambda>s. s\<lparr>sl_feed := Some i, sl_state := DMX_STATE_READY\<rparr>) d1"
    define sf where "sf = (sl_filter (filter_slots d2 ! j))\<lparr>sfl_index := j\<rparr>"
    define d3 where "d3 = upd_feed i (\<lambda>f. f\<lparr>f_filters := sf # f_filters f\<rparr>) d2"
    have r: "dmx_section_feed_allocate_filter intr d i = Some (mutex_unlock d3, Inr j)"
      using a nm by (simp add: dmx_section_feed_allocate_filter_def interruptible_def locked_def mutex_lock_def Let_def d3_def d2_def sf_def)
    have fa: "feedarray d2 = feedarray d" "heap_feeds d2 = heap_feeds d" "length (filter_slots d2) = length (filter_slots d)"
      "default_feeds d2 = default_feeds d"
      by (simp_all add: d2_def j(3) upd_slot_def)
    have sl: "filter_slots d2 ! x = (if x = j then (filter_slots d ! j)\<lparr>sl_state := DMX_STATE_READY, sl_feed := Some i\<rparr> else filter_slots d ! x)"
      if "x < length (filter_slots d)" for x using that by (simp add: d2_def j(3) upd_slot_def nth_list_update)
    have "listed d2 i" using owns_listed [OF assms(2)] fa by (simp add: listed_def)
    then have "listed d3 i" unfolding d3_def by (rule listed_upd_feed [rotated]) simp
    moreover have "filter_ids d3 i = j # filter_ids d i"
      using i fa by (simp add: d3_def filter_ids_def upd_feed_nth sf_def)
    ultimately have "owns d3 i (j # js)" using assms(2) nj j(1)
      by (auto simp: owns_def d3_def fa sl)
    then have "owns (mutex_unlock d3) i (j # js)" by (simp add: mutex_unlock_def)
    moreover have "default_feeds (mutex_unlock d3) = default_feeds d" by (simp add: mutex_unlock_def d3_def fa)
    ultimately show ?thesis using k by (simp add: r gives_def)
  qed
qed

lemma unlink_mset: "unlink_filter j sfs = Some (sf, rest) \<Longrightarrow>
   mset (map sfl_index sfs) = add_mset j (mset (map sfl_index rest)) \<and> sfl_index sf = j"
  by (induction sfs arbitrary: rest) (auto split: if_splits)

lemma release_filter_gives:
  assumes "feeds_consistent base d" "owns d i js" "j \<in> set js"
  shows "case dmx_section_feed_release_filter drv d i j of None \<Rightarrow> False | Some (d', _) \<Rightarrow> gives base d i (remove1 j js) d'"
proof -
  have k: "keeps base (dmx_section_feed_release_filter drv d i j)"
    by (rule release_filter_keeps [OF assms(1) owns_listed [OF assms(2)]]) (use owns_set [OF assms(2)] assms(3) in simp)
  have nm: "\<not> mutex d" using assms(1) by (simp add: feeds_consistent_def)
  have j: "j < length (filter_slots d)" "sl_feed (filter_slots d ! j) = Some i" using assms(2,3) by (auto simp: owns_def)
  have i: "i < length (feedarray d)" using owns_listed [OF assms(2)] by (simp add: listed_def)
  define stopped where "stopped = (if f_is_filtering (feedarray d ! i)
    then Option.bind (dmx_section_feed_stop_filtering drv d i) (\<lambda>(d2, _). mutex_lock d2) else Some (d\<lparr>mutex := True\<rparr>))"
  obtain d2 where d2: "stopped = Some d2" "owns d2 i js" "default_feeds d2 = default_feeds d"
  proof (cases "f_is_filtering (feedarray d ! i)")
    case True
    from stop_section_gives [OF assms(1,2), of drv] obtain e r where
      e: "dmx_section_feed_stop_filtering drv d i = Some (e, r)" "gives base d i js e" by (auto split: option.splits)
    then show ?thesis using True by (auto intro!: that simp: stopped_def mutex_lock_def gives_def feeds_consistent_def)
  next
    case False
    then show ?thesis using assms(2) by (auto intro!: that simp: stopped_def)
  qed
  have "j \<in> sfl_index ` set (f_filters (feedarray d2 ! i))" using owns_set [OF d2(2)] assms(3) by simp
  then obtain sf rest where u: "unlink_filter j (f_filters (feedarray d2 ! i)) = Some (sf, rest)"
    using unlink_filter_found by blast
  define d4 where "d4 = upd_slot j (\<lambda>s. s\<lparr>sl_state := DMX_STATE_FREE, sl_filter := sf\<rparr>) (upd_feed i (\<lambda>f. f\<lparr>f_filters := rest\<rparr>) d2)"
  have un: "mutex_unlock (d\<lparr>mutex := True\<rparr>) = d" using nm by (simp add: mutex_unlock_def)
  have r: "dmx_section_feed_release_filter drv d i j = Some (mutex_unlock d4, 0)"
    using nm j i d2(1) u un
    by (cases "f_is_filtering (feedarray d ! i)")
      (auto simp: dmx_section_feed_release_filter_def mutex_lock_def mem_at_def stopped_def d4_def Let_def
        split: bind_splits if_splits)
  have i2: "i < length (feedarray d2)" using owns_listed [OF d2(2)] by (simp add: listed_def)
  have l4: "listed d4 i"
  proof -
    have "listed (upd_feed i (\<lambda>f. f\<lparr>f_filters := rest\<rparr>) d2) i" by (rule listed_upd_feed) (use owns_listed [OF d2(2)] in simp_all)
    then show ?thesis by (simp add: listed_def d4_def upd_slot_def)
  qed
  have "mset (filter_ids d2 i) = add_mset j (mset (map sfl_index rest))" using unlink_mset [OF u] by (simp add: filter_ids_def)
  moreover have "filter_ids d4 i = map sfl_index rest" using i2 by (simp add: filter_ids_def d4_def upd_slot_def upd_feed_def)
  moreover have "mset (filter_ids d2 i) = mset js" "distinct js" using d2(2) by (simp_all add: owns_def)
  ultimately have "mset (filter_ids d4 i) = mset (remove1 j js)" by (metis add_mset_remove_trivial mset_remove1)
  moreover have "\<forall>x \<in> set (remove1 j js). x < length (filter_slots d4) \<and> sl_state (filter_slots d4 ! x) \<noteq> DMX_STATE_FREE \<and>
        sl_feed (filter_slots d4 ! x) = Some i"
    using d2(2) by (auto simp: owns_def d4_def upd_slot_def)
  ultimately have "owns d4 i (remove1 j js)" using l4 d2(2) by (simp add: owns_def)
  moreover have "default_feeds d4 = default_feeds d" by (simp add: d4_def d2(3))
  ultimately show ?thesis using k by (simp add: r gives_def mutex_unlock_def)
qed

lemma alloc_section_gives:
  assumes "feeds_consistent base d" "0 < base p"
  shows "case dvbdmx_allocate_section_feed intr d pid crc (Some p) of None \<Rightarrow> False
    | Some (d', Inl e) \<Rightarrow> feeds_consistent base d' \<and> default_feeds d' = default_feeds d
    | Some (d', Inr i) \<Rightarrow> gives base d i [] d'"
proof -
  have k: "keeps base (dvbdmx_allocate_section_feed intr d pid crc (Some p))" by (rule alloc_section_keeps [OF assms])
  have nm: "\<not> mutex d" using assms(1) by (simp add: feeds_consistent_def)
  show ?thesis
  proof (cases "pid > 0x1fff \<or> intr \<or> dvb_dmx_feed_alloc (d\<lparr>mutex := True\<rparr>) = None")
    case True
    then show ?thesis using assms(1) nm
      by (auto simp: dvbdmx_allocate_section_feed_def interruptible_def locked_def mutex_lock_def mutex_unlock_def feeds_consistent_def)
  next
    case False
    then obtain d1 i where a: "dvb_dmx_feed_alloc (d\<lparr>mutex := True\<rparr>) = Some (d1, i)" by auto
    then have d1: "i < length (feedarray d1)" "default_feeds d1 = default_feeds d" "heap_feeds d1 = heap_feeds d"
      by (auto simp: dvb_dmx_feed_alloc_def dest!: first_free_Some)
    define g where "g = (\<lambda>f :: feed. f\<lparr>f_type := DMX_TYPE_SEC, f_pid := 0xffff, f_flags := [], f_secbuf := 0,
      f_secbufp := 0, f_seclen := 0, f_tsfeedp := 0, f_filters := [], f_parent := p, f_is_filtering := False\<rparr>)"
    define d2 where "d2 = upd_feed i g d1"
    have fi: "feedarray d2 ! i = g (feedarray d1 ! i)" "i < length (feedarray d2)" using d1(1) by (simp_all add: d2_def upd_feed_nth)
    obtain d3 where d3: "dvb_demux_output_feed_add d2 i = Some d3"
      using k False a nm
      by (cases "dvb_demux_output_feed_add d2 i")
        (auto simp: keeps_def dvbdmx_allocate_section_feed_def interruptible_def locked_def mutex_lock_def Let_def d2_def g_def)
    have l3: "listed d3 i" "feedarray d3 = feedarray d2" "default_feeds d3 = default_feeds d2"
      using d3 fi
      by (auto simp: dvb_demux_output_feed_add_def dvb_demux_output_feed_find_def feeds_get_def upd_feeds_def listed_def mem_at_def
        split: if_splits bind_splits)
    define d4 where "d4 = mutex_unlock (upd_feed i (\<lambda>f. f\<lparr>f_pid := pid, f_check_crc := crc, f_state := DMX_STATE_READY\<rparr>) d3)"
    have r: "dvbdmx_allocate_section_feed intr d pid crc (Some p) = Some (d4, Inr i)"
      using False a nm d3
      by (simp add: dvbdmx_allocate_section_feed_def interruptible_def locked_def mutex_lock_def Let_def d2_def g_def d4_def)
    have "filter_ids d3 i = []" using fi by (simp add: filter_ids_def l3(2) g_def)
    then have "owns d3 i []" using l3(1) by (simp add: owns_def)
    then have "owns (upd_feed i (\<lambda>f. f\<lparr>f_pid := pid, f_check_crc := crc, f_state := DMX_STATE_READY\<rparr>) d3) i []"
      by (rule owns_upd_feed) simp_all
    then have "owns d4 i []" by (simp add: d4_def mutex_unlock_def)
    moreover have "default_feeds d4 = default_feeds d" by (simp add: d4_def mutex_unlock_def l3(3) d2_def d1(2))
    ultimately show ?thesis using k by (simp add: r gives_def)
  qed
qed

lemma release_section_gives:
  assumes "feeds_consistent base d" "listed d i"
  shows "case dvbdmx_release_section_feed d i of None \<Rightarrow> False
    | Some (d', r) \<Rightarrow> feeds_consistent base d' \<and> default_feeds d' = default_feeds d"
proof -
  from release_section_spec [OF assms] obtain d' where d': "dvbdmx_release_section_feed d i = Some (d', 0)" "feeds_consistent base d'"
    by blast
  then have "default_feeds d' = default_feeds d"
    by (auto simp: dvbdmx_release_section_feed_def locked_def mutex_lock_def mutex_unlock_def dvb_demux_output_feed_del_def
      feeds_put_def upd_feeds_def dvb_demux_feeds_release_cb_def Let_def split: if_splits bind_splits option.splits)
  then show ?thesis using d' by simp
qed

subsection \<open>Feeds of transport packets\<close>

lemma alloc_pid_gives:
  assumes "feeds_consistent base d" "0 < base p"
  shows "case dvbdmx_allocate_neumo_pid_stream intr d pid TS_PACKET t (Some p) of None \<Rightarrow> False
    | Some (d', r) \<Rightarrow> feeds_consistent base d' \<and> default_feeds d' = default_feeds d \<and>
        (case r of Inl _ \<Rightarrow> True | Inr i \<Rightarrow> listed d' i)"
proof -
  have k: "keeps base (dvbdmx_allocate_neumo_pid_stream intr d pid TS_PACKET t (Some p))" by (rule alloc_pid_keeps [OF assms])
  have nm: "\<not> mutex d" using assms(1) by (simp add: feeds_consistent_def)
  show ?thesis
  proof (cases "pid > 0x2000 \<or> intr \<or> dvb_dmx_feed_alloc (d\<lparr>mutex := True\<rparr>) = None")
    case True
    then show ?thesis using assms(1) nm
      by (auto simp: dvbdmx_allocate_neumo_pid_stream_def interruptible_def locked_def mutex_lock_def mutex_unlock_def feeds_consistent_def)
  next
    case False
    then obtain d1 i where a: "dvb_dmx_feed_alloc (d\<lparr>mutex := True\<rparr>) = Some (d1, i)" by auto
    then have d1: "i < length (feedarray d1)" "default_feeds d1 = default_feeds d"
      by (auto simp: dvb_dmx_feed_alloc_def dest!: first_free_Some)
    define g where "g = (\<lambda>f :: feed. f\<lparr>f_type := DMX_TYPE_TS, f_pid := 0xffff, f_peslen := 0xfffa, f_flags := [],
      f_parent := p, f_is_filtering := False\<rparr>)"
    define d2 where "d2 = upd_feed i g d1"
    have fi: "i < length (feedarray d2)" using d1(1) by (simp add: d2_def)
    have c: "claim_pes i TS_PACKET t pid d2 = Some d2" by (simp add: claim_pes_def)
    obtain d3 where d3: "dvb_demux_output_feed_add d2 i = Some d3"
      using k False a nm c
      by (cases "dvb_demux_output_feed_add d2 i")
        (auto simp: keeps_def dvbdmx_allocate_neumo_pid_stream_def interruptible_def locked_def mutex_lock_def Let_def d2_def g_def)
    have l3: "listed d3 i" "default_feeds d3 = default_feeds d2"
      using d3 fi
      by (auto simp: dvb_demux_output_feed_add_def dvb_demux_output_feed_find_def feeds_get_def upd_feeds_def listed_def mem_at_def
        split: if_splits bind_splits)
    let ?h = "\<lambda>f. f\<lparr>f_pid := pid, f_ts_type := TS_PACKET, f_pes_type := t, f_state := DMX_STATE_READY\<rparr>"
    have r: "dvbdmx_allocate_neumo_pid_stream intr d pid TS_PACKET t (Some p) = Some (mutex_unlock (upd_feed i ?h d3), Inr i)"
      using False a nm d3 c
      by (simp add: dvbdmx_allocate_neumo_pid_stream_def interruptible_def locked_def mutex_lock_def Let_def d2_def g_def)
    have "listed (upd_feed i ?h d3) i" by (rule listed_upd_feed) (use l3(1) in simp_all)
    then show ?thesis using k by (simp add: r mutex_unlock_def l3(2) d2_def d1(2))
  qed
qed

lemma start_pid_gives:
  assumes "feeds_consistent base d" "listed d i"
  shows "case demux_ts_feed_start_filtering drv intr d i of None \<Rightarrow> False
    | Some (d', _) \<Rightarrow> feeds_consistent base d' \<and> default_feeds d' = default_feeds d \<and> listed d' i"
proof -
  have k: "keeps base (demux_ts_feed_start_filtering drv intr d i)" by (rule start_pid_keeps [OF assms])
  have nm: "\<not> mutex d" using assms(1) by (simp add: feeds_consistent_def)
  have "case demux_ts_feed_start_filtering drv intr d i of None \<Rightarrow> True
    | Some (d', _) \<Rightarrow> default_feeds d' = default_feeds d \<and> listed d' i"
    using nm assms(2)
    by (auto simp: demux_ts_feed_start_filtering_def interruptible_def locked_def mutex_lock_def mutex_unlock_def Let_def
      upd_feeds_def mem_at_def listed_def upd_feed_nth upd_feed_def split: option.splits if_splits bind_splits)
  then show ?thesis using k by (auto simp: keeps_def split: option.splits)
qed

lemma stop_pid_gives:
  assumes "feeds_consistent base d" "listed d i"
  shows "case demux_ts_feed_stop_filtering drv d i of None \<Rightarrow> False
    | Some (d', _) \<Rightarrow> feeds_consistent base d' \<and> default_feeds d' = default_feeds d \<and> listed d' i"
proof -
  have k: "keeps base (demux_ts_feed_stop_filtering drv d i)" by (rule stop_pid_keeps [OF assms])
  have nm: "\<not> mutex d" using assms(1) by (simp add: feeds_consistent_def)
  have "case demux_ts_feed_stop_filtering drv d i of None \<Rightarrow> True
    | Some (d', _) \<Rightarrow> default_feeds d' = default_feeds d \<and> listed d' i"
    using nm assms(2)
    by (auto simp: demux_ts_feed_stop_filtering_def locked_def mutex_lock_def mutex_unlock_def Let_def
      mem_at_def listed_def upd_feed_nth upd_feed_def split: option.splits if_splits bind_splits)
  then show ?thesis using k by (auto simp: keeps_def split: option.splits)
qed

lemma release_pid_gives:
  assumes "feeds_consistent base d" "listed d i"
  shows "case dvbdmx_release_neumo_pid_stream d i of None \<Rightarrow> False
    | Some (d', r) \<Rightarrow> feeds_consistent base d' \<and> default_feeds d' = default_feeds d"
proof -
  from release_pid_spec [OF assms] obtain d' where d': "dvbdmx_release_neumo_pid_stream d i = Some (d', 0)" "feeds_consistent base d'"
    by blast
  have del: "dvb_demux_output_feed_del e i = Some e' \<Longrightarrow> default_feeds e' = default_feeds e" for e e'
    by (auto simp: dvb_demux_output_feed_del_def feeds_put_def upd_feeds_def dvb_demux_feeds_release_cb_def Let_def
      split: if_splits bind_splits)
  have "default_feeds d' = default_feeds d" using d'(1)
    by (auto simp: dvbdmx_release_neumo_pid_stream_def locked_def mutex_lock_def mutex_unlock_def Let_def
      split: if_splits bind_splits option.splits list.splits dest!: del)
  then show ?thesis using d' by simp
qed

subsection \<open>The interface and its feed\<close>

fun somes :: "'a option list \<Rightarrow> 'a list" where
  "somes [] = []"
| "somes (None # es) = somes es"
| "somes (Some x # es) = x # somes es"

lemma somes_none: "(\<forall>e \<in> set es. e = None) \<Longrightarrow> somes es = []"
proof (induction es)
  case (Cons e es)
  then show ?case by (cases e) simp_all
qed simp

lemma somes_set_Some: "k < length es \<Longrightarrow> es ! k = None \<Longrightarrow> mset (somes (es[k := Some j])) = add_mset j (mset (somes es))"
proof (induction es arbitrary: k)
  case (Cons e es)
  then show ?case by (cases e; cases k) simp_all
qed simp

lemma somes_set_None: "k < length es \<Longrightarrow> es ! k = Some j \<Longrightarrow> mset (somes es) = add_mset j (mset (somes (es[k := None])))"
proof (induction es arbitrary: k)
  case (Cons e es)
  then show ?case by (cases e; cases k) simp_all
qed simp

definition held_filters :: "dvb_net_if \<Rightarrow> nat list" where
  "held_filters n = somes (if_secfilter n # multi_secfilter n)"

lemma owns_mset: "mset js = mset js' \<Longrightarrow> owns d i js = owns d i js'"
proof -
  assume m: "mset js = mset js'"
  then have "set js = set js'" "distinct js = distinct js'" by (rule mset_eq_setD, rule mset_eq_imp_distinct_iff)
  then show ?thesis unfolding owns_def m by simp
qed

lemma gives_mset: "mset js = mset js' \<Longrightarrow> gives base d i js e = gives base d i js' e"
  unfolding gives_def using owns_mset [of js js' e i] by blast

text \<open>No place beyond \<open>multi_num\<close> has a filter.\<close>

definition multi_free :: "nat \<Rightarrow> dvb_net_if \<Rightarrow> bool" where
  "multi_free k n \<longleftrightarrow> length (multi_secfilter n) = DVB_NET_MULTICAST_MAX \<and>
     (\<forall>x. k \<le> x \<and> x < DVB_NET_MULTICAST_MAX \<longrightarrow> multi_secfilter n ! x = None)"

definition mode_ok :: "dvb_net_if \<Rightarrow> bool" where
  "mode_ok n \<longleftrightarrow> multi_num (if_priv n) \<le> DVB_NET_MULTICAST_MAX \<and> length (multi_macs (if_priv n)) = DVB_NET_MULTICAST_MAX"

definition feed_ok :: "dvb_demux \<Rightarrow> dvb_net_if \<Rightarrow> bool" where
  "feed_ok d n \<longleftrightarrow>
     (case secfeed n of None \<Rightarrow> held_filters n = []
      | Some i \<Rightarrow> feedtype n = FEEDTYPE_MPE \<and> owns d i (held_filters n)) \<and>
     (case pid_stream n of None \<Rightarrow> True | Some i \<Rightarrow> feedtype n = FEEDTYPE_ULE \<and> listed d i)"

text \<open>
  The interface has one feed of the demux at most, and exactly the section filters of that feed.
\<close>

definition net_ok :: "(nat \<Rightarrow> nat) \<Rightarrow> net_state \<Rightarrow> bool" where
  "net_ok base = (\<lambda>(d, n). feeds_consistent base d \<and> 0 < base (default_feeds d) \<and> mode_ok n \<and>
     multi_free (multi_num (if_priv n)) n \<and> feed_ok d n)"

definition net_closed :: "net_state \<Rightarrow> bool" where
  "net_closed s \<longleftrightarrow> secfeed (snd s) = None \<and> pid_stream (snd s) = None"

lemma held_nil_multi: "held_filters n = [] \<longleftrightarrow> if_secfilter n = None \<and> (\<forall>e \<in> set (multi_secfilter n). e = None)"
proof -
  have "somes es = [] \<longleftrightarrow> (\<forall>e \<in> set es. e = None)" for es :: "nat option list"
  proof (induction es)
    case (Cons e es)
    then show ?case by (cases e) simp_all
  qed simp
  then show ?thesis by (simp add: held_filters_def)
qed

text \<open>A filter that is set.\<close>

lemma sec_set_gives:
  assumes "feeds_consistent base d" "owns d i js"
  shows "case dvb_net_filter_sec_set intr d (Some i) mac msk of None \<Rightarrow> False
    | Some (d', j) \<Rightarrow> gives base d i (somes [j] @ js) d'"
proof -
  from alloc_filter_gives [OF assms, of intr] obtain d1 r where a: "dmx_section_feed_allocate_filter intr d i = Some (d1, r)"
    "gives base d i (case r of Inl _ \<Rightarrow> js | Inr j \<Rightarrow> j # js) d1" by (auto split: option.splits sum.splits)
  show ?thesis
  proof (cases r)
    case (Inl e)
    then show ?thesis using a by (simp add: dvb_net_filter_sec_set_def)
  next
    case (Inr j)
    have g: "feeds_consistent base d1" "owns d1 i (j # js)" "default_feeds d1 = default_feeds d" using a(2) Inr by (simp_all add: gives_def)
    let ?g = "net_filter mac msk"
    have "gives base d1 i (j # js) (set_filter i j ?g d1)"
    proof -
      let ?h = "\<lambda>f. f\<lparr>f_filters := map (\<lambda>sf. if sfl_index sf = j then ?g sf else sf) (f_filters f)\<rparr>"
      have idx: "sfl_index (?g sf) = sfl_index sf" for sf by (simp add: net_filter_def)
      have "feeds_inv base (upd_feed i ?h d1)" by (rule upd_feed_keeps) (use g(1) idx in \<open>simp_all add: feeds_consistent_def\<close>)
      moreover have "owns (upd_feed i ?h d1) i (j # js)" by (rule owns_upd_feed [OF g(2)]) (use idx in simp_all)
      ultimately show ?thesis using g(1) by (simp add: gives_def set_filter_def feeds_consistent_def)
    qed
    then show ?thesis using a(1) Inr g(3) by (simp add: dvb_net_filter_sec_set_def gives_def)
  qed
qed

lemma somes_one: "mset (somes [j] @ js) = mset (somes (j # js'))" if "js = somes js'"
  using that by (cases j) simp_all

text \<open>What is left of the state by a call: all but the filters.\<close>

definition only_multi :: "dvb_net_if \<Rightarrow> dvb_net_if \<Rightarrow> bool" where
  "only_multi n n' \<longleftrightarrow> (\<exists>ms. n' = n\<lparr>multi_secfilter := ms\<rparr>)"

lemma only_multi_refl [simp]: "only_multi n n" by (auto simp: only_multi_def intro: exI [of _ "multi_secfilter n"])

lemma set_multi_gives:
  "secfeed n = Some i \<Longrightarrow> feeds_consistent base d \<Longrightarrow> owns d i (held_filters n) \<Longrightarrow> multi_free k n \<Longrightarrow>
   k + length macs \<le> DVB_NET_MULTICAST_MAX \<Longrightarrow>
   case set_multi_filters intr k macs (d, n) of None \<Rightarrow> False
   | Some (d', n') \<Rightarrow> gives base d i (held_filters n') d' \<and> multi_free (k + length macs) n' \<and> only_multi n n'"
proof (induction macs arbitrary: k d n)
  case Nil
  then show ?case by (simp add: gives_def)
next
  case (Cons mac macs)
  have k: "k < length (multi_secfilter n)" "multi_secfilter n ! k = None"
    using Cons.prems(4,5) by (simp_all add: multi_free_def)
  from sec_set_gives [OF Cons.prems(2,3), of "intr (2 + k)" mac mask_normal] obtain d1 j where
    s: "dvb_net_filter_sec_set (intr (2 + k)) d (Some i) mac mask_normal = Some (d1, j)"
      "gives base d i (somes [j] @ held_filters n) d1" by (auto split: option.splits)
  let ?n = "n\<lparr>multi_secfilter := (multi_secfilter n)[k := j]\<rparr>"
  have same: "(multi_secfilter n)[k := None] = multi_secfilter n" using k(2) by (metis list_update_id)
  have "mset (somes [j] @ held_filters n) = mset (held_filters ?n)"
    using somes_set_Some [OF k] same by (cases j; cases "if_secfilter n") (simp_all add: held_filters_def)
  then have g: "gives base d i (held_filters ?n) d1" using s(2) gives_mset by blast
  have "multi_free (k + 1) ?n" using Cons.prems(4) by (auto simp: multi_free_def nth_list_update)
  then have "case set_multi_filters intr (k + 1) macs (d1, ?n) of None \<Rightarrow> False
   | Some (d', n') \<Rightarrow> gives base d1 i (held_filters n') d' \<and> multi_free (k + 1 + length macs) n' \<and> only_multi ?n n'"
    using Cons.IH [of ?n d1 "k + 1"] Cons.prems(1,5) g by (simp add: gives_def)
  then show ?case using s(1) k Cons.prems(1) g
    by (auto simp: gives_def only_multi_def split: option.splits)
qed

lemma release_multi_gives:
  "feeds_consistent base d \<Longrightarrow> owns d i (held_filters n) \<Longrightarrow> if_secfilter n = None \<Longrightarrow> multi_free (k + m) n \<Longrightarrow>
   k + m \<le> DVB_NET_MULTICAST_MAX \<Longrightarrow> \<forall>x < k. multi_secfilter n ! x = None \<Longrightarrow>
   case release_multi_filters drv i k m (d, n) of None \<Rightarrow> False
   | Some (d', n') \<Rightarrow> gives base d i [] d' \<and> multi_free 0 n' \<and> held_filters n' = [] \<and> only_multi n n'"
proof (induction m arbitrary: k d n)
  case 0
  have "multi_free 0 n" using 0(4,6) by (auto simp: multi_free_def not_le [symmetric])
  then have "\<forall>e \<in> set (multi_secfilter n). e = None" by (auto simp: multi_free_def in_set_conv_nth)
  then have "held_filters n = []" using 0(3) by (simp add: held_nil_multi)
  then show ?case using 0 \<open>multi_free 0 n\<close> by (simp add: gives_def)
next
  case (Suc m)
  have k: "k < length (multi_secfilter n)" using Suc.prems(4,5) by (simp add: multi_free_def)
  show ?case
  proof (cases "multi_secfilter n ! k")
    case None
    have "\<forall>x < k + 1. multi_secfilter n ! x = None" using Suc.prems(6) None by (simp add: less_Suc_eq)
    then show ?thesis using Suc.IH [of d n "k + 1"] Suc.prems(1-5) k None by (simp add: mem_at_def)
  next
    case (Some j)
    let ?n = "n\<lparr>multi_secfilter := (multi_secfilter n)[k := None]\<rparr>"
    have ms: "mset (held_filters n) = add_mset j (mset (held_filters ?n))"
      using somes_set_None [OF k Some] Suc.prems(3) by (simp add: held_filters_def)
    have jin: "j \<in> set (held_filters n)" using ms by (metis union_single_eq_member set_mset_mset)
    from release_filter_gives [OF Suc.prems(1,2) jin, of drv] obtain d1 r where
      r: "dmx_section_feed_release_filter drv d i j = Some (d1, r)" "gives base d i (remove1 j (held_filters n)) d1"
      by (auto split: option.splits)
    have "mset (remove1 j (held_filters n)) = mset (held_filters ?n)" using ms by simp
    then have g: "gives base d i (held_filters ?n) d1" using r(2) gives_mset by blast
    have "multi_free (k + 1 + m) ?n" "\<forall>x < k + 1. multi_secfilter ?n ! x = None"
      using Suc.prems(4,6) k by (auto simp: multi_free_def nth_list_update)
    then have "case release_multi_filters drv i (k + 1) m (d1, ?n) of None \<Rightarrow> False
      | Some (d', n') \<Rightarrow> gives base d1 i [] d' \<and> multi_free 0 n' \<and> held_filters n' = [] \<and> only_multi ?n n'"
      using Suc.IH [of d1 ?n "k + 1"] Suc.prems(3,5) g by (simp add: gives_def)
    then show ?thesis using r(1) k Some g by (auto simp: mem_at_def gives_def only_multi_def split: option.splits)
  qed
qed

text \<open>The interface while its feed is set up.\<close>

definition setting_up :: "(nat \<Rightarrow> nat) \<Rightarrow> dvb_demux \<Rightarrow> nat \<Rightarrow> dvb_net_if \<Rightarrow> net_state \<Rightarrow> bool" where
  "setting_up base d i n0 = (\<lambda>(d', n). gives base d i (held_filters n) d' \<and> secfeed n = Some i \<and> pid_stream n = None \<and>
     feedtype n = FEEDTYPE_MPE \<and> rx_mode (if_priv n) = rx_mode (if_priv n0) \<and> mode_ok n)"

lemma set_own_filter_ok:
  assumes "setting_up base d i n0 (d1, n)" "multi_free 0 n" "if_secfilter n = None"
  shows "case set_own_filter intr (d1, n) of None \<Rightarrow> False
    | Some (d2, n2) \<Rightarrow> setting_up base d i n0 (d2, n2) \<and> multi_free 0 n2 \<and>
        (rx_mode (if_priv n0) = RX_MODE_PROMISC \<longrightarrow> if_secfilter n2 = None)"
proof (cases "rx_mode (if_priv n) = RX_MODE_PROMISC")
  case True
  then show ?thesis using assms by (simp add: set_own_filter_def setting_up_def)
next
  case False
  have s: "feeds_consistent base d1" "owns d1 i (held_filters n)" "default_feeds d1 = default_feeds d" "secfeed n = Some i"
    using assms(1) by (simp_all add: setting_up_def gives_def)
  from sec_set_gives [OF s(1,2), of "intr 1" "dev_addr (if_net n)" mask_normal] obtain d2 j where
    r: "dvb_net_filter_sec_set (intr 1) d1 (Some i) (dev_addr (if_net n)) mask_normal = Some (d2, j)"
      "gives base d1 i (somes [j] @ held_filters n) d2" by (auto split: option.splits)
  have "somes [j] @ held_filters n = held_filters (n\<lparr>if_secfilter := j\<rparr>)"
    using assms(3) by (cases j) (simp_all add: held_filters_def)
  then show ?thesis using r s(3,4) assms(1,2) False
    by (simp add: set_own_filter_def setting_up_def gives_def multi_free_def mode_ok_def)
qed

lemma set_mode_filters_ok:
  assumes "setting_up base d i n0 (d1, n)" "multi_free 0 n" "rx_mode (if_priv n0) = RX_MODE_PROMISC \<longrightarrow> if_secfilter n = None"
  shows "case set_mode_filters intr (d1, n) of None \<Rightarrow> False
    | Some (d2, n2) \<Rightarrow> setting_up base d i n0 (d2, n2) \<and> multi_free (multi_num (if_priv n2)) n2"
proof -
  have s: "feeds_consistent base d1" "owns d1 i (held_filters n)" "default_feeds d1 = default_feeds d" "secfeed n = Some i"
    "rx_mode (if_priv n) = rx_mode (if_priv n0)" "mode_ok n"
    using assms(1) by (simp_all add: setting_up_def gives_def)
  have one: "\<exists>d2 j. dvb_net_filter_sec_set (intr 2) d1 (Some i) mac msk = Some (d2, j) \<and>
      gives base d1 i (somes [j] @ held_filters n) d2" for mac msk
    using sec_set_gives [OF s(1,2), of "intr 2" mac msk] by (auto split: option.splits)
  show ?thesis
  proof (cases "rx_mode (if_priv n)")
    case RX_MODE_UNI
    then show ?thesis using assms(1,2) by (simp add: set_mode_filters_def multi_free_def)
  next
    case RX_MODE_MULTI
    define macs where "macs = take (multi_num (if_priv n)) (multi_macs (if_priv n))"
    have len: "length macs = multi_num (if_priv n)" "0 + length macs \<le> DVB_NET_MULTICAST_MAX"
      using s(6) by (simp_all add: macs_def mode_ok_def)
    from set_multi_gives [OF s(4,1,2) assms(2) len(2), of intr] obtain d2 n2 where
      r: "set_multi_filters intr 0 macs (d1, n) = Some (d2, n2)" "gives base d1 i (held_filters n2) d2"
        "multi_free (length macs) n2" "only_multi n n2" by (auto split: option.splits)
    have "secfeed n2 = secfeed n \<and> pid_stream n2 = pid_stream n \<and> feedtype n2 = feedtype n \<and> if_priv n2 = if_priv n"
      using r(4) by (auto simp: only_multi_def)
    then show ?thesis using r(1-3) RX_MODE_MULTI assms(1) s(3) len(1)
      by (simp add: set_mode_filters_def setting_up_def gives_def mode_ok_def flip: macs_def)
  next
    case RX_MODE_ALL_MULTI
    from one obtain d2 j where r: "dvb_net_filter_sec_set (intr 2) d1 (Some i) mac_allmulti mask_allmulti = Some (d2, j)"
      "gives base d1 i (somes [j] @ held_filters n) d2" by blast
    let ?n = "(upd_multi_num 1 n)\<lparr>multi_secfilter := (multi_secfilter n)[0 := j]\<rparr>"
    have k: "0 < length (multi_secfilter n)" "multi_secfilter n ! 0 = None" using assms(2) by (simp_all add: multi_free_def)
    have same: "(multi_secfilter n)[0 := None] = multi_secfilter n" using k(2) by (metis list_update_id)
    have "mset (somes [j] @ held_filters n) = mset (held_filters ?n)"
      using somes_set_Some [OF k] same by (cases j; cases "if_secfilter n") (simp_all add: held_filters_def upd_multi_num_def)
    then have "gives base d1 i (held_filters ?n) d2" using r(2) gives_mset by blast
    moreover have "multi_free 1 ?n" using assms(2) by (simp add: multi_free_def)
    ultimately show ?thesis using r(1) RX_MODE_ALL_MULTI assms(1) s(3,4)
      by (simp add: set_mode_filters_def setting_up_def gives_def mode_ok_def upd_multi_num_def)
  next
    case RX_MODE_PROMISC
    from one obtain d2 j where r: "dvb_net_filter_sec_set (intr 2) d1 (Some i) (dev_addr (if_net n)) mask_promisc = Some (d2, j)"
      "gives base d1 i (somes [j] @ held_filters n) d2" by blast
    let ?n = "(upd_multi_num 0 n)\<lparr>if_secfilter := j\<rparr>"
    have "somes [j] @ held_filters n = held_filters ?n"
      using assms(3) s(5) RX_MODE_PROMISC by (cases j) (simp_all add: held_filters_def upd_multi_num_def)
    moreover have "multi_free 0 ?n" using assms(2) by (simp add: multi_free_def upd_multi_num_def)
    ultimately show ?thesis using r RX_MODE_PROMISC assms(1) s(3,4)
      by (simp add: set_mode_filters_def setting_up_def gives_def mode_ok_def upd_multi_num_def)
  qed
qed

lemma feed_start_ok:
  assumes "net_ok base (d, n)" "net_closed (d, n)"
  shows "case dvb_net_feed_start drv intr (d, n) of None \<Rightarrow> False | Some (d', n', r) \<Rightarrow> net_ok base (d', n')"
proof -
  define n0 where "n0 = n\<lparr>secfeed := None, if_secfilter := None, pid_stream := None\<rparr>"
  have d: "feeds_consistent base d" "0 < base (default_feeds d)" and n: "mode_ok n" "multi_free (multi_num (if_priv n)) n"
    and h: "held_filters n = []"
    using assms by (simp_all add: net_ok_def net_closed_def feed_ok_def)
  have h0: "held_filters n0 = []" "multi_free 0 n0" "mode_ok n0" "multi_free k n0" for k
    using h n by (auto simp: n0_def held_nil_multi multi_free_def mode_ok_def)
  have closed: "net_ok base (d1, n0)" if "feeds_consistent base d1" "default_feeds d1 = default_feeds d" for d1
    using that d h0 by (simp add: net_ok_def feed_ok_def) (simp add: n0_def)
  show ?thesis
  proof (cases "feedtype n")
    case FEEDTYPE_MPE
    from alloc_section_gives [OF d, of "intr 0" "if_pid n" True] obtain d1 r where
      a: "dvbdmx_allocate_section_feed (intr 0) d (if_pid n) True (Some (default_feeds d)) = Some (d1, r)"
        "case r of Inl e \<Rightarrow> feeds_consistent base d1 \<and> default_feeds d1 = default_feeds d | Inr i \<Rightarrow> gives base d i [] d1"
      by (auto split: option.splits sum.splits)
    show ?thesis
    proof (cases r)
      case (Inl e)
      then show ?thesis using a closed [of d1] FEEDTYPE_MPE by (simp add: dvb_net_feed_start_def Let_def flip: n0_def) (simp add: n0_def)
    next
      case (Inr i)
      let ?n1 = "n0\<lparr>secfeed := Some i\<rparr>"
      have "setting_up base d i n (d1, ?n1)" "multi_free 0 ?n1" "if_secfilter ?n1 = None"
        using a(2) Inr h0 FEEDTYPE_MPE by (simp_all add: setting_up_def n0_def held_filters_def multi_free_def mode_ok_def)
      from set_own_filter_ok [OF this, of intr] obtain d2 n2 where
        o: "set_own_filter intr (d1, ?n1) = Some (d2, n2)" "setting_up base d i n (d2, n2)" "multi_free 0 n2"
          "rx_mode (if_priv n) = RX_MODE_PROMISC \<longrightarrow> if_secfilter n2 = None" by (auto split: option.splits)
      from set_mode_filters_ok [OF o(2-4), of intr] obtain d3 n3 where
        m: "set_mode_filters intr (d2, n2) = Some (d3, n3)" "setting_up base d i n (d3, n3)" "multi_free (multi_num (if_priv n3)) n3"
        by (auto split: option.splits)
      have g: "feeds_consistent base d3" "owns d3 i (held_filters n3)" "default_feeds d3 = default_feeds d"
        using m(2) by (simp_all add: setting_up_def gives_def)
      from start_section_gives [OF g(1,2), of drv "intr 12"] obtain d4 q where
        s: "dmx_section_feed_start_filtering drv (intr 12) d3 i = Some (d4, q)" "gives base d3 i (held_filters n3) d4"
        by (auto split: option.splits)
      have "net_ok base (d4, n3)" using s(2) g(3) m(2,3) d(2) by (simp add: net_ok_def setting_up_def gives_def feed_ok_def)
      moreover have "dvb_net_feed_start drv intr (d, n) = Some (d4, n3, 0)"
        using a(1) o(1) m(1) s(1) FEEDTYPE_MPE Inr by (simp add: dvb_net_feed_start_def Let_def flip: n0_def) (simp add: n0_def)
      ultimately show ?thesis by simp
    qed
  next
    case FEEDTYPE_ULE
    from alloc_pid_gives [OF d, of "intr 0" "if_pid n" DMX_PES_OTHER] obtain d1 r where
      a: "dvbdmx_allocate_neumo_pid_stream (intr 0) d (if_pid n) TS_PACKET DMX_PES_OTHER (Some (default_feeds d)) = Some (d1, r)"
        "feeds_consistent base d1" "default_feeds d1 = default_feeds d" "case r of Inl _ \<Rightarrow> True | Inr i \<Rightarrow> listed d1 i"
      by (auto split: option.splits)
    show ?thesis
    proof (cases r)
      case (Inl e)
      then show ?thesis using a closed [of d1] FEEDTYPE_ULE by (simp add: dvb_net_feed_start_def Let_def flip: n0_def) (simp add: n0_def)
    next
      case (Inr i)
      from start_pid_gives [OF a(2), of i drv "intr 12"] a(4) Inr obtain d2 q where
        s: "demux_ts_feed_start_filtering drv (intr 12) d1 i = Some (d2, q)" "feeds_consistent base d2" "default_feeds d2 = default_feeds d1"
          "listed d2 i" by (auto split: option.splits)
      have "net_ok base (d2, n0\<lparr>pid_stream := Some i\<rparr>)"
        using s(2-4) a(3) d(2) h0 FEEDTYPE_ULE
        by (simp add: net_ok_def feed_ok_def mode_ok_def multi_free_def held_filters_def) (simp add: n0_def held_filters_def)
      moreover have "dvb_net_feed_start drv intr (d, n) = Some (d2, n0\<lparr>pid_stream := Some i\<rparr>, 0)"
        using a(1) s(1) FEEDTYPE_ULE Inr by (simp add: dvb_net_feed_start_def Let_def flip: n0_def) (simp add: n0_def)
      ultimately show ?thesis by simp
    qed
  qed
qed

lemma feed_stop_ok:
  assumes "net_ok base (d, n)"
  shows "case dvb_net_feed_stop drv (d, n) of None \<Rightarrow> False
    | Some (d', n', r) \<Rightarrow> net_ok base (d', n') \<and> net_closed (d', n') \<and> multi_free 0 n'"
proof -
  have d: "feeds_consistent base d" "0 < base (default_feeds d)" and n: "mode_ok n" "multi_free (multi_num (if_priv n)) n"
    "feed_ok d n"
    using assms by (simp_all add: net_ok_def)
  have mf: "multi_free 0 n'" if "held_filters n' = []" "length (multi_secfilter n') = DVB_NET_MULTICAST_MAX" for n'
    using that by (auto simp: multi_free_def held_nil_multi)
  have len: "length (multi_secfilter n) = DVB_NET_MULTICAST_MAX" using n(2) by (simp add: multi_free_def)
  show ?thesis
  proof (cases "feedtype n")
    case FEEDTYPE_MPE
    then have ps: "pid_stream n = None" using n(3) by (auto simp: feed_ok_def split: option.splits)
    show ?thesis
    proof (cases "secfeed n")
      case None
      then show ?thesis using FEEDTYPE_MPE assms ps n(3) mf [OF _ len]
        by (simp add: dvb_net_feed_stop_def net_closed_def feed_ok_def)
    next
      case (Some i)
      then have ow: "owns d i (held_filters n)" using n(3) by (simp add: feed_ok_def)
      define stopped where "stopped = (if f_is_filtering (feedarray d ! i)
        then map_option fst (dmx_section_feed_stop_filtering drv d i) else Some d)"
      obtain d1 where d1: "stopped = Some d1" "gives base d i (held_filters n) d1"
        using stop_section_gives [OF d(1) ow, of drv] ow d(1)
        by (cases "f_is_filtering (feedarray d ! i)") (auto simp: stopped_def gives_def split: option.splits)
      define rel where "rel = (case if_secfilter n of None \<Rightarrow> Some d1
                        | Some j \<Rightarrow> map_option fst (dmx_section_feed_release_filter drv d1 i j))"
      let ?n = "n\<lparr>if_secfilter := None\<rparr>"
      obtain d2 where d2: "rel = Some d2" "gives base d1 i (held_filters ?n) d2"
      proof (cases "if_secfilter n")
        case None
        then show ?thesis using that [of d1] d1(2) by (simp add: rel_def held_filters_def gives_def)
      next
        case (Some j)
        then have "held_filters n = j # held_filters ?n" by (simp add: held_filters_def)
        then show ?thesis using release_filter_gives [of base d1 i "held_filters n" j drv] d1(2) that Some
          by (auto simp: rel_def gives_def split: option.splits)
      qed
      have g2: "feeds_consistent base d2" "owns d2 i (held_filters ?n)" "default_feeds d2 = default_feeds d"
        using d2(2) d1(2) by (simp_all add: gives_def)
      have "multi_free (0 + multi_num (if_priv n)) ?n" "0 + multi_num (if_priv n) \<le> DVB_NET_MULTICAST_MAX"
        using n(1,2) by (simp_all add: multi_free_def mode_ok_def)
      from release_multi_gives [OF g2(1,2) _ this, of drv] obtain d3 n3 where
        r: "release_multi_filters drv i 0 (multi_num (if_priv n)) (d2, ?n) = Some (d3, n3)" "gives base d2 i [] d3" "multi_free 0 n3"
          "held_filters n3 = []" "only_multi ?n n3" by (auto split: option.splits)
      have l3: "feeds_consistent base d3" "listed d3 i" using r(2) by (auto simp: gives_def owns_def)
      from release_section_gives [OF l3] obtain d4 q where
        f: "dvbdmx_release_section_feed d3 i = Some (d4, q)" "feeds_consistent base d4" "default_feeds d4 = default_feeds d3"
        by (auto split: option.splits)
      have i: "i < length (feedarray d)" using owns_listed [OF ow] by (simp add: listed_def)
      have "dvb_net_feed_stop drv (d, n) = Some (d4, n3\<lparr>secfeed := None\<rparr>, 0)"
        using FEEDTYPE_MPE Some i d1(1) d2(1) r(1) f(1)
        by (simp add: dvb_net_feed_stop_def mem_at_def flip: stopped_def rel_def)
      moreover have "feedtype n3 = feedtype n" "pid_stream n3 = None" "if_priv n3 = if_priv n"
        using r(5) ps by (auto simp: only_multi_def)
      moreover have "default_feeds d4 = default_feeds d" using f(3) r(2) g2(3) by (simp add: gives_def)
      ultimately show ?thesis using f(2) r(3,4) d(2) n(1)
        by (simp add: net_ok_def net_closed_def feed_ok_def mode_ok_def multi_free_def held_filters_def)
    qed
  next
    case FEEDTYPE_ULE
    then have sf: "secfeed n = None" "held_filters n = []" using n(3) by (auto simp: feed_ok_def split: option.splits)
    show ?thesis
    proof (cases "pid_stream n")
      case None
      then show ?thesis using FEEDTYPE_ULE assms sf mf [OF sf(2) len] by (simp add: dvb_net_feed_stop_def net_closed_def)
    next
      case (Some i)
      then have l: "listed d i" using n(3) by (simp add: feed_ok_def)
      define stopped where "stopped = (if f_is_filtering (feedarray d ! i)
        then map_option fst (demux_ts_feed_stop_filtering drv d i) else Some d)"
      obtain d1 where d1: "stopped = Some d1" "feeds_consistent base d1" "default_feeds d1 = default_feeds d" "listed d1 i"
        using stop_pid_gives [OF d(1) l, of drv] l d(1)
        by (cases "f_is_filtering (feedarray d ! i)") (auto simp: stopped_def split: option.splits)
      from release_pid_gives [OF d1(2,4)] obtain d2 q where
        f: "dvbdmx_release_neumo_pid_stream d1 i = Some (d2, q)" "feeds_consistent base d2" "default_feeds d2 = default_feeds d1"
        by (auto split: option.splits)
      have i: "i < length (feedarray d)" using l by (simp add: listed_def)
      have "dvb_net_feed_stop drv (d, n) = Some (d2, n\<lparr>pid_stream := None\<rparr>, 0)"
        using FEEDTYPE_ULE Some i d1(1) f(1) by (simp add: dvb_net_feed_stop_def mem_at_def flip: stopped_def)
      then show ?thesis using f(2,3) d1(3) d(2) n(1) sf mf [OF sf(2) len] n(2)
        by (simp add: net_ok_def net_closed_def feed_ok_def mode_ok_def multi_free_def held_filters_def)
    qed
  qed
qed

end
