(* ===== verification/NetInterface.thy ===== *)
theory NetInterface imports NetFeeds begin

text \<open>
  The network interface as the kernel uses it: the steps \<open>net_op_run\<close> and what is reachable by them,
  which sections pass the filters of an interface, and the properties of the control part.
\<close>


subsection \<open>What the kernel does with an interface\<close>

datatype net_op =
    Net_open
  | Net_close
  | Set_rx_mode bool bool "byte list list"
  | Set_mac "byte list"
  | Multicast_work
  | Restart_work

fun net_op_run :: "dmx_driver \<Rightarrow> (nat \<Rightarrow> bool) \<Rightarrow> net_op \<Rightarrow> net_state \<Rightarrow> net_state option" where
  "net_op_run drv intr Net_open (d, n) = dvb_net_open drv intr (d, n\<lparr>running := True\<rparr>)"
| "net_op_run drv intr Net_close (d, n) = dvb_net_stop drv (d, n\<lparr>running := False\<rparr>)"
| "net_op_run drv intr (Set_rx_mode p a mc) (d, n) =
     Some (dvb_net_set_multicast_list (d, n\<lparr>iff_promisc := p, iff_allmulti := a, mc_list := mc\<rparr>))"
| "net_op_run drv intr (Set_mac mac) s = Some (dvb_net_set_mac mac s)"
| "net_op_run drv intr Multicast_work s = wq_set_multicast_list drv intr s"
| "net_op_run drv intr Restart_work s = wq_restart_net_feed drv intr s"

inductive net_run :: "dmx_driver \<Rightarrow> net_state \<Rightarrow> net_state \<Rightarrow> bool" for drv s where
  net_run_refl: "net_run drv s s"
| net_run_step: "net_run drv s s1 \<Longrightarrow> (op = Net_open \<longrightarrow> net_closed s1) \<Longrightarrow> net_op_run drv intr op s1 = Some s2 \<Longrightarrow> net_run drv s s2"

lemma net_ok_cong:
  assumes "net_ok base (d, n)" "secfeed n' = secfeed n" "if_secfilter n' = if_secfilter n" "pid_stream n' = pid_stream n"
    "multi_secfilter n' = multi_secfilter n" "if_priv n' = if_priv n" "feedtype n' = feedtype n"
  shows "net_ok base (d, n')" "net_closed (d, n') = net_closed (d, n)"
proof -
  have h: "held_filters n' = held_filters n" using assms by (simp add: held_filters_def)
  have "feed_ok d n' = feed_ok d n" unfolding feed_ok_def h assms(2-7) by simp
  then show "net_ok base (d, n')" using assms by (simp add: net_ok_def mode_ok_def multi_free_def)
  show "net_closed (d, n') = net_closed (d, n)" using assms by (simp add: net_closed_def)
qed

lemma set_mc_ok: "multi_num p \<le> 10 \<and> length (multi_macs p) = 10 \<Longrightarrow>
   multi_num (dvb_set_mc_filter a p) \<le> 10 \<and> length (multi_macs (dvb_set_mc_filter a p)) = 10"
  by (simp add: dvb_set_mc_filter_def)

lemma choose_mode_ok:
  assumes "net_ok base (d, n)" "net_closed (d, n)" "multi_free 0 n"
  shows "net_ok base (d, choose_mode n) \<and> net_closed (d, choose_mode n)"
proof -
  have f: "multi_num p \<le> 10 \<and> length (multi_macs p) = 10 \<Longrightarrow>
    multi_num (fold dvb_set_mc_filter as p) \<le> 10 \<and> length (multi_macs (fold dvb_set_mc_filter as p)) = 10" for as p
    by (induction as arbitrary: p) (simp_all add: set_mc_ok)
  have m: "mode_ok n" using assms(1) by (simp add: net_ok_def)
  have "mode_ok (choose_mode n)"
    using m f [of "(if_priv n)\<lparr>rx_mode := RX_MODE_MULTI, multi_num := 0\<rparr>" "mc_list n"]
    by (simp add: choose_mode_def mode_ok_def)
  moreover have "secfeed (choose_mode n) = secfeed n" "if_secfilter (choose_mode n) = if_secfilter n"
    "pid_stream (choose_mode n) = pid_stream n" "multi_secfilter (choose_mode n) = multi_secfilter n"
    "feedtype (choose_mode n) = feedtype n" by (simp_all add: choose_mode_def)
  ultimately show ?thesis using assms
    by (simp add: net_ok_def net_closed_def feed_ok_def multi_free_def held_filters_def)
qed

definition net_result :: "(nat \<Rightarrow> nat) \<Rightarrow> net_state option \<Rightarrow> bool" where
  "net_result base x \<longleftrightarrow> (case x of None \<Rightarrow> False | Some s \<Rightarrow> net_ok base s)"

lemma stop_then_ok:
  assumes "net_ok base (d, n)"
    "\<And>e m. net_ok base (e, m) \<Longrightarrow> net_closed (e, m) \<Longrightarrow> multi_free 0 m \<Longrightarrow> net_ok base (e, g m) \<and> net_closed (e, g m)"
  shows "net_result base (stop_then drv g intr (d, n))"
proof -
  from feed_stop_ok [OF assms(1), of drv] obtain d1 n1 r where
    s: "dvb_net_feed_stop drv (d, n) = Some (d1, n1, r)" "net_ok base (d1, n1)" "net_closed (d1, n1)" "multi_free 0 n1"
    by (auto split: option.splits)
  from assms(2) [OF s(2-4)] feed_start_ok [of base d1 "g n1" drv intr] s(1) show ?thesis
    by (auto simp: stop_then_def net_result_def split: option.splits)
qed

lemma net_op_ok:
  assumes "net_ok base s" "op = Net_open \<longrightarrow> net_closed s"
  shows "net_result base (net_op_run drv intr op s)"
proof -
  obtain d n where s: "s = (d, n)" by (cases s)
  note cong = net_ok_cong [OF assms(1) [unfolded s]]
  show ?thesis
  proof (cases op)
    case Net_open
    let ?n = "n\<lparr>running := True, in_use := in_use n + 1\<rparr>"
    have "net_ok base (d, ?n)" "net_closed (d, ?n)" using cong [of ?n] assms(2) Net_open s by simp_all
    then show ?thesis using feed_start_ok [of base d ?n drv intr] Net_open s
      by (auto simp: net_result_def dvb_net_open_def split: option.splits)
  next
    case Net_close
    let ?n = "n\<lparr>running := False, in_use := in_use n - 1\<rparr>"
    have "net_ok base (d, ?n)" using cong [of ?n] by simp
    then show ?thesis using feed_stop_ok [of base d ?n drv] Net_close s
      by (auto simp: net_result_def dvb_net_stop_def split: option.splits)
  next
    case (Set_rx_mode p a mc)
    let ?n = "n\<lparr>iff_promisc := p, iff_allmulti := a, mc_list := mc, multicast_work := True\<rparr>"
    have "net_ok base (d, ?n)" using cong [of ?n] by simp
    then show ?thesis using Set_rx_mode s by (simp add: net_result_def dvb_net_set_multicast_list_def)
  next
    case (Set_mac mac)
    let ?n = "n\<lparr>if_net := (if_net n)\<lparr>dev_addr := mac\<rparr>, restart_work := running n \<or> restart_work n\<rparr>"
    have "net_ok base (d, ?n)" using cong [of ?n] by simp
    then show ?thesis using Set_mac s by (simp add: net_result_def dvb_net_set_mac_def)
  next
    case Multicast_work
    let ?n = "n\<lparr>multicast_work := False\<rparr>"
    have "net_ok base (d, ?n)" using cong [of ?n] by simp
    from stop_then_ok [OF this choose_mode_ok] show ?thesis using Multicast_work s by (simp add: wq_set_multicast_list_def)
  next
    case Restart_work
    let ?n = "n\<lparr>restart_work := False\<rparr>"
    have k: "net_ok base (d, ?n)" using cong [of ?n] by simp
    from stop_then_ok [OF this, of "\<lambda>n. n"] k show ?thesis using Restart_work s
      by (simp add: wq_restart_net_feed_def Let_def net_result_def)
  qed
qed

lemma net_run_ok: "net_run drv s s' \<Longrightarrow> net_ok base s \<Longrightarrow> net_ok base s'"
proof (induction rule: net_run.induct)
  case (net_run_step s1 op intr s2)
  then show ?case using net_op_ok [of base s1 op drv intr] by (simp add: net_result_def)
qed

subsection \<open>Properties\<close>

text \<open>An interface on the demux of the examples.\<close>

definition demo_if :: "dvb_net_feedtype \<Rightarrow> dvb_net_if" where
  "demo_if ft = new_interface [2, 0, 0, 0, 0, 1] 0x100 ft"

lemma demo_if_ok: "net_ok (owned demo_ctl) (demo_ctl, demo_if ft)" "net_closed (demo_ctl, demo_if ft)"
proof -
  have c: "feeds_consistent (owned demo_ctl) demo_ctl"
    by (rule init_consistent [OF demo_ctl_init]) (simp_all add: demo_raw_def demo_fd_def)
  then show "net_ok (owned demo_ctl) (demo_ctl, demo_if ft)"
    by (simp add: net_ok_def owned_def mode_ok_def multi_free_def feed_ok_def demo_if_def new_interface_def
      held_filters_def reset_ule_def somes_none)
  show "net_closed (demo_ctl, demo_if ft)" by (simp add: net_closed_def demo_if_def new_interface_def)
qed

text \<open>
  C5. An interface and the demux stay consistent: whatever is done with an interface, in any order
  and with the waits for the demux interrupted at will, as long as it is opened only while its feed
  is stopped, nothing is used that is not there, the interface has one feed of the demux at most,
  that feed has exactly the section filters the interface knows of, and the demux its invariant.
\<close>

theorem interface_consistent:
  assumes "net_ok base s" "net_run drv s s'"
  shows "net_ok base s' \<and> (\<forall>op intr. (op = Net_open \<longrightarrow> net_closed s') \<longrightarrow> net_op_run drv intr op s' \<noteq> None)"
proof (intro conjI allI impI)
  show ok: "net_ok base s'" by (rule net_run_ok [OF assms(2,1)])
  show "net_op_run drv intr op s' \<noteq> None" if "op = Net_open \<longrightarrow> net_closed s'" for op intr
    using net_op_ok [OF ok, of op drv intr] that by (cases "net_op_run drv intr op s'") (simp_all add: net_result_def)
qed

theorem interface_consistent_witness:
  "\<exists>s'. net_run demo_drv (demo_ctl, demo_if FEEDTYPE_MPE) s' \<and> net_op_run demo_drv (\<lambda>_. False) Net_open (demo_ctl, demo_if FEEDTYPE_MPE) = Some s' \<and>
     net_ok (owned demo_ctl) s'"
proof -
  let ?s = "(demo_ctl, demo_if FEEDTYPE_MPE)"
  from interface_consistent [OF demo_if_ok(1) net_run_refl] demo_if_ok(2) obtain s' where
    o: "net_op_run demo_drv (\<lambda>_. False) Net_open ?s = Some s'" by (metis not_None_eq)
  have r: "net_run demo_drv ?s s'" by (rule net_run_step [OF net_run_refl _ o]) (simp add: demo_if_ok)
  with o interface_consistent [OF demo_if_ok(1) r] show ?thesis by blast
qed

lemma mpe_bytes:
  assumes "length len = 2"
  shows "mpe_section len m crc ! 0 = 0x3e" "mpe_section len m crc ! 3 = mp_dest m ! 5" "mpe_section len m crc ! 4 = mp_dest m ! 4"
    "mpe_section len m crc ! 8 = mp_dest m ! 3" "mpe_section len m crc ! 9 = mp_dest m ! 2"
    "mpe_section len m crc ! 10 = mp_dest m ! 1" "mpe_section len m crc ! 11 = mp_dest m ! 0"
proof -
  obtain a b where l: "len = [a, b]" using assms by (auto simp: length_Suc_conv numeral_eq_Suc)
  show "mpe_section len m crc ! 0 = 0x3e" "mpe_section len m crc ! 3 = mp_dest m ! 5" "mpe_section len m crc ! 4 = mp_dest m ! 4"
    "mpe_section len m crc ! 8 = mp_dest m ! 3" "mpe_section len m crc ! 9 = mp_dest m ! 2"
    "mpe_section len m crc ! 10 = mp_dest m ! 1" "mpe_section len m crc ! 11 = mp_dest m ! 0"
    by (simp_all add: mpe_section_def l)
qed

lemma net_filter_meaning:
  assumes "length mac = 6" "length msk = 6"
  shows "filter_matches (prepare_secfilter (net_filter mac msk sf)) s \<longleftrightarrow>
    0xff AND (0x3e XOR s ! 0) = 0 \<and> msk ! 5 AND (mac ! 5 XOR s ! 3) = 0 \<and> msk ! 4 AND (mac ! 4 XOR s ! 4) = 0 \<and>
    msk ! 3 AND (mac ! 3 XOR s ! 8) = 0 \<and> msk ! 2 AND (mac ! 2 XOR s ! 9) = 0 \<and>
    msk ! 1 AND (mac ! 1 XOR s ! 10) = 0 \<and> msk ! 0 AND (mac ! 0 XOR s ! 11) = 0"
proof -
  let ?f = "net_filter mac msk sf"
  have wf: "filter_wf ?f" by (simp add: filter_wf_def net_filter_def mac_bytes_def)
  have mode: "filter_mode ?f ! i = - 1" if "i < 18" for i using that by (simp add: net_filter_def word_of_int_minus [symmetric])
  have m: "maskandmode (prepare_secfilter ?f) ! i = mac_bytes 0xff msk ! i" if "i < 18" for i
    using prepared_nth(1) [OF wf that] mode [OF that] by (simp add: net_filter_def)
  have d: "\<not> doneq (prepare_secfilter ?f)" using prepared_doneq [OF wf] mode by (auto simp: bit_simps)
  have v: "filter_value (prepare_secfilter ?f) = mac_bytes 0x3e mac" by (simp add: prepare_secfilter_def Let_def net_filter_def)
  have e: "set [0..<18] = {0, 1, 2, 3, 4, 5, 6, 7, 8, 9, 10, 11, 12, 13, 14, 15, 16, 17 :: nat}"
    by (simp only: set_upt set_eq_iff insert_iff empty_iff atLeastLessThan_iff) presburger
  have "filter_matches (prepare_secfilter ?f) s \<longleftrightarrow>
      (\<forall>i \<in> {0, 1, 2, 3, 4, 5, 6, 7, 8, 9, 10, 11, 12, 13, 14, 15, 16, 17}. mac_bytes 0xff msk ! i AND (mac_bytes 0x3e mac ! i XOR s ! i) = 0)"
    unfolding e [symmetric] using d m by (auto simp: filter_matches_def v)
  also have "\<dots> \<longleftrightarrow> 0xff AND (0x3e XOR s ! 0) = 0 \<and> msk ! 5 AND (mac ! 5 XOR s ! 3) = 0 \<and> msk ! 4 AND (mac ! 4 XOR s ! 4) = 0 \<and>
    msk ! 3 AND (mac ! 3 XOR s ! 8) = 0 \<and> msk ! 2 AND (mac ! 2 XOR s ! 9) = 0 \<and>
    msk ! 1 AND (mac ! 1 XOR s ! 10) = 0 \<and> msk ! 0 AND (mac ! 0 XOR s ! 11) = 0"
    by (simp add: mac_bytes_def)
  finally show ?thesis .
qed

lemma byte_same: "0xff AND (a XOR b) = 0 \<longleftrightarrow> a = (b :: byte)"
proof -
  have "(0xff :: byte) = - 1" by simp
  then have "0xff AND (a XOR b) = a XOR b" by (simp only: and.left_neutral)
  moreover have "a = b" if "a XOR b = 0" using arg_cong [OF that, of "\<lambda>x. x XOR b"] by (simp add: xor.assoc)
  ultimately show ?thesis by auto
qed

lemma list6: "length a = 6 \<Longrightarrow> length b = 6 \<Longrightarrow>
   a = b \<longleftrightarrow> a ! 0 = b ! 0 \<and> a ! 1 = b ! 1 \<and> a ! 2 = b ! 2 \<and> a ! 3 = b ! 3 \<and> a ! 4 = b ! 4 \<and> a ! 5 = b ! 5"
  by (metis six)

lemma filter_head: "length len = 2 \<Longrightarrow> 0xff AND (0x3e XOR mpe_section len m crc ! 0) = 0"
  by (simp add: mpe_bytes)

lemma own_filter:
  assumes "length mac = 6" "length (mp_dest m) = 6" "length len = 2"
  shows "filter_matches (prepare_secfilter (net_filter mac mask_normal sf)) (mpe_section len m crc) \<longleftrightarrow> mp_dest m = mac"
proof -
  have n: "length mask_normal = 6" "\<And>k. k < 6 \<Longrightarrow> mask_normal ! k = 0xff" by (simp_all add: mask_normal_def)
  show ?thesis
    unfolding net_filter_meaning [OF assms(1) n(1)] mpe_bytes(2-7) [OF assms(3)] list6 [OF assms(2,1)]
    using filter_head [OF assms(3)] by (auto simp: n(2) byte_same)
qed

lemma multi_filter:
  assumes "length (mp_dest m) = 6" "length len = 2"
  shows "filter_matches (prepare_secfilter (net_filter mac_allmulti mask_allmulti sf)) (mpe_section len m crc) \<longleftrightarrow>
    take 3 (mp_dest m) = [0x01, 0x00, 0x5e]"
proof -
  have n: "length mask_allmulti = 6" "length mac_allmulti = 6" by (simp_all add: mask_allmulti_def mac_allmulti_def)
  have t3: "take 3 (mp_dest m) = [mp_dest m ! 0, mp_dest m ! 1, mp_dest m ! 2]"
    by (rule nth_equalityI) (use assms(1) in \<open>auto simp: less_Suc_eq numeral_eq_Suc\<close>)
  have "filter_matches (prepare_secfilter (net_filter mac_allmulti mask_allmulti sf)) (mpe_section len m crc) \<longleftrightarrow>
      0xff AND (0x5e XOR mp_dest m ! 2) = 0 \<and> 0xff AND (0 XOR mp_dest m ! 1) = 0 \<and> 0xff AND (1 XOR mp_dest m ! 0) = 0"
    unfolding net_filter_meaning [OF n(2,1)] mpe_bytes(2-7) [OF assms(2)] using filter_head [OF assms(2)]
    by (simp add: mask_allmulti_def mac_allmulti_def)
  then show ?thesis unfolding t3 byte_same by auto
qed

lemma promisc_filter:
  assumes "length mac = 6" "length len = 2"
  shows "filter_matches (prepare_secfilter (net_filter mac mask_promisc sf)) (mpe_section len m crc)"
proof -
  have n: "length mask_promisc = 6" "\<And>k. k < 6 \<Longrightarrow> mask_promisc ! k = 0" by (simp_all add: mask_promisc_def)
  show ?thesis unfolding net_filter_meaning [OF assms(1) n(1)] using filter_head [OF assms(2)] by (simp add: n(2))
qed

text \<open>
  The sections an interface asks for: with the filter of its address exactly those for it, with
  the one for all multicast packets exactly those for an address that begins with 01:00:5e (that
  of IPv4; IPv6 has other addresses), with the one for everything all of them.
\<close>


theorem section_filters:
  assumes "length mac = 6" "length (mp_dest m) = 6" "length len = 2"
  shows "(filter_matches (prepare_secfilter (net_filter mac mask_normal sf)) (mpe_section len m crc) \<longleftrightarrow> mp_dest m = mac) \<and>
    (filter_matches (prepare_secfilter (net_filter mac_allmulti mask_allmulti sf)) (mpe_section len m crc) \<longleftrightarrow>
       take 3 (mp_dest m) = [0x01, 0x00, 0x5e]) \<and>
    filter_matches (prepare_secfilter (net_filter mac mask_promisc sf)) (mpe_section len m crc)"
  using own_filter [OF assms(1,2,3)] multi_filter [OF assms(2,3)] promisc_filter [OF assms(1,3)] by blast

theorem section_filters_witness:
  "filter_matches (prepare_secfilter (net_filter [2, 0, 0, 0, 0, 1] mask_normal demo_filter))
     (mpe_section [0xb0, 30] \<lparr>mp_dest = [2, 0, 0, 0, 0, 1], mp_snap = None, mp_payload = [0x45]\<rparr> [0, 0, 0, 0]) \<and>
   \<not> filter_matches (prepare_secfilter (net_filter [2, 0, 0, 0, 0, 1] mask_normal demo_filter))
     (mpe_section [0xb0, 30] \<lparr>mp_dest = [0xff, 0xff, 0xff, 0xff, 0xff, 0xff], mp_snap = None, mp_payload = [0x45]\<rparr> [0, 0, 0, 0])"
  using section_filters [of "[2, 0, 0, 0, 0, 1]" "\<lparr>mp_dest = [2, 0, 0, 0, 0, 1], mp_snap = None, mp_payload = [0x45]\<rparr>" "[0xb0, 30]"
      demo_filter "[0, 0, 0, 0]"]
    section_filters [of "[2, 0, 0, 0, 0, 1]" "\<lparr>mp_dest = [0xff, 0xff, 0xff, 0xff, 0xff, 0xff], mp_snap = None, mp_payload = [0x45]\<rparr>" "[0xb0, 30]"
      demo_filter "[0, 0, 0, 0]"]
  by simp

lemma alloc_section_feed:
  assumes "dvbdmx_allocate_section_feed intr d pid crc (Some p) = Some (d1, Inr i)"
  shows "f_filters (feedarray d1 ! i) = [] \<and> \<not> f_is_filtering (feedarray d1 ! i) \<and> i < length (feedarray d1) \<and> f_pid (feedarray d1 ! i) = pid"
proof -
  have add: "dvb_demux_output_feed_add e k = Some e' \<Longrightarrow> feedarray e' = feedarray e" for e e' k
    by (auto simp: dvb_demux_output_feed_add_def feeds_get_def upd_feeds_def Let_def split: if_splits bind_splits)
  have fr: "dvb_dmx_feed_alloc e = Some (e', k) \<Longrightarrow> k < length (feedarray e')" for e e' k
    by (auto simp: dvb_dmx_feed_alloc_def dest!: first_free_Some)
  show ?thesis using assms
    by (auto simp: dvbdmx_allocate_section_feed_def interruptible_def locked_def mutex_lock_def mutex_unlock_def Let_def upd_feed_nth
      split: if_splits option.splits dest!: add fr)
qed

lemma set_filter_feed:
  assumes "dvb_net_filter_sec_set intr d (Some i) mac msk = Some (d1, Some j)" "f_filters (feedarray d ! i) = []" "i < length (feedarray d)"
  shows "\<exists>sf. feedarray d1 ! i = (feedarray d ! i)\<lparr>f_filters := [net_filter mac msk sf]\<rparr> \<and> length (feedarray d1) = length (feedarray d)"
proof -
  have fr: "dvb_dmx_section_filter_alloc e = Some (e', k) \<Longrightarrow> feedarray e' = feedarray e" for e e' k
    by (auto simp: dvb_dmx_section_filter_alloc_def)
  have us: "feedarray (upd_slot k h e) = feedarray e" for k h e by (simp add: upd_slot_def)
  show ?thesis using assms
    by (auto simp: dvb_net_filter_sec_set_def dmx_section_feed_allocate_filter_def interruptible_def locked_def mutex_lock_def
      mutex_unlock_def Let_def set_filter_def upd_feed_nth us split: if_splits option.splits sum.splits bind_splits dest!: fr) blast
qed

lemma start_section_feed:
  assumes "dmx_section_feed_start_filtering drv intr d i = Some (d1, r)" "\<not> f_is_filtering (feedarray d ! i)" "i < length (feedarray d)"
    "f_is_filtering (feedarray d1 ! i)"
  shows "f_filters (feedarray d1 ! i) = map prepare_secfilter (f_filters (feedarray d ! i))"
  using assms
  by (auto simp: dmx_section_feed_start_filtering_def interruptible_def locked_def mutex_lock_def mutex_unlock_def Let_def mem_at_def
    upd_feed_nth prepare_secfilters_def split: if_splits option.splits)

text \<open>
  C35. An interface for packets in sections in unicast mode (not in multicast or promiscuous mode,
  where it has more filters) that was opened and filters, and got the filter of its address,
  receives exactly the packets for its address: of the sections of its PID those pass a filter of
  its feed that have a packet for it.
\<close>

theorem opened_interface_receives:
  assumes "feedtype n = FEEDTYPE_MPE" "rx_mode (if_priv n) = RX_MODE_UNI"
    and "dvb_net_feed_start drv intr (d, n) = Some (d', n', 0)" "secfeed n' = Some i" "if_secfilter n' \<noteq> None"
    and "f_is_filtering (feedarray d' ! i)"
    and "length (dev_addr (if_net n)) = 6" "length (mp_dest m) = 6" "length len = 2"
  shows "(\<exists>sf \<in> set (f_filters (feedarray d' ! i)). filter_matches sf (mpe_section len m crc)) \<longleftrightarrow> mp_dest m = dev_addr (if_net n)"
proof -
  obtain d1 j d2 q where
    a: "dvbdmx_allocate_section_feed (intr 0) d (if_pid n) True (Some (default_feeds d)) = Some (d1, Inr i)" and
    f: "dvb_net_filter_sec_set (intr 1) d1 (Some i) (dev_addr (if_net n)) mask_normal = Some (d2, Some j)" and
    s: "dmx_section_feed_start_filtering drv (intr 12) d2 i = Some (d', q)"
    using assms(1-5)
    by (auto simp: dvb_net_feed_start_def Let_def set_own_filter_def set_mode_filters_def split: sum.splits bind_splits)
  note a1 = alloc_section_feed [OF a]
  from set_filter_feed [OF f] a1 obtain sf where
    f2: "feedarray d2 ! i = (feedarray d1 ! i)\<lparr>f_filters := [net_filter (dev_addr (if_net n)) mask_normal sf]\<rparr>"
      "i < length (feedarray d2)" by auto
  have "f_filters (feedarray d' ! i) = [prepare_secfilter (net_filter (dev_addr (if_net n)) mask_normal sf)]"
    using start_section_feed [OF s _ f2(2) assms(6)] f2(1) a1 by simp
  then show ?thesis using own_filter [OF assms(7-9)] by simp
qed


text \<open>Opening the interface of the examples.\<close>

lemma demo_opened:
  "case dvb_net_feed_start demo_drv (\<lambda>_. False) (demo_ctl, demo_if FEEDTYPE_MPE) of None \<Rightarrow> False
   | Some (d', n', r) \<Rightarrow> r = 0 \<and> secfeed n' = Some 0 \<and> if_secfilter n' = Some 0 \<and> f_is_filtering (feedarray d' ! 0)"
proof -
  have c: "heap_feeds demo_ctl 3 = Some (dvb_demux_feeds_init (- 1) (- 1))"
    "filter_slots demo_ctl = [demo_slot\<lparr>sl_state := DMX_STATE_FREE\<rparr>, demo_slot\<lparr>sl_state := DMX_STATE_FREE\<rparr>]"
    by (simp_all add: demo_ctl_def neumo_dvb_dmx_init_def demo_raw_def demo_dmx_def Let_def demo_slot_def)
  have i: "feedtype (demo_if FEEDTYPE_MPE) = FEEDTYPE_MPE" "rx_mode (if_priv (demo_if FEEDTYPE_MPE)) = RX_MODE_UNI"
    "if_pid (demo_if FEEDTYPE_MPE) = 0x100"
    by (simp_all add: demo_if_def new_interface_def reset_ule_def)
  have f: "dvb_demux_feeds_init (- 1) (- 1) = \<lparr>fs_embedding_pid = - 1, fs_isi = - 1, include_default_feeds = False,
     fs_refcount = 1, output_feed_list = [], embedded_streams = [], cnt_storage = Some (replicate MAX_PID 0xff @ [0])\<rparr>"
    by (simp add: dvb_demux_feeds_init_def)
  show ?thesis
    by (simp add: dvb_net_feed_start_def Let_def i dvbdmx_allocate_section_feed_def interruptible_def locked_def mutex_lock_def
      mutex_unlock_def demo_ctl_simps c dvb_dmx_feed_alloc_def dvb_demux_output_feed_add_def dvb_demux_output_feed_find_def
      feeds_get_def upd_feeds_def upd_feed_def mem_at_def f set_own_filter_def set_mode_filters_def dvb_net_filter_sec_set_def
      dmx_section_feed_allocate_filter_def dvb_dmx_section_filter_alloc_def upd_slot_def demo_slot_def set_filter_def
      dmx_section_feed_start_filtering_def demo_drv_def prepare_secfilters_def del: replicate_Suc replicate.simps)
qed

theorem opened_interface_receives_witness:
  "\<exists>d' n'. dvb_net_feed_start demo_drv (\<lambda>_. False) (demo_ctl, demo_if FEEDTYPE_MPE) = Some (d', n', 0) \<and>
     (\<exists>sf \<in> set (f_filters (feedarray d' ! 0)). filter_matches sf
        (mpe_section [0xb0, 30] \<lparr>mp_dest = [2, 0, 0, 0, 0, 1], mp_snap = None, mp_payload = [0x45]\<rparr> [0, 0, 0, 0]))"
proof -
  from demo_opened obtain d' n' where o: "dvb_net_feed_start demo_drv (\<lambda>_. False) (demo_ctl, demo_if FEEDTYPE_MPE) = Some (d', n', 0)"
    "secfeed n' = Some 0" "if_secfilter n' = Some 0" "f_is_filtering (feedarray d' ! 0)" by (auto split: option.split_asm)
  let ?m = "\<lparr>mp_dest = [2, 0, 0, 0, 0, 1], mp_snap = None, mp_payload = [0x45]\<rparr>"
  have n: "feedtype (demo_if FEEDTYPE_MPE) = FEEDTYPE_MPE" "rx_mode (if_priv (demo_if FEEDTYPE_MPE)) = RX_MODE_UNI"
    "dev_addr (if_net (demo_if FEEDTYPE_MPE)) = [2, 0, 0, 0, 0, 1]"
    by (simp_all add: demo_if_def new_interface_def reset_ule_def)
  have "(\<exists>sf \<in> set (f_filters (feedarray d' ! 0)). filter_matches sf (mpe_section [0xb0, 30] ?m [0, 0, 0, 0])) \<longleftrightarrow>
      mp_dest ?m = dev_addr (if_net (demo_if FEEDTYPE_MPE))"
    by (rule opened_interface_receives [OF n(1,2) o(1,2) _ o(4)]) (use o(3) n(3) in simp_all)
  then show ?thesis using o(1) n(3) by simp
qed

lemma alloc_pid_new:
  assumes "feeds_consistent base d" "dvbdmx_allocate_neumo_pid_stream intr d pid TS_PACKET t (Some p) = Some (d', Inr i)"
  shows "\<not> listed d i"
proof
  assume "listed d i"
  then have "listed (d\<lparr>mutex := True\<rparr>) i" by simp
  moreover have "feeds_inv base (d\<lparr>mutex := True\<rparr>)" using assms(1) by (simp add: feeds_consistent_def)
  ultimately have "f_state (feedarray d ! i) \<noteq> DMX_STATE_FREE" using listed_state by fastforce
  moreover obtain d1 where "dvb_dmx_feed_alloc (d\<lparr>mutex := True\<rparr>) = Some (d1, i)" using assms(2)
    by (auto simp: dvbdmx_allocate_neumo_pid_stream_def interruptible_def locked_def mutex_lock_def Let_def split: if_splits option.splits)
  ultimately show False by (auto simp: dvb_dmx_feed_alloc_def dest!: first_free_Some)
qed

text \<open>
  Removing an interface can leave its feed to a device that is gone: the queued change of the
  list of multicast addresses is carried out after the feed was stopped and starts it again.  With
  such a change queued the interface is removed, and the demux has a feed more than before.
\<close>

theorem removed_interface_keeps_feed:
  assumes "net_ok base (net_demux t, n)" "net_closed (net_demux t, n)" "i < length (slot_used t)" "slot_used t ! i"
    and "i < length (net_devs t)" "net_devs t ! i = Some n" "in_use n = 0" "feedtype n = FEEDTYPE_ULE"
    and "multicast_work n" "\<not> restart_work n"
    and "dvbdmx_allocate_neumo_pid_stream (intr 0) (net_demux t) (if_pid n) TS_PACKET DMX_PES_OTHER
      (Some (default_feeds (net_demux t))) = Some (d1, Inr f)"
  shows "case dvb_net_remove_if drv intr i t of None \<Rightarrow> False
    | Some (t', r) \<Rightarrow> r = 0 \<and> net_devs t' ! i = None \<and> \<not> listed (net_demux t) f \<and> listed (net_demux t') f"
proof -
  define d where "d = net_demux t"
  have d: "feeds_consistent base d" "0 < base (default_feeds d)" using assms(1) by (simp_all add: net_ok_def d_def)
  have cl: "pid_stream n = None" "secfeed n = None" using assms(2) by (simp_all add: net_closed_def)
  define m where "m = n\<lparr>in_use := in_use n - 1\<rparr>"
  have st: "dvb_net_stop drv (d, n) = Some (d, m)" using assms(8) cl by (simp add: dvb_net_stop_def dvb_net_feed_stop_def m_def)
  define c where "c = choose_mode (m\<lparr>multicast_work := False\<rparr>)"
  have c: "feedtype c = FEEDTYPE_ULE" "if_pid c = if_pid n" "restart_work c = restart_work n"
    using assms(8) by (simp_all add: c_def choose_mode_def m_def)
  from alloc_pid_gives [OF d, of "intr 0" "if_pid n" DMX_PES_OTHER] assms(11)
  have d1: "feeds_consistent base d1" "listed d1 f" by (simp_all add: d_def)
  from start_pid_gives [OF d1, of drv "intr 12"] obtain d2 q where
    s: "demux_ts_feed_start_filtering drv (intr 12) d1 f = Some (d2, q)" "listed d2 f" by (auto split: option.splits)
  have "dvb_net_feed_stop drv (d, m\<lparr>multicast_work := False\<rparr>) = Some (d, m\<lparr>multicast_work := False\<rparr>, 0)"
    using assms(8) cl by (simp add: dvb_net_feed_stop_def m_def)
  moreover have "dvb_net_feed_start drv intr (d, c) =
      Some (d2, c\<lparr>secfeed := None, if_secfilter := None, pid_stream := Some f\<rparr>, 0)"
    using assms(11) s(1) c by (simp add: dvb_net_feed_start_def Let_def d_def)
  ultimately have "wq_set_multicast_list drv intr (d, m) =
      Some (d2, c\<lparr>secfeed := None, if_secfilter := None, pid_stream := Some f\<rparr>)"
    by (simp add: wq_set_multicast_list_def stop_then_def flip: c_def)
  then have "flush_works drv intr (d, m) = Some (d2, c\<lparr>secfeed := None, if_secfilter := None, pid_stream := Some f\<rparr>)"
    using assms(9,10) c(3) by (simp add: flush_works_def) (simp add: m_def)
  then have "dvb_net_remove_if drv intr i t =
      Some (t\<lparr>net_demux := d2, slot_used := (slot_used t)[i := False], net_devs := (net_devs t)[i := None]\<rparr>, 0)"
    using assms(3-7) st by (simp add: dvb_net_remove_if_def mem_at_def d_def)
  moreover have "\<not> listed d f" by (rule alloc_pid_new [OF d(1) assms(11) [folded d_def]])
  ultimately show ?thesis using s(2) assms(5) by (simp add: d_def)
qed

lemma demo_ctl_feeds:
  "heap_feeds demo_ctl 3 = Some \<lparr>fs_embedding_pid = - 1, fs_isi = - 1, include_default_feeds = False,
     fs_refcount = 1, output_feed_list = [], embedded_streams = [], cnt_storage = Some (replicate MAX_PID 0xff @ [0])\<rparr>"
  by (simp add: demo_ctl_def neumo_dvb_dmx_init_def demo_raw_def demo_dmx_def Let_def dvb_demux_feeds_init_def)

lemma demo_alloc_pid:
  "\<exists>d1. dvbdmx_allocate_neumo_pid_stream False demo_ctl 0x100 TS_PACKET DMX_PES_OTHER (Some (default_feeds demo_ctl)) = Some (d1, Inr 0)"
  by (simp add: dvbdmx_allocate_neumo_pid_stream_def Let_def interruptible_def locked_def mutex_lock_def
      mutex_unlock_def demo_ctl_simps demo_ctl_feeds dvb_dmx_feed_alloc_def dvb_demux_output_feed_add_def dvb_demux_output_feed_find_def
      feeds_get_def upd_feeds_def upd_feed_def mem_at_def claim_pes_def)

definition demo_table :: dvb_net where
  "demo_table = \<lparr>net_demux = demo_ctl, net_devs = [Some ((demo_if FEEDTYPE_ULE)\<lparr>multicast_work := True\<rparr>)], slot_used = [True]\<rparr>"

theorem removed_interface_keeps_feed_witness:
  "case dvb_net_remove_if demo_drv (\<lambda>_. False) 0 demo_table of None \<Rightarrow> False
    | Some (t', r) \<Rightarrow> r = 0 \<and> net_devs t' ! 0 = None \<and> \<not> listed (net_demux demo_table) 0 \<and> listed (net_demux t') 0"
proof -
  let ?n = "(demo_if FEEDTYPE_ULE)\<lparr>multicast_work := True\<rparr>"
  have ok: "net_ok (owned demo_ctl) (demo_ctl, ?n)" "net_closed (demo_ctl, ?n)"
    using net_ok_cong [OF demo_if_ok(1) [of FEEDTYPE_ULE], of ?n] demo_if_ok(2) [of FEEDTYPE_ULE] by simp_all
  have n: "in_use ?n = 0" "feedtype ?n = FEEDTYPE_ULE" "multicast_work ?n" "\<not> restart_work ?n" "if_pid ?n = 0x100"
    by (simp_all add: demo_if_def new_interface_def)
  from demo_alloc_pid obtain d1 where a:
    "dvbdmx_allocate_neumo_pid_stream False demo_ctl 0x100 TS_PACKET DMX_PES_OTHER (Some (default_feeds demo_ctl)) = Some (d1, Inr 0)"
    by blast
  have t: "net_demux demo_table = demo_ctl" "net_devs demo_table = [Some ?n]" "slot_used demo_table = [True]"
    by (simp_all add: demo_table_def)
  show ?thesis
    by (rule removed_interface_keeps_feed [where n = ?n and base = "owned demo_ctl" and ?d1.0 = d1])
      (use ok n a in \<open>simp_all only: t nth_Cons_0 list.size\<close>, simp_all)
qed

definition demo_caller :: net_caller where
  "demo_caller = \<lparr>read_only = False, admin = True, module_ok = True, interrupted = False, no_memory = False, registered = 0,
     adapter_mac = [2, 0, 0, 0, 0, 1]\<rparr>"

text \<open>
  An interface for which there was no memory or that was not registered keeps its place in the
  table, without a device: asking for it runs into the null pointer.
\<close>

theorem failed_interface_dereferenced:
  assumes "get_if t = Some (t1, i)" "length (net_devs t) = 10" "length (slot_used t) = 10" "oom \<and> net_devs t ! i = None \<or> \<not> oom \<and> reg < 0"
  shows "case dvb_net_add_if oom reg mac pid (Some ft) t of (t', r) \<Rightarrow> r < 0 \<and>
    dvb_net_do_ioctl drv intr c (NET_GET_IF i) t' = (if read_only c then Some (t', Err (- EPERM))
      else if interrupted c then Some (t', Err (- ERESTARTSYS)) else None)"
proof -
  have i: "i < 10" "t1 = t\<lparr>slot_used := (slot_used t)[i := True]\<rparr>"
    using assms(1) by (auto simp: get_if_def find_Some_iff in_set_conv_nth)
  show ?thesis using assms(1-4) i
    by (auto simp: dvb_net_add_if_def dvb_net_do_ioctl_def ioctl_get_def mem_at_def)
qed

theorem failed_interface_dereferenced_witness:
  "case dvb_net_add_if True 0 [2, 0, 0, 0, 0, 1] 0x100 (Some FEEDTYPE_MPE) (dvb_net_init demo_ctl) of (t', r) \<Rightarrow> r < 0 \<and>
    dvb_net_do_ioctl demo_drv (\<lambda>_. False) demo_caller (NET_GET_IF 0) t' = (if read_only demo_caller then Some (t', Err (- EPERM))
      else if interrupted demo_caller then Some (t', Err (- ERESTARTSYS)) else None)"
  by (rule failed_interface_dereferenced) (simp_all add: dvb_net_init_def get_if_def upt_rec)

end
