(* ===== verification/DmxBuffer.thy ===== *)
theory DmxBuffer imports DemuxFeed RingBuffer begin

text \<open>
  The demux device (neumo-dmxdev.c, neumo-dmxdev.h): its filters, and the buffers between the
  callbacks of the demux and the readers.

  A buffer is a \<open>dvb_ringbuffer\<close>; it has no memory yet when its data is empty (no buffer of
  size zero is ever allocated).  The filters are not switched to streaming (\<open>dvb_vb2_is_streaming\<close>
  is false), so what the callbacks deliver goes into the ring buffers.
\<close>

abbreviation (input) EOVERFLOW :: int where "EOVERFLOW \<equiv> 75"

subsection \<open>Filters\<close>

datatype dmxdev_type = DMXDEV_TYPE_NONE | DMXDEV_TYPE_SEC | DMXDEV_TYPE_PES

datatype neumo_dmxdev_state =
    DMXDEV_STATE_FREE
  | DMXDEV_STATE_ALLOCATED
  | DMXDEV_STATE_SET_STREAM_SELECT
  | DMXDEV_STATE_SET_PES
  | DMXDEV_STATE_GO
  | DMXDEV_STATE_DONE
  | DMXDEV_STATE_TIMEDOUT

text \<open>The states are ordered as they are declared.\<close>

primrec state_rank :: "neumo_dmxdev_state \<Rightarrow> nat" where
  "state_rank DMXDEV_STATE_FREE = 0"
| "state_rank DMXDEV_STATE_ALLOCATED = 1"
| "state_rank DMXDEV_STATE_SET_STREAM_SELECT = 2"
| "state_rank DMXDEV_STATE_SET_PES = 3"
| "state_rank DMXDEV_STATE_GO = 4"
| "state_rank DMXDEV_STATE_DONE = 5"
| "state_rank DMXDEV_STATE_TIMEDOUT = 6"

instantiation neumo_dmxdev_state :: linorder
begin

definition less_eq_neumo_dmxdev_state :: "neumo_dmxdev_state \<Rightarrow> neumo_dmxdev_state \<Rightarrow> bool" where
  "less_eq_neumo_dmxdev_state a b \<longleftrightarrow> state_rank a \<le> state_rank b"

definition less_neumo_dmxdev_state :: "neumo_dmxdev_state \<Rightarrow> neumo_dmxdev_state \<Rightarrow> bool" where
  "less_neumo_dmxdev_state a b \<longleftrightarrow> state_rank a < state_rank b"

instance
proof
  fix a b :: neumo_dmxdev_state
  show "a \<le> b \<Longrightarrow> b \<le> a \<Longrightarrow> a = b"
    by (cases a; cases b) (simp_all add: less_eq_neumo_dmxdev_state_def)
qed (auto simp: less_eq_neumo_dmxdev_state_def less_neumo_dmxdev_state_def)

end

lemmas state_order = less_eq_neumo_dmxdev_state_def less_neumo_dmxdev_state_def

text \<open>What user space asks for; \<open>Other_output\<close> is a number that names no output.\<close>

datatype dmx_output =
    DMX_OUT_DECODER
  | DMX_OUT_TAP
  | DMX_OUT_TS_TAP
  | DMX_OUT_TSDEMUX_TAP
  | DMX_OUT_DEMUX_TAP
  | Other_output nat

record dmx_sct_filter_params =
  sct_pid :: nat
  sct_filter :: "byte list"
  sct_mask :: "byte list"
  sct_mode :: "byte list"
  sct_timeout :: u32
  sct_flags :: u32

record dmx_pes_filter_params =
  pes_pid :: nat
  pes_output :: dmx_output
  pes_type :: nat
  pes_flags :: u32

abbreviation (input) DMX_CHECK_CRC :: u32 where "DMX_CHECK_CRC \<equiv> 1"
abbreviation (input) DMX_ONESHOT :: u32 where "DMX_ONESHOT \<equiv> 2"
abbreviation (input) DMX_IMMEDIATE_START :: u32 where "DMX_IMMEDIATE_START \<equiv> 4"
abbreviation (input) DMX_FILTER_SIZE :: nat where "DMX_FILTER_SIZE \<equiv> 16"

text \<open>
  The entries of the list of a filter: PIDs, with the stream of the demux once it is started, and
  embedded streams, with their feeds and stream once they are started.
\<close>

datatype dmxdev_feed =
    Pid_feed nat "nat option"
  | Stid_feed int int "nat option" "nat option"
  | T2mi_feed int int "nat option" "nat option"

text \<open>
  The two unions of a filter.  The head of the list shares its place with the pointer to the
  section feed, so after a section filter was started the head is the pointer.
\<close>

datatype feed_union = Feed_list "dmxdev_feed list" | Feed_sec "nat option"

datatype params_union = Params_unset | Params_sec dmx_sct_filter_params | Params_pes dmx_pes_filter_params

record neumo_dmxdev_filter =
  filter_sec :: "nat option"
  feed_u :: feed_union
  params_u :: params_union
  df_type :: dmxdev_type
  df_state :: neumo_dmxdev_state
  df_buffer :: ringbuf
  df_timer :: "nat option"
  current_feeds :: "nat option"
  df_todo :: int
  secheader :: "byte list"

text \<open>A member of a union that was not stored last has no value in the model.\<close>

definition params_sec :: "neumo_dmxdev_filter \<Rightarrow> dmx_sct_filter_params option" where
  "params_sec f = (case params_u f of Params_sec p \<Rightarrow> Some p | _ \<Rightarrow> None)"

definition params_pes :: "neumo_dmxdev_filter \<Rightarrow> dmx_pes_filter_params option" where
  "params_pes f = (case params_u f of Params_pes p \<Rightarrow> Some p | _ \<Rightarrow> None)"

definition feed_sec :: "neumo_dmxdev_filter \<Rightarrow> nat option option" where
  "feed_sec f = (case feed_u f of Feed_sec p \<Rightarrow> Some p | Feed_list _ \<Rightarrow> None)"

definition feed_list :: "neumo_dmxdev_filter \<Rightarrow> dmxdev_feed list option" where
  "feed_list f = (case feed_u f of Feed_list l \<Rightarrow> Some l | Feed_sec _ \<Rightarrow> None)"

subsection \<open>Buffers\<close>

text \<open>The comparison of the length with the free space is one of unsigned numbers.\<close>

definition dvb_dmxdev_buffer_write :: "ringbuf \<Rightarrow> byte list \<Rightarrow> (ringbuf \<times> int) option" where
  "dvb_dmxdev_buffer_write r src =
     (if src = [] then Some (r, 0)
      else if rb_data r = [] then Some (r, 0)
      else if 0 \<le> dvb_ringbuffer_free r \<and> dvb_ringbuffer_free r < int (length src) then Some (r, - EOVERFLOW)
      else dvb_ringbuffer_write r src)"

text \<open>
  What ends a wait for data: a signal, or something that happens to the buffer.  When nothing
  does, there is no answer.
\<close>

datatype wake = Signal | Event "ringbuf \<Rightarrow> ringbuf"

fun wait_readable :: "wake list \<Rightarrow> ringbuf \<Rightarrow> (int \<times> ringbuf \<times> wake list) option" where
  "wait_readable [] r = (if \<not> dvb_ringbuffer_empty r \<or> rb_error r \<noteq> 0 then Some (0, r, []) else None)"
| "wait_readable (w # ws) r =
     (if \<not> dvb_ringbuffer_empty r \<or> rb_error r \<noteq> 0 then Some (0, r, w # ws)
      else (case w of Signal \<Rightarrow> Some (- ERESTARTSYS, r, ws) | Event g \<Rightarrow> wait_readable ws (g r)))"

text \<open>
  The user's side: whether the file is non-blocking, which copies to user space succeed (by what
  was left to read), and what a copy back from user space gives.
\<close>

record reader =
  nonblock :: bool
  copy_ok :: "nat \<Rightarrow> bool \<times> bool"
  copy_back :: "byte list \<Rightarrow> byte list option"

text \<open>
  The loop, with what is left to read, the last result, and the bytes given to the user.  Each
  turn reads at least one byte, so one turn more than bytes is enough.
\<close>

fun read_loop ::
    "nat \<Rightarrow> reader \<Rightarrow> wake list \<Rightarrow> ringbuf \<Rightarrow> nat \<Rightarrow> int \<Rightarrow> byte list \<Rightarrow>
     (ringbuf \<times> wake list \<times> nat \<times> int \<times> byte list) option" where
  "read_loop 0 u ws r todo ret out = None"
| "read_loop (Suc n) u ws r todo ret out =
     (if todo = 0 then Some (r, ws, todo, ret, out)
      else if nonblock u \<and> dvb_ringbuffer_empty r then Some (r, ws, todo, - EAGAIN, out)
      else do {
        (w, r1, ws1) \<leftarrow> wait_readable ws r;
        (if w < 0 then Some (r1, ws1, todo, w, out)
         else if rb_error r1 \<noteq> 0 then Some (dvb_ringbuffer_flush r1, ws1, todo, rb_error r1, out)
         else do {
           (r2, ret2, bs) \<leftarrow> dvb_ringbuffer_read_user (fst (copy_ok u todo)) (snd (copy_ok u todo)) r1
             (min (nat (dvb_ringbuffer_avail r1)) todo);
           (if ret2 < 0 then Some (r2, ws1, todo, ret2, out @ bs)
            else read_loop n u ws1 r2 (todo - nat ret2) ret2 (out @ bs)) }) })"

definition dvb_dmxdev_buffer_read ::
    "reader \<Rightarrow> wake list \<Rightarrow> ringbuf \<Rightarrow> nat \<Rightarrow> (ringbuf \<times> wake list \<times> int \<times> byte list) option" where
  "dvb_dmxdev_buffer_read u ws r count =
     (if rb_data r = [] then Some (r, ws, 0, [])
      else if rb_error r \<noteq> 0 then Some (dvb_ringbuffer_flush r, ws, rb_error r, [])
      else do {
        (r1, ws1, todo, ret, out) \<leftarrow> read_loop (count + 1) u ws r count 0 [];
        Some (r1, ws1, if count - todo \<noteq> 0 then int (count - todo) else ret, out) })"

text \<open>\<open>mem\<close> is the memory that \<open>vmalloc\<close> returns, or None.\<close>

definition set_buffer_size :: "byte list option \<Rightarrow> nat \<Rightarrow> ringbuf \<Rightarrow> ringbuf \<times> int" where
  "set_buffer_size mem sz r =
     (case mem of None \<Rightarrow> (r, - ENOMEM)
      | Some m \<Rightarrow> (dvb_ringbuffer_reset (r\<lparr>rb_data := m, rb_size := sz\<rparr>), 0))"

definition dvb_dvr_set_buffer_size :: "byte list option \<Rightarrow> nat \<Rightarrow> ringbuf \<Rightarrow> ringbuf \<times> int" where
  "dvb_dvr_set_buffer_size mem sz r =
     (if rb_size r = sz then (r, 0) else if sz = 0 then (r, - EINVAL) else set_buffer_size mem sz r)"

definition dvb_dmxdev_set_buffer_size ::
    "byte list option \<Rightarrow> nat \<Rightarrow> neumo_dmxdev_filter \<Rightarrow> neumo_dmxdev_filter \<times> int" where
  "dvb_dmxdev_set_buffer_size mem sz f =
     (if rb_size (df_buffer f) = sz then (f, 0)
      else if sz = 0 then (f, - EINVAL)
      else if DMXDEV_STATE_GO \<le> df_state f then (f, - EBUSY)
      else (case set_buffer_size mem sz (df_buffer f) of (b, r) \<Rightarrow> (f\<lparr>df_buffer := b\<rparr>, r)))"

subsection \<open>The timer of a section filter\<close>

definition dvb_dmxdev_filter_timeout :: "neumo_dmxdev_filter \<Rightarrow> neumo_dmxdev_filter" where
  "dvb_dmxdev_filter_timeout f =
     f\<lparr>df_timer := None, df_buffer := (df_buffer f)\<lparr>rb_error := - ETIMEDOUT\<rparr>, df_state := DMXDEV_STATE_TIMEDOUT\<rparr>"

text \<open>The delay is computed with 32 bits; \<open>hz\<close> are the ticks of a second.\<close>

definition timer_ticks :: "u32 \<Rightarrow> u32 \<Rightarrow> nat" where
  "timer_ticks hz t = unat ((hz div 2 + hz * t) div 1000)"

definition dvb_dmxdev_filter_timer ::
    "u32 \<Rightarrow> nat \<Rightarrow> neumo_dmxdev_filter \<Rightarrow> neumo_dmxdev_filter option" where
  "dvb_dmxdev_filter_timer hz jiffies f = map_option (\<lambda>para.
     f\<lparr>df_timer := if sct_timeout para \<noteq> 0 then Some (jiffies + 1 + timer_ticks hz (sct_timeout para)) else None\<rparr>)
     (params_sec f)"

subsection \<open>The callbacks of the demux\<close>

definition write_both :: "ringbuf \<Rightarrow> byte list \<Rightarrow> byte list \<Rightarrow> ringbuf option" where
  "write_both r b1 b2 = do {
     (r1, ret) \<leftarrow> dvb_dmxdev_buffer_write r b1;
     (r2, ret2) \<leftarrow> (if ret = int (length b1) then dvb_dmxdev_buffer_write r1 b2 else Some (r1, ret));
     Some (if ret2 < 0 then r2\<lparr>rb_error := ret2\<rparr> else r2) }"

definition dvb_dmxdev_section_callback ::
    "neumo_dmxdev_filter \<Rightarrow> byte list \<Rightarrow> byte list \<Rightarrow> neumo_dmxdev_filter option" where
  "dvb_dmxdev_section_callback f b1 b2 =
     (if rb_error (df_buffer f) \<noteq> 0 then Some f
      else if df_state f \<noteq> DMXDEV_STATE_GO then Some f
      else do {
        b \<leftarrow> write_both (df_buffer f) b1 b2;
        para \<leftarrow> params_sec f;
        Some (f\<lparr>df_timer := None, df_buffer := b,
          df_state := if sct_flags para AND DMX_ONESHOT \<noteq> 0 then DMXDEV_STATE_DONE else df_state f\<rparr>) })"

text \<open>Packets go to the buffer of the filter or to that of the DVR device.\<close>

definition dvb_dmxdev_pid_callback ::
    "neumo_dmxdev_filter \<times> ringbuf \<Rightarrow> byte list \<Rightarrow> byte list \<Rightarrow> (neumo_dmxdev_filter \<times> ringbuf) option" where
  "dvb_dmxdev_pid_callback s b1 b2 = do {
     let (f, dvr) = s;
     para \<leftarrow> params_pes f;
     (if pes_output para = DMX_OUT_DECODER then Some s
      else if pes_output para \<in> {DMX_OUT_TAP, DMX_OUT_TSDEMUX_TAP}
      then (if rb_error (df_buffer f) \<noteq> 0 then Some s
            else map_option (\<lambda>b. (f\<lparr>df_buffer := b\<rparr>, dvr)) (write_both (df_buffer f) b1 b2))
      else (if rb_error dvr \<noteq> 0 then Some s
            else map_option (\<lambda>b. (f, b)) (write_both dvr b1 b2))) }"

subsection \<open>Reading\<close>

text \<open>The data after the header of a section; \<open>donec\<close> bytes were given to the user already.\<close>

definition read_sec_data ::
    "reader \<Rightarrow> wake list \<Rightarrow> neumo_dmxdev_filter \<Rightarrow> nat \<Rightarrow> nat \<Rightarrow> byte list \<Rightarrow>
     (neumo_dmxdev_filter \<times> wake list \<times> int \<times> byte list) option" where
  "read_sec_data u ws f count donec out = do {
     (b, ws1, result, bs) \<leftarrow> dvb_dmxdev_buffer_read u ws (df_buffer f) (min count (nat (df_todo f)));
     Some (if result < 0 then (f\<lparr>df_buffer := b\<rparr>, ws1, result, out @ bs)
       else (f\<lparr>df_buffer := b, df_todo := df_todo f - result\<rparr>, ws1, result + int donec, out @ bs)) }"

text \<open>How much of the header is read: a comparison of unsigned numbers.\<close>

definition header_count :: "int \<Rightarrow> nat \<Rightarrow> nat" where
  "header_count t count = (if 3 + t < 0 \<or> int count < 3 + t then count else nat (3 + t))"

definition header_length :: "byte list \<Rightarrow> int" where
  "header_length h = uint ((push_bit 8 (ucast (h ! 1)) OR ucast (h ! 2)) AND (0xfff :: u32))"

definition dvb_dmxdev_read_sec ::
    "reader \<Rightarrow> wake list \<Rightarrow> neumo_dmxdev_filter \<Rightarrow> nat \<Rightarrow>
     (neumo_dmxdev_filter \<times> wake list \<times> int \<times> byte list) option" where
  "dvb_dmxdev_read_sec u ws f count =
     (if df_todo f \<le> 0
      then do {
        (b, ws1, result, bs) \<leftarrow> dvb_dmxdev_buffer_read u ws (df_buffer f) (header_count (df_todo f) count);
        (if result < 0 then Some (f\<lparr>df_buffer := b, df_todo := 0\<rparr>, ws1, result, bs)
         else (case copy_back u bs of
             None \<Rightarrow> Some (f\<lparr>df_buffer := b\<rparr>, ws1, - EFAULT, bs)
           | Some h \<Rightarrow> do {
               sh \<leftarrow> memcpy (secheader f) (nat (- df_todo f)) (take (nat result) h);
               let f1 = f\<lparr>df_buffer := b, secheader := sh, df_todo := df_todo f - result\<rparr>;
               (if - 3 < df_todo f1 then Some (f1, ws1, result, bs)
                else let f2 = f1\<lparr>df_todo := header_length sh\<rparr>
                  in if count - nat result = 0 then Some (f2, ws1, result, bs)
                     else read_sec_data u ws1 f2 (count - nat result) (nat result) bs) })) }
      else read_sec_data u ws f count 0 [])"

definition neumo_dvb_demux_read ::
    "bool \<Rightarrow> reader \<Rightarrow> wake list \<Rightarrow> neumo_dmxdev_filter \<Rightarrow> nat \<Rightarrow>
     (neumo_dmxdev_filter \<times> wake list \<times> int \<times> byte list) option" where
  "neumo_dvb_demux_read intr u ws f count =
     (if intr then Some (f, ws, - ERESTARTSYS, [])
      else if df_type f = DMXDEV_TYPE_SEC then dvb_dmxdev_read_sec u ws f count
      else map_option (\<lambda>(b, ws1, r, bs). (f\<lparr>df_buffer := b\<rparr>, ws1, r, bs))
        (dvb_dmxdev_buffer_read u ws (df_buffer f) count))"

text \<open>The bits of \<open>poll\<close>.\<close>

abbreviation (input) EPOLLIN :: u32 where "EPOLLIN \<equiv> 1"
abbreviation (input) EPOLLPRI :: u32 where "EPOLLPRI \<equiv> 2"
abbreviation (input) EPOLLOUT :: u32 where "EPOLLOUT \<equiv> 4"
abbreviation (input) EPOLLERR :: u32 where "EPOLLERR \<equiv> 8"
abbreviation (input) EPOLLRDNORM :: u32 where "EPOLLRDNORM \<equiv> 64"
abbreviation (input) EPOLLWRNORM :: u32 where "EPOLLWRNORM \<equiv> 256"

definition poll_buffer :: "ringbuf \<Rightarrow> u32" where
  "poll_buffer r =
     (if rb_error r \<noteq> 0 then EPOLLIN OR EPOLLRDNORM OR EPOLLPRI OR EPOLLERR else 0) OR
     (if \<not> dvb_ringbuffer_empty r then EPOLLIN OR EPOLLRDNORM OR EPOLLPRI else 0)"

definition neumo_dvb_demux_poll :: "bool \<Rightarrow> neumo_dmxdev_filter \<Rightarrow> u32" where
  "neumo_dvb_demux_poll gone f =
     (if gone then EPOLLERR
      else if df_state f \<noteq> DMXDEV_STATE_GO \<and> df_state f \<noteq> DMXDEV_STATE_DONE \<and> df_state f \<noteq> DMXDEV_STATE_TIMEDOUT
      then 0 else poll_buffer (df_buffer f))"

end
