(* ===== verification/DmxDevice.thy ===== *)
theory DmxDevice imports DmxBuffer DemuxControl begin

text \<open>
  The demux device (neumo-dmxdev.c) on the model of the demux: start and stop of its filters,
  their parameters, the ioctls, open and release, the DVR device.

  A file of the device is the index of its filter.  \<open>pid_priv\<close> and \<open>sec_priv\<close> are the pointers
  \<open>priv\<close> of the streams and section filters of the demux, as indices of filters.  The filter
  table is empty while there is none.  \<^const>\<open>None\<close> is an access through a null pointer or to an
  object that is gone, or the use of a member of a union that was not stored last.
\<close>

record neumo_dmxdev =
  dd_demux :: dvb_demux
  dd_filters :: "neumo_dmxdev_filter list"
  pid_priv :: "nat \<Rightarrow> nat option"
  sec_priv :: "nat \<Rightarrow> nat option"
  may_do_mmap :: bool
  dd_exit :: bool
  cap_duplex :: bool
  dvr_orig_fe :: "nat option"
  dvr_buffer :: ringbuf
  demux_users :: int
  dvr_users :: int
  dvr_readers :: int

text \<open>
  What a call meets: the driver, the waits for a mutex that a signal interrupts, the allocations
  of small objects that fail, the memory of \<open>vmalloc\<close> for a size, and the time.
\<close>

record dev_env =
  de_drv :: dmx_driver
  de_intr :: "nat \<Rightarrow> bool"
  de_oom :: "nat \<Rightarrow> bool"
  vmalloc :: "nat \<Rightarrow> byte list option"
  de_hz :: u32
  de_jiffies :: nat

definition upd_filter :: "nat \<Rightarrow> (neumo_dmxdev_filter \<Rightarrow> neumo_dmxdev_filter) \<Rightarrow> neumo_dmxdev \<Rightarrow> neumo_dmxdev" where
  "upd_filter i g d = d\<lparr>dd_filters := (dd_filters d)[i := g (dd_filters d ! i)]\<rparr>"

definition neumo_dvb_dmxdev_filter_state_set :: "nat \<Rightarrow> neumo_dmxdev_state \<Rightarrow> neumo_dmxdev \<Rightarrow> neumo_dmxdev" where
  "neumo_dvb_dmxdev_filter_state_set i st = upd_filter i (\<lambda>f. f\<lparr>df_state := st\<rparr>)"

subsection \<open>Stop and start of the feeds\<close>

fun stop_streams :: "dmx_driver \<Rightarrow> dmxdev_feed list \<Rightarrow> dvb_demux \<Rightarrow> dvb_demux option" where
  "stop_streams drv [] d = Some d"
| "stop_streams drv (Pid_feed _ (Some s) # fs) d = do {
     (d1, _) \<leftarrow> demux_ts_feed_stop_filtering drv d s;
     stop_streams drv fs d1 }"
| "stop_streams drv (_ # fs) d = stop_streams drv fs d"

definition dvb_dmxdev_feed_stop :: "dev_env \<Rightarrow> nat \<Rightarrow> neumo_dmxdev \<Rightarrow> (neumo_dmxdev \<times> int) option" where
  "dvb_dmxdev_feed_stop env i d = do {
     f \<leftarrow> mem_at (dd_filters d) i;
     let d1 = neumo_dvb_dmxdev_filter_state_set i DMXDEV_STATE_SET_PES d;
     (case df_type f of
        DMXDEV_TYPE_SEC \<Rightarrow> do {
          p \<leftarrow> feed_sec f;
          s \<leftarrow> p;
          (dm, _) \<leftarrow> dmx_section_feed_stop_filtering (de_drv env) (dd_demux d) s;
          Some ((upd_filter i (\<lambda>f. f\<lparr>df_timer := None\<rparr>) d1)\<lparr>dd_demux := dm\<rparr>, 0) }
      | DMXDEV_TYPE_PES \<Rightarrow> do {
          l \<leftarrow> feed_list f;
          dm \<leftarrow> stop_streams (de_drv env) l (dd_demux d);
          Some (d1\<lparr>dd_demux := dm\<rparr>, 0) }
      | DMXDEV_TYPE_NONE \<Rightarrow> Some (d1, - EINVAL)) }"

text \<open>
  An embedded stream of the list is allocated below the current feeds, and its feeds become the
  current ones.  The result of the allocation is not looked at.
\<close>

definition start_embedded ::
    "(dvb_demux \<Rightarrow> nat option \<Rightarrow> (dvb_demux \<times> (int + nat)) option) \<Rightarrow> dvb_demux \<Rightarrow> nat option \<Rightarrow>
     nat option \<times> nat option \<Rightarrow> (dvb_demux \<times> nat option \<times> nat option) option" where
  "start_embedded alloc d current old = do {
     (d1, r) \<leftarrow> alloc d current;
     (case r of
        Inl _ \<Rightarrow> Some (d1, old)
      | Inr b \<Rightarrow> do { bbf \<leftarrow> heap_bbf d1 b; Some (d1, Some b, Some (bbf_feeds bbf)) }) }"

text \<open>The streams of the list, the feeds that are current then, and what is put in the entry.\<close>

definition start_stid ::
    "dev_env \<Rightarrow> nat \<Rightarrow> int \<Rightarrow> int \<Rightarrow> dvb_demux \<Rightarrow> nat option \<Rightarrow> nat option \<times> nat option \<Rightarrow>
     (dvb_demux \<times> nat option \<times> nat option) option" where
  "start_stid env k pid isi = start_embedded (\<lambda>d cur. dvbdmx_allocate_stid_stream (de_intr env (2 * k)) (de_oom env k) d pid isi cur)"

definition start_t2mi ::
    "dev_env \<Rightarrow> nat \<Rightarrow> int \<Rightarrow> int \<Rightarrow> dvb_demux \<Rightarrow> nat option \<Rightarrow> nat option \<times> nat option \<Rightarrow>
     (dvb_demux \<times> nat option \<times> nat option) option" where
  "start_t2mi env k pid isi = start_embedded (\<lambda>d cur. dvbdmx_allocate_t2mi_stream (de_intr env (2 * k)) (de_oom env k) d pid isi cur)"

text \<open>
  The loop of \<open>dvb_dmxdev_feed_start\<close>; \<open>Inl\<close> stops it with an error.
\<close>

fun restart_streams ::
    "dev_env \<Rightarrow> nat \<Rightarrow> dmxdev_feed list \<Rightarrow> dvb_demux \<Rightarrow> nat option \<Rightarrow>
     (dvb_demux \<times> nat option \<times> dmxdev_feed list \<times> int) option" where
  "restart_streams env k [] d cur = Some (d, cur, [], 0)"
| "restart_streams env k (Pid_feed pid s # fs) d cur = do {
     i \<leftarrow> s;
     (d1, r) \<leftarrow> demux_ts_feed_start_filtering (de_drv env) (de_intr env (2 * k)) d i;
     (if r < 0 then Some (d1, cur, Pid_feed pid s # fs, r)
      else map_option (\<lambda>(d2, cur2, fs2, r2). (d2, cur2, Pid_feed pid s # fs2, r2)) (restart_streams env (k + 1) fs d1 cur)) }"
| "restart_streams env k (Stid_feed pid isi b p # fs) d cur = do {
     (d1, b1, p1) \<leftarrow> start_stid env k pid isi d cur (b, p);
     map_option (\<lambda>(d2, cur2, fs2, r2). (d2, cur2, Stid_feed pid isi b1 p1 # fs2, r2)) (restart_streams env (k + 1) fs d1 p1) }"
| "restart_streams env k (T2mi_feed pid isi b p # fs) d cur = do {
     (d1, b1, p1) \<leftarrow> start_t2mi env k pid isi d cur (b, p);
     map_option (\<lambda>(d2, cur2, fs2, r2). (d2, cur2, T2mi_feed pid isi b1 p1 # fs2, r2)) (restart_streams env (k + 1) fs d1 p1) }"

definition dvb_dmxdev_feed_start :: "dev_env \<Rightarrow> nat \<Rightarrow> neumo_dmxdev \<Rightarrow> (neumo_dmxdev \<times> int) option" where
  "dvb_dmxdev_feed_start env i d = do {
     f \<leftarrow> mem_at (dd_filters d) i;
     let d1 = neumo_dvb_dmxdev_filter_state_set i DMXDEV_STATE_GO d;
     (case df_type f of
        DMXDEV_TYPE_SEC \<Rightarrow> do {
          p \<leftarrow> feed_sec f;
          s \<leftarrow> p;
          (dm, r) \<leftarrow> dmx_section_feed_start_filtering (de_drv env) (de_intr env 0) (dd_demux d) s;
          Some (d1\<lparr>dd_demux := dm\<rparr>, r) }
      | DMXDEV_TYPE_PES \<Rightarrow> do {
          l \<leftarrow> feed_list f;
          (dm, cur, l1, r) \<leftarrow> restart_streams env 0 l (dd_demux d) (current_feeds f);
          let d2 = (upd_filter i (\<lambda>f. f\<lparr>feed_u := Feed_list l1, current_feeds := cur\<rparr>) d1)\<lparr>dd_demux := dm\<rparr>;
          (if r < 0 then map_option (\<lambda>(d3, _). (d3, r)) (dvb_dmxdev_feed_stop env i d2) else Some (d2, 0)) }
      | DMXDEV_TYPE_NONE \<Rightarrow> Some (d1, - EINVAL)) }"

text \<open>The first running section filter on a PID.\<close>

definition running_on :: "nat \<Rightarrow> neumo_dmxdev_filter \<Rightarrow> bool" where
  "running_on pid f \<longleftrightarrow> DMXDEV_STATE_GO \<le> df_state f \<and> df_type f = DMXDEV_TYPE_SEC \<and>
     map_option sct_pid (params_sec f) = Some pid"

definition find_running :: "nat \<Rightarrow> neumo_dmxdev \<Rightarrow> nat option" where
  "find_running pid d = List.find (\<lambda>i. running_on pid (dd_filters d ! i)) [0..<length (dd_filters d)]"

definition dvb_dmxdev_feed_restart :: "dev_env \<Rightarrow> nat \<Rightarrow> neumo_dmxdev \<Rightarrow> (neumo_dmxdev \<times> int) option" where
  "dvb_dmxdev_feed_restart env i d = do {
     f \<leftarrow> mem_at (dd_filters d) i;
     para \<leftarrow> params_sec f;
     (case find_running (sct_pid para) d of
        Some k \<Rightarrow> map_option (\<lambda>(d1, _). (d1, 0)) (dvb_dmxdev_feed_start env k d)
      | None \<Rightarrow> do {
          p \<leftarrow> feed_sec f;
          s \<leftarrow> p;
          (dm, _) \<leftarrow> dvbdmx_release_section_feed (dd_demux d) s;
          Some (d\<lparr>dd_demux := dm\<rparr>, 0) }) }"

subsection \<open>Stop and reset of a filter\<close>

fun release_streams :: "dmxdev_feed list \<Rightarrow> dvb_demux \<Rightarrow> (dvb_demux \<times> dmxdev_feed list) option" where
  "release_streams [] d = Some (d, [])"
| "release_streams (Pid_feed pid s # fs) d = do {
     d1 \<leftarrow> (case s of None \<Rightarrow> Some d | Some i \<Rightarrow> map_option fst (dvbdmx_release_neumo_pid_stream d i));
     map_option (\<lambda>(d2, fs2). (d2, Pid_feed pid None # fs2)) (release_streams fs d1) }"
| "release_streams (Stid_feed pid isi b p # fs) d = do {
     i \<leftarrow> b;
     (d1, _) \<leftarrow> dvbdmx_release_bbframes_stream d i;
     map_option (\<lambda>(d2, fs2). (d2, Stid_feed pid isi b p # fs2)) (release_streams fs d1) }"
| "release_streams (T2mi_feed pid isi b p # fs) d = do {
     i \<leftarrow> b;
     (d1, _) \<leftarrow> dvbdmx_release_bbframes_stream d i;
     map_option (\<lambda>(d2, fs2). (d2, T2mi_feed pid isi b p # fs2)) (release_streams fs d1) }"

definition flush_filter :: "nat \<Rightarrow> neumo_dmxdev \<Rightarrow> neumo_dmxdev" where
  "flush_filter i = upd_filter i (\<lambda>f. f\<lparr>df_buffer := dvb_ringbuffer_flush (df_buffer f)\<rparr>)"

definition stop_sec :: "dev_env \<Rightarrow> nat \<Rightarrow> nat \<Rightarrow> neumo_dmxdev \<Rightarrow> neumo_dmxdev option" where
  "stop_sec env i s d = do {
     (d1, _) \<leftarrow> dvb_dmxdev_feed_stop env i d;
     d2 \<leftarrow> (case filter_sec (dd_filters d1 ! i) of
         None \<Rightarrow> Some d1
       | Some j \<Rightarrow> map_option (\<lambda>(dm, _). d1\<lparr>dd_demux := dm\<rparr>)
           (dmx_section_feed_release_filter (de_drv env) (dd_demux d1) s j));
     (d3, _) \<leftarrow> dvb_dmxdev_feed_restart env i d2;
     Some (upd_filter i (\<lambda>f. f\<lparr>feed_u := Feed_sec None\<rparr>) d3) }"

definition stop_pes :: "dev_env \<Rightarrow> nat \<Rightarrow> neumo_dmxdev \<Rightarrow> neumo_dmxdev option" where
  "stop_pes env i d = do {
     (d1, _) \<leftarrow> dvb_dmxdev_feed_stop env i d;
     l \<leftarrow> feed_list (dd_filters d1 ! i);
     (dm, l1) \<leftarrow> release_streams l (dd_demux d1);
     Some ((upd_filter i (\<lambda>f. f\<lparr>feed_u := Feed_list l1\<rparr>) d1)\<lparr>dd_demux := dm\<rparr>) }"

definition dvb_dmxdev_filter_stop :: "dev_env \<Rightarrow> nat \<Rightarrow> neumo_dmxdev \<Rightarrow> (neumo_dmxdev \<times> int) option" where
  "dvb_dmxdev_filter_stop env i d = do {
     f \<leftarrow> mem_at (dd_filters d) i;
     (if df_state f < DMXDEV_STATE_GO then Some (d, 0)
      else (case df_type f of
          DMXDEV_TYPE_SEC \<Rightarrow> do {
            p \<leftarrow> feed_sec f;
            (case p of
               None \<Rightarrow> Some (flush_filter i d, 0)
             | Some s \<Rightarrow> map_option (\<lambda>d1. (flush_filter i d1, 0)) (stop_sec env i s d)) }
        | DMXDEV_TYPE_PES \<Rightarrow> map_option (\<lambda>d1. (flush_filter i d1, 0)) (stop_pes env i d)
        | DMXDEV_TYPE_NONE \<Rightarrow> Some (d, if df_state f = DMXDEV_STATE_ALLOCATED then 0 else - EINVAL))) }"

definition dvb_dmxdev_delete_pids :: "neumo_dmxdev_filter \<Rightarrow> neumo_dmxdev_filter option" where
  "dvb_dmxdev_delete_pids f = map_option (\<lambda>_. f\<lparr>feed_u := Feed_list []\<rparr>) (feed_list f)"

definition dvb_dmxdev_filter_reset :: "nat \<Rightarrow> neumo_dmxdev_state \<Rightarrow> neumo_dmxdev \<Rightarrow> (neumo_dmxdev \<times> int) option" where
  "dvb_dmxdev_filter_reset i target d = do {
     f \<leftarrow> mem_at (dd_filters d) i;
     (if df_state f \<le> target then Some (d, 0)
      else do {
        f1 \<leftarrow> (if df_type f = DMXDEV_TYPE_PES then dvb_dmxdev_delete_pids f else Some f);
        Some (neumo_dvb_dmxdev_filter_state_set i target
          (upd_filter i (\<lambda>_. f1\<lparr>df_type := DMXDEV_TYPE_NONE, current_feeds := None\<rparr>) d), 0) }) }"

subsection \<open>Start of a filter\<close>

abbreviation (input) DMX_PES_OTHER :: nat where "DMX_PES_OTHER \<equiv> 20"

definition ts_type_of :: "dmx_pes_filter_params \<Rightarrow> u32" where
  "ts_type_of para =
     (if pes_type para < DMX_PES_OTHER then TS_DECODER else 0) OR
     (case pes_output para of
        DMX_OUT_TS_TAP \<Rightarrow> TS_PACKET
      | DMX_OUT_TSDEMUX_TAP \<Rightarrow> TS_PACKET OR TS_DEMUX
      | DMX_OUT_DEMUX_TAP \<Rightarrow> TS_PACKET OR TS_DEMUX OR TS_PAYLOAD_ONLY
      | DMX_OUT_TAP \<Rightarrow> TS_PACKET OR TS_DEMUX OR TS_PAYLOAD_ONLY
      | _ \<Rightarrow> 0)"

text \<open>
  The pointer that an allocation leaves behind: when the type of elementary stream is taken, the
  feed stays allocated, and the pointer to it was stored.
\<close>

definition stream_left :: "dvb_demux \<Rightarrow> nat \<Rightarrow> int + nat \<Rightarrow> nat option" where
  "stream_left d pid r =
     (case r of Inr s \<Rightarrow> Some s
      | Inl e \<Rightarrow> if e = - EINVAL \<and> pid \<le> 0x2000 then first_free (map f_state (feedarray d)) else None)"

text \<open>The stream of an entry; the pointer stays when the start fails and the stream is released.\<close>

definition dvb_dmxdev_start_pid_feed ::
    "dev_env \<Rightarrow> nat \<Rightarrow> nat \<Rightarrow> dmx_pes_filter_params \<Rightarrow> nat option \<Rightarrow> nat \<Rightarrow>
     dvb_demux \<times> (nat \<Rightarrow> nat option) \<Rightarrow> ((dvb_demux \<times> (nat \<Rightarrow> nat option)) \<times> nat option \<times> int) option" where
  "dvb_dmxdev_start_pid_feed env k i para cur pid s = do {
     let (d, priv) = s;
     (d1, r) \<leftarrow> dvbdmx_allocate_neumo_pid_stream (de_intr env (2 * k)) d pid (ts_type_of para) (pes_type para) cur;
     (case r of
        Inl e \<Rightarrow> Some ((d1, case stream_left d pid r of None \<Rightarrow> priv | Some st \<Rightarrow> priv(st := None)), stream_left d pid r, e)
      | Inr st \<Rightarrow> do {
          let priv1 = priv(st \<mapsto> i);
          (d2, ret) \<leftarrow> demux_ts_feed_start_filtering (de_drv env) (de_intr env (2 * k + 1)) d1 st;
          (if ret < 0
           then do { (d3, _) \<leftarrow> dvbdmx_release_neumo_pid_stream d2 st; Some ((d3, priv1), Some st, ret) }
           else Some ((d2, priv1), Some st, 0)) }) }"

text \<open>The entries in the order of their activation, which is that of the list backwards.\<close>

fun start_streams ::
    "dev_env \<Rightarrow> nat \<Rightarrow> nat \<Rightarrow> dmx_pes_filter_params \<Rightarrow> dmxdev_feed list \<Rightarrow> dvb_demux \<times> (nat \<Rightarrow> nat option) \<Rightarrow> nat option \<Rightarrow>
     ((dvb_demux \<times> (nat \<Rightarrow> nat option)) \<times> nat option \<times> dmxdev_feed list \<times> int) option" where
  "start_streams env k i para [] s cur = Some (s, cur, [], 0)"
| "start_streams env k i para (Pid_feed pid _ # fs) s cur = do {
     (s1, st, r) \<leftarrow> dvb_dmxdev_start_pid_feed env k i para cur pid s;
     (if r < 0 then Some (s1, cur, Pid_feed pid st # fs, r)
      else map_option (\<lambda>(s2, cur2, fs2, r2). (s2, cur2, Pid_feed pid st # fs2, r2)) (start_streams env (k + 1) i para fs s1 cur)) }"
| "start_streams env k i para (Stid_feed pid isi b p # fs) s cur = do {
     (d1, b1, p1) \<leftarrow> start_stid env k pid isi (fst s) cur (b, p);
     map_option (\<lambda>(s2, cur2, fs2, r2). (s2, cur2, Stid_feed pid isi b1 p1 # fs2, r2))
       (start_streams env (k + 1) i para fs (d1, snd s) p1) }"
| "start_streams env k i para (T2mi_feed pid isi b p # fs) s cur = do {
     (d1, b1, p1) \<leftarrow> start_t2mi env k pid isi (fst s) cur (b, p);
     map_option (\<lambda>(s2, cur2, fs2, r2). (s2, cur2, T2mi_feed pid isi b1 p1 # fs2, r2))
       (start_streams env (k + 1) i para fs (d1, snd s) p1) }"

definition start_pes :: "dev_env \<Rightarrow> nat \<Rightarrow> neumo_dmxdev \<Rightarrow> (neumo_dmxdev \<times> int) option" where
  "start_pes env i d = do {
     l \<leftarrow> feed_list (dd_filters d ! i);
     para \<leftarrow> params_pes (dd_filters d ! i);
     ((dm, priv), cur, l1, r) \<leftarrow>
       start_streams env 0 i para (rev l) (dd_demux d, pid_priv d) (current_feeds (dd_filters d ! i));
     let d1 = (upd_filter i (\<lambda>f. f\<lparr>feed_u := Feed_list (rev l1), current_feeds := cur\<rparr>) d)\<lparr>dd_demux := dm, pid_priv := priv\<rparr>;
     (if r < 0 then map_option (\<lambda>(d2, _). (d2, r)) (dvb_dmxdev_filter_stop env i d1) else Some (d1, 0)) }"

text \<open>The filter of the demux: byte 0 of the section, and from byte 3 on; the length is not looked at.\<close>

definition dmx_filter :: "dmx_sct_filter_params \<Rightarrow> secfilter \<Rightarrow> secfilter" where
  "dmx_filter para sf = sf\<lparr>
     filter_value := (sct_filter para ! 0) # take 2 (drop 1 (filter_value sf)) @ take 15 (drop 1 (sct_filter para)),
     filter_mask := (sct_mask para ! 0) # 0 # 0 # take 15 (drop 1 (sct_mask para)),
     filter_mode := (sct_mode para ! 0) # take 2 (drop 1 (filter_mode sf)) @ take 15 (drop 1 (sct_mode para))\<rparr>"

definition set_secfilter :: "nat \<Rightarrow> nat \<Rightarrow> (secfilter \<Rightarrow> secfilter) \<Rightarrow> dvb_demux \<Rightarrow> dvb_demux" where
  "set_secfilter s j g = upd_feed s (\<lambda>f. f\<lparr>f_filters := map (\<lambda>sf. if sfl_index sf = j then g sf else sf) (f_filters f)\<rparr>)"

text \<open>The feed of a running filter on the same PID, or a new one.\<close>

definition get_secfeed :: "dev_env \<Rightarrow> nat \<Rightarrow> dmx_sct_filter_params \<Rightarrow> neumo_dmxdev \<Rightarrow> (neumo_dmxdev \<times> int) option" where
  "get_secfeed env i para d = do {
     found \<leftarrow> (case find_running (sct_pid para) d of None \<Rightarrow> Some None | Some k \<Rightarrow> feed_sec (dd_filters d ! k));
     let d1 = upd_filter i (\<lambda>f. f\<lparr>feed_u := Feed_sec found\<rparr>) d;
     (case found of
        Some _ \<Rightarrow> map_option (\<lambda>(d2, _). (d2, 0)) (dvb_dmxdev_feed_stop env i d1)
      | None \<Rightarrow> do {
          (dm, r) \<leftarrow> dvbdmx_allocate_section_feed (de_intr env 0) (dd_demux d1) (sct_pid para)
            (sct_flags para AND DMX_CHECK_CRC \<noteq> 0) (current_feeds (dd_filters d1 ! i));
          Some (case r of
              Inl e \<Rightarrow> (d1\<lparr>dd_demux := dm\<rparr>, e)
            | Inr s \<Rightarrow> ((upd_filter i (\<lambda>f. f\<lparr>feed_u := Feed_sec (Some s)\<rparr>) d1)\<lparr>dd_demux := dm\<rparr>, 0)) }) }"

text \<open>Its section filter; without one the feed is restarted or released, and started.\<close>

definition get_secfilter :: "dev_env \<Rightarrow> nat \<Rightarrow> dmx_sct_filter_params \<Rightarrow> neumo_dmxdev \<Rightarrow> (neumo_dmxdev \<times> int) option" where
  "get_secfilter env i para d = do {
     p \<leftarrow> feed_sec (dd_filters d ! i);
     s \<leftarrow> p;
     (dm, r) \<leftarrow> dmx_section_feed_allocate_filter (de_intr env 1) (dd_demux d) s;
     (case r of
        Inl e \<Rightarrow> do {
          (d1, _) \<leftarrow> dvb_dmxdev_feed_restart env i (d\<lparr>dd_demux := dm\<rparr>);
          (dm2, _) \<leftarrow> dmx_section_feed_start_filtering (de_drv env) (de_intr env 2) (dd_demux d1) s;
          Some (d1\<lparr>dd_demux := dm2\<rparr>, e) }
      | Inr j \<Rightarrow> Some ((upd_filter i (\<lambda>f. f\<lparr>filter_sec := Some j, df_todo := 0\<rparr>) d)
          \<lparr>dd_demux := set_secfilter s j (dmx_filter para) dm, sec_priv := (sec_priv d)(j \<mapsto> i)\<rparr>, 0)) }"

definition start_sec :: "dev_env \<Rightarrow> nat \<Rightarrow> neumo_dmxdev \<Rightarrow> (neumo_dmxdev \<times> int) option" where
  "start_sec env i d = do {
     para \<leftarrow> params_sec (dd_filters d ! i);
     (d1, r1) \<leftarrow> get_secfeed env i para (upd_filter i (\<lambda>f. f\<lparr>filter_sec := None, feed_u := Feed_sec None\<rparr>) d);
     (if r1 < 0 then Some (d1, r1)
      else do {
        (d2, r2) \<leftarrow> get_secfilter env i para d1;
        (if r2 < 0 then Some (d2, r2)
         else do {
           p \<leftarrow> feed_sec (dd_filters d2 ! i);
           s \<leftarrow> p;
           (dm, r3) \<leftarrow> dmx_section_feed_start_filtering (de_drv env) (de_intr env 3) (dd_demux d2) s;
           (if r3 < 0 then Some (d2\<lparr>dd_demux := dm\<rparr>, r3)
            else do {
              f \<leftarrow> dvb_dmxdev_filter_timer (de_hz env) (de_jiffies env) (dd_filters d2 ! i);
              Some ((upd_filter i (\<lambda>_. f) d2)\<lparr>dd_demux := dm\<rparr>, 0) }) }) }) }"

definition prepare_buffer :: "dev_env \<Rightarrow> nat \<Rightarrow> neumo_dmxdev \<Rightarrow> neumo_dmxdev \<times> int" where
  "prepare_buffer env i d =
     (if rb_data (df_buffer (dd_filters d ! i)) \<noteq> [] then (flush_filter i d, 0)
      else (case vmalloc env (rb_size (df_buffer (dd_filters d ! i))) of
          None \<Rightarrow> (d, - ENOMEM)
        | Some m \<Rightarrow> (flush_filter i (upd_filter i (\<lambda>f. f\<lparr>df_buffer := (df_buffer f)\<lparr>rb_data := m\<rparr>\<rparr>) d), 0)))"

definition dvb_dmxdev_filter_start :: "dev_env \<Rightarrow> nat \<Rightarrow> neumo_dmxdev \<Rightarrow> (neumo_dmxdev \<times> int) option" where
  "dvb_dmxdev_filter_start env i d = do {
     f \<leftarrow> mem_at (dd_filters d) i;
     (if df_state f < DMXDEV_STATE_SET_PES then Some (d, - EINVAL)
      else do {
        d1 \<leftarrow> (if DMXDEV_STATE_GO \<le> df_state f then map_option fst (dvb_dmxdev_filter_stop env i d) else Some d);
        let (d2, r) = prepare_buffer env i d1;
        (if r < 0 then Some (d2, r)
         else do {
           (d3, r3) \<leftarrow> (case df_type (dd_filters d2 ! i) of
               DMXDEV_TYPE_SEC \<Rightarrow> start_sec env i d2
             | DMXDEV_TYPE_PES \<Rightarrow> start_pes env i d2
             | DMXDEV_TYPE_NONE \<Rightarrow> Some (d2, - EINVAL));
           Some (if r3 < 0 then (d3, r3) else (neumo_dvb_dmxdev_filter_state_set i DMXDEV_STATE_GO d3, 0)) }) }) }"

end
