(* ===== verification/DmxIoctl.thy ===== *)
theory DmxIoctl imports DmxDevice begin

text \<open>
  The calls on the files of the demux device and of the DVR device (neumo-dmxdev.c), and what the
  callbacks of the demux do with its output.
\<close>

abbreviation (input) EMFILE :: int where "EMFILE \<equiv> 24"
abbreviation (input) ENOTTY :: int where "ENOTTY \<equiv> 25"
abbreviation (input) EOPNOTSUPP :: int where "EOPNOTSUPP \<equiv> 95"
abbreviation (input) DVR_BUFFER_SIZE :: nat where "DVR_BUFFER_SIZE \<equiv> 10 * 188 * 1024"

subsection \<open>Parameters of a filter\<close>

definition invert_mode :: "dmx_sct_filter_params \<Rightarrow> dmx_sct_filter_params" where
  "invert_mode para = para\<lparr>sct_mode := map (\<lambda>b. b XOR 0xff) (sct_mode para)\<rparr>"

text \<open>
  A PID is put at the head of the list.  The list of a filter that was used for sections has no
  first element, or the pointer to a section feed in its place.
\<close>

definition dvb_dmxdev_add_pid :: "dev_env \<Rightarrow> nat \<Rightarrow> nat \<Rightarrow> neumo_dmxdev \<Rightarrow> (neumo_dmxdev \<times> int) option" where
  "dvb_dmxdev_add_pid env i pid d = do {
     f \<leftarrow> mem_at (dd_filters d) i;
     (if df_type f \<noteq> DMXDEV_TYPE_PES \<or> df_state f < DMXDEV_STATE_SET_STREAM_SELECT then Some (d, - EINVAL)
      else do {
        para \<leftarrow> params_pes f;
        (if pes_output para \<notin> {DMX_OUT_TSDEMUX_TAP, DMX_OUT_TS_TAP} \<and> feed_u f \<noteq> Feed_list [] then Some (d, - EINVAL)
         else if de_oom env 0 then Some (d, - ENOMEM)
         else if feed_u f = Feed_sec None then Some (d, - EINVAL)
         else do {
           l \<leftarrow> feed_list f;
           let d1 = upd_filter i (\<lambda>f. f\<lparr>feed_u := Feed_list (Pid_feed pid None # l)\<rparr>) d;
           (if DMXDEV_STATE_GO \<le> df_state f
            then do {
              ((dm, priv), st, r) \<leftarrow> dvb_dmxdev_start_pid_feed env 0 i para (current_feeds f) pid (dd_demux d1, pid_priv d1);
              Some ((upd_filter i (\<lambda>f. f\<lparr>feed_u := Feed_list (Pid_feed pid st # l)\<rparr>) d1)\<lparr>dd_demux := dm, pid_priv := priv\<rparr>, r) }
            else Some (d1, 0)) }) }) }"

text \<open>Only entries with a stream are removed.\<close>

fun remove_pids :: "dmx_driver \<Rightarrow> nat \<Rightarrow> dmxdev_feed list \<Rightarrow> dvb_demux \<Rightarrow> (dvb_demux \<times> dmxdev_feed list) option" where
  "remove_pids drv pid [] d = Some (d, [])"
| "remove_pids drv pid (Pid_feed p (Some s) # fs) d =
     (if p = pid
      then do {
        (d1, _) \<leftarrow> demux_ts_feed_stop_filtering drv d s;
        (d2, _) \<leftarrow> dvbdmx_release_neumo_pid_stream d1 s;
        remove_pids drv pid fs d2 }
      else map_option (\<lambda>(d1, l). (d1, Pid_feed p (Some s) # l)) (remove_pids drv pid fs d))"
| "remove_pids drv pid (x # fs) d = map_option (\<lambda>(d1, l). (d1, x # l)) (remove_pids drv pid fs d)"

definition dvb_dmxdev_remove_pid :: "dev_env \<Rightarrow> nat \<Rightarrow> nat \<Rightarrow> neumo_dmxdev \<Rightarrow> (neumo_dmxdev \<times> int) option" where
  "dvb_dmxdev_remove_pid env i pid d = do {
     f \<leftarrow> mem_at (dd_filters d) i;
     (if df_type f \<noteq> DMXDEV_TYPE_PES \<or> df_state f < DMXDEV_STATE_SET_STREAM_SELECT then Some (d, - EINVAL)
      else do {
        l \<leftarrow> feed_list f;
        (dm, l1) \<leftarrow> remove_pids (de_drv env) pid l (dd_demux d);
        Some ((upd_filter i (\<lambda>f. f\<lparr>feed_u := Feed_list l1\<rparr>) d)\<lparr>dd_demux := dm\<rparr>, 0) }) }"

definition dvb_dmxdev_section_filter_set ::
    "dev_env \<Rightarrow> nat \<Rightarrow> dmx_sct_filter_params \<Rightarrow> neumo_dmxdev \<Rightarrow> (neumo_dmxdev \<times> int) option" where
  "dvb_dmxdev_section_filter_set env i para d = do {
     (d1, _) \<leftarrow> dvb_dmxdev_filter_stop env i d;
     let d2 = upd_filter i (\<lambda>f. f\<lparr>df_type := DMXDEV_TYPE_SEC, params_u := Params_sec (invert_mode para),
           df_state := DMXDEV_STATE_SET_PES\<rparr>) d1;
     (if sct_flags para AND DMX_IMMEDIATE_START \<noteq> 0 then dvb_dmxdev_filter_start env i d2 else Some (d2, 0)) }"

definition dvb_dmxdev_pes_filter_set ::
    "dev_env \<Rightarrow> nat \<Rightarrow> dmx_pes_filter_params \<Rightarrow> neumo_dmxdev \<Rightarrow> (neumo_dmxdev \<times> int) option" where
  "dvb_dmxdev_pes_filter_set env i para d = do {
     (d1, _) \<leftarrow> dvb_dmxdev_filter_stop env i d;
     (d2, _) \<leftarrow> dvb_dmxdev_filter_reset i DMXDEV_STATE_SET_STREAM_SELECT d1;
     (if DMX_PES_OTHER < pes_type para then Some (d2, - EINVAL)
      else do {
        (d4, r) \<leftarrow> dvb_dmxdev_add_pid env i (pes_pid para)
          (upd_filter i (\<lambda>f. f\<lparr>df_type := DMXDEV_TYPE_PES, params_u := Params_pes para, df_state := DMXDEV_STATE_SET_PES\<rparr>) d2);
        (if r < 0 then Some (d4, r)
         else if pes_flags para AND DMX_IMMEDIATE_START \<noteq> 0 then dvb_dmxdev_filter_start env i d4
         else Some (d4, 0)) }) }"

text \<open>
  Embedded streams are put at the head of the list, whatever the type of the filter; when the
  list is a section feed, its memory is written to.
\<close>

definition add_entry :: "dev_env \<Rightarrow> nat \<Rightarrow> dmxdev_feed \<Rightarrow> neumo_dmxdev \<Rightarrow> (neumo_dmxdev \<times> int) option" where
  "add_entry env i e d = do {
     f \<leftarrow> mem_at (dd_filters d) i;
     (if de_oom env 0 then Some (d, - ENOMEM)
      else do {
        l \<leftarrow> feed_list f;
        Some (upd_filter i (\<lambda>f. f\<lparr>feed_u := Feed_list (e # l)\<rparr>) d, 0) }) }"

definition dmxdev_stid_stream_init :: "int \<Rightarrow> int \<Rightarrow> dmxdev_feed" where
  "dmxdev_stid_stream_init pid isi = Stid_feed pid isi None None"

definition dmxdev_t2mi_stream_init :: "int \<Rightarrow> int \<Rightarrow> dmxdev_feed" where
  "dmxdev_t2mi_stream_init pid plp = T2mi_feed pid plp None None"

definition dvb_dmxdev_add_stid_stream :: "dev_env \<Rightarrow> nat \<Rightarrow> int \<Rightarrow> int \<Rightarrow> neumo_dmxdev \<Rightarrow> (neumo_dmxdev \<times> int) option" where
  "dvb_dmxdev_add_stid_stream env i pid isi = add_entry env i (dmxdev_stid_stream_init pid isi)"

definition dvb_dmxdev_add_t2mi_stream :: "dev_env \<Rightarrow> nat \<Rightarrow> int \<Rightarrow> int \<Rightarrow> neumo_dmxdev \<Rightarrow> (neumo_dmxdev \<times> int) option" where
  "dvb_dmxdev_add_t2mi_stream env i pid plp = add_entry env i (dmxdev_t2mi_stream_init pid plp)"

subsection \<open>The ioctls of the demux device\<close>

datatype dmx_cmd =
    DMX_START
  | DMX_STOP
  | DMX_SET_FILTER dmx_sct_filter_params
  | DMX_SET_PES_FILTER dmx_pes_filter_params
  | DMX_SET_STID_STREAM int int
  | DMX_SET_T2MI_STREAM int int
  | DMX_SET_FE_STREAM
  | DMX_SET_BUFFER_SIZE nat
  | DMX_GET_PES_PIDS
  | DMX_GET_STC
  | DMX_ADD_PID nat
  | DMX_REMOVE_PID nat
  | DMX_OTHER

text \<open>
  The reply has the table of PIDs for \<open>DMX_GET_PES_PIDS\<close>; the demux has no \<open>get_stc\<close>.  \<open>intr\<close> and
  \<open>intr2\<close> are signals during the waits for the mutex of the device and of the filter.
\<close>

definition run_cmd :: "dev_env \<Rightarrow> nat \<Rightarrow> dmx_cmd \<Rightarrow> neumo_dmxdev \<Rightarrow> (neumo_dmxdev \<times> int) option" where
  "run_cmd env i cmd d = do {
     f \<leftarrow> mem_at (dd_filters d) i;
     (case cmd of
        DMX_START \<Rightarrow> if df_state f < DMXDEV_STATE_SET_PES then Some (d, - EINVAL) else dvb_dmxdev_filter_start env i d
      | DMX_STOP \<Rightarrow> dvb_dmxdev_filter_stop env i d
      | DMX_SET_FILTER para \<Rightarrow> dvb_dmxdev_section_filter_set env i para d
      | DMX_SET_PES_FILTER para \<Rightarrow> dvb_dmxdev_pes_filter_set env i para d
      | DMX_SET_STID_STREAM pid isi \<Rightarrow> dvb_dmxdev_add_stid_stream env i pid isi d
      | DMX_SET_T2MI_STREAM pid plp \<Rightarrow> dvb_dmxdev_add_t2mi_stream env i pid plp d
      | DMX_SET_FE_STREAM \<Rightarrow> Some (upd_filter i (\<lambda>f. f\<lparr>current_feeds := Some (dvbdmx_get_fe_feeds (dd_demux d))\<rparr>) d, 0)
      | DMX_SET_BUFFER_SIZE sz \<Rightarrow>
          (case dvb_dmxdev_set_buffer_size (vmalloc env sz) sz f of (f1, r) \<Rightarrow> Some (upd_filter i (\<lambda>_. f1) d, r))
      | DMX_GET_STC \<Rightarrow> Some (d, - EINVAL)
      | DMX_ADD_PID pid \<Rightarrow> dvb_dmxdev_add_pid env i pid d
      | DMX_REMOVE_PID pid \<Rightarrow> dvb_dmxdev_remove_pid env i pid d
      | DMX_GET_PES_PIDS \<Rightarrow> Some (d, 0)
      | DMX_OTHER \<Rightarrow> Some (d, - ENOTTY)) }"

definition takes_filter_mutex :: "dmx_cmd \<Rightarrow> bool" where
  "takes_filter_mutex cmd \<longleftrightarrow> cmd \<noteq> DMX_GET_PES_PIDS \<and> cmd \<noteq> DMX_GET_STC \<and> cmd \<noteq> DMX_OTHER"

definition dvb_demux_do_ioctl ::
    "bool \<Rightarrow> bool \<Rightarrow> dev_env \<Rightarrow> nat \<Rightarrow> dmx_cmd \<Rightarrow> neumo_dmxdev \<Rightarrow> (neumo_dmxdev \<times> int \<times> nat list) option" where
  "dvb_demux_do_ioctl intr intr2 env i cmd d =
     (if intr \<or> (intr2 \<and> takes_filter_mutex cmd) then Some (d, - ERESTARTSYS, [])
      else do {
        (d1, r) \<leftarrow> run_cmd env i cmd d;
        pids \<leftarrow> (if cmd = DMX_GET_PES_PIDS then dvbdmx_get_pes_pids (dd_demux d) else Some []);
        Some (d1, r, pids) })"

subsection \<open>Open and release\<close>

definition open_filter :: "neumo_dmxdev_filter \<Rightarrow> neumo_dmxdev_filter" where
  "open_filter f = f\<lparr>df_buffer := dvb_ringbuffer_init [] 8192, df_type := DMXDEV_TYPE_NONE, feed_u := Feed_list [],
     df_state := DMXDEV_STATE_ALLOCATED, df_timer := None\<rparr>"

text \<open>The index of the filter, or an error.\<close>

definition neumo_dvb_demux_open :: "bool \<Rightarrow> neumo_dmxdev \<Rightarrow> neumo_dmxdev \<times> (int + nat)" where
  "neumo_dvb_demux_open intr d =
     (if dd_filters d = [] then (d, Inl (- EINVAL))
      else if intr then (d, Inl (- ERESTARTSYS))
      else if dd_exit d then (d, Inl (- ENODEV))
      else (case List.find (\<lambda>i. df_state (dd_filters d ! i) = DMXDEV_STATE_FREE) [0..<length (dd_filters d)] of
          None \<Rightarrow> (d, Inl (- EMFILE))
        | Some i \<Rightarrow> ((upd_filter i open_filter d)\<lparr>may_do_mmap := True, demux_users := demux_users d + 1\<rparr>, Inr i)))"

definition dvb_dmxdev_filter_free :: "dev_env \<Rightarrow> nat \<Rightarrow> neumo_dmxdev \<Rightarrow> (neumo_dmxdev \<times> int) option" where
  "dvb_dmxdev_filter_free env i d = do {
     (d1, _) \<leftarrow> dvb_dmxdev_filter_stop env i d;
     (d2, _) \<leftarrow> dvb_dmxdev_filter_reset i DMXDEV_STATE_ALLOCATED d1;
     Some (upd_filter i (\<lambda>f. f\<lparr>df_buffer := (df_buffer f)\<lparr>rb_data := []\<rparr>, df_state := DMXDEV_STATE_FREE\<rparr>) d2, 0) }"

definition neumo_dvb_demux_release :: "dev_env \<Rightarrow> nat \<Rightarrow> neumo_dmxdev \<Rightarrow> (neumo_dmxdev \<times> int) option" where
  "neumo_dvb_demux_release env i d =
     map_option (\<lambda>(d1, r). (d1\<lparr>demux_users := demux_users d1 - 1\<rparr>, r)) (dvb_dmxdev_filter_free env i d)"

subsection \<open>The DVR device\<close>

datatype access = O_RDONLY | O_WRONLY | O_RDWR

text \<open>\<open>from_memory\<close> says which frontends are the memory.\<close>

definition get_fe :: "(nat \<Rightarrow> bool) \<Rightarrow> dvb_demux \<Rightarrow> nat option" where
  "get_fe from_memory d = (case dvbdmx_get_frontends d of None \<Rightarrow> None | Some l \<Rightarrow> List.find from_memory l)"

definition connect :: "nat option \<Rightarrow> dvb_demux \<Rightarrow> dvb_demux option" where
  "connect fe d = do {
     (d1, _) \<leftarrow> dvbdmx_disconnect_frontend d;
     (case fe of None \<Rightarrow> Some d1 | Some x \<Rightarrow> map_option fst (dvbdmx_connect_frontend d1 x)) }"

text \<open>A reader gets the ring buffer; a writer puts the memory in the place of the frontend.\<close>

definition dvr_reader :: "dev_env \<Rightarrow> neumo_dmxdev \<Rightarrow> neumo_dmxdev \<times> int" where
  "dvr_reader env d =
     (if dvr_readers d = 0 then (d, - EBUSY)
      else (case vmalloc env DVR_BUFFER_SIZE of
          None \<Rightarrow> (d, - ENOMEM)
        | Some m \<Rightarrow> (d\<lparr>dvr_buffer := dvb_ringbuffer_init m DVR_BUFFER_SIZE, dvr_readers := dvr_readers d - 1\<rparr>, 0)))"

definition dvr_writer :: "(nat \<Rightarrow> bool) \<Rightarrow> neumo_dmxdev \<Rightarrow> (neumo_dmxdev \<times> int) option" where
  "dvr_writer from_memory d0 =
     (let d = d0\<lparr>dvr_orig_fe := frontend (dd_demux d0)\<rparr>
      in (case get_fe from_memory (dd_demux d) of
            None \<Rightarrow> Some (d, - EINVAL)
          | Some fe \<Rightarrow> map_option (\<lambda>dm. (d\<lparr>dd_demux := dm\<rparr>, 0)) (connect (Some fe) (dd_demux d))))"

definition neumo_dvb_dvr_open ::
    "bool \<Rightarrow> dev_env \<Rightarrow> (nat \<Rightarrow> bool) \<Rightarrow> access \<Rightarrow> neumo_dmxdev \<Rightarrow> (neumo_dmxdev \<times> int) option" where
  "neumo_dvb_dvr_open intr env from_memory acc d =
     (if intr then Some (d, - ERESTARTSYS)
      else if dd_exit d then Some (d, - ENODEV)
      else do {
        let mmap = (acc = O_RDWR \<and> \<not> cap_duplex d);
        let d0 = d\<lparr>may_do_mmap := mmap\<rparr>;
        let (d1, r1) = (if acc = O_RDONLY \<or> mmap then dvr_reader env d0 else (d0, 0));
        (if r1 < 0 then Some (d1, r1)
         else do {
           (d2, r2) \<leftarrow> (if acc = O_WRONLY then dvr_writer from_memory d1 else Some (d1, 0));
           Some (if r2 < 0 then (d2, r2) else (d2\<lparr>dvr_users := dvr_users d2 + 1\<rparr>, 0)) }) })"

definition neumo_dvb_dvr_release :: "access \<Rightarrow> neumo_dmxdev \<Rightarrow> neumo_dmxdev option" where
  "neumo_dvb_dvr_release acc d = do {
     dm \<leftarrow> (if acc = O_WRONLY then connect (dvr_orig_fe d) (dd_demux d) else Some (dd_demux d));
     let d1 = d\<lparr>dd_demux := dm\<rparr>;
     let d2 = (if acc = O_RDONLY \<or> may_do_mmap d1
         then d1\<lparr>dvr_readers := dvr_readers d1 + 1, dvr_buffer := (dvr_buffer d1)\<lparr>rb_data := []\<rparr>\<rparr> else d1);
     Some (d2\<lparr>dvr_users := dvr_users d2 - 1\<rparr>) }"

definition neumo_dvb_dvr_write ::
    "nat \<Rightarrow> dmx_env \<Rightarrow> (nat \<Rightarrow> bool) \<Rightarrow> (nat \<Rightarrow> bool) \<Rightarrow> bool \<Rightarrow> access \<Rightarrow> neumo_dmxdev \<Rightarrow> int + byte list \<Rightarrow>
     (neumo_dmxdev \<times> int) option" where
  "neumo_dvb_dvr_write n env from_memory intr pending acc d data =
     (if acc \<noteq> O_WRONLY then Some (d, - EINVAL)
      else if intr 0 then Some (d, - ERESTARTSYS)
      else if dd_exit d then Some (d, - ENODEV)
      else map_option (\<lambda>(dm, r). (d\<lparr>dd_demux := dm\<rparr>, r)) (dvbdmx_write n env from_memory (intr 1) pending (dd_demux d) data))"

definition neumo_dvb_dvr_read ::
    "reader \<Rightarrow> wake list \<Rightarrow> neumo_dmxdev \<Rightarrow> nat \<Rightarrow> (neumo_dmxdev \<times> wake list \<times> int \<times> byte list) option" where
  "neumo_dvb_dvr_read u ws d count =
     (if dd_exit d then Some (d, ws, - ENODEV, [])
      else map_option (\<lambda>(b, ws1, r, bs). (d\<lparr>dvr_buffer := b\<rparr>, ws1, r, bs)) (dvb_dmxdev_buffer_read u ws (dvr_buffer d) count))"

text \<open>The only command is the one that sets the size of the buffer, here \<open>Some\<close> of the size.\<close>

definition dvb_dvr_do_ioctl :: "bool \<Rightarrow> dev_env \<Rightarrow> nat option \<Rightarrow> neumo_dmxdev \<Rightarrow> neumo_dmxdev \<times> int" where
  "dvb_dvr_do_ioctl intr env cmd d =
     (if intr then (d, - ERESTARTSYS)
      else (case cmd of
          None \<Rightarrow> (d, - ENOTTY)
        | Some sz \<Rightarrow> (case dvb_dvr_set_buffer_size (vmalloc env sz) sz (dvr_buffer d) of (b, r) \<Rightarrow> (d\<lparr>dvr_buffer := b\<rparr>, r))))"

definition neumo_dvb_dvr_poll :: "access \<Rightarrow> neumo_dmxdev \<Rightarrow> u32" where
  "neumo_dvb_dvr_poll acc d =
     (if dd_exit d then EPOLLERR
      else if acc = O_RDONLY \<or> may_do_mmap d then poll_buffer (dvr_buffer d)
      else EPOLLOUT OR EPOLLWRNORM OR EPOLLPRI)"

subsection \<open>Initialisation and release of the device\<close>

definition init_filter :: "neumo_dmxdev_filter \<Rightarrow> neumo_dmxdev_filter" where
  "init_filter f = f\<lparr>df_buffer := (df_buffer f)\<lparr>rb_data := []\<rparr>, df_state := DMXDEV_STATE_FREE, feed_u := Feed_list []\<rparr>"

text \<open>
  \<open>mem\<close> is the memory of the filters as \<open>vmalloc\<close> returns it, or None; \<open>reg\<close> and \<open>reg2\<close> are the
  results of the registrations.
\<close>

definition neumo_dvb_dmxdev_init ::
    "neumo_dmxdev_filter list option \<Rightarrow> int \<Rightarrow> int \<Rightarrow> neumo_dmxdev \<Rightarrow> neumo_dmxdev \<times> int" where
  "neumo_dvb_dmxdev_init mem reg reg2 d =
     (case dvbdmx_open (dd_demux d) of (dm, r) \<Rightarrow>
        let d1 = d\<lparr>dd_demux := dm\<rparr>
        in if r < 0 then (d1, - EUSERS)
        else
          (case mem of
                None \<Rightarrow> (d1\<lparr>dd_filters := []\<rparr>, - ENOMEM)
              | Some fl \<Rightarrow>
                  if reg < 0 then (d1\<lparr>dd_filters := []\<rparr>, reg)
                  else if reg2 < 0 then (d1\<lparr>dd_filters := []\<rparr>, reg2)
                  else (d1\<lparr>dd_filters := map init_filter fl, dvr_buffer := dvb_ringbuffer_init [] 8192,
                      demux_users := 1, dvr_users := 1, dvr_readers := 1\<rparr>, 0)))"

text \<open>The release waits until nobody uses the devices; before that there is no answer.\<close>

definition neumo_dvb_dmxdev_release :: "neumo_dmxdev \<Rightarrow> neumo_dmxdev option" where
  "neumo_dvb_dmxdev_release d =
     (if demux_users d > 1 \<or> dvr_users d > 1 then None
      else Some (d\<lparr>dd_exit := True, dd_filters := [], dd_demux := fst (dvbdmx_close (dd_demux d))\<rparr>))"

subsection \<open>The callbacks on the output of the demux\<close>

text \<open>What the demux hands out of a stream or filter that is not of the device goes to others.\<close>

definition put_pid :: "nat \<Rightarrow> byte list \<Rightarrow> neumo_dmxdev \<Rightarrow> neumo_dmxdev option" where
  "put_pid s bs d =
     (case pid_priv d s of
        None \<Rightarrow> Some d
      | Some i \<Rightarrow> do {
          f \<leftarrow> mem_at (dd_filters d) i;
          (f1, dvr) \<leftarrow> dvb_dmxdev_pid_callback (f, dvr_buffer d) bs [];
          Some ((upd_filter i (\<lambda>_. f1) d)\<lparr>dvr_buffer := dvr\<rparr>) })"

definition put_section :: "nat \<Rightarrow> byte list \<Rightarrow> neumo_dmxdev \<Rightarrow> neumo_dmxdev option" where
  "put_section j bs d =
     (case sec_priv d j of
        None \<Rightarrow> Some d
      | Some i \<Rightarrow> do {
          f \<leftarrow> mem_at (dd_filters d) i;
          f1 \<leftarrow> dvb_dmxdev_section_callback f bs [];
          Some (upd_filter i (\<lambda>_. f1) d) })"

fun put_all :: "nat \<Rightarrow> delivery list \<Rightarrow> neumo_dmxdev \<Rightarrow> neumo_dmxdev option" where
  "put_all s [] d = Some d"
| "put_all s (TsOut bs # ds) d = Option.bind (put_pid s bs d) (put_all s ds)"
| "put_all s (SecOut j bs # ds) d = Option.bind (put_section j bs d) (put_all s ds)"
| "put_all s (DecoderOut bs # ds) d = put_all s ds d"

end
