(* ===== verification/DmxReading.thy ===== *)
theory DmxReading imports DmxBuffer begin

text \<open>
  The buffers of the demux device as streams of bytes (dvb_dmxdev_buffer_write and
  dvb_dmxdev_buffer_read of neumo-dmxdev.c): a write gives all bytes or an overflow, a read gives
  the bytes in order, and a blocking read waits until it has them.
\<close>

subsection \<open>The buffer as a stream of bytes\<close>

lemma buffer_write_fits:
  assumes "rb_wf r" "rb_used r + length src < rb_size r"
  shows "\<exists>r'. dvb_dmxdev_buffer_write r src = Some (r', int (length src)) \<and> rb_wf r' \<and> rb_size r' = rb_size r \<and>
    rb_error r' = rb_error r \<and> rb_contents r' = rb_contents r @ src"
proof -
  have "rb_data r \<noteq> []" using assms by (auto simp: rb_wf_def)
  moreover have "\<not> dvb_ringbuffer_free r < int (length src)" using assms free_eq [OF assms(1)] by simp
  ultimately show ?thesis using ring_write [OF assms] assms(1) by (auto simp: dvb_dmxdev_buffer_write_def)
qed

lemma buffer_write_full:
  assumes "rb_wf r" "rb_size r \<le> rb_used r + length src" "src \<noteq> []"
  shows "dvb_dmxdev_buffer_write r src = Some (r, - EOVERFLOW)"
proof -
  have "rb_data r \<noteq> []" using assms by (auto simp: rb_wf_def)
  then show ?thesis
    using assms free_eq [OF assms(1)] used_less [OF assms(1)] by (simp add: dvb_dmxdev_buffer_write_def)
qed

lemma write_both_fits:
  assumes "rb_wf r" "rb_used r + length b1 + length b2 < rb_size r"
  shows "\<exists>r'. write_both r b1 b2 = Some r' \<and> rb_wf r' \<and> rb_size r' = rb_size r \<and> rb_error r' = rb_error r \<and>
    rb_contents r' = rb_contents r @ b1 @ b2"
proof -
  obtain r1 where r1: "dvb_dmxdev_buffer_write r b1 = Some (r1, int (length b1))" "rb_wf r1" "rb_size r1 = rb_size r"
      "rb_error r1 = rb_error r" "rb_contents r1 = rb_contents r @ b1"
    using buffer_write_fits [OF assms(1), of b1] assms(2) by auto
  have "rb_used r1 + length b2 < rb_size r1"
    using assms r1 length_contents [OF assms(1)] length_contents [OF r1(2)] by simp
  from buffer_write_fits [OF r1(2) this] show ?thesis using r1 by (auto simp: write_both_def)
qed

lemma write_both_full:
  assumes "rb_wf r" "rb_size r \<le> rb_used r + length b1" "b1 \<noteq> []"
  shows "write_both r b1 b2 = Some (r\<lparr>rb_error := - EOVERFLOW\<rparr>)"
  using buffer_write_full [OF assms] by (simp add: write_both_def)

text \<open>A reader whose copies succeed.\<close>

definition good_reader :: "reader \<Rightarrow> bool" where
  "good_reader u \<longleftrightarrow> (\<forall>n. copy_ok u n = (True, True)) \<and> (\<forall>bs. copy_back u bs = Some bs)"

text \<open>
  What arrives while a reader waits, as chunks that each fit the empty buffer: the reader sees one
  stream of bytes.
\<close>

definition arrival :: "byte list \<Rightarrow> wake" where
  "arrival c = Event (\<lambda>r. case dvb_dmxdev_buffer_write r c of Some (r', _) \<Rightarrow> r' | None \<Rightarrow> r)"

definition in_stream :: "ringbuf \<Rightarrow> byte list list \<Rightarrow> byte list" where
  "in_stream r cs = rb_contents r @ concat cs"

definition fit_chunks :: "ringbuf \<Rightarrow> byte list list \<Rightarrow> bool" where
  "fit_chunks r cs \<longleftrightarrow> rb_wf r \<and> rb_error r = 0 \<and> (\<forall>c \<in> set cs. length c < rb_size r)"

lemma wait_stream:
  assumes "fit_chunks r cs" "in_stream r cs \<noteq> []"
  shows "\<exists>r' cs'. wait_readable (map arrival cs) r = Some (0, r', map arrival cs') \<and> fit_chunks r' cs' \<and>
    rb_size r' = rb_size r \<and> rb_contents r' \<noteq> [] \<and> in_stream r' cs' = in_stream r cs"
  using assms
proof (induction cs arbitrary: r)
  case Nil
  then show ?case using empty_iff_contents [of r] by (auto simp: fit_chunks_def in_stream_def)
next
  case (Cons c cs)
  show ?case
  proof (cases "rb_contents r = []")
    case False
    then have "\<not> dvb_ringbuffer_empty r" using Cons.prems empty_iff_contents [of r] by (simp add: fit_chunks_def)
    then show ?thesis using Cons.prems False
      by (intro exI [of _ r] exI [of _ "c # cs"]) simp
  next
    case True
    have wf: "rb_wf r" "rb_error r = 0" using Cons.prems by (simp_all add: fit_chunks_def)
    have e: "dvb_ringbuffer_empty r" using True empty_iff_contents [OF wf(1)] by simp
    have "rb_used r + length c < rb_size r"
      using Cons.prems True length_contents [OF wf(1)] by (simp add: fit_chunks_def)
    from buffer_write_fits [OF wf(1) this] obtain r1 where
      r1: "dvb_dmxdev_buffer_write r c = Some (r1, int (length c))" "rb_wf r1" "rb_size r1 = rb_size r"
        "rb_error r1 = 0" "rb_contents r1 = c" using True wf by auto
    have "fit_chunks r1 cs" "in_stream r1 cs \<noteq> []" "in_stream r1 cs = in_stream r (c # cs)"
      using Cons.prems r1 True by (auto simp: fit_chunks_def in_stream_def)
    with Cons.IH [of r1] r1 e wf(2) show ?thesis by (simp add: arrival_def)
  qed
qed

lemma read_loop_stream:
  assumes "good_reader u" "fit_chunks r cs" "todo < n" "todo \<le> length (in_stream r cs)"
    "nonblock u \<longrightarrow> todo \<le> length (rb_contents r)"
  shows "\<exists>r' cs' ret. read_loop n u (map arrival cs) r todo ret0 out =
      Some (r', map arrival cs', 0, ret, out @ take todo (in_stream r cs)) \<and> (todo = 0 \<longrightarrow> ret = ret0) \<and>
    fit_chunks r' cs' \<and> rb_size r' = rb_size r \<and> in_stream r' cs' = drop todo (in_stream r cs) \<and>
    (todo \<le> length (rb_contents r) \<longrightarrow> cs' = cs)"
  using assms(2-5)
proof (induction n arbitrary: r cs todo ret0 out)
  case 0
  then show ?case by simp
next
  case (Suc n)
  show ?case
  proof (cases "todo = 0")
    case True
    then show ?thesis using Suc.prems by auto
  next
    case False
    then have ne: "in_stream r cs \<noteq> []" using Suc.prems by auto
    have nb: "\<not> (nonblock u \<and> dvb_ringbuffer_empty r)"
      using Suc.prems False empty_iff_contents [of r] by (auto simp: fit_chunks_def)
    have same: "rb_contents r \<noteq> [] \<Longrightarrow> wait_readable (map arrival cs) r = Some (0, r, map arrival cs)"
      using Suc.prems(1) empty_iff_contents [of r] by (cases cs) (auto simp: fit_chunks_def)
    obtain r1 cs1 where r1: "wait_readable (map arrival cs) r = Some (0, r1, map arrival cs1)" "fit_chunks r1 cs1"
        "rb_size r1 = rb_size r" "rb_contents r1 \<noteq> []" "in_stream r1 cs1 = in_stream r cs"
        "rb_contents r \<noteq> [] \<Longrightarrow> r1 = r \<and> cs1 = cs"
    proof (cases "rb_contents r = []")
      case True
      then show ?thesis using wait_stream [OF Suc.prems(1) ne] that by metis
    next
      case False
      then show ?thesis using same Suc.prems(1) that by metis
    qed
    have wf: "rb_wf r1" "rb_error r1 = 0" using r1(2) by (simp_all add: fit_chunks_def)
    define k where "k = min (nat (dvb_ringbuffer_avail r1)) todo"
    have len: "length (rb_contents r1) = nat (dvb_ringbuffer_avail r1)"
      using length_contents [OF wf(1)] by (simp add: rb_used_def)
    have "0 < nat (dvb_ringbuffer_avail r1)" using r1(4) len by (metis length_greater_0_conv)
    then have k: "0 < k" "k \<le> todo" "k \<le> length (rb_contents r1)" using len False by (auto simp: k_def)
    obtain r2 where r2: "dvb_ringbuffer_read_user True True r1 k = Some (r2, int k, take k (rb_contents r1))"
        "rb_wf r2" "rb_contents r2 = drop k (rb_contents r1)"
      using read_user_ok [OF wf(1), of k] k length_contents [OF wf(1)] by auto
    have r2': "rb_size r2 = rb_size r1" "rb_error r2 = rb_error r1"
      using r2(1) by (auto simp: dvb_ringbuffer_read_user_def rb_get_chunk_def Let_def split: if_splits bind_splits)
    have fit2: "fit_chunks r2 cs1" using r1(2) r2 r2' by (simp add: fit_chunks_def)
    have st2: "in_stream r2 cs1 = drop k (in_stream r cs)"
      unfolding r1(5) [symmetric] using r2(3) k by (simp add: in_stream_def)
    have "nonblock u \<longrightarrow> todo - k \<le> length (rb_contents r2)"
    proof
      assume u: "nonblock u"
      then have "rb_contents r \<noteq> []" using Suc.prems False by auto
      then show "todo - k \<le> length (rb_contents r2)" using r1(6) r2(3) Suc.prems(4) u by simp
    qed
    moreover have "todo - k < n" "todo - k \<le> length (in_stream r2 cs1)" using Suc.prems(2,3) k st2 by auto
    ultimately obtain r' cs' ret where
      r': "read_loop n u (map arrival cs1) r2 (todo - k) (int k) (out @ take k (rb_contents r1)) =
          Some (r', map arrival cs', 0, ret, (out @ take k (rb_contents r1)) @ take (todo - k) (in_stream r2 cs1))"
        "fit_chunks r' cs'" "rb_size r' = rb_size r2" "in_stream r' cs' = drop (todo - k) (in_stream r2 cs1)"
        "todo - k \<le> length (rb_contents r2) \<longrightarrow> cs' = cs1"
      using Suc.IH [OF fit2, of "todo - k" "int k" "out @ take k (rb_contents r1)"] by metis
    have out: "take k (rb_contents r1) @ take (todo - k) (in_stream r2 cs1) = take todo (in_stream r cs)"
    proof -
      have "take k (rb_contents r1) = take k (in_stream r cs)" unfolding r1(5) [symmetric] using k(3) by (simp add: in_stream_def)
      then show ?thesis using k(2) by (simp add: st2 flip: take_add)
    qed
    have "todo \<le> length (rb_contents r) \<longrightarrow> cs' = cs"
    proof
      assume a: "todo \<le> length (rb_contents r)"
      then have "rb_contents r \<noteq> []" using False by auto
      then show "cs' = cs" using r1(6) r'(5) r2(3) a by simp
    qed
    moreover have "(fst (copy_ok u todo), snd (copy_ok u todo)) = (True, True)"
      using assms(1) by (simp add: good_reader_def)
    ultimately show ?thesis
      using r1(1,3) nb False wf r2 r2' r' out k st2 by (auto simp flip: k_def)
  qed
qed

text \<open>
  A read of bytes that are there, or that arrive while a blocking reader waits, gives them all.
\<close>

lemma buffer_read_stream:
  assumes "good_reader u" "fit_chunks r cs" "c \<le> length (in_stream r cs)" "nonblock u \<longrightarrow> c \<le> length (rb_contents r)"
  shows "\<exists>r' cs'. dvb_dmxdev_buffer_read u (map arrival cs) r c =
      Some (r', map arrival cs', int c, take c (in_stream r cs)) \<and>
    fit_chunks r' cs' \<and> rb_size r' = rb_size r \<and> in_stream r' cs' = drop c (in_stream r cs) \<and>
    (c \<le> length (rb_contents r) \<longrightarrow> cs' = cs)"
proof -
  have "rb_data r \<noteq> []" "rb_error r = 0" using assms(2) by (auto simp: fit_chunks_def rb_wf_def)
  then show ?thesis
    using read_loop_stream [OF assms(1,2) _ assms(3,4), of "c + 1" 0 "[]"]
    by (auto simp: dvb_dmxdev_buffer_read_def simp del: read_loop.simps)
qed

lemma buffer_read_avail:
  assumes "good_reader u" "rb_wf r" "rb_error r = 0" "c \<le> length (rb_contents r)"
  shows "\<exists>r'. dvb_dmxdev_buffer_read u [] r c = Some (r', [], int c, take c (rb_contents r)) \<and>
    rb_wf r' \<and> rb_error r' = 0 \<and> rb_size r' = rb_size r \<and> rb_contents r' = drop c (rb_contents r)"
  using buffer_read_stream [OF assms(1), of r "[]" c] assms(2-) by (auto simp: fit_chunks_def in_stream_def)

lemma buffer_read_empty:
  assumes "nonblock u" "rb_wf r" "rb_error r = 0" "rb_contents r = []" "0 < c"
  shows "dvb_dmxdev_buffer_read u ws r c = Some (r, ws, - EAGAIN, [])"
proof -
  have "rb_data r \<noteq> []" using assms(2) by (auto simp: rb_wf_def)
  then show ?thesis using assms empty_iff_contents [OF assms(2)] by (simp add: dvb_dmxdev_buffer_read_def)
qed

lemma buffer_read_error:
  assumes "rb_wf r" "rb_error r \<noteq> 0"
  shows "dvb_dmxdev_buffer_read u ws r c = Some (dvb_ringbuffer_flush r, ws, rb_error r, [])"
proof -
  have "rb_data r \<noteq> []" using assms(1) by (auto simp: rb_wf_def)
  then show ?thesis using assms by (simp add: dvb_dmxdev_buffer_read_def)
qed

lemma rb_error_irrelevant [simp]: "rb_wf (r\<lparr>rb_error := e\<rparr>) = rb_wf r" "rb_contents (r\<lparr>rb_error := e\<rparr>) = rb_contents r"
  by (simp_all add: rb_wf_def rb_contents_def rb_used_def dvb_ringbuffer_avail_def Let_def)

subsection \<open>Properties\<close>

definition demo_reader :: "bool \<Rightarrow> reader" where
  "demo_reader nb = \<lparr>nonblock = nb, copy_ok = \<lambda>_. (True, True), copy_back = Some\<rparr>"

lemma demo_reader_good [simp]: "good_reader (demo_reader nb)" "nonblock (demo_reader nb) = nb"
  by (simp_all add: good_reader_def demo_reader_def)

definition demo_ring :: ringbuf where
  "demo_ring = dvb_ringbuffer_init (replicate 8 0) 8"

lemma demo_ring_simps: "rb_wf demo_ring" "rb_error demo_ring = 0" "rb_size demo_ring = 8" "rb_contents demo_ring = []"
  by (simp_all add: demo_ring_def dvb_ringbuffer_init_def rb_wf_def rb_contents_def rb_used_def dvb_ringbuffer_avail_def)

text \<open>
  C37.  A blocking read completes.  Let the bytes that are not in the buffer yet arrive in chunks
  while the reader sleeps, one each time it has emptied the buffer and waits, and each smaller than
  the buffer; let the copies to user space succeed, no signal come and no error be pending.  Then
  a read of no more bytes than are there and arrive returns all the bytes that were asked for, in
  the order in which they were written, none lost; the chunks may be larger in sum than the buffer,
  and what the read does not take is there for the next one.
\<close>

theorem blocking_read_completes:
  assumes "good_reader u" "rb_wf r" "rb_error r = 0" "\<forall>c \<in> set cs. length c < rb_size r"
    "\<not> nonblock u" "n \<le> length (rb_contents r @ concat cs)"
  shows "\<exists>r' cs'. dvb_dmxdev_buffer_read u (map arrival cs) r n =
      Some (r', map arrival cs', int n, take n (rb_contents r @ concat cs)) \<and>
    rb_wf r' \<and> rb_contents r' @ concat cs' = drop n (rb_contents r @ concat cs)"
  using buffer_read_stream [OF assms(1), of r cs n] assms(2-) by (auto simp: fit_chunks_def in_stream_def)

theorem blocking_read_completes_witness:
  "\<exists>r' cs'. dvb_dmxdev_buffer_read (demo_reader False) (map arrival [[1, 2, 3], [4, 5, 6, 7, 8], [9, 10]]) demo_ring 9 =
      Some (r', map arrival cs', 9, [1, 2, 3, 4, 5, 6, 7, 8, 9]) \<and> rb_wf r' \<and> rb_contents r' @ concat cs' = [10]"
  using blocking_read_completes [of "demo_reader False" demo_ring "[[1, 2, 3], [4, 5, 6, 7, 8], [9, 10]]" 9]
  by (simp add: demo_ring_simps numeral_eq_Suc)

end
