(* ===== verification/DmxSections.thy ===== *)
theory DmxSections imports DmxReading begin

text \<open>
  Reading of sections (dvb_dmxdev_section_callback and dvb_dmxdev_read_sec of neumo-dmxdev.c): the
  filter refines a queue of sections, no reader makes it leave its buffers, and what happens
  behind an overflow and to one-shot filters.
\<close>

subsection \<open>Sections are read one by one\<close>

text \<open>A section as the demux hands it out: its length is what its header says.\<close>

definition sec_ok :: "byte list \<Rightarrow> bool" where
  "sec_ok s \<longleftrightarrow> 3 \<le> length s \<and> length s = section_length s"

lemma header_word:
  fixes a b :: byte
  shows "uint ((push_bit 8 (ucast a) OR ucast b) AND (0xfff :: u32)) = int (unat (a AND 0x0f) * 256 + unat b)"
proof -
  define x where "x = unat a"
  define y where "y = unat b"
  have lt: "x < 256" "y < 256" using unsigned_less [of a] unsigned_less [of b] by (simp_all add: x_def y_def)
  have w: "ucast a = (of_nat x :: u32)" "ucast b = (of_nat y :: u32)" by (simp_all add: x_def y_def)
  have "push_bit 8 (ucast a) OR ucast b = (push_bit 8 (ucast a) + ucast b :: u32)"
    by (rule disjunctive_add_eq_or [symmetric]) (auto simp: bit_eq_iff bit_simps dest: bit_imp_le_length)
  also have "\<dots> = of_nat (x * 256 + y)" by (simp add: w push_bit_eq_mult)
  finally have e: "push_bit 8 (ucast a) OR ucast b = (of_nat (x * 256 + y) :: u32)" .
  define z where "z = x * 256 + y"
  have m: "(0xfff :: u32) = mask 12" "(0x0f :: byte) = mask 4" by (simp_all add: mask_eq_exp_minus_1)
  have n: "unat (a AND 0x0f) = x mod 16" unfolding m by (simp add: x_def unsigned_take_bit_eq take_bit_eq_mod [where ?'a = nat] flip: take_bit_eq_mask)
  have mm: "int z mod 4294967296 mod 4096 = int z mod 4096" by (rule mod_mod_cancel) simp
  have r: "uint ((push_bit 8 (ucast a) OR ucast b) AND (0xfff :: u32)) = int (z mod 4096)"
    unfolding e m z_def [symmetric]
    by (simp add: mm unsigned_take_bit_eq unsigned_of_nat take_bit_eq_mod [where ?'a = int] take_bit_eq_mod [where ?'a = nat] zmod_int flip: take_bit_eq_mask)
  have "z = (x mod 16 * 256 + y) + (x div 16) * 4096"
    using div_mult_mod_eq [of x 16] unfolding z_def by linarith
  moreover have "x mod 16 * 256 + y < 4096" using lt(2) mod_less_divisor [of 16 x] by linarith
  ultimately have "z mod 4096 = x mod 16 * 256 + y" by simp
  then show ?thesis by (simp only: r n y_def)
qed

lemma header_length_section:
  assumes "3 \<le> length s" "take 3 h = take 3 s"
  shows "header_length h = int (section_length s) - 3"
proof -
  have h: "h ! 1 = s ! 1" "h ! 2 = s ! 2"
    using assms(2) nth_take [of 1 3 h] nth_take [of 2 3 h] nth_take [of 1 3 s] nth_take [of 2 3 s] by simp_all
  show ?thesis unfolding header_length_def h header_word by (simp add: section_length_def)
qed

text \<open>
  What a reader of sections sees: the sections that wait, how much of the first one was read, and
  whether one did not fit.  When one did not fit, the next read tells and drops the rest, and
  sections that arrive before are lost.  In the middle of the data of a section the specification
  says nothing about that read.
\<close>

record sec_queue =
  q_pos :: nat
  q_secs :: "byte list list"
  q_ovf :: bool

datatype sec_op = Arrive "byte list" | Read_upto nat

definition q_rest :: "sec_queue \<Rightarrow> byte list" where
  "q_rest q = drop (q_pos q) (concat (q_secs q))"

fun spec_step :: "nat \<Rightarrow> sec_queue \<Rightarrow> sec_op \<Rightarrow> (sec_queue \<times> int \<times> byte list) option" where
  "spec_step cap q (Arrive s) = Some
     (if q_ovf q then q
      else if length (q_rest q) + length s < cap then q\<lparr>q_secs := q_secs q @ [s]\<rparr>
      else q\<lparr>q_ovf := True\<rparr>, 0, [])"
| "spec_step cap q (Read_upto c) =
     (if q_ovf q
      then (if 3 \<le> q_pos q then None else Some (\<lparr>q_pos = 0, q_secs = [], q_ovf = False\<rparr>, - EOVERFLOW, []))
      else (case q_secs q of
          [] \<Rightarrow> Some (q, if c = 0 then 0 else - EAGAIN, [])
        | s # ss \<Rightarrow>
            let out = take c (drop (q_pos q) s); p = q_pos q + length out
            in Some (if p = length s then q\<lparr>q_pos := 0, q_secs := ss\<rparr> else q\<lparr>q_pos := p\<rparr>, int (length out), out)))"

fun dmx_step :: "reader \<Rightarrow> neumo_dmxdev_filter \<Rightarrow> sec_op \<Rightarrow> (neumo_dmxdev_filter \<times> int \<times> byte list) option" where
  "dmx_step u f (Arrive s) = map_option (\<lambda>f1. (f1, 0, [])) (dvb_dmxdev_section_callback f s [])"
| "dmx_step u f (Read_upto c) = map_option (\<lambda>(f1, _, r, bs). (f1, r, bs)) (neumo_dvb_demux_read False u [] f c)"

fun sec_run :: "('s \<Rightarrow> sec_op \<Rightarrow> ('s \<times> int \<times> byte list) option) \<Rightarrow> 's \<Rightarrow> sec_op list \<Rightarrow> (int \<times> byte list) list option" where
  "sec_run step s [] = Some []"
| "sec_run step s (x # xs) = do { (s1, o1) \<leftarrow> step s x; os \<leftarrow> sec_run step s1 xs; Some (o1 # os) }"

text \<open>The filter of a running section filter that is not one-shot, as the queue it stands for.\<close>

definition sec_queue_ok :: "sec_queue \<Rightarrow> bool" where
  "sec_queue_ok q \<longleftrightarrow> (\<forall>s \<in> set (q_secs q). sec_ok s) \<and>
     (case q_secs q of [] \<Rightarrow> q_pos q = 0 | s # _ \<Rightarrow> q_pos q < length s)"

definition todo_of :: "sec_queue \<Rightarrow> int" where
  "todo_of q = (if q_pos q < 3 then - int (q_pos q) else int (length (hd (q_secs q))) - int (q_pos q))"

definition header_read :: "sec_queue \<Rightarrow> byte list" where
  "header_read q = (if q_pos q < 3 then take (q_pos q) (concat (q_secs q)) else [])"

definition sec_rel :: "nat \<Rightarrow> neumo_dmxdev_filter \<Rightarrow> sec_queue \<Rightarrow> bool" where
  "sec_rel cap f q \<longleftrightarrow> sec_queue_ok q \<and>
     df_type f = DMXDEV_TYPE_SEC \<and> df_state f = DMXDEV_STATE_GO \<and>
     (\<exists>p. params_sec f = Some p \<and> sct_flags p AND DMX_ONESHOT = 0) \<and>
     rb_wf (df_buffer f) \<and> rb_size (df_buffer f) = cap \<and> length (secheader f) = 3 \<and>
     df_todo f = todo_of q \<and> take (length (header_read q)) (secheader f) = header_read q \<and>
     rb_error (df_buffer f) = (if q_ovf q then - EOVERFLOW else 0) \<and>
     (\<not> q_ovf q \<longrightarrow> rb_contents (df_buffer f) = q_rest q)"

lemma params_sec_simps [simp]:
  "params_sec (f\<lparr>df_buffer := b\<rparr>) = params_sec f" "params_sec (f\<lparr>df_todo := t\<rparr>) = params_sec f"
  "params_sec (f\<lparr>secheader := h\<rparr>) = params_sec f" "params_sec (f\<lparr>df_timer := x\<rparr>) = params_sec f"
  "params_sec (f\<lparr>df_state := st\<rparr>) = params_sec f"
  by (simp_all add: params_sec_def)

lemma queue_ovf_simps [simp]:
  "sec_queue_ok (q\<lparr>q_ovf := b\<rparr>) = sec_queue_ok q" "todo_of (q\<lparr>q_ovf := b\<rparr>) = todo_of q"
  "header_read (q\<lparr>q_ovf := b\<rparr>) = header_read q"
  by (simp_all add: sec_queue_ok_def todo_of_def header_read_def split: list.splits)

lemma sec_rel_arrive:
  assumes rel: "sec_rel cap f q" and s: "sec_ok s" and st: "spec_step cap q (Arrive s) = Some (q', o1)"
  shows "\<exists>f'. dmx_step u f (Arrive s) = Some (f', o1) \<and> sec_rel cap f' q'"
proof -
  have wf: "rb_wf (df_buffer f)" using rel by (simp add: sec_rel_def)
  show ?thesis
  proof (cases "q_ovf q")
    case True
    then show ?thesis using rel st by (auto simp: sec_rel_def dvb_dmxdev_section_callback_def)
  next
    case False
    then have c: "rb_contents (df_buffer f) = q_rest q" using rel by (simp add: sec_rel_def)
    then have used: "rb_used (df_buffer f) = length (q_rest q)" using length_contents [OF wf] by simp
    show ?thesis
    proof (cases "length (q_rest q) + length s < cap")
      case fits: True
      have fits': "rb_used (df_buffer f) + length s + length [] < rb_size (df_buffer f)"
        using fits used rel by (simp add: sec_rel_def)
      have q': "q' = q\<lparr>q_secs := q_secs q @ [s]\<rparr>" "o1 = (0, [])" using st False fits by simp_all
      have ne: "s \<noteq> []" using s by (auto simp: sec_ok_def)
      have ok: "sec_queue_ok q'" using rel s ne unfolding q' by (auto simp: sec_rel_def sec_queue_ok_def split: list.splits)
      have p: "q_pos q \<le> length (concat (q_secs q))"
        using rel by (auto simp: sec_rel_def sec_queue_ok_def split: list.splits)
      then have rest: "q_rest q' = q_rest q @ s" "header_read q' = header_read q"
        by (simp_all add: q' q_rest_def header_read_def)
      have todo: "todo_of q' = todo_of q"
        using rel by (auto simp: q' todo_of_def sec_rel_def sec_queue_ok_def split: list.splits)
      show ?thesis using write_both_fits [OF wf fits'] rel False c ok rest todo
        by (auto simp: sec_rel_def dvb_dmxdev_section_callback_def q')
    next
      case full: False
      have full': "rb_size (df_buffer f) \<le> rb_used (df_buffer f) + length s" using full used rel by (simp add: sec_rel_def)
      have q': "q' = q\<lparr>q_ovf := True\<rparr>" "o1 = (0, [])" using st False full by simp_all
      have "s \<noteq> []" using s by (auto simp: sec_ok_def)
      from write_both_full [OF wf full' this, of "[]"] show ?thesis using rel False
        by (auto simp: sec_rel_def dvb_dmxdev_section_callback_def q' rb_wf_def)
    qed
  qed
qed

text \<open>Reading the data of a section, of which \<open>n\<close> bytes are left.\<close>

lemma read_data:
  assumes "good_reader u" "rb_wf (df_buffer f)" "rb_error (df_buffer f) = 0"
    "df_todo f = int n" "n \<le> length (rb_contents (df_buffer f))"
  shows "\<exists>b. read_sec_data u [] f c k out =
      Some (f\<lparr>df_buffer := b, df_todo := int (n - min c n)\<rparr>, [], int (min c n + k), out @ take (min c n) (rb_contents (df_buffer f))) \<and>
    rb_wf b \<and> rb_error b = 0 \<and> rb_size b = rb_size (df_buffer f) \<and>
    rb_contents b = drop (min c n) (rb_contents (df_buffer f))"
proof -
  have "min c n \<le> length (rb_contents (df_buffer f))" using assms(5) by simp
  from buffer_read_avail [OF assms(1,2,3) this] show ?thesis
    using assms(4) by (auto simp: read_sec_data_def of_nat_diff)
qed

text \<open>The header is completed first, as far as \<open>c\<close> bytes go.\<close>

lemma read_header:
  assumes u: "good_reader u" and wf: "rb_wf (df_buffer f)" "rb_error (df_buffer f) = 0"
    and h: "length (secheader f) = 3" "p < 3" "take p (secheader f) = take p s" "df_todo f = - int p"
    and s: "sec_ok s" and c: "rb_contents (df_buffer f) = drop p s @ rest"
  shows "\<exists>b sh t. dvb_dmxdev_read_sec u [] f c =
      Some (f\<lparr>df_buffer := b, secheader := sh, df_todo := t\<rparr>, [], int (min c (length s - p)), take c (drop p s)) \<and>
    rb_wf b \<and> rb_error b = 0 \<and> rb_size b = rb_size (df_buffer f) \<and>
    rb_contents b = drop (min c (length s - p)) (drop p s) @ rest \<and> length sh = 3 \<and>
    (if p + c < 3 then t = - int (p + c) \<and> take (p + c) sh = take (p + c) s else t = int (length s) - int (p + min c (length s - p)))"
proof -
  define k where "k = min (3 - p) c"
  have len: "3 \<le> length s" "length s = section_length s" using s by (simp_all add: sec_ok_def)
  have kle: "k \<le> length (rb_contents (df_buffer f))" using c len by (simp add: k_def)
  obtain b where b: "dvb_dmxdev_buffer_read u [] (df_buffer f) k = Some (b, [], int k, take k (rb_contents (df_buffer f)))"
      "rb_wf b" "rb_error b = 0" "rb_size b = rb_size (df_buffer f)" "rb_contents b = drop k (rb_contents (df_buffer f))"
    using buffer_read_avail [OF u wf kle] by auto
  have kp: "k \<le> length s - p" using len by (simp add: k_def)
  have tk: "take k (rb_contents (df_buffer f)) = take k (drop p s)" "rb_contents b = drop (p + k) s @ rest"
    using c kp b(5) by (simp_all add: add.commute)
  define sh where "sh = take p (secheader f) @ take k (drop p s) @ drop (p + k) (secheader f)"
  have lk: "length (take k (drop p s)) = k" using kp by simp
  have mc: "memcpy (secheader f) p (take k (drop p s)) = Some sh"
    using h(1,2) kp lk by (simp add: memcpy_def sh_def k_def)
  have sh: "length sh = 3" "take (p + k) sh = take (p + k) s"
    using h(1,2,3) kp len by (auto simp: sh_def k_def take_add)
  have n3: "header_count (df_todo f) c = min (3 - p) c" "nat (- df_todo f) = p" "df_todo f \<le> 0" using h by (auto simp: header_count_def)
  have read: "dvb_dmxdev_read_sec u [] f c =
    (if p + k < 3 then Some (f\<lparr>df_buffer := b, secheader := sh, df_todo := - int (p + k)\<rparr>, [], int k, take k (drop p s))
     else if c - k = 0 then Some (f\<lparr>df_buffer := b, secheader := sh, df_todo := header_length sh\<rparr>, [], int k, take k (drop p s))
     else read_sec_data u [] (f\<lparr>df_buffer := b, secheader := sh, df_todo := header_length sh\<rparr>) (c - k) k (take k (drop p s)))"
    using b(1) u n3 h(4) mc unfolding tk(1) by (auto simp: dvb_dmxdev_read_sec_def good_reader_def Let_def simp flip: k_def)
  show ?thesis
  proof (cases "p + c < 3")
    case True
    then have "k = c" by (simp add: k_def)
    with True read kp b sh tk len show ?thesis
      by (intro exI [of _ b] exI [of _ sh] exI [of _ "- int (p + c)"]) (auto simp: add.commute)
  next
    case False
    then have k3: "p + k = 3" "k \<le> c" using h(2) by (simp_all add: k_def)
    have hl: "header_length sh = int (length s - 3)"
      using header_length_section [OF len(1), of sh] sh(2) len k3 by simp
    show ?thesis
    proof (cases "c - k = 0")
      case True
      then have "c = k" using k3 by simp
      then show ?thesis using False read b sh tk hl len k3 kp
        by (intro exI [of _ b] exI [of _ sh] exI [of _ "header_length sh"]) (auto simp: k_def)
    next
      case more: False
      let ?f = "f\<lparr>df_buffer := b, secheader := sh, df_todo := header_length sh\<rparr>"
      have "df_todo ?f = int (length s - 3)" "length s - 3 \<le> length (rb_contents (df_buffer ?f))"
        using hl tk k3 by simp_all
      with read_data [OF u, of ?f "length s - 3" "c - k" k "take k (drop p s)"] b obtain b2 where
        b2: "read_sec_data u [] ?f (c - k) k (take k (drop p s)) =
            Some (?f\<lparr>df_buffer := b2, df_todo := int (length s - 3 - min (c - k) (length s - 3))\<rparr>, [],
              int (min (c - k) (length s - 3) + k), take k (drop p s) @ take (min (c - k) (length s - 3)) (rb_contents b))"
          "rb_wf b2" "rb_error b2 = 0" "rb_size b2 = rb_size b"
          "rb_contents b2 = drop (min (c - k) (length s - 3)) (rb_contents b)"
        by auto
      define m where "m = min c (length s - p)"
      have m: "m = k + min (c - k) (length s - 3)" using k3 len(1) unfolding m_def by linarith
      have out: "take k (drop p s) @ take (min (c - k) (length s - 3)) (rb_contents b) = take c (drop p s)"
      proof -
        have "take c (drop p s) = take m (drop p s)" by (cases "c \<le> length s - p") (simp_all add: m_def)
        also have "\<dots> = take k (drop p s) @ take (min (c - k) (length s - 3)) (drop 3 s)"
          unfolding m take_add using k3 by (simp add: add.commute)
        finally show ?thesis using tk(2) k3 by simp
      qed
      have "p + m = 3 + min (c - k) (length s - 3)" using k3 m by linarith
      then have con: "rb_contents b2 = drop m (drop p s) @ rest" using b2(5) tk(2) k3 by (simp add: add.commute)
      have todo: "int (length s - 3 - min (c - k) (length s - 3)) = int (length s) - int (p + m)"
        using m k3 len by simp
      have mk: "min (c - k) (length s - 3) + k = m" using m by simp
      have "\<not> p + k < 3" using k3 by simp
      then have fin: "dvb_dmxdev_read_sec u [] f c = Some (f\<lparr>df_buffer := b2, secheader := sh,
          df_todo := int (length s) - int (p + m)\<rparr>, [], int m, take c (drop p s))"
        using read more b2(1) unfolding out todo mk by simp
      show ?thesis unfolding m_def [symmetric] using False fin b2(2-4) b(4) con sh(1)
        by (intro exI [of _ b2] exI [of _ sh] exI [of _ "int (length s) - int (p + m)"]) simp
    qed
  qed
qed

lemma flush_rel: "rb_wf r \<Longrightarrow> rb_wf (dvb_ringbuffer_flush r) \<and> rb_contents (dvb_ringbuffer_flush r) = [] \<and>
    rb_error (dvb_ringbuffer_flush r) = 0 \<and> rb_size (dvb_ringbuffer_flush r) = rb_size r"
  using ring_flush [of r] by (simp add: dvb_ringbuffer_flush_def)

lemma sec_rel_data:
  assumes rel: "sec_rel cap f q" "\<not> q_ovf q" "q_secs q = s # ss"
    and f': "f' = f\<lparr>df_buffer := b, secheader := sh, df_todo := t\<rparr>"
    and b: "rb_wf b" "rb_error b = 0" "rb_size b = cap" "rb_contents b = drop m (drop (q_pos q) s) @ concat ss"
    and m: "m \<le> length s - q_pos q" "length sh = 3"
    and t: "if q_pos q + m < 3 then t = - int (q_pos q + m) \<and> take (q_pos q + m) sh = take (q_pos q + m) s
            else t = int (length s) - int (q_pos q + m)"
  shows "sec_rel cap f' (if q_pos q + m = length s then q\<lparr>q_pos := 0, q_secs := ss\<rparr> else q\<lparr>q_pos := q_pos q + m\<rparr>)"
proof -
  have s: "sec_ok s" "q_pos q < length s" "3 \<le> length s" "\<forall>x \<in> set ss. sec_ok x"
    using rel by (auto simp: sec_rel_def sec_queue_ok_def sec_ok_def)
  have ne: "ss = [] \<or> 0 < length (hd ss)" using s(4) by (cases ss) (auto simp: sec_ok_def)
  show ?thesis
  proof (cases "q_pos q + m = length s")
    case True
    then have d: "drop m (drop (q_pos q) s) = []" by (simp add: add.commute)
    have "sec_queue_ok (q\<lparr>q_pos := 0, q_secs := ss\<rparr>)" using s(4) ne by (auto simp: sec_queue_ok_def split: list.splits)
    then show ?thesis using True rel b m(2) t s(3) d
      by (auto simp: f' sec_rel_def todo_of_def header_read_def q_rest_def)
  next
    case False
    have "sec_queue_ok (q\<lparr>q_pos := q_pos q + m\<rparr>)" using rel(1,3) False m(1) s(2) by (auto simp: sec_rel_def sec_queue_ok_def)
    moreover have "q_rest (q\<lparr>q_pos := q_pos q + m\<rparr>) = drop m (drop (q_pos q) s) @ concat ss"
      using m(1) s(2) rel(3) by (simp add: q_rest_def add.commute)
    moreover have "header_read (q\<lparr>q_pos := q_pos q + m\<rparr>) = (if q_pos q + m < 3 then take (q_pos q + m) s else [])"
      using m(1) s(2) rel(3) by (simp add: header_read_def)
    ultimately show ?thesis using False rel b m t s by (auto simp: f' sec_rel_def todo_of_def)
  qed
qed

lemma sec_rel_read:
  assumes rel: "sec_rel cap f q" and u: "good_reader u" "nonblock u"
    and st: "spec_step cap q (Read_upto c) = Some (q', o1)"
  shows "\<exists>f'. dmx_step u f (Read_upto c) = Some (f', o1) \<and> sec_rel cap f' q'"
proof -
  have wf: "rb_wf (df_buffer f)" "length (secheader f) = 3" "df_type f = DMXDEV_TYPE_SEC" "df_todo f = todo_of q"
    using rel by (simp_all add: sec_rel_def)
  have read: "dmx_step u f (Read_upto c) = map_option (\<lambda>(f1, _, r, bs). (f1, r, bs)) (dvb_dmxdev_read_sec u [] f c)"
    using wf by (simp add: neumo_dvb_demux_read_def)
  show ?thesis
  proof (cases "q_ovf q")
    case True
    then have p: "q_pos q < 3" "q' = \<lparr>q_pos = 0, q_secs = [], q_ovf = False\<rparr>" "o1 = (- EOVERFLOW, [])"
      using st by (auto split: if_splits)
    have e: "rb_error (df_buffer f) = - EOVERFLOW" using rel True by (simp add: sec_rel_def)
    have "df_todo f \<le> 0" using p wf(4) by (simp add: todo_of_def)
    then show ?thesis using rel p e wf flush_rel [OF wf(1)] buffer_read_error [OF wf(1)]
      unfolding read by (auto simp: dvb_dmxdev_read_sec_def sec_rel_def sec_queue_ok_def todo_of_def header_read_def q_rest_def)
  next
    case False
    then have b: "rb_error (df_buffer f) = 0" "rb_contents (df_buffer f) = q_rest q" using rel by (simp_all add: sec_rel_def)
    show ?thesis
    proof (cases "q_secs q")
      case Nil
      then have q: "q_pos q = 0" "q_rest q = []" using rel by (simp_all add: sec_rel_def sec_queue_ok_def q_rest_def)
      then have t: "df_todo f = 0" using wf(4) by (simp add: todo_of_def)
      have same: "f\<lparr>df_todo := 0\<rparr> = f" using t by simp
      show ?thesis
      proof (cases "c = 0")
        case True
        have o: "q' = q" "o1 = (0, [])" using st False Nil True by simp_all
        obtain b' where b': "dvb_dmxdev_buffer_read u [] (df_buffer f) 0 = Some (b', [], 0, [])" "rb_wf b'"
            "rb_error b' = 0" "rb_size b' = rb_size (df_buffer f)" "rb_contents b' = []"
          using buffer_read_avail [OF u(1) wf(1) b(1), of 0] b(2) q(2) by auto
        then have "dvb_dmxdev_read_sec u [] f 0 = Some (f\<lparr>df_buffer := b', secheader := secheader f, df_todo := 0\<rparr>, [], 0, [])"
          using t u(1) by (simp add: dvb_dmxdev_read_sec_def good_reader_def memcpy_def header_count_def)
        then show ?thesis using rel b' q t False unfolding read [unfolded True] o True by (auto simp: sec_rel_def todo_of_def header_read_def)
      next
        case pos: False
        have o: "q' = q" "o1 = (- EAGAIN, [])" using st False Nil pos by simp_all
        have "rb_contents (df_buffer f) = []" using b(2) q(2) by simp
        from buffer_read_empty [OF u(2) wf(1) b(1) this, of "min 3 c"] pos
        have "dvb_dmxdev_read_sec u [] f c = Some (f, [], - EAGAIN, [])" using same t by (auto simp: dvb_dmxdev_read_sec_def header_count_def min_def)
        then show ?thesis using rel unfolding read o by simp
      qed
    next
      case (Cons s ss)
      define m where "m = min c (length s - q_pos q)"
      have s: "sec_ok s" "q_pos q < length s" "3 \<le> length s" using rel Cons by (auto simp: sec_rel_def sec_queue_ok_def sec_ok_def)
      have lm: "length (take c (drop (q_pos q) s)) = m" by (simp add: m_def)
      have o: "q' = (if q_pos q + m = length s then q\<lparr>q_pos := 0, q_secs := ss\<rparr> else q\<lparr>q_pos := q_pos q + m\<rparr>)"
        "o1 = (int m, take c (drop (q_pos q) s))"
        using st False Cons lm by (auto simp: Let_def)
      have con: "rb_contents (df_buffer f) = drop (q_pos q) s @ concat ss" using b(2) Cons s(2) by (simp add: q_rest_def)
      have sz: "rb_size (df_buffer f) = cap" using rel by (simp add: sec_rel_def)
      have ml: "m \<le> length s - q_pos q" by (simp add: m_def)
      show ?thesis
      proof (cases "q_pos q < 3")
        case True
        have h: "take (q_pos q) (secheader f) = take (q_pos q) s" "df_todo f = - int (q_pos q)"
          using rel True Cons s(3) by (simp_all add: sec_rel_def header_read_def todo_of_def)
        from read_header [OF u(1) wf(1) b(1) wf(2) True h s(1) con, of c, folded m_def] obtain bb sh t where
          r: "dvb_dmxdev_read_sec u [] f c =
              Some (f\<lparr>df_buffer := bb, secheader := sh, df_todo := t\<rparr>, [], int m, take c (drop (q_pos q) s))"
            "rb_wf bb" "rb_error bb = 0" "rb_size bb = cap" "rb_contents bb = drop m (drop (q_pos q) s) @ concat ss" "length sh = 3"
            "if q_pos q + c < 3 then t = - int (q_pos q + c) \<and> take (q_pos q + c) sh = take (q_pos q + c) s
             else t = int (length s) - int (q_pos q + m)"
          unfolding sz by blast
        have "if q_pos q + m < 3 then t = - int (q_pos q + m) \<and> take (q_pos q + m) sh = take (q_pos q + m) s
             else t = int (length s) - int (q_pos q + m)"
          using r(7) s(3) by (auto simp: m_def min_def split: if_splits)
        from sec_rel_data [OF rel False Cons refl r(2,3,4,5) ml r(6) this] r(1) show ?thesis
          unfolding read o by auto
      next
        case data: False
        have t: "df_todo f = int (length s - q_pos q)" "\<not> df_todo f \<le> 0"
          using wf(4) data Cons s(2) by (simp_all add: todo_of_def of_nat_diff)
        have "length s - q_pos q \<le> length (rb_contents (df_buffer f))" using con by simp
        from read_data [OF u(1) wf(1) b(1) t(1) this, of c 0 "[]", folded m_def] obtain bb where
          r: "read_sec_data u [] f c 0 [] = Some (f\<lparr>df_buffer := bb, df_todo := int (length s - q_pos q - m)\<rparr>, [], int m,
                take m (drop (q_pos q) s))"
            "rb_wf bb" "rb_error bb = 0" "rb_size bb = cap" "rb_contents bb = drop m (drop (q_pos q) s) @ concat ss"
          unfolding sz con using ml by auto
        have out: "take m (drop (q_pos q) s) = take c (drop (q_pos q) s)"
          by (cases "c \<le> length s - q_pos q") (simp_all add: m_def)
        have "if q_pos q + m < 3 then int (length s - q_pos q - m) = - int (q_pos q + m) \<and>
              take (q_pos q + m) (secheader f) = take (q_pos q + m) s
            else int (length s - q_pos q - m) = int (length s) - int (q_pos q + m)"
          using data ml s(2) by simp
        from sec_rel_data [OF rel False Cons refl r(2,3,4,5) ml wf(2) this] r(1) t(2) show ?thesis
          unfolding read o by (auto simp: dvb_dmxdev_read_sec_def out)
      qed
    qed
  qed
qed

lemma sec_rel_run:
  assumes "good_reader u" "nonblock u" "sec_rel cap f q" "\<forall>s. Arrive s \<in> set ops \<longrightarrow> sec_ok s"
    "sec_run (spec_step cap) q ops = Some outs"
  shows "sec_run (dmx_step u) f ops = Some outs"
  using assms(3-5)
proof (induction ops arbitrary: f q outs)
  case Nil
  then show ?case by simp
next
  case (Cons x xs)
  from Cons.prems(3) obtain q1 o1 os where q1: "spec_step cap q x = Some (q1, o1)"
      "sec_run (spec_step cap) q1 xs = Some os" "outs = o1 # os"
    by (auto split: bind_splits)
  obtain f1 where f1: "dmx_step u f x = Some (f1, o1)" "sec_rel cap f1 q1"
  proof (cases x)
    case (Arrive s)
    then show ?thesis using sec_rel_arrive [OF Cons.prems(1), of s] Cons.prems(2) q1(1) that by auto
  next
    case (Read_upto c)
    then show ?thesis using sec_rel_read [OF Cons.prems(1) assms(1,2)] q1(1) that by metis
  qed
  from Cons.IH [OF f1(2) _ q1(2)] Cons.prems(2) show ?case using f1(1) q1(3) by simp
qed

subsection \<open>No reader gets out of the buffers\<close>

text \<open>A buffer without memory, or one that is well-formed; an error is a negative number.\<close>

definition buf_ok :: "ringbuf \<Rightarrow> bool" where
  "buf_ok r \<longleftrightarrow> rb_error r \<le> 0 \<and> rb_pread r < rb_size r \<and> rb_pwrite r < rb_size r \<and>
     (rb_data r = [] \<or> length (rb_data r) = rb_size r)"

lemma buf_ok_wf: "buf_ok r \<Longrightarrow> rb_data r \<noteq> [] \<Longrightarrow> rb_wf r"
  by (auto simp: buf_ok_def rb_wf_def)

lemma wf_buf_ok: "rb_wf r \<Longrightarrow> rb_error r \<le> 0 \<Longrightarrow> buf_ok r"
  by (auto simp: buf_ok_def rb_wf_def)

lemma buf_ok_flush: "buf_ok r \<Longrightarrow> buf_ok (dvb_ringbuffer_flush r)"
  by (simp add: buf_ok_def dvb_ringbuffer_flush_def)

lemma read_user_safe:
  assumes "rb_wf r" "k \<le> rb_used r"
  shows "\<exists>r' ret bs. dvb_ringbuffer_read_user ok1 ok2 r k = Some (r', ret, bs) \<and> rb_wf r' \<and> rb_error r' = rb_error r \<and>
    length bs \<le> k \<and> (ret < 0 \<or> ret = int k \<and> length bs = k)"
proof -
  from read_user_ok [OF assms] obtain r1 where r1: "dvb_ringbuffer_read_user True True r k = Some (r1, int k, take k (rb_contents r))"
      "rb_wf r1" by blast
  have wf: "rb_pread r < rb_size r" "rb_pwrite r < rb_size r" "length (rb_data r) = rb_size r"
    using assms(1) by (simp_all add: rb_wf_def)
  show ?thesis
    using r1 wf by (auto simp: dvb_ringbuffer_read_user_def rb_get_chunk_def rb_split_def Let_def rb_wf_def memread_def
        split: if_splits)
qed

lemma read_loop_safe:
  assumes "nonblock u" "rb_wf r" "rb_error r = 0" "todo < n"
  shows "\<exists>r' todo' ret out'. read_loop n u ws r todo ret0 out = Some (r', ws, todo', ret, out @ out') \<and> rb_wf r' \<and>
    rb_error r' = 0 \<and> todo' \<le> todo \<and> todo - todo' \<le> length out' \<and> length out' \<le> todo \<and>
    (todo' = todo \<longrightarrow> ret < 0 \<or> todo = 0 \<and> ret = ret0)"
  using assms(2-4)
proof (induction n arbitrary: r todo ret0 out)
  case 0
  then show ?case by simp
next
  case (Suc n)
  show ?case
  proof (cases "todo = 0 \<or> dvb_ringbuffer_empty r")
    case True
    then show ?thesis using Suc.prems assms(1) by auto
  next
    case False
    have w: "wait_readable ws r = Some (0, r, ws)" using False by (cases ws) simp_all
    define k where "k = min (nat (dvb_ringbuffer_avail r)) todo"
    have ne: "rb_contents r \<noteq> []" using False empty_iff_contents [OF Suc.prems(1)] by simp
    have "0 < nat (dvb_ringbuffer_avail r)" using ne length_contents [OF Suc.prems(1)]
      by (metis length_greater_0_conv rb_used_def)
    then have k: "0 < k" "k \<le> todo" "k \<le> rb_used r" using False by (auto simp: k_def rb_used_def)
    obtain r2 ret2 bs where r2: "dvb_ringbuffer_read_user (fst (copy_ok u todo)) (snd (copy_ok u todo)) r k = Some (r2, ret2, bs)"
        "rb_wf r2" "rb_error r2 = rb_error r" "length bs \<le> k" "ret2 < 0 \<or> ret2 = int k \<and> length bs = k"
      using read_user_safe [OF Suc.prems(1) k(3)] by metis
    show ?thesis
    proof (cases "ret2 < 0")
      case True
      then show ?thesis using False w r2 Suc.prems assms(1) k by (auto simp flip: k_def)
    next
      case ok: False
      then have ret2: "ret2 = int k" "length bs = k" using r2(5) by simp_all
      have "todo - k < n" "rb_error r2 = 0" using Suc.prems k r2(3) by simp_all
      from Suc.IH [OF r2(2) this(2,1), of ret2 "out @ bs"] obtain r' todo' ret out' where
        ih: "read_loop n u ws r2 (todo - k) ret2 (out @ bs) = Some (r', ws, todo', ret, (out @ bs) @ out')" "rb_wf r'"
          "rb_error r' = 0" "todo' \<le> todo - k" "todo - k - todo' \<le> length out'" "length out' \<le> todo - k"
        by blast
      have less: "todo' < todo" "todo - todo' \<le> k + length out'" "k + length out' \<le> todo" using ih(4-6) k by simp_all
      show ?thesis
        by (rule exI [of _ r'], rule exI [of _ todo'], rule exI [of _ ret], rule exI [of _ "bs @ out'"])
          (use False w r2(1) Suc.prems(2) ih less ret2 in \<open>auto simp flip: k_def\<close>)
    qed
  qed
qed

lemma buffer_read_safe:
  assumes "nonblock u" "buf_ok r"
  shows "\<exists>r' result bs. dvb_dmxdev_buffer_read u ws r count = Some (r', ws, result, bs) \<and> buf_ok r' \<and>
    length bs \<le> count \<and> nat result \<le> length bs \<and> (rb_data r' = [] \<longleftrightarrow> rb_data r = [])"
proof (cases "rb_data r = [] \<or> rb_error r \<noteq> 0")
  case True
  then show ?thesis using assms(2) buf_ok_flush [OF assms(2)]
    by (auto simp: dvb_dmxdev_buffer_read_def buf_ok_def dvb_ringbuffer_flush_def)
next
  case False
  have wf: "rb_wf r" "rb_error r = 0" using False buf_ok_wf assms(2) by simp_all
  from read_loop_safe [OF assms(1) wf, of count "count + 1" ws 0 "[]"] obtain r' todo' ret out' where
    r': "read_loop (count + 1) u ws r count 0 [] = Some (r', ws, todo', ret, out')" "rb_wf r'" "rb_error r' = 0"
      "todo' \<le> count" "count - todo' \<le> length out'" "length out' \<le> count"
      "todo' = count \<longrightarrow> ret < 0 \<or> count = 0 \<and> ret = 0" by auto
  have "rb_data r' \<noteq> []" using r'(2) by (auto simp: rb_wf_def)
  then show ?thesis using False r' wf_buf_ok [OF r'(2)]
    by (auto simp: dvb_dmxdev_buffer_read_def simp del: read_loop.simps)
qed

lemma header_length_bound: "0 \<le> header_length h \<and> header_length h \<le> 4095"
proof -
  have a: "unat (h ! 1 AND 0x0f) \<le> 15"
    using word_and_le1 [of "h ! 1" "0x0f"] by (simp add: word_le_nat_alt)
  have "unat (h ! 2) < 256" using unsigned_less [of "h ! 2"] by simp
  then have "unat (h ! 1 AND 0x0f) * 256 + unat (h ! 2) \<le> 4095" using a by linarith
  then show ?thesis unfolding header_length_def header_word by linarith
qed

definition reader_ok :: "neumo_dmxdev_filter \<Rightarrow> bool" where
  "reader_ok f \<longleftrightarrow> buf_ok (df_buffer f) \<and> length (secheader f) = 3 \<and> - 3 < df_todo f \<and> df_todo f \<le> 4095"

lemma reader_okI:
  "buf_ok b \<Longrightarrow> length sh = 3 \<Longrightarrow> - 3 < t \<Longrightarrow> t \<le> 4095 \<Longrightarrow> reader_ok (f\<lparr>df_buffer := b, secheader := sh, df_todo := t\<rparr>)"
  by (simp add: reader_ok_def)

lemma read_sec_data_safe:
  assumes "nonblock u" "reader_ok f" "0 \<le> df_todo f"
  shows "\<exists>f' r bs. read_sec_data u ws f count k out = Some (f', ws, r, out @ bs) \<and> reader_ok f' \<and> length bs \<le> count \<and>
    nat r \<le> length bs + k"
proof -
  have "buf_ok (df_buffer f)" using assms(2) by (simp add: reader_ok_def)
  from buffer_read_safe [OF assms(1) this, of ws "min count (nat (df_todo f))"] obtain b r bs where
    b: "dvb_dmxdev_buffer_read u ws (df_buffer f) (min count (nat (df_todo f))) = Some (b, ws, r, bs)" "buf_ok b"
      "length bs \<le> min count (nat (df_todo f))" "nat r \<le> length bs" by blast
  then show ?thesis using assms(2,3) by (auto simp: read_sec_data_def reader_ok_def nat_le_iff)
qed

text \<open>What a reader is given back is as long as what it got, but may have been changed.\<close>

definition same_length :: "reader \<Rightarrow> bool" where
  "same_length u \<longleftrightarrow> (\<forall>bs h. copy_back u bs = Some h \<longrightarrow> length h = length bs)"

lemma read_sec_safe:
  assumes u: "nonblock u" "same_length u" and f: "reader_ok f"
  shows "\<exists>f' r bs. dvb_dmxdev_read_sec u ws f count = Some (f', ws, r, bs) \<and> reader_ok f' \<and> length bs \<le> count \<and> nat r \<le> length bs"
proof (cases "df_todo f \<le> 0")
  case False
  then show ?thesis using read_sec_data_safe [OF u(1) f, of ws count 0 "[]"] by (auto simp: dvb_dmxdev_read_sec_def)
next
  case True
  define hc where "hc = header_count (df_todo f) count"
  have t: "- 3 < df_todo f" "length (secheader f) = 3" "buf_ok (df_buffer f)" using f by (simp_all add: reader_ok_def)
  have hc: "hc \<le> count" "int hc \<le> 3 + df_todo f" using t(1) True by (auto simp: hc_def header_count_def)
  obtain b r bs where b: "dvb_dmxdev_buffer_read u ws (df_buffer f) hc = Some (b, ws, r, bs)" "buf_ok b" "length bs \<le> hc" "nat r \<le> length bs"
    using buffer_read_safe [OF u(1) t(3), of ws hc] by blast
  show ?thesis
  proof (cases "r < 0 \<or> copy_back u bs = None")
    case fail: True
    have "r < 0 \<Longrightarrow> ?thesis" "\<not> r < 0 \<Longrightarrow> ?thesis"
      using fail b f True hc by (auto simp: dvb_dmxdev_read_sec_def reader_ok_def simp flip: hc_def)
    then show ?thesis by blast
  next
    case False
    then obtain h where h: "copy_back u bs = Some h" "length h = length bs" using u(2) by (auto simp: same_length_def)
    have nr: "\<not> r < 0" using False by simp
    have lt: "length (take (nat r) h) = nat r" using h b(4) by simp
    have "nat (- df_todo f) + nat r \<le> 3" using hc b(3,4) True by linarith
    then obtain sh where sh: "memcpy (secheader f) (nat (- df_todo f)) (take (nat r) h) = Some sh" "length sh = 3"
      using lt t(2) memcpy_length by (auto simp: memcpy_def)
    define t1 where "t1 = df_todo f - r"
    have t1: "- 3 \<le> t1" "t1 \<le> 0" using hc b(3,4) False True by (auto simp: t1_def)
    have ok1: "reader_ok (f\<lparr>df_buffer := b, secheader := sh, df_todo := t1\<rparr>)" if "- 3 < t1"
      by (rule reader_okI) (use b(2) sh that t1 in simp_all)
    have ok2: "reader_ok (f\<lparr>df_buffer := b, secheader := sh, df_todo := header_length sh\<rparr>)"
      by (rule reader_okI) (use b(2) sh header_length_bound [of sh] in auto)
    obtain f2 r2 bs2 where d: "read_sec_data u ws (f\<lparr>df_buffer := b, secheader := sh, df_todo := header_length sh\<rparr>) (count - nat r) (nat r) bs =
        Some (f2, ws, r2, bs @ bs2)" "reader_ok f2" "length bs2 \<le> count - nat r" "nat r2 \<le> length bs2 + nat r"
      using read_sec_data_safe [OF u(1) ok2, of ws "count - nat r" "nat r" bs] header_length_bound [of sh] by auto
    have eq: "dvb_dmxdev_read_sec u ws f count =
      (if - 3 < t1 then Some (f\<lparr>df_buffer := b, secheader := sh, df_todo := t1\<rparr>, ws, r, bs)
       else if count - nat r = 0 then Some (f\<lparr>df_buffer := b, secheader := sh, df_todo := header_length sh\<rparr>, ws, r, bs)
       else read_sec_data u ws (f\<lparr>df_buffer := b, secheader := sh, df_todo := header_length sh\<rparr>) (count - nat r) (nat r) bs)"
      unfolding dvb_dmxdev_read_sec_def hc_def [symmetric] using True nr by (simp add: b(1) h(1) sh(1) t1_def Let_def)
    have full: "length bs = nat r" if "\<not> - 3 < t1" using that t1(1) hc(2) b(3,4) False by (auto simp: t1_def)
    show ?thesis using eq ok1 ok2 d b hc full by auto
  qed
qed

subsection \<open>Properties\<close>

text \<open>A running filter with a buffer of the given size, and short sections.\<close>

definition demo_sct :: "u32 \<Rightarrow> dmx_sct_filter_params" where
  "demo_sct flags = \<lparr>sct_pid = 16, sct_filter = 0x42 # replicate 15 0, sct_mask = 0xff # replicate 15 0,
    sct_mode = replicate 16 0, sct_timeout = 0, sct_flags = flags\<rparr>"

definition demo_sec_filter :: "nat \<Rightarrow> u32 \<Rightarrow> neumo_dmxdev_filter" where
  "demo_sec_filter n flags = \<lparr>filter_sec = Some 3, feed_u = Feed_sec (Some 0), params_u = Params_sec (demo_sct flags),
    df_type = DMXDEV_TYPE_SEC, df_state = DMXDEV_STATE_GO, df_buffer = dvb_ringbuffer_init (replicate n 0) n,
    df_timer = None, current_feeds = None, df_todo = 0, secheader = [0, 0, 0]\<rparr>"

definition short_section :: "byte \<Rightarrow> byte list" where
  "short_section x = [0x42, 0, 2, x, x]"

lemma short_section_ok: "sec_ok (short_section x)"
  by (simp add: sec_ok_def short_section_def section_length_def)

lemma init_wf: "0 < n \<Longrightarrow> rb_wf (dvb_ringbuffer_init (replicate n 0) n)"
  by (simp add: rb_wf_def dvb_ringbuffer_init_def)

lemma init_contents: "0 < n \<Longrightarrow> rb_contents (dvb_ringbuffer_init d n) = []"
  by (simp add: dvb_ringbuffer_init_def rb_contents_def rb_used_def dvb_ringbuffer_avail_def)

lemma demo_sec_rel:
  assumes "0 < n"
  shows "sec_rel n (demo_sec_filter n 0) \<lparr>q_pos = 0, q_secs = [], q_ovf = False\<rparr>"
  using init_wf [OF assms] init_contents [OF assms, of "replicate n 0"]
  by (simp add: sec_rel_def demo_sec_filter_def sec_queue_ok_def params_sec_def demo_sct_def todo_of_def header_read_def q_rest_def)
    (simp add: dvb_ringbuffer_init_def)

text \<open>
  C12.  A section filter is, for its reader, a queue of sections.  Whatever arrives and however
  long the reads are, a read gives the next bytes of the first section and never more than to
  its end, so that sections are not mixed though the buffer holds bytes only; an empty queue
  gives \<open>EAGAIN\<close>; a section that does not fit makes the next read fail with \<open>EOVERFLOW\<close> and
  start anew.  (The queue has no answer for an overflow behind the header of a section.)
\<close>

theorem sections_read_in_order:
  assumes "good_reader u" "nonblock u" "sec_rel cap f q" "\<forall>s. Arrive s \<in> set ops \<longrightarrow> sec_ok s"
    "sec_run (spec_step cap) q ops = Some outs"
  shows "sec_run (dmx_step u) f ops = Some outs"
  by (rule sec_rel_run [OF assms])

theorem sections_read_in_order_witness:
  "sec_run (dmx_step (demo_reader True)) (demo_sec_filter 12 0)
     [Read_upto 9, Arrive (short_section 7), Read_upto 2, Arrive (short_section 8), Read_upto 9, Read_upto 9,
      Arrive (short_section 9), Arrive (short_section 1), Arrive (short_section 2), Read_upto 9, Arrive (short_section 3), Read_upto 4] =
   Some [(- EAGAIN, []), (0, []), (2, [0x42, 0]), (0, []), (3, [2, 7, 7]), (5, short_section 8),
      (0, []), (0, []), (0, []), (- EOVERFLOW, []), (0, []), (4, [0x42, 0, 2, 3])]"
proof (rule sections_read_in_order [OF demo_reader_good(1) _ demo_sec_rel])
  show "nonblock (demo_reader True)" "0 < (12 :: nat)" by simp_all
  show "sec_run (spec_step 12) \<lparr>q_pos = 0, q_secs = [], q_ovf = False\<rparr>
     [Read_upto 9, Arrive (short_section 7), Read_upto 2, Arrive (short_section 8), Read_upto 9, Read_upto 9,
      Arrive (short_section 9), Arrive (short_section 1), Arrive (short_section 2), Read_upto 9, Arrive (short_section 3), Read_upto 4] =
   Some [(- EAGAIN, []), (0, []), (2, [0x42, 0]), (0, []), (3, [2, 7, 7]), (5, short_section 8),
      (0, []), (0, []), (0, []), (- EOVERFLOW, []), (0, []), (4, [0x42, 0, 2, 3])]"
    by (simp add: q_rest_def short_section_def Let_def)
qed (use short_section_ok in auto)

text \<open>
  C13.  No reader makes the kernel leave its buffers.  Whatever a non-blocking reader finds in the
  buffer, whichever copies to its memory fail, and whatever it has written into its memory
  before the header is copied back from there, a read of sections returns, stores three bytes
  of header at most, gives no more than what was asked for, and leaves the filter ready for
  the next read.
\<close>

theorem reading_stays_in_bounds:
  assumes "nonblock u" "same_length u" "reader_ok f"
  shows "\<exists>f' r bs. dvb_dmxdev_read_sec u ws f count = Some (f', ws, r, bs) \<and> reader_ok f' \<and>
    length bs \<le> count \<and> nat r \<le> length bs"
  by (rule read_sec_safe [OF assms])

definition hostile_reader :: reader where
  "hostile_reader = \<lparr>nonblock = True, copy_ok = \<lambda>n. (True, n < 8), copy_back = \<lambda>bs. Some (map (\<lambda>_. 0xff) bs)\<rparr>"

theorem reading_stays_in_bounds_witness:
  "\<exists>f' r bs. dvb_dmxdev_read_sec hostile_reader [] (demo_sec_filter 12 0) 20 = Some (f', [], r, bs) \<and> reader_ok f' \<and>
    length bs \<le> 20 \<and> nat r \<le> length bs"
  by (rule reading_stays_in_bounds)
    (simp_all add: hostile_reader_def same_length_def reader_ok_def demo_sec_filter_def buf_ok_def dvb_ringbuffer_init_def)

text \<open>
  C39.  An overflow in the middle of a section puts the reader out of step.  The read that tells
  of it drops what is in the buffer, but how much is left of the section is not forgotten, so the
  first bytes of the next section are handed out as the rest of the old one.
\<close>

theorem overflow_cuts_section:
  assumes "good_reader u" "rb_wf (df_buffer f)" "rb_error (df_buffer f) = - EOVERFLOW"
    "df_type f = DMXDEV_TYPE_SEC" "df_state f = DMXDEV_STATE_GO" "params_sec f = Some p"
    "df_todo f = int n" "0 < n" "n \<le> length s" "length s < rb_size (df_buffer f)" "n \<le> c"
  shows "sec_run (dmx_step u) f [Read_upto c, Arrive s, Read_upto c] = Some [(- EOVERFLOW, []), (0, []), (int n, take n s)]"
proof -
  define b where "b = dvb_ringbuffer_flush (df_buffer f)"
  have b: "rb_wf b" "rb_contents b = []" "rb_error b = 0" "rb_size b = rb_size (df_buffer f)"
    using flush_rel [OF assms(2)] by (simp_all add: b_def)
  have r1: "dmx_step u f (Read_upto c) = Some (f\<lparr>df_buffer := b\<rparr>, - EOVERFLOW, [])"
    using buffer_read_error [OF assms(2), of u "[]"] assms(3,4,7,8)
    by (simp add: neumo_dvb_demux_read_def dvb_dmxdev_read_sec_def read_sec_data_def b_def)
  have "rb_used b + length s + length [] < rb_size b" using b length_contents [OF b(1)] assms(10) by simp
  from write_both_fits [OF b(1) this] obtain b2 where
    b2: "write_both b s [] = Some b2" "rb_wf b2" "rb_size b2 = rb_size b" "rb_error b2 = 0" "rb_contents b2 = s"
    using b by auto
  define f2 where "f2 = f\<lparr>df_buffer := b2, df_timer := None,
    df_state := if sct_flags p AND DMX_ONESHOT \<noteq> 0 then DMXDEV_STATE_DONE else DMXDEV_STATE_GO\<rparr>"
  have r2: "dmx_step u (f\<lparr>df_buffer := b\<rparr>) (Arrive s) = Some (f2, 0, [])"
    using assms(5,6) b(3) b2(1) by (simp add: dvb_dmxdev_section_callback_def f2_def)
  have f2: "rb_wf (df_buffer f2)" "rb_error (df_buffer f2) = 0" "df_todo f2 = int n" "n \<le> length (rb_contents (df_buffer f2))"
    "df_type f2 = DMXDEV_TYPE_SEC" "rb_contents (df_buffer f2) = s"
    using b2 assms(4,7,9) by (simp_all add: f2_def)
  have "min c n = n" using assms(11) by simp
  then show ?thesis using read_data [OF assms(1) f2(1-4), of c 0 "[]"] r1 r2 f2(3,5,6) assms(8)
    by (auto simp: neumo_dvb_demux_read_def dvb_dmxdev_read_sec_def)
qed

theorem overflow_cuts_section_witness:
  "sec_run (dmx_step (demo_reader True))
    ((demo_sec_filter 12 0)\<lparr>df_todo := 2, df_buffer := (dvb_ringbuffer_init (replicate 12 0) 12)\<lparr>rb_error := - EOVERFLOW\<rparr>\<rparr>)
    [Read_upto 9, Arrive (short_section 7), Read_upto 9] = Some [(- EOVERFLOW, []), (0, []), (2, [0x42, 0])]"
proof -
  have "rb_wf ((dvb_ringbuffer_init (replicate 12 0) 12)\<lparr>rb_error := - EOVERFLOW\<rparr>)"
    using init_wf [of 12] by simp
  then show ?thesis
    using overflow_cuts_section [OF demo_reader_good(1), of "(demo_sec_filter 12 0)\<lparr>df_todo := 2,
        df_buffer := (dvb_ringbuffer_init (replicate 12 0) 12)\<lparr>rb_error := - EOVERFLOW\<rparr>\<rparr>" "demo_sct 0" 2 "short_section 7" 9 True]
    by (simp add: demo_sec_filter_def params_sec_def short_section_def dvb_ringbuffer_init_def)
qed

fun arrive_all :: "neumo_dmxdev_filter \<Rightarrow> byte list list \<Rightarrow> neumo_dmxdev_filter option" where
  "arrive_all f [] = Some f"
| "arrive_all f (s # ss) = Option.bind (dvb_dmxdev_section_callback f s []) (\<lambda>f1. arrive_all f1 ss)"

lemma arrive_done: "df_state f \<noteq> DMXDEV_STATE_GO \<Longrightarrow> arrive_all f ss = Some f"
  by (induction ss) (simp_all add: dvb_dmxdev_section_callback_def)

text \<open>
  C38.  A one-shot filter that runs, with an empty buffer and no error pending, keeps the first
  section that arrives and nothing after it, stops its timer and is done; when that section does
  not fit there is the overflow and nothing else.  That holds for the sections that arrive from
  then on, however many, until a call changes the filter: one that restarts a feed shared with
  other filters sets a filter that is done going again (\<open>dvb_dmxdev_feed_restart\<close>).
\<close>

theorem oneshot_delivers_first:
  assumes "df_state f = DMXDEV_STATE_GO" "params_sec f = Some p" "sct_flags p AND DMX_ONESHOT \<noteq> 0"
    "rb_wf (df_buffer f)" "rb_error (df_buffer f) = 0" "rb_contents (df_buffer f) = []" "s \<noteq> []"
  shows "\<exists>b. arrive_all f (s # ss) = Some (f\<lparr>df_timer := None, df_buffer := b, df_state := DMXDEV_STATE_DONE\<rparr>) \<and> rb_wf b \<and>
    (if length s < rb_size (df_buffer f) then rb_contents b = s \<and> rb_error b = 0
     else rb_contents b = [] \<and> rb_error b = - EOVERFLOW)"
proof -
  have used: "rb_used (df_buffer f) = 0" using length_contents [OF assms(4)] assms(6) by simp
  obtain b where b: "write_both (df_buffer f) s [] = Some b" "rb_wf b"
    "if length s < rb_size (df_buffer f) then rb_contents b = s \<and> rb_error b = 0
     else rb_contents b = [] \<and> rb_error b = - EOVERFLOW"
  proof (cases "length s < rb_size (df_buffer f)")
    case True
    then have "rb_used (df_buffer f) + length s + length [] < rb_size (df_buffer f)" using used by simp
    from write_both_fits [OF assms(4) this] show ?thesis using that True assms(5,6) by auto
  next
    case False
    then have "rb_size (df_buffer f) \<le> rb_used (df_buffer f) + length s" by simp
    from write_both_full [OF assms(4) this assms(7), of "[]"] show ?thesis
      using that [of "(df_buffer f)\<lparr>rb_error := - EOVERFLOW\<rparr>"] False assms(4,6) by simp
  qed
  then show ?thesis using assms(1-3,5)
    by (auto simp: dvb_dmxdev_section_callback_def arrive_done)
qed

theorem oneshot_delivers_first_witness:
  "\<exists>b. arrive_all (demo_sec_filter 12 DMX_ONESHOT) [short_section 7, short_section 8] =
      Some ((demo_sec_filter 12 DMX_ONESHOT)\<lparr>df_timer := None, df_buffer := b, df_state := DMXDEV_STATE_DONE\<rparr>) \<and>
    rb_wf b \<and> rb_contents b = short_section 7 \<and> rb_error b = 0"
proof -
  let ?f = "demo_sec_filter 12 DMX_ONESHOT"
  have b: "df_buffer ?f = dvb_ringbuffer_init (replicate 12 0) 12" by (simp add: demo_sec_filter_def)
  have "rb_wf (df_buffer ?f)" "rb_contents (df_buffer ?f) = []" "rb_error (df_buffer ?f) = 0" "rb_size (df_buffer ?f) = 12"
    unfolding b using init_wf [of 12] init_contents [of 12 "replicate 12 0"] by (simp_all add: dvb_ringbuffer_init_def)
  then show ?thesis
    using oneshot_delivers_first [of ?f "demo_sct DMX_ONESHOT" "short_section 7" "[short_section 8]"]
    by (simp add: demo_sec_filter_def demo_sct_def params_sec_def short_section_def)
qed

end
