(* ===== verification/DmxFrames.thy ===== *)
theory DmxFrames
  imports DmxIoctl DmxSections NetFeeds
begin

text \<open>
  What the calls of the demux do for the users of sections, and what they leave alone: the filter
  that user space asks for (\<open>user_spec\<close>) and the section filter that serves it, the demux as the
  device needs it (\<open>sec_demux\<close>), and for each of allocating, starting, stopping and releasing a
  section feed or a filter in it, that every other feed, filter and stream stays as it is
  (\<open>calm\<close>).  Lemmas only; the code is in DemuxControl, DmxDevice and DmxBuffer.
\<close>

subsection \<open>What a section filter is asked for\<close>

text \<open>
  The filter as user space gives it (\<open>struct dmx_filter\<close>): byte 0 is compared with the first byte
  of a section, byte \<open>k\<close> with the byte two places further on, as the length is left out.  A bit of
  the mode that is zero asks for equality; of the others one at least has to differ.
\<close>

definition sec_pos :: "nat \<Rightarrow> nat" where
  "sec_pos k = (if k = 0 then 0 else k + 2)"

definition user_spec :: "dmx_sct_filter_params \<Rightarrow> byte list \<Rightarrow> bool" where
  "user_spec para s \<longleftrightarrow>
     (let sel = (\<lambda>k b. bit (sct_mask para ! k) b);
          pos = (\<lambda>k b. \<not> bit (sct_mode para ! k) b);
          same = (\<lambda>k b. bit (sct_filter para ! k) b = bit (s ! sec_pos k) b)
      in (\<forall>k < DMX_FILTER_SIZE. \<forall>b < 8. sel k b \<and> pos k b \<longrightarrow> same k b) \<and>
         ((\<exists>k < DMX_FILTER_SIZE. \<exists>b < 8. sel k b \<and> \<not> pos k b) \<longrightarrow>
          (\<exists>k < DMX_FILTER_SIZE. \<exists>b < 8. sel k b \<and> \<not> pos k b \<and> \<not> same k b)))"

definition para_ok :: "dmx_sct_filter_params \<Rightarrow> bool" where
  "para_ok para \<longleftrightarrow> length (sct_filter para) = DMX_FILTER_SIZE \<and> length (sct_mask para) = DMX_FILTER_SIZE \<and>
     length (sct_mode para) = DMX_FILTER_SIZE"

lemma para_ok_invert [simp]: "para_ok (invert_mode para) = para_ok para" "sct_pid (invert_mode para) = sct_pid para"
  by (simp_all add: para_ok_def invert_mode_def)

lemma dmx_filter_wf:
  assumes "para_ok para" "length (filter_value sf) = 18" "length (filter_mode sf) = 18"
  shows "filter_wf (dmx_filter para sf)" "sfl_index (dmx_filter para sf) = sfl_index sf"
  using assms by (simp_all add: filter_wf_def dmx_filter_def para_ok_def)

lemma dmx_filter_nth:
  assumes "para_ok para" "length (filter_value sf) = 18" "length (filter_mode sf) = 18" "k < 16"
  shows "filter_value (dmx_filter para sf) ! sec_pos k = sct_filter para ! k" "filter_mask (dmx_filter para sf) ! sec_pos k = sct_mask para ! k"
    "filter_mode (dmx_filter para sf) ! sec_pos k = sct_mode para ! k"
proof -
  have t: "length (take 2 (drop 1 xs)) = 2" if "length xs = 18" for xs :: "byte list" using that by simp
  have n: "(a # b @ take 15 (drop 1 c)) ! sec_pos k = (if k = 0 then a else c ! k)" if "length b = 2" "length c = 16" for a b and c :: "byte list"
    using that assms(4) by (cases k) (auto simp: sec_pos_def nth_append)
  have l: "length (sct_filter para) = 16" "length (sct_mask para) = 16" "length (sct_mode para) = 16"
    using assms(1) by (simp_all add: para_ok_def)
  show "filter_value (dmx_filter para sf) ! sec_pos k = sct_filter para ! k" "filter_mode (dmx_filter para sf) ! sec_pos k = sct_mode para ! k"
    using n [OF t [OF assms(2)] l(1)] n [OF t [OF assms(3)] l(3)] by (simp_all add: dmx_filter_def)
  show "filter_mask (dmx_filter para sf) ! sec_pos k = sct_mask para ! k"
    using n [of "[0, 0]", OF _ l(2), of "sct_mask para ! 0"] by (simp add: dmx_filter_def)
qed

lemma dmx_filter_mask_rest:
  assumes "i = 1 \<or> i = 2"
  shows "filter_mask (dmx_filter para sf) ! i = 0"
  using assms by (auto simp: dmx_filter_def)

text \<open>The 18 bytes of the filter are the 16 of the user and the two of the length.\<close>

lemma all_18: "(\<forall>i < 18. P i) \<longleftrightarrow> (\<forall>k < 16. P (sec_pos k)) \<and> P 1 \<and> P (2 :: nat)"
proof -
  have "i = 0 \<or> i = 1 \<or> i = 2 \<or> (\<exists>k. k < 16 \<and> k \<noteq> 0 \<and> i = k + 2)" if "i < 18" for i :: nat
    using that by presburger
  then show ?thesis unfolding sec_pos_def by (auto; metis)
qed

lemma ex_18: "(\<exists>i < 18. P i) \<longleftrightarrow> (\<exists>k < 16. P (sec_pos k)) \<or> P 1 \<or> P (2 :: nat)"
  using all_18 [of "\<lambda>i. \<not> P i"] by blast

lemma bit_inverted: "b < 8 \<Longrightarrow> bit (x XOR 0xff :: byte) b = (\<not> bit x b)"
proof -
  assume "b < 8"
  have e: "(0xff :: byte) = mask 8" by (simp add: mask_eq_exp_minus_1)
  show ?thesis unfolding e using \<open>b < 8\<close> by (simp add: bit_simps)
qed

lemma dmx_filter_spec:
  assumes "para_ok para" "length (filter_value sf) = 18" "length (filter_mode sf) = 18"
  shows "filter_spec (dmx_filter (invert_mode para) sf) s = user_spec para s"
proof -
  have p: "para_ok (invert_mode para)" using assms(1) by simp
  note nth = dmx_filter_nth [OF p assms(2,3)]
  have inv: "sct_filter (invert_mode para) = sct_filter para" "sct_mask (invert_mode para) = sct_mask para"
    "k < 16 \<Longrightarrow> b < 8 \<Longrightarrow> bit (sct_mode (invert_mode para) ! k) b = (\<not> bit (sct_mode para ! k) b)" for k b
    using assms(1) by (auto simp: invert_mode_def para_ok_def bit_inverted)
  have m: "filter_mask (dmx_filter (invert_mode para) sf) ! 1 = 0" "filter_mask (dmx_filter (invert_mode para) sf) ! 2 = 0"
    by (rule dmx_filter_mask_rest; simp)+
  have A: "(\<forall>b < 8. bit (filter_mask (dmx_filter (invert_mode para) sf) ! i) b \<and>
        bit (filter_mode (dmx_filter (invert_mode para) sf) ! i) b \<longrightarrow>
        bit (filter_value (dmx_filter (invert_mode para) sf) ! i) b = bit (s ! i) b) \<longleftrightarrow>
      (\<forall>b < 8. bit (sct_mask para ! k) b \<and> \<not> bit (sct_mode para ! k) b \<longrightarrow>
        bit (sct_filter para ! k) b = bit (s ! i) b)"
    if "k < 16" "i = sec_pos k" for i k
    unfolding that(2) nth [OF that(1)] inv(1,2) using inv(3) [OF that(1)] by blast
  have B: "(\<exists>b < 8. bit (filter_mask (dmx_filter (invert_mode para) sf) ! i) b \<and>
        \<not> bit (filter_mode (dmx_filter (invert_mode para) sf) ! i) b \<and> Q i b) \<longleftrightarrow>
      (\<exists>b < 8. bit (sct_mask para ! k) b \<and> \<not> \<not> bit (sct_mode para ! k) b \<and> Q i b)"
    if "k < 16" "i = sec_pos k" for i k Q
    unfolding that(2) nth [OF that(1)] inv(1,2) using inv(3) [OF that(1)] by blast
  have C: "(\<exists>b < 8. bit (sct_mask para ! k) b \<and> \<not> \<not> bit (sct_mode para ! k) b \<and>
        bit (filter_value (dmx_filter (invert_mode para) sf) ! sec_pos k) b \<noteq> bit (s ! sec_pos k) b) \<longleftrightarrow>
      (\<exists>b < 8. bit (sct_mask para ! k) b \<and> \<not> \<not> bit (sct_mode para ! k) b \<and>
        bit (sct_filter para ! k) b \<noteq> bit (s ! sec_pos k) b)" if "k < 16" for k
    unfolding nth [OF that] inv(1) ..
  show ?thesis
    unfolding filter_spec_def user_spec_def Let_def all_18 ex_18 m
    using A [OF _ refl] B [OF _ refl, where Q = "\<lambda>_ _. True"]
      B [OF _ refl, where Q = "\<lambda>i b. bit (filter_value (dmx_filter (invert_mode para) sf) ! i) b \<noteq> bit (s ! i) b"] C
    by (simp cong: conj_cong)
qed

subsection \<open>What a call on one feed leaves alone\<close>

text \<open>
  A filter of the demux that serves a request: it is in the list of a section feed on the PID,
  the feed is in use, and the filter is for what was asked.
\<close>

definition asks :: "dmx_sct_filter_params \<Rightarrow> secfilter \<Rightarrow> bool" where
  "asks para sf \<longleftrightarrow> filter_wf sf \<and> (\<forall>s. filter_spec sf s = user_spec para s)"

definition serves :: "dvb_demux \<Rightarrow> nat \<Rightarrow> nat \<Rightarrow> dmx_sct_filter_params \<Rightarrow> bool" where
  "serves d s j para \<longleftrightarrow> listed d s \<and> f_type (feedarray d ! s) = DMX_TYPE_SEC \<and> f_pid (feedarray d ! s) = sct_pid para \<and>
     j \<in> set (filter_ids d s) \<and> j < length (filter_slots d) \<and>
     sl_state (filter_slots d ! j) \<noteq> DMX_STATE_FREE \<and> sl_feed (filter_slots d ! j) = Some s \<and>
     (\<forall>sf \<in> set (f_filters (feedarray d ! s)). sfl_index sf = j \<longrightarrow> asks para sf)"

text \<open>A feed that filters, with filters that are prepared.\<close>

definition live :: "feed \<Rightarrow> bool" where
  "live f \<longleftrightarrow> f_is_filtering f \<and> (\<forall>sf \<in> set (f_filters f). prepare_secfilter sf = sf)"

definition others_same :: "nat \<Rightarrow> dvb_demux \<Rightarrow> dvb_demux \<Rightarrow> bool" where
  "others_same s d d' \<longleftrightarrow> default_feeds d' = default_feeds d \<and> fe_feeds d' = fe_feeds d \<and>
     length (filter_slots d') = length (filter_slots d) \<and>
     (\<forall>k. k \<noteq> s \<and> listed d k \<longrightarrow> listed d' k \<and> feedarray d' ! k = feedarray d ! k) \<and>
     (\<forall>j < length (filter_slots d). sl_state (filter_slots d ! j) \<noteq> DMX_STATE_FREE \<and> sl_feed (filter_slots d ! j) \<noteq> Some s \<longrightarrow>
        filter_slots d' ! j = filter_slots d ! j)"

text \<open>Filters and slots have room for 18 bytes.\<close>

definition sf_room :: "secfilter \<Rightarrow> bool" where
  "sf_room sf \<longleftrightarrow> length (filter_value sf) = DVB_DEMUX_MASK_MAX \<and> length (filter_mode sf) = DVB_DEMUX_MASK_MAX"

definition pool_ok :: "dvb_demux \<Rightarrow> bool" where
  "pool_ok d \<longleftrightarrow> (\<forall>sl \<in> set (filter_slots d). sf_room (sl_filter sl)) \<and>
     (\<forall>f \<in> set (feedarray d). \<forall>sf \<in> set (f_filters f). sf_room sf)"

lemma others_same_refl [simp]: "others_same s d d" by (simp add: others_same_def)

lemma others_same_trans:
  assumes "others_same s d1 d2" "others_same s d2 d3"
  shows "others_same s d1 d3"
  using assms unfolding others_same_def by (simp add: all_conj_distrib)

lemma serves_other:
  assumes "others_same s d d'" "serves d k j para" "k \<noteq> s"
  shows "serves d' k j para"
  using assms by (simp add: others_same_def serves_def filter_ids_def)

lemma serves_listed: "serves d s j para \<Longrightarrow> listed d s" by (simp add: serves_def)

lemma prepare_again: "prepare_secfilter (prepare_secfilter sf) = prepare_secfilter sf"
  by (simp add: prepare_secfilter_def Let_def)

lemma prepare_fields [simp]:
  "filter_value (prepare_secfilter sf) = filter_value sf" "filter_mask (prepare_secfilter sf) = filter_mask sf"
  "filter_mode (prepare_secfilter sf) = filter_mode sf" "sfl_index (prepare_secfilter sf) = sfl_index sf"
  by (simp_all add: prepare_secfilter_def Let_def)

lemma asks_prepare [simp]: "asks para (prepare_secfilter sf) = asks para sf"
  by (simp add: asks_def filter_wf_def filter_spec_def)

lemma asks_matches:
  assumes "asks para sf" "prepare_secfilter sf = sf"
  shows "filter_matches sf s = user_spec para s"
  using assms filter_matches_spec [of sf s] by (simp add: asks_def)

subsubsection \<open>A change of one feed\<close>

lemma upd_feed_mutex: "\<not> mutex d \<Longrightarrow> mutex_unlock (upd_feed s g (d\<lparr>mutex := True\<rparr>)) = upd_feed s g d"
  by (cases d) (simp add: upd_feed_def mutex_unlock_def)

lemma upd_feed_twice: "s < length (feedarray d) \<Longrightarrow> upd_feed s g (upd_feed s h d) = upd_feed s (g \<circ> h) d"
  by (simp add: upd_feed_def)

lemma upd_feed_more [simp]: "fe_feeds (upd_feed s g d) = fe_feeds d"
  by (simp add: upd_feed_def)

lemma upd_feed_other: "k \<noteq> s \<Longrightarrow> feedarray (upd_feed s g d) ! k = feedarray d ! k"
  by (simp add: upd_feed_def)

lemma others_upd_feed: "others_same s d (upd_feed s g d)"
  by (auto simp: others_same_def listed_def upd_feed_other)

lemma set_upd: "x \<in> set (xs[i := y]) \<Longrightarrow> x = y \<or> x \<in> set xs"
  using set_update_subset_insert [of xs i y] by auto

lemma pool_upd_feed:
  assumes "pool_ok d" "s < length (feedarray d)" "\<forall>sf \<in> set (f_filters (g (feedarray d ! s))). sf_room sf"
  shows "pool_ok (upd_feed s g d)"
  using assms by (auto simp: pool_ok_def upd_feed_def dest!: set_upd)

lemma pool_feed: "pool_ok d \<Longrightarrow> s < length (feedarray d) \<Longrightarrow> sf \<in> set (f_filters (feedarray d ! s)) \<Longrightarrow> sf_room sf"
  by (auto simp: pool_ok_def)

lemma serves_upd_feed:
  assumes "serves d s j para" "f_parent (g (feedarray d ! s)) = f_parent (feedarray d ! s)"
    "f_type (g (feedarray d ! s)) = f_type (feedarray d ! s)" "f_pid (g (feedarray d ! s)) = f_pid (feedarray d ! s)"
    "f_filters (g (feedarray d ! s)) = map h (f_filters (feedarray d ! s))"
    "\<And>sf. sfl_index (h sf) = sfl_index sf" "\<And>sf. sfl_index sf = j \<Longrightarrow> asks para sf \<Longrightarrow> asks para (h sf)"
  shows "serves (upd_feed s g d) s j para"
proof -
  have s: "s < length (feedarray d)" "listed (upd_feed s g d) s"
    using assms(1,2) listed_upd_feed by (auto simp: serves_def listed_def)
  then show ?thesis using assms by (auto simp: serves_def filter_ids_def upd_feed_nth)
qed

text \<open>What the calls give: consistency, the others untouched, and what is served on the feed.\<close>

definition calm :: "(nat \<Rightarrow> nat) \<Rightarrow> nat \<Rightarrow> dvb_demux \<Rightarrow> dvb_demux \<Rightarrow> bool" where
  "calm base s d d' \<longleftrightarrow> feeds_consistent base d' \<and> pool_ok d' \<and> others_same s d d'"

definition sec_demux :: "(nat \<Rightarrow> nat) \<Rightarrow> dvb_demux \<Rightarrow> bool" where
  "sec_demux base d \<longleftrightarrow> feeds_consistent base d \<and> pool_ok d"

lemma calm_upd_feed:
  assumes "sec_demux base d" "listed d s" "feeds_inv base (upd_feed s g d)"
    "\<forall>sf \<in> set (f_filters (g (feedarray d ! s))). sf_room sf"
  shows "calm base s d (upd_feed s g d)"
proof -
  have "s < length (feedarray d)" using assms(2) by (simp add: listed_def)
  then show ?thesis using assms others_upd_feed pool_upd_feed by (simp add: calm_def sec_demux_def feeds_consistent_def)
qed


lemma relock: "\<not> mutex d \<Longrightarrow> mutex_unlock (d\<lparr>mutex := True\<rparr>) = d"
  by (cases d) (simp add: mutex_unlock_def)

subsubsection \<open>The calls as changes of the feed\<close>

text \<open>A driver whose callbacks succeed, and no signals.\<close>

definition good_driver :: "dmx_driver \<Rightarrow> bool" where
  "good_driver drv \<longleftrightarrow> stop_feed drv \<noteq> None \<and> (\<exists>st. start_feed drv = Some st \<and> (\<forall>f. 0 \<le> st f))"

definition feed_stopped :: "feed \<Rightarrow> feed" where
  "feed_stopped f = f\<lparr>f_state := DMX_STATE_READY, f_is_filtering := False\<rparr>"

definition feed_started :: "feed \<Rightarrow> feed" where
  "feed_started f = (prepare_secfilters
     (f\<lparr>f_tsfeedp := 0, f_secbuf := 0, f_secbufp := 0, f_seclen := 0, f_pusi_seen := False\<rparr>))
     \<lparr>f_is_filtering := True, f_state := DMX_STATE_GO\<rparr>"

lemma feed_stopped_simps [simp]:
  "f_parent (feed_stopped f) = f_parent f" "f_type (feed_stopped f) = f_type f" "f_pid (feed_stopped f) = f_pid f"
  "f_filters (feed_stopped f) = f_filters f" "\<not> f_is_filtering (feed_stopped f)" "f_state (feed_stopped f) \<noteq> DMX_STATE_FREE"
  by (simp_all add: feed_stopped_def)

lemma feed_started_simps [simp]:
  "f_parent (feed_started f) = f_parent f" "f_type (feed_started f) = f_type f" "f_pid (feed_started f) = f_pid f"
  "f_filters (feed_started f) = map prepare_secfilter (f_filters f)" "f_is_filtering (feed_started f)"
  "f_state (feed_started f) \<noteq> DMX_STATE_FREE"
  by (simp_all add: feed_started_def prepare_secfilters_def)

lemma live_started: "live (feed_started f)"
  by (simp add: live_def prepare_again)

lemma stop_section_eq:
  assumes "good_driver drv" "\<not> mutex d" "s < length (feedarray d)"
  shows "\<exists>r. dmx_section_feed_stop_filtering drv d s = Some (upd_feed s feed_stopped d, r)"
  using assms by (auto simp: good_driver_def dmx_section_feed_stop_filtering_def locked_def mutex_lock_def mem_at_def
      upd_feed_mutex simp flip: feed_stopped_def)

lemma start_section_eq:
  assumes "good_driver drv" "\<not> mutex d" "s < length (feedarray d)"
  shows "dmx_section_feed_start_filtering drv False d s = Some
    (if f_is_filtering (feedarray d ! s) then (d, - EBUSY)
     else if f_filters (feedarray d ! s) = [] then (d, - EINVAL)
     else (upd_feed s feed_started d, 0))"
proof -
  obtain st where st: "start_feed drv = Some st" "\<And>f. \<not> st f < 0" using assms(1) by (auto simp: good_driver_def not_less)
  have e: "feed_started = (\<lambda>f. f\<lparr>f_is_filtering := True, f_state := DMX_STATE_GO\<rparr>) \<circ> (prepare_secfilters \<circ>
      (\<lambda>f. f\<lparr>f_tsfeedp := 0, f_secbuf := 0, f_secbufp := 0, f_seclen := 0, f_pusi_seen := False\<rparr>))"
    by (simp add: fun_eq_iff feed_started_def)
  have tw: "upd_feed s g (upd_feed s h (d\<lparr>mutex := True\<rparr>)) = upd_feed s (g \<circ> h) (d\<lparr>mutex := True\<rparr>)" for g h
    by (rule upd_feed_twice) (use assms(3) in simp)
  show ?thesis using st assms relock [OF assms(2)] unfolding e
    by (simp add: dmx_section_feed_start_filtering_def interruptible_def locked_def mutex_lock_def mem_at_def Let_def tw
        upd_feed_mutex [OF assms(2)] comp_assoc)
qed

definition new_filter :: "nat \<Rightarrow> dvb_demux \<Rightarrow> secfilter" where
  "new_filter j d = (sl_filter (filter_slots d ! j))\<lparr>sfl_index := j\<rparr>"

definition with_filter :: "nat \<Rightarrow> nat \<Rightarrow> dvb_demux \<Rightarrow> dvb_demux" where
  "with_filter s j d = upd_feed s (\<lambda>f. f\<lparr>f_filters := new_filter j d # f_filters f\<rparr>)
     (upd_slot j (\<lambda>x. x\<lparr>sl_feed := Some s, sl_state := DMX_STATE_READY\<rparr>) d)"

lemma alloc_filter_eq:
  assumes "\<not> mutex d"
  shows "dmx_section_feed_allocate_filter False d s = Some
    (case first_free (map sl_state (filter_slots d)) of None \<Rightarrow> (d, Inl (- EBUSY)) | Some j \<Rightarrow> (with_filter s j d, Inr j))"
proof (cases "first_free (map sl_state (filter_slots d))")
  case None
  then show ?thesis using relock [OF assms] assms
    by (simp add: dmx_section_feed_allocate_filter_def interruptible_def locked_def mutex_lock_def dvb_dmx_section_filter_alloc_def)
next
  case (Some j)
  then have j: "j < length (filter_slots d)" by (auto dest!: first_free_Some)
  show ?thesis using Some j assms
    by (cases d) (simp add: dmx_section_feed_allocate_filter_def interruptible_def locked_def mutex_lock_def mutex_unlock_def Let_def
        dvb_dmx_section_filter_alloc_def with_filter_def new_filter_def upd_slot_def upd_feed_def)
qed

definition without_filter :: "nat \<Rightarrow> nat \<Rightarrow> secfilter \<Rightarrow> secfilter list \<Rightarrow> dvb_demux \<Rightarrow> dvb_demux" where
  "without_filter s j sf rest d = upd_slot j (\<lambda>x. x\<lparr>sl_state := DMX_STATE_FREE, sl_filter := sf\<rparr>)
     (upd_feed s (\<lambda>f. f\<lparr>f_filters := rest\<rparr>) d)"

lemma release_filter_eq:
  assumes "\<not> mutex d" "s < length (feedarray d)" "j < length (filter_slots d)" "sl_feed (filter_slots d ! j) = Some s"
    "unlink_filter j (f_filters (feedarray d ! s)) = Some (sf, rest)" "\<not> f_is_filtering (feedarray d ! s)"
  shows "dmx_section_feed_release_filter drv d s j = Some (without_filter s j sf rest d, 0)"
proof -
  have "mutex_unlock (without_filter s j sf rest (d\<lparr>mutex := True\<rparr>)) = without_filter s j sf rest d"
    using assms(1) by (cases d) (simp add: without_filter_def upd_slot_def upd_feed_def mutex_unlock_def)
  then show ?thesis using assms
    by (simp add: dmx_section_feed_release_filter_def mutex_lock_def mem_at_def without_filter_def)
qed

subsubsection \<open>The calls leave the rest alone\<close>

lemma sec_demuxD:
  assumes "sec_demux base d"
  shows "\<not> mutex d" "feeds_inv base d" "pool_ok d" "feeds_consistent base d"
  using assms by (simp_all add: sec_demux_def feeds_consistent_def)

lemma calm_sec: "calm base s d d' \<Longrightarrow> sec_demux base d'"
  by (simp add: calm_def sec_demux_def)

lemma calm_same: "sec_demux base d \<Longrightarrow> calm base s d d"
  by (simp add: calm_def sec_demux_def)

lemma calm_chain: "calm base s d1 d2 \<Longrightarrow> calm base s d2 d3 \<Longrightarrow> calm base s d1 d3"
  using others_same_trans by (auto simp: calm_def)

lemma serves_calm: "calm base s d d' \<Longrightarrow> serves d k j para \<Longrightarrow> k \<noteq> s \<Longrightarrow> serves d' k j para"
  by (auto simp: calm_def intro: serves_other)

lemma listed_len: "listed d s \<Longrightarrow> s < length (feedarray d)"
  by (simp add: listed_def)

lemma feed_change_calm:
  assumes "sec_demux base d" "listed d s"
    and g: "\<And>f. f_parent (g f) = f_parent f" "\<And>f. f_state f \<noteq> DMX_STATE_FREE \<Longrightarrow> f_state (g f) \<noteq> DMX_STATE_FREE"
      "\<And>f. f_filters (g f) = map h (f_filters f)"
    and h: "\<And>sf. sfl_index (h sf) = sfl_index sf" "\<And>sf. sf_room sf \<Longrightarrow> sf_room (h sf)"
  shows "calm base s d (upd_feed s g d) \<and> listed (upd_feed s g d) s"
proof -
  note d = sec_demuxD [OF assms(1)]
  note s = listed_len [OF assms(2)]
  have "feeds_inv base (upd_feed s g d)" by (rule upd_feed_keeps [OF d(2)]) (use g h in \<open>simp_all add: comp_def\<close>)
  moreover have "\<forall>sf \<in> set (f_filters (g (feedarray d ! s))). sf_room sf" using pool_feed [OF d(3) s] g(3) h(2) by auto
  ultimately show ?thesis using calm_upd_feed [OF assms(1,2)] listed_upd_feed [of g d s] assms(2) g(1) by simp
qed

lemma feed_change_serves:
  assumes "serves d s j para"
    and g: "\<And>f. f_parent (g f) = f_parent f" "\<And>f. f_type (g f) = f_type f" "\<And>f. f_pid (g f) = f_pid f"
      "\<And>f. f_filters (g f) = map h (f_filters f)"
    and h: "\<And>sf. sfl_index (h sf) = sfl_index sf" "\<And>sf. sfl_index sf = j \<Longrightarrow> asks para sf \<Longrightarrow> asks para (h sf)"
  shows "serves (upd_feed s g d) s j para"
  by (rule serves_upd_feed [OF assms(1), where h = h]) (use g h in simp_all)

lemma sf_room_prepare [simp]: "sf_room (prepare_secfilter sf) = sf_room sf"
  by (simp add: sf_room_def)

lemma stopped_calm:
  assumes "sec_demux base d" "listed d s"
  shows "calm base s d (upd_feed s feed_stopped d) \<and> listed (upd_feed s feed_stopped d) s"
  by (rule feed_change_calm [OF assms, where h = "\<lambda>sf. sf"]) simp_all

lemma stopped_serves: "serves d s j para \<Longrightarrow> serves (upd_feed s feed_stopped d) s j para"
  by (rule feed_change_serves [where h = "\<lambda>sf. sf"]) simp_all

lemma started_calm:
  assumes "sec_demux base d" "listed d s"
  shows "calm base s d (upd_feed s feed_started d) \<and> listed (upd_feed s feed_started d) s"
  by (rule feed_change_calm [OF assms, where h = prepare_secfilter]) simp_all

lemma started_serves: "serves d s j para \<Longrightarrow> serves (upd_feed s feed_started d) s j para"
  by (rule feed_change_serves [where h = prepare_secfilter]) simp_all

lemma set_secfilter_calm:
  assumes "sec_demux base d" "listed d s" "\<And>sf. sfl_index (g sf) = sfl_index sf" "\<And>sf. sf_room sf \<Longrightarrow> sf_room (g sf)"
  shows "calm base s d (set_secfilter s j g d) \<and> listed (set_secfilter s j g d) s"
  unfolding set_secfilter_def
  by (rule feed_change_calm [OF assms(1,2), where h = "\<lambda>sf. if sfl_index sf = j then g sf else sf"])
    (use assms(3,4) in simp_all)

lemma set_secfilter_serves:
  assumes "serves d s k para" "k \<noteq> j" "\<And>sf. sfl_index (g sf) = sfl_index sf"
  shows "serves (set_secfilter s j g d) s k para"
  unfolding set_secfilter_def
  by (rule feed_change_serves [OF assms(1), where h = "\<lambda>sf. if sfl_index sf = j then g sf else sf"])
    (use assms(2,3) in simp_all)

subsubsection \<open>Filters come and go\<close>

lemma upd_slot_fields [simp]:
  "feedarray (upd_slot j h d) = feedarray d" "heap_feeds (upd_slot j h d) = heap_feeds d"
  "length (filter_slots (upd_slot j h d)) = length (filter_slots d)" "fe_feeds (upd_slot j h d) = fe_feeds d"
  "mutex (upd_slot j h d) = mutex d"
  by (simp_all add: upd_slot_def)

lemma upd_slot_nth: "j < length (filter_slots d) \<Longrightarrow>
    filter_slots (upd_slot j h d) ! k = (if k = j then h (filter_slots d ! j) else filter_slots d ! k)"
  by (simp add: upd_slot_def nth_list_update)

lemma listed_cong: "feedarray d' = feedarray d \<Longrightarrow> heap_feeds d' = heap_feeds d \<Longrightarrow> listed d' s = listed d s"
  by (simp add: listed_def)

lemma with_filter_facts:
  assumes "sec_demux base d" "listed d s" "first_free (map sl_state (filter_slots d)) = Some j"
  shows "calm base s d (with_filter s j d)" "listed (with_filter s j d) s"
    "f_filters (feedarray (with_filter s j d) ! s) = new_filter j d # f_filters (feedarray d ! s)"
    "sf_room (new_filter j d)" "sfl_index (new_filter j d) = j"
    "j < length (filter_slots d)" "sl_state (filter_slots d ! j) = DMX_STATE_FREE"
    "sl_state (filter_slots (with_filter s j d) ! j) \<noteq> DMX_STATE_FREE" "sl_feed (filter_slots (with_filter s j d) ! j) = Some s"
    "f_pid (feedarray (with_filter s j d) ! s) = f_pid (feedarray d ! s)"
    "f_type (feedarray (with_filter s j d) ! s) = f_type (feedarray d ! s)"
    "f_is_filtering (feedarray (with_filter s j d) ! s) = f_is_filtering (feedarray d ! s)"
    "\<And>k para. serves d s k para \<Longrightarrow> k \<noteq> j \<and> serves (with_filter s j d) s k para"
proof -
  let ?d = "with_filter s j d" and ?x = "upd_slot j (\<lambda>x. x\<lparr>sl_feed := Some s, sl_state := DMX_STATE_READY\<rparr>) d"
  note d = sec_demuxD [OF assms(1)]
  note s = listed_len [OF assms(2)]
  show j: "j < length (filter_slots d)" "sl_state (filter_slots d ! j) = DMX_STATE_FREE"
    using first_free_Some [OF assms(3)] by auto
  show room: "sf_room (new_filter j d)" using d(3) j(1) by (simp add: new_filter_def sf_room_def pool_ok_def)
  show ix: "sfl_index (new_filter j d) = j" by (simp add: new_filter_def)
  have fa: "feedarray ?d ! s = (feedarray d ! s)\<lparr>f_filters := new_filter j d # f_filters (feedarray d ! s)\<rparr>"
    using s by (simp add: with_filter_def upd_feed_nth)
  show fields: "f_filters (feedarray ?d ! s) = new_filter j d # f_filters (feedarray d ! s)"
    "f_pid (feedarray ?d ! s) = f_pid (feedarray d ! s)" "f_type (feedarray ?d ! s) = f_type (feedarray d ! s)"
    "f_is_filtering (feedarray ?d ! s) = f_is_filtering (feedarray d ! s)"
    by (simp_all add: fa)
  have "listed ?x s" using assms(2) listed_cong [of ?x d s] by simp
  then show l: "listed ?d s" unfolding with_filter_def by (rule listed_upd_feed [rotated]) simp
  have sl: "filter_slots ?d ! k = (if k = j then (filter_slots d ! j)\<lparr>sl_feed := Some s, sl_state := DMX_STATE_READY\<rparr> else filter_slots d ! k)"
    for k using j(1) by (simp add: with_filter_def upd_slot_nth)
  then show "sl_state (filter_slots ?d ! j) \<noteq> DMX_STATE_FREE" "sl_feed (filter_slots ?d ! j) = Some s" by simp_all
  have len: "length (filter_slots ?d) = length (filter_slots d)" by (simp add: with_filter_def)
  have other: "listed ?d k \<and> feedarray ?d ! k = feedarray d ! k" if "k \<noteq> s" "listed d k" for k
    using that by (simp add: with_filter_def listed_def upd_feed_other)
  have "others_same s d ?d" using other sl len j(2) by (auto simp: others_same_def with_filter_def)
  moreover have "feeds_consistent base ?d"
    using alloc_filter_keeps [OF d(4) assms(2), of False] by (simp add: alloc_filter_eq [OF d(1)] assms(3))
  moreover have "pool_ok ?d"
  proof -
    have "pool_ok ?x" using d(3) j(1) by (auto simp: pool_ok_def upd_slot_def dest!: set_upd)
    then show ?thesis unfolding with_filter_def
      by (rule pool_upd_feed) (use s room pool_feed [OF d(3) s] in auto)
  qed
  ultimately show "calm base s d ?d" by (simp add: calm_def)
  show "k \<noteq> j \<and> serves ?d s k para" if v: "serves d s k para" for k para
  proof -
    have "k \<noteq> j" using v j(2) by (auto simp: serves_def)
    then show ?thesis using v l ix by (auto simp: serves_def filter_ids_def fields len sl)
  qed
qed

lemma unlink_filter_mem:
  "unlink_filter j sfs = Some (sf, rest) \<Longrightarrow> sf \<in> set sfs \<and> sfl_index sf = j \<and> set sfs = insert sf (set rest)"
  by (induction sfs arbitrary: rest) (auto split: if_splits)

lemma without_filter_facts:
  assumes "sec_demux base d" "listed d s" "serves d s j para0" "\<not> f_is_filtering (feedarray d ! s)"
    "unlink_filter j (f_filters (feedarray d ! s)) = Some (sf, rest)"
  shows "calm base s d (without_filter s j sf rest d)" "listed (without_filter s j sf rest d) s"
    "dmx_section_feed_release_filter drv d s j = Some (without_filter s j sf rest d, 0)"
    "\<And>k para. k \<noteq> j \<Longrightarrow> serves d s k para \<Longrightarrow> serves (without_filter s j sf rest d) s k para"
    "\<not> f_is_filtering (feedarray (without_filter s j sf rest d) ! s)"
proof -
  let ?d = "without_filter s j sf rest d"
  note d = sec_demuxD [OF assms(1)]
  note s = listed_len [OF assms(2)]
  have j: "j < length (filter_slots d)" "sl_feed (filter_slots d ! j) = Some s" "j \<in> set (filter_ids d s)"
    using assms(3) by (simp_all add: serves_def)
  note u = unlink_filter_mem [OF assms(5)]
  show eq: "dmx_section_feed_release_filter drv d s j = Some (?d, 0)"
    by (rule release_filter_eq [OF d(1) s j(1,2) assms(5,4)])
  have fa: "feedarray ?d ! s = (feedarray d ! s)\<lparr>f_filters := rest\<rparr>"
    using s by (simp add: without_filter_def upd_feed_nth)
  have "listed (upd_feed s (\<lambda>f. f\<lparr>f_filters := rest\<rparr>) d) s" using assms(2) by (rule listed_upd_feed [rotated]) simp
  then show l: "listed ?d s" using listed_cong [of ?d "upd_feed s (\<lambda>f. f\<lparr>f_filters := rest\<rparr>) d" s] by (simp add: without_filter_def)
  show "\<not> f_is_filtering (feedarray ?d ! s)" using assms(4) by (simp add: fa)
  have sl: "filter_slots ?d ! k = (if k = j then (filter_slots d ! j)\<lparr>sl_state := DMX_STATE_FREE, sl_filter := sf\<rparr> else filter_slots d ! k)"
    for k using j(1) by (simp add: without_filter_def upd_slot_nth)
  have len: "length (filter_slots ?d) = length (filter_slots d)" by (simp add: without_filter_def)
  have other: "listed ?d k \<and> feedarray ?d ! k = feedarray d ! k" if "k \<noteq> s" "listed d k" for k
    using that by (simp add: without_filter_def listed_def upd_feed_other)
  have "others_same s d ?d" using other sl len j(2) by (auto simp: others_same_def without_filter_def)
  moreover have "feeds_consistent base ?d"
    using release_filter_keeps [OF d(4) assms(2), of j drv] j(3) by (simp add: filter_ids_def eq)
  moreover have "pool_ok ?d"
  proof -
    have "pool_ok (upd_feed s (\<lambda>f. f\<lparr>f_filters := rest\<rparr>) d)"
      by (rule pool_upd_feed [OF d(3) s]) (use u pool_feed [OF d(3) s] in auto)
    moreover have "sf_room sf" using u pool_feed [OF d(3) s] by blast
    ultimately show ?thesis using j(1) by (auto simp: pool_ok_def without_filter_def upd_slot_def dest!: set_upd)
  qed
  ultimately show "calm base s d ?d" by (simp add: calm_def)
  show "serves ?d s k para" if v: "k \<noteq> j" "serves d s k para" for k para
    using v l u by (auto simp: serves_def filter_ids_def fa len sl)
qed

subsubsection \<open>Feeds come and go\<close>

definition parent_ok :: "(nat \<Rightarrow> nat) \<Rightarrow> dvb_demux \<Rightarrow> nat option \<Rightarrow> bool" where
  "parent_ok base d cur \<longleftrightarrow> 0 < base (case cur of None \<Rightarrow> default_feeds d | Some p \<Rightarrow> p)"

lemma alloc_section_default:
  "dvbdmx_allocate_section_feed intr d pid crc None = dvbdmx_allocate_section_feed intr d pid crc (Some (default_feeds d))"
  by (auto simp: dvbdmx_allocate_section_feed_def interruptible_def locked_def mutex_lock_def dvb_dmx_feed_alloc_def
      split: option.splits)

text \<open>What is in a list of feeds stays there, except the feed itself.\<close>

lemma feed_add_listed:
  assumes "dvb_demux_output_feed_add d s = Some d'" "listed d k"
  shows "listed d' k"
  using assms
  by (auto simp: dvb_demux_output_feed_add_def dvb_demux_output_feed_find_def feeds_get_def upd_feeds_def listed_def mem_at_def
      split: if_splits bind_splits option.splits)

lemma feed_del_listed:
  assumes "feeds_inv base d" "heap_feeds d1 = heap_feeds d" "feedarray d1 = (feedarray d)[s := f]"
    "f_parent f = f_parent (feedarray d ! s)" "dvb_demux_output_feed_del d1 s = Some d'" "listed d k" "k \<noteq> s"
  shows "listed d' k"
proof -
  obtain fs where fs: "k < length (feedarray d)" "heap_feeds d (f_parent (feedarray d ! k)) = Some fs" "k \<in> set (output_feed_list fs)"
    using assms(6) by (auto simp: listed_def split: option.splits)
  have r: "fs_refcount fs = base (f_parent (feedarray d ! k)) + length (output_feed_list fs)"
    using assms(1) fs(2) by (auto simp: feeds_inv_def feeds_ok_def)
  have two: "s \<in> set (output_feed_list fs) \<Longrightarrow> 2 \<le> length (output_feed_list fs)"
    using fs(3) assms(7) by (cases "output_feed_list fs"; cases "tl (output_feed_list fs)") auto
  have rm: "k \<in> set (remove1 s (output_feed_list fs))" using fs(3) assms(7) by (simp add: in_set_remove1)
  show ?thesis using assms(2-5,7) fs r two rm
    by (auto simp: dvb_demux_output_feed_del_def dvb_demux_output_feed_find_def feeds_put_def upd_feeds_def listed_def mem_at_def
        dvb_demux_feeds_release_cb_def Let_def split: if_splits bind_splits)
qed


lemma feed_add_fields:
  assumes "dvb_demux_output_feed_add d s = Some d'"
  shows "feedarray d' = feedarray d" "filter_slots d' = filter_slots d" "mutex d' = mutex d" "default_feeds d' = default_feeds d"
    "fe_feeds d' = fe_feeds d"
  using assms
  by (auto simp: dvb_demux_output_feed_add_def feeds_get_def upd_feeds_def Let_def split: if_splits bind_splits)

lemma feed_del_fields:
  assumes "dvb_demux_output_feed_del d s = Some d'"
  shows "feedarray d' = feedarray d" "filter_slots d' = filter_slots d" "mutex d' = mutex d" "default_feeds d' = default_feeds d"
    "fe_feeds d' = fe_feeds d"
  using assms
  by (auto simp: dvb_demux_output_feed_del_def feeds_put_def upd_feeds_def dvb_demux_feeds_release_cb_def Let_def
      split: if_splits bind_splits)

lemma alloc_section_facts:
  assumes "sec_demux base d" "parent_ok base d cur"
  shows "case dvbdmx_allocate_section_feed False d pid crc cur of None \<Rightarrow> False
    | Some (d', Inl e) \<Rightarrow> d' = d \<and> e < 0
    | Some (d', Inr s) \<Rightarrow> calm base s d d' \<and> listed d' s \<and> \<not> listed d s \<and> f_type (feedarray d' ! s) = DMX_TYPE_SEC \<and>
        f_pid (feedarray d' ! s) = pid \<and> f_filters (feedarray d' ! s) = [] \<and> \<not> f_is_filtering (feedarray d' ! s) \<and>
        filter_slots d' = filter_slots d"
proof -
  note d = sec_demuxD [OF assms(1)]
  define p where "p = (case cur of None \<Rightarrow> default_feeds d | Some p \<Rightarrow> p)"
  have p: "0 < base p" using assms(2) by (simp add: parent_ok_def p_def)
  have e: "dvbdmx_allocate_section_feed False d pid crc cur = dvbdmx_allocate_section_feed False d pid crc (Some p)"
    by (cases cur) (simp_all add: p_def alloc_section_default)
  have k: "keeps base (dvbdmx_allocate_section_feed False d pid crc (Some p))" by (rule alloc_section_keeps [OF d(4) p])
  show ?thesis
  proof (cases "pid > 0x1fff \<or> dvb_dmx_feed_alloc (d\<lparr>mutex := True\<rparr>) = None")
    case True
    then show ?thesis using d(1) relock [OF d(1)] unfolding e
      by (auto simp: dvbdmx_allocate_section_feed_def interruptible_def locked_def mutex_lock_def)
  next
    case False
    then obtain d1 s where a: "dvb_dmx_feed_alloc (d\<lparr>mutex := True\<rparr>) = Some (d1, s)" by auto
    then have d1: "s < length (feedarray d)" "f_state (feedarray d ! s) = DMX_STATE_FREE"
      "d1 = upd_feed s (\<lambda>f. f\<lparr>f_state := DMX_STATE_ALLOCATED\<rparr>) (d\<lparr>mutex := True\<rparr>)"
      by (auto simp: dvb_dmx_feed_alloc_def upd_feed_def dest!: first_free_Some)
    define g where "g = (\<lambda>f :: feed. f\<lparr>f_type := DMX_TYPE_SEC, f_pid := 0xffff, f_flags := [], f_secbuf := 0,
      f_secbufp := 0, f_seclen := 0, f_tsfeedp := 0, f_filters := [], f_parent := p, f_is_filtering := False\<rparr>)"
    define h where "h = (\<lambda>f :: feed. f\<lparr>f_pid := pid, f_check_crc := crc, f_state := DMX_STATE_READY\<rparr>)"
    define d2 where "d2 = upd_feed s g d1"
    have not: "\<not> listed d s" using listed_state [OF d(2)] d1(2) by blast
    obtain d3 where d3: "dvb_demux_output_feed_add d2 s = Some d3"
      using k False a d(1)
      by (cases "dvb_demux_output_feed_add d2 s")
        (auto simp: keeps_def dvbdmx_allocate_section_feed_def interruptible_def locked_def mutex_lock_def Let_def d2_def g_def)
    note f3 = feed_add_fields [OF d3]
    define d4 where "d4 = mutex_unlock (upd_feed s h d3)"
    have r: "dvbdmx_allocate_section_feed False d pid crc (Some p) = Some (d4, Inr s)"
      using False a d(1) d3
      by (simp add: dvbdmx_allocate_section_feed_def interruptible_def locked_def mutex_lock_def Let_def d2_def g_def h_def d4_def)
    have fa: "feedarray d4 = (feedarray d)[s := h (g ((feedarray d ! s)\<lparr>f_state := DMX_STATE_ALLOCATED\<rparr>))]"
      "filter_slots d4 = filter_slots d" "default_feeds d4 = default_feeds d" "fe_feeds d4 = fe_feeds d"
      using d1(1) by (simp_all add: d4_def mutex_unlock_def upd_feed_def f3 d2_def d1(3))
    have l4: "listed d4 k = listed d3 k" for k
      using d1(1) by (cases "k = s") (auto simp: d4_def mutex_unlock_def listed_def upd_feed_nth upd_feed_other f3 d2_def d1(3) h_def)
    have fs: "feedarray d4 ! s = h (g ((feedarray d ! s)\<lparr>f_state := DMX_STATE_ALLOCATED\<rparr>))" using d1(1) by (simp add: fa)
    have "listed d2 k" if "k \<noteq> s" "listed d k" for k
      using that by (simp add: d2_def d1(3) listed_def upd_feed_other)
    then have other: "listed d4 k" "feedarray d4 ! k = feedarray d ! k" if "k \<noteq> s" "listed d k" for k
      using that feed_add_listed [OF d3] l4 by (simp_all add: fa)
    have "listed d3 s"
      using d3 d1(1) by (auto simp: dvb_demux_output_feed_add_def dvb_demux_output_feed_find_def feeds_get_def upd_feeds_def listed_def
          mem_at_def d2_def d1(3) split: if_splits bind_splits)
    moreover have "pool_ok d4" using d(3) by (auto simp: pool_ok_def fa g_def h_def dest!: set_upd)
    moreover have "others_same s d d4" using other by (simp add: others_same_def fa)
    ultimately show ?thesis using k l4 not unfolding e r by (simp add: calm_def fs g_def h_def fa(2))
  qed
qed

lemma release_section_facts:
  assumes "sec_demux base d" "listed d s"
  shows "\<exists>d'. dvbdmx_release_section_feed d s = Some (d', 0) \<and> calm base s d d' \<and> filter_slots d' = filter_slots d \<and>
    f_is_filtering (feedarray d' ! s) = f_is_filtering (feedarray d ! s) \<and> f_filters (feedarray d' ! s) = f_filters (feedarray d ! s) \<and>
    s < length (feedarray d')"
proof -
  note d = sec_demuxD [OF assms(1)]
  note s = listed_len [OF assms(2)]
  obtain d' where d': "dvbdmx_release_section_feed d s = Some (d', 0)" "feeds_consistent base d'"
    using release_section_spec [OF d(4) assms(2)] by blast
  let ?d1 = "upd_feed s (\<lambda>f. f\<lparr>f_state := DMX_STATE_FREE\<rparr>) (d\<lparr>mutex := True\<rparr>)"
  have st: "f_state (feedarray d ! s) \<noteq> DMX_STATE_FREE" by (rule listed_state [OF d(2) assms(2)])
  obtain d2 where d2: "dvb_demux_output_feed_del ?d1 s = Some d2" "d' = mutex_unlock (upd_feed s (\<lambda>f. f\<lparr>f_pid := 0xffff\<rparr>) d2)"
    using d'(1) d(1) s st
    by (auto simp: dvbdmx_release_section_feed_def locked_def mutex_lock_def mem_at_def split: bind_splits)
  note f2 = feed_del_fields [OF d2(1)]
  have fa: "feedarray d' = (feedarray d)[s := (feedarray d ! s)\<lparr>f_state := DMX_STATE_FREE, f_pid := 0xffff\<rparr>]"
    "filter_slots d' = filter_slots d" "default_feeds d' = default_feeds d" "fe_feeds d' = fe_feeds d" "heap_feeds d' = heap_feeds d2"
    using s by (simp_all add: d2(2) mutex_unlock_def upd_feed_def f2)
  have other: "listed d' k" if "k \<noteq> s" "listed d k" for k
  proof -
    have "listed d2 k"
      by (rule feed_del_listed [OF d(2) _ _ _ d2(1) that(2,1), where f = "(feedarray d ! s)\<lparr>f_state := DMX_STATE_FREE\<rparr>"]) (simp_all add: upd_feed_def)
    then show ?thesis using that(1) by (simp add: listed_def fa f2 upd_feed_other)
  qed
  have "pool_ok d'" using d(3) pool_feed [OF d(3) s] by (auto simp: pool_ok_def fa dest!: set_upd)
  then show ?thesis using d' other s by (auto simp: calm_def others_same_def fa)
qed

end
