(* ===== verification/DmxUsers.thy ===== *)
theory DmxUsers
  imports DmxFrames
begin

text \<open>
  The section filters of the demux device as users of shared feeds.  The invariant \<open>users_ok\<close> ties
  every file of the device to its feed and its filter in the demux, \<open>alive\<close> says that the feeds of
  running filters filter (while one of them is stopped for a change: all the others), and each
  call of \<open>DmxDevice\<close> and \<open>DmxIoctl\<close> keeps both.  The proofs follow the code: a feed is stopped,
  changed and started again for all who use it.
\<close>

subsection \<open>Users of sections\<close>

text \<open>What a filter of the device is in a state in which only section filters are used.\<close>

abbreviation (input) running :: "neumo_dmxdev_filter \<Rightarrow> bool" where
  "running f \<equiv> DMXDEV_STATE_GO \<le> df_state f"

definition attached :: "dvb_demux \<Rightarrow> (nat \<Rightarrow> nat option) \<Rightarrow> nat \<Rightarrow> neumo_dmxdev_filter \<Rightarrow> nat \<Rightarrow> nat \<Rightarrow> bool" where
  "attached dm priv i f s j \<longleftrightarrow> feed_u f = Feed_sec (Some s) \<and> filter_sec f = Some j \<and> priv j = Some i \<and>
     (\<exists>para. params_u f = Params_sec para \<and> serves dm s j (invert_mode para))"

definition todo_ok :: "neumo_dmxdev_filter \<Rightarrow> bool" where
  "todo_ok f \<longleftrightarrow> length (secheader f) = 3 \<and> - 3 < df_todo f \<and> df_todo f \<le> 4095"

lemma todo_ok_simps [simp]:
  "todo_ok (f\<lparr>df_state := st\<rparr>) = todo_ok f" "todo_ok (f\<lparr>df_timer := t\<rparr>) = todo_ok f"
  "todo_ok (f\<lparr>df_buffer := b\<rparr>) = todo_ok f" "todo_ok (f\<lparr>feed_u := u\<rparr>) = todo_ok f"
  "todo_ok (f\<lparr>filter_sec := j\<rparr>) = todo_ok f" "todo_ok (f\<lparr>params_u := p\<rparr>) = todo_ok f"
  "todo_ok (f\<lparr>df_type := ty\<rparr>) = todo_ok f" "todo_ok (f\<lparr>current_feeds := c\<rparr>) = todo_ok f"
  by (simp_all add: todo_ok_def)

lemma todo_ok_reset [simp]: "todo_ok f \<Longrightarrow> todo_ok (f\<lparr>df_todo := 0\<rparr>)" "todo_ok f \<Longrightarrow> todo_ok (f\<lparr>filter_sec := j, df_todo := 0\<rparr>)"
  by (simp_all add: todo_ok_def)

definition fits :: "(nat \<Rightarrow> nat) \<Rightarrow> dvb_demux \<Rightarrow> (nat \<Rightarrow> nat option) \<Rightarrow> nat \<Rightarrow> neumo_dmxdev_filter \<Rightarrow> bool" where
  "fits base dm priv i f \<longleftrightarrow> df_type f \<noteq> DMXDEV_TYPE_PES \<and>
     (df_type f = DMXDEV_TYPE_SEC \<longrightarrow> (\<exists>para. params_u f = Params_sec para \<and> para_ok para)) \<and>
     (DMXDEV_STATE_SET_PES \<le> df_state f \<longrightarrow> df_type f = DMXDEV_TYPE_SEC) \<and>
     (df_state f \<noteq> DMXDEV_STATE_FREE \<longrightarrow> buf_ok (df_buffer f)) \<and>
     parent_ok base dm (current_feeds f) \<and>
     (df_timer f \<noteq> None \<longrightarrow> running f) \<and> todo_ok f \<and>
     (running f \<longrightarrow> (\<exists>s j. attached dm priv i f s j))"

definition sharing :: "neumo_dmxdev_filter list \<Rightarrow> bool" where
  "sharing fs \<longleftrightarrow> (\<forall>i k. i < length fs \<and> k < length fs \<and> running (fs ! i) \<and> running (fs ! k) \<and>
     map_option sct_pid (params_sec (fs ! i)) = map_option sct_pid (params_sec (fs ! k)) \<longrightarrow> feed_u (fs ! i) = feed_u (fs ! k))"

definition users_ok :: "(nat \<Rightarrow> nat) \<Rightarrow> neumo_dmxdev \<Rightarrow> bool" where
  "users_ok base d \<longleftrightarrow> sec_demux base (dd_demux d) \<and> 0 < base (default_feeds (dd_demux d)) \<and> 0 < base (fe_feeds (dd_demux d)) \<and>
     (\<forall>j i. sec_priv d j = Some i \<longrightarrow> i < length (dd_filters d)) \<and>
     (\<forall>i < length (dd_filters d). fits base (dd_demux d) (sec_priv d) i (dd_filters d ! i)) \<and> sharing (dd_filters d)"

text \<open>The feeds of running filters are filtering, except those in the set.\<close>

definition alive :: "nat set \<Rightarrow> neumo_dmxdev \<Rightarrow> bool" where
  "alive X d \<longleftrightarrow> (\<forall>i < length (dd_filters d). running (dd_filters d ! i) \<longrightarrow>
     (\<forall>s. feed_u (dd_filters d ! i) = Feed_sec (Some s) \<longrightarrow> s \<notin> X \<longrightarrow> live (feedarray (dd_demux d) ! s)))"

text \<open>Waits without signals, a driver that works, and memory of the size asked for.\<close>

definition good_env :: "dev_env \<Rightarrow> bool" where
  "good_env env \<longleftrightarrow> good_driver (de_drv env) \<and> (\<forall>k. \<not> de_intr env k) \<and> (\<forall>n m. vmalloc env n = Some m \<longrightarrow> length m = n)"

lemma users_okD:
  assumes "users_ok base d"
  shows "sec_demux base (dd_demux d)" "0 < base (default_feeds (dd_demux d))" "0 < base (fe_feeds (dd_demux d))"
    "\<And>j i. sec_priv d j = Some i \<Longrightarrow> i < length (dd_filters d)"
    "\<And>i. i < length (dd_filters d) \<Longrightarrow> fits base (dd_demux d) (sec_priv d) i (dd_filters d ! i)"
    "sharing (dd_filters d)"
  using assms by (simp_all add: users_ok_def)

lemma fitsD:
  assumes "fits base dm priv i f"
  shows "df_type f \<noteq> DMXDEV_TYPE_PES" "DMXDEV_STATE_SET_PES \<le> df_state f \<Longrightarrow> df_type f = DMXDEV_TYPE_SEC"
    "df_type f = DMXDEV_TYPE_SEC \<Longrightarrow> \<exists>para. params_u f = Params_sec para \<and> para_ok para"
    "df_state f \<noteq> DMXDEV_STATE_FREE \<Longrightarrow> buf_ok (df_buffer f)" "parent_ok base dm (current_feeds f)"
    "df_timer f \<noteq> None \<Longrightarrow> running f" "running f \<Longrightarrow> \<exists>s j. attached dm priv i f s j" "todo_ok f"
  using assms unfolding fits_def by blast+

lemma go_set_pes: "DMXDEV_STATE_GO \<le> st \<Longrightarrow> DMXDEV_STATE_SET_PES \<le> st" "\<not> DMXDEV_STATE_GO \<le> DMXDEV_STATE_SET_PES"
  by (simp_all add: state_order)

lemma running_params:
  assumes "fits base dm priv i f" "running f"
  shows "df_type f = DMXDEV_TYPE_SEC" "\<exists>para. params_u f = Params_sec para \<and> para_ok para"
  using fitsD(2,3) [OF assms(1)] go_set_pes(1) [OF assms(2)] by simp_all

lemma sharingD:
  assumes "sharing fs" "i < length fs" "k < length fs" "running (fs ! i)" "running (fs ! k)"
    "map_option sct_pid (params_sec (fs ! i)) = map_option sct_pid (params_sec (fs ! k))"
  shows "feed_u (fs ! i) = feed_u (fs ! k)"
  using assms unfolding sharing_def by blast

text \<open>A running filter, with its section filter and feed.\<close>

lemma runningE:
  assumes "users_ok base d" "i < length (dd_filters d)" "running (dd_filters d ! i)"
  obtains s j para where "feed_u (dd_filters d ! i) = Feed_sec (Some s)" "filter_sec (dd_filters d ! i) = Some j"
    "sec_priv d j = Some i" "params_u (dd_filters d ! i) = Params_sec para" "para_ok para"
    "serves (dd_demux d) s j (invert_mode para)" "df_type (dd_filters d ! i) = DMXDEV_TYPE_SEC"
proof -
  have f: "fits base (dd_demux d) (sec_priv d) i (dd_filters d ! i)" using assms(1,2) by (simp add: users_ok_def)
  obtain s j where "attached (dd_demux d) (sec_priv d) i (dd_filters d ! i) s j" using fitsD(7) [OF f assms(3)] by blast
  then show ?thesis using running_params [OF f assms(3)] that by (auto simp: attached_def)
qed

lemma parent_ok_calm: "calm base s dm dm' \<Longrightarrow> parent_ok base dm' c = parent_ok base dm c"
  by (auto simp: parent_ok_def calm_def others_same_def split: option.splits)

text \<open>The demux changes on one feed.\<close>

lemma demux_change:
  assumes d: "users_ok base d" and c: "calm base s (dd_demux d) dm"
    and v: "\<And>i j para. i < length (dd_filters d) \<Longrightarrow> running (dd_filters d ! i) \<Longrightarrow> feed_u (dd_filters d ! i) = Feed_sec (Some s) \<Longrightarrow>
      sec_priv d j = Some i \<Longrightarrow> serves (dd_demux d) s j para \<Longrightarrow> serves dm s j para"
  shows "users_ok base (d\<lparr>dd_demux := dm\<rparr>)"
proof -
  note u = users_okD [OF d]
  have "fits base dm (sec_priv d) i (dd_filters d ! i)" if i: "i < length (dd_filters d)" for i
  proof -
    note f = fitsD [OF u(5) [OF i]]
    have "\<exists>s j. attached dm (sec_priv d) i (dd_filters d ! i) s j" if r: "running (dd_filters d ! i)"
      using runningE [OF d i r] v [OF i r] serves_calm [OF c] unfolding attached_def by metis
    then show ?thesis using f(1-6,8) parent_ok_calm [OF c] unfolding fits_def by blast
  qed
  moreover have "default_feeds dm = default_feeds (dd_demux d)" "fe_feeds dm = fe_feeds (dd_demux d)"
    using c by (simp_all add: calm_def others_same_def)
  ultimately show ?thesis using u calm_sec [OF c] by (simp add: users_ok_def)
qed

lemma demux_change_alive:
  assumes d: "users_ok base d" and a: "alive X d" and c: "calm base s (dd_demux d) dm"
  shows "alive (insert s X) (d\<lparr>dd_demux := dm\<rparr>)"
  unfolding alive_def
proof (intro allI impI)
  fix i k
  assume i: "i < length (dd_filters (d\<lparr>dd_demux := dm\<rparr>))" "running (dd_filters (d\<lparr>dd_demux := dm\<rparr>) ! i)"
    "feed_u (dd_filters (d\<lparr>dd_demux := dm\<rparr>) ! i) = Feed_sec (Some k)" "k \<notin> insert s X"
  then have "live (feedarray (dd_demux d) ! k)" using a by (simp add: alive_def)
  moreover have "listed (dd_demux d) k" using i runningE [OF d, of i] by (auto simp: serves_def)
  ultimately show "live (feedarray (dd_demux (d\<lparr>dd_demux := dm\<rparr>)) ! k)"
    using c i(4) by (auto simp: calm_def others_same_def)
qed

lemma alive_live: "alive (insert s X) d \<Longrightarrow> live (feedarray (dd_demux d) ! s) \<Longrightarrow> alive X d"
  by (auto simp: alive_def)

lemma alive_unused:
  "alive (insert s X) d \<Longrightarrow> (\<And>i. i < length (dd_filters d) \<Longrightarrow> running (dd_filters d ! i) \<Longrightarrow> feed_u (dd_filters d ! i) \<noteq> Feed_sec (Some s)) \<Longrightarrow>
   alive X d"
  unfolding alive_def by blast

text \<open>One filter of the device changes.\<close>

lemma upd_filter_simps [simp]:
  "dd_demux (upd_filter i g d) = dd_demux d" "sec_priv (upd_filter i g d) = sec_priv d"
  "length (dd_filters (upd_filter i g d)) = length (dd_filters d)" "pid_priv (upd_filter i g d) = pid_priv d"
  by (simp_all add: upd_filter_def)

lemma upd_filter_nth: "i < length (dd_filters d) \<Longrightarrow> dd_filters (upd_filter i g d) ! k = (if k = i then g (dd_filters d ! i) else dd_filters d ! k)"
  by (simp add: upd_filter_def nth_list_update)

lemma filter_change:
  assumes d: "users_ok base d" and i: "i < length (dd_filters d)" and f: "fits base (dd_demux d) (sec_priv d) i (g (dd_filters d ! i))"
    and sh: "\<And>k. running (g (dd_filters d ! i)) \<Longrightarrow> k < length (dd_filters d) \<Longrightarrow> k \<noteq> i \<Longrightarrow> running (dd_filters d ! k) \<Longrightarrow>
      map_option sct_pid (params_sec (dd_filters d ! k)) = map_option sct_pid (params_sec (g (dd_filters d ! i))) \<Longrightarrow>
      feed_u (dd_filters d ! k) = feed_u (g (dd_filters d ! i))"
  shows "users_ok base (upd_filter i g d)"
proof -
  note u = users_okD [OF d]
  have "sharing (dd_filters (upd_filter i g d))"
    unfolding sharing_def
  proof (intro allI impI, elim conjE)
    fix a b
    let ?fs = "dd_filters (upd_filter i g d)"
    assume h: "a < length ?fs" "b < length ?fs" "running (?fs ! a)" "running (?fs ! b)"
      "map_option sct_pid (params_sec (?fs ! a)) = map_option sct_pid (params_sec (?fs ! b))"
    consider "a = b" | "a = i" "b \<noteq> i" | "a \<noteq> i" "b = i" | "a \<noteq> i" "b \<noteq> i" by blast
    then show "feed_u (?fs ! a) = feed_u (?fs ! b)"
    proof cases
      case 4
      then show ?thesis using h sharingD [OF u(6), of a b] i by (simp add: upd_filter_nth)
    next
      case 2
      then show ?thesis using h sh [of b] i by (simp add: upd_filter_nth)
    next
      case 3
      then show ?thesis using h sh [of a] i by (simp add: upd_filter_nth)
    qed simp
  qed
  then show ?thesis using u i f by (simp add: users_ok_def upd_filter_nth)
qed

lemma filter_change_alive:
  assumes "alive X d" "i < length (dd_filters d)"
    "\<And>s. running (g (dd_filters d ! i)) \<Longrightarrow> feed_u (g (dd_filters d ! i)) = Feed_sec (Some s) \<Longrightarrow> s \<notin> X \<Longrightarrow> live (feedarray (dd_demux d) ! s)"
  shows "alive X (upd_filter i g d)"
  using assms by (auto simp: alive_def upd_filter_nth)

text \<open>A filter that does not run any more, or not yet.\<close>

definition idle :: "(nat \<Rightarrow> nat) \<Rightarrow> dvb_demux \<Rightarrow> neumo_dmxdev_filter \<Rightarrow> bool" where
  "idle base dm f \<longleftrightarrow> df_state f = DMXDEV_STATE_SET_PES \<and> df_type f = DMXDEV_TYPE_SEC \<and> df_timer f = None \<and> buf_ok (df_buffer f) \<and> todo_ok f \<and>
     (\<exists>para. params_u f = Params_sec para \<and> para_ok para) \<and> parent_ok base dm (current_feeds f)"

lemma idle_fits: "idle base dm f \<Longrightarrow> fits base dm priv i f \<and> \<not> running f"
  by (auto simp: idle_def fits_def state_order)

lemma idle_change:
  assumes "users_ok base d" "alive X d" "i < length (dd_filters d)" "idle base (dd_demux d) (g (dd_filters d ! i))"
  shows "users_ok base (upd_filter i g d) \<and> alive X (upd_filter i g d)"
  using filter_change [OF assms(1,3), of g] filter_change_alive [OF assms(2,3), of g] idle_fits [OF assms(4)] by blast

subsubsection \<open>Stop and restart of a feed\<close>

lemma find_SomeD: "List.find P [0..<n] = Some k \<Longrightarrow> k < n \<and> P k"
  by (auto simp: find_Some_iff)

lemma find_running_Some: "find_running pid d = Some k \<Longrightarrow> k < length (dd_filters d) \<and> running_on pid (dd_filters d ! k)"
  unfolding find_running_def by (rule find_SomeD)

lemma find_running_None: "find_running pid d = None \<Longrightarrow> k < length (dd_filters d) \<Longrightarrow> \<not> running_on pid (dd_filters d ! k)"
  by (auto simp: find_running_def find_None_iff)

lemma feed_sec_iff: "feed_sec f = Some p \<longleftrightarrow> feed_u f = Feed_sec p"
  by (auto simp: feed_sec_def split: feed_union.splits)

lemma params_sec_iff: "params_sec f = Some p \<longleftrightarrow> params_u f = Params_sec p"
  by (auto simp: params_sec_def split: params_union.splits)

lemma running_on_iff:
  assumes "fits base dm priv i f"
  shows "running_on pid f \<longleftrightarrow> running f \<and> map_option sct_pid (params_sec f) = Some pid"
  using running_params [OF assms] by (auto simp: running_on_def)

text \<open>A running filter on the PID uses a feed on the PID.\<close>

lemma running_feed:
  assumes "users_ok base d" "k < length (dd_filters d)" "running (dd_filters d ! k)" "feed_u (dd_filters d ! k) = Feed_sec (Some s)"
  shows "map_option sct_pid (params_sec (dd_filters d ! k)) = Some (f_pid (feedarray (dd_demux d) ! s))"
    "listed (dd_demux d) s" "f_filters (feedarray (dd_demux d) ! s) \<noteq> []"
proof -
  obtain j para where "params_u (dd_filters d ! k) = Params_sec para" "serves (dd_demux d) s j (invert_mode para)"
    using runningE [OF assms(1-3)] assms(4) by (metis feed_union.inject(2) option.inject)
  then show "map_option sct_pid (params_sec (dd_filters d ! k)) = Some (f_pid (feedarray (dd_demux d) ! s))"
    "listed (dd_demux d) s" "f_filters (feedarray (dd_demux d) ! s) \<noteq> []"
    by (auto simp: serves_def params_sec_def filter_ids_def)
qed

lemma upd_filter_twice: "i < length (dd_filters d) \<Longrightarrow> upd_filter i g (upd_filter i h d) = upd_filter i (g \<circ> h) d"
  by (simp add: upd_filter_def)

lemma upd_filter_demux [simp]: "upd_filter i g (d\<lparr>dd_demux := dm\<rparr>) = (upd_filter i g d)\<lparr>dd_demux := dm\<rparr>"
  by (simp add: upd_filter_def)

lemma feed_stop_eq:
  assumes "good_env env" "i < length (dd_filters d)" "df_type (dd_filters d ! i) = DMXDEV_TYPE_SEC"
    "feed_u (dd_filters d ! i) = Feed_sec (Some s)" "\<not> mutex (dd_demux d)" "s < length (feedarray (dd_demux d))"
  shows "dvb_dmxdev_feed_stop env i d = Some
    ((upd_filter i (\<lambda>f. f\<lparr>df_state := DMXDEV_STATE_SET_PES, df_timer := None\<rparr>) d)\<lparr>dd_demux := upd_feed s feed_stopped (dd_demux d)\<rparr>, 0)"
proof -
  have drv: "good_driver (de_drv env)" using assms(1) by (simp add: good_env_def)
  obtain r where r: "dmx_section_feed_stop_filtering (de_drv env) (dd_demux d) s = Some (upd_feed s feed_stopped (dd_demux d), r)"
    using stop_section_eq [OF drv assms(5,6)] by blast
  show ?thesis using r assms(2-4)
    by (simp add: dvb_dmxdev_feed_stop_def mem_at_Some feed_sec_def neumo_dvb_dmxdev_filter_state_set_def upd_filter_twice comp_def)
qed

lemma feed_start_eq:
  assumes "good_env env" "i < length (dd_filters d)" "df_type (dd_filters d ! i) = DMXDEV_TYPE_SEC"
    "feed_u (dd_filters d ! i) = Feed_sec (Some s)" "\<not> mutex (dd_demux d)" "s < length (feedarray (dd_demux d))"
    "\<not> f_is_filtering (feedarray (dd_demux d) ! s)" "f_filters (feedarray (dd_demux d) ! s) \<noteq> []"
  shows "dvb_dmxdev_feed_start env i d = Some
    ((upd_filter i (\<lambda>f. f\<lparr>df_state := DMXDEV_STATE_GO\<rparr>) d)\<lparr>dd_demux := upd_feed s feed_started (dd_demux d)\<rparr>, 0)"
proof -
  have env: "good_driver (de_drv env)" "\<not> de_intr env 0" using assms(1) by (simp_all add: good_env_def)
  show ?thesis using start_section_eq [OF env(1) assms(5,6)] env(2) assms(2-4,7,8)
    by (simp add: dvb_dmxdev_feed_start_def mem_at_Some feed_sec_def neumo_dvb_dmxdev_filter_state_set_def)
qed

text \<open>Starting the feed of running filters again.\<close>

lemma started_users:
  assumes "users_ok base d" "alive {s} d" "listed (dd_demux d) s"
  shows "users_ok base (d\<lparr>dd_demux := upd_feed s feed_started (dd_demux d)\<rparr>) \<and>
    alive {} (d\<lparr>dd_demux := upd_feed s feed_started (dd_demux d)\<rparr>)"
proof -
  note c = started_calm [OF users_okD(1) [OF assms(1)] assms(3)]
  have "users_ok base (d\<lparr>dd_demux := upd_feed s feed_started (dd_demux d)\<rparr>)"
    by (rule demux_change [OF assms(1)]) (use c started_serves in auto)
  moreover have "alive {s} (d\<lparr>dd_demux := upd_feed s feed_started (dd_demux d)\<rparr>)"
    using demux_change_alive [OF assms(1,2)] c by (metis insert_absorb2)
  ultimately show ?thesis
    using alive_live [of s "{}"] live_started listed_len [OF assms(3)] by (simp add: upd_feed_nth)
qed

lemma revive_users:
  assumes "users_ok base d" "alive X d" "k < length (dd_filters d)" "running (dd_filters d ! k)"
  shows "users_ok base (upd_filter k (\<lambda>f. f\<lparr>df_state := DMXDEV_STATE_GO\<rparr>) d) \<and> alive X (upd_filter k (\<lambda>f. f\<lparr>df_state := DMXDEV_STATE_GO\<rparr>) d)"
proof -
  let ?g = "\<lambda>f :: neumo_dmxdev_filter. f\<lparr>df_state := DMXDEV_STATE_GO\<rparr>"
  have f: "fits base (dd_demux d) (sec_priv d) k (dd_filters d ! k)" using assms(1,3) by (simp add: users_ok_def)
  have ne: "df_state (dd_filters d ! k) \<noteq> DMXDEV_STATE_FREE" using assms(4) by (auto simp: state_order)
  have "fits base (dd_demux d) (sec_priv d) k (?g (dd_filters d ! k))"
    using f assms(4) ne by (auto simp: fits_def attached_def state_order)
  then have "users_ok base (upd_filter k ?g d)"
  proof (rule filter_change [OF assms(1,3)])
    fix i assume "i < length (dd_filters d)" "running (dd_filters d ! i)"
      "map_option sct_pid (params_sec (dd_filters d ! i)) = map_option sct_pid (params_sec (?g (dd_filters d ! k)))"
    then show "feed_u (dd_filters d ! i) = feed_u (?g (dd_filters d ! k))"
      using sharingD [OF users_okD(6) [OF assms(1)], of i k] assms(3,4) by (simp add: params_sec_def)
  qed
  moreover have "alive X (upd_filter k ?g d)"
    by (rule filter_change_alive [OF assms(2,3)]) (use assms(2-4) in \<open>simp add: alive_def\<close>)
  ultimately show ?thesis ..
qed

lemma restart_ok:
  assumes d: "users_ok base d" "alive {s} d" and env: "good_env env" and i: "i < length (dd_filters d)"
    and f: "\<not> running (dd_filters d ! i)" "params_sec (dd_filters d ! i) = Some para" "feed_u (dd_filters d ! i) = Feed_sec (Some s)"
    and s: "listed (dd_demux d) s" "\<not> f_is_filtering (feedarray (dd_demux d) ! s)"
      "f_pid (feedarray (dd_demux d) ! s) = sct_pid para"
    and same: "\<And>k. k < length (dd_filters d) \<Longrightarrow> running (dd_filters d ! k) \<Longrightarrow>
      map_option sct_pid (params_sec (dd_filters d ! k)) = Some (sct_pid para) \<Longrightarrow> feed_u (dd_filters d ! k) = Feed_sec (Some s)"
  shows "\<exists>d'. dvb_dmxdev_feed_restart env i d = Some (d', 0) \<and> users_ok base d' \<and> alive {} d' \<and>
    length (dd_filters d') = length (dd_filters d) \<and> dd_filters d' ! i = dd_filters d ! i \<and> s < length (feedarray (dd_demux d')) \<and>
    (f_is_filtering (feedarray (dd_demux d') ! s) \<or>
     find_running (sct_pid para) d = None \<and> f_filters (feedarray (dd_demux d') ! s) = f_filters (feedarray (dd_demux d) ! s))"
proof -
  note u = users_okD [OF d(1)]
  note dm = sec_demuxD [OF u(1)]
  note sl = listed_len [OF s(1)]
  have start: "dvb_dmxdev_feed_restart env i d =
    (case find_running (sct_pid para) d of Some k \<Rightarrow> map_option (\<lambda>(d1, _). (d1, 0)) (dvb_dmxdev_feed_start env k d)
     | None \<Rightarrow> map_option (\<lambda>(dm, _). (d\<lparr>dd_demux := dm\<rparr>, 0)) (dvbdmx_release_section_feed (dd_demux d) s))"
    using i f(2,3) by (auto simp: dvb_dmxdev_feed_restart_def mem_at_Some feed_sec_def split: option.splits bind_splits)
  show ?thesis
  proof (cases "find_running (sct_pid para) d")
    case None
    obtain dm' where r: "dvbdmx_release_section_feed (dd_demux d) s = Some (dm', 0)" "calm base s (dd_demux d) dm'"
        "f_filters (feedarray dm' ! s) = f_filters (feedarray (dd_demux d) ! s)" "s < length (feedarray dm')"
      using release_section_facts [OF u(1) s(1)] by blast
    have unused: "feed_u (dd_filters d ! k) \<noteq> Feed_sec (Some s)" if "k < length (dd_filters d)" "running (dd_filters d ! k)" for k
      using running_feed(1) [OF d(1) that] find_running_None [OF None that(1)] running_on_iff [OF u(5) [OF that(1)]] that(2) s(3) by auto
    have "users_ok base (d\<lparr>dd_demux := dm'\<rparr>)" by (rule demux_change [OF d(1) r(2)]) (use unused in auto)
    moreover have "alive (insert s {s}) (d\<lparr>dd_demux := dm'\<rparr>)" by (rule demux_change_alive [OF d r(2)])
    then have "alive {} (d\<lparr>dd_demux := dm'\<rparr>)" by (intro alive_unused [of s "{}"]) (use unused in simp_all)
    ultimately show ?thesis using None r start by simp
  next
    case (Some k)
    note k = find_running_Some [OF Some]
    have kr: "running (dd_filters d ! k)" "map_option sct_pid (params_sec (dd_filters d ! k)) = Some (sct_pid para)"
      using k running_on_iff [OF u(5)] by blast+
    have ki: "k \<noteq> i" using kr(1) f(1) by blast
    have ks: "feed_u (dd_filters d ! k) = Feed_sec (Some s)" using same k kr by blast
    have kt: "df_type (dd_filters d ! k) = DMXDEV_TYPE_SEC" using k by (simp add: running_on_def)
    have ne: "f_filters (feedarray (dd_demux d) ! s) \<noteq> []" using running_feed(3) [OF d(1) _ kr(1) ks] k by blast
    define d1 where "d1 = upd_filter k (\<lambda>f. f\<lparr>df_state := DMXDEV_STATE_GO\<rparr>) d"
    have r: "dvb_dmxdev_feed_start env k d = Some (d1\<lparr>dd_demux := upd_feed s feed_started (dd_demux d1)\<rparr>, 0)"
      using feed_start_eq [OF env _ kt ks dm(1) sl s(2) ne] k by (simp add: d1_def)
    have d1: "users_ok base d1" "alive {s} d1" using revive_users [OF d _ kr(1)] k by (simp_all add: d1_def)
    have "listed (dd_demux d1) s" using s(1) by (simp add: d1_def)
    from started_users [OF d1 this] have "users_ok base (d1\<lparr>dd_demux := upd_feed s feed_started (dd_demux d1)\<rparr>)"
      "alive {} (d1\<lparr>dd_demux := upd_feed s feed_started (dd_demux d1)\<rparr>)" by simp_all
    moreover have "dd_filters d1 ! i = dd_filters d ! i" using k ki by (simp add: d1_def upd_filter_nth)
    ultimately show ?thesis using r start Some sl by (simp add: d1_def upd_feed_nth)
  qed
qed

subsubsection \<open>Stop of a filter\<close>

definition keeps_filter :: "neumo_dmxdev_filter \<Rightarrow> neumo_dmxdev_filter \<Rightarrow> bool" where
  "keeps_filter f f' \<longleftrightarrow> df_type f' = df_type f \<and> params_u f' = params_u f \<and> current_feeds f' = current_feeds f \<and>
     rb_data (df_buffer f') = rb_data (df_buffer f) \<and> rb_size (df_buffer f') = rb_size (df_buffer f)"

lemma flush_fields [simp]:
  "rb_data (dvb_ringbuffer_flush r) = rb_data r" "rb_size (dvb_ringbuffer_flush r) = rb_size r"
  by (simp_all add: dvb_ringbuffer_flush_def)

lemma stop_sec_ok:
  assumes d: "users_ok base d" "alive {} d" and env: "good_env env" and i: "i < length (dd_filters d)"
    and r: "running (dd_filters d ! i)" and s: "feed_u (dd_filters d ! i) = Feed_sec (Some s)"
  shows "\<exists>d'. stop_sec env i s d = Some d' \<and> users_ok base d' \<and> alive {} d' \<and> length (dd_filters d') = length (dd_filters d) \<and>
    idle base (dd_demux d') (dd_filters d' ! i) \<and> keeps_filter (dd_filters d ! i) (dd_filters d' ! i)"
proof -
  let ?f = "dd_filters d ! i"
  note u = users_okD [OF d(1)]
  note dm = sec_demuxD [OF u(1)]
  note fit = fitsD [OF u(5) [OF i]]
  obtain j para where j: "filter_sec ?f = Some j" "sec_priv d j = Some i" "params_u ?f = Params_sec para" "para_ok para"
      "serves (dd_demux d) s j (invert_mode para)" "df_type ?f = DMXDEV_TYPE_SEC"
    using runningE [OF d(1) i r] s by (metis feed_union.inject(2) option.inject)
  have l: "listed (dd_demux d) s" using j(5) by (rule serves_listed)
  note sl = listed_len [OF l]
  have pid: "f_pid (feedarray (dd_demux d) ! s) = sct_pid para" using j(5) by (simp add: serves_def)
  define g where "g = (\<lambda>f :: neumo_dmxdev_filter. f\<lparr>df_state := DMXDEV_STATE_SET_PES, df_timer := None\<rparr>)"
  define dm1 where "dm1 = upd_feed s feed_stopped (dd_demux d)"
  define d1 where "d1 = (upd_filter i g d)\<lparr>dd_demux := dm1\<rparr>"
  have stop: "dvb_dmxdev_feed_stop env i d = Some (d1, 0)"
    using feed_stop_eq [OF env i j(6) s dm(1) sl] by (simp add: d1_def dm1_def g_def)
  have ne: "df_state ?f \<noteq> DMXDEV_STATE_FREE" using r by (auto simp: state_order)
  have "idle base (dd_demux d) (g ?f)" using fit(4) [OF ne] fit(5,8) j by (simp add: idle_def g_def)
  from idle_change [OF d i, of g] this have e: "users_ok base (upd_filter i g d)" "alive {} (upd_filter i g d)" by simp_all
  have c1: "calm base s (dd_demux d) dm1" "listed dm1 s" using stopped_calm [OF u(1) l] by (simp_all add: dm1_def)
  have d1: "users_ok base d1" "alive {s} d1"
    using demux_change [OF e(1), of s dm1] demux_change_alive [OF e, of s dm1] c1 stopped_serves by (simp_all add: d1_def dm1_def)
  have v1: "serves dm1 s j (invert_mode para)" "\<not> f_is_filtering (feedarray dm1 ! s)"
    using stopped_serves [OF j(5)] sl by (simp_all add: dm1_def upd_feed_nth)
  have "j \<in> sfl_index ` set (f_filters (feedarray dm1 ! s))" using v1(1) by (simp add: serves_def filter_ids_def)
  then obtain sf rest where un: "unlink_filter j (f_filters (feedarray dm1 ! s)) = Some (sf, rest)"
    using unlink_filter_found by blast
  define dm2 where "dm2 = without_filter s j sf rest dm1"
  note w = without_filter_facts [OF calm_sec [OF c1(1)] c1(2) v1 un, folded dm2_def]
  define d2 where "d2 = d1\<lparr>dd_demux := dm2\<rparr>"
  have fi: "dd_filters d1 ! i = g ?f" "dd_filters d2 ! i = g ?f" "length (dd_filters d1) = length (dd_filters d)"
      "length (dd_filters d2) = length (dd_filters d)" "sec_priv d1 = sec_priv d" "dd_demux d1 = dm1" "dd_demux d2 = dm2"
      "dd_filters d2 = dd_filters d1"
    using i by (simp_all add: d1_def d2_def upd_filter_nth)
  have nr: "\<not> running (g ?f)" by (simp add: g_def state_order)
  have "users_ok base d2"
    unfolding d2_def
  proof (rule demux_change [OF d1(1)])
    show "calm base s (dd_demux d1) dm2" using w(1) fi(6) by simp
    show "serves dm2 s k p" if h: "a < length (dd_filters d1)" "running (dd_filters d1 ! a)" "sec_priv d1 k = Some a"
      "serves (dd_demux d1) s k p" for a k p
    proof -
      have "a \<noteq> i" using h(2) nr fi(1) by auto
      then have "k \<noteq> j" using h(3) fi(5) j(2) by auto
      then show ?thesis using w(4) h(4) fi(6) by simp
    qed
  qed
  moreover have "alive {s} d2" using demux_change_alive [OF d1, of s dm2] w(1) fi(6) by (simp add: d2_def)
  ultimately have d2: "users_ok base d2" "alive {s} d2" .
  have eq2: "dd_filters d2 ! k = (if k = i then g ?f else dd_filters d ! k)" for k
    using i by (simp add: d2_def d1_def upd_filter_nth)
  have pid2: "f_pid (feedarray dm2 ! s) = sct_pid para"
    using pid sl by (simp add: dm2_def without_filter_def upd_feed_nth dm1_def)
  have pf: "map_option sct_pid (params_sec ?f) = Some (sct_pid para)" using j(3) by (simp add: params_sec_def)
  have same: "feed_u (dd_filters d2 ! k) = Feed_sec (Some s)"
    if h: "k < length (dd_filters d2)" "running (dd_filters d2 ! k)" "map_option sct_pid (params_sec (dd_filters d2 ! k)) = Some (sct_pid para)" for k
  proof -
    have "k \<noteq> i" using h(2) nr eq2 by auto
    then show ?thesis using sharingD [OF u(6), of k i] h fi(4) i r pf s eq2 by simp
  qed
  have "params_sec (dd_filters d2 ! i) = Some para" "feed_u (dd_filters d2 ! i) = Feed_sec (Some s)" "\<not> running (dd_filters d2 ! i)"
    using j(3) s nr by (simp_all add: fi(2) g_def params_sec_def)
  then obtain d3 where d3: "dvb_dmxdev_feed_restart env i d2 = Some (d3, 0)" "users_ok base d3" "alive {} d3"
      "length (dd_filters d3) = length (dd_filters d)" "dd_filters d3 ! i = g ?f"
    using restart_ok [OF d2 env, of i para] i w(2,5) fi(2,4,7) pid2 same by auto
  define d4 where "d4 = upd_filter i (\<lambda>f. f\<lparr>feed_u := Feed_sec None\<rparr>) d3"
  have i3: "i < length (dd_filters d3)" using d3(4) i by simp
  have "parent_ok base (dd_demux d3) (current_feeds (g ?f))" using fitsD(5) [OF users_okD(5) [OF d3(2) i3]] d3(5) by simp
  then have id: "idle base (dd_demux d3) ((g ?f)\<lparr>feed_u := Feed_sec None\<rparr>)" using fit(4) [OF ne] fit(8) j by (simp add: idle_def g_def)
  have "users_ok base d4" "alive {} d4"
    using idle_change [OF d3(2,3) i3, of "\<lambda>f. f\<lparr>feed_u := Feed_sec None\<rparr>"] id d3(5) by (simp_all add: d4_def)
  moreover have "stop_sec env i s d = Some d4"
  proof -
    have a: "filter_sec (dd_filters d1 ! i) = Some j" using j(1) by (simp add: fi(1) g_def)
    show ?thesis using stop a w(3) [of "de_drv env"] d3(1) fi(6) by (simp add: stop_sec_def d4_def d2_def)
  qed
  moreover have "dd_filters d4 ! i = (g ?f)\<lparr>feed_u := Feed_sec None\<rparr>" using i3 d3(5) by (simp add: d4_def upd_filter_nth)
  ultimately show ?thesis using id d3(4) by (auto simp: d4_def keeps_filter_def g_def)
qed

lemma filter_stop_ok:
  assumes d: "users_ok base d" "alive {} d" and env: "good_env env" and i: "i < length (dd_filters d)"
  shows "\<exists>d'. dvb_dmxdev_filter_stop env i d = Some (d', 0) \<and> users_ok base d' \<and> alive {} d' \<and>
    length (dd_filters d') = length (dd_filters d) \<and> keeps_filter (dd_filters d ! i) (dd_filters d' ! i) \<and>
    (if running (dd_filters d ! i) then idle base (dd_demux d') (dd_filters d' ! i) else d' = d)"
proof (cases "running (dd_filters d ! i)")
  case False
  then have "df_state (dd_filters d ! i) < DMXDEV_STATE_GO" by simp
  then show ?thesis using d i by (auto simp: dvb_dmxdev_filter_stop_def mem_at_Some keeps_filter_def)
next
  case True
  obtain s where s: "feed_u (dd_filters d ! i) = Feed_sec (Some s)" "df_type (dd_filters d ! i) = DMXDEV_TYPE_SEC"
    using runningE [OF d(1) i True] by metis
  obtain d1 where d1: "stop_sec env i s d = Some d1" "users_ok base d1" "alive {} d1" "length (dd_filters d1) = length (dd_filters d)"
      "idle base (dd_demux d1) (dd_filters d1 ! i)" "keeps_filter (dd_filters d ! i) (dd_filters d1 ! i)"
    using stop_sec_ok [OF d env i True s(1)] by blast
  have i1: "i < length (dd_filters d1)" using d1(4) i by simp
  let ?g = "\<lambda>f. f\<lparr>df_buffer := dvb_ringbuffer_flush (df_buffer f)\<rparr>"
  have id: "idle base (dd_demux d1) (?g (dd_filters d1 ! i))" using d1(5) buf_ok_flush by (simp add: idle_def)
  have "users_ok base (flush_filter i d1)" "alive {} (flush_filter i d1)"
    using idle_change [OF d1(2,3) i1, of ?g] id by (simp_all add: flush_filter_def)
  moreover have "dvb_dmxdev_filter_stop env i d = Some (flush_filter i d1, 0)"
    using True i s d1(1) by (auto simp: dvb_dmxdev_filter_stop_def mem_at_Some feed_sec_def)
  moreover have "dd_filters (flush_filter i d1) ! i = ?g (dd_filters d1 ! i)" using i1 by (simp add: flush_filter_def upd_filter_nth)
  ultimately show ?thesis using True id d1(4,6) by (auto simp: keeps_filter_def flush_filter_def)
qed

subsubsection \<open>Start of a filter\<close>

text \<open>The feed is found or made: it is stopped, and all running filters on the PID use it.\<close>

definition feed_ready :: "(nat \<Rightarrow> nat) \<Rightarrow> nat \<Rightarrow> dmx_sct_filter_params \<Rightarrow> nat \<Rightarrow> neumo_dmxdev \<Rightarrow> bool" where
  "feed_ready base i para s d \<longleftrightarrow> users_ok base d \<and> alive {s} d \<and> i < length (dd_filters d) \<and>
     idle base (dd_demux d) (dd_filters d ! i) \<and> params_u (dd_filters d ! i) = Params_sec para \<and>
     feed_u (dd_filters d ! i) = Feed_sec (Some s) \<and> listed (dd_demux d) s \<and> \<not> f_is_filtering (feedarray (dd_demux d) ! s) \<and>
     f_type (feedarray (dd_demux d) ! s) = DMX_TYPE_SEC \<and> f_pid (feedarray (dd_demux d) ! s) = sct_pid para \<and>
     (find_running (sct_pid para) d = None \<longrightarrow> f_filters (feedarray (dd_demux d) ! s) = []) \<and>
     (\<forall>k < length (dd_filters d). running (dd_filters d ! k) \<and>
        map_option sct_pid (params_sec (dd_filters d ! k)) = Some (sct_pid para) \<longrightarrow> feed_u (dd_filters d ! k) = Feed_sec (Some s))"

lemma find_running_cong:
  assumes "length (dd_filters d') = length (dd_filters d)"
    "\<And>k. k < length (dd_filters d) \<Longrightarrow> running_on pid (dd_filters d' ! k) = running_on pid (dd_filters d ! k)"
  shows "find_running pid d' = find_running pid d"
  unfolding find_running_def by (rule find_cong) (use assms in auto)

lemma not_running_on: "\<not> running f \<Longrightarrow> \<not> running_on pid f"
  by (simp add: running_on_def)

lemma get_secfeed_ok:
  assumes d: "users_ok base d" "alive {} d" and env: "good_env env" and i: "i < length (dd_filters d)"
    and f: "idle base (dd_demux d) (dd_filters d ! i)" "params_u (dd_filters d ! i) = Params_sec para"
  shows "\<exists>d' r. get_secfeed env i para d = Some (d', r) \<and> length (dd_filters d') = length (dd_filters d) \<and>
    keeps_filter (dd_filters d ! i) (dd_filters d' ! i) \<and>
    (if r < 0 then users_ok base d' \<and> alive {} d' \<and> idle base (dd_demux d') (dd_filters d' ! i)
     else r = 0 \<and> (\<exists>s. feed_ready base i para s d'))"
proof -
  note u = users_okD [OF d(1)]
  note dm = sec_demuxD [OF u(1)]
  have nr: "\<not> running (dd_filters d ! i)" using idle_fits [OF f(1)] by blast
  have ty: "df_type (dd_filters d ! i) = DMXDEV_TYPE_SEC" using f(1) by (simp add: idle_def)
  have run_eq: "running_on p (dd_filters (upd_filter i g d) ! k) = running_on p (dd_filters d ! k)"
    if "\<not> running (g (dd_filters d ! i))" for g k p
    using that nr i not_running_on by (simp add: upd_filter_nth)
  have upd: "users_ok base (upd_filter i g d)" "alive {} (upd_filter i g d)"
    if "idle base (dd_demux d) (g (dd_filters d ! i))" for g
    using idle_change [OF d i, of g] that by simp_all
  show ?thesis
  proof (cases "find_running (sct_pid para) d")
    case None
    let ?g = "\<lambda>f :: neumo_dmxdev_filter. f\<lparr>feed_u := Feed_sec None\<rparr>"
    have id: "idle base (dd_demux d) (?g (dd_filters d ! i))" using f(1) by (simp add: idle_def)
    define d1 where "d1 = upd_filter i ?g d"
    have fi: "dd_filters d1 ! k = (if k = i then ?g (dd_filters d ! i) else dd_filters d ! k)" for k
      using i by (simp add: d1_def upd_filter_nth)
    have par: "parent_ok base (dd_demux d) (current_feeds (dd_filters d1 ! i))" using f(1) fi by (simp add: idle_def)
    have start: "get_secfeed env i para d = do {
        (dm, r) \<leftarrow> dvbdmx_allocate_section_feed False (dd_demux d) (sct_pid para)
          (sct_flags para AND DMX_CHECK_CRC \<noteq> 0) (current_feeds (dd_filters d1 ! i));
        Some (case r of
            Inl e \<Rightarrow> (d1\<lparr>dd_demux := dm\<rparr>, e)
          | Inr s \<Rightarrow> ((upd_filter i (\<lambda>f. f\<lparr>feed_u := Feed_sec (Some s)\<rparr>) d1)\<lparr>dd_demux := dm\<rparr>, 0)) }"
      unfolding d1_def using None env by (simp add: get_secfeed_def good_env_def Let_def)
    have d1: "users_ok base d1" "alive {} d1" using upd [of ?g] id by (simp_all add: d1_def)
    have dmd: "dd_demux d1 = dd_demux d" "length (dd_filters d1) = length (dd_filters d)" by (simp_all add: d1_def)
    note a = alloc_section_facts [OF u(1) par, of "sct_pid para" "sct_flags para AND DMX_CHECK_CRC \<noteq> 0"]
    obtain dm' r where ar: "dvbdmx_allocate_section_feed False (dd_demux d) (sct_pid para)
        (sct_flags para AND DMX_CHECK_CRC \<noteq> 0) (current_feeds (dd_filters d1 ! i)) = Some (dm', r)"
      using a by (auto split: option.splits)
    show ?thesis
    proof (cases r)
      case (Inl e)
      then have e: "dm' = dd_demux d" "e < 0" using a ar by simp_all
      have "d1\<lparr>dd_demux := dd_demux d\<rparr> = d1" by (simp add: d1_def upd_filter_def)
      then have "users_ok base (d1\<lparr>dd_demux := dd_demux d\<rparr>)" "alive {} (d1\<lparr>dd_demux := dd_demux d\<rparr>)"
        using d1 by (simp_all only:)
      then show ?thesis using start ar Inl e d1 id fi dmd f(2) by (simp add: keeps_filter_def)
    next
      case (Inr s)
      then have s: "calm base s (dd_demux d) dm'" "listed dm' s" "\<not> listed (dd_demux d) s" "f_type (feedarray dm' ! s) = DMX_TYPE_SEC"
        "f_pid (feedarray dm' ! s) = sct_pid para" "f_filters (feedarray dm' ! s) = []" "\<not> f_is_filtering (feedarray dm' ! s)"
        using a ar by simp_all
      let ?h = "\<lambda>f :: neumo_dmxdev_filter. f\<lparr>feed_u := Feed_sec (Some s)\<rparr>"
      define d2 where "d2 = upd_filter i ?h d1"
      have i1: "i < length (dd_filters d1)" using i dmd by simp
      have id2: "idle base (dd_demux d) (?h (dd_filters d1 ! i))" using id fi by (simp add: idle_def)
      have d2: "users_ok base d2" "alive {} d2" using idle_change [OF d1 i1, of ?h] id2 dmd by (simp_all add: d2_def)
      have f2: "dd_filters d2 ! k = (if k = i then ?h (?g (dd_filters d ! i)) else dd_filters d ! k)" for k
        using i1 fi by (simp add: d2_def upd_filter_nth)
      have dm2: "dd_demux d2 = dd_demux d" "length (dd_filters d2) = length (dd_filters d)" by (simp_all add: d2_def dmd)
      have unused: "feed_u (dd_filters d2 ! k) \<noteq> Feed_sec (Some s)" if "k < length (dd_filters d2)" "running (dd_filters d2 ! k)" for k
        using running_feed(2) [OF d2(1) that] s(3) dm2 by auto
      have u3: "users_ok base (d2\<lparr>dd_demux := dm'\<rparr>)"
        by (rule demux_change [OF d2(1), of s]) (use unused s(1) dm2 in auto)
      have a3: "alive {s} (d2\<lparr>dd_demux := dm'\<rparr>)" using demux_change_alive [OF d2, of s dm'] s(1) dm2 by simp
      have none: "find_running (sct_pid para) (d2\<lparr>dd_demux := dm'\<rparr>) = None"
        using find_running_cong [of "d2\<lparr>dd_demux := dm'\<rparr>" d "sct_pid para"] None f2 dm2 nr not_running_on by auto
      have run3: "\<not> (running (dd_filters d2 ! k) \<and> map_option sct_pid (params_sec (dd_filters d2 ! k)) = Some (sct_pid para))"
        if "k < length (dd_filters d2)" for k
        using find_running_None [OF none, of k] that running_on_iff [OF users_okD(5) [OF d2(1) that]] by simp
      have run4: "feed_u (dd_filters d ! k) = Feed_sec (Some s)"
        if "k \<noteq> i" "k < length (dd_filters d)" "running (dd_filters d ! k)" "map_option sct_pid (params_sec (dd_filters d ! k)) = Some (sct_pid para)" for k
        using run3 [of k] that f2 dm2 by simp
      have "idle base dm' (dd_filters d2 ! i)" using id2 parent_ok_calm [OF s(1)] f2 fi by (simp add: idle_def)
      then have "feed_ready base i para s (d2\<lparr>dd_demux := dm'\<rparr>)"
        using u3 a3 run4 f2 f(2) i dm2 s by (simp add: feed_ready_def)
      then show ?thesis using start ar Inr f2 dm2 by (auto simp: keeps_filter_def d2_def)
    qed
  next
    case (Some k)
    note k = find_running_Some [OF Some]
    have kr: "running (dd_filters d ! k)" "map_option sct_pid (params_sec (dd_filters d ! k)) = Some (sct_pid para)"
      using k running_on_iff [OF u(5)] by blast+
    have ki: "k \<noteq> i" using kr nr by blast
    obtain s where s: "feed_u (dd_filters d ! k) = Feed_sec (Some s)" using runningE [OF d(1) _ kr(1)] k by blast
    obtain jj pp where srv: "serves (dd_demux d) s jj pp" using runningE [OF d(1) _ kr(1)] k s by (metis feed_union.inject(2) option.inject)
    note rf = running_feed [OF d(1) _ kr(1) s]
    let ?g = "\<lambda>f :: neumo_dmxdev_filter. f\<lparr>feed_u := Feed_sec (Some s)\<rparr>"
    let ?h = "\<lambda>f :: neumo_dmxdev_filter. f\<lparr>df_state := DMXDEV_STATE_SET_PES, df_timer := None\<rparr>"
    define d1 where "d1 = upd_filter i ?g d"
    have i1: "i < length (dd_filters d1)" "dd_demux d1 = dd_demux d" using i by (simp_all add: d1_def)
    have f1: "dd_filters d1 ! i = ?g (dd_filters d ! i)" using i by (simp add: d1_def upd_filter_nth)
    have l: "listed (dd_demux d) s" using rf(2) k by blast
    define dm1 where "dm1 = upd_feed s feed_stopped (dd_demux d)"
    define d2 where "d2 = upd_filter i ?h d1"
    have stop: "dvb_dmxdev_feed_stop env i d1 = Some (d2\<lparr>dd_demux := dm1\<rparr>, 0)"
      using feed_stop_eq [OF env i1(1), of s] f1 ty dm(1) listed_len [OF l] i1 by (simp add: d2_def dm1_def)
    have start: "get_secfeed env i para d = Some (d2\<lparr>dd_demux := dm1\<rparr>, 0)"
      using Some s stop by (simp add: get_secfeed_def feed_sec_def d1_def)
    have d2eq: "d2 = upd_filter i (?h \<circ> ?g) d" using i by (simp add: d2_def d1_def upd_filter_twice)
    have f2: "dd_filters d2 ! x = (if x = i then (?h \<circ> ?g) (dd_filters d ! i) else dd_filters d ! x)" for x
      using i by (simp add: d2eq upd_filter_nth)
    have id: "idle base (dd_demux d) ((?h \<circ> ?g) (dd_filters d ! i))" using f(1) by (simp add: idle_def)
    have d2: "users_ok base d2" "alive {} d2" "dd_demux d2 = dd_demux d" using upd [of "?h \<circ> ?g"] id by (simp_all add: d2eq)
    have c: "calm base s (dd_demux d2) dm1" "listed dm1 s" using stopped_calm [OF u(1) l] d2(3) by (simp_all add: dm1_def)
    have u3: "users_ok base (d2\<lparr>dd_demux := dm1\<rparr>)"
      by (rule demux_change [OF d2(1) c(1)]) (simp add: dm1_def stopped_serves d2(3))
    have a3: "alive {s} (d2\<lparr>dd_demux := dm1\<rparr>)" by (rule demux_change_alive [OF d2(1,2) c(1)])
    have fields: "\<not> f_is_filtering (feedarray dm1 ! s)" "f_type (feedarray dm1 ! s) = DMX_TYPE_SEC" "f_pid (feedarray dm1 ! s) = sct_pid para"
      using srv rf(1) k kr(2) listed_len [OF l] by (auto simp: dm1_def upd_feed_nth serves_def)
    have "find_running (sct_pid para) (d2\<lparr>dd_demux := dm1\<rparr>) = Some k"
      using find_running_cong [of "d2\<lparr>dd_demux := dm1\<rparr>" d "sct_pid para"] Some f2 d2eq nr not_running_on
      by (auto simp: state_order running_on_def)
    moreover have "feed_u (dd_filters d2 ! x) = Feed_sec (Some s)"
      if "x < length (dd_filters d2)" "running (dd_filters d2 ! x)" "map_option sct_pid (params_sec (dd_filters d2 ! x)) = Some (sct_pid para)" for x
    proof (cases "x = i")
      case True
      then show ?thesis using f2 by simp
    next
      case False
      then show ?thesis using that sharingD [OF u(6), of x k] k kr s f2 d2eq by simp
    qed
    moreover have "idle base dm1 (dd_filters d2 ! i)" using id f2 parent_ok_calm [OF c(1)] d2(3) by (simp add: idle_def)
    ultimately have "feed_ready base i para s (d2\<lparr>dd_demux := dm1\<rparr>)"
      using u3 a3 f2 f(2) i c(2) fields d2eq by (simp add: feed_ready_def)
    then show ?thesis using start f2 d2eq by (auto simp: keeps_filter_def)
  qed
qed

lemma invert_invert [simp]: "invert_mode (invert_mode para) = para"
proof -
  have "(b XOR 0xff) XOR 0xff = b" for b :: byte by (simp add: xor.assoc)
  then show ?thesis by (cases para) (simp add: invert_mode_def comp_def)
qed

lemma dmx_filter_fields [simp]: "sfl_index (dmx_filter para sf) = sfl_index sf"
  by (simp add: dmx_filter_def)

lemma dmx_filter_room: "para_ok para \<Longrightarrow> sf_room sf \<Longrightarrow> sf_room (dmx_filter para sf)"
  by (simp add: sf_room_def dmx_filter_def para_ok_def)

lemma dmx_filter_asks:
  assumes "para_ok para" "sf_room sf"
  shows "asks (invert_mode para) (dmx_filter para sf)"
proof -
  have "length (filter_value sf) = 18" "length (filter_mode sf) = 18" using assms(2) by (simp_all add: sf_room_def)
  from dmx_filter_spec [of "invert_mode para", OF _ this] dmx_filter_wf [OF assms(1) this] assms(1)
  show ?thesis by (simp add: asks_def)
qed

lemma priv_change:
  assumes "users_ok base d" "alive X d" "i < length (dd_filters d)"
    "\<And>k. k < length (dd_filters d) \<Longrightarrow> running (dd_filters d ! k) \<Longrightarrow> filter_sec (dd_filters d ! k) \<noteq> Some j"
  shows "users_ok base (d\<lparr>sec_priv := (sec_priv d)(j \<mapsto> i)\<rparr>) \<and> alive X (d\<lparr>sec_priv := (sec_priv d)(j \<mapsto> i)\<rparr>)"
proof -
  note u = users_okD [OF assms(1)]
  have "fits base (dd_demux d) ((sec_priv d)(j \<mapsto> i)) k (dd_filters d ! k)" if k: "k < length (dd_filters d)" for k
  proof -
    note f = fitsD [OF u(5) [OF k]]
    have "\<exists>s x. attached (dd_demux d) ((sec_priv d)(j \<mapsto> i)) k (dd_filters d ! k) s x" if "running (dd_filters d ! k)"
      using f(7) [OF that] assms(4) [OF k that] unfolding attached_def by auto
    then show ?thesis using f(1-6,8) unfolding fits_def by blast
  qed
  then have "users_ok base (d\<lparr>sec_priv := (sec_priv d)(j \<mapsto> i)\<rparr>)" using u assms(3) by (simp add: users_ok_def)
  then show ?thesis using assms(2) by (simp add: alive_def)
qed

lemma in_set_map: "y \<in> set (map f xs) \<Longrightarrow> (\<And>x. x \<in> set xs \<Longrightarrow> y = f x \<Longrightarrow> thesis) \<Longrightarrow> thesis"
  by auto

text \<open>The section filter of a filter that is about to start.\<close>

definition about_to_start :: "(nat \<Rightarrow> nat) \<Rightarrow> nat \<Rightarrow> dmx_sct_filter_params \<Rightarrow> nat \<Rightarrow> neumo_dmxdev \<Rightarrow> bool" where
  "about_to_start base i para s d \<longleftrightarrow> users_ok base d \<and> alive {s} d \<and> i < length (dd_filters d) \<and>
     idle base (dd_demux d) (dd_filters d ! i) \<and>
     params_u (dd_filters d ! i) = Params_sec para \<and> feed_u (dd_filters d ! i) = Feed_sec (Some s) \<and>
     \<not> f_is_filtering (feedarray (dd_demux d) ! s) \<and> (\<exists>j. filter_sec (dd_filters d ! i) = Some j \<and> sec_priv d j = Some i \<and>
       serves (dd_demux d) s j (invert_mode para)) \<and>
     (\<forall>k < length (dd_filters d). running (dd_filters d ! k) \<and>
        map_option sct_pid (params_sec (dd_filters d ! k)) = Some (sct_pid para) \<longrightarrow> feed_u (dd_filters d ! k) = Feed_sec (Some s))"

lemma get_secfilter_ok:
  assumes r: "feed_ready base i para s d" and env: "good_env env"
  shows "\<exists>d' r. get_secfilter env i para d = Some (d', r) \<and> length (dd_filters d') = length (dd_filters d) \<and>
    keeps_filter (dd_filters d ! i) (dd_filters d' ! i) \<and>
    (if r < 0 then users_ok base d' \<and> alive {} d' \<and> idle base (dd_demux d') (dd_filters d' ! i)
     else r = 0 \<and> about_to_start base i para s d')"
proof -
  have d: "users_ok base d" "alive {s} d" and i: "i < length (dd_filters d)"
    and f: "idle base (dd_demux d) (dd_filters d ! i)" "params_u (dd_filters d ! i) = Params_sec para"
      "feed_u (dd_filters d ! i) = Feed_sec (Some s)"
    and s: "listed (dd_demux d) s" "\<not> f_is_filtering (feedarray (dd_demux d) ! s)" "f_type (feedarray (dd_demux d) ! s) = DMX_TYPE_SEC"
      "f_pid (feedarray (dd_demux d) ! s) = sct_pid para"
      "find_running (sct_pid para) d = None \<Longrightarrow> f_filters (feedarray (dd_demux d) ! s) = []"
    and same: "\<And>k. k < length (dd_filters d) \<Longrightarrow> running (dd_filters d ! k) \<Longrightarrow>
        map_option sct_pid (params_sec (dd_filters d ! k)) = Some (sct_pid para) \<Longrightarrow> feed_u (dd_filters d ! k) = Feed_sec (Some s)"
    using r by (simp_all add: feed_ready_def)
  note u = users_okD [OF d(1)]
  note dm = sec_demuxD [OF u(1)]
  have ev: "good_driver (de_drv env)" "\<not> de_intr env k" for k using env by (simp_all add: good_env_def)
  have nr: "\<not> running (dd_filters d ! i)" using idle_fits [OF f(1)] by blast
  have para: "para_ok para" using f(1,2) by (simp add: idle_def)
  have ps: "params_sec (dd_filters d ! i) = Some para" using f(2) by (simp add: params_sec_def)
  show ?thesis
  proof (cases "first_free (map sl_state (filter_slots (dd_demux d)))")
    case None
    obtain d1 where d1: "dvb_dmxdev_feed_restart env i d = Some (d1, 0)" "users_ok base d1" "alive {} d1"
      "length (dd_filters d1) = length (dd_filters d)" "dd_filters d1 ! i = dd_filters d ! i" "s < length (feedarray (dd_demux d1))"
      "f_is_filtering (feedarray (dd_demux d1) ! s) \<or> f_filters (feedarray (dd_demux d1) ! s) = []"
      using restart_ok [OF d env i nr ps f(3) s(1,2,4) same] s(5) by auto
    have nm: "\<not> mutex (dd_demux d1)" using sec_demuxD(1) users_okD(1) [OF d1(2)] by blast
    have "\<exists>e. dmx_section_feed_start_filtering (de_drv env) False (dd_demux d1) s = Some (dd_demux d1, e)"
      using start_section_eq [OF ev(1) nm d1(6)] d1(7) by auto
    then have "get_secfilter env i para d = Some (d1\<lparr>dd_demux := dd_demux d1\<rparr>, - EBUSY)"
      using alloc_filter_eq [OF dm(1), of s] None d1(1) f(3) ev(2) by (auto simp: get_secfilter_def feed_sec_def)
    moreover have "idle base (dd_demux d1) (dd_filters d1 ! i)"
      using f(1) fitsD(5) [OF users_okD(5) [OF d1(2)], of i] i d1(4,5) by (simp add: idle_def)
    ultimately show ?thesis using d1 by (simp add: keeps_filter_def)
  next
    case (Some j)
    define dm1 where "dm1 = with_filter s j (dd_demux d)"
    note w = with_filter_facts [OF u(1) s(1) Some, folded dm1_def]
    define dm2 where "dm2 = set_secfilter s j (dmx_filter para) dm1"
    have c2: "calm base s dm1 dm2" "listed dm2 s"
      unfolding dm2_def using set_secfilter_calm [OF calm_sec [OF w(1)] w(2), of "dmx_filter para" j] dmx_filter_room [OF para] by simp_all
    have c: "calm base s (dd_demux d) dm2" by (rule calm_chain [OF w(1) c2(1)])
    have sl: "s < length (feedarray dm1)" by (rule listed_len [OF w(2)])
    let ?h = "\<lambda>sf. if sfl_index sf = j then dmx_filter para sf else sf"
    have ff: "f_filters (feedarray dm2 ! s) = map ?h (new_filter j (dd_demux d) # f_filters (feedarray (dd_demux d) ! s))"
      using sl w(3) by (simp add: dm2_def set_secfilter_def upd_feed_nth)
    have rest: "f_type (feedarray dm2 ! s) = DMX_TYPE_SEC" "f_pid (feedarray dm2 ! s) = sct_pid para" "\<not> f_is_filtering (feedarray dm2 ! s)"
      "filter_slots dm2 = filter_slots dm1"
      using sl w(10-12) s(2-4) by (simp_all add: dm2_def set_secfilter_def upd_feed_nth)
    have room: "sf_room sf" if "sf \<in> set (f_filters (feedarray (dd_demux d) ! s))" for sf
      using pool_feed [OF dm(3) listed_len [OF s(1)] that] .
    have sv: "serves dm2 s j (invert_mode para)"
      unfolding serves_def
    proof (intro conjI ballI impI)
      show "asks (invert_mode para) sf" if sf: "sf \<in> set (f_filters (feedarray dm2 ! s))" "sfl_index sf = j" for sf
      proof -
        obtain x where x: "x \<in> set (new_filter j (dd_demux d) # f_filters (feedarray (dd_demux d) ! s))" "sf = ?h x"
          using sf(1) unfolding ff by (rule in_set_map)
        have "sf_room x" using x(1) w(4) room by auto
        moreover have "sf = dmx_filter para x" using x(2) sf(2) by (simp split: if_splits)
        ultimately show ?thesis using dmx_filter_asks [OF para] by simp
      qed
      show "j < length (filter_slots dm2)" using w(1,6) rest(4) by (simp add: calm_def others_same_def)
      show "j \<in> set (filter_ids dm2 s)" unfolding filter_ids_def ff using w(5) by simp
      show "f_pid (feedarray dm2 ! s) = sct_pid (invert_mode para)" using rest(2) by simp
      show "sl_state (filter_slots dm2 ! j) \<noteq> DMX_STATE_FREE" "sl_feed (filter_slots dm2 ! j) = Some s" using w(8,9) rest(4) by simp_all
    qed (use c2(2) rest in simp_all)
    let ?g = "\<lambda>f :: neumo_dmxdev_filter. f\<lparr>filter_sec := Some j, df_todo := 0\<rparr>"
    define d1 where "d1 = upd_filter i ?g d"
    have id: "idle base (dd_demux d) (?g (dd_filters d ! i))" using f(1) by (simp add: idle_def)
    have d1: "users_ok base d1" "alive {s} d1" using idle_change [OF d i, of ?g] id by (simp_all add: d1_def)
    have f1: "dd_filters d1 ! k = (if k = i then ?g (dd_filters d ! i) else dd_filters d ! k)" for k
      using i by (simp add: d1_def upd_filter_nth)
    have dd1: "dd_demux d1 = dd_demux d" "sec_priv d1 = sec_priv d" "length (dd_filters d1) = length (dd_filters d)"
      by (simp_all add: d1_def)
    have u2: "users_ok base (d1\<lparr>dd_demux := dm2\<rparr>)"
    proof (rule demux_change [OF d1(1)])
      show "calm base s (dd_demux d1) dm2" using c dd1 by simp
      show "serves dm2 s x p" if "serves (dd_demux d1) s x p" for x p
      proof -
        have "x \<noteq> j \<and> serves dm1 s x p" using w(13) [of x p] that dd1(1) by simp
        then show ?thesis unfolding dm2_def by (intro set_secfilter_serves) simp_all
      qed
    qed
    have a2: "alive {s} (d1\<lparr>dd_demux := dm2\<rparr>)" using demux_change_alive [OF d1, of s dm2] c dd1 by simp
    have free: "filter_sec (dd_filters d1 ! k) \<noteq> Some j" if k: "k < length (dd_filters d1)" "running (dd_filters d1 ! k)" for k
    proof
      assume "filter_sec (dd_filters d1 ! k) = Some j"
      then obtain x p where "serves (dd_demux d1) x j p" using runningE [OF d1(1) k] by (metis option.inject)
      then show False using w(7) dd1(1) by (simp add: serves_def)
    qed
    define d3 where "d3 = (d1\<lparr>dd_demux := dm2\<rparr>)\<lparr>sec_priv := (sec_priv d)(j \<mapsto> i)\<rparr>"
    have d3: "users_ok base d3" "alive {s} d3"
      using priv_change [OF u2 a2, of i j] free i dd1 by (simp_all add: d3_def)
    have r: "get_secfilter env i para d = Some (d3, 0)"
      using alloc_filter_eq [OF dm(1), of s] Some f(3) ev(2) by (simp add: get_secfilter_def feed_sec_def d3_def dm2_def dm1_def d1_def)
    have f3: "dd_filters d3 = dd_filters d1" "dd_demux d3 = dm2" "sec_priv d3 j = Some i" by (simp_all add: d3_def)
    have id3: "idle base dm2 (dd_filters d1 ! i)" using id parent_ok_calm [OF c] f1 by (simp add: idle_def)
    have same3: "feed_u (dd_filters d1 ! k) = Feed_sec (Some s)"
      if "k < length (dd_filters d1)" "running (dd_filters d1 ! k)" "map_option sct_pid (params_sec (dd_filters d1 ! k)) = Some (sct_pid para)" for k
    proof (cases "k = i")
      case True
      then show ?thesis using f(3) f1 by simp
    next
      case False
      then show ?thesis using that same [of k] f1 dd1 by simp
    qed
    have i3: "params_u (dd_filters d1 ! i) = Params_sec para" "feed_u (dd_filters d1 ! i) = Feed_sec (Some s)" "filter_sec (dd_filters d1 ! i) = Some j"
      "keeps_filter (dd_filters d ! i) (dd_filters d1 ! i)"
      using f1 f by (simp_all add: keeps_filter_def)
    have i1: "i < length (dd_filters d1)" using i dd1(3) by simp
    have "about_to_start base i para s d3"
      unfolding about_to_start_def f3(1,2) using d3 id3 same3 i3(1-3) rest(3) sv f3(3) i1 by blast
    then show ?thesis using r i3(4) dd1(3) f3(1) by (intro exI [of _ d3] exI [of _ 0]) simp
  qed
qed

lemma not_running_state: "DMXDEV_STATE_SET_PES \<le> st \<Longrightarrow> \<not> DMXDEV_STATE_GO \<le> st \<Longrightarrow> st = DMXDEV_STATE_SET_PES"
  by (cases st) (simp_all add: state_order)

lemma fits_idle:
  assumes "fits base dm priv i f" "\<not> running f" "DMXDEV_STATE_SET_PES \<le> df_state f"
  shows "idle base dm f"
proof -
  have st: "df_state f = DMXDEV_STATE_SET_PES" by (rule not_running_state [OF assms(3,2)])
  moreover have "df_timer f = None" using fitsD(6) [OF assms(1)] assms(2) by blast
  ultimately show ?thesis using fitsD(2-5,8) [OF assms(1)] by (auto simp: idle_def)
qed

lemma go_ok:
  fixes t :: "nat option"
  assumes a: "about_to_start base i para s d"
  defines "d' \<equiv> upd_filter i (\<lambda>f. f\<lparr>df_timer := t, df_state := DMXDEV_STATE_GO\<rparr>) (d\<lparr>dd_demux := upd_feed s feed_started (dd_demux d)\<rparr>)"
  shows "users_ok base d'" "alive {} d'"
proof -
  let ?g = "\<lambda>f :: neumo_dmxdev_filter. f\<lparr>df_timer := t, df_state := DMXDEV_STATE_GO\<rparr>"
  have d: "users_ok base d" "alive {s} d" and i: "i < length (dd_filters d)"
    and f: "idle base (dd_demux d) (dd_filters d ! i)" "params_u (dd_filters d ! i) = Params_sec para"
      "feed_u (dd_filters d ! i) = Feed_sec (Some s)"
    and same: "\<And>k. k < length (dd_filters d) \<Longrightarrow> running (dd_filters d ! k) \<Longrightarrow>
        map_option sct_pid (params_sec (dd_filters d ! k)) = Some (sct_pid para) \<Longrightarrow> feed_u (dd_filters d ! k) = Feed_sec (Some s)"
    using a by (simp_all add: about_to_start_def)
  obtain j where j: "filter_sec (dd_filters d ! i) = Some j" "sec_priv d j = Some i" "serves (dd_demux d) s j (invert_mode para)"
    using a by (auto simp: about_to_start_def)
  define dm where "dm = upd_feed s feed_started (dd_demux d)"
  have l: "listed (dd_demux d) s" by (rule serves_listed [OF j(3)])
  have u: "users_ok base (d\<lparr>dd_demux := dm\<rparr>)" "alive {} (d\<lparr>dd_demux := dm\<rparr>)"
    using started_users [OF d l] by (simp_all add: dm_def)
  have sv: "serves dm s j (invert_mode para)" using started_serves [OF j(3)] by (simp add: dm_def)
  have lv: "live (feedarray dm ! s)" using live_started listed_len [OF l] by (simp add: dm_def upd_feed_nth)
  have c: "calm base s (dd_demux d) dm" using started_calm [OF users_okD(1) [OF d(1)] l] by (simp add: dm_def)
  have fit: "fits base dm (sec_priv d) i (?g (dd_filters d ! i))"
    using f j sv parent_ok_calm [OF c] by (auto simp: fits_def idle_def attached_def)
  show "users_ok base d'"
    unfolding d'_def dm_def [symmetric]
  proof (rule filter_change [OF u(1)])
    show "feed_u (dd_filters (d\<lparr>dd_demux := dm\<rparr>) ! k) = feed_u (?g (dd_filters (d\<lparr>dd_demux := dm\<rparr>) ! i))"
      if "k < length (dd_filters (d\<lparr>dd_demux := dm\<rparr>))" "running (dd_filters (d\<lparr>dd_demux := dm\<rparr>) ! k)"
        "map_option sct_pid (params_sec (dd_filters (d\<lparr>dd_demux := dm\<rparr>) ! k)) =
         map_option sct_pid (params_sec (?g (dd_filters (d\<lparr>dd_demux := dm\<rparr>) ! i)))" for k
      using that same [of k] f(2,3) by (simp add: params_sec_def)
  qed (use i fit in simp_all)
  show "alive {} d'" unfolding d'_def dm_def [symmetric]
    by (rule filter_change_alive [OF u(2)]) (use i f(3) lv in simp_all)
qed

lemma start_sec_ok:
  assumes d: "users_ok base d" "alive {} d" and env: "good_env env" and i: "i < length (dd_filters d)"
    and f: "idle base (dd_demux d) (dd_filters d ! i)" "params_u (dd_filters d ! i) = Params_sec para"
  shows "\<exists>d' r. start_sec env i d = Some (d', r) \<and> length (dd_filters d') = length (dd_filters d) \<and>
    keeps_filter (dd_filters d ! i) (dd_filters d' ! i) \<and>
    (if r < 0 then users_ok base d' \<and> alive {} d' \<and> idle base (dd_demux d') (dd_filters d' ! i)
     else r = 0 \<and> users_ok base (neumo_dvb_dmxdev_filter_state_set i DMXDEV_STATE_GO d') \<and>
       alive {} (neumo_dvb_dmxdev_filter_state_set i DMXDEV_STATE_GO d'))"
proof -
  let ?g = "\<lambda>f :: neumo_dmxdev_filter. f\<lparr>filter_sec := None, feed_u := Feed_sec None\<rparr>"
  define d0 where "d0 = upd_filter i ?g d"
  have i0: "i < length (dd_filters d0)" "dd_demux d0 = dd_demux d" using i by (simp_all add: d0_def)
  have f0: "dd_filters d0 ! i = ?g (dd_filters d ! i)" using i by (simp add: d0_def upd_filter_nth)
  have id0: "idle base (dd_demux d) (?g (dd_filters d ! i))" using f(1) by (simp add: idle_def)
  have d0: "users_ok base d0" "alive {} d0" using idle_change [OF d i, of ?g] id0 by (simp_all add: d0_def)
  have k0: "keeps_filter (dd_filters d ! i) (dd_filters d0 ! i)" "length (dd_filters d0) = length (dd_filters d)"
    using f0 by (simp_all add: keeps_filter_def d0_def)
  have idd: "idle base (dd_demux d0) (dd_filters d0 ! i)" "params_u (dd_filters d0 ! i) = Params_sec para" using id0 f0 f(2) i0(2) by simp_all
  obtain d1 r1 where r1: "get_secfeed env i para d0 = Some (d1, r1)" "length (dd_filters d1) = length (dd_filters d0)"
      "keeps_filter (dd_filters d0 ! i) (dd_filters d1 ! i)"
      "if r1 < 0 then users_ok base d1 \<and> alive {} d1 \<and> idle base (dd_demux d1) (dd_filters d1 ! i)
       else r1 = 0 \<and> (\<exists>s. feed_ready base i para s d1)"
    using get_secfeed_ok [OF d0 env i0(1) idd] by blast
  have para: "params_sec (dd_filters d ! i) = Some para" using f(2) by (simp add: params_sec_def)
  have kt: "keeps_filter a b \<Longrightarrow> keeps_filter b c \<Longrightarrow> keeps_filter a c" for a b c by (simp add: keeps_filter_def)
  show ?thesis
  proof (cases "r1 < 0")
    case True
    then have "start_sec env i d = Some (d1, r1)" using r1(1) para by (simp add: start_sec_def d0_def)
    then show ?thesis using True r1(2,4) k0(2) kt [OF k0(1) r1(3)] by simp
  next
    case False
    then obtain s where s: "r1 = 0" "feed_ready base i para s d1" using r1(4) by auto
    obtain d2 r2 where r2: "get_secfilter env i para d1 = Some (d2, r2)" "length (dd_filters d2) = length (dd_filters d1)"
        "keeps_filter (dd_filters d1 ! i) (dd_filters d2 ! i)"
        "if r2 < 0 then users_ok base d2 \<and> alive {} d2 \<and> idle base (dd_demux d2) (dd_filters d2 ! i)
         else r2 = 0 \<and> about_to_start base i para s d2"
      using get_secfilter_ok [OF s(2) env] by blast
    have k2: "keeps_filter (dd_filters d ! i) (dd_filters d2 ! i)" "length (dd_filters d2) = length (dd_filters d)"
      using kt [OF kt [OF k0(1) r1(3)] r2(3)] k0(2) r1(2) r2(2) by simp_all
    show ?thesis
    proof (cases "r2 < 0")
      case True
      then have "start_sec env i d = Some (d2, r2)" using r1(1) r2(1) s(1) para by (simp add: start_sec_def d0_def)
      then show ?thesis using True r2(4) k2 by simp
    next
      case False
      then have a: "r2 = 0" "about_to_start base i para s d2" using r2(4) by auto
      obtain j where sv: "serves (dd_demux d2) s j (invert_mode para)" using a(2) by (auto simp: about_to_start_def)
      have f2: "users_ok base d2" "feed_u (dd_filters d2 ! i) = Feed_sec (Some s)" "params_sec (dd_filters d2 ! i) = Some para"
        "\<not> f_is_filtering (feedarray (dd_demux d2) ! s)" "i < length (dd_filters d2)"
        using a(2) by (simp_all add: about_to_start_def params_sec_def)
      have ne: "f_filters (feedarray (dd_demux d2) ! s) \<noteq> []" using sv by (auto simp: serves_def filter_ids_def)
      have nm: "\<not> mutex (dd_demux d2)" using sec_demuxD(1) users_okD(1) [OF f2(1)] by blast
      have ev: "good_driver (de_drv env)" "\<not> de_intr env 3" using env by (simp_all add: good_env_def)
      let ?dm = "upd_feed s feed_started (dd_demux d2)"
      have st: "dmx_section_feed_start_filtering (de_drv env) False (dd_demux d2) s = Some (?dm, 0)"
        using start_section_eq [OF ev(1) nm listed_len [OF serves_listed [OF sv]]] f2(4) ne by simp
      define t where "t = (if sct_timeout para \<noteq> 0 then Some (de_jiffies env + 1 + timer_ticks (de_hz env) (sct_timeout para)) else None)"
      have tm: "dvb_dmxdev_filter_timer (de_hz env) (de_jiffies env) (dd_filters d2 ! i) = Some ((dd_filters d2 ! i)\<lparr>df_timer := t\<rparr>)"
        using f2(3) by (simp add: dvb_dmxdev_filter_timer_def t_def)
      define d3 where "d3 = (upd_filter i (\<lambda>_. (dd_filters d2 ! i)\<lparr>df_timer := t\<rparr>) d2)\<lparr>dd_demux := ?dm\<rparr>"
      have r: "start_sec env i d = Some (d3, 0)"
        using r1(1) r2(1) s(1) a(1) para st tm ev(2) f2(2) by (simp add: start_sec_def d0_def feed_sec_def d3_def)
      have "neumo_dvb_dmxdev_filter_state_set i DMXDEV_STATE_GO d3 =
          upd_filter i (\<lambda>f. f\<lparr>df_timer := t, df_state := DMXDEV_STATE_GO\<rparr>) (d2\<lparr>dd_demux := ?dm\<rparr>)"
        using f2(5) by (simp add: neumo_dvb_dmxdev_filter_state_set_def d3_def upd_filter_def)
      moreover have "keeps_filter (dd_filters d2 ! i) (dd_filters d3 ! i)" "length (dd_filters d3) = length (dd_filters d2)"
        using f2(5) by (simp_all add: d3_def upd_filter_nth keeps_filter_def)
      ultimately show ?thesis using r go_ok [OF a(2), of t] k2 kt [OF k2(1), of "dd_filters d3 ! i"] by simp
    qed
  qed
qed

definition same_user :: "neumo_dmxdev_filter \<Rightarrow> neumo_dmxdev_filter \<Rightarrow> bool" where
  "same_user f f' \<longleftrightarrow> df_type f' = df_type f \<and> params_u f' = params_u f \<and> current_feeds f' = current_feeds f"

lemma keeps_same_user: "keeps_filter f f' \<Longrightarrow> same_user f f'"
  by (simp add: keeps_filter_def same_user_def)

lemma prepare_buffer_ok:
  assumes d: "users_ok base d" "alive {} d" and env: "good_env env" and i: "i < length (dd_filters d)"
    and f: "idle base (dd_demux d) (dd_filters d ! i)"
  shows "\<exists>d' r. prepare_buffer env i d = (d', r) \<and> users_ok base d' \<and> alive {} d' \<and> length (dd_filters d') = length (dd_filters d) \<and>
    idle base (dd_demux d') (dd_filters d' ! i) \<and> same_user (dd_filters d ! i) (dd_filters d' ! i) \<and> r \<le> 0"
proof -
  let ?h = "\<lambda>f. f\<lparr>df_buffer := dvb_ringbuffer_flush (df_buffer f)\<rparr>"
  have flush: "users_ok base (flush_filter i e) \<and> alive {} (flush_filter i e) \<and> idle base (dd_demux e) (dd_filters (flush_filter i e) ! i) \<and>
      same_user (dd_filters e ! i) (dd_filters (flush_filter i e) ! i) \<and> dd_demux (flush_filter i e) = dd_demux e \<and>
      length (dd_filters (flush_filter i e)) = length (dd_filters e)"
    if e: "users_ok base e" "alive {} e" "i < length (dd_filters e)" "idle base (dd_demux e) (dd_filters e ! i)" for e
  proof -
    have id: "idle base (dd_demux e) (?h (dd_filters e ! i))" using e(4) buf_ok_flush by (simp add: idle_def)
    show ?thesis using idle_change [OF e(1-3), of ?h] id e(3) by (simp add: flush_filter_def upd_filter_nth same_user_def)
  qed
  show ?thesis
  proof (cases "rb_data (df_buffer (dd_filters d ! i)) \<noteq> []")
    case True
    then show ?thesis using flush [OF d i f] by (simp add: prepare_buffer_def)
  next
    case False
    show ?thesis
    proof (cases "vmalloc env (rb_size (df_buffer (dd_filters d ! i)))")
      case None
      then show ?thesis using False d f by (simp add: prepare_buffer_def same_user_def)
    next
      case (Some m)
      then have m: "length m = rb_size (df_buffer (dd_filters d ! i))" using env by (auto simp: good_env_def)
      let ?g = "\<lambda>f. f\<lparr>df_buffer := (df_buffer f)\<lparr>rb_data := m\<rparr>\<rparr>"
      have id: "idle base (dd_demux d) (?g (dd_filters d ! i))" using f m by (simp add: idle_def buf_ok_def)
      have e: "users_ok base (upd_filter i ?g d)" "alive {} (upd_filter i ?g d)" using idle_change [OF d i, of ?g] id by simp_all
      have "dd_filters (upd_filter i ?g d) ! i = ?g (dd_filters d ! i)" using i by (simp add: upd_filter_nth)
      then show ?thesis using False Some flush [OF e] i id by (simp add: prepare_buffer_def same_user_def)
    qed
  qed
qed

lemma filter_start_ok:
  assumes d: "users_ok base d" "alive {} d" and env: "good_env env" and i: "i < length (dd_filters d)"
    and st: "DMXDEV_STATE_SET_PES \<le> df_state (dd_filters d ! i)"
  shows "\<exists>d' r. dvb_dmxdev_filter_start env i d = Some (d', r) \<and> users_ok base d' \<and> alive {} d' \<and>
    length (dd_filters d') = length (dd_filters d) \<and> r \<le> 0 \<and> (running (dd_filters d' ! i) \<longleftrightarrow> r = 0) \<and>
    same_user (dd_filters d ! i) (dd_filters d' ! i)"
proof -
  have fit: "fits base (dd_demux d) (sec_priv d) i (dd_filters d ! i)" using d(1) i by (simp add: users_ok_def)
  obtain d1 where d1: "dvb_dmxdev_filter_stop env i d = Some (d1, 0)" "users_ok base d1" "alive {} d1"
      "length (dd_filters d1) = length (dd_filters d)" "keeps_filter (dd_filters d ! i) (dd_filters d1 ! i)"
      "if running (dd_filters d ! i) then idle base (dd_demux d1) (dd_filters d1 ! i) else d1 = d"
    using filter_stop_ok [OF d env i] by blast
  have id1: "idle base (dd_demux d1) (dd_filters d1 ! i)" using d1(6) fits_idle [OF fit _ st] by (auto split: if_splits)
  have i1: "i < length (dd_filters d1)" using i d1(4) by simp
  obtain d2 r2 where d2: "prepare_buffer env i d1 = (d2, r2)" "users_ok base d2" "alive {} d2" "length (dd_filters d2) = length (dd_filters d1)"
      "idle base (dd_demux d2) (dd_filters d2 ! i)" "same_user (dd_filters d1 ! i) (dd_filters d2 ! i)" "r2 \<le> 0"
    using prepare_buffer_ok [OF d1(2,3) env i1 id1] by blast
  have su: "same_user a b \<Longrightarrow> same_user b c \<Longrightarrow> same_user a c" for a b c by (simp add: same_user_def)
  have s2: "same_user (dd_filters d ! i) (dd_filters d2 ! i)" using su keeps_same_user d1(5) d2(6) by blast
  have start: "dvb_dmxdev_filter_start env i d =
    (if r2 < 0 then Some (d2, r2)
     else do { (d3, r3) \<leftarrow> start_sec env i d2;
       Some (if r3 < 0 then (d3, r3) else (neumo_dvb_dmxdev_filter_state_set i DMXDEV_STATE_GO d3, 0)) })"
  proof -
    have ty: "df_type (dd_filters d2 ! i) = DMXDEV_TYPE_SEC" using d2(5) by (simp add: idle_def)
    have "(if running (dd_filters d ! i) then map_option fst (dvb_dmxdev_filter_stop env i d) else Some d) = Some d1"
      using d1(1,6) by simp
    moreover have "\<not> df_state (dd_filters d ! i) < DMXDEV_STATE_SET_PES" using st by simp
    ultimately show ?thesis using i d2(1) ty by (simp add: dvb_dmxdev_filter_start_def mem_at_Some)
  qed
  have i2: "i < length (dd_filters d2)" using i1 d2(4) by simp
  have nr: "\<not> running (dd_filters d2 ! i)" using idle_fits [OF d2(5)] by blast
  show ?thesis
  proof (cases "r2 < 0")
    case True
    then show ?thesis using start d2 s2 d1(4) nr by auto
  next
    case False
    obtain para where para: "params_u (dd_filters d2 ! i) = Params_sec para" using d2(5) by (auto simp: idle_def)
    obtain d3 r3 where d3: "start_sec env i d2 = Some (d3, r3)" "length (dd_filters d3) = length (dd_filters d2)"
        "keeps_filter (dd_filters d2 ! i) (dd_filters d3 ! i)"
        "if r3 < 0 then users_ok base d3 \<and> alive {} d3 \<and> idle base (dd_demux d3) (dd_filters d3 ! i)
         else r3 = 0 \<and> users_ok base (neumo_dvb_dmxdev_filter_state_set i DMXDEV_STATE_GO d3) \<and>
           alive {} (neumo_dvb_dmxdev_filter_state_set i DMXDEV_STATE_GO d3)"
      using start_sec_ok [OF d2(2,3) env i2 d2(5) para] by blast
    have s3: "same_user (dd_filters d ! i) (dd_filters d3 ! i)" using su [OF s2] keeps_same_user [OF d3(3)] by blast
    show ?thesis
    proof (cases "r3 < 0")
      case True
      then have "\<not> running (dd_filters d3 ! i)" using d3(4) idle_fits by auto
      then show ?thesis using True False start d3 s3 d1(4) d2(4) by auto
    next
      case ok: False
      have i3: "i < length (dd_filters d3)" using i2 d3(2) by simp
      have "dd_filters (neumo_dvb_dmxdev_filter_state_set i DMXDEV_STATE_GO d3) ! i = (dd_filters d3 ! i)\<lparr>df_state := DMXDEV_STATE_GO\<rparr>"
        using i3 by (simp add: neumo_dvb_dmxdev_filter_state_set_def upd_filter_nth)
      moreover have "length (dd_filters (neumo_dvb_dmxdev_filter_state_set i DMXDEV_STATE_GO d3)) = length (dd_filters d)"
        using d3(2) d2(4) d1(4) by (simp add: neumo_dvb_dmxdev_filter_state_set_def)
      moreover have "same_user (dd_filters d ! i) ((dd_filters d3 ! i)\<lparr>df_state := DMXDEV_STATE_GO\<rparr>)" using s3 by (simp add: same_user_def)
      ultimately show ?thesis using False ok start d3 by simp
    qed
  qed
qed

subsubsection \<open>The calls of users\<close>

lemma ioctl_filter_set:
  assumes d: "users_ok base d" "alive {} d" and env: "good_env env" and i: "i < length (dd_filters d)"
    and st: "df_state (dd_filters d ! i) \<noteq> DMXDEV_STATE_FREE" and para: "para_ok para"
  shows "\<exists>d' r. dvb_dmxdev_section_filter_set env i para d = Some (d', r) \<and> users_ok base d' \<and> alive {} d' \<and>
    length (dd_filters d') = length (dd_filters d) \<and> r \<le> 0 \<and> params_u (dd_filters d' ! i) = Params_sec (invert_mode para) \<and>
    (running (dd_filters d' ! i) \<longleftrightarrow> r = 0 \<and> sct_flags para AND DMX_IMMEDIATE_START \<noteq> 0)"
proof -
  obtain d1 where d1: "dvb_dmxdev_filter_stop env i d = Some (d1, 0)" "users_ok base d1" "alive {} d1"
      "length (dd_filters d1) = length (dd_filters d)" "if running (dd_filters d ! i) then idle base (dd_demux d1) (dd_filters d1 ! i) else d1 = d"
    using filter_stop_ok [OF d env i] by blast
  have i1: "i < length (dd_filters d1)" using i d1(4) by simp
  note f1 = fitsD [OF users_okD(5) [OF d1(2) i1]]
  have nr: "\<not> running (dd_filters d1 ! i)" using d1(5) idle_fits by (auto split: if_splits)
  have nf: "df_state (dd_filters d1 ! i) \<noteq> DMXDEV_STATE_FREE" using d1(5) st by (auto simp: idle_def split: if_splits)
  have tm: "df_timer (dd_filters d1 ! i) = None" using f1(6) nr by blast
  let ?g = "\<lambda>f. f\<lparr>df_type := DMXDEV_TYPE_SEC, params_u := Params_sec (invert_mode para), df_state := DMXDEV_STATE_SET_PES\<rparr>"
  have id: "idle base (dd_demux d1) (?g (dd_filters d1 ! i))" using f1(4) [OF nf] f1(5,8) tm para by (simp add: idle_def)
  define d2 where "d2 = upd_filter i ?g d1"
  have d2: "users_ok base d2" "alive {} d2" using idle_change [OF d1(2,3) i1, of ?g] id by (simp_all add: d2_def)
  have f2: "dd_filters d2 ! i = ?g (dd_filters d1 ! i)" "length (dd_filters d2) = length (dd_filters d1)"
    using i1 by (simp_all add: d2_def upd_filter_nth)
  have r: "dvb_dmxdev_section_filter_set env i para d =
    (if sct_flags para AND DMX_IMMEDIATE_START \<noteq> 0 then dvb_dmxdev_filter_start env i d2 else Some (d2, 0))"
    using d1(1) by (simp add: dvb_dmxdev_section_filter_set_def d2_def)
  show ?thesis
  proof (cases "sct_flags para AND DMX_IMMEDIATE_START \<noteq> 0")
    case False
    then show ?thesis using r d2 f2 d1(4) by (simp add: state_order)
  next
    case True
    have "DMXDEV_STATE_SET_PES \<le> df_state (dd_filters d2 ! i)" by (simp add: f2)
    from filter_start_ok [OF d2 env _ this] show ?thesis using r True f2 i1 d1(4) by (auto simp: same_user_def)
  qed
qed

definition section_cmd :: "dmx_cmd \<Rightarrow> bool" where
  "section_cmd cmd \<longleftrightarrow> (case cmd of DMX_SET_FILTER para \<Rightarrow> para_ok para | DMX_SET_PES_FILTER _ \<Rightarrow> False
     | DMX_SET_STID_STREAM _ _ \<Rightarrow> False | DMX_SET_T2MI_STREAM _ _ \<Rightarrow> False | DMX_GET_PES_PIDS \<Rightarrow> False | _ \<Rightarrow> True)"

lemma buf_change:
  assumes d: "users_ok base d" "alive {} d" and i: "i < length (dd_filters d)"
    and f: "df_type f' = df_type (dd_filters d ! i)" "params_u f' = params_u (dd_filters d ! i)" "feed_u f' = feed_u (dd_filters d ! i)"
      "filter_sec f' = filter_sec (dd_filters d ! i)" "running f' = running (dd_filters d ! i)" "buf_ok (df_buffer f')" "todo_ok f'"
      "parent_ok base (dd_demux d) (current_feeds f')" "df_timer f' \<noteq> None \<longrightarrow> running f'"
      "DMXDEV_STATE_SET_PES \<le> df_state f' \<longrightarrow> df_type f' = DMXDEV_TYPE_SEC"
  shows "users_ok base (upd_filter i (\<lambda>_. f') d) \<and> alive {} (upd_filter i (\<lambda>_. f') d)"
proof -
  note u = users_okD [OF d(1)]
  note old = fitsD [OF u(5) [OF i]]
  have "fits base (dd_demux d) (sec_priv d) i f'"
    using f old unfolding fits_def attached_def by metis
  then have "users_ok base (upd_filter i (\<lambda>_. f') d)"
  proof (rule filter_change [OF d(1) i])
    show "feed_u (dd_filters d ! k) = feed_u f'" if "running f'" "k < length (dd_filters d)" "running (dd_filters d ! k)"
      "map_option sct_pid (params_sec (dd_filters d ! k)) = map_option sct_pid (params_sec f')" for k
      using sharingD [OF u(6), of k i] that f i by (simp add: params_sec_def)
  qed
  moreover have "alive {} (upd_filter i (\<lambda>_. f') d)"
    by (rule filter_change_alive [OF d(2) i]) (use d(2) i f in \<open>simp add: alive_def\<close>)
  ultimately show ?thesis ..
qed

lemma run_cmd_ok:
  assumes d: "users_ok base d" "alive {} d" and env: "good_env env" and i: "i < length (dd_filters d)"
    and st: "df_state (dd_filters d ! i) \<noteq> DMXDEV_STATE_FREE" and c: "section_cmd cmd"
  shows "\<exists>d' r. run_cmd env i cmd d = Some (d', r) \<and> users_ok base d' \<and> alive {} d' \<and> length (dd_filters d') = length (dd_filters d)"
proof -
  note u = users_okD [OF d(1)]
  note f = fitsD [OF u(5) [OF i]]
  have keep: "upd_filter i (\<lambda>_. dd_filters d ! i) d = d" by (simp add: upd_filter_def)
  show ?thesis
  proof (cases cmd)
    case DMX_START
    show ?thesis
    proof (cases "df_state (dd_filters d ! i) < DMXDEV_STATE_SET_PES")
      case True
      then show ?thesis using DMX_START d i by (simp add: run_cmd_def mem_at_Some)
    next
      case False
      then have "DMXDEV_STATE_SET_PES \<le> df_state (dd_filters d ! i)" by simp
      from filter_start_ok [OF d env i this] False show ?thesis using DMX_START i by (auto simp: run_cmd_def mem_at_Some)
    qed
  next
    case DMX_STOP
    then show ?thesis using filter_stop_ok [OF d env i] i by (auto simp: run_cmd_def mem_at_Some)
  next
    case (DMX_SET_FILTER para)
    then have "para_ok para" using c by (simp add: section_cmd_def)
    from ioctl_filter_set [OF d env i st this] show ?thesis using DMX_SET_FILTER i by (auto simp: run_cmd_def mem_at_Some)
  next
    case DMX_SET_FE_STREAM
    let ?f = "(dd_filters d ! i)\<lparr>current_feeds := Some (fe_feeds (dd_demux d))\<rparr>"
    have "users_ok base (upd_filter i (\<lambda>_. ?f) d) \<and> alive {} (upd_filter i (\<lambda>_. ?f) d)"
      by (rule buf_change [OF d i]) (use f st u(3) in \<open>auto simp: parent_ok_def\<close>)
    moreover have "upd_filter i (\<lambda>f. f\<lparr>current_feeds := Some (fe_feeds (dd_demux d))\<rparr>) d = upd_filter i (\<lambda>_. ?f) d"
      by (simp add: upd_filter_def)
    ultimately show ?thesis using DMX_SET_FE_STREAM i by (simp add: run_cmd_def mem_at_Some dvbdmx_get_fe_feeds_def)
  next
    case (DMX_SET_BUFFER_SIZE n)
    obtain f1 r where r: "dvb_dmxdev_set_buffer_size (vmalloc env n) n (dd_filters d ! i) = (f1, r)" by fastforce
    have "users_ok base (upd_filter i (\<lambda>_. f1) d) \<and> alive {} (upd_filter i (\<lambda>_. f1) d)"
    proof (cases "f1 = dd_filters d ! i")
      case True
      then show ?thesis using d keep by simp
    next
      case False
      then obtain m where m: "vmalloc env n = Some m" "n \<noteq> 0" "\<not> running (dd_filters d ! i)"
        "f1 = (dd_filters d ! i)\<lparr>df_buffer := dvb_ringbuffer_reset ((df_buffer (dd_filters d ! i))\<lparr>rb_data := m, rb_size := n\<rparr>)\<rparr>"
        using r by (auto simp: dvb_dmxdev_set_buffer_size_def set_buffer_size_def split: if_splits option.splits)
      have "length m = n" using m(1) env by (auto simp: good_env_def)
      then have "buf_ok (df_buffer f1)" using m by (simp add: buf_ok_def dvb_ringbuffer_reset_def)
      then show ?thesis using m(4) f by (intro buf_change [OF d i]) auto
    qed
    then show ?thesis using DMX_SET_BUFFER_SIZE r i by (simp add: run_cmd_def mem_at_Some)
  next
    case (DMX_ADD_PID pid)
    then show ?thesis using d i f(1) by (simp add: run_cmd_def mem_at_Some dvb_dmxdev_add_pid_def)
  next
    case (DMX_REMOVE_PID pid)
    then show ?thesis using d i f(1) by (simp add: run_cmd_def mem_at_Some dvb_dmxdev_remove_pid_def)
  qed (use d i c in \<open>simp_all add: run_cmd_def mem_at_Some section_cmd_def\<close>)
qed

lemma open_ok:
  assumes d: "users_ok base d" "alive {} d"
  shows "users_ok base (fst (neumo_dvb_demux_open False d)) \<and> alive {} (fst (neumo_dvb_demux_open False d))"
proof (cases "dd_filters d = [] \<or> dd_exit d \<or> List.find (\<lambda>i. df_state (dd_filters d ! i) = DMXDEV_STATE_FREE) [0..<length (dd_filters d)] = None")
  case True
  then show ?thesis using d by (auto simp: neumo_dvb_demux_open_def)
next
  case False
  then obtain i where i: "List.find (\<lambda>i. df_state (dd_filters d ! i) = DMXDEV_STATE_FREE) [0..<length (dd_filters d)] = Some i" by auto
  then have fi: "i < length (dd_filters d)" using find_SomeD by blast
  note f = fitsD [OF users_okD(5) [OF d(1) fi]]
  have buf: "buf_ok (dvb_ringbuffer_init [] 8192)" by (simp add: buf_ok_def dvb_ringbuffer_init_def)
  have fit: "fits base (dd_demux d) (sec_priv d) i (open_filter (dd_filters d ! i))" and nr: "\<not> running (open_filter (dd_filters d ! i))"
    using f(5,8) buf by (simp_all add: fits_def open_filter_def state_order)
  have "users_ok base (upd_filter i open_filter d)" by (rule filter_change [where g = open_filter, OF d(1) fi fit]) (use nr in simp)
  moreover have "alive {} (upd_filter i open_filter d)" by (rule filter_change_alive [where g = open_filter, OF d(2) fi]) (use nr in simp)
  ultimately show ?thesis using False i by (simp add: neumo_dvb_demux_open_def users_ok_def alive_def)
qed

lemma close_ok:
  assumes d: "users_ok base d" "alive {} d" and env: "good_env env" and i: "i < length (dd_filters d)"
  shows "\<exists>d' r. neumo_dvb_demux_release env i d = Some (d', r) \<and> users_ok base d' \<and> alive {} d'"
proof -
  obtain d1 where d1: "dvb_dmxdev_filter_stop env i d = Some (d1, 0)" "users_ok base d1" "alive {} d1"
      "length (dd_filters d1) = length (dd_filters d)" "if running (dd_filters d ! i) then idle base (dd_demux d1) (dd_filters d1 ! i) else d1 = d"
    using filter_stop_ok [OF d env i] by blast
  have i1: "i < length (dd_filters d1)" using i d1(4) by simp
  have nr: "\<not> running (dd_filters d1 ! i)" using d1(5) idle_fits by (auto split: if_splits)
  note f = fitsD [OF users_okD(5) [OF d1(2) i1]]
  define f2 where "f2 = (if df_state (dd_filters d1 ! i) \<le> DMXDEV_STATE_ALLOCATED then dd_filters d1 ! i
    else (dd_filters d1 ! i)\<lparr>df_type := DMXDEV_TYPE_NONE, current_feeds := None, df_state := DMXDEV_STATE_ALLOCATED\<rparr>)"
  let ?h = "\<lambda>f. f\<lparr>df_buffer := (df_buffer f)\<lparr>rb_data := []\<rparr>, df_state := DMXDEV_STATE_FREE\<rparr>"
  have reset: "\<exists>r. dvb_dmxdev_filter_reset i DMXDEV_STATE_ALLOCATED d1 = Some (upd_filter i (\<lambda>_. f2) d1, r)"
  proof (cases "df_state (dd_filters d1 ! i) \<le> DMXDEV_STATE_ALLOCATED")
    case True
    then have "f2 = dd_filters d1 ! i" by (simp add: f2_def)
    then have "upd_filter i (\<lambda>_. f2) d1 = d1" by (simp add: upd_filter_def)
    then show ?thesis using True i1 by (simp add: dvb_dmxdev_filter_reset_def mem_at_Some)
  next
    case False
    then show ?thesis using i1 f(1)
      by (simp add: dvb_dmxdev_filter_reset_def mem_at_Some neumo_dvb_dmxdev_filter_state_set_def upd_filter_twice f2_def comp_def)
  qed
  define d2 where "d2 = upd_filter i (\<lambda>_. ?h f2) d1"
  have rel: "\<exists>r. neumo_dvb_demux_release env i d = Some (d2\<lparr>demux_users := demux_users d2 - 1\<rparr>, r)"
    using d1(1) reset i1 by (auto simp: neumo_dvb_demux_release_def dvb_dmxdev_filter_free_def upd_filter_twice d2_def comp_def)
  have tm: "df_timer (dd_filters d1 ! i) = None" using f(6) nr by blast
  have "parent_ok base (dd_demux d1) None" using users_okD(2) [OF d1(2)] by (simp add: parent_ok_def)
  then have fit: "fits base (dd_demux d1) (sec_priv d1) i (?h f2)"
    using f(1,3,5,8) tm by (auto simp: fits_def f2_def state_order)
  have nr2: "\<not> running (?h f2)" by (simp add: state_order)
  have "users_ok base d2" unfolding d2_def by (rule filter_change [where g = "\<lambda>_. ?h f2", OF d1(2) i1 fit]) (use nr2 in simp)
  moreover have "alive {} d2" unfolding d2_def by (rule filter_change_alive [where g = "\<lambda>_. ?h f2", OF d1(3) i1]) (use nr2 in simp)
  ultimately show ?thesis using rel by (auto simp: users_ok_def alive_def)
qed

subsubsection \<open>The files of others\<close>

text \<open>What a call for one file leaves to the files of others: what they asked for, and that they run.\<close>

definition others_run :: "nat \<Rightarrow> neumo_dmxdev \<Rightarrow> neumo_dmxdev \<Rightarrow> bool" where
  "others_run i d d' \<longleftrightarrow> length (dd_filters d') = length (dd_filters d) \<and>
     (\<forall>k < length (dd_filters d). k \<noteq> i \<longrightarrow> params_u (dd_filters d' ! k) = params_u (dd_filters d ! k) \<and>
        (running (dd_filters d ! k) \<longrightarrow> running (dd_filters d' ! k)))"

lemma others_refl [simp]: "others_run i d d"
  by (simp add: others_run_def)

lemma others_trans: "others_run i d1 d2 \<Longrightarrow> others_run i d2 d3 \<Longrightarrow> others_run i d1 d3"
  by (simp add: others_run_def)

lemma others_upd [simp]: "others_run i d (upd_filter i g d)"
  by (simp add: others_run_def upd_filter_def)

lemma others_demux [simp]: "others_run i (d\<lparr>dd_demux := dm\<rparr>) d' = others_run i d d'" "others_run i d (d'\<lparr>dd_demux := dm\<rparr>) = others_run i d d'"
  "others_run i d (d'\<lparr>sec_priv := sp\<rparr>) = others_run i d d'" "others_run i d (d'\<lparr>pid_priv := pp\<rparr>) = others_run i d d'"
  by (simp_all add: others_run_def)

lemma others_upd2 [simp]: "others_run i d (upd_filter i g d') = others_run i d d'"
  by (auto simp: others_run_def upd_filter_def)

lemma others_state [simp]: "others_run i d (neumo_dvb_dmxdev_filter_state_set i st d') = others_run i d d'"
  unfolding neumo_dvb_dmxdev_filter_state_set_def by simp

lemma others_feed_stop: "dvb_dmxdev_feed_stop env i d = Some (d', r) \<Longrightarrow> others_run i d d'"
  by (auto simp: dvb_dmxdev_feed_stop_def Let_def split: bind_splits dmxdev_type.splits)

lemma others_go: "others_run i d (neumo_dvb_dmxdev_filter_state_set k DMXDEV_STATE_GO d)"
  by (cases "k < length (dd_filters d)") (auto simp: others_run_def neumo_dvb_dmxdev_filter_state_set_def upd_filter_def nth_list_update)

lemma others_restart: "dvb_dmxdev_feed_restart env i d = Some (d', r) \<Longrightarrow> others_run i d d'"
  by (auto simp: dvb_dmxdev_feed_restart_def dvb_dmxdev_feed_start_def Let_def mem_at_def others_go running_on_def dest!: find_running_Some
      split: bind_splits option.splits dmxdev_type.splits if_splits)

lemma others_stop_sec: "stop_sec env i s d = Some d' \<Longrightarrow> others_run i d d'"
  unfolding stop_sec_def
  by (auto split: bind_splits option.splits dest!: others_feed_stop others_restart) (auto simp: others_run_def)

lemma others_stop_pes: "stop_pes env i d = Some d' \<Longrightarrow> others_run i d d'"
  unfolding stop_pes_def by (auto split: bind_splits dest!: others_feed_stop)

lemma others_flush [simp]: "others_run i d (flush_filter i d') = others_run i d d'"
  by (simp add: flush_filter_def)

lemma others_stop: "dvb_dmxdev_filter_stop env i d = Some (d', r) \<Longrightarrow> others_run i d d'"
  unfolding dvb_dmxdev_filter_stop_def
  by (auto split: bind_splits option.splits dmxdev_type.splits if_splits dest: others_stop_sec others_stop_pes)

lemma others_secfeed:
  assumes "get_secfeed env i para d = Some (d', r)"
  shows "others_run i d d'"
proof -
  have "others_run i d d'" if "dvb_dmxdev_feed_stop env i (upd_filter i g d) = Some (d', x)" for g x
    using others_feed_stop [OF that] others_upd others_trans by blast
  then show ?thesis using assms unfolding get_secfeed_def Let_def
    by (auto split: bind_splits option.splits sum.splits)
qed

lemma others_secfilter: "get_secfilter env i para d = Some (d', r) \<Longrightarrow> others_run i d d'"
  unfolding get_secfilter_def by (auto split: bind_splits option.splits sum.splits dest!: others_restart)

lemma others_start_sec:
  assumes "start_sec env i d = Some (d', r)"
  shows "others_run i d d'"
proof -
  obtain para d1 r1 where a: "params_sec (dd_filters d ! i) = Some para"
    "get_secfeed env i para (upd_filter i (\<lambda>f. f\<lparr>filter_sec := None, feed_u := Feed_sec None\<rparr>) d) = Some (d1, r1)"
    using assms by (auto simp: start_sec_def split: bind_splits)
  have d1: "others_run i d d1" using others_secfeed [OF a(2)] others_upd others_trans by blast
  show ?thesis
  proof (cases "r1 < 0")
    case True
    then show ?thesis using assms a d1 by (simp add: start_sec_def)
  next
    case False
    then obtain d2 r2 where b: "get_secfilter env i para d1 = Some (d2, r2)" using assms a by (auto simp: start_sec_def split: bind_splits)
    have "others_run i d d2" using d1 others_secfilter [OF b] others_trans by blast
    then show ?thesis using assms a False b by (auto simp: start_sec_def split: bind_splits if_splits)
  qed
qed

lemma others_prepare: "prepare_buffer env i d = (d', r) \<Longrightarrow> others_run i d d'"
  by (auto simp: prepare_buffer_def split: if_splits option.splits)

lemma others_start:
  assumes "dvb_dmxdev_filter_start env i d = Some (d', r)" "df_type (dd_filters d ! i) = DMXDEV_TYPE_SEC"
    "\<And>e x. dvb_dmxdev_filter_stop env i d = Some (e, x) \<Longrightarrow> df_type (dd_filters e ! i) = DMXDEV_TYPE_SEC"
  shows "others_run i d d'"
proof (cases "df_state (dd_filters d ! i) < DMXDEV_STATE_SET_PES")
  case True
  then show ?thesis using assms(1) by (auto simp: dvb_dmxdev_filter_start_def mem_at_def split: if_splits)
next
  case False
  have len: "i < length (dd_filters d)" using assms(1) by (auto simp: dvb_dmxdev_filter_start_def mem_at_def split: if_splits)
  obtain d1 where d1: "(if DMXDEV_STATE_GO \<le> df_state (dd_filters d ! i) then map_option fst (dvb_dmxdev_filter_stop env i d) else Some d) = Some d1"
    using assms(1) False len by (auto simp: dvb_dmxdev_filter_start_def mem_at_def split: bind_splits)
  have o1: "others_run i d d1" "df_type (dd_filters d1 ! i) = DMXDEV_TYPE_SEC"
    using d1 others_stop assms(2,3) by (auto split: if_splits)
  obtain d2 r2 where d2: "prepare_buffer env i d1 = (d2, r2)" by (cases "prepare_buffer env i d1")
  have o2: "others_run i d d2" using o1(1) others_prepare [OF d2] others_trans by blast
  have "i < length (dd_filters d1)" using o1(1) len by (simp add: others_run_def)
  then have t2: "df_type (dd_filters d2 ! i) = DMXDEV_TYPE_SEC"
    using d2 o1(2) by (auto simp: prepare_buffer_def flush_filter_def upd_filter_def split: if_splits option.splits)
  show ?thesis
  proof (cases "r2 < 0")
    case True
    then show ?thesis using assms(1) False len d1 d2 o2 by (auto simp: dvb_dmxdev_filter_start_def mem_at_def)
  next
    case r2: False
    obtain d3 r3 where d3: "start_sec env i d2 = Some (d3, r3)"
      using assms(1) False len d1 d2 t2 r2 by (auto simp: dvb_dmxdev_filter_start_def mem_at_def split: bind_splits)
    have "others_run i d d3" using o2 others_start_sec [OF d3] others_trans by blast
    then show ?thesis using assms(1) False len d1 d2 t2 r2 d3
      by (auto simp: dvb_dmxdev_filter_start_def mem_at_def split: if_splits)
  qed
qed

lemma others_filter_set:
  assumes "dvb_dmxdev_section_filter_set env i para d = Some (d', r)"
  shows "others_run i d d'"
proof -
  obtain d1 x where d1: "dvb_dmxdev_filter_stop env i d = Some (d1, x)"
    using assms by (auto simp: dvb_dmxdev_section_filter_set_def split: bind_splits)
  let ?d = "upd_filter i (\<lambda>f. f\<lparr>df_type := DMXDEV_TYPE_SEC, params_u := Params_sec (invert_mode para), df_state := DMXDEV_STATE_SET_PES\<rparr>) d1"
  have o: "others_run i d ?d" using others_stop [OF d1] by simp
  show ?thesis
  proof (cases "sct_flags para AND DMX_IMMEDIATE_START \<noteq> 0")
    case False
    then show ?thesis using assms d1 o by (auto simp: dvb_dmxdev_section_filter_set_def Let_def)
  next
    case True
    then have st: "dvb_dmxdev_filter_start env i ?d = Some (d', r)"
      using assms d1 by (simp add: dvb_dmxdev_section_filter_set_def Let_def)
    have len: "i < length (dd_filters d1)"
      using st by (auto simp: dvb_dmxdev_filter_start_def mem_at_def upd_filter_def split: if_splits)
    then have f: "df_type (dd_filters ?d ! i) = DMXDEV_TYPE_SEC" "df_state (dd_filters ?d ! i) = DMXDEV_STATE_SET_PES"
      by (simp_all add: upd_filter_def)
    have "e = ?d" if "dvb_dmxdev_filter_stop env i ?d = Some (e, y)" for e y
      using that f(2) len by (simp add: dvb_dmxdev_filter_stop_def mem_at_def upd_filter_def state_order)
    then have "others_run i ?d d'" using others_start [OF st f(1)] f(1) by blast
    then show ?thesis using o others_trans by blast
  qed
qed

end
