(* ===== verification/DmxProps.thy ===== *)
theory DmxProps
  imports DmxUsers
begin

text \<open>
  What the users of sections get: any sequence of calls serves the running filters, a filter that
  is accepted runs, and sections go from the packets through feed, filter, callback and ring
  buffer to the program that reads.  Then the concrete device of the witnesses.
\<close>

lemma write_safe:
  assumes "buf_ok r"
  shows "\<exists>r' k. dvb_dmxdev_buffer_write r src = Some (r', k) \<and> buf_ok r' \<and> k \<le> int (length src)"
proof (cases "src = [] \<or> rb_data r = []")
  case True
  then show ?thesis using assms by (auto simp: dvb_dmxdev_buffer_write_def)
next
  case False
  then have wf: "rb_wf r" using buf_ok_wf [OF assms] by simp
  show ?thesis
  proof (cases "rb_used r + length src < rb_size r")
    case True
    from buffer_write_fits [OF wf this] obtain r' where
      "dvb_dmxdev_buffer_write r src = Some (r', int (length src))" "rb_wf r'" "rb_error r' = rb_error r" by blast
    then show ?thesis using wf_buf_ok [of r'] assms by (auto simp: buf_ok_def)
  next
    case full: False
    then show ?thesis using buffer_write_full [OF wf, of src] False assms by auto
  qed
qed

lemma write_both_safe:
  assumes "buf_ok r"
  shows "\<exists>r'. write_both r b1 b2 = Some r' \<and> buf_ok r'"
proof -
  obtain r1 k where r1: "dvb_dmxdev_buffer_write r b1 = Some (r1, k)" "buf_ok r1" using write_safe [OF assms] by blast
  obtain r2 k2 where r2: "dvb_dmxdev_buffer_write r1 b2 = Some (r2, k2)" "buf_ok r2" using write_safe [OF r1(2)] by blast
  show ?thesis using r1 r2 by (auto simp: write_both_def buf_ok_def)
qed

text \<open>A read changes the buffer of the filter, its header and what is left to read.\<close>

definition same_but_buffer :: "neumo_dmxdev_filter \<Rightarrow> neumo_dmxdev_filter \<Rightarrow> bool" where
  "same_but_buffer f f' \<longleftrightarrow> filter_sec f' = filter_sec f \<and> feed_u f' = feed_u f \<and> params_u f' = params_u f \<and> df_type f' = df_type f \<and>
     df_state f' = df_state f \<and> df_timer f' = df_timer f \<and> current_feeds f' = current_feeds f"

lemma read_sec_data_fields: "read_sec_data u w g n k out = Some (h, w', x, y) \<Longrightarrow> same_but_buffer g h"
  by (auto simp: read_sec_data_def same_but_buffer_def split: bind_splits if_splits)

lemma read_sec_fields:
  assumes "dvb_dmxdev_read_sec u ws f c = Some (f', ws', r, bs)"
  shows "same_but_buffer f f'"
proof (cases "df_todo f \<le> 0")
  case False
  then show ?thesis using assms read_sec_data_fields by (auto simp: dvb_dmxdev_read_sec_def)
next
  case True
  have "same_but_buffer (f\<lparr>df_buffer := b, secheader := sh, df_todo := t\<rparr>) h \<Longrightarrow> same_but_buffer f h" for b sh t h
    by (simp add: same_but_buffer_def)
  then show ?thesis using assms True
    by (auto simp: dvb_dmxdev_read_sec_def Let_def split: bind_splits if_splits option.splits dest!: read_sec_data_fields)
      (simp_all add: same_but_buffer_def)
qed

lemma read_ok:
  assumes "nonblock u" "same_length u" "buf_ok (df_buffer f)" "todo_ok f"
  shows "\<exists>f' r bs. neumo_dvb_demux_read False u [] f c = Some (f', [], r, bs) \<and> buf_ok (df_buffer f') \<and> todo_ok f' \<and> same_but_buffer f f'"
proof (cases "df_type f = DMXDEV_TYPE_SEC")
  case True
  have "reader_ok f" using assms(3,4) by (simp add: reader_ok_def todo_ok_def)
  from read_sec_safe [OF assms(1,2) this, of "[]" c] obtain f' r bs where
    r: "dvb_dmxdev_read_sec u [] f c = Some (f', [], r, bs)" "reader_ok f'" by blast
  then show ?thesis using True read_sec_fields [OF r(1)] by (simp add: neumo_dvb_demux_read_def reader_ok_def todo_ok_def)
next
  case False
  then show ?thesis using buffer_read_safe [OF assms(1,3), of "[]" c] assms(4)
    by (auto simp: neumo_dvb_demux_read_def same_but_buffer_def)
qed

subsubsection \<open>Sequences of calls\<close>

text \<open>What users, the timers and the demux do to the device, when only section filters are used.\<close>

datatype sec_call =
    Open_file
  | Close_file nat
  | Ioctl nat dmx_cmd
  | Read_file nat reader nat
  | Timer_fires nat
  | Section_arrives nat "byte list"

fun possible :: "neumo_dmxdev \<Rightarrow> sec_call \<Rightarrow> bool" where
  "possible d Open_file = True"
| "possible d (Close_file i) \<longleftrightarrow> i < length (dd_filters d) \<and> df_state (dd_filters d ! i) \<noteq> DMXDEV_STATE_FREE"
| "possible d (Ioctl i cmd) \<longleftrightarrow> i < length (dd_filters d) \<and> df_state (dd_filters d ! i) \<noteq> DMXDEV_STATE_FREE \<and> section_cmd cmd"
| "possible d (Read_file i u c) \<longleftrightarrow> i < length (dd_filters d) \<and> df_state (dd_filters d ! i) \<noteq> DMXDEV_STATE_FREE \<and> nonblock u \<and> same_length u"
| "possible d (Timer_fires i) \<longleftrightarrow> i < length (dd_filters d) \<and> df_timer (dd_filters d ! i) \<noteq> None"
| "possible d (Section_arrives j bs) = True"

fun do_sec_call :: "dev_env \<Rightarrow> neumo_dmxdev \<Rightarrow> sec_call \<Rightarrow> neumo_dmxdev option" where
  "do_sec_call env d Open_file = Some (fst (neumo_dvb_demux_open False d))"
| "do_sec_call env d (Close_file i) = map_option fst (neumo_dvb_demux_release env i d)"
| "do_sec_call env d (Ioctl i cmd) = map_option fst (dvb_demux_do_ioctl False False env i cmd d)"
| "do_sec_call env d (Read_file i u c) =
     map_option (\<lambda>(f, _). upd_filter i (\<lambda>_. f) d) (neumo_dvb_demux_read False u [] (dd_filters d ! i) c)"
| "do_sec_call env d (Timer_fires i) = Some (upd_filter i dvb_dmxdev_filter_timeout d)"
| "do_sec_call env d (Section_arrives j bs) = put_section j bs d"

text \<open>Calls that are not possible, on files that are closed or timers that do not run, do not happen.\<close>

fun sec_calls :: "dev_env \<Rightarrow> neumo_dmxdev \<Rightarrow> sec_call list \<Rightarrow> neumo_dmxdev option" where
  "sec_calls env d [] = Some d"
| "sec_calls env d (c # cs) =
     (if possible d c then Option.bind (do_sec_call env d c) (\<lambda>d1. sec_calls env d1 cs) else sec_calls env d cs)"

lemma upd_filter_const: "upd_filter i g d = upd_filter i (\<lambda>_. g (dd_filters d ! i)) d"
  by (simp add: upd_filter_def)

lemma put_section_ok:
  assumes d: "users_ok base d" "alive {} d"
  shows "\<exists>d'. put_section j bs d = Some d' \<and> users_ok base d' \<and> alive {} d'"
proof (cases "sec_priv d j")
  case None
  then show ?thesis using d by (simp add: put_section_def)
next
  case (Some i)
  have i: "i < length (dd_filters d)" using users_okD(4) [OF d(1) Some] .
  let ?f = "dd_filters d ! i"
  note fit = users_okD(5) [OF d(1) i]
  note f = fitsD [OF fit]
  show ?thesis
  proof (cases "rb_error (df_buffer ?f) \<noteq> 0 \<or> df_state ?f \<noteq> DMXDEV_STATE_GO")
    case True
    have "upd_filter i (\<lambda>_. ?f) d = d" by (simp add: upd_filter_def)
    then show ?thesis using True Some i d by (auto simp: put_section_def mem_at_Some dvb_dmxdev_section_callback_def)
  next
    case False
    then have go: "df_state ?f = DMXDEV_STATE_GO" "rb_error (df_buffer ?f) = 0" by simp_all
    then have run: "running ?f" by simp
    obtain para where para: "params_sec ?f = Some para" using running_params [OF fit run] by (auto simp: params_sec_def)
    have "buf_ok (df_buffer ?f)" using f(4) go(1) by simp
    from write_both_safe [OF this] obtain b where b: "write_both (df_buffer ?f) bs [] = Some b" "buf_ok b" by blast
    define f1 where "f1 = ?f\<lparr>df_timer := None, df_buffer := b,
      df_state := if sct_flags para AND DMX_ONESHOT \<noteq> 0 then DMXDEV_STATE_DONE else df_state ?f\<rparr>"
    have "put_section j bs d = Some (upd_filter i (\<lambda>_. f1) d)"
      using Some i go para b(1) by (simp add: put_section_def mem_at_Some dvb_dmxdev_section_callback_def f1_def)
    moreover have "users_ok base (upd_filter i (\<lambda>_. f1) d) \<and> alive {} (upd_filter i (\<lambda>_. f1) d)"
      by (rule buf_change [OF d i]) (use f go b(2) in \<open>simp_all add: f1_def state_order\<close>)
    ultimately show ?thesis by blast
  qed
qed

lemma do_sec_call_ok:
  assumes d: "users_ok base d" "alive {} d" and env: "good_env env" and c: "possible d c"
  shows "\<exists>d'. do_sec_call env d c = Some d' \<and> users_ok base d' \<and> alive {} d'"
proof (cases c)
  case Open_file
  then show ?thesis using open_ok [OF d] by simp
next
  case (Close_file i)
  then show ?thesis using close_ok [OF d env] c by fastforce
next
  case (Ioctl i cmd)
  then have "cmd \<noteq> DMX_GET_PES_PIDS" "i < length (dd_filters d)" "df_state (dd_filters d ! i) \<noteq> DMXDEV_STATE_FREE" "section_cmd cmd"
    using c by (auto simp: section_cmd_def)
  then show ?thesis using Ioctl run_cmd_ok [OF d env, of i cmd] by (auto simp: dvb_demux_do_ioctl_def)
next
  case (Read_file i u n)
  then have i: "i < length (dd_filters d)" "df_state (dd_filters d ! i) \<noteq> DMXDEV_STATE_FREE" "nonblock u" "same_length u" using c by simp_all
  note f = fitsD [OF users_okD(5) [OF d(1) i(1)]]
  obtain f' r bs where r: "neumo_dvb_demux_read False u [] (dd_filters d ! i) n = Some (f', [], r, bs)" "buf_ok (df_buffer f')" "todo_ok f'"
      "same_but_buffer (dd_filters d ! i) f'" using read_ok [OF i(3,4) f(4) [OF i(2)] f(8)] by blast
  have "users_ok base (upd_filter i (\<lambda>_. f') d) \<and> alive {} (upd_filter i (\<lambda>_. f') d)"
    by (rule buf_change [OF d i(1)]) (use f r(2-4) in \<open>simp_all add: same_but_buffer_def\<close>)
  then show ?thesis using Read_file r(1) by simp
next
  case (Timer_fires i)
  then have i: "i < length (dd_filters d)" "df_timer (dd_filters d ! i) \<noteq> None" using c by simp_all
  note f = fitsD [OF users_okD(5) [OF d(1) i(1)]]
  have run: "running (dd_filters d ! i)" using f(6) i(2) by blast
  then have nf: "df_state (dd_filters d ! i) \<noteq> DMXDEV_STATE_FREE" by (auto simp: state_order)
  have "users_ok base (upd_filter i (\<lambda>_. dvb_dmxdev_filter_timeout (dd_filters d ! i)) d) \<and>
      alive {} (upd_filter i (\<lambda>_. dvb_dmxdev_filter_timeout (dd_filters d ! i)) d)"
    by (rule buf_change [OF d i(1)])
      (use f run f(4) [OF nf] go_set_pes(1) [OF run] in \<open>simp_all add: dvb_dmxdev_filter_timeout_def buf_ok_def state_order\<close>)
  then show ?thesis using Timer_fires upd_filter_const [of i dvb_dmxdev_filter_timeout d] by simp
next
  case (Section_arrives j bs)
  then show ?thesis using put_section_ok [OF d] by simp
qed

lemma sec_calls_ok:
  assumes "users_ok base d" "alive {} d" "good_env env"
  shows "\<exists>d'. sec_calls env d cs = Some d' \<and> users_ok base d' \<and> alive {} d'"
  using assms(1,2)
proof (induction cs arbitrary: d)
  case (Cons c cs)
  then show ?case using do_sec_call_ok [OF Cons.prems assms(3), of c] by (auto split: if_splits)
qed simp

text \<open>
  A filter of the device that is served: there is a feed on its PID that filters, in it one of
  the section filters is its own, and that one matches what was asked.
\<close>

definition gets_sections :: "neumo_dmxdev \<Rightarrow> nat \<Rightarrow> dmx_sct_filter_params \<Rightarrow> bool" where
  "gets_sections d i para \<longleftrightarrow> (\<exists>s j. let f = feedarray (dd_demux d) ! s in
     listed (dd_demux d) s \<and> f_is_filtering f \<and> f_type f = DMX_TYPE_SEC \<and> f_pid f = sct_pid para \<and>
     sec_priv d j = Some i \<and> j \<in> set (filter_ids (dd_demux d) s) \<and>
     (\<forall>sf \<in> set (f_filters f). sfl_index sf = j \<longrightarrow> (\<forall>x. filter_matches sf x = user_spec para x)))"

lemma running_gets:
  assumes "users_ok base d" "alive {} d" "i < length (dd_filters d)" "running (dd_filters d ! i)"
  shows "\<exists>para. params_u (dd_filters d ! i) = Params_sec (invert_mode para) \<and> gets_sections d i para"
proof -
  obtain s j p where r: "feed_u (dd_filters d ! i) = Feed_sec (Some s)" "sec_priv d j = Some i"
    "params_u (dd_filters d ! i) = Params_sec p" "serves (dd_demux d) s j (invert_mode p)"
    using runningE [OF assms(1,3,4)] by metis
  have l: "live (feedarray (dd_demux d) ! s)" using assms r(1) by (simp add: alive_def)
  have "filter_matches sf x = user_spec (invert_mode p) x"
    if "sf \<in> set (f_filters (feedarray (dd_demux d) ! s))" "sfl_index sf = j" for sf x
    by (rule asks_matches) (use r(4) l that in \<open>auto simp: serves_def live_def\<close>)
  then have "gets_sections d i (invert_mode p)"
    using r(2,4) l unfolding gets_sections_def Let_def serves_def live_def by blast
  then show ?thesis using r(3) by (intro exI [of _ "invert_mode p"]) simp
qed



subsection \<open>From packets to the reader\<close>

lemma split_sections_ok: "\<forall>x \<in> set (split_sections bs). sec_ok x \<and> length x \<le> DMX_MAX_SECTION_SIZE"
proof (induction bs rule: split_sections.induct)
  case (1 bs)
  show ?case
  proof (cases "2 < length bs \<and> section_length bs \<le> DMX_MAX_SECTION_SIZE \<and> section_length bs \<le> length bs")
    case True
    let ?n = "section_length bs"
    have e: "split_sections bs = take ?n bs # split_sections (drop ?n bs)" using True by (subst split_sections.simps) simp
    have l: "section_length (take ?n bs) = ?n" using section_length_pos [of bs] by (simp add: section_length_def)
    have n: "length (take ?n bs) = ?n" using True by simp
    have "sec_ok (take ?n bs)" unfolding sec_ok_def l n using section_length_pos by simp
    moreover have "length (take ?n bs) \<le> DMX_MAX_SECTION_SIZE" unfolding n using True by simp
    ultimately have "sec_ok (take ?n bs) \<and> length (take ?n bs) \<le> DMX_MAX_SECTION_SIZE" ..
    then show ?thesis using 1 [OF True] unfolding e by (metis set_ConsD)
  next
    case False
    then have "split_sections bs = []" by (subst split_sections.simps) auto
    then show ?thesis by simp
  qed
qed

text \<open>The sections that a feed hands out for one filter.\<close>

definition wanted :: "feed_env \<Rightarrow> feed \<Rightarrow> dmx_sct_filter_params \<Rightarrow> byte list \<Rightarrow> bool" where
  "wanted env f para x \<longleftrightarrow> user_spec para x \<and> \<not> (f_check_crc f \<and> x ! 1 AND 0x80 \<noteq> 0 \<and> check_crc32 env x)"

text \<open>What of the deliveries of a feed is for one filter.\<close>

fun mine :: "nat \<Rightarrow> delivery list \<Rightarrow> byte list list" where
  "mine j [] = []"
| "mine j (SecOut k x # ds) = (if k = j then x # mine j ds else mine j ds)"
| "mine j (TsOut x # ds) = mine j ds"
| "mine j (DecoderOut x # ds) = mine j ds"

lemma mine_append [simp]: "mine j (ds @ es) = mine j ds @ mine j es"
  by (induction j ds rule: mine.induct) auto

lemma mine_filters:
  assumes "distinct (map sfl_index fs)" "sf \<in> set fs" "sfl_index sf = j"
  shows "mine j (map (\<lambda>f. SecOut (sfl_index f) x) (filter P fs)) = (if P sf then [x] else [])"
  using assms
proof (induction fs)
  case (Cons f fs)
  have other: "mine j (map (\<lambda>f. SecOut (sfl_index f) x) (filter P gs)) = []" if "j \<notin> sfl_index ` set gs" for gs
    using that by (induction gs) auto
  show ?case
  proof (cases "f = sf")
    case True
    then have "j \<notin> sfl_index ` set fs" using Cons.prems by auto
    then show ?thesis using True other [of fs] Cons.prems(3) by simp
  next
    case False
    then have "sf \<in> set fs" using Cons.prems(2) by simp
    moreover from this have "sfl_index f \<noteq> j" using Cons.prems(1,3) by force
    ultimately show ?thesis using Cons by simp
  qed
qed simp

lemma mine_section_out:
  assumes "distinct (map sfl_index (f_filters f))" "sf \<in> set (f_filters f)" "sfl_index sf = j"
    "\<And>x. filter_matches sf x = user_spec para x"
  shows "mine j (concat (map (section_out env f) xs)) = filter (wanted env f para) xs"
  using mine_filters [OF assms(1-3)] by (induction xs) (auto simp: section_out_def wanted_def assms(4))

lemma section_outs_of: "out \<in> set (concat (map (section_out env f) xs)) \<Longrightarrow>
    \<exists>sf x. out = SecOut (sfl_index sf) x \<and> sf \<in> set (f_filters f) \<and> x \<in> set xs"
  by (auto simp: section_out_def split: if_splits)

lemma put_section_arrive:
  assumes "sec_priv d j = Some i" "i < length (dd_filters d)" "dmx_step u (dd_filters d ! i) (Arrive x) = Some (f', o1)"
  shows "put_section j x d = Some (upd_filter i (\<lambda>_. f') d)"
  using assms by (auto simp: put_section_def mem_at_Some)

lemma put_section_other:
  assumes "put_section k x d = Some d'" "sec_priv d k \<noteq> Some i"
  shows "dd_filters d' ! i = dd_filters d ! i" "sec_priv d' = sec_priv d" "length (dd_filters d') = length (dd_filters d)"
  using assms by (auto simp: put_section_def upd_filter_def split: option.splits bind_splits)

lemma put_all_sections:
  assumes "users_ok base d" "alive {} d" "sec_priv d j = Some i" "i < length (dd_filters d)"
    "sec_rel cap (dd_filters d ! i) q" "\<not> q_ovf q" "q_pos q = 0"
    "\<forall>out \<in> set outs. \<exists>k x. out = SecOut k x \<and> sec_ok x \<and> (sec_priv d k = Some i \<longrightarrow> k = j)"
    "length (concat (q_secs q @ mine j outs)) < cap"
  shows "\<exists>d'. put_all s outs d = Some d' \<and> users_ok base d' \<and> alive {} d' \<and>
    sec_rel cap (dd_filters d' ! i) (q\<lparr>q_secs := q_secs q @ mine j outs\<rparr>)"
  using assms
proof (induction outs arbitrary: d q)
  case Nil
  then show ?case by simp
next
  case (Cons out outs)
  obtain k x where out: "out = SecOut k x" "sec_ok x" "sec_priv d k = Some i \<longrightarrow> k = j" using Cons.prems(8) by auto
  obtain d1 where d1: "put_section k x d = Some d1" "users_ok base d1" "alive {} d1"
    using put_section_ok [OF Cons.prems(1,2)] by blast
  show ?case
  proof (cases "k = j")
    case False
    then have k: "sec_priv d k \<noteq> Some i" using out(3) by blast
    note same = put_section_other [OF d1(1) k]
    have "\<exists>d'. put_all s outs d1 = Some d' \<and> users_ok base d' \<and> alive {} d' \<and>
        sec_rel cap (dd_filters d' ! i) (q\<lparr>q_secs := q_secs q @ mine j outs\<rparr>)"
      by (rule Cons.IH [OF d1(2,3)]) (use Cons.prems same out(1) False in auto)
    then show ?thesis using d1(1) out(1) False by simp
  next
    case True
    have st: "spec_step cap q (Arrive x) = Some (q\<lparr>q_secs := q_secs q @ [x]\<rparr>, 0, [])"
      using Cons.prems(6,7,9) True out(1) by (simp add: q_rest_def)
    obtain f1 where f1: "dmx_step (demo_reader True) (dd_filters d ! i) (Arrive x) = Some (f1, 0, [])"
        "sec_rel cap f1 (q\<lparr>q_secs := q_secs q @ [x]\<rparr>)"
      using sec_rel_arrive [OF Cons.prems(5) out(2) st] by auto
    have eq: "d1 = upd_filter i (\<lambda>_. f1) d"
      using put_section_arrive [OF Cons.prems(3,4) f1(1)] d1(1) True by simp
    have at: "dd_filters d1 ! i = f1" using Cons.prems(4) eq by (simp add: upd_filter_nth)
    have "\<exists>d'. put_all s outs d1 = Some d' \<and> users_ok base d' \<and> alive {} d' \<and>
        sec_rel cap (dd_filters d' ! i) ((q\<lparr>q_secs := q_secs q @ [x]\<rparr>)\<lparr>q_secs := q_secs (q\<lparr>q_secs := q_secs q @ [x]\<rparr>) @ mine j outs\<rparr>)"
      by (rule Cons.IH [OF d1(2,3)]) (use Cons.prems eq at f1(2) out(1) True in \<open>auto simp: upd_filter_def\<close>)
    then show ?thesis using d1(1) out(1) True by simp
  qed
qed

text \<open>Reads of at least the longest section give one section each.\<close>

lemma spec_reads:
  assumes "\<forall>x \<in> set xs. sec_ok x \<and> length x \<le> c" "0 < c"
  shows "sec_run (spec_step cap) \<lparr>q_pos = 0, q_secs = xs, q_ovf = False\<rparr> (replicate (length xs + 1) (Read_upto c)) =
    Some (map (\<lambda>x. (int (length x), x)) xs @ [(- EAGAIN, [])])"
  using assms(1)
proof (induction xs)
  case Nil
  then show ?case using assms(2) by simp
next
  case (Cons x xs)
  have "take c (drop 0 x) = x" using Cons.prems by simp
  then have st: "spec_step cap \<lparr>q_pos = 0, q_secs = x # xs, q_ovf = False\<rparr> (Read_upto c) =
      Some (\<lparr>q_pos = 0, q_secs = xs, q_ovf = False\<rparr>, int (length x), x)" by (simp add: Let_def)
  have ih: "sec_run (spec_step cap) \<lparr>q_pos = 0, q_secs = xs, q_ovf = False\<rparr> (replicate (length xs + 1) (Read_upto c)) =
      Some (map (\<lambda>x. (int (length x), x)) xs @ [(- EAGAIN, [])])" using Cons by simp
  have rep: "replicate (length (x # xs) + 1) (Read_upto c) = Read_upto c # replicate (length xs + 1) (Read_upto c)" by simp
  show ?case unfolding rep sec_run.simps st by (simp only: ih Option.bind.simps prod.case list.map append_Cons)
qed

text \<open>
  C10.  From the transport packets to the program that reads.  A section feed that serves a running
  file of the device, and maybe filters of others, gets a packet with a pointer to the start of
  a section and then any packets with payload and consecutive counters, with or without
  pointers, as in the property on reassembly (runs between pointers of at most 4284 bytes,
  sections of at least 18 bytes, callbacks that accept).  The callbacks fill the buffers, and the
  program reads, one by one, in order, complete and unchanged, exactly the sections that match
  the filter it has set, and then is told that there is nothing more.  Sections with a wrong
  checksum are left out if the feed looks at checksums: a flag of the feed, set by the file for
  which it was made, not by the filter.  The buffer of the file is empty before and has room for
  these sections, the filter is not one-shot, and the program asks for 4096 bytes at a time and
  does not block.
\<close>

theorem sections_reach_reader:
  assumes d: "users_ok base d" "alive {} d" "i < length (dd_filters d)"
    and f: "feed_u (dd_filters d ! i) = Feed_sec (Some s)" "filter_sec (dd_filters d ! i) = Some j"
      "params_u (dd_filters d ! i) = Params_sec (invert_mode para)"
      "sec_rel cap (dd_filters d ! i) \<lparr>q_pos = 0, q_secs = [], q_ovf = False\<rparr>"
    and others: "distinct (filter_ids (dd_demux d) s)" "\<forall>k \<in> set (filter_ids (dd_demux d) s). sec_priv d k = Some i \<longrightarrow> k = j"
    and feed: "feedarray (dd_demux d) ! s = fd" "secfeed_ok fd" "f_out fd = []"
    and env: "\<And>k x. 0 \<le> cb_sec env k x"
    and p: "first_packet fd p" "stream_packets (uint (p ! 3 AND 0x0f)) ps" "\<forall>r \<in> set (section_runs (after_ptr p) ps). run_fits r"
    and secs: "secs = filter (wanted env fd para) (concat (map split_sections (section_runs (after_ptr p) ps)))"
      "length (concat secs) < cap"
    and u: "good_reader u" "nonblock u"
  shows "\<exists>g d'. feed_run env fd (p # ps) = Some g \<and> put_all s (f_out g) d = Some d' \<and>
    sec_run (dmx_step u) (dd_filters d' ! i) (replicate (length secs + 1) (Read_upto DMX_MAX_SECTION_SIZE)) =
      Some (map (\<lambda>x. (int (length x), x)) secs @ [(- EAGAIN, [])])"
proof -
  let ?all = "concat (map split_sections (section_runs (after_ptr p) ps))"
  have run: "running (dd_filters d ! i)" using f(4) by (simp add: sec_rel_def)
  obtain pp where r: "sec_priv d j = Some i" "serves (dd_demux d) s j pp" "pp = para"
    using runningE [OF d(1,3) run] f(1-3) by (metis feed_union.inject(2) invert_invert option.inject params_union.inject(1))
  have lv: "live fd" using d f(1) run feed(1) by (auto simp: alive_def)
  have fl: "f_is_filtering fd" "f_type fd = DMX_TYPE_SEC" using lv r(2) feed(1) by (auto simp: live_def serves_def)
  obtain sf where sf: "sf \<in> set (f_filters fd)" "sfl_index sf = j" using r(2) feed(1) by (auto simp: serves_def filter_ids_def)
  have m: "filter_matches sf x = user_spec para x" for x
    by (rule asks_matches) (use r(2,3) lv sf feed(1) in \<open>auto simp: serves_def live_def\<close>)
  have fit: "run_fits (after_ptr p)" using section_runs_prefix [of "after_ptr p" ps] run_fits_prefix [of "after_ptr p"] p(3) by auto
  obtain g where g: "swfilter_packet_type env fd p = Some g" "reassembling env (f_out fd) (after_ptr p) g"
    "same_filters fd g" "f_type g = DMX_TYPE_SEC" "f_cc g = uint (p ! 3 AND 0x0f)" "secfeed_ok g"
    using first_step [OF feed(2) fl env p(1) fit] by blast
  obtain h where h: "feed_run env g ps = Some h" "f_out h = f_out fd @ concat (map (section_out env g) ?all)"
    using stream_run [OF g(2) env g(4) _ p(3) g(6)] p(2) g(5) by auto
  then have out: "f_out h = concat (map (section_out env fd) ?all)"
    using same_filters_out [OF g(3), of env] feed(3) by simp
  have ok: "sec_ok x \<and> length x \<le> DMX_MAX_SECTION_SIZE" if "x \<in> set ?all" for x using that split_sections_ok by auto
  have mine: "mine j (f_out h) = secs"
    unfolding out secs(1) by (rule mine_section_out [OF _ sf m]) (use others(1) feed(1) in \<open>simp add: filter_ids_def\<close>)
  have outs: "\<exists>k x. o1 = SecOut k x \<and> sec_ok x \<and> (sec_priv d k = Some i \<longrightarrow> k = j)" if o1: "o1 \<in> set (f_out h)" for o1
  proof -
    obtain sf2 x where x: "o1 = SecOut (sfl_index sf2) x" "sf2 \<in> set (f_filters fd)" "x \<in> set ?all"
      using section_outs_of o1 unfolding out by blast
    then show ?thesis using ok others(2) feed(1) by (auto simp: filter_ids_def)
  qed
  have "\<exists>d'. put_all s (f_out h) d = Some d' \<and> users_ok base d' \<and> alive {} d' \<and>
      sec_rel cap (dd_filters d' ! i) (\<lparr>q_pos = 0, q_secs = [], q_ovf = False\<rparr>\<lparr>q_secs := [] @ mine j (f_out h)\<rparr>)"
    using put_all_sections [OF d(1,2) r(1) d(3) f(4), of "f_out h" s] outs mine secs(2) by simp
  then obtain d' where d': "put_all s (f_out h) d = Some d'"
      "sec_rel cap (dd_filters d' ! i) \<lparr>q_pos = 0, q_secs = secs, q_ovf = False\<rparr>" using mine by auto
  have all: "\<forall>x \<in> set secs. sec_ok x \<and> length x \<le> DMX_MAX_SECTION_SIZE" using ok secs(1) by auto
  have "sec_run (dmx_step u) (dd_filters d' ! i) (replicate (length secs + 1) (Read_upto DMX_MAX_SECTION_SIZE)) =
      Some (map (\<lambda>x. (int (length x), x)) secs @ [(- EAGAIN, [])])"
    by (rule sec_rel_run [OF u d'(2)]) (use spec_reads [OF all, of cap] in auto)
  then show ?thesis using g(1) h(1) d'(1) by auto
qed

subsection \<open>Concrete devices for the witnesses\<close>

definition demo_mem :: "nat \<Rightarrow> byte list" where
  "demo_mem n = replicate n 0"

definition demo_dev_env :: dev_env where
  "demo_dev_env = \<lparr>de_drv = demo_drv, de_intr = \<lambda>_. False, de_oom = \<lambda>_. False, vmalloc = \<lambda>n. Some (demo_mem n),
    de_hz = 1000, de_jiffies = 0\<rparr>"

definition closed_file :: neumo_dmxdev_filter where
  "closed_file = \<lparr>filter_sec = None, feed_u = Feed_list [], params_u = Params_unset, df_type = DMXDEV_TYPE_NONE,
    df_state = DMXDEV_STATE_FREE, df_buffer = dvb_ringbuffer_init [] 8192, df_timer = None, current_feeds = None, df_todo = 0,
    secheader = [0, 0, 0]\<rparr>"

definition demo_dev :: neumo_dmxdev where
  "demo_dev = \<lparr>dd_demux = demo_ctl, dd_filters = [closed_file, closed_file], pid_priv = Map.empty, sec_priv = Map.empty,
    may_do_mmap = False, dd_exit = False, cap_duplex = False, dvr_orig_fe = None, dvr_buffer = dvb_ringbuffer_init [] 8192,
    demux_users = 1, dvr_users = 1, dvr_readers = 1\<rparr>"

lemma demo_ctl_slots: "filter_slots demo_ctl = [demo_slot\<lparr>sl_state := DMX_STATE_FREE\<rparr>, demo_slot\<lparr>sl_state := DMX_STATE_FREE\<rparr>]"
  "heap_feeds demo_ctl 3 = Some (dvb_demux_feeds_init (- 1) (- 1))"
  by (simp_all add: demo_ctl_def neumo_dvb_dmx_init_def demo_raw_def demo_dmx_def Let_def demo_slot_def)

lemma demo_ctl_sec: "sec_demux (owned demo_ctl) demo_ctl"
proof -
  have "feeds_consistent (owned demo_ctl) demo_ctl"
    by (rule init_consistent [OF demo_ctl_init]) (simp_all add: demo_raw_def demo_fd_def)
  moreover have "pool_ok demo_ctl"
    by (simp add: pool_ok_def demo_ctl_simps demo_ctl_slots demo_slot_def demo_fd_def sf_room_def demo_filter_def)
  ultimately show ?thesis by (simp add: sec_demux_def)
qed

lemma demo_dev_ok: "users_ok (owned demo_ctl) demo_dev" "alive {} demo_dev" "good_env demo_dev_env"
proof -
  have "fits (owned demo_ctl) demo_ctl Map.empty i closed_file" for i
    by (simp add: fits_def closed_file_def parent_ok_def todo_ok_def owned_def demo_ctl_simps state_order)
  then show "users_ok (owned demo_ctl) demo_dev"
    using demo_ctl_sec by (auto simp: users_ok_def demo_dev_def sharing_def owned_def demo_ctl_simps closed_file_def state_order less_Suc_eq)
  show "alive {} demo_dev" by (auto simp: alive_def demo_dev_def closed_file_def state_order less_Suc_eq)
  show "good_env demo_dev_env" by (simp add: good_env_def demo_dev_env_def good_driver_def demo_drv_def demo_mem_def)
qed

definition demo_opened_dev :: neumo_dmxdev where
  "demo_opened_dev = fst (neumo_dvb_demux_open False demo_dev)"

lemma demo_opened_dev_eq:
  "demo_opened_dev = demo_dev\<lparr>dd_filters := [open_filter closed_file, closed_file], may_do_mmap := True, demux_users := 2\<rparr>"
  by (simp add: demo_opened_dev_def neumo_dvb_demux_open_def demo_dev_def closed_file_def upd_filter_def upt_conv_Cons)

lemma demo_accepted:
  "case dvb_demux_do_ioctl False False demo_dev_env 0 (DMX_SET_FILTER (demo_sct DMX_IMMEDIATE_START)) demo_opened_dev of
     None \<Rightarrow> False
   | Some (d', r, out) \<Rightarrow> r = 0 \<and> feed_u (dd_filters d' ! 0) = Feed_sec (Some 0) \<and> filter_sec (dd_filters d' ! 0) = Some 0 \<and>
       df_type (dd_filters d' ! 0) = DMXDEV_TYPE_SEC \<and> df_state (dd_filters d' ! 0) = DMXDEV_STATE_GO \<and>
       length (dd_filters d') = 2 \<and>
       df_buffer (dd_filters d' ! 0) = dvb_ringbuffer_flush (dvb_ringbuffer_init (demo_mem 8192) 8192) \<and>
       df_todo (dd_filters d' ! 0) = 0 \<and> secheader (dd_filters d' ! 0) = [0, 0, 0] \<and>
       filter_ids (dd_demux d') 0 = [0] \<and> f_out (feedarray (dd_demux d') ! 0) = [] \<and>
       (let f = feedarray (dd_demux d') ! 0 in f_secbuf_base f = replicate 4284 0 \<and> f_secbuf f = 0 \<and> f_secbufp f = 0 \<and> f_tsfeedp f = 0 \<and> f_seclen f = 0
         \<and> f_cc f = 15 \<and> \<not> f_check_crc f)"
  by (simp add: dvb_demux_do_ioctl_def run_cmd_def mem_at_def demo_opened_dev_eq demo_dev_def open_filter_def closed_file_def
      dvb_dmxdev_section_filter_set_def dvb_dmxdev_filter_stop_def dvb_dmxdev_filter_start_def prepare_buffer_def flush_filter_def
      start_sec_def get_secfeed_def get_secfilter_def find_running_def running_on_def feed_sec_def params_sec_def upd_filter_def
      state_order dvbdmx_allocate_section_feed_def interruptible_def locked_def mutex_lock_def mutex_unlock_def
      demo_ctl_simps demo_ctl_slots dvb_dmx_feed_alloc_def dvb_demux_output_feed_add_def dvb_demux_output_feed_find_def feeds_get_def upd_feeds_def
      upd_feed_def dmx_section_feed_allocate_filter_def dvb_dmx_section_filter_alloc_def upd_slot_def set_secfilter_def
      dmx_section_feed_start_filtering_def demo_drv_def prepare_secfilters_def demo_dev_env_def demo_sct_def invert_mode_def
      dvb_dmxdev_filter_timer_def neumo_dvb_dmxdev_filter_state_set_def filter_ids_def demo_fd_def demo_slot_def Let_def upt_conv_Cons
      dvb_demux_feeds_init_def dmx_filter_def dvb_ringbuffer_init_def demo_feed_def
      del: replicate_Suc replicate.simps)

lemma demo_opened_ok: "users_ok (owned demo_ctl) demo_opened_dev" "alive {} demo_opened_dev"
  using open_ok [OF demo_dev_ok(1,2)] by (simp_all add: demo_opened_dev_def)

lemma demo_sct_ok: "para_ok (demo_sct fl)"
  by (simp add: para_ok_def demo_sct_def)

lemma demo_opened_file: "0 < length (dd_filters demo_opened_dev)" "df_state (dd_filters demo_opened_dev ! 0) \<noteq> DMXDEV_STATE_FREE"
  by (simp_all add: demo_opened_dev_eq demo_dev_def open_filter_def)

definition demo_filtering :: neumo_dmxdev where
  "demo_filtering = fst (the (dvb_demux_do_ioctl False False demo_dev_env 0 (DMX_SET_FILTER (demo_sct DMX_IMMEDIATE_START)) demo_opened_dev))"

lemma demo_filtering_eq:
  "\<exists>out. dvb_demux_do_ioctl False False demo_dev_env 0 (DMX_SET_FILTER (demo_sct DMX_IMMEDIATE_START)) demo_opened_dev = Some (demo_filtering, 0, out)"
  using demo_accepted by (auto simp: demo_filtering_def split: option.splits)




lemma demo_filtering_facts:
  "users_ok (owned demo_ctl) demo_filtering" "alive {} demo_filtering" "0 < length (dd_filters demo_filtering)"
  "params_u (dd_filters demo_filtering ! 0) = Params_sec (invert_mode (demo_sct DMX_IMMEDIATE_START))"
  "running (dd_filters demo_filtering ! 0)"
proof -
  obtain out where "dvb_demux_do_ioctl False False demo_dev_env 0 (DMX_SET_FILTER (demo_sct DMX_IMMEDIATE_START)) demo_opened_dev =
    Some (demo_filtering, 0, out)" using demo_filtering_eq by blast
  then have "dvb_dmxdev_section_filter_set demo_dev_env 0 (demo_sct DMX_IMMEDIATE_START) demo_opened_dev = Some (demo_filtering, 0)"
    using demo_opened_file(1) by (auto simp: dvb_demux_do_ioctl_def run_cmd_def mem_at_Some split: bind_splits)
  moreover note ioctl_filter_set [OF demo_opened_ok demo_dev_ok(3) demo_opened_file demo_sct_ok, of DMX_IMMEDIATE_START]
  ultimately show "users_ok (owned demo_ctl) demo_filtering" "alive {} demo_filtering" "0 < length (dd_filters demo_filtering)"
    "params_u (dd_filters demo_filtering ! 0) = Params_sec (invert_mode (demo_sct DMX_IMMEDIATE_START))" "running (dd_filters demo_filtering ! 0)"
    using demo_opened_file(1) by (auto simp: demo_sct_def)
qed

lemma demo_filtering_parts:
  "feed_u (dd_filters demo_filtering ! 0) = Feed_sec (Some 0)" "filter_sec (dd_filters demo_filtering ! 0) = Some 0"
  "df_buffer (dd_filters demo_filtering ! 0) = dvb_ringbuffer_flush (dvb_ringbuffer_init (demo_mem 8192) 8192)"
  "df_todo (dd_filters demo_filtering ! 0) = 0" "secheader (dd_filters demo_filtering ! 0) = [0, 0, 0]"
  "filter_ids (dd_demux demo_filtering) 0 = [0]"
  "f_out (feedarray (dd_demux demo_filtering) ! 0) = []" "secfeed_ok (feedarray (dd_demux demo_filtering) ! 0)"
  "f_cc (feedarray (dd_demux demo_filtering) ! 0) = 15" "\<not> f_check_crc (feedarray (dd_demux demo_filtering) ! 0)"
  using demo_accepted demo_filtering_eq by (auto simp: Let_def secfeed_ok_def)

lemma demo_filtering_rel: "sec_rel 8192 (dd_filters demo_filtering ! 0) \<lparr>q_pos = 0, q_secs = [], q_ovf = False\<rparr>"
proof -
  have "df_type (dd_filters demo_filtering ! 0) = DMXDEV_TYPE_SEC \<and> df_state (dd_filters demo_filtering ! 0) = DMXDEV_STATE_GO"
    using demo_accepted demo_filtering_eq by (auto simp: Let_def)
  then show ?thesis using demo_filtering_facts(4) demo_filtering_parts(3-5)
    by (simp add: sec_rel_def sec_queue_ok_def params_sec_def demo_sct_def invert_mode_def todo_of_def header_read_def q_rest_def)
      (simp add: rb_wf_def dvb_ringbuffer_init_def dvb_ringbuffer_flush_def rb_contents_def rb_used_def dvb_ringbuffer_avail_def demo_mem_def)
qed

lemma sections_reach_reader_witness:
  "\<exists>g d'. feed_run demo_env (feedarray (dd_demux demo_filtering) ! 0) [demo_start, demo_middle, demo_end] = Some g \<and>
    put_all 0 (f_out g) demo_filtering = Some d' \<and>
    sec_run (dmx_step (demo_reader True)) (dd_filters d' ! 0) [Read_upto 4096, Read_upto 4096, Read_upto 4096] =
      Some [(200, demo_section), (200, demo_section), (- EAGAIN, [])]"
proof -
  let ?f = "feedarray (dd_demux demo_filtering) ! 0"
  have us: "user_spec (demo_sct DMX_IMMEDIATE_START) demo_section"
  proof -
    have m: "sct_mask (demo_sct DMX_IMMEDIATE_START) ! k = (if k = 0 then 0xff else 0)" if "k < 16" for k
      using that by (simp add: demo_sct_def nth_Cons')
    have p: "sct_mode (demo_sct DMX_IMMEDIATE_START) ! k = 0" if "k < 16" for k using that by (simp add: demo_sct_def)
    have f: "sct_filter (demo_sct DMX_IMMEDIATE_START) ! 0 = demo_section ! sec_pos 0"
      by (simp add: demo_sct_def demo_section_def sec_pos_def)
    show ?thesis unfolding user_spec_def Let_def using m p f by (auto split: if_splits)
  qed
  have w: "[demo_section, demo_section] = filter (wanted demo_env ?f (demo_sct DMX_IMMEDIATE_START))
      (concat (map split_sections (section_runs (after_ptr demo_start) [demo_middle, demo_end])))"
    using us demo_filtering_parts(10) split_demo_stuffed [of 0] split_demo_stuffed [of 150] unfolding demo_runs by (simp add: wanted_def)
  have l: "length demo_section = 200" by (simp add: demo_section_def)
  have fp: "first_packet ?f demo_start" using demo_run_packets(1) by (simp add: first_packet_def demo_start_def ptr_field_def payload_def)
  have cb: "0 \<le> cb_sec demo_env k x" for k x by (simp add: demo_env_def)
  have nb: "nonblock (demo_reader True)" by simp
  have runs: "\<forall>r \<in> set (section_runs (after_ptr demo_start) [demo_middle, demo_end]). run_fits r"
    unfolding demo_runs using demo_run_fits by simp
  have len: "length (concat [demo_section, demo_section]) < 8192" using l by simp
  have own: "distinct (filter_ids (dd_demux demo_filtering) 0)"
    "\<forall>k \<in> set (filter_ids (dd_demux demo_filtering) 0). sec_priv demo_filtering k = Some 0 \<longrightarrow> k = 0"
    using demo_filtering_parts(6) by simp_all
  have three: "replicate (length [demo_section, demo_section] + 1) (Read_upto DMX_MAX_SECTION_SIZE) =
      [Read_upto 4096, Read_upto 4096, Read_upto 4096]" by (simp add: numeral_eq_Suc)
  show ?thesis
    using sections_reach_reader [OF demo_filtering_facts(1-3) demo_filtering_parts(1,2) demo_filtering_facts(4) demo_filtering_rel
      own refl demo_filtering_parts(8,7) cb fp demo_run_packets(2) runs w len demo_reader_good(1) nb]
    unfolding three list.map l by simp
qed

end
