(* ===== verification/Scan.thy ===== *)
theory Scan
  imports Prelude "HOL-Library.Signed_Division" "HOL-Library.Sublist"
begin

text \<open>
  The blind scan of dvb-core (neumo-scan.c): peaks, i.e. transponders, in a spectrum of levels.
  For every window width of a table, edges are marked where the mean level of a window differs
  from its neighbour, pairs of edges become candidates, and a candidate replaces the peaks that it
  is better than or is rejected by one that is better.

  Levels (thousandths of dB) and sums of levels are \<open>s32\<close> values: each operation on them wraps
  around (\<open>s32\<close>), as the kernel is compiled with -fno-strict-overflow.  Indices are \<open>int\<close>: they stay below
  the size of a kernel allocation.  A division of C rounds to zero (\<open>sdiv\<close>).  The argument
  \<open>response_ret\<close> of the kernels is null in all calls and left out.
\<close>

definition s32 :: "int \<Rightarrow> int" where
  "s32 x = signed_take_bit 31 x"

text \<open>Access to an array at an index that may be negative.\<close>

definition rd :: "'a list \<Rightarrow> int \<Rightarrow> 'a option" where
  "rd xs i = (if 0 \<le> i \<and> nat i < length xs then Some (xs ! nat i) else None)"

definition wr :: "'a list \<Rightarrow> int \<Rightarrow> 'a \<Rightarrow> 'a list option" where
  "wr xs i x = (if 0 \<le> i \<and> nat i < length xs then Some (xs[nat i := x]) else None)"

definition dtabs :: "int \<Rightarrow> int" where
  "dtabs x = (if x < 0 then s32 (- x) else x)"

definition dtmin :: "int \<Rightarrow> int \<Rightarrow> int" where
  "dtmin x y = (if x < y then x else y)"

subsection \<open>State\<close>

record spectrum_peak_internal =
  pk_idx :: int
  lowest_left_idx :: int
  lowest_right_idx :: int
  rise_idx :: int
  fall_idx :: int
  pk_freq :: int
  pk_bw :: int
  lowest_left_level :: int
  lowest_right_level :: int
  mean_snr :: int
  mean_level :: int
  fluctuation :: int
  dip_level :: int
  dip_snr :: int

text \<open>The arrays that are allocated for a scan; an array that is not allocated is empty.\<close>

record scan_internal =
  si_rs :: "int list"
  si_noise :: "int list"
  start_idx :: int
  end_idx :: int
  last_peak :: spectrum_peak_internal
  peak_marks :: "byte list"
  si_peaks :: "spectrum_peak_internal list"
  num_peaks :: nat
  max_num_peaks :: nat
  si_w :: int

text \<open>
  A candidate for user space (\<open>struct spectral_peak_t\<close> of the kernel headers, with the fields that the
  scan sets) and the part of the state of a scan that neumo-scan.c uses.  A spectrum that was not
  allocated is empty.
\<close>

record spectral_peak =
  sp_freq :: int
  sp_symbol_rate :: int
  sp_snr :: int
  sp_level :: int

record spectrum_scan_state =
  threshold :: int
  threshold2 :: int
  mincount :: int
  snr_w :: int
  ss_freq :: "int list"
  ss_spectrum :: "int list"
  candidates :: "spectral_peak list"
  spectrum_len :: int
  num_candidates :: nat
  scan_in_progress :: bool

abbreviation (input) FALLING :: byte where "FALLING \<equiv> 1"
abbreviation (input) RISING :: byte where "RISING \<equiv> 2"

subsection \<open>Sums over the spectrum\<close>

function running_sum_loop :: "int list \<Rightarrow> int \<Rightarrow> int \<Rightarrow> int \<Rightarrow> int list \<Rightarrow> int list option" where
  "running_sum_loop psig n i accu pout =
     (if n \<le> i then Some pout
      else do {
        x \<leftarrow> rd psig i;
        let accu1 = s32 (accu + x);
        pout1 \<leftarrow> wr pout i accu1;
        running_sum_loop psig n (i + 1) accu1 pout1 })"
  by pat_completeness auto
termination by (relation "measure (\<lambda>(_, n, i, _, _). nat (n - i))") auto

definition running_sum :: "int list \<Rightarrow> int list \<Rightarrow> int \<Rightarrow> int list option" where
  "running_sum pout psig n = do {
     accu \<leftarrow> rd psig 0;
     running_sum_loop psig n 0 accu pout }"

function noise_loop :: "int list \<Rightarrow> int \<Rightarrow> int \<Rightarrow> int \<Rightarrow> int list \<Rightarrow> (int \<times> int \<times> int list) option" where
  "noise_loop psig n i accu pout =
     (if n - 1 \<le> i then Some (i, accu, pout)
      else do {
        a \<leftarrow> rd psig i;
        b \<leftarrow> rd psig (i - 1);
        c \<leftarrow> rd psig (i + 1);
        let accu1 = s32 (accu + dtabs (s32 (s32 (a * 2) - s32 (b + c))));
        pout1 \<leftarrow> wr pout i accu1;
        noise_loop psig n (i + 1) accu1 pout1 })"
  by pat_completeness auto
termination by (relation "measure (\<lambda>(_, n, i, _, _). nat (n - i))") auto

definition noise_est :: "int list \<Rightarrow> int list \<Rightarrow> int \<Rightarrow> int list option" where
  "noise_est pout psig n = do {
     a \<leftarrow> rd psig 0;
     b \<leftarrow> rd psig 1;
     (i, accu, pout1) \<leftarrow> noise_loop psig n 1 (dtabs (s32 (s32 (2 * a) - b))) pout;
     a1 \<leftarrow> rd psig i;
     b1 \<leftarrow> rd psig (i - 1);
     wr pout1 i (s32 (accu + dtabs (s32 (s32 (2 * a1) - b1)))) }"

definition windows :: "int list" where
  "windows = [
     2,    4,    6,    8,   10,   12,   14,   16,   18,   20,   22,
     24,   26,   28,   30,   32,   34,   36,   38,   40,   42,   44,
     46,   48,   50,   52,   54,   56,   58,   60,   62,   64,   66,
     68,   72,   74,   76,   80,   82,   86,   88,   92,   94,   98,
     102,  106,  108,  112,  116,  120,  126,  130,  134,  140,  144,
     150,  154,  160,  166,  172,  178,  184,  190,  198,  204,  212,
     220,  228,  236,  244,  252,  262,  270,  280,  290,  300,  312,
     322,  334,  346,  358,  370,  384,  398,  412,  426,  442,  456,
     474,  490,  508,  526,  544,  564,  584,  604,  626,  648,  670,
     694,  720,  744,  772,  798,  826,  856,  886,  918,  950,  984,
     1020, 1056, 1094, 1132, 1172, 1214, 1256, 1302, 1348, 1396, 1444,
     1496, 1548, 1604, 1660, 1720, 1780, 1844, 1910, 1976, 2048]"

subsection \<open>Edges\<close>

text \<open>How far from an edge the level is compared: \<open>w * 16 / per\<close>, or 1 when that is too short or too long.\<close>

definition edge_delta :: "int \<Rightarrow> int \<Rightarrow> int" where
  "edge_delta per w = (let delta = w * 16 div per in if delta \<le> 2 \<or> w \<le> 2 * delta then 1 else delta)"

text \<open>
  The common part of the two kernels, for an index whose response is above the threshold: the
  marks, and the index and the response of the best edge of the current group.
\<close>

type_synonym marker = "byte list \<times> int \<times> int"

definition mark_edge :: "byte \<Rightarrow> int \<Rightarrow> int \<Rightarrow> int \<Rightarrow> int \<Rightarrow> marker \<Rightarrow> marker option" where
  "mark_edge flag w dist i response mk = (case mk of (marks, besti, best) \<Rightarrow> do {
     let besti1 = (if 0 \<le> besti \<and> w div 4 \<le> dist then - 1 else besti);
     (marks1, besti2) \<leftarrow>
       (if 0 \<le> besti1 \<and> best \<le> response
        then do {
          m \<leftarrow> rd marks besti1;
          marks1 \<leftarrow> wr marks besti1 (m AND NOT flag);
          Some (marks1, - 1) }
        else Some (marks, besti1));
     (if 0 \<le> besti2 \<and> response < best then Some (marks1, besti2, best)
      else do {
        m \<leftarrow> rd marks1 i;
        marks2 \<leftarrow> wr marks1 i (m OR flag);
        Some (if best < response \<or> besti2 < 0 then (marks2, i, response) else (marks2, besti2, best)) }) })"

definition falling_response :: "spectrum_scan_state \<Rightarrow> scan_internal \<Rightarrow> int \<Rightarrow> int \<Rightarrow> int option" where
  "falling_response ss si delta i = do {
     a \<leftarrow> rd (si_rs si) i;
     b \<leftarrow> rd (si_rs si) (i - si_w si);
     right \<leftarrow> rd (ss_spectrum ss) (i + delta);
     Some (s32 (s32 (a - b) sdiv si_w si - right)) }"

function falling_loop :: "spectrum_scan_state \<Rightarrow> scan_internal \<Rightarrow> int \<Rightarrow> int \<Rightarrow> marker \<Rightarrow> marker option" where
  "falling_loop ss si delta i mk =
     (if i < si_w si then Some mk
      else do {
        response \<leftarrow> falling_response ss si delta i;
        mk1 \<leftarrow> (if threshold ss < response then mark_edge FALLING (si_w si) (fst (snd mk) - i) i response mk
                else Some mk);
        falling_loop ss si delta (i - 1) mk1 })"
  by pat_completeness auto
termination by (relation "measure (\<lambda>(_, si, _, i, _). nat (i - si_w si + 1))") auto

definition falling_kernel :: "spectrum_scan_state \<Rightarrow> scan_internal \<Rightarrow> scan_internal option" where
  "falling_kernel ss si = do {
     let delta = edge_delta 200 (si_w si);
     (marks, _, _) \<leftarrow> falling_loop ss si delta (spectrum_len ss - delta - 1) (peak_marks si, - 1, 0);
     Some (si\<lparr>peak_marks := marks\<rparr>) }"

definition rising_response :: "spectrum_scan_state \<Rightarrow> scan_internal \<Rightarrow> int \<Rightarrow> int \<Rightarrow> int option" where
  "rising_response ss si delta i = do {
     a \<leftarrow> rd (si_rs si) (i + si_w si);
     b \<leftarrow> rd (si_rs si) i;
     left \<leftarrow> rd (ss_spectrum ss) (i - delta);
     Some (s32 (s32 (a - b) sdiv si_w si - left)) }"

function rising_loop :: "spectrum_scan_state \<Rightarrow> scan_internal \<Rightarrow> int \<Rightarrow> int \<Rightarrow> marker \<Rightarrow> marker option" where
  "rising_loop ss si delta i mk =
     (if spectrum_len ss - si_w si - 1 < i then Some mk
      else do {
        response \<leftarrow> rising_response ss si delta i;
        mk1 \<leftarrow> (if threshold ss < response then mark_edge RISING (si_w si) (i - fst (snd mk)) i response mk
                else Some mk);
        rising_loop ss si delta (i + 1) mk1 })"
  by pat_completeness auto
termination by (relation "measure (\<lambda>(ss, si, _, i, _). nat (spectrum_len ss - si_w si - i))") auto

definition rising_kernel :: "spectrum_scan_state \<Rightarrow> scan_internal \<Rightarrow> scan_internal option" where
  "rising_kernel ss si = do {
     let delta = edge_delta 200 (si_w si);
     (marks, _, _) \<leftarrow> rising_loop ss si delta delta (peak_marks si, - 1, 0);
     Some (si\<lparr>peak_marks := marks\<rparr>) }"

definition spectral_init_level :: "spectrum_scan_state \<Rightarrow> scan_internal \<Rightarrow> scan_internal option" where
  "spectral_init_level ss si = do {
     let d = si_w si * 16 div 200;
     let start = (if d = 0 then d + 1 else d);
     let en = spectrum_len ss - d;
     let en1 = (if en = spectrum_len ss then en - 1 else en);
     marks \<leftarrow> memcpy (peak_marks si) 0 (replicate (nat (spectrum_len ss)) 0);
     si1 \<leftarrow> falling_kernel ss (si\<lparr>start_idx := start, end_idx := en1, last_peak := (last_peak si)\<lparr>pk_idx := - 1\<rparr>,
        peak_marks := marks\<rparr>);
     rising_kernel ss si1 }"

function find_falling :: "byte list \<Rightarrow> int \<Rightarrow> int \<Rightarrow> int option" where
  "find_falling marks i en =
     (if en \<le> i then Some (- 1)
      else do {
        m \<leftarrow> rd marks i;
        if m AND FALLING \<noteq> 0 then Some i else find_falling marks (i + 1) en })"
  by pat_completeness auto
termination by (relation "measure (\<lambda>(_, i, en). nat (en - i))") auto

function find_rising :: "byte list \<Rightarrow> int \<Rightarrow> int \<Rightarrow> int option" where
  "find_rising marks start i =
     (if i \<le> start then Some (- 1)
      else do {
        m \<leftarrow> rd marks i;
        if m AND RISING \<noteq> 0 then Some i else find_rising marks start (i - 1) })"
  by pat_completeness auto
termination by (relation "measure (\<lambda>(_, start, i). nat (i - start))") auto

declare running_sum_loop.simps [simp del] noise_loop.simps [simp del] falling_loop.simps [simp del] rising_loop.simps [simp del] find_falling.simps [simp del] find_rising.simps [simp del]

subsection \<open>Candidates\<close>

text \<open>The lowest level from \<open>i\<close> up to but not including \<open>stop\<close>, and the first index that has it.\<close>

function lowest_loop :: "int list \<Rightarrow> int \<Rightarrow> int \<Rightarrow> int \<times> int \<Rightarrow> (int \<times> int) option" where
  "lowest_loop spectrum i stop low =
     (if stop \<le> i then Some low
      else do {
        x \<leftarrow> rd spectrum i;
        lowest_loop spectrum (i + 1) stop (if x < fst low then (x, i) else low) })"
  by pat_completeness auto
termination by (relation "measure (\<lambda>(_, i, stop, _). nat (stop - i))") auto

text \<open>
  The limits of a peak: the first index of the first run of \<open>si_w div 8\<close> levels that reach the threshold,
  from the left and from the right.  A limit is set when a run starts; the value before is never used.
\<close>

function left_limit_loop :: "int list \<Rightarrow> int \<Rightarrow> int \<Rightarrow> int \<Rightarrow> int \<Rightarrow> int \<Rightarrow> int \<Rightarrow> (int \<times> int) option" where
  "left_limit_loop spectrum thresh w stop i count limit =
     (if stop \<le> i then Some (count, limit)
      else do {
        x \<leftarrow> rd spectrum i;
        if thresh \<le> x then
          let limit1 = (if count = 0 then i else limit)
          in if w div 8 \<le> count + 1 then Some (count + 1, limit1)
             else left_limit_loop spectrum thresh w stop (i + 1) (count + 1) limit1
        else left_limit_loop spectrum thresh w stop (i + 1) 0 limit })"
  by pat_completeness auto
termination by (relation "measure (\<lambda>(_, _, _, stop, i, _, _). nat (stop - i))") auto

function right_limit_loop :: "int list \<Rightarrow> int \<Rightarrow> int \<Rightarrow> int \<Rightarrow> int \<Rightarrow> int \<Rightarrow> int \<Rightarrow> (int \<times> int) option" where
  "right_limit_loop spectrum thresh w stop i count limit =
     (if i < stop then Some (count, limit)
      else do {
        x \<leftarrow> rd spectrum i;
        if thresh \<le> x then
          let limit1 = (if count = 0 then i else limit)
          in if w div 8 \<le> count + 1 then Some (count + 1, limit1)
             else right_limit_loop spectrum thresh w stop (i - 1) (count + 1) limit1
        else right_limit_loop spectrum thresh w stop (i - 1) 0 limit })"
  by pat_completeness auto
termination by (relation "measure (\<lambda>(_, _, _, stop, i, _, _). nat (i - stop + 1))") auto

definition limits_3db :: "int list \<Rightarrow> int \<Rightarrow> int \<Rightarrow> int \<Rightarrow> int \<Rightarrow> (int \<times> int) option" where
  "limits_3db spectrum thresh w lowest_left_i lowest_right_i = do {
     (lcount, l) \<leftarrow> left_limit_loop spectrum thresh w lowest_right_i lowest_left_i 0 lowest_left_i;
     (rcount, r) \<leftarrow> right_limit_loop spectrum thresh w lowest_left_i lowest_right_i 0 lowest_right_i;
     Some (if lcount = 0 then lowest_left_i else l, if rcount = 0 then lowest_right_i else r) }"

text \<open>The top of the peak: where the mean level is reached, from the left and from the right.\<close>

function top_up_loop :: "int list \<Rightarrow> int \<Rightarrow> int \<Rightarrow> int \<Rightarrow> int option" where
  "top_up_loop spectrum level i stop =
     (if stop < i then Some i
      else do {
        x \<leftarrow> rd spectrum i;
        if level \<le> x then Some i else top_up_loop spectrum level (i + 1) stop })"
  by pat_completeness auto
termination by (relation "measure (\<lambda>(_, _, i, stop). nat (stop - i + 1))") auto

function top_down_loop :: "int list \<Rightarrow> int \<Rightarrow> int \<Rightarrow> int \<Rightarrow> int option" where
  "top_down_loop spectrum level i stop =
     (if i < stop then Some i
      else do {
        x \<leftarrow> rd spectrum i;
        if level \<le> x then Some i else top_down_loop spectrum level (i - 1) stop })"
  by pat_completeness auto
termination by (relation "measure (\<lambda>(_, _, i, stop). nat (i - stop + 1))") auto

function dip_loop :: "int list \<Rightarrow> int \<Rightarrow> int \<Rightarrow> int \<Rightarrow> int option" where
  "dip_loop spectrum i stop dip =
     (if stop < i then Some dip
      else do {
        x \<leftarrow> rd spectrum i;
        dip_loop spectrum (i + 1) stop (if x < dip then x else dip) })"
  by pat_completeness auto
termination by (relation "measure (\<lambda>(_, i, stop, _). nat (stop - i + 1))") auto

text \<open>The mean level between two indices, from the running sums.\<close>

definition mean_between :: "int list \<Rightarrow> int \<Rightarrow> int \<Rightarrow> int option" where
  "mean_between rs rise fall = do {
     a \<leftarrow> rd rs fall;
     b \<leftarrow> rd rs rise;
     Some (s32 (a - b) sdiv (fall - rise)) }"

definition process_candidate :: "spectrum_scan_state \<Rightarrow> scan_internal \<Rightarrow> int \<Rightarrow> int \<Rightarrow> scan_internal option" where
  "process_candidate ss si rise fall = do {
     let delta = edge_delta 100 (si_w si);
     let sp = ss_spectrum ss;
     mean \<leftarrow> mean_between (si_rs si) rise fall;
     na \<leftarrow> rd (si_noise si) fall;
     nb \<leftarrow> rd (si_noise si) rise;
     let fluct = s32 (25 * s32 (na - nb)) sdiv (102 * (fall - rise));
     let left = (if rise - delta < 0 then 0 else rise - delta);
     let right = (if spectrum_len ss < fall + delta then spectrum_len ss else fall + delta);
     x \<leftarrow> rd sp left;
     y \<leftarrow> rd sp (right - 1);
     (lowest_left, ll) \<leftarrow> lowest_loop sp left rise (x, left);
     (lowest_right, lr) \<leftarrow> lowest_loop sp (fall + 1) right (y, right - 1);
     (l1, r1) \<leftarrow> limits_3db sp (s32 (mean - 3000)) (si_w si) ll lr;
     left_top \<leftarrow> top_up_loop sp mean l1 r1;
     right_top \<leftarrow> top_down_loop sp mean r1 left_top;
     mean1 \<leftarrow> (if left_top < right_top then mean_between (si_rs si) left_top right_top else Some mean);
     (l2, r2) \<leftarrow> limits_3db sp (s32 (mean1 - 3000)) (si_w si) ll lr;
     d \<leftarrow> rd sp left_top;
     dip \<leftarrow> dip_loop sp left_top right_top d;
     let i = (r2 + l2) div 2;
     f \<leftarrow> rd (ss_freq ss) i;
     fr \<leftarrow> rd (ss_freq ss) r2;
     fl \<leftarrow> rd (ss_freq ss) l2;
     Some (si\<lparr>last_peak := \<lparr>pk_idx = i, lowest_left_idx = ll, lowest_right_idx = lr, rise_idx = l2, fall_idx = r2,
       pk_freq = f, pk_bw = s32 (fr - fl), lowest_left_level = lowest_left, lowest_right_level = lowest_right,
       mean_snr = s32 (mean1 - dtmin lowest_right lowest_left), mean_level = mean1, fluctuation = fluct,
       dip_level = dip, dip_snr = s32 (dip - dtmin lowest_right lowest_left)\<rparr>\<rparr>) }"

subsection \<open>The table of peaks\<close>

definition is_part_of :: "spectrum_peak_internal \<Rightarrow> spectrum_peak_internal \<Rightarrow> bool" where
  "is_part_of a b \<longleftrightarrow>
     (rise_idx b \<le> rise_idx a \<and> rise_idx a \<le> fall_idx b) \<and> (rise_idx b \<le> fall_idx a \<and> fall_idx a \<le> fall_idx b)"

definition is_better_than :: "spectrum_peak_internal \<Rightarrow> spectrum_peak_internal \<Rightarrow> int" where
  "is_better_than a b =
     (let inside = (\<lambda>i p. rise_idx p < i \<and> i < fall_idx p);
          dip = (\<lambda>p level. s32 (fluctuation p * 8) \<le> s32 (mean_level p - level))
      in if inside (lowest_left_idx a) b \<and> dip b (lowest_left_level a) then 1
         else if inside (lowest_right_idx a) b \<and> dip b (lowest_right_level a) then 1
         else if is_part_of a b then - 1
         else if inside (lowest_left_idx b) a \<and> dip a (lowest_left_level b) then - 1
         else if inside (lowest_right_idx b) a \<and> dip a (lowest_right_level b) then - 1
         else if is_part_of b a then 1
         else if \<not> inside (lowest_left_idx a) b \<and> \<not> inside (lowest_right_idx a) b \<and>
                 \<not> inside (lowest_left_idx b) a \<and> \<not> inside (lowest_right_idx b) a then 0
         else if mean_snr b \<le> mean_snr a then 1 else - 1)"

text \<open>The loop over the table: its content, the number of peaks, and the answer.\<close>

function check_loop ::
    "spectrum_peak_internal \<Rightarrow> nat \<Rightarrow> spectrum_peak_internal list \<Rightarrow> nat \<Rightarrow> (spectrum_peak_internal list \<times> nat \<times> int) option" where
  "check_loop cand i ps num =
     (if num \<le> i then Some (ps, num, 0)
      else do {
        old \<leftarrow> mem_at ps i;
        (let old_is_better = is_better_than old cand
         in if old_is_better = 0 then check_loop cand (i + 1) ps num
            else if 0 < old_is_better then Some (ps, num, - 1)
            else do {
              moved \<leftarrow> memread ps (i + 1) (num - i - 1);
              ps1 \<leftarrow> memcpy ps i moved;
              check_loop cand i ps1 (num - 1) }) })"
  by pat_completeness auto
termination by (relation "measure (\<lambda>(_, i, _, num). num - i)") auto

definition check_candidate_tp :: "spectrum_scan_state \<Rightarrow> scan_internal \<Rightarrow> (scan_internal \<times> int) option" where
  "check_candidate_tp ss si = (let cand = last_peak si in
     if mean_snr cand < threshold2 ss then Some (si, - 1)
     else if dip_snr cand \<le> threshold ss then Some (si, - 1)
     else do {
       (ps, num, r) \<leftarrow> check_loop cand 0 (si_peaks si) (num_peaks si);
       Some (si\<lparr>si_peaks := ps, num_peaks := num\<rparr>, r) })"

declare lowest_loop.simps [simp del] left_limit_loop.simps [simp del] right_limit_loop.simps [simp del] top_up_loop.simps [simp del] top_down_loop.simps [simp del] dip_loop.simps [simp del] check_loop.simps [simp del]

subsection \<open>The scan\<close>

lemma find_falling_bound: "find_falling marks i en = Some k \<Longrightarrow> k = - 1 \<or> i \<le> k \<and> k < en"
proof (induction marks i en rule: find_falling.induct)
  case (1 marks i en)
  show ?case using 1 unfolding find_falling.simps [of marks i en] by (fastforce split: if_splits bind_splits)
qed

lemma find_rising_bound: "find_rising marks start i = Some k \<Longrightarrow> k = - 1 \<or> start < k \<and> k \<le> i"
proof (induction marks start i rule: find_rising.induct)
  case (1 marks start i)
  show ?case using 1 unfolding find_rising.simps [of marks start i] by (fastforce split: if_splits bind_splits)
qed

text \<open>One pair of edges: the answer tells whether the table is full.\<close>

definition try_pair :: "spectrum_scan_state \<Rightarrow> int \<Rightarrow> int \<Rightarrow> scan_internal \<Rightarrow> (scan_internal \<times> bool) option" where
  "try_pair ss rise fall si = do {
     si1 \<leftarrow> process_candidate ss si rise fall;
     (si2, r) \<leftarrow> check_candidate_tp ss si1;
     (if 0 \<le> r
      then do {
        ps \<leftarrow> wr (si_peaks si2) (int (num_peaks si2)) (last_peak si2);
        Some (si2\<lparr>si_peaks := ps, num_peaks := num_peaks si2 + 1\<rparr>, max_num_peaks si2 \<le> num_peaks si2 + 1) }
      else Some (si2, False)) }"

text \<open>All pairs of a falling edge: the rising edges 1 to 1.5 windows to the left of it.\<close>

function rise_loop :: "spectrum_scan_state \<Rightarrow> int \<Rightarrow> int \<Rightarrow> int \<Rightarrow> scan_internal \<Rightarrow> (scan_internal \<times> bool) option" where
  "rise_loop ss fall ll rise si =
     (if ll \<le> rise \<and> 0 \<le> rise
      then do {
        (si1, full) \<leftarrow> try_pair ss rise fall si;
        (if full then Some (si1, True)
         else do {
           next_rise \<leftarrow> find_rising (peak_marks si1) ll (rise - 1);
           rise_loop ss fall ll next_rise si1 }) }
      else Some (si, False))"
  by pat_completeness auto
termination
  by (relation "measure (\<lambda>(_, _, _, rise, _). nat (rise + 1))") (auto dest!: find_rising_bound)

declare rise_loop.simps [simp del]

text \<open>What the candidates do not change.\<close>

definition same_level :: "scan_internal \<Rightarrow> scan_internal \<Rightarrow> bool" where
  "same_level si si' \<longleftrightarrow> si_rs si' = si_rs si \<and> si_noise si' = si_noise si \<and> start_idx si' = start_idx si \<and>
     end_idx si' = end_idx si \<and> peak_marks si' = peak_marks si \<and> max_num_peaks si' = max_num_peaks si \<and> si_w si' = si_w si"

lemma same_level_refl [simp]: "same_level si si"
  by (simp add: same_level_def)

lemma same_level_trans: "same_level a b \<Longrightarrow> same_level b c \<Longrightarrow> same_level a c"
  by (simp add: same_level_def)

lemma process_same: "process_candidate ss si rise fall = Some si' \<Longrightarrow>
    same_level si si' \<and> si_peaks si' = si_peaks si \<and> num_peaks si' = num_peaks si"
  by (auto simp: process_candidate_def same_level_def Let_def split: bind_splits)

lemma check_same: "check_candidate_tp ss si = Some (si', r) \<Longrightarrow> same_level si si' \<and> last_peak si' = last_peak si"
  by (auto simp: check_candidate_tp_def same_level_def Let_def split: bind_splits if_splits)

lemma try_same: "try_pair ss rise fall si = Some (si', full) \<Longrightarrow> same_level si si'"
  by (auto simp: try_pair_def split: bind_splits if_splits dest!: process_same check_same) (auto simp: same_level_def)

lemma rise_loop_inv:
  assumes "rise_loop ss fall ll rise si = Some (si', full)" "I si"
    "\<And>k a b c. I a \<Longrightarrow> try_pair ss k fall a = Some (b, c) \<Longrightarrow> I b"
  shows "I si'"
  using assms
proof (induction ss fall ll rise si rule: rise_loop.induct)
  case (1 ss fall ll rise si)
  show ?case
  proof (cases "ll \<le> rise \<and> 0 \<le> rise")
    case False
    then show ?thesis using "1.prems"(1,2) unfolding rise_loop.simps [of ss fall ll rise si] by (simp only: if_False option.inject prod.inject)
  next
    case True
    from "1.prems"(1) True obtain si1 f1 where s: "try_pair ss rise fall si = Some (si1, f1)"
      unfolding rise_loop.simps [of ss fall ll rise si] by (auto split: bind_splits)
    have i1: "I si1" using "1.prems"(3) [OF "1.prems"(2) s] .
    show ?thesis
    proof (cases f1)
      case True
      then show ?thesis using "1.prems"(1) \<open>ll \<le> rise \<and> 0 \<le> rise\<close> s i1 unfolding rise_loop.simps [of ss fall ll rise si] by simp
    next
      case False
      with "1.prems"(1) \<open>ll \<le> rise \<and> 0 \<le> rise\<close> s obtain nr where
        nr: "find_rising (peak_marks si1) ll (rise - 1) = Some nr" "rise_loop ss fall ll nr si1 = Some (si', full)"
        unfolding rise_loop.simps [of ss fall ll rise si] by (auto split: bind_splits)
      show ?thesis by (rule "1.IH" [OF \<open>ll \<le> rise \<and> 0 \<le> rise\<close> s refl False nr i1]) (rule "1.prems"(3))
    qed
  qed
qed

lemma rise_same: "rise_loop ss fall ll rise si = Some (si', full) \<Longrightarrow> same_level si si'"
  by (erule rise_loop_inv [where I = "same_level si"]) (auto dest: try_same intro: same_level_trans)

function fall_loop :: "spectrum_scan_state \<Rightarrow> int \<Rightarrow> scan_internal \<Rightarrow> (scan_internal \<times> bool) option" where
  "fall_loop ss fall si =
     (if fall < end_idx si \<and> 0 \<le> fall
      then do {
        let l = fall - si_w si * 150 div 100;
        let ll = (if l < start_idx si then start_idx si else l);
        rise \<leftarrow> find_rising (peak_marks si) ll (fall - si_w si);
        (si1, full) \<leftarrow> rise_loop ss fall ll rise si;
        (if full then Some (si1, True)
         else do {
           next_fall \<leftarrow> find_falling (peak_marks si1) (fall + 1) (end_idx si1);
           fall_loop ss next_fall si1 }) }
      else Some (si, False))"
  by pat_completeness auto
termination
proof (relation "measure (\<lambda>(_, fall, si). if fall < 0 then 0 else nat (end_idx si - fall))", goal_cases)
  case (2 ss fall si l ll rise p si1 full next_fall)
  then have "end_idx si1 = end_idx si" using rise_same by (auto simp: same_level_def)
  then show ?case using 2 find_falling_bound by fastforce
qed simp

declare fall_loop.simps [simp del]

definition scan_level :: "spectrum_scan_state \<Rightarrow> scan_internal \<Rightarrow> int \<Rightarrow> (scan_internal \<times> int) option" where
  "scan_level ss si w = do {
     si1 \<leftarrow> spectral_init_level ss (si\<lparr>si_w := w\<rparr>);
     fall \<leftarrow> find_falling (peak_marks si1) (start_idx si1) (end_idx si1);
     (si2, full) \<leftarrow> fall_loop ss fall si1;
     Some (si2, if full then - 1 else 0) }"

text \<open>The loop over the windows does not look at the answer of a level.\<close>

fun scan_windows :: "spectrum_scan_state \<Rightarrow> int list \<Rightarrow> scan_internal \<Rightarrow> scan_internal option" where
  "scan_windows ss [] si = Some si"
| "scan_windows ss (w # ws) si = do {
     (si1, _) \<leftarrow> scan_level ss si w;
     scan_windows ss ws si1 }"

text \<open>Allocation; \<open>mem k\<close> tells whether the k-th one succeeds.  Memory is cleared.\<close>

definition kzalloc :: "bool \<Rightarrow> nat \<Rightarrow> 'a \<Rightarrow> 'a list" where
  "kzalloc ok n zero = (if ok then replicate n zero else [])"

definition no_peak :: spectrum_peak_internal where
  "no_peak = \<lparr>pk_idx = 0, lowest_left_idx = 0, lowest_right_idx = 0, rise_idx = 0, fall_idx = 0, pk_freq = 0, pk_bw = 0,
     lowest_left_level = 0, lowest_right_level = 0, mean_snr = 0, mean_level = 0, fluctuation = 0, dip_level = 0, dip_snr = 0\<rparr>"

definition no_scan :: scan_internal where
  "no_scan = \<lparr>si_rs = [], si_noise = [], start_idx = 0, end_idx = 0, last_peak = no_peak, peak_marks = [], si_peaks = [],
     num_peaks = 0, max_num_peaks = 0, si_w = 0\<rparr>"

definition spectral_scan_init ::
    "(nat \<Rightarrow> bool) \<Rightarrow> spectrum_scan_state \<Rightarrow> scan_internal \<Rightarrow> (spectrum_scan_state \<times> scan_internal \<times> int) option" where
  "spectral_scan_init mem ss si = do {
     let si1 = si\<lparr>max_num_peaks := 1024 * 4\<rparr>;
     let ss1 = ss\<lparr>scan_in_progress := True, snr_w := 35\<rparr>;
     let n = spectrum_len ss1;
     (if ss_spectrum ss1 = [] \<or> n = 0 then Some (ss1, si1, - ENOMEM)
      else do {
        rs \<leftarrow> running_sum (kzalloc (mem 0) (nat n) 0) (ss_spectrum ss1) n;
        noise \<leftarrow> noise_est (kzalloc (mem 1) (nat n) 0) (ss_spectrum ss1) n;
        Some (ss1, si1\<lparr>si_rs := rs, si_noise := noise, peak_marks := kzalloc (mem 2) (nat n) 0,
          si_peaks := kzalloc (mem 3) (max_num_peaks si1) no_peak, num_peaks := 0\<rparr>, 0) }) }"

definition scan_all :: "(nat \<Rightarrow> bool) \<Rightarrow> spectrum_scan_state \<Rightarrow> scan_internal \<Rightarrow> (spectrum_scan_state \<times> scan_internal \<times> int) option" where
  "scan_all mem ss si = do {
     (ss1, si1, _) \<leftarrow> spectral_scan_init mem ss si;
     si2 \<leftarrow> scan_windows ss1 windows si1;
     Some (ss1, si2, 0) }"

definition cmp_fn :: "spectral_peak \<Rightarrow> spectral_peak \<Rightarrow> int" where
  "cmp_fn a b = s32 (sp_freq a - sp_freq b)"

definition candidate_of :: "spectrum_peak_internal \<Rightarrow> spectral_peak" where
  "candidate_of p = \<lparr>sp_freq = pk_freq p, sp_symbol_rate = s32 (pk_bw p * 1000), sp_snr = mean_snr p, sp_level = mean_level p\<rparr>"

function fill_candidates :: "spectrum_peak_internal list \<Rightarrow> nat \<Rightarrow> spectral_peak list \<Rightarrow> nat \<Rightarrow> spectral_peak list option" where
  "fill_candidates ps n cs j =
     (if n \<le> j then Some cs
      else do {
        p \<leftarrow> mem_at ps j;
        cs1 \<leftarrow> wr cs (int j) (candidate_of p);
        fill_candidates ps n cs1 (j + 1) })"
  by pat_completeness auto
termination by (relation "measure (\<lambda>(_, n, _, j). n - j)") auto

declare fill_candidates.simps [simp del]

text \<open>
  The whole scan.  \<open>sort\<close> of the kernel is a parameter: it is given the comparison and the array.
\<close>

definition neumo_scan_spectrum :: "(nat \<Rightarrow> bool) \<Rightarrow> ((spectral_peak \<Rightarrow> spectral_peak \<Rightarrow> int) \<Rightarrow> spectral_peak list \<Rightarrow> spectral_peak list) \<Rightarrow>
    spectrum_scan_state \<Rightarrow> (spectrum_scan_state \<times> int) option" where
  "neumo_scan_spectrum mem sort_array ss = do {
     let ss1 = ss\<lparr>threshold := 3000, threshold2 := 3000, mincount := 1\<rparr>;
     (ss2, si, _) \<leftarrow> scan_all mem ss1 no_scan;
     let num = num_peaks si;
     cs \<leftarrow> fill_candidates (si_peaks si) num
       (kzalloc (mem 4) num \<lparr>sp_freq = 0, sp_symbol_rate = 0, sp_snr = 0, sp_level = 0\<rparr>) 0;
     Some (ss2\<lparr>num_candidates := num, candidates := sort_array cmp_fn cs\<rparr>, 0) }"

end
