(* ===== verification/ScanParts.thy ===== *)
theory ScanParts
  imports Scan
begin

text \<open>
  The parts of a scan: the sums are those of the levels, modulo 2^32; a candidate stays in the
  spectrum; the table of peaks after a candidate; and the marks while edges are looked for.
\<close>

subsection \<open>Access and arithmetic\<close>

lemma rd_Some [simp]: "0 \<le> i \<Longrightarrow> i < int (length xs) \<Longrightarrow> rd xs i = Some (xs ! nat i)"
  by (simp add: rd_def nat_less_iff)

lemma rd_SomeD: "rd xs i = Some x \<Longrightarrow> 0 \<le> i \<and> i < int (length xs) \<and> x = xs ! nat i"
  by (auto simp: rd_def split: if_splits)

lemma wr_Some [simp]: "0 \<le> i \<Longrightarrow> i < int (length xs) \<Longrightarrow> wr xs i x = Some (xs[nat i := x])"
  by (simp add: wr_def nat_less_iff)

lemma wr_SomeD: "wr xs i x = Some ys \<Longrightarrow> 0 \<le> i \<and> i < int (length xs) \<and> ys = xs[nat i := x]"
  by (auto simp: wr_def split: if_splits)

lemma s32_mod: "s32 x = (x + 2 ^ 31) mod 2 ^ 32 - 2 ^ 31"
  by (simp add: s32_def signed_take_bit_eq_take_bit_shift take_bit_eq_mod)

lemma s32_id: "- (2 ^ 31) \<le> x \<Longrightarrow> x < 2 ^ 31 \<Longrightarrow> s32 x = x"
  by (simp add: s32_mod)

lemma s32_eq: "s32 x = s32 y \<longleftrightarrow> x mod 2 ^ 32 = y mod 2 ^ 32"
proof -
  have "(x + 2 ^ 31) mod 2 ^ 32 = (y + 2 ^ 31) mod 2 ^ 32 \<longleftrightarrow> x mod 2 ^ 32 = y mod (2 ^ 32 :: int)"
    by (simp add: mod_eq_dvd_iff)
  then show ?thesis by (simp add: s32_mod)
qed

lemma s32_same: "s32 x mod 2 ^ 32 = x mod 2 ^ 32"
  by (simp add: s32_mod mod_diff_left_eq)

lemma s32_add [simp]: "s32 (s32 x + y) = s32 (x + y)" "s32 (x + s32 y) = s32 (x + y)"
  unfolding s32_eq by (metis mod_add_left_eq s32_same, metis mod_add_right_eq s32_same)

lemma s32_diff [simp]: "s32 (s32 x - y) = s32 (x - y)" "s32 (x - s32 y) = s32 (x - y)"
  unfolding s32_eq by (metis mod_diff_left_eq s32_same, metis mod_diff_right_eq s32_same)

subsection \<open>The sums\<close>

lemma running_sum_loop_ok:
  assumes "0 \<le> i" "int (length pout) = n" "n \<le> int (length psig)" "i \<le> n"
  shows "\<exists>out. running_sum_loop psig n i accu pout = Some out \<and> length out = length pout \<and>
    (\<forall>k. i \<le> k \<and> k < n \<longrightarrow> out ! nat k = s32 (accu + (\<Sum>j \<in> {i..k}. psig ! nat j))) \<and>
    (\<forall>k. 0 \<le> k \<and> k < i \<longrightarrow> out ! nat k = pout ! nat k)"
  using assms
proof (induction psig n i accu pout rule: running_sum_loop.induct)
  case (1 psig n i accu pout)
  show ?case
  proof (cases "n \<le> i")
    case True
    then show ?thesis unfolding running_sum_loop.simps [of psig n i] by simp
  next
    case False
    let ?x = "psig ! nat i"
    let ?a = "s32 (accu + ?x)"
    let ?p = "pout[nat i := ?a]"
    have r: "rd psig i = Some ?x" "wr pout i ?a = Some ?p" using "1.prems" False by simp_all
    have "\<exists>out. running_sum_loop psig n (i + 1) ?a ?p = Some out \<and> length out = length ?p \<and>
      (\<forall>k. i + 1 \<le> k \<and> k < n \<longrightarrow> out ! nat k = s32 (?a + (\<Sum>j \<in> {i + 1..k}. psig ! nat j))) \<and>
      (\<forall>k. 0 \<le> k \<and> k < i + 1 \<longrightarrow> out ! nat k = ?p ! nat k)"
      by (rule "1.IH" [OF False r(1) refl r(2)]) (use "1.prems" False in auto)
    then obtain out where out: "running_sum_loop psig n (i + 1) ?a ?p = Some out" "length out = length pout"
      "\<And>k. i + 1 \<le> k \<Longrightarrow> k < n \<Longrightarrow> out ! nat k = s32 (?a + (\<Sum>j \<in> {i + 1..k}. psig ! nat j))"
      "\<And>k. 0 \<le> k \<Longrightarrow> k < i + 1 \<Longrightarrow> out ! nat k = ?p ! nat k" by auto
    have i: "nat i < length pout" using "1.prems" False by linarith
    have "out ! nat k = s32 (accu + (\<Sum>j \<in> {i..k}. psig ! nat j))" if k: "i \<le> k" "k < n" for k
    proof (cases "k = i")
      case True
      then show ?thesis using out(4) [of i] "1.prems"(1) i by simp
    next
      case False
      then have "{i..k} = insert i {i + 1..k}" using k by auto
      then have "(\<Sum>j \<in> {i..k}. psig ! nat j) = ?x + (\<Sum>j \<in> {i + 1..k}. psig ! nat j)" by simp
      then show ?thesis using out(3) [of k] False k by (simp add: add.assoc)
    qed
    moreover have "out ! nat k = pout ! nat k" if k: "0 \<le> k" "k < i" for k
      using out(4) [of k] k "1.prems"(1) by (simp add: nat_eq_iff)
    moreover have "running_sum_loop psig n i accu pout = Some out"
      using False r out(1) unfolding running_sum_loop.simps [of psig n i accu pout] by (simp add: Let_def)
    ultimately show ?thesis using out(2) by blast
  qed
qed

lemma running_sum_ok:
  assumes "0 < n" "int (length pout) = n" "n \<le> int (length psig)"
  shows "\<exists>out. running_sum pout psig n = Some out \<and> int (length out) = n \<and>
    (\<forall>k. 0 \<le> k \<and> k < n \<longrightarrow> out ! nat k = s32 (psig ! 0 + (\<Sum>j \<in> {0..k}. psig ! nat j)))"
proof -
  have "0 < int (length psig)" using assms by linarith
  then have r: "rd psig 0 = Some (psig ! 0)" using rd_Some [of 0 psig] by simp
  show ?thesis using running_sum_loop_ok [of 0 pout n psig "psig ! 0"] assms r by (auto simp: running_sum_def)
qed

lemma noise_loop_ok:
  assumes "1 \<le> i" "int (length pout) = n" "n \<le> int (length psig)" "i \<le> n - 1"
  shows "\<exists>a out. noise_loop psig n i accu pout = Some (n - 1, a, out) \<and> length out = length pout"
  using assms
proof (induction psig n i accu pout rule: noise_loop.induct)
  case (1 psig n i accu pout)
  show ?case
  proof (cases "n - 1 \<le> i")
    case True
    then show ?thesis using "1.prems" unfolding noise_loop.simps [of psig n i accu pout] by auto
  next
    case False
    let ?a = "s32 (accu + dtabs (s32 (s32 (psig ! nat i * 2) - s32 (psig ! nat (i - 1) + psig ! nat (i + 1)))))"
    let ?p = "pout[nat i := ?a]"
    have r: "rd psig i = Some (psig ! nat i)" "rd psig (i - 1) = Some (psig ! nat (i - 1))"
      "rd psig (i + 1) = Some (psig ! nat (i + 1))" "wr pout i ?a = Some ?p"
      using "1.prems" False by simp_all
    have "\<exists>a out. noise_loop psig n (i + 1) ?a ?p = Some (n - 1, a, out) \<and> length out = length ?p"
      by (rule "1.IH" [OF False r(1-3) refl r(4)]) (use "1.prems" False in auto)
    then show ?thesis using False r unfolding noise_loop.simps [of psig n i accu pout] by (simp add: Let_def)
  qed
qed

lemma noise_est_ok:
  assumes "2 \<le> n" "int (length pout) = n" "n \<le> int (length psig)"
  shows "\<exists>out. noise_est pout psig n = Some out \<and> int (length out) = n"
proof -
  let ?d = "dtabs (s32 (s32 (2 * psig ! 0) - psig ! 1))"
  obtain a out where out: "noise_loop psig n 1 ?d pout = Some (n - 1, a, out)" "length out = length pout"
    using noise_loop_ok [of 1 pout n psig ?d] assms by auto
  have r: "rd psig 0 = Some (psig ! 0)" "rd psig 1 = Some (psig ! 1)" using assms by (auto simp: rd_def)
  have r2: "rd psig (n - 1) = Some (psig ! nat (n - 1))" "rd psig (n - 1 - 1) = Some (psig ! nat (n - 1 - 1))"
    "wr out (n - 1) x = Some (out[nat (n - 1) := x])" for x
    using assms out(2) by (auto intro!: rd_Some wr_Some)
  show ?thesis unfolding noise_est_def
    by (simp only: r out(1) r2 Option.bind.simps prod.case) (use assms out(2) in simp)
qed

subsection \<open>A candidate stays in the spectrum\<close>

lemma lowest_loop_ok:
  assumes "0 \<le> i" "stop \<le> int (length sp)"
  shows "\<exists>x k. lowest_loop sp i stop low = Some (x, k) \<and> (k = snd low \<or> i \<le> k \<and> k < stop)"
  using assms
proof (induction sp i stop low rule: lowest_loop.induct)
  case (1 sp i stop low)
  show ?case
  proof (cases "stop \<le> i")
    case True
    then show ?thesis unfolding lowest_loop.simps [of sp i stop low] by (cases low) auto
  next
    case False
    have r: "rd sp i = Some (sp ! nat i)" using "1.prems" False by simp
    let ?l = "if sp ! nat i < fst low then (sp ! nat i, i) else low"
    obtain x k where "lowest_loop sp (i + 1) stop ?l = Some (x, k)" "k = snd ?l \<or> i + 1 \<le> k \<and> k < stop"
      using "1.IH" [OF False r] "1.prems" by auto
    then show ?thesis using False r unfolding lowest_loop.simps [of sp i stop low] by (auto split: if_splits)
  qed
qed

lemma left_limit_ok:
  assumes "0 \<le> i" "stop \<le> int (length sp)" "0 \<le> count" "b \<le> limit \<and> limit < stop \<or> count = 0" "b \<le> i"
  shows "\<exists>c l. left_limit_loop sp th w stop i count limit = Some (c, l) \<and> (c = 0 \<or> 0 < c \<and> b \<le> l \<and> l < stop)"
  using assms
proof (induction sp th w stop i count limit rule: left_limit_loop.induct)
  case (1 sp th w stop i count limit)
  show ?case
  proof (cases "stop \<le> i")
    case True
    then show ?thesis using "1.prems" unfolding left_limit_loop.simps [of sp th w stop i count limit] by auto
  next
    case False
    have r: "rd sp i = Some (sp ! nat i)" using "1.prems" False by simp
    let ?l = "if count = 0 then i else limit"
    note e = left_limit_loop.simps [of sp th w stop i count limit]
    show ?thesis
    proof (cases "th \<le> sp ! nat i")
      case True
      show ?thesis
      proof (cases "w div 8 \<le> count + 1")
        case True
        then show ?thesis using \<open>th \<le> sp ! nat i\<close> False r "1.prems" unfolding e by (auto simp: Let_def)
      next
        case False
        show ?thesis using "1.IH"(1) [OF \<open>\<not> stop \<le> i\<close> r True refl False] "1.prems" \<open>\<not> stop \<le> i\<close> r True False
          unfolding e by (auto simp: Let_def)
      qed
    next
      case th: False
      show ?thesis using "1.IH"(2) [OF False r th] "1.prems" False r th unfolding e by auto
    qed
  qed
qed

lemma right_limit_ok:
  assumes "0 \<le> stop" "i < int (length sp)" "0 \<le> count" "stop \<le> limit \<and> limit \<le> b \<or> count = 0" "i \<le> b"
  shows "\<exists>c l. right_limit_loop sp th w stop i count limit = Some (c, l) \<and> (c = 0 \<or> 0 < c \<and> stop \<le> l \<and> l \<le> b)"
  using assms
proof (induction sp th w stop i count limit rule: right_limit_loop.induct)
  case (1 sp th w stop i count limit)
  show ?case
  proof (cases "i < stop")
    case True
    then show ?thesis using "1.prems" unfolding right_limit_loop.simps [of sp th w stop i count limit] by auto
  next
    case False
    have r: "rd sp i = Some (sp ! nat i)" using "1.prems" False by simp
    let ?l = "if count = 0 then i else limit"
    note e = right_limit_loop.simps [of sp th w stop i count limit]
    show ?thesis
    proof (cases "th \<le> sp ! nat i")
      case True
      show ?thesis
      proof (cases "w div 8 \<le> count + 1")
        case True
        then show ?thesis using \<open>th \<le> sp ! nat i\<close> False r "1.prems" unfolding e by (auto simp: Let_def)
      next
        case False
        show ?thesis using "1.IH"(1) [OF \<open>\<not> i < stop\<close> r True refl False] "1.prems" \<open>\<not> i < stop\<close> r True False
          unfolding e by (auto simp: Let_def)
      qed
    next
      case th: False
      show ?thesis using "1.IH"(2) [OF False r th] "1.prems" False r th unfolding e by auto
    qed
  qed
qed

lemma limits_ok:
  assumes "0 \<le> ll" "ll < lr" "lr < int (length sp)"
  shows "\<exists>l r. limits_3db sp th w ll lr = Some (l, r) \<and> ll \<le> l \<and> l < lr \<and> ll \<le> r \<and> r \<le> lr"
proof -
  obtain c l where l: "left_limit_loop sp th w lr ll 0 ll = Some (c, l)" "c = 0 \<or> 0 < c \<and> ll \<le> l \<and> l < lr"
    using left_limit_ok [of ll lr sp 0 ll ll th w] assms by auto
  obtain d r where r: "right_limit_loop sp th w ll lr 0 lr = Some (d, r)" "d = 0 \<or> 0 < d \<and> ll \<le> r \<and> r \<le> lr"
    using right_limit_ok [of ll lr sp 0 lr lr th w] assms by auto
  show ?thesis using l r assms by (auto simp: limits_3db_def)
qed

lemma top_up_ok:
  assumes "0 \<le> i" "stop < int (length sp)"
  shows "\<exists>k. top_up_loop sp level i stop = Some k \<and> i \<le> k \<and> (k \<le> stop + 1 \<or> k = i)"
  using assms
proof (induction sp level i stop rule: top_up_loop.induct)
  case (1 sp level i stop)
  show ?case
  proof (cases "stop < i")
    case True
    then show ?thesis unfolding top_up_loop.simps [of sp level i stop] by simp
  next
    case False
    have r: "rd sp i = Some (sp ! nat i)" using "1.prems" False by simp
    show ?thesis using "1.IH" [OF False r] "1.prems" False r unfolding top_up_loop.simps [of sp level i stop] by fastforce
  qed
qed

lemma top_down_ok:
  assumes "0 \<le> stop" "i < int (length sp)"
  shows "\<exists>k. top_down_loop sp level i stop = Some k \<and> k \<le> i"
  using assms
proof (induction sp level i stop rule: top_down_loop.induct)
  case (1 sp level i stop)
  show ?case
  proof (cases "i < stop")
    case True
    then show ?thesis unfolding top_down_loop.simps [of sp level i stop] by simp
  next
    case False
    have r: "rd sp i = Some (sp ! nat i)" using "1.prems" False by simp
    show ?thesis using "1.IH" [OF False r] "1.prems" False r unfolding top_down_loop.simps [of sp level i stop] by fastforce
  qed
qed

lemma dip_ok:
  assumes "0 \<le> i" "stop < int (length sp)"
  shows "\<exists>x. dip_loop sp i stop dip = Some x"
  using assms
proof (induction sp i stop dip rule: dip_loop.induct)
  case (1 sp i stop dip)
  show ?case
  proof (cases "stop < i")
    case True
    then show ?thesis unfolding dip_loop.simps [of sp i stop dip] by simp
  next
    case False
    have r: "rd sp i = Some (sp ! nat i)" using "1.prems" False by simp
    show ?thesis using "1.IH" [OF False r] "1.prems" False r unfolding dip_loop.simps [of sp i stop dip] by simp
  qed
qed

lemma mean_ok: "0 \<le> a \<Longrightarrow> a < int (length rs) \<Longrightarrow> 0 \<le> b \<Longrightarrow> b < int (length rs) \<Longrightarrow> \<exists>m. mean_between rs a b = Some m"
  by (simp add: mean_between_def)

lemma edge_delta_pos: "0 < edge_delta per w"
  by (simp add: edge_delta_def Let_def)

text \<open>The arrays of a scan; one level more than the length of the spectrum is readable.\<close>

definition arrays_ok :: "spectrum_scan_state \<Rightarrow> scan_internal \<Rightarrow> bool" where
  "arrays_ok ss si \<longleftrightarrow> 0 < spectrum_len ss \<and> spectrum_len ss < int (length (ss_spectrum ss)) \<and>
     spectrum_len ss \<le> int (length (ss_freq ss)) \<and> int (length (si_rs si)) = spectrum_len ss \<and>
     int (length (si_noise si)) = spectrum_len ss \<and> int (length (peak_marks si)) = spectrum_len ss \<and>
     length (si_peaks si) = max_num_peaks si \<and> num_peaks si \<le> max_num_peaks si"

lemma process_candidate_ok:
  assumes a: "arrays_ok ss si" and e: "0 \<le> rise" "rise < fall" "fall < spectrum_len ss"
  shows "\<exists>p. process_candidate ss si rise fall = Some (si\<lparr>last_peak := p\<rparr>)"
proof -
  let ?n = "spectrum_len ss" and ?sp = "ss_spectrum ss" and ?d = "edge_delta 100 (si_w si)"
  have len: "?n < int (length ?sp)" "?n \<le> int (length (ss_freq ss))" "int (length (si_rs si)) = ?n" "int (length (si_noise si)) = ?n"
    using a by (simp_all add: arrays_ok_def)
  have dp: "0 < ?d" by (rule edge_delta_pos)
  define left where "left = (if rise - ?d < 0 then 0 else rise - ?d)"
  define right where "right = (if ?n < fall + ?d then ?n else fall + ?d)"
  have lb: "0 \<le> left" "left \<le> rise" "fall < right" "right \<le> ?n" using e dp by (auto simp: left_def right_def)
  obtain mean where mean: "mean_between (si_rs si) rise fall = Some mean" using mean_ok [of rise "si_rs si" fall] e len by auto
  obtain x ll where ll: "lowest_loop ?sp left rise (?sp ! nat left, left) = Some (x, ll)" "ll = left \<or> left \<le> ll \<and> ll < rise"
    using lowest_loop_ok [of left rise ?sp "(?sp ! nat left, left)"] lb e len by auto
  obtain y lr where lr: "lowest_loop ?sp (fall + 1) right (?sp ! nat (right - 1), right - 1) = Some (y, lr)"
      "lr = right - 1 \<or> fall + 1 \<le> lr \<and> lr < right"
    using lowest_loop_ok [of "fall + 1" right ?sp "(?sp ! nat (right - 1), right - 1)"] lb e len by auto
  have lim: "0 \<le> ll" "ll < lr" "lr < ?n" "lr < int (length ?sp)" using ll(2) lr(2) lb e len by auto
  obtain l1 r1 where r1: "limits_3db ?sp (s32 (mean - 3000)) (si_w si) ll lr = Some (l1, r1)" "ll \<le> l1" "l1 < lr" "ll \<le> r1" "r1 \<le> lr"
    using limits_ok [OF lim(1,2,4)] by blast
  obtain lt where lt: "top_up_loop ?sp mean l1 r1 = Some lt" "l1 \<le> lt" "lt \<le> r1 + 1 \<or> lt = l1"
    using top_up_ok [of l1 r1 ?sp mean] r1 lim by auto
  obtain rt where rt: "top_down_loop ?sp mean r1 lt = Some rt" "rt \<le> r1"
    using top_down_ok [of lt r1 ?sp mean] r1 lim lt by auto
  have top: "0 \<le> lt" "lt \<le> ?n" "rt < ?n" using lt r1 lim rt by auto
  have "\<exists>m. (if lt < rt then mean_between (si_rs si) lt rt else Some mean) = Some m"
    using mean_ok [of lt "si_rs si" rt] top len by auto
  then obtain m where m: "(if lt < rt then mean_between (si_rs si) lt rt else Some mean) = Some m" ..
  obtain l2 r2 where r2: "limits_3db ?sp (s32 (m - 3000)) (si_w si) ll lr = Some (l2, r2)" "ll \<le> l2" "l2 < lr" "ll \<le> r2" "r2 \<le> lr"
    using limits_ok [OF lim(1,2,4)] by blast
  obtain dip where dip: "dip_loop ?sp lt rt (?sp ! nat lt) = Some dip" using dip_ok [of lt rt ?sp] top len by auto
  have i: "0 \<le> (r2 + l2) div 2" "(r2 + l2) div 2 < ?n" using r2 lim by auto
  have rds: "rd (si_noise si) fall = Some (si_noise si ! nat fall)" "rd (si_noise si) rise = Some (si_noise si ! nat rise)"
    "rd ?sp left = Some (?sp ! nat left)" "rd ?sp (right - 1) = Some (?sp ! nat (right - 1))" "rd ?sp lt = Some (?sp ! nat lt)"
    "rd (ss_freq ss) ((r2 + l2) div 2) = Some (ss_freq ss ! nat ((r2 + l2) div 2))"
    "rd (ss_freq ss) r2 = Some (ss_freq ss ! nat r2)" "rd (ss_freq ss) l2 = Some (ss_freq ss ! nat l2)"
    using e len lb top i r2 lim by (simp_all del: s32_diff)
  show ?thesis unfolding process_candidate_def Let_def left_def [symmetric] right_def [symmetric]
    by (simp only: mean rds Option.bind.simps ll(1) lr(1) r1(1) lt(1) rt(1) m r2(1) dip prod.case) blast
qed

subsection \<open>The table of peaks\<close>

text \<open>
  What a candidate leaves of the table: the peaks it is better than go, up to the first one that
  is better than the candidate.
\<close>

definition survivors :: "spectrum_peak_internal \<Rightarrow> spectrum_peak_internal list \<Rightarrow> spectrum_peak_internal list" where
  "survivors cand olds = filter (\<lambda>q. is_better_than q cand = 0) (takeWhile (\<lambda>q. is_better_than q cand \<le> 0) olds) @
     dropWhile (\<lambda>q. is_better_than q cand \<le> 0) olds"

definition beaten :: "spectrum_peak_internal \<Rightarrow> spectrum_peak_internal list \<Rightarrow> bool" where
  "beaten cand olds \<longleftrightarrow> (\<exists>q \<in> set olds. 0 < is_better_than q cand)"

lemma survivors_simps [simp]:
  "survivors c [] = []"
  "survivors c (q # qs) = (if is_better_than q c = 0 then q # survivors c qs
     else if is_better_than q c < 0 then survivors c qs else q # qs)"
  by (simp_all add: survivors_def)

lemma beaten_simps [simp]: "\<not> beaten c []" "beaten c (q # qs) \<longleftrightarrow> 0 < is_better_than q c \<or> beaten c qs"
  by (simp_all add: beaten_def)

lemma survivors_unbeaten: "\<not> beaten c qs \<Longrightarrow> survivors c qs = filter (\<lambda>q. is_better_than q c = 0) qs"
  by (induction qs) auto

lemma survivors_subseq: "subseq (survivors c qs) qs"
  by (induction qs) auto

lemma check_loop_ok:
  assumes "num \<le> length ps" "i \<le> num"
  shows "\<exists>ps' num'. check_loop cand i ps num = Some (ps', num', if beaten cand (drop i (take num ps)) then - 1 else 0) \<and>
    length ps' = length ps \<and> num' \<le> num \<and> take num' ps' = take i ps @ survivors cand (drop i (take num ps))"
  using assms
proof (induction cand i ps num rule: check_loop.induct)
  case (1 cand i ps num)
  note e = check_loop.simps [of cand i ps num]
  show ?case
  proof (cases "num \<le> i")
    case True
    then show ?thesis using "1.prems" unfolding e by simp
  next
    case False
    let ?q = "ps ! i"
    have m: "mem_at ps i = Some ?q" using "1.prems" False by (simp add: mem_at_def)
    have d: "drop i (take num ps) = ?q # drop (i + 1) (take num ps)"
      using "1.prems" False by (simp add: Cons_nth_drop_Suc [symmetric])
    consider "is_better_than ?q cand = 0" | "0 < is_better_than ?q cand" | "is_better_than ?q cand < 0" by linarith
    then show ?thesis
    proof cases
      assume z: "is_better_than ?q cand = 0"
      have t: "take (i + 1) ps = take i ps @ [?q]" using "1.prems" False by (simp add: take_Suc_conv_app_nth)
      show ?thesis using "1.IH"(1) [OF False m refl z] "1.prems" False m z d t unfolding e by (auto simp: Let_def)
    next
      assume p: "0 < is_better_than ?q cand"
      have "take num ps = take i ps @ drop i (take num ps)" using "1.prems" by (metis append_take_drop_id min.absorb1 take_take)
      then show ?thesis using False m p d "1.prems" unfolding e by (auto simp: Let_def)
    next
      assume n: "is_better_than ?q cand < 0"
      let ?mv = "take (num - i - 1) (drop (i + 1) ps)"
      let ?p1 = "take i ps @ ?mv @ drop (num - 1) ps"
      have mv: "memread ps (i + 1) (num - i - 1) = Some ?mv" using "1.prems" False by (simp add: memread_def)
      have mc: "memcpy ps i ?mv = Some ?p1" using "1.prems" False by (simp add: memcpy_def)
      have l: "length ?p1 = length ps" using "1.prems" False by simp
      have k: "take i ?p1 = take i ps" using "1.prems" False by simp
      have s: "drop i (take (num - 1) ?p1) = drop (i + 1) (take num ps)"
        using "1.prems" False by (simp add: drop_take)
      have n0: "is_better_than ?q cand \<noteq> 0" "\<not> 0 < is_better_than ?q cand" using n by simp_all
      have pre: "num - 1 \<le> length ?p1" "i \<le> num - 1" using "1.prems" False l by linarith+
      obtain ps' num' where
        r: "check_loop cand i ?p1 (num - 1) = Some (ps', num', if beaten cand (drop i (take (num - 1) ?p1)) then - 1 else 0)"
          "length ps' = length ?p1" "num' \<le> num - 1" "take num' ps' = take i ?p1 @ survivors cand (drop i (take (num - 1) ?p1))"
        using "1.IH"(2) [OF False m refl n0 mv mc pre] by blast
      have "check_loop cand i ps num = check_loop cand i ?p1 (num - 1)"
        using False m n mv mc unfolding e by (simp add: Let_def)
      then show ?thesis using r n unfolding s k l d by auto
    qed
  qed
qed

lemma check_candidate_ok:
  assumes "num_peaks si \<le> length (si_peaks si)"
  shows "\<exists>si' r. check_candidate_tp ss si = Some (si', r) \<and> same_level si si' \<and> last_peak si' = last_peak si \<and>
    length (si_peaks si') = length (si_peaks si) \<and> num_peaks si' \<le> num_peaks si \<and>
    subseq (take (num_peaks si') (si_peaks si')) (take (num_peaks si) (si_peaks si)) \<and>
    (0 \<le> r \<longrightarrow> threshold2 ss \<le> mean_snr (last_peak si) \<and> threshold ss < dip_snr (last_peak si) \<and>
      take (num_peaks si') (si_peaks si') = filter (\<lambda>q. is_better_than q (last_peak si) = 0) (take (num_peaks si) (si_peaks si)))"
proof (cases "mean_snr (last_peak si) < threshold2 ss \<or> dip_snr (last_peak si) \<le> threshold ss")
  case True
  then show ?thesis by (auto simp: check_candidate_tp_def Let_def)
next
  case False
  let ?c = "last_peak si" and ?t = "take (num_peaks si) (si_peaks si)"
  obtain ps num where r: "check_loop ?c 0 (si_peaks si) (num_peaks si) = Some (ps, num, if beaten ?c ?t then - 1 else 0)"
      "length ps = length (si_peaks si)" "num \<le> num_peaks si" "take num ps = survivors ?c ?t"
    using check_loop_ok [OF assms, of 0 ?c] by auto
  have "check_candidate_tp ss si = Some (si\<lparr>si_peaks := ps, num_peaks := num\<rparr>, if beaten ?c ?t then - 1 else 0)"
    using False r(1) by (simp add: check_candidate_tp_def Let_def)
  then show ?thesis using False r(2-4) survivors_subseq [of ?c ?t] survivors_unbeaten [of ?c ?t] by (auto simp: same_level_def)
qed

text \<open>A table without conflicts, of peaks that are above the thresholds.\<close>

definition table_ok :: "spectrum_scan_state \<Rightarrow> spectrum_peak_internal list \<Rightarrow> bool" where
  "table_ok ss ps \<longleftrightarrow> sorted_wrt (\<lambda>p q. is_better_than p q = 0) ps \<and>
     (\<forall>p \<in> set ps. threshold2 ss \<le> mean_snr p \<and> threshold ss < dip_snr p)"

lemma subseq_setD: "subseq xs ys \<Longrightarrow> x \<in> set xs \<Longrightarrow> x \<in> set ys"
  by (induction xs ys rule: list_emb.induct) auto

lemma sorted_wrt_subseq: "subseq xs ys \<Longrightarrow> sorted_wrt P ys \<Longrightarrow> sorted_wrt P xs"
  by (induction xs ys rule: list_emb.induct) (auto dest: subseq_setD)

lemma table_ok_subseq: "subseq xs ys \<Longrightarrow> table_ok ss ys \<Longrightarrow> table_ok ss xs"
  by (simp add: table_ok_def sorted_wrt_subseq subseq_setD)

lemma table_ok_add:
  assumes "table_ok ss ps" "threshold2 ss \<le> mean_snr c" "threshold ss < dip_snr c"
  shows "table_ok ss (filter (\<lambda>q. is_better_than q c = 0) ps @ [c])"
  using assms table_ok_subseq [OF subseq_filter_left assms(1)] by (auto simp: table_ok_def sorted_wrt_append)

definition scan_ok :: "spectrum_scan_state \<Rightarrow> scan_internal \<Rightarrow> bool" where
  "scan_ok ss si \<longleftrightarrow> num_peaks si \<le> length (si_peaks si) \<and> table_ok ss (take (num_peaks si) (si_peaks si))"

text \<open>A pair of edges keeps the table free of conflicts.\<close>

lemma try_pair_table:
  assumes ok: "scan_ok ss si" and t: "try_pair ss rise fall si = Some (si', full)"
  shows "scan_ok ss si'"
proof -
  obtain si1 si2 r where s: "process_candidate ss si rise fall = Some si1" "check_candidate_tp ss si1 = Some (si2, r)"
    using t by (auto simp: try_pair_def split: bind_splits)
  have eq: "si_peaks si1 = si_peaks si" "num_peaks si1 = num_peaks si" using process_same [OF s(1)] by simp_all
  have le: "num_peaks si1 \<le> length (si_peaks si1)" using ok eq by (simp add: scan_ok_def)
  note c = check_candidate_ok [OF le, of ss, unfolded s(2)]
  let ?t = "take (num_peaks si) (si_peaks si)" and ?t2 = "take (num_peaks si2) (si_peaks si2)"
  have c2: "length (si_peaks si2) = length (si_peaks si)" "num_peaks si2 \<le> num_peaks si" "subseq ?t2 ?t" "last_peak si2 = last_peak si1"
    "0 \<le> r \<Longrightarrow> threshold2 ss \<le> mean_snr (last_peak si1) \<and> threshold ss < dip_snr (last_peak si1) \<and>
       ?t2 = filter (\<lambda>q. is_better_than q (last_peak si1) = 0) ?t"
    using c eq by auto
  have le2: "num_peaks si2 \<le> length (si_peaks si2)" using c2(1,2) ok by (simp add: scan_ok_def)
  show ?thesis
  proof (cases "0 \<le> r")
    case False
    then have "si' = si2" using t s by (simp add: try_pair_def)
    then show ?thesis using le2 table_ok_subseq [OF c2(3)] ok by (simp add: scan_ok_def)
  next
    case True
    then obtain ps where ps: "wr (si_peaks si2) (int (num_peaks si2)) (last_peak si2) = Some ps"
      "si' = si2\<lparr>si_peaks := ps, num_peaks := num_peaks si2 + 1\<rparr>"
      using t s by (auto simp: try_pair_def split: bind_splits)
    have p: "num_peaks si2 < length (si_peaks si2)" "ps = (si_peaks si2)[num_peaks si2 := last_peak si2]"
      using wr_SomeD [OF ps(1)] by simp_all
    have "take (num_peaks si2 + 1) ps = ?t2 @ [last_peak si1]" using p c2(4) by (simp add: take_Suc_conv_app_nth)
    then show ?thesis using c2(5) [OF True] table_ok_add [of ss ?t "last_peak si1"] ok p ps(2) by (simp add: scan_ok_def)
  qed
qed

lemma fall_loop_inv:
  assumes "fall_loop ss fall si = Some (si', full)" "I si"
    "\<And>k l a b c. I a \<Longrightarrow> try_pair ss k l a = Some (b, c) \<Longrightarrow> I b"
  shows "I si'"
  using assms
proof (induction ss fall si rule: fall_loop.induct)
  case (1 ss fall si)
  note e = fall_loop.simps [of ss fall si]
  show ?case
  proof (cases "fall < end_idx si \<and> 0 \<le> fall")
    case False
    then show ?thesis using "1.prems"(1,2) unfolding e by (simp only: if_False option.inject prod.inject)
  next
    case True
    define l where "l = fall - si_w si * 150 div 100"
    define ll where "ll = (if l < start_idx si then start_idx si else l)"
    obtain rise si1 f1 where s: "find_rising (peak_marks si) ll (fall - si_w si) = Some rise"
        "rise_loop ss fall ll rise si = Some (si1, f1)"
      using "1.prems"(1) True unfolding e Let_def l_def [symmetric] ll_def [symmetric] by (auto split: bind_splits)
    have i1: "I si1" by (rule rise_loop_inv [where I = I, OF s(2) "1.prems"(2)]) (rule "1.prems"(3))
    show ?thesis
    proof (cases f1)
      case True
      then show ?thesis using "1.prems"(1) \<open>fall < end_idx si \<and> 0 \<le> fall\<close> s i1
        unfolding e Let_def l_def [symmetric] ll_def [symmetric] by simp
    next
      case False
      obtain nf where nf: "find_falling (peak_marks si1) (fall + 1) (end_idx si1) = Some nf" "fall_loop ss nf si1 = Some (si', full)"
        using "1.prems"(1) \<open>fall < end_idx si \<and> 0 \<le> fall\<close> s False
        unfolding e Let_def l_def [symmetric] ll_def [symmetric] by (auto split: bind_splits)
      show ?thesis by (rule "1.IH" [OF \<open>fall < end_idx si \<and> 0 \<le> fall\<close> l_def ll_def s refl False nf i1]) (rule "1.prems"(3))
    qed
  qed
qed

lemma kernel_table:
  "falling_kernel ss si = Some si' \<Longrightarrow> scan_ok ss si' = scan_ok ss si"
  "rising_kernel ss si = Some si' \<Longrightarrow> scan_ok ss si' = scan_ok ss si"
  "spectral_init_level ss si = Some si' \<Longrightarrow> scan_ok ss si' = scan_ok ss si"
  by (auto simp: spectral_init_level_def falling_kernel_def rising_kernel_def scan_ok_def Let_def split: bind_splits)

lemma scan_level_table:
  assumes "scan_ok ss si" "scan_level ss si w = Some (si', r)"
  shows "scan_ok ss si'"
proof -
  have w: "scan_ok ss (si\<lparr>si_w := w\<rparr>)" using assms(1) by (simp add: scan_ok_def)
  obtain si1 fall full where s: "spectral_init_level ss (si\<lparr>si_w := w\<rparr>) = Some si1" "fall_loop ss fall si1 = Some (si', full)"
    using assms(2) by (auto simp: scan_level_def split: bind_splits)
  show ?thesis by (rule fall_loop_inv [where I = "scan_ok ss", OF s(2)]) (use w kernel_table(3) [OF s(1)] try_pair_table in blast)+
qed

lemma scan_windows_table: "scan_ok ss si \<Longrightarrow> scan_windows ss ws si = Some si' \<Longrightarrow> scan_ok ss si'"
  by (induction ws arbitrary: si) (auto split: bind_splits dest: scan_level_table)

subsection \<open>The marks of edges\<close>

definition has_flag :: "byte \<Rightarrow> byte list \<Rightarrow> int \<Rightarrow> bool" where
  "has_flag flag marks k \<longleftrightarrow> 0 \<le> k \<and> k < int (length marks) \<and> marks ! nat k AND flag \<noteq> 0"

text \<open>
  The marks while a kernel runs, \<open>s\<close> being 1 for the kernel that goes up and -1 for the one that goes
  down: marks are behind the frontier, have a property, are a quarter of a window apart, and the
  current best one is the last.
\<close>

definition marks_ok :: "int \<Rightarrow> byte \<Rightarrow> int \<Rightarrow> (int \<Rightarrow> bool) \<Rightarrow> int \<Rightarrow> int \<Rightarrow> marker \<Rightarrow> bool" where
  "marks_ok s flag w good n front mk \<longleftrightarrow> (case mk of (marks, besti, best) \<Rightarrow>
     int (length marks) = n \<and>
     (\<forall>k. has_flag flag marks k \<longrightarrow> good k \<and> s * k < front) \<and>
     (\<forall>k l. has_flag flag marks k \<and> has_flag flag marks l \<and> k \<noteq> l \<longrightarrow> w div 4 \<le> \<bar>k - l\<bar>) \<and>
     (if besti = - 1 then \<forall>k. \<not> has_flag flag marks k
      else has_flag flag marks besti \<and> (\<forall>k. has_flag flag marks k \<longrightarrow> s * k \<le> s * besti)))"

lemma flag_bits:
  fixes m f g :: byte
  shows "(m AND NOT f) AND f = 0" "(m OR f) AND f = f" "f AND g = 0 \<Longrightarrow> (m OR f) AND g = m AND g"
    "f AND g = 0 \<Longrightarrow> (m AND NOT f) AND g = m AND g"
  by (auto intro!: bit_eqI simp: bit_simps bit_eq_iff)

lemma has_flag_upd:
  assumes "0 \<le> i" "i < int (length marks)"
  shows "has_flag f (marks[nat i := x]) k \<longleftrightarrow> (if k = i then x AND f \<noteq> 0 else has_flag f marks k)"
  using assms by (auto simp: has_flag_def nth_list_update nat_eq_iff)

definition keeps_flag :: "byte \<Rightarrow> byte list \<Rightarrow> byte list \<Rightarrow> bool" where
  "keeps_flag g marks marks' \<longleftrightarrow> length marks' = length marks \<and> (\<forall>k. has_flag g marks' k = has_flag g marks k)"

lemma keeps_upd:
  assumes "0 \<le> i" "i < int (length marks)" "x AND g = marks ! nat i AND g"
  shows "keeps_flag g marks (marks[nat i := x])"
  using assms has_flag_upd [OF assms(1,2)] by (auto simp: keeps_flag_def has_flag_def)

lemma keeps_trans: "keeps_flag g a b \<Longrightarrow> keeps_flag g b c \<Longrightarrow> keeps_flag g a c"
  by (simp add: keeps_flag_def)

text \<open>The step that removes a mark that is not the best of its group any more.\<close>

lemma mark_edge_ok:
  assumes inv: "marks_ok s flag w good n front mk" and s: "s = 1 \<or> s = - 1" and i: "0 \<le> i" "i < n" "front \<le> s * i" "good i"
    and fl: "flag \<noteq> 0" "flag AND other = 0"
  shows "\<exists>mk'. mark_edge flag w (s * i - s * fst (snd mk)) i response mk = Some mk' \<and> marks_ok s flag w good n (s * i + 1) mk' \<and>
    keeps_flag other (fst mk) (fst mk')"
proof -
  obtain marks besti best where mk: "mk = (marks, besti, best)" by (cases mk)
  have len: "int (length marks) = n" and good: "\<And>k. has_flag flag marks k \<Longrightarrow> good k \<and> s * k < front"
    and apart: "\<And>k l. has_flag flag marks k \<Longrightarrow> has_flag flag marks l \<Longrightarrow> k \<noteq> l \<Longrightarrow> w div 4 \<le> \<bar>k - l\<bar>"
    and none: "besti = - 1 \<Longrightarrow> \<not> has_flag flag marks k" for k
    using inv unfolding mk marks_ok_def by (auto split: if_splits)
  have last: "besti \<noteq> - 1 \<Longrightarrow> has_flag flag marks besti \<and> (\<forall>k. has_flag flag marks k \<longrightarrow> s * k \<le> s * besti)"
    using inv unfolding mk marks_ok_def by (auto split: if_splits)
  have pos: "besti \<noteq> - 1 \<Longrightarrow> 0 \<le> besti \<and> besti < n" using last len by (auto simp: has_flag_def)
  have before: "has_flag flag marks k \<Longrightarrow> s * k < s * i" for k using good i(3) by fastforce
  let ?far = "0 \<le> besti \<and> w div 4 \<le> s * i - s * besti"
  let ?b1 = "if ?far then - 1 else besti"
  text \<open>Adding the mark to marks that are all far enough.\<close>
  have add: "marks_ok s flag w good n (s * i + 1) (ms[nat i := x], i, response)"
    if ms: "int (length ms) = n" "\<And>k. has_flag flag ms k \<Longrightarrow> has_flag flag marks k \<and> w div 4 \<le> \<bar>k - i\<bar>" and x: "x AND flag \<noteq> 0" for ms x
  proof -
    have f: "has_flag flag (ms[nat i := x]) k \<longleftrightarrow> k = i \<or> has_flag flag ms k" for k
      using has_flag_upd [of i ms flag x k] i ms(1) x by auto
    have "w div 4 \<le> \<bar>k - l\<bar>" if "k = i \<or> has_flag flag ms k" "l = i \<or> has_flag flag ms l" "k \<noteq> l" for k l
      using that ms(2) apart [of k l] abs_minus_commute [of i] by metis
    moreover have "good k \<and> s * k < s * i + 1" if "k = i \<or> has_flag flag ms k" for k
      using that ms(2) good before i(4) by (metis add_strict_increasing less_add_one not_le order.strict_trans order_less_le zero_less_one zless_add1_eq)
    moreover have "s * k \<le> s * i" if "k = i \<or> has_flag flag ms k" for k
      using that ms(2) before by (metis order_less_imp_le order_refl)
    ultimately show ?thesis using i(1) f ms(1) unfolding marks_ok_def by auto
  qed
  have marked: "(m OR flag) AND flag \<noteq> 0" for m :: byte using fl(1) by (simp only: flag_bits) simp
  consider (new) "?b1 = - 1" | (swap) "?b1 \<noteq> - 1" "best \<le> response" | (skip) "?b1 \<noteq> - 1" "response < best" by linarith
  then show ?thesis
  proof cases
    case new
    have far: "w div 4 \<le> \<bar>k - i\<bar>" if k: "has_flag flag marks k" for k
    proof -
      have "besti \<noteq> - 1" using none k by blast
      then have "w div 4 \<le> s * i - s * besti" using new by (auto split: if_splits)
      then show ?thesis using last [OF \<open>besti \<noteq> - 1\<close>] k s by auto
    qed
    let ?m = "marks[nat i := (marks ! nat i) OR flag]"
    have "mark_edge flag w (s * i - s * besti) i response mk = Some (?m, i, response)"
      using new i(1,2) len unfolding mk mark_edge_def Let_def prod.case by simp
    moreover have "marks_ok s flag w good n (s * i + 1) (?m, i, response)" using add [of marks] len far marked by blast
    moreover have "keeps_flag other marks ?m" using keeps_upd [of i marks] i len flag_bits(3) [OF fl(2)] by simp
    ultimately show ?thesis unfolding mk by simp
  next
    case swap
    then have nf: "\<not> ?far" and bp: "0 \<le> besti" "besti < n" and bi: "besti \<noteq> - 1" using pos by (auto split: if_splits)
    let ?m1 = "marks[nat besti := (marks ! nat besti) AND NOT flag]"
    let ?m = "?m1[nat i := (?m1 ! nat i) OR flag]"
    have gone: "has_flag flag ?m1 k \<longleftrightarrow> k \<noteq> besti \<and> has_flag flag marks k" for k
      using has_flag_upd [of besti marks flag _ k] bp len flag_bits(1) by simp
    have far: "w div 4 \<le> \<bar>k - i\<bar>" if k: "has_flag flag ?m1 k" for k
    proof -
      have k1: "k \<noteq> besti" "has_flag flag marks k" using k gone by auto
      have "w div 4 \<le> \<bar>k - besti\<bar>" using apart [OF k1(2)] last [OF bi] k1(1) by blast
      moreover have "s * k \<le> s * besti" "s * besti < s * i" using last [OF bi] k1(2) before by blast+
      ultimately show ?thesis using s by auto
    qed
    have "mark_edge flag w (s * i - s * besti) i response mk = Some (?m, i, response)"
      using swap nf bp i(1,2) len unfolding mk mark_edge_def Let_def prod.case by simp
    moreover have "marks_ok s flag w good n (s * i + 1) (?m, i, response)" using add [of ?m1] len far gone marked by simp
    moreover have "keeps_flag other marks ?m"
      by (rule keeps_trans [of other marks ?m1]; rule keeps_upd) (use i bp len flag_bits(3,4) [OF fl(2)] in simp_all)
    ultimately show ?thesis unfolding mk by simp
  next
    case skip
    then have "mark_edge flag w (s * i - s * besti) i response mk = Some mk"
      using pos unfolding mk mark_edge_def Let_def prod.case by (auto split: if_splits)
    moreover have "marks_ok s flag w good n (s * i + 1) mk"
      using inv before i(3) unfolding mk marks_ok_def by (fastforce split: if_splits)
    ultimately show ?thesis unfolding mk by (simp add: keeps_flag_def)
  qed
qed

end
