(* ===== verification/ScanProps.thy ===== *)
theory ScanProps
  imports ScanParts
begin

text \<open>
  A level of the scan: the edges it finds, the accesses to the arrays, and the table of peaks;
  then all levels, and what goes wrong.
\<close>

lemma marks_ok_mono: "marks_ok s flag w good n front mk \<Longrightarrow> front \<le> front' \<Longrightarrow> marks_ok s flag w good n front' mk"
  by (cases mk) (fastforce simp: marks_ok_def)

lemma marks_ok_start: "int (length marks) = n \<Longrightarrow> (\<And>k. \<not> has_flag flag marks k) \<Longrightarrow> marks_ok s flag w good n front (marks, - 1, 0)"
  by (simp add: marks_ok_def)

lemma keeps_refl [simp]: "keeps_flag g a a"
  by (simp add: keeps_flag_def)

text \<open>A falling edge: the mean of the window on its left is above the level on its right.\<close>

definition falls :: "spectrum_scan_state \<Rightarrow> scan_internal \<Rightarrow> int \<Rightarrow> bool" where
  "falls ss si i \<longleftrightarrow> (case falling_response ss si (edge_delta 200 (si_w si)) i of None \<Rightarrow> False | Some r \<Rightarrow> threshold ss < r)"

definition rises :: "spectrum_scan_state \<Rightarrow> scan_internal \<Rightarrow> int \<Rightarrow> bool" where
  "rises ss si i \<longleftrightarrow> (case rising_response ss si (edge_delta 200 (si_w si)) i of None \<Rightarrow> False | Some r \<Rightarrow> threshold ss < r)"

lemma falling_loop_ok:
  assumes "int (length (si_rs si)) = n" "n \<le> int (length (ss_spectrum ss))" "0 < delta" "0 < si_w si"
    "i + delta < n" "marks_ok (- 1) FALLING (si_w si) good n (- i) mk"
    "\<And>k r. falling_response ss si delta k = Some r \<Longrightarrow> threshold ss < r \<Longrightarrow> good k"
  shows "\<exists>mk' front. falling_loop ss si delta i mk = Some mk' \<and> marks_ok (- 1) FALLING (si_w si) good n front mk' \<and>
    keeps_flag RISING (fst mk) (fst mk')"
  using assms
proof (induction ss si delta i mk rule: falling_loop.induct)
  case (1 ss si delta i mk)
  note e = falling_loop.simps [of ss si delta i mk]
  show ?case
  proof (cases "i < si_w si")
    case True
    then show ?thesis using "1.prems"(6) unfolding e by auto
  next
    case False
    then have i: "0 \<le> i" "i < n" "0 \<le> i - si_w si" using "1.prems"(3-5) by linarith+
    have "rd (si_rs si) i \<noteq> None" "rd (si_rs si) (i - si_w si) \<noteq> None" "rd (ss_spectrum ss) (i + delta) \<noteq> None"
      using i "1.prems"(1-5) by simp_all
    then obtain r where r: "falling_response ss si delta i = Some r" by (auto simp: falling_response_def)
    obtain mk1 where m: "(if threshold ss < r then mark_edge FALLING (si_w si) (fst (snd mk) - i) i r mk else Some mk) = Some mk1"
      "marks_ok (- 1) FALLING (si_w si) good n (- (i - 1)) mk1" "keeps_flag RISING (fst mk) (fst mk1)"
    proof (cases "threshold ss < r")
      case False
      then show ?thesis using that [of mk] marks_ok_mono [OF "1.prems"(6), of "- (i - 1)"] by simp
    next
      case True
      have d: "- 1 * i - - 1 * fst (snd mk) = fst (snd mk) - i" by simp
      have fl: "(FALLING :: byte) \<noteq> 0" "(FALLING :: byte) AND RISING = 0" by simp_all
      have fr: "- i \<le> - 1 * i" by simp
      from mark_edge_ok [OF "1.prems"(6) _ i(1,2) fr "1.prems"(7) [OF r True] fl, of r] obtain mk1 where
        "mark_edge FALLING (si_w si) (fst (snd mk) - i) i r mk = Some mk1"
        "marks_ok (- 1) FALLING (si_w si) good n (- 1 * i + 1) mk1" "keeps_flag RISING (fst mk) (fst mk1)"
        unfolding d by blast
      then show ?thesis using that [of mk1] True by simp
    qed
    have step: "falling_loop ss si delta i mk = falling_loop ss si delta (i - 1) mk1"
      unfolding e by (simp only: if_not_P [OF False] r m(1) Option.bind.bind_lunit)
    have pre: "i - 1 + delta < n" using "1.prems"(5) by linarith
    have "\<exists>mk' front. falling_loop ss si delta (i - 1) mk1 = Some mk' \<and> marks_ok (- 1) FALLING (si_w si) good n front mk' \<and>
        keeps_flag RISING (fst mk1) (fst mk')"
      by (rule "1.IH" [OF False r m(1) "1.prems"(1-4) pre m(2)]) (rule "1.prems"(7))
    then show ?thesis using step keeps_trans [OF m(3)] by auto
  qed
qed

lemma rising_loop_ok:
  assumes "int (length (si_rs si)) = n" "spectrum_len ss = n" "n \<le> int (length (ss_spectrum ss))" "0 < delta" "0 < si_w si"
    "delta \<le> i" "marks_ok 1 RISING (si_w si) good n i mk"
    "\<And>k r. rising_response ss si delta k = Some r \<Longrightarrow> threshold ss < r \<Longrightarrow> good k"
  shows "\<exists>mk' front. rising_loop ss si delta i mk = Some mk' \<and> marks_ok 1 RISING (si_w si) good n front mk' \<and>
    keeps_flag FALLING (fst mk) (fst mk')"
  using assms
proof (induction ss si delta i mk rule: rising_loop.induct)
  case (1 ss si delta i mk)
  note e = rising_loop.simps [of ss si delta i mk]
  show ?case
  proof (cases "spectrum_len ss - si_w si - 1 < i")
    case True
    then show ?thesis using "1.prems"(7) unfolding e by auto
  next
    case False
    then have i: "0 \<le> i" "i < n" "0 \<le> i - delta" "i + si_w si < n" using "1.prems"(2,4-6) by linarith+
    have "rd (si_rs si) i \<noteq> None" "rd (si_rs si) (i + si_w si) \<noteq> None" "rd (ss_spectrum ss) (i - delta) \<noteq> None"
      using i "1.prems"(1-6) by simp_all
    then obtain r where r: "rising_response ss si delta i = Some r" by (auto simp: rising_response_def)
    obtain mk1 where m: "(if threshold ss < r then mark_edge RISING (si_w si) (i - fst (snd mk)) i r mk else Some mk) = Some mk1"
      "marks_ok 1 RISING (si_w si) good n (i + 1) mk1" "keeps_flag FALLING (fst mk) (fst mk1)"
    proof (cases "threshold ss < r")
      case False
      then show ?thesis using that [of mk] marks_ok_mono [OF "1.prems"(7), of "i + 1"] by simp
    next
      case True
      have d: "1 * i - 1 * fst (snd mk) = i - fst (snd mk)" by simp
      have fl: "(RISING :: byte) \<noteq> 0" "(RISING :: byte) AND FALLING = 0" by simp_all
      have fr: "i \<le> 1 * i" by simp
      from mark_edge_ok [OF "1.prems"(7) _ i(1,2) fr "1.prems"(8) [OF r True] fl, of r] obtain mk1 where
        "mark_edge RISING (si_w si) (i - fst (snd mk)) i r mk = Some mk1"
        "marks_ok 1 RISING (si_w si) good n (1 * i + 1) mk1" "keeps_flag FALLING (fst mk) (fst mk1)"
        unfolding d by blast
      then show ?thesis using that [of mk1] True by simp
    qed
    have step: "rising_loop ss si delta i mk = rising_loop ss si delta (i + 1) mk1"
      unfolding e by (simp only: if_not_P [OF False] r m(1) Option.bind.bind_lunit)
    have pre: "delta \<le> i + 1" using "1.prems"(6) by linarith
    have "\<exists>mk' front. rising_loop ss si delta (i + 1) mk1 = Some mk' \<and> marks_ok 1 RISING (si_w si) good n front mk' \<and>
        keeps_flag FALLING (fst mk1) (fst mk')"
      by (rule "1.IH" [OF False r m(1) "1.prems"(1-5) pre m(2)]) (rule "1.prems"(8))
    then show ?thesis using step keeps_trans [OF m(3)] by auto
  qed
qed

text \<open>Edges of a level: where the response is above the threshold, and those of a kind a quarter of a window apart.\<close>

definition edges_ok :: "byte \<Rightarrow> int \<Rightarrow> (int \<Rightarrow> bool) \<Rightarrow> byte list \<Rightarrow> bool" where
  "edges_ok flag w good marks \<longleftrightarrow> (\<forall>k. has_flag flag marks k \<longrightarrow> good k) \<and>
     (\<forall>k l. has_flag flag marks k \<and> has_flag flag marks l \<and> k \<noteq> l \<longrightarrow> w div 4 \<le> \<bar>k - l\<bar>)"

lemma marks_edges: "marks_ok s flag w good n front mk \<Longrightarrow> edges_ok flag w good (fst mk) \<and> int (length (fst mk)) = n"
  by (cases mk) (auto simp: marks_ok_def edges_ok_def)

lemma init_level_ok:
  assumes a: "arrays_ok ss si" and w: "0 < si_w si"
  shows "\<exists>marks. spectral_init_level ss si = Some (si\<lparr>start_idx := (if si_w si * 16 div 200 = 0 then 1 else si_w si * 16 div 200),
      end_idx := (if si_w si * 16 div 200 = 0 then spectrum_len ss - 1 else spectrum_len ss - si_w si * 16 div 200),
      last_peak := (last_peak si)\<lparr>pk_idx := - 1\<rparr>, peak_marks := marks\<rparr>) \<and> int (length marks) = spectrum_len ss \<and>
    edges_ok FALLING (si_w si) (falls ss si) marks \<and> edges_ok RISING (si_w si) (rises ss si) marks"
proof -
  let ?n = "spectrum_len ss" and ?d = "edge_delta 200 (si_w si)"
  have len: "int (length (si_rs si)) = ?n" "?n \<le> int (length (ss_spectrum ss))" "int (length (peak_marks si)) = ?n" "0 < ?n"
    using a by (simp_all add: arrays_ok_def)
  define st where "st = (if si_w si * 16 div 200 = 0 then 1 else si_w si * 16 div 200)"
  define en where "en = (if si_w si * 16 div 200 = 0 then ?n - 1 else ?n - si_w si * 16 div 200)"
  let ?z = "replicate (nat ?n) (0 :: byte)"
  have z: "memcpy (peak_marks si) 0 ?z = Some ?z" using len by (simp add: memcpy_def)
  have zf: "\<not> has_flag f ?z k" for f k by (simp add: has_flag_def)
  let ?s = "si\<lparr>start_idx := st, end_idx := en, last_peak := (last_peak si)\<lparr>pk_idx := - 1\<rparr>, peak_marks := ?z\<rparr>"
  have same: "falling_response ss ?s ?d k = falling_response ss si ?d k" for k by (simp add: falling_response_def)
  obtain mk1 f1 where m1: "falling_loop ss ?s ?d (?n - ?d - 1) (?z, - 1, 0) = Some mk1" "marks_ok (- 1) FALLING (si_w si) (falls ss si) ?n f1 mk1"
    "keeps_flag RISING ?z (fst mk1)"
    using falling_loop_ok [of ?s ?n ss ?d "?n - ?d - 1" "falls ss si" "(?z, - 1, 0)"] len w edge_delta_pos [of 200 "si_w si"]
      marks_ok_start [of ?z ?n FALLING "- 1" "si_w si" "falls ss si"] zf same by (auto simp: falls_def)
  let ?s1 = "?s\<lparr>peak_marks := fst mk1\<rparr>"
  have k1: "falling_kernel ss ?s = Some ?s1" using m1(1) by (simp add: falling_kernel_def Let_def split_def)
  have l1: "int (length (fst mk1)) = ?n" using marks_edges [OF m1(2)] by simp
  have rf: "\<not> has_flag RISING (fst mk1) k" for k using m1(3) zf by (simp add: keeps_flag_def)
  have same2: "rising_response ss ?s1 ?d k = rising_response ss si ?d k" for k by (simp add: rising_response_def)
  obtain mk2 f2 where m2: "rising_loop ss ?s1 ?d ?d (fst mk1, - 1, 0) = Some mk2" "marks_ok 1 RISING (si_w si) (rises ss si) ?n f2 mk2"
    "keeps_flag FALLING (fst mk1) (fst mk2)"
    using rising_loop_ok [of ?s1 ?n ss ?d ?d "rises ss si" "(fst mk1, - 1, 0)"] len w edge_delta_pos [of 200 "si_w si"]
      marks_ok_start [of "fst mk1" ?n RISING 1 "si_w si" "rises ss si"] l1 rf same2 by (auto simp: rises_def)
  have k2: "rising_kernel ss ?s1 = Some (?s1\<lparr>peak_marks := fst mk2\<rparr>)" using m2(1) by (simp add: rising_kernel_def Let_def split_def)
  have en1: "(if ?n - si_w si * 16 div 200 = ?n then ?n - si_w si * 16 div 200 - 1 else ?n - si_w si * 16 div 200) = en"
    by (simp add: en_def)
  have st1: "(if si_w si * 16 div 200 = 0 then si_w si * 16 div 200 + 1 else si_w si * 16 div 200) = st" by (simp add: st_def)
  have "spectral_init_level ss si = Some (?s1\<lparr>peak_marks := fst mk2\<rparr>)"
    unfolding spectral_init_level_def Let_def z Option.bind.bind_lunit en1 st1 k1 k2 ..
  moreover have "edges_ok FALLING (si_w si) (falls ss si) (fst mk2)"
    using marks_edges [OF m1(2)] m2(3) by (simp add: edges_ok_def keeps_flag_def)
  ultimately show ?thesis using marks_edges [OF m2(2)] unfolding st_def en_def by auto
qed

subsection \<open>A level\<close>

text \<open>The arrays are in order, the table has no conflicts and, before a level, room for a peak.\<close>

definition level_ok :: "spectrum_scan_state \<Rightarrow> scan_internal \<Rightarrow> bool" where
  "level_ok ss si \<longleftrightarrow> arrays_ok ss si \<and> scan_ok ss si"

lemma level_ok_same:
  assumes "level_ok ss si" "same_level si si'" "scan_ok ss si'" "length (si_peaks si') = length (si_peaks si)"
    "num_peaks si' \<le> max_num_peaks si'"
  shows "level_ok ss si'"
  using assms by (simp add: level_ok_def arrays_ok_def same_level_def)

lemma try_pair_ok:
  assumes ok: "level_ok ss si" and room: "num_peaks si < max_num_peaks si" and e: "0 \<le> rise" "rise < fall" "fall < spectrum_len ss"
  shows "\<exists>si' full. try_pair ss rise fall si = Some (si', full) \<and> level_ok ss si' \<and> same_level si si' \<and>
    (if full then num_peaks si' = max_num_peaks si' else num_peaks si' < max_num_peaks si')"
proof -
  have a: "arrays_ok ss si" "scan_ok ss si" using ok by (simp_all add: level_ok_def)
  obtain p where p: "process_candidate ss si rise fall = Some (si\<lparr>last_peak := p\<rparr>)" using process_candidate_ok [OF a(1) e] by blast
  let ?s = "si\<lparr>last_peak := p\<rparr>"
  have "num_peaks ?s \<le> length (si_peaks ?s)" using a(1) by (simp add: arrays_ok_def)
  then obtain s2 r where c: "check_candidate_tp ss ?s = Some (s2, r)" "same_level ?s s2" "length (si_peaks s2) = length (si_peaks si)"
    "num_peaks s2 \<le> num_peaks si"
    using check_candidate_ok [of ?s ss] by auto
  have mx: "max_num_peaks s2 = max_num_peaks si" "same_level si s2" using c(2) by (simp_all add: same_level_def)
  have len: "length (si_peaks si) = max_num_peaks si" using a(1) by (simp add: arrays_ok_def)
  have "\<exists>si' full. try_pair ss rise fall si = Some (si', full) \<and> same_level si si' \<and> length (si_peaks si') = length (si_peaks si) \<and>
    (if full then num_peaks si' = max_num_peaks si' else num_peaks si' < max_num_peaks si')"
  proof (cases "0 \<le> r")
    case False
    then show ?thesis using p c mx room by (intro exI [of _ s2] exI [of _ False]) (simp add: try_pair_def)
  next
    case True
    have w: "wr (si_peaks s2) (int (num_peaks s2)) (last_peak s2) = Some ((si_peaks s2)[num_peaks s2 := last_peak s2])"
      using c(3,4) len room by (simp add: wr_def)
    show ?thesis using p c(1) True w mx c(3,4) room by (simp add: try_pair_def same_level_def)
  qed
  then obtain si' full where t: "try_pair ss rise fall si = Some (si', full)" "same_level si si'"
    "length (si_peaks si') = length (si_peaks si)" "if full then num_peaks si' = max_num_peaks si' else num_peaks si' < max_num_peaks si'"
    by blast
  have "num_peaks si' \<le> max_num_peaks si'" using t(4) by (cases full) simp_all
  then have "level_ok ss si'" using level_ok_same [OF ok t(2) try_pair_table [OF a(2) t(1)] t(3)] by simp
  then show ?thesis using t by blast
qed

lemma find_rising_ok:
  assumes "0 \<le> start" "i < int (length marks)"
  shows "\<exists>k. find_rising marks start i = Some k"
  using assms
proof (induction marks start i rule: find_rising.induct)
  case (1 marks start i)
  note e = find_rising.simps [of marks start i]
  show ?case
  proof (cases "i \<le> start")
    case True
    then show ?thesis unfolding e by simp
  next
    case False
    have r: "rd marks i = Some (marks ! nat i)" using "1.prems" False by simp
    show ?thesis using "1.IH" [OF False r] "1.prems" False r unfolding e by auto
  qed
qed

lemma find_falling_ok:
  assumes "0 \<le> i" "en \<le> int (length marks)"
  shows "\<exists>k. find_falling marks i en = Some k"
  using assms
proof (induction marks i en rule: find_falling.induct)
  case (1 marks i en)
  note e = find_falling.simps [of marks i en]
  show ?case
  proof (cases "en \<le> i")
    case True
    then show ?thesis unfolding e by simp
  next
    case False
    have r: "rd marks i = Some (marks ! nat i)" using "1.prems" False by simp
    show ?thesis using "1.IH" [OF False r] "1.prems" False r unfolding e by auto
  qed
qed

lemma rise_loop_ok:
  assumes "level_ok ss si" "num_peaks si < max_num_peaks si" "0 \<le> ll" "rise < fall" "fall < spectrum_len ss"
  shows "\<exists>si' full. rise_loop ss fall ll rise si = Some (si', full) \<and> level_ok ss si' \<and> same_level si si' \<and>
    (if full then num_peaks si' = max_num_peaks si' else num_peaks si' < max_num_peaks si')"
  using assms
proof (induction ss fall ll rise si rule: rise_loop.induct)
  case (1 ss fall ll rise si)
  note e = rise_loop.simps [of ss fall ll rise si]
  show ?case
  proof (cases "ll \<le> rise \<and> 0 \<le> rise")
    case False
    then show ?thesis using "1.prems"(1,2) unfolding e by auto
  next
    case True
    then obtain s1 f1 where t: "try_pair ss rise fall si = Some (s1, f1)" "level_ok ss s1" "same_level si s1"
      "if f1 then num_peaks s1 = max_num_peaks s1 else num_peaks s1 < max_num_peaks s1"
      using try_pair_ok [OF "1.prems"(1,2) _ "1.prems"(4,5)] by blast
    show ?thesis
    proof (cases f1)
      case full: True
      then show ?thesis using t True unfolding e by auto
    next
      case False
      have "int (length (peak_marks s1)) = spectrum_len ss" using t(2) by (simp add: level_ok_def arrays_ok_def)
      then obtain nr where nr: "find_rising (peak_marks s1) ll (rise - 1) = Some nr"
        using find_rising_ok [of ll "rise - 1" "peak_marks s1"] "1.prems"(3-5) by auto
      have lt: "nr < fall" using find_rising_bound [OF nr] "1.prems"(4) True by auto
      have room: "num_peaks s1 < max_num_peaks s1" using t(4) False by simp
      obtain s2 f2 where "rise_loop ss fall ll nr s1 = Some (s2, f2)" "level_ok ss s2" "same_level s1 s2"
        "if f2 then num_peaks s2 = max_num_peaks s2 else num_peaks s2 < max_num_peaks s2"
        using "1.IH" [OF True t(1) refl False nr t(2) room "1.prems"(3) lt "1.prems"(5)] by blast
      then show ?thesis using True t(1,3) False nr same_level_trans unfolding e by auto
    qed
  qed
qed

lemma fall_loop_ok:
  assumes "level_ok ss si" "num_peaks si < max_num_peaks si" "0 < si_w si" "0 \<le> start_idx si" "end_idx si < spectrum_len ss"
  shows "\<exists>si' full. fall_loop ss fall si = Some (si', full) \<and> level_ok ss si' \<and> same_level si si' \<and>
    (if full then num_peaks si' = max_num_peaks si' else num_peaks si' < max_num_peaks si')"
  using assms
proof (induction ss fall si rule: fall_loop.induct)
  case (1 ss fall si)
  note e = fall_loop.simps [of ss fall si]
  show ?case
  proof (cases "fall < end_idx si \<and> 0 \<le> fall")
    case False
    then show ?thesis using "1.prems"(1,2) unfolding e by auto
  next
    case True
    define l where "l = fall - si_w si * 150 div 100"
    define ll where "ll = (if l < start_idx si then start_idx si else l)"
    have ll: "0 \<le> ll" using "1.prems"(4) by (simp add: ll_def)
    have m: "int (length (peak_marks si)) = spectrum_len ss" using "1.prems"(1) by (simp add: level_ok_def arrays_ok_def)
    then obtain rise where rise: "find_rising (peak_marks si) ll (fall - si_w si) = Some rise"
      using find_rising_ok [OF ll, of "fall - si_w si" "peak_marks si"] True "1.prems"(3,5) by auto
    have lt: "rise < fall" "fall < spectrum_len ss" using find_rising_bound [OF rise] True "1.prems"(3,5) by auto
    obtain s1 f1 where t: "rise_loop ss fall ll rise si = Some (s1, f1)" "level_ok ss s1" "same_level si s1"
      "if f1 then num_peaks s1 = max_num_peaks s1 else num_peaks s1 < max_num_peaks s1"
      using rise_loop_ok [OF "1.prems"(1,2) ll lt] by blast
    have run: "fall_loop ss fall si = (if f1 then Some (s1, True)
         else Option.bind (find_falling (peak_marks s1) (fall + 1) (end_idx s1)) (\<lambda>nf. fall_loop ss nf s1))"
      using True rise t(1) unfolding e Let_def l_def [symmetric] ll_def [symmetric] by simp
    show ?thesis
    proof (cases f1)
      case full: True
      then show ?thesis using t unfolding run by auto
    next
      case False
      have s1: "0 < si_w s1" "0 \<le> start_idx s1" "end_idx s1 < spectrum_len ss" "int (length (peak_marks s1)) = spectrum_len ss"
        using t(3) "1.prems"(3-5) m by (simp_all add: same_level_def)
      then obtain nf where nf: "find_falling (peak_marks s1) (fall + 1) (end_idx s1) = Some nf"
        using find_falling_ok [of "fall + 1" "end_idx s1" "peak_marks s1"] True by auto
      have room: "num_peaks s1 < max_num_peaks s1" using t(4) False by simp
      obtain s2 f2 where "fall_loop ss nf s1 = Some (s2, f2)" "level_ok ss s2" "same_level s1 s2"
        "if f2 then num_peaks s2 = max_num_peaks s2 else num_peaks s2 < max_num_peaks s2"
        using "1.IH" [OF True l_def ll_def rise t(1) refl False nf t(2) room s1(1-3)] by blast
      then show ?thesis using False nf t(3) same_level_trans unfolding run by auto
    qed
  qed
qed

lemma scan_level_ok:
  assumes ok: "level_ok ss si" and room: "num_peaks si < max_num_peaks si" and w: "0 < w"
  shows "\<exists>si' r. scan_level ss si w = Some (si', r) \<and> level_ok ss si' \<and> max_num_peaks si' = max_num_peaks si \<and>
    (if r = - 1 then num_peaks si' = max_num_peaks si else r = 0 \<and> num_peaks si' < max_num_peaks si) \<and>
    edges_ok FALLING w (falls ss si') (peak_marks si') \<and> edges_ok RISING w (rises ss si') (peak_marks si')"
proof -
  let ?s = "si\<lparr>si_w := w\<rparr>"
  have a: "arrays_ok ss ?s" using ok by (simp add: level_ok_def arrays_ok_def)
  have ws: "si_w ?s = w" "last_peak ?s = last_peak si" by simp_all
  obtain marks where i: "spectral_init_level ss ?s = Some (?s\<lparr>start_idx := (if w * 16 div 200 = 0 then 1 else w * 16 div 200),
      end_idx := (if w * 16 div 200 = 0 then spectrum_len ss - 1 else spectrum_len ss - w * 16 div 200),
      last_peak := (last_peak si)\<lparr>pk_idx := - 1\<rparr>, peak_marks := marks\<rparr>)" "int (length marks) = spectrum_len ss"
    "edges_ok FALLING w (falls ss ?s) marks" "edges_ok RISING w (rises ss ?s) marks"
    using init_level_ok [OF a, unfolded ws] w by (auto simp only:)
  define s1 where "s1 = ?s\<lparr>start_idx := (if w * 16 div 200 = 0 then 1 else w * 16 div 200),
      end_idx := (if w * 16 div 200 = 0 then spectrum_len ss - 1 else spectrum_len ss - w * 16 div 200),
      last_peak := (last_peak si)\<lparr>pk_idx := - 1\<rparr>, peak_marks := marks\<rparr>"
  have pos: "w * 16 div 200 = 0 \<or> 0 < w * 16 div 200" using w by (auto simp: order_le_less)
  have s1: "level_ok ss s1" "num_peaks s1 < max_num_peaks s1" "0 < si_w s1" "0 \<le> start_idx s1" "end_idx s1 < spectrum_len ss"
    "int (length (peak_marks s1)) = spectrum_len ss" "end_idx s1 \<le> spectrum_len ss" "max_num_peaks s1 = max_num_peaks si"
    using ok room w i(2) pos by (auto simp: s1_def level_ok_def arrays_ok_def scan_ok_def)
  obtain fall where fall: "find_falling (peak_marks s1) (start_idx s1) (end_idx s1) = Some fall"
    using find_falling_ok [OF s1(4), of "end_idx s1" "peak_marks s1"] s1(5,6) by auto
  obtain s2 full where f: "fall_loop ss fall s1 = Some (s2, full)" "level_ok ss s2" "same_level s1 s2"
    "if full then num_peaks s2 = max_num_peaks s2 else num_peaks s2 < max_num_peaks s2"
    using fall_loop_ok [OF s1(1-5)] by blast
  have "scan_level ss si w = Some (s2, if full then - 1 else 0)"
    using i(1) fall f(1) unfolding s1_def [symmetric] by (simp add: scan_level_def)
  moreover have "falls ss s2 = falls ss ?s" "rises ss s2 = rises ss ?s"
    using f(3) by (simp_all add: fun_eq_iff falls_def rises_def falling_response_def rising_response_def same_level_def s1_def)
  moreover have "peak_marks s2 = marks" "max_num_peaks s2 = max_num_peaks si" using f(3) by (simp_all add: same_level_def s1_def)
  ultimately show ?thesis using f(2,4) i(3,4) by (cases full) auto
qed

lemma scan_windows_ok:
  assumes "level_ok ss si" "num_peaks si < max_num_peaks si" "\<forall>w \<in> set ws. 0 < w"
  shows "(\<exists>si'. scan_windows ss ws si = Some si' \<and> level_ok ss si' \<and> num_peaks si' < max_num_peaks si') \<or>
    (\<exists>vs us si'. ws = vs @ us \<and> scan_windows ss vs si = Some si' \<and> level_ok ss si' \<and> num_peaks si' = max_num_peaks si')"
  using assms
proof (induction ws arbitrary: si)
  case (Cons w ws)
  obtain s1 r where s: "scan_level ss si w = Some (s1, r)" "level_ok ss s1" "max_num_peaks s1 = max_num_peaks si"
    "if r = - 1 then num_peaks s1 = max_num_peaks si else r = 0 \<and> num_peaks s1 < max_num_peaks si"
    using scan_level_ok [OF Cons.prems(1,2)] Cons.prems(3) by (metis list.set_intros(1))
  show ?case
  proof (cases "r = - 1")
    case True
    then show ?thesis using s by (intro disjI2 exI [of _ "[w]"] exI [of _ ws] exI [of _ s1]) simp
  next
    case False
    then have "num_peaks s1 < max_num_peaks s1" using s(3,4) by simp
    from Cons.IH [OF s(2) this] Cons.prems(3) consider
      (all) si' where "scan_windows ss ws s1 = Some si'" "level_ok ss si'" "num_peaks si' < max_num_peaks si'"
      | (full) vs us si' where "ws = vs @ us" "scan_windows ss vs s1 = Some si'" "level_ok ss si'" "num_peaks si' = max_num_peaks si'"
      by auto
    then show ?thesis
    proof cases
      case all
      then show ?thesis using s(1) by auto
    next
      case full
      then show ?thesis using s(1) by (intro disjI2 exI [of _ "w # vs"] exI [of _ us] exI [of _ si']) simp
    qed
  qed
qed simp

text \<open>The mean of a window is that of its levels, though the sums over the spectrum may have wrapped around.\<close>

lemma window_power_exact:
  assumes "running_sum pout psig n = Some rs" "int (length pout) = n" "n \<le> int (length psig)" "0 < w" "w \<le> i" "i < n"
    "\<bar>\<Sum>j \<in> {i - w + 1..i}. psig ! nat j\<bar> < 2 ^ 31"
  shows "s32 (rs ! nat i - rs ! nat (i - w)) = (\<Sum>j \<in> {i - w + 1..i}. psig ! nat j)"
proof -
  have n: "0 < n" using assms(4-6) by linarith
  have sums: "rs ! nat k = s32 (psig ! 0 + (\<Sum>j \<in> {0..k}. psig ! nat j))" if "0 \<le> k" "k < n" for k
    using running_sum_ok [OF n assms(2,3)] assms(1) that by auto
  have split: "{0..i} = {0..i - w} \<union> {i - w + 1..i}" using assms(4,5) by auto
  have "(\<Sum>j \<in> {0..i}. psig ! nat j) = (\<Sum>j \<in> {0..i - w}. psig ! nat j) + (\<Sum>j \<in> {i - w + 1..i}. psig ! nat j)"
    unfolding split by (rule sum.union_disjoint) auto
  then have "s32 (rs ! nat i - rs ! nat (i - w)) = s32 (\<Sum>j \<in> {i - w + 1..i}. psig ! nat j)"
    using sums [of i] sums [of "i - w"] assms(4-6) by simp
  then show ?thesis using assms(7) s32_id [of "\<Sum>j \<in> {i - w + 1..i}. psig ! nat j"] by simp
qed

definition demo_spectrum :: "int list \<Rightarrow> nat \<Rightarrow> spectrum_scan_state" where
  "demo_spectrum s n = \<lparr>threshold = 3000, threshold2 = 3000, mincount = 1, snr_w = 35, ss_freq = map (\<lambda>k. 50 * int k) [0..<n],
     ss_spectrum = s, candidates = [], spectrum_len = int n, num_candidates = 0, scan_in_progress = True\<rparr>"

definition spiky :: "int list" where
  "spiky = [0, -4000, 0, -4000, 0, 0, -4000, 0, -4000, 0, 0, -4000, 0, 0, -4000, -4000, 10000, 30000, -4000, 0, 0, -4000, 0, 0, -4000, 0, 0, -4000]"

definition demo_arrays :: "int list \<Rightarrow> nat \<Rightarrow> nat \<Rightarrow> int \<Rightarrow> scan_internal" where
  "demo_arrays s n peaks w = no_scan\<lparr>si_rs := the (running_sum (replicate n 0) s (int n)), si_noise := the (noise_est (replicate n 0) s (int n)),
     peak_marks := replicate n 0, si_peaks := replicate peaks no_peak, max_num_peaks := peaks, si_w := w\<rparr>"

text \<open>
  A spectrum on which a candidate reads the level behind the end: a spike before the end of a
  narrow candidate makes the top end before it begins.
\<close>

lemma candidate_reads_behind: "process_candidate (demo_spectrum spiky 28) (demo_arrays spiky 28 1 24) 2 26 = None"
  by code_simp

lemma level_reads_behind: "scan_level (demo_spectrum spiky 28) (demo_arrays spiky 28 4 24) 24 = None"
  by code_simp

text \<open>
  A full table: the next candidate that passes the thresholds and conflicts with no peak is
  written behind its end.  The loop over the levels goes on after a level that filled the table.
\<close>

theorem full_table_overflows:
  assumes "process_candidate ss si rise fall = Some si1" "num_peaks si = length (si_peaks si)"
    "threshold2 ss \<le> mean_snr (last_peak si1)" "threshold ss < dip_snr (last_peak si1)"
    "\<forall>q \<in> set (si_peaks si). is_better_than q (last_peak si1) = 0"
  shows "try_pair ss rise fall si = None"
proof -
  have same: "si_peaks si1 = si_peaks si" "num_peaks si1 = num_peaks si" using process_same [OF assms(1)] by simp_all
  have sv: "survivors c qs = qs" if "\<forall>q \<in> set qs. is_better_than q c = 0" for c qs using that by (induction qs) auto
  have nb: "\<not> beaten (last_peak si1) (si_peaks si)" using assms(5) by (auto simp: beaten_def)
  obtain ps num where r: "check_loop (last_peak si1) 0 (si_peaks si) (num_peaks si) = Some (ps, num, 0)" "length ps = length (si_peaks si)"
      "take num ps = si_peaks si" "num \<le> num_peaks si"
    using check_loop_ok [of "num_peaks si" "si_peaks si" 0 "last_peak si1"] assms(2) sv [OF assms(5)] nb by auto
  have "length (take num ps) = length (si_peaks si)" using r(3) by simp
  then have "num = length (si_peaks si)" using r(2,4) assms(2) by simp
  then show ?thesis using assms(1,3,4) r(1,2) same
    by (simp add: try_pair_def check_candidate_tp_def Let_def wr_def)
qed

lemma arrays_demo:
  assumes "2 \<le> n" "n < length s"
  shows "arrays_ok (demo_spectrum s n) (demo_arrays s n peaks w)"
proof -
  obtain rs where rs: "running_sum (replicate n 0) s (int n) = Some rs" "int (length rs) = int n"
    using running_sum_ok [of "int n" "replicate n 0" s] assms by auto
  obtain ns where ns: "noise_est (replicate n 0) s (int n) = Some ns" "int (length ns) = int n"
    using noise_est_ok [of "int n" "replicate n 0" s] assms by auto
  show ?thesis using rs ns assms by (simp add: arrays_ok_def demo_spectrum_def demo_arrays_def no_scan_def)
qed

subsection \<open>Properties\<close>



end
