(* ===== verification/Spec2Isabelle.thy ===== *)
theory Spec2Isabelle
  imports RingBuffer DvbMath DemuxControl CamProps NetInterface DmxProps ScanProps
begin

text \<open>
  \<^bold>\<open>The neumo DVB core: models and theorems\<close>

  The neumo drivers are the Linux DVB core (src/neumo/dvb-core) with drivers for demodulators,
  tuners and bridges around it.  This library models the core: a driver puts the bytes of a
  transport stream into the demux; the demux finds the packets, cuts embedded streams
  (baseband frames in a stid135 or T2-MI encapsulation) out of them, and gives each packet to the
  feeds that want it; a feed passes packets, payloads or whole sections to its user through a
  callback.  One user is the demux device, whose filters buffer sections and packets for programs
  that read them; another is the network interface, which takes network packets out of cells
  (ULE) or sections (MPE).  Beside the demux stand the interface of the common access modules (CAM), the
  ring buffer both of them use, and the blind scan, which looks for transponders in a spectrum.

  \<^bold>\<open>Theories, and the code they model\<close>

  \<^item> Prelude: types of bytes and words, memory access that fails out of bounds (\<open>memread\<close>, \<open>mem_at\<close>,
    \<open>memcpy\<close>), error numbers, lemmas on lists and options.
  \<^item> RingBuffer (dvb_ringbuffer.c, dvb_ringbuffer.h): \<open>dvb_ringbuffer\<close> with its read and write position;
    byte and packet operations, copies from and to user space that fault.  A ring buffer refines a
    FIFO; one producer and one consumer need no lock (a step relation of copies and pointer
    updates); packets are read back.
  \<^item> DvbMath (dvb_math.c): \<open>intlog2\<close> and \<open>intlog10\<close> on 32 bit words, with their bounds.
  \<^item> DemuxFeed (neumo-dvb-demux.c, the functions on one feed): payloads, reassembly of sections,
    section filters.  Sections do not depend on the packets they are cut into; a feed stays inside
    its buffer; a filter delivers what its value, mask and mode say.
  \<^item> Crc (the tables and loops of CRC-8 and CRC-32 of neumo-dvb-demux.c): tables against bitwise division,
    detection of bursts.
  \<^item> BBFrames, EmbeddedStreams (baseband frames, stid135 and T2-MI streams of neumo-dvb-demux.c): the block
    copies against a bytewise reading, round trip of packets through frames, demultiplexing of
    streams, the table of streams; loops that do not end and accesses behind a buffer.
  \<^item> Demux (\<open>dvb_dmx_swfilter\<close> and what it calls): the distribution of packets, the continuity check, the
    buffers of the driver.  How the bytes are cut into buffers does not matter; a packet goes to
    exactly the feeds it is for; the entry points end and stay in their buffer.
  \<^item> DemuxControl (the API of the demux): pools, reference counts, allocation, start, stop and release.
    Invariants over all sequences of calls (\<open>feeds_consistent\<close>, \<open>stream_refs\<close>).
  \<^item> DmxBuffer, DmxDevice, DmxIoctl (neumo-dmxdev.c): the filters of the demux device with their buffers,
    callbacks, timer and read; start, stop and restart of filters on the model of DemuxControl;
    the ioctls, open and release, the DVR device.  DmxReading, DmxSections: a blocking read gets
    every byte; a section filter refines a queue of sections; no reader makes it leave its
    buffers.  DmxFrames, DmxUsers, DmxProps: section filters of many files share feeds, and
    whatever calls are made each running filter is served (\<open>users_ok\<close>, \<open>alive\<close>); sections go
    unchanged from packets to the program that reads.
  \<^item> PacketQueue, CamSlot, CamIo (neumo-dvb-ca-en50221.c): the packet queue of a slot, the registers, the link
    layer and the tuples of a module, the state machine, ioctl, read, write, poll, open.
    CamMessages, CamInv, CamStates, CamProtocol and CamProps hold the messages cut into fragments, the
    invariant of the interface, the life of a slot, the protocol on the registers, and the
    properties.
  \<^item> NetUle (neumo-dvb-net.c, ULE): cells, packets, extension headers, delivery.  NetCells: the decoder stays in
    its cell and its buffers and ends.  NetPackets: a sender of RFC 4326 and the round trip.
  \<^item> NetSections (\<open>dvb_net_sec\<close>): packets in sections.  NetControl, NetFeeds, NetInterface: the filters and feeds of
    an interface on the model of DemuxControl, modes of reception, queued work, the table of
    interfaces and its ioctls.  An interface and the demux stay consistent (\<open>net_run\<close>), and an
    interface that was opened in unicast mode receives exactly the packets for its address.
  \<^item> Scan (neumo-scan.c): sums over the spectrum, edges, candidates and the table of peaks, levels, the
    whole scan.  ScanParts, ScanProps: a level stays in its arrays, marks edges only where the level
    falls or rises by more than the threshold, and keeps the table of peaks without conflicts.

  \<^bold>\<open>How the code is modelled\<close>

  A struct is a record, an enum a datatype, an integer of fixed width a word where its width
  matters and a nat or int where it cannot overflow.  A function of the code is a definition of
  the same name; the body of a loop or a part of a long function has a name of its own.  State goes
  through the calls.  \<^const>\<open>None\<close> is an access out of bounds, to an object that is gone or through a
  null pointer, a mutex that is taken twice, or a loop that has no fuel left; an error number is a
  negative result.  Code outside the repository is a parameter: the hardware of a CAM (a record of
  functions), \<open>start_feed\<close> and \<open>stop_feed\<close> of a driver, user callbacks, \<open>crc32_be\<close>, signals
  (\<open>intr\<close>), failing allocations (\<open>oom\<close>).  Allocations whose result the code checks can fail;
  those it does not check (a new stream of an embedding, the sets of feeds of a stream and of the
  demux) or goes on without (the table of counters) are taken to succeed.

  \<^bold>\<open>Fuel\<close>

  Loops whose end is not evident have fuel: those of the T2-MI receiver and of the CAM write, the
  extension headers of ULE, the loop over a cell.  Where the loop ends a theorem says which fuel is
  enough: one turn more than bytes asked for in a read of a buffer, 192 turns for a cell (\<open>turns_left\<close>: one for the discontinuity, one for the header, one for
  every byte), one turn for each optional extension header.  Where it does not, a theorem says
  that no fuel is enough.

  \<^bold>\<open>Not modelled\<close>

  Locks of one object other than the mutex of the demux (each call is one step), wait queues,
  debug output and statistics that only feed it; opening and naming of device nodes, sysfs,
  videobuf2 (calls of kernel services; the filters of the demux device are taken not to stream
  through it); the copies of the core against the stock kernel API; the frontend thread;
  and the drivers of chips and boards, which program registers whose meaning is in
  the hardware.
\<close>

end
